(* ===== verification/Prelude.thy ===== *)
theory Prelude
  imports Main "HOL-Library.Word" "HOL-Library.AList" "HOL-Library.Multiset"
begin

text \<open>
  Shared vocabulary of the development: the identifier types of \<open>record.rs\<close> and
  \<open>source/mod.rs\<close>, the machine arithmetic the sources use (saturating \<open>usize\<close>, wrapping
  \<open>i64\<close>), \<open>HashMap\<close>s as association lists in an arbitrary iteration order, and the
  theorem collections the component theories feed.

  Conventions.
  \<^item> A Rust panic is the value \<^const>\<open>None\<close> of an option result.
  \<^item> \<open>Instant\<close> and \<open>Duration\<close> are \<^typ>\<open>nat\<close> nanoseconds on one monotonic clock; reading
    the clock is an argument (\<open>now\<close>) of the operation that reads it.
  \<^item> Counters that start at zero and grow by one per batch (sequence numbers, epochs) are
    \<^typ>\<open>nat\<close>; offsets are \<^typ>\<open>int\<close> with the \<open>i64\<close> wrap-around written out.
  \<^item> Code runs with the release profile of \<open>Cargo.toml\<close>: \<open>debug_assert!\<close> is compiled out
    and integer overflow wraps.
\<close>

section \<open>Theorem collections\<close>

named_theorems ack_simps \<open>computation rules of the acknowledgment heap\<close>
named_theorems heap_ok_intros \<open>how each operation moves owned handles\<close>
named_theorems frame_simps \<open>fields an operation leaves alone\<close>

section \<open>Identifiers\<close>

datatype partition_id = PartitionId (pid_val: nat)

instantiation partition_id :: linorder
begin

definition less_eq_partition_id :: "partition_id \<Rightarrow> partition_id \<Rightarrow> bool" where
  "less_eq_partition_id p q \<longleftrightarrow> pid_val p \<le> pid_val q"

definition less_partition_id :: "partition_id \<Rightarrow> partition_id \<Rightarrow> bool" where
  "less_partition_id p q \<longleftrightarrow> pid_val p < pid_val q"

instance
  by standard (auto simp: less_eq_partition_id_def less_partition_id_def partition_id.expand)

end

lemma partition_id_le [simp]: "PartitionId a \<le> PartitionId b \<longleftrightarrow> a \<le> b"
  by (simp add: less_eq_partition_id_def)

lemma partition_id_less [simp]: "PartitionId a < PartitionId b \<longleftrightarrow> a < b"
  by (simp add: less_partition_id_def)

type_synonym instant = nat
type_synonym duration = nat
type_synonym bytes = "8 word list"

text \<open>
  An \<open>Instant\<close> is counted in nanoseconds. Its range ends at \<open>instant_max\<close>, and \<open>Instant::checked_add\<close>
  says so; sums the code writes with \<open>+\<close>, which panic past the range, are taken to stay in it.
\<close>

definition instant_max :: instant where
  "instant_max = 2 ^ 63 * 10 ^ 9 - 1"

definition checked_add :: "instant \<Rightarrow> duration \<Rightarrow> instant option" where
  "checked_add t d = (if t + d \<le> instant_max then Some (t + d) else None)"

section \<open>Machine integers\<close>

text \<open>\<open>usize\<close> is 64 bits wide; \<open>saturating_add\<close> and \<open>saturating_sub\<close> clamp at its ends.\<close>

definition usize_max :: nat where
  "usize_max = 2 ^ 64 - 1"

definition sat_add :: "nat \<Rightarrow> nat \<Rightarrow> nat" where
  "sat_add a b = min usize_max (a + b)"

definition sat_sub :: "nat \<Rightarrow> nat \<Rightarrow> nat" where
  "sat_sub a b = a - b"

lemma sat_add_le_max: "sat_add a b \<le> usize_max"
  by (simp add: sat_add_def)

lemma sat_add_exact: "a + b \<le> usize_max \<Longrightarrow> sat_add a b = a + b"
  by (simp add: sat_add_def)

lemma sat_sub_add_cancel: "a + b \<le> usize_max \<Longrightarrow> sat_sub (sat_add a b) b = a"
  by (simp add: sat_add_def sat_sub_def)

definition i64_max :: int where
  "i64_max = 2 ^ 63 - 1"

text \<open>Two's-complement wrap-around of \<open>i64\<close> arithmetic in a release build.\<close>

definition wrap_i64 :: "int \<Rightarrow> int" where
  "wrap_i64 x = (x + 2 ^ 63) mod 2 ^ 64 - 2 ^ 63"

lemma wrap_i64_id: "- (2 ^ 63) \<le> x \<Longrightarrow> x \<le> i64_max \<Longrightarrow> wrap_i64 x = x"
  by (simp add: wrap_i64_def i64_max_def)

lemma wrap_i64_succ: "- (2 ^ 63) \<le> x \<Longrightarrow> x < i64_max \<Longrightarrow> wrap_i64 (x + 1) = x + 1"
  by (rule wrap_i64_id) (simp_all add: i64_max_def)

section \<open>Text\<close>

text \<open>\<open>Display\<close> for unsigned integers: decimal digits, most significant first.\<close>

definition digit :: "nat \<Rightarrow> char" where
  "digit d = char_of (48 + d)"

fun decimal :: "nat \<Rightarrow> string" where
  "decimal n = (if n < 10 then [digit n] else decimal (n div 10) @ [digit (n mod 10)])"

declare decimal.simps [simp del]

definition undecimal :: "string \<Rightarrow> nat" where
  "undecimal s = foldl (\<lambda>n c. n * 10 + (of_char c - 48)) 0 s"

lemma undecimal_decimal: "undecimal (decimal n) = n"
proof (induction n rule: decimal.induct)
  case (1 n)
  have digit: "of_char (digit d) - 48 = d" if "d < 10" for d :: nat
    using that by (simp add: digit_def)
  show ?case
  proof (cases "n < 10")
    case True
    then show ?thesis by (simp add: decimal.simps [of n] undecimal_def digit)
  next
    case False
    have "undecimal (decimal n) = undecimal (decimal (n div 10)) * 10 + n mod 10"
      using False by (simp add: decimal.simps [of n] undecimal_def digit)
    with 1 False show ?thesis by simp
  qed
qed

lemma decimal_inject: "decimal m = decimal n \<longleftrightarrow> m = n"
  by (metis undecimal_decimal)

section \<open>Hash maps as association lists\<close>

text \<open>
  A \<open>FastMap\<close> is an association list with distinct keys; its order is the map's iteration
  order, which the sources never rely on. \<open>amap_of\<close> is \<open>collect\<close>: later entries replace
  earlier ones.
\<close>

definition amap_of :: "('k \<times> 'v) list \<Rightarrow> ('k \<times> 'v) list" where
  "amap_of kvs = fold (\<lambda>(k, v) m. AList.update k v m) kvs []"

definition akeys :: "('k \<times> 'v) list \<Rightarrow> 'k list" where
  "akeys m = map fst m"

lemma distinct_akeys_update [simp]:
  "distinct (akeys m) \<Longrightarrow> distinct (akeys (AList.update k v m))"
  by (simp add: akeys_def distinct_update)

lemma distinct_akeys_delete [simp]:
  "distinct (akeys m) \<Longrightarrow> distinct (akeys (AList.delete k m))"
  by (simp add: akeys_def distinct_delete)

lemma set_akeys_update [simp]: "set (akeys (AList.update k v m)) = insert k (set (akeys m))"
  by (simp add: akeys_def dom_update)

lemma set_akeys_delete [simp]: "set (akeys (AList.delete k m)) = set (akeys m) - {k}"
  by (induction m) (auto simp: akeys_def)

lemma map_of_update [simp]: "map_of (AList.update k v m) = (map_of m)(k \<mapsto> v)"
  by (rule update_conv')

lemma map_of_delete [simp]: "map_of (AList.delete k m) = (map_of m)(k := None)"
  by (rule delete_conv')

lemma map_of_None_iff: "map_of m k = None \<longleftrightarrow> k \<notin> set (akeys m)"
  by (simp add: akeys_def map_of_eq_None_iff)

lemma amap_fold_keys:
  "set (akeys (fold (\<lambda>(k, v) m. AList.update k v m) kvs m)) = fst ` set kvs \<union> set (akeys m)"
  by (induction kvs arbitrary: m) auto

lemma amap_fold_distinct:
  "distinct (akeys m) \<Longrightarrow> distinct (akeys (fold (\<lambda>(k, v) m. AList.update k v m) kvs m))"
  by (induction kvs arbitrary: m) auto

lemma amap_fold_const:
  "map_of (fold (\<lambda>(k, v) m. AList.update k v m) (map (\<lambda>k. (k, c)) ks) m) k
     = (if k \<in> set ks then Some c else map_of m k)"
  by (induction ks arbitrary: m) auto

lemma set_akeys_amap_of [simp]: "set (akeys (amap_of kvs)) = fst ` set kvs"
  by (simp add: amap_of_def amap_fold_keys) (simp add: akeys_def)

lemma distinct_akeys_amap_of [simp]: "distinct (akeys (amap_of kvs))"
  unfolding amap_of_def by (rule amap_fold_distinct) (simp add: akeys_def)

lemma map_of_amap_of_const:
  "map_of (amap_of (map (\<lambda>k. (k, c)) ks)) k = (if k \<in> set ks then Some c else None)"
  by (simp add: amap_of_def amap_fold_const)

lemma mset_alist_update:
  "map_of m k = Some v \<Longrightarrow> add_mset (k, v) (mset (AList.update k v' m)) = add_mset (k, v') (mset m)"
  by (induction m) (auto simp: add_mset_commute)

lemma mset_alist_delete:
  "distinct (akeys m) \<Longrightarrow> map_of m k = Some v \<Longrightarrow> add_mset (k, v) (mset (AList.delete k m)) = mset m"
proof (induction m)
  case (Cons x m)
  show ?case
  proof (cases "fst x = k")
    case True
    then have "k \<notin> fst ` set m" using Cons.prems(1) by (auto simp: akeys_def)
    then have "filter (\<lambda>(k', _). k \<noteq> k') m = m" by (force simp: filter_id_conv)
    with True Cons.prems(2) show ?thesis by (cases x) (simp add: AList.delete_eq)
  next
    case False
    with Cons show ?thesis by (cases x) (auto simp: akeys_def add_mset_commute)
  qed
qed simp

lemma alist_update_fresh: "k \<notin> set (akeys m) \<Longrightarrow> AList.update k v m = m @ [(k, v)]"
  by (induction m) (auto simp: akeys_def)

lemma sum_alist_update:
  "map_of m k = Some v \<Longrightarrow>
     sum_list (map f (AList.update k v' m)) + f (k, v) = sum_list (map f m) + (f (k, v') :: 'm::comm_monoid_add)"
  by (induction m) (auto simp: ac_simps)

lemma sum_alist_delete:
  fixes f :: "'k \<times> 'v \<Rightarrow> 'm::comm_monoid_add"
  assumes "distinct (akeys m)" and "map_of m k = Some v"
  shows "sum_list (map f (AList.delete k m)) + f (k, v) = sum_list (map f m)"
proof -
  have "sum_mset (image_mset f (add_mset (k, v) (mset (AList.delete k m)))) = sum_mset (image_mset f (mset m))"
    by (simp only: mset_alist_delete [OF assms])
  then show ?thesis by (simp add: sum_mset_sum_list add.commute flip: mset_map)
qed

lemma length_alist_delete:
  "distinct (akeys m) \<Longrightarrow> map_of m k = Some v \<Longrightarrow> Suc (length (AList.delete k m)) = length m"
  by (drule (1) mset_alist_delete) (metis size_add_mset size_mset)

lemma map_alist_update_same:
  "map_of m k = Some v \<Longrightarrow> f (k, v') = f (k, v) \<Longrightarrow> map f (AList.update k v' m) = map f m"
  by (induction m) auto

lemma set_alist_update_sub: "set (AList.update k v m) \<subseteq> insert (k, v) (set m)"
  by (induction m) auto

lemma set_alist_delete_sub: "set (AList.delete k m) \<subseteq> set m"
  by (auto simp: AList.delete_eq)

lemma akeys_simps [simp]: "akeys [] = []" "akeys (m @ [(k, v)]) = akeys m @ [k]"
  by (simp_all add: akeys_def)

lemma list_all_alist_update: "list_all P m \<Longrightarrow> P (k, v) \<Longrightarrow> list_all P (AList.update k v m)"
  by (induction m) auto

lemma list_all_alist_delete: "list_all P m \<Longrightarrow> list_all P (AList.delete k m)"
  by (induction m) auto

lemma list_all_map_of: "list_all P m \<Longrightarrow> map_of m k = Some v \<Longrightarrow> P (k, v)"
  by (auto simp: list_all_iff dest: map_of_SomeD)

section \<open>Runs and simulations\<close>

text \<open>
  A component seen from outside: each operation gives an answer and a new state, or panics.
  \<open>run_ops\<close> performs a sequence of operations and collects the answers.
\<close>

fun run_ops :: "('o \<Rightarrow> 's \<Rightarrow> ('r \<times> 's) option) \<Rightarrow> 'o list \<Rightarrow> 's \<Rightarrow> ('r list \<times> 's) option" where
  "run_ops step [] s = Some ([], s)"
| "run_ops step (x # xs) s =
     (case step x s of
        None \<Rightarrow> None
      | Some (r, s') \<Rightarrow>
          (case run_ops step xs s' of None \<Rightarrow> None | Some (rs, s'') \<Rightarrow> Some (r # rs, s'')))"

lemma run_ops_Cons:
  "run_ops step (x # xs) s = Some (rs, s'') \<longleftrightarrow>
     (\<exists>r s' rs'. step x s = Some (r, s') \<and> run_ops step xs s' = Some (rs', s'') \<and> rs = r # rs')"
  by (auto split: option.splits prod.splits)

lemma run_ops_append:
  "run_ops step (xs @ ys) s = Some (rs, s'') \<longleftrightarrow>
     (\<exists>r1 r2 s'. run_ops step xs s = Some (r1, s') \<and> run_ops step ys s' = Some (r2, s'') \<and> rs = r1 @ r2)"
proof (induction xs arbitrary: s rs)
  case (Cons x xs)
  show ?case
    unfolding append_Cons run_ops_Cons Cons.IH by (metis append_Cons)
qed simp

lemma run_ops_snoc:
  "run_ops step (xs @ [x]) s = Some (rs, s'') \<longleftrightarrow>
     (\<exists>rs' r s'. run_ops step xs s = Some (rs', s') \<and> step x s' = Some (r, s'') \<and> rs = rs' @ [r])"
  unfolding run_ops_append run_ops_Cons by auto

lemma run_ops_length: "run_ops step xs s = Some (rs, s') \<Longrightarrow> length rs = length xs"
  by (induction xs arbitrary: s rs) (auto split: option.splits prod.splits)

locale simulation =
  fixes cstep :: "'o \<Rightarrow> 'c \<Rightarrow> ('r \<times> 'c) option"
    and astep :: "'o \<Rightarrow> 'a \<Rightarrow> ('r \<times> 'a) option"
    and sim :: "'c \<Rightarrow> 'a \<Rightarrow> bool"
  assumes sim_step: "sim c a \<Longrightarrow>
    rel_option (\<lambda>(r, c') (r', a'). r = r' \<and> sim c' a') (cstep x c) (astep x a)"
begin

lemma sim_run:
  "sim c a \<Longrightarrow>
     rel_option (\<lambda>(rs, c') (rs', a'). rs = rs' \<and> sim c' a') (run_ops cstep xs c) (run_ops astep xs a)"
proof (induction xs arbitrary: c a)
  case (Cons x xs)
  from sim_step [OF Cons.prems, of x] show ?case
  proof (cases rule: option.rel_cases)
    case (Some rc ra)
    then obtain r c' a' where "rc = (r, c')" "ra = (r, a')" "sim c' a'"
      by (cases rc; cases ra) auto
    with Some Cons.IH [of c' a'] show ?thesis
      by (auto elim!: option.rel_cases)
  qed simp
qed simp

lemma same_answers:
  "sim c a \<Longrightarrow> map_option fst (run_ops cstep xs c) = map_option fst (run_ops astep xs a)"
  by (drule sim_run [where xs = xs]) (auto elim!: option.rel_cases)

end

section \<open>Lists\<close>

lemma mset_update_swap:
  "i < length xs \<Longrightarrow> add_mset (xs ! i) (mset (xs[i := y])) = add_mset y (mset xs)"
  by (simp add: mset_update)

lemma last_snoc_take: "i < length xs \<Longrightarrow> take (Suc i) xs = take i xs @ [xs ! i]"
  by (rule take_Suc_conv_app_nth)

lemma distinct_sub_mset:
  assumes "mset xs \<subseteq># mset ys" and "distinct ys"
  shows "distinct xs"
proof -
  obtain zs where "mset zs = mset ys - mset xs" using ex_mset by blast
  with assms(1) have "mset (xs @ zs) = mset ys" by simp
  with assms(2) have "distinct (xs @ zs)" by (metis mset_eq_imp_distinct_iff)
  then show ?thesis by simp
qed

lemma nth_upd: "j < length xs \<Longrightarrow> xs[i := y] ! j = (if i = j then y else xs ! j)"
  by (cases "i = j") simp_all

lemma sum_list_split_nth:
  fixes f :: "'a \<Rightarrow> 'm::comm_monoid_add"
  assumes "i < length xs"
  shows "sum_list (map f xs) = f (xs ! i) + sum_list (map f (take i xs @ drop (Suc i) xs))"
proof -
  have "sum_list (map f xs) = sum_list (map f (take i xs @ xs ! i # drop (Suc i) xs))"
    using id_take_nth_drop [OF assms] by simp
  then show ?thesis by (simp add: ac_simps)
qed

lemma read_more:
  assumes "drop n xs = ys @ zs" and "n \<le> length xs"
  shows "drop (n + length ys) xs = zs" "take (n + length ys) xs = take n xs @ ys" "n + length ys \<le> length xs"
proof -
  obtain pre where "xs = pre @ ys @ zs" "length pre = n"
    using assms append_take_drop_id [of n xs] by (metis length_take min.absorb2)
  then show "drop (n + length ys) xs = zs" "take (n + length ys) xs = take n xs @ ys" "n + length ys \<le> length xs"
    by auto
qed

lemma sum_list_map_upd:
  "i < length xs \<Longrightarrow>
     sum_list (map f (xs[i := y])) + f (xs ! i) = sum_list (map f xs) + (f y :: 'm::comm_monoid_add)"
proof (induction xs arbitrary: i)
  case (Cons x xs)
  show ?case
  proof (cases i)
    case (Suc j)
    with Cons.IH [of j] Cons.prems show ?thesis
      by (simp add: add.assoc)
  qed (simp add: ac_simps)
qed simp

lemma map_upd_same: "f y = f (xs ! i) \<Longrightarrow> map f (xs[i := y]) = map f xs"
  by (metis list_update_id map_update)

lemma list_all_upd: "list_all P xs \<Longrightarrow> P y \<Longrightarrow> list_all P (xs[i := y])"
  by (auto simp: list_all_iff dest!: set_update_subset_insert [THEN subsetD])

lemma mset_shift:
  fixes A :: "'a multiset"
  assumes "A + x = B + y" and "x \<subseteq># y"
  shows "A = B + (y - x)"
proof -
  obtain z where "y = x + z" using assms(2) by (metis mset_subset_eq_exists_conv)
  with assms(1) show ?thesis by (simp add: ac_simps)
qed

lemma in_concat: "c \<in> set (concat gs) \<Longrightarrow> \<exists>i < length gs. c \<in> set (gs ! i)"
  by (metis concat_eq_concat_iff in_set_conv_nth UN_E set_concat)

lemma in_sum_mset: "a \<in># (\<Sum>i\<leftarrow>ks. M i) \<longleftrightarrow> (\<exists>i \<in> set ks. a \<in># M i)"
  by (induction ks) auto

end
