(* ===== verification/Acks.thy ===== *)
theory Acks
  imports Prelude
begin

text \<open>
  Batch acknowledgment handles, \<open>crates/spate-core/src/checkpoint/ack.rs\<close>.

  An \<open>AckRef\<close> is an \<open>Arc<AckState>\<close>. The model keeps every \<open>AckState\<close> ever allocated in an
  arena; a handle is an index into it, and the cell carries the strong count. A cell whose
  count is zero has been dropped: it stays in the arena as a record of how it resolved.
  \<open>ack_tx\<close> is the sequence of messages sent on the checkpointer's unbounded channel, oldest
  first; nothing here reads it back.

  Rust's ownership discipline becomes the predicate \<open>heap_ok h M\<close>: \<open>M\<close> is the multiset of
  all handles alive anywhere, and every count equals the number of live handles. Each
  operation has one lemma that says which handles it consumes and which it makes, with an
  arbitrary frame; the sink theories compose these.
\<close>

section \<open>Data\<close>

record batch_id =
  bid_partition :: partition_id
  bid_epoch :: nat
  bid_seq :: nat

datatype ack_status = Delivered | Failed

fun status_u8 :: "ack_status \<Rightarrow> 8 word" where
  "status_u8 Delivered = 0"
| "status_u8 Failed = 1"

record ack_msg =
  msg_id :: batch_id
  msg_last_offset :: int
  msg_status :: ack_status

record ack_state =
  state_id :: batch_id
  state_last_offset :: int
  state_status :: "8 word"
  state_refs :: nat

type_synonym ack_ref = nat

record ack_heap =
  arena :: "ack_state list"
  ack_tx :: "ack_msg list"

section \<open>AckState and AckRef\<close>

definition heap_empty :: ack_heap where
  "heap_empty = \<lparr>arena = [], ack_tx = []\<rparr>"

text \<open>\<open>Drop for AckState\<close>: the message the last handle sends.\<close>

definition ack_state_drop :: "ack_state \<Rightarrow> ack_msg" where
  "ack_state_drop s =
     (let status = (if state_status s = status_u8 Delivered then Delivered else Failed)
      in \<lparr>msg_id = state_id s, msg_last_offset = state_last_offset s, msg_status = status\<rparr>)"

definition ack_tx_send :: "ack_msg \<Rightarrow> ack_heap \<Rightarrow> ack_heap" where
  "ack_tx_send m h = h\<lparr>ack_tx := ack_tx h @ [m]\<rparr>"

definition upd_cell :: "ack_ref \<Rightarrow> (ack_state \<Rightarrow> ack_state) \<Rightarrow> ack_heap \<Rightarrow> ack_heap" where
  "upd_cell r f h = h\<lparr>arena := (arena h)[r := f (arena h ! r)]\<rparr>"

definition ackref_new :: "batch_id \<Rightarrow> int \<Rightarrow> ack_heap \<Rightarrow> ack_ref \<times> ack_heap" where
  "ackref_new i last_offset h =
     (length (arena h),
      h\<lparr>arena := arena h @
          [\<lparr>state_id = i, state_last_offset = last_offset,
            state_status = status_u8 Delivered, state_refs = 1\<rparr>]\<rparr>)"

definition ackref_clone :: "ack_ref \<Rightarrow> ack_heap \<Rightarrow> ack_heap" where
  "ackref_clone r h = upd_cell r (\<lambda>s. s\<lparr>state_refs := Suc (state_refs s)\<rparr>) h"

definition ackref_fail :: "ack_ref \<Rightarrow> ack_heap \<Rightarrow> ack_heap" where
  "ackref_fail r h = upd_cell r (\<lambda>s. s\<lparr>state_status := status_u8 Failed\<rparr>) h"

definition ackref_drop :: "ack_ref \<Rightarrow> ack_heap \<Rightarrow> ack_heap" where
  "ackref_drop r h =
     (if r < length (arena h) then
        let h' = upd_cell r (\<lambda>s. s\<lparr>state_refs := state_refs s - 1\<rparr>) h
        in if state_refs (arena h ! r) = 1 then ack_tx_send (ack_state_drop (arena h ! r)) h' else h'
      else h)"

definition ackref_batch_id :: "ack_heap \<Rightarrow> ack_ref \<Rightarrow> batch_id" where
  "ackref_batch_id h r = state_id (arena h ! r)"

section \<open>AckSet\<close>

type_synonym ack_set = "ack_ref list"

definition ackset_new :: ack_set where
  "ackset_new = []"

definition ackset_push :: "ack_set \<Rightarrow> ack_ref \<Rightarrow> ack_set" where
  "ackset_push s r = s @ [r]"

definition ackset_absorb :: "ack_set \<Rightarrow> ack_set \<Rightarrow> ack_set" where
  "ackset_absorb s other = s @ other"

definition ackset_is_empty :: "ack_set \<Rightarrow> bool" where
  "ackset_is_empty s \<longleftrightarrow> s = []"

definition ackset_len :: "ack_set \<Rightarrow> nat" where
  "ackset_len s = length s"

text \<open>\<open>deliver\<close> clears the vector, which drops the handles without failing them.\<close>

definition ackset_deliver :: "ack_set \<Rightarrow> ack_heap \<Rightarrow> ack_heap" where
  "ackset_deliver s h = fold ackref_drop s h"

text \<open>\<open>Drop for AckSet\<close> fails every handle still held; the vector then drops them.\<close>

definition ackset_drop :: "ack_set \<Rightarrow> ack_heap \<Rightarrow> ack_heap" where
  "ackset_drop s h = fold ackref_drop s (fold ackref_fail s h)"

section \<open>Ownership\<close>

definition refcount :: "ack_heap \<Rightarrow> ack_ref \<Rightarrow> nat" where
  "refcount h r = (if r < length (arena h) then state_refs (arena h ! r) else 0)"

definition ack_failed :: "ack_heap \<Rightarrow> ack_ref \<Rightarrow> bool" where
  "ack_failed h r \<longleftrightarrow> r < length (arena h) \<and> state_status (arena h ! r) \<noteq> status_u8 Delivered"

definition heap_ok :: "ack_heap \<Rightarrow> ack_ref multiset \<Rightarrow> bool" where
  "heap_ok h M \<longleftrightarrow> (\<forall>r. refcount h r = count M r)"

text \<open>The channel carries exactly one message per dropped cell.\<close>

definition outbox_ok :: "ack_heap \<Rightarrow> bool" where
  "outbox_ok h \<longleftrightarrow>
     mset (ack_tx h)
       = image_mset ack_state_drop (filter_mset (\<lambda>s. state_refs s = 0) (mset (arena h)))"

text \<open>
  What may happen to a heap over time: cells are never removed or renamed, a failed cell
  stays failed, a dropped cell stays dropped with the status it resolved with, and the
  channel only grows.
\<close>

definition heap_le :: "ack_heap \<Rightarrow> ack_heap \<Rightarrow> bool" where
  "heap_le h h' \<longleftrightarrow>
     length (arena h) \<le> length (arena h')
     \<and> (\<forall>r < length (arena h).
          state_id (arena h' ! r) = state_id (arena h ! r)
          \<and> state_last_offset (arena h' ! r) = state_last_offset (arena h ! r)
          \<and> (ack_failed h r \<longrightarrow> ack_failed h' r)
          \<and> (state_refs (arena h ! r) = 0 \<longrightarrow> arena h' ! r = arena h ! r))
     \<and> (\<exists>ms. ack_tx h' = ack_tx h @ ms)"

section \<open>Runs of handle operations\<close>

datatype ack_op = OpNew batch_id int | OpClone ack_ref | OpFail ack_ref | OpDrop ack_ref

text \<open>Only a live handle can be used: anything else is not a Rust program.\<close>

fun ack_step :: "ack_op \<Rightarrow> ack_heap \<times> ack_ref multiset \<Rightarrow> (ack_heap \<times> ack_ref multiset) option" where
  "ack_step (OpNew i off) (h, M) =
     (case ackref_new i off h of (r, h') \<Rightarrow> Some (h', add_mset r M))"
| "ack_step (OpClone r) (h, M) =
     (if r \<in># M then Some (ackref_clone r h, add_mset r M) else None)"
| "ack_step (OpFail r) (h, M) = (if r \<in># M then Some (ackref_fail r h, M) else None)"
| "ack_step (OpDrop r) (h, M) =
     (if r \<in># M then Some (ackref_drop r h, M - {#r#}) else None)"

fun ack_run :: "ack_op list \<Rightarrow> ack_heap \<times> ack_ref multiset \<Rightarrow> (ack_heap \<times> ack_ref multiset) option" where
  "ack_run [] s = Some s"
| "ack_run (x # xs) s = (case ack_step x s of None \<Rightarrow> None | Some s' \<Rightarrow> ack_run xs s')"

section \<open>Computation rules\<close>

lemma length_upd_cell [ack_simps, simp]: "length (arena (upd_cell r f h)) = length (arena h)"
  by (simp add: upd_cell_def)

lemma ack_tx_upd_cell [ack_simps, simp]: "ack_tx (upd_cell r f h) = ack_tx h"
  by (simp add: upd_cell_def)

lemma nth_upd_cell [ack_simps]:
  "i < length (arena h) \<Longrightarrow>
     arena (upd_cell r f h) ! i = (if i = r then f (arena h ! i) else arena h ! i)"
  by (auto simp: upd_cell_def nth_list_update)

lemma arena_ack_tx_send [ack_simps, simp]: "arena (ack_tx_send m h) = arena h"
  by (simp add: ack_tx_send_def)

lemma length_clone [simp]: "length (arena (ackref_clone r h)) = length (arena h)"
  by (simp add: ackref_clone_def)

lemma length_fail [simp]: "length (arena (ackref_fail r h)) = length (arena h)"
  by (simp add: ackref_fail_def)

lemma length_drop_ref [simp]: "length (arena (ackref_drop r h)) = length (arena h)"
  by (simp add: ackref_drop_def Let_def)

lemma nth_drop_ref:
  "i < length (arena h) \<Longrightarrow> arena (ackref_drop r h) ! i =
     (if i = r then (arena h ! i)\<lparr>state_refs := state_refs (arena h ! i) - 1\<rparr> else arena h ! i)"
  by (auto simp: ackref_drop_def Let_def nth_upd_cell)

lemma nth_fail:
  "i < length (arena h) \<Longrightarrow> arena (ackref_fail r h) ! i =
     (if i = r then (arena h ! i)\<lparr>state_status := status_u8 Failed\<rparr> else arena h ! i)"
  by (simp add: ackref_fail_def nth_upd_cell)

lemma nth_clone:
  "i < length (arena h) \<Longrightarrow> arena (ackref_clone r h) ! i =
     (if i = r then (arena h ! i)\<lparr>state_refs := Suc (state_refs (arena h ! i))\<rparr> else arena h ! i)"
  by (simp add: ackref_clone_def nth_upd_cell)

lemma refcount_new:
  "ackref_new i off h = (r, h') \<Longrightarrow> refcount h' x = (if x = r then 1 else refcount h x)"
  by (auto simp: ackref_new_def refcount_def nth_append)

lemma refcount_clone:
  "r < length (arena h) \<Longrightarrow>
     refcount (ackref_clone r h) x = refcount h x + (if x = r then 1 else 0)"
  by (auto simp: refcount_def nth_clone)

lemma refcount_fail [simp]: "refcount (ackref_fail r h) x = refcount h x"
  by (auto simp: refcount_def nth_fail)

lemma refcount_drop: "refcount (ackref_drop r h) x = refcount h x - (if x = r then 1 else 0)"
  by (auto simp: refcount_def nth_drop_ref)

lemma ack_failed_fail [simp]:
  "ack_failed (ackref_fail r h) x \<longleftrightarrow> ack_failed h x \<or> (x = r \<and> r < length (arena h))"
  by (auto simp: ack_failed_def nth_fail split: if_splits)

lemma ack_failed_drop [simp]: "ack_failed (ackref_drop r h) x = ack_failed h x"
  by (auto simp: ack_failed_def nth_drop_ref split: if_splits)

lemma ack_failed_clone [simp]: "ack_failed (ackref_clone r h) x = ack_failed h x"
  by (auto simp: ack_failed_def nth_clone split: if_splits)

lemma ack_failed_new:
  "ackref_new i off h = (r, h') \<Longrightarrow> ack_failed h' x = ack_failed h x"
  by (auto simp: ack_failed_def ackref_new_def nth_append less_Suc_eq split: if_splits)

section \<open>Ownership lemmas\<close>

lemma heap_ok_empty [simp]: "heap_ok heap_empty {#}"
  by (simp add: heap_ok_def heap_empty_def refcount_def)

lemma ack_failed_empty [simp]: "\<not> ack_failed heap_empty r"
  by (simp add: ack_failed_def heap_empty_def)

lemma heap_ok_live: "heap_ok h M \<Longrightarrow> r \<in># M \<Longrightarrow> r < length (arena h) \<and> 0 < state_refs (arena h ! r)"
  by (metis count_greater_zero_iff heap_ok_def less_numeral_extra(3) refcount_def)

lemma heap_ok_new [heap_ok_intros]:
  assumes "heap_ok h M" and "ackref_new i off h = (r, h')"
  shows "heap_ok h' (add_mset r M)"
proof -
  have "refcount h r = 0"
    using assms(2) by (simp add: ackref_new_def refcount_def)
  with assms show ?thesis
    by (auto simp: heap_ok_def refcount_new)
qed

lemma heap_ok_clone [heap_ok_intros]:
  "heap_ok h M \<Longrightarrow> r \<in># M \<Longrightarrow> heap_ok (ackref_clone r h) (add_mset r M)"
  using heap_ok_live [of h M r] by (auto simp: heap_ok_def refcount_clone)

lemma heap_ok_fail [heap_ok_intros]: "heap_ok h M \<Longrightarrow> heap_ok (ackref_fail r h) M"
  by (simp add: heap_ok_def)

lemma heap_ok_drop [heap_ok_intros]:
  "heap_ok h (add_mset r M) \<Longrightarrow> heap_ok (ackref_drop r h) M"
  by (auto simp: heap_ok_def refcount_drop)

lemma heap_ok_fold_fail [heap_ok_intros]: "heap_ok h M \<Longrightarrow> heap_ok (fold ackref_fail s h) M"
  by (induction s arbitrary: h) (auto intro: heap_ok_fail)

lemma heap_ok_deliver [heap_ok_intros]:
  "heap_ok h (mset s + M) \<Longrightarrow> heap_ok (ackset_deliver s h) M"
  unfolding ackset_deliver_def
  by (induction s arbitrary: h) (auto intro: heap_ok_drop)

lemma heap_ok_ackset_drop [heap_ok_intros]:
  "heap_ok h (mset s + M) \<Longrightarrow> heap_ok (ackset_drop s h) M"
  unfolding ackset_drop_def
  using heap_ok_deliver [unfolded ackset_deliver_def] heap_ok_fold_fail by blast

lemma length_fold_fail [simp]: "length (arena (fold ackref_fail s h)) = length (arena h)"
  by (induction s arbitrary: h) auto

lemma ack_failed_fold_fail:
  "ack_failed (fold ackref_fail s h) x \<longleftrightarrow> ack_failed h x \<or> (x \<in> set s \<and> x < length (arena h))"
  by (induction s arbitrary: h) auto

lemma ack_failed_fold_drop [simp]: "ack_failed (fold ackref_drop s h) x = ack_failed h x"
  by (induction s arbitrary: h) auto

lemma ack_failed_deliver [simp]: "ack_failed (ackset_deliver s h) x = ack_failed h x"
  by (simp add: ackset_deliver_def)

lemma ack_failed_ackset_drop:
  "ack_failed (ackset_drop s h) x \<longleftrightarrow> ack_failed h x \<or> (x \<in> set s \<and> x < length (arena h))"
  by (simp add: ackset_drop_def ack_failed_fold_fail)

section \<open>Resolution: one message per batch, worst status wins\<close>

definition resolved_msgs :: "ack_state list \<Rightarrow> ack_msg multiset" where
  "resolved_msgs a = image_mset ack_state_drop (filter_mset (\<lambda>s. state_refs s = 0) (mset a))"

lemma ack_state_drop_refs [simp]: "ack_state_drop (s\<lparr>state_refs := n\<rparr>) = ack_state_drop s"
  by (simp add: ack_state_drop_def Let_def)

lemma outbox_ok_alt: "outbox_ok h \<longleftrightarrow> mset (ack_tx h) = resolved_msgs (arena h)"
  by (simp add: outbox_ok_def resolved_msgs_def)

lemma resolved_msgs_update:
  assumes "i < length a"
  shows "resolved_msgs (a[i := y]) + (if state_refs (a ! i) = 0 then {#ack_state_drop (a ! i)#} else {#})
       = resolved_msgs a + (if state_refs y = 0 then {#ack_state_drop y#} else {#})"
proof -
  let ?F = "\<lambda>M. image_mset ack_state_drop (filter_mset (\<lambda>s. state_refs s = 0) M)"
  have "?F (add_mset (a ! i) (mset (a[i := y]))) = ?F (add_mset y (mset a))"
    by (rule arg_cong [OF mset_update_swap [OF assms]])
  then show ?thesis by (auto simp: resolved_msgs_def)
qed

lemma resolved_msgs_update_live:
  "i < length a \<Longrightarrow> state_refs (a ! i) \<noteq> 0 \<Longrightarrow> state_refs y \<noteq> 0 \<Longrightarrow>
     resolved_msgs (a[i := y]) = resolved_msgs a"
  using resolved_msgs_update [of i a y] by simp

lemma outbox_ok_empty [simp]: "outbox_ok heap_empty"
  by (simp add: outbox_ok_def heap_empty_def)

lemma outbox_ok_new: "outbox_ok h \<Longrightarrow> ackref_new i off h = (r, h') \<Longrightarrow> outbox_ok h'"
  by (auto simp: outbox_ok_def ackref_new_def)

lemma outbox_ok_live_update:
  assumes "outbox_ok h" and "heap_ok h M" and "r \<in># M"
    and "state_refs (f (arena h ! r)) \<noteq> 0"
  shows "outbox_ok (upd_cell r f h)"
  using assms heap_ok_live [OF assms(2,3)]
  by (simp add: outbox_ok_alt upd_cell_def resolved_msgs_update_live)

lemma outbox_ok_clone: "outbox_ok h \<Longrightarrow> heap_ok h M \<Longrightarrow> r \<in># M \<Longrightarrow> outbox_ok (ackref_clone r h)"
  unfolding ackref_clone_def by (erule (2) outbox_ok_live_update) simp

lemma outbox_ok_fail: "outbox_ok h \<Longrightarrow> heap_ok h M \<Longrightarrow> r \<in># M \<Longrightarrow> outbox_ok (ackref_fail r h)"
  unfolding ackref_fail_def using heap_ok_live [of h M r]
  by (auto intro: outbox_ok_live_update)

lemma outbox_ok_drop:
  assumes "outbox_ok h" and "heap_ok h M" and "r \<in># M"
  shows "outbox_ok (ackref_drop r h)"
proof -
  from heap_ok_live [OF assms(2,3)] have r: "r < length (arena h)" "0 < state_refs (arena h ! r)"
    by auto
  then show ?thesis
    using assms(1)
      resolved_msgs_update [OF r(1), of "(arena h ! r)\<lparr>state_refs := state_refs (arena h ! r) - 1\<rparr>"]
    by (auto simp: ackref_drop_def Let_def ack_tx_send_def upd_cell_def outbox_ok_alt)
qed

lemma outbox_ok_fold_fail:
  "outbox_ok h \<Longrightarrow> heap_ok h M \<Longrightarrow> set s \<subseteq> set_mset M \<Longrightarrow> outbox_ok (fold ackref_fail s h)"
  by (induction s arbitrary: h) (auto intro: outbox_ok_fail heap_ok_fail)

lemma outbox_ok_deliver:
  "outbox_ok h \<Longrightarrow> heap_ok h (mset s + M) \<Longrightarrow> outbox_ok (ackset_deliver s h)"
  unfolding ackset_deliver_def
proof (induction s arbitrary: h)
  case (Cons r s)
  have "outbox_ok (ackref_drop r h)"
    by (rule outbox_ok_drop [OF Cons.prems]) simp
  moreover have "heap_ok (ackref_drop r h) (mset s + M)"
    using Cons.prems by (auto intro: heap_ok_drop)
  ultimately show ?case using Cons.IH by simp
qed simp

lemma outbox_ok_ackset_drop:
  assumes "outbox_ok h" and "heap_ok h (mset s + M)"
  shows "outbox_ok (ackset_drop s h)"
proof -
  have "outbox_ok (fold ackref_fail s h)"
    by (rule outbox_ok_fold_fail [OF assms]) auto
  moreover have "heap_ok (fold ackref_fail s h) (mset s + M)"
    by (rule heap_ok_fold_fail [OF assms(2)])
  ultimately show ?thesis
    using outbox_ok_deliver by (auto simp: ackset_drop_def ackset_deliver_def)
qed

lemma in_outbox_resolved:
  assumes "outbox_ok h" and "m \<in> set (ack_tx h)"
  shows "\<exists>r < length (arena h). refcount h r = 0 \<and> m = ack_state_drop (arena h ! r)"
proof -
  from assms have "m \<in># resolved_msgs (arena h)"
    unfolding outbox_ok_alt by (metis set_mset_mset)
  then obtain s where "s \<in> set (arena h)" "state_refs s = 0" "m = ack_state_drop s"
    by (auto simp: resolved_msgs_def)
  then show ?thesis
    by (auto simp: in_set_conv_nth refcount_def)
qed

section \<open>The heap order\<close>

lemma heap_le_refl [simp]: "heap_le h h"
  by (simp add: heap_le_def)

lemma heap_le_trans: "heap_le a b \<Longrightarrow> heap_le b c \<Longrightarrow> heap_le a c"
  by (fastforce simp: heap_le_def)

lemma heap_le_new: "ackref_new i off h = (r, h') \<Longrightarrow> heap_le h h'"
  by (auto simp: heap_le_def ackref_new_def nth_append ack_failed_def)

lemma heap_le_live_update:
  assumes "\<And>s. state_id (f s) = state_id s" and "\<And>s. state_last_offset (f s) = state_last_offset s"
    and "\<And>s. state_status s \<noteq> 0 \<Longrightarrow> state_status (f s) \<noteq> 0"
    and "state_refs (arena h ! r) \<noteq> 0"
  shows "heap_le h (upd_cell r f h)"
  using assms by (auto simp: heap_le_def nth_upd_cell ack_failed_def)

lemma heap_le_clone: "heap_ok h M \<Longrightarrow> r \<in># M \<Longrightarrow> heap_le h (ackref_clone r h)"
  unfolding ackref_clone_def using heap_ok_live [of h M r]
  by (auto intro!: heap_le_live_update)

lemma heap_le_fail: "heap_ok h M \<Longrightarrow> r \<in># M \<Longrightarrow> heap_le h (ackref_fail r h)"
  unfolding ackref_fail_def using heap_ok_live [of h M r]
  by (auto intro!: heap_le_live_update)

lemma heap_le_drop: "heap_le h (ackref_drop r h)"
proof (cases "r < length (arena h)")
  case True
  then show ?thesis
    by (auto simp: heap_le_def nth_drop_ref)
       (auto simp: ackref_drop_def Let_def ack_tx_send_def)
next
  case False
  then show ?thesis by (simp add: ackref_drop_def)
qed

lemma heap_le_fold_fail:
  "heap_ok h M \<Longrightarrow> set s \<subseteq> set_mset M \<Longrightarrow> heap_le h (fold ackref_fail s h)"
proof (induction s arbitrary: h)
  case (Cons r s)
  then have "heap_le h (ackref_fail r h)" and "heap_ok (ackref_fail r h) M"
    by (auto intro: heap_le_fail heap_ok_fail)
  with Cons show ?case by (auto intro: heap_le_trans)
qed simp

lemma heap_le_deliver: "heap_le h (ackset_deliver s h)"
  unfolding ackset_deliver_def
  by (induction s arbitrary: h) (auto intro: heap_le_trans heap_le_drop)

lemma heap_le_ackset_drop:
  assumes "heap_ok h (mset s + M)"
  shows "heap_le h (ackset_drop s h)"
proof -
  have "heap_le h (fold ackref_fail s h)"
    by (rule heap_le_fold_fail [OF assms]) auto
  from heap_le_trans [OF this heap_le_deliver [of _ s]] show ?thesis
    by (simp add: ackset_drop_def ackset_deliver_def)
qed

lemma heap_le_failed: "heap_le h h' \<Longrightarrow> ack_failed h r \<Longrightarrow> ack_failed h' r"
  by (auto simp: heap_le_def ack_failed_def)

lemma heap_le_id: "heap_le h h' \<Longrightarrow> r < length (arena h) \<Longrightarrow> ackref_batch_id h' r = ackref_batch_id h r"
  by (simp add: heap_le_def ackref_batch_id_def)

lemma heap_le_length: "heap_le h h' \<Longrightarrow> length (arena h) \<le> length (arena h')"
  by (simp add: heap_le_def)

text \<open>
  What a party that only clones, fails and releases handles does to the heap: no batch is
  added, nothing is forgotten, and the channel stays in step with the resolved batches.
\<close>

definition heap_moves :: "ack_heap \<Rightarrow> ack_heap \<Rightarrow> bool" where
  "heap_moves h h' \<longleftrightarrow>
     heap_le h h' \<and> length (arena h') = length (arena h) \<and> (outbox_ok h \<longrightarrow> outbox_ok h')"

lemma heap_moves_refl [simp]: "heap_moves h h"
  by (simp add: heap_moves_def)

lemma heap_moves_trans: "heap_moves a b \<Longrightarrow> heap_moves b c \<Longrightarrow> heap_moves a c"
  using heap_le_trans by (auto simp: heap_moves_def)

lemma heap_moves_le: "heap_moves h h' \<Longrightarrow> heap_le h h'"
  by (simp add: heap_moves_def)

lemma length_ackset_deliver [simp]: "length (arena (ackset_deliver s h)) = length (arena h)"
  unfolding ackset_deliver_def by (induction s arbitrary: h) simp_all

lemma length_ackset_drop [simp]: "length (arena (ackset_drop s h)) = length (arena h)"
  using length_ackset_deliver [of s "fold ackref_fail s h"] by (simp add: ackset_drop_def ackset_deliver_def)

lemma heap_moves_deliver: "heap_ok h (mset s + M) \<Longrightarrow> heap_moves h (ackset_deliver s h)"
  using outbox_ok_deliver by (simp add: heap_moves_def heap_le_deliver)

lemma heap_moves_ackset_drop: "heap_ok h (mset s + M) \<Longrightarrow> heap_moves h (ackset_drop s h)"
  using outbox_ok_ackset_drop by (simp add: heap_moves_def heap_le_ackset_drop)

section \<open>Runs\<close>

lemma ack_step_ok:
  assumes "ack_step x (h, M) = Some (h', M')" and "heap_ok h M" and "outbox_ok h"
  shows "heap_ok h' M' \<and> outbox_ok h'"
proof (cases x)
  case (OpNew i off)
  with assms show ?thesis
    by (auto split: prod.splits intro: heap_ok_new outbox_ok_new)
next
  case (OpClone r)
  with assms show ?thesis
    by (auto split: if_splits intro: heap_ok_clone outbox_ok_clone)
next
  case (OpFail r)
  with assms show ?thesis
    by (auto split: if_splits intro: heap_ok_fail outbox_ok_fail)
next
  case (OpDrop r)
  with assms show ?thesis
    by (auto split: if_splits intro: heap_ok_drop outbox_ok_drop)
qed

lemma ack_step_failed:
  assumes "ack_step x (h, M) = Some (h', M')" and "heap_ok h M"
  shows "ack_failed h' r \<longleftrightarrow> ack_failed h r \<or> x = OpFail r"
  using assms heap_ok_live [OF assms(2)]
  by (cases x) (auto split: if_splits prod.splits simp: ack_failed_new)

lemma ack_run_ok:
  "ack_run xs (h, M) = Some (h', M') \<Longrightarrow> heap_ok h M \<Longrightarrow> outbox_ok h \<Longrightarrow>
     heap_ok h' M' \<and> outbox_ok h' \<and> (\<forall>r. ack_failed h' r \<longleftrightarrow> ack_failed h r \<or> OpFail r \<in> set xs)"
proof (induction xs arbitrary: h M)
  case (Cons x xs)
  from Cons.prems(1) obtain h1 M1 where 1: "ack_step x (h, M) = Some (h1, M1)"
    and 2: "ack_run xs (h1, M1) = Some (h', M')"
    by (auto split: option.splits)
  with ack_step_ok [OF 1 Cons.prems(2,3)] ack_step_failed [OF 1 Cons.prems(2)] Cons.IH [OF 2]
  show ?case by auto
qed auto

lemma resolved_msgs_indices:
  "resolved_msgs a = image_mset (\<lambda>r. ack_state_drop (a ! r)) (mset_set {r. r < length a \<and> state_refs (a ! r) = 0})"
proof -
  have "mset a = image_mset (\<lambda>r. a ! r) (mset_set {0..<length a})"
    by (simp add: map_nth flip: mset_map mset_upt)
  then have "resolved_msgs a
      = image_mset (\<lambda>r. ack_state_drop (a ! r)) (filter_mset (\<lambda>r. state_refs (a ! r) = 0) (mset_set {0..<length a}))"
    by (simp add: resolved_msgs_def filter_mset_image_mset image_mset.compositionality comp_def)
  then show ?thesis
    by (simp add: filter_mset_mset_set)
qed

text \<open>
  C8. From an empty heap, after any sequence of handle operations a Rust program can perform
  (create, clone, fail, drop, in any interleaving), the checkpoint channel holds exactly one
  message per batch whose last handle is gone and none for a batch with a live handle, and
  the message says \<open>Failed\<close> exactly when some handle of that batch was ever failed.
\<close>

theorem ack_resolves_once:
  assumes "ack_run xs (heap_empty, {#}) = Some (h, M)"
  shows "mset (ack_tx h) =
    image_mset (\<lambda>r. \<lparr>msg_id = state_id (arena h ! r), msg_last_offset = state_last_offset (arena h ! r),
                     msg_status = (if OpFail r \<in> set xs then Failed else Delivered)\<rparr>)
      (mset_set {r. r < length (arena h) \<and> r \<notin># M})"
proof -
  from ack_run_ok [OF assms heap_ok_empty outbox_ok_empty] have ok: "heap_ok h M" "outbox_ok h"
    and failed: "ack_failed h r \<longleftrightarrow> OpFail r \<in> set xs" for r
    by simp_all
  have live: "state_refs (arena h ! r) = 0 \<longleftrightarrow> r \<notin># M" if "r < length (arena h)" for r
    using ok(1) that by (metis count_eq_zero_iff heap_ok_def refcount_def)
  have set_eq: "{r. r < length (arena h) \<and> state_refs (arena h ! r) = 0}
      = {r. r < length (arena h) \<and> r \<notin># M}"
    using live by auto
  have msg: "ack_state_drop (arena h ! r) =
      \<lparr>msg_id = state_id (arena h ! r), msg_last_offset = state_last_offset (arena h ! r),
       msg_status = (if OpFail r \<in> set xs then Failed else Delivered)\<rparr>"
    if "r < length (arena h)" for r
    using that by (simp add: ack_state_drop_def failed [symmetric] ack_failed_def)
  have "mset (ack_tx h)
      = image_mset (\<lambda>r. ack_state_drop (arena h ! r)) (mset_set {r. r < length (arena h) \<and> r \<notin># M})"
    using ok(2) unfolding outbox_ok_alt resolved_msgs_indices set_eq .
  also have "\<dots> = image_mset (\<lambda>r. \<lparr>msg_id = state_id (arena h ! r),
       msg_last_offset = state_last_offset (arena h ! r),
       msg_status = (if OpFail r \<in> set xs then Failed else Delivered)\<rparr>)
      (mset_set {r. r < length (arena h) \<and> r \<notin># M})"
    by (rule image_mset_cong) (use msg in force)
  finally show ?thesis .
qed

theorem ack_resolves_once_witness:
  "\<exists>h. ack_run [OpNew \<lparr>bid_partition = PartitionId 0, bid_epoch = 1, bid_seq = 0\<rparr> 9,
                OpClone 0, OpFail 0, OpDrop 0, OpDrop 0] (heap_empty, {#}) = Some (h, {#})
     \<and> mset (ack_tx h)
       = {#\<lparr>msg_id = \<lparr>bid_partition = PartitionId 0, bid_epoch = 1, bid_seq = 0\<rparr>,
            msg_last_offset = 9, msg_status = Failed\<rparr>#}"
proof -
  let ?xs = "[OpNew \<lparr>bid_partition = PartitionId 0, bid_epoch = 1, bid_seq = 0\<rparr> 9,
              OpClone 0, OpFail 0, OpDrop 0, OpDrop 0]"
  define h where "h = fst (the (ack_run ?xs (heap_empty, {#})))"
  note eval = ackref_new_def heap_empty_def ackref_clone_def ackref_fail_def ackref_drop_def
    upd_cell_def ack_tx_send_def
  have run: "ack_run ?xs (heap_empty, {#}) = Some (h, {#})"
    and h: "arena h = [\<lparr>state_id = \<lparr>bid_partition = PartitionId 0, bid_epoch = 1, bid_seq = 0\<rparr>,
                        state_last_offset = 9, state_status = 1, state_refs = 0\<rparr>]"
    by (simp_all add: h_def eval)
  have one: "{r. r < length (arena h) \<and> r \<notin># {#}} = {0}"
    using h by auto
  have "mset (ack_tx h)
       = {#\<lparr>msg_id = \<lparr>bid_partition = PartitionId 0, bid_epoch = 1, bid_seq = 0\<rparr>,
            msg_last_offset = 9, msg_status = Failed\<rparr>#}"
    using ack_resolves_once [OF run] unfolding one by (simp add: h)
  with run show ?thesis by blast
qed

text \<open>
  Teardown safety of \<open>AckSet\<close>: dropping a set fails exactly the batches it holds and
  releases exactly its handles, while \<open>deliver\<close> releases the same handles and fails nothing.
  Either way every batch whose last handle was in the set gets its one message now, and no
  other batch does.
\<close>

lemma ackset_drop_fails_deliver_does_not:
  assumes "heap_ok h (mset s + F)" and "outbox_ok h"
  shows "heap_ok (ackset_drop s h) F \<and> outbox_ok (ackset_drop s h)
      \<and> (\<forall>r. ack_failed (ackset_drop s h) r \<longleftrightarrow> ack_failed h r \<or> r \<in> set s)
      \<and> heap_ok (ackset_deliver s h) F \<and> outbox_ok (ackset_deliver s h)
      \<and> (\<forall>r. ack_failed (ackset_deliver s h) r \<longleftrightarrow> ack_failed h r)"
proof -
  have "r < length (arena h)" if "r \<in> set s" for r
    using heap_ok_live [OF assms(1), of r] that by simp
  then have "ack_failed (ackset_drop s h) r \<longleftrightarrow> ack_failed h r \<or> r \<in> set s" for r
    by (auto simp: ack_failed_ackset_drop)
  then show ?thesis
    using assms heap_ok_ackset_drop heap_ok_deliver outbox_ok_ackset_drop outbox_ok_deliver
    by (simp add: ack_failed_deliver)
qed

text \<open>Two batches of one partition, one live handle each.\<close>

definition two_batches :: ack_heap where
  "two_batches = snd (ackref_new \<lparr>bid_partition = PartitionId 0, bid_epoch = 1, bid_seq = 1\<rparr> 19
     (snd (ackref_new \<lparr>bid_partition = PartitionId 0, bid_epoch = 1, bid_seq = 0\<rparr> 9 heap_empty)))"

end
