(* ===== verification/Errors.thy ===== *)
theory Errors
  imports Prelude
begin

text \<open>
  The error taxonomy, \<open>crates/spate-core/src/error.rs\<close>: the policies and classes, the
  fatal error a stage latches, the deserializer, source and sink errors with the accessors
  one macro generates for the last two, and the walk over an error's source chain.
\<close>

section \<open>Policies, classes and the error types\<close>

datatype error_policy = Skip | Fail

datatype error_class = Retryable | RecordLevel | Fatal

fun class_debug :: "error_class \<Rightarrow> string" where
  "class_debug Retryable = ''Retryable''"
| "class_debug RecordLevel = ''RecordLevel''"
| "class_debug Fatal = ''Fatal''"

record fatal_error =
  fe_component :: string
  fe_reason :: string

datatype deser_error =
    Malformed string
  | SchemaUnavailable string
  | NotReady string
  | DeserFatal string

fun deser_display :: "deser_error \<Rightarrow> string" where
  "deser_display (Malformed reason) = ''malformed payload: '' @ reason"
| "deser_display (SchemaUnavailable reason) = ''schema unavailable: '' @ reason"
| "deser_display (NotReady reason) = ''not ready: '' @ reason"
| "deser_display (DeserFatal reason) = ''deserializer failed: '' @ reason"

datatype source_error = SourceClient error_class string

datatype sink_error = SinkClient error_class string

section \<open>What the macro generates\<close>

definition sink_error_new :: "error_class \<Rightarrow> string \<Rightarrow> sink_error" where
  "sink_error_new c reason = SinkClient c reason"

definition sink_fatal :: "string \<Rightarrow> sink_error" where
  "sink_fatal reason = sink_error_new Fatal reason"

definition sink_retryable :: "string \<Rightarrow> sink_error" where
  "sink_retryable reason = sink_error_new Retryable reason"

definition sink_record_level :: "string \<Rightarrow> sink_error" where
  "sink_record_level reason = sink_error_new RecordLevel reason"

fun sink_class :: "sink_error \<Rightarrow> error_class" where
  "sink_class (SinkClient c reason) = c"

fun sink_reason :: "sink_error \<Rightarrow> string" where
  "sink_reason (SinkClient c reason) = reason"

fun sink_with_class :: "error_class \<Rightarrow> sink_error \<Rightarrow> sink_error" where
  "sink_with_class c (SinkClient _ reason) = SinkClient c reason"

fun sink_map_reason :: "(string \<Rightarrow> string) \<Rightarrow> sink_error \<Rightarrow> sink_error" where
  "sink_map_reason f (SinkClient c reason) = SinkClient c (f reason)"

fun sink_display :: "sink_error \<Rightarrow> string" where
  "sink_display (SinkClient c reason) = ''sink error ('' @ class_debug c @ ''): '' @ reason"

fun source_class :: "source_error \<Rightarrow> error_class" where
  "source_class (SourceClient c reason) = c"

fun source_reason :: "source_error \<Rightarrow> string" where
  "source_reason (SourceClient c reason) = reason"

fun source_display :: "source_error \<Rightarrow> string" where
  "source_display (SourceClient c reason) = ''source error ('' @ class_debug c @ ''): '' @ reason"

section \<open>The source chain\<close>

text \<open>
  A \<open>dyn Error\<close>: the value itself (which a downcast inspects), the error an \<open>io::Error\<close>
  wraps, if it is one and wraps one, and what \<open>source\<close> returns.
\<close>

datatype 'e dyn_error = DynError 'e (io_inner: "'e dyn_error option") (err_source: "'e dyn_error option")

fun err_value :: "'e dyn_error \<Rightarrow> 'e" where
  "err_value (DynError e i s) = e"

fun opt_list :: "'a option \<Rightarrow> 'a list" where
  "opt_list None = []"
| "opt_list (Some x) = [x]"

text \<open>
  \<open>pending\<close> is a stack: \<open>push\<close> and \<open>extend\<close> add at its end and \<open>pop\<close> takes from there. The
  model keeps it top first.
\<close>

lemma size_pending:
  "sum_list (map size (opt_list s)) + sum_list (map size (opt_list i)) < size (DynError e i s)"
  by (cases i; cases s) simp_all

function find_source_loop :: "('e \<Rightarrow> 't option) \<Rightarrow> 'e dyn_error list \<Rightarrow> 't option" where
  "find_source_loop downcast [] = None"
| "find_source_loop downcast (DynError e i s # pending) =
     (case downcast e of
        Some found \<Rightarrow> Some found
      | None \<Rightarrow> find_source_loop downcast (opt_list s @ opt_list i @ pending))"
  by pat_completeness auto

termination
proof (relation "measure (\<lambda>(_, pending). sum_list (map size pending))", goal_cases)
  case (2 downcast e i s pending)
  show ?case using size_pending [of s i e] by simp
qed simp

definition find_source :: "('e \<Rightarrow> 't option) \<Rightarrow> 'e dyn_error \<Rightarrow> 't option" where
  "find_source downcast err = find_source_loop downcast [err]"

text \<open>Everything the chain of an error reaches, through \<open>source\<close> and through \<open>io::Error\<close>.\<close>

inductive reaches :: "'e dyn_error \<Rightarrow> 'e \<Rightarrow> bool" where
  reaches_here: "reaches (DynError e i s) e"
| reaches_source: "reaches err x \<Longrightarrow> reaches (DynError e i (Some err)) x"
| reaches_inner: "reaches err x \<Longrightarrow> reaches (DynError e (Some err) s) x"

inductive_simps reaches_DynError: "reaches (DynError e i s) x"

lemma find_source_loop_None:
  "find_source_loop downcast pending = None \<longleftrightarrow>
     (\<forall>err \<in> set pending. \<forall>x. reaches err x \<longrightarrow> downcast x = None)"
proof (induction downcast pending rule: find_source_loop.induct)
  case (2 downcast e i s pending)
  show ?case
    by (cases "downcast e"; cases i; cases s) (use 2 in \<open>auto simp: reaches_DynError\<close>)
qed simp

lemma find_source_loop_Some:
  "find_source_loop downcast pending = Some t \<Longrightarrow>
     \<exists>err \<in> set pending. \<exists>x. reaches err x \<and> downcast x = Some t"
proof (induction downcast pending rule: find_source_loop.induct)
  case (2 downcast e i s pending)
  show ?case
    by (cases "downcast e"; cases i; cases s) (use 2 in \<open>fastforce simp: reaches_DynError\<close>)+
qed simp

text \<open>
  \<open>find_source\<close> always returns, and it finds a value of the wanted type exactly when one
  is anywhere in the error's source chain, an \<open>io::Error\<close>'s wrapped error included; what it
  returns is one of those values.
\<close>

lemma find_source_complete:
  "(find_source downcast err = None \<longleftrightarrow> (\<nexists>x t. reaches err x \<and> downcast x = Some t)) \<and>
   (\<forall>t. find_source downcast err = Some t \<longrightarrow> (\<exists>x. reaches err x \<and> downcast x = Some t))"
proof (intro conjI allI impI)
  show "find_source downcast err = None \<longleftrightarrow> (\<nexists>x t. reaches err x \<and> downcast x = Some t)"
    unfolding find_source_def find_source_loop_None by (auto simp: not_Some_eq [symmetric] simp del: not_Some_eq)
  show "\<exists>x. reaches err x \<and> downcast x = Some t" if "find_source downcast err = Some t" for t
    using find_source_loop_Some [of downcast "[err]" t] that by (simp add: find_source_def)
qed

end
