(* ===== verification/Records.thy ===== *)
theory Records
  imports Acks Errors
begin

text \<open>
  What flows through an operator chain: \<open>crates/spate-core/src/record.rs\<close>, the shard routers
  of \<open>sink/mod.rs\<close>, and the per-stage meters and fatal-error slots of \<open>ops/chain.rs\<close>.

  A record is generic in its payload; its acknowledgment handle is an index into the heap of
  theory \<open>Acks\<close>, owned by whoever holds the record.
\<close>

unbundle bit_operations_syntax

section \<open>Records\<close>

datatype flow = Continue | Blocked

record record_meta =
  rm_partition :: partition_id
  rm_offset :: int
  rm_event_time_ms :: int
  rm_key_hash :: "64 word option"

record 't rec =
  payload :: 't
  meta :: record_meta
  rec_ack :: ack_ref

definition record_map :: "('t \<Rightarrow> 'u) \<Rightarrow> 't rec \<Rightarrow> 'u rec" where
  "record_map f r = \<lparr>payload = f (payload r), meta = meta r, rec_ack = rec_ack r\<rparr>"

record raw_payload =
  rp_bytes :: bytes
  rp_key :: "bytes option"
  rp_partition :: partition_id
  rp_offset :: int
  rp_timestamp_ms :: int

section \<open>The stable key hash\<close>

definition fnv_offset :: "64 word" where
  "fnv_offset = 14695981039346656037"

definition fnv_prime :: "64 word" where
  "fnv_prime = 1099511628211"

definition fnv_step :: "64 word \<Rightarrow> 8 word \<Rightarrow> 64 word" where
  "fnv_step h b = (h XOR ucast b) * fnv_prime"

definition stable_key_hash :: "bytes \<Rightarrow> 64 word" where
  "stable_key_hash key = foldl fnv_step fnv_offset key"

definition raw_meta :: "raw_payload \<Rightarrow> record_meta" where
  "raw_meta p =
     \<lparr>rm_partition = rp_partition p, rm_offset = rp_offset p, rm_event_time_ms = rp_timestamp_ms p,
      rm_key_hash = map_option stable_key_hash (rp_key p)\<rparr>"

section \<open>Routing on metadata\<close>

text \<open>\<open>KeyHashRouter\<close>. The remainder by zero shards panics.\<close>

definition key_hash_route :: "record_meta \<Rightarrow> nat \<Rightarrow> nat option" where
  "key_hash_route m num_shards =
     (let h = (case rm_key_hash m of
                 Some k \<Rightarrow> k
               | None \<Rightarrow> word_of_nat (pid_val (rm_partition m)) * 11400714819323198485)
      in if num_shards = 0 then None else Some (unat h mod num_shards))"

text \<open>The bridge that makes every meta-only router a record router.\<close>

definition route_record_meta :: "(record_meta \<Rightarrow> nat \<Rightarrow> nat option) \<Rightarrow> 't rec \<Rightarrow> nat \<Rightarrow> nat option" where
  "route_record_meta route r num_shards = route (meta r) num_shards"

section \<open>Meters and fatal slots\<close>

text \<open>
  The counters a stage shares through its \<open>Arc<OperatorMetrics>\<close>; the histogram of batch
  durations is left out. The model gives each stage its own totals: counters are additive,
  so a shared counter is the sum of what its stages added.
\<close>

record operator_metrics =
  om_in :: nat
  om_out :: nat
  om_filtered :: nat
  om_skip :: nat
  om_unrouted :: nat
  om_err_record :: nat
  om_err_fatal :: nat

record op_meter =
  om_handle :: "operator_metrics option"
  tripped :: bool
  records_in :: nat
  records_out :: nat
  filtered :: nat
  skipped :: nat
  unrouted :: nat
  record_errors :: nat

definition op_meter_new :: "operator_metrics option \<Rightarrow> op_meter" where
  "op_meter_new h =
     \<lparr>om_handle = h, tripped = False, records_in = 0, records_out = 0, filtered = 0, skipped = 0,
      unrouted = 0, record_errors = 0\<rparr>"

definition meter_seen :: "op_meter \<Rightarrow> op_meter" where
  "meter_seen m = m\<lparr>records_in := records_in m + 1\<rparr>"

definition meter_out :: "op_meter \<Rightarrow> op_meter" where
  "meter_out m = m\<lparr>records_out := records_out m + 1\<rparr>"

definition meter_out_n :: "nat \<Rightarrow> op_meter \<Rightarrow> op_meter" where
  "meter_out_n n m = m\<lparr>records_out := records_out m + n\<rparr>"

definition meter_filtered :: "op_meter \<Rightarrow> op_meter" where
  "meter_filtered m = m\<lparr>filtered := filtered m + 1\<rparr>"

definition meter_skipped :: "op_meter \<Rightarrow> op_meter" where
  "meter_skipped m = m\<lparr>skipped := skipped m + 1\<rparr>"

definition meter_unrouted :: "op_meter \<Rightarrow> op_meter" where
  "meter_unrouted m = m\<lparr>unrouted := unrouted m + 1\<rparr>"

definition meter_record_error :: "op_meter \<Rightarrow> op_meter" where
  "meter_record_error m = m\<lparr>record_errors := record_errors m + 1\<rparr>"

definition meter_fatal_error :: "op_meter \<Rightarrow> op_meter" where
  "meter_fatal_error m =
     (if tripped m then m
      else m\<lparr>tripped := True,
             om_handle := map_option (\<lambda>h. h\<lparr>om_err_fatal := om_err_fatal h + 1\<rparr>) (om_handle m)\<rparr>)"

definition meter_publish :: "op_meter \<Rightarrow> operator_metrics \<Rightarrow> operator_metrics" where
  "meter_publish m h =
     h\<lparr>om_in := om_in h + records_in m, om_out := om_out h + records_out m,
       om_filtered := (if filtered m > 0 then om_filtered h + filtered m else om_filtered h),
       om_skip := (if skipped m > 0 then om_skip h + skipped m else om_skip h),
       om_unrouted := (if unrouted m > 0 then om_unrouted h + unrouted m else om_unrouted h),
       om_err_record := (if record_errors m > 0 then om_err_record h + record_errors m else om_err_record h)\<rparr>"

definition meter_flush :: "op_meter \<Rightarrow> op_meter" where
  "meter_flush m =
     m\<lparr>om_handle := map_option (meter_publish m) (om_handle m), records_in := 0, records_out := 0,
       filtered := 0, skipped := 0, unrouted := 0, record_errors := 0\<rparr>"

definition meter_slot_clone :: "op_meter \<Rightarrow> op_meter" where
  "meter_slot_clone m = op_meter_new (om_handle m)"

type_synonym fatal_slot = "fatal_error option"

definition fatal_slot_clone :: "fatal_slot \<Rightarrow> fatal_slot" where
  "fatal_slot_clone f = None"

text \<open>\<open>get_or_insert_with\<close>: the slot keeps the first reason.\<close>

definition fatal_latch :: "string \<Rightarrow> string \<Rightarrow> fatal_slot \<Rightarrow> fatal_slot" where
  "fatal_latch component reason f =
     (case f of None \<Rightarrow> Some \<lparr>fe_component = component, fe_reason = reason\<rparr> | Some e \<Rightarrow> Some e)"

section \<open>Key hashing: one changed byte always changes the hash\<close>

text \<open>The multiplier is odd, so a step can be undone.\<close>

lemma fnv_prime_inverse: "fnv_prime * 14886173955864302971 = 1"
  by (simp add: fnv_prime_def)

lemma fnv_step_inj: "fnv_step h b = fnv_step h' b \<Longrightarrow> h = h'"
proof -
  assume "fnv_step h b = fnv_step h' b"
  then have "(h XOR ucast b) * (fnv_prime * 14886173955864302971)
      = (h' XOR ucast b) * (fnv_prime * 14886173955864302971)"
    by (simp only: fnv_step_def mult.assoc [symmetric])
  then have "(h XOR ucast b) XOR ucast b = (h' XOR ucast b) XOR ucast b"
    by (simp only: fnv_prime_inverse mult_1_right)
  then show ?thesis by (simp only: xor.assoc xor_self_eq xor.right_neutral)
qed

lemma byte_ucast_inj: "(ucast a :: 64 word) = ucast b \<longleftrightarrow> a = b" for a b :: "8 word"
  by transfer (simp add: take_bit_eq_mod mod_mod_trivial mod_mult2_eq)

lemma fnv_step_byte_inj: "fnv_step h a = fnv_step h b \<Longrightarrow> a = b"
proof -
  assume "fnv_step h a = fnv_step h b"
  then have "(h XOR ucast a) * (fnv_prime * 14886173955864302971)
      = (h XOR ucast b) * (fnv_prime * 14886173955864302971)"
    by (simp only: fnv_step_def mult.assoc [symmetric])
  then have "h XOR (h XOR ucast a) = h XOR (h XOR ucast b)"
    by (simp only: fnv_prime_inverse mult_1_right)
  then have "(ucast a :: 64 word) = ucast b"
    by (simp only: xor.assoc [symmetric] xor_self_eq xor.left_neutral)
  then show ?thesis by (simp add: byte_ucast_inj)
qed

lemma fnv_fold_inj: "foldl fnv_step h key = foldl fnv_step h' key \<Longrightarrow> h = h'"
  by (induction key arbitrary: h h') (auto dest: fnv_step_inj)

text \<open>
  Routing by key: with at least one shard the default router never panics and always
  names a shard in range; payloads with the same key go to the same shard whatever their
  partition, offset and timestamp; and two keys that differ in exactly one byte never have
  the same hash.
\<close>

lemma key_routing:
  assumes "0 < num_shards"
  shows "(\<exists>s < num_shards. key_hash_route m num_shards = Some s) \<and>
    (rp_key p = Some k \<and> rp_key q = Some k \<longrightarrow>
       key_hash_route (raw_meta p) num_shards = key_hash_route (raw_meta q) num_shards) \<and>
    (a \<noteq> b \<longrightarrow> stable_key_hash (pre @ a # post) \<noteq> stable_key_hash (pre @ b # post))"
proof (intro conjI impI)
  show "\<exists>s < num_shards. key_hash_route m num_shards = Some s"
    using assms by (simp add: key_hash_route_def Let_def)
  show "key_hash_route (raw_meta p) num_shards = key_hash_route (raw_meta q) num_shards"
    if "rp_key p = Some k \<and> rp_key q = Some k"
    using that by (simp add: key_hash_route_def raw_meta_def)
  show "stable_key_hash (pre @ a # post) \<noteq> stable_key_hash (pre @ b # post)" if "a \<noteq> b"
    using that by (auto simp: stable_key_hash_def dest!: fnv_fold_inj fnv_step_byte_inj)
qed

section \<open>What a meter adds up to\<close>

text \<open>
  Records counted so far, published or not. A stage with no handle loses its counts at a
  flush, so the totals only make sense with one.
\<close>

definition total_in :: "op_meter \<Rightarrow> nat" where
  "total_in m = (case om_handle m of None \<Rightarrow> 0 | Some h \<Rightarrow> om_in h) + records_in m"

definition total_out :: "op_meter \<Rightarrow> nat" where
  "total_out m = (case om_handle m of None \<Rightarrow> 0 | Some h \<Rightarrow> om_out h) + records_out m"

definition total_dropped :: "op_meter \<Rightarrow> nat" where
  "total_dropped m =
     (case om_handle m of None \<Rightarrow> 0 | Some h \<Rightarrow> om_filtered h + om_skip h + om_unrouted h)
       + filtered m + skipped m + unrouted m"

text \<open>A stage's books balance when every record in came out or was dropped on purpose.\<close>

definition balanced :: "op_meter \<Rightarrow> bool" where
  "balanced m \<longleftrightarrow> total_in m = total_out m + total_dropped m"

lemmas meter_defs = meter_seen_def meter_out_def meter_out_n_def meter_filtered_def meter_skipped_def
  meter_unrouted_def meter_record_error_def meter_fatal_error_def

lemma totals_flush [simp]:
  "om_handle m \<noteq> None \<Longrightarrow> total_in (meter_flush m) = total_in m"
  "om_handle m \<noteq> None \<Longrightarrow> total_out (meter_flush m) = total_out m"
  "om_handle m \<noteq> None \<Longrightarrow> total_dropped (meter_flush m) = total_dropped m"
  by (auto simp: total_in_def total_out_def total_dropped_def meter_flush_def meter_publish_def)

lemma balanced_flush: "balanced m \<Longrightarrow> balanced (meter_flush m)"
  by (cases "om_handle m")
    (auto simp: balanced_def total_in_def total_out_def total_dropped_def meter_flush_def meter_publish_def)

lemma balanced_out: "balanced m \<Longrightarrow> balanced (meter_out (meter_seen m))"
  and balanced_filtered: "balanced m \<Longrightarrow> balanced (meter_filtered (meter_seen m))"
  and balanced_skipped: "balanced m \<Longrightarrow> balanced (meter_record_error (meter_skipped (meter_seen m)))"
  and balanced_unrouted: "balanced m \<Longrightarrow> balanced (meter_unrouted (meter_seen m))"
  by (simp_all add: balanced_def total_in_def total_out_def total_dropped_def meter_defs)

lemma balanced_new [simp]: "balanced (op_meter_new None)"
  by (simp add: balanced_def op_meter_new_def total_in_def total_out_def total_dropped_def)

end
