(* ===== verification/Sink_Queue.thy ===== *)
theory Sink_Queue
  imports Records
begin

text \<open>
  The bounded per-shard queues between pipeline threads and shard workers,
  \<open>crates/spate-core/src/sink/queue.rs\<close>, and the chunk they carry (\<open>sink/mod.rs\<close>).

  The bounded channel is tokio's: \<open>mpsc_api\<close> collects the functions of it the code calls, and
  every operation takes one as its argument. Whether a send is accepted depends on the
  workers at the other end, so nothing is assumed of the answers. Next to each channel the
  model keeps \<open>sd_sent\<close>, the chunks accepted through it, oldest first; no operation reads it.

  The locale \<open>chunk_queue\<close> states what the terminal stage relies on; the last section
  discharges it for these queues.
\<close>

section \<open>Chunks\<close>

text \<open>
  \<open>EncodedChunk\<close>. The last field has no counterpart in the code: \<open>ck_row_acks\<close> names, for each
  row of the frame in order, the batch handle of the record it came from. It is written where
  \<open>rows\<close> is and never read by an operation; it is what the acknowledgment theorems speak of.
\<close>

record chunk =
  ck_frame :: bytes
  ck_raw_len :: nat
  ck_rows :: nat
  ck_acks :: ack_set
  ck_oldest_ingest :: instant
  ck_oldest_event_ms :: int
  ck_row_acks :: "ack_ref list"

section \<open>The channel\<close>

datatype try_send_result = SendOk | SendFull | SendClosed

record 'c mpsc_api =
  mpsc_channel :: "nat \<Rightarrow> 'c"
  mpsc_try_send :: "chunk \<Rightarrow> 'c \<Rightarrow> try_send_result \<times> 'c"
  mpsc_capacity :: "'c \<Rightarrow> nat"

record 'c sender =
  sd_chan :: 'c
  sd_sent :: "chunk list"

section \<open>The queues\<close>

record queue_metrics =
  qm_full_events :: nat
  qm_depth :: nat

record ('c, 'f) shard_queues =
  sq_senders :: "'c sender list"
  sq_capacity :: nat
  sq_metrics :: "queue_metrics list option"
  sq_codec :: "'f option"

definition with_frame_codec :: "'f \<Rightarrow> ('c, 'f) shard_queues \<Rightarrow> ('c, 'f) shard_queues" where
  "with_frame_codec codec q = q\<lparr>sq_codec := Some codec\<rparr>"

definition new_frame_codec :: "('f \<Rightarrow> 'k) \<Rightarrow> ('c, 'f) shard_queues \<Rightarrow> 'k option" where
  "new_frame_codec mk q = map_option mk (sq_codec q)"

definition num_shards :: "('c, 'f) shard_queues \<Rightarrow> nat" where
  "num_shards q = length (sq_senders q)"

definition upd_metrics ::
  "nat \<Rightarrow> (queue_metrics \<Rightarrow> queue_metrics) \<Rightarrow> ('c, 'f) shard_queues \<Rightarrow> ('c, 'f) shard_queues" where
  "upd_metrics shard f q =
     q\<lparr>sq_metrics := map_option (\<lambda>ms. ms[shard := f (ms ! shard)]) (sq_metrics q)\<rparr>"

definition set_depth :: "'c mpsc_api \<Rightarrow> nat \<Rightarrow> ('c, 'f) shard_queues \<Rightarrow> ('c, 'f) shard_queues" where
  "set_depth api shard q =
     upd_metrics shard
       (\<lambda>m. m\<lparr>qm_depth := sq_capacity q - mpsc_capacity api (sd_chan (sq_senders q ! shard))\<rparr>) q"

text \<open>
  \<open>try_send\<close>: true when the queue took the chunk. A chunk that is not taken comes back to the
  caller, which the model leaves with the caller's copy of it. An index out of range panics.
\<close>

definition try_send ::
  "'c mpsc_api \<Rightarrow> nat \<Rightarrow> chunk \<Rightarrow> ('c, 'f) shard_queues \<Rightarrow> (bool \<times> ('c, 'f) shard_queues) option" where
  "try_send api shard c q =
     (if shard < length (sq_senders q) then
        let sd = sq_senders q ! shard;
            (res, ch) = mpsc_try_send api c (sd_chan sd);
            q' = (\<lambda>sent. q\<lparr>sq_senders := (sq_senders q)[shard := \<lparr>sd_chan = ch, sd_sent = sent\<rparr>]\<rparr>)
        in case res of
             SendOk \<Rightarrow> Some (True, set_depth api shard (q' (sd_sent sd @ [c])))
           | SendFull \<Rightarrow>
               Some (False, set_depth api shard
                 (upd_metrics shard (\<lambda>m. m\<lparr>qm_full_events := qm_full_events m + 1\<rparr>) (q' (sd_sent sd))))
           | SendClosed \<Rightarrow> Some (False, q' (sd_sent sd))
      else None)"

text \<open>
  \<open>attach_metrics\<close>: one handle set per shard; the first that cannot be claimed ends it and
  leaves the queues without metrics. \<open>try_new\<close> is the registry's constructor.
\<close>

fun collect_results :: "('e + 'a) list \<Rightarrow> 'e + 'a list" where
  "collect_results [] = Inr []"
| "collect_results (Inl e # rs) = Inl e"
| "collect_results (Inr a # rs) =
     (case collect_results rs of Inl e \<Rightarrow> Inl e | Inr as \<Rightarrow> Inr (a # as))"

definition attach_metrics ::
  "(string \<Rightarrow> nat \<Rightarrow> 'e + queue_metrics) \<Rightarrow> ('c, 'f) shard_queues \<Rightarrow> ('e + unit) \<times> ('c, 'f) shard_queues" where
  "attach_metrics try_new q =
     (case collect_results
             (map (\<lambda>i. try_new (''chain->sink/shard-'' @ decimal i) (sq_capacity q)) [0..<length (sq_senders q)]) of
        Inl e \<Rightarrow> (Inl e, q)
      | Inr ms \<Rightarrow> (Inr (), q\<lparr>sq_metrics := Some ms\<rparr>))"

text \<open>\<open>all_below\<close>: \<open>scale c r\<close> is \<open>(c as f64 * r) as usize\<close>.\<close>

definition all_below :: "'c mpsc_api \<Rightarrow> (nat \<Rightarrow> 'r \<Rightarrow> nat) \<Rightarrow> 'r \<Rightarrow> ('c, 'f) shard_queues \<Rightarrow> bool" where
  "all_below api scale ratio q =
     (let threshold = scale (sq_capacity q) ratio
      in list_all (\<lambda>sd. sq_capacity q - mpsc_capacity api (sd_chan sd) \<le> threshold) (sq_senders q))"

definition shard_queues_new :: "'c mpsc_api \<Rightarrow> nat \<Rightarrow> nat \<Rightarrow> ('c, 'f) shard_queues option" where
  "shard_queues_new api n capacity =
     (if n > 0 \<and> capacity > 0 then
        Some \<lparr>sq_senders = replicate n \<lparr>sd_chan = mpsc_channel api capacity, sd_sent = []\<rparr>,
              sq_capacity = capacity, sq_metrics = None, sq_codec = None\<rparr>
      else None)"

section \<open>What the terminal stage relies on\<close>

text \<open>
  \<open>qsend i c q\<close> offers chunk \<open>c\<close> to shard \<open>i\<close>; \<open>accepted q i\<close> is what shard \<open>i\<close> has taken so far;
  \<open>frame_of q\<close> is whatever a send leaves alone, the number of shards included.
\<close>

locale chunk_queue =
  fixes qsend :: "nat \<Rightarrow> chunk \<Rightarrow> 'q \<Rightarrow> (bool \<times> 'q) option"
    and accepted :: "'q \<Rightarrow> nat \<Rightarrow> chunk list"
    and frame_of :: "'q \<Rightarrow> 'z" and width :: "'z \<Rightarrow> nat"
  assumes send_taken: "qsend i c q = Some (True, q') \<Longrightarrow> accepted q' = (accepted q)(i := accepted q i @ [c])"
    and send_refused: "qsend i c q = Some (False, q') \<Longrightarrow> accepted q' = accepted q"
    and send_frame: "qsend i c q = Some (ok, q') \<Longrightarrow> frame_of q' = frame_of q"
    and send_total: "qsend i c q = None \<longleftrightarrow> \<not> i < width (frame_of q)"
begin

lemma send_in_range: "i < width (frame_of q) \<Longrightarrow> \<exists>ok q'. qsend i c q = Some (ok, q')"
  using send_total [of i c q] by auto

lemma send_appends:
  "qsend i c q = Some (ok, q') \<Longrightarrow>
     accepted q' j = accepted q j @ (if ok \<and> j = i then [c] else [])"
  using send_taken [of i c q q'] send_refused [of i c q q'] by (cases ok) auto

end

section \<open>The queues keep the contract\<close>

definition sent_on :: "('c, 'f) shard_queues \<Rightarrow> nat \<Rightarrow> chunk list" where
  "sent_on q i = (if i < length (sq_senders q) then sd_sent (sq_senders q ! i) else [])"

lemma senders_upd_metrics [simp]: "sq_senders (upd_metrics i f q) = sq_senders q"
  by (simp add: upd_metrics_def)

lemma senders_set_depth [simp]: "sq_senders (set_depth api i q) = sq_senders q"
  by (simp add: set_depth_def)

lemma try_send_senders:
  "try_send api i c q = Some (ok, q') \<Longrightarrow>
     i < length (sq_senders q) \<and>
     (\<exists>ch. sq_senders q' = (sq_senders q)
        [i := \<lparr>sd_chan = ch, sd_sent = sd_sent (sq_senders q ! i) @ (if ok then [c] else [])\<rparr>])"
  by (auto simp: try_send_def Let_def split: if_splits prod.splits try_send_result.splits)

lemma sent_on_try_send:
  "try_send api i c q = Some (ok, q') \<Longrightarrow>
     sent_on q' = (if ok then (sent_on q)(i := sent_on q i @ [c]) else sent_on q)"
  by (drule try_send_senders) (auto simp: sent_on_def nth_upd fun_eq_iff)

interpretation sq: chunk_queue "try_send api" sent_on num_shards id
proof
  show "sent_on q' = (sent_on q)(i := sent_on q i @ [c])" if "try_send api i c q = Some (True, q')"
    for i c q q' using sent_on_try_send [OF that] by simp
  show "sent_on q' = sent_on q" if "try_send api i c q = Some (False, q')" for i c q q'
    using sent_on_try_send [OF that] by simp
  show "num_shards q' = num_shards q" if "try_send api i c q = Some (ok, q')" for i c q ok q'
    using try_send_senders [OF that] by (auto simp: num_shards_def)
  show "try_send api i c q = None \<longleftrightarrow> \<not> i < id (num_shards q)" for i c q
    by (auto simp: try_send_def num_shards_def Let_def split: prod.splits try_send_result.splits)
qed

end
