(* ===== verification/Backpressure.thy ===== *)
theory Backpressure
  imports Prelude
begin

text \<open>
  Backpressure, \<open>crates/spate-core/src/backpressure.rs\<close>: the shared byte budget and the
  pause/resume state machine each driver thread runs.

  The budget is one atomic \<open>usize\<close> changed only by read-modify-write operations, so its
  history is a sequence of saturating additions and subtractions. The controller reads the
  clock when a rejection is reported and when it is ticked; both readings are arguments, and
  so is the budget reading a tick takes. Ratios are \<open>f64\<close>: their type, order and the scaling
  product are arguments of \<open>from_budget\<close>.
\<close>

section \<open>The budget\<close>

type_synonym budget = nat

definition budget_new :: budget where
  "budget_new = 0"

definition budget_add :: "nat \<Rightarrow> budget \<Rightarrow> budget" where
  "budget_add n v = sat_add v n"

definition budget_sub :: "nat \<Rightarrow> budget \<Rightarrow> budget" where
  "budget_sub n v = sat_sub v n"

definition usage :: "budget \<Rightarrow> nat" where
  "usage v = v"

section \<open>Parameters\<close>

record bp_params =
  high_bytes :: nat
  low_bytes :: nat
  min_pause :: duration

definition from_budget ::
  "('f \<Rightarrow> 'f \<Rightarrow> bool) \<Rightarrow> ('f \<Rightarrow> 'f \<Rightarrow> bool) \<Rightarrow> 'f \<Rightarrow> 'f \<Rightarrow> (nat \<Rightarrow> 'f \<Rightarrow> nat)
     \<Rightarrow> nat \<Rightarrow> 'f \<Rightarrow> 'f \<Rightarrow> duration \<Rightarrow> bp_params option" where
  "from_budget lt le zero one scale max_inflight_bytes high_ratio low_ratio mp =
     (if 0 < max_inflight_bytes \<and> lt zero low_ratio \<and> le low_ratio high_ratio \<and> le high_ratio one
      then Some \<lparr>high_bytes = max (scale max_inflight_bytes high_ratio) 1,
                 low_bytes = scale max_inflight_bytes low_ratio, min_pause = mp\<rparr>
      else None)"

section \<open>The controller\<close>

datatype transition = Pause | Resume

datatype bp_state = Normal | Paused instant

record watermark_controller =
  wc_params :: bp_params
  wc_state :: bp_state
  rejected :: bool

definition with_clock :: "bp_params \<Rightarrow> watermark_controller" where
  "with_clock ps = \<lparr>wc_params = ps, wc_state = Normal, rejected = False\<rparr>"

definition on_send_rejected :: "instant \<Rightarrow> watermark_controller \<Rightarrow> watermark_controller" where
  "on_send_rejected now c =
     c\<lparr>rejected := True,
       wc_state := (case wc_state c of Paused since \<Rightarrow> Paused now | Normal \<Rightarrow> Normal)\<rparr>"

text \<open>\<open>duration_since\<close> saturates at zero, as subtraction on \<^typ>\<open>nat\<close> does.\<close>

definition tick ::
  "instant \<Rightarrow> budget \<Rightarrow> bool \<Rightarrow> watermark_controller \<Rightarrow> transition option \<times> watermark_controller" where
  "tick now b queues_below_low c =
     (case wc_state c of
        Normal \<Rightarrow>
          if rejected c \<or> high_bytes (wc_params c) \<le> usage b
          then (Some Pause, c\<lparr>rejected := False, wc_state := Paused now\<rparr>)
          else (None, c)
      | Paused since \<Rightarrow>
          if rejected c then (None, c\<lparr>rejected := False\<rparr>)
          else
            let drained = usage b \<le> low_bytes (wc_params c) \<and> queues_below_low in
            if drained \<and> min_pause (wc_params c) \<le> now - since
            then (Some Resume, c\<lparr>wc_state := Normal\<rparr>)
            else (None, c))"

definition is_paused :: "watermark_controller \<Rightarrow> bool" where
  "is_paused c \<longleftrightarrow> (case wc_state c of Paused _ \<Rightarrow> True | Normal \<Rightarrow> False)"

section \<open>Budget accounting\<close>

datatype budget_op = Add nat | Sub nat

fun budget_step :: "budget_op \<Rightarrow> budget \<Rightarrow> budget" where
  "budget_step (Add n) v = budget_add n v"
| "budget_step (Sub n) v = budget_sub n v"

fun added :: "budget_op list \<Rightarrow> nat" where
  "added [] = 0"
| "added (Add n # xs) = n + added xs"
| "added (Sub n # xs) = added xs"

fun subtracted :: "budget_op list \<Rightarrow> nat" where
  "subtracted [] = 0"
| "subtracted (Add n # xs) = subtracted xs"
| "subtracted (Sub n # xs) = n + subtracted xs"

lemma added_append [simp]: "added (xs @ ys) = added xs + added ys"
  by (induction xs rule: added.induct) simp_all

lemma subtracted_append [simp]: "subtracted (xs @ ys) = subtracted xs + subtracted ys"
  by (induction xs rule: subtracted.induct) simp_all

text \<open>
  The in-flight budget is exact while it does not saturate: after any interleaving of
  additions and subtractions in which no more is ever released than was taken and the total
  taken fits a \<open>usize\<close>, the reading is precisely what was taken minus what was released.
\<close>

lemma budget_exact:
  assumes "added xs \<le> usize_max"
    and "\<And>n. n \<le> length xs \<Longrightarrow> subtracted (take n xs) \<le> added (take n xs)"
  shows "usage (fold budget_step xs budget_new) = added xs - subtracted xs
    \<and> subtracted xs \<le> added xs"
  using assms
proof (induction xs rule: rev_induct)
  case (snoc x xs)
  have "subtracted (take n xs) \<le> added (take n xs)" if "n \<le> length xs" for n
    using snoc.prems(2) [of n] that by simp
  with snoc.IH snoc.prems(1)
  have IH: "fold budget_step xs budget_new = added xs - subtracted xs" "subtracted xs \<le> added xs"
    by (cases x; simp add: usage_def)+
  have last: "subtracted (xs @ [x]) \<le> added (xs @ [x])"
    using snoc.prems(2) [of "length (xs @ [x])"] by simp
  with IH snoc.prems(1) show ?case
    by (cases x) (auto simp: budget_add_def budget_sub_def sat_add_def sat_sub_def usage_def)
qed (simp add: usage_def budget_new_def)

section \<open>Traces\<close>

text \<open>What a driver does to its controller over time, each event with its clock reading.\<close>

datatype bp_event = Rejected (at: instant) | Tick (at: instant) budget bool

fun bp_step :: "bp_event \<Rightarrow> watermark_controller \<Rightarrow> (transition option \<times> watermark_controller) option" where
  "bp_step (Rejected now) c = Some (None, on_send_rejected now c)"
| "bp_step (Tick now b q) c = Some (tick now b q c)"

fun alternating :: "bool \<Rightarrow> transition list \<Rightarrow> bool" where
  "alternating paused [] \<longleftrightarrow> True"
| "alternating paused (x # xs) \<longleftrightarrow> x = (if paused then Resume else Pause) \<and> alternating (\<not> paused) xs"

definition transitions :: "transition option list \<Rightarrow> transition list" where
  "transitions rs = concat (map (\<lambda>r. case r of None \<Rightarrow> [] | Some x \<Rightarrow> [x]) rs)"

lemma is_paused_simps [simp]:
  "is_paused (c\<lparr>wc_state := Normal\<rparr>) = False" "is_paused (c\<lparr>wc_state := Paused i\<rparr>) = True"
  "is_paused (c\<lparr>rejected := b\<rparr>) = is_paused c"
  by (simp_all add: is_paused_def)

lemma bp_step_paused:
  assumes "bp_step e c = Some (r, c')"
  shows "case r of None \<Rightarrow> is_paused c' = is_paused c
    | Some Pause \<Rightarrow> \<not> is_paused c \<and> is_paused c'
    | Some Resume \<Rightarrow> is_paused c \<and> \<not> is_paused c'"
  using assms
  by (cases e)
     (auto simp: tick_def on_send_rejected_def is_paused_def Let_def split: bp_state.splits if_splits)

lemma bp_run_alternating:
  "run_ops bp_step es c = Some (rs, c') \<Longrightarrow> alternating (is_paused c) (transitions rs)"
proof (induction es arbitrary: c rs)
  case (Cons e es)
  then obtain r c1 rs1 where s: "bp_step e c = Some (r, c1)" "run_ops bp_step es c1 = Some (rs1, c')" "rs = r # rs1"
    by (auto simp: run_ops_Cons simp del: run_ops.simps)
  from bp_step_paused [OF s(1)] Cons.IH [OF s(2)] s(3) show ?case
    by (auto simp: transitions_def split: option.splits transition.splits)
qed (auto simp: transitions_def)

text \<open>
  The decisions of a controller strictly alternate, Pause first, whatever the driver
  reports and whenever it ticks.
\<close>

lemma transitions_alternate:
  assumes "run_ops bp_step es (with_clock ps) = Some (rs, c)"
  shows "alternating False (transitions rs)"
  using bp_run_alternating [OF assms] by (simp add: with_clock_def is_paused_def)

text \<open>Events after which the minimum pause has to elapse anew.\<close>

definition restarts :: "bp_event list \<Rightarrow> transition option list \<Rightarrow> nat \<Rightarrow> bool" where
  "restarts es rs i \<longleftrightarrow> (\<exists>r. es ! i = Rejected r) \<or> rs ! i = Some Pause"

definition timer_inv :: "bp_event list \<Rightarrow> transition option list \<Rightarrow> watermark_controller \<Rightarrow> bool" where
  "timer_inv es rs c \<longleftrightarrow>
     (\<forall>s. wc_state c = Paused s \<longrightarrow>
        s \<in> at ` set es \<and> (\<forall>i < length es. restarts es rs i \<longrightarrow> at (es ! i) \<le> s))"

lemma restarts_snoc:
  "length rs = length es \<Longrightarrow> i < length es \<Longrightarrow> restarts (es @ [e]) (rs @ [r]) i = restarts es rs i"
  "length rs = length es \<Longrightarrow> restarts (es @ [e]) (rs @ [r]) (length es) \<longleftrightarrow> (\<exists>t. e = Rejected t) \<or> r = Some Pause"
  by (simp_all add: restarts_def nth_append)

lemma paused_since:
  assumes "bp_step e c = Some (r, c')" and "wc_state c' = Paused s"
  shows "s = at e \<or> wc_state c = Paused s \<and> r = None \<and> (\<forall>t. e \<noteq> Rejected t)"
  using assms
  by (cases e) (auto simp: tick_def on_send_rejected_def Let_def split: bp_state.splits if_splits)

lemma timer_step:
  assumes inv: "timer_inv es rs c" and len: "length rs = length es"
    and late: "\<forall>e' \<in> set es. at e' \<le> at e" and step: "bp_step e c = Some (r, c')"
  shows "timer_inv (es @ [e]) (rs @ [r]) c'"
    and "r = Some Resume \<Longrightarrow> i < length es \<Longrightarrow> restarts es rs i \<Longrightarrow>
      at (es ! i) + min_pause (wc_params c) \<le> at e"
    and "wc_params c' = wc_params c"
proof -
  have before: "at (es ! i) \<le> at e" if "i < length es" for i
    using late that by simp
  show "timer_inv (es @ [e]) (rs @ [r]) c'"
    unfolding timer_inv_def
  proof (intro allI impI)
    fix s assume "wc_state c' = Paused s"
    with paused_since [OF step]
    consider "s = at e" | "wc_state c = Paused s" "r = None" "\<And>t. e \<noteq> Rejected t"
      by blast
    then show "s \<in> at ` set (es @ [e]) \<and>
        (\<forall>i < length (es @ [e]). restarts (es @ [e]) (rs @ [r]) i \<longrightarrow> at ((es @ [e]) ! i) \<le> s)"
    proof cases
      case 1
      with before show ?thesis by (simp add: nth_append)
    next
      case 2
      with inv have s: "s \<in> at ` set es" "\<And>i. i < length es \<Longrightarrow> restarts es rs i \<Longrightarrow> at (es ! i) \<le> s"
        by (auto simp: timer_inv_def)
      have "\<not> restarts (es @ [e]) (rs @ [r]) (length es)"
        using 2 len by (simp add: restarts_snoc)
      with s len show ?thesis
        by (auto simp: less_Suc_eq restarts_snoc nth_append)
    qed
  qed
  show "wc_params c' = wc_params c"
    using step by (cases e) (auto simp: tick_def on_send_rejected_def Let_def split: bp_state.splits if_splits)
  show "at (es ! i) + min_pause (wc_params c) \<le> at e"
    if r: "r = Some Resume" and i: "i < length es" "restarts es rs i"
  proof -
    from step r obtain s where s: "wc_state c = Paused s" "min_pause (wc_params c) \<le> at e - s"
      by (cases e) (auto simp: tick_def Let_def split: bp_state.splits if_splits)
    from inv s(1) i have "at (es ! i) \<le> s" "s \<in> at ` set es" by (auto simp: timer_inv_def)
    with late have "s \<le> at e" by auto
    with s(2) \<open>at (es ! i) \<le> s\<close> show ?thesis by simp
  qed
qed

lemma timer_run:
  assumes "run_ops bp_step es (with_clock ps) = Some (rs, c)" and "sorted (map at es)"
  shows "timer_inv es rs c \<and> wc_params c = ps"
  using assms
proof (induction es arbitrary: rs c rule: rev_induct)
  case (snoc e es)
  from snoc.prems(1) obtain rs1 c1 r where 1: "run_ops bp_step es (with_clock ps) = Some (rs1, c1)"
    and 2: "bp_step e c1 = Some (r, c)" and rs: "rs = rs1 @ [r]"
    unfolding run_ops_snoc by blast
  have "timer_inv es rs1 c1" "wc_params c1 = ps" "\<forall>e' \<in> set es. at e' \<le> at e"
    using snoc.IH [OF 1] snoc.prems(2) by (auto simp: sorted_append)
  with timer_step [OF _ run_ops_length [OF 1] _ 2] rs show ?case by simp
qed (simp add: timer_inv_def with_clock_def)

text \<open>
  C12. Hysteresis: with a monotonic clock, whenever the controller resumes, usage is at or
  below the low mark, the queues are below theirs, and at least \<open>min_pause\<close> has passed since
  the pause began and since every rejection reported before, so neither a pause nor a late
  rejection is cut short.
\<close>

theorem resume_only_after_min_pause:
  assumes "run_ops bp_step (es @ [e]) (with_clock ps) = Some (rs @ [Some Resume], c)"
    and "sorted (map at (es @ [e]))"
  shows "(\<forall>i < length es. restarts es rs i \<longrightarrow> at (es ! i) + min_pause ps \<le> at e)
    \<and> (\<exists>now b. e = Tick now b True \<and> usage b \<le> low_bytes ps)"
proof -
  from assms(1) obtain c1 where 1: "run_ops bp_step es (with_clock ps) = Some (rs, c1)"
    and 2: "bp_step e c1 = Some (Some Resume, c)"
    unfolding run_ops_snoc by blast
  have inv: "timer_inv es rs c1" "wc_params c1 = ps" and late: "\<forall>e' \<in> set es. at e' \<le> at e"
    using timer_run [OF 1] assms(2) by (auto simp: sorted_append)
  from timer_step(2) [OF inv(1) run_ops_length [OF 1] late 2] inv(2)
  have "\<forall>i < length es. restarts es rs i \<longrightarrow> at (es ! i) + min_pause ps \<le> at e" by simp
  moreover have "\<exists>now b. e = Tick now b True \<and> usage b \<le> low_bytes ps"
    using 2 inv(2) by (cases e) (auto simp: tick_def Let_def split: bp_state.splits if_splits)
  ultimately show ?thesis ..
qed

theorem resume_only_after_min_pause_witness:
  "at (Rejected 2) + min_pause \<lparr>high_bytes = 90, low_bytes = 50, min_pause = 5\<rparr> \<le> at (Tick 7 10 True)"
proof -
  let ?ps = "\<lparr>high_bytes = 90, low_bytes = 50, min_pause = 5\<rparr>"
  let ?es = "[Tick 0 95 True, Rejected 2, Tick 3 10 True]"
  let ?e = "Tick 7 10 True"
  have run: "run_ops bp_step (?es @ [?e]) (with_clock ?ps)
      = Some ([Some Pause, None, None] @ [Some Resume], with_clock ?ps)"
    by (simp add: with_clock_def tick_def usage_def on_send_rejected_def)
  have "restarts ?es [Some Pause, None, None] 1" by (simp add: restarts_def)
  with resume_only_after_min_pause [OF run] show ?thesis by force
qed

end
