(* ===== verification/Handoff.thy ===== *)
theory Handoff
  imports Sink_Queue Backpressure "HOL-Library.Sublist"
begin

text \<open>
  The terminal stage of a chain, \<open>crates/spate-core/src/ops/handoff.rs\<close>: one accumulation
  buffer per shard, chunks sealed at a target size and offered to the shard queues, chunks
  that are refused parked in seal order.

  The row encoder, the frame codec, the router and the queues are arguments, collected in
  \<open>handoff_env\<close>; the encoder and the codec carry their own state. What the stage shares with
  the rest of the process is the \<open>world\<close>: the acknowledgment heap, the in-flight budget, the
  queues and the clock.
\<close>

section \<open>Configuration and state\<close>

record chunk_config =
  target_bytes :: nat
  encode_policy :: error_policy

definition chunk_config_default :: chunk_config where
  "chunk_config_default = \<lparr>target_bytes = 64 * 1024, encode_policy = Skip\<rparr>"

record 'q world =
  w_heap :: ack_heap
  w_budget :: budget
  w_queues :: 'q
  w_now :: instant

record ('t, 'e, 'k, 'q) handoff_env =
  he_encode :: "'e \<Rightarrow> 't rec \<Rightarrow> bytes \<Rightarrow> sink_error option \<times> 'e \<times> bytes"
  he_buffered_bytes :: "'e \<Rightarrow> nat"
  he_finish_chunk :: "'e \<Rightarrow> bytes \<Rightarrow> sink_error option \<times> 'e \<times> bytes"
  he_encode_frame :: "'k \<Rightarrow> bytes \<Rightarrow> (sink_error + bytes) \<times> 'k"
  he_route_record :: "'t rec \<Rightarrow> nat \<Rightarrow> nat"
  he_try_send :: "nat \<Rightarrow> chunk \<Rightarrow> 'q \<Rightarrow> (bool \<times> 'q) option"

text \<open>
  \<open>ShardBuf\<close>. \<open>sb_row_acks\<close> is written along with \<open>sb_rows\<close> and never read by an operation; it
  becomes the chunk's \<open>ck_row_acks\<close>. \<open>rows\<close> and \<open>parked\<close> are \<open>u32\<close> in the code; they count rows
  and chunks held in memory, and the model counts them without a bound.
\<close>

record 'e shard_buf =
  sb_encoder :: 'e
  sb_buf :: bytes
  sb_rows :: nat
  sb_acks :: ack_set
  sb_last_batch :: "batch_id option"
  sb_first_ingest :: "instant option"
  sb_oldest_event_ms :: int
  sb_finished_rows :: "nat option"
  sb_parked :: nat
  sb_row_acks :: "ack_ref list"

record ('e, 'k) sink_handoff =
  ho_cfg :: chunk_config
  ho_shards :: "'e shard_buf list"
  ho_parked :: "(nat \<times> chunk) list"
  ho_codec :: "'k option"
  ho_meter :: op_meter
  ho_fatal :: fatal_slot
  ho_component :: string

definition shard_buf_new :: "'e \<Rightarrow> 'e shard_buf" where
  "shard_buf_new encoder =
     \<lparr>sb_encoder = encoder, sb_buf = [], sb_rows = 0, sb_acks = ackset_new, sb_last_batch = None,
      sb_first_ingest = None, sb_oldest_event_ms = i64_max, sb_finished_rows = None, sb_parked = 0,
      sb_row_acks = []\<rparr>"

definition handoff_new ::
  "'e \<Rightarrow> nat \<Rightarrow> 'k option \<Rightarrow> chunk_config \<Rightarrow> op_meter \<Rightarrow> string \<Rightarrow> ('e, 'k) sink_handoff option" where
  "handoff_new encoder shards codec cfg meter component =
     (if target_bytes cfg > 0 then
        Some \<lparr>ho_cfg = cfg, ho_shards = replicate shards (shard_buf_new encoder), ho_parked = [],
              ho_codec = codec, ho_meter = meter, ho_fatal = None, ho_component = component\<rparr>
      else None)"

section \<open>Sealing\<close>

definition set_shard :: "nat \<Rightarrow> 'e shard_buf \<Rightarrow> ('e, 'k) sink_handoff \<Rightarrow> ('e, 'k) sink_handoff" where
  "set_shard i b h = h\<lparr>ho_shards := (ho_shards h)[i := b]\<rparr>"

text \<open>The stage records a fatal error: counted once, first reason kept.\<close>

definition trip :: "string \<Rightarrow> ('e, 'k) sink_handoff \<Rightarrow> ('e, 'k) sink_handoff" where
  "trip reason h =
     h\<lparr>ho_meter := meter_fatal_error (ho_meter h),
       ho_fatal := fatal_latch (ho_component h) reason (ho_fatal h)\<rparr>"

text \<open>
  The first half of \<open>seal_and_send\<close>: finish the block, unless a codec error left it finished,
  and turn the buffer into a frame. On success the shard's buffer is empty and the frame
  comes with the length before the codec; on an error the stage has tripped.
\<close>

definition seal_finish ::
  "('t, 'e, 'k, 'q) handoff_env \<Rightarrow> 'e shard_buf \<Rightarrow> sink_error option \<times> 'e shard_buf" where
  "seal_finish env b =
     (if sb_finished_rows b \<noteq> Some (sb_rows b) then
        let (err, e, buf) = he_finish_chunk env (sb_encoder b) (sb_buf b)
        in case err of
             Some x \<Rightarrow> (Some x, b\<lparr>sb_encoder := e, sb_buf := take (length (sb_buf b)) buf\<rparr>)
           | None \<Rightarrow> (None, b\<lparr>sb_encoder := e, sb_buf := buf\<rparr>)
      else (None, b))"

definition seal_frame ::
  "('t, 'e, 'k, 'q) handoff_env \<Rightarrow> 'k option \<Rightarrow> 'e shard_buf
     \<Rightarrow> (sink_error + bytes \<times> nat) \<times> 'k option \<times> 'e shard_buf" where
  "seal_frame env codec b =
     (case codec of
        None \<Rightarrow> (Inr (sb_buf b, length (sb_buf b)), None, b\<lparr>sb_buf := []\<rparr>)
      | Some k \<Rightarrow>
          (case he_encode_frame env k (sb_buf b) of
             (Inr coded, k') \<Rightarrow>
               (Inr (coded, length (sb_buf b)), Some k', b\<lparr>sb_buf := [], sb_finished_rows := None\<rparr>)
           | (Inl e, k') \<Rightarrow> (Inl e, Some k', b\<lparr>sb_finished_rows := Some (sb_rows b)\<rparr>)))"

definition seal_chunk :: "instant \<Rightarrow> bytes \<Rightarrow> nat \<Rightarrow> 'e shard_buf \<Rightarrow> chunk \<times> 'e shard_buf" where
  "seal_chunk now frame raw_len b =
     (\<lparr>ck_frame = frame, ck_raw_len = raw_len, ck_rows = sb_rows b, ck_acks = sb_acks b,
       ck_oldest_ingest = (case sb_first_ingest b of Some t \<Rightarrow> t | None \<Rightarrow> now),
       ck_oldest_event_ms = sb_oldest_event_ms b, ck_row_acks = sb_row_acks b\<rparr>,
      b\<lparr>sb_acks := ackset_new, sb_first_ingest := None, sb_rows := 0, sb_last_batch := None,
        sb_oldest_event_ms := i64_max, sb_row_acks := []\<rparr>)"

definition park :: "nat \<Rightarrow> chunk \<Rightarrow> 'e shard_buf \<Rightarrow> ('e, 'k) sink_handoff \<Rightarrow> ('e, 'k) sink_handoff" where
  "park i c b h =
     set_shard i (b\<lparr>sb_parked := sb_parked b + 1\<rparr>) (h\<lparr>ho_parked := ho_parked h @ [(i, c)]\<rparr>)"

text \<open>The second half: charge the budget and offer the chunk, unless earlier ones wait.\<close>

definition seal_send ::
  "('t, 'e, 'k, 'q) handoff_env \<Rightarrow> nat \<Rightarrow> bytes \<Rightarrow> nat \<Rightarrow> 'e shard_buf \<Rightarrow> ('e, 'k) sink_handoff
     \<Rightarrow> 'q world \<Rightarrow> (('e, 'k) sink_handoff \<times> 'q world) option" where
  "seal_send env i frame raw_len b h w =
     (let w1 = w\<lparr>w_budget := budget_add raw_len (w_budget w)\<rparr>;
          (c, b1) = seal_chunk (w_now w) frame raw_len b
      in if sb_parked b1 > 0 then Some (park i c b1 h, w1)
         else case he_try_send env i c (w_queues w1) of
                None \<Rightarrow> None
              | Some (True, q) \<Rightarrow> Some (set_shard i b1 h, w1\<lparr>w_queues := q\<rparr>)
              | Some (False, q) \<Rightarrow> Some (park i c b1 h, w1\<lparr>w_queues := q\<rparr>))"

definition seal_and_send ::
  "('t, 'e, 'k, 'q) handoff_env \<Rightarrow> nat \<Rightarrow> ('e, 'k) sink_handoff \<Rightarrow> 'q world
     \<Rightarrow> (('e, 'k) sink_handoff \<times> 'q world) option" where
  "seal_and_send env i h w =
     (if i < length (ho_shards h) then
        let b = ho_shards h ! i
        in if sb_rows b = 0 then Some (h, w)
           else case seal_finish env b of
                  (Some e, b1) \<Rightarrow> Some (trip (sink_display e) (set_shard i b1 h), w)
                | (None, b1) \<Rightarrow>
                    (case seal_frame env (ho_codec h) b1 of
                       (Inl e, k, b2) \<Rightarrow>
                         Some (trip (sink_display e) (set_shard i b2 (h\<lparr>ho_codec := k\<rparr>)), w)
                     | (Inr (frame, raw_len), k, b2) \<Rightarrow>
                         seal_send env i frame raw_len b2 (h\<lparr>ho_codec := k\<rparr>) w)
      else None)"

section \<open>Parked chunks\<close>

definition unpark :: "nat \<Rightarrow> ('e, 'k) sink_handoff \<Rightarrow> ('e, 'k) sink_handoff" where
  "unpark i h =
     set_shard i ((ho_shards h ! i)\<lparr>sb_parked := sb_parked (ho_shards h ! i) - 1\<rparr>) h"

fun drain_loop ::
  "('t, 'e, 'k, 'q) handoff_env \<Rightarrow> (nat \<times> chunk) list \<Rightarrow> ('e, 'k) sink_handoff \<Rightarrow> 'q world
     \<Rightarrow> (bool \<times> ('e, 'k) sink_handoff \<times> 'q world) option" where
  "drain_loop env [] h w = Some (True, h\<lparr>ho_parked := []\<rparr>, w)"
| "drain_loop env ((i, c) # ps) h w =
     (case he_try_send env i c (w_queues w) of
        None \<Rightarrow> None
      | Some (True, q) \<Rightarrow>
          if i < length (ho_shards h)
          then drain_loop env ps (unpark i h) (w\<lparr>w_queues := q\<rparr>) else None
      | Some (False, q) \<Rightarrow> Some (False, h\<lparr>ho_parked := (i, c) # ps\<rparr>, w\<lparr>w_queues := q\<rparr>))"

definition drain_parked ::
  "('t, 'e, 'k, 'q) handoff_env \<Rightarrow> ('e, 'k) sink_handoff \<Rightarrow> 'q world
     \<Rightarrow> (bool \<times> ('e, 'k) sink_handoff \<times> 'q world) option" where
  "drain_parked env h w = drain_loop env (ho_parked h) h w"

section \<open>The stage operations\<close>

text \<open>A record encoded: count it, stamp it, and hold its batch unless the last row's batch is it.\<close>

definition hold_batch :: "ack_ref \<Rightarrow> 'e shard_buf \<Rightarrow> ack_heap \<Rightarrow> 'e shard_buf \<times> ack_heap" where
  "hold_batch r b hp =
     (let bid = ackref_batch_id hp r
      in if sb_last_batch b \<noteq> Some bid
         then (b\<lparr>sb_acks := ackset_push (sb_acks b) r, sb_last_batch := Some bid\<rparr>, ackref_clone r hp)
         else (b, hp))"

definition add_row :: "instant \<Rightarrow> 't rec \<Rightarrow> 'e shard_buf \<Rightarrow> 'e shard_buf" where
  "add_row now r b =
     b\<lparr>sb_rows := sb_rows b + 1,
       sb_first_ingest := Some (case sb_first_ingest b of Some t \<Rightarrow> t | None \<Rightarrow> now),
       sb_oldest_event_ms := min (sb_oldest_event_ms b) (rm_event_time_ms (meta r)),
       sb_row_acks := sb_row_acks b @ [rec_ack r]\<rparr>"

definition push_encoded ::
  "('t, 'e, 'k, 'q) handoff_env \<Rightarrow> nat \<Rightarrow> 't rec \<Rightarrow> 'e shard_buf \<Rightarrow> ('e, 'k) sink_handoff
     \<Rightarrow> 'q world \<Rightarrow> (('e, 'k) sink_handoff \<times> 'q world) option" where
  "push_encoded env i r b h w =
     (let (b1, hp) = hold_batch (rec_ack r) (add_row (w_now w) r b) (w_heap w);
          h1 = set_shard i b1 (h\<lparr>ho_meter := meter_out (ho_meter h)\<rparr>);
          w1 = w\<lparr>w_heap := hp\<rparr>
      in if length (sb_buf b1) + he_buffered_bytes env (sb_encoder b1) \<ge> target_bytes (ho_cfg h)
         then seal_and_send env i h1 w1 else Some (h1, w1))"

definition push_failed :: "sink_error \<Rightarrow> ('e, 'k) sink_handoff \<Rightarrow> ('e, 'k) sink_handoff" where
  "push_failed e h =
     (if encode_policy (ho_cfg h) = Skip \<and> sink_class e \<noteq> Fatal
      then h\<lparr>ho_meter := meter_record_error (meter_skipped (ho_meter h))\<rparr>
      else trip (sink_display e) h)"

definition push_live ::
  "('t, 'e, 'k, 'q) handoff_env \<Rightarrow> 't rec \<Rightarrow> ('e, 'k) sink_handoff \<Rightarrow> 'q world
     \<Rightarrow> (('e, 'k) sink_handoff \<times> 'q world) option" where
  "push_live env r h w =
     (let i = he_route_record env r (length (ho_shards h))
      in if i < length (ho_shards h) then
           let b = ho_shards h ! i; (err, e, buf) = he_encode env (sb_encoder b) r (sb_buf b)
           in case err of
                None \<Rightarrow> push_encoded env i r (b\<lparr>sb_encoder := e, sb_buf := buf\<rparr>) h w
              | Some x \<Rightarrow>
                  Some (push_failed x
                          (set_shard i (b\<lparr>sb_encoder := e, sb_buf := take (length (sb_buf b)) buf\<rparr>) h), w)
         else None)"

text \<open>\<open>push\<close> owns the record: its handle is dropped on the way out of every branch.\<close>

definition drop_rec :: "'t rec \<Rightarrow> 'q world \<Rightarrow> 'q world" where
  "drop_rec r w = w\<lparr>w_heap := ackref_drop (rec_ack r) (w_heap w)\<rparr>"

definition handoff_push ::
  "('t, 'e, 'k, 'q) handoff_env \<Rightarrow> 't rec \<Rightarrow> ('e, 'k) sink_handoff \<Rightarrow> 'q world
     \<Rightarrow> (flow \<times> ('e, 'k) sink_handoff \<times> 'q world) option" where
  "handoff_push env r h w =
     (let h1 = h\<lparr>ho_meter := meter_seen (ho_meter h)\<rparr>
      in if ho_fatal h1 \<noteq> None then Some (Continue, h1, drop_rec r w)
         else case push_live env r h1 w of
                None \<Rightarrow> None
              | Some (h2, w2) \<Rightarrow> Some (Continue, h2, drop_rec r w2))"

definition handoff_on_batch_end :: "('e, 'k) sink_handoff \<Rightarrow> ('e, 'k) sink_handoff" where
  "handoff_on_batch_end h = h\<lparr>ho_meter := meter_flush (ho_meter h)\<rparr>"

definition handoff_take_fatal :: "('e, 'k) sink_handoff \<Rightarrow> fatal_error option \<times> ('e, 'k) sink_handoff" where
  "handoff_take_fatal h = (ho_fatal h, h\<lparr>ho_fatal := None\<rparr>)"

definition flow_of :: "bool \<Rightarrow> flow" where
  "flow_of ok = (if ok then Continue else Blocked)"

definition handoff_relieve ::
  "('t, 'e, 'k, 'q) handoff_env \<Rightarrow> ('e, 'k) sink_handoff \<Rightarrow> 'q world
     \<Rightarrow> (flow \<times> ('e, 'k) sink_handoff \<times> 'q world) option" where
  "handoff_relieve env h w =
     (if ho_parked h = [] then Some (Continue, h, w)
      else map_option (\<lambda>(ok, h', w'). (flow_of ok, h', w')) (drain_parked env h w))"

fun seal_all ::
  "('t, 'e, 'k, 'q) handoff_env \<Rightarrow> nat list \<Rightarrow> ('e, 'k) sink_handoff \<Rightarrow> 'q world
     \<Rightarrow> (('e, 'k) sink_handoff \<times> 'q world) option" where
  "seal_all env [] h w = Some (h, w)"
| "seal_all env (i # is) h w =
     (case seal_and_send env i h w of None \<Rightarrow> None | Some (h', w') \<Rightarrow> seal_all env is h' w')"

definition handoff_flush_terminal ::
  "('t, 'e, 'k, 'q) handoff_env \<Rightarrow> ('e, 'k) sink_handoff \<Rightarrow> 'q world
     \<Rightarrow> (flow \<times> ('e, 'k) sink_handoff \<times> 'q world) option" where
  "handoff_flush_terminal env h w =
     (case seal_all env [0..<length (ho_shards h)] h w of
        None \<Rightarrow> None
      | Some (h1, w1) \<Rightarrow>
          map_option (\<lambda>(ok, h', w'). (flow_of ok, h', w')) (drain_parked env h1 w1))"

text \<open>
  \<open>Drop\<close>: the parked chunks give their bytes back and fail their batches one by one, then
  the shard buffers' own sets fail theirs.
\<close>

definition drop_chunk :: "chunk \<Rightarrow> 'q world \<Rightarrow> 'q world" where
  "drop_chunk c w =
     w\<lparr>w_budget := budget_sub (ck_raw_len c) (w_budget w), w_heap := ackset_drop (ck_acks c) (w_heap w)\<rparr>"

definition drop_buf :: "'e shard_buf \<Rightarrow> 'q world \<Rightarrow> 'q world" where
  "drop_buf b w = w\<lparr>w_heap := ackset_drop (sb_acks b) (w_heap w)\<rparr>"

definition handoff_drop :: "('e, 'k) sink_handoff \<Rightarrow> 'q world \<Rightarrow> 'q world" where
  "handoff_drop h w = fold drop_buf (ho_shards h) (fold drop_chunk (map snd (ho_parked h)) w)"

section \<open>The order chunks leave in\<close>

definition parked_in :: "(nat \<times> chunk) list \<Rightarrow> nat \<Rightarrow> chunk list" where
  "parked_in ps i = map snd (filter (\<lambda>p. fst p = i) ps)"

definition parked_inv :: "'e shard_buf list \<Rightarrow> (nat \<times> chunk) list \<Rightarrow> bool" where
  "parked_inv bs ps \<longleftrightarrow>
     (\<forall>p \<in> set ps. fst p < length bs) \<and> (\<forall>i < length bs. sb_parked (bs ! i) = length (parked_in ps i))"

text \<open>A buffer up to its count of parked chunks.\<close>

definition buf_core :: "'e shard_buf \<Rightarrow> 'e shard_buf" where
  "buf_core b = b\<lparr>sb_parked := 0\<rparr>"

lemma parked_in_simps [simp]:
  "parked_in [] i = []"
  "parked_in ((j, c) # ps) i = (if j = i then c # parked_in ps i else parked_in ps i)"
  "parked_in (ps @ qs) i = parked_in ps i @ parked_in qs i"
  by (simp_all add: parked_in_def)

lemma parked_inv_Cons:
  assumes "parked_inv bs ((i, c) # ps)"
  shows "i < length bs" and "parked_inv (bs[i := (bs ! i)\<lparr>sb_parked := sb_parked (bs ! i) - 1\<rparr>]) ps"
  using assms by (auto simp: parked_inv_def nth_upd)

lemma parked_inv_snoc:
  assumes "parked_inv bs ps" and "i < length bs" and "sb_parked b = sb_parked (bs ! i)"
  shows "parked_inv (bs[i := b\<lparr>sb_parked := sb_parked b + 1\<rparr>]) (ps @ [(i, c)])"
  using assms by (auto simp: parked_inv_def nth_upd)

lemma parked_inv_upd:
  assumes "parked_inv bs ps" and "i < length bs" and "sb_parked b = sb_parked (bs ! i)"
  shows "parked_inv (bs[i := b]) ps"
  using assms by (auto simp: parked_inv_def nth_upd)

lemma ho_shards_set_shard [simp]: "ho_shards (set_shard i b h) = (ho_shards h)[i := b]"
  and ho_parked_set_shard [simp]: "ho_parked (set_shard i b h) = ho_parked h"
  and ho_fatal_set_shard [simp]: "ho_fatal (set_shard i b h) = ho_fatal h"
  and ho_meter_set_shard [simp]: "ho_meter (set_shard i b h) = ho_meter h"
  and ho_cfg_set_shard [simp]: "ho_cfg (set_shard i b h) = ho_cfg h"
  and ho_codec_set_shard [simp]: "ho_codec (set_shard i b h) = ho_codec h"
  and ho_component_set_shard [simp]: "ho_component (set_shard i b h) = ho_component h"
  by (simp_all add: set_shard_def)

lemma ho_shards_trip [simp]: "ho_shards (trip e h) = ho_shards h"
  and ho_parked_trip [simp]: "ho_parked (trip e h) = ho_parked h"
  and ho_cfg_trip [simp]: "ho_cfg (trip e h) = ho_cfg h"
  and ho_codec_trip [simp]: "ho_codec (trip e h) = ho_codec h"
  and ho_fatal_trip [simp]: "ho_fatal (trip e h) = fatal_latch (ho_component h) e (ho_fatal h)"
  by (simp_all add: trip_def)

lemma ho_shards_park [simp]:
  "ho_shards (park i c b h) = (ho_shards h)[i := b\<lparr>sb_parked := sb_parked b + 1\<rparr>]"
  and ho_parked_park [simp]: "ho_parked (park i c b h) = ho_parked h @ [(i, c)]"
  and ho_fatal_park [simp]: "ho_fatal (park i c b h) = ho_fatal h"
  and ho_meter_park [simp]: "ho_meter (park i c b h) = ho_meter h"
  and ho_cfg_park [simp]: "ho_cfg (park i c b h) = ho_cfg h"
  and ho_codec_park [simp]: "ho_codec (park i c b h) = ho_codec h"
  by (simp_all add: park_def)

text \<open>Everything sealed for a shard, in order: what its queue took, then what waits.\<close>

definition chunk_stream :: "(nat \<Rightarrow> chunk list) \<Rightarrow> (nat \<times> chunk) list \<Rightarrow> nat \<Rightarrow> chunk list" where
  "chunk_stream taken ps i = taken i @ parked_in ps i"

context chunk_queue
begin

lemma drain_loop_ok:
  assumes "he_try_send env = qsend" and "drain_loop env ps h w = Some (ok, h', w')"
    and "parked_inv (ho_shards h) ps"
  shows "parked_inv (ho_shards h') (ho_parked h') \<and>
    chunk_stream (accepted (w_queues w')) (ho_parked h') = chunk_stream (accepted (w_queues w)) ps \<and>
    (ok \<longleftrightarrow> ho_parked h' = []) \<and>
    map buf_core (ho_shards h') = map buf_core (ho_shards h) \<and>
    (\<forall>i. prefix (accepted (w_queues w) i) (accepted (w_queues w') i)) \<and>
    ho_cfg h' = ho_cfg h \<and> ho_codec h' = ho_codec h \<and> ho_meter h' = ho_meter h \<and>
    ho_fatal h' = ho_fatal h \<and> ho_component h' = ho_component h \<and>
    w_heap w' = w_heap w \<and> w_budget w' = w_budget w \<and> w_now w' = w_now w \<and> frame_of (w_queues w') = frame_of (w_queues w)"
  using assms(2,3)
proof (induction ps arbitrary: h w)
  case (Cons p ps)
  obtain i c where p: "p = (i, c)" by (cases p)
  obtain ok1 q where q: "qsend i c (w_queues w) = Some (ok1, q)"
    using Cons.prems assms(1) p by (auto split: option.splits)
  note inv = parked_inv_Cons [OF Cons.prems(2) [unfolded p]]
  show ?case
  proof (cases ok1)
    case True
    with q Cons.prems assms(1) p inv(1)
    have rest: "drain_loop env ps (unpark i h) (w\<lparr>w_queues := q\<rparr>) = Some (ok, h', w')" by simp
    have "map buf_core (ho_shards (unpark i h)) = map buf_core (ho_shards h)"
      by (simp add: unpark_def map_upd_same buf_core_def)
    moreover have "chunk_stream (accepted q) ps = chunk_stream (accepted (w_queues w)) (p # ps)"
      using send_taken [of i c "w_queues w" q] q True p
      by (auto simp: chunk_stream_def fun_eq_iff)
    moreover note IH = Cons.IH [OF rest]
    moreover have "\<forall>j. prefix (accepted (w_queues w) j) (accepted (w_queues w') j)"
    proof
      fix j
      have "prefix (accepted (w_queues w) j) (accepted q j)" using send_appends [OF q] by simp
      also have "prefix \<dots> (accepted (w_queues w') j)" using IH inv(2) by (simp add: unpark_def)
      finally show "prefix (accepted (w_queues w) j) (accepted (w_queues w') j)" .
    qed
    ultimately show ?thesis
      using inv(2) send_frame [OF q] by (simp add: unpark_def set_shard_def)
  next
    case False
    with q Cons.prems assms(1) p
    have "h' = h\<lparr>ho_parked := p # ps\<rparr>" "w' = w\<lparr>w_queues := q\<rparr>" "ok = False" by auto
    with Cons.prems(2) send_refused [of i c "w_queues w" q] q False send_frame [OF q]
    show ?thesis by (simp add: chunk_stream_def fun_eq_iff)
  qed
qed auto

end

section \<open>What sealing does\<close>

text \<open>What a buffer knows of its open chunk, without the bytes.\<close>

definition buf_view :: "'e shard_buf \<Rightarrow> nat \<times> ack_set \<times> batch_id option \<times> instant option \<times> int \<times> ack_ref list" where
  "buf_view b = (sb_rows b, sb_acks b, sb_last_batch b, sb_first_ingest b, sb_oldest_event_ms b, sb_row_acks b)"

definition empty_view :: "nat \<times> ack_set \<times> batch_id option \<times> instant option \<times> int \<times> ack_ref list" where
  "empty_view = (0, [], None, None, i64_max, [])"

text \<open>The chunk a buffer seals into.\<close>

definition sealed_as :: "'e shard_buf \<Rightarrow> chunk \<Rightarrow> bool" where
  "sealed_as b c \<longleftrightarrow>
     ck_rows c = sb_rows b \<and> ck_acks c = sb_acks b \<and> ck_row_acks c = sb_row_acks b \<and>
     ck_oldest_event_ms c = sb_oldest_event_ms b \<and>
     (\<forall>t. sb_first_ingest b = Some t \<longrightarrow> ck_oldest_ingest c = t)"

lemma buf_view_new [simp]: "buf_view (shard_buf_new e) = empty_view"
  by (simp add: buf_view_def empty_view_def shard_buf_new_def ackset_new_def)

lemma seal_finish_view:
  "seal_finish env b = (r, b1) \<Longrightarrow> buf_view b1 = buf_view b \<and> sb_parked b1 = sb_parked b"
  by (auto simp: seal_finish_def Let_def buf_view_def split: if_splits prod.splits option.splits)

lemma seal_frame_view:
  "seal_frame env k b = (r, k1, b1) \<Longrightarrow> buf_view b1 = buf_view b \<and> sb_parked b1 = sb_parked b"
  by (auto simp: seal_frame_def buf_view_def split: prod.splits option.splits sum.splits)

lemma seal_chunk_view:
  assumes "seal_chunk now frame raw_len b = (c, b1)"
  shows "sealed_as b c" and "buf_view b1 = empty_view" and "sb_parked b1 = sb_parked b"
    and "ck_raw_len c = raw_len" and "ck_frame c = frame" and "sb_buf b1 = sb_buf b"
    and "sb_encoder b1 = sb_encoder b"
  using assms
  by (auto simp: seal_chunk_def sealed_as_def buf_view_def empty_view_def ackset_new_def)

lemma sealed_as_cong: "buf_view b = buf_view b1 \<Longrightarrow> sealed_as b c = sealed_as b1 c"
  by (simp add: buf_view_def sealed_as_def)

text \<open>The three ways out of \<open>seal_and_send\<close>.\<close>

lemma seal_and_send_cases [consumes 1, case_names idle tripped sealed]:
  assumes "seal_and_send env i h w = Some (h', w')"
  obtains "i < length (ho_shards h)" "sb_rows (ho_shards h ! i) = 0" "h' = h" "w' = w"
  | e b1 k where "i < length (ho_shards h)" "buf_view b1 = buf_view (ho_shards h ! i)"
      "sb_parked b1 = sb_parked (ho_shards h ! i)"
      "h' = trip e (set_shard i b1 (h\<lparr>ho_codec := k\<rparr>))" "w' = w"
  | frame raw_len b1 b2 k where "i < length (ho_shards h)" "sb_rows (ho_shards h ! i) \<noteq> 0"
      "seal_finish env (ho_shards h ! i) = (None, b1)"
      "seal_frame env (ho_codec h) b1 = (Inr (frame, raw_len), k, b2)"
      "seal_send env i frame raw_len b2 (h\<lparr>ho_codec := k\<rparr>) w = Some (h', w')"
proof -
  define b where "b = ho_shards h ! i"
  have i: "i < length (ho_shards h)"
    using assms by (auto simp: seal_and_send_def split: if_splits)
  show thesis
  proof (cases "sb_rows b = 0")
    case True
    with assms i have "h' = h" "w' = w" by (simp_all add: seal_and_send_def b_def)
    with i True show thesis by (intro that(1)) (simp_all add: b_def)
  next
    case False
    obtain r b1 where f: "seal_finish env b = (r, b1)" by (cases "seal_finish env b")
    obtain s k b2 where s: "seal_frame env (ho_codec h) b1 = (s, k, b2)"
      by (cases "seal_frame env (ho_codec h) b1")
    note v = seal_finish_view [OF f] seal_frame_view [OF s]
    show thesis
    proof (cases r)
      case (Some e)
      with assms i False f have "h' = trip (sink_display e) (set_shard i b1 h)" "w' = w"
        by (simp_all add: seal_and_send_def b_def)
      with i v show thesis
        by (intro that(2) [of b1 "sink_display e" "ho_codec h"]) (simp_all add: b_def)
    next
      case None
      show thesis
      proof (cases s)
        case (Inl e)
        with assms i False f None s
        have "h' = trip (sink_display e) (set_shard i b2 (h\<lparr>ho_codec := k\<rparr>))" "w' = w"
          by (simp_all add: seal_and_send_def b_def)
        with i v show thesis
          by (intro that(2) [of b2 "sink_display e" k]) (simp_all add: b_def)
      next
        case (Inr x)
        obtain frame raw_len where "x = (frame, raw_len)" by (cases x)
        with assms i False f None s Inr
        have "seal_send env i frame raw_len b2 (h\<lparr>ho_codec := k\<rparr>) w = Some (h', w')"
          by (simp add: seal_and_send_def b_def)
        with i False f None s Inr \<open>x = _\<close> show thesis
          by (intro that(3) [of b1 frame raw_len k b2]) (simp_all add: b_def)
      qed
    qed
  qed
qed

text \<open>
  What an operation that seals at most shard \<open>i\<close> leaves behind: either nothing moved, or one
  chunk made of the buffer's rows is the newest of its shard and the buffer is empty.
\<close>

definition seal_effect ::
  "('q \<Rightarrow> nat \<Rightarrow> chunk list) \<Rightarrow> nat \<Rightarrow> ('e, 'k) sink_handoff \<Rightarrow> 'q world \<Rightarrow> ('e, 'k) sink_handoff \<Rightarrow> 'q world \<Rightarrow> bool" where
  "seal_effect acc i h w h' w' \<longleftrightarrow>
     (let b = ho_shards h ! i; b' = ho_shards h' ! i;
          s = chunk_stream (acc (w_queues w)) (ho_parked h);
          s' = chunk_stream (acc (w_queues w')) (ho_parked h')
      in (s' = s \<and> buf_view b' = buf_view b \<and> w' = w \<and> ho_parked h' = ho_parked h \<and>
            (sb_rows b = 0 \<or> ho_fatal h' \<noteq> None) \<and> (ho_fatal h \<noteq> None \<longrightarrow> ho_fatal h' = ho_fatal h)) \<or>
         (\<exists>c. s' = s(i := s i @ [c]) \<and> sealed_as b c \<and> sb_rows b > 0 \<and> buf_view b' = empty_view \<and>
            w_budget w' = budget_add (ck_raw_len c) (w_budget w) \<and> ho_fatal h' = ho_fatal h \<and>
            (\<exists>p. set (ho_parked h') = set (ho_parked h) \<union> p \<and> p \<subseteq> {(i, c)})))"

definition others_kept :: "nat \<Rightarrow> ('e, 'k) sink_handoff \<Rightarrow> ('e, 'k) sink_handoff \<Rightarrow> bool" where
  "others_kept i h h' \<longleftrightarrow>
     length (ho_shards h') = length (ho_shards h) \<and> ho_cfg h' = ho_cfg h \<and> ho_component h' = ho_component h \<and>
     (\<forall>j < length (ho_shards h). j \<noteq> i \<longrightarrow> ho_shards h' ! j = ho_shards h ! j)"

context chunk_queue
begin

lemma seal_send_ok:
  assumes "he_try_send env = qsend" and "parked_inv (ho_shards h) (ho_parked h)"
    and i: "i < length (ho_shards h)" and v: "buf_view b = buf_view (ho_shards h ! i)"
    and p: "sb_parked b = sb_parked (ho_shards h ! i)" and r: "sb_rows (ho_shards h ! i) \<noteq> 0"
    and s: "seal_send env i frame raw_len b (h\<lparr>ho_codec := k\<rparr>) w = Some (h', w')"
  shows "seal_effect accepted i h w h' w'" and "others_kept i h h'"
    and "parked_inv (ho_shards h') (ho_parked h')" and "frame_of (w_queues w') = frame_of (w_queues w)"
    and "w_heap w' = w_heap w" and "w_now w' = w_now w"
proof -
  obtain c b1 where c: "seal_chunk (w_now w) frame raw_len b = (c, b1)"
    by (cases "seal_chunk (w_now w) frame raw_len b")
  note cv = seal_chunk_view [OF c]
  have sealed: "sealed_as (ho_shards h ! i) c" using cv(1) sealed_as_cong [OF v] by simp
  define n where "n = length (parked_in (ho_parked h) i)"
  have n: "sb_parked b1 = n" using assms(2) i p cv(3) by (simp add: parked_inv_def n_def)
  let ?s = "chunk_stream (accepted (w_queues w)) (ho_parked h)"
  let ?w = "w\<lparr>w_budget := budget_add raw_len (w_budget w)\<rparr>"
  consider (waits) "n > 0" "h' = park i c b1 (h\<lparr>ho_codec := k\<rparr>)" "w' = ?w"
    | (refused) q where "qsend i c (w_queues w) = Some (False, q)"
        "h' = park i c b1 (h\<lparr>ho_codec := k\<rparr>)" "w' = ?w\<lparr>w_queues := q\<rparr>"
    | (taken) q where "n = 0" "qsend i c (w_queues w) = Some (True, q)"
        "h' = set_shard i b1 (h\<lparr>ho_codec := k\<rparr>)" "w' = ?w\<lparr>w_queues := q\<rparr>"
    using s c n assms(1)
    by (auto simp: seal_send_def Let_def split: if_splits option.splits bool.splits)
  then have "seal_effect accepted i h w h' w' \<and> others_kept i h h' \<and> parked_inv (ho_shards h') (ho_parked h')
      \<and> frame_of (w_queues w') = frame_of (w_queues w) \<and> w_heap w' = w_heap w \<and> w_now w' = w_now w"
  proof cases
    case waits
    have "parked_inv (ho_shards h') (ho_parked h')"
      using parked_inv_snoc [OF assms(2) i, of b1 c] cv(3) p waits by simp
    with waits i r sealed cv show ?thesis
      by (auto simp: seal_effect_def Let_def others_kept_def park_def set_shard_def chunk_stream_def
          fun_eq_iff buf_view_def intro!: exI [of _ c])
  next
    case refused
    have "parked_inv (ho_shards h') (ho_parked h')"
      using parked_inv_snoc [OF assms(2) i, of b1 c] cv(3) p refused by simp
    with refused i r sealed cv send_refused [OF refused(1)] send_frame [OF refused(1)] show ?thesis
      by (auto simp: seal_effect_def Let_def others_kept_def park_def set_shard_def chunk_stream_def
          fun_eq_iff buf_view_def intro!: exI [of _ c])
  next
    case taken
    have "parked_inv (ho_shards h') (ho_parked h')"
      using parked_inv_upd [OF assms(2) i, of b1] cv(3) p taken by simp
    with taken i r sealed cv send_taken [OF taken(2)] send_frame [OF taken(2)] show ?thesis
      by (auto simp: seal_effect_def Let_def others_kept_def set_shard_def chunk_stream_def
          fun_eq_iff n_def intro!: exI [of _ c])
  qed
  then show "seal_effect accepted i h w h' w'" and "others_kept i h h'"
    and "parked_inv (ho_shards h') (ho_parked h')" and "frame_of (w_queues w') = frame_of (w_queues w)"
    and "w_heap w' = w_heap w" and "w_now w' = w_now w" by simp_all
qed

end

section \<open>Sums over the streams\<close>

definition stream_sum :: "(chunk \<Rightarrow> 'm::comm_monoid_add) \<Rightarrow> nat \<Rightarrow> (nat \<Rightarrow> chunk list) \<Rightarrow> 'm" where
  "stream_sum f n s = (\<Sum>i<n. \<Sum>c\<leftarrow>s i. f c)"

lemma stream_sum_upd:
  assumes "i < n"
  shows "stream_sum f n (s(i := s i @ [c])) = stream_sum f n s + f c"
proof -
  have "stream_sum f n t = (\<Sum>j \<in> {..<n} - {i}. \<Sum>c\<leftarrow>t j. f c) + (\<Sum>c\<leftarrow>t i. f c)" for t
    unfolding stream_sum_def using assms sum.remove [of "{..<n}" i "\<lambda>j. \<Sum>c\<leftarrow>t j. f c"] by (simp add: ac_simps)
  note this [of "s(i := s i @ [c])"] this [of s]
  then show ?thesis by (simp add: ac_simps)
qed

lemma stream_sum_chunk_stream:
  "stream_sum f n (chunk_stream taken ps) = stream_sum f n taken + stream_sum f n (parked_in ps)"
  by (simp add: stream_sum_def chunk_stream_def sum.distrib)

lemma stream_sum_prefix:
  assumes "\<And>i. prefix (s i) (s' i)"
  shows "\<exists>d. stream_sum f n s' = stream_sum f n s + d"
proof -
  have "\<exists>d. \<forall>i. s' i = s i @ d i"
    using assms by (auto simp: prefix_def intro!: choice)
  then obtain d where "\<And>i. s' i = s i @ d i" by blast
  then have "stream_sum f n s' = stream_sum f n s + stream_sum f n d"
    by (simp add: stream_sum_def sum.distrib)
  then show ?thesis by blast
qed

section \<open>The stage's invariant\<close>

text \<open>Every row's batch is among the batches held, as identified by their ids.\<close>

definition covered :: "ack_heap \<Rightarrow> ack_ref list \<Rightarrow> ack_set \<Rightarrow> bool" where
  "covered hp rows acks \<longleftrightarrow>
     (\<forall>r \<in> set rows. r < length (arena hp) \<and>
        (\<exists>a \<in> set acks. a < length (arena hp) \<and> ackref_batch_id hp a = ackref_batch_id hp r))"

definition buf_ok :: "ack_heap \<Rightarrow> 'e shard_buf \<Rightarrow> bool" where
  "buf_ok hp b \<longleftrightarrow>
     sb_rows b = length (sb_row_acks b) \<and> (sb_first_ingest b = None \<longleftrightarrow> sb_rows b = 0) \<and>
     (sb_rows b = 0 \<longrightarrow> sb_acks b = []) \<and> (\<forall>a \<in> set (sb_acks b). a < length (arena hp)) \<and>
     sb_last_batch b = (if sb_acks b = [] then None else Some (ackref_batch_id hp (last (sb_acks b)))) \<and>
     covered hp (sb_row_acks b) (sb_acks b)"

definition chunk_ok :: "ack_heap \<Rightarrow> chunk \<Rightarrow> bool" where
  "chunk_ok hp c \<longleftrightarrow>
     ck_rows c = length (ck_row_acks c) \<and> 0 < ck_rows c \<and> covered hp (ck_row_acks c) (ck_acks c)"

definition handoff_inv :: "ack_heap \<Rightarrow> ('e, 'k) sink_handoff \<Rightarrow> (nat \<Rightarrow> chunk list) \<Rightarrow> bool" where
  "handoff_inv hp h taken \<longleftrightarrow>
     parked_inv (ho_shards h) (ho_parked h) \<and> (\<forall>b \<in> set (ho_shards h). buf_ok hp b) \<and>
     (\<forall>i. \<forall>c \<in> set (chunk_stream taken (ho_parked h) i). chunk_ok hp c)"

lemma covered_mono: "covered hp rows acks \<Longrightarrow> heap_le hp hp' \<Longrightarrow> covered hp' rows acks"
  unfolding covered_def using heap_le_length heap_le_id by (metis order_less_le_trans)

lemma buf_ok_mono: "buf_ok hp b \<Longrightarrow> heap_le hp hp' \<Longrightarrow> buf_ok hp' b"
  using covered_mono [of hp "sb_row_acks b" "sb_acks b" hp'] heap_le_length [of hp hp']
    heap_le_id [of hp hp' "last (sb_acks b)"]
  by (auto simp: buf_ok_def)

lemma chunk_ok_mono: "chunk_ok hp c \<Longrightarrow> heap_le hp hp' \<Longrightarrow> chunk_ok hp' c"
  unfolding chunk_ok_def using covered_mono by blast

lemma handoff_inv_mono: "handoff_inv hp h taken \<Longrightarrow> heap_le hp hp' \<Longrightarrow> handoff_inv hp' h taken"
  unfolding handoff_inv_def using buf_ok_mono chunk_ok_mono by blast

lemma buf_ok_view: "buf_view b = buf_view b' \<Longrightarrow> buf_ok hp b = buf_ok hp b'"
  by (simp add: buf_view_def buf_ok_def)

lemma buf_ok_empty: "buf_view b = empty_view \<Longrightarrow> buf_ok hp b"
  by (simp add: buf_view_def empty_view_def buf_ok_def covered_def)

lemma buf_ok_core: "buf_core b = buf_core b' \<Longrightarrow> buf_view b = buf_view b'"
  unfolding buf_core_def buf_view_def
  by (cases b; cases b') simp

lemma chunk_ok_sealed: "sealed_as b c \<Longrightarrow> buf_ok hp b \<Longrightarrow> 0 < sb_rows b \<Longrightarrow> chunk_ok hp c"
  by (simp add: sealed_as_def buf_ok_def chunk_ok_def)

section \<open>Handles the stage owns\<close>

definition buf_acks :: "'e shard_buf list \<Rightarrow> ack_ref multiset" where
  "buf_acks bs = (\<Sum>b\<leftarrow>bs. mset (sb_acks b))"

definition acks_in :: "nat \<Rightarrow> (nat \<Rightarrow> chunk list) \<Rightarrow> ack_ref multiset" where
  "acks_in = stream_sum (\<lambda>c. mset (ck_acks c))"

definition raw_in :: "nat \<Rightarrow> (nat \<Rightarrow> chunk list) \<Rightarrow> nat" where
  "raw_in = stream_sum ck_raw_len"

definition held :: "('e, 'k) sink_handoff \<Rightarrow> ack_ref multiset" where
  "held h = buf_acks (ho_shards h) + acks_in (length (ho_shards h)) (parked_in (ho_parked h))"

lemma buf_acks_upd:
  "i < length bs \<Longrightarrow> buf_acks (bs[i := b]) + mset (sb_acks (bs ! i)) = buf_acks bs + mset (sb_acks b)"
  unfolding buf_acks_def by (rule sum_list_map_upd)

lemma views_buf_acks:
  assumes "map buf_view bs = map buf_view bs'"
  shows "buf_acks bs = buf_acks bs'"
proof -
  have "map (\<lambda>b. mset (sb_acks b)) cs = map (\<lambda>v. mset (fst (snd v))) (map buf_view cs)"
    for cs :: "'x shard_buf list" by (simp add: buf_view_def)
  with assms show ?thesis unfolding buf_acks_def by metis
qed

lemma views_buf_ok:
  assumes "map buf_view bs = map buf_view bs'"
  shows "(\<forall>b \<in> set bs. buf_ok hp b) \<longleftrightarrow> (\<forall>b \<in> set bs'. buf_ok hp b)"
proof -
  have "length bs = length bs'" using assms by (metis length_map)
  moreover have "buf_ok hp (bs ! i) = buf_ok hp (bs' ! i)" if "i < length bs" for i
  proof (rule buf_ok_view)
    have "map buf_view bs ! i = map buf_view bs' ! i" using assms by simp
    with that \<open>length bs = length bs'\<close> show "buf_view (bs ! i) = buf_view (bs' ! i)" by simp
  qed
  ultimately show ?thesis by (simp add: all_set_conv_all_nth)
qed

section \<open>Moving chunks: sealing, parking, sending\<close>

text \<open>
  The rows of a shard, in order and by the handles they came with: in chunks its queue took, in
  parked chunks, in its buffer.
\<close>

definition row_stream :: "(nat \<Rightarrow> chunk list) \<Rightarrow> ('e, 'k) sink_handoff \<Rightarrow> nat \<Rightarrow> ack_ref list" where
  "row_stream taken h i =
     concat (map ck_row_acks (chunk_stream taken (ho_parked h) i)) @
     (if i < length (ho_shards h) then sb_row_acks (ho_shards h ! i) else [])"

lemma row_stream_views:
  assumes "map buf_view (ho_shards h') = map buf_view (ho_shards h)"
    and "chunk_stream taken' (ho_parked h') = chunk_stream taken (ho_parked h)"
  shows "row_stream taken' h' = row_stream taken h"
proof -
  have len: "length (ho_shards h') = length (ho_shards h)" using assms(1) by (metis length_map)
  have "buf_view (ho_shards h' ! i) = buf_view (ho_shards h ! i)" if "i < length (ho_shards h)" for i
    using assms(1) len that by (metis nth_map)
  then show ?thesis using assms(2) len by (simp add: row_stream_def fun_eq_iff buf_view_def)
qed

text \<open>
  The common summary of sealing and draining. Between the two states the queues took more
  chunks and the stage's own changed, but every shard's stream only grew at its end, its rows
  are the same in the same order, no handle was made or lost, the budget grew by what was
  sealed, and the invariant holds.
\<close>

definition moved ::
  "('q \<Rightarrow> nat \<Rightarrow> chunk list) \<Rightarrow> ('e, 'k) sink_handoff \<Rightarrow> 'q world \<Rightarrow> ('e, 'k) sink_handoff \<Rightarrow> 'q world \<Rightarrow> bool" where
  "moved acc h w h' w' \<longleftrightarrow>
     (let n = length (ho_shards h);
          s = chunk_stream (acc (w_queues w)) (ho_parked h);
          s' = chunk_stream (acc (w_queues w')) (ho_parked h')
      in length (ho_shards h') = n \<and> ho_cfg h' = ho_cfg h \<and>
         w_heap w' = w_heap w \<and> w_now w' = w_now w \<and>
         (\<forall>hp. handoff_inv hp h (acc (w_queues w)) \<longrightarrow> handoff_inv hp h' (acc (w_queues w'))) \<and>
         (\<forall>i. prefix (s i) (s' i)) \<and> (\<forall>i. prefix (acc (w_queues w) i) (acc (w_queues w') i)) \<and>
         row_stream (acc (w_queues w')) h' = row_stream (acc (w_queues w)) h \<and>
         buf_acks (ho_shards h') + acks_in n s' = buf_acks (ho_shards h) + acks_in n s \<and>
         (w_budget w + raw_in n s' \<le> usize_max + raw_in n s \<longrightarrow>
            w_budget w' + raw_in n s = w_budget w + raw_in n s') \<and>
         (ho_fatal h \<noteq> None \<longrightarrow> ho_fatal h' = ho_fatal h))"

lemma moved_refl [simp]: "moved acc h w h w"
  by (simp add: moved_def Let_def)

lemma moved_trans:
  assumes "moved acc h w h1 w1" and "moved acc h1 w1 h2 w2"
  shows "moved acc h w h2 w2"
proof -
  let ?n = "length (ho_shards h)"
  let ?s = "chunk_stream (acc (w_queues w)) (ho_parked h)"
  let ?s1 = "chunk_stream (acc (w_queues w1)) (ho_parked h1)"
  let ?s2 = "chunk_stream (acc (w_queues w2)) (ho_parked h2)"
  have n: "length (ho_shards h1) = ?n" using assms(1) by (simp add: moved_def Let_def)
  have p1: "\<And>i. prefix (?s i) (?s1 i)" and p2: "\<And>i. prefix (?s1 i) (?s2 i)"
    using assms by (simp_all add: moved_def Let_def)
  obtain d1 d2 where d: "raw_in ?n ?s1 = raw_in ?n ?s + d1" "raw_in ?n ?s2 = raw_in ?n ?s1 + d2"
    unfolding raw_in_def
    using stream_sum_prefix [of ?s ?s1 ck_raw_len ?n, OF p1]
      stream_sum_prefix [of ?s1 ?s2 ck_raw_len ?n, OF p2] by blast
  have b1: "w_budget w + raw_in ?n ?s1 \<le> usize_max + raw_in ?n ?s \<longrightarrow>
      w_budget w1 + raw_in ?n ?s = w_budget w + raw_in ?n ?s1"
    and b2: "w_budget w1 + raw_in ?n ?s2 \<le> usize_max + raw_in ?n ?s1 \<longrightarrow>
      w_budget w2 + raw_in ?n ?s1 = w_budget w1 + raw_in ?n ?s2"
    using assms n by (simp_all add: moved_def Let_def)
  have budget: "w_budget w + raw_in ?n ?s2 \<le> usize_max + raw_in ?n ?s \<longrightarrow>
      w_budget w2 + raw_in ?n ?s = w_budget w + raw_in ?n ?s2"
    using b1 b2 d by linarith
  have "\<forall>i. prefix (?s i) (?s2 i)" using p1 p2 prefix_order.trans by blast
  moreover have "\<forall>i. prefix (acc (w_queues w) i) (acc (w_queues w2) i)"
    using assms prefix_order.trans unfolding moved_def Let_def by blast
  ultimately show ?thesis
    using assms n budget unfolding moved_def Let_def by simp
qed

context chunk_queue
begin

lemma drain_moved:
  assumes "he_try_send env = qsend" and "drain_parked env h w = Some (ok, h', w')"
    and "parked_inv (ho_shards h) (ho_parked h)"
  shows "moved accepted h w h' w' \<and> (ok \<longleftrightarrow> ho_parked h' = [])"
proof -
  note d = drain_loop_ok [OF assms(1) assms(2) [unfolded drain_parked_def] assms(3)]
  have views: "map buf_view (ho_shards h') = map buf_view (ho_shards h)"
  proof -
    have "buf_view (buf_core b) = buf_view b" for b :: "'b shard_buf"
      by (simp add: buf_view_def buf_core_def)
    then have "map buf_view bs = map buf_view (map buf_core bs)" for bs :: "'b shard_buf list" by simp
    with d show ?thesis by metis
  qed
  then have len: "length (ho_shards h') = length (ho_shards h)" by (metis length_map)
  have "buf_acks (ho_shards h') = buf_acks (ho_shards h)"
    using views_buf_acks [OF views] .
  moreover have "(\<forall>b \<in> set (ho_shards h'). buf_ok hp b) \<longleftrightarrow> (\<forall>b \<in> set (ho_shards h). buf_ok hp b)" for hp
    using views_buf_ok [OF views] .
  moreover have "row_stream (accepted (w_queues w')) h' = row_stream (accepted (w_queues w)) h"
    by (rule row_stream_views [OF views]) (use d in simp)
  ultimately show ?thesis
    using d len by (simp add: moved_def Let_def handoff_inv_def)
qed

end

lemma set_upd_ball: "(\<forall>x \<in> set xs. P x) \<Longrightarrow> P y \<Longrightarrow> \<forall>x \<in> set (xs[i := y]). P x"
  using set_update_subset_insert by fastforce

lemma others_upd: "others_kept i h h' \<Longrightarrow> ho_shards h' = (ho_shards h)[i := ho_shards h' ! i]"
  by (rule nth_equalityI) (auto simp: others_kept_def nth_upd)

text \<open>From the effect of one seal to the summary.\<close>

lemma effect_moved:
  assumes i: "i < length (ho_shards h)" and e: "seal_effect acc i h w h' w'" and o: "others_kept i h h'"
    and "parked_inv (ho_shards h') (ho_parked h')" and "w_heap w' = w_heap w" and "w_now w' = w_now w"
    and p: "\<And>j. prefix (acc (w_queues w) j) (acc (w_queues w') j)"
  shows "moved acc h w h' w'"
proof -
  let ?n = "length (ho_shards h)"
  let ?b = "ho_shards h ! i" and ?b' = "ho_shards h' ! i"
  let ?s = "chunk_stream (acc (w_queues w)) (ho_parked h)"
  let ?s' = "chunk_stream (acc (w_queues w')) (ho_parked h')"
  have sh: "ho_shards h' = (ho_shards h)[i := ?b']" by (rule others_upd [OF o])
  have ba: "buf_acks (ho_shards h') + mset (sb_acks ?b) = buf_acks (ho_shards h) + mset (sb_acks ?b')"
    using buf_acks_upd [OF i, of ?b'] sh by simp
  have inv: "handoff_inv hp h' (acc (w_queues w'))"
    if "handoff_inv hp h (acc (w_queues w))" "buf_ok hp ?b'"
       "\<And>j c. c \<in> set (?s' j) \<Longrightarrow> chunk_ok hp c" for hp
  proof -
    have "\<forall>b \<in> set (ho_shards h'). buf_ok hp b"
      using that(1,2) set_upd_ball [of "ho_shards h" "buf_ok hp" ?b' i] sh
      by (simp add: handoff_inv_def)
    with that(3) assms(4) show ?thesis by (simp add: handoff_inv_def)
  qed
  from e consider (still) "?s' = ?s" "buf_view ?b' = buf_view ?b" "w' = w" "ho_fatal h \<noteq> None \<longrightarrow> ho_fatal h' = ho_fatal h"
    | (sealed) c where "?s' = ?s(i := ?s i @ [c])" "sealed_as ?b c" "sb_rows ?b > 0" "buf_view ?b' = empty_view"
        "w_budget w' = budget_add (ck_raw_len c) (w_budget w)" "ho_fatal h' = ho_fatal h"
    by (auto simp: seal_effect_def Let_def)
  then show ?thesis
  proof cases
    case still
    have "sb_acks ?b' = sb_acks ?b" using still(2) by (simp add: buf_view_def)
    moreover have "handoff_inv hp h' (acc (w_queues w'))" if "handoff_inv hp h (acc (w_queues w))" for hp
    proof (rule inv [OF that])
      show "buf_ok hp ?b'" using that i buf_ok_view [OF still(2), of hp] by (simp add: handoff_inv_def)
      show "\<And>j c. c \<in> set (?s' j) \<Longrightarrow> chunk_ok hp c"
        unfolding still(1) using that by (simp add: handoff_inv_def)
    qed
    moreover have "row_stream (acc (w_queues w')) h' = row_stream (acc (w_queues w)) h"
    proof (rule row_stream_views)
      have "map buf_view ((ho_shards h)[i := ?b']) = map buf_view (ho_shards h)"
        using i still(2) by (simp add: map_update list_update_same_conv)
      with sh show "map buf_view (ho_shards h') = map buf_view (ho_shards h)" by simp
    qed (rule still(1))
    ultimately show ?thesis
      using still ba o assms(5,6) by (simp add: moved_def Let_def others_kept_def)
  next
    case (sealed c)
    have "sb_acks ?b' = []" using sealed(4) by (simp add: buf_view_def empty_view_def)
    moreover have "acks_in ?n ?s' = acks_in ?n ?s + mset (sb_acks ?b)"
      unfolding sealed(1) acks_in_def stream_sum_upd [OF i] using sealed(2) by (simp add: sealed_as_def)
    moreover have "raw_in ?n ?s' = raw_in ?n ?s + ck_raw_len c"
      unfolding sealed(1) raw_in_def stream_sum_upd [OF i] ..
    moreover have "handoff_inv hp h' (acc (w_queues w'))" if "handoff_inv hp h (acc (w_queues w))" for hp
    proof (rule inv [OF that])
      have "buf_ok hp ?b" using that i by (simp add: handoff_inv_def)
      then show "\<And>j c. c \<in> set (?s' j) \<Longrightarrow> chunk_ok hp c"
        unfolding sealed(1) using that chunk_ok_sealed [OF sealed(2) _ sealed(3)]
        by (auto simp: handoff_inv_def split: if_splits)
      show "buf_ok hp ?b'" by (rule buf_ok_empty [OF sealed(4)])
    qed
    moreover have "prefix (?s j) (?s' j)" for j unfolding sealed(1) by simp
    moreover have "row_stream (acc (w_queues w')) h' = row_stream (acc (w_queues w)) h"
    proof
      fix j
      have "sb_row_acks ?b' = []" "ck_row_acks c = sb_row_acks ?b"
        using sealed(2,4) by (simp_all add: buf_view_def empty_view_def sealed_as_def)
      then show "row_stream (acc (w_queues w')) h' j = row_stream (acc (w_queues w)) h j"
        unfolding row_stream_def sealed(1) using i o by (cases "j = i") (simp_all add: others_kept_def)
    qed
    ultimately show ?thesis
      using sealed(5,6) ba o assms(5,6) p
      by (simp add: moved_def Let_def others_kept_def budget_add_def sat_add_def)
  qed
qed

lemma effect_trip:
  assumes "i < length (ho_shards h)" and "buf_view b1 = buf_view (ho_shards h ! i)"
    and "sb_parked b1 = sb_parked (ho_shards h ! i)" and "parked_inv (ho_shards h) (ho_parked h)"
  shows "seal_effect acc i h w (trip e (set_shard i b1 (h\<lparr>ho_codec := k\<rparr>))) w"
    and "others_kept i h (trip e (set_shard i b1 (h\<lparr>ho_codec := k\<rparr>)))"
    and "parked_inv ((ho_shards h)[i := b1]) (ho_parked h)"
  using assms parked_inv_upd [OF assms(4,1,3)]
  by (auto simp: seal_effect_def Let_def others_kept_def trip_def fatal_latch_def split: option.splits)

context chunk_queue
begin

lemma seal_ok:
  assumes t: "he_try_send env = qsend" and inv: "parked_inv (ho_shards h) (ho_parked h)"
    and s: "seal_and_send env i h w = Some (h', w')"
  shows "seal_effect accepted i h w h' w'" and "others_kept i h h'"
    and "parked_inv (ho_shards h') (ho_parked h')" and "moved accepted h w h' w'"
    and "frame_of (w_queues w') = frame_of (w_queues w)"
proof -
  from s have "seal_effect accepted i h w h' w' \<and> others_kept i h h' \<and> parked_inv (ho_shards h') (ho_parked h') \<and>
      moved accepted h w h' w' \<and> frame_of (w_queues w') = frame_of (w_queues w)"
  proof (cases rule: seal_and_send_cases)
    case idle
    with inv show ?thesis by (simp add: seal_effect_def Let_def others_kept_def)
  next
    case (tripped e b1 k)
    from effect_trip [OF tripped(1-3) inv] tripped(4,5)
    have "seal_effect accepted i h w h' w'" "others_kept i h h'" "parked_inv (ho_shards h') (ho_parked h')"
      by simp_all
    with effect_moved [OF tripped(1), of accepted w h' w'] tripped(4,5) show ?thesis by simp
  next
    case (sealed frame raw_len b1 b2 k)
    note v = seal_finish_view [OF sealed(3)] seal_frame_view [OF sealed(4)]
    note ok = seal_send_ok [OF t inv sealed(1) _ _ sealed(2,5)]
    have e: "seal_effect accepted i h w h' w'" "others_kept i h h'" "parked_inv (ho_shards h') (ho_parked h')"
        "frame_of (w_queues w') = frame_of (w_queues w)" "w_heap w' = w_heap w" "w_now w' = w_now w"
      using v by (auto intro!: ok)
    have "prefix (accepted (w_queues w) j) (accepted (w_queues w') j)" for j
      using sealed(5) t
      by (auto simp: seal_send_def Let_def send_appends split: if_splits option.splits prod.splits bool.splits)
    with effect_moved [OF sealed(1) e(1,2,3,5,6)] e show ?thesis by simp
  qed
  then show "seal_effect accepted i h w h' w'" and "others_kept i h h'"
    and "parked_inv (ho_shards h') (ho_parked h')" and "moved accepted h w h' w'"
    and "frame_of (w_queues w') = frame_of (w_queues w)" by simp_all
qed

lemma seal_all_moved:
  assumes "he_try_send env = qsend"
  shows "seal_all env is h w = Some (h', w') \<Longrightarrow> parked_inv (ho_shards h) (ho_parked h) \<Longrightarrow>
    moved accepted h w h' w' \<and> parked_inv (ho_shards h') (ho_parked h') \<and>
    frame_of (w_queues w') = frame_of (w_queues w)"
proof (induction "is" arbitrary: h w)
  case (Cons i "is")
  from Cons.prems(1) obtain h1 w1
    where s: "seal_and_send env i h w = Some (h1, w1)" and r: "seal_all env is h1 w1 = Some (h', w')"
    by (auto split: option.splits)
  note ok = seal_ok [OF assms Cons.prems(2) s]
  from Cons.IH [OF r ok(3)] moved_trans [OF ok(4)] ok(5) show ?case by simp
qed auto

lemma relieve_moved:
  assumes "he_try_send env = qsend" and "parked_inv (ho_shards h) (ho_parked h)"
    and "handoff_relieve env h w = Some (fl, h', w')"
  shows "moved accepted h w h' w' \<and> (fl = Continue \<longleftrightarrow> ho_parked h' = [])"
  using assms drain_moved [OF assms(1) _ assms(2)]
  by (auto simp: handoff_relieve_def flow_of_def split: if_splits)

lemma flush_moved:
  assumes "he_try_send env = qsend" and "parked_inv (ho_shards h) (ho_parked h)"
    and "handoff_flush_terminal env h w = Some (fl, h', w')"
  shows "moved accepted h w h' w' \<and> (fl = Continue \<longleftrightarrow> ho_parked h' = [])"
proof -
  from assms(3) obtain h1 w1 ok
    where s: "seal_all env [0..<length (ho_shards h)] h w = Some (h1, w1)"
      and d: "drain_parked env h1 w1 = Some (ok, h', w')" and fl: "fl = flow_of ok"
    by (auto simp: handoff_flush_terminal_def split: option.splits)
  note m = seal_all_moved [OF assms(1) s assms(2)]
  from drain_moved [OF assms(1) d] m moved_trans [of accepted h w h1 w1 h' w'] fl
  show ?thesis by (auto simp: flow_of_def)
qed

end

section \<open>Pushing one record\<close>

lemma push_live_cases [consumes 1, case_names failed encoded]:
  assumes "push_live env r h w = Some (h', w')"
  obtains i x e buf where "i = he_route_record env r (length (ho_shards h))" "i < length (ho_shards h)"
      "he_encode env (sb_encoder (ho_shards h ! i)) r (sb_buf (ho_shards h ! i)) = (Some x, e, buf)"
      "h' = push_failed x (set_shard i
         ((ho_shards h ! i)\<lparr>sb_encoder := e, sb_buf := take (length (sb_buf (ho_shards h ! i))) buf\<rparr>) h)"
      "w' = w"
  | i e buf b2 hp h1 where "i = he_route_record env r (length (ho_shards h))" "i < length (ho_shards h)"
      "he_encode env (sb_encoder (ho_shards h ! i)) r (sb_buf (ho_shards h ! i)) = (None, e, buf)"
      "hold_batch (rec_ack r) (add_row (w_now w) r ((ho_shards h ! i)\<lparr>sb_encoder := e, sb_buf := buf\<rparr>)) (w_heap w)
         = (b2, hp)"
      "h1 = set_shard i b2 (h\<lparr>ho_meter := meter_out (ho_meter h)\<rparr>)"
      "(h', w') = (h1, w\<lparr>w_heap := hp\<rparr>) \<or> seal_and_send env i h1 (w\<lparr>w_heap := hp\<rparr>) = Some (h', w')"
proof -
  define i where "i = he_route_record env r (length (ho_shards h))"
  define b where "b = ho_shards h ! i"
  have i: "i < length (ho_shards h)"
    using assms by (auto simp: push_live_def Let_def i_def split: if_splits)
  obtain err e buf where e: "he_encode env (sb_encoder b) r (sb_buf b) = (err, e, buf)"
    by (cases "he_encode env (sb_encoder b) r (sb_buf b)")
  show thesis
  proof (cases err)
    case (Some x)
    with assms i e have "h' = push_failed x
        (set_shard i (b\<lparr>sb_encoder := e, sb_buf := take (length (sb_buf b)) buf\<rparr>) h)" "w' = w"
      by (simp_all add: push_live_def Let_def i_def [symmetric] b_def [symmetric])
    with i e Some show thesis by (intro that(1) [of i x e buf]) (simp_all add: i_def b_def)
  next
    case None
    define b1 where "b1 = add_row (w_now w) r (b\<lparr>sb_encoder := e, sb_buf := buf\<rparr>)"
    obtain b2 hp where hb: "hold_batch (rec_ack r) b1 (w_heap w) = (b2, hp)"
      by (cases "hold_batch (rec_ack r) b1 (w_heap w)")
    define h1 where "h1 = set_shard i b2 (h\<lparr>ho_meter := meter_out (ho_meter h)\<rparr>)"
    have "(h', w') = (h1, w\<lparr>w_heap := hp\<rparr>) \<or> seal_and_send env i h1 (w\<lparr>w_heap := hp\<rparr>) = Some (h', w')"
      using assms i e None hb
      by (auto simp: push_live_def Let_def i_def [symmetric] b_def [symmetric] push_encoded_def
          b1_def [symmetric] h1_def [symmetric] split: if_splits)
    with i e None hb show thesis
      by (intro that(2) [of i e buf b2 hp h1]) (simp_all add: i_def b_def b1_def h1_def)
  qed
qed

lemma hold_batch_cases:
  "hold_batch r b hp = (b', hp') \<Longrightarrow>
     (sb_last_batch b = Some (ackref_batch_id hp r) \<and> b' = b \<and> hp' = hp) \<or>
     (sb_last_batch b \<noteq> Some (ackref_batch_id hp r) \<and> hp' = ackref_clone r hp \<and>
        b' = b\<lparr>sb_acks := sb_acks b @ [r], sb_last_batch := Some (ackref_batch_id hp r)\<rparr>)"
  by (auto simp: hold_batch_def Let_def ackset_push_def split: if_splits)

lemma batch_id_clone [simp]: "r < length (arena hp) \<Longrightarrow> ackref_batch_id (ackref_clone r' hp) r = ackref_batch_id hp r"
  by (simp add: ackref_batch_id_def nth_clone)

lemma buf_ok_row:
  assumes b: "buf_ok hp b" and r: "rec_ack r < length (arena hp)"
    and v: "buf_view b1 = buf_view b" and hb: "hold_batch (rec_ack r) (add_row now r b1) hp = (b2, hp')"
  shows "buf_ok hp' b2"
  using hold_batch_cases [OF hb]
proof (elim disjE conjE)
  assume *: "sb_last_batch (add_row now r b1) = Some (ackref_batch_id hp (rec_ack r))"
    "b2 = add_row now r b1" "hp' = hp"
  have "sb_acks b \<noteq> []" "ackref_batch_id hp (last (sb_acks b)) = ackref_batch_id hp (rec_ack r)"
    using b v *(1) by (auto simp: buf_ok_def buf_view_def add_row_def split: if_splits)
  moreover have "last (sb_acks b) \<in> set (sb_acks b)" using calculation(1) by simp
  ultimately show ?thesis
    using b v r * unfolding buf_ok_def covered_def by (auto simp: buf_view_def add_row_def)
next
  assume *: "hp' = ackref_clone (rec_ack r) hp"
    "b2 = (add_row now r b1)\<lparr>sb_acks := sb_acks (add_row now r b1) @ [rec_ack r],
             sb_last_batch := Some (ackref_batch_id hp (rec_ack r))\<rparr>"
  have "covered hp (sb_row_acks b) (sb_acks b)" using b by (simp add: buf_ok_def)
  then have "covered hp' (sb_row_acks b @ [rec_ack r]) (sb_acks b @ [rec_ack r])"
    using r unfolding covered_def *(1) by auto
  then show ?thesis
    using b v r * by (auto simp: buf_ok_def buf_view_def add_row_def)
qed

text \<open>Cloning the handle of a record that is still held.\<close>

lemma hold_batch_heap:
  assumes "hold_batch r b hp = (b', hp')" and "heap_ok hp M" and "r \<in># M" and "outbox_ok hp"
  shows "heap_ok hp' (M + (mset (sb_acks b') - mset (sb_acks b)))" and "outbox_ok hp'" and "heap_le hp hp'"
    and "mset (sb_acks b) \<subseteq># mset (sb_acks b')"
  using hold_batch_cases [OF assms(1)] heap_ok_clone [OF assms(2,3)] outbox_ok_clone [OF assms(4,2,3)]
    heap_le_clone [OF assms(2,3)] assms(2,4)
  by auto

text \<open>
  What an operation owes the rest of the process: handles it was given or held are now held
  by the stage, by the queues, or gone; the heap only moved forward; the invariant holds.
\<close>

definition owned_ok ::
  "('q \<Rightarrow> nat \<Rightarrow> chunk list) \<Rightarrow> ack_ref multiset \<Rightarrow> ack_ref multiset \<Rightarrow> ('e, 'k) sink_handoff \<Rightarrow> 'q world
     \<Rightarrow> ('e, 'k) sink_handoff \<Rightarrow> 'q world \<Rightarrow> bool" where
  "owned_ok acc given F h w h' w' \<longleftrightarrow>
     (heap_ok (w_heap w) (given + held h + F) \<and> outbox_ok (w_heap w) \<and>
        handoff_inv (w_heap w) h (acc (w_queues w)) \<longrightarrow>
      (\<exists>G. acks_in (length (ho_shards h)) (acc (w_queues w'))
             = acks_in (length (ho_shards h)) (acc (w_queues w)) + G \<and>
           heap_ok (w_heap w') (held h' + G + F)) \<and>
      outbox_ok (w_heap w') \<and> heap_le (w_heap w) (w_heap w') \<and>
      length (arena (w_heap w')) = length (arena (w_heap w)) \<and>
      handoff_inv (w_heap w') h' (acc (w_queues w')))"

lemma held_moved:
  assumes "moved acc h w h' w'"
  shows "\<exists>G. acks_in (length (ho_shards h)) (acc (w_queues w'))
             = acks_in (length (ho_shards h)) (acc (w_queues w)) + G \<and> held h = held h' + G"
proof -
  let ?n = "length (ho_shards h)"
  have p: "\<And>i. prefix (acc (w_queues w) i) (acc (w_queues w') i)"
    and len: "length (ho_shards h') = ?n"
    and cons: "buf_acks (ho_shards h') + acks_in ?n (chunk_stream (acc (w_queues w')) (ho_parked h'))
      = buf_acks (ho_shards h) + acks_in ?n (chunk_stream (acc (w_queues w)) (ho_parked h))"
    using assms by (simp_all add: moved_def Let_def)
  from stream_sum_prefix [of "acc (w_queues w)" "acc (w_queues w')", OF p] obtain G
    where G: "acks_in ?n (acc (w_queues w')) = acks_in ?n (acc (w_queues w)) + G"
    unfolding acks_in_def by blast
  from cons have "held h' + acks_in ?n (acc (w_queues w')) = held h + acks_in ?n (acc (w_queues w))"
    by (simp add: held_def len acks_in_def stream_sum_chunk_stream ac_simps)
  with G have "held h = held h' + G" by (simp add: ac_simps)
  with G show ?thesis by blast
qed

lemma owned_moved:
  assumes "moved acc h w h' w'"
  shows "owned_ok acc {#} F h w h' w'"
proof -
  obtain G where "acks_in (length (ho_shards h)) (acc (w_queues w'))
      = acks_in (length (ho_shards h)) (acc (w_queues w)) + G" "held h = held h' + G"
    using held_moved [OF assms] by blast
  with assms show ?thesis
    by (auto simp: owned_ok_def moved_def Let_def intro!: exI [of _ G])
qed

lemma held_upd:
  assumes "i < length (ho_shards h)" and "ho_parked h' = ho_parked h" and "ho_shards h' = (ho_shards h)[i := b]"
  shows "held h' + mset (sb_acks (ho_shards h ! i)) = held h + mset (sb_acks b)"
  using buf_acks_upd [OF assms(1), of b] assms by (simp add: held_def ac_simps)

lemma handoff_inv_upd:
  assumes "handoff_inv hp h taken" and "heap_le hp hp'" and "i < length (ho_shards h)"
    and "ho_parked h' = ho_parked h" and "ho_shards h' = (ho_shards h)[i := b]"
    and "sb_parked b = sb_parked (ho_shards h ! i)" and "buf_ok hp' b"
  shows "handoff_inv hp' h' taken"
  using handoff_inv_mono [OF assms(1,2)] parked_inv_upd [of "ho_shards h" "ho_parked h" i b] assms
    set_upd_ball [of "ho_shards h" "buf_ok hp'" b i]
  by (simp add: handoff_inv_def)

context chunk_queue
begin

lemma push_live_owned:
  assumes t: "he_try_send env = qsend" and p: "push_live env r h w = Some (h', w')"
    and ok: "heap_ok (w_heap w) (add_mset (rec_ack r) (held h + F))" "outbox_ok (w_heap w)"
    and inv: "handoff_inv (w_heap w) h (accepted (w_queues w))"
  shows "\<exists>h1 hp. heap_ok hp (add_mset (rec_ack r) (held h1 + F)) \<and> outbox_ok hp \<and> heap_le (w_heap w) hp \<and>
    length (arena hp) = length (arena (w_heap w)) \<and>
    handoff_inv hp h1 (accepted (w_queues w)) \<and> length (ho_shards h1) = length (ho_shards h) \<and>
    ho_parked h1 = ho_parked h \<and> ho_cfg h1 = ho_cfg h \<and>
    moved accepted h1 (w\<lparr>w_heap := hp\<rparr>) h' w'"
  using p
proof (cases rule: push_live_cases)
  case (failed i x e buf)
  let ?b = "(ho_shards h ! i)\<lparr>sb_encoder := e, sb_buf := take (length (sb_buf (ho_shards h ! i))) buf\<rparr>"
  have f: "ho_shards h' = (ho_shards h)[i := ?b]" "ho_parked h' = ho_parked h" "ho_cfg h' = ho_cfg h"
    using failed(4) by (simp_all add: push_failed_def)
  have "held h' = held h" using held_upd [OF failed(2) f(2,1)] by simp
  moreover have "buf_ok (w_heap w) (ho_shards h ! i)" using inv failed(2) by (simp add: handoff_inv_def)
  then have "buf_ok (w_heap w) ?b" by (simp add: buf_ok_def)
  then have "handoff_inv (w_heap w) h' (accepted (w_queues w))"
    by (intro handoff_inv_upd [OF inv _ failed(2) f(2,1)]) simp_all
  ultimately show ?thesis
    using f ok failed(5) by (intro exI [of _ h'] exI [of _ "w_heap w"]) simp
next
  case (encoded i e buf b2 hp h1)
  let ?b = "ho_shards h ! i"
  let ?b1 = "?b\<lparr>sb_encoder := e, sb_buf := buf\<rparr>"
  have f: "ho_shards h1 = (ho_shards h)[i := b2]" "ho_parked h1 = ho_parked h" "ho_cfg h1 = ho_cfg h"
    by (simp_all add: encoded(5))
  note hb = hold_batch_heap [OF encoded(4) ok(1) _ ok(2)]
  have live: "rec_ack r < length (arena (w_heap w))" using heap_ok_live [OF ok(1)] by simp
  have acks: "sb_acks (add_row (w_now w) r ?b1) = sb_acks ?b" by (simp add: add_row_def)
  have "held h1 + mset (sb_acks ?b) = held h + mset (sb_acks b2)"
    by (rule held_upd [OF encoded(2) f(2,1)])
  from mset_shift [OF this] hb(4) acks
  have h1: "held h1 = held h + (mset (sb_acks b2) - mset (sb_acks ?b))" by simp
  have inv1: "handoff_inv hp h1 (accepted (w_queues w))"
  proof (rule handoff_inv_upd [OF inv _ encoded(2) f(2,1)])
    show "heap_le (w_heap w) hp" using hb(3) by simp
    show "sb_parked b2 = sb_parked ?b"
      using hold_batch_cases [OF encoded(4)] by (auto simp: add_row_def)
    have "buf_ok (w_heap w) ?b" using inv encoded(2) by (simp add: handoff_inv_def)
    then show "buf_ok hp b2"
      by (rule buf_ok_row [OF _ live _ encoded(4)]) (simp add: buf_view_def)
  qed
  have "moved accepted h1 (w\<lparr>w_heap := hp\<rparr>) h' w'"
    using encoded(6) seal_ok(4) [OF t, of h1 i "w\<lparr>w_heap := hp\<rparr>" h' w'] inv1
    by (auto simp: handoff_inv_def)
  moreover have "length (arena hp) = length (arena (w_heap w))"
    using hold_batch_cases [OF encoded(4)] by auto
  ultimately show ?thesis
    using hb inv1 h1 f acks by (intro exI [of _ h1] exI [of _ hp]) (simp add: ac_simps)
qed

end

section \<open>Every operation of the stage\<close>

datatype 't handoff_op = HoPush "'t rec" | HoBatchEnd | HoTakeFatal | HoRelieve | HoFlush

fun handoff_step ::
  "('t, 'e, 'k, 'q) handoff_env \<Rightarrow> 't handoff_op \<Rightarrow> ('e, 'k) sink_handoff \<Rightarrow> 'q world
     \<Rightarrow> (('e, 'k) sink_handoff \<times> 'q world) option" where
  "handoff_step env (HoPush r) h w = map_option snd (handoff_push env r h w)"
| "handoff_step env HoBatchEnd h w = Some (handoff_on_batch_end h, w)"
| "handoff_step env HoTakeFatal h w = Some (snd (handoff_take_fatal h), w)"
| "handoff_step env HoRelieve h w = map_option snd (handoff_relieve env h w)"
| "handoff_step env HoFlush h w = map_option snd (handoff_flush_terminal env h w)"

text \<open>The handles an operation is given: those of the record it is asked to push.\<close>

fun given :: "'t handoff_op \<Rightarrow> ack_ref multiset" where
  "given (HoPush r) = {#rec_ack r#}"
| "given _ = {#}"

text \<open>The row an operation adds to a shard: that of a record routed to it and encoded.\<close>

definition rows_added ::
  "('t, 'e, 'k, 'q) handoff_env \<Rightarrow> 't handoff_op \<Rightarrow> ('e, 'k) sink_handoff \<Rightarrow> nat \<Rightarrow> ack_ref list" where
  "rows_added env op h i =
     (case op of
        HoPush r \<Rightarrow>
          let b = ho_shards h ! i
          in if ho_fatal h = None \<and> he_route_record env r (length (ho_shards h)) = i
                \<and> fst (he_encode env (sb_encoder b) r (sb_buf b)) = None
             then [rec_ack r] else []
      | _ \<Rightarrow> [])"

definition grown ::
  "('q \<Rightarrow> nat \<Rightarrow> chunk list) \<Rightarrow> ('e, 'k) sink_handoff \<Rightarrow> 'q world \<Rightarrow> ('e, 'k) sink_handoff \<Rightarrow> 'q world \<Rightarrow> bool" where
  "grown acc h w h' w' \<longleftrightarrow>
     (let n = length (ho_shards h);
          s = chunk_stream (acc (w_queues w)) (ho_parked h);
          s' = chunk_stream (acc (w_queues w')) (ho_parked h')
      in length (ho_shards h') = n \<and> (\<forall>i. prefix (s i) (s' i)) \<and>
         (\<forall>i. prefix (acc (w_queues w) i) (acc (w_queues w') i)) \<and>
         (w_budget w + raw_in n s' \<le> usize_max + raw_in n s \<longrightarrow>
            w_budget w' + raw_in n s = w_budget w + raw_in n s'))"

lemma grown_refl: "ho_shards h' = ho_shards h \<Longrightarrow> ho_parked h' = ho_parked h \<Longrightarrow> w_queues w' = w_queues w \<Longrightarrow>
    w_budget w' = w_budget w \<Longrightarrow> grown acc h w h' w'"
  by (simp add: grown_def Let_def)

lemma grown_moved:
  "moved acc h1 w1 h' w' \<Longrightarrow> length (ho_shards h1) = length (ho_shards h) \<Longrightarrow> ho_parked h1 = ho_parked h \<Longrightarrow>
     w_queues w1 = w_queues w \<Longrightarrow> w_budget w1 = w_budget w \<Longrightarrow> grown acc h w h' w'"
  by (simp add: moved_def grown_def Let_def)

lemma owned_same:
  "ho_shards h' = ho_shards h \<Longrightarrow> ho_parked h' = ho_parked h \<Longrightarrow> owned_ok acc {#} F h w h' w"
  by (simp add: owned_ok_def held_def handoff_inv_def)

lemma drop_rec_simps [simp]:
  "w_queues (drop_rec r w) = w_queues w" "w_budget (drop_rec r w) = w_budget w"
  "w_heap (drop_rec r w) = ackref_drop (rec_ack r) (w_heap w)"
  by (simp_all add: drop_rec_def)

lemma owned_drop_rec:
  assumes "heap_ok hp (add_mset (rec_ack r) (held h1 + F))" and "outbox_ok hp" and "heap_le (w_heap w) hp"
    and "length (arena hp) = length (arena (w_heap w))" and "length (ho_shards h1) = length (ho_shards h)"
    and "handoff_inv hp h1 (acc (w_queues w))" and m: "moved acc h1 (w\<lparr>w_heap := hp\<rparr>) h' w2"
  shows "owned_ok acc {#rec_ack r#} F h w h' (drop_rec r w2)"
proof -
  let ?n = "length (ho_shards h)"
  have heap: "w_heap w2 = hp" and i2: "handoff_inv hp h' (acc (w_queues w2))"
    using m assms(6) by (simp_all add: moved_def Let_def)
  obtain G where G: "acks_in ?n (acc (w_queues w2)) = acks_in ?n (acc (w_queues w)) + G" "held h1 = held h' + G"
    using held_moved [OF m] assms(5) by auto
  have "heap_ok hp (add_mset (rec_ack r) (held h' + G + F))" using assms(1) G(2) by (simp add: ac_simps)
  note heap_ok_drop [OF this]
  moreover have "outbox_ok (ackref_drop (rec_ack r) hp)"
    by (rule outbox_ok_drop [OF assms(2,1)]) simp
  moreover have "handoff_inv (ackref_drop (rec_ack r) hp) h' (acc (w_queues w2))"
    by (rule handoff_inv_mono [OF i2 heap_le_drop])
  ultimately show ?thesis
    using G(1) assms(3,4) heap_le_trans [OF assms(3) heap_le_drop] by (auto simp: owned_ok_def heap)
qed

context chunk_queue
begin

lemma push_ok:
  assumes t: "he_try_send env = qsend" and p: "handoff_push env r h w = Some (fl, h', w')"
    and ok: "heap_ok (w_heap w) (add_mset (rec_ack r) (held h + F))" "outbox_ok (w_heap w)"
    and inv: "handoff_inv (w_heap w) h (accepted (w_queues w))"
  shows "fl = Continue" and "owned_ok accepted {#rec_ack r#} F h w h' w'" and "grown accepted h w h' w'"
proof -
  define h0 where "h0 = h\<lparr>ho_meter := meter_seen (ho_meter h)\<rparr>"
  have h0: "ho_shards h0 = ho_shards h" "ho_parked h0 = ho_parked h" "held h0 = held h"
    by (simp_all add: h0_def held_def)
  have inv0: "handoff_inv (w_heap w) h0 (accepted (w_queues w))" using inv by (simp add: handoff_inv_def h0)
  have "fl = Continue \<and> owned_ok accepted {#rec_ack r#} F h w h' w' \<and> grown accepted h w h' w'"
  proof (cases "ho_fatal h = None")
    case False
    then have e: "fl = Continue" "h' = h0" "w' = drop_rec r w"
      using p by (simp_all add: handoff_push_def Let_def h0_def)
    have "owned_ok accepted {#rec_ack r#} F h w h' w'"
      unfolding e(2,3) by (rule owned_drop_rec [where ?h1.0 = h0 and hp = "w_heap w"]) (use ok inv0 h0 in auto)
    with e h0 show ?thesis by (auto intro!: grown_refl)
  next
    case True
    then obtain w2 where l: "push_live env r h0 w = Some (h', w2)" and e: "fl = Continue" "w' = drop_rec r w2"
      using p by (auto simp: handoff_push_def Let_def h0_def split: option.splits)
    from push_live_owned [OF t l _ ok(2) inv0, of F] ok(1) h0
    obtain h1 hp where *: "heap_ok hp (add_mset (rec_ack r) (held h1 + F))" "outbox_ok hp" "heap_le (w_heap w) hp"
        "length (arena hp) = length (arena (w_heap w))" "handoff_inv hp h1 (accepted (w_queues w))"
        "length (ho_shards h1) = length (ho_shards h)" "ho_parked h1 = ho_parked h"
        "moved accepted h1 (w\<lparr>w_heap := hp\<rparr>) h' w2" by auto
    have "grown accepted h w h' w2" by (rule grown_moved [OF *(8)]) (simp_all add: *)
    with owned_drop_rec [OF *(1-4,6,5,8)] e show ?thesis by (simp add: grown_def Let_def)
  qed
  then show "fl = Continue" and "owned_ok accepted {#rec_ack r#} F h w h' w'" and "grown accepted h w h' w'"
    by simp_all
qed

lemma step_ok:
  assumes t: "he_try_send env = qsend" and s: "handoff_step env op h w = Some (h', w')"
    and ok: "heap_ok (w_heap w) (given op + held h + F)" "outbox_ok (w_heap w)"
    and inv: "handoff_inv (w_heap w) h (accepted (w_queues w))"
  shows "owned_ok accepted (given op) F h w h' w' \<and> grown accepted h w h' w'"
proof -
  have pinv: "parked_inv (ho_shards h) (ho_parked h)" using inv by (simp add: handoff_inv_def)
  show ?thesis
  proof (cases op)
    case (HoPush r)
    with s ok inv push_ok [OF t, of r h w _ h' w' F] show ?thesis by (auto simp: ac_simps)
  next
    case HoRelieve
    with s obtain fl where "handoff_relieve env h w = Some (fl, h', w')" by auto
    from relieve_moved [OF t pinv this] HoRelieve show ?thesis
      by (auto intro: owned_moved grown_moved)
  next
    case HoFlush
    with s obtain fl where "handoff_flush_terminal env h w = Some (fl, h', w')" by auto
    from flush_moved [OF t pinv this] HoFlush show ?thesis
      by (auto intro: owned_moved grown_moved)
  qed (use s in \<open>auto intro!: owned_same grown_refl simp: handoff_on_batch_end_def handoff_take_fatal_def\<close>)
qed

end

context chunk_queue
begin

lemma push_live_rows:
  assumes t: "he_try_send env = qsend" and inv: "parked_inv (ho_shards h) (ho_parked h)"
    and f: "ho_fatal h = None" and p: "push_live env r h w = Some (h', w')"
  shows "row_stream (accepted (w_queues w')) h' i = row_stream (accepted (w_queues w)) h i @ rows_added env (HoPush r) h i"
  using p
proof (cases rule: push_live_cases)
  case (failed k x e buf)
  then show ?thesis by (auto simp: rows_added_def row_stream_def push_failed_def trip_def nth_upd)
next
  case (encoded k e buf b2 hp h1)
  have b2: "sb_row_acks b2 = sb_row_acks (ho_shards h ! k) @ [rec_ack r]" "sb_parked b2 = sb_parked (ho_shards h ! k)"
    using hold_batch_cases [OF encoded(4)] by (auto simp: add_row_def)
  have inv1: "parked_inv (ho_shards h1) (ho_parked h1)"
    using parked_inv_upd [OF inv encoded(2) b2(2)] encoded(5) by simp
  have "row_stream (accepted (w_queues w')) h' = row_stream (accepted (w_queues w)) h1"
    using encoded(6) seal_ok(4) [OF t inv1, of k "w\<lparr>w_heap := hp\<rparr>" h' w'] by (auto simp: moved_def Let_def)
  moreover have "row_stream (accepted (w_queues w)) h1 i = row_stream (accepted (w_queues w)) h i @ rows_added env (HoPush r) h i"
    using encoded(1,2,3,5) b2(1) f by (auto simp: rows_added_def row_stream_def nth_upd)
  ultimately show ?thesis by simp
qed

lemma step_rows:
  assumes t: "he_try_send env = qsend" and inv: "parked_inv (ho_shards h) (ho_parked h)"
    and s: "handoff_step env op h w = Some (h', w')"
  shows "row_stream (accepted (w_queues w')) h' i = row_stream (accepted (w_queues w)) h i @ rows_added env op h i"
proof (cases op)
  case (HoPush r)
  let ?h = "h\<lparr>ho_meter := meter_seen (ho_meter h)\<rparr>"
  have "row_stream taken ?h = row_stream taken h" for taken by (simp add: row_stream_def fun_eq_iff)
  moreover have "rows_added env (HoPush r) ?h = rows_added env (HoPush r) h" by (simp add: rows_added_def fun_eq_iff)
  ultimately show ?thesis
    using push_live_rows [OF t, of ?h r w h'] HoPush s inv
    by (auto simp: handoff_push_def Let_def rows_added_def split: option.splits if_splits)
next
  case HoRelieve
  with s obtain fl where "handoff_relieve env h w = Some (fl, h', w')" by auto
  from relieve_moved [OF t inv this] HoRelieve show ?thesis by (simp add: moved_def Let_def rows_added_def)
next
  case HoFlush
  with s obtain fl where "handoff_flush_terminal env h w = Some (fl, h', w')" by auto
  from flush_moved [OF t inv this] HoFlush show ?thesis by (simp add: moved_def Let_def rows_added_def)
qed (use s in \<open>auto simp: rows_added_def row_stream_def handoff_on_batch_end_def handoff_take_fatal_def\<close>)

end

section \<open>Totality\<close>

context chunk_queue
begin

lemma seal_total:
  assumes "he_try_send env = qsend" and "i < length (ho_shards h)" and "width (frame_of (w_queues w)) = length (ho_shards h)"
  shows "\<exists>h' w'. seal_and_send env i h w = Some (h', w')"
proof -
  have send: "\<exists>h' w'. seal_send env i frame raw_len b h1 w = Some (h', w')" for frame raw_len b h1
  proof -
    obtain c b1 where c: "seal_chunk (w_now w) frame raw_len b = (c, b1)"
      by (cases "seal_chunk (w_now w) frame raw_len b")
    obtain ok q where "qsend i c (w_queues w) = Some (ok, q)"
      using send_in_range [of i "w_queues w" c] assms(2,3) by auto
    then show ?thesis using c assms(1) by (cases ok) (simp_all add: seal_send_def Let_def)
  qed
  show ?thesis
  proof (cases "sb_rows (ho_shards h ! i) = 0")
    case False
    obtain r b1 where f: "seal_finish env (ho_shards h ! i) = (r, b1)"
      by (cases "seal_finish env (ho_shards h ! i)")
    obtain x k b2 where x: "seal_frame env (ho_codec h) b1 = (x, k, b2)" by (metis prod_cases3)
    from f x send assms(2) False show ?thesis
      by (cases r; cases x) (auto simp: seal_and_send_def)
  qed (use assms(2) in \<open>simp add: seal_and_send_def\<close>)
qed

lemma drain_total:
  assumes "he_try_send env = qsend"
  shows "(\<forall>p \<in> set ps. fst p < length (ho_shards h)) \<Longrightarrow> width (frame_of (w_queues w)) = length (ho_shards h) \<Longrightarrow>
    drain_loop env ps h w \<noteq> None"
proof (induction ps arbitrary: h w)
  case (Cons p ps)
  obtain i c where p: "p = (i, c)" by (cases p)
  obtain ok q where q: "qsend i c (w_queues w) = Some (ok, q)"
    using send_in_range [of i "w_queues w" c] Cons.prems p by auto
  show ?case
    using Cons.IH [of "unpark i h" "w\<lparr>w_queues := q\<rparr>"] Cons.prems p q assms send_frame [OF q]
    by (cases ok) (auto simp: unpark_def)
qed simp

lemma seal_all_total:
  assumes "he_try_send env = qsend"
  shows "(\<forall>i \<in> set is. i < length (ho_shards h)) \<Longrightarrow> width (frame_of (w_queues w)) = length (ho_shards h) \<Longrightarrow>
    parked_inv (ho_shards h) (ho_parked h) \<Longrightarrow> seal_all env is h w \<noteq> None"
proof (induction "is" arbitrary: h w)
  case (Cons i "is")
  then obtain h1 w1 where s: "seal_and_send env i h w = Some (h1, w1)"
    using seal_total [OF assms, of i h w] by auto
  note ok = seal_ok [OF assms Cons.prems(3) s]
  have "length (ho_shards h1) = length (ho_shards h)" using ok(2) by (simp add: others_kept_def)
  with Cons.IH [of h1 w1] Cons.prems ok(3,5) s show ?case by simp
qed simp

lemma push_live_total:
  assumes t: "he_try_send env = qsend" and n: "width (frame_of (w_queues w)) = length (ho_shards h)"
    and i: "he_route_record env r (length (ho_shards h)) < length (ho_shards h)"
  shows "\<exists>h' w'. push_live env r h w = Some (h', w')"
proof -
  let ?i = "he_route_record env r (length (ho_shards h))"
  obtain err e buf where e: "he_encode env (sb_encoder (ho_shards h ! ?i)) r (sb_buf (ho_shards h ! ?i)) = (err, e, buf)"
    by (metis prod_cases3)
  have "\<exists>h' w'. push_encoded env ?i r b h w = Some (h', w')" for b
  proof -
    obtain b1 hp where hb: "hold_batch (rec_ack r) (add_row (w_now w) r b) (w_heap w) = (b1, hp)"
      by fastforce
    let ?h = "set_shard ?i b1 (h\<lparr>ho_meter := meter_out (ho_meter h)\<rparr>)"
    show ?thesis
      using seal_total [OF t, of ?i ?h "w\<lparr>w_heap := hp\<rparr>"] i n hb by (auto simp: push_encoded_def Let_def)
  qed
  with e i show ?thesis by (cases err) (auto simp: push_live_def Let_def)
qed

lemma step_total:
  assumes t: "he_try_send env = qsend" and n: "width (frame_of (w_queues w)) = length (ho_shards h)"
    and inv: "parked_inv (ho_shards h) (ho_parked h)"
    and r: "\<And>r. he_route_record env r (length (ho_shards h)) < length (ho_shards h)"
  shows "handoff_step env op h w \<noteq> None"
proof (cases op)
  case (HoPush rec)
  have "\<exists>h' w'. push_live env rec (h\<lparr>ho_meter := meter_seen (ho_meter h)\<rparr>) w = Some (h', w')"
    by (rule push_live_total [OF t]) (use n r in simp_all)
  with HoPush show ?thesis by (auto simp: handoff_push_def Let_def)
next
  case HoRelieve
  with drain_total [OF t, of "ho_parked h" h w] n inv show ?thesis
    by (auto simp: handoff_relieve_def drain_parked_def parked_inv_def)
next
  case HoFlush
  obtain h1 w1 where s: "seal_all env [0..<length (ho_shards h)] h w = Some (h1, w1)"
    using seal_all_total [OF t, of "[0..<length (ho_shards h)]" h w] n inv by auto
  note m = seal_all_moved [OF t s inv]
  have len: "length (ho_shards h1) = length (ho_shards h)" using m by (simp add: moved_def Let_def)
  have "drain_parked env h1 w1 \<noteq> None"
    unfolding drain_parked_def by (rule drain_total [OF t]) (use m n len in \<open>simp_all add: parked_inv_def\<close>)
  with HoFlush s show ?thesis by (auto simp: handoff_flush_terminal_def)
qed simp_all

end

text \<open>No operation of the stage touches more of the queues than the shards it sends to.\<close>

context chunk_queue
begin

lemma push_live_frame:
  assumes t: "he_try_send env = qsend" and "parked_inv (ho_shards h) (ho_parked h)" and "push_live env r h w = Some (h', w')"
  shows "frame_of (w_queues w') = frame_of (w_queues w)"
  using assms(3)
proof (cases rule: push_live_cases)
  case (encoded i e buf b2 hp h1)
  have "sb_parked b2 = sb_parked (ho_shards h ! i)"
    using hold_batch_cases [OF encoded(4)] by (auto simp: add_row_def)
  then have "parked_inv (ho_shards h1) (ho_parked h1)"
    using parked_inv_upd [OF assms(2) encoded(2)] encoded(5) by simp
  from seal_ok(5) [OF t this, of i "w\<lparr>w_heap := hp\<rparr>" h' w'] encoded(6) show ?thesis by auto
qed simp

lemma step_frame:
  assumes t: "he_try_send env = qsend" and inv: "parked_inv (ho_shards h) (ho_parked h)"
    and s: "handoff_step env op h w = Some (h', w')"
  shows "frame_of (w_queues w') = frame_of (w_queues w)"
proof (cases op)
  case (HoPush r)
  with s push_live_frame [OF t, of "h\<lparr>ho_meter := meter_seen (ho_meter h)\<rparr>" r w] inv show ?thesis
    by (auto simp: handoff_push_def Let_def split: if_splits option.splits)
next
  case HoRelieve
  with s drain_loop_ok [OF t _ inv] show ?thesis
    by (auto simp: handoff_relieve_def drain_parked_def split: if_splits)
next
  case HoFlush
  with s obtain h1 w1 ok where a: "seal_all env [0..<length (ho_shards h)] h w = Some (h1, w1)"
      and d: "drain_parked env h1 w1 = Some (ok, h', w')"
    by (auto simp: handoff_flush_terminal_def split: option.splits)
  from seal_all_moved [OF t a inv] drain_loop_ok [OF t d [unfolded drain_parked_def]] show ?thesis by simp
qed (use s in auto)

end

section \<open>Row formats: the bytes of a shard\<close>

text \<open>
  A row format appends every row in \<open>encode\<close>, its own way on its own, and has nothing to
  finish: \<open>enc r\<close> is the error it reports for \<open>r\<close>, if any, and the bytes it wrote.
\<close>

definition row_format :: "('t, 'e, 'k, 'q) handoff_env \<Rightarrow> ('t rec \<Rightarrow> sink_error option \<times> bytes) \<Rightarrow> bool" where
  "row_format env enc \<longleftrightarrow>
     (\<forall>e r buf. he_encode env e r buf = (fst (enc r), e, buf @ snd (enc r))) \<and>
     (\<forall>e buf. he_finish_chunk env e buf = (None, e, buf))"

text \<open>All the bytes of a shard: in chunks its queue took, in parked chunks, in its buffer.\<close>

definition row_bytes :: "(nat \<Rightarrow> chunk list) \<Rightarrow> ('e, 'k) sink_handoff \<Rightarrow> nat \<Rightarrow> bytes" where
  "row_bytes taken h i =
     concat (map ck_frame (chunk_stream taken (ho_parked h) i)) @
     (if i < length (ho_shards h) then sb_buf (ho_shards h ! i) else [])"

text \<open>What they should be: one growing byte string per shard.\<close>

definition bytes_spec ::
  "('t rec \<Rightarrow> sink_error option \<times> bytes) \<Rightarrow> ('t rec \<Rightarrow> nat) \<Rightarrow> bool \<Rightarrow> 't handoff_op \<Rightarrow> (nat \<Rightarrow> bytes) \<Rightarrow> nat \<Rightarrow> bytes" where
  "bytes_spec enc route latched op s =
     (case op of
        HoPush r \<Rightarrow>
          if latched \<or> fst (enc r) \<noteq> None then s else s(route r := s (route r) @ snd (enc r))
      | _ \<Rightarrow> s)"

context chunk_queue
begin

lemma seal_send_bytes:
  assumes "he_try_send env = qsend" and "parked_inv (ho_shards h) (ho_parked h)" and i: "i < length (ho_shards h)"
    and p: "sb_parked b = sb_parked (ho_shards h ! i)" and "sb_buf b = []" and f: "frame = sb_buf (ho_shards h ! i)"
    and s: "seal_send env i frame raw_len b h w = Some (h', w')"
  shows "row_bytes (accepted (w_queues w')) h' = row_bytes (accepted (w_queues w)) h \<and> ho_codec h' = ho_codec h"
proof -
  obtain c b1 where c: "seal_chunk (w_now w) frame raw_len b = (c, b1)"
    by (cases "seal_chunk (w_now w) frame raw_len b")
  note cv = seal_chunk_view [OF c]
  have frame: "ck_frame c = sb_buf (ho_shards h ! i)" "sb_buf b1 = []" using cv assms(5) f by simp_all
  have n: "sb_parked b1 = length (parked_in (ho_parked h) i)"
    using assms(2) i p cv(3) by (simp add: parked_inv_def)
  show ?thesis
  proof (cases "sb_parked b1 > 0")
    case True
    with s c i frame show ?thesis
      by (auto simp: seal_send_def Let_def row_bytes_def chunk_stream_def fun_eq_iff nth_upd)
  next
    case False
    then obtain ok q where q: "qsend i c (w_queues w) = Some (ok, q)"
      using s c assms(1) by (auto simp: seal_send_def Let_def split: option.splits)
    from False n have "parked_in (ho_parked h) i = []" by simp
    with s c i frame q False assms(1) send_appends [OF q] show ?thesis
      by (cases ok) (auto simp: seal_send_def Let_def row_bytes_def chunk_stream_def fun_eq_iff nth_upd)
  qed
qed

lemma seal_bytes:
  assumes t: "he_try_send env = qsend" and inv: "parked_inv (ho_shards h) (ho_parked h)"
    and f: "row_format env enc" and k: "ho_codec h = None" and s: "seal_and_send env i h w = Some (h', w')"
  shows "row_bytes (accepted (w_queues w')) h' = row_bytes (accepted (w_queues w)) h \<and> ho_codec h' = None"
proof -
  let ?b = "ho_shards h ! i"
  have i: "i < length (ho_shards h)" using s by (auto simp: seal_and_send_def split: if_splits)
  have fin: "seal_finish env ?b = (None, ?b)"
    using f by (simp add: seal_finish_def row_format_def)
  show ?thesis
  proof (cases "sb_rows ?b = 0")
    case False
    with s i k fin have "seal_send env i (sb_buf ?b) (length (sb_buf ?b)) (?b\<lparr>sb_buf := []\<rparr>) (h\<lparr>ho_codec := None\<rparr>) w
        = Some (h', w')"
      by (simp add: seal_and_send_def seal_frame_def Let_def)
    moreover have "h\<lparr>ho_codec := None\<rparr> = h" using k by simp
    ultimately show ?thesis
      using seal_send_bytes [OF t inv i, of "?b\<lparr>sb_buf := []\<rparr>"] k by simp
  qed (use s i k in \<open>simp add: seal_and_send_def Let_def\<close>)
qed

lemma seal_all_bytes:
  assumes "he_try_send env = qsend" and "row_format env enc"
  shows "seal_all env is h w = Some (h', w') \<Longrightarrow> parked_inv (ho_shards h) (ho_parked h) \<Longrightarrow> ho_codec h = None \<Longrightarrow>
    row_bytes (accepted (w_queues w')) h' = row_bytes (accepted (w_queues w)) h \<and>
    parked_inv (ho_shards h') (ho_parked h')"
proof (induction "is" arbitrary: h w)
  case (Cons i "is")
  from Cons.prems(1) obtain h1 w1
    where s: "seal_and_send env i h w = Some (h1, w1)" and r: "seal_all env is h1 w1 = Some (h', w')"
    by (auto split: option.splits)
  from Cons.IH [OF r] seal_ok(3) [OF assms(1) Cons.prems(2) s] seal_bytes [OF assms(1) Cons.prems(2) assms(2) Cons.prems(3) s]
  show ?case by simp
qed auto

lemma drain_bytes:
  assumes "he_try_send env = qsend" and "drain_parked env h w = Some (ok, h', w')"
    and "parked_inv (ho_shards h) (ho_parked h)"
  shows "row_bytes (accepted (w_queues w')) h' = row_bytes (accepted (w_queues w)) h"
proof -
  note d = drain_loop_ok [OF assms(1) assms(2) [unfolded drain_parked_def] assms(3)]
  have "map sb_buf (map buf_core (ho_shards h')) = map sb_buf (map buf_core (ho_shards h))" using d by simp
  then have buf: "map sb_buf (ho_shards h') = map sb_buf (ho_shards h)" by (simp add: buf_core_def comp_def)
  then have len: "length (ho_shards h') = length (ho_shards h)" by (metis length_map)
  have "sb_buf (ho_shards h' ! i) = sb_buf (ho_shards h ! i)" if "i < length (ho_shards h)" for i
    using buf len that by (metis nth_map)
  with d len show ?thesis by (simp add: row_bytes_def fun_eq_iff)
qed

lemma push_live_bytes:
  assumes t: "he_try_send env = qsend" and f: "row_format env enc" and k: "ho_codec h = None"
    and inv: "parked_inv (ho_shards h) (ho_parked h)" and p: "push_live env r h w = Some (h', w')"
  shows "row_bytes (accepted (w_queues w')) h' =
    bytes_spec enc (\<lambda>r. he_route_record env r (length (ho_shards h))) False (HoPush r) (row_bytes (accepted (w_queues w)) h)"
  using p
proof (cases rule: push_live_cases)
  case (failed i x e buf)
  then show ?thesis
    using f by (auto simp: row_format_def bytes_spec_def row_bytes_def push_failed_def trip_def nth_upd fun_eq_iff)
next
  case (encoded i e buf b2 hp h1)
  have b2: "sb_buf b2 = sb_buf (ho_shards h ! i) @ snd (enc r)" "sb_parked b2 = sb_parked (ho_shards h ! i)"
    using hold_batch_cases [OF encoded(4)] encoded(3) f by (auto simp: add_row_def row_format_def)
  have inv1: "parked_inv (ho_shards h1) (ho_parked h1)" "ho_codec h1 = None"
    using parked_inv_upd [OF inv encoded(2) b2(2)] encoded(5) k by simp_all
  have "row_bytes (accepted (w_queues w)) h1 =
      bytes_spec enc (\<lambda>r. he_route_record env r (length (ho_shards h))) False (HoPush r) (row_bytes (accepted (w_queues w)) h)"
    using encoded(1-3,5) b2 f
    by (auto simp: row_format_def bytes_spec_def row_bytes_def nth_upd fun_eq_iff)
  moreover have "row_bytes (accepted (w_queues w')) h' = row_bytes (accepted (w_queues w)) h1"
    using encoded(6) seal_bytes [OF t inv1(1) f inv1(2), of i "w\<lparr>w_heap := hp\<rparr>" h' w'] by auto
  ultimately show ?thesis by simp
qed

lemma step_bytes:
  assumes t: "he_try_send env = qsend" and f: "row_format env enc" and k: "ho_codec h = None"
    and inv: "parked_inv (ho_shards h) (ho_parked h)" and s: "handoff_step env op h w = Some (h', w')"
  shows "row_bytes (accepted (w_queues w')) h' =
    bytes_spec enc (\<lambda>r. he_route_record env r (length (ho_shards h))) (ho_fatal h \<noteq> None) op
      (row_bytes (accepted (w_queues w)) h)"
proof (cases op)
  case (HoPush r)
  let ?h = "h\<lparr>ho_meter := meter_seen (ho_meter h)\<rparr>"
  have "row_bytes taken ?h = row_bytes taken h" for taken by (simp add: row_bytes_def fun_eq_iff)
  with push_live_bytes [OF t f, of ?h r w] HoPush s k inv show ?thesis
    by (auto simp: handoff_push_def Let_def bytes_spec_def split: option.splits if_splits)
next
  case HoRelieve
  with s drain_bytes [OF t _ inv] show ?thesis
    by (auto simp: handoff_relieve_def bytes_spec_def split: if_splits)
next
  case HoFlush
  with s obtain h1 w1 ok where "seal_all env [0..<length (ho_shards h)] h w = Some (h1, w1)"
      "drain_parked env h1 w1 = Some (ok, h', w')"
    by (auto simp: handoff_flush_terminal_def split: option.splits)
  with seal_all_bytes [OF t f _ inv k] drain_bytes [OF t] HoFlush show ?thesis by (simp add: bytes_spec_def)
qed (use s in \<open>auto simp: bytes_spec_def row_bytes_def handoff_on_batch_end_def handoff_take_fatal_def fun_eq_iff\<close>)

end

section \<open>Teardown\<close>

lemma parked_sum:
  "(\<forall>p \<in> set ps. fst p < n) \<Longrightarrow> stream_sum f n (parked_in ps) = (\<Sum>p\<leftarrow>ps. f (snd p))"
proof (induction ps)
  case (Cons p ps)
  obtain i c where p: "p = (i, c)" by (cases p)
  have "stream_sum f n (parked_in (p # ps)) = (\<Sum>j<n. (if j = i then f c else 0) + (\<Sum>c\<leftarrow>parked_in ps j. f c))"
    unfolding stream_sum_def p by (rule sum.cong) auto
  also have "\<dots> = f c + stream_sum f n (parked_in ps)"
    using Cons.prems p by (simp add: sum.distrib stream_sum_def sum.delta)
  finally show ?case using Cons.IH Cons.prems by (simp add: p del: parked_in_simps)
qed (simp add: stream_sum_def)

lemma drop_chunks_budget:
  "w_budget (fold drop_chunk cs w) = w_budget w - (\<Sum>c\<leftarrow>cs. ck_raw_len c)"
  by (induction cs arbitrary: w) (simp_all add: drop_chunk_def budget_sub_def sat_sub_def)

lemma drop_bufs_budget: "w_budget (fold drop_buf bs w) = w_budget w"
  by (induction bs arbitrary: w) (simp_all add: drop_buf_def)

text \<open>Dropping a sequence of sets: all their handles go, and every batch among them fails.\<close>

lemma fold_ackset_drop:
  "heap_ok hp ((\<Sum>s\<leftarrow>ss. mset s) + F) \<Longrightarrow> outbox_ok hp \<Longrightarrow>
     heap_ok (fold ackset_drop ss hp) F \<and> outbox_ok (fold ackset_drop ss hp) \<and>
     (\<forall>r. ack_failed (fold ackset_drop ss hp) r \<longleftrightarrow> ack_failed hp r \<or> r \<in># (\<Sum>s\<leftarrow>ss. mset s))"
proof (induction ss arbitrary: hp)
  case (Cons s ss)
  have h: "heap_ok hp (mset s + ((\<Sum>s\<leftarrow>ss. mset s) + F))" using Cons.prems(1) by (simp add: ac_simps)
  have "\<forall>r \<in> set s. r < length (arena hp)" using heap_ok_live [OF h] by auto
  with Cons.IH [OF heap_ok_ackset_drop [OF h] outbox_ok_ackset_drop [OF Cons.prems(2) h]]
  show ?case by (auto simp: ack_failed_ackset_drop)
qed simp

lemma drop_chunks_heap: "w_heap (fold drop_chunk cs w) = fold ackset_drop (map ck_acks cs) (w_heap w)"
  by (induction cs arbitrary: w) (simp_all add: drop_chunk_def)

lemma drop_bufs_heap: "w_heap (fold drop_buf bs w) = fold ackset_drop (map sb_acks bs) (w_heap w)"
  by (induction bs arbitrary: w) (simp_all add: drop_buf_def)

lemma handoff_drop_heap:
  "w_heap (handoff_drop h w) =
     fold ackset_drop (map ck_acks (map snd (ho_parked h)) @ map sb_acks (ho_shards h)) (w_heap w)"
  by (simp add: handoff_drop_def drop_chunks_heap drop_bufs_heap)

lemma held_sum:
  "parked_inv (ho_shards h) (ho_parked h) \<Longrightarrow>
     held h = (\<Sum>s\<leftarrow>map ck_acks (map snd (ho_parked h)) @ map sb_acks (ho_shards h). mset s)"
  unfolding held_def acks_in_def buf_acks_def parked_inv_def
  by (subst parked_sum) (simp_all add: comp_def ac_simps)

lemmas sq_step_total = sq.step_total [unfolded id_apply]

section \<open>Properties\<close>

text \<open>
  C19. Order. As long as the router answers in range, which the code leaves to its implementations,
  the stage never panics, and whatever it is asked to do, each shard's chunks keep their order on
  the way out: what the shard's queue has taken, followed by what is parked for it, only ever grows
  at its end, so no chunk overtakes, is lost or is sent twice. The chunks that are new hold exactly
  the rows that were in the shard's buffer, in order, and what they do not hold is still in it: a
  push adds its own row last, where it was encoded, and no other operation adds or drops one.
\<close>

theorem handoff_chunks_in_order:
  assumes "he_try_send env = try_send api" and "num_shards (w_queues w) = length (ho_shards h)"
    and "\<And>r. he_route_record env r (length (ho_shards h)) < length (ho_shards h)"
    and "handoff_inv (w_heap w) h (sent_on (w_queues w))"
    and "heap_ok (w_heap w) (given op + held h + F)" and "outbox_ok (w_heap w)"
  shows "\<exists>h' w'. handoff_step env op h w = Some (h', w') \<and> length (ho_shards h') = length (ho_shards h) \<and>
    (\<forall>i. prefix (sent_on (w_queues w) i) (sent_on (w_queues w') i) \<and>
       (\<exists>new. sent_on (w_queues w') i @ parked_in (ho_parked h') i
                = sent_on (w_queues w) i @ parked_in (ho_parked h) i @ new \<and>
          (i < length (ho_shards h) \<longrightarrow>
             concat (map ck_row_acks new) @ sb_row_acks (ho_shards h' ! i)
               = sb_row_acks (ho_shards h ! i) @ rows_added env op h i)))"
proof -
  have inv: "parked_inv (ho_shards h) (ho_parked h)" using assms(4) by (simp add: handoff_inv_def)
  from sq_step_total [OF assms(1,2) this assms(3), of op] obtain h' w' where s: "handoff_step env op h w = Some (h', w')"
    by auto
  from sq.step_ok [OF assms(1) s assms(5,6,4)] have g: "grown sent_on h w h' w'" by simp
  note rows = sq.step_rows [OF assms(1) inv s]
  have "\<exists>new. sent_on (w_queues w') i @ parked_in (ho_parked h') i
                = sent_on (w_queues w) i @ parked_in (ho_parked h) i @ new \<and>
          (i < length (ho_shards h) \<longrightarrow>
             concat (map ck_row_acks new) @ sb_row_acks (ho_shards h' ! i)
               = sb_row_acks (ho_shards h ! i) @ rows_added env op h i)" for i
  proof -
    from g obtain new where new: "sent_on (w_queues w') i @ parked_in (ho_parked h') i
        = sent_on (w_queues w) i @ parked_in (ho_parked h) i @ new"
      by (auto simp: grown_def Let_def chunk_stream_def prefix_def)
    with rows [of i] g show ?thesis
      by (auto simp: row_stream_def chunk_stream_def grown_def Let_def intro!: exI [of _ new])
  qed
  with s g show ?thesis by (auto simp: grown_def Let_def)
qed

text \<open>
  C20. No batch is let go early. Every operation keeps the ownership discipline: the handles
  the stage had and was given are afterwards held by the stage or by chunks the queues took,
  or released, and every row in a buffer, a parked chunk or a queued chunk has its batch held
  beside it. Tearing the stage down releases exactly what it held and fails exactly those
  batches.
\<close>

theorem handoff_holds_batches:
  assumes "he_try_send env = try_send api"
    and "handoff_inv (w_heap w) h (sent_on (w_queues w))"
    and "heap_ok (w_heap w) (given op + held h + F)" and "outbox_ok (w_heap w)"
    and "handoff_step env op h w = Some (h', w')"
  shows "handoff_inv (w_heap w') h' (sent_on (w_queues w')) \<and>
    (\<exists>taken. acks_in (length (ho_shards h)) (sent_on (w_queues w'))
               = acks_in (length (ho_shards h)) (sent_on (w_queues w)) + taken \<and>
       heap_ok (w_heap w') (held h' + (taken + F)) \<and>
       heap_ok (w_heap (handoff_drop h' w')) (taken + F) \<and>
       (\<forall>r. ack_failed (w_heap (handoff_drop h' w')) r \<longleftrightarrow> ack_failed (w_heap w') r \<or> r \<in># held h'))"
proof -
  from sq.step_ok [OF assms(1,5,3,4,2)] assms(2-4) obtain G
    where G: "acks_in (length (ho_shards h)) (sent_on (w_queues w'))
               = acks_in (length (ho_shards h)) (sent_on (w_queues w)) + G"
      and h': "heap_ok (w_heap w') (held h' + (G + F))" "outbox_ok (w_heap w')"
      and inv: "handoff_inv (w_heap w') h' (sent_on (w_queues w'))"
    by (auto simp: owned_ok_def ac_simps)
  define ss where "ss = map ck_acks (map snd (ho_parked h')) @ map sb_acks (ho_shards h')"
  have held: "held h' = (\<Sum>s\<leftarrow>ss. mset s)"
    unfolding ss_def by (rule held_sum) (use inv in \<open>simp add: handoff_inv_def\<close>)
  have "heap_ok (w_heap (handoff_drop h' w')) (G + F) \<and>
      (\<forall>r. ack_failed (w_heap (handoff_drop h' w')) r \<longleftrightarrow> ack_failed (w_heap w') r \<or> r \<in># held h')"
    using fold_ackset_drop [of "w_heap w'" ss "G + F"] h'
    unfolding handoff_drop_heap ss_def [symmetric] held by blast
  with G h'(1) inv show ?thesis by blast
qed

text \<open>
  C21. Row formats without a codec: the bytes of every shard, read across queued chunks, parked
  chunks and the open buffer, are exactly the encodings of the records routed to it, in push
  order. Pushing a record appends its encoding to one shard, unless the record's encoding
  failed or a fatal error is pending, in which case nothing changes; no other operation adds,
  drops or moves a byte.
\<close>

theorem handoff_row_bytes:
  assumes "he_try_send env = try_send api" and "row_format env enc" and "ho_codec h = None"
    and "parked_inv (ho_shards h) (ho_parked h)" and "handoff_step env op h w = Some (h', w')"
  shows "row_bytes (sent_on (w_queues w')) h' =
    bytes_spec enc (\<lambda>r. he_route_record env r (length (ho_shards h))) (ho_fatal h \<noteq> None) op
      (row_bytes (sent_on (w_queues w)) h)"
  by (rule sq.step_bytes [OF assms])

text \<open>
  The budget. As long as the counter does not reach its limit, an operation charges it
  with exactly the bytes of the chunks it sealed, whether they were queued or parked; dropping
  the stage gives back the bytes of the parked chunks and no others.
\<close>

lemma handoff_budget_exact:
  fixes h :: "('e, 'k) sink_handoff" and w :: "('c, 'f) shard_queues world"
  defines "n \<equiv> length (ho_shards h)" and "s \<equiv> chunk_stream (sent_on (w_queues w)) (ho_parked h)"
  assumes "he_try_send env = try_send api"
    and "handoff_inv (w_heap w) h (sent_on (w_queues w))"
    and "heap_ok (w_heap w) (given op + held h + F)" and "outbox_ok (w_heap w)"
    and "handoff_step env op h w = Some (h', w')"
    and "w_budget w + raw_in n (chunk_stream (sent_on (w_queues w')) (ho_parked h')) \<le> usize_max + raw_in n s"
  shows "w_budget w' + raw_in n s = w_budget w + raw_in n (chunk_stream (sent_on (w_queues w')) (ho_parked h')) \<and>
    w_budget (handoff_drop h' w') = w_budget w' - raw_in n (parked_in (ho_parked h'))"
proof -
  from sq.step_ok [OF assms(3,7,5,6,4)] assms(4-6)
  have g: "grown sent_on h w h' w'" and "handoff_inv (w_heap w') h' (sent_on (w_queues w'))"
    by (auto simp: owned_ok_def)
  then have "\<forall>p \<in> set (ho_parked h'). fst p < n"
    by (simp add: handoff_inv_def parked_inv_def grown_def Let_def n_def)
  from parked_sum [OF this, of ck_raw_len] g assms(8) show ?thesis
    by (simp add: grown_def Let_def n_def s_def raw_in_def handoff_drop_def drop_bufs_budget drop_chunks_budget comp_def)
qed

lemma push_latched:
  "ho_fatal h \<noteq> None \<Longrightarrow>
     handoff_push env r h w = Some (Continue, h\<lparr>ho_meter := meter_seen (ho_meter h)\<rparr>, drop_rec r w)"
  by (simp add: handoff_push_def Let_def)

text \<open>
  C23. Encoder errors. A record whose encoding fails leaves no trace in any buffer and only
  its own handle is released. Under \<open>Skip\<close> an error that is not fatal is counted and the
  stage goes on; under \<open>Fail\<close>, or when the error is fatal, the stage latches the error with its
  own name, and from then on drops every record untouched until the error is taken.
\<close>

theorem handoff_encode_error:
  assumes "i = he_route_record env r (length (ho_shards h))" and "ho_fatal h = None" and "i < length (ho_shards h)"
    and "he_encode env (sb_encoder (ho_shards h ! i)) r (sb_buf (ho_shards h ! i))
           = (Some x, e, sb_buf (ho_shards h ! i) @ partial)"
  shows "\<exists>h'. handoff_push env r h w = Some (Continue, h', drop_rec r w) \<and> ho_parked h' = ho_parked h \<and>
    map buf_view (ho_shards h') = map buf_view (ho_shards h) \<and>
    map sb_buf (ho_shards h') = map sb_buf (ho_shards h) \<and>
    (if encode_policy (ho_cfg h) = Skip \<and> sink_class x \<noteq> Fatal
     then ho_fatal h' = None \<and> skipped (ho_meter h') = skipped (ho_meter h) + 1 \<and>
          record_errors (ho_meter h') = record_errors (ho_meter h) + 1
     else ho_fatal h' = Some \<lparr>fe_component = ho_component h, fe_reason = sink_display x\<rparr> \<and>
          (\<forall>r2 w2. handoff_push env r2 h' w2 =
             Some (Continue, h'\<lparr>ho_meter := meter_seen (ho_meter h')\<rparr>, drop_rec r2 w2)))"
proof -
  define b where "b = ho_shards h ! i"
  define h0 where "h0 = set_shard i (b\<lparr>sb_encoder := e\<rparr>) (h\<lparr>ho_meter := meter_seen (ho_meter h)\<rparr>)"
  have "push_live env r (h\<lparr>ho_meter := meter_seen (ho_meter h)\<rparr>) w = Some (push_failed x h0, w)"
    using assms(3,4) by (simp add: push_live_def Let_def assms(1) [symmetric] b_def [symmetric] h0_def)
  then have p: "handoff_push env r h w = Some (Continue, push_failed x h0, drop_rec r w)"
    using assms(2) by (simp add: handoff_push_def)
  have h0: "ho_parked h0 = ho_parked h" "ho_cfg h0 = ho_cfg h" "ho_fatal h0 = None" "ho_component h0 = ho_component h"
      "map buf_view (ho_shards h0) = map buf_view (ho_shards h)" "map sb_buf (ho_shards h0) = map sb_buf (ho_shards h)"
    using assms(2) by (simp_all add: h0_def b_def buf_view_def map_upd_same)
  moreover have "skipped (ho_meter h0) = skipped (ho_meter h)" "record_errors (ho_meter h0) = record_errors (ho_meter h)"
    by (simp_all add: h0_def meter_seen_def)
  ultimately show ?thesis
    using p push_latched [of "trip (sink_display x) h0" env]
    by (intro exI [of _ "push_failed x h0"])
      (simp add: push_failed_def meter_skipped_def meter_record_error_def fatal_latch_def)
qed

section \<open>A stage to run them on\<close>

lemma handoff_new_inv:
  assumes "handoff_new encoder n codec cfg meter component = Some h" and "\<And>i. taken i = []"
  shows "handoff_inv hp h taken" and "length (ho_shards h) = n" and "held h = {#}"
    and "ho_fatal h = None" and "ho_codec h = codec"
proof -
  have h: "ho_shards h = replicate n (shard_buf_new encoder)" "ho_parked h = []" "ho_fatal h = None" "ho_codec h = codec"
    using assms(1) by (auto simp: handoff_new_def split: if_splits)
  have "buf_ok hp (shard_buf_new encoder)" by (rule buf_ok_empty) simp
  with h assms(2) show "handoff_inv hp h taken"
    by (simp add: handoff_inv_def parked_inv_def chunk_stream_def shard_buf_new_def)
  have "sum_list (replicate n {#}) = ({#} :: ack_ref multiset)" by (induction n) simp_all
  then show "held h = {#}"
    by (simp add: held_def h buf_acks_def acks_in_def stream_sum_def shard_buf_new_def ackset_new_def sum_list_replicate)
  show "length (ho_shards h) = n" "ho_fatal h = None" "ho_codec h = codec" using h by simp_all
qed

lemma shard_queues_new_sent:
  "shard_queues_new api n capacity = Some q \<Longrightarrow> sent_on q i = [] \<and> num_shards q = n"
  by (auto simp: shard_queues_new_def sent_on_def num_shards_def split: if_splits)

text \<open>Two shards of one chunk each, byte payloads routed by length, sealed at two bytes.\<close>

definition demo_api :: "nat mpsc_api" where
  "demo_api =
     \<lparr>mpsc_channel = (\<lambda>cap. cap),
      mpsc_try_send = (\<lambda>c free. if free > 0 then (SendOk, free - 1) else (SendFull, free)),
      mpsc_capacity = (\<lambda>free. free)\<rparr>"

definition demo_env :: "(bytes, unit, unit, (nat, unit) shard_queues) handoff_env" where
  "demo_env =
     \<lparr>he_encode = (\<lambda>e r buf. (if payload r = [] then Some (sink_record_level ''empty'') else None, e, buf @ payload r)),
      he_buffered_bytes = (\<lambda>e. 0),
      he_finish_chunk = (\<lambda>e buf. (None, e, buf)),
      he_encode_frame = (\<lambda>k buf. (Inr buf, k)),
      he_route_record = (\<lambda>r n. length (payload r) mod n),
      he_try_send = try_send demo_api\<rparr>"

definition demo_handoff :: "(unit, unit) sink_handoff" where
  "demo_handoff =
     the (handoff_new () 2 None \<lparr>target_bytes = 2, encode_policy = Fail\<rparr> (op_meter_new None) ''sink'')"

definition demo_heap :: ack_heap where
  "demo_heap =
     ackref_clone 0 (snd (ackref_new \<lparr>bid_partition = PartitionId 0, bid_epoch = 1, bid_seq = 0\<rparr> 9 heap_empty))"

definition demo_world :: "(nat, unit) shard_queues world" where
  "demo_world =
     \<lparr>w_heap = demo_heap, w_budget = 0, w_queues = the (shard_queues_new demo_api 2 1), w_now = 5\<rparr>"

definition demo_rec :: "bytes \<Rightarrow> bytes rec" where
  "demo_rec p =
     \<lparr>payload = p,
      meta = \<lparr>rm_partition = PartitionId 0, rm_offset = 3, rm_event_time_ms = 7, rm_key_hash = None\<rparr>,
      rec_ack = 0\<rparr>"

lemma demo_handoff_new:
  "handoff_new () 2 None \<lparr>target_bytes = 2, encode_policy = Fail\<rparr> (op_meter_new None) ''sink'' = Some demo_handoff"
  by (simp add: demo_handoff_def handoff_new_def)

lemma demo_queues_new: "shard_queues_new demo_api 2 1 = Some (w_queues demo_world)"
  by (simp add: demo_world_def shard_queues_new_def)

lemma demo_heap_ok: "heap_ok (w_heap demo_world) (add_mset 0 {#0#})" "outbox_ok (w_heap demo_world)"
proof -
  let ?n = "ackref_new \<lparr>bid_partition = PartitionId 0, bid_epoch = 1, bid_seq = 0\<rparr> 9 heap_empty"
  have n: "?n = (0, snd ?n)" by (simp add: ackref_new_def heap_empty_def)
  note ok = heap_ok_new [OF heap_ok_empty n] outbox_ok_new [OF outbox_ok_empty n]
  show "heap_ok (w_heap demo_world) (add_mset 0 {#0#})"
    using heap_ok_clone [OF ok(1)] by (simp add: demo_world_def demo_heap_def)
  show "outbox_ok (w_heap demo_world)"
    using outbox_ok_clone [OF ok(2,1)] by (simp add: demo_world_def demo_heap_def)
qed

lemma demo_facts:
  "he_try_send demo_env = try_send demo_api" "num_shards (w_queues demo_world) = length (ho_shards demo_handoff)"
  "he_route_record demo_env r (length (ho_shards demo_handoff)) < length (ho_shards demo_handoff)"
  "handoff_inv (w_heap demo_world) demo_handoff (sent_on (w_queues demo_world))"
  "held demo_handoff = {#}" "ho_codec demo_handoff = None" "ho_fatal demo_handoff = None"
  using handoff_new_inv [OF demo_handoff_new, of "sent_on (w_queues demo_world)"] shard_queues_new_sent [OF demo_queues_new]
  by (simp_all add: demo_env_def)

lemma demo_given: "heap_ok (w_heap demo_world) (given (HoPush (demo_rec p)) + held demo_handoff + {#0#})"
  using demo_heap_ok(1) by (simp add: demo_rec_def demo_facts)

lemma demo_row_format:
  "row_format demo_env (\<lambda>r. (if payload r = [] then Some (sink_record_level ''empty'') else None, payload r))"
  by (simp add: row_format_def demo_env_def)

lemma demo_step:
  "handoff_step demo_env (HoPush (demo_rec p)) demo_handoff demo_world \<noteq> None"
  by (rule sq_step_total [OF demo_facts(1,2)]) (use demo_facts in \<open>simp_all add: handoff_inv_def\<close>)

lemma demo_handoff_eq:
  "ho_shards demo_handoff = [shard_buf_new (), shard_buf_new ()]" "ho_parked demo_handoff = []"
  "ho_cfg demo_handoff = \<lparr>target_bytes = 2, encode_policy = Fail\<rparr>"
  by (simp_all add: demo_handoff_def handoff_new_def numeral_2_eq_2)

lemma demo_world_eq:
  "w_queues demo_world = \<lparr>sq_senders = [\<lparr>sd_chan = 1, sd_sent = []\<rparr>, \<lparr>sd_chan = 1, sd_sent = []\<rparr>],
      sq_capacity = 1, sq_metrics = None, sq_codec = None\<rparr>"
  by (simp add: demo_world_def shard_queues_new_def demo_api_def numeral_2_eq_2)

text \<open>Sealing the three bytes of the demo record, on any buffer and heap.\<close>

lemma demo_seal:
  assumes "ho_shards h = [b0, b]" "sb_rows b = Suc n" "sb_buf b = [1, 2, 3]" "sb_parked b = 0" "ho_codec h = None"
    "ho_parked h = []" "w_queues w = w_queues demo_world" "seal_and_send demo_env 1 h w = Some (h', w')"
  shows "ho_parked h' = [] \<and> sent_on (w_queues w') 0 = [] \<and> map ck_raw_len (sent_on (w_queues w') 1) = [3]"
proof -
  have fin: "seal_finish demo_env b = (None, b)" by (simp add: seal_finish_def demo_env_def)
  have fr: "seal_frame demo_env None b = (Inr ([1, 2, 3], 3), None, b\<lparr>sb_buf := []\<rparr>)"
    using assms by (simp add: seal_frame_def)
  have "seal_send demo_env 1 [1, 2, 3] 3 (b\<lparr>sb_buf := []\<rparr>) (h\<lparr>ho_codec := None\<rparr>) w = Some (h', w')"
    using assms(1,2,5,8) fin fr by (simp add: seal_and_send_def Let_def)
  then show ?thesis
    using assms(1,4,6,7)
    by (auto simp: seal_send_def Let_def seal_chunk_def demo_env_def try_send_def demo_api_def demo_world_eq
        set_depth_def upd_metrics_def sent_on_def set_shard_def)
qed

lemma demo_push_run:
  assumes s: "handoff_step demo_env (HoPush (demo_rec [1, 2, 3])) demo_handoff demo_world = Some (h', w')"
  shows "ho_parked h' = [] \<and> sent_on (w_queues w') 0 = [] \<and> map ck_raw_len (sent_on (w_queues w') 1) = [3]"
proof -
  let ?h = "demo_handoff\<lparr>ho_meter := meter_seen (ho_meter demo_handoff)\<rparr>"
  let ?r = "demo_rec [1, 2, 3]"
  obtain w2 where p: "push_live demo_env ?r ?h demo_world = Some (h', w2)" and w': "w' = drop_rec ?r w2"
    using s demo_facts(7) by (auto simp: handoff_push_def Let_def split: option.splits)
  obtain b1 hp where hb: "hold_batch 0 (add_row 5 ?r ((shard_buf_new ())\<lparr>sb_buf := [1, 2, 3]\<rparr>)) demo_heap = (b1, hp)"
    by fastforce
  have b1: "sb_buf b1 = [1, 2, 3]" "sb_rows b1 = Suc 0" "sb_parked b1 = 0" "sb_encoder b1 = ()"
    using hold_batch_cases [OF hb] by (auto simp: add_row_def shard_buf_new_def)
  have "push_live demo_env ?r ?h demo_world
      = seal_and_send demo_env 1 (set_shard 1 b1 (?h\<lparr>ho_meter := meter_out (ho_meter ?h)\<rparr>)) (demo_world\<lparr>w_heap := hp\<rparr>)"
    using hb b1
    by (simp add: push_live_def Let_def push_encoded_def demo_handoff_eq demo_env_def demo_rec_def demo_world_def
        shard_buf_new_def mod_Suc)
  with p have "seal_and_send demo_env 1 (set_shard 1 b1 (?h\<lparr>ho_meter := meter_out (ho_meter ?h)\<rparr>)) (demo_world\<lparr>w_heap := hp\<rparr>)
      = Some (h', w2)" by simp
  from demo_seal [OF _ b1(2,1,3) _ _ _ this] show ?thesis
    by (simp add: demo_handoff_eq demo_facts w')
qed

theorem handoff_chunks_in_order_witness:
  "\<exists>h' w'. handoff_step demo_env (HoPush (demo_rec [1, 2, 3])) demo_handoff demo_world = Some (h', w') \<and>
    prefix (sent_on (w_queues demo_world) 1) (sent_on (w_queues w') 1) \<and>
    (\<exists>new. sent_on (w_queues w') 1 @ parked_in (ho_parked h') 1 = new \<and>
       concat (map ck_row_acks new) @ sb_row_acks (ho_shards h' ! 1) = [rec_ack (demo_rec [1, 2, 3])])"
proof -
  have empty: "sent_on (w_queues demo_world) 1 = []" "ho_parked demo_handoff = []" "1 < length (ho_shards demo_handoff)"
      "sb_row_acks (ho_shards demo_handoff ! 1) = []"
      "rows_added demo_env (HoPush (demo_rec [1, 2, 3])) demo_handoff 1 = [rec_ack (demo_rec [1, 2, 3])]"
    by (simp_all add: demo_handoff_eq demo_world_eq sent_on_def shard_buf_new_def rows_added_def demo_facts
        demo_env_def demo_rec_def mod_Suc)
  from handoff_chunks_in_order [OF demo_facts(1-4) demo_given [of "[1, 2, 3]"] demo_heap_ok(2)] obtain h' w' where
    s: "handoff_step demo_env (HoPush (demo_rec [1, 2, 3])) demo_handoff demo_world = Some (h', w')"
    and i: "\<And>i. prefix (sent_on (w_queues demo_world) i) (sent_on (w_queues w') i) \<and>
       (\<exists>new. sent_on (w_queues w') i @ parked_in (ho_parked h') i
                = sent_on (w_queues demo_world) i @ parked_in (ho_parked demo_handoff) i @ new \<and>
          (i < length (ho_shards demo_handoff) \<longrightarrow>
             concat (map ck_row_acks new) @ sb_row_acks (ho_shards h' ! i)
               = sb_row_acks (ho_shards demo_handoff ! i)
                 @ rows_added demo_env (HoPush (demo_rec [1, 2, 3])) demo_handoff i))"
    by auto
  from i [of 1] s empty show ?thesis by auto
qed

theorem handoff_holds_batches_witness:
  "\<exists>h' w'. handoff_step demo_env (HoPush (demo_rec [1, 2, 3])) demo_handoff demo_world = Some (h', w') \<and>
    handoff_inv (w_heap w') h' (sent_on (w_queues w'))"
proof -
  obtain h' w' where s: "handoff_step demo_env (HoPush (demo_rec [1, 2, 3])) demo_handoff demo_world = Some (h', w')"
    using demo_step by fastforce
  from handoff_holds_batches [OF demo_facts(1,4) demo_given demo_heap_ok(2) s] s show ?thesis by blast
qed

theorem handoff_row_bytes_witness:
  "\<exists>h' w'. handoff_step demo_env (HoPush (demo_rec [1, 2, 3])) demo_handoff demo_world = Some (h', w') \<and>
    row_bytes (sent_on (w_queues w')) h' 1 = [1, 2, 3] \<and> row_bytes (sent_on (w_queues w')) h' 0 = []"
proof -
  obtain h' w' where s: "handoff_step demo_env (HoPush (demo_rec [1, 2, 3])) demo_handoff demo_world = Some (h', w')"
    using demo_step by fastforce
  have "parked_inv (ho_shards demo_handoff) (ho_parked demo_handoff)"
    using demo_facts by (simp add: handoff_inv_def)
  from handoff_row_bytes [OF demo_facts(1) demo_row_format demo_facts(6) this s]
  have "row_bytes (sent_on (w_queues w')) h' =
      (row_bytes (sent_on (w_queues demo_world)) demo_handoff)
        (1 := row_bytes (sent_on (w_queues demo_world)) demo_handoff 1 @ [1, 2, 3])"
    using demo_facts(7)
    by (simp add: bytes_spec_def demo_rec_def demo_env_def demo_handoff_def handoff_new_def)
  moreover have "row_bytes (sent_on (w_queues demo_world)) demo_handoff j = []" for j
    using shard_queues_new_sent [OF demo_queues_new]
    by (simp add: row_bytes_def chunk_stream_def demo_handoff_def handoff_new_def shard_buf_new_def)
  ultimately show ?thesis using s by (intro exI [of _ h'] exI [of _ w']) simp
qed

theorem handoff_encode_error_witness:
  "\<exists>h'. handoff_push demo_env (demo_rec []) demo_handoff demo_world = Some (Continue, h', drop_rec (demo_rec []) demo_world) \<and>
     ho_fatal h' = Some \<lparr>fe_component = ''sink'', fe_reason = ''sink error (RecordLevel): empty''\<rparr>"
  using handoff_encode_error [of 0 demo_env "demo_rec []" demo_handoff "sink_record_level ''empty''" "()" "[]" demo_world]
  by (simp add: demo_env_def demo_rec_def demo_handoff_def handoff_new_def sink_record_level_def sink_error_new_def
      shard_buf_new_def) blast

end
