(* ===== verification/Chain.thy ===== *)
theory Chain
  imports Handoff
begin

text \<open>
  The operator chain, \<open>crates/spate-core/src/ops/chain.rs\<close>: the combinators, their lifecycle
  cascade, and the typed chain that pushes one poll batch through a deserializer and the
  stages.

  A stage is the record of its operations (\<open>Collector\<close> and \<open>StageLifecycle\<close>); a combinator
  builds one from the stage downstream of it. User closures and the deserializer are
  arguments. One that emits is a value of type \<open>emits\<close>: it returns, or it emits one output and
  goes on with the flow it is told, so what it does next may depend on the answer.

  The locale \<open>stage\<close> is the contract of the cascade. Each combinator turns a stage that keeps
  it into one that does, the terminal stage keeps it, and the chain's theorems use nothing
  else of the stages.
\<close>

section \<open>Stages\<close>

record ('t, 's, 'q) stage_ops =
  st_push :: "'t rec \<Rightarrow> 's \<Rightarrow> 'q world \<Rightarrow> (flow \<times> 's \<times> 'q world) option"
  st_on_batch_end :: "'s \<Rightarrow> 's"
  st_take_fatal :: "'s \<Rightarrow> fatal_error option \<times> 's"
  st_relieve :: "'s \<Rightarrow> 'q world \<Rightarrow> (flow \<times> 's \<times> 'q world) option"
  st_flush_terminal :: "'s \<Rightarrow> 'q world \<Rightarrow> (flow \<times> 's \<times> 'q world) option"

definition handoff_stage :: "('t, 'e, 'k, 'q) handoff_env \<Rightarrow> ('t, ('e, 'k) sink_handoff, 'q) stage_ops" where
  "handoff_stage env =
     \<lparr>st_push = handoff_push env, st_on_batch_end = handoff_on_batch_end,
      st_take_fatal = handoff_take_fatal, st_relieve = handoff_relieve env,
      st_flush_terminal = handoff_flush_terminal env\<rparr>"

text \<open>The next stage's operation, with its new state put back into this stage's.\<close>

definition into :: "('s \<Rightarrow> 'u) \<Rightarrow> (flow \<times> 's \<times> 'q world) option \<Rightarrow> (flow \<times> 'u \<times> 'q world) option" where
  "into put = map_option (\<lambda>(fl, s, w). (fl, put s, w))"

section \<open>Map\<close>

record ('g, 's) map_op =
  mp_f :: 'g
  mp_next :: 's
  mp_meter :: op_meter

definition map_push ::
  "('a \<Rightarrow> 'g \<Rightarrow> 'b \<times> 'g) \<Rightarrow> ('b, 's, 'q) stage_ops \<Rightarrow> 'a rec \<Rightarrow> ('g, 's) map_op \<Rightarrow> 'q world
     \<Rightarrow> (flow \<times> ('g, 's) map_op \<times> 'q world) option" where
  "map_push f nxt r s w =
     (let (y, g) = f (payload r) (mp_f s);
          s1 = s\<lparr>mp_f := g, mp_meter := meter_out (meter_seen (mp_meter s))\<rparr>
      in into (\<lambda>n. s1\<lparr>mp_next := n\<rparr>) (st_push nxt (record_map (\<lambda>_. y) r) (mp_next s) w))"

definition map_stage ::
  "('a \<Rightarrow> 'g \<Rightarrow> 'b \<times> 'g) \<Rightarrow> ('b, 's, 'q) stage_ops \<Rightarrow> ('a, ('g, 's) map_op, 'q) stage_ops" where
  "map_stage f nxt =
     \<lparr>st_push = map_push f nxt,
      st_on_batch_end = (\<lambda>s. s\<lparr>mp_meter := meter_flush (mp_meter s), mp_next := st_on_batch_end nxt (mp_next s)\<rparr>),
      st_take_fatal = (\<lambda>s. let (x, n) = st_take_fatal nxt (mp_next s) in (x, s\<lparr>mp_next := n\<rparr>)),
      st_relieve = (\<lambda>s w. into (\<lambda>n. s\<lparr>mp_next := n\<rparr>) (st_relieve nxt (mp_next s) w)),
      st_flush_terminal = (\<lambda>s w. into (\<lambda>n. s\<lparr>mp_next := n\<rparr>) (st_flush_terminal nxt (mp_next s) w))\<rparr>"

section \<open>Filter\<close>

record ('g, 's) filter_op =
  fi_p :: 'g
  fi_next :: 's
  fi_meter :: op_meter

definition filter_push ::
  "('a \<Rightarrow> 'g \<Rightarrow> bool \<times> 'g) \<Rightarrow> ('a, 's, 'q) stage_ops \<Rightarrow> 'a rec \<Rightarrow> ('g, 's) filter_op \<Rightarrow> 'q world
     \<Rightarrow> (flow \<times> ('g, 's) filter_op \<times> 'q world) option" where
  "filter_push p nxt r s w =
     (let (keep, g) = p (payload r) (fi_p s); s1 = s\<lparr>fi_p := g, fi_meter := meter_seen (fi_meter s)\<rparr>
      in if keep
         then into (\<lambda>n. s1\<lparr>fi_meter := meter_out (fi_meter s1), fi_next := n\<rparr>) (st_push nxt r (fi_next s) w)
         else Some (Continue, s1\<lparr>fi_meter := meter_filtered (fi_meter s1)\<rparr>, drop_rec r w))"

definition filter_stage ::
  "('a \<Rightarrow> 'g \<Rightarrow> bool \<times> 'g) \<Rightarrow> ('a, 's, 'q) stage_ops \<Rightarrow> ('a, ('g, 's) filter_op, 'q) stage_ops" where
  "filter_stage p nxt =
     \<lparr>st_push = filter_push p nxt,
      st_on_batch_end = (\<lambda>s. s\<lparr>fi_meter := meter_flush (fi_meter s), fi_next := st_on_batch_end nxt (fi_next s)\<rparr>),
      st_take_fatal = (\<lambda>s. let (x, n) = st_take_fatal nxt (fi_next s) in (x, s\<lparr>fi_next := n\<rparr>)),
      st_relieve = (\<lambda>s w. into (\<lambda>n. s\<lparr>fi_next := n\<rparr>) (st_relieve nxt (fi_next s) w)),
      st_flush_terminal = (\<lambda>s w. into (\<lambda>n. s\<lparr>fi_next := n\<rparr>) (st_flush_terminal nxt (fi_next s) w))\<rparr>"

section \<open>Inspect\<close>

record ('g, 's) inspect_op =
  in_f :: 'g
  in_next :: 's

definition inspect_push ::
  "('a \<Rightarrow> 'g \<Rightarrow> 'g) \<Rightarrow> ('a, 's, 'q) stage_ops \<Rightarrow> 'a rec \<Rightarrow> ('g, 's) inspect_op \<Rightarrow> 'q world
     \<Rightarrow> (flow \<times> ('g, 's) inspect_op \<times> 'q world) option" where
  "inspect_push f nxt r s w =
     (let s1 = s\<lparr>in_f := f (payload r) (in_f s)\<rparr>
      in into (\<lambda>n. s1\<lparr>in_next := n\<rparr>) (st_push nxt r (in_next s) w))"

definition inspect_stage ::
  "('a \<Rightarrow> 'g \<Rightarrow> 'g) \<Rightarrow> ('a, 's, 'q) stage_ops \<Rightarrow> ('a, ('g, 's) inspect_op, 'q) stage_ops" where
  "inspect_stage f nxt =
     \<lparr>st_push = inspect_push f nxt,
      st_on_batch_end = (\<lambda>s. s\<lparr>in_next := st_on_batch_end nxt (in_next s)\<rparr>),
      st_take_fatal = (\<lambda>s. let (x, n) = st_take_fatal nxt (in_next s) in (x, s\<lparr>in_next := n\<rparr>)),
      st_relieve = (\<lambda>s w. into (\<lambda>n. s\<lparr>in_next := n\<rparr>) (st_relieve nxt (in_next s) w)),
      st_flush_terminal = (\<lambda>s w. into (\<lambda>n. s\<lparr>in_next := n\<rparr>) (st_flush_terminal nxt (in_next s) w))\<rparr>"

section \<open>TryMap\<close>

text \<open>The error type of the closure only matters through \<open>Display\<close>: it is its text.\<close>

record ('g, 's) try_map_op =
  tm_f :: 'g
  tm_next :: 's
  tm_policy :: error_policy
  tm_component :: string
  tm_meter :: op_meter
  tm_fatal :: fatal_slot

definition try_map_failed :: "string \<Rightarrow> ('g, 's) try_map_op \<Rightarrow> ('g, 's) try_map_op" where
  "try_map_failed e s =
     (if tm_policy s = Skip
      then s\<lparr>tm_meter := meter_record_error (meter_skipped (tm_meter s))\<rparr>
      else s\<lparr>tm_meter := meter_fatal_error (tm_meter s),
             tm_fatal := Some \<lparr>fe_component = tm_component s, fe_reason = e\<rparr>\<rparr>)"

definition try_map_push ::
  "('a \<Rightarrow> 'g \<Rightarrow> (string + 'b) \<times> 'g) \<Rightarrow> ('b, 's, 'q) stage_ops \<Rightarrow> 'a rec \<Rightarrow> ('g, 's) try_map_op \<Rightarrow> 'q world
     \<Rightarrow> (flow \<times> ('g, 's) try_map_op \<times> 'q world) option" where
  "try_map_push f nxt r s w =
     (let s1 = s\<lparr>tm_meter := meter_seen (tm_meter s)\<rparr>
      in if tm_fatal s1 \<noteq> None then Some (Continue, s1, drop_rec r w)
         else let (res, g) = f (payload r) (tm_f s1); s2 = s1\<lparr>tm_f := g\<rparr>
              in case res of
                   Inr out \<Rightarrow>
                     into (\<lambda>n. s2\<lparr>tm_meter := meter_out (tm_meter s2), tm_next := n\<rparr>)
                       (st_push nxt (record_map (\<lambda>_. out) r) (tm_next s2) w)
                 | Inl e \<Rightarrow> Some (Continue, try_map_failed e s2, drop_rec r w))"

definition try_map_take_fatal ::
  "('b, 's, 'q) stage_ops \<Rightarrow> ('g, 's) try_map_op \<Rightarrow> fatal_error option \<times> ('g, 's) try_map_op" where
  "try_map_take_fatal nxt s =
     (let (downstream, n) = st_take_fatal nxt (tm_next s); own = tm_fatal s
      in (case downstream of Some e \<Rightarrow> Some e | None \<Rightarrow> own, s\<lparr>tm_next := n, tm_fatal := None\<rparr>))"

definition try_map_stage ::
  "('a \<Rightarrow> 'g \<Rightarrow> (string + 'b) \<times> 'g) \<Rightarrow> ('b, 's, 'q) stage_ops \<Rightarrow> ('a, ('g, 's) try_map_op, 'q) stage_ops" where
  "try_map_stage f nxt =
     \<lparr>st_push = try_map_push f nxt,
      st_on_batch_end = (\<lambda>s. s\<lparr>tm_meter := meter_flush (tm_meter s), tm_next := st_on_batch_end nxt (tm_next s)\<rparr>),
      st_take_fatal = try_map_take_fatal nxt,
      st_relieve = (\<lambda>s w. into (\<lambda>n. s\<lparr>tm_next := n\<rparr>) (st_relieve nxt (tm_next s) w)),
      st_flush_terminal = (\<lambda>s w. into (\<lambda>n. s\<lparr>tm_next := n\<rparr>) (st_flush_terminal nxt (tm_next s) w))\<rparr>"

section \<open>FlatMap\<close>

datatype ('o, 'r) emits = Return 'r | Emit 'o "flow \<Rightarrow> ('o, 'r) emits"

record ('g, 's) flat_map_op =
  fm_g :: 'g
  fm_next :: 's
  fm_meter :: op_meter

text \<open>
  \<open>Emitter::emit\<close>: a clone of the parent's handle goes with each output, \<open>emitted\<close> counts them
  and a \<open>Blocked\<close> answer sticks. \<open>mk\<close> gives the output's payload and metadata.
\<close>

definition clone_ack :: "ack_ref \<Rightarrow> 'q world \<Rightarrow> 'q world" where
  "clone_ack a w = w\<lparr>w_heap := ackref_clone a (w_heap w)\<rparr>"

definition latch_flow :: "flow \<Rightarrow> flow \<Rightarrow> flow" where
  "latch_flow old new = (if old \<noteq> Blocked then new else old)"

primrec emit_run ::
  "('o \<Rightarrow> 'b \<times> record_meta) \<Rightarrow> ('b rec \<Rightarrow> 's \<Rightarrow> 'q world \<Rightarrow> (flow \<times> 's \<times> 'q world) option) \<Rightarrow> ack_ref
     \<Rightarrow> ('o, 'r) emits \<Rightarrow> nat \<Rightarrow> flow \<Rightarrow> 's \<Rightarrow> 'q world \<Rightarrow> ('r \<times> nat \<times> flow \<times> 's \<times> 'q world) option" where
  "emit_run mk push a (Return x) emitted fl s w = Some (x, emitted, fl, s, w)"
| "emit_run mk push a (Emit p k) emitted fl s w =
     (case push \<lparr>payload = fst (mk p), meta = snd (mk p), rec_ack = a\<rparr> s (clone_ack a w) of
        None \<Rightarrow> None
      | Some (fl', s', w') \<Rightarrow> emit_run mk push a (k fl') (emitted + 1) (latch_flow fl fl') s' w')"

text \<open>The emitter of \<open>flat_map\<close> gives every output the parent's metadata.\<close>

definition emitter_run ::
  "('b rec \<Rightarrow> 's \<Rightarrow> 'q world \<Rightarrow> (flow \<times> 's \<times> 'q world) option) \<Rightarrow> record_meta \<Rightarrow> ack_ref \<Rightarrow> ('b, 'r) emits
     \<Rightarrow> 's \<Rightarrow> 'q world \<Rightarrow> ('r \<times> nat \<times> flow \<times> 's \<times> 'q world) option" where
  "emitter_run push m a em s w = emit_run (\<lambda>p. (p, m)) push a em 0 Continue s w"

definition flat_map_push ::
  "('a \<Rightarrow> 'g \<Rightarrow> ('b, 'g) emits) \<Rightarrow> ('b, 's, 'q) stage_ops \<Rightarrow> 'a rec \<Rightarrow> ('g, 's) flat_map_op \<Rightarrow> 'q world
     \<Rightarrow> (flow \<times> ('g, 's) flat_map_op \<times> 'q world) option" where
  "flat_map_push f nxt r s w =
     (case emitter_run (st_push nxt) (meta r) (rec_ack r) (f (payload r) (fm_g s)) (fm_next s) w of
        None \<Rightarrow> None
      | Some (g, emitted, fl, n, w') \<Rightarrow>
          Some (fl, s\<lparr>fm_g := g, fm_next := n, fm_meter := meter_out_n emitted (meter_seen (fm_meter s))\<rparr>,
                drop_rec r w'))"

definition flat_map_stage ::
  "('a \<Rightarrow> 'g \<Rightarrow> ('b, 'g) emits) \<Rightarrow> ('b, 's, 'q) stage_ops \<Rightarrow> ('a, ('g, 's) flat_map_op, 'q) stage_ops" where
  "flat_map_stage f nxt =
     \<lparr>st_push = flat_map_push f nxt,
      st_on_batch_end = (\<lambda>s. s\<lparr>fm_meter := meter_flush (fm_meter s), fm_next := st_on_batch_end nxt (fm_next s)\<rparr>),
      st_take_fatal = (\<lambda>s. let (x, n) = st_take_fatal nxt (fm_next s) in (x, s\<lparr>fm_next := n\<rparr>)),
      st_relieve = (\<lambda>s w. into (\<lambda>n. s\<lparr>fm_next := n\<rparr>) (st_relieve nxt (fm_next s) w)),
      st_flush_terminal = (\<lambda>s w. into (\<lambda>n. s\<lparr>fm_next := n\<rparr>) (st_flush_terminal nxt (fm_next s) w))\<rparr>"

section \<open>The typed chain\<close>

record pending_payload =
  pp_bytes :: bytes
  pp_key :: "bytes option"
  pp_partition :: partition_id
  pp_offset :: int
  pp_timestamp_ms :: int

definition from_raw :: "raw_payload \<Rightarrow> pending_payload" where
  "from_raw r =
     \<lparr>pp_bytes = rp_bytes r, pp_key = rp_key r, pp_partition = rp_partition r, pp_offset = rp_offset r,
      pp_timestamp_ms = rp_timestamp_ms r\<rparr>"

definition as_raw :: "pending_payload \<Rightarrow> raw_payload" where
  "as_raw p =
     \<lparr>rp_bytes = pp_bytes p, rp_key = pp_key p, rp_partition = pp_partition p, rp_offset = pp_offset p,
      rp_timestamp_ms = pp_timestamp_ms p\<rparr>"

datatype chain_step = StepContinue | StepBackpressure | StepNotReady | StepFatal fatal_error

datatype block_reason = Capacity | BlockNotReady

datatype push_outcome = Done | BlockedAt nat block_reason | FatalOutcome fatal_error

text \<open>A source's batch: its handle, and the payloads \<open>next_payload\<close> will still hand out.\<close>

record payload_batch =
  pb_ack :: ack_ref
  pb_rest :: "raw_payload list"

record deser_metrics =
  dm_ok :: nat
  dm_errors :: nat
  dm_dropped :: nat
  dm_not_ready :: nat

record ('d, 's) typed_chain =
  tc_deser :: 'd
  tc_ops :: 's
  tc_policy :: error_policy
  tc_metrics :: "deser_metrics option"
  tc_cursor :: nat
  tc_mid_batch :: bool
  tc_pending :: "pending_payload option"

definition typed_chain_new :: "'d \<Rightarrow> 's \<Rightarrow> error_policy \<Rightarrow> deser_metrics option \<Rightarrow> ('d, 's) typed_chain" where
  "typed_chain_new deser ops policy metrics =
     \<lparr>tc_deser = deser, tc_ops = ops, tc_policy = policy, tc_metrics = metrics, tc_cursor = 0,
      tc_mid_batch = False, tc_pending = None\<rparr>"

text \<open>The four counters of one \<open>push_batch\<close>.\<close>

record push_counts =
  pc_ok :: nat
  pc_errors :: nat
  pc_not_ready :: nat
  pc_fatal :: nat

text \<open>
  \<open>OpsEmit\<close>: what the deserializer emits goes to the stages. A record is a payload with its
  metadata; the handle is a clone of the batch's, as the deserializer's contract has it.
\<close>

definition ops_emit_run ::
  "('t rec \<Rightarrow> 's \<Rightarrow> 'q world \<Rightarrow> (flow \<times> 's \<times> 'q world) option) \<Rightarrow> ack_ref \<Rightarrow> ('t \<times> record_meta, 'r) emits
     \<Rightarrow> 's \<Rightarrow> 'q world \<Rightarrow> ('r \<times> nat \<times> flow \<times> 's \<times> 'q world) option" where
  "ops_emit_run push a em s w = emit_run id push a em 0 Continue s w"

type_synonym ('d, 't) deserializer = "'d \<Rightarrow> raw_payload \<Rightarrow> ('t \<times> record_meta, deser_error option \<times> 'd) emits"

text \<open>What a fatal deserializer result reports: an error a stage latched before it, if any.\<close>

definition fatal_or :: "('t, 's, 'q) stage_ops \<Rightarrow> string \<Rightarrow> 's \<Rightarrow> chain_step \<times> 's" where
  "fatal_or ops reason s =
     (let (x, s') = st_take_fatal ops s
      in (StepFatal (case x of Some f \<Rightarrow> f
                     | None \<Rightarrow> \<lparr>fe_component = ''deserializer'', fe_reason = reason\<rparr>), s'))"

text \<open>The end of \<open>deser_step\<close>: a latched fatal first, then pressure.\<close>

definition deser_finish ::
  "('t, 's, 'q) stage_ops \<Rightarrow> flow \<Rightarrow> 's \<Rightarrow> 'q world \<Rightarrow> (chain_step \<times> 's \<times> 'q world) option" where
  "deser_finish ops fl s w =
     (case st_take_fatal ops s of
        (Some f, s') \<Rightarrow> Some (StepFatal f, s', w)
      | (None, s') \<Rightarrow>
          if fl = Blocked then Some (StepBackpressure, s', w)
          else case st_relieve ops s' w of
                 None \<Rightarrow> None
               | Some (fl', s'', w') \<Rightarrow> Some (if fl' = Blocked then StepBackpressure else StepContinue, s'', w'))"

definition deser_result ::
  "('t, 's, 'q) stage_ops \<Rightarrow> error_policy \<Rightarrow> deser_error option \<Rightarrow> push_counts \<Rightarrow> flow \<Rightarrow> 's \<Rightarrow> 'q world
     \<Rightarrow> (chain_step \<times> push_counts \<times> 's \<times> 'q world) option" where
  "deser_result ops policy res pc fl s w =
     (case res of
        Some (NotReady _) \<Rightarrow> Some (StepNotReady, pc, s, w)
      | Some (DeserFatal reason) \<Rightarrow>
          (let (st, s') = fatal_or ops reason s in Some (st, pc\<lparr>pc_fatal := pc_fatal pc + 1\<rparr>, s', w))
      | Some e \<Rightarrow>
          (let pc' = pc\<lparr>pc_errors := pc_errors pc + 1\<rparr>
           in if policy = Skip
              then map_option (\<lambda>(st, s', w'). (st, pc', s', w')) (deser_finish ops fl s w)
              else let (st, s') = fatal_or ops (deser_display e) s in Some (st, pc', s', w))
      | None \<Rightarrow> map_option (\<lambda>(st, s', w'). (st, pc, s', w')) (deser_finish ops fl s w))"

definition deser_step ::
  "('d, 't) deserializer \<Rightarrow> ('t, 's, 'q) stage_ops \<Rightarrow> raw_payload \<Rightarrow> ack_ref \<Rightarrow> push_counts
     \<Rightarrow> ('d, 's) typed_chain \<Rightarrow> 'q world \<Rightarrow> (chain_step \<times> push_counts \<times> ('d, 's) typed_chain \<times> 'q world) option" where
  "deser_step deserialize ops raw a pc c w =
     (case ops_emit_run (st_push ops) a (deserialize (tc_deser c) raw) (tc_ops c) w of
        None \<Rightarrow> None
      | Some ((res, d), emitted, fl, s, w1) \<Rightarrow>
          (case deser_result ops (tc_policy c) res (pc\<lparr>pc_ok := pc_ok pc + emitted\<rparr>) fl s w1 of
             None \<Rightarrow> None
           | Some (st, pc', s', w2) \<Rightarrow> Some (st, pc', c\<lparr>tc_deser := d, tc_ops := s'\<rparr>, w2)))"

text \<open>
  What \<open>push_batch\<close> makes of a step on one payload: the outcome so far, the counters, the
  cursor, and the payload to stash. The replay of a stashed payload and the loop share it.
\<close>

definition after_step ::
  "raw_payload \<Rightarrow> chain_step \<Rightarrow> push_counts \<Rightarrow> ('d, 's) typed_chain
     \<Rightarrow> push_outcome option \<times> push_counts \<times> ('d, 's) typed_chain" where
  "after_step raw st pc c =
     (case st of
        StepContinue \<Rightarrow> (None, pc, c\<lparr>tc_cursor := tc_cursor c + 1\<rparr>)
      | StepBackpressure \<Rightarrow>
          (Some (BlockedAt (tc_cursor c + 1) Capacity), pc, c\<lparr>tc_cursor := tc_cursor c + 1\<rparr>)
      | StepNotReady \<Rightarrow>
          (Some (BlockedAt (tc_cursor c) BlockNotReady), pc\<lparr>pc_not_ready := pc_not_ready pc + 1\<rparr>,
           c\<lparr>tc_pending := Some (from_raw raw)\<rparr>)
      | StepFatal f \<Rightarrow> (Some (FatalOutcome f), pc, c))"

text \<open>The loop: pull payloads until one ends the push or the batch is exhausted.\<close>

fun push_loop ::
  "('d, 't) deserializer \<Rightarrow> ('t, 's, 'q) stage_ops \<Rightarrow> ack_ref \<Rightarrow> raw_payload list \<Rightarrow> push_counts
     \<Rightarrow> ('d, 's) typed_chain \<Rightarrow> 'q world
     \<Rightarrow> (push_outcome option \<times> raw_payload list \<times> push_counts \<times> ('d, 's) typed_chain \<times> 'q world) option" where
  "push_loop deserialize ops a [] pc c w = Some (None, [], pc, c, w)"
| "push_loop deserialize ops a (raw # rest) pc c w =
     (case deser_step deserialize ops raw a pc c w of
        None \<Rightarrow> None
      | Some (st, pc1, c1, w1) \<Rightarrow>
          (case after_step raw st pc1 c1 of
             (Some out, pc2, c2) \<Rightarrow> Some (Some out, rest, pc2, c2, w1)
           | (None, pc2, c2) \<Rightarrow> push_loop deserialize ops a rest pc2 c2 w1))"

definition push_replay ::
  "('d, 't) deserializer \<Rightarrow> ('t, 's, 'q) stage_ops \<Rightarrow> ack_ref \<Rightarrow> push_counts \<Rightarrow> ('d, 's) typed_chain \<Rightarrow> 'q world
     \<Rightarrow> (push_outcome option \<times> push_counts \<times> ('d, 's) typed_chain \<times> 'q world) option" where
  "push_replay deserialize ops a pc c w =
     (case tc_pending c of
        None \<Rightarrow> Some (None, pc, c, w)
      | Some p \<Rightarrow>
          (case deser_step deserialize ops (as_raw p) a pc (c\<lparr>tc_pending := None\<rparr>) w of
             None \<Rightarrow> None
           | Some (st, pc1, c1, w1) \<Rightarrow>
               (case after_step (as_raw p) st pc1 c1 of (out, pc2, c2) \<Rightarrow> Some (out, pc2, c2, w1))))"

definition begin_push :: "('d, 's) typed_chain \<Rightarrow> ('d, 's) typed_chain" where
  "begin_push c = (if tc_mid_batch c then c else c\<lparr>tc_cursor := 0, tc_pending := None, tc_mid_batch := True\<rparr>)"

definition publish_deser :: "push_counts \<Rightarrow> ('d, 's) typed_chain \<Rightarrow> ('d, 's) typed_chain" where
  "publish_deser pc c =
     c\<lparr>tc_metrics := map_option (\<lambda>m. m\<lparr>
          dm_ok := dm_ok m + pc_ok pc, dm_errors := dm_errors m + (pc_errors pc + pc_fatal pc),
          dm_dropped := (if pc_errors pc > 0 \<and> tc_policy c = Skip then dm_dropped m + pc_errors pc else dm_dropped m),
          dm_not_ready := (if pc_not_ready pc > 0 then dm_not_ready m + pc_not_ready pc else dm_not_ready m)\<rparr>)
        (tc_metrics c)\<rparr>"

definition end_push ::
  "('t, 's, 'q) stage_ops \<Rightarrow> push_outcome option \<Rightarrow> push_counts \<Rightarrow> ack_ref \<Rightarrow> ('d, 's) typed_chain \<Rightarrow> 'q world
     \<Rightarrow> push_outcome \<times> ('d, 's) typed_chain \<times> 'q world" where
  "end_push ops outcome pc a c w =
     (let c1 = publish_deser pc c; c2 = c1\<lparr>tc_ops := st_on_batch_end ops (tc_ops c1)\<rparr>
      in case outcome of
           Some (FatalOutcome f) \<Rightarrow>
             (FatalOutcome f, c2\<lparr>tc_mid_batch := False, tc_pending := None\<rparr>,
              w\<lparr>w_heap := ackref_fail a (w_heap w)\<rparr>)
         | Some blocked \<Rightarrow> (blocked, c2, w)
         | None \<Rightarrow> (Done, c2\<lparr>tc_mid_batch := False\<rparr>, w))"

text \<open>
  \<open>push_batch\<close>. The argument \<open>from\<close> is only checked in debug builds. The result has the
  batch's payloads that were not pulled.
\<close>

definition push_batch ::
  "('d, 't) deserializer \<Rightarrow> ('t, 's, 'q) stage_ops \<Rightarrow> payload_batch \<Rightarrow> nat \<Rightarrow> ('d, 's) typed_chain \<Rightarrow> 'q world
     \<Rightarrow> (push_outcome \<times> payload_batch \<times> ('d, 's) typed_chain \<times> 'q world) option" where
  "push_batch deserialize ops batch from c w =
     (let c0 = begin_push c
      in case st_relieve ops (tc_ops c0) w of
           None \<Rightarrow> None
         | Some (fl, s, w0) \<Rightarrow>
             let c1 = c0\<lparr>tc_ops := s\<rparr>
             in if fl = Blocked then Some (BlockedAt (tc_cursor c1) Capacity, batch, c1, w0)
                else case push_replay deserialize ops (pb_ack batch) \<lparr>pc_ok = 0, pc_errors = 0, pc_not_ready = 0, pc_fatal = 0\<rparr> c1 w0 of
                       None \<Rightarrow> None
                     | Some (Some out, pc, c2, w1) \<Rightarrow>
                         (case end_push ops (Some out) pc (pb_ack batch) c2 w1 of (o', c', w') \<Rightarrow> Some (o', batch, c', w'))
                     | Some (None, pc, c2, w1) \<Rightarrow>
                         (case push_loop deserialize ops (pb_ack batch) (pb_rest batch) pc c2 w1 of
                            None \<Rightarrow> None
                          | Some (out, rest, pc', c3, w2) \<Rightarrow>
                              (case end_push ops out pc' (pb_ack batch) c3 w2 of
                                 (o', c', w') \<Rightarrow> Some (o', batch\<lparr>pb_rest := rest\<rparr>, c', w'))))"

definition chain_flush ::
  "('t, 's, 'q) stage_ops \<Rightarrow> ('d, 's) typed_chain \<Rightarrow> 'q world \<Rightarrow> (push_outcome \<times> ('d, 's) typed_chain \<times> 'q world) option" where
  "chain_flush ops c w =
     (case st_take_fatal ops (tc_ops c) of
        (Some f, s) \<Rightarrow> Some (FatalOutcome f, c\<lparr>tc_ops := s\<rparr>, w)
      | (None, s) \<Rightarrow>
          (case st_flush_terminal ops s w of
             None \<Rightarrow> None
           | Some (fl, s1, w1) \<Rightarrow>
               (case st_take_fatal ops s1 of
                  (Some f, s2) \<Rightarrow> Some (FatalOutcome f, c\<lparr>tc_ops := s2\<rparr>, w1)
                | (None, s2) \<Rightarrow>
                    Some (case fl of Continue \<Rightarrow> Done | Blocked \<Rightarrow> BlockedAt (tc_cursor c) Capacity,
                          c\<lparr>tc_ops := s2\<rparr>, w1))))"

definition abandon_batch :: "('d, 's) typed_chain \<Rightarrow> ('d, 's) typed_chain" where
  "abandon_batch c = c\<lparr>tc_mid_batch := False, tc_cursor := 0, tc_pending := None\<rparr>"

section \<open>The contract of a stage\<close>

text \<open>
  An operation that was given the handles \<open>g\<close> and leaves everybody else's \<open>F\<close> alone: afterwards
  what it had is its own, was handed to the queues, or was released.
\<close>

definition keeps ::
  "('s \<Rightarrow> ack_ref multiset) \<Rightarrow> ('q \<Rightarrow> ack_ref multiset) \<Rightarrow> (ack_heap \<Rightarrow> 's \<Rightarrow> 'q \<Rightarrow> bool) \<Rightarrow> ack_ref multiset
     \<Rightarrow> ack_ref multiset \<Rightarrow> 's \<Rightarrow> 'q world \<Rightarrow> 's \<Rightarrow> 'q world \<Rightarrow> bool" where
  "keeps own sent sinv g F s w s' w' \<longleftrightarrow>
     (heap_ok (w_heap w) (g + own s + F) \<and> outbox_ok (w_heap w) \<and> sinv (w_heap w) s (w_queues w) \<longrightarrow>
      (\<exists>G. sent (w_queues w') = sent (w_queues w) + G \<and> heap_ok (w_heap w') (own s' + G + F)) \<and>
      outbox_ok (w_heap w') \<and> heap_le (w_heap w) (w_heap w') \<and>
      length (arena (w_heap w')) = length (arena (w_heap w)) \<and> sinv (w_heap w') s' (w_queues w'))"

locale stage =
  fixes ops :: "('t, 's, 'q) stage_ops"
    and own :: "'s \<Rightarrow> ack_ref multiset"
    and sent :: "'q \<Rightarrow> ack_ref multiset"
    and sinv :: "ack_heap \<Rightarrow> 's \<Rightarrow> 'q \<Rightarrow> bool"
    and latched :: "'s \<Rightarrow> bool"
    and books :: "'s \<Rightarrow> bool"
  assumes sinv_mono: "sinv hp s q \<Longrightarrow> heap_le hp hp' \<Longrightarrow> sinv hp' s q"
    and push_total: "heap_ok (w_heap w) ({#rec_ack r#} + own s + F) \<Longrightarrow> outbox_ok (w_heap w) \<Longrightarrow>
          sinv (w_heap w) s (w_queues w) \<Longrightarrow> st_push ops r s w \<noteq> None"
    and push_keeps: "st_push ops r s w = Some (fl, s', w') \<Longrightarrow> keeps own sent sinv {#rec_ack r#} F s w s' w'"
    and push_latched: "st_push ops r s w = Some (fl, s', w') \<Longrightarrow> latched s \<Longrightarrow> latched s'"
    and push_books: "st_push ops r s w = Some (fl, s', w') \<Longrightarrow> books s \<Longrightarrow> books s' \<or> latched s'"
    and relieve_total: "sinv hp s (w_queues w) \<Longrightarrow> st_relieve ops s w \<noteq> None"
    and relieve_keeps: "st_relieve ops s w = Some (fl, s', w') \<Longrightarrow> keeps own sent sinv {#} F s w s' w'"
    and relieve_same: "sinv hp s (w_queues w) \<Longrightarrow> st_relieve ops s w = Some (fl, s', w') \<Longrightarrow> latched s' = latched s \<and> books s' = books s"
    and flush_total: "sinv hp s (w_queues w) \<Longrightarrow> st_flush_terminal ops s w \<noteq> None"
    and flush_keeps: "st_flush_terminal ops s w = Some (fl, s', w') \<Longrightarrow> keeps own sent sinv {#} F s w s' w'"
    and flush_books: "st_flush_terminal ops s w = Some (fl, s', w') \<Longrightarrow> books s \<Longrightarrow> books s'"
    and fatal_same: "st_take_fatal ops s = (x, s') \<Longrightarrow> own s' = own s \<and> (\<forall>hp q. sinv hp s q \<longrightarrow> sinv hp s' q) \<and>
          (x = None \<longleftrightarrow> \<not> latched s) \<and> (x = None \<longrightarrow> \<not> latched s') \<and> (books s \<longrightarrow> books s')"
    and end_same: "own (st_on_batch_end ops s) = own s \<and> (\<forall>hp q. sinv hp s q \<longrightarrow> sinv hp (st_on_batch_end ops s) q) \<and>
          latched (st_on_batch_end ops s) = latched s \<and> (books s \<longrightarrow> books (st_on_batch_end ops s))"

lemma keeps_D:
  assumes "keeps own sent sinv g F s w s' w'" and "heap_ok (w_heap w) (g + own s + F)" and "outbox_ok (w_heap w)"
    and "sinv (w_heap w) s (w_queues w)"
  obtains G where "sent (w_queues w') = sent (w_queues w) + G" "heap_ok (w_heap w') (own s' + G + F)"
    "outbox_ok (w_heap w')" "heap_le (w_heap w) (w_heap w')" "length (arena (w_heap w')) = length (arena (w_heap w))"
    "sinv (w_heap w') s' (w_queues w')"
  using assms unfolding keeps_def by blast

text \<open>Two operations in a row; the second is given nothing.\<close>

lemma keeps_trans:
  assumes 1: "keeps own sent sinv g F s w s1 w1" and 2: "\<And>G. keeps own sent sinv {#} (G + F) s1 w1 s2 w2"
  shows "keeps own sent sinv g F s w s2 w2"
proof -
  {
    assume h: "heap_ok (w_heap w) (g + own s + F)" "outbox_ok (w_heap w)" "sinv (w_heap w) s (w_queues w)"
    obtain G1 where 11: "sent (w_queues w1) = sent (w_queues w) + G1" "heap_ok (w_heap w1) (own s1 + G1 + F)"
      "outbox_ok (w_heap w1)" "heap_le (w_heap w) (w_heap w1)" "length (arena (w_heap w1)) = length (arena (w_heap w))"
      "sinv (w_heap w1) s1 (w_queues w1)" using keeps_D [OF 1 h] .
    then have "heap_ok (w_heap w1) ({#} + own s1 + (G1 + F))" by (simp add: ac_simps)
    then obtain G2 where 22: "sent (w_queues w2) = sent (w_queues w1) + G2" "heap_ok (w_heap w2) (own s2 + G2 + (G1 + F))"
      "outbox_ok (w_heap w2)" "heap_le (w_heap w1) (w_heap w2)" "length (arena (w_heap w2)) = length (arena (w_heap w1))"
      "sinv (w_heap w2) s2 (w_queues w2)" using keeps_D [OF 2 _ 11(3,6)] by blast
    have "heap_ok (w_heap w2) (own s2 + (G1 + G2) + F)" using 22(2) by (simp add: ac_simps)
    moreover have "sent (w_queues w2) = sent (w_queues w) + (G1 + G2)" using 11(1) 22(1) by (simp add: ac_simps)
    ultimately have "(\<exists>G. sent (w_queues w2) = sent (w_queues w) + G \<and> heap_ok (w_heap w2) (own s2 + G + F)) \<and>
        outbox_ok (w_heap w2) \<and> heap_le (w_heap w) (w_heap w2) \<and>
        length (arena (w_heap w2)) = length (arena (w_heap w)) \<and> sinv (w_heap w2) s2 (w_queues w2)"
      using 11(5) 22(3,5,6) heap_le_trans [OF 11(4) 22(4)] by (intro conjI exI [of _ "G1 + G2"]) simp_all
  }
  then show ?thesis unfolding keeps_def by blast
qed

text \<open>Two operations in a row, the second with handles that were part of the frame of the first.\<close>

lemma keeps_move:
  assumes 1: "keeps own sent sinv {#} (g + F) s w s1 w1" and 2: "\<And>F. keeps own sent sinv g F s1 w1 s2 w2"
  shows "keeps own sent sinv g F s w s2 w2"
proof -
  {
    assume h: "heap_ok (w_heap w) (g + own s + F)" "outbox_ok (w_heap w)" "sinv (w_heap w) s (w_queues w)"
    have "heap_ok (w_heap w) ({#} + own s + (g + F))" using h(1) by (simp add: ac_simps)
    then obtain G1 where 11: "sent (w_queues w1) = sent (w_queues w) + G1" "heap_ok (w_heap w1) (own s1 + G1 + (g + F))"
      "outbox_ok (w_heap w1)" "heap_le (w_heap w) (w_heap w1)" "length (arena (w_heap w1)) = length (arena (w_heap w))"
      "sinv (w_heap w1) s1 (w_queues w1)" using keeps_D [OF 1 _ h(2,3)] by blast
    then have "heap_ok (w_heap w1) (g + own s1 + (G1 + F))" by (simp add: ac_simps)
    then obtain G2 where 22: "sent (w_queues w2) = sent (w_queues w1) + G2" "heap_ok (w_heap w2) (own s2 + G2 + (G1 + F))"
      "outbox_ok (w_heap w2)" "heap_le (w_heap w1) (w_heap w2)" "length (arena (w_heap w2)) = length (arena (w_heap w1))"
      "sinv (w_heap w2) s2 (w_queues w2)" using keeps_D [OF 2 _ 11(3,6)] by blast
    have "heap_ok (w_heap w2) (own s2 + (G1 + G2) + F)" using 22(2) by (simp add: ac_simps)
    moreover have "sent (w_queues w2) = sent (w_queues w) + (G1 + G2)" using 11(1) 22(1) by (simp add: ac_simps)
    ultimately have "(\<exists>G. sent (w_queues w2) = sent (w_queues w) + G \<and> heap_ok (w_heap w2) (own s2 + G + F)) \<and>
        outbox_ok (w_heap w2) \<and> heap_le (w_heap w) (w_heap w2) \<and>
        length (arena (w_heap w2)) = length (arena (w_heap w)) \<and> sinv (w_heap w2) s2 (w_queues w2)"
      using 11(5) 22(3,5,6) heap_le_trans [OF 11(4) 22(4)] by (intro conjI exI [of _ "G1 + G2"]) simp_all
  }
  then show ?thesis unfolding keeps_def by blast
qed

lemma keeps_same:
  "own s' = own s \<Longrightarrow> (\<And>hp q. sinv hp s q \<Longrightarrow> sinv hp s' q) \<Longrightarrow> keeps own sent sinv {#} F s w s' w"
  by (simp add: keeps_def)

text \<open>Releasing the record one was given.\<close>

lemma keeps_drop_rec:
  assumes "\<And>hp s q hp'. sinv hp s q \<Longrightarrow> heap_le hp hp' \<Longrightarrow> sinv hp' s q" and "own s' = own s"
    and "\<And>hp q. sinv hp s q \<Longrightarrow> sinv hp s' q"
  shows "keeps own sent sinv {#rec_ack r#} F s w s' (drop_rec r w)"
proof -
  {
    assume h: "heap_ok (w_heap w) (add_mset (rec_ack r) (own s + F))" "outbox_ok (w_heap w)" "sinv (w_heap w) s (w_queues w)"
    have "heap_ok (ackref_drop (rec_ack r) (w_heap w)) (own s + F)" by (rule heap_ok_drop [OF h(1)])
    moreover have "outbox_ok (ackref_drop (rec_ack r) (w_heap w))" by (rule outbox_ok_drop [OF h(2,1)]) simp
    moreover have "sinv (ackref_drop (rec_ack r) (w_heap w)) s' (w_queues w)"
      by (rule assms(1) [OF assms(3) [OF h(3)] heap_le_drop])
    moreover note heap_le_drop [of "w_heap w" "rec_ack r"]
    ultimately have "(\<exists>G. sent (w_queues w) = sent (w_queues w) + G \<and> heap_ok (ackref_drop (rec_ack r) (w_heap w)) (own s' + G + F)) \<and>
        outbox_ok (ackref_drop (rec_ack r) (w_heap w)) \<and> heap_le (w_heap w) (ackref_drop (rec_ack r) (w_heap w)) \<and>
        sinv (ackref_drop (rec_ack r) (w_heap w)) s' (w_queues w)" using assms(2) by simp
  }
  then show ?thesis by (simp add: keeps_def)
qed

text \<open>What one emitted record, or a run of them, does to a stage.\<close>

definition accounts :: "('s \<Rightarrow> bool) \<Rightarrow> ('s \<Rightarrow> bool) \<Rightarrow> 's \<Rightarrow> 's \<Rightarrow> bool" where
  "accounts latched books s s' \<longleftrightarrow> (latched s \<longrightarrow> latched s') \<and> (books s \<longrightarrow> books s' \<or> latched s')"

lemma accounts_refl [simp]: "accounts latched books s s"
  by (simp add: accounts_def)

lemma accounts_trans: "accounts latched books s s1 \<Longrightarrow> accounts latched books s1 s2 \<Longrightarrow> accounts latched books s s2"
  by (auto simp: accounts_def)

context stage
begin

lemma push_accounts: "st_push ops r s w = Some (fl, s', w') \<Longrightarrow> accounts latched books s s'"
  using push_latched push_books by (simp add: accounts_def)

lemma clone_ready:
  assumes "heap_ok (w_heap w) (own s + F)" "outbox_ok (w_heap w)" "sinv (w_heap w) s (w_queues w)" "a \<in># F"
  shows "heap_ok (w_heap (clone_ack a w)) ({#a#} + own s + F)" "outbox_ok (w_heap (clone_ack a w))"
    "heap_le (w_heap w) (w_heap (clone_ack a w))" "sinv (w_heap (clone_ack a w)) s (w_queues (clone_ack a w))"
proof -
  have a: "a \<in># own s + F" using assms(4) by simp
  show "heap_ok (w_heap (clone_ack a w)) ({#a#} + own s + F)" "outbox_ok (w_heap (clone_ack a w))"
    and le: "heap_le (w_heap w) (w_heap (clone_ack a w))"
    using heap_ok_clone [OF assms(1) a] outbox_ok_clone [OF assms(2,1) a] heap_le_clone [OF assms(1) a]
    by (simp_all add: clone_ack_def)
  show "sinv (w_heap (clone_ack a w)) s (w_queues (clone_ack a w))"
    using sinv_mono [OF assms(3) le] by (simp add: clone_ack_def)
qed

lemma emit_one:
  assumes "st_push ops r s (clone_ack (rec_ack r) w) = Some (fl, s', w')" and "rec_ack r \<in># F"
  shows "keeps own sent sinv {#} F s w s' w'"
proof -
  let ?a = "rec_ack r"
  {
    assume h: "heap_ok (w_heap w) (own s + F)" "outbox_ok (w_heap w)" "sinv (w_heap w) s (w_queues w)"
    note c = clone_ready [OF h assms(2)]
    obtain G where "sent (w_queues w') = sent (w_queues (clone_ack ?a w)) + G" "heap_ok (w_heap w') (own s' + G + F)"
        "outbox_ok (w_heap w')" "heap_le (w_heap (clone_ack ?a w)) (w_heap w')"
        "length (arena (w_heap w')) = length (arena (w_heap (clone_ack ?a w)))" "sinv (w_heap w') s' (w_queues w')"
      using keeps_D [OF push_keeps [OF assms(1)] c(1,2,4)] by blast
    then have "(\<exists>G. sent (w_queues w') = sent (w_queues w) + G \<and> heap_ok (w_heap w') (own s' + G + F)) \<and>
        outbox_ok (w_heap w') \<and> heap_le (w_heap w) (w_heap w') \<and>
        length (arena (w_heap w')) = length (arena (w_heap w)) \<and> sinv (w_heap w') s' (w_queues w')"
      using heap_le_trans [OF c(3)] by (simp add: clone_ack_def)
  }
  then show ?thesis by (simp add: keeps_def)
qed

lemma emit_run_keeps:
  "emit_run mk (st_push ops) a em n fl s w = Some (x, n', fl', s', w') \<Longrightarrow> a \<in># F \<Longrightarrow>
     keeps own sent sinv {#} F s w s' w' \<and> accounts latched books s s'"
proof (induction em arbitrary: n fl s w F)
  case (Emit p k)
  let ?r = "\<lparr>payload = fst (mk p), meta = snd (mk p), rec_ack = a\<rparr>"
  from Emit.prems(1) obtain fl1 s1 w1
    where p: "st_push ops ?r s (clone_ack a w) = Some (fl1, s1, w1)"
      and r: "emit_run mk (st_push ops) a (k fl1) (n + 1) (latch_flow fl fl1) s1 w1 = Some (x, n', fl', s', w')"
    by (auto split: option.splits)
  have "keeps own sent sinv {#} F s w s1 w1" by (rule emit_one [of ?r]) (use p Emit.prems(2) in simp_all)
  moreover have rest: "keeps own sent sinv {#} (G + F) s1 w1 s' w' \<and> accounts latched books s1 s'" for G
    by (rule Emit.IH [OF _ r]) (use Emit.prems(2) in simp_all)
  ultimately show ?case
    using keeps_trans [of own sent sinv "{#}" F s w s1 w1 s' w'] accounts_trans [OF push_accounts [OF p]] by blast
qed (auto intro: keeps_same)

lemma emit_run_total:
  "heap_ok (w_heap w) (own s + F) \<Longrightarrow> outbox_ok (w_heap w) \<Longrightarrow> sinv (w_heap w) s (w_queues w) \<Longrightarrow> a \<in># F \<Longrightarrow>
     emit_run mk (st_push ops) a em n fl s w \<noteq> None"
proof (induction em arbitrary: n fl s w F)
  case (Emit p k)
  let ?r = "\<lparr>payload = fst (mk p), meta = snd (mk p), rec_ack = a\<rparr>"
  note c = clone_ready [OF Emit.prems]
  obtain fl1 s1 w1 where p: "st_push ops ?r s (clone_ack a w) = Some (fl1, s1, w1)"
    using push_total [of "clone_ack a w" ?r s F] c by auto
  have "keeps own sent sinv {#} F s w s1 w1" by (rule emit_one [of ?r]) (use p Emit.prems in simp_all)
  from keeps_D [OF this _ Emit.prems(2,3)] Emit.prems(1) obtain G
    where "heap_ok (w_heap w1) (own s1 + (G + F))" "outbox_ok (w_heap w1)" "sinv (w_heap w1) s1 (w_queues w1)"
    by (auto simp: ac_simps)
  from Emit.IH [OF _ this] Emit.prems(4) p show ?case by simp
qed simp

end

section \<open>Every combinator keeps the contract\<close>

lemma into_Some: "into put x = Some (fl, s', w') \<longleftrightarrow> (\<exists>n. x = Some (fl, n, w') \<and> s' = put n)"
  by (cases x) (auto simp: into_def)

lemma into_None [simp]: "into put x = None \<longleftrightarrow> x = None"
  by (simp add: into_def)

text \<open>A stage that owns what its next stage owns lifts the next stage's operations.\<close>

lemma keeps_lift:
  "keeps own sent sinv g F (get s) w (get s') w' \<Longrightarrow>
     keeps (\<lambda>s. own (get s)) sent (\<lambda>hp s. sinv hp (get s)) g F s w s' w'"
  by (simp add: keeps_def)

text \<open>
  The cascade once and for all. A combinator keeps its next stage in \<open>get s\<close>, passes relieve,
  flush, fatal and batch end on to it, and may have a fatal slot (\<open>lt\<close>: it is full) and a meter
  (\<open>bk\<close>: it balances) of its own. It is a stage as soon as its \<open>push\<close> behaves.
\<close>

context stage
begin

lemma wrap:
  fixes ops' :: "('u, 'v, 'q) stage_ops"
  assumes get_put: "\<And>n s. get (put n s) = n" "\<And>n s. bk (put n s) = bk s" "\<And>n s. lt (put n s) = lt s"
    and relieve': "\<And>s w. st_relieve ops' s w = into (\<lambda>n. put n s) (st_relieve ops (get s) w)"
    and flush': "\<And>s w. st_flush_terminal ops' s w = into (\<lambda>n. put n s) (st_flush_terminal ops (get s) w)"
    and fatal': "\<And>s x s'. st_take_fatal ops' s = (x, s') \<Longrightarrow>
      \<exists>y. st_take_fatal ops (get s) = (y, get s') \<and> (x = None \<longleftrightarrow> y = None \<and> \<not> lt s) \<and> \<not> lt s' \<and> bk s' = bk s"
    and end': "\<And>s. get (st_on_batch_end ops' s) = st_on_batch_end ops (get s) \<and> lt (st_on_batch_end ops' s) = lt s \<and>
      (bk s \<longrightarrow> bk (st_on_batch_end ops' s))"
    and push': "\<And>r s w F. heap_ok (w_heap w) ({#rec_ack r#} + own (get s) + F) \<Longrightarrow> outbox_ok (w_heap w) \<Longrightarrow>
        sinv (w_heap w) (get s) (w_queues w) \<Longrightarrow> st_push ops' r s w \<noteq> None"
      "\<And>r s w fl s' w' F. st_push ops' r s w = Some (fl, s', w') \<Longrightarrow> keeps own sent sinv {#rec_ack r#} F (get s) w (get s') w'"
      "\<And>r s w fl s' w'. st_push ops' r s w = Some (fl, s', w') \<Longrightarrow>
        accounts (\<lambda>s. lt s \<or> latched (get s)) (\<lambda>s. bk s \<and> books (get s)) s s'"
  shows "stage ops' (\<lambda>s. own (get s)) sent (\<lambda>hp s. sinv hp (get s)) (\<lambda>s. lt s \<or> latched (get s))
    (\<lambda>s. bk s \<and> books (get s))"
proof (unfold_locales, goal_cases)
  case (1 hp s q hp') then show ?case by (rule sinv_mono)
next
  case (2 w r s F) then show ?case by (rule push'(1))
next
  case (3 r s w fl s' w' F)
  show ?case by (rule keeps_lift [where get = get, OF push'(2) [OF 3]])
next
  case (4 r s w fl s' w') then show ?case using push'(3) [of r s w fl s' w'] unfolding accounts_def by blast
next
  case (5 r s w fl s' w') then show ?case using push'(3) [of r s w fl s' w'] unfolding accounts_def by blast
next
  case (6 hp s w) then show ?case using relieve_total by (simp add: relieve')
next
  case (7 s w fl s' w' F)
  then have "st_relieve ops (get s) w = Some (fl, get s', w')" by (auto simp: relieve' into_Some get_put)
  from keeps_lift [where get = get, OF relieve_keeps [OF this]] show ?case .
next
  case (8 hp s w fl s' w')
  then obtain n where "st_relieve ops (get s) w = Some (fl, n, w')" "s' = put n s" by (auto simp: relieve' into_Some)
  with relieve_same [OF 8(1)] show ?case by (simp add: get_put)
next
  case (9 hp s w) then show ?case using flush_total by (simp add: flush')
next
  case (10 s w fl s' w' F)
  then have "st_flush_terminal ops (get s) w = Some (fl, get s', w')" by (auto simp: flush' into_Some get_put)
  from keeps_lift [where get = get, OF flush_keeps [OF this]] show ?case .
next
  case (11 s w fl s' w')
  then show ?case using flush_books by (auto simp: flush' into_Some get_put)
next
  case (12 s x s')
  from fatal' [OF this] obtain y where y: "st_take_fatal ops (get s) = (y, get s')"
    "x = None \<longleftrightarrow> y = None \<and> \<not> lt s" "\<not> lt s'" "bk s' = bk s" by blast
  with fatal_same [OF y(1)] show ?case by auto
next
  case (13 s)
  then show ?case using end' [of s] end_same [of "get s"] by simp
qed

lemma map_is_stage:
  "stage (map_stage f ops) (\<lambda>s. own (mp_next s)) sent (\<lambda>hp s. sinv hp (mp_next s)) (\<lambda>s. False \<or> latched (mp_next s))
     (\<lambda>s. balanced (mp_meter s) \<and> books (mp_next s))"
proof (rule wrap [where put = "\<lambda>n s. s\<lparr>mp_next := n\<rparr>"], goal_cases)
  case (8 r s w F)
  then show ?case
    using push_total [of w "record_map (\<lambda>_. fst (f (payload r) (mp_f s))) r" "mp_next s" F]
    by (auto simp: map_stage_def map_push_def record_map_def into_def split: prod.splits)
next
  case (9 r s w fl s' w' F)
  then obtain g where "st_push ops (record_map g r) (mp_next s) w = Some (fl, mp_next s', w')"
    by (auto simp: map_stage_def map_push_def into_Some split: prod.splits)
  from push_keeps [OF this] show ?case by (simp add: record_map_def)
next
  case (10 r s w fl s' w')
  then obtain g where "st_push ops (record_map g r) (mp_next s) w = Some (fl, mp_next s', w')"
      "mp_meter s' = meter_out (meter_seen (mp_meter s))"
    by (auto simp: map_stage_def map_push_def into_Some split: prod.splits)
  with push_accounts [OF this(1)] show ?case by (auto simp: accounts_def balanced_out)
qed (auto simp: map_stage_def balanced_flush split: prod.splits)

lemma filter_is_stage:
  "stage (filter_stage p ops) (\<lambda>s. own (fi_next s)) sent (\<lambda>hp s. sinv hp (fi_next s)) (\<lambda>s. False \<or> latched (fi_next s))
     (\<lambda>s. balanced (fi_meter s) \<and> books (fi_next s))"
proof (rule wrap [where put = "\<lambda>n s. s\<lparr>fi_next := n\<rparr>"], goal_cases)
  case (8 r s w F)
  then show ?case using push_total [OF 8] by (auto simp: filter_stage_def filter_push_def into_def Let_def split: prod.splits)
next
  case (9 r s w fl s' w' F)
  then consider "st_push ops r (fi_next s) w = Some (fl, fi_next s', w')"
    | "fi_next s' = fi_next s" "w' = drop_rec r w"
    by (auto simp: filter_stage_def filter_push_def into_Some Let_def split: prod.splits if_splits)
  then show ?case using push_keeps keeps_drop_rec [of sinv own "fi_next s'" "fi_next s"] sinv_mono by cases auto
next
  case (10 r s w fl s' w')
  then consider "st_push ops r (fi_next s) w = Some (fl, fi_next s', w')" "fi_meter s' = meter_out (meter_seen (fi_meter s))"
    | "fi_next s' = fi_next s" "fi_meter s' = meter_filtered (meter_seen (fi_meter s))"
    by (auto simp: filter_stage_def filter_push_def into_Some Let_def split: prod.splits if_splits)
  then show ?case
    using push_accounts [of r "fi_next s" w fl "fi_next s'" w']
    by cases (auto simp: accounts_def balanced_out balanced_filtered)
qed (auto simp: filter_stage_def balanced_flush split: prod.splits)

lemma inspect_is_stage:
  "stage (inspect_stage f ops) (\<lambda>s. own (in_next s)) sent (\<lambda>hp s. sinv hp (in_next s)) (\<lambda>s. False \<or> latched (in_next s))
     (\<lambda>s. True \<and> books (in_next s))"
proof (rule wrap [where put = "\<lambda>n s. s\<lparr>in_next := n\<rparr>"], goal_cases)
  case (8 r s w F)
  then show ?case using push_total [OF 8] by (auto simp: inspect_stage_def inspect_push_def into_def Let_def)
next
  case (9 r s w fl s' w' F)
  then have "st_push ops r (in_next s) w = Some (fl, in_next s', w')"
    by (auto simp: inspect_stage_def inspect_push_def into_Some Let_def)
  then show ?case by (rule push_keeps)
next
  case (10 r s w fl s' w')
  then have "st_push ops r (in_next s) w = Some (fl, in_next s', w')"
    by (auto simp: inspect_stage_def inspect_push_def into_Some Let_def)
  from push_accounts [OF this] show ?case by (simp add: accounts_def)
qed (auto simp: inspect_stage_def split: prod.splits)

lemma try_map_push_cases:
  assumes "try_map_push f ops r s w = Some (fl, s', w')"
  obtains g where "st_push ops (record_map g r) (tm_next s) w = Some (fl, tm_next s', w')" "tm_fatal s = None"
      "tm_fatal s' = None" "tm_meter s' = meter_out (meter_seen (tm_meter s))"
  | "tm_next s' = tm_next s" "w' = drop_rec r w" "tm_fatal s' \<noteq> None"
  | "tm_next s' = tm_next s" "w' = drop_rec r w" "tm_fatal s = None" "tm_fatal s' = None"
      "tm_meter s' = meter_record_error (meter_skipped (meter_seen (tm_meter s)))"
proof (cases "tm_fatal s")
  case (Some x)
  with assms show thesis by (intro that(2)) (auto simp: try_map_push_def Let_def)
next
  case None
  obtain res g where f: "f (payload r) (tm_f s) = (res, g)" by (cases "f (payload r) (tm_f s)")
  show thesis
  proof (cases res)
    case (Inr out)
    with assms None f show thesis
      by (intro that(1) [of "\<lambda>_. out"]) (auto simp: try_map_push_def Let_def into_Some)
  next
    case (Inl e)
    with assms None f show thesis
      by (cases "tm_policy s"; intro that(2) that(3))
        (auto simp: try_map_push_def Let_def try_map_failed_def)
  qed
qed

lemma try_map_is_stage:
  "stage (try_map_stage f ops) (\<lambda>s. own (tm_next s)) sent (\<lambda>hp s. sinv hp (tm_next s))
     (\<lambda>s. tm_fatal s \<noteq> None \<or> latched (tm_next s)) (\<lambda>s. balanced (tm_meter s) \<and> books (tm_next s))"
proof (rule wrap [where put = "\<lambda>n s. s\<lparr>tm_next := n\<rparr>"], goal_cases)
  case (8 r s w F)
  have "st_push ops (record_map (\<lambda>_. y) r) (tm_next s) w \<noteq> None" for y
    by (rule push_total [where F = F]) (use 8 in \<open>simp_all add: record_map_def\<close>)
  then show ?case
    by (cases "f (payload r) (tm_f s)"; cases "fst (f (payload r) (tm_f s))")
      (simp_all add: try_map_stage_def try_map_push_def Let_def del: not_None_eq)
next
  case (9 r s w fl s' w' F)
  then have "try_map_push f ops r s w = Some (fl, s', w')" by (simp add: try_map_stage_def)
  then show ?case
  proof (cases rule: try_map_push_cases)
    case (1 g)
    from push_keeps [OF 1(1)] show ?thesis by (simp add: record_map_def)
  qed (use keeps_drop_rec [of sinv own "tm_next s'" "tm_next s"] sinv_mono in auto)
next
  case (10 r s w fl s' w')
  then have "try_map_push f ops r s w = Some (fl, s', w')" by (simp add: try_map_stage_def)
  then show ?case
  proof (cases rule: try_map_push_cases)
    case (1 g)
    from push_accounts [OF 1(1)] 1 show ?thesis by (auto simp: accounts_def balanced_out)
  qed (auto simp: accounts_def balanced_skipped)
qed (auto simp: try_map_stage_def try_map_take_fatal_def balanced_flush Let_def split: prod.splits option.splits)

lemma flat_map_is_stage:
  "stage (flat_map_stage f ops) (\<lambda>s. own (fm_next s)) sent (\<lambda>hp s. sinv hp (fm_next s))
     (\<lambda>s. False \<or> latched (fm_next s)) (\<lambda>s. True \<and> books (fm_next s))"
proof (rule wrap [where put = "\<lambda>n s. s\<lparr>fm_next := n\<rparr>"], goal_cases)
  case (8 r s w F)
  have "emit_run (\<lambda>p. (p, meta r)) (st_push ops) (rec_ack r) (f (payload r) (fm_g s)) 0 Continue (fm_next s) w \<noteq> None"
    by (rule emit_run_total [where F = "add_mset (rec_ack r) F"]) (use 8 in simp_all)
  then show ?case by (auto simp: flat_map_stage_def flat_map_push_def emitter_run_def)
next
  case (9 r s w fl s' w' F)
  then obtain g n w1 where e: "emit_run (\<lambda>p. (p, meta r)) (st_push ops) (rec_ack r) (f (payload r) (fm_g s)) 0 Continue (fm_next s) w
      = Some (g, n, fl, fm_next s', w1)" and w': "w' = drop_rec r w1"
    by (auto simp: flat_map_stage_def flat_map_push_def emitter_run_def split: option.splits)
  have k: "keeps own sent sinv {#} (add_mset (rec_ack r) F) (fm_next s) w (fm_next s') w1"
    using emit_run_keeps [OF e, of "add_mset (rec_ack r) F"] by simp
  have "keeps own sent sinv {#rec_ack r#} F (fm_next s') w1 (fm_next s') w'" for F
    unfolding w' by (rule keeps_drop_rec) (use sinv_mono in auto)
  from keeps_move [OF _ this, of F] k show ?case by simp
next
  case (10 r s w fl s' w')
  then obtain g n w1 where "emit_run (\<lambda>p. (p, meta r)) (st_push ops) (rec_ack r) (f (payload r) (fm_g s)) 0 Continue (fm_next s) w
      = Some (g, n, fl, fm_next s', w1)"
    by (auto simp: flat_map_stage_def flat_map_push_def emitter_run_def split: option.splits)
  from emit_run_keeps [OF this, of "{#rec_ack r#}"] show ?case by (simp add: accounts_def)
qed (auto simp: flat_map_stage_def split: prod.splits)

end

section \<open>The terminal stage keeps the contract\<close>

definition handoff_sent :: "('c, 'f) shard_queues \<Rightarrow> ack_ref multiset" where
  "handoff_sent q = acks_in (num_shards q) (sent_on q)"

definition handoff_sinv :: "ack_heap \<Rightarrow> ('e, 'k) sink_handoff \<Rightarrow> ('c, 'f) shard_queues \<Rightarrow> bool" where
  "handoff_sinv hp h q \<longleftrightarrow> handoff_inv hp h (sent_on q) \<and> num_shards q = length (ho_shards h) \<and> 0 < num_shards q"

definition handoff_latched :: "('e, 'k) sink_handoff \<Rightarrow> bool" where
  "handoff_latched h \<longleftrightarrow> ho_fatal h \<noteq> None"

definition handoff_books :: "('e, 'k) sink_handoff \<Rightarrow> bool" where
  "handoff_books h \<longleftrightarrow> balanced (ho_meter h)"

lemma balanced_fatal [simp]: "balanced (meter_fatal_error m) = balanced m"
  by (auto simp: balanced_def total_in_def total_out_def total_dropped_def meter_fatal_error_def split: option.splits)

lemma seal_meter:
  assumes "seal_and_send env i h w = Some (h', w')"
  shows "balanced (ho_meter h') = balanced (ho_meter h)" and "ho_fatal h \<noteq> None \<longrightarrow> ho_fatal h' \<noteq> None"
  using assms
  by (cases rule: seal_and_send_cases,
      auto simp: trip_def fatal_latch_def seal_send_def Let_def split: option.splits prod.splits bool.splits if_splits)+

lemma seal_all_meter:
  "seal_all env is h w = Some (h', w') \<Longrightarrow> balanced (ho_meter h') = balanced (ho_meter h)"
proof (induction "is" arbitrary: h w)
  case (Cons i "is")
  from Cons.prems obtain h1 w1 where "seal_and_send env i h w = Some (h1, w1)" "seal_all env is h1 w1 = Some (h', w')"
    by (auto split: option.splits)
  with Cons.IH seal_meter(1) show ?case by metis
qed simp

lemma drain_loop_meter:
  "drain_loop env ps h w = Some (ok, h', w') \<Longrightarrow> ho_meter h' = ho_meter h \<and> ho_fatal h' = ho_fatal h"
proof (induction ps arbitrary: h w)
  case (Cons p ps)
  obtain i c where "p = (i, c)" by (cases p)
  with Cons show ?case
    by (fastforce simp: unpark_def split: option.splits prod.splits bool.splits if_splits)
qed auto

lemma handoff_push_accounts:
  assumes "handoff_push env r h w = Some (fl, h', w')"
  shows "accounts handoff_latched handoff_books h h'"
proof (cases "ho_fatal h = None")
  case False
  with assms show ?thesis by (auto simp: handoff_push_def Let_def accounts_def handoff_latched_def)
next
  case True
  let ?h = "h\<lparr>ho_meter := meter_seen (ho_meter h)\<rparr>"
  from True assms obtain w2 where "push_live env r ?h w = Some (h', w2)"
    by (auto simp: handoff_push_def Let_def split: option.splits)
  then have "handoff_books h \<longrightarrow> handoff_books h' \<or> handoff_latched h'"
  proof (cases rule: push_live_cases)
    case (failed i x e buf)
    then show ?thesis
      by (auto simp: push_failed_def trip_def fatal_latch_def handoff_books_def handoff_latched_def balanced_skipped
          split: option.splits)
  next
    case (encoded i e buf b2 hp h1)
    have "handoff_books h \<longrightarrow> balanced (ho_meter h1)" by (simp add: encoded(5) handoff_books_def balanced_out)
    moreover have "balanced (ho_meter h') = balanced (ho_meter h1)"
      using encoded(6) seal_meter(1) [of env i h1 "w\<lparr>w_heap := hp\<rparr>" h' w2] by auto
    ultimately show ?thesis by (simp add: handoff_books_def)
  qed
  with True show ?thesis by (simp add: accounts_def handoff_latched_def)
qed

lemma handoff_step_keeps:
  assumes t: "he_try_send env = try_send api" and s: "handoff_step env op h w = Some (h', w')"
  shows "keeps held handoff_sent handoff_sinv (given op) F h w h' w'"
proof -
  {
    assume h: "heap_ok (w_heap w) (given op + held h + F)" "outbox_ok (w_heap w)" "handoff_sinv (w_heap w) h (w_queues w)"
    have inv: "handoff_inv (w_heap w) h (sent_on (w_queues w))" "num_shards (w_queues w) = length (ho_shards h)"
      using h(3) by (simp_all add: handoff_sinv_def)
    note ok = sq.step_ok [OF t s h(1,2) inv(1)]
    have n: "num_shards (w_queues w') = num_shards (w_queues w)"
      by (rule sq.step_frame [OF t _ s]) (use inv(1) in \<open>simp add: handoff_inv_def\<close>)
    have "length (ho_shards h') = length (ho_shards h)" using ok by (simp add: grown_def Let_def)
    with ok h inv n have "(\<exists>G. handoff_sent (w_queues w') = handoff_sent (w_queues w) + G \<and> heap_ok (w_heap w') (held h' + G + F)) \<and>
        outbox_ok (w_heap w') \<and> heap_le (w_heap w) (w_heap w') \<and>
        length (arena (w_heap w')) = length (arena (w_heap w)) \<and> handoff_sinv (w_heap w') h' (w_queues w')"
      by (simp add: owned_ok_def handoff_sent_def handoff_sinv_def)
  }
  then show ?thesis by (simp add: keeps_def)
qed

lemma handoff_is_stage:
  fixes env :: "('t, 'e, 'k, ('c, 'f) shard_queues) handoff_env"
  assumes t: "he_try_send env = try_send api" and r: "\<And>r n. 0 < n \<Longrightarrow> he_route_record env r n < n"
  shows "stage (handoff_stage env) held handoff_sent handoff_sinv handoff_latched handoff_books"
proof -
  have total: "handoff_step env op h w \<noteq> None" if "handoff_sinv hp h (w_queues w)" for op hp h w
    by (rule sq_step_total [OF t]) (use that r in \<open>auto simp: handoff_sinv_def handoff_inv_def\<close>)
  have kp: "keeps held handoff_sent handoff_sinv {#rec_ack r#} F h w h' w'"
    if "handoff_push env r h w = Some (fl, h', w')" for r h w fl h' w' F
    using handoff_step_keeps [OF t, of "HoPush r" h w h' w' F] that by simp
  have kr: "keeps held handoff_sent handoff_sinv {#} F h w h' w'"
    if "handoff_relieve env h w = Some (fl, h', w')" for h w fl h' w' F
    using handoff_step_keeps [OF t, of "HoRelieve" h w h' w' F] that by simp
  have kf: "keeps held handoff_sent handoff_sinv {#} F h w h' w'"
    if "handoff_flush_terminal env h w = Some (fl, h', w')" for h w fl h' w' F
    using handoff_step_keeps [OF t, of "HoFlush" h w h' w' F] that by simp
  show ?thesis
  proof (unfold_locales, goal_cases)
    case (1 hp s q hp') then show ?case using handoff_inv_mono by (auto simp: handoff_sinv_def)
  next
    case (2 w r s F) then show ?case using total [of "w_heap w" s w "HoPush r"] by (simp add: handoff_stage_def del: not_None_eq)
  next
    case (3 r s w fl s' w' F) then show ?case by (simp add: handoff_stage_def kp)
  next
    case (4 r s w fl s' w') then show ?case using handoff_push_accounts [of env r s w fl s' w'] by (simp add: accounts_def handoff_stage_def)
  next
    case (5 r s w fl s' w') then show ?case using handoff_push_accounts [of env r s w fl s' w'] by (simp add: accounts_def handoff_stage_def)
  next
    case (6 hp s w) then show ?case using total [of hp s w HoRelieve] by (simp add: handoff_stage_def del: not_None_eq)
  next
    case (7 s w fl s' w' F) then show ?case by (simp add: handoff_stage_def kr)
  next
    case (8 hp s w fl s' w')
    then show ?case
      by (auto simp: handoff_stage_def handoff_relieve_def drain_parked_def handoff_latched_def handoff_books_def
          dest: drain_loop_meter split: if_splits)
  next
    case (9 hp s w) then show ?case using total [of hp s w HoFlush] by (simp add: handoff_stage_def del: not_None_eq)
  next
    case (10 s w fl s' w' F) then show ?case by (simp add: handoff_stage_def kf)
  next
    case (11 s w fl s' w')
    then obtain h1 w1 ok where "seal_all env [0..<length (ho_shards s)] s w = Some (h1, w1)"
        "drain_loop env (ho_parked h1) h1 w1 = Some (ok, s', w')"
      by (auto simp: handoff_stage_def handoff_flush_terminal_def drain_parked_def split: option.splits)
    from seal_all_meter [OF this(1)] drain_loop_meter [OF this(2)] 11(2) show ?case by (simp add: handoff_books_def)
  qed (auto simp: handoff_sinv_def handoff_stage_def handoff_take_fatal_def handoff_on_batch_end_def
      held_def handoff_inv_def handoff_latched_def handoff_books_def balanced_flush)
qed

section \<open>Pushing a payload and a batch\<close>

text \<open>The state of a chain's stages between two payloads: books in order, nothing latched.\<close>

definition step_books :: "('s \<Rightarrow> bool) \<Rightarrow> ('s \<Rightarrow> bool) \<Rightarrow> chain_step \<Rightarrow> 's \<Rightarrow> bool" where
  "step_books latched books st s \<longleftrightarrow> (\<exists>f. st = StepFatal f) \<or> (st \<noteq> StepNotReady \<and> books s \<and> \<not> latched s)"

context stage
begin

lemma take_fatal_keeps: "st_take_fatal ops s = (x, s') \<Longrightarrow> keeps own sent sinv {#} F s w s' w"
  using fatal_same by (intro keeps_same) auto

lemma deser_finish_ok:
  assumes "deser_finish ops fl s w = Some (st, s', w')"
  shows "keeps own sent sinv {#} F s w s' w'"
    and "sinv (w_heap w) s (w_queues w) \<Longrightarrow> books s \<or> latched s \<Longrightarrow> step_books latched books st s'"
proof -
  obtain x s1 where x: "st_take_fatal ops s = (x, s1)" by fastforce
  note f = fatal_same [OF x]
  have "keeps own sent sinv {#} F s w s' w' \<and>
      (sinv (w_heap w) s (w_queues w) \<longrightarrow> books s \<or> latched s \<longrightarrow> step_books latched books st s')"
  proof (cases "x = None \<and> fl \<noteq> Blocked")
    case True
    then obtain fl' where r: "st_relieve ops s1 w = Some (fl', s', w')" and st: "st = (if fl' = Blocked then StepBackpressure else StepContinue)"
      using assms x by (auto simp: deser_finish_def split: option.splits)
    have "keeps own sent sinv {#} F s w s' w'"
      by (rule keeps_trans [OF take_fatal_keeps [OF x] relieve_keeps [OF r]])
    moreover have "step_books latched books st s'" if "sinv (w_heap w) s (w_queues w)" "books s \<or> latched s"
    proof -
      have "sinv (w_heap w) s1 (w_queues w)" using f that(1) by blast
      from relieve_same [OF this r] f that(2) True st show ?thesis by (auto simp: step_books_def)
    qed
    ultimately show ?thesis by blast
  next
    case False
    then have "s' = s1" "w' = w" "(\<exists>g. st = StepFatal g) \<or> st = StepBackpressure \<and> x = None"
      using assms x by (auto simp: deser_finish_def split: option.splits)
    with take_fatal_keeps [OF x] f show ?thesis by (auto simp: step_books_def)
  qed
  then show "keeps own sent sinv {#} F s w s' w'"
    and "sinv (w_heap w) s (w_queues w) \<Longrightarrow> books s \<or> latched s \<Longrightarrow> step_books latched books st s'" by blast+
qed

lemma fatal_or_ok:
  "fatal_or ops reason s = (st, s') \<Longrightarrow> keeps own sent sinv {#} F s w s' w \<and> (\<exists>f. st = StepFatal f)"
  by (auto simp: fatal_or_def Let_def intro: take_fatal_keeps split: prod.splits)

lemma deser_result_ok:
  assumes "deser_result ops policy res pc fl s w = Some (st, pc', s', w')"
  shows "keeps own sent sinv {#} F s w s' w'"
    and "sinv (w_heap w) s (w_queues w) \<Longrightarrow> books s \<or> latched s \<Longrightarrow>
      step_books latched books st s' \<or> (st = StepNotReady \<and> s' = s \<and> w' = w \<and> (\<exists>m. res = Some (NotReady m)))"
proof -
  consider (wait) m where "res = Some (NotReady m)" "st = StepNotReady" "s' = s" "w' = w"
    | (dead) reason where "fatal_or ops reason s = (st, s')" "w' = w"
    | (ended) "deser_finish ops fl s w = Some (st, s', w')"
    using assms by (auto simp: deser_result_def Let_def split: option.splits deser_error.splits if_splits prod.splits)
  then have "keeps own sent sinv {#} F s w s' w' \<and>
    (sinv (w_heap w) s (w_queues w) \<longrightarrow> books s \<or> latched s \<longrightarrow>
      step_books latched books st s' \<or> (st = StepNotReady \<and> s' = s \<and> w' = w \<and> (\<exists>m. res = Some (NotReady m))))"
  proof cases
    case wait then show ?thesis by (auto intro: keeps_same)
  next
    case (dead reason) then show ?thesis using fatal_or_ok [OF dead(1)] by (auto simp: step_books_def)
  next
    case ended then show ?thesis using deser_finish_ok by blast
  qed
  then show "keeps own sent sinv {#} F s w s' w'"
    and "sinv (w_heap w) s (w_queues w) \<Longrightarrow> books s \<or> latched s \<Longrightarrow>
      step_books latched books st s' \<or> (st = StepNotReady \<and> s' = s \<and> w' = w \<and> (\<exists>m. res = Some (NotReady m)))"
    by blast+
qed

end

text \<open>
  The deserializer's contract on \<open>NotReady\<close>: it is returned before anything is emitted. After
  the first emission, whatever the answers, the run ends some other way.
\<close>

primrec quiet :: "('o, deser_error option \<times> 'd) emits \<Rightarrow> bool" where
  "quiet (Return x) = (\<forall>m. fst x \<noteq> Some (NotReady m))"
| "quiet (Emit p k) = (\<forall>fl. quiet (k fl))"

definition not_ready_first :: "('d, 't) deserializer \<Rightarrow> bool" where
  "not_ready_first deserialize \<longleftrightarrow> (\<forall>d raw p k fl. deserialize d raw = Emit p k \<longrightarrow> quiet (k fl))"

lemma quiet_emit_run:
  "quiet em \<Longrightarrow> emit_run mk push a em n fl s w = Some ((res, d), n', fl', s', w') \<Longrightarrow> res \<noteq> Some (NotReady m)"
proof (induction em arbitrary: n fl s w)
  case (Emit p k)
  from Emit.prems(2) obtain fl1 s1 w1
    where "emit_run mk push a (k fl1) (n + 1) (latch_flow fl fl1) s1 w1 = Some ((res, d), n', fl', s', w')"
    by (auto split: option.splits)
  with Emit.IH [of "k fl1"] Emit.prems(1) show ?case by simp
qed auto

lemma not_ready_untouched:
  assumes "not_ready_first deserialize"
    and "ops_emit_run push a (deserialize d raw) s w = Some ((Some (NotReady m), d'), n, fl, s', w')"
  shows "s' = s \<and> w' = w"
proof (cases "deserialize d raw")
  case (Return x) with assms(2) show ?thesis by (simp add: ops_emit_run_def)
next
  case (Emit p k)
  then obtain fl1 s1 w1 where e: "emit_run id push a (k fl1) 1 (latch_flow Continue fl1) s1 w1 = Some ((Some (NotReady m), d'), n, fl, s', w')"
    using assms(2) by (auto simp: ops_emit_run_def split: option.splits)
  have "quiet (k fl1)" using assms(1) Emit unfolding not_ready_first_def by blast
  from quiet_emit_run [OF this e, of m] show ?thesis by simp
qed

text \<open>Everything in place for an operation on a stage: ownership, the channel and the invariant.\<close>

definition ready ::
  "('s \<Rightarrow> ack_ref multiset) \<Rightarrow> (ack_heap \<Rightarrow> 's \<Rightarrow> 'q \<Rightarrow> bool) \<Rightarrow> ack_ref multiset \<Rightarrow> 's \<Rightarrow> 'q world \<Rightarrow> bool" where
  "ready own sinv F s w \<longleftrightarrow>
     heap_ok (w_heap w) (own s + F) \<and> outbox_ok (w_heap w) \<and> sinv (w_heap w) s (w_queues w)"

lemma keeps_ready:
  assumes "keeps own sent sinv {#} F s w s' w'" and "ready own sinv F s w"
  obtains G where "ready own sinv (G + F) s' w'" "sent (w_queues w') = sent (w_queues w) + G"
proof -
  from assms(2) have "heap_ok (w_heap w) ({#} + own s + F)" "outbox_ok (w_heap w)" "sinv (w_heap w) s (w_queues w)"
    by (simp_all add: ready_def)
  from keeps_D [OF assms(1) this] that show thesis unfolding ready_def by (metis add.assoc)
qed

context stage
begin

lemma deser_step_keeps:
  assumes "deser_step deserialize ops raw a pc c w = Some (st, pc', c', w')" and "a \<in># F"
  shows "keeps own sent sinv {#} F (tc_ops c) w (tc_ops c') w'"
proof -
  from assms(1) obtain res d n fl s1 w1 pc1
    where e: "ops_emit_run (st_push ops) a (deserialize (tc_deser c) raw) (tc_ops c) w = Some ((res, d), n, fl, s1, w1)"
      and r: "deser_result ops (tc_policy c) res pc1 fl s1 w1 = Some (st, pc', tc_ops c', w')"
    by (auto simp: deser_step_def split: option.splits)
  show ?thesis
    by (rule keeps_trans [OF _ deser_result_ok(1) [OF r]])
      (use emit_run_keeps [OF e [unfolded ops_emit_run_def] assms(2)] in blast)
qed

lemma deser_step_books:
  assumes "deser_step deserialize ops raw a pc c w = Some (st, pc', c', w')" and a: "a \<in># F"
    and q: "not_ready_first deserialize" and r: "ready own sinv F (tc_ops c) w"
    and b: "books (tc_ops c)" "\<not> latched (tc_ops c)"
  shows "(\<exists>f. st = StepFatal f) \<or> books (tc_ops c') \<and> \<not> latched (tc_ops c')"
proof -
  from assms(1) obtain res d n fl s1 w1 pc1
    where e: "ops_emit_run (st_push ops) a (deserialize (tc_deser c) raw) (tc_ops c) w = Some ((res, d), n, fl, s1, w1)"
      and d: "deser_result ops (tc_policy c) res pc1 fl s1 w1 = Some (st, pc', tc_ops c', w')"
    by (auto simp: deser_step_def split: option.splits)
  note em = emit_run_keeps [OF e [unfolded ops_emit_run_def] a]
  obtain G where "ready own sinv (G + F) s1 w1" by (rule keeps_ready [OF conjunct1 [OF em] r])
  then have "sinv (w_heap w1) s1 (w_queues w1)" by (simp add: ready_def)
  moreover have "books s1 \<or> latched s1" using em b(1) by (simp add: accounts_def)
  ultimately consider "step_books latched books st (tc_ops c')"
    | m where "st = StepNotReady" "tc_ops c' = s1" "res = Some (NotReady m)"
    using deser_result_ok(2) [OF d] by blast
  then show ?thesis
  proof cases
    case 1 then show ?thesis by (auto simp: step_books_def)
  next
    case (2 m)
    with not_ready_untouched [OF q, of "st_push ops" a "tc_deser c" raw "tc_ops c" w m d n fl s1 w1] e b
    show ?thesis by simp
  qed
qed

lemma deser_step_total:
  assumes "ready own sinv F (tc_ops c) w" and "a \<in># F"
  shows "deser_step deserialize ops raw a pc c w \<noteq> None"
proof -
  have "ops_emit_run (st_push ops) a (deserialize (tc_deser c) raw) (tc_ops c) w \<noteq> None"
    unfolding ops_emit_run_def
    by (rule emit_run_total [where F = F]) (use assms in \<open>simp_all add: ready_def\<close>)
  then obtain res d n fl s1 w1
    where e: "ops_emit_run (st_push ops) a (deserialize (tc_deser c) raw) (tc_ops c) w = Some ((res, d), n, fl, s1, w1)"
    by (auto simp: not_None_eq)
  have "keeps own sent sinv {#} F (tc_ops c) w s1 w1" using emit_run_keeps [OF e [unfolded ops_emit_run_def] assms(2)] by blast
  then obtain G where g: "ready own sinv (G + F) s1 w1" by (rule keeps_ready [OF _ assms(1)])
  have "deser_finish ops fl s1 w1 \<noteq> None"
  proof -
    obtain x s2 where x: "st_take_fatal ops s1 = (x, s2)" by fastforce
    have "sinv (w_heap w1) s2 (w_queues w1)" using fatal_same [OF x] g by (simp add: ready_def)
    from relieve_total [OF this] x show ?thesis by (auto simp: deser_finish_def split: option.splits)
  qed
  then have "deser_result ops (tc_policy c) res (pc\<lparr>pc_ok := pc_ok pc + n\<rparr>) fl s1 w1 \<noteq> None"
    by (auto simp: deser_result_def Let_def split: option.splits deser_error.splits prod.splits)
  then obtain r where "deser_result ops (tc_policy c) res (pc\<lparr>pc_ok := pc_ok pc + n\<rparr>) fl s1 w1 = Some r"
    by (auto simp: not_None_eq)
  with e show ?thesis by (cases r) (simp add: deser_step_def)
qed

end

text \<open>What the bookkeeping around a step leaves of the stages.\<close>

lemma after_step_ops:
  "after_step raw st pc c = (out, pc', c') \<Longrightarrow>
     tc_ops c' = tc_ops c \<and> (out = None \<longleftrightarrow> st = StepContinue) \<and>
     ((\<exists>f. out = Some (FatalOutcome f)) \<longleftrightarrow> (\<exists>f. st = StepFatal f))"
  by (auto simp: after_step_def split: chain_step.splits)

definition outcome_books :: "('s \<Rightarrow> bool) \<Rightarrow> ('s \<Rightarrow> bool) \<Rightarrow> push_outcome option \<Rightarrow> 's \<Rightarrow> bool" where
  "outcome_books latched books out s \<longleftrightarrow> (\<exists>f. out = Some (FatalOutcome f)) \<or> books s \<and> \<not> latched s"

context stage
begin

lemma push_loop_ok:
  assumes "push_loop deserialize ops a rest pc c w = Some (out, rest', pc', c', w')" and "a \<in># F"
    and "not_ready_first deserialize" and "ready own sinv F (tc_ops c) w"
    and "books (tc_ops c)" "\<not> latched (tc_ops c)"
  shows "keeps own sent sinv {#} F (tc_ops c) w (tc_ops c') w' \<and> outcome_books latched books out (tc_ops c')"
  using assms
proof (induction rest arbitrary: pc c w F)
  case (Cons raw rest)
  from Cons.prems(1) obtain st pc1 c1 w1 o1 pc2 c2
    where d: "deser_step deserialize ops raw a pc c w = Some (st, pc1, c1, w1)"
      and a: "after_step raw st pc1 c1 = (o1, pc2, c2)"
      and r: "(case o1 of Some x \<Rightarrow> Some (Some x, rest, pc2, c2, w1)
               | None \<Rightarrow> push_loop deserialize ops a rest pc2 c2 w1) = Some (out, rest', pc', c', w')"
    by (fastforce split: option.splits prod.splits)
  have k: "keeps own sent sinv {#} (G + F) (tc_ops c) w (tc_ops c2) w1" for G
    using deser_step_keeps [OF d, of "G + F"] Cons.prems(2) after_step_ops [OF a] by simp
  have b: "(\<exists>f. st = StepFatal f) \<or> books (tc_ops c2) \<and> \<not> latched (tc_ops c2)"
    using deser_step_books [OF d Cons.prems(2,3,4,5,6)] after_step_ops [OF a] by simp
  show ?case
  proof (cases o1)
    case (Some x)
    with r k [of "{#}"] b after_step_ops [OF a] show ?thesis by (auto simp: outcome_books_def)
  next
    case None
    obtain G where g: "ready own sinv (G + F) (tc_ops c2) w1"
      by (rule keeps_ready [OF k [of "{#}", simplified] Cons.prems(4)])
    from None r have l: "push_loop deserialize ops a rest pc2 c2 w1 = Some (out, rest', pc', c', w')" by simp
    have "books (tc_ops c2) \<and> \<not> latched (tc_ops c2)" using b None after_step_ops [OF a] by auto
    with Cons.IH [OF l _ Cons.prems(3) g] Cons.prems(2)
    have ob: "outcome_books latched books out (tc_ops c')" by simp
    have "keeps own sent sinv {#} F (tc_ops c) w (tc_ops c') w'"
    proof -
      { assume h: "ready own sinv F (tc_ops c) w"
        have "keeps own sent sinv {#} (G' + F) (tc_ops c2) w1 (tc_ops c') w'" if "ready own sinv (G' + F) (tc_ops c2) w1" for G'
          using Cons.IH [OF l _ Cons.prems(3) that] Cons.prems(2) \<open>books (tc_ops c2) \<and> _\<close> by simp
        then have "keeps own sent sinv {#} (G' + F) (tc_ops c2) w1 (tc_ops c') w'" for G'
          by (cases "ready own sinv (G' + F) (tc_ops c2) w1") (auto simp: keeps_def ready_def)
        then have "keeps own sent sinv {#} F (tc_ops c) w (tc_ops c') w'"
          using keeps_trans [OF k [of "{#}", simplified]] by blast }
      with Cons.prems(4) show ?thesis by blast
    qed
    with ob show ?thesis by blast
  qed
qed (auto simp: outcome_books_def intro: keeps_same)

lemma push_loop_total:
  assumes "ready own sinv F (tc_ops c) w" and "a \<in># F"
  shows "push_loop deserialize ops a rest pc c w \<noteq> None"
  using assms
proof (induction rest arbitrary: pc c w F)
  case (Cons raw rest)
  obtain st pc1 c1 w1 where d: "deser_step deserialize ops raw a pc c w = Some (st, pc1, c1, w1)"
    using deser_step_total [OF Cons.prems, of deserialize raw pc] by auto
  obtain o1 pc2 c2 where a: "after_step raw st pc1 c1 = (o1, pc2, c2)" by (cases "after_step raw st pc1 c1")
  obtain G where "ready own sinv (G + F) (tc_ops c1) w1"
    by (rule keeps_ready [OF deser_step_keeps [OF d Cons.prems(2)] Cons.prems(1)])
  then have "ready own sinv (G + F) (tc_ops c2) w1" using after_step_ops [OF a] by simp
  from Cons.IH [OF this] Cons.prems(2) d a show ?case by (cases o1) simp_all
qed simp

end

text \<open>The end of a push: the metrics, and the batch's failure when it is fatal.\<close>

lemma ready_fail:
  assumes "ready own sinv F s w" and "a \<in># F" and "\<And>hp s q hp'. sinv hp s q \<Longrightarrow> heap_le hp hp' \<Longrightarrow> sinv hp' s q"
  shows "ready own sinv F s (w\<lparr>w_heap := ackref_fail a (w_heap w)\<rparr>)" and "ack_failed (ackref_fail a (w_heap w)) a"
proof -
  from assms(1) have h: "heap_ok (w_heap w) (own s + F)" "outbox_ok (w_heap w)" "sinv (w_heap w) s (w_queues w)"
    by (simp_all add: ready_def)
  have a: "a \<in># own s + F" using assms(2) by simp
  show "ready own sinv F s (w\<lparr>w_heap := ackref_fail a (w_heap w)\<rparr>)"
    using heap_ok_fail [OF h(1)] outbox_ok_fail [OF h(2,1) a] assms(3) [OF h(3) heap_le_fail [OF h(1) a]]
    by (simp add: ready_def)
  show "ack_failed (ackref_fail a (w_heap w)) a" using heap_ok_live [OF h(1) a] by simp
qed

context stage
begin

lemma end_push_ok:
  assumes "end_push ops o1 pc a c w = (out, c', w')" and r: "ready own sinv F (tc_ops c) w" and a: "a \<in># F"
    and b: "outcome_books latched books o1 (tc_ops c)"
  shows "ready own sinv F (tc_ops c') w' \<and> w_queues w' = w_queues w \<and>
    (case out of FatalOutcome f \<Rightarrow> ack_failed (w_heap w') a | _ \<Rightarrow> books (tc_ops c') \<and> \<not> latched (tc_ops c'))"
proof -
  let ?s = "st_on_batch_end ops (tc_ops c)"
  note e = end_same [of "tc_ops c"]
  have s: "tc_ops c' = ?s" "ready own sinv F ?s w"
    using assms(1) r e by (auto simp: end_push_def publish_deser_def Let_def ready_def split: option.splits push_outcome.splits)
  show ?thesis
  proof (cases "\<exists>f. o1 = Some (FatalOutcome f)")
    case True
    then have "\<exists>f. out = FatalOutcome f" "w' = w\<lparr>w_heap := ackref_fail a (w_heap w)\<rparr>"
      using assms(1) by (auto simp: end_push_def Let_def)
    with ready_fail [OF s(2) a sinv_mono] s(1) show ?thesis by auto
  next
    case False
    then have "\<forall>f. out \<noteq> FatalOutcome f" "w' = w"
      using assms(1) by (auto simp: end_push_def Let_def split: option.splits push_outcome.splits)
    moreover have "books (tc_ops c) \<and> \<not> latched (tc_ops c)" using False b by (simp add: outcome_books_def)
    ultimately show ?thesis using s e by (simp split: push_outcome.splits)
  qed
qed

lemma push_replay_ok:
  assumes "push_replay deserialize ops a pc c w = Some (out, pc', c', w')" and "a \<in># F"
    and "not_ready_first deserialize" and "ready own sinv F (tc_ops c) w"
    and "books (tc_ops c)" "\<not> latched (tc_ops c)"
  shows "keeps own sent sinv {#} F (tc_ops c) w (tc_ops c') w' \<and> outcome_books latched books out (tc_ops c')"
proof (cases "tc_pending c")
  case None
  with assms show ?thesis by (auto simp: push_replay_def outcome_books_def intro: keeps_same)
next
  case (Some p)
  let ?c = "c\<lparr>tc_pending := None\<rparr>"
  from Some assms(1) obtain st pc1 c1
    where d: "deser_step deserialize ops (as_raw p) a pc ?c w = Some (st, pc1, c1, w')"
      and a: "after_step (as_raw p) st pc1 c1 = (out, pc', c')"
    by (auto simp: push_replay_def split: option.splits prod.splits)
  from deser_step_keeps [OF d assms(2)] deser_step_books [OF d assms(2,3)] assms(4-6) after_step_ops [OF a]
  show ?thesis by (auto simp: outcome_books_def)
qed

lemma push_batch_ok:
  assumes p: "push_batch deserialize ops batch from c w = Some (out, batch', c', w')"
    and a: "pb_ack batch \<in># F" and q: "not_ready_first deserialize"
    and r: "ready own sinv F (tc_ops c) w" and b: "books (tc_ops c)" "\<not> latched (tc_ops c)"
  shows "(\<exists>G. ready own sinv (G + F) (tc_ops c') w' \<and> sent (w_queues w') = sent (w_queues w) + G) \<and>
    (case out of FatalOutcome f \<Rightarrow> ack_failed (w_heap w') (pb_ack batch) | _ \<Rightarrow> books (tc_ops c') \<and> \<not> latched (tc_ops c'))"
proof -
  let ?a = "pb_ack batch" and ?z = "\<lparr>pc_ok = 0, pc_errors = 0, pc_not_ready = 0, pc_fatal = 0\<rparr>"
  have ops0: "tc_ops (begin_push c) = tc_ops c" by (simp add: begin_push_def)
  obtain fl s w0 where rel: "st_relieve ops (tc_ops c) w = Some (fl, s, w0)"
    using p ops0 by (auto simp: push_batch_def Let_def split: option.splits)
  have "sinv (w_heap w) (tc_ops c) (w_queues w)" using r by (simp add: ready_def)
  note rs = relieve_same [OF this rel]
  obtain G0 where g0: "ready own sinv (G0 + F) s w0" "sent (w_queues w0) = sent (w_queues w) + G0"
    by (rule keeps_ready [OF relieve_keeps [OF rel] r])
  have a0: "?a \<in># G + F" for G using a by simp
  define c1 where "c1 = (begin_push c)\<lparr>tc_ops := s\<rparr>"
  have c1: "tc_ops c1 = s" by (simp add: c1_def)
  consider (blocked) "out = BlockedAt (tc_cursor c1) Capacity" "c' = c1" "w' = w0"
    | (replayed) o1 pc c2 w1 where "push_replay deserialize ops ?a ?z c1 w0 = Some (Some o1, pc, c2, w1)"
        "end_push ops (Some o1) pc ?a c2 w1 = (out, c', w')"
    | (looped) pc c2 w1 o2 rest pc' c3 w2 where "push_replay deserialize ops ?a ?z c1 w0 = Some (None, pc, c2, w1)"
        "push_loop deserialize ops ?a (pb_rest batch) pc c2 w1 = Some (o2, rest, pc', c3, w2)"
        "end_push ops o2 pc' ?a c3 w2 = (out, c', w')"
    using p ops0 rel
    by (fastforce simp: push_batch_def Let_def c1_def split: option.splits prod.splits if_splits)
  then show ?thesis
  proof cases
    case blocked with g0 c1 rs b show ?thesis by auto
  next
    case (replayed o1 pc c2 w1)
    note rp = push_replay_ok [OF replayed(1) a0 q]
    have k: "keeps own sent sinv {#} (G0 + F) s w0 (tc_ops c2) w1" "outcome_books latched books (Some o1) (tc_ops c2)"
      using rp [of G0] c1 g0(1) rs b by simp_all
    obtain G1 where g1: "ready own sinv (G1 + (G0 + F)) (tc_ops c2) w1" "sent (w_queues w1) = sent (w_queues w0) + G1"
      by (rule keeps_ready [OF k(1) g0(1)])
    from end_push_ok [OF replayed(2) g1(1) _ k(2)] a g0(2) g1(2) show ?thesis
      by (auto simp: ac_simps intro!: exI [of _ "G0 + G1"])
  next
    case (looped pc c2 w1 o2 rest pc' c3 w2)
    note rp = push_replay_ok [OF looped(1) a0 q]
    have k: "keeps own sent sinv {#} (G0 + F) s w0 (tc_ops c2) w1" "books (tc_ops c2)" "\<not> latched (tc_ops c2)"
      using rp [of G0] c1 g0(1) rs b by (simp_all add: outcome_books_def)
    obtain G1 where g1: "ready own sinv (G1 + (G0 + F)) (tc_ops c2) w1" "sent (w_queues w1) = sent (w_queues w0) + G1"
      by (rule keeps_ready [OF k(1) g0(1)])
    have a1: "?a \<in># G1 + (G0 + F)" using a by simp
    note l = push_loop_ok [OF looped(2) a1 q g1(1) k(2,3)]
    obtain G2 where g2: "ready own sinv (G2 + (G1 + (G0 + F))) (tc_ops c3) w2" "sent (w_queues w2) = sent (w_queues w1) + G2"
      by (rule keeps_ready [OF conjunct1 [OF l] g1(1)])
    from end_push_ok [OF looped(3) g2(1) _ conjunct2 [OF l]] a g0(2) g1(2) g2(2) show ?thesis
      by (auto simp: ac_simps intro!: exI [of _ "G0 + (G1 + G2)"])
  qed
qed

end

context stage
begin

lemma push_batch_total:
  assumes r: "ready own sinv F (tc_ops c) w" and a: "pb_ack batch \<in># F"
  shows "push_batch deserialize ops batch from c w \<noteq> None"
proof -
  let ?a = "pb_ack batch" and ?z = "\<lparr>pc_ok = 0, pc_errors = 0, pc_not_ready = 0, pc_fatal = 0\<rparr>"
  have ops0: "tc_ops (begin_push c) = tc_ops c" by (simp add: begin_push_def)
  have "sinv (w_heap w) (tc_ops c) (w_queues w)" using r by (simp add: ready_def)
  then obtain fl s w0 where rel: "st_relieve ops (tc_ops c) w = Some (fl, s, w0)"
    using relieve_total by fastforce
  obtain G0 where g0: "ready own sinv (G0 + F) s w0" by (rule keeps_ready [OF relieve_keeps [OF rel] r])
  define c1 where "c1 = (begin_push c)\<lparr>tc_ops := s\<rparr>"
  have "\<exists>o1 pc c2 w1 G. push_replay deserialize ops ?a ?z c1 w0 = Some (o1, pc, c2, w1) \<and> ready own sinv (G + (G0 + F)) (tc_ops c2) w1"
  proof (cases "tc_pending c1")
    case None
    with g0 show ?thesis by (auto simp: push_replay_def c1_def intro: exI [of _ "{#}"])
  next
    case (Some p)
    let ?c = "c1\<lparr>tc_pending := None\<rparr>"
    have rc: "ready own sinv (G0 + F) (tc_ops ?c) w0" "?a \<in># G0 + F" using g0 a by (simp_all add: c1_def)
    obtain st pc c2 w1 where d: "deser_step deserialize ops (as_raw p) ?a ?z ?c w0 = Some (st, pc, c2, w1)"
      using deser_step_total [OF rc, of deserialize "as_raw p" ?z] by auto
    obtain G where "ready own sinv (G + (G0 + F)) (tc_ops c2) w1"
      by (rule keeps_ready [OF deser_step_keeps [OF d rc(2)] rc(1)])
    with d Some show ?thesis
      using after_step_ops [of "as_raw p" st pc c2] by (fastforce simp: push_replay_def split: prod.splits)
  qed
  then obtain o1 pc c2 w1 G where rp: "push_replay deserialize ops ?a ?z c1 w0 = Some (o1, pc, c2, w1)"
    and g: "ready own sinv (G + (G0 + F)) (tc_ops c2) w1" by blast
  have "push_loop deserialize ops ?a (pb_rest batch) pc c2 w1 \<noteq> None"
    by (rule push_loop_total [OF g]) (use a in simp)
  with rel rp ops0 show ?thesis
    by (cases o1) (auto simp: push_batch_def Let_def c1_def split: prod.splits)
qed

lemma flush_ok:
  assumes f: "chain_flush ops c w = Some (out, c', w')" and r: "ready own sinv F (tc_ops c) w"
  shows "(\<exists>G. ready own sinv (G + F) (tc_ops c') w' \<and> sent (w_queues w') = sent (w_queues w) + G) \<and>
    ((\<exists>e. out = FatalOutcome e) \<or> \<not> latched (tc_ops c')) \<and> (books (tc_ops c) \<longrightarrow> books (tc_ops c'))"
proof -
  obtain x s where x: "st_take_fatal ops (tc_ops c) = (x, s)" by fastforce
  note fx = fatal_same [OF x]
  have rs: "ready own sinv F s w" using r fx by (simp add: ready_def)
  show ?thesis
  proof (cases x)
    case (Some e)
    with f x have "out = FatalOutcome e" "c' = c\<lparr>tc_ops := s\<rparr>" "w' = w" by (auto simp: chain_flush_def)
    with rs fx show ?thesis by (auto intro: exI [of _ "{#}"])
  next
    case None
    with f x obtain fl s1 w1 where t: "st_flush_terminal ops s w = Some (fl, s1, w1)"
      by (auto simp: chain_flush_def split: option.splits)
    obtain y s2 where y: "st_take_fatal ops s1 = (y, s2)" by fastforce
    note fy = fatal_same [OF y]
    have e: "tc_ops c' = s2" "w' = w1" "y = None \<or> (\<exists>e. out = FatalOutcome e)"
      using f x None t y by (auto simp: chain_flush_def split: option.splits)
    obtain G where "ready own sinv (G + F) s1 w1" "sent (w_queues w1) = sent (w_queues w) + G"
      by (rule keeps_ready [OF flush_keeps [OF t] rs])
    with e fy fx flush_books [OF t] show ?thesis by (auto simp: ready_def intro!: exI [of _ G])
  qed
qed

end

section \<open>Where a push resumes\<close>

text \<open>The payloads of a batch still to be processed: the stashed one, then the ones not pulled.\<close>

definition unprocessed :: "('d, 's) typed_chain \<Rightarrow> raw_payload list \<Rightarrow> raw_payload list" where
  "unprocessed c rest = map as_raw (opt_list (tc_pending c)) @ rest"

lemma as_raw_from_raw [simp]: "as_raw (from_raw r) = r"
  by (simp add: as_raw_def from_raw_def)

lemma from_raw_as_raw [simp]: "from_raw (as_raw p) = p"
  by (simp add: as_raw_def from_raw_def)

definition resumes ::
  "push_outcome option \<Rightarrow> ('d, 's) typed_chain \<Rightarrow> raw_payload list \<Rightarrow> ('d, 's) typed_chain \<Rightarrow> raw_payload list \<Rightarrow> bool" where
  "resumes out c rest c' rest' \<longleftrightarrow>
     (case out of
        None \<Rightarrow> tc_pending c' = None \<and> rest' = [] \<and> tc_cursor c' = tc_cursor c + length (unprocessed c rest)
      | Some (FatalOutcome f) \<Rightarrow> True
      | Some (BlockedAt n _) \<Rightarrow>
          n = tc_cursor c' \<and> (\<exists>k \<le> length (unprocessed c rest).
            tc_cursor c' = tc_cursor c + k \<and> unprocessed c' rest' = drop k (unprocessed c rest))
      | Some Done \<Rightarrow> False)"

lemma deser_step_cursor:
  "deser_step deserialize ops raw a pc c w = Some (st, pc', c', w') \<Longrightarrow>
     tc_cursor c' = tc_cursor c \<and> tc_pending c' = tc_pending c \<and> tc_mid_batch c' = tc_mid_batch c"
  by (auto simp: deser_step_def split: option.splits)

lemma after_step_resumes:
  assumes "after_step raw st pc c = (out, pc', c')" and "tc_pending c = None"
  shows "(case out of
      None \<Rightarrow> tc_cursor c' = tc_cursor c + 1 \<and> tc_pending c' = None
    | Some x \<Rightarrow> resumes (Some x) c (raw # rest) c' rest)"
  using assms
  by (auto simp: after_step_def resumes_def unprocessed_def split: chain_step.splits
      intro: exI [of _ 0] exI [of _ "Suc 0"])

lemma push_loop_resumes:
  "push_loop deserialize ops a rest pc c w = Some (out, rest', pc', c', w') \<Longrightarrow> tc_pending c = None \<Longrightarrow>
     resumes out c rest c' rest'"
proof (induction rest arbitrary: pc c w)
  case (Cons raw rest)
  from Cons.prems(1) obtain st pc1 c1 w1 o1 pc2 c2
    where d: "deser_step deserialize ops raw a pc c w = Some (st, pc1, c1, w1)"
      and a: "after_step raw st pc1 c1 = (o1, pc2, c2)"
      and r: "(case o1 of Some x \<Rightarrow> Some (Some x, rest, pc2, c2, w1)
               | None \<Rightarrow> push_loop deserialize ops a rest pc2 c2 w1) = Some (out, rest', pc', c', w')"
    by (fastforce split: option.splits prod.splits)
  note dc = deser_step_cursor [OF d]
  note as = after_step_resumes [OF a, of rest]
  show ?case
  proof (cases o1)
    case (Some x)
    with as dc Cons.prems(2) r show ?thesis by (auto simp: resumes_def unprocessed_def split: push_outcome.splits)
  next
    case None
    with as dc Cons.prems(2) have c2: "tc_cursor c2 = tc_cursor c + 1" "tc_pending c2 = None" by simp_all
    have "resumes out c2 rest c' rest'" by (rule Cons.IH) (use None r c2 in simp_all)
    with c2 Cons.prems(2) show ?thesis
      by (auto simp: resumes_def unprocessed_def split: option.splits push_outcome.splits intro: exI [of _ "Suc k" for k])
  qed
qed (simp add: resumes_def unprocessed_def)

lemma push_replay_resumes:
  assumes "push_replay deserialize ops a pc c w = Some (out, pc', c', w')"
  shows "(case out of
      None \<Rightarrow> tc_pending c' = None \<and> tc_cursor c' = tc_cursor c + length (opt_list (tc_pending c))
    | Some x \<Rightarrow> resumes (Some x) c rest c' rest)"
proof (cases "tc_pending c")
  case (Some p)
  let ?c = "c\<lparr>tc_pending := None\<rparr>"
  from Some assms obtain st pc1 c1
    where d: "deser_step deserialize ops (as_raw p) a pc ?c w = Some (st, pc1, c1, w')"
      and a: "after_step (as_raw p) st pc1 c1 = (out, pc', c')"
    by (auto simp: push_replay_def split: option.splits prod.splits)
  note dc = deser_step_cursor [OF d]
  from after_step_resumes [OF a, of rest] dc Some show ?thesis
    by (auto simp: resumes_def unprocessed_def split: option.splits push_outcome.splits)
qed (use assms in \<open>simp add: push_replay_def\<close>)

lemma end_push_cursor:
  assumes "end_push ops o1 pc a c w = (out, c', w')"
  shows "tc_cursor c' = tc_cursor c" and "\<not> (\<exists>f. out = FatalOutcome f) \<Longrightarrow> tc_pending c' = tc_pending c"
    and "out = (case o1 of None \<Rightarrow> Done | Some x \<Rightarrow> x)"
    and "tc_mid_batch c' = (if \<exists>n r. out = BlockedAt n r then tc_mid_batch c else tc_mid_batch c \<and> o1 = Some Done)"
  using assms
  by (auto simp: end_push_def publish_deser_def Let_def split: option.splits push_outcome.splits)

lemma push_batch_resumes:
  assumes "push_batch deserialize ops batch from c w = Some (out, batch', c', w')"
  shows "pb_ack batch' = pb_ack batch \<and>
    resumes (if out = Done then None else Some out) (begin_push c) (pb_rest batch) c' (pb_rest batch')"
proof -
  let ?a = "pb_ack batch" and ?z = "\<lparr>pc_ok = 0, pc_errors = 0, pc_not_ready = 0, pc_fatal = 0\<rparr>"
  obtain fl s w0 where rel: "st_relieve ops (tc_ops (begin_push c)) w = Some (fl, s, w0)"
    using assms by (auto simp: push_batch_def Let_def split: option.splits)
  define c1 where "c1 = (begin_push c)\<lparr>tc_ops := s\<rparr>"
  have c1: "tc_cursor c1 = tc_cursor (begin_push c)" "tc_pending c1 = tc_pending (begin_push c)"
    by (simp_all add: c1_def)
  consider (blocked) "out = BlockedAt (tc_cursor c1) Capacity" "c' = c1" "batch' = batch"
    | (replayed) o1 pc c2 w1 where "push_replay deserialize ops ?a ?z c1 w0 = Some (Some o1, pc, c2, w1)"
        "end_push ops (Some o1) pc ?a c2 w1 = (out, c', w')" "batch' = batch"
    | (looped) pc c2 w1 o2 rest pc' c3 w2 where "push_replay deserialize ops ?a ?z c1 w0 = Some (None, pc, c2, w1)"
        "push_loop deserialize ops ?a (pb_rest batch) pc c2 w1 = Some (o2, rest, pc', c3, w2)"
        "end_push ops o2 pc' ?a c3 w2 = (out, c', w')" "batch' = batch\<lparr>pb_rest := rest\<rparr>"
    using assms rel
    by (fastforce simp: push_batch_def Let_def c1_def split: option.splits prod.splits if_splits)
  then show ?thesis
  proof cases
    case blocked
    with c1 show ?thesis by (auto simp: resumes_def unprocessed_def intro: exI [of _ 0])
  next
    case (replayed o1 pc c2 w1)
    note e = end_push_cursor [OF replayed(2)]
    from push_replay_resumes [OF replayed(1), of "pb_rest batch"] e c1 replayed(3) show ?thesis
      by (auto simp: resumes_def unprocessed_def split: push_outcome.splits)
  next
    case (looped pc c2 w1 o2 rest pc' c3 w2)
    note e = end_push_cursor [OF looped(3)]
    have c2: "tc_pending c2 = None" "tc_cursor c2 = tc_cursor c1 + length (opt_list (tc_pending c1))"
      using push_replay_resumes [OF looped(1), of "pb_rest batch"] by simp_all
    have l: "resumes o2 c2 (pb_rest batch) c3 rest" by (rule push_loop_resumes [OF looped(2) c2(1)])
    show ?thesis
    proof (cases o2)
      case None
      with l e c1 c2 looped(4) show ?thesis by (simp add: resumes_def unprocessed_def)
    next
      case (Some x)
      show ?thesis
      proof (cases x)
        case (BlockedAt n r)
        with Some l obtain k where "n = tc_cursor c3" "k \<le> length (pb_rest batch)" "tc_cursor c3 = tc_cursor c2 + k"
            "unprocessed c3 rest = drop k (pb_rest batch)"
          using c2 by (auto simp: resumes_def unprocessed_def)
        with Some BlockedAt e c1 c2 looped(4) show ?thesis
          by (auto simp: resumes_def unprocessed_def intro!: exI [of _ "length (opt_list (tc_pending c1)) + k"])
      qed (use Some l e looped(4) in \<open>simp_all add: resumes_def\<close>)
    qed
  qed
qed

lemma end_push_fatal:
  "end_push ops o1 pc a c w = (FatalOutcome f, c', w') \<Longrightarrow> tc_pending c' = None \<and> \<not> tc_mid_batch c'"
  by (auto simp: end_push_def Let_def split: option.splits push_outcome.splits)

lemma push_batch_fatal:
  "push_batch deserialize ops batch from c w = Some (FatalOutcome f, batch', c', w') \<Longrightarrow>
     tc_pending c' = None \<and> \<not> tc_mid_batch c'"
  by (auto simp: push_batch_def Let_def dest!: end_push_fatal split: option.splits prod.splits if_splits)

section \<open>A stack of every combinator\<close>

text \<open>The environment of a sink with the default router.\<close>

definition sink_env ::
  "'c mpsc_api \<Rightarrow> ('e \<Rightarrow> 't rec \<Rightarrow> bytes \<Rightarrow> sink_error option \<times> 'e \<times> bytes) \<Rightarrow> ('e \<Rightarrow> nat)
     \<Rightarrow> ('e \<Rightarrow> bytes \<Rightarrow> sink_error option \<times> 'e \<times> bytes) \<Rightarrow> ('k \<Rightarrow> bytes \<Rightarrow> (sink_error + bytes) \<times> 'k)
     \<Rightarrow> ('t, 'e, 'k, ('c, 'f) shard_queues) handoff_env" where
  "sink_env api encode buffered finish code =
     \<lparr>he_encode = encode, he_buffered_bytes = buffered, he_finish_chunk = finish, he_encode_frame = code,
      he_route_record = (\<lambda>r n. the (route_record_meta key_hash_route r n)), he_try_send = try_send api\<rparr>"

interpretation ho: stage "handoff_stage (sink_env api encode buffered finish code)" held handoff_sent handoff_sinv
  handoff_latched handoff_books
  by (rule handoff_is_stage [where api = api])
    (simp_all add: sink_env_def route_record_meta_def key_hash_route_def Let_def)

definition op_stack ::
  "('a \<Rightarrow> 'g1 \<Rightarrow> 'b \<times> 'g1) \<Rightarrow> ('b \<Rightarrow> 'g2 \<Rightarrow> bool \<times> 'g2) \<Rightarrow> ('b \<Rightarrow> 'g3 \<Rightarrow> 'g3) \<Rightarrow> ('b \<Rightarrow> 'g4 \<Rightarrow> ('x, 'g4) emits)
     \<Rightarrow> ('x \<Rightarrow> 'g5 \<Rightarrow> (string + 't) \<times> 'g5) \<Rightarrow> ('t, 'e, 'k, 'q) handoff_env
     \<Rightarrow> ('a, ('g1, ('g2, ('g3, ('g4, ('g5, ('e, 'k) sink_handoff) try_map_op) flat_map_op) inspect_op) filter_op) map_op, 'q) stage_ops" where
  "op_stack f p i g t env =
     map_stage f (filter_stage p (inspect_stage i (flat_map_stage g (try_map_stage t (handoff_stage env)))))"

abbreviation "stack_try s \<equiv> fm_next (in_next (fi_next (mp_next s)))"

definition stack_terminal ::
  "('g1, ('g2, ('g3, ('g4, ('g5, 's) try_map_op) flat_map_op) inspect_op) filter_op) map_op \<Rightarrow> 's" where
  "stack_terminal s = tm_next (stack_try s)"

definition stack_latched ::
  "('g1, ('g2, ('g3, ('g4, ('g5, ('e, 'k) sink_handoff) try_map_op) flat_map_op) inspect_op) filter_op) map_op \<Rightarrow> bool" where
  "stack_latched s \<longleftrightarrow> tm_fatal (stack_try s) \<noteq> None \<or> ho_fatal (stack_terminal s) \<noteq> None"

text \<open>Every stage that counts records in against records out.\<close>

definition stack_books ::
  "('g1, ('g2, ('g3, ('g4, ('g5, ('e, 'k) sink_handoff) try_map_op) flat_map_op) inspect_op) filter_op) map_op \<Rightarrow> bool" where
  "stack_books s \<longleftrightarrow>
     balanced (mp_meter s) \<and> balanced (fi_meter (mp_next s)) \<and> balanced (tm_meter (stack_try s)) \<and>
     balanced (ho_meter (stack_terminal s))"

interpretation trying: stage "try_map_stage t (handoff_stage (sink_env api encode buffered finish code))"
  "\<lambda>s. held (tm_next s)" handoff_sent "\<lambda>hp s. handoff_sinv hp (tm_next s)"
  "\<lambda>s. tm_fatal s \<noteq> None \<or> handoff_latched (tm_next s)" "\<lambda>s. balanced (tm_meter s) \<and> handoff_books (tm_next s)"
  by (rule ho.try_map_is_stage)

interpretation stack: stage "op_stack f p i g t (sink_env api encode buffered finish code)"
  "\<lambda>s. held (stack_terminal s)" handoff_sent "\<lambda>hp s. handoff_sinv hp (stack_terminal s)" stack_latched stack_books
proof -
  note fm = trying.flat_map_is_stage [of g t api encode buffered finish code]
  note ins = stage.inspect_is_stage [OF fm, of i]
  note fil = stage.filter_is_stage [OF ins, of p]
  note mp = stage.map_is_stage [OF fil, of f]
  have l: "stack_latched = (\<lambda>s. False \<or> (False \<or> (False \<or> (False \<or> (tm_fatal (stack_try s) \<noteq> None \<or> handoff_latched (tm_next (stack_try s)))))))"
    by (simp add: stack_latched_def stack_terminal_def handoff_latched_def fun_eq_iff)
  have b: "stack_books = (\<lambda>s. balanced (mp_meter s) \<and> (balanced (fi_meter (mp_next s)) \<and> (True \<and> (True \<and>
      (balanced (tm_meter (stack_try s)) \<and> handoff_books (tm_next (stack_try s)))))))"
    by (simp add: stack_books_def stack_terminal_def handoff_books_def fun_eq_iff)
  from mp show "stage (op_stack f p i g t (sink_env api encode buffered finish code)) (\<lambda>s. held (stack_terminal s))
      handoff_sent (\<lambda>hp s. handoff_sinv hp (stack_terminal s)) stack_latched stack_books"
    unfolding op_stack_def l b stack_terminal_def .
qed

section \<open>Properties\<close>

text \<open>
  C22. A push resumes where it stopped. When a batch is pushed in pieces, the cursor counts the
  payloads fully processed: a blocked push names that count, and what is left, the payload
  stashed for replay included, is exactly the batch without its first so many payloads; a
  push that is done has left none and counted them all.
\<close>

theorem chain_push_resumes:
  assumes "push_batch deserialize ops batch from c w = Some (out, batch', c', w')"
  shows "pb_ack batch' = pb_ack batch \<and>
    (case out of
       Done \<Rightarrow> unprocessed c' (pb_rest batch') = [] \<and>
         tc_cursor c' = tc_cursor (begin_push c) + length (unprocessed (begin_push c) (pb_rest batch))
     | BlockedAt n _ \<Rightarrow> n = tc_cursor c' \<and> tc_cursor (begin_push c) \<le> n \<and>
         unprocessed c' (pb_rest batch')
           = drop (n - tc_cursor (begin_push c)) (unprocessed (begin_push c) (pb_rest batch))
     | FatalOutcome f \<Rightarrow> tc_pending c' = None \<and> \<not> tc_mid_batch c')"
proof (cases out)
  case (FatalOutcome f)
  with push_batch_resumes [OF assms] push_batch_fatal assms show ?thesis by simp
qed (use push_batch_resumes [OF assms] in \<open>auto simp: resumes_def unprocessed_def\<close>)

section \<open>A batch to push\<close>

text \<open>
  Bytes in, bytes out: the deserializer emits each payload as it is, except that an empty
  payload is not ready; the operators pass everything on, dropping payloads that start with
  zero, and doubling the rest.
\<close>

definition demo_deser :: "(unit, bytes) deserializer" where
  "demo_deser d raw =
     (if rp_bytes raw = [] then Return (Some (NotReady ''schema''), d)
      else Emit (rp_bytes raw, raw_meta raw) (\<lambda>fl. Return (None, d)))"

definition demo_meter :: op_meter where
  "demo_meter = op_meter_new None"

definition demo_chain :: "(unit, (unit, (unit, (unit, (unit, (unit, (unit, unit) sink_handoff) try_map_op) flat_map_op) inspect_op) filter_op) map_op) typed_chain" where
  "demo_chain = typed_chain_new ()
     \<lparr>mp_f = (), mp_next = \<lparr>fi_p = (), fi_next = \<lparr>in_f = (), in_next = \<lparr>fm_g = (), fm_next =
        \<lparr>tm_f = (), tm_next = demo_handoff, tm_policy = Fail, tm_component = ''try'', tm_meter = demo_meter, tm_fatal = None\<rparr>,
        fm_meter = demo_meter\<rparr>\<rparr>, fi_meter = demo_meter\<rparr>, mp_meter = demo_meter\<rparr> Fail None"

abbreviation "demo_stack \<equiv>
  op_stack (\<lambda>x g. (x, g)) (\<lambda>x g. (hd x \<noteq> 0, g)) (\<lambda>x g. g) (\<lambda>x g. Emit x (\<lambda>fl. Emit x (\<lambda>fl. Return g)))
    (\<lambda>x g. (Inr x :: string + bytes, g))
    (sink_env demo_api (\<lambda>e r buf. (None, e, buf @ payload r)) (\<lambda>e. 0) (\<lambda>e buf. (None, e, buf)) (\<lambda>k buf. (Inr buf, k)))"

definition demo_raw :: "bytes \<Rightarrow> raw_payload" where
  "demo_raw b = \<lparr>rp_bytes = b, rp_key = None, rp_partition = PartitionId 0, rp_offset = 4, rp_timestamp_ms = 6\<rparr>"

definition demo_batch :: payload_batch where
  "demo_batch = \<lparr>pb_ack = 0, pb_rest = [demo_raw [0, 1], demo_raw []]\<rparr>"

lemma demo_not_ready_first: "not_ready_first demo_deser"
  by (auto simp: not_ready_first_def demo_deser_def split: if_splits)

lemma demo_chain_simps [simp]:
  "stack_terminal (tc_ops demo_chain) = demo_handoff" "stack_books (tc_ops demo_chain)" "\<not> stack_latched (tc_ops demo_chain)"
  by (simp_all add: demo_chain_def typed_chain_new_def stack_terminal_def stack_books_def stack_latched_def demo_meter_def
      demo_handoff_def handoff_new_def)

theorem chain_push_resumes_witness:
  "\<exists>batch' c' w'. push_batch demo_deser demo_stack demo_batch 0 demo_chain demo_world
     = Some (BlockedAt 1 BlockNotReady, batch', c', w') \<and> unprocessed c' (pb_rest batch') = [demo_raw []]"
proof -
  have "\<exists>batch' c' w'. push_batch demo_deser demo_stack demo_batch 0 demo_chain demo_world
      = Some (BlockedAt 1 BlockNotReady, batch', c', w')"
    by (simp add: push_batch_def Let_def begin_push_def demo_chain_def typed_chain_new_def op_stack_def map_stage_def
        filter_stage_def inspect_stage_def flat_map_stage_def try_map_stage_def handoff_stage_def handoff_relieve_def
        demo_handoff_eq into_def push_replay_def demo_batch_def deser_step_def demo_deser_def demo_raw_def ops_emit_run_def
        map_push_def filter_push_def record_map_def deser_result_def deser_finish_def try_map_take_fatal_def
        handoff_take_fatal_def demo_facts after_step_def end_push_def publish_deser_def latch_flow_def)
  then obtain batch' c' w' where p: "push_batch demo_deser demo_stack demo_batch 0 demo_chain demo_world
      = Some (BlockedAt 1 BlockNotReady, batch', c', w')" by blast
  have "unprocessed (begin_push demo_chain) (pb_rest demo_batch) = [demo_raw [0, 1], demo_raw []]"
      "tc_cursor (begin_push demo_chain) = 0"
    by (simp_all add: begin_push_def demo_chain_def typed_chain_new_def unprocessed_def demo_batch_def)
  with chain_push_resumes [OF p] p show ?thesis by auto
qed

end
