(* ===== verification/Tracker.thy ===== *)
theory Tracker
  imports Acks
begin

text \<open>
  Per-partition contiguity tracking, \<open>crates/spate-core/src/checkpoint/tracker.rs\<close>.

  The first part is the code: a ring of slots, registrations at the back, resolutions
  anywhere, and the loop that pops the delivered prefix. The second part is what it promises:
  a ledger of every batch ever registered, with its resolution, and the number of batches the
  watermark has passed. The locale \<open>watermark_ledger\<close> states that promise as laws; the tracker
  satisfies them and the checkpointer's proofs use nothing else.
\<close>

section \<open>The tracker\<close>

datatype resolve_outcome = Applied | Duplicate | AlreadyAdvanced | Unregistered

datatype slot_state = SlotPending | SlotDelivered | SlotFailed

record slot =
  last_offset :: int
  state :: slot_state

record partition_tracker =
  head_seq :: nat
  next_seq :: nat
  ring :: "slot list"
  stalled_since :: "instant option"
  stalled_seq :: "nat option"

definition tracker_new :: partition_tracker where
  "tracker_new = \<lparr>head_seq = 0, next_seq = 0, ring = [], stalled_since = None, stalled_seq = None\<rparr>"

definition register :: "nat \<Rightarrow> int \<Rightarrow> partition_tracker \<Rightarrow> partition_tracker option" where
  "register seq off t =
     (if seq = next_seq t then
        Some (t\<lparr>ring := ring t @ [\<lparr>last_offset = off, state = SlotPending\<rparr>],
                next_seq := next_seq t + 1\<rparr>)
      else None)"

fun slot_state_of :: "ack_status \<Rightarrow> slot_state" where
  "slot_state_of Delivered = SlotDelivered"
| "slot_state_of Failed = SlotFailed"

text \<open>\<open>usize::try_from\<close> of a \<open>u64\<close> is the identity on a 64-bit target.\<close>

definition resolve :: "nat \<Rightarrow> ack_status \<Rightarrow> partition_tracker \<Rightarrow> resolve_outcome \<times> partition_tracker" where
  "resolve seq status t =
     (if seq < head_seq t then (AlreadyAdvanced, t)
      else
        let idx = seq - head_seq t in
        if length (ring t) \<le> idx then (Unregistered, t)
        else if state (ring t ! idx) \<noteq> SlotPending then (Duplicate, t)
        else (Applied, t\<lparr>ring := (ring t)[idx := (ring t ! idx)\<lparr>state := slot_state_of status\<rparr>]\<rparr>))"

text \<open>The \<open>while let\<close> loop of \<open>advance_on\<close>, with the local \<open>committable\<close> as an accumulator.\<close>

function advance_loop :: "instant \<Rightarrow> int option \<Rightarrow> partition_tracker \<Rightarrow> int option \<times> partition_tracker" where
  "advance_loop now committable t =
     (case ring t of
        [] \<Rightarrow> (committable, t)
      | s # rest \<Rightarrow>
          (case state s of
             SlotDelivered \<Rightarrow>
               advance_loop now (Some (wrap_i64 (last_offset s + 1)))
                 (t\<lparr>ring := rest, head_seq := head_seq t + 1\<rparr>)
           | SlotFailed \<Rightarrow>
               (committable,
                if stalled_since t = None
                then t\<lparr>stalled_since := Some now, stalled_seq := Some (head_seq t)\<rparr>
                else t)
           | SlotPending \<Rightarrow> (committable, t)))"
  by pat_completeness auto
termination
  by (relation "measure (\<lambda>(_, _, t). length (ring t))") auto

declare advance_loop.simps [simp del]

definition advance_on :: "instant \<Rightarrow> partition_tracker \<Rightarrow> int option \<times> partition_tracker" where
  "advance_on now t = advance_loop now None t"

definition stalled :: "partition_tracker \<Rightarrow> bool" where
  "stalled t \<longleftrightarrow> stalled_since t \<noteq> None"

definition pending :: "partition_tracker \<Rightarrow> nat" where
  "pending t = length (ring t)"

section \<open>The reference ledger\<close>

text \<open>
  Every batch registered so far, in sequence order, with its last offset and its resolution
  if it has one; \<open>committed\<close> counts the batches the watermark has passed.
\<close>

type_synonym entries = "(int \<times> ack_status option) list"

record ledger =
  batches :: entries
  committed :: nat

definition ledger_new :: ledger where
  "ledger_new = \<lparr>batches = [], committed = 0\<rparr>"

definition delivered_prefix :: "entries \<Rightarrow> nat" where
  "delivered_prefix es = length (takeWhile (\<lambda>(_, st). st = Some Delivered) es)"

definition ledger_register :: "nat \<Rightarrow> int \<Rightarrow> ledger \<Rightarrow> ledger option" where
  "ledger_register seq off l =
     (if seq = length (batches l) then Some (l\<lparr>batches := batches l @ [(off, None)]\<rparr>) else None)"

definition ledger_resolve :: "nat \<Rightarrow> ack_status \<Rightarrow> ledger \<Rightarrow> resolve_outcome \<times> ledger" where
  "ledger_resolve seq status l =
     (if seq < committed l then (AlreadyAdvanced, l)
      else if length (batches l) \<le> seq then (Unregistered, l)
      else if snd (batches l ! seq) \<noteq> None then (Duplicate, l)
      else (Applied, l\<lparr>batches := (batches l)[seq := (fst (batches l ! seq), Some status)]\<rparr>))"

definition ledger_advance :: "ledger \<Rightarrow> int option \<times> ledger" where
  "ledger_advance l =
     (let k = delivered_prefix (batches l) in
      (if k = committed l then None else Some (wrap_i64 (fst (batches l ! (k - 1)) + 1)),
       l\<lparr>committed := k\<rparr>))"

text \<open>Well-formedness: what the watermark has passed was delivered.\<close>

definition ledger_ok :: "ledger \<Rightarrow> bool" where
  "ledger_ok l \<longleftrightarrow> committed l \<le> delivered_prefix (batches l)"

lemma delivered_prefix_le: "delivered_prefix es \<le> length es"
  by (simp add: delivered_prefix_def length_takeWhile_le)

lemma delivered_below_prefix: "i < delivered_prefix es \<Longrightarrow> snd (es ! i) = Some Delivered"
  unfolding delivered_prefix_def
  by (metis (mono_tags, lifting) case_prod_unfold nth_mem set_takeWhileD takeWhile_nth)

lemma at_delivered_prefix:
  "delivered_prefix es < length es \<Longrightarrow> snd (es ! delivered_prefix es) \<noteq> Some Delivered"
  unfolding delivered_prefix_def using nth_length_takeWhile [of _ es] by (simp add: case_prod_unfold)

lemma delivered_prefix_geI:
  assumes "k \<le> length es" and "\<And>i. i < k \<Longrightarrow> snd (es ! i) = Some Delivered"
  shows "k \<le> delivered_prefix es"
proof (rule ccontr)
  assume "\<not> k \<le> delivered_prefix es"
  with assms at_delivered_prefix [of es] show False by force
qed

lemma ledger_ok_iff:
  "ledger_ok l \<longleftrightarrow> committed l \<le> length (batches l)
     \<and> (\<forall>i < committed l. snd (batches l ! i) = Some Delivered)"
  unfolding ledger_ok_def
  by (meson delivered_below_prefix delivered_prefix_geI delivered_prefix_le le_trans less_le_trans)

section \<open>The contract\<close>

locale watermark_ledger =
  fixes new :: 't
    and reg :: "nat \<Rightarrow> int \<Rightarrow> 't \<Rightarrow> 't option"
    and res :: "nat \<Rightarrow> ack_status \<Rightarrow> 't \<Rightarrow> resolve_outcome \<times> 't"
    and adv :: "instant \<Rightarrow> 't \<Rightarrow> int option \<times> 't"
    and size_of :: "'t \<Rightarrow> nat"
    and abs :: "'t \<Rightarrow> ledger \<Rightarrow> bool"
  assumes new_law: "abs new ledger_new"
    and ok_law: "abs t l \<Longrightarrow> ledger_ok l"
    and size_law: "abs t l \<Longrightarrow> size_of t = length (batches l) - committed l"
    and register_law: "abs t l \<Longrightarrow>
      rel_option abs (reg seq off t) (ledger_register seq off l)"
    and resolve_law: "abs t l \<Longrightarrow> fst (res seq st t) = fst (ledger_resolve seq st l)
      \<and> abs (snd (res seq st t)) (snd (ledger_resolve seq st l))"
    and advance_law: "abs t l \<Longrightarrow> fst (adv now t) = fst (ledger_advance l)
      \<and> abs (snd (adv now t)) (snd (ledger_advance l))"
begin

lemma register_next:
  assumes "abs t l"
  shows "\<exists>t'. reg (length (batches l)) off t = Some t'
    \<and> abs t' (l\<lparr>batches := batches l @ [(off, None)]\<rparr>)"
  using register_law [OF assms, of "length (batches l)" off]
  by (auto simp: ledger_register_def elim: option.rel_cases)

lemma register_gap: "abs t l \<Longrightarrow> seq \<noteq> length (batches l) \<Longrightarrow> reg seq off t = None"
  using register_law [of t l seq off] by (simp add: ledger_register_def)

lemma resolve_fresh:
  assumes "abs t l" and "seq < length (batches l)" and "snd (batches l ! seq) = None"
  shows "fst (res seq st t) = Applied
    \<and> abs (snd (res seq st t)) (l\<lparr>batches := (batches l)[seq := (fst (batches l ! seq), Some st)]\<rparr>)"
proof -
  have "\<not> seq < committed l"
  proof
    assume "seq < committed l"
    with ok_law [OF assms(1)] have "seq < delivered_prefix (batches l)"
      by (simp add: ledger_ok_def)
    from delivered_below_prefix [OF this] assms(3) show False by simp
  qed
  with assms resolve_law [OF assms(1), of seq st] show ?thesis
    by (simp add: ledger_resolve_def)
qed

lemma resolve_unregistered:
  assumes "abs t l" and "length (batches l) \<le> seq"
  shows "fst (res seq st t) = Unregistered \<and> abs (snd (res seq st t)) l"
proof -
  have "committed l \<le> length (batches l)"
    using ok_law [OF assms(1)] by (simp add: ledger_ok_iff)
  with assms resolve_law [OF assms(1), of seq st] show ?thesis
    by (simp add: ledger_resolve_def)
qed

lemma resolve_again:
  assumes "abs t l" and "seq < length (batches l)" and "snd (batches l ! seq) \<noteq> None"
  shows "fst (res seq st t) \<in> {Duplicate, AlreadyAdvanced} \<and> abs (snd (res seq st t)) l"
  using assms resolve_law [OF assms(1), of seq st] by (auto simp: ledger_resolve_def split: if_splits)

end

section \<open>The tracker keeps the contract\<close>

fun slot_of :: "int \<times> ack_status option \<Rightarrow> slot" where
  "slot_of (off, None) = \<lparr>last_offset = off, state = SlotPending\<rparr>"
| "slot_of (off, Some st) = \<lparr>last_offset = off, state = slot_state_of st\<rparr>"

text \<open>
  The tracker holds the ledger from \<open>committed\<close> on; a recorded stall names the failed batch
  the watermark stopped at.
\<close>

definition tracks_ledger :: "partition_tracker \<Rightarrow> ledger \<Rightarrow> bool" where
  "tracks_ledger t l \<longleftrightarrow>
     ledger_ok l \<and> head_seq t = committed l \<and> next_seq t = length (batches l)
     \<and> ring t = map slot_of (drop (committed l) (batches l))
     \<and> (stalled_since t = None \<longleftrightarrow> stalled_seq t = None)
     \<and> (\<forall>s. stalled_seq t = Some s \<longrightarrow>
          s = committed l \<and> s < length (batches l) \<and> snd (batches l ! s) = Some Failed)"

lemma slot_state_of_not_pending [simp]: "slot_state_of st \<noteq> SlotPending"
  by (cases st) simp_all

lemma slot_of_simps [simp]:
  "last_offset (slot_of e) = fst e"
  "state (slot_of e) = SlotPending \<longleftrightarrow> snd e = None"
  "state (slot_of e) = SlotDelivered \<longleftrightarrow> snd e = Some Delivered"
  "state (slot_of e) = SlotFailed \<longleftrightarrow> snd e = Some Failed"
  by (cases e rule: slot_of.cases; cases "the (snd e)"; simp)+

lemma slot_of_resolve: "(slot_of e)\<lparr>state := slot_state_of st\<rparr> = slot_of (fst e, Some st)"
  by (cases e rule: slot_of.cases) simp_all

lemma tracks_new: "tracks_ledger tracker_new ledger_new"
  by (simp add: tracks_ledger_def tracker_new_def ledger_new_def ledger_ok_iff)

lemma tracks_register:
  "tracks_ledger t l \<Longrightarrow> rel_option tracks_ledger (register seq off t) (ledger_register seq off l)"
  by (auto simp: tracks_ledger_def register_def ledger_register_def ledger_ok_iff nth_append)

lemma ledger_ok_resolve: "ledger_ok l \<Longrightarrow> ledger_ok (snd (ledger_resolve seq st l))"
  by (auto simp: ledger_resolve_def ledger_ok_iff nth_list_update)

lemma tracks_resolve:
  assumes "tracks_ledger t l"
  shows "fst (resolve seq st t) = fst (ledger_resolve seq st l)
    \<and> tracks_ledger (snd (resolve seq st t)) (snd (ledger_resolve seq st l))"
proof (cases "seq < committed l \<or> length (batches l) \<le> seq")
  case True
  with assms show ?thesis
    by (auto simp: tracks_ledger_def resolve_def ledger_resolve_def ledger_ok_iff Let_def)
next
  case False
  let ?i = "seq - committed l"
  from False assms have i: "ring t ! ?i = slot_of (batches l ! seq)" "?i < length (ring t)"
    and upd: "(map slot_of (drop (committed l) (batches l)))[?i := slot_of e]
      = map slot_of (drop (committed l) ((batches l)[seq := e]))" for e
    by (auto simp: tracks_ledger_def drop_update_swap map_update)
  have ok: "ledger_ok (snd (ledger_resolve seq st l))"
    using assms by (simp add: tracks_ledger_def ledger_ok_resolve)
  show ?thesis
    using False assms i upd [of "(fst (batches l ! seq), Some st)", simplified] ok
    by (auto simp: tracks_ledger_def resolve_def ledger_resolve_def Let_def slot_of_resolve
        nth_list_update)
qed

lemma advance_loop_spec:
  "tracks_ledger t l \<Longrightarrow> advance_loop now c t = (w, t') \<Longrightarrow>
     tracks_ledger t' (l\<lparr>committed := delivered_prefix (batches l)\<rparr>)
     \<and> w = (if delivered_prefix (batches l) = committed l then c
            else Some (wrap_i64 (fst (batches l ! (delivered_prefix (batches l) - 1)) + 1)))"
proof (induction now c t arbitrary: l rule: advance_loop.induct)
  case (1 now c t)
  let ?k = "committed l" and ?es = "batches l"
  have ok: "?k \<le> delivered_prefix ?es" and ring: "ring t = map slot_of (drop ?k ?es)"
    and head: "head_seq t = ?k"
    using 1(2) by (simp_all add: tracks_ledger_def ledger_ok_def)
  show ?case
  proof (cases "?k < length ?es")
    case False
    then have "delivered_prefix ?es = ?k"
      using ok delivered_prefix_le [of ?es] by simp
    with False 1(2,3) ring show ?thesis
      by (simp add: advance_loop.simps [of now c t])
  next
    case True
    then have hd: "ring t = slot_of (?es ! ?k) # map slot_of (drop (Suc ?k) ?es)"
      by (simp add: ring Cons_nth_drop_Suc [symmetric])
    show ?thesis
    proof (cases "snd (?es ! ?k) = Some Delivered")
      case False
      have k: "delivered_prefix ?es = ?k"
        using False ok delivered_below_prefix [of ?k ?es] by (metis le_neq_implies_less)
      have "advance_loop now c t =
          (c, if snd (?es ! ?k) = Some Failed \<and> stalled_since t = None
              then t\<lparr>stalled_since := Some now, stalled_seq := Some ?k\<rparr> else t)"
        using hd head False
        by (auto simp: advance_loop.simps [of now c t] split: slot_state.split)
      then show ?thesis
        using 1(2,3) True k by (auto simp: tracks_ledger_def ledger_ok_def)
    next
      case delivered: True
      let ?l = "l\<lparr>committed := Suc ?k\<rparr>"
      let ?t = "t\<lparr>ring := map slot_of (drop (Suc ?k) ?es), head_seq := head_seq t + 1\<rparr>"
      have st: "state (slot_of (?es ! ?k)) = SlotDelivered"
        using delivered by simp
      have len: "Suc ?k \<le> delivered_prefix ?es"
        using True delivered ok
        by (intro delivered_prefix_geI) (auto simp: less_Suc_eq delivered_below_prefix)
      have tracks: "tracks_ledger ?t ?l"
        using 1(2) True delivered len by (auto simp: tracks_ledger_def ledger_ok_def)
      have run: "advance_loop now (Some (wrap_i64 (fst (?es ! ?k) + 1))) ?t = (w, t')"
        using 1(3) st by (simp add: advance_loop.simps [of now c t] hd)
      show ?thesis
        using 1(1) [OF hd st tracks] run len by auto
    qed
  qed
qed

lemma tracks_advance:
  assumes "tracks_ledger t l"
  shows "fst (advance_on now t) = fst (ledger_advance l)
    \<and> tracks_ledger (snd (advance_on now t)) (snd (ledger_advance l))"
  using advance_loop_spec [OF assms, of now None]
  by (cases "advance_loop now None t") (auto simp: advance_on_def ledger_advance_def Let_def)

interpretation trk: watermark_ledger tracker_new register resolve advance_on pending tracks_ledger
proof
  show "tracks_ledger tracker_new ledger_new" by (rule tracks_new)
  show "ledger_ok l" if "tracks_ledger t l" for t l
    using that by (simp add: tracks_ledger_def)
  show "pending t = length (batches l) - committed l" if "tracks_ledger t l" for t l
    using that by (simp add: tracks_ledger_def pending_def)
qed (simp_all add: tracks_register tracks_resolve tracks_advance)

section \<open>Runs of a tracker\<close>

datatype tracker_op = TRegister nat int | TResolve nat ack_status | TAdvance instant

datatype tracker_out = Registered | Resolved resolve_outcome | Advanced "int option"

fun tracker_step :: "tracker_op \<Rightarrow> partition_tracker \<Rightarrow> (tracker_out \<times> partition_tracker) option" where
  "tracker_step (TRegister seq off) t = map_option (Pair Registered) (register seq off t)"
| "tracker_step (TResolve seq st) t = Some (apfst Resolved (resolve seq st t))"
| "tracker_step (TAdvance now) t = Some (apfst Advanced (advance_on now t))"

fun ledger_step :: "tracker_op \<Rightarrow> ledger \<Rightarrow> (tracker_out \<times> ledger) option" where
  "ledger_step (TRegister seq off) l = map_option (Pair Registered) (ledger_register seq off l)"
| "ledger_step (TResolve seq st) l = Some (apfst Resolved (ledger_resolve seq st l))"
| "ledger_step (TAdvance now) l = Some (apfst Advanced (ledger_advance l))"

interpretation trk_sim: simulation tracker_step ledger_step tracks_ledger
proof
  fix c a x
  assume "tracks_ledger c a"
  then show "rel_option (\<lambda>(r, c') (r', a'). r = r' \<and> tracks_ledger c' a') (tracker_step x c) (ledger_step x a)"
    by (cases x) (simp_all add: option.rel_map case_prod_unfold tracks_register tracks_resolve tracks_advance)
qed

text \<open>The batches and resolutions a sequence of operations amounts to.\<close>

fun history_step :: "tracker_op \<Rightarrow> entries \<Rightarrow> entries" where
  "history_step (TRegister seq off) es = es @ [(off, None)]"
| "history_step (TResolve seq st) es =
     (if seq < length es \<and> snd (es ! seq) = None then es[seq := (fst (es ! seq), Some st)] else es)"
| "history_step (TAdvance now) es = es"

definition history :: "tracker_op list \<Rightarrow> entries" where
  "history xs = fold history_step xs []"

lemma ledger_step_history:
  assumes "ledger_step x l = Some (r, l')" and "ledger_ok l"
  shows "batches l' = history_step x (batches l) \<and> ledger_ok l'"
  using assms
  by (cases x)
     (auto simp: ledger_register_def ledger_resolve_def ledger_advance_def Let_def ledger_ok_iff
        nth_append nth_list_update delivered_prefix_le delivered_below_prefix
        apfst_def map_prod_def split: if_splits)

lemma ledger_run_history:
  "run_ops ledger_step xs l = Some (rs, l') \<Longrightarrow> ledger_ok l \<Longrightarrow>
     batches l' = fold history_step xs (batches l) \<and> ledger_ok l'"
proof (induction xs arbitrary: l rs)
  case (Cons x xs)
  then obtain r l1 rs1 where "ledger_step x l = Some (r, l1)" "run_ops ledger_step xs l1 = Some (rs1, l')"
    by (auto split: option.splits prod.splits)
  with Cons.IH [of l1 rs1] Cons.prems(2) ledger_step_history [of x l r l1] show ?case by simp
qed simp

lemma tracker_run_history:
  assumes "run_ops tracker_step xs tracker_new = Some (rs, t)"
  obtains l where "tracks_ledger t l" and "batches l = history xs"
proof -
  from trk_sim.sim_run [OF tracks_new, of xs] assms obtain l where
    l: "run_ops ledger_step xs ledger_new = Some (rs, l)" "tracks_ledger t l"
    by (auto elim: option.rel_cases)
  have "ledger_ok ledger_new"
    by (simp add: ledger_new_def ledger_ok_iff)
  with ledger_run_history [OF l(1)] have "batches l = history xs"
    by (simp add: history_def ledger_new_def)
  with l(2) that show ?thesis by blast
qed

text \<open>
  C6. The tracker implements its specification: on every sequence of registrations,
  resolutions (in any order, repeated or unknown ones included) and advances, it gives the
  same answers as the ledger that keeps every batch and recomputes the delivered prefix from
  scratch, and it panics on exactly the same registrations.
\<close>

theorem tracker_refines_ledger:
  "map_option fst (run_ops tracker_step xs tracker_new)
     = map_option fst (run_ops ledger_step xs ledger_new)"
  by (rule trk_sim.same_answers [OF tracks_new])

text \<open>
  A watermark is never past undelivered data: after any run, an advance returns an offset
  only if it is one past the last offset of some batch such that this batch and every batch
  registered before it resolved as delivered, and the batch after it did not (the watermark
  is also as far as it can go).
\<close>

lemma watermark_covers_delivered_only:
  assumes "run_ops tracker_step xs tracker_new = Some (rs, t)"
    and "advance_on now t = (Some w, t')"
  shows "\<exists>k. 0 < k \<and> k \<le> length (history xs)
    \<and> w = wrap_i64 (fst (history xs ! (k - 1)) + 1)
    \<and> (\<forall>i < k. snd (history xs ! i) = Some Delivered)
    \<and> (k < length (history xs) \<longrightarrow> snd (history xs ! k) \<noteq> Some Delivered)"
proof -
  from assms(1) obtain l where l: "tracks_ledger t l" "batches l = history xs"
    by (rule tracker_run_history)
  let ?k = "delivered_prefix (history xs)"
  from tracks_advance [OF l(1), of now] assms(2) l(2)
  have w: "?k \<noteq> committed l" "w = wrap_i64 (fst (history xs ! (?k - 1)) + 1)"
    by (auto simp: ledger_advance_def Let_def split: if_splits)
  moreover have "committed l \<le> ?k"
    using l by (simp add: tracks_ledger_def ledger_ok_def)
  ultimately show ?thesis
    using delivered_prefix_le delivered_below_prefix at_delivered_prefix
    by (intro exI [of _ ?k]) (auto simp del: not_None_eq)
qed

lemma stalled_step:
  assumes "tracks_ledger t l" and "stalled t" and "tracker_step x t = Some (r, t')"
  shows "\<exists>l'. tracks_ledger t' l' \<and> stalled_since t' = stalled_since t
    \<and> stalled_seq t' = stalled_seq t \<and> (\<forall>w. r \<noteq> Advanced (Some w))"
proof -
  from assms(1,2) have failed: "committed l < length (batches l)" "snd (batches l ! committed l) = Some Failed"
    by (auto simp: tracks_ledger_def stalled_def)
  have l': "\<exists>l'. tracks_ledger t' l'"
    using trk_sim.sim_step [OF assms(1), of x] assms(3) by (auto elim: option.rel_cases)
  show ?thesis
  proof (cases x)
    case (TAdvance now)
    from assms(1) failed obtain rest where
      "ring t = slot_of (batches l ! committed l) # rest" "state (slot_of (batches l ! committed l)) = SlotFailed"
      by (auto simp: tracks_ledger_def Cons_nth_drop_Suc [symmetric])
    with TAdvance assms(2,3) l' show ?thesis
      by (auto simp: advance_on_def advance_loop.simps [of now None t] stalled_def)
  qed (use assms l' in \<open>auto simp: register_def resolve_def Let_def split: if_splits\<close>)
qed

lemma stalled_run:
  "run_ops tracker_step xs t = Some (rs, t') \<Longrightarrow> tracks_ledger t l \<Longrightarrow> stalled t \<Longrightarrow>
     stalled_since t' = stalled_since t \<and> stalled_seq t' = stalled_seq t
     \<and> (\<forall>w. Advanced (Some w) \<notin> set rs)"
proof (induction xs arbitrary: t l rs)
  case (Cons x xs)
  from Cons.prems(1) obtain r t1 rs1 where
    1: "tracker_step x t = Some (r, t1)" "run_ops tracker_step xs t1 = Some (rs1, t')" "rs = r # rs1"
    by (auto split: option.splits prod.splits)
  from stalled_step [OF Cons.prems(2,3) 1(1)] obtain l1 where
    2: "tracks_ledger t1 l1" "stalled_since t1 = stalled_since t" "stalled_seq t1 = stalled_seq t"
       "\<forall>w. r \<noteq> Advanced (Some w)"
    by blast
  with Cons.IH [OF 1(2) 2(1)] Cons.prems(3) 1(3) show ?case
    by (auto simp: stalled_def)
qed simp

text \<open>
  C7. A stall is permanent: once an advance has found a failed batch at the head of the ring,
  no later operation clears or re-stamps the stall, and no later advance returns a watermark,
  whatever is registered or resolved afterwards.
\<close>

theorem stall_is_permanent:
  assumes "run_ops tracker_step xs tracker_new = Some (rs, t)" and "stalled t"
    and "run_ops tracker_step ys t = Some (rs', t')"
  shows "stalled_since t' = stalled_since t \<and> stalled_seq t' = stalled_seq t
    \<and> (\<forall>w. Advanced (Some w) \<notin> set rs')"
  using assms(1) by (rule tracker_run_history) (rule stalled_run [OF assms(3) _ assms(2)])

theorem stall_is_permanent_witness:
  "\<exists>t rs. run_ops tracker_step [TRegister 0 99, TResolve 0 Failed, TAdvance 5] tracker_new
        = Some ([Registered, Resolved Applied, Advanced None], t)
     \<and> stalled t
     \<and> map_option fst (run_ops tracker_step [TRegister 1 199, TResolve 1 Delivered, TAdvance 8] t) = Some rs
     \<and> (\<forall>w. Advanced (Some w) \<notin> set rs)"
proof -
  note eval = tracker_new_def register_def resolve_def advance_on_def advance_loop.simps
  let ?t = "\<lparr>head_seq = 0, next_seq = 1, ring = [\<lparr>last_offset = 99, state = SlotFailed\<rparr>],
      stalled_since = Some 5, stalled_seq = Some 0\<rparr>"
  have run: "run_ops tracker_step [TRegister 0 99, TResolve 0 Failed, TAdvance 5] tracker_new
        = Some ([Registered, Resolved Applied, Advanced None], ?t)"
    by (simp add: eval)
  have st: "stalled ?t" by (simp add: stalled_def)
  have "run_ops tracker_step [TRegister 1 199, TResolve 1 Delivered, TAdvance 8] ?t \<noteq> None"
    by (simp add: eval)
  then obtain rs t' where
    more: "run_ops tracker_step [TRegister 1 199, TResolve 1 Delivered, TAdvance 8] ?t = Some (rs, t')"
    by auto
  from stall_is_permanent [OF run st more] run st more show ?thesis by force
qed

end
