(* ===== verification/Checkpointer.thy ===== *)
theory Checkpointer
  imports Tracker Errors
begin

text \<open>
  The checkpointer, \<open>crates/spate-core/src/checkpoint/checkpointer.rs\<close>, with the advance
  counters of \<open>checkpoint/gate.rs\<close>.

  The two channels of the code are not part of this state: what a \<open>try_recv\<close> loop received
  is an argument of the operation that ran the loop, and what a call sent is part of its
  result. \<open>Checkpoint_System\<close> puts the channels back and interleaves the threads. The atomic
  \<open>shared_epoch\<close> is a field; an issuer's load of it is an argument of \<open>issue\<close>. Advance
  counters are shared with the drivers, so they live in an arena and a gate is an index.
\<close>

section \<open>Data\<close>

record registration =
  reg_id :: batch_id
  reg_last_offset :: int

record drain_stats =
  applied :: nat
  stale_epoch :: nat
  duplicates :: nat
  unknown :: nat

definition drain_stats_default :: drain_stats where
  "drain_stats_default = \<lparr>applied = 0, stale_epoch = 0, duplicates = 0, unknown = 0\<rparr>"

type_synonym advance_counter = nat

record pending_gate =
  pg_epoch :: nat
  pg_advanced :: advance_counter

definition counter_add :: "advance_counter \<Rightarrow> nat \<Rightarrow> nat list \<Rightarrow> nat list" where
  "counter_add c n cs = cs[c := (cs ! c + n) mod 2 ^ 64]"

definition counter_get :: "advance_counter \<Rightarrow> nat list \<Rightarrow> nat" where
  "counter_get c cs = cs ! c"

section \<open>Issuing\<close>

record ack_issuer =
  local_epoch :: nat
  seqs :: "(partition_id \<times> nat) list"

definition issuer_clone :: "ack_issuer \<Rightarrow> ack_issuer" where
  "issuer_clone i = \<lparr>local_epoch = local_epoch i, seqs = []\<rparr>"

text \<open>
  The identity of the next batch, given the value loaded from \<open>shared_epoch\<close>: the part of
  \<open>issue\<close> before the registration is sent.
\<close>

definition issue_id :: "nat \<Rightarrow> partition_id \<Rightarrow> ack_issuer \<Rightarrow> batch_id \<times> ack_issuer" where
  "issue_id epoch p i =
     (let i = (if epoch \<noteq> local_epoch i then \<lparr>local_epoch = epoch, seqs = []\<rparr> else i);
          seq = (case map_of (seqs i) p of None \<Rightarrow> 0 | Some n \<Rightarrow> n)
      in (\<lparr>bid_partition = p, bid_epoch = epoch, bid_seq = seq\<rparr>,
          i\<lparr>seqs := AList.update p (seq + 1) (seqs i)\<rparr>))"

text \<open>The registration is sent before the handle exists.\<close>

definition issue ::
  "nat \<Rightarrow> partition_id \<Rightarrow> int \<Rightarrow> ack_issuer \<Rightarrow> ack_heap
     \<Rightarrow> registration \<times> ack_ref \<times> ack_issuer \<times> ack_heap" where
  "issue epoch p off i h =
     (let (b, i') = issue_id epoch p i; (r, h') = ackref_new b off h
      in (\<lparr>reg_id = b, reg_last_offset = off\<rparr>, r, i', h'))"

section \<open>The checkpointer\<close>

record checkpointer =
  shared_epoch :: nat
  epoch :: nat
  trackers :: "(partition_id \<times> partition_tracker) list"
  gates :: "(partition_id \<times> advance_counter) list"
  admitted_through :: "partition_id option"
  counters :: "nat list"

definition checkpointer_new :: checkpointer where
  "checkpointer_new =
     \<lparr>shared_epoch = 0, epoch = 0, trackers = [], gates = [], admitted_through = None, counters = []\<rparr>"

definition handle :: "checkpointer \<Rightarrow> ack_issuer" where
  "handle cp = \<lparr>local_epoch = shared_epoch cp, seqs = []\<rparr>"

fun max_partition :: "partition_id list \<Rightarrow> partition_id option" where
  "max_partition [] = None"
| "max_partition (p # ps) = (case max_partition ps of None \<Rightarrow> Some p | Some m \<Rightarrow> Some (max p m))"

text \<open>\<open>Option\<close>'s order puts \<open>None\<close> below every \<open>Some\<close>.\<close>

fun max_option :: "partition_id option \<Rightarrow> partition_id option \<Rightarrow> partition_id option" where
  "max_option None y = y"
| "max_option x None = x"
| "max_option (Some x) (Some y) = Some (max x y)"

text \<open>One fresh counter per listed partition.\<close>

definition new_gates :: "partition_id list \<Rightarrow> nat list \<Rightarrow> (partition_id \<times> advance_counter) list" where
  "new_gates ps cs = zip ps [length cs..<length cs + length ps]"

definition begin_epoch :: "partition_id list \<Rightarrow> nat \<Rightarrow> checkpointer \<Rightarrow> checkpointer option" where
  "begin_epoch ps e cp =
     (if epoch cp < e \<or> (epoch cp = 0 \<and> trackers cp = []) then
        Some (cp\<lparr>epoch := e,
                 trackers := amap_of (map (\<lambda>p. (p, tracker_new)) ps),
                 gates := amap_of (new_gates ps (counters cp)),
                 counters := counters cp @ replicate (length ps) 0,
                 admitted_through := max_partition ps,
                 shared_epoch := e\<rparr>)
      else None)"

definition extend_why :: "partition_id \<Rightarrow> checkpointer \<Rightarrow> string option" where
  "extend_why p cp =
     (if map_of (trackers cp) p \<noteq> None then Some ''is already tracked''
      else
        case admitted_through cp of
          None \<Rightarrow> None
        | Some mark \<Rightarrow>
            if p \<le> mark
            then Some (''is not above partition '' @ decimal (pid_val mark)
                        @ '', the highest admitted in this epoch'')
            else None)"

fun extend_check :: "partition_id list \<Rightarrow> checkpointer \<Rightarrow> fatal_error option" where
  "extend_check [] cp = None"
| "extend_check (p # ps) cp =
     (case extend_why p cp of
        None \<Rightarrow> extend_check ps cp
      | Some why \<Rightarrow>
          Some \<lparr>fe_component = ''checkpoint'',
                fe_reason = ''additive assignment added partition '' @ decimal (pid_val p) @ '' which ''
                  @ why @ ''; every added lane must carry a partition above any already admitted in this ''
                  @ ''epoch (a returning partition needs a new epoch)''\<rparr>)"

definition insert_tracker :: "partition_id \<Rightarrow> checkpointer \<Rightarrow> checkpointer" where
  "insert_tracker p cp =
     cp\<lparr>trackers := AList.update p tracker_new (trackers cp),
        gates := AList.update p (length (counters cp)) (gates cp),
        counters := counters cp @ [0]\<rparr>"

definition extend_epoch :: "partition_id list \<Rightarrow> checkpointer \<Rightarrow> (fatal_error + unit) \<times> checkpointer" where
  "extend_epoch ps cp =
     (case extend_check ps cp of
        Some e \<Rightarrow> (Inl e, cp)
      | None \<Rightarrow>
          (Inr (),
           (fold insert_tracker ps cp)\<lparr>admitted_through :=
              max_option (admitted_through cp) (max_partition ps)\<rparr>))"

definition revoke :: "partition_id list \<Rightarrow> checkpointer \<Rightarrow> checkpointer" where
  "revoke ps cp =
     fold (\<lambda>p cp. cp\<lparr>trackers := AList.delete p (trackers cp), gates := AList.delete p (gates cp)\<rparr>) ps cp"

definition advance_handle :: "partition_id \<Rightarrow> checkpointer \<Rightarrow> advance_counter option" where
  "advance_handle p cp = map_of (gates cp) p"

definition tracks :: "partition_id \<Rightarrow> checkpointer \<Rightarrow> bool" where
  "tracks p cp \<longleftrightarrow> map_of (trackers cp) p \<noteq> None"

section \<open>Draining\<close>

definition set_tracker :: "partition_id \<Rightarrow> partition_tracker \<Rightarrow> checkpointer \<Rightarrow> checkpointer" where
  "set_tracker p t cp = cp\<lparr>trackers := AList.update p t (trackers cp)\<rparr>"

text \<open>One iteration of \<open>drain_registrations\<close>, for a registration just received.\<close>

definition drain_registration ::
  "registration \<Rightarrow> drain_stats \<times> checkpointer \<Rightarrow> (drain_stats \<times> checkpointer) option" where
  "drain_registration reg s =
     (let (stats, cp) = s in
      if bid_epoch (reg_id reg) \<noteq> epoch cp then
        Some (stats\<lparr>stale_epoch := stale_epoch stats + 1\<rparr>, cp)
      else
        case map_of (trackers cp) (bid_partition (reg_id reg)) of
          Some t \<Rightarrow>
            map_option (\<lambda>t'. (stats, set_tracker (bid_partition (reg_id reg)) t' cp))
              (register (bid_seq (reg_id reg)) (reg_last_offset reg) t)
        | None \<Rightarrow> Some (stats\<lparr>stale_epoch := stale_epoch stats + 1\<rparr>, cp))"

fun drain_registrations ::
  "registration list \<Rightarrow> drain_stats \<times> checkpointer \<Rightarrow> (drain_stats \<times> checkpointer) option" where
  "drain_registrations [] s = Some s"
| "drain_registrations (reg # regs) s =
     (case drain_registration reg s of None \<Rightarrow> None | Some s' \<Rightarrow> drain_registrations regs s')"

text \<open>
  \<open>apply\<close>: the last component is what was pushed to the deferred list, which exists when
  \<open>defer\<close> is true.
\<close>

definition apply_ack ::
  "ack_msg \<Rightarrow> bool \<Rightarrow> drain_stats \<times> checkpointer \<Rightarrow> (drain_stats \<times> checkpointer) \<times> ack_msg list" where
  "apply_ack msg defer s =
     (let (stats, cp) = s in
      if bid_epoch (msg_id msg) \<noteq> epoch cp then
        ((stats\<lparr>stale_epoch := stale_epoch stats + 1\<rparr>, cp), [])
      else
        case map_of (trackers cp) (bid_partition (msg_id msg)) of
          None \<Rightarrow> ((stats\<lparr>stale_epoch := stale_epoch stats + 1\<rparr>, cp), [])
        | Some t \<Rightarrow>
            (case resolve (bid_seq (msg_id msg)) (msg_status msg) t of
               (outcome, t') \<Rightarrow>
                 let cp' = set_tracker (bid_partition (msg_id msg)) t' cp in
                 case outcome of
                   Applied \<Rightarrow> ((stats\<lparr>applied := applied stats + 1\<rparr>, cp'), [])
                 | Duplicate \<Rightarrow> ((stats\<lparr>duplicates := duplicates stats + 1\<rparr>, cp'), [])
                 | AlreadyAdvanced \<Rightarrow> ((stats\<lparr>duplicates := duplicates stats + 1\<rparr>, cp'), [])
                 | Unregistered \<Rightarrow>
                     if defer then ((stats, cp'), [msg])
                     else ((stats\<lparr>unknown := unknown stats + 1\<rparr>, cp'), [])))"

fun apply_acks ::
  "ack_msg list \<Rightarrow> bool \<Rightarrow> drain_stats \<times> checkpointer \<Rightarrow> (drain_stats \<times> checkpointer) \<times> ack_msg list" where
  "apply_acks [] defer s = (s, [])"
| "apply_acks (m # ms) defer s =
     (let (s1, d1) = apply_ack m defer s; (s2, d2) = apply_acks ms defer s1 in (s2, d1 @ d2))"

text \<open>
  \<open>drain\<close>, given what its three receive loops received: registrations, resolutions, and
  registrations again (read only when something was deferred).
\<close>

definition drain ::
  "registration list \<Rightarrow> ack_msg list \<Rightarrow> registration list \<Rightarrow> checkpointer
     \<Rightarrow> (drain_stats \<times> checkpointer) option" where
  "drain regs acks regs2 cp =
     (case drain_registrations regs (drain_stats_default, cp) of
        None \<Rightarrow> None
      | Some s \<Rightarrow>
          let (s', deferred) = apply_acks acks True s in
          if deferred = [] then Some s'
          else
            case drain_registrations regs2 s' of
              None \<Rightarrow> None
            | Some s'' \<Rightarrow> Some (fst (apply_acks deferred False s'')))"

section \<open>Watermarks\<close>

text \<open>
  One iteration of \<open>take_watermarks\<close>: the advanced tracker, the counters, and the watermark
  if the partition has one. \<open>clk p\<close> is the clock reading used if partition \<open>p\<close> stalls.
\<close>

definition take_one ::
  "(partition_id \<Rightarrow> instant) \<Rightarrow> (partition_id \<times> advance_counter) list \<Rightarrow> partition_id \<Rightarrow> partition_tracker
     \<Rightarrow> nat list \<Rightarrow> partition_tracker \<times> nat list \<times> (partition_id \<times> int) list" where
  "take_one clk gs p t cs =
     (let before = pending t;
          (watermark, t') = advance_on (clk p) t;
          retired = before - pending t';
          cs' = (if 0 < retired
                 then case map_of gs p of Some g \<Rightarrow> counter_add g retired cs | None \<Rightarrow> cs
                 else cs)
      in (t', cs', case watermark of Some w \<Rightarrow> [(p, w)] | None \<Rightarrow> []))"

fun take_all ::
  "(partition_id \<Rightarrow> instant) \<Rightarrow> (partition_id \<times> advance_counter) list
     \<Rightarrow> (partition_id \<times> partition_tracker) list \<Rightarrow> nat list
     \<Rightarrow> (partition_id \<times> partition_tracker) list \<times> nat list \<times> (partition_id \<times> int) list" where
  "take_all clk gs [] cs = ([], cs, [])"
| "take_all clk gs ((p, t) # ts) cs =
     (let (t', cs1, out1) = take_one clk gs p t cs;
          (ts', cs2, out2) = take_all clk gs ts cs1
      in ((p, t') # ts', cs2, out1 @ out2))"

definition take_watermarks ::
  "(partition_id \<Rightarrow> instant) \<Rightarrow> checkpointer \<Rightarrow> (partition_id \<times> int) list \<times> checkpointer" where
  "take_watermarks clk cp =
     (let (ts, cs, out) = take_all clk (gates cp) (trackers cp) (counters cp)
      in (sort_key fst out, cp\<lparr>trackers := ts, counters := cs\<rparr>))"

definition cp_pending :: "partition_id \<Rightarrow> checkpointer \<Rightarrow> nat" where
  "cp_pending p cp = (case map_of (trackers cp) p of None \<Rightarrow> 0 | Some t \<Rightarrow> pending t)"

definition max_pending :: "checkpointer \<Rightarrow> nat" where
  "max_pending cp = foldr max (map (pending \<circ> snd) (trackers cp)) 0"

definition pending_by_partition :: "checkpointer \<Rightarrow> (partition_id \<times> nat) list" where
  "pending_by_partition cp = sort_key fst (map (\<lambda>(p, t). (p, pending t)) (trackers cp))"

definition stalled_partitions :: "checkpointer \<Rightarrow> (partition_id \<times> instant) list" where
  "stalled_partitions cp =
     sort_key fst
       (concat (map (\<lambda>(p, t). case stalled_since t of None \<Rightarrow> [] | Some i \<Rightarrow> [(p, i)]) (trackers cp)))"

section \<open>Abstraction: one ledger per tracked partition\<close>

text \<open>
  \<open>cp_core\<close> relates the checkpointer to a map from tracked partitions to ledgers: trackers
  follow their ledgers, trackers and gates are in lockstep, no two partitions share a counter,
  and each counter holds the number of batches its partition's watermark has passed.
\<close>

definition cp_core :: "checkpointer \<Rightarrow> (partition_id \<rightharpoonup> ledger) \<Rightarrow> bool" where
  "cp_core cp L \<longleftrightarrow>
     distinct (akeys (trackers cp)) \<and> distinct (akeys (gates cp))
     \<and> (\<forall>p. rel_option tracks_ledger (map_of (trackers cp) p) (L p))
     \<and> dom (map_of (gates cp)) = dom L
     \<and> (\<forall>p g l. map_of (gates cp) p = Some g \<longrightarrow> L p = Some l \<longrightarrow>
          g < length (counters cp) \<and> counters cp ! g = committed l mod 2 ^ 64)
     \<and> (\<forall>p q g. map_of (gates cp) p = Some g \<longrightarrow> map_of (gates cp) q = Some g \<longrightarrow> p = q)"

definition cp_abs :: "checkpointer \<Rightarrow> (partition_id \<rightharpoonup> ledger) \<Rightarrow> bool" where
  "cp_abs cp L \<longleftrightarrow>
     cp_core cp L \<and> shared_epoch cp = epoch cp
     \<and> (\<forall>p \<in> dom L. \<exists>m. admitted_through cp = Some m \<and> p \<le> m)"

lemma cp_core_admitted [simp]: "cp_core (cp\<lparr>admitted_through := x\<rparr>) L = cp_core cp L"
  by (simp add: cp_core_def)

lemma cp_core_dom: "cp_core cp L \<Longrightarrow> map_of (trackers cp) p = None \<longleftrightarrow> L p = None"
  by (metis cp_core_def option.rel_distinct(1) option.rel_distinct(2) not_None_eq)

lemma cp_core_tracker:
  "cp_core cp L \<Longrightarrow> L p = Some l \<Longrightarrow> \<exists>t. map_of (trackers cp) p = Some t \<and> tracks_ledger t l"
  unfolding cp_core_def by (metis option.rel_cases option.distinct(1) option.inject)

lemma cp_abs_dom: "cp_abs cp L \<Longrightarrow> map_of (trackers cp) p = None \<longleftrightarrow> L p = None"
  using cp_core_dom by (auto simp: cp_abs_def)

lemma cp_abs_tracker:
  "cp_abs cp L \<Longrightarrow> L p = Some l \<Longrightarrow> \<exists>t. map_of (trackers cp) p = Some t \<and> tracks_ledger t l"
  unfolding cp_abs_def by (blast intro: cp_core_tracker)

lemma tracks_abs: "cp_core cp L \<Longrightarrow> tracks p cp \<longleftrightarrow> p \<in> dom L"
  by (auto simp: tracks_def cp_core_dom)

lemma cp_core_gate:
  assumes "cp_core cp L" and "map_of (gates cp) p = Some g"
  shows "\<exists>l. L p = Some l \<and> g < length (counters cp) \<and> counters cp ! g = committed l mod 2 ^ 64"
proof -
  from assms have "p \<in> dom L" unfolding cp_core_def by blast
  with assms show ?thesis unfolding cp_core_def by blast
qed

lemma cp_core_insert:
  assumes "cp_core cp L"
  shows "cp_core (insert_tracker p cp) (L(p \<mapsto> ledger_new))"
proof -
  note core = assms [unfolded cp_core_def]
  note gate = cp_core_gate [OF assms]
  show ?thesis
    unfolding cp_core_def
  proof (intro conjI allI impI)
    fix q g l
    assume g: "map_of (gates (insert_tracker p cp)) q = Some g" and l: "(L(p \<mapsto> ledger_new)) q = Some l"
    show "g < length (counters (insert_tracker p cp))"
      using g gate by (fastforce simp: insert_tracker_def split: if_splits)
    show "counters (insert_tracker p cp) ! g = committed l mod 2 ^ 64"
    proof (cases "q = p")
      case True
      with g l show ?thesis
        by (auto simp: insert_tracker_def ledger_new_def)
    next
      case False
      with g l gate [of q g] show ?thesis
        by (auto simp: insert_tracker_def nth_append)
    qed
  next
    fix q q' g
    assume "map_of (gates (insert_tracker p cp)) q = Some g"
      and "map_of (gates (insert_tracker p cp)) q' = Some g"
    moreover have "map_of (gates cp) x \<noteq> Some (length (counters cp))" for x
      using gate [of x] by force
    ultimately show "q = q'"
      using core by (auto simp: insert_tracker_def split: if_splits)
  qed (use core tracks_new in \<open>auto simp: insert_tracker_def\<close>)
qed

lemma cp_core_inserts:
  "cp_core cp L \<Longrightarrow>
     cp_core (fold insert_tracker ps cp) (\<lambda>p. if p \<in> set ps then Some ledger_new else L p)"
proof (induction ps arbitrary: cp L)
  case (Cons p ps)
  have "(\<lambda>q. if q \<in> set ps then Some ledger_new else (L(p \<mapsto> ledger_new)) q)
      = (\<lambda>q. if q \<in> set (p # ps) then Some ledger_new else L q)"
    by auto
  with Cons.IH [OF cp_core_insert [OF Cons.prems, of p]] show ?case by simp
qed simp

lemma insert_tracker_frame [simp]:
  "epoch (insert_tracker p cp) = epoch cp" "shared_epoch (insert_tracker p cp) = shared_epoch cp"
  "admitted_through (insert_tracker p cp) = admitted_through cp"
  by (simp_all add: insert_tracker_def)

lemma insert_trackers_frame [simp]:
  "epoch (fold insert_tracker ps cp) = epoch cp"
  "shared_epoch (fold insert_tracker ps cp) = shared_epoch cp"
  "admitted_through (fold insert_tracker ps cp) = admitted_through cp"
  by (induction ps arbitrary: cp) simp_all

lemma max_partition_ge: "p \<in> set ps \<Longrightarrow> \<exists>m. max_partition ps = Some m \<and> p \<le> m"
  by (induction ps) (auto simp: le_max_iff_disj split: option.splits)

lemma max_option_ge:
  "\<exists>m. x = Some m \<and> p \<le> m \<Longrightarrow> \<exists>m. max_option x y = Some m \<and> p \<le> m"
  "\<exists>m. y = Some m \<and> p \<le> m \<Longrightarrow> \<exists>m. max_option x y = Some m \<and> p \<le> m"
  by (cases x; cases y; auto simp: le_max_iff_disj)+

text \<open>Starting an epoch is inserting every partition into an empty map.\<close>

lemma begin_as_inserts_aux:
  "trackers (fold insert_tracker ps cp) = fold (\<lambda>(k, v) m. AList.update k v m) (map (\<lambda>p. (p, tracker_new)) ps) (trackers cp)"
  "gates (fold insert_tracker ps cp) = fold (\<lambda>(k, v) m. AList.update k v m) (new_gates ps (counters cp)) (gates cp)"
  "counters (fold insert_tracker ps cp) = counters cp @ replicate (length ps) 0"
proof (induction ps arbitrary: cp)
  case (Cons p ps)
  have gates: "new_gates (p # ps) (counters cp) = (p, length (counters cp)) # new_gates ps (counters cp @ [0])" for cp :: checkpointer
    by (simp add: new_gates_def upt_conv_Cons del: upt_Suc)
  { case 1 then show ?case using Cons.IH(1) by (simp add: insert_tracker_def) }
  { case 2 then show ?case using Cons.IH(2) by (simp add: insert_tracker_def gates) }
  { case 3 then show ?case using Cons.IH(3) by (simp add: insert_tracker_def) }
qed (simp_all add: new_gates_def)

lemma begin_as_inserts:
  assumes "begin_epoch ps e cp = Some cp'"
  shows "cp' = (fold insert_tracker ps (cp\<lparr>trackers := [], gates := [], epoch := e, shared_epoch := e\<rparr>))
                 \<lparr>admitted_through := max_partition ps\<rparr>"
  using assms
  by (auto simp: begin_epoch_def amap_of_def begin_as_inserts_aux split: if_splits intro!: checkpointer.equality)

lemma begin_epoch_abs:
  assumes "begin_epoch ps e cp = Some cp'"
  shows "cp_abs cp' (\<lambda>p. if p \<in> set ps then Some ledger_new else None)" and "epoch cp' = e"
proof -
  have "cp_core (cp\<lparr>trackers := [], gates := [], epoch := e, shared_epoch := e\<rparr>) (\<lambda>_. None)"
    by (auto simp: cp_core_def akeys_def)
  from cp_core_inserts [OF this, of ps]
  show "cp_abs cp' (\<lambda>p. if p \<in> set ps then Some ledger_new else None)"
    unfolding begin_as_inserts [OF assms] cp_abs_def
    using max_partition_ge by (simp add: dom_def)
  show "epoch cp' = e"
    by (simp add: begin_as_inserts [OF assms])
qed

lemma extend_check_None:
  "extend_check ps cp = None \<longleftrightarrow> (\<forall>p \<in> set ps. extend_why p cp = None)"
  by (induction ps) (auto split: option.splits)

lemma extend_why_None:
  "extend_why p cp = None \<longleftrightarrow>
     map_of (trackers cp) p = None \<and> (\<forall>m. admitted_through cp = Some m \<longrightarrow> m < p)"
  by (auto simp: extend_why_def not_le split: option.splits if_splits)

lemma extend_epoch_abs:
  assumes "cp_abs cp L" and "extend_epoch ps cp = (Inr (), cp')"
  shows "cp_abs cp' (\<lambda>p. if p \<in> set ps then Some ledger_new else L p)"
    and "epoch cp' = epoch cp"
    and "\<And>p m. p \<in> set ps \<Longrightarrow> admitted_through cp = Some m \<Longrightarrow> m < p"
    and "admitted_through cp' = max_option (admitted_through cp) (max_partition ps)"
proof -
  from assms(2) have check: "extend_check ps cp = None"
    and cp': "cp' = (fold insert_tracker ps cp)\<lparr>admitted_through :=
      max_option (admitted_through cp) (max_partition ps)\<rparr>"
    by (auto simp: extend_epoch_def split: option.splits)
  from assms(1) have core: "cp_core cp L" and dom: "p \<in> dom L \<Longrightarrow> \<exists>m. admitted_through cp = Some m \<and> p \<le> m" for p
    by (simp_all add: cp_abs_def)
  have "\<exists>m. admitted_through cp' = Some m \<and> p \<le> m" if "p \<in> set ps \<or> p \<in> dom L" for p
    using that dom [of p] max_partition_ge [of p ps]
    by (auto simp: cp' simp del: max_option.simps intro: max_option_ge)
  then show "cp_abs cp' (\<lambda>p. if p \<in> set ps then Some ledger_new else L p)"
    using cp_core_inserts [OF core, of ps] assms(1)
    by (simp add: cp_abs_def cp' dom_def)
  show "m < p" if "p \<in> set ps" "admitted_through cp = Some m" for p m
    using check that by (simp add: extend_check_None extend_why_None)
  show "epoch cp' = epoch cp"
    and "admitted_through cp' = max_option (admitted_through cp) (max_partition ps)"
    by (simp_all add: cp')
qed

lemma extend_epoch_error_unchanged: "extend_epoch ps cp = (Inl e, cp') \<Longrightarrow> cp' = cp"
  by (auto simp: extend_epoch_def split: option.splits)

lemma revoke_frame [simp]:
  "epoch (revoke ps cp) = epoch cp" "shared_epoch (revoke ps cp) = shared_epoch cp"
  "admitted_through (revoke ps cp) = admitted_through cp" "counters (revoke ps cp) = counters cp"
  unfolding revoke_def by (induction ps arbitrary: cp) simp_all

lemma cp_core_delete:
  "cp_core cp L \<Longrightarrow>
     cp_core (cp\<lparr>trackers := AList.delete p (trackers cp), gates := AList.delete p (gates cp)\<rparr>) (L(p := None))"
  unfolding cp_core_def by (auto split: if_splits)

lemma revoke_abs:
  assumes "cp_abs cp L"
  shows "cp_abs (revoke ps cp) (L |` (- set ps))"
proof -
  have "cp_core cp L \<Longrightarrow> cp_core (revoke ps cp) (L |` (- set ps))" for cp L
    unfolding revoke_def
  proof (induction ps arbitrary: cp L)
    case (Cons p ps)
    have eq: "(L(p := None)) |` (- set ps) = L |` (- set (p # ps))"
      by (auto simp: restrict_map_def)
    from Cons.IH [OF cp_core_delete [OF Cons.prems, of p]] show ?case
      unfolding eq by simp
  qed (simp add: restrict_map_def)
  with assms show ?thesis by (auto simp: cp_abs_def)
qed

lemma cp_core_set_tracker:
  assumes "cp_core cp L" and "L p = Some l" and "tracks_ledger t l'" and "committed l' = committed l"
  shows "cp_core (set_tracker p t cp) (L(p \<mapsto> l'))"
  using assms unfolding cp_core_def set_tracker_def by (auto split: if_splits)

lemma cp_abs_set_tracker:
  "cp_abs cp L \<Longrightarrow> L p = Some l \<Longrightarrow> tracks_ledger t l' \<Longrightarrow> committed l' = committed l \<Longrightarrow>
     cp_abs (set_tracker p t cp) (L(p \<mapsto> l'))"
  by (auto simp: cp_abs_def cp_core_set_tracker) (auto simp: set_tracker_def)

lemma set_tracker_frame [simp]:
  "epoch (set_tracker p t cp) = epoch cp" "admitted_through (set_tracker p t cp) = admitted_through cp"
  "gates (set_tracker p t cp) = gates cp" "counters (set_tracker p t cp) = counters cp"
  by (simp_all add: set_tracker_def)

section \<open>Draining on ledgers\<close>

definition ledgers_register ::
  "nat \<Rightarrow> registration \<Rightarrow> (partition_id \<rightharpoonup> ledger) \<Rightarrow> (partition_id \<rightharpoonup> ledger) option" where
  "ledgers_register e reg L =
     (case L (bid_partition (reg_id reg)) of
        Some l \<Rightarrow>
          if bid_epoch (reg_id reg) = e then
            map_option (\<lambda>l'. L(bid_partition (reg_id reg) \<mapsto> l'))
              (ledger_register (bid_seq (reg_id reg)) (reg_last_offset reg) l)
          else Some L
      | None \<Rightarrow> Some L)"

text \<open>The outcome is \<open>None\<close> for a resolution discarded as stale.\<close>

definition ledgers_resolve ::
  "nat \<Rightarrow> ack_msg \<Rightarrow> (partition_id \<rightharpoonup> ledger) \<Rightarrow> resolve_outcome option \<times> (partition_id \<rightharpoonup> ledger)" where
  "ledgers_resolve e msg L =
     (case L (bid_partition (msg_id msg)) of
        Some l \<Rightarrow>
          if bid_epoch (msg_id msg) = e then
            case ledger_resolve (bid_seq (msg_id msg)) (msg_status msg) l of
              (oc, l') \<Rightarrow> (Some oc, L(bid_partition (msg_id msg) \<mapsto> l'))
          else (None, L)
      | None \<Rightarrow> (None, L))"

lemma ledger_register_committed: "ledger_register seq off l = Some l' \<Longrightarrow> committed l' = committed l"
  by (auto simp: ledger_register_def split: if_splits)

lemma ledger_resolve_committed: "committed (snd (ledger_resolve seq st l)) = committed l"
  by (auto simp: ledger_resolve_def)

lemma drain_registration_abs:
  assumes "cp_abs cp L"
  shows "rel_option (\<lambda>(stats', cp') L'. cp_abs cp' L' \<and> epoch cp' = epoch cp
       \<and> admitted_through cp' = admitted_through cp
       \<and> duplicates stats' = duplicates stats \<and> unknown stats' = unknown stats)
     (drain_registration reg (stats, cp)) (ledgers_register (epoch cp) reg L)"
proof (cases "L (bid_partition (reg_id reg))")
  case None
  with assms have "map_of (trackers cp) (bid_partition (reg_id reg)) = None"
    by (simp add: cp_abs_dom)
  with None assms show ?thesis
    by (simp add: drain_registration_def ledgers_register_def)
next
  case (Some l)
  with assms obtain t where t: "map_of (trackers cp) (bid_partition (reg_id reg)) = Some t" "tracks_ledger t l"
    using cp_abs_tracker by blast
  from trk.register_law [OF t(2), of "bid_seq (reg_id reg)" "reg_last_offset reg"]
  show ?thesis
    using assms Some t(1) cp_abs_set_tracker [OF assms Some]
    by (auto simp: drain_registration_def ledgers_register_def ledger_register_committed
        elim!: option.rel_cases)
qed

lemma apply_ack_abs:
  assumes "cp_abs cp L" and "ledgers_resolve (epoch cp) msg L = (oc, L')"
    and "apply_ack msg defer (stats, cp) = ((stats', cp'), d)"
  shows "cp_abs cp' L' \<and> epoch cp' = epoch cp \<and> admitted_through cp' = admitted_through cp
    \<and> duplicates stats' = duplicates stats + (if oc \<in> {Some Duplicate, Some AlreadyAdvanced} then 1 else 0)
    \<and> unknown stats' = unknown stats + (if oc = Some Unregistered \<and> \<not> defer then 1 else 0)
    \<and> d = (if oc = Some Unregistered \<and> defer then [msg] else [])"
proof (cases "L (bid_partition (msg_id msg))")
  case None
  with assms(1) have "map_of (trackers cp) (bid_partition (msg_id msg)) = None"
    by (simp add: cp_abs_dom)
  with None assms show ?thesis
    by (auto simp: apply_ack_def ledgers_resolve_def split: if_splits)
next
  case (Some l)
  with assms(1) obtain t where t: "map_of (trackers cp) (bid_partition (msg_id msg)) = Some t" "tracks_ledger t l"
    using cp_abs_tracker by blast
  obtain oc1 t1 where r1: "resolve (bid_seq (msg_id msg)) (msg_status msg) t = (oc1, t1)" by fastforce
  obtain oc2 l2 where r2: "ledger_resolve (bid_seq (msg_id msg)) (msg_status msg) l = (oc2, l2)" by fastforce
  from trk.resolve_law [OF t(2), of "bid_seq (msg_id msg)" "msg_status msg"] r1 r2
  have eq: "oc1 = oc2" and tr: "tracks_ledger t1 l2" by simp_all
  have "committed l2 = committed l"
    using ledger_resolve_committed [of "bid_seq (msg_id msg)" "msg_status msg" l] r2 by simp
  from cp_abs_set_tracker [OF assms(1) Some tr this]
  have abs: "cp_abs (set_tracker (bid_partition (msg_id msg)) t1 cp) (L(bid_partition (msg_id msg) \<mapsto> l2))" .
  show ?thesis
  proof (cases "bid_epoch (msg_id msg) = epoch cp")
    case True
    with assms(2) Some r2 have "oc = Some oc2" and "L' = L(bid_partition (msg_id msg) \<mapsto> l2)"
      by (simp_all add: ledgers_resolve_def)
    with assms(3) True t(1) r1 eq abs show ?thesis
      by (cases oc2; cases "defer") (simp_all add: apply_ack_def, auto)
  next
    case False
    with assms Some show ?thesis
      by (auto simp: apply_ack_def ledgers_resolve_def)
  qed
qed

section \<open>Taking watermarks\<close>

lemma tracks_advance_pending:
  assumes "tracks_ledger t l"
  shows "pending t - pending (snd (advance_on now t)) = delivered_prefix (batches l) - committed l"
  using tracks_advance [OF assms, of now] assms delivered_prefix_le [of "batches l"]
  by (auto simp: tracks_ledger_def pending_def ledger_advance_def Let_def ledger_ok_def)

definition watermark_of :: "(partition_id \<Rightarrow> instant) \<Rightarrow> partition_id \<times> partition_tracker \<Rightarrow> (partition_id \<times> int) list" where
  "watermark_of clk = (\<lambda>(p, t). case fst (advance_on (clk p) t) of Some w \<Rightarrow> [(p, w)] | None \<Rightarrow> [])"

lemma take_all_trackers_out:
  "take_all clk gs ts cs = (ts', cs', out) \<Longrightarrow>
     ts' = map (\<lambda>(p, t). (p, snd (advance_on (clk p) t))) ts \<and> out = concat (map (watermark_of clk) ts)
     \<and> length cs' = length cs"
proof (induction ts arbitrary: cs ts' cs' out)
  case (Cons x ts)
  then show ?case
    by (cases x)
       (auto simp: take_one_def Let_def watermark_of_def counter_add_def
          split: prod.splits option.splits if_splits)
qed simp

lemma take_one_counter:
  assumes "take_one clk gs p t cs = (t', cs', out)" and "map_of gs p = Some g'" and "g < length cs" "g' < length cs"
    and "cs ! g < 2 ^ 64"
  shows "cs' ! g = (if g' = g then (cs ! g + (pending t - pending (snd (advance_on (clk p) t)))) mod 2 ^ 64 else cs ! g)"
  using assms
  by (auto simp: take_one_def Let_def counter_add_def split: prod.splits if_splits)

lemma take_one_other:
  assumes "take_one clk gs p t cs = (t', cs', out)" and "map_of gs p \<noteq> Some g"
  shows "cs' ! g = cs ! g" and "length cs' = length cs"
  using assms by (auto simp: take_one_def Let_def counter_add_def split: prod.splits option.splits if_splits)

lemma take_all_Cons:
  assumes "take_all clk gs ((p, t) # ts) cs = (ts', cs', out)"
  obtains t1 cs1 out1 ts2 out2 where "take_one clk gs p t cs = (t1, cs1, out1)"
    and "take_all clk gs ts cs1 = (ts2, cs', out2)" and "ts' = (p, t1) # ts2" and "out = out1 @ out2"
  using assms by (auto split: prod.splits)

lemma take_all_untouched:
  "take_all clk gs ts cs = (ts', cs', out) \<Longrightarrow> (\<forall>p \<in> fst ` set ts. map_of gs p \<noteq> Some g) \<Longrightarrow> cs' ! g = cs ! g"
proof (induction ts arbitrary: cs ts' cs' out)
  case (Cons x ts)
  obtain p t where x: "x = (p, t)" by fastforce
  from Cons.prems(1) [unfolded x] obtain t1 cs1 out1 ts2 out2 where
    one: "take_one clk gs p t cs = (t1, cs1, out1)" and rest: "take_all clk gs ts cs1 = (ts2, cs', out2)"
    by (rule take_all_Cons)
  have "cs1 ! g = cs ! g"
    by (rule take_one_other [OF one]) (use Cons.prems(2) x in simp)
  with Cons.IH [OF rest] Cons.prems(2) show ?case by simp
qed simp

lemma take_all_counter:
  "take_all clk gs ts cs = (ts', cs', out) \<Longrightarrow> distinct (map fst ts) \<Longrightarrow> (p, t) \<in> set ts \<Longrightarrow>
   map_of gs p = Some g \<Longrightarrow> (\<forall>q. q \<noteq> p \<longrightarrow> map_of gs q \<noteq> Some g) \<Longrightarrow> g < length cs \<Longrightarrow> cs ! g < 2 ^ 64 \<Longrightarrow>
     cs' ! g = (cs ! g + (pending t - pending (snd (advance_on (clk p) t)))) mod 2 ^ 64"
proof (induction ts arbitrary: cs ts' cs' out)
  case (Cons x ts)
  obtain q u where x: "x = (q, u)" by fastforce
  from Cons.prems(1) [unfolded x] obtain u1 cs1 out1 ts2 out2 where
    one: "take_one clk gs q u cs = (u1, cs1, out1)" and rest: "take_all clk gs ts cs1 = (ts2, cs', out2)"
    by (rule take_all_Cons)
  show ?case
  proof (cases "q = p")
    case True
    have "q \<notin> fst ` set ts" using Cons.prems(2) x by simp
    then have tu: "t = u" and others: "\<forall>r \<in> fst ` set ts. map_of gs r \<noteq> Some g"
      using Cons.prems(3,5) x True by (auto simp: image_iff)
    have "cs' ! g = cs1 ! g" by (rule take_all_untouched [OF rest others])
    also have "\<dots> = (cs ! g + (pending u - pending (snd (advance_on (clk q) u)))) mod 2 ^ 64"
      using take_one_counter [OF one, of g g] Cons.prems(4,6,7) True by simp
    finally show ?thesis by (simp only: tu True)
  next
    case False
    with Cons.prems x have p: "(p, t) \<in> set ts" by auto
    have "map_of gs q \<noteq> Some g" using False Cons.prems(5) by blast
    note other = take_one_other [OF one this]
    have "distinct (map fst ts)" using Cons.prems(2) by simp
    from Cons.IH [OF rest this p Cons.prems(4,5)] Cons.prems(6,7) show ?thesis
      unfolding other by blast
  qed
qed simp

lemma map_of_map_snd: "map_of (map (\<lambda>(p, t). (p, f p t)) ts) p = map_option (f p) (map_of ts p)"
  by (induction ts) auto

lemma akeys_map_snd [simp]: "akeys (map (\<lambda>(p, t). (p, f p t)) ts) = akeys ts"
  by (simp add: akeys_def case_prod_unfold comp_def)

lemma watermark_of_fst: "map fst (watermark_of clk (p, t)) = (if fst (advance_on (clk p) t) = None then [] else [p])"
  by (simp add: watermark_of_def split: option.splits)

lemma watermarks_distinct: "distinct (akeys ts) \<Longrightarrow> distinct (map fst (concat (map (watermark_of clk) ts)))"
proof (induction ts)
  case (Cons x ts)
  have "fst ` set (concat (map (watermark_of clk) ts)) \<subseteq> set (akeys ts)"
    by (auto simp: watermark_of_def akeys_def split: option.splits) force
  with Cons show ?case
    by (cases x) (auto simp: watermark_of_fst akeys_def)
qed simp

lemma cp_core_counter_advance:
  assumes core: "cp_core cp L"
    and take: "take_all clk (gates cp) (trackers cp) (counters cp) = (ts, cs, out)"
    and g: "map_of (gates cp) p = Some g" and l: "L p = Some l"
  shows "g < length cs \<and> cs ! g = delivered_prefix (batches l) mod 2 ^ 64"
proof -
  from cp_core_tracker [OF core l] obtain t where
    t: "map_of (trackers cp) p = Some t" "tracks_ledger t l" by blast
  have len: "length cs = length (counters cp)" and small: "g < length (counters cp)"
    and val: "counters cp ! g = committed l mod 2 ^ 64"
    using take_all_trackers_out [OF take] cp_core_gate [OF core g] l by auto
  have "cs ! g = (counters cp ! g + (pending t - pending (snd (advance_on (clk p) t)))) mod 2 ^ 64"
  proof (rule take_all_counter [OF take _ _ g _ small])
    show "distinct (map fst (trackers cp))" and "\<forall>q. q \<noteq> p \<longrightarrow> map_of (gates cp) q \<noteq> Some g"
      using core g unfolding cp_core_def akeys_def by blast+
    show "(p, t) \<in> set (trackers cp)" using t(1) by (rule map_of_SomeD)
    show "counters cp ! g < 2 ^ 64" by (simp add: val)
  qed
  also have "\<dots> = (committed l + (delivered_prefix (batches l) - committed l)) mod 2 ^ 64"
    by (simp add: val tracks_advance_pending [OF t(2)] mod_add_left_eq)
  also have "\<dots> = delivered_prefix (batches l) mod 2 ^ 64"
    using t(2) by (simp add: tracks_ledger_def ledger_ok_def)
  finally show ?thesis using len small by simp
qed

lemma take_watermarks_core:
  assumes "cp_core cp L" and "take_watermarks clk cp = (out, cp')"
  shows "cp_core cp' (\<lambda>p. map_option (snd \<circ> ledger_advance) (L p))"
proof -
  obtain ts cs o1 where take: "take_all clk (gates cp) (trackers cp) (counters cp) = (ts, cs, o1)"
    by (metis prod_cases3)
  have ts: "ts = map (\<lambda>(p, t). (p, snd (advance_on (clk p) t))) (trackers cp)"
    using take_all_trackers_out [OF take] by simp
  have cp': "cp' = cp\<lparr>trackers := ts, counters := cs\<rparr>"
    using assms(2) take by (simp add: take_watermarks_def)
  have rel: "rel_option tracks_ledger (map_of ts p) (map_option (snd \<circ> ledger_advance) (L p))" for p
  proof (cases "L p")
    case None
    with assms(1) show ?thesis
      by (simp add: ts map_of_map_snd cp_core_dom)
  next
    case (Some l)
    with cp_core_tracker [OF assms(1)] obtain t where "map_of (trackers cp) p = Some t" "tracks_ledger t l"
      by blast
    with Some show ?thesis
      using trk.advance_law by (simp add: ts map_of_map_snd)
  qed
  have cnt: "g < length cs \<and> cs ! g = committed l mod 2 ^ 64"
    if "map_of (gates cp) p = Some g" "map_option (snd \<circ> ledger_advance) (L p) = Some l" for p g l
    using that cp_core_counter_advance [OF assms(1) take that(1)]
    by (auto simp: ledger_advance_def Let_def)
  from assms(1) show ?thesis
    unfolding cp_core_def cp' using rel cnt by (auto simp: ts dom_map_option_comp [unfolded comp_def])
qed

lemma take_watermarks_out:
  assumes "cp_core cp L" and "take_watermarks clk cp = (out, cp')"
  shows "set out = {(p, w). \<exists>l. L p = Some l \<and> fst (ledger_advance l) = Some w}"
    and "sorted (map fst out)" and "distinct (map fst out)"
proof -
  obtain ts cs o1 where take: "take_all clk (gates cp) (trackers cp) (counters cp) = (ts, cs, o1)"
    by (metis prod_cases3)
  from take_all_trackers_out [OF take] assms(2) take
  have out: "out = sort_key fst (concat (map (watermark_of clk) (trackers cp)))"
    by (simp add: take_watermarks_def)
  show "sorted (map fst out)" by (simp add: out)
  have dist: "distinct (akeys (trackers cp))" using assms(1) by (simp add: cp_core_def)
  from watermarks_distinct [OF this, of clk] show "distinct (map fst out)"
    unfolding out by (metis distinct_map mset_eq_imp_distinct_iff mset_sort set_sort)
  have "(p, w) \<in> set out \<longleftrightarrow> (\<exists>t. map_of (trackers cp) p = Some t \<and> fst (advance_on (clk p) t) = Some w)" for p w
    using dist by (force simp: out watermark_of_def akeys_def split: option.splits)
  moreover have "(\<exists>t. map_of (trackers cp) p = Some t \<and> fst (advance_on (clk p) t) = Some w)
      \<longleftrightarrow> (\<exists>l. L p = Some l \<and> fst (ledger_advance l) = Some w)" for p w
  proof (cases "L p")
    case None
    then show ?thesis using cp_core_dom [OF assms(1), of p] by simp
  next
    case (Some l)
    with cp_core_tracker [OF assms(1) Some] show ?thesis
      using trk.advance_law by auto
  qed
  ultimately show "set out = {(p, w). \<exists>l. L p = Some l \<and> fst (ledger_advance l) = Some w}"
    by auto
qed

lemma take_watermarks_frame:
  "take_watermarks clk cp = (out, cp') \<Longrightarrow>
     epoch cp' = epoch cp \<and> shared_epoch cp' = shared_epoch cp \<and> admitted_through cp' = admitted_through cp
     \<and> gates cp' = gates cp"
  by (auto simp: take_watermarks_def split: prod.splits)

lemma take_watermarks_abs:
  assumes "cp_abs cp L" and "take_watermarks clk cp = (out, cp')"
  shows "cp_abs cp' (\<lambda>p. map_option (snd \<circ> ledger_advance) (L p))"
  using assms take_watermarks_core [of cp L clk out cp'] take_watermarks_frame [OF assms(2)]
  by (auto simp: cp_abs_def dom_def)

end
