(* ===== verification/Checkpoint_System.thy ===== *)
theory Checkpoint_System
  imports Checkpointer
begin

text \<open>
  The checkpoint subsystem as it runs: pipeline threads issue batches, handles are cloned,
  failed and dropped anywhere, and the controller thread drains the two channels, changes the
  assignment and takes watermarks, all interleaved.

  An issue is two steps, because another thread may act between the load of \<open>shared_epoch\<close>
  and the send of the registration. A drain is one step per received message, with the phases
  of \<open>Checkpointer::drain\<close> in between, because producers keep sending while it runs. The
  channels are unbounded FIFO queues: a log of everything sent and a read position.

  Two things the runtime around the checkpointer guarantees appear as guards. A thread issues
  for a partition only while it owns it in the published epoch (\<open>s_owner\<close>, set when the
  controller distributes lanes after \<open>begin_epoch\<close> or \<open>extend_epoch\<close>), and the controller
  starts epochs with increasing numbers. A revoked partition keeps its owner: the code allows
  an issuer to go on issuing for it until the epoch ends.
\<close>

section \<open>State\<close>

datatype phase =
    Idle
  | Regs1
  | AckLoop "ack_msg list"
  | Regs2 "ack_msg list"
  | ApplyDeferred "ack_msg list"

fun deferred_of :: "phase \<Rightarrow> ack_msg list" where
  "deferred_of (AckLoop d) = d"
| "deferred_of (Regs2 d) = d"
| "deferred_of (ApplyDeferred d) = d"
| "deferred_of _ = []"

type_synonym thread = nat

record sys =
  s_cp :: checkpointer
  s_stats :: drain_stats
  s_phase :: phase
  s_regs :: "registration list"
  s_reg_read :: nat
  s_heap :: ack_heap
  s_ack_read :: nat
  s_issuers :: "thread \<Rightarrow> ack_issuer"
  s_issuing :: "thread \<Rightarrow> (batch_id \<times> int) option"
  s_owner :: "nat \<Rightarrow> partition_id \<Rightarrow> thread option"
  s_panicked :: bool

definition sys_init :: sys where
  "sys_init =
     \<lparr>s_cp = checkpointer_new, s_stats = drain_stats_default, s_phase = Idle, s_regs = [], s_reg_read = 0,
      s_heap = heap_empty, s_ack_read = 0, s_issuers = (\<lambda>_. handle checkpointer_new),
      s_issuing = (\<lambda>_. None), s_owner = (\<lambda>_ _. None), s_panicked = False\<rparr>"

text \<open>
  What the rest of the pipeline may do to the heap between two checkpoint steps: any number
  of clones, fails and drops. Every operation of \<open>Acks\<close> other than \<open>ackref_new\<close> is an instance.
\<close>

definition heap_env :: "ack_heap \<Rightarrow> ack_heap \<Rightarrow> bool" where
  "heap_env h h' \<longleftrightarrow> heap_le h h' \<and> length (arena h') = length (arena h) \<and> outbox_ok h'"

section \<open>Steps\<close>

inductive cp_step :: "sys \<Rightarrow> sys \<Rightarrow> bool" where
  issue_load:
    "s_issuing s t = None \<Longrightarrow> s_owner s (shared_epoch (s_cp s)) p = Some t \<Longrightarrow>
     issue_id (shared_epoch (s_cp s)) p (s_issuers s t) = (b, i) \<Longrightarrow>
     cp_step s (s\<lparr>s_issuing := (s_issuing s)(t := Some (b, off)), s_issuers := (s_issuers s)(t := i)\<rparr>)"
| issue_send:
    "s_issuing s t = Some (b, off) \<Longrightarrow> ackref_new b off (s_heap s) = (r, h) \<Longrightarrow>
     cp_step s (s\<lparr>s_regs := s_regs s @ [\<lparr>reg_id = b, reg_last_offset = off\<rparr>], s_heap := h,
                  s_issuing := (s_issuing s)(t := None)\<rparr>)"
| handles:
    "heap_env (s_heap s) h \<Longrightarrow> cp_step s (s\<lparr>s_heap := h\<rparr>)"
| drain_start:
    "s_phase s = Idle \<Longrightarrow> cp_step s (s\<lparr>s_phase := Regs1, s_stats := drain_stats_default\<rparr>)"
| recv_registration:
    "s_phase s = Regs1 \<or> s_phase s = Regs2 d \<Longrightarrow> s_reg_read s < length (s_regs s) \<Longrightarrow>
     drain_registration (s_regs s ! s_reg_read s) (s_stats s, s_cp s) = Some (stats, cp) \<Longrightarrow>
     cp_step s (s\<lparr>s_reg_read := s_reg_read s + 1, s_stats := stats, s_cp := cp\<rparr>)"
| recv_registration_panic:
    "s_phase s = Regs1 \<or> s_phase s = Regs2 d \<Longrightarrow> s_reg_read s < length (s_regs s) \<Longrightarrow>
     drain_registration (s_regs s ! s_reg_read s) (s_stats s, s_cp s) = None \<Longrightarrow>
     cp_step s (s\<lparr>s_panicked := True\<rparr>)"
| registrations_empty:
    "s_phase s = Regs1 \<Longrightarrow> s_reg_read s = length (s_regs s) \<Longrightarrow> cp_step s (s\<lparr>s_phase := AckLoop []\<rparr>)"
| recv_ack:
    "s_phase s = AckLoop d \<Longrightarrow> s_ack_read s < length (ack_tx (s_heap s)) \<Longrightarrow>
     apply_ack (ack_tx (s_heap s) ! s_ack_read s) True (s_stats s, s_cp s) = ((stats, cp), d') \<Longrightarrow>
     cp_step s (s\<lparr>s_ack_read := s_ack_read s + 1, s_stats := stats, s_cp := cp, s_phase := AckLoop (d @ d')\<rparr>)"
| acks_empty:
    "s_phase s = AckLoop d \<Longrightarrow> s_ack_read s = length (ack_tx (s_heap s)) \<Longrightarrow>
     cp_step s (s\<lparr>s_phase := (if d = [] then Idle else Regs2 d)\<rparr>)"
| registrations_empty2:
    "s_phase s = Regs2 d \<Longrightarrow> s_reg_read s = length (s_regs s) \<Longrightarrow> cp_step s (s\<lparr>s_phase := ApplyDeferred d\<rparr>)"
| apply_deferred:
    "s_phase s = ApplyDeferred (m # d) \<Longrightarrow>
     apply_ack m False (s_stats s, s_cp s) = ((stats, cp), d') \<Longrightarrow>
     cp_step s (s\<lparr>s_stats := stats, s_cp := cp, s_phase := ApplyDeferred d\<rparr>)"
| drain_done:
    "s_phase s = ApplyDeferred [] \<Longrightarrow> cp_step s (s\<lparr>s_phase := Idle\<rparr>)"
| begin_epoch:
    "s_phase s = Idle \<Longrightarrow> epoch (s_cp s) < e \<Longrightarrow> begin_epoch ps e (s_cp s) = Some cp \<Longrightarrow>
     (\<forall>p. own p \<noteq> None \<longrightarrow> p \<in> set ps) \<Longrightarrow>
     cp_step s (s\<lparr>s_cp := cp, s_owner := (s_owner s)(e := own)\<rparr>)"
| extend_epoch:
    "s_phase s = Idle \<Longrightarrow> extend_epoch ps (s_cp s) = (Inr (), cp) \<Longrightarrow>
     cp_step s (s\<lparr>s_cp := cp,
                  s_owner := (s_owner s)(epoch (s_cp s) :=
                    (\<lambda>p. if p \<in> set ps then own p else s_owner s (epoch (s_cp s)) p))\<rparr>)"
| extend_epoch_rejected:
    "s_phase s = Idle \<Longrightarrow> extend_epoch ps (s_cp s) = (Inl err, cp) \<Longrightarrow> cp_step s (s\<lparr>s_cp := cp\<rparr>)"
| revoke:
    "s_phase s = Idle \<Longrightarrow> cp_step s (s\<lparr>s_cp := revoke ps (s_cp s)\<rparr>)"
| take_watermarks:
    "s_phase s = Idle \<Longrightarrow> take_watermarks clk (s_cp s) = (out, cp) \<Longrightarrow> cp_step s (s\<lparr>s_cp := cp\<rparr>)"

inductive cp_reachable :: "sys \<Rightarrow> bool" where
  init: "cp_reachable sys_init"
| step: "cp_reachable s \<Longrightarrow> cp_step s s' \<Longrightarrow> cp_reachable s'"

section \<open>Sequence numbers are contiguous\<close>

definition regs_of :: "partition_id \<Rightarrow> nat \<Rightarrow> registration list \<Rightarrow> registration list" where
  "regs_of p e rs = filter (\<lambda>r. bid_partition (reg_id r) = p \<and> bid_epoch (reg_id r) = e) rs"

definition seq_of :: "partition_id \<Rightarrow> ack_issuer \<Rightarrow> nat" where
  "seq_of p i = (case map_of (seqs i) p of None \<Rightarrow> 0 | Some n \<Rightarrow> n)"

definition in_issue :: "(batch_id \<times> int) option \<Rightarrow> partition_id \<Rightarrow> nat \<Rightarrow> nat" where
  "in_issue x p e =
     (case x of Some (b, off) \<Rightarrow> if bid_partition b = p \<and> bid_epoch b = e then 1 else 0 | None \<Rightarrow> 0)"

text \<open>
  The invariant of the issuing side, over the parts of the state it mentions: the current
  epoch and admission mark, the ownership map, the issuers, the issues under way, and the
  registrations sent so far.
\<close>

definition owned_once :: "nat \<Rightarrow> partition_id option \<Rightarrow> (nat \<Rightarrow> partition_id \<Rightarrow> thread option) \<Rightarrow> bool" where
  "owned_once E adm own \<longleftrightarrow>
     (\<forall>e p. E < e \<longrightarrow> own e p = None) \<and> (\<forall>p t. own E p = Some t \<longrightarrow> (\<exists>m. adm = Some m \<and> p \<le> m))"

definition issuer_ok ::
  "nat \<Rightarrow> (nat \<Rightarrow> partition_id \<Rightarrow> thread option) \<Rightarrow> registration list
     \<Rightarrow> thread \<Rightarrow> ack_issuer \<Rightarrow> (batch_id \<times> int) option \<Rightarrow> bool" where
  "issuer_ok E own rs t i x \<longleftrightarrow>
     local_epoch i \<le> E
     \<and> (\<forall>p. map_of (seqs i) p \<noteq> None \<longrightarrow> own (local_epoch i) p = Some t)
     \<and> (\<forall>b off. x = Some (b, off) \<longrightarrow>
          own (bid_epoch b) (bid_partition b) = Some t \<and> bid_epoch b = local_epoch i
          \<and> bid_seq b = length (regs_of (bid_partition b) (bid_epoch b) rs))
     \<and> (\<forall>p. own (local_epoch i) p = Some t \<longrightarrow>
          seq_of p i = length (regs_of p (local_epoch i) rs) + in_issue x p (local_epoch i))
     \<and> (\<forall>p e. local_epoch i < e \<longrightarrow> own e p = Some t \<longrightarrow> regs_of p e rs = [])"

definition regs_ok :: "nat \<Rightarrow> (nat \<Rightarrow> partition_id \<Rightarrow> thread option) \<Rightarrow> registration list \<Rightarrow> bool" where
  "regs_ok E own rs \<longleftrightarrow>
     (\<forall>r \<in> set rs. bid_epoch (reg_id r) \<le> E \<and> own (bid_epoch (reg_id r)) (bid_partition (reg_id r)) \<noteq> None)
     \<and> (\<forall>p e. map (\<lambda>r. bid_seq (reg_id r)) (regs_of p e rs) = [0..<length (regs_of p e rs)])"

definition issue_inv :: "sys \<Rightarrow> bool" where
  "issue_inv s \<longleftrightarrow>
     owned_once (epoch (s_cp s)) (admitted_through (s_cp s)) (s_owner s)
     \<and> regs_ok (epoch (s_cp s)) (s_owner s) (s_regs s)
     \<and> (\<forall>t. issuer_ok (epoch (s_cp s)) (s_owner s) (s_regs s) t (s_issuers s t) (s_issuing s t))"

lemma regs_of_simps [simp]:
  "regs_of p e [] = []"
  "regs_of p e (xs @ ys) = regs_of p e xs @ regs_of p e ys"
  "regs_of p e [r] = (if bid_partition (reg_id r) = p \<and> bid_epoch (reg_id r) = e then [r] else [])"
  by (simp_all add: regs_of_def)

lemma seq_of_update [simp]:
  "seq_of p (i\<lparr>seqs := AList.update q n (seqs i)\<rparr>) = (if p = q then n else seq_of p i)"
  by (simp add: seq_of_def)

lemma issue_id_eq:
  "issue_id e p i = (b, i') \<longleftrightarrow>
     (let j = (if e \<noteq> local_epoch i then \<lparr>local_epoch = e, seqs = []\<rparr> else i)
      in b = \<lparr>bid_partition = p, bid_epoch = e, bid_seq = seq_of p j\<rparr>
         \<and> i' = j\<lparr>seqs := AList.update p (seq_of p j + 1) (seqs j)\<rparr>)"
  by (auto simp: issue_id_def seq_of_def Let_def)

lemma issuer_ok_restart:
  "issuer_ok E own rs t i None \<Longrightarrow> local_epoch i \<noteq> E \<Longrightarrow> issuer_ok E own rs t \<lparr>local_epoch = E, seqs = []\<rparr> None"
  by (auto simp: issuer_ok_def seq_of_def in_issue_def)

lemma issuer_ok_load_same:
  assumes "issuer_ok E own rs t i None" and "local_epoch i = E" and "own E p = Some t"
  shows "issuer_ok E own rs t (i\<lparr>seqs := AList.update p (seq_of p i + 1) (seqs i)\<rparr>)
           (Some (\<lparr>bid_partition = p, bid_epoch = E, bid_seq = seq_of p i\<rparr>, off))"
  using assms unfolding issuer_ok_def
  by (auto simp: in_issue_def split: if_splits)

lemma issuer_ok_load:
  assumes "issuer_ok E own rs t i None" and "own E p = Some t" and "issue_id E p i = (b, i')"
  shows "issuer_ok E own rs t i' (Some (b, off))"
proof (cases "local_epoch i = E")
  case True
  then show ?thesis
    using assms issuer_ok_load_same [OF assms(1) True assms(2), of off]
    by (simp add: issue_id_eq Let_def)
next
  case False
  from issuer_ok_load_same [OF issuer_ok_restart [OF assms(1) False] _ assms(2), of off] assms(3) False
  show ?thesis by (simp add: issue_id_eq Let_def)
qed

lemma issuer_ok_send_own:
  assumes "issuer_ok E own rs t i (Some (b, off))"
  shows "issuer_ok E own (rs @ [\<lparr>reg_id = b, reg_last_offset = off\<rparr>]) t i None"
  using assms unfolding issuer_ok_def by (auto simp: in_issue_def)

lemma issuer_ok_send_other:
  assumes "issuer_ok E own rs t i x" and "own (bid_epoch b) (bid_partition b) = Some t'" and "t' \<noteq> t"
  shows "issuer_ok E own (rs @ [\<lparr>reg_id = b, reg_last_offset = off\<rparr>]) t i x"
  using assms unfolding issuer_ok_def by (auto simp: in_issue_def)

lemma regs_ok_send:
  assumes "regs_ok E own rs" and "issuer_ok E own rs t i (Some (b, off))"
  shows "regs_ok E own (rs @ [\<lparr>reg_id = b, reg_last_offset = off\<rparr>])"
  using assms unfolding issuer_ok_def regs_ok_def by auto

lemma issue_inv_init: "issue_inv sys_init"
  by (simp add: issue_inv_def sys_init_def checkpointer_new_def handle_def owned_once_def regs_ok_def
      issuer_ok_def seq_of_def in_issue_def)

lemma regs_of_empty: "(\<And>r. r \<in> set rs \<Longrightarrow> bid_epoch (reg_id r) = e \<Longrightarrow> bid_partition (reg_id r) \<noteq> p) \<Longrightarrow> regs_of p e rs = []"
  by (auto simp: regs_of_def filter_empty_conv)

lemma issue_begin:
  assumes "E < e" and "\<forall>p. o1 p \<noteq> None \<longrightarrow> (\<exists>m. adm' = Some m \<and> p \<le> m)"
    and "owned_once E adm own" and "regs_ok E own rs" and "\<forall>t. issuer_ok E own rs t (iss t) (isg t)"
  shows "owned_once e adm' (own(e := o1))" and "regs_ok e (own(e := o1)) rs"
    and "\<forall>t. issuer_ok e (own(e := o1)) rs t (iss t) (isg t)"
proof -
  show "owned_once e adm' (own(e := o1))" "regs_ok e (own(e := o1)) rs"
    using assms(1-4) by (force simp: owned_once_def, force simp: regs_ok_def)
  have "regs_of p e rs = []" for p
    using assms(1,4) by (intro regs_of_empty) (auto simp: regs_ok_def)
  then have "issuer_ok E own rs t i x \<Longrightarrow> issuer_ok e (own(e := o1)) rs t i x" for t i x
    using assms(1) unfolding issuer_ok_def by auto
  then show "\<forall>t. issuer_ok e (own(e := o1)) rs t (iss t) (isg t)"
    using assms(5) by blast
qed

lemma issue_extend:
  assumes "\<And>p m. p \<in> P \<Longrightarrow> adm = Some m \<Longrightarrow> m < p"
    and "\<And>p. p \<in> P \<or> (\<exists>m. adm = Some m \<and> p \<le> m) \<Longrightarrow> \<exists>m. adm' = Some m \<and> p \<le> m"
    and "owned_once E adm own" and "regs_ok E own rs" and "\<forall>t. issuer_ok E own rs t (iss t) (isg t)"
    and own'_def: "own' = own(E := \<lambda>p. if p \<in> P then o1 p else own E p)"
  shows "owned_once E adm' own'" and "regs_ok E own' rs" and "\<forall>t. issuer_ok E own' rs t (iss t) (isg t)"
proof -
  have fresh: "own E p = None" if "p \<in> P" for p
    using assms(1) [OF that] assms(3) by (metis linorder_not_le option.exhaust owned_once_def)
  have none: "regs_of p E rs = []" if "p \<in> P" for p
    using fresh [OF that] assms(4) by (intro regs_of_empty) (auto simp: regs_ok_def)
  show "owned_once E adm' own'"
    using assms(2,3) unfolding owned_once_def own'_def by (auto split: if_splits)
  show "regs_ok E own' rs"
    using assms(4) fresh unfolding regs_ok_def own'_def by auto
  show "\<forall>t. issuer_ok E own' rs t (iss t) (isg t)"
  proof
    fix t
    from assms(5) have ok: "issuer_ok E own rs t (iss t) (isg t)" by blast
    have "seq_of p (iss t) = 0" and "in_issue (isg t) p E = 0" if "p \<in> P" "local_epoch (iss t) = E" for p
      using ok fresh [OF that(1)] that(2)
      by (auto simp: issuer_ok_def seq_of_def in_issue_def split: option.splits)
    then show "issuer_ok E own' rs t (iss t) (isg t)"
      using ok fresh none unfolding issuer_ok_def own'_def by (auto split: if_splits)
  qed
qed

lemma regs_ok_seq_bound:
  assumes "regs_ok E own rs" and "r \<in> set (regs_of p e rs)"
  shows "bid_seq (reg_id r) < length (regs_of p e rs)"
proof -
  from assms(2) have "bid_seq (reg_id r) \<in> set (map (\<lambda>r. bid_seq (reg_id r)) (regs_of p e rs))" by simp
  also have "\<dots> = {0..<length (regs_of p e rs)}"
    using assms(1) by (simp only: regs_ok_def set_upt)
  finally show ?thesis by simp
qed

lemma upt_prefix: "xs @ ys = [0..<n] \<Longrightarrow> xs = [0..<length xs]"
  by (metis append_eq_conv_conj length_append length_upt diff_zero le_add1 take_upt add_0)

lemma regs_ok_prefix: "regs_ok E own (rs @ rs') \<Longrightarrow> regs_ok E own rs"
  unfolding regs_ok_def
proof (intro conjI allI)
  fix p e
  assume "(\<forall>r\<in>set (rs @ rs'). bid_epoch (reg_id r) \<le> E \<and> own (bid_epoch (reg_id r)) (bid_partition (reg_id r)) \<noteq> None)
     \<and> (\<forall>p e. map (\<lambda>r. bid_seq (reg_id r)) (regs_of p e (rs @ rs')) = [0..<length (regs_of p e (rs @ rs'))])"
  then have "map (\<lambda>r. bid_seq (reg_id r)) (regs_of p e rs) @ map (\<lambda>r. bid_seq (reg_id r)) (regs_of p e rs')
      = [0..<length (regs_of p e rs) + length (regs_of p e rs')]"
    by simp
  from upt_prefix [OF this] show "map (\<lambda>r. bid_seq (reg_id r)) (regs_of p e rs) = [0..<length (regs_of p e rs)]"
    by simp
qed simp

lemma regs_ok_take: "regs_ok E own rs \<Longrightarrow> regs_ok E own (take n rs)"
  by (metis append_take_drop_id regs_ok_prefix)

lemma regs_ok_next:
  assumes "regs_ok E own rs" and "n < length rs"
  shows "bid_seq (reg_id (rs ! n))
    = length (regs_of (bid_partition (reg_id (rs ! n))) (bid_epoch (reg_id (rs ! n))) (take n rs))"
proof -
  let ?p = "bid_partition (reg_id (rs ! n))" and ?e = "bid_epoch (reg_id (rs ! n))"
  have "regs_ok E own (take n rs @ [rs ! n])"
    using regs_ok_take [OF assms(1), of "Suc n"] assms(2) by (simp add: take_Suc_conv_app_nth)
  then have "map (\<lambda>r. bid_seq (reg_id r)) (regs_of ?p ?e (take n rs @ [rs ! n]))
      = [0..<length (regs_of ?p ?e (take n rs @ [rs ! n]))]"
    unfolding regs_ok_def by blast
  then show ?thesis by simp
qed

lemma regs_ok_distinct:
  assumes "regs_ok E own rs"
  shows "distinct (map reg_id rs)"
proof -
  have "regs_ok E own rs \<Longrightarrow> distinct (map reg_id rs)"
  proof (induction rs rule: rev_induct)
    case (snoc r rs)
    then have "distinct (map reg_id rs)" and ok: "regs_ok E own rs"
      using regs_ok_prefix by blast+
    moreover have "reg_id r \<notin> reg_id ` set rs"
    proof
      assume "reg_id r \<in> reg_id ` set rs"
      then obtain r' where r': "r' \<in> set rs" "reg_id r' = reg_id r" by auto
      let ?p = "bid_partition (reg_id r)" and ?e = "bid_epoch (reg_id r)"
      have "bid_seq (reg_id r') < length (regs_of ?p ?e rs)"
        by (rule regs_ok_seq_bound [OF ok]) (use r' in \<open>simp add: regs_of_def\<close>)
      with regs_ok_next [OF snoc.prems, of "length rs"] r'(2) show False by simp
    qed
    ultimately show ?case by simp
  qed simp
  then show ?thesis using assms .
qed

section \<open>The channels\<close>

definition chan_inv :: "sys \<Rightarrow> bool" where
  "chan_inv s \<longleftrightarrow>
     outbox_ok (s_heap s)
     \<and> map state_id (arena (s_heap s)) = map reg_id (s_regs s)
     \<and> map state_last_offset (arena (s_heap s)) = map reg_last_offset (s_regs s)
     \<and> s_reg_read s \<le> length (s_regs s) \<and> s_ack_read s \<le> length (ack_tx (s_heap s))"

lemma outbox_ids_distinct:
  assumes "outbox_ok h" and "distinct (map state_id (arena h))"
  shows "distinct (map msg_id (ack_tx h))"
proof -
  have id: "msg_id (ack_state_drop c) = state_id c" for c
    by (simp add: ack_state_drop_def)
  have "mset (map msg_id (ack_tx h)) = image_mset state_id (filter_mset (\<lambda>s. state_refs s = 0) (mset (arena h)))"
    using assms(1) by (simp add: outbox_ok_def image_mset.compositionality comp_def id)
  also have "\<dots> \<subseteq># mset (map state_id (arena h))"
    by (simp add: image_mset_subseteq_mono)
  finally show ?thesis
    using assms(2) by (rule distinct_sub_mset)
qed

lemma chan_msg_registered:
  assumes "chan_inv s" and "m \<in> set (ack_tx (s_heap s))"
  shows "msg_id m \<in> reg_id ` set (s_regs s)"
proof -
  from assms obtain r where "r < length (arena (s_heap s))" "m = ack_state_drop (arena (s_heap s) ! r)"
    using in_outbox_resolved [of "s_heap s" m] by (auto simp: chan_inv_def)
  then have "msg_id m \<in> set (map state_id (arena (s_heap s)))"
    by (simp add: ack_state_drop_def)
  with assms(1) show ?thesis by (simp add: chan_inv_def)
qed

section \<open>Ledgers follow the channels\<close>

text \<open>
  \<open>ledger_matches E rs A p l\<close>: the ledger of a tracked partition holds the registrations read
  so far (\<open>rs\<close>) for the partition and the current epoch, and its resolutions are exactly the
  messages applied so far (\<open>A\<close>).
\<close>

definition ledger_matches :: "nat \<Rightarrow> registration list \<Rightarrow> ack_msg set \<Rightarrow> partition_id \<Rightarrow> ledger \<Rightarrow> bool" where
  "ledger_matches E rs A p l \<longleftrightarrow>
     map fst (batches l) = map reg_last_offset (regs_of p E rs)
     \<and> (\<forall>m \<in> A. bid_partition (msg_id m) = p \<longrightarrow> bid_epoch (msg_id m) = E \<longrightarrow>
          bid_seq (msg_id m) < length (batches l)
          \<and> snd (batches l ! bid_seq (msg_id m)) = Some (msg_status m))
     \<and> (\<forall>i < length (batches l). snd (batches l ! i) \<noteq> None \<longrightarrow>
          (\<exists>m \<in> A. msg_id m = \<lparr>bid_partition = p, bid_epoch = E, bid_seq = i\<rparr>))"

definition applied_msgs :: "sys \<Rightarrow> ack_msg set" where
  "applied_msgs s = set (take (s_ack_read s) (ack_tx (s_heap s))) - set (deferred_of (s_phase s))"

definition apply_inv :: "sys \<Rightarrow> (partition_id \<rightharpoonup> ledger) \<Rightarrow> bool" where
  "apply_inv s L \<longleftrightarrow>
     cp_abs (s_cp s) L
     \<and> (\<forall>p l. L p = Some l \<longrightarrow>
          ledger_matches (epoch (s_cp s)) (take (s_reg_read s) (s_regs s)) (applied_msgs s) p l)
     \<and> set (deferred_of (s_phase s)) \<subseteq> set (take (s_ack_read s) (ack_tx (s_heap s)))
     \<and> distinct (deferred_of (s_phase s))
     \<and> (\<forall>d. s_phase s = ApplyDeferred d \<longrightarrow>
          (\<forall>m \<in> set d. msg_id m \<in> reg_id ` set (take (s_reg_read s) (s_regs s))))
     \<and> \<not> s_panicked s \<and> unknown (s_stats s) = 0 \<and> duplicates (s_stats s) = 0"

lemma ledger_matches_length:
  "ledger_matches E rs A p l \<Longrightarrow> length (batches l) = length (regs_of p E rs)"
  unfolding ledger_matches_def by (metis length_map)

lemma ledger_matches_register:
  assumes "ledger_matches E rs A p l"
    and "bid_partition (reg_id r) = p" and "bid_epoch (reg_id r) = E"
  shows "ledger_matches E (rs @ [r]) A p (l\<lparr>batches := batches l @ [(reg_last_offset r, None)]\<rparr>)"
  using assms unfolding ledger_matches_def by (auto simp: nth_append)

lemma ledger_matches_other_reg:
  assumes "ledger_matches E rs A p l"
    and "\<not> (bid_partition (reg_id r) = p \<and> bid_epoch (reg_id r) = E)"
  shows "ledger_matches E (rs @ [r]) A p l"
  using assms unfolding ledger_matches_def by auto

lemma ledger_matches_resolve:
  assumes "ledger_matches E rs A p l"
    and "bid_partition (msg_id m) = p" and "bid_epoch (msg_id m) = E"
    and "bid_seq (msg_id m) < length (batches l)" and "\<And>m'. m' \<in> A \<Longrightarrow> msg_id m' \<noteq> msg_id m"
  shows "snd (batches l ! bid_seq (msg_id m)) = None"
    and "ledger_matches E rs (insert m A) p
      (l\<lparr>batches := (batches l)[bid_seq (msg_id m) := (fst (batches l ! bid_seq (msg_id m)), Some (msg_status m))]\<rparr>)"
proof -
  let ?i = "bid_seq (msg_id m)"
  have id: "msg_id m = \<lparr>bid_partition = p, bid_epoch = E, bid_seq = ?i\<rparr>"
    using assms(2,3) by simp
  show none: "snd (batches l ! ?i) = None"
    using assms(1,4,5) id unfolding ledger_matches_def by metis
  have offs: "map fst ((batches l)[?i := (fst (batches l ! ?i), Some (msg_status m))]) = map fst (batches l)"
    by (metis assms(4) fst_conv list_update_id map_update nth_map)
  have seq: "bid_seq (msg_id m') \<noteq> ?i"
    if "m' \<in> A" "bid_partition (msg_id m') = p" "bid_epoch (msg_id m') = E" for m'
    using assms(5) [OF that(1)] that(2,3) id by (metis batch_id.surjective old.unit.exhaust)
  show "ledger_matches E rs (insert m A) p
      (l\<lparr>batches := (batches l)[?i := (fst (batches l ! ?i), Some (msg_status m))]\<rparr>)"
    unfolding ledger_matches_def
  proof (intro conjI ballI impI allI)
    show "map fst (batches (l\<lparr>batches := (batches l)[?i := (fst (batches l ! ?i), Some (msg_status m))]\<rparr>))
        = map reg_last_offset (regs_of p E rs)"
      using assms(1) offs by (simp add: ledger_matches_def)
  next
    fix i
    assume "i < length (batches (l\<lparr>batches := (batches l)[?i := (fst (batches l ! ?i), Some (msg_status m))]\<rparr>))"
      and "snd (batches (l\<lparr>batches := (batches l)[?i := (fst (batches l ! ?i), Some (msg_status m))]\<rparr>) ! i) \<noteq> None"
    then show "\<exists>m \<in> insert m A. msg_id m = \<lparr>bid_partition = p, bid_epoch = E, bid_seq = i\<rparr>"
      using assms(1) id unfolding ledger_matches_def by (cases "i = ?i") auto
  next
    fix m'
    assume m': "m' \<in> insert m A" "bid_partition (msg_id m') = p" "bid_epoch (msg_id m') = E"
    let ?l = "l\<lparr>batches := (batches l)[?i := (fst (batches l ! ?i), Some (msg_status m))]\<rparr>"
    have "bid_seq (msg_id m') < length (batches ?l) \<and> snd (batches ?l ! bid_seq (msg_id m')) = Some (msg_status m')"
    proof (cases "m' = m")
      case True
      with assms(4) show ?thesis by simp
    next
      case False
      with m' assms(1) seq [of m'] show ?thesis by (simp add: ledger_matches_def)
    qed
    then show "bid_seq (msg_id m') < length (batches ?l)"
      and "snd (batches ?l ! bid_seq (msg_id m')) = Some (msg_status m')" by simp_all
  qed
qed

lemma ledger_matches_stale:
  assumes "ledger_matches E rs A p l" and "\<not> (bid_partition (msg_id m) = p \<and> bid_epoch (msg_id m) = E)"
  shows "ledger_matches E rs (insert m A) p l"
  using assms unfolding ledger_matches_def by auto

lemma ledger_matches_advance:
  "ledger_matches E rs A p l \<Longrightarrow> ledger_matches E rs A p (snd (ledger_advance l))"
  by (simp add: ledger_matches_def ledger_advance_def Let_def)

lemma ledger_matches_new:
  assumes "\<And>r. r \<in> set rs \<Longrightarrow> bid_epoch (reg_id r) = E \<Longrightarrow> bid_partition (reg_id r) \<noteq> p"
    and "\<And>m. m \<in> A \<Longrightarrow> msg_id m \<in> reg_id ` set rs'"
    and "\<And>r. r \<in> set rs' \<Longrightarrow> bid_epoch (reg_id r) = E \<Longrightarrow> bid_partition (reg_id r) \<noteq> p"
  shows "ledger_matches E rs A p ledger_new"
  using assms regs_of_empty [of rs E p] unfolding ledger_matches_def ledger_new_def by force

section \<open>Preservation\<close>

text \<open>Reading one registration: it is the next one of its partition and epoch, so no gap.\<close>

lemma recv_registration_ok:
  assumes "cp_abs cp L" and rs: "regs_ok E own rs" and n: "n < length rs" and "epoch cp = E"
    and match: "\<And>p l. L p = Some l \<Longrightarrow> ledger_matches E (take n rs) A p l"
  shows "\<exists>stats' cp' L'. drain_registration (rs ! n) (stats, cp) = Some (stats', cp')
    \<and> cp_abs cp' L' \<and> epoch cp' = E \<and> admitted_through cp' = admitted_through cp
    \<and> duplicates stats' = duplicates stats \<and> unknown stats' = unknown stats
    \<and> (\<forall>p l. L' p = Some l \<longrightarrow> ledger_matches E (take (Suc n) rs) A p l)"
proof -
  let ?r = "rs ! n"
  let ?p = "bid_partition (reg_id ?r)"
  have take: "take (Suc n) rs = take n rs @ [?r]"
    using n by (simp add: take_Suc_conv_app_nth)
  have "\<exists>L'. ledgers_register E ?r L = Some L'
    \<and> (\<forall>p l. L' p = Some l \<longrightarrow> ledger_matches E (take (Suc n) rs) A p l)"
  proof (cases "L ?p = None \<or> bid_epoch (reg_id ?r) \<noteq> E")
    case True
    then have "ledgers_register E ?r L = Some L"
      by (auto simp: ledgers_register_def split: option.splits)
    with True match show ?thesis
      by (auto simp: take intro: ledger_matches_other_reg)
  next
    case False
    then obtain l where l: "L ?p = Some l" and e: "bid_epoch (reg_id ?r) = E" by auto
    have "bid_seq (reg_id ?r) = length (batches l)"
      using regs_ok_next [OF rs n] ledger_matches_length [OF match [OF l]] e by simp
    then have "ledgers_register E ?r L = Some (L(?p \<mapsto> l\<lparr>batches := batches l @ [(reg_last_offset ?r, None)]\<rparr>))"
      using l e by (simp add: ledgers_register_def ledger_register_def)
    with match l e show ?thesis
      by (auto simp: take intro: ledger_matches_other_reg ledger_matches_register)
  qed
  then show ?thesis
    using drain_registration_abs [OF assms(1), of stats ?r] assms(4)
    by (auto elim!: option.rel_cases)
qed

text \<open>Reading one resolution: a first one for its batch, so never a duplicate.\<close>

lemma recv_ack_ok:
  assumes "cp_abs cp L" and "epoch cp = E"
    and match: "\<And>p l. L p = Some l \<Longrightarrow> ledger_matches E rs A p l"
    and fresh: "\<And>m'. m' \<in> A \<Longrightarrow> msg_id m' \<noteq> msg_id m"
    and ap: "apply_ack m df (stats, cp) = ((stats', cp'), d)"
  shows "\<exists>L'. cp_abs cp' L' \<and> epoch cp' = E \<and> admitted_through cp' = admitted_through cp
    \<and> duplicates stats' = duplicates stats
    \<and> ((d = [] \<and> (\<forall>p l. L' p = Some l \<longrightarrow> ledger_matches E rs (insert m A) p l) \<and> unknown stats' = unknown stats)
       \<or> (d = (if df then [m] else []) \<and> (\<forall>p l. L' p = Some l \<longrightarrow> ledger_matches E rs A p l)
          \<and> unknown stats' = unknown stats + (if df then 0 else 1)
          \<and> (\<exists>l. L (bid_partition (msg_id m)) = Some l \<and> bid_epoch (msg_id m) = E
               \<and> length (batches l) \<le> bid_seq (msg_id m))))"
proof -
  let ?p = "bid_partition (msg_id m)" and ?i = "bid_seq (msg_id m)"
  obtain oc L' where res: "ledgers_resolve E m L = (oc, L')" by fastforce
  note abs = apply_ack_abs [OF assms(1) res [folded assms(2)] ap]
  consider (stale) "L ?p = None \<or> bid_epoch (msg_id m) \<noteq> E"
    | (known) l where "L ?p = Some l" "bid_epoch (msg_id m) = E" "?i < length (batches l)"
    | (early) l where "L ?p = Some l" "bid_epoch (msg_id m) = E" "length (batches l) \<le> ?i"
    by (metis not_None_eq not_less)
  then show ?thesis
  proof cases
    case stale
    then have "oc = None" "L' = L"
      using res by (auto simp: ledgers_resolve_def split: option.splits)
    moreover have "ledger_matches E rs (insert m A) p l" if "L p = Some l" for p l
      using match [OF that] stale that by (auto intro: ledger_matches_stale)
    ultimately show ?thesis using abs assms(2) by auto
  next
    case (known l)
    from assms(1) known(1) have ok: "ledger_ok l"
      using cp_abs_tracker trk.ok_law by blast
    note lm = ledger_matches_resolve [OF match [OF known(1)] refl known(2,3) fresh]
    have "\<not> ?i < committed l"
      using ok lm(1) by (auto simp: ledger_ok_iff)
    then have "oc = Some Applied"
      and L': "L' = L(?p \<mapsto> l\<lparr>batches := (batches l)[?i := (fst (batches l ! ?i), Some (msg_status m))]\<rparr>)"
      using res known lm(1) by (auto simp: ledgers_resolve_def ledger_resolve_def)
    moreover have "ledger_matches E rs (insert m A) p l'" if "L' p = Some l'" for p l'
      using that match lm(2) by (auto simp: L' intro: ledger_matches_stale split: if_splits)
    ultimately show ?thesis using abs assms(2) by auto
  next
    case (early l)
    from assms(1) early(1) have "ledger_ok l"
      using cp_abs_tracker trk.ok_law by blast
    then have "\<not> ?i < committed l"
      using early(3) by (auto simp: ledger_ok_iff)
    then have "oc = Some Unregistered" and "L' = L"
      using res early by (auto simp: ledgers_resolve_def ledger_resolve_def)
    then show ?thesis using abs assms(2) match early by auto
  qed
qed

lemma heap_env_ids:
  assumes "heap_env h h'"
  shows "map state_id (arena h') = map state_id (arena h)"
    and "map state_last_offset (arena h') = map state_last_offset (arena h)"
    and "outbox_ok h'" and "\<exists>ms. ack_tx h' = ack_tx h @ ms"
  using assms unfolding heap_env_def heap_le_def by (auto intro!: nth_equalityI)

lemma issue_inv_frame:
  assumes "issue_inv s" and "epoch (s_cp s') = epoch (s_cp s)"
    and "admitted_through (s_cp s') = admitted_through (s_cp s)" and "s_owner s' = s_owner s"
    and "s_regs s' = s_regs s" and "s_issuers s' = s_issuers s" and "s_issuing s' = s_issuing s"
  shows "issue_inv s'"
  using assms by (simp add: issue_inv_def)

lemma begin_epoch_admitted: "begin_epoch ps e cp = Some cp' \<Longrightarrow> admitted_through cp' = max_partition ps"
  by (auto simp: begin_epoch_def split: if_splits)

lemma drain_registration_frame:
  "drain_registration r (stats, cp) = Some (stats', cp') \<Longrightarrow>
     epoch cp' = epoch cp \<and> admitted_through cp' = admitted_through cp"
  by (auto simp: drain_registration_def split: if_splits option.splits)

lemma apply_ack_frame:
  "apply_ack m df (stats, cp) = ((stats', cp'), d) \<Longrightarrow>
     epoch cp' = epoch cp \<and> admitted_through cp' = admitted_through cp"
  by (auto simp: apply_ack_def Let_def split: if_splits option.splits prod.splits resolve_outcome.splits)

lemma step_issue_inv:
  assumes "cp_step s s'" and inv: "issue_inv s" and abs: "cp_abs (s_cp s) L"
  shows "issue_inv s'"
proof -
  from inv have parts: "owned_once (epoch (s_cp s)) (admitted_through (s_cp s)) (s_owner s)"
      "regs_ok (epoch (s_cp s)) (s_owner s) (s_regs s)"
      "\<forall>t. issuer_ok (epoch (s_cp s)) (s_owner s) (s_regs s) t (s_issuers s t) (s_issuing s t)"
    by (simp_all add: issue_inv_def)
  from assms(1) show ?thesis
  proof cases
    case (issue_load t p b i off)
    from abs have "shared_epoch (s_cp s) = epoch (s_cp s)" by (simp add: cp_abs_def)
    with issue_load inv show ?thesis
      by (auto simp: issue_inv_def intro: issuer_ok_load) (metis issuer_ok_load)
  next
    case (issue_send t b off r h)
    have own: "s_owner s (bid_epoch b) (bid_partition b) = Some t"
      using inv issue_send(2) by (auto simp: issue_inv_def issuer_ok_def)
    have ok: "issuer_ok (epoch (s_cp s)) (s_owner s) (s_regs s) t (s_issuers s t) (Some (b, off))"
      using inv issue_send(2) unfolding issue_inv_def by metis
    have "issuer_ok (epoch (s_cp s)) (s_owner s) (s_regs s @ [\<lparr>reg_id = b, reg_last_offset = off\<rparr>]) u
        (s_issuers s u) (((s_issuing s)(t := None)) u)" for u
      using inv issuer_ok_send_own [OF ok]
        issuer_ok_send_other [of "epoch (s_cp s)" "s_owner s" "s_regs s" u "s_issuers s u" "s_issuing s u" b t off] own
      by (auto simp: issue_inv_def)
    with inv regs_ok_send [OF _ ok] issue_send(1) show ?thesis
      by (simp add: issue_inv_def)
  next
    case (begin_epoch e ps cp own)
    have adm: "\<forall>p. own p \<noteq> None \<longrightarrow> (\<exists>m. admitted_through cp = Some m \<and> p \<le> m)"
      using begin_epoch(5) max_partition_ge begin_epoch_admitted [OF begin_epoch(4)] by simp
    have e: "epoch cp = e" by (rule begin_epoch_abs(2) [OF begin_epoch(4)])
    show ?thesis
      using issue_begin [OF begin_epoch(3) adm parts] by (simp add: issue_inv_def begin_epoch(1) e)
  next
    case (extend_epoch ps cp own)
    note ext = extend_epoch_abs [OF abs extend_epoch(3)]
    have adm: "\<exists>m. admitted_through cp = Some m \<and> p \<le> m"
      if "p \<in> set ps \<or> (\<exists>m. admitted_through (s_cp s) = Some m \<and> p \<le> m)" for p
      using that max_partition_ge [of p ps] max_option_ge [of "admitted_through (s_cp s)" p "max_partition ps"]
        max_option_ge(2) [of "max_partition ps" p "admitted_through (s_cp s)"]
      by (auto simp: ext(4) simp del: max_option.simps)
    show ?thesis
      using issue_extend [of "set ps" "admitted_through (s_cp s)" "admitted_through cp", OF ext(3) adm parts refl]
      by (simp add: issue_inv_def extend_epoch(1) ext(2))
  next
    case (take_watermarks clk out cp)
    then show ?thesis
      using take_watermarks_frame [OF take_watermarks(3)] by (intro issue_inv_frame [OF inv]) auto
  next
    case (recv_registration d stats cp)
    then show ?thesis
      using drain_registration_frame by (intro issue_inv_frame [OF inv]) auto
  next
    case (recv_ack d stats cp d')
    then show ?thesis
      using apply_ack_frame by (intro issue_inv_frame [OF inv]) auto
  next
    case (apply_deferred m d stats cp d')
    then show ?thesis
      using apply_ack_frame by (intro issue_inv_frame [OF inv]) auto
  next
    case (extend_epoch_rejected ps err cp)
    then show ?thesis
      using extend_epoch_error_unchanged by (intro issue_inv_frame [OF inv]) auto
  qed (auto intro: issue_inv_frame [OF inv])
qed

lemma step_chan_inv:
  assumes "cp_step s s'" and inv: "chan_inv s"
  shows "chan_inv s'"
  using assms(1)
proof cases
  case (issue_send t b off r h)
  with inv show ?thesis
    by (auto simp: chan_inv_def outbox_ok_new ackref_new_def outbox_ok_def)
next
  case (handles h)
  from heap_env_ids [OF handles(2)] inv show ?thesis
    by (auto simp: chan_inv_def handles(1))
qed (use inv in \<open>auto simp: chan_inv_def\<close>)

lemma distinct_map_take_nth:
  "distinct (map f xs) \<Longrightarrow> n < length xs \<Longrightarrow> x \<in> set (take n xs) \<Longrightarrow> f x \<noteq> f (xs ! n)"
  by (auto simp: in_set_conv_nth distinct_conv_nth)

lemma chan_ids_distinct:
  "chan_inv s \<Longrightarrow> regs_ok E own (s_regs s) \<Longrightarrow> distinct (map msg_id (ack_tx (s_heap s)))"
  using outbox_ids_distinct regs_ok_distinct by (auto simp: chan_inv_def)

lemma apply_inv_frame:
  assumes "apply_inv s L" and "s_cp s' = s_cp s" and "s_stats s' = s_stats s" and "s_panicked s' = s_panicked s"
    and "take (s_reg_read s') (s_regs s') = take (s_reg_read s) (s_regs s)"
    and "take (s_ack_read s') (ack_tx (s_heap s')) = take (s_ack_read s) (ack_tx (s_heap s))"
    and "deferred_of (s_phase s') = deferred_of (s_phase s)"
    and "\<And>d. s_phase s' = ApplyDeferred d \<Longrightarrow> s_phase s = ApplyDeferred d"
  shows "apply_inv s' L"
  using assms unfolding apply_inv_def applied_msgs_def by simp

lemma apply_inv_recv_registration:
  assumes inv: "apply_inv s L" and ok: "regs_ok (epoch (s_cp s)) own (s_regs s)"
    and n: "s_reg_read s < length (s_regs s)" and ph: "s_phase s = Regs1 \<or> s_phase s = Regs2 d"
  shows "\<exists>stats cp. drain_registration (s_regs s ! s_reg_read s) (s_stats s, s_cp s) = Some (stats, cp)
    \<and> (\<exists>L'. apply_inv (s\<lparr>s_reg_read := s_reg_read s + 1, s_stats := stats, s_cp := cp\<rparr>) L')"
proof -
  from inv have "cp_abs (s_cp s) L"
    and "\<And>p l. L p = Some l \<Longrightarrow> ledger_matches (epoch (s_cp s)) (take (s_reg_read s) (s_regs s)) (applied_msgs s) p l"
    by (simp_all add: apply_inv_def)
  from recv_registration_ok [OF this(1) ok n refl this(2)] obtain stats cp L' where
    "drain_registration (s_regs s ! s_reg_read s) (s_stats s, s_cp s) = Some (stats, cp)"
    "cp_abs cp L'" "epoch cp = epoch (s_cp s)" "duplicates stats = duplicates (s_stats s)"
    "unknown stats = unknown (s_stats s)"
    "\<forall>p l. L' p = Some l \<longrightarrow>
       ledger_matches (epoch (s_cp s)) (take (Suc (s_reg_read s)) (s_regs s)) (applied_msgs s) p l"
    by blast
  with inv ph show ?thesis
    by (intro exI [of _ stats] exI [of _ cp] conjI exI [of _ L']) (auto simp: apply_inv_def applied_msgs_def)
qed

lemma apply_inv_recv_ack:
  assumes inv: "apply_inv s L" and dist: "distinct (map msg_id (ack_tx (s_heap s)))"
    and n: "s_ack_read s < length (ack_tx (s_heap s))" and ph: "s_phase s = AckLoop d"
    and ap: "apply_ack (ack_tx (s_heap s) ! s_ack_read s) True (s_stats s, s_cp s) = ((stats, cp), d')"
  shows "\<exists>L'. apply_inv (s\<lparr>s_ack_read := s_ack_read s + 1, s_stats := stats, s_cp := cp,
                            s_phase := AckLoop (d @ d')\<rparr>) L'"
proof -
  let ?m = "ack_tx (s_heap s) ! s_ack_read s" and ?tk = "take (s_ack_read s) (ack_tx (s_heap s))"
  let ?s' = "s\<lparr>s_ack_read := s_ack_read s + 1, s_stats := stats, s_cp := cp, s_phase := AckLoop (d @ d')\<rparr>"
  from inv have abs: "cp_abs (s_cp s) L" and stats: "unknown (s_stats s) = 0" "duplicates (s_stats s) = 0"
    and match: "\<And>p l. L p = Some l \<Longrightarrow> ledger_matches (epoch (s_cp s)) (take (s_reg_read s) (s_regs s)) (applied_msgs s) p l"
    and d: "set d \<subseteq> set ?tk" "distinct d" and np: "\<not> s_panicked s"
    using ph by (simp_all add: apply_inv_def)
  have new: "msg_id m' \<noteq> msg_id ?m" if "m' \<in> set ?tk" for m'
    by (rule distinct_map_take_nth [OF dist n that])
  then have fresh: "msg_id m' \<noteq> msg_id ?m" if "m' \<in> applied_msgs s" for m'
    using that by (simp add: applied_msgs_def)
  have m: "?m \<notin> set ?tk" using new by blast
  have tk: "take (Suc (s_ack_read s)) (ack_tx (s_heap s)) = ?tk @ [?m]"
    using n by (simp add: take_Suc_conv_app_nth)
  from recv_ack_ok [OF abs refl match fresh ap] obtain L' where L': "cp_abs cp L'" "epoch cp = epoch (s_cp s)"
      "duplicates stats = duplicates (s_stats s)" "unknown stats = unknown (s_stats s)"
      "d' = [] \<and> (\<forall>p l. L' p = Some l \<longrightarrow> ledger_matches (epoch (s_cp s)) (take (s_reg_read s) (s_regs s))
          (insert ?m (applied_msgs s)) p l)
       \<or> d' = [?m] \<and> (\<forall>p l. L' p = Some l \<longrightarrow> ledger_matches (epoch (s_cp s)) (take (s_reg_read s) (s_regs s))
          (applied_msgs s) p l)"
    by auto
  moreover have "applied_msgs ?s' = (if d' = [] then insert ?m (applied_msgs s) else applied_msgs s)"
    using L'(5) m d(1) ph by (auto simp: applied_msgs_def tk)
  ultimately have "apply_inv ?s' L'"
    using stats d m np by (auto simp: apply_inv_def tk split: if_splits)
  then show ?thesis by blast
qed

lemma apply_inv_deferred:
  assumes inv: "apply_inv s L" and dist: "distinct (map msg_id (ack_tx (s_heap s)))"
    and ok: "regs_ok (epoch (s_cp s)) own (s_regs s)" and ph: "s_phase s = ApplyDeferred (m # d)"
    and ap: "apply_ack m False (s_stats s, s_cp s) = ((stats, cp), d')"
  shows "\<exists>L'. apply_inv (s\<lparr>s_stats := stats, s_cp := cp, s_phase := ApplyDeferred d\<rparr>) L'"
proof -
  let ?rd = "take (s_reg_read s) (s_regs s)" and ?tk = "take (s_ack_read s) (ack_tx (s_heap s))"
  let ?s' = "s\<lparr>s_stats := stats, s_cp := cp, s_phase := ApplyDeferred d\<rparr>"
  from inv ph have abs: "cp_abs (s_cp s) L" and stats: "unknown (s_stats s) = 0" "duplicates (s_stats s) = 0"
    and match: "\<And>p l. L p = Some l \<Longrightarrow> ledger_matches (epoch (s_cp s)) ?rd (applied_msgs s) p l"
    and d: "set (m # d) \<subseteq> set ?tk" "distinct (m # d)" and np: "\<not> s_panicked s"
    and reg: "\<forall>x \<in> set (m # d). msg_id x \<in> reg_id ` set ?rd"
    by (simp_all add: apply_inv_def)
  have inj: "inj_on msg_id (set (ack_tx (s_heap s)))"
    using dist by (simp add: distinct_map)
  have m: "m \<in> set (ack_tx (s_heap s))" "m \<notin> applied_msgs s"
    using d(1) ph by (auto simp: applied_msgs_def dest: in_set_takeD)
  then have fresh: "msg_id m' \<noteq> msg_id m" if "m' \<in> applied_msgs s" for m'
    using that inj by (metis DiffD1 applied_msgs_def in_set_takeD inj_on_def)
  have known: "bid_seq (msg_id m) < length (batches l)"
    if "L (bid_partition (msg_id m)) = Some l" "bid_epoch (msg_id m) = epoch (s_cp s)" for l
  proof -
    from reg obtain r where "r \<in> set ?rd" "reg_id r = msg_id m" by auto
    then have "bid_seq (msg_id m) < length (regs_of (bid_partition (msg_id m)) (epoch (s_cp s)) ?rd)"
      using regs_ok_seq_bound [OF regs_ok_take [OF ok], of r] that(2) by (simp add: regs_of_def)
    with ledger_matches_length [OF match [OF that(1)]] show ?thesis by simp
  qed
  from recv_ack_ok [OF abs refl match fresh ap] known obtain L' where L': "cp_abs cp L'"
      "epoch cp = epoch (s_cp s)" "duplicates stats = duplicates (s_stats s)" "unknown stats = unknown (s_stats s)"
      "\<forall>p l. L' p = Some l \<longrightarrow> ledger_matches (epoch (s_cp s)) ?rd (insert m (applied_msgs s)) p l"
    by fastforce
  moreover have "applied_msgs ?s' = insert m (applied_msgs s)"
    using d ph by (auto simp: applied_msgs_def)
  ultimately have "apply_inv ?s' L'"
    using stats d np reg by (auto simp: apply_inv_def)
  then show ?thesis by blast
qed

lemma applied_registered:
  assumes "chan_inv s" and "m \<in> applied_msgs s"
  shows "msg_id m \<in> reg_id ` set (s_regs s)"
  using assms chan_msg_registered [OF assms(1)] by (auto simp: applied_msgs_def dest: in_set_takeD)

lemma apply_inv_new_ledgers:
  assumes inv: "apply_inv s L" and chan: "chan_inv s" and "cp_abs cp L'"
    and old: "\<And>p l. L' p = Some l \<Longrightarrow> p \<notin> P \<Longrightarrow> L p = Some l \<and> epoch cp = epoch (s_cp s)"
    and new: "\<And>p l. L' p = Some l \<Longrightarrow> p \<in> P \<Longrightarrow> l = ledger_new"
    and none: "\<And>p r. p \<in> P \<Longrightarrow> r \<in> set (s_regs s) \<Longrightarrow> bid_epoch (reg_id r) = epoch cp \<Longrightarrow> bid_partition (reg_id r) \<noteq> p"
  shows "apply_inv (s\<lparr>s_cp := cp, s_owner := own\<rparr>) L'"
proof -
  let ?s' = "s\<lparr>s_cp := cp, s_owner := own\<rparr>"
  have A: "applied_msgs ?s' = applied_msgs s" by (simp add: applied_msgs_def)
  have "ledger_matches (epoch cp) (take (s_reg_read s) (s_regs s)) (applied_msgs s) p l" if "L' p = Some l" for p l
  proof (cases "p \<in> P")
    case True
    have "ledger_matches (epoch cp) (take (s_reg_read s) (s_regs s)) (applied_msgs s) p ledger_new"
      using none [OF True] applied_registered [OF chan]
      by (intro ledger_matches_new [where rs' = "s_regs s"]) (auto dest: in_set_takeD)
    with new [OF that True] show ?thesis by simp
  next
    case False
    with old [OF that] inv show ?thesis by (simp add: apply_inv_def)
  qed
  with assms(1,3) A show ?thesis by (simp add: apply_inv_def)
qed

lemma step_apply_inv:
  assumes "cp_step s s'" and iss: "issue_inv s" and chan: "chan_inv s" and inv: "apply_inv s L"
  shows "\<exists>L'. apply_inv s' L'"
proof -
  from iss have own: "owned_once (epoch (s_cp s)) (admitted_through (s_cp s)) (s_owner s)"
    and regs: "regs_ok (epoch (s_cp s)) (s_owner s) (s_regs s)"
    by (simp_all add: issue_inv_def)
  note dist = chan_ids_distinct [OF chan regs]
  from chan have read: "s_reg_read s \<le> length (s_regs s)" "s_ack_read s \<le> length (ack_tx (s_heap s))"
    by (simp_all add: chan_inv_def)
  from inv have abs: "cp_abs (s_cp s) L" by (simp add: apply_inv_def)
  from assms(1) show ?thesis
  proof cases
    case (recv_registration d stats cp)
    then show ?thesis using apply_inv_recv_registration [OF inv regs] by force
  next
    case (recv_registration_panic d)
    then show ?thesis using apply_inv_recv_registration [OF inv regs] by force
  next
    case (recv_ack d stats cp d')
    then show ?thesis using apply_inv_recv_ack [OF inv dist] by blast
  next
    case (apply_deferred m d stats cp d')
    then show ?thesis using apply_inv_deferred [OF inv dist regs] by blast
  next
    case (handles h)
    from heap_env_ids(4) [OF handles(2)] read(2) show ?thesis
      by (intro exI [of _ L] apply_inv_frame [OF inv]) (auto simp: handles(1))
  next
    case (issue_send t b off r h)
    then show ?thesis
      using read by (intro exI [of _ L] apply_inv_frame [OF inv]) (auto simp: ackref_new_def)
  next
    case (registrations_empty2 d)
    have "msg_id m \<in> reg_id ` set (s_regs s)" if "m \<in> set d" for m
    proof (rule chan_msg_registered [OF chan])
      from inv registrations_empty2(2) that have "m \<in> set (take (s_ack_read s) (ack_tx (s_heap s)))"
        by (auto simp: apply_inv_def)
      then show "m \<in> set (ack_tx (s_heap s))" by (rule in_set_takeD)
    qed
    with inv registrations_empty2 show ?thesis
      by (intro exI [of _ L]) (simp add: apply_inv_def applied_msgs_def)
  next
    case (begin_epoch e ps cp own)
    note be = begin_epoch_abs [OF begin_epoch(4)]
    have "apply_inv s' (\<lambda>p. if p \<in> set ps then Some ledger_new else None)"
      unfolding begin_epoch(1)
      by (rule apply_inv_new_ledgers [OF inv chan be(1), where P = "set ps"])
         (use regs begin_epoch(3) be(2) in \<open>auto simp: regs_ok_def split: if_splits\<close>)
    then show ?thesis by blast
  next
    case (extend_epoch ps cp own')
    note ext = extend_epoch_abs [OF abs extend_epoch(3)]
    have free: "s_owner s (epoch (s_cp s)) p = None" if "p \<in> set ps" for p
      using ext(3) [OF that] own by (metis linorder_not_le option.exhaust owned_once_def)
    have "apply_inv s' (\<lambda>p. if p \<in> set ps then Some ledger_new else L p)"
      unfolding extend_epoch(1)
      by (rule apply_inv_new_ledgers [OF inv chan ext(1), where P = "set ps"])
         (use regs ext(2) free in \<open>auto simp: regs_ok_def split: if_splits\<close>)
    then show ?thesis by blast
  next
    case (revoke ps)
    have "apply_inv s' (L |` (- set ps))"
      using inv revoke_abs [OF abs, of ps] unfolding revoke(1)
      by (auto simp: apply_inv_def applied_msgs_def restrict_map_def split: if_splits)
    then show ?thesis by blast
  next
    case (take_watermarks clk out cp)
    have "apply_inv s' (\<lambda>p. map_option (snd \<circ> ledger_advance) (L p))"
      using inv take_watermarks_abs [OF abs take_watermarks(3)] take_watermarks_frame [OF take_watermarks(3)]
      unfolding take_watermarks(1)
      by (auto simp: apply_inv_def applied_msgs_def ledger_matches_advance)
    then show ?thesis by blast
  next
    case (drain_start)
    with inv show ?thesis
      by (intro exI [of _ L]) (auto simp: apply_inv_def applied_msgs_def drain_stats_default_def)
  next
    case (extend_epoch_rejected ps err cp)
    with extend_epoch_error_unchanged show ?thesis
      by (intro exI [of _ L] apply_inv_frame [OF inv]) auto
  qed (auto intro!: exI [of _ L] apply_inv_frame [OF inv])
qed

definition sys_inv :: "sys \<Rightarrow> bool" where
  "sys_inv s \<longleftrightarrow> issue_inv s \<and> chan_inv s \<and> (\<exists>L. apply_inv s L)"

lemma sys_inv_init: "sys_inv sys_init"
proof -
  have "cp_abs checkpointer_new (\<lambda>_. None)"
    by (simp add: cp_abs_def cp_core_def checkpointer_new_def akeys_def)
  then have "apply_inv sys_init (\<lambda>_. None)"
    by (simp add: apply_inv_def sys_init_def drain_stats_default_def)
  moreover have "chan_inv sys_init"
    by (simp add: chan_inv_def sys_init_def) (simp add: heap_empty_def)
  ultimately show ?thesis
    using issue_inv_init by (auto simp: sys_inv_def)
qed

lemma sys_inv_step: "cp_step s s' \<Longrightarrow> sys_inv s \<Longrightarrow> sys_inv s'"
  using step_issue_inv step_chan_inv step_apply_inv unfolding sys_inv_def by (metis apply_inv_def)

lemma cp_reachable_inv: "cp_reachable s \<Longrightarrow> sys_inv s"
  by (induction rule: cp_reachable.induct) (auto intro: sys_inv_init sys_inv_step)

section \<open>What a watermark means\<close>

lemma regs_of_nth_id:
  assumes "regs_ok E own rs" and "i < length (regs_of p e rs)"
  shows "regs_of p e rs ! i \<in> set rs" and "reg_id (regs_of p e rs ! i) = \<lparr>bid_partition = p, bid_epoch = e, bid_seq = i\<rparr>"
proof -
  have mem: "regs_of p e rs ! i \<in> set (regs_of p e rs)" using assms(2) by simp
  then show "regs_of p e rs ! i \<in> set rs" by (simp add: regs_of_def)
  have "bid_seq (reg_id (regs_of p e rs ! i)) = map (\<lambda>r. bid_seq (reg_id r)) (regs_of p e rs) ! i"
    using assms(2) by simp
  also have "\<dots> = i"
    using assms unfolding regs_ok_def by (metis add_0 nth_upt)
  finally show "reg_id (regs_of p e rs ! i) = \<lparr>bid_partition = p, bid_epoch = e, bid_seq = i\<rparr>"
    using mem by (simp add: regs_of_def)
qed

lemma chan_cell:
  assumes "chan_inv s" and "regs_ok E own (s_regs s)" and "r < length (arena (s_heap s))"
    and "reg \<in> set (s_regs s)" and "state_id (arena (s_heap s) ! r) = reg_id reg"
  shows "state_last_offset (arena (s_heap s) ! r) = reg_last_offset reg"
proof -
  have len: "length (arena (s_heap s)) = length (s_regs s)"
    using assms(1) by (metis chan_inv_def length_map)
  have ids: "state_id (arena (s_heap s) ! k) = reg_id (s_regs s ! k)"
    and offs: "state_last_offset (arena (s_heap s) ! k) = reg_last_offset (s_regs s ! k)"
    if "k < length (s_regs s)" for k
    using assms(1) that len unfolding chan_inv_def by (metis nth_map)+
  from assms(4) obtain k where k: "k < length (s_regs s)" "s_regs s ! k = reg"
    by (auto simp: in_set_conv_nth)
  have "r = k"
    using regs_ok_distinct [OF assms(2)] ids [of r] assms(3,5) k len
    by (auto simp: distinct_conv_nth)
  with offs [OF k(1)] k(2) show ?thesis by simp
qed

lemma delivered_cell:
  assumes inv: "apply_inv s L" and chan: "chan_inv s" and regs: "regs_ok (epoch (s_cp s)) own (s_regs s)"
    and l: "L p = Some l" and i: "i < length (batches l)" and del: "snd (batches l ! i) = Some Delivered"
  shows "\<exists>r < length (arena (s_heap s)).
    state_id (arena (s_heap s) ! r) = \<lparr>bid_partition = p, bid_epoch = epoch (s_cp s), bid_seq = i\<rparr>
    \<and> refcount (s_heap s) r = 0 \<and> \<not> ack_failed (s_heap s) r
    \<and> state_last_offset (arena (s_heap s) ! r) = fst (batches l ! i)"
proof -
  let ?E = "epoch (s_cp s)" and ?rd = "take (s_reg_read s) (s_regs s)"
  from inv l have lm: "ledger_matches ?E ?rd (applied_msgs s) p l"
    by (simp add: apply_inv_def)
  with i del obtain m where m: "m \<in> applied_msgs s" "msg_id m = \<lparr>bid_partition = p, bid_epoch = ?E, bid_seq = i\<rparr>"
    unfolding ledger_matches_def by fastforce
  with lm del have "msg_status m = Delivered"
    unfolding ledger_matches_def by fastforce
  moreover have "m \<in> set (ack_tx (s_heap s))"
    using m(1) by (auto simp: applied_msgs_def dest: in_set_takeD)
  then obtain r where r: "r < length (arena (s_heap s))" "refcount (s_heap s) r = 0"
      "m = ack_state_drop (arena (s_heap s) ! r)"
    using chan in_outbox_resolved by (auto simp: chan_inv_def)
  ultimately have "\<not> ack_failed (s_heap s) r" and sid: "state_id (arena (s_heap s) ! r) = msg_id m"
    by (auto simp: ack_state_drop_def ack_failed_def split: if_splits)
  moreover have "state_last_offset (arena (s_heap s) ! r) = fst (batches l ! i)"
  proof -
    have j: "i < length (regs_of p ?E ?rd)" using i ledger_matches_length [OF lm] by simp
    note n = regs_of_nth_id [OF regs_ok_take [OF regs] j]
    have "fst (batches l ! i) = reg_last_offset (regs_of p ?E ?rd ! i)"
      using lm i j unfolding ledger_matches_def by (metis nth_map)
    with chan_cell [OF chan regs r(1) in_set_takeD [OF n(1)]] sid m(2) n(2) show ?thesis by simp
  qed
  ultimately show ?thesis using r(1,2) m(2) by auto
qed

lemma resolved_in_outbox:
  assumes "outbox_ok h" and "r < length (arena h)" and "refcount h r = 0"
  shows "ack_state_drop (arena h ! r) \<in> set (ack_tx h)"
proof -
  have "ack_state_drop (arena h ! r) \<in># resolved_msgs (arena h)"
    using assms(2,3) by (auto simp: resolved_msgs_def refcount_def)
  with assms(1) show ?thesis by (metis outbox_ok_alt set_mset_mset)
qed

lemma pending_after_take:
  assumes "cp_core cp L" and "L p = Some l" and "take_watermarks clk cp = (out, cp')"
  shows "cp_pending p cp' = length (batches l) - delivered_prefix (batches l)"
proof -
  have "\<exists>t. map_of (trackers cp') p = Some t \<and> tracks_ledger t (snd (ledger_advance l))"
    using cp_core_tracker [OF take_watermarks_core [OF assms(1,3)], of p] assms(2) by simp
  then show ?thesis
    using trk.size_law by (auto simp: cp_pending_def ledger_advance_def Let_def)
qed

section \<open>The steps of a drain are the function\<close>

lemma drain_regs_steps:
  "cp_reachable s \<Longrightarrow> s_phase s = Regs1 \<or> s_phase s = Regs2 d \<Longrightarrow>
   drop (s_reg_read s) (s_regs s) = rs \<Longrightarrow> s_reg_read s \<le> length (s_regs s) \<Longrightarrow>
     \<exists>st cp. drain_registrations rs (s_stats s, s_cp s) = Some (st, cp)
       \<and> cp_reachable (s\<lparr>s_reg_read := length (s_regs s), s_stats := st, s_cp := cp\<rparr>)"
proof (induction rs arbitrary: s)
  case Nil
  then have "s\<lparr>s_reg_read := length (s_regs s), s_stats := s_stats s, s_cp := s_cp s\<rparr> = s" by simp
  with Nil show ?case by simp
next
  case (Cons r rs)
  from Cons.prems(3) have n: "s_reg_read s < length (s_regs s)" and r: "s_regs s ! s_reg_read s = r"
    and rest: "drop (Suc (s_reg_read s)) (s_regs s) = rs"
    by (metis drop_eq_Nil2 leI list.distinct(1), metis hd_drop_conv_nth drop_eq_Nil2 leI list.distinct(1) list.sel(1),
        metis drop_Suc list.sel(3) tl_drop)
  show ?case
  proof (cases "drain_registration r (s_stats s, s_cp s)")
    case None
    then have "cp_step s (s\<lparr>s_panicked := True\<rparr>)"
      using cp_step.recv_registration_panic [OF Cons.prems(2) n] r by simp
    from cp_reachable_inv [OF cp_reachable.step [OF Cons.prems(1) this]] have False
      by (simp add: sys_inv_def apply_inv_def)
    then show ?thesis ..
  next
    case (Some sc)
    obtain st cp where sc: "sc = (st, cp)" by fastforce
    let ?s = "s\<lparr>s_reg_read := s_reg_read s + 1, s_stats := st, s_cp := cp\<rparr>"
    have step: "cp_step s ?s"
      using cp_step.recv_registration [OF Cons.prems(2) n] r Some sc by simp
    from Cons.IH [of ?s] cp_reachable.step [OF Cons.prems(1) step] Cons.prems(2) rest n obtain st' cp' where
      "drain_registrations rs (st, cp) = Some (st', cp')"
      "cp_reachable (?s\<lparr>s_reg_read := length (s_regs s), s_stats := st', s_cp := cp'\<rparr>)"
      by auto
    with Some sc show ?thesis by auto
  qed
qed

lemma drain_acks_steps:
  "cp_reachable s \<Longrightarrow> s_phase s = AckLoop d \<Longrightarrow>
   drop (s_ack_read s) (ack_tx (s_heap s)) = ms \<Longrightarrow> s_ack_read s \<le> length (ack_tx (s_heap s)) \<Longrightarrow>
   apply_acks ms True (s_stats s, s_cp s) = ((st, cp), d') \<Longrightarrow>
     cp_reachable (s\<lparr>s_ack_read := length (ack_tx (s_heap s)), s_stats := st, s_cp := cp,
                     s_phase := AckLoop (d @ d')\<rparr>)"
proof (induction ms arbitrary: s d d')
  case Nil
  then have "s\<lparr>s_ack_read := length (ack_tx (s_heap s)), s_stats := st, s_cp := cp, s_phase := AckLoop (d @ d')\<rparr> = s"
    by simp
  with Nil.prems(1) show ?case by metis
next
  case (Cons m ms)
  from Cons.prems(3) have n: "s_ack_read s < length (ack_tx (s_heap s))" and m: "ack_tx (s_heap s) ! s_ack_read s = m"
    and rest: "drop (Suc (s_ack_read s)) (ack_tx (s_heap s)) = ms"
    by (metis drop_eq_Nil2 leI list.distinct(1), metis hd_drop_conv_nth drop_eq_Nil2 leI list.distinct(1) list.sel(1),
        metis drop_Suc list.sel(3) tl_drop)
  obtain st1 cp1 d1 d2 where 1: "apply_ack m True (s_stats s, s_cp s) = ((st1, cp1), d1)"
    and 2: "apply_acks ms True (st1, cp1) = ((st, cp), d2)" and d': "d' = d1 @ d2"
    using Cons.prems(5) by (auto split: prod.splits)
  let ?s = "s\<lparr>s_ack_read := s_ack_read s + 1, s_stats := st1, s_cp := cp1, s_phase := AckLoop (d @ d1)\<rparr>"
  have step: "cp_step s ?s"
    using cp_step.recv_ack [OF Cons.prems(2) n] m 1 by simp
  from Cons.IH [of ?s "d @ d1" d2] cp_reachable.step [OF Cons.prems(1) step] rest n 2 d'
  show ?case by simp
qed

lemma drain_deferred_steps:
  "cp_reachable s \<Longrightarrow> s_phase s = ApplyDeferred ms \<Longrightarrow>
   apply_acks ms False (s_stats s, s_cp s) = ((st, cp), d') \<Longrightarrow>
     cp_reachable (s\<lparr>s_stats := st, s_cp := cp, s_phase := ApplyDeferred []\<rparr>)"
proof (induction ms arbitrary: s d')
  case Nil
  then have "s\<lparr>s_stats := st, s_cp := cp, s_phase := ApplyDeferred []\<rparr> = s" by simp
  with Nil.prems(1) show ?case by metis
next
  case (Cons m ms)
  obtain st1 cp1 d1 d2 where 1: "apply_ack m False (s_stats s, s_cp s) = ((st1, cp1), d1)"
    and 2: "apply_acks ms False (st1, cp1) = ((st, cp), d2)"
    using Cons.prems(3) by (auto split: prod.splits)
  let ?s = "s\<lparr>s_stats := st1, s_cp := cp1, s_phase := ApplyDeferred ms\<rparr>"
  from Cons.IH [of ?s d2] cp_reachable.step [OF Cons.prems(1) cp_step.apply_deferred [OF Cons.prems(2) 1]] 2
  show ?case by simp
qed

lemma drain_reachable:
  assumes "cp_reachable s" and "s_phase s = Idle"
  shows "\<exists>st cp. drain (drop (s_reg_read s) (s_regs s)) (drop (s_ack_read s) (ack_tx (s_heap s))) [] (s_cp s)
        = Some (st, cp)
      \<and> cp_reachable (s\<lparr>s_reg_read := length (s_regs s), s_ack_read := length (ack_tx (s_heap s)),
                        s_stats := st, s_cp := cp\<rparr>)"
proof -
  from cp_reachable_inv [OF assms(1)]
  have read: "s_reg_read s \<le> length (s_regs s)" "s_ack_read s \<le> length (ack_tx (s_heap s))"
    by (simp_all add: sys_inv_def chan_inv_def)
  let ?s0 = "s\<lparr>s_phase := Regs1, s_stats := drain_stats_default\<rparr>"
  have "cp_reachable ?s0"
    by (rule cp_reachable.step [OF assms(1) cp_step.drain_start [OF assms(2)]])
  from drain_regs_steps [OF this, of undefined] read obtain st1 cp1 where
    r1: "drain_registrations (drop (s_reg_read s) (s_regs s)) (drain_stats_default, s_cp s) = Some (st1, cp1)"
    and s1: "cp_reachable (?s0\<lparr>s_reg_read := length (s_regs s), s_stats := st1, s_cp := cp1\<rparr>)" (is "cp_reachable ?s1")
    by auto
  have s2: "cp_reachable (?s1\<lparr>s_phase := AckLoop []\<rparr>)" (is "cp_reachable ?s2")
    by (rule cp_reachable.step [OF s1 cp_step.registrations_empty]) simp_all
  obtain st2 cp2 d where r2: "apply_acks (drop (s_ack_read s) (ack_tx (s_heap s))) True (st1, cp1) = ((st2, cp2), d)"
    by (metis prod.exhaust)
  have s3: "cp_reachable (?s2\<lparr>s_ack_read := length (ack_tx (s_heap s)), s_stats := st2, s_cp := cp2,
      s_phase := AckLoop d\<rparr>)" (is "cp_reachable ?s3")
    using drain_acks_steps [OF s2, of "[]"] r2 read by simp
  have s4: "cp_reachable (?s3\<lparr>s_phase := (if d = [] then Idle else Regs2 d)\<rparr>)"
    by (rule cp_reachable.step [OF s3 cp_step.acks_empty]) simp_all
  have idle: "x\<lparr>s_phase := Idle\<rparr> = x" if "s_phase x = Idle" for x :: sys
    using that by (intro sys.equality) simp_all
  let ?fin = "\<lambda>st cp. s\<lparr>s_reg_read := length (s_regs s), s_ack_read := length (ack_tx (s_heap s)),
      s_stats := st, s_cp := cp\<rparr>"
  show ?thesis
  proof (cases "d = []")
    case True
    with s4 idle [of "?fin st2 cp2"] assms(2) have "cp_reachable (?fin st2 cp2)" by simp
    with True r1 r2 show ?thesis by (auto simp: drain_def)
  next
    case False
    with s4 have "cp_reachable (?s3\<lparr>s_phase := Regs2 d\<rparr>)" by simp
    from cp_reachable.step [OF this cp_step.registrations_empty2 [where d = d]]
    have s5: "cp_reachable (?s3\<lparr>s_phase := ApplyDeferred d\<rparr>)" (is "cp_reachable ?s5") by simp
    obtain st3 cp3 d' where r3: "apply_acks d False (st2, cp2) = ((st3, cp3), d')"
      by (metis prod.exhaust)
    have s6: "cp_reachable (?s5\<lparr>s_stats := st3, s_cp := cp3, s_phase := ApplyDeferred []\<rparr>)" (is "cp_reachable ?s6")
      using drain_deferred_steps [OF s5, of d st3 cp3 d'] r3 by simp
    have "cp_reachable (?s6\<lparr>s_phase := Idle\<rparr>)"
      by (rule cp_reachable.step [OF s6 cp_step.drain_done]) simp
    then have "cp_reachable ((?fin st3 cp3)\<lparr>s_phase := Idle\<rparr>)" by simp
    moreover have "(?fin st3 cp3)\<lparr>s_phase := Idle\<rparr> = ?fin st3 cp3"
      by (rule idle) (simp add: assms(2))
    ultimately have "cp_reachable (?fin st3 cp3)" by (simp only:)
    with False r1 r2 r3 show ?thesis by (auto simp: drain_def)
  qed
qed

section \<open>A run\<close>

text \<open>
  One batch of one partition, end to end: assigned in epoch 1, issued by thread 0, dropped by
  the sink, drained. The witnesses apply the theorems above to the state it ends in.
\<close>

definition demo_batch :: batch_id where
  "demo_batch = \<lparr>bid_partition = PartitionId 0, bid_epoch = 1, bid_seq = 0\<rparr>"

definition demo_own :: "partition_id \<Rightarrow> thread option" where
  "demo_own = (\<lambda>p. if p = PartitionId 0 then Some 0 else None)"

definition demo_assigned :: sys where
  "demo_assigned = sys_init\<lparr>s_cp := the (begin_epoch [PartitionId 0] 1 checkpointer_new),
     s_owner := (\<lambda>_ _. None)(1 := demo_own)\<rparr>"

definition demo_issued :: sys where
  "demo_issued = demo_assigned\<lparr>
     s_issuers := (s_issuers demo_assigned)(0 := \<lparr>local_epoch = 1, seqs = [(PartitionId 0, 1)]\<rparr>),
     s_regs := [\<lparr>reg_id = demo_batch, reg_last_offset = 99\<rparr>],
     s_heap := snd (ackref_new demo_batch 99 heap_empty)\<rparr>"

definition demo_resolved :: sys where
  "demo_resolved = demo_issued\<lparr>s_heap := ackref_drop 0 (s_heap demo_issued)\<rparr>"

definition demo_drained :: sys where
  "demo_drained = demo_resolved\<lparr>s_reg_read := 1, s_ack_read := 1,
     s_stats := fst (the (drain (s_regs demo_resolved) (ack_tx (s_heap demo_resolved)) [] (s_cp demo_resolved))),
     s_cp := snd (the (drain (s_regs demo_resolved) (ack_tx (s_heap demo_resolved)) [] (s_cp demo_resolved)))\<rparr>"

lemmas demo_defs = demo_batch_def demo_own_def demo_assigned_def demo_issued_def demo_resolved_def demo_drained_def
  sys_init_def checkpointer_new_def begin_epoch_def amap_of_def new_gates_def heap_empty_def handle_def

lemma demo_assign_step: "cp_step sys_init demo_assigned"
proof -
  have "cp_step sys_init (sys_init\<lparr>s_cp := the (begin_epoch [PartitionId 0] 1 checkpointer_new),
      s_owner := (s_owner sys_init)(1 := demo_own)\<rparr>)"
    by (rule cp_step.begin_epoch [where ps = "[PartitionId 0]"]) (simp_all add: demo_defs)
  then show ?thesis by (simp add: demo_assigned_def) (simp add: sys_init_def)
qed

definition demo_issuing :: sys where
  "demo_issuing = demo_assigned\<lparr>s_issuing := (s_issuing demo_assigned)(0 := Some (demo_batch, 99)),
      s_issuers := (s_issuers demo_assigned)(0 := \<lparr>local_epoch = 1, seqs = [(PartitionId 0, 1)]\<rparr>)\<rparr>"

lemma demo_load_step: "cp_step demo_assigned demo_issuing"
  unfolding demo_issuing_def
  by (rule cp_step.issue_load [where p = "PartitionId 0"]) (simp_all add: demo_defs issue_id_def)

lemma demo_send_eq:
  "demo_issued = demo_issuing\<lparr>s_regs := s_regs demo_issuing @ [\<lparr>reg_id = demo_batch, reg_last_offset = 99\<rparr>],
      s_heap := snd (ackref_new demo_batch 99 heap_empty), s_issuing := (s_issuing demo_issuing)(0 := None)\<rparr>"
  by (simp add: demo_issued_def demo_issuing_def) (simp add: demo_defs fun_upd_idem)

lemma demo_issuing_simps:
  "s_issuing demo_issuing 0 = Some (demo_batch, 99)" "s_heap demo_issuing = heap_empty" "s_heap demo_assigned = heap_empty"
  by (simp_all add: demo_issuing_def demo_defs)

lemma demo_issued_reachable: "cp_reachable demo_issued"
proof -
  have "cp_reachable demo_issuing"
    by (intro cp_reachable.step [OF cp_reachable.step [OF cp_reachable.init demo_assign_step] demo_load_step])
  then show ?thesis
    unfolding demo_send_eq
    by (rule cp_reachable.step, intro cp_step.issue_send [where r = 0])
      (simp_all add: demo_issuing_simps ackref_new_def heap_empty_def)
qed

lemma demo_resolved_reachable: "cp_reachable demo_resolved"
proof -
  have ok: "heap_ok (s_heap demo_issued) {#0#}" "outbox_ok (s_heap demo_issued)"
    by (simp_all add: demo_defs ackref_new_def heap_ok_def refcount_def outbox_ok_def)
  have "heap_env (s_heap demo_issued) (ackref_drop 0 (s_heap demo_issued))"
    using heap_le_drop outbox_ok_drop [OF ok(2,1)] by (simp add: heap_env_def)
  then show ?thesis
    unfolding demo_resolved_def
    by (intro cp_reachable.step [OF demo_issued_reachable] cp_step.handles)
qed

lemmas demo_eval = demo_defs drain_def drain_registration_def apply_ack_def set_tracker_def register_def resolve_def
  tracker_new_def drain_stats_default_def ackref_new_def ackref_drop_def upd_cell_def ack_tx_send_def
  ack_state_drop_def Let_def

lemma demo_drain:
  "drain (s_regs demo_resolved) (ack_tx (s_heap demo_resolved)) [] (s_cp demo_resolved)
     = Some (\<lparr>applied = 1, stale_epoch = 0, duplicates = 0, unknown = 0\<rparr>,
             \<lparr>shared_epoch = 1, epoch = 1,
              trackers = [(PartitionId 0, \<lparr>head_seq = 0, next_seq = 1,
                ring = [\<lparr>last_offset = 99, state = SlotDelivered\<rparr>], stalled_since = None, stalled_seq = None\<rparr>)],
              gates = [(PartitionId 0, 0)], admitted_through = Some (PartitionId 0), counters = [0]\<rparr>)"
  by (simp add: demo_eval)

lemma demo_idle:
  "s_phase demo_resolved = Idle" "s_reg_read demo_resolved = 0" "s_ack_read demo_resolved = 0"
  "length (s_regs demo_resolved) = 1" "length (ack_tx (s_heap demo_resolved)) = 1"
  by (simp_all add: demo_eval)

lemma demo_drained_reachable: "cp_reachable demo_drained"
  using drain_reachable [OF demo_resolved_reachable demo_idle(1)] demo_idle demo_drain
  by (auto simp: demo_drained_def)

lemma demo_drained_facts:
  "s_phase demo_drained = Idle" "s_reg_read demo_drained = length (s_regs demo_drained)"
  "s_ack_read demo_drained = length (ack_tx (s_heap demo_drained))"
  "s_cp demo_drained = snd (the (drain (s_regs demo_resolved) (ack_tx (s_heap demo_resolved)) [] (s_cp demo_resolved)))"
  "s_stats demo_drained = \<lparr>applied = 1, stale_epoch = 0, duplicates = 0, unknown = 0\<rparr>"
  using demo_idle demo_drain by (simp_all add: demo_drained_def)

lemma demo_watermarks:
  "take_watermarks (\<lambda>_. 0) (s_cp demo_drained)
     = ([(PartitionId 0, 100)], snd (take_watermarks (\<lambda>_. 0) (s_cp demo_drained)))"
  unfolding demo_drained_facts(4) demo_drain
  by (simp add: take_watermarks_def take_one_def advance_on_def advance_loop.simps wrap_i64_def Let_def pending_def)

section \<open>Properties\<close>

text \<open>
  C3. In every interleaving of issuing threads, handle drops, drains, assignment changes and
  commits, the controller never hits the registration-gap panic, no resolution is ever counted
  as unknown (the one-retry deferral of \<open>drain\<close> is enough), and none is counted as a duplicate.
\<close>

theorem drain_never_panics_nor_loses:
  assumes "cp_reachable s"
  shows "\<not> s_panicked s \<and> unknown (s_stats s) = 0 \<and> duplicates (s_stats s) = 0"
  using cp_reachable_inv [OF assms] by (auto simp: sys_inv_def apply_inv_def)

theorem drain_never_panics_nor_loses_witness:
  "\<not> s_panicked demo_drained \<and> applied (s_stats demo_drained) = 1 \<and> unknown (s_stats demo_drained) = 0
     \<and> duplicates (s_stats demo_drained) = 0"
  using drain_never_panics_nor_loses [OF demo_drained_reachable] by (simp add: demo_drained_facts)

lemma watermark_cells:
  assumes "cp_reachable s" and "take_watermarks clk (s_cp s) = (out, cp')" and "(p, w) \<in> set out"
  shows "\<exists>k. (\<forall>i \<le> k. \<exists>r < length (arena (s_heap s)).
        state_id (arena (s_heap s) ! r) = \<lparr>bid_partition = p, bid_epoch = epoch (s_cp s), bid_seq = i\<rparr>
        \<and> refcount (s_heap s) r = 0 \<and> \<not> ack_failed (s_heap s) r
        \<and> (i = k \<longrightarrow> w = wrap_i64 (state_last_offset (arena (s_heap s) ! r) + 1)))"
proof -
  from cp_reachable_inv [OF assms(1)] obtain L where chan: "chan_inv s" and inv: "apply_inv s L"
    and regs: "regs_ok (epoch (s_cp s)) (s_owner s) (s_regs s)"
    by (auto simp: sys_inv_def issue_inv_def)
  from inv have core: "cp_core (s_cp s) L" by (simp add: apply_inv_def cp_abs_def)
  from take_watermarks_out(1) [OF core assms(2)] assms(3) obtain l where
    l: "L p = Some l" "fst (ledger_advance l) = Some w" by auto
  have ok: "ledger_ok l" using cp_core_tracker [OF core l(1)] trk.ok_law by blast
  let ?k = "delivered_prefix (batches l)"
  from l(2) ok have k: "0 < ?k" and w: "w = wrap_i64 (fst (batches l ! (?k - 1)) + 1)"
    by (auto simp: ledger_advance_def Let_def ledger_ok_def split: if_splits)
  show ?thesis
  proof (rule exI [of _ "?k - 1"], intro allI impI)
    fix i assume "i \<le> ?k - 1"
    with k have i: "i < ?k" by simp
    then have "i < length (batches l)" and "snd (batches l ! i) = Some Delivered"
      using delivered_prefix_le [of "batches l"] delivered_below_prefix by auto
    from delivered_cell [OF inv chan regs l(1) this] w
    show "\<exists>r < length (arena (s_heap s)).
        state_id (arena (s_heap s) ! r) = \<lparr>bid_partition = p, bid_epoch = epoch (s_cp s), bid_seq = i\<rparr>
        \<and> refcount (s_heap s) r = 0 \<and> \<not> ack_failed (s_heap s) r
        \<and> (i = ?k - 1 \<longrightarrow> w = wrap_i64 (state_last_offset (arena (s_heap s) ! r) + 1))"
      by auto
  qed
qed

text \<open>
  C2. Watermark soundness (the checkpoint half of INV-1): whenever the controller takes
  watermarks, a committable offset for a partition is one past the last offset of some batch
  of the current epoch, and that batch and every earlier batch of the partition in the epoch
  exists, has no live handle left anywhere, and was never failed.
\<close>

theorem watermark_sound:
  assumes "cp_reachable s" and "take_watermarks clk (s_cp s) = (out, cp')" and "(p, w) \<in> set out"
  shows "\<exists>k. (\<forall>i \<le> k. \<exists>r < length (arena (s_heap s)).
        state_id (arena (s_heap s) ! r) = \<lparr>bid_partition = p, bid_epoch = epoch (s_cp s), bid_seq = i\<rparr>
        \<and> refcount (s_heap s) r = 0 \<and> \<not> ack_failed (s_heap s) r
        \<and> (i = k \<longrightarrow> w = wrap_i64 (state_last_offset (arena (s_heap s) ! r) + 1)))"
  by (rule watermark_cells [OF assms])

theorem watermark_sound_witness:
  "\<exists>k. \<forall>i \<le> k. \<exists>r < length (arena (s_heap demo_drained)).
     state_id (arena (s_heap demo_drained) ! r)
       = \<lparr>bid_partition = PartitionId 0, bid_epoch = epoch (s_cp demo_drained), bid_seq = i\<rparr>
     \<and> refcount (s_heap demo_drained) r = 0 \<and> \<not> ack_failed (s_heap demo_drained) r
     \<and> (i = k \<longrightarrow> 100 = wrap_i64 (state_last_offset (arena (s_heap demo_drained) ! r) + 1))"
  by (rule watermark_sound [OF demo_drained_reachable demo_watermarks]) simp

lemma drained_matches:
  assumes "apply_inv s L" and "L p = Some l" and "s_phase s = Idle"
    and "s_reg_read s = length (s_regs s)" and "s_ack_read s = length (ack_tx (s_heap s))"
  shows "ledger_matches (epoch (s_cp s)) (s_regs s) (set (ack_tx (s_heap s))) p l"
  using assms by (auto simp: apply_inv_def applied_msgs_def)

text \<open>With every batch of the ledger delivered, no cell of the partition is live or failed.\<close>

lemma all_delivered_cell:
  assumes inv: "apply_inv s L" and chan: "chan_inv s" and regs: "regs_ok (epoch (s_cp s)) own (s_regs s)"
    and l: "L p = Some l" and lm: "ledger_matches (epoch (s_cp s)) (s_regs s) A p l"
    and all: "\<forall>i < length (batches l). snd (batches l ! i) = Some Delivered"
    and r: "r < length (arena (s_heap s))" "bid_partition (state_id (arena (s_heap s) ! r)) = p"
      "bid_epoch (state_id (arena (s_heap s) ! r)) = epoch (s_cp s)"
  shows "refcount (s_heap s) r = 0 \<and> \<not> ack_failed (s_heap s) r"
proof -
  let ?a = "arena (s_heap s)"
  have ids: "map state_id ?a = map reg_id (s_regs s)" using chan by (simp add: chan_inv_def)
  have "length ?a = length (s_regs s)" using ids by (metis length_map)
  then have rr: "s_regs s ! r \<in> set (s_regs s)" "reg_id (s_regs s ! r) = state_id (?a ! r)"
    using r(1) ids by (auto simp: list_eq_iff_nth_eq)
  then have i: "bid_seq (state_id (?a ! r)) < length (batches l)"
    using regs_ok_seq_bound [OF regs, of "s_regs s ! r" p "epoch (s_cp s)"] r(2,3) ledger_matches_length [OF lm]
    by (simp add: regs_of_def)
  from delivered_cell [OF inv chan regs l i] all i obtain r' where
    r': "r' < length ?a" "state_id (?a ! r') = \<lparr>bid_partition = p, bid_epoch = epoch (s_cp s), bid_seq = bid_seq (state_id (?a ! r))\<rparr>"
      "refcount (s_heap s) r' = 0" "\<not> ack_failed (s_heap s) r'"
    by blast
  have "distinct (map state_id ?a)" using regs_ok_distinct [OF regs] ids by simp
  moreover have "state_id (?a ! r') = state_id (?a ! r)"
    using r(2,3) by (intro batch_id.equality) (simp_all add: r'(2))
  ultimately have "r' = r" using r(1) r'(1) by (auto simp: distinct_conv_nth)
  with r' show ?thesis by simp
qed

text \<open>A cell that is dropped and not failed has its batch delivered in the drained ledger.\<close>

lemma dropped_cell_delivered:
  assumes chan: "chan_inv s" and regs: "regs_ok (epoch (s_cp s)) own (s_regs s)"
    and lm: "ledger_matches (epoch (s_cp s)) (s_regs s) (set (ack_tx (s_heap s))) p l"
    and all: "\<forall>r < length (arena (s_heap s)).
       bid_partition (state_id (arena (s_heap s) ! r)) = p
       \<and> bid_epoch (state_id (arena (s_heap s) ! r)) = epoch (s_cp s)
       \<longrightarrow> refcount (s_heap s) r = 0 \<and> \<not> ack_failed (s_heap s) r"
    and i: "i < length (batches l)"
  shows "snd (batches l ! i) = Some Delivered"
proof -
  let ?a = "arena (s_heap s)" and ?E = "epoch (s_cp s)"
  have ids: "map state_id ?a = map reg_id (s_regs s)" and out: "outbox_ok (s_heap s)"
    using chan by (simp_all add: chan_inv_def)
  have "i < length (regs_of p ?E (s_regs s))" using i ledger_matches_length [OF lm] by simp
  from regs_of_nth_id [OF regs this] ids obtain r where
    r: "r < length ?a" "state_id (?a ! r) = \<lparr>bid_partition = p, bid_epoch = ?E, bid_seq = i\<rparr>"
    by (metis in_set_conv_nth length_map nth_map)
  with all have "refcount (s_heap s) r = 0" "\<not> ack_failed (s_heap s) r" by auto
  with resolved_in_outbox [OF out r(1)] lm r show ?thesis
    by (force simp: ledger_matches_def ack_state_drop_def ack_failed_def)
qed

text \<open>
  C4. Nothing is held back: once both channels are drained, a partition has no pending batch
  after \<open>take_watermarks\<close> exactly when every batch ever issued for it in the epoch has lost its
  last handle without being failed.
\<close>

theorem watermark_complete:
  assumes "cp_reachable s" and "s_phase s = Idle"
    and "s_reg_read s = length (s_regs s)" and "s_ack_read s = length (ack_tx (s_heap s))"
    and "tracks p (s_cp s)" and "take_watermarks clk (s_cp s) = (out, cp')"
  shows "cp_pending p cp' = 0 \<longleftrightarrow>
    (\<forall>r < length (arena (s_heap s)).
       bid_partition (state_id (arena (s_heap s) ! r)) = p
       \<and> bid_epoch (state_id (arena (s_heap s) ! r)) = epoch (s_cp s)
       \<longrightarrow> refcount (s_heap s) r = 0 \<and> \<not> ack_failed (s_heap s) r)"
    (is "?P \<longleftrightarrow> ?Q")
proof -
  from cp_reachable_inv [OF assms(1)] obtain L where chan: "chan_inv s" and inv: "apply_inv s L"
    and regs: "regs_ok (epoch (s_cp s)) (s_owner s) (s_regs s)"
    by (auto simp: sys_inv_def issue_inv_def)
  from inv have core: "cp_core (s_cp s) L" by (simp add: apply_inv_def cp_abs_def)
  from assms(5) obtain l where l: "L p = Some l" using tracks_abs [OF core] by auto
  note lm = drained_matches [OF inv l assms(2-4)]
  have "?P \<longleftrightarrow> (\<forall>i < length (batches l). snd (batches l ! i) = Some Delivered)"
    using pending_after_take [OF core l assms(6)] delivered_prefix_le [of "batches l"]
      delivered_below_prefix [of _ "batches l"] delivered_prefix_geI [of "length (batches l)" "batches l"]
    by fastforce
  then show ?thesis
    using all_delivered_cell [OF inv chan regs l lm] dropped_cell_delivered [OF chan regs lm] by blast
qed

theorem watermark_complete_witness:
  "cp_pending (PartitionId 0) (snd (take_watermarks (\<lambda>_. 0) (s_cp demo_drained))) = 0"
proof -
  have tr: "tracks (PartitionId 0) (s_cp demo_drained)"
    by (simp add: demo_drained_facts(4) demo_drain tracks_def)
  have "s_heap demo_drained = s_heap demo_resolved" by (simp add: demo_drained_def)
  then have "\<forall>r < length (arena (s_heap demo_drained)).
      refcount (s_heap demo_drained) r = 0 \<and> \<not> ack_failed (s_heap demo_drained) r"
    by (simp add: demo_eval refcount_def ack_failed_def)
  with watermark_complete [OF demo_drained_reachable demo_drained_facts(1-3) tr demo_watermarks]
  show ?thesis by blast
qed

text \<open>
  C5. \<open>drain\<close> as written, run on everything waiting in the two channels, never panics from a
  reachable state, and what it computes is what the interleaved steps compute: the state with
  its result is reachable, idle, with both channels empty.
\<close>

theorem drain_total_and_reachable:
  assumes "cp_reachable s" and "s_phase s = Idle"
  shows "\<exists>st cp. drain (drop (s_reg_read s) (s_regs s)) (drop (s_ack_read s) (ack_tx (s_heap s))) [] (s_cp s)
        = Some (st, cp)
      \<and> cp_reachable (s\<lparr>s_reg_read := length (s_regs s), s_ack_read := length (ack_tx (s_heap s)),
                        s_stats := st, s_cp := cp\<rparr>)"
  by (rule drain_reachable [OF assms])

theorem drain_total_and_reachable_witness:
  "\<exists>st cp. drain (drop (s_reg_read demo_resolved) (s_regs demo_resolved))
       (drop (s_ack_read demo_resolved) (ack_tx (s_heap demo_resolved))) [] (s_cp demo_resolved) = Some (st, cp)"
  using drain_total_and_reachable [OF demo_resolved_reachable demo_idle(1)] by blast

end
