(* ===== verification/Backoff.thy ===== *)
theory Backoff
  imports Complex_Main Prelude
begin

text \<open>
  Capped exponential backoff with pseudo-jitter, \<open>crates/spate-core/src/backoff.rs\<close>.

  The sequence is computed in \<open>f64\<close> seconds. An \<open>f64\<close> is a rational, an infinity or NaN
  (the two zeros are one value: nothing here tells them apart), and the comparisons, \<open>min\<close>,
  \<open>clamp\<close> and the special cases of the arithmetic are those of IEEE 754. How a finite result
  is rounded is the argument \<open>rnd\<close> of the operations; the theorems ask of it only that zero
  is exact and that rounding loses at most one part in two to the 53 of a normal number.
  Durations are nanoseconds below \<open>Duration::MAX\<close>.
\<close>

unbundle bit_operations_syntax

section \<open>Floating point\<close>

datatype f64 = Fin rat | PosInf | NegInf | NaN

type_synonym rounding = "rat \<Rightarrow> f64"

fun f_le :: "f64 \<Rightarrow> f64 \<Rightarrow> bool" where
  "f_le NaN _ = False"
| "f_le _ NaN = False"
| "f_le NegInf _ = True"
| "f_le _ PosInf = True"
| "f_le (Fin x) (Fin y) = (x \<le> y)"
| "f_le _ _ = False"

fun f_finite :: "f64 \<Rightarrow> bool" where
  "f_finite (Fin x) = True"
| "f_finite _ = False"

text \<open>\<open>f64::min\<close> ignores a NaN; \<open>f64::clamp\<close> keeps it.\<close>

fun f_min :: "f64 \<Rightarrow> f64 \<Rightarrow> f64" where
  "f_min NaN y = y"
| "f_min x NaN = x"
| "f_min x y = (if f_le x y then x else y)"

definition f_clamp :: "f64 \<Rightarrow> f64 \<Rightarrow> f64 \<Rightarrow> f64" where
  "f_clamp x lo hi = (if \<not> f_le lo x \<and> x \<noteq> NaN then lo else if \<not> f_le x hi \<and> x \<noteq> NaN then hi else x)"

definition f_inf :: "bool \<Rightarrow> f64" where
  "f_inf positive = (if positive then PosInf else NegInf)"

fun f_neg :: "f64 \<Rightarrow> f64" where
  "f_neg (Fin x) = Fin (- x)"
| "f_neg PosInf = NegInf"
| "f_neg NegInf = PosInf"
| "f_neg NaN = NaN"

fun f_add :: "rounding \<Rightarrow> f64 \<Rightarrow> f64 \<Rightarrow> f64" where
  "f_add rnd (Fin x) (Fin y) = rnd (x + y)"
| "f_add rnd NaN _ = NaN"
| "f_add rnd _ NaN = NaN"
| "f_add rnd PosInf NegInf = NaN"
| "f_add rnd NegInf PosInf = NaN"
| "f_add rnd PosInf _ = PosInf"
| "f_add rnd _ PosInf = PosInf"
| "f_add rnd NegInf _ = NegInf"
| "f_add rnd _ NegInf = NegInf"

definition f_sub :: "rounding \<Rightarrow> f64 \<Rightarrow> f64 \<Rightarrow> f64" where
  "f_sub rnd x y = f_add rnd x (f_neg y)"

fun f_mul :: "rounding \<Rightarrow> f64 \<Rightarrow> f64 \<Rightarrow> f64" where
  "f_mul rnd (Fin x) (Fin y) = rnd (x * y)"
| "f_mul rnd NaN _ = NaN"
| "f_mul rnd _ NaN = NaN"
| "f_mul rnd (Fin x) PosInf = (if x = 0 then NaN else f_inf (0 < x))"
| "f_mul rnd (Fin x) NegInf = (if x = 0 then NaN else f_inf (x < 0))"
| "f_mul rnd PosInf (Fin y) = (if y = 0 then NaN else f_inf (0 < y))"
| "f_mul rnd NegInf (Fin y) = (if y = 0 then NaN else f_inf (y < 0))"
| "f_mul rnd PosInf PosInf = PosInf"
| "f_mul rnd NegInf NegInf = PosInf"
| "f_mul rnd PosInf NegInf = NegInf"
| "f_mul rnd NegInf PosInf = NegInf"

text \<open>Division, by a positive constant: the divisors here are literals.\<close>

fun f_div_by :: "rounding \<Rightarrow> f64 \<Rightarrow> rat \<Rightarrow> f64" where
  "f_div_by rnd (Fin x) c = rnd (x / c)"
| "f_div_by rnd x c = x"

section \<open>Durations\<close>

definition dur_max :: duration where
  "dur_max = 2 ^ 64 * 10 ^ 9 - 1"

definition round_even :: "rat \<Rightarrow> int" where
  "round_even q =
     (let f = \<lfloor>q\<rfloor>; r = q - of_int f in
      if r < 1 / 2 then f else if 1 / 2 < r then f + 1 else if even f then f else f + 1)"

definition as_secs_f64 :: "rounding \<Rightarrow> duration \<Rightarrow> f64" where
  "as_secs_f64 rnd d =
     f_add rnd (rnd (of_nat (d div 10 ^ 9))) (f_div_by rnd (rnd (of_nat (d mod 10 ^ 9))) (10 ^ 9))"

fun try_from_secs_f64 :: "f64 \<Rightarrow> duration option" where
  "try_from_secs_f64 (Fin x) =
     (if x < 0 then None
      else let d = nat (round_even (x * 10 ^ 9)) in if dur_max < d then None else Some d)"
| "try_from_secs_f64 _ = None"

section \<open>The schedule\<close>

record backoff =
  bo_start :: duration
  bo_max :: duration
  bo_multiplier :: f64
  bo_jitter :: f64
  bo_current :: duration
  bo_rng :: "64 word"

definition splitmix64 :: "64 word \<Rightarrow> 64 word" where
  "splitmix64 seed =
     (let z = seed + 0x9E3779B97F4A7C15;
          z = (z XOR drop_bit 30 z) * 0xBF58476D1CE4E5B9;
          z = (z XOR drop_bit 27 z) * 0x94D049BB133111EB
      in z XOR drop_bit 31 z)"

definition rng_state :: "64 word \<Rightarrow> 64 word" where
  "rng_state seed = (let mixed = splitmix64 seed in if mixed = 0 then 0x9E3779B97F4A7C15 else mixed)"

definition backoff_new :: "duration \<Rightarrow> duration \<Rightarrow> backoff" where
  "backoff_new initial mx =
     (let start = (if initial \<le> mx then initial else mx) in
      \<lparr>bo_start = start, bo_max = mx, bo_multiplier = Fin 2, bo_jitter = Fin 0, bo_current = start,
       bo_rng = rng_state 0\<rparr>)"

definition with_multiplier :: "f64 \<Rightarrow> backoff \<Rightarrow> backoff" where
  "with_multiplier m b = b\<lparr>bo_multiplier := m\<rparr>"

definition with_jitter :: "f64 \<Rightarrow> backoff \<Rightarrow> backoff" where
  "with_jitter fraction b = b\<lparr>bo_jitter := fraction\<rparr>"

definition with_seed :: "64 word \<Rightarrow> backoff \<Rightarrow> backoff" where
  "with_seed seed b = b\<lparr>bo_rng := rng_state seed\<rparr>"

definition next_rand :: "backoff \<Rightarrow> 64 word \<times> backoff" where
  "next_rand b =
     (let x = bo_rng b;
          x = x XOR push_bit 13 x;
          x = x XOR drop_bit 7 x;
          x = x XOR push_bit 17 x
      in (x, b\<lparr>bo_rng := x\<rparr>))"

definition unwrap_or :: "'a option \<Rightarrow> 'a \<Rightarrow> 'a" where
  "unwrap_or v d = (case v of None \<Rightarrow> d | Some x \<Rightarrow> x)"

definition next_delay :: "rounding \<Rightarrow> backoff \<Rightarrow> duration \<times> backoff" where
  "next_delay rnd b =
     (let base = bo_current b; cap = bo_max b;
          grown = (if f_le (Fin 1) (bo_multiplier b)
                   then f_min (f_mul rnd (as_secs_f64 rnd base) (bo_multiplier b)) (as_secs_f64 rnd cap)
                   else as_secs_f64 rnd cap);
          b = b\<lparr>bo_current := min (unwrap_or (try_from_secs_f64 grown) cap) cap\<rparr>;
          jitter = (if f_finite (bo_jitter b) then f_clamp (bo_jitter b) (Fin 0) (Fin 1) else Fin 0)
      in if f_le jitter (Fin 0) then (base, b)
         else
           let (r, b) = next_rand b;
               unit = f_div_by rnd (rnd (of_nat (unat (drop_bit 11 r)))) (2 ^ 53);
               jittered = f_mul rnd (as_secs_f64 rnd base) (f_sub rnd (Fin 1) (f_mul rnd jitter unit));
               floor = min base 1
           in (max floor (min (unwrap_or (try_from_secs_f64 jittered) base) base), b))"

definition backoff_reset :: "backoff \<Rightarrow> backoff" where
  "backoff_reset b = b\<lparr>bo_current := bo_start b\<rparr>"

section \<open>The generator never reaches its absorbing state\<close>

lemma xor_zero_eq: "x XOR y = 0 \<Longrightarrow> x = (y :: 64 word)"
  by (simp add: bit_eq_iff bit_xor_iff)

lemma xor_push_bit_nonzero:
  fixes x :: "64 word"
  assumes "0 < n" and "x XOR push_bit n x = 0"
  shows "x = 0"
proof (rule bit_eqI)
  have eq: "x = push_bit n x" by (rule xor_zero_eq [OF assms(2)])
  have "\<not> bit x k" for k
  proof (induction k rule: less_induct)
    case (less k)
    show ?case
    proof
      assume "bit x k"
      then have "bit (push_bit n x) k" using eq by simp
      then have "n \<le> k" and "bit x (k - n)" by (simp_all add: bit_push_bit_iff)
      with less [of "k - n"] assms(1) show False by simp
    qed
  qed
  then show "bit x k \<longleftrightarrow> bit 0 k" for k by simp
qed

lemma xor_drop_bit_nonzero:
  fixes x :: "64 word"
  assumes "0 < n" and "x XOR drop_bit n x = 0"
  shows "x = 0"
proof (rule bit_eqI)
  have eq: "x = drop_bit n x" by (rule xor_zero_eq [OF assms(2)])
  have "\<not> bit x k" for k
  proof (induction "64 - k" arbitrary: k rule: less_induct)
    case less
    show ?case
    proof
      assume b: "bit x k"
      then have "bit (drop_bit n x) k" using eq by simp
      then have up: "bit x (n + k)" by (simp add: bit_drop_bit_eq)
      from b have "k < 64" by (auto dest: bit_imp_le_length)
      then have "64 - (n + k) < 64 - k" using assms(1) by linarith
      with less up show False by blast
    qed
  qed
  then show "bit x k \<longleftrightarrow> bit 0 k" for k by simp
qed

lemma next_rand_nonzero:
  assumes "bo_rng b \<noteq> 0"
  shows "bo_rng (snd (next_rand b)) \<noteq> 0"
proof -
  define x1 where "x1 = bo_rng b XOR push_bit 13 (bo_rng b)"
  define x2 where "x2 = x1 XOR drop_bit 7 x1"
  define x3 where "x3 = x2 XOR push_bit 17 x2"
  have "x1 \<noteq> 0" unfolding x1_def by (rule contrapos_nn [OF assms xor_push_bit_nonzero]) simp_all
  then have "x2 \<noteq> 0" unfolding x2_def by (rule contrapos_nn [OF _ xor_drop_bit_nonzero]) simp_all
  then have "x3 \<noteq> 0" unfolding x3_def by (rule contrapos_nn [OF _ xor_push_bit_nonzero]) simp_all
  moreover have "bo_rng (snd (next_rand b)) = x3"
    by (cases b) (simp only: next_rand_def Let_def x1_def x2_def x3_def snd_conv backoff.simps)
  ultimately show ?thesis by simp
qed

lemma rng_state_nonzero: "rng_state seed \<noteq> 0"
  by (simp add: rng_state_def Let_def)

section \<open>Rounding\<close>

text \<open>
  What is asked of rounding: zero is exact, and a number of at least one tenth of a nanosecond
  (far above the subnormal range) becomes infinite or keeps all but one part in \<open>2 ^ 53\<close>.
\<close>

definition rounds :: "rounding \<Rightarrow> bool" where
  "rounds rnd \<longleftrightarrow> rnd 0 = Fin 0 \<and>
     (\<forall>x. 1 / 10 ^ 10 \<le> x \<longrightarrow> rnd x = PosInf \<or> (\<exists>y. rnd x = Fin y \<and> x * (1 - 1 / 2 ^ 53) \<le> y))"

text \<open>\<open>above f q\<close>: \<open>f\<close> is a number that is at least \<open>q\<close>.\<close>

fun above :: "f64 \<Rightarrow> rat \<Rightarrow> bool" where
  "above (Fin x) q = (q \<le> x)"
| "above PosInf q = True"
| "above _ q = False"

definition keep :: rat where
  "keep = 1 - 1 / 2 ^ 53"

lemma keep_pos: "0 < keep" "keep < 1" by (simp_all add: keep_def)

lemma rnd_above:
  assumes "rounds rnd" and "1 / 10 ^ 10 \<le> q" and "q \<le> x"
  shows "above (rnd x) (q * keep)"
proof -
  from assms have "1 / 10 ^ 10 \<le> x" by linarith
  with assms(1) have "rnd x = PosInf \<or> (\<exists>y. rnd x = Fin y \<and> x * keep \<le> y)"
    unfolding rounds_def keep_def by blast
  moreover have "q * keep \<le> x * keep" using assms(3) keep_pos by simp
  ultimately show ?thesis by auto
qed

lemma f_mul_above:
  assumes "rounds rnd" and "above f q" and "1 / 10 ^ 10 \<le> q" and "f_le (Fin 1) m"
  shows "above (f_mul rnd f m) (q * keep)"
proof (cases f)
  case (Fin x)
  with assms(2,3) have x: "q \<le> x" "0 < x" by simp_all
  show ?thesis
  proof (cases m)
    case m: (Fin y)
    with assms(4) have "1 \<le> y" by simp
    with x have "x * 1 \<le> x * y" by (intro mult_left_mono) simp_all
    then have "q \<le> x * y" using x by linarith
    from rnd_above [OF assms(1,3) this] Fin m show ?thesis by simp
  qed (use assms(4) Fin x in \<open>simp_all add: f_inf_def\<close>)
next
  case PosInf
  then show ?thesis using assms(4) by (cases m) (simp_all add: f_inf_def)
qed (use assms(2) in simp_all)

lemma f_min_above: "above f q \<Longrightarrow> above g q \<Longrightarrow> above (f_min f g) q"
  by (cases f; cases g) simp_all

lemma above_mono: "above f q \<Longrightarrow> p \<le> q \<Longrightarrow> above f p"
  by (cases f) simp_all

lemma f_add_above:
  assumes "rounds rnd" and "above f q" and "above g p" and "1 / 10 ^ 10 \<le> q + p"
  shows "above (f_add rnd f g) ((q + p) * keep)"
proof (cases "\<exists>x y. f = Fin x \<and> g = Fin y")
  case True
  then obtain x y where "f = Fin x" "g = Fin y" by blast
  with assms(2,3) rnd_above [OF assms(1,4), of "x + y"] show ?thesis by simp
next
  case False
  with assms(2,3) show ?thesis by (cases f; cases g) simp_all
qed

lemma f_div_above:
  assumes "rounds rnd" and "above f q" and "1 / 10 ^ 10 \<le> q / c" and "0 < c"
  shows "above (f_div_by rnd f c) (q / c * keep)"
proof (cases f)
  case (Fin x)
  with assms(2,4) have "q / c \<le> x / c" by (simp add: divide_right_mono)
  from rnd_above [OF assms(1,3) this] Fin show ?thesis by simp
qed (use assms(2) in simp_all)

lemma keep_large: "1 / 2 < keep ^ 4" by (simp add: keep_def power_divide field_simps)

lemma as_secs_above:
  assumes "rounds rnd" and "1 \<le> d"
  shows "above (as_secs_f64 rnd d) (keep ^ 3 / 10 ^ 9)"
proof -
  define s :: rat where "s = (if 1 \<le> d div 10 ^ 9 then keep else 0)"
  define n :: rat where "n = (if 1 \<le> d mod 10 ^ 9 then keep / 10 ^ 9 * keep else 0)"
  have k: "9 / 10 \<le> keep" by (simp add: keep_def)
  have secs: "above (rnd (of_nat (d div 10 ^ 9))) s"
  proof (cases "1 \<le> d div 10 ^ 9")
    case True
    then have "(1::rat) \<le> of_nat (d div 10 ^ 9)" by (metis of_nat_1 of_nat_le_iff)
    with rnd_above [OF assms(1), of 1] True show ?thesis by (simp add: s_def)
  next
    case False
    then have "d div 10 ^ 9 = 0" by linarith
    with assms(1) show ?thesis by (simp add: s_def rounds_def)
  qed
  have nanos: "above (f_div_by rnd (rnd (of_nat (d mod 10 ^ 9))) (10 ^ 9)) n"
  proof (cases "1 \<le> d mod 10 ^ 9")
    case True
    then have "(1::rat) \<le> of_nat (d mod 10 ^ 9)" by (metis of_nat_1 of_nat_le_iff)
    from rnd_above [OF assms(1) _ this] have "above (rnd (of_nat (d mod 10 ^ 9))) keep" by simp
    from f_div_above [OF assms(1) this, of "10 ^ 9"] k True show ?thesis by (simp add: n_def)
  next
    case False
    then have "d mod 10 ^ 9 = 0" by linarith
    with assms(1) show ?thesis by (simp add: n_def rounds_def)
  qed
  have "1 \<le> d div 10 ^ 9 \<or> 1 \<le> d mod 10 ^ 9"
    using assms(2) by (metis div_mult_mod_eq less_one linorder_not_less mult_0 add_0)
  then have "keep / 10 ^ 9 * keep \<le> s + n"
    using keep_pos by (auto simp: s_def n_def mult_le_one divide_le_eq intro: order_trans [of _ keep])
  moreover have "1 / 10 ^ 10 \<le> keep / 10 ^ 9 * keep"
    by (simp add: keep_def power_divide field_simps)
  ultimately have sum: "1 / 10 ^ 10 \<le> s + n" "keep / 10 ^ 9 * keep * keep \<le> (s + n) * keep"
    using keep_pos by simp_all
  from f_add_above [OF assms(1) secs nanos sum(1)] have "above (as_secs_f64 rnd d) ((s + n) * keep)"
    by (simp add: as_secs_f64_def)
  from above_mono [OF this sum(2)] show ?thesis by (simp add: power3_eq_cube)
qed

lemma try_from_secs_nonzero:
  assumes "above f (keep ^ 4 / 10 ^ 9)" and "try_from_secs_f64 f = Some d"
  shows "1 \<le> d"
proof -
  obtain x where f: "f = Fin x" using assms(2) by (cases f) simp_all
  with assms(1) have "keep ^ 4 \<le> x * 10 ^ 9" by (simp add: field_simps)
  with keep_large have half: "1 / 2 < x * 10 ^ 9" by linarith
  have "1 \<le> round_even (x * 10 ^ 9)"
  proof (cases "1 \<le> \<lfloor>x * 10 ^ 9\<rfloor>")
    case False
    moreover have "0 \<le> \<lfloor>x * 10 ^ 9\<rfloor>" using half by simp
    ultimately have "\<lfloor>x * 10 ^ 9\<rfloor> = 0" by linarith
    with half show ?thesis by (simp add: round_even_def Let_def)
  qed (simp add: round_even_def Let_def)
  with assms(2) f show ?thesis by (auto simp: Let_def split: if_splits)
qed

section \<open>Bounds of the sequence\<close>

definition backoff_inv :: "backoff \<Rightarrow> bool" where
  "backoff_inv b \<longleftrightarrow>
     bo_start b \<le> bo_max b \<and> bo_current b \<le> bo_max b
     \<and> (0 < bo_start b \<longrightarrow> 0 < bo_current b) \<and> bo_rng b \<noteq> 0"

lemma backoff_inv_new: "backoff_inv (backoff_new initial mx)"
  by (simp add: backoff_inv_def backoff_new_def Let_def rng_state_nonzero)

lemma backoff_inv_with:
  "backoff_inv b \<Longrightarrow> backoff_inv (with_multiplier m b)"
  "backoff_inv b \<Longrightarrow> backoff_inv (with_jitter j b)"
  "backoff_inv b \<Longrightarrow> backoff_inv (with_seed s b)"
  "backoff_inv b \<Longrightarrow> backoff_inv (backoff_reset b)"
  by (simp_all add: backoff_inv_def with_multiplier_def with_jitter_def with_seed_def
      backoff_reset_def rng_state_nonzero)

definition next_secs :: "rounding \<Rightarrow> backoff \<Rightarrow> f64" where
  "next_secs rnd b =
     (if f_le (Fin 1) (bo_multiplier b)
      then f_min (f_mul rnd (as_secs_f64 rnd (bo_current b)) (bo_multiplier b)) (as_secs_f64 rnd (bo_max b))
      else as_secs_f64 rnd (bo_max b))"

lemma next_rand_frame:
  "next_rand b = (r, b') \<Longrightarrow>
     bo_start b' = bo_start b \<and> bo_max b' = bo_max b \<and> bo_current b' = bo_current b
     \<and> bo_multiplier b' = bo_multiplier b \<and> bo_jitter b' = bo_jitter b"
  by (auto simp: next_rand_def Let_def)

lemma next_delay_effect:
  assumes "next_delay rnd b = (d, b')"
  shows "bo_start b' = bo_start b" "bo_max b' = bo_max b"
    "bo_current b' = min (unwrap_or (try_from_secs_f64 (next_secs rnd b)) (bo_max b)) (bo_max b)"
    "bo_rng b \<noteq> 0 \<Longrightarrow> bo_rng b' \<noteq> 0"
    "d \<le> bo_current b" "0 < bo_current b \<Longrightarrow> 0 < d"
proof -
  define b1 where "b1 = b\<lparr>bo_current := min (unwrap_or (try_from_secs_f64 (next_secs rnd b)) (bo_max b)) (bo_max b)\<rparr>"
  have cases: "(d = bo_current b \<and> b' = b1) \<or>
    (\<exists>x r. d = max (min (bo_current b) 1) (min x (bo_current b)) \<and> next_rand b1 = (r, b'))"
    using assms unfolding next_delay_def next_secs_def [symmetric] Let_def b1_def [symmetric]
    by (auto split: if_splits prod.splits)
  have rng: "bo_rng b1 = bo_rng b" by (simp add: b1_def)
  from cases show "bo_start b' = bo_start b" "bo_max b' = bo_max b"
    "bo_current b' = min (unwrap_or (try_from_secs_f64 (next_secs rnd b)) (bo_max b)) (bo_max b)"
    by (auto simp: b1_def dest!: next_rand_frame)
  from cases show "bo_rng b' \<noteq> 0" if "bo_rng b \<noteq> 0"
    using that rng next_rand_nonzero [of b1] by auto
  from cases show "d \<le> bo_current b" "0 < bo_current b \<Longrightarrow> 0 < d" by auto
qed

lemma step_nonzero:
  assumes "rounds rnd" and "0 < bo_current b" and "0 < bo_max b"
    and "try_from_secs_f64 (next_secs rnd b) = Some d"
  shows "1 \<le> d"
proof -
  have k: "1 / 10 ^ 10 \<le> keep ^ 3 / 10 ^ 9" by (simp add: keep_def power_divide field_simps)
  have le: "keep ^ 4 / 10 ^ 9 \<le> keep ^ 3 / 10 ^ 9"
    by (rule divide_right_mono) (use keep_pos in \<open>simp_all add: power_decreasing\<close>)
  have cap: "above (as_secs_f64 rnd (bo_max b)) (keep ^ 4 / 10 ^ 9)"
    using above_mono [OF as_secs_above [OF assms(1), of "bo_max b"] le] assms(3) by simp
  have "above (next_secs rnd b) (keep ^ 4 / 10 ^ 9)"
  proof (cases "f_le (Fin 1) (bo_multiplier b)")
    case True
    have "above (as_secs_f64 rnd (bo_current b)) (keep ^ 3 / 10 ^ 9)"
      using as_secs_above [OF assms(1), of "bo_current b"] assms(2) by simp
    from f_mul_above [OF assms(1) this k True] f_min_above [OF _ cap] True
    show ?thesis by (simp add: next_secs_def power4_eq_xxxx power3_eq_cube)
  next
    case False
    with cap show ?thesis by (simp add: next_secs_def)
  qed
  from try_from_secs_nonzero [OF this assms(4)] show ?thesis .
qed

lemma next_delay_inv:
  assumes "rounds rnd" and "backoff_inv b" and "next_delay rnd b = (d, b')"
  shows "backoff_inv b' \<and> bo_start b' = bo_start b \<and> bo_max b' = bo_max b
    \<and> d \<le> bo_max b \<and> (0 < bo_start b \<longrightarrow> 0 < d)"
proof -
  note e = next_delay_effect [OF assms(3)]
  from assms(2) have inv: "bo_start b \<le> bo_max b" "bo_current b \<le> bo_max b"
    "0 < bo_start b \<Longrightarrow> 0 < bo_current b" "bo_rng b \<noteq> 0" by (simp_all add: backoff_inv_def)
  have "0 < bo_current b'" if "0 < bo_start b"
    using step_nonzero [OF assms(1), of b] inv that
    by (cases "try_from_secs_f64 (next_secs rnd b)") (auto simp: e(3) unwrap_or_def)
  moreover have "bo_current b' \<le> bo_max b'" by (simp add: e(2,3))
  ultimately show ?thesis
    using inv e(1,2,5,6) e(4) [OF inv(4)] by (auto simp: backoff_inv_def)
qed

text \<open>A schedule in use: the delays it gave, with restarts in between.\<close>

datatype backoff_op = NextDelay | Reset

fun backoff_step :: "rounding \<Rightarrow> backoff_op \<Rightarrow> backoff \<Rightarrow> (duration option \<times> backoff) option" where
  "backoff_step rnd NextDelay b = (case next_delay rnd b of (d, b') \<Rightarrow> Some (Some d, b'))"
| "backoff_step rnd Reset b = Some (None, backoff_reset b)"

lemma backoff_run_inv:
  "run_ops (backoff_step rnd) xs b = Some (outs, b') \<Longrightarrow> rounds rnd \<Longrightarrow> backoff_inv b \<Longrightarrow>
     Some d \<in> set outs \<Longrightarrow> d \<le> bo_max b \<and> (0 < bo_start b \<longrightarrow> 0 < d)"
proof (induction xs arbitrary: b outs)
  case (Cons x xs)
  from Cons.prems(1) obtain r b1 outs' where step: "backoff_step rnd x b = Some (r, b1)"
    and run: "run_ops (backoff_step rnd) xs b1 = Some (outs', b')" and outs: "outs = r # outs'"
    unfolding run_ops_Cons by blast
  show ?case
  proof (cases x)
    case NextDelay
    with step obtain d0 where d0: "next_delay rnd b = (d0, b1)" "r = Some d0"
      by (auto split: prod.splits)
    with next_delay_inv [OF Cons.prems(2,3) d0(1)] Cons.IH [OF run Cons.prems(2)] Cons.prems(4) outs
    show ?thesis by auto
  next
    case Reset
    with step have "r = None" "b1 = backoff_reset b" by simp_all
    with Cons.IH [OF run Cons.prems(2)] backoff_inv_with(4) [OF Cons.prems(3)] Cons.prems(4) outs
    show ?thesis by (auto simp: backoff_reset_def)
  qed
qed simp

lemma backoff_run_total: "\<exists>outs b'. run_ops (backoff_step rnd) xs b = Some (outs, b')"
proof (induction xs arbitrary: b)
  case (Cons x xs)
  obtain r b1 where "backoff_step rnd x b = Some (r, b1)"
    by (cases x) (simp_all add: split_beta)
  with Cons.IH [of b1] show ?case by auto
qed simp

text \<open>
  C30. Backoff bounds: whatever the multiplier, jitter and seed (NaN, infinities and negative
  values included), however \<open>f64\<close> rounds, and with \<open>reset\<close> called at any point, every delay is
  at most \<open>max\<close>, and is at least one nanosecond unless \<open>initial\<close> or \<open>max\<close> is itself zero. No
  call panics.
\<close>

theorem backoff_delay_bounds:
  assumes "rounds rnd"
  shows "\<exists>outs b. run_ops (backoff_step rnd) xs
      (with_seed seed (with_jitter jitter (with_multiplier multiplier (backoff_new initial mx)))) = Some (outs, b)
    \<and> (\<forall>d. Some d \<in> set outs \<longrightarrow> d \<le> mx \<and> (0 < min initial mx \<longrightarrow> 0 < d))"
proof -
  let ?b = "with_seed seed (with_jitter jitter (with_multiplier multiplier (backoff_new initial mx)))"
  obtain outs b where run: "run_ops (backoff_step rnd) xs ?b = Some (outs, b)"
    using backoff_run_total by blast
  have "backoff_inv ?b" by (intro backoff_inv_with backoff_inv_new)
  from backoff_run_inv [OF run assms this]
  have "d \<le> bo_max ?b \<and> (0 < bo_start ?b \<longrightarrow> 0 < d)" if "Some d \<in> set outs" for d
    using that .
  then show ?thesis
    using run by (auto simp: with_seed_def with_jitter_def with_multiplier_def backoff_new_def Let_def
        split: if_splits)
qed

lemma rounds_exact: "rounds Fin" by (simp add: rounds_def)

theorem backoff_delay_bounds_witness:
  "run_ops (backoff_step Fin) [NextDelay, NextDelay, NextDelay, Reset, NextDelay] (backoff_new 200 500)
     = Some ([Some 200, Some 400, Some 500, None, Some 200],
             (backoff_new 200 500)\<lparr>bo_current := 400\<rparr>)
   \<and> (\<exists>outs b. run_ops (backoff_step Fin) [NextDelay, NextDelay]
        (with_seed 7 (with_jitter (Fin (1 / 5)) (with_multiplier NaN (backoff_new 200 500)))) = Some (outs, b)
      \<and> (\<forall>d. Some d \<in> set outs \<longrightarrow> d \<le> 500 \<and> 0 < d))"
proof
  show "run_ops (backoff_step Fin) [NextDelay, NextDelay, NextDelay, Reset, NextDelay] (backoff_new 200 500)
     = Some ([Some 200, Some 400, Some 500, None, Some 200],
             (backoff_new 200 500)\<lparr>bo_current := 400\<rparr>)"
    by (simp add: backoff_new_def next_delay_def backoff_reset_def as_secs_f64_def f_clamp_def unwrap_or_def
        round_even_def dur_max_def Let_def)
  show "\<exists>outs b. run_ops (backoff_step Fin) [NextDelay, NextDelay]
        (with_seed 7 (with_jitter (Fin (1 / 5)) (with_multiplier NaN (backoff_new 200 500)))) = Some (outs, b)
      \<and> (\<forall>d. Some d \<in> set outs \<longrightarrow> d \<le> 500 \<and> 0 < d)"
    using backoff_delay_bounds [OF rounds_exact, of "[NextDelay, NextDelay]" 7 "Fin (1 / 5)" NaN 200 500] by simp
qed

end
