(* ===== verification/Breaker.thy ===== *)
theory Breaker
  imports Prelude
begin

text \<open>
  Circuit breakers of one shard's replicas, \<open>crates/spate-core/src/sink/breaker.rs\<close>.

  A \<open>breaker_set\<close> is the mutex-protected state; each operation is one critical section, so
  the interleavings of the shard worker and its write tasks are the sequences of operations.
  The metrics handle is the three values the set writes: a health gauge per replica, the
  shard's health gauge and a count of openings per replica. The wake channel is the counter
  it carries. An out-of-range replica index panics.
\<close>

section \<open>State\<close>

record breaker_config =
  failure_threshold :: nat
  open_for :: duration
  half_open_probes :: nat

datatype br_state = Closed nat | Open instant | HalfOpen nat nat

record pick =
  pk_replica :: nat
  pk_probe :: "nat option"

record breaker_set =
  cfg :: breaker_config
  states :: "br_state list"
  cursor :: nat
  shard_healthy :: bool
  wake_tx :: nat
  next_episode :: nat
  g_replica_healthy :: "bool list"
  g_shard_healthy :: bool
  g_breaker_opened :: "nat list"

datatype shard_health_transition = Recovered | AllQuarantined

definition max_open_for :: duration where
  "max_open_for = 365 * 24 * 60 * 60 * 10 ^ 9"

definition breaker_new :: "nat \<Rightarrow> breaker_config \<Rightarrow> breaker_set option" where
  "breaker_new replicas c =
     (if 0 < replicas then
        Some \<lparr>cfg = c\<lparr>half_open_probes := max (half_open_probes c) 1,
                      open_for := min (open_for c) max_open_for\<rparr>,
              states = replicate replicas (Closed 0), cursor = 0, shard_healthy = True,
              wake_tx = 0, next_episode = 0,
              g_replica_healthy = replicate replicas True, g_shard_healthy = True,
              g_breaker_opened = replicate replicas 0\<rparr>
      else None)"

definition publish_wake :: "breaker_set \<Rightarrow> breaker_set" where
  "publish_wake b = b\<lparr>wake_tx := (wake_tx b + 1) mod 2 ^ 64\<rparr>"

section \<open>Picking\<close>

definition take_pick :: "nat \<Rightarrow> br_state \<Rightarrow> nat option \<Rightarrow> breaker_set \<Rightarrow> pick option \<times> breaker_set" where
  "take_pick idx st probe b =
     (Some \<lparr>pk_replica = idx, pk_probe = probe\<rparr>,
      b\<lparr>states := (states b)[idx := st], cursor := (idx + 1) mod length (states b)\<rparr>)"

text \<open>The \<open>for step in 0..n\<close> loop of \<open>next_replica\<close>; the list is the steps left.\<close>

fun next_replica_loop :: "instant \<Rightarrow> nat list \<Rightarrow> breaker_set \<Rightarrow> pick option \<times> breaker_set" where
  "next_replica_loop now [] b = (None, b)"
| "next_replica_loop now (step # steps) b =
     (let idx = (cursor b + step) mod length (states b) in
      case states b ! idx of
        Closed k \<Rightarrow> take_pick idx (Closed k) None b
      | Open until \<Rightarrow>
          if until \<le> now then
            let episode = next_episode b + 1
            in take_pick idx (HalfOpen 1 episode) (Some episode) (b\<lparr>next_episode := episode\<rparr>)
          else next_replica_loop now steps b
      | HalfOpen probes episode \<Rightarrow>
          if probes < half_open_probes (cfg b)
          then take_pick idx (HalfOpen (probes + 1) episode) (Some episode) b
          else next_replica_loop now steps b)"

definition next_replica :: "instant \<Rightarrow> breaker_set \<Rightarrow> pick option \<times> breaker_set" where
  "next_replica now b = next_replica_loop now [0..<length (states b)] b"

section \<open>Outcomes\<close>

definition release_probe :: "nat \<Rightarrow> nat \<Rightarrow> breaker_set \<Rightarrow> breaker_set option" where
  "release_probe replica episode b =
     (if replica < length (states b) then
        Some (case states b ! replica of
                HalfOpen probes current \<Rightarrow>
                  if current \<noteq> episode then b
                  else publish_wake (b\<lparr>states := (states b)[replica := HalfOpen (probes - 1) current]\<rparr>)
              | _ \<Rightarrow> b)
      else None)"

fun open_deadline :: "br_state \<Rightarrow> instant list" where
  "open_deadline (Open until) = [until]"
| "open_deadline _ = []"

definition next_probe_at :: "instant \<Rightarrow> breaker_set \<Rightarrow> instant option" where
  "next_probe_at now b =
     (case concat (map open_deadline (states b)) of
        [] \<Rightarrow> None
      | t # ts \<Rightarrow> Some (max (fold min ts t) now))"

fun is_closed :: "br_state \<Rightarrow> bool" where
  "is_closed (Closed k) = True"
| "is_closed _ = False"

fun is_open :: "br_state \<Rightarrow> bool" where
  "is_open (Open u) = True"
| "is_open _ = False"

definition publish_replica_health :: "nat \<Rightarrow> breaker_set \<Rightarrow> breaker_set" where
  "publish_replica_health replica b =
     b\<lparr>g_replica_healthy := (g_replica_healthy b)[replica := is_closed (states b ! replica)]\<rparr>"

definition refresh_shard_health :: "breaker_set \<Rightarrow> shard_health_transition option \<times> breaker_set" where
  "refresh_shard_health b =
     (let up = list_ex is_closed (states b); b = b\<lparr>g_shard_healthy := up\<rparr> in
      if up = shard_healthy b then (None, b)
      else (Some (if up then Recovered else AllQuarantined), b\<lparr>shard_healthy := up\<rparr>))"

definition on_success :: "nat \<Rightarrow> breaker_set \<Rightarrow> (shard_health_transition option \<times> breaker_set) option" where
  "on_success replica b =
     (if replica < length (states b) then
        Some (refresh_shard_health (publish_wake (publish_replica_health replica
               (b\<lparr>states := (states b)[replica := Closed 0]\<rparr>))))
      else None)"

definition failed_state :: "breaker_config \<Rightarrow> instant \<Rightarrow> br_state \<Rightarrow> br_state" where
  "failed_state c now s =
     (case s of
        Closed k \<Rightarrow>
          (if failure_threshold c \<le> k + 1 then Open (now + open_for c) else Closed (k + 1))
      | HalfOpen _ _ \<Rightarrow> Open (now + open_for c)
      | Open until \<Rightarrow> Open until)"

definition on_failure ::
  "nat \<Rightarrow> instant \<Rightarrow> breaker_set \<Rightarrow> (shard_health_transition option \<times> breaker_set) option" where
  "on_failure replica now b =
     (if replica < length (states b) then
        let next = failed_state (cfg b) now (states b ! replica);
            newly_open = is_open next \<and> \<not> is_open (states b ! replica);
            b1 = publish_replica_health replica (b\<lparr>states := (states b)[replica := next]\<rparr>);
            b2 = (if newly_open
                  then b1\<lparr>g_breaker_opened := (g_breaker_opened b1)[replica := g_breaker_opened b1 ! replica + 1]\<rparr>
                  else b1)
        in Some (refresh_shard_health (publish_wake b2))
      else None)"

section \<open>What a pick does\<close>

fun usable :: "instant \<Rightarrow> breaker_config \<Rightarrow> br_state \<Rightarrow> bool" where
  "usable now c (Closed k) \<longleftrightarrow> True"
| "usable now c (Open until) \<longleftrightarrow> until \<le> now"
| "usable now c (HalfOpen probes e) \<longleftrightarrow> probes < half_open_probes c"

definition grant :: "nat \<Rightarrow> breaker_set \<Rightarrow> pick option \<times> breaker_set" where
  "grant idx b =
     (case states b ! idx of
        Closed k \<Rightarrow> take_pick idx (Closed k) None b
      | Open until \<Rightarrow>
          take_pick idx (HalfOpen 1 (next_episode b + 1)) (Some (next_episode b + 1))
            (b\<lparr>next_episode := next_episode b + 1\<rparr>)
      | HalfOpen probes e \<Rightarrow> take_pick idx (HalfOpen (probes + 1) e) (Some e) b)"

text \<open>The replica \<open>step\<close> places past the cursor.\<close>

definition rot :: "breaker_set \<Rightarrow> nat \<Rightarrow> nat" where
  "rot b step = (cursor b + step) mod length (states b)"

lemma next_replica_loop_find:
  "next_replica_loop now steps b =
     (case find (\<lambda>st. usable now (cfg b) (states b ! rot b st)) steps of
        None \<Rightarrow> (None, b)
      | Some st \<Rightarrow> grant (rot b st) b)"
  by (induction steps) (auto simp: rot_def grant_def Let_def split: br_state.splits)

lemma find_upt_Some:
  assumes "find P [0..<n] = Some i"
  shows "i < n" and "P i" and "\<forall>j < i. \<not> P j"
proof -
  from assms [unfolded find_Some_iff] obtain k where k: "k < n" "P ([0..<n] ! k)" "i = [0..<n] ! k"
      "\<forall>j < k. \<not> P ([0..<n] ! j)"
    by auto
  then show "i < n" "P i" "\<forall>j < i. \<not> P j" by auto
qed

lemma grant_Some: "grant idx b \<noteq> (None, b')" "fst (grant idx b) \<noteq> None"
  by (auto simp: grant_def take_pick_def split: br_state.splits)

lemma next_replica_None:
  "fst (next_replica now b) = None \<longleftrightarrow> (\<forall>st < length (states b). \<not> usable now (cfg b) (states b ! rot b st))"
proof (cases "find (\<lambda>st. usable now (cfg b) (states b ! rot b st)) [0..<length (states b)]")
  case None
  then have "\<forall>st < length (states b). \<not> usable now (cfg b) (states b ! rot b st)"
    by (simp add: find_None_iff)
  with None show ?thesis
    by (simp add: next_replica_def next_replica_loop_find)
next
  case (Some st)
  have "fst (grant (rot b st) b) \<noteq> None" by (rule grant_Some)
  with Some have "fst (next_replica now b) \<noteq> None"
    by (simp add: next_replica_def next_replica_loop_find)
  with find_upt_Some(1,2) [OF Some] show ?thesis by blast
qed

lemma next_replica_None_unchanged: "next_replica now b = (None, b') \<Longrightarrow> b' = b"
  by (auto simp: next_replica_def next_replica_loop_find grant_def take_pick_def
      split: option.splits br_state.splits)

lemma next_replica_Some:
  assumes "next_replica now b = (Some pk, b')"
  shows "\<exists>st < length (states b). usable now (cfg b) (states b ! rot b st)
    \<and> (\<forall>j < st. \<not> usable now (cfg b) (states b ! rot b j)) \<and> grant (rot b st) b = (Some pk, b')"
proof -
  let ?P = "\<lambda>st. usable now (cfg b) (states b ! rot b st)"
  from assms obtain st where st: "find ?P [0..<length (states b)] = Some st" "grant (rot b st) b = (Some pk, b')"
    by (auto simp: next_replica_def next_replica_loop_find split: option.splits)
  from find_upt_Some [OF st(1)] st(2) show ?thesis by blast
qed

lemma rot_covers:
  assumes "cursor b < length (states b)" and "i < length (states b)"
  shows "\<exists>st < length (states b). rot b st = i"
proof (cases "cursor b \<le> i")
  case True
  then have "cursor b + (i - cursor b) = i" by simp
  then have "rot b (i - cursor b) = i" using assms(2) by (simp only: rot_def mod_less)
  moreover have "i - cursor b < length (states b)" using assms(2) by linarith
  ultimately show ?thesis by blast
next
  case False
  have "cursor b + (i + length (states b) - cursor b) = i + length (states b)" using assms(1) by linarith
  then have "rot b (i + length (states b) - cursor b) = i"
    using assms(2) by (simp only: rot_def mod_add_self2 mod_less)
  moreover have "i + length (states b) - cursor b < length (states b)" using False assms by linarith
  ultimately show ?thesis by blast
qed

section \<open>Invariant\<close>

definition state_ok :: "breaker_config \<Rightarrow> nat \<Rightarrow> br_state \<Rightarrow> bool" where
  "state_ok c ep s \<longleftrightarrow>
     (case s of
        Closed k \<Rightarrow> k < max 1 (failure_threshold c)
      | Open until \<Rightarrow> True
      | HalfOpen probes e \<Rightarrow> probes \<le> half_open_probes c \<and> 0 < e \<and> e \<le> ep)"

text \<open>
  Bounds on the counters, the cursor in range, and gauges that agree with the states: a
  replica reads healthy exactly while its circuit is closed, the shard while some circuit is.
\<close>

definition breaker_inv :: "nat \<Rightarrow> breaker_set \<Rightarrow> bool" where
  "breaker_inv n b \<longleftrightarrow>
     0 < n \<and> length (states b) = n \<and> cursor b < n \<and> 0 < half_open_probes (cfg b)
     \<and> list_all (state_ok (cfg b) (next_episode b)) (states b)
     \<and> g_replica_healthy b = map is_closed (states b)
     \<and> g_shard_healthy b = list_ex is_closed (states b)
     \<and> shard_healthy b = list_ex is_closed (states b)"

lemma list_all_update: "list_all P xs \<Longrightarrow> P y \<Longrightarrow> list_all P (xs[i := y])"
  using set_update_subset_insert [of xs i y] by (auto simp: list_all_iff)

lemma state_ok_mono: "state_ok c ep s \<Longrightarrow> ep \<le> ep' \<Longrightarrow> state_ok c ep' s"
  by (auto simp: state_ok_def split: br_state.splits)

lemma breaker_inv_state: "breaker_inv n b \<Longrightarrow> i < n \<Longrightarrow> state_ok (cfg b) (next_episode b) (states b ! i)"
  by (simp add: breaker_inv_def list_all_length)

lemma breaker_inv_new: "breaker_new n c = Some b \<Longrightarrow> breaker_inv n b"
  by (auto simp: breaker_new_def breaker_inv_def state_ok_def list_all_iff list_ex_iff split: if_splits)

lemma map_update_same: "i < length xs \<Longrightarrow> f y = f (xs ! i) \<Longrightarrow> map f (xs[i := y]) = map f xs"
  by (simp add: map_update list_update_same_conv)

lemma list_ex_via_map: "list_ex P zs \<longleftrightarrow> True \<in> set (map P zs)"
  by (auto simp: list_ex_iff)

lemma list_ex_update_same:
  "i < length xs \<Longrightarrow> P (xs ! i) = P y \<Longrightarrow> list_ex P (xs[i := y]) = list_ex P xs"
  by (simp only: list_ex_via_map map_update_same)

text \<open>A change of one replica's state that does not change whether it is closed.\<close>

lemma breaker_inv_update:
  assumes inv: "breaker_inv n b" and i: "i < n"
    and b': "states b' = (states b)[i := s]" "cfg b' = cfg b" "cursor b' < n" "next_episode b \<le> next_episode b'"
      "g_replica_healthy b' = g_replica_healthy b" "g_shard_healthy b' = g_shard_healthy b"
      "shard_healthy b' = shard_healthy b"
    and s: "is_closed s = is_closed (states b ! i)" "state_ok (cfg b) (next_episode b') s"
  shows "breaker_inv n b'"
proof -
  have len: "length (states b) = n" using inv by (simp add: breaker_inv_def)
  have "list_all (state_ok (cfg b) (next_episode b')) (states b)"
    using inv b'(4) state_ok_mono by (fastforce simp: breaker_inv_def list_all_iff)
  with s(2) have "list_all (state_ok (cfg b) (next_episode b')) ((states b)[i := s])"
    by (rule list_all_update [rotated])
  moreover have "map is_closed ((states b)[i := s]) = map is_closed (states b)"
    and "list_ex is_closed ((states b)[i := s]) = list_ex is_closed (states b)"
    using i len s(1) by (simp_all add: map_update_same list_ex_update_same)
  ultimately show ?thesis
    using inv b' by (simp add: breaker_inv_def)
qed

lemma rot_less: "0 < length (states b) \<Longrightarrow> rot b st < length (states b)"
  by (simp add: rot_def)

lemma breaker_inv_grant:
  assumes inv: "breaker_inv n b" and i: "i < n" and us: "usable now (cfg b) (states b ! i)"
    and gr: "grant i b = (p, b')"
  shows "breaker_inv n b'"
proof -
  have len: "length (states b) = n" and n: "0 < n" using inv by (simp_all add: breaker_inv_def)
  have ok: "state_ok (cfg b) (next_episode b) (states b ! i)"
    using inv i by (simp add: breaker_inv_def list_all_length)
  show ?thesis
  proof (cases "states b ! i")
    case (Closed k)
    with gr ok n len show ?thesis
      by (intro breaker_inv_update [OF inv i, where s = "Closed k"]) (auto simp: grant_def take_pick_def)
  next
    case (Open u)
    from inv have "state_ok (cfg b) (next_episode b + 1) (HalfOpen 1 (next_episode b + 1))"
      by (simp add: state_ok_def breaker_inv_def)
    with Open gr n len show ?thesis
      by (intro breaker_inv_update [OF inv i, where s = "HalfOpen 1 (next_episode b + 1)"])
         (auto simp: grant_def take_pick_def)
  next
    case (HalfOpen pr e)
    with ok us have "state_ok (cfg b) (next_episode b) (HalfOpen (pr + 1) e)"
      by (simp add: state_ok_def)
    with HalfOpen gr n len show ?thesis
      by (intro breaker_inv_update [OF inv i, where s = "HalfOpen (pr + 1) e"])
         (auto simp: grant_def take_pick_def)
  qed
qed

lemma breaker_inv_pick:
  assumes inv: "breaker_inv n b" and pick: "next_replica now b = (p, b')"
  shows "breaker_inv n b'"
proof (cases p)
  case None
  with pick next_replica_None_unchanged inv show ?thesis by blast
next
  case (Some pk)
  with next_replica_Some pick obtain st where st: "st < length (states b)"
    "usable now (cfg b) (states b ! rot b st)" "grant (rot b st) b = (Some pk, b')"
    by blast
  from inv have "length (states b) = n" "0 < n" by (simp_all add: breaker_inv_def)
  with rot_less [of b st] breaker_inv_grant [OF inv _ st(2,3)] show ?thesis by simp
qed

lemma breaker_inv_release:
  assumes inv: "breaker_inv n b" and rel: "release_probe r e b = Some b'"
  shows "breaker_inv n b'"
proof (cases "states b ! r")
  case (HalfOpen pr e')
  have r: "r < n" using inv rel by (auto simp: release_probe_def breaker_inv_def split: if_splits)
  with inv HalfOpen have "state_ok (cfg b) (next_episode b) (HalfOpen pr e')"
    by (metis breaker_inv_def list_all_length)
  then have "state_ok (cfg b) (next_episode b) (HalfOpen (pr - 1) e')" by (auto simp: state_ok_def)
  note ok = this
  show ?thesis
  proof (cases "e' = e")
    case True
    then have b': "b' = publish_wake (b\<lparr>states := (states b)[r := HalfOpen (pr - 1) e']\<rparr>)"
      using rel HalfOpen by (auto simp: release_probe_def split: if_splits)
    have "cursor b < n" using inv by (simp add: breaker_inv_def)
    with ok HalfOpen show ?thesis
      unfolding b' by (intro breaker_inv_update [OF inv r, where s = "HalfOpen (pr - 1) e'"])
        (simp_all add: publish_wake_def)
  next
    case False
    with rel HalfOpen inv show ?thesis by (auto simp: release_probe_def split: if_splits)
  qed
qed (use assms in \<open>auto simp: release_probe_def split: if_splits\<close>)

text \<open>After an outcome every gauge is recomputed from the states.\<close>

lemma breaker_inv_outcome:
  assumes inv: "breaker_inv n b" and r: "r < n" and ok: "state_ok (cfg b) (next_episode b) s"
    and b1: "states b1 = (states b)[r := s]" "cfg b1 = cfg b" "cursor b1 = cursor b" "next_episode b1 = next_episode b"
      "g_replica_healthy b1 = (g_replica_healthy b)[r := is_closed s]" "shard_healthy b1 = shard_healthy b"
    and ref: "refresh_shard_health (publish_wake b1) = (tr, b')"
  shows "breaker_inv n b'"
proof -
  have "list_all (state_ok (cfg b) (next_episode b)) ((states b)[r := s])"
    using inv ok by (intro list_all_update) (simp_all add: breaker_inv_def)
  moreover have "(g_replica_healthy b)[r := is_closed s] = map is_closed ((states b)[r := s])"
    using inv by (simp add: breaker_inv_def map_update)
  ultimately show ?thesis
    using inv b1 ref
    by (auto simp: refresh_shard_health_def publish_wake_def breaker_inv_def Let_def split: if_splits)
qed

lemma failed_state_ok: "state_ok c ep s \<Longrightarrow> state_ok c ep (failed_state c now s)"
  by (auto simp: state_ok_def failed_state_def split: br_state.splits)

lemma breaker_inv_success:
  assumes inv: "breaker_inv n b" and su: "on_success r b = Some (tr, b')"
  shows "breaker_inv n b'"
proof -
  have len: "r < length (states b)" using su by (rule contrapos_pp) (simp add: on_success_def)
  with inv have r: "r < n" by (simp add: breaker_inv_def)
  have ok: "state_ok (cfg b) (next_episode b) (Closed 0)" by (simp add: state_ok_def)
  let ?b1 = "publish_replica_health r (b\<lparr>states := (states b)[r := Closed 0]\<rparr>)"
  have "refresh_shard_health (publish_wake ?b1) = (tr, b')"
    using su len by (simp add: on_success_def)
  with len show ?thesis
    by (intro breaker_inv_outcome [OF inv r ok, of ?b1 tr b']) (simp_all add: publish_replica_health_def)
qed

lemma on_failure_eq:
  "r < length (states b) \<Longrightarrow>
     \<exists>b1. on_failure r now b = Some (refresh_shard_health (publish_wake b1))
       \<and> states b1 = (states b)[r := failed_state (cfg b) now (states b ! r)] \<and> cfg b1 = cfg b
       \<and> cursor b1 = cursor b \<and> next_episode b1 = next_episode b \<and> wake_tx b1 = wake_tx b
       \<and> g_replica_healthy b1 = (g_replica_healthy b)[r := is_closed (failed_state (cfg b) now (states b ! r))]
       \<and> shard_healthy b1 = shard_healthy b"
  unfolding on_failure_def publish_replica_health_def Let_def
  by (subst if_P, assumption, intro exI conjI, rule refl) simp_all

lemma breaker_inv_failure:
  assumes inv: "breaker_inv n b" and fa: "on_failure r now b = Some (tr, b')"
  shows "breaker_inv n b'"
proof -
  have "r < length (states b)" using fa by (rule contrapos_pp) (simp add: on_failure_def)
  with inv have r: "r < n" "r < length (states b)" by (simp_all add: breaker_inv_def)
  have "state_ok (cfg b) (next_episode b) (states b ! r)"
    using inv r by (simp add: breaker_inv_def list_all_length)
  note ok = failed_state_ok [OF this]
  from on_failure_eq [OF r(2), of now] fa obtain b1 where
    b1: "refresh_shard_health (publish_wake b1) = (tr, b')"
      "states b1 = (states b)[r := failed_state (cfg b) now (states b ! r)]" "cfg b1 = cfg b"
      "cursor b1 = cursor b" "next_episode b1 = next_episode b"
      "g_replica_healthy b1 = (g_replica_healthy b)[r := is_closed (failed_state (cfg b) now (states b ! r))]"
      "shard_healthy b1 = shard_healthy b"
    by auto
  show ?thesis by (rule breaker_inv_outcome [OF inv r(1) ok b1(2-7,1)])
qed

section \<open>Probe slots\<close>

text \<open>
  The clients of a set: a pick that spends a half-open slot hands the task a token, and the
  task gives it up exactly once, by reporting an outcome or by releasing it. \<open>T\<close> is the
  multiset of tokens outstanding; a task without a token reports with \<open>None\<close>.
\<close>

type_synonym tokens = "(nat \<times> nat) multiset"

datatype br_op =
    Pick instant
  | Release nat nat
  | Success nat "nat option"
  | Failure nat "nat option" instant

datatype br_out = Picked "pick option" | Done "shard_health_transition option"

fun spend :: "nat \<Rightarrow> nat option \<Rightarrow> tokens \<Rightarrow> tokens option" where
  "spend r None T = Some T"
| "spend r (Some e) T = (if (r, e) \<in># T then Some (T - {#(r, e)#}) else None)"

fun br_step :: "br_op \<Rightarrow> breaker_set \<times> tokens \<Rightarrow> (br_out \<times> breaker_set \<times> tokens) option" where
  "br_step (Pick now) (b, T) =
     (case next_replica now b of
        (None, b') \<Rightarrow> Some (Picked None, b', T)
      | (Some pk, b') \<Rightarrow>
          Some (Picked (Some pk), b',
                case pk_probe pk of None \<Rightarrow> T | Some e \<Rightarrow> add_mset (pk_replica pk, e) T))"
| "br_step (Release r e) (b, T) =
     (case spend r (Some e) T of
        None \<Rightarrow> None
      | Some T' \<Rightarrow> map_option (\<lambda>b'. (Done None, b', T')) (release_probe r e b))"
| "br_step (Success r tok) (b, T) =
     (case spend r tok T of
        None \<Rightarrow> None
      | Some T' \<Rightarrow> map_option (\<lambda>(tr, b'). (Done tr, b', T')) (on_success r b))"
| "br_step (Failure r tok now) (b, T) =
     (case spend r tok T of
        None \<Rightarrow> None
      | Some T' \<Rightarrow> map_option (\<lambda>(tr, b'). (Done tr, b', T')) (on_failure r now b))"

text \<open>Half-open counters count the outstanding tokens of the current episode.\<close>

definition tokens_ok :: "breaker_set \<Rightarrow> tokens \<Rightarrow> bool" where
  "tokens_ok b T \<longleftrightarrow>
     (\<forall>r < length (states b). \<forall>p e. states b ! r = HalfOpen p e \<longrightarrow> p = count T (r, e))
     \<and> (\<forall>r e. (r, e) \<in># T \<longrightarrow> e \<le> next_episode b)"

lemma tokens_ok_outcome:
  assumes "tokens_ok b T" and "states b' = (states b)[r := s]" and "next_episode b' = next_episode b"
    and "\<And>p e. s \<noteq> HalfOpen p e" and "spend r tok T = Some T'"
  shows "tokens_ok b' T'"
proof -
  have sub: "T' \<subseteq># T" and cnt: "q \<noteq> r \<Longrightarrow> count T' (q, e) = count T (q, e)" for q e
    using assms(5) by (cases tok; auto split: if_splits)+
  have "p = count T' (q, e)" if q: "q < length (states b')" and st: "states b' ! q = HalfOpen p e" for q p e
  proof -
    have "q \<noteq> r" using st q assms(2,4) by (auto simp: nth_upd)
    with st q assms(1,2) have "p = count T (q, e)" by (auto simp: tokens_ok_def nth_upd)
    with cnt \<open>q \<noteq> r\<close> show ?thesis by simp
  qed
  moreover have "e \<le> next_episode b'" if "(q, e) \<in># T'" for q e
    using mset_subset_eqD [OF sub that] assms(1,3) by (simp add: tokens_ok_def)
  ultimately show ?thesis by (simp add: tokens_ok_def)
qed

lemma refresh_wake_frame:
  assumes "refresh_shard_health (publish_wake b1) = (tr, b')"
  shows "states b' = states b1" "next_episode b' = next_episode b1" "cfg b' = cfg b1"
    "cursor b' = cursor b1" "wake_tx b' = (wake_tx b1 + 1) mod 2 ^ 64"
  using assms by (auto simp: refresh_shard_health_def publish_wake_def Let_def split: if_splits)

lemma on_success_states:
  assumes "on_success r b = Some (tr, b')"
  shows "r < length (states b)" "states b' = (states b)[r := Closed 0]" "next_episode b' = next_episode b"
    "cursor b' = cursor b" "cfg b' = cfg b" "wake_tx b' = (wake_tx b + 1) mod 2 ^ 64"
proof -
  show r: "r < length (states b)" using assms by (rule contrapos_pp) (simp add: on_success_def)
  have "refresh_shard_health (publish_wake (publish_replica_health r (b\<lparr>states := (states b)[r := Closed 0]\<rparr>))) = (tr, b')"
    using assms r by (simp add: on_success_def)
  from refresh_wake_frame [OF this] show "states b' = (states b)[r := Closed 0]" "next_episode b' = next_episode b"
    "cursor b' = cursor b" "cfg b' = cfg b" "wake_tx b' = (wake_tx b + 1) mod 2 ^ 64"
    by (simp_all add: publish_replica_health_def)
qed

lemma on_failure_states:
  assumes "on_failure r now b = Some (tr, b')"
  shows "r < length (states b)" "states b' = (states b)[r := failed_state (cfg b) now (states b ! r)]"
    "next_episode b' = next_episode b" "cursor b' = cursor b" "cfg b' = cfg b"
    "wake_tx b' = (wake_tx b + 1) mod 2 ^ 64"
proof -
  show r: "r < length (states b)" using assms by (rule contrapos_pp) (simp add: on_failure_def)
  from on_failure_eq [OF r, of now] assms obtain b1 where
    b1: "refresh_shard_health (publish_wake b1) = (tr, b')"
      "states b1 = (states b)[r := failed_state (cfg b) now (states b ! r)]" "cfg b1 = cfg b"
      "cursor b1 = cursor b" "next_episode b1 = next_episode b" "wake_tx b1 = wake_tx b"
    by auto
  show "states b' = (states b)[r := failed_state (cfg b) now (states b ! r)]"
    "next_episode b' = next_episode b" "cursor b' = cursor b" "cfg b' = cfg b"
    "wake_tx b' = (wake_tx b + 1) mod 2 ^ 64"
    by (simp_all add: refresh_wake_frame [OF b1(1)] b1)
qed

lemma failed_state_not_half_open: "failed_state c now s \<noteq> HalfOpen p e"
  by (auto simp: failed_state_def split: br_state.splits)

text \<open>A grant that leaves replica \<open>i\<close> half-open with one more token of episode \<open>e\<close>.\<close>

lemma tokens_ok_add:
  assumes ok: "tokens_ok b T" and b': "states b' = (states b)[i := HalfOpen (Suc (count T (i, e))) e]"
    and ep: "next_episode b \<le> next_episode b'" "e \<le> next_episode b'"
  shows "tokens_ok b' (add_mset (i, e) T)"
proof -
  have "p = count (add_mset (i, e) T) (q, d)" if "q < length (states b')" "states b' ! q = HalfOpen p d" for q p d
    using that ok b' by (cases "q = i") (auto simp: tokens_ok_def nth_upd)
  moreover have "d \<le> next_episode b'" if "(q, d) \<in># add_mset (i, e) T" for q d
    using that ok ep by (auto simp: tokens_ok_def) (meson le_trans)
  ultimately show ?thesis by (simp add: tokens_ok_def)
qed

lemma tokens_ok_grant:
  assumes inv: "breaker_inv n b" and ok: "tokens_ok b T" and i: "i < n" and gr: "grant i b = (Some pk, b')"
  shows "tokens_ok b' (case pk_probe pk of None \<Rightarrow> T | Some e \<Rightarrow> add_mset (pk_replica pk, e) T)"
proof (cases "states b ! i")
  case (Closed k)
  have "(states b)[i := Closed k] = states b"
    using list_update_id [of "states b" i] Closed by simp
  with Closed gr have "states b' = states b" "next_episode b' = next_episode b" "pk_probe pk = None"
    by (auto simp: grant_def take_pick_def)
  with ok show ?thesis by (simp add: tokens_ok_def)
next
  case (Open u)
  have "(i, next_episode b + 1) \<notin># T"
  proof
    assume "(i, next_episode b + 1) \<in># T"
    then have "next_episode b + 1 \<le> next_episode b" using ok unfolding tokens_ok_def by blast
    then show False by simp
  qed
  then have "count T (i, next_episode b + 1) = 0" by (simp add: count_eq_zero_iff)
  with Open gr show ?thesis
    by (auto simp: grant_def take_pick_def intro!: tokens_ok_add [OF ok])
next
  case (HalfOpen p e)
  have p: "p = count T (i, e)"
    using inv ok i HalfOpen by (simp add: breaker_inv_def tokens_ok_def)
  have "e \<le> next_episode b"
    using breaker_inv_state [OF inv i] by (simp add: state_ok_def HalfOpen)
  with HalfOpen gr p show ?thesis
    by (auto simp: grant_def take_pick_def intro!: tokens_ok_add [OF ok])
qed

lemma tokens_ok_release:
  assumes ok: "tokens_ok b T" and tok: "(r, e) \<in># T" and rel: "release_probe r e b = Some b'"
  shows "tokens_ok b' (T - {#(r, e)#})"
proof -
  have r: "r < length (states b)" using rel by (rule contrapos_pp) (simp add: release_probe_def)
  have ep: "next_episode b' = next_episode b"
    using rel by (auto simp: release_probe_def publish_wake_def split: br_state.splits if_splits)
  have "p = count (T - {#(r, e)#}) (q, d)" if q: "q < length (states b')" "states b' ! q = HalfOpen p d" for q p d
  proof (cases "\<exists>m. states b ! r = HalfOpen m e")
    case True
    then obtain m where m: "states b ! r = HalfOpen m e" by blast
    then have "states b' = (states b)[r := HalfOpen (m - 1) e]"
      using rel r by (auto simp: release_probe_def publish_wake_def)
    with q ok m r show ?thesis by (cases "q = r") (auto simp: tokens_ok_def nth_upd)
  next
    case False
    then have "b' = b"
      using rel r by (auto simp: release_probe_def split: br_state.splits if_splits)
    with q ok False show ?thesis by (cases "(q, d) = (r, e)") (auto simp: tokens_ok_def)
  qed
  moreover have "d \<le> next_episode b'" if "(q, d) \<in># T - {#(r, e)#}" for q d
    using in_diffD [OF that] ok ep by (simp add: tokens_ok_def)
  ultimately show ?thesis by (simp add: tokens_ok_def)
qed

lemma br_step_inv:
  assumes step: "br_step x (b, T) = Some (out, b', T')" and inv: "breaker_inv n b" and ok: "tokens_ok b T"
  shows "breaker_inv n b' \<and> tokens_ok b' T' \<and> cfg b' = cfg b"
proof (cases x)
  case (Pick now)
  obtain p b1 where pick: "next_replica now b = (p, b1)" by fastforce
  have b': "b' = b1" using step Pick pick by (auto split: option.splits)
  have inv': "breaker_inv n b'" using breaker_inv_pick [OF inv pick] b' by simp
  show ?thesis
  proof (cases p)
    case None
    with pick have "b1 = b" by (simp add: next_replica_None_unchanged)
    with None step Pick pick inv ok show ?thesis by auto
  next
    case (Some pk)
    from inv have n: "length (states b) = n" "0 < n" by (simp_all add: breaker_inv_def)
    from next_replica_Some [of now b pk b1] pick Some obtain st where gr: "grant (rot b st) b = (Some pk, b1)"
      by blast
    have "rot b st < n" using rot_less [of b st] n by simp
    from tokens_ok_grant [OF inv ok this gr] step Pick pick Some b' inv'
    have "tokens_ok b' T'" by simp
    moreover have "cfg b' = cfg b"
      using gr b' by (auto simp: grant_def take_pick_def split: br_state.splits)
    ultimately show ?thesis using inv' by simp
  qed
next
  case (Release r e)
  with step have tok: "(r, e) \<in># T" and T': "T' = T - {#(r, e)#}" and rel: "release_probe r e b = Some b'"
    by (auto split: if_splits)
  have "cfg b' = cfg b"
    using rel by (auto simp: release_probe_def publish_wake_def split: br_state.splits if_splits)
  with breaker_inv_release [OF inv rel] tokens_ok_release [OF ok tok rel] T' show ?thesis by simp
next
  case (Success r tok)
  with step obtain tr where sp: "spend r tok T = Some T'" and su: "on_success r b = Some (tr, b')"
    by (auto split: option.splits)
  have "tokens_ok b' T'"
    by (rule tokens_ok_outcome [OF ok on_success_states(2,3) [OF su] _ sp]) simp
  with breaker_inv_success [OF inv su] on_success_states(5) [OF su] show ?thesis by simp
next
  case (Failure r tok now)
  with step obtain tr where sp: "spend r tok T = Some T'" and fa: "on_failure r now b = Some (tr, b')"
    by (auto split: option.splits)
  have "tokens_ok b' T'"
    by (rule tokens_ok_outcome [OF ok on_failure_states(2,3) [OF fa] failed_state_not_half_open sp])
  with breaker_inv_failure [OF inv fa] on_failure_states(5) [OF fa] show ?thesis by simp
qed

lemma br_run_inv:
  "run_ops br_step xs (b, T) = Some (outs, b', T') \<Longrightarrow> breaker_inv n b \<Longrightarrow> tokens_ok b T \<Longrightarrow>
     breaker_inv n b' \<and> tokens_ok b' T' \<and> cfg b' = cfg b"
proof (induction xs arbitrary: b T outs)
  case (Cons x xs)
  from Cons.prems(1) obtain o1 b1 T1 outs1 where
    "br_step x (b, T) = Some (o1, b1, T1)" "run_ops br_step xs (b1, T1) = Some (outs1, b', T')"
    unfolding run_ops_Cons by (metis prod.collapse)
  with br_step_inv [of x b T o1 b1 T1 n] Cons show ?case by simp
qed simp

lemma tokens_ok_new: "breaker_new n c = Some b \<Longrightarrow> tokens_ok b {#}"
  by (auto simp: breaker_new_def tokens_ok_def split: if_splits)

text \<open>
  C9. Probe accounting: in every sequence of picks, outcomes and releases in which each task
  gives its probe token up once, a half-open replica's counter equals the number of tokens of
  its current episode still outstanding, and is at most the configured number of probes (at
  least one). So no slot is lost or minted: late releases from an earlier episode change
  nothing, and a half-open replica with no probe outstanding can be picked.
\<close>

theorem probe_slots_accounted:
  assumes "breaker_new n c = Some b0" and "run_ops br_step xs (b0, {#}) = Some (outs, b, T)"
    and "r < n" and "states b ! r = HalfOpen p e"
  shows "p = count T (r, e) \<and> p \<le> max 1 (half_open_probes c) \<and> (p = 0 \<longrightarrow> usable now (cfg b) (states b ! r))"
proof -
  have run: "breaker_inv n b" "tokens_ok b T" "cfg b = cfg b0"
    using br_run_inv [OF assms(2) breaker_inv_new [OF assms(1)] tokens_ok_new [OF assms(1)]] by simp_all
  have c: "half_open_probes (cfg b) = max 1 (half_open_probes c)"
    using run(3) assms(1) by (auto simp: breaker_new_def max.commute split: if_splits)
  from run(1) assms(3) have "state_ok (cfg b) (next_episode b) (states b ! r)" "length (states b) = n"
    by (simp_all add: breaker_inv_def list_all_length)
  with run(2) assms(3,4) c show ?thesis
    by (auto simp: state_ok_def tokens_ok_def)
qed

text \<open>
  Gauges never go stale and counters stay in bounds: after any sequence of operations a
  replica's gauge reads healthy exactly while its circuit is closed, the shard's exactly while
  some circuit is closed, and a closed circuit has counted fewer failures than the threshold.
\<close>

lemma breaker_gauges_agree:
  assumes "breaker_new n c = Some b0" and "run_ops br_step xs (b0, {#}) = Some (outs, b, T)"
  shows "g_replica_healthy b = map is_closed (states b) \<and> g_shard_healthy b = list_ex is_closed (states b)
    \<and> (\<forall>r < n. \<forall>k. states b ! r = Closed k \<longrightarrow> k < max 1 (failure_threshold c))"
proof -
  have inv: "breaker_inv n b" and "cfg b = cfg b0"
    using br_run_inv [OF assms(2) breaker_inv_new [OF assms(1)] tokens_ok_new [OF assms(1)]] by simp_all
  moreover have "failure_threshold (cfg b0) = failure_threshold c"
    using assms(1) by (auto simp: breaker_new_def split: if_splits)
  ultimately show ?thesis
    by (fastforce simp: breaker_inv_def list_all_length state_ok_def)
qed

section \<open>Rotation\<close>

lemma rot_step:
  assumes "cursor b' = (rot b st + 1) mod length (states b)" and "length (states b') = length (states b)"
    and "st < k"
  shows "rot b' (k - st - 1) = rot b k"
proof -
  let ?n = "length (states b)"
  have "rot b' (k - st - 1) = (((cursor b + st) mod ?n + 1) mod ?n + (k - st - 1)) mod ?n"
    using assms by (simp add: rot_def)
  also have "\<dots> = (cursor b + st + 1 + (k - st - 1)) mod ?n"
    by (simp add: mod_simps)
  also have "cursor b + st + 1 + (k - st - 1) = cursor b + k" using assms(3) by simp
  finally show ?thesis by (simp add: rot_def)
qed

lemma grant_frame:
  assumes "grant i b = (Some pk, b')"
  shows "pk_replica pk = i" "cursor b' = (i + 1) mod length (states b)" "length (states b') = length (states b)"
    "r \<noteq> i \<Longrightarrow> states b' ! r = states b ! r" "is_closed (states b ! i) \<Longrightarrow> states b' = states b"
proof -
  show "pk_replica pk = i" "cursor b' = (i + 1) mod length (states b)" "length (states b') = length (states b)"
    "r \<noteq> i \<Longrightarrow> states b' ! r = states b ! r"
    using assms by (auto simp: grant_def take_pick_def split: br_state.splits)
  assume "is_closed (states b ! i)"
  then obtain k where "states b ! i = Closed k" by (cases "states b ! i") auto
  moreover from this have "(states b)[i := Closed k] = states b" by (metis list_update_id)
  ultimately show "states b' = states b" using assms by (auto simp: grant_def take_pick_def)
qed

lemma closed_usable: "is_closed s \<Longrightarrow> usable now c s"
  by (cases s) simp_all

lemma pick_approaches:
  assumes "rot b k = r" and "k < length (states b)" and cl: "is_closed (states b ! r)"
    and pick: "next_replica now b = (p, b')"
  shows "\<exists>pk. p = Some pk \<and> is_closed (states b' ! r) \<and> length (states b') = length (states b)
    \<and> (pk_replica pk = r \<or> (\<exists>k' < k. rot b' k' = r))"
proof -
  have "fst (next_replica now b) \<noteq> None"
    unfolding next_replica_None using assms(1,2) closed_usable [OF cl] by blast
  then obtain pk where p: "p = Some pk" using pick by auto
  from next_replica_Some [of now b pk b'] pick p obtain st where
    first: "\<forall>j < st. \<not> usable now (cfg b) (states b ! rot b j)" and gr: "grant (rot b st) b = (Some pk, b')"
    by blast
  note fr = grant_frame [OF gr]
  have "st \<le> k" using first closed_usable [OF cl] assms(1) by (metis not_le_imp_less)
  have "is_closed (states b' ! r)"
    using cl fr(4) [of r] fr(5) by (cases "r = rot b st") auto
  moreover have "pk_replica pk = r \<or> (\<exists>k' < k. rot b' k' = r)"
  proof (cases "st = k")
    case True
    with fr(1) assms(1) show ?thesis by simp
  next
    case False
    with \<open>st \<le> k\<close> have "st < k" by simp
    with rot_step [OF fr(2,3)] assms(1) have "rot b' (k - st - 1) = r" "k - st - 1 < k" by simp_all
    then show ?thesis by blast
  qed
  ultimately show ?thesis using p fr(3) by blast
qed

fun is_pick :: "br_op \<Rightarrow> bool" where
  "is_pick (Pick now) = True"
| "is_pick _ = False"

fun fails :: "nat \<Rightarrow> br_op \<Rightarrow> bool" where
  "fails r (Failure q tok now) = (q = r)"
| "fails r _ = False"

lemma other_step_keeps:
  assumes "br_step x (b, T) = Some (out, b', T')" and "\<not> is_pick x" and "\<not> fails r x"
    and "r < length (states b)" and "is_closed (states b ! r)"
  shows "is_closed (states b' ! r) \<and> cursor b' = cursor b \<and> length (states b') = length (states b)"
proof (cases x)
  case (Release q e)
  with assms have "release_probe q e b = Some b'" by (auto split: if_splits)
  with assms(4,5) show ?thesis
    by (auto simp: release_probe_def publish_wake_def nth_upd split: if_splits br_state.splits)
next
  case (Success q tok)
  with assms(1) obtain tr where "on_success q b = Some (tr, b')" by (auto split: option.splits)
  from on_success_states [OF this] assms(4,5) show ?thesis by (auto simp: nth_upd)
next
  case (Failure q tok now)
  with assms(1) obtain tr where "on_failure q now b = Some (tr, b')" by (auto split: option.splits)
  from on_failure_states [OF this] assms(3-5) Failure show ?thesis by (auto simp: nth_upd)
qed (use assms in simp)

lemma closed_picked_within:
  "run_ops br_step xs (b, T) = Some (outs, b', T') \<Longrightarrow> r < length (states b) \<Longrightarrow> is_closed (states b ! r) \<Longrightarrow>
   rot b k = r \<Longrightarrow> k < length (states b) \<Longrightarrow> \<forall>x \<in> set xs. \<not> fails r x \<Longrightarrow> k < length (filter is_pick xs) \<Longrightarrow>
     \<exists>pk. Picked (Some pk) \<in> set outs \<and> pk_replica pk = r"
proof (induction xs arbitrary: b T outs k)
  case (Cons x xs)
  from Cons.prems(1) obtain o1 b1 T1 outs1 where
    1: "br_step x (b, T) = Some (o1, b1, T1)" and 2: "run_ops br_step xs (b1, T1) = Some (outs1, b', T')"
    and outs: "outs = o1 # outs1"
    unfolding run_ops_Cons by (metis prod.collapse)
  show ?case
  proof (cases "is_pick x")
    case True
    then obtain now where x: "x = Pick now" by (cases x) auto
    obtain p b2 where pick: "next_replica now b = (p, b2)" by fastforce
    from pick_approaches [OF Cons.prems(4,5,3) pick] obtain pk where
      pk: "p = Some pk" "is_closed (states b2 ! r)" "length (states b2) = length (states b)"
        "pk_replica pk = r \<or> (\<exists>k' < k. rot b2 k' = r)"
      by blast
    have o1: "o1 = Picked (Some pk)" "b2 = b1" using 1 x pick pk(1) by auto
    show ?thesis
    proof (cases "pk_replica pk = r")
      case True
      with o1 outs show ?thesis by auto
    next
      case False
      with pk(4) obtain k' where k': "k' < k" "rot b1 k' = r" using o1(2) by blast
      from Cons.IH [OF 2 _ _ k'(2)] pk(2,3) o1(2) Cons.prems(2,5,6,7) k'(1) x outs show ?thesis
        by auto
    qed
  next
    case False
    from other_step_keeps [OF 1 False _ Cons.prems(2,3)] Cons.prems(6)
    have keep: "is_closed (states b1 ! r)" "cursor b1 = cursor b" "length (states b1) = length (states b)"
      by auto
    then have "rot b1 k = r" using Cons.prems(4) by (simp add: rot_def)
    from Cons.IH [OF 2 _ keep(1) this] keep Cons.prems(2,5,6,7) False outs show ?thesis by auto
  qed
qed simp

text \<open>
  C10. No starvation: once a replica's circuit is closed, any run of operations that contains
  as many picks as there are replicas, and no failure of this one, picks it at least once,
  whatever is reported about the others in between.
\<close>

theorem closed_replica_not_starved:
  assumes "breaker_new n c = Some b0" and "run_ops br_step xs (b0, {#}) = Some (outs, b, T)"
    and "r < n" and "is_closed (states b ! r)"
    and "run_ops br_step ys (b, T) = Some (outs', b', T')"
    and "\<forall>y \<in> set ys. \<not> fails r y" and "n \<le> length (filter is_pick ys)"
  shows "\<exists>pk. Picked (Some pk) \<in> set outs' \<and> pk_replica pk = r"
proof -
  have "breaker_inv n b"
    using br_run_inv [OF assms(2) breaker_inv_new [OF assms(1)] tokens_ok_new [OF assms(1)]] by simp
  then have n: "length (states b) = n" "cursor b < n" by (simp_all add: breaker_inv_def)
  with assms(3) rot_covers [of b r] obtain k where "k < n" "rot b k = r" by auto
  with closed_picked_within [OF assms(5) _ assms(4) _ _ assms(6), of k] n assms(3,7) show ?thesis by simp
qed

section \<open>Waiting\<close>

lemma nothing_usable_iff:
  assumes "breaker_inv n b"
  shows "fst (next_replica now b) = None \<longleftrightarrow> (\<forall>s \<in> set (states b). \<not> usable now (cfg b) s)"
proof -
  from assms have n: "length (states b) = n" "0 < n" "cursor b < n" by (simp_all add: breaker_inv_def)
  have "(\<forall>st < n. \<not> usable now (cfg b) (states b ! rot b st)) \<longleftrightarrow> (\<forall>i < n. \<not> usable now (cfg b) (states b ! i))"
    using rot_less [of b] rot_covers [of b] n by metis
  then show ?thesis
    unfolding next_replica_None n(1) by (simp add: all_set_conv_all_nth n(1))
qed

lemma fold_min_less: "u < fold min ts (t :: nat) \<longleftrightarrow> u < t \<and> (\<forall>x \<in> set ts. u < x)"
  by (induction ts arbitrary: t) auto

lemma set_open_deadlines: "set (concat (map open_deadline ss)) = {u. Open u \<in> set ss}"
proof -
  have "u \<in> set (open_deadline s) \<longleftrightarrow> s = Open u" for u s by (cases s) auto
  then show ?thesis by auto
qed

text \<open>
  \<open>next_probe_at\<close> is exact: when nothing can be picked now, the set stays unpickable
  through time alone strictly before the instant it returns, and is pickable from that instant
  on; when it returns nothing, no passage of time makes any replica pickable.
\<close>

lemma next_probe_at_exact:
  assumes "breaker_new n c = Some b0" and "run_ops br_step xs (b0, {#}) = Some (outs, b, T)"
    and "fst (next_replica now b) = None" and "now \<le> u"
  shows "fst (next_replica u b) = None \<longleftrightarrow> (case next_probe_at now b of None \<Rightarrow> True | Some t \<Rightarrow> u < t)"
proof -
  have inv: "breaker_inv n b"
    using br_run_inv [OF assms(2) breaker_inv_new [OF assms(1)] tokens_ok_new [OF assms(1)]] by simp
  have stuck: "\<not> usable now (cfg b) s" if "s \<in> set (states b)" for s
    using assms(3) that by (simp add: nothing_usable_iff [OF inv])
  have later: "usable u (cfg b) s \<longleftrightarrow> (\<exists>t. s = Open t \<and> t \<le> u)" if "s \<in> set (states b)" for s
    using stuck [OF that] by (cases s) auto
  have "fst (next_replica u b) = None \<longleftrightarrow> (\<forall>t \<in> set (concat (map open_deadline (states b))). u < t)"
    unfolding nothing_usable_iff [OF inv] set_open_deadlines using later by (auto simp: not_le)
  also have "\<dots> \<longleftrightarrow> (case next_probe_at now b of None \<Rightarrow> True | Some t \<Rightarrow> u < t)"
    unfolding next_probe_at_def
  proof (cases "concat (map open_deadline (states b))")
    case (Cons t ts)
    show "(\<forall>t \<in> set (concat (map open_deadline (states b))). u < t) \<longleftrightarrow>
        (case case concat (map open_deadline (states b)) of [] \<Rightarrow> None | t # ts \<Rightarrow> Some (max (fold min ts t) now)
         of None \<Rightarrow> True | Some t \<Rightarrow> u < t)"
      unfolding Cons using assms(4) by (auto simp: fold_min_less less_max_iff_disj)
  qed (simp del: concat_eq_Nil_conv set_concat)
  finally show ?thesis .
qed

text \<open>
  What an operation does to the wake counter: an outcome or a released probe either bumps it
  or leaves the whole set as it was, and a pick never touches it.
\<close>

lemma br_step_wake:
  assumes "br_step x (b, T) = Some (out, b', T')"
  shows "wake_tx b' = (wake_tx b + 1) mod 2 ^ 64 \<or> wake_tx b' = wake_tx b \<and> (is_pick x \<or> b' = b)"
proof (cases x)
  case (Pick t)
  with assms have "snd (next_replica t b) = b'"
    by (auto split: prod.splits option.splits)
  then have "wake_tx b' = wake_tx b"
    by (auto simp: next_replica_def next_replica_loop_find grant_def take_pick_def
        split: option.splits br_state.splits)
  with Pick show ?thesis by simp
next
  case (Release r e)
  with assms have "release_probe r e b = Some b'" by (auto split: if_splits)
  then show ?thesis
    by (auto simp: release_probe_def publish_wake_def split: if_splits br_state.splits)
next
  case (Success r tok)
  with assms obtain tr where "on_success r b = Some (tr, b')" by (auto split: option.splits)
  then show ?thesis using on_success_states(6) by blast
next
  case (Failure r tok t)
  with assms obtain tr where "on_failure r t b = Some (tr, b')" by (auto split: option.splits)
  then show ?thesis using on_failure_states(6) by blast
qed

lemma mod_add_chain: "x mod m = (y + k) mod m \<Longrightarrow> y mod m = (z + j) mod m \<Longrightarrow> x mod m = (z + (j + k)) mod (m :: nat)"
  by (metis add.assoc mod_add_left_eq)

lemma br_run_wake:
  "run_ops br_step ys (b, T) = Some (outs, b', T') \<Longrightarrow>
     \<exists>k \<le> length ys. wake_tx b' mod 2 ^ 64 = (wake_tx b + k) mod 2 ^ 64"
proof (induction ys arbitrary: b T outs)
  case (Cons y ys)
  from Cons.prems obtain o1 b1 T1 outs1 where
    step: "br_step y (b, T) = Some (o1, b1, T1)" and rest: "run_ops br_step ys (b1, T1) = Some (outs1, b', T')"
    unfolding run_ops_Cons by (metis prod.collapse)
  from br_step_wake [OF step] obtain j where j: "j \<le> 1" "wake_tx b1 mod 2 ^ 64 = (wake_tx b + j) mod 2 ^ 64"
    by (metis add.right_neutral le_numeral_extra(4) mod_mod_trivial zero_le_one)
  from Cons.IH [OF rest] obtain k where "k \<le> length ys" "wake_tx b' mod 2 ^ 64 = (wake_tx b1 + k) mod 2 ^ 64"
    by blast
  with j mod_add_chain [OF this(2) j(2)] show ?case by (intro exI [of _ "j + k"]) simp
qed simp

fun picks_by :: "instant \<Rightarrow> br_op \<Rightarrow> bool" where
  "picks_by u (Pick t) \<longleftrightarrow> t \<le> u"
| "picks_by u _ \<longleftrightarrow> True"

lemma usable_later: "usable t c s \<Longrightarrow> t \<le> u \<Longrightarrow> usable u c s"
  by (cases s) auto

text \<open>While nothing is pickable by \<open>u\<close>, the set stays as it is until the counter moves.\<close>

lemma stuck_until_wake:
  "run_ops br_step ys (b, T) = Some (outs, b', T') \<Longrightarrow> breaker_inv n b \<Longrightarrow> fst (next_replica u b) = None \<Longrightarrow>
   \<forall>y \<in> set ys. picks_by u y \<Longrightarrow>
     b' = b \<or> (\<exists>k. 0 < k \<and> k \<le> length ys \<and> wake_tx b' mod 2 ^ 64 = (wake_tx b + k) mod 2 ^ 64)"
proof (induction ys arbitrary: b T outs)
  case (Cons y ys)
  from Cons.prems(1) obtain o1 b1 T1 outs1 where
    step: "br_step y (b, T) = Some (o1, b1, T1)" and rest: "run_ops br_step ys (b1, T1) = Some (outs1, b', T')"
    unfolding run_ops_Cons by (metis prod.collapse)
  show ?case
  proof (cases "b1 = b")
    case True
    with Cons.IH [OF rest] Cons.prems(2-4) show ?thesis by fastforce
  next
    case False
    have "\<not> is_pick y"
    proof
      assume "is_pick y"
      then obtain t where y: "y = Pick t" by (cases y) auto
      with Cons.prems(4) have "t \<le> u" by simp
      with Cons.prems(2,3) have "fst (next_replica t b) = None"
        by (auto simp: nothing_usable_iff dest: usable_later)
      with step y next_replica_None_unchanged [of t b b1] False show False
        by (auto split: prod.splits option.splits)
    qed
    with br_step_wake [OF step] False have w: "wake_tx b1 mod 2 ^ 64 = (wake_tx b + 1) mod 2 ^ 64" by auto
    from br_run_wake [OF rest] obtain k where k: "k \<le> length ys"
      "wake_tx b' mod 2 ^ 64 = (wake_tx b1 + k) mod 2 ^ 64" by blast
    from mod_add_chain [OF k(2) w] k(1) show ?thesis by (intro disjI2 exI [of _ "1 + k"]) simp
  qed
qed simp

lemma mod_add_distinct: "0 < k \<Longrightarrow> k < m \<Longrightarrow> (w + k) mod m \<noteq> w mod (m :: nat)"
  using mod_eq_dvd_iff_nat [of w "w + k" m] nat_dvd_not_less by auto

text \<open>
  C11. No missed wake: a task that finds nothing to pick reads \<open>next_probe_at\<close> and the wake
  counter and parks. Whatever the other tasks then do (picks up to the instant \<open>u\<close>, outcomes,
  released probes), if a replica is pickable at \<open>u\<close> then the deadline it read has passed or
  the counter differs from the one it read (in any run too short to wrap the counter all the
  way round): nothing becomes pickable behind a parked task's back.
\<close>

theorem parked_task_is_woken:
  assumes "breaker_new n c = Some b0" and "run_ops br_step xs (b0, {#}) = Some (outs, b, T)"
    and "fst (next_replica now b) = None" and "now \<le> u"
    and "run_ops br_step ys (b, T) = Some (outs', b', T')"
    and "\<forall>y \<in> set ys. picks_by u y" and "length ys < 2 ^ 64"
    and "fst (next_replica u b') \<noteq> None"
  shows "(\<exists>t \<le> u. next_probe_at now b = Some t) \<or> wake_tx b' \<noteq> wake_tx b"
proof (cases "fst (next_replica u b) = None")
  case True
  have "breaker_inv n b"
    using br_run_inv [OF assms(2) breaker_inv_new [OF assms(1)] tokens_ok_new [OF assms(1)]] by simp
  from stuck_until_wake [OF assms(5) this True assms(6)] True assms(8) obtain k where
    "0 < k" "k < 2 ^ 64" "wake_tx b' mod 2 ^ 64 = (wake_tx b + k) mod 2 ^ 64"
    using assms(7) by (metis le_less_trans)
  then show ?thesis using mod_add_distinct by metis
next
  case False
  with next_probe_at_exact [OF assms(1-4)] show ?thesis by (auto simp: not_less split: option.splits)
qed

section \<open>A run\<close>

text \<open>
  Two replicas with threshold 1: the first fails, is probed after its deadline by a task that
  gives up its slot, and is probed again.
\<close>

definition demo_cfg :: breaker_config where
  "demo_cfg = \<lparr>failure_threshold = 1, open_for = 10, half_open_probes = 1\<rparr>"

definition demo_new :: breaker_set where
  "demo_new = the (breaker_new (Suc (Suc 0)) demo_cfg)"

definition demo_ops :: "br_op list" where
  "demo_ops = [Pick 0, Failure 0 None 5, Pick 6, Failure 1 None 7, Pick 15, Release 0 1, Pick 16]"

definition demo_set :: breaker_set where
  "demo_set = demo_new\<lparr>states := [HalfOpen 1 1, Open 17], cursor := 1, wake_tx := 3, next_episode := 1,
     shard_healthy := False, g_replica_healthy := [False, False], g_shard_healthy := False,
     g_breaker_opened := [1, 1]\<rparr>"

lemmas breaker_eval = demo_cfg_def demo_new_def demo_ops_def demo_set_def breaker_new_def next_replica_def
  take_pick_def on_failure_def failed_state_def publish_replica_health_def publish_wake_def
  refresh_shard_health_def release_probe_def max_open_for_def Let_def upt_rec

lemma demo_new_eq: "breaker_new (Suc (Suc 0)) demo_cfg = Some demo_new"
  by (simp add: demo_new_def breaker_new_def)

lemma demo_run:
  "run_ops br_step demo_ops (demo_new, {#})
     = Some ([Picked (Some \<lparr>pk_replica = 0, pk_probe = None\<rparr>), Done None,
              Picked (Some \<lparr>pk_replica = 1, pk_probe = None\<rparr>), Done (Some AllQuarantined),
              Picked (Some \<lparr>pk_replica = 0, pk_probe = Some 1\<rparr>), Done None,
              Picked (Some \<lparr>pk_replica = 0, pk_probe = Some 1\<rparr>)], demo_set, {#(0, 1)#})"
  by (simp add: breaker_eval)

theorem probe_slots_accounted_witness:
  "(1::nat) = count {#(0, 1)#} (0, 1 :: nat) \<and> (1::nat) \<le> max 1 (half_open_probes demo_cfg)"
  using probe_slots_accounted [OF demo_new_eq demo_run, of 0 1 1] by (simp add: demo_set_def)

theorem closed_replica_not_starved_witness:
  "\<exists>pk. Picked (Some pk) \<in> set [Picked (Some \<lparr>pk_replica = 0, pk_probe = None\<rparr>),
      Picked (Some \<lparr>pk_replica = 1, pk_probe = None\<rparr>)] \<and> pk_replica pk = 1"
proof -
  have none: "run_ops br_step [] (demo_new, {#}) = Some ([], demo_new, {#})" by simp
  have run: "\<exists>b. run_ops br_step [Pick 0, Pick 1] (demo_new, {#})
      = Some ([Picked (Some \<lparr>pk_replica = 0, pk_probe = None\<rparr>), Picked (Some \<lparr>pk_replica = 1, pk_probe = None\<rparr>)], b, {#})"
    by (simp add: breaker_eval)
  then obtain b where run: "run_ops br_step [Pick 0, Pick 1] (demo_new, {#})
      = Some ([Picked (Some \<lparr>pk_replica = 0, pk_probe = None\<rparr>), Picked (Some \<lparr>pk_replica = 1, pk_probe = None\<rparr>)], b, {#})" ..
  have "is_closed (states demo_new ! 1)" by (simp add: breaker_eval)
  from closed_replica_not_starved [OF demo_new_eq none _ this run] show ?thesis by simp
qed

text \<open>
  The one probe slot of the first replica is out and the second is quarantined until 17: a
  task parked at 16 is woken when the slot comes back.
\<close>

theorem parked_task_is_woken_witness:
  "\<exists>b'. run_ops br_step [Release 0 1] (demo_set, {#(0, 1)#}) = Some ([Done None], b', {#})
     \<and> wake_tx b' \<noteq> wake_tx demo_set"
proof -
  let ?b = "publish_wake (demo_set\<lparr>states := [HalfOpen 0 1, Open 17]\<rparr>)"
  have step: "run_ops br_step [Release 0 1] (demo_set, {#(0, 1)#}) = Some ([Done None], ?b, {#})"
    by (simp add: demo_set_def release_probe_def)
  have "fst (next_replica 16 demo_set) = None" "fst (next_replica 16 ?b) \<noteq> None"
    "next_probe_at 16 demo_set = Some 17"
    by (simp_all add: breaker_eval next_probe_at_def)
  with parked_task_is_woken [OF demo_new_eq demo_run _ _ step, of 16 16] step show ?thesis by simp
qed

end
