(* ===== verification/Sink_Config.thy ===== *)
theory Sink_Config
  imports Backoff Breaker
begin

text \<open>
  The configuration of a sink's worker pool with its validation,
  \<open>crates/spate-core/src/sink/config.rs\<close>, and the register of abandonment reasons,
  \<open>crates/spate-core/src/sink/failures.rs\<close>.
\<close>

section \<open>The sections\<close>

record batch_config =
  max_rows :: nat
  max_bytes :: nat
  linger :: duration

record inflight_config =
  max_per_shard :: nat

record retry_config =
  rt_initial :: duration
  rt_max :: duration
  rt_multiplier :: f64
  rt_jitter :: f64
  max_attempts :: nat

record sink_pool_config =
  sp_batch :: batch_config
  sp_inflight :: inflight_config
  sp_retry :: retry_config
  sp_breaker :: breaker_config

definition secs :: "nat \<Rightarrow> duration" where
  "secs n = n * 10 ^ 9"

definition millis :: "nat \<Rightarrow> duration" where
  "millis n = n * 10 ^ 6"

definition batch_config_default :: batch_config where
  "batch_config_default = \<lparr>max_rows = 500000, max_bytes = 128 * 1024 * 1024, linger = secs 1\<rparr>"

definition inflight_config_default :: inflight_config where
  "inflight_config_default = \<lparr>max_per_shard = 2\<rparr>"

definition retry_config_default :: retry_config where
  "retry_config_default =
     \<lparr>rt_initial = millis 100, rt_max = secs 10, rt_multiplier = Fin 2, rt_jitter = Fin (1 / 5),
      max_attempts = 0\<rparr>"

definition breaker_config_default :: breaker_config where
  "breaker_config_default = \<lparr>failure_threshold = 3, open_for = secs 5, half_open_probes = 1\<rparr>"

definition sink_pool_config_default :: sink_pool_config where
  "sink_pool_config_default =
     \<lparr>sp_batch = batch_config_default, sp_inflight = inflight_config_default,
      sp_retry = retry_config_default, sp_breaker = breaker_config_default\<rparr>"

definition sink_pool_config_new ::
  "batch_config \<Rightarrow> inflight_config \<Rightarrow> retry_config \<Rightarrow> breaker_config \<Rightarrow> sink_pool_config" where
  "sink_pool_config_new batch inflight retry breaker =
     \<lparr>sp_batch = batch, sp_inflight = inflight, sp_retry = retry, sp_breaker = breaker\<rparr>"

section \<open>Validation\<close>

datatype retry_config_error =
    Multiplier f64
  | Jitter f64
  | ZeroDelay
  | InitialExceedsMax duration duration

datatype breaker_config_error =
    ZeroFailureThreshold
  | ZeroHalfOpenProbes
  | ZeroOpenFor
  | OpenForTooLong duration

datatype sink_pool_config_error =
    ZeroMaxRows
  | ZeroMaxBytes
  | ZeroMaxPerShard
  | RetryError retry_config_error
  | BreakerError breaker_config_error

definition f_contains :: "f64 \<Rightarrow> f64 \<Rightarrow> f64 \<Rightarrow> bool" where
  "f_contains lo hi x \<longleftrightarrow> f_le lo x \<and> f_le x hi"

definition retry_validate :: "retry_config \<Rightarrow> retry_config_error + unit" where
  "retry_validate c =
     (if \<not> f_finite (rt_multiplier c) \<or> \<not> f_contains (Fin 1) (Fin (10 ^ 9)) (rt_multiplier c)
      then Inl (Multiplier (rt_multiplier c))
      else if \<not> f_finite (rt_jitter c) \<or> \<not> f_contains (Fin 0) (Fin 1) (rt_jitter c)
      then Inl (Jitter (rt_jitter c))
      else if rt_initial c = 0 \<or> rt_max c = 0 then Inl ZeroDelay
      else if rt_initial c > rt_max c then Inl (InitialExceedsMax (rt_initial c) (rt_max c))
      else Inr ())"

definition stalls_indefinitely :: "retry_config \<Rightarrow> bool" where
  "stalls_indefinitely c \<longleftrightarrow> max_attempts c = 0 \<and> rt_max c > secs 300"

definition breaker_validate :: "breaker_config \<Rightarrow> breaker_config_error + unit" where
  "breaker_validate c =
     (if failure_threshold c = 0 then Inl ZeroFailureThreshold
      else if half_open_probes c = 0 then Inl ZeroHalfOpenProbes
      else if open_for c = 0 then Inl ZeroOpenFor
      else if open_for c > max_open_for then Inl (OpenForTooLong (open_for c))
      else Inr ())"

definition batch_check :: "batch_config \<Rightarrow> sink_pool_config_error + unit" where
  "batch_check c =
     (if max_rows c = 0 then Inl ZeroMaxRows
      else if max_bytes c = 0 then Inl ZeroMaxBytes
      else Inr ())"

definition inflight_check :: "inflight_config \<Rightarrow> sink_pool_config_error + unit" where
  "inflight_check c = (if max_per_shard c = 0 then Inl ZeroMaxPerShard else Inr ())"

text \<open>The \<open>?\<close> operator, with the \<open>From\<close> conversion of the error.\<close>

definition and_then :: "('e + unit) \<Rightarrow> ('e \<Rightarrow> 'f) \<Rightarrow> ('f + unit) \<Rightarrow> 'f + unit" where
  "and_then r conv k = (case r of Inl e \<Rightarrow> Inl (conv e) | Inr _ \<Rightarrow> k)"

definition pool_validate :: "sink_pool_config \<Rightarrow> sink_pool_config_error + unit" where
  "pool_validate c =
     and_then (batch_check (sp_batch c)) id
       (and_then (inflight_check (sp_inflight c)) id
         (and_then (retry_validate (sp_retry c)) RetryError
           (and_then (breaker_validate (sp_breaker c)) BreakerError (Inr ()))))"

lemma and_then_ok: "and_then r conv k = Inr () \<longleftrightarrow> r = Inr () \<and> k = Inr ()"
  by (auto simp: and_then_def split: sum.splits)

lemma pool_validate_ok:
  "pool_validate c = Inr () \<longleftrightarrow>
     0 < max_rows (sp_batch c) \<and> 0 < max_bytes (sp_batch c) \<and> 0 < max_per_shard (sp_inflight c)
     \<and> retry_validate (sp_retry c) = Inr () \<and> breaker_validate (sp_breaker c) = Inr ()"
  by (auto simp: pool_validate_def and_then_ok batch_check_def inflight_check_def)

lemma pool_validate_default: "pool_validate sink_pool_config_default = Inr ()"
  by (simp add: pool_validate_ok sink_pool_config_default_def batch_config_default_def
      inflight_config_default_def retry_config_default_def breaker_config_default_def
      retry_validate_def breaker_validate_def f_contains_def secs_def millis_def max_open_for_def)

section \<open>The backoff of one batch\<close>

text \<open>The schedule a write task builds from the policy, seeded with the batch's number.\<close>

definition task_backoff :: "retry_config \<Rightarrow> nat \<Rightarrow> backoff" where
  "task_backoff c this_seq =
     with_seed (of_nat this_seq) (with_jitter (rt_jitter c)
       (with_multiplier (rt_multiplier c) (backoff_new (rt_initial c) (rt_max c))))"

lemma task_backoff_inv: "backoff_inv (task_backoff c s)"
  unfolding task_backoff_def by (intro backoff_inv_with backoff_inv_new)

lemma retry_validate_ok:
  "retry_validate c = Inr () \<Longrightarrow> 0 < rt_initial c \<and> rt_initial c \<le> rt_max c"
  by (auto simp: retry_validate_def split: if_splits)

section \<open>Abandonment reasons\<close>

type_synonym sink_failures = "(string \<times> string) list"

definition failures_new :: sink_failures where
  "failures_new = []"

fun failures_record :: "string \<Rightarrow> string \<Rightarrow> sink_failures \<Rightarrow> sink_failures" where
  "failures_record sink reason [] = [(sink, reason)]"
| "failures_record sink reason ((name, old) # entries) =
     (if name = sink then (name, reason) # entries
      else (name, old) # failures_record sink reason entries)"

fun join_with :: "string \<Rightarrow> string list \<Rightarrow> string" where
  "join_with sep [] = []"
| "join_with sep [x] = x"
| "join_with sep (x # y # xs) = x @ sep @ join_with sep (y # xs)"

definition failures_describe :: "sink_failures \<Rightarrow> string option" where
  "failures_describe entries =
     (if entries = [] then None
      else Some (join_with ''; ''
        (map (\<lambda>(sink, reason). ''sink `'' @ sink @ ''` abandoned a batch: '' @ reason) entries)))"

lemma failures_record_map: "map_of (failures_record sink reason es) = (map_of es)(sink \<mapsto> reason)"
  by (induction sink reason es rule: failures_record.induct) (auto simp: fun_upd_twist)

lemma failures_record_keys:
  "akeys (failures_record sink reason es) = (if sink \<in> set (akeys es) then akeys es else akeys es @ [sink])"
  by (induction sink reason es rule: failures_record.induct) (auto simp: akeys_def)

lemma failures_fold:
  fixes es :: sink_failures
  shows "map_of (fold (\<lambda>(s, r). failures_record s r) xs es) s =
      (case map_of (rev xs) s of None \<Rightarrow> map_of es s | Some r \<Rightarrow> Some r)"
    and "distinct (akeys es) \<Longrightarrow> distinct (akeys (fold (\<lambda>(s, r). failures_record s r) xs es))"
proof (induction xs arbitrary: es)
  case (Cons x xs)
  obtain k r where x: "x = (k, r)" by (cases x)
  { case 1 then show ?case
      by (auto simp: x Cons.IH(1) failures_record_map map_add_def split: option.splits) }
  { case 2 then have "distinct (akeys (failures_record k r es))" by (simp add: failures_record_keys)
    from Cons.IH(2) [OF this] show ?case by (simp add: x) }
qed simp_all

text \<open>
  The register of abandonment reasons keeps, for each sink, the reason of its latest
  abandoned batch and one entry per sink, whatever the order of the reports; it describes
  nothing exactly when nothing was abandoned.
\<close>

lemma failures_keep_latest:
  "let es = fold (\<lambda>(sink, reason). failures_record sink reason) reports failures_new in
   map_of es = map_of (rev reports) \<and> distinct (akeys es)
   \<and> (failures_describe es = None \<longleftrightarrow> reports = [])"
proof -
  let ?es = "fold (\<lambda>(sink, reason). failures_record sink reason) reports failures_new"
  have map: "map_of ?es = map_of (rev reports)"
    by (rule ext) (simp add: failures_fold(1) failures_new_def split: option.splits)
  have "?es = [] \<longleftrightarrow> reports = []"
    using arg_cong [OF map, of dom] by (auto simp: dom_map_of_conv_image_fst)
  with map failures_fold(2) [of failures_new reports] show ?thesis
    by (simp add: Let_def failures_describe_def failures_new_def akeys_def)
qed

end
