(* ===== verification/Write_Task.thy ===== *)
theory Write_Task
  imports Sink_Config Errors
begin

text \<open>
  The write task of one sealed batch: the \<open>async\<close> block of \<open>spawn_write\<close> in
  \<open>crates/spate-core/src/sink/worker.rs\<close>, with \<open>quarantine_backstop\<close> and \<open>ProbeGuard\<close>.

  A task runs without interruption between two \<open>await\<close>s, so it is a state machine: where it
  is suspended is its \<open>phase\<close>, and each operation below is what it does from there to the next
  \<open>await\<close>. The breaker set is shared with the other tasks of the shard and passed in and out.
  The writer is the sink connector: its answer is the argument of \<open>task_outcome\<close>. A task ends
  with a \<open>WriteDone\<close>, or it dies: the writer panics, or the task is aborted.
\<close>

section \<open>State\<close>

record sealed_batch =
  bt_frames :: "bytes list"
  bt_rows :: nat
  bt_bytes :: nat
  bt_dedup_token :: string

record write_done =
  wd_seq :: nat
  wd_failure :: "string option"

text \<open>\<open>None\<close> in \<open>Sleeping\<close> is \<open>future::pending\<close>: a wake-up past the range of an \<open>Instant\<close>.\<close>

datatype task_phase =
    Picking
  | Parked (park_until: instant) (park_version: nat)
  | Writing pick
  | Sleeping "instant option"
  | Ended write_done
  | Died

record write_task =
  wt_seq :: nat
  wt_batch :: sealed_batch
  wt_attempts :: nat
  wt_backoff :: backoff
  wt_phase :: task_phase

definition quarantine_backstop_min :: duration where
  "quarantine_backstop_min = millis 100"

definition quarantine_backstop_max :: duration where
  "quarantine_backstop_max = secs 30"

definition quarantine_backstop :: "duration \<Rightarrow> duration" where
  "quarantine_backstop d = max quarantine_backstop_min (min d quarantine_backstop_max)"

section \<open>The steps of the task\<close>

definition task_new :: "retry_config \<Rightarrow> nat \<Rightarrow> sealed_batch \<Rightarrow> write_task" where
  "task_new retry this_seq batch =
     \<lparr>wt_seq = this_seq, wt_batch = batch, wt_attempts = 0, wt_backoff = task_backoff retry this_seq,
      wt_phase = Picking\<rparr>"

text \<open>One trip round the picker; with a replica in hand, on to the write attempt.\<close>

definition task_pick ::
  "duration \<Rightarrow> instant \<Rightarrow> write_task \<Rightarrow> breaker_set \<Rightarrow> (write_task \<times> breaker_set) option" where
  "task_pick cfg_open_for now t b =
     (case wt_phase t of
        Picking \<Rightarrow>
          let probe_at = next_probe_at now b in
          (case next_replica now b of
             (Some p, b) \<Rightarrow> Some (t\<lparr>wt_phase := Writing p, wt_attempts := (wt_attempts t + 1) mod 2 ^ 32\<rparr>, b)
           | (None, b) \<Rightarrow>
               let heartbeat = now + quarantine_backstop cfg_open_for;
                   until = (case probe_at of None \<Rightarrow> heartbeat | Some p \<Rightarrow> min p heartbeat)
               in Some (t\<lparr>wt_phase := Parked until (wake_tx b)\<rparr>, b))
      | _ \<Rightarrow> None)"

text \<open>A parked task goes round again on a published wake or at its deadline; a sleeping one
  when its backoff is over.\<close>

definition task_wake :: "instant \<Rightarrow> breaker_set \<Rightarrow> write_task \<Rightarrow> write_task option" where
  "task_wake now b t =
     (case wt_phase t of
        Parked until version \<Rightarrow>
          if wake_tx b \<noteq> version \<or> until \<le> now then Some (t\<lparr>wt_phase := Picking\<rparr>) else None
      | Sleeping (Some wake_at) \<Rightarrow> if wake_at \<le> now then Some (t\<lparr>wt_phase := Picking\<rparr>) else None
      | _ \<Rightarrow> None)"

text \<open>What a task reports about an attempt, for the shard's metrics.\<close>

datatype attempt = AttemptOk | AttemptError error_class bool

text \<open>
  The writer answered. The probe guard is disarmed, the outcome reported to the breakers, and
  the task ends or backs off; \<open>AttemptError c retried\<close> says whether a retry was counted.
\<close>

definition task_outcome ::
  "rounding \<Rightarrow> retry_config \<Rightarrow> instant \<Rightarrow> sink_error option \<Rightarrow> write_task \<Rightarrow> breaker_set
     \<Rightarrow> (attempt \<times> write_task \<times> breaker_set) option" where
  "task_outcome rnd retry now outcome t b =
     (case wt_phase t of
        Writing p \<Rightarrow>
          (case outcome of
             None \<Rightarrow>
               map_option (\<lambda>(_, b). (AttemptOk, t\<lparr>wt_phase := Ended \<lparr>wd_seq = wt_seq t, wd_failure = None\<rparr>\<rparr>, b))
                 (on_success (pk_replica p) b)
           | Some err \<Rightarrow>
               map_option (\<lambda>(_, b).
                 if sink_class err \<noteq> Retryable
                    \<or> (max_attempts retry > 0 \<and> wt_attempts t \<ge> max_attempts retry)
                 then (AttemptError (sink_class err) False,
                       t\<lparr>wt_phase := Ended \<lparr>wd_seq = wt_seq t, wd_failure = Some (sink_display err)\<rparr>\<rparr>, b)
                 else
                   let (delay, bo) = next_delay rnd (wt_backoff t)
                   in (AttemptError (sink_class err) True,
                       t\<lparr>wt_backoff := bo, wt_phase := Sleeping (checked_add now delay)\<rparr>, b))
                 (on_failure (pk_replica p) now b))
      | _ \<Rightarrow> None)"

text \<open>\<open>Drop for ProbeGuard\<close>, armed while a probe is being written.\<close>

definition probe_guard_drop :: "pick \<Rightarrow> breaker_set \<Rightarrow> breaker_set option" where
  "probe_guard_drop p b =
     (case pk_probe p of None \<Rightarrow> Some b | Some episode \<Rightarrow> release_probe (pk_replica p) episode b)"

text \<open>The task is dropped where it is suspended.\<close>

definition task_die :: "write_task \<Rightarrow> breaker_set \<Rightarrow> (write_task \<times> breaker_set) option" where
  "task_die t b =
     (case wt_phase t of
        Writing p \<Rightarrow> map_option (\<lambda>b. (t\<lparr>wt_phase := Died\<rparr>, b)) (probe_guard_drop p b)
      | Ended _ \<Rightarrow> None
      | Died \<Rightarrow> None
      | _ \<Rightarrow> Some (t\<lparr>wt_phase := Died\<rparr>, b))"

section \<open>A task as a client of the breakers\<close>

text \<open>The probe slot a task holds.\<close>

definition task_token :: "write_task \<Rightarrow> tokens" where
  "task_token t =
     (case wt_phase t of
        Writing p \<Rightarrow> (case pk_probe p of None \<Rightarrow> {#} | Some e \<Rightarrow> {#(pk_replica p, e)#})
      | _ \<Rightarrow> {#})"

definition active :: "write_task \<Rightarrow> bool" where
  "active t \<longleftrightarrow> (case wt_phase t of Ended _ \<Rightarrow> False | Died \<Rightarrow> False | _ \<Rightarrow> True)"

definition task_ok :: "nat \<Rightarrow> write_task \<Rightarrow> bool" where
  "task_ok n t \<longleftrightarrow> backoff_inv (wt_backoff t) \<and> (\<forall>p. wt_phase t = Writing p \<longrightarrow> pk_replica p < n)"

definition breakers_ok :: "nat \<Rightarrow> breaker_set \<Rightarrow> tokens \<Rightarrow> bool" where
  "breakers_ok n b T \<longleftrightarrow> breaker_inv n b \<and> tokens_ok b T"

lemma next_replica_bound:
  assumes "next_replica now b = (Some p, b')"
  shows "pk_replica p < length (states b)"
proof -
  obtain st where st: "st < length (states b)" "grant (rot b st) b = (Some p, b')"
    using next_replica_Some [OF assms] by blast
  then have "pk_replica p = rot b st"
    by (cases "states b ! rot b st") (simp_all add: grant_def take_pick_def, auto)
  moreover have "0 < length (states b)" using st(1) by linarith
  ultimately show ?thesis by (simp add: rot_def)
qed

lemma spend_token:
  "spend r tok ((case tok of None \<Rightarrow> {#} | Some e \<Rightarrow> {#(r, e)#}) + T) = Some T"
  by (cases tok) simp_all

lemma breakers_ok_step:
  "br_step x (b, T) = Some (out, b', T') \<Longrightarrow> breakers_ok n b T \<Longrightarrow> breakers_ok n b' T' \<and> cfg b' = cfg b"
  unfolding breakers_ok_def using br_step_inv by blast

lemma task_token_idle [simp]:
  "wt_phase t = Picking \<Longrightarrow> task_token t = {#}" "wt_phase t = Parked u v \<Longrightarrow> task_token t = {#}"
  "wt_phase t = Sleeping w \<Longrightarrow> task_token t = {#}" "wt_phase t = Ended d \<Longrightarrow> task_token t = {#}"
  "wt_phase t = Died \<Longrightarrow> task_token t = {#}"
  by (simp_all add: task_token_def)

text \<open>
  Every step keeps the batch and its number, gives up and takes probe slots as the breakers
  account for them, and never picks a replica that does not exist.
\<close>

definition task_step_ok ::
  "nat \<Rightarrow> tokens \<Rightarrow> write_task \<times> breaker_set \<Rightarrow> write_task \<times> breaker_set \<Rightarrow> bool" where
  "task_step_ok n T tb tb' \<longleftrightarrow> (case (tb, tb') of ((t, b), (t', b')) \<Rightarrow>
     task_ok n t' \<and> breakers_ok n b' (task_token t' + T) \<and> cfg b' = cfg b
     \<and> wt_seq t' = wt_seq t \<and> wt_batch t' = wt_batch t)"

lemma task_pick_ok:
  assumes "task_pick d now t b = Some (t', b')" and "task_ok n t" and "breakers_ok n b (task_token t + T)"
  shows "task_step_ok n T (t, b) (t', b') \<and> active t'"
proof -
  have ph: "wt_phase t = Picking" using assms(1) by (auto simp: task_pick_def split: task_phase.splits)
  then have T: "breakers_ok n b T" using assms(3) by simp
  obtain p b1 where pick: "next_replica now b = (p, b1)" by fastforce
  show ?thesis
  proof (cases p)
    case None
    with pick have "b1 = b" by (simp add: next_replica_None_unchanged)
    with assms(1,2) ph pick None T show ?thesis
      by (auto simp: task_pick_def task_step_ok_def task_ok_def Let_def task_token_def active_def)
  next
    case (Some pk)
    with assms(1) ph pick have b': "b' = b1"
      and t': "t' = t\<lparr>wt_phase := Writing pk, wt_attempts := (wt_attempts t + 1) mod 2 ^ 32\<rparr>"
      by (simp_all add: task_pick_def Let_def)
    have step: "br_step (Pick now) (b, T) = Some (Picked (Some pk), b', task_token t' + T)"
      using pick Some by (simp add: b' t' task_token_def split: option.splits)
    have "breakers_ok n b' (task_token t' + T) \<and> cfg b' = cfg b"
      by (rule breakers_ok_step [OF step T])
    moreover have "pk_replica pk < n"
      using next_replica_bound [OF pick [unfolded Some]] T by (simp add: breakers_ok_def breaker_inv_def)
    ultimately show ?thesis
      using assms(2) by (auto simp: t' task_step_ok_def task_ok_def active_def)
  qed
qed

lemma task_wake_ok:
  assumes "task_wake now b t = Some t'" and "task_ok n t" and "breakers_ok n b (task_token t + T)"
  shows "task_step_ok n T (t, b) (t', b) \<and> active t'"
proof -
  have "t' = t\<lparr>wt_phase := Picking\<rparr> \<and> task_token t = {#}"
    using assms(1) by (auto simp: task_wake_def split: task_phase.splits option.splits if_splits)
  then show ?thesis
    using assms(2,3) by (auto simp: task_step_ok_def task_ok_def active_def)
qed

lemma task_token_writing:
  "wt_phase t = Writing p \<Longrightarrow>
     task_token t = (case pk_probe p of None \<Rightarrow> {#} | Some e \<Rightarrow> {#(pk_replica p, e)#})"
  by (simp add: task_token_def)

lemma task_outcome_ok:
  assumes "task_outcome rnd retry now outcome t b = Some (a, t', b')" and "rounds rnd"
    and "task_ok n t" and "breakers_ok n b (task_token t + T)"
  shows "task_step_ok n T (t, b) (t', b')
    \<and> (active t' \<longleftrightarrow> (\<exists>c. a = AttemptError c True)) \<and> task_token t' = {#}
    \<and> (\<forall>d. wt_phase t' = Ended d \<longrightarrow> wd_seq d = wt_seq t \<and> (wd_failure d = None \<longleftrightarrow> outcome = None))
    \<and> wt_phase t' \<noteq> Died \<and> (a = AttemptOk \<longleftrightarrow> outcome = None)"
proof -
  obtain p where ph: "wt_phase t = Writing p"
    using assms(1) by (auto simp: task_outcome_def split: task_phase.splits)
  have sp: "spend (pk_replica p) (pk_probe p) (task_token t + T) = Some T"
    unfolding task_token_writing [OF ph] by (rule spend_token)
  show ?thesis
  proof (cases outcome)
    case None
    with assms(1) ph obtain tr where on: "on_success (pk_replica p) b = Some (tr, b')"
      and t': "t' = t\<lparr>wt_phase := Ended \<lparr>wd_seq = wt_seq t, wd_failure = None\<rparr>\<rparr>" and a: "a = AttemptOk"
      by (auto simp: task_outcome_def)
    have "br_step (Success (pk_replica p) (pk_probe p)) (b, task_token t + T) = Some (Done tr, b', T)"
      using on sp by simp
    from breakers_ok_step [OF this assms(4)] assms(3) None a show ?thesis
      by (auto simp: t' task_step_ok_def task_ok_def active_def)
  next
    case (Some err)
    let ?stop = "sink_class err \<noteq> Retryable \<or> (max_attempts retry > 0 \<and> wt_attempts t \<ge> max_attempts retry)"
    obtain delay bo where nd: "next_delay rnd (wt_backoff t) = (delay, bo)" by fastforce
    from assms(1) ph Some nd obtain tr where on: "on_failure (pk_replica p) now b = Some (tr, b')"
      and a: "a = AttemptError (sink_class err) (\<not> ?stop)"
      and t': "t' = (if ?stop
          then t\<lparr>wt_phase := Ended \<lparr>wd_seq = wt_seq t, wd_failure = Some (sink_display err)\<rparr>\<rparr>
          else t\<lparr>wt_backoff := bo, wt_phase := Sleeping (checked_add now delay)\<rparr>)"
      by (auto simp: task_outcome_def split: if_splits)
    have bo: "backoff_inv bo"
      using next_delay_inv [OF assms(2) _ nd] assms(3) by (simp add: task_ok_def)
    have "br_step (Failure (pk_replica p) (pk_probe p) now) (b, task_token t + T) = Some (Done tr, b', T)"
      using on sp by simp
    from breakers_ok_step [OF this assms(4)] assms(3) Some a bo show ?thesis
      by (auto simp: t' task_step_ok_def task_ok_def active_def)
  qed
qed

lemma task_die_ok:
  assumes "task_die t b = Some (t', b')" and "task_ok n t" and "breakers_ok n b (task_token t + T)"
  shows "task_step_ok n T (t, b) (t', b') \<and> wt_phase t' = Died \<and> active t"
proof (cases "\<exists>p. wt_phase t = Writing p")
  case True
  then obtain p where ph: "wt_phase t = Writing p" by blast
  from assms(1) ph have t': "t' = t\<lparr>wt_phase := Died\<rparr>" and drop: "probe_guard_drop p b = Some b'"
    by (auto simp: task_die_def)
  show ?thesis
  proof (cases "pk_probe p")
    case None
    with drop ph assms(2,3) show ?thesis
      by (auto simp: probe_guard_drop_def t' task_step_ok_def task_ok_def task_token_def active_def)
  next
    case (Some e)
    with drop have "release_probe (pk_replica p) e b = Some b'" by (simp add: probe_guard_drop_def)
    then have "br_step (Release (pk_replica p) e) (b, task_token t + T) = Some (Done None, b', T)"
      using spend_token [of "pk_replica p" "Some e" T] Some by (simp add: task_token_writing [OF ph])
    from breakers_ok_step [OF this assms(3)] assms(2) ph show ?thesis
      by (auto simp: t' task_step_ok_def task_ok_def active_def)
  qed
next
  case False
  then have "t' = t\<lparr>wt_phase := Died\<rparr>" "b' = b" "task_token t = {#}" "active t"
    using assms(1) by (auto simp: task_die_def active_def split: task_phase.splits)
  with assms(2,3) show ?thesis by (simp add: task_step_ok_def task_ok_def)
qed

text \<open>No step of a task panics.\<close>

lemma task_outcome_total:
  assumes "wt_phase t = Writing p" and "task_ok n t" and "breakers_ok n b T"
  shows "task_outcome rnd retry now outcome t b \<noteq> None"
proof -
  have "pk_replica p < length (states b)"
    using assms by (simp add: task_ok_def breakers_ok_def breaker_inv_def)
  then show ?thesis
    by (cases outcome) (simp_all add: task_outcome_def assms(1) on_success_def on_failure_def Let_def)
qed

lemma task_die_total:
  assumes "active t" and "task_ok n t" and "breakers_ok n b T"
  shows "task_die t b \<noteq> None"
  using assms
  by (auto simp: task_die_def task_ok_def breakers_ok_def breaker_inv_def active_def probe_guard_drop_def
      release_probe_def split: task_phase.splits option.splits)

section \<open>Attempts and waits\<close>

text \<open>
  A task on its own: its steps, with everything else that uses the breakers in between
  (\<open>Others\<close>).
\<close>

datatype task_event =
    DoPick instant
  | DoWake instant
  | DoOutcome instant "sink_error option"
  | DoDie
  | Others breaker_set

fun task_step ::
  "rounding \<Rightarrow> retry_config \<Rightarrow> duration \<Rightarrow> task_event \<Rightarrow> write_task \<times> breaker_set \<Rightarrow> (write_task \<times> breaker_set) option" where
  "task_step rnd retry d (DoPick now) (t, b) = task_pick d now t b"
| "task_step rnd retry d (DoWake now) (t, b) = map_option (\<lambda>t. (t, b)) (task_wake now b t)"
| "task_step rnd retry d (DoOutcome now out) (t, b) = map_option snd (task_outcome rnd retry now out t b)"
| "task_step rnd retry d DoDie (t, b) = task_die t b"
| "task_step rnd retry d (Others b') (t, b) = Some (t, b')"

fun task_run ::
  "rounding \<Rightarrow> retry_config \<Rightarrow> duration \<Rightarrow> task_event list \<Rightarrow> write_task \<times> breaker_set \<Rightarrow> (write_task \<times> breaker_set) option" where
  "task_run rnd retry d [] tb = Some tb"
| "task_run rnd retry d (e # es) tb = Option.bind (task_step rnd retry d e tb) (task_run rnd retry d es)"

text \<open>How often the writer answered.\<close>

fun answers :: "task_event list \<Rightarrow> nat" where
  "answers [] = 0"
| "answers (DoOutcome now out # es) = Suc (answers es)"
| "answers (_ # es) = answers es"

definition attempts_ok :: "nat \<Rightarrow> nat \<Rightarrow> write_task \<Rightarrow> bool" where
  "attempts_ok m k t \<longleftrightarrow> k \<le> m
     \<and> (active t \<longrightarrow> k < m \<and> wt_attempts t = k + (if \<exists>p. wt_phase t = Writing p then 1 else 0))"

lemma task_step_attempts:
  assumes "task_step rnd retry d e (t, b) = Some (t', b')" and "attempts_ok (max_attempts retry) k t"
    and "0 < max_attempts retry" and "max_attempts retry < 2 ^ 32"
  shows "attempts_ok (max_attempts retry) (k + answers [e]) t' \<and> wt_batch t' = wt_batch t \<and> wt_seq t' = wt_seq t"
proof (cases e)
  case (DoPick now)
  with assms show ?thesis
    by (auto simp: task_pick_def attempts_ok_def active_def Let_def
        split: task_phase.splits option.splits prod.splits)
next
  case (DoWake now)
  with assms show ?thesis
    by (auto simp: task_wake_def attempts_ok_def active_def split: task_phase.splits option.splits if_splits)
next
  case (DoOutcome now out)
  then obtain p where ph: "wt_phase t = Writing p"
    using assms(1) by (auto simp: task_outcome_def split: task_phase.splits)
  then have k: "k < max_attempts retry" "wt_attempts t = k + 1"
    using assms(2) by (simp_all add: attempts_ok_def active_def)
  show ?thesis
  proof (cases out)
    case None
    with DoOutcome assms(1) ph k show ?thesis
      by (auto simp: task_outcome_def attempts_ok_def active_def)
  next
    case (Some err)
    with DoOutcome assms(1,3) ph k show ?thesis
      by (auto simp: task_outcome_def attempts_ok_def active_def split: if_splits prod.splits)
  qed
next
  case DoDie
  with assms show ?thesis
    by (auto simp: task_die_def attempts_ok_def active_def split: task_phase.splits)
qed (use assms in simp)

lemma task_run_attempts:
  "task_run rnd retry d es (t, b) = Some (t', b') \<Longrightarrow> attempts_ok (max_attempts retry) k t \<Longrightarrow>
     0 < max_attempts retry \<Longrightarrow> max_attempts retry < 2 ^ 32 \<Longrightarrow>
     attempts_ok (max_attempts retry) (k + answers es) t' \<and> wt_batch t' = wt_batch t \<and> wt_seq t' = wt_seq t"
proof (induction es arbitrary: t b k)
  case (Cons e es)
  obtain t1 b1 where step: "task_step rnd retry d e (t, b) = Some (t1, b1)"
    and run: "task_run rnd retry d es (t1, b1) = Some (t', b')"
    using Cons.prems(1) by (auto simp: bind_eq_Some_conv)
  have sum: "answers (e # es) = answers [e] + answers es" by (cases e) simp_all
  note s = task_step_attempts [OF step Cons.prems(2,3,4)]
  from Cons.IH [OF run conjunct1 [OF s] Cons.prems(3,4)] s show ?case
    unfolding sum by (simp add: add.assoc)
qed simp

text \<open>Events that leave a task its retries: it is not dropped and every answer is a retryable failure.\<close>

fun retried_only :: "task_event \<Rightarrow> bool" where
  "retried_only (DoOutcome now out) \<longleftrightarrow> (case out of None \<Rightarrow> False | Some err \<Rightarrow> sink_class err = Retryable)"
| "retried_only DoDie \<longleftrightarrow> False"
| "retried_only _ \<longleftrightarrow> True"

lemma task_step_retries:
  assumes "task_step rnd retry d e (t, b) = Some (t', b')" and "attempts_ok (max_attempts retry) k t"
    and "retried_only e" and "\<not> active t \<longrightarrow> k = max_attempts retry"
  shows "\<not> active t' \<longrightarrow> k + answers [e] = max_attempts retry"
proof (cases e)
  case (DoPick now)
  with assms show ?thesis
    by (auto simp: task_pick_def active_def Let_def split: task_phase.splits option.splits prod.splits)
next
  case (DoWake now)
  with assms show ?thesis
    by (auto simp: task_wake_def active_def split: task_phase.splits option.splits if_splits)
next
  case (DoOutcome now out)
  then obtain p err where ph: "wt_phase t = Writing p" and err: "out = Some err" "sink_class err = Retryable"
    using assms(1,3) by (auto simp: task_outcome_def split: task_phase.splits option.splits)
  then have k: "k < max_attempts retry" "wt_attempts t = k + 1"
    using assms(2) by (simp_all add: attempts_ok_def active_def)
  with DoOutcome assms(1) ph err show ?thesis
    by (auto simp: task_outcome_def active_def split: if_splits prod.splits)
qed (use assms in simp_all)

lemma task_run_retries:
  "task_run rnd retry d es (t, b) = Some (t', b') \<Longrightarrow> attempts_ok (max_attempts retry) k t \<Longrightarrow>
     0 < max_attempts retry \<Longrightarrow> max_attempts retry < 2 ^ 32 \<Longrightarrow> list_all retried_only es \<Longrightarrow>
     \<not> active t \<longrightarrow> k = max_attempts retry \<Longrightarrow> \<not> active t' \<longrightarrow> k + answers es = max_attempts retry"
proof (induction es arbitrary: t b k)
  case (Cons e es)
  obtain t1 b1 where step: "task_step rnd retry d e (t, b) = Some (t1, b1)"
    and run: "task_run rnd retry d es (t1, b1) = Some (t', b')"
    using Cons.prems(1) by (auto simp: bind_eq_Some_conv)
  have sum: "answers (e # es) = answers [e] + answers es" by (cases e) simp_all
  have "retried_only e" "list_all retried_only es" using Cons.prems(5) by simp_all
  with Cons.IH [OF run conjunct1 [OF task_step_attempts [OF step Cons.prems(2-4)]] Cons.prems(3,4)]
    task_step_retries [OF step Cons.prems(2) _ Cons.prems(6)]
  show ?case unfolding sum by (simp add: add.assoc)
qed simp

text \<open>
  C29. With \<open>max_attempts\<close> set, a write task asks the writer at most that many times, always with
  the same sealed batch, and is over once the last of them has been answered. Waiting for a
  quarantined replica is not an attempt, whatever the breakers and the other tasks do meanwhile:
  the attempts counted against the limit are exactly the writes begun, and a task that is not
  dropped and gets only retryable failures goes on until the limit is used up on answers.
\<close>

theorem write_attempts_bounded:
  assumes "task_run rnd retry d es (task_new retry s batch, b) = Some (t, b')"
    and "0 < max_attempts retry" and "max_attempts retry < 2 ^ 32"
  shows "answers es \<le> max_attempts retry \<and> (answers es = max_attempts retry \<longrightarrow> \<not> active t)
    \<and> wt_batch t = batch \<and> wt_seq t = s
    \<and> (active t \<longrightarrow> wt_attempts t = answers es + (if \<exists>p. wt_phase t = Writing p then 1 else 0))
    \<and> (list_all retried_only es \<longrightarrow> (active t \<longleftrightarrow> answers es < max_attempts retry))"
proof -
  have new: "attempts_ok (max_attempts retry) 0 (task_new retry s batch)" "active (task_new retry s batch)"
    using assms(2) by (simp_all add: attempts_ok_def task_new_def active_def)
  from task_run_attempts [OF assms(1) new(1) assms(2,3)] task_run_retries [OF assms(1) new(1) assms(2,3)] new(2)
  show ?thesis
    by (auto simp: attempts_ok_def task_new_def)
qed

theorem write_attempts_bounded_witness:
  "\<exists>t b. task_run Fin (retry_config_default\<lparr>max_attempts := 1\<rparr>) 5
       [DoPick 0, DoOutcome 0 (Some (sink_retryable ''busy''))]
       (task_new (retry_config_default\<lparr>max_attempts := 1\<rparr>) 0
          \<lparr>bt_frames = [], bt_rows = 0, bt_bytes = 0, bt_dedup_token = ''t''\<rparr>, demo_new) = Some (t, b)
     \<and> \<not> active t"
proof -
  let ?retry = "retry_config_default\<lparr>max_attempts := 1\<rparr>"
  let ?es = "[DoPick 0, DoOutcome 0 (Some (sink_retryable ''busy''))]"
  let ?t = "task_new ?retry 0 \<lparr>bt_frames = [], bt_rows = 0, bt_bytes = 0, bt_dedup_token = ''t''\<rparr>"
  have "task_run Fin ?retry 5 ?es (?t, demo_new) \<noteq> None"
    by (simp add: task_new_def task_pick_def demo_new_def breaker_new_def demo_cfg_def next_replica_def take_pick_def
        next_probe_at_def task_outcome_def on_failure_def sink_retryable_def sink_error_new_def Let_def
        upt_rec [of 0])
  then obtain t b where run: "task_run Fin ?retry 5 ?es (?t, demo_new) = Some (t, b)" by fastforce
  from write_attempts_bounded [OF run] run show ?thesis by auto
qed

lemma quarantine_backstop_bounds:
  "millis 100 \<le> quarantine_backstop d" "quarantine_backstop d \<le> secs 30"
  by (simp_all add: quarantine_backstop_def quarantine_backstop_min_def quarantine_backstop_max_def millis_def secs_def)

lemma stuck_probe_later:
  assumes "breaker_inv n b" and "fst (next_replica now b) = None" and "next_probe_at now b = Some t"
  shows "now < t"
proof -
  have stuck: "now < u" if "Open u \<in> set (states b)" for u
    using assms(2) that nothing_usable_iff [OF assms(1)] by fastforce
  obtain u us where us: "concat (map open_deadline (states b)) = u # us"
    using assms(3) by (auto simp: next_probe_at_def split: list.splits)
  then have "\<forall>x \<in> set (u # us). now < x"
    using set_open_deadlines [of "states b"] stuck by auto
  with assms(3) us show ?thesis
    by (auto simp: next_probe_at_def fold_min_less less_max_iff_disj)
qed

text \<open>
  A write task neither spins nor oversleeps. When no replica can be picked it parks until an
  instant strictly in the future and at most the backstop away, which is between 100 ms and 30 s
  whatever \<open>open_for\<close> is; and with a validated retry policy, after a retryable failure it sleeps
  for more than nothing and at most \<open>retry.max\<close>.
\<close>

lemma task_waits_bounded:
  assumes "breakers_ok n b T" and "task_ok n t" and "rounds rnd"
    and "retry_validate retry = Inr ()" and "bo_start (wt_backoff t) = rt_initial retry"
    and "bo_max (wt_backoff t) = rt_max retry"
  shows "(\<forall>t' b' until v. task_pick d now t b = Some (t', b') \<and> wt_phase t' = Parked until v \<longrightarrow>
        now < until \<and> until \<le> now + quarantine_backstop d
        \<and> millis 100 \<le> quarantine_backstop d \<and> quarantine_backstop d \<le> secs 30)
    \<and> (\<forall>a t' b' wake_at. task_outcome rnd retry now outcome t b = Some (a, t', b')
          \<and> wt_phase t' = Sleeping (Some wake_at) \<longrightarrow> now < wake_at \<and> wake_at \<le> now + rt_max retry)"
proof (intro conjI allI impI; elim conjE)
  fix t' b' until v
  assume pick: "task_pick d now t b = Some (t', b')" and parked: "wt_phase t' = Parked until v"
  have inv: "breaker_inv n b" using assms(1) by (simp add: breakers_ok_def)
  obtain p b1 where np: "next_replica now b = (p, b1)" by fastforce
  from pick parked np have ph: "wt_phase t = Picking" and p: "p = None"
    by (auto simp: task_pick_def Let_def split: task_phase.splits option.splits)
  with pick parked np have until: "until = (case next_probe_at now b of None \<Rightarrow> now + quarantine_backstop d
      | Some t \<Rightarrow> min t (now + quarantine_backstop d))"
    by (auto simp: task_pick_def Let_def)
  have "0 < quarantine_backstop d" using quarantine_backstop_bounds(1) [of d] by (simp add: millis_def)
  with until stuck_probe_later [OF inv, of now] np p
  show "now < until" "until \<le> now + quarantine_backstop d" by (auto split: option.splits)
  show "millis 100 \<le> quarantine_backstop d" "quarantine_backstop d \<le> secs 30"
    by (rule quarantine_backstop_bounds)+
next
  fix a t' b' wake_at
  assume out: "task_outcome rnd retry now outcome t b = Some (a, t', b')"
    and sleep: "wt_phase t' = Sleeping (Some wake_at)"
  obtain delay bo where nd: "next_delay rnd (wt_backoff t) = (delay, bo)" by fastforce
  from out sleep nd have wake: "checked_add now delay = Some wake_at"
    by (auto simp: task_outcome_def split: task_phase.splits option.splits if_splits)
  have "backoff_inv (wt_backoff t)" using assms(2) by (simp add: task_ok_def)
  from next_delay_inv [OF assms(3) this nd] retry_validate_ok [OF assms(4)] assms(5,6)
  have "0 < delay" "delay \<le> rt_max retry" by simp_all
  with wake show "now < wake_at" "wake_at \<le> now + rt_max retry"
    by (auto simp: checked_add_def split: if_splits)
qed

end
