(* ===== verification/Worker.thy ===== *)
theory Worker
  imports Write_Task Handoff
begin

text \<open>
  The shard worker, \<open>crates/spate-core/src/sink/worker.rs\<close>: chunks accumulate into a batch,
  a full batch is sealed and registered in the ledger, its write task runs under an in-flight
  permit, and the batch's acknowledgments resolve when the task is joined.

  \<open>run\<close> is an \<open>async\<close> loop over \<open>select!\<close>. Its local variables are the record \<open>shard_run\<close>; where
  it is suspended is \<open>ru_phase\<close>; and an event is one arm of a \<open>select!\<close> (or one pass of the two
  loops between them) taken when its guard holds. The write tasks and the drain deadline, which
  run concurrently, take steps of their own in between. \<open>biased\<close> only restricts which arm wins
  when several are ready, so every execution of the code is a sequence of these events.

  Chunks arrive as arguments of the receiving events, in queue order. \<open>ru_written\<close> is what the
  sink has durably acknowledged: it is the destination's state, and no operation reads it.
  Tokio numbers tasks; the model does so with a counter. Histograms are not kept.
\<close>

section \<open>State\<close>

datatype flush_reason = Rows | Bytes | Linger | Drain

record worker_report =
  wr_flushed :: nat
  wr_abandoned :: nat

definition report_absorb :: "worker_report \<Rightarrow> worker_report \<Rightarrow> worker_report" where
  "report_absorb r other =
     \<lparr>wr_flushed = wr_flushed r + wr_flushed other, wr_abandoned = wr_abandoned r + wr_abandoned other\<rparr>"

record pending_batch =
  pe_acks :: ack_set
  pe_rows :: nat
  pe_bytes :: nat
  pe_reason :: flush_reason
  pe_started :: instant
  pe_oldest_ingest :: instant
  pe_oldest_event_ms :: int

record accumulator =
  ac_frames :: "bytes list"
  ac_rows :: nat
  ac_bytes :: nat
  ac_acks :: ack_set
  ac_first_at :: "instant option"
  ac_oldest_ingest :: "instant option"
  ac_oldest_event_ms :: int

definition acc_new :: accumulator where
  "acc_new = \<lparr>ac_frames = [], ac_rows = 0, ac_bytes = 0, ac_acks = ackset_new, ac_first_at = None,
              ac_oldest_ingest = None, ac_oldest_event_ms = i64_max\<rparr>"

definition acc_push :: "chunk \<Rightarrow> instant \<Rightarrow> accumulator \<Rightarrow> accumulator" where
  "acc_push c now a =
     a\<lparr>ac_first_at := Some (case ac_first_at a of None \<Rightarrow> now | Some t \<Rightarrow> t),
       ac_rows := ac_rows a + ck_rows c,
       ac_bytes := ac_bytes a + ck_raw_len c,
       ac_frames := ac_frames a @ [ck_frame c],
       ac_oldest_ingest := Some (case ac_oldest_ingest a of
                                   Some cur \<Rightarrow> min cur (ck_oldest_ingest c)
                                 | None \<Rightarrow> ck_oldest_ingest c),
       ac_oldest_event_ms := min (ac_oldest_event_ms a) (ck_oldest_event_ms c),
       ac_acks := ackset_absorb (ac_acks a) (ck_acks c)\<rparr>"

definition acc_is_empty :: "accumulator \<Rightarrow> bool" where
  "acc_is_empty a \<longleftrightarrow> ac_frames a = []"

text \<open>The counters and gauges of \<open>SinkShardMetrics\<close> the worker and its tasks write.\<close>

record sink_shard_metrics =
  sm_records :: nat
  sm_bytes :: nat
  sm_flush :: "flush_reason \<Rightarrow> nat"
  sm_abandoned :: nat
  sm_inflight :: nat
  sm_errors :: "error_class \<Rightarrow> nat"
  sm_retries :: nat

definition metrics_new :: sink_shard_metrics where
  "metrics_new = \<lparr>sm_records = 0, sm_bytes = 0, sm_flush = (\<lambda>_. 0), sm_abandoned = 0, sm_inflight = 0,
                  sm_errors = (\<lambda>_. 0), sm_retries = 0\<rparr>"

definition metrics_flushed :: "flush_reason \<Rightarrow> nat \<Rightarrow> nat \<Rightarrow> sink_shard_metrics \<Rightarrow> sink_shard_metrics" where
  "metrics_flushed reason rows bytes m =
     m\<lparr>sm_records := sm_records m + rows, sm_bytes := sm_bytes m + bytes,
       sm_flush := (sm_flush m)(reason := sm_flush m reason + 1)\<rparr>"

definition metrics_abandoned :: "nat \<Rightarrow> sink_shard_metrics \<Rightarrow> sink_shard_metrics" where
  "metrics_abandoned n m = m\<lparr>sm_abandoned := sm_abandoned m + n\<rparr>"

definition metrics_set_inflight :: "nat \<Rightarrow> sink_shard_metrics \<Rightarrow> sink_shard_metrics" where
  "metrics_set_inflight n m = m\<lparr>sm_inflight := n\<rparr>"

definition metrics_errors :: "error_class \<Rightarrow> nat \<Rightarrow> sink_shard_metrics \<Rightarrow> sink_shard_metrics" where
  "metrics_errors c n m = m\<lparr>sm_errors := (sm_errors m)(c := sm_errors m c + n)\<rparr>"

definition metrics_retries :: "nat \<Rightarrow> sink_shard_metrics \<Rightarrow> sink_shard_metrics" where
  "metrics_retries n m = m\<lparr>sm_retries := sm_retries m + n\<rparr>"

text \<open>What \<open>ShardWorker\<close> holds and never changes: its sink's name, token prefix and limits.\<close>

record shard_worker =
  sw_sink :: string
  sw_token_prefix :: string
  sw_cfg :: sink_pool_config
  sw_endpoints :: nat
  sw_rnd :: rounding

text \<open>The \<open>Ledger\<close>.\<close>

record ledger =
  ld_pending :: "(nat \<times> pending_batch) list"
  ld_ids :: "(nat \<times> nat) list"
  ld_report :: worker_report

text \<open>
  \<open>IntakeLoop\<close> is the first \<open>select!\<close>, \<open>DrainQueue\<close> the \<open>try_recv\<close> loop after it, \<open>DrainLoop\<close> the
  second \<open>select!\<close>. \<open>ru_watch\<close> is the deadline the pool has published, \<open>ru_watch_news\<close> whether
  this worker has yet to see it, and \<open>ru_watch_open\<close> whether the sender still exists.
\<close>

datatype run_phase = IntakeLoop | DrainQueue | DrainLoop | Returned

record shard_run =
  ru_acc :: accumulator
  ru_ledger :: ledger
  ru_tasks :: "(nat \<times> write_task) list"
  ru_next_id :: nat
  ru_permits :: nat
  ru_breakers :: breaker_set
  ru_deadline_watch_live :: bool
  ru_seq :: nat
  ru_waiting :: "(nat \<times> sealed_batch \<times> instant) list"
  ru_phase :: run_phase
  ru_watch :: "instant option"
  ru_watch_news :: bool
  ru_watch_open :: bool
  ru_metrics :: sink_shard_metrics
  ru_failures :: sink_failures
  ru_written :: "sealed_batch list"

definition upd_ledger :: "(ledger \<Rightarrow> ledger) \<Rightarrow> shard_run \<Rightarrow> shard_run" where
  "upd_ledger f r = r\<lparr>ru_ledger := f (ru_ledger r)\<rparr>"

definition upd_sink_metrics :: "(sink_shard_metrics \<Rightarrow> sink_shard_metrics) \<Rightarrow> shard_run \<Rightarrow> shard_run" where
  "upd_sink_metrics f r = r\<lparr>ru_metrics := f (ru_metrics r)\<rparr>"

text \<open>The locals of \<open>run\<close> before the first loop; building the breaker set is the only panic.\<close>

definition run_start :: "shard_worker \<Rightarrow> sink_failures \<Rightarrow> shard_run option" where
  "run_start w register =
     map_option (\<lambda>b.
       \<lparr>ru_acc = acc_new,
        ru_ledger = \<lparr>ld_pending = [], ld_ids = [], ld_report = \<lparr>wr_flushed = 0, wr_abandoned = 0\<rparr>\<rparr>,
        ru_tasks = [], ru_next_id = 0, ru_permits = max_per_shard (sp_inflight (sw_cfg w)),
        ru_breakers = b, ru_deadline_watch_live = True, ru_seq = 0, ru_waiting = [],
        ru_phase = IntakeLoop, ru_watch = None, ru_watch_news = False, ru_watch_open = True,
        ru_metrics = metrics_new, ru_failures = register, ru_written = []\<rparr>)
       (breaker_new (sw_endpoints w) (sp_breaker (sw_cfg w)))"

section \<open>Sealing and dispatching\<close>

definition seal_reason :: "shard_worker \<Rightarrow> accumulator \<Rightarrow> flush_reason option" where
  "seal_reason w a =
     (if ac_rows a \<ge> max_rows (sp_batch (sw_cfg w)) then Some Rows
      else if ac_bytes a \<ge> max_bytes (sp_batch (sw_cfg w)) then Some Bytes
      else None)"

definition seal :: "shard_worker \<Rightarrow> flush_reason \<Rightarrow> instant \<Rightarrow> shard_run \<Rightarrow> (nat \<times> sealed_batch) \<times> shard_run" where
  "seal w reason now r =
     (let this_seq = ru_seq r; full = ru_acc r;
          batch = \<lparr>bt_frames = ac_frames full, bt_rows = ac_rows full, bt_bytes = ac_bytes full,
                   bt_dedup_token = sw_token_prefix w @ decimal this_seq\<rparr>;
          p = \<lparr>pe_acks = ac_acks full, pe_rows = ac_rows full, pe_bytes = ac_bytes full, pe_reason = reason,
               pe_started = now,
               pe_oldest_ingest = (case ac_oldest_ingest full of Some t \<Rightarrow> t | None \<Rightarrow> now),
               pe_oldest_event_ms = ac_oldest_event_ms full\<rparr>;
          r = upd_ledger (\<lambda>l. l\<lparr>ld_pending := AList.update this_seq p (ld_pending l)\<rparr>)
                (r\<lparr>ru_seq := this_seq + 1, ru_acc := acc_new\<rparr>)
      in ((this_seq, batch),
          upd_sink_metrics (metrics_set_inflight (length (ld_pending (ru_ledger r)))) r))"

text \<open>Spawning a task with a permit already taken.\<close>

definition spawn_write :: "shard_worker \<Rightarrow> sealed_batch \<Rightarrow> nat \<Rightarrow> shard_run \<Rightarrow> shard_run" where
  "spawn_write w batch this_seq r =
     (let tid = ru_next_id r in
      upd_ledger (\<lambda>l. l\<lparr>ld_ids := AList.update tid this_seq (ld_ids l)\<rparr>)
        (r\<lparr>ru_next_id := tid + 1,
           ru_tasks := ru_tasks r @ [(tid, task_new (sp_retry (sw_cfg w)) this_seq batch)]\<rparr>))"

definition try_acquire :: "shard_run \<Rightarrow> shard_run option" where
  "try_acquire r = (if 0 < ru_permits r then Some (r\<lparr>ru_permits := ru_permits r - 1\<rparr>) else None)"

definition dispatch :: "shard_worker \<Rightarrow> flush_reason \<Rightarrow> instant \<Rightarrow> shard_run \<Rightarrow> shard_run" where
  "dispatch w reason now r =
     (if acc_is_empty (ru_acc r) then r
      else
        let ((this_seq, batch), r) = seal w reason now r in
        (case (if ru_waiting r = [] then try_acquire r else None) of
           Some r \<Rightarrow> spawn_write w batch this_seq r
         | None \<Rightarrow> r\<lparr>ru_waiting := ru_waiting r @ [(this_seq, batch, now)]\<rparr>))"

definition launch_waiting :: "shard_worker \<Rightarrow> shard_run \<Rightarrow> shard_run option" where
  "launch_waiting w r =
     (case ru_waiting r of
        [] \<Rightarrow> None
      | (this_seq, batch, queued_at) # rest \<Rightarrow> Some (spawn_write w batch this_seq (r\<lparr>ru_waiting := rest\<rparr>)))"

definition take_chunk :: "shard_worker \<Rightarrow> instant \<Rightarrow> chunk \<Rightarrow> shard_run \<Rightarrow> shard_run" where
  "take_chunk w now c r =
     (let r = r\<lparr>ru_acc := acc_push c now (ru_acc r)\<rparr> in
      case seal_reason w (ru_acc r) of
        Some reason \<Rightarrow> dispatch w reason now r
      | None \<Rightarrow> r)"

section \<open>Resolving\<close>

text \<open>
  \<open>settle\<close> and \<open>abandon\<close> remove the entry before anything else, so a batch resolves once.
  \<open>usize\<close> is as wide as \<open>u64\<close>, so the conversion of \<open>bytes\<close> never saturates.
\<close>

definition settle :: "nat \<Rightarrow> shard_run \<times> 'q world \<Rightarrow> shard_run \<times> 'q world" where
  "settle s = (\<lambda>(r, w).
     case map_of (ld_pending (ru_ledger r)) s of
       None \<Rightarrow> (r, w)
     | Some p \<Rightarrow>
         let r = upd_ledger (\<lambda>l. l\<lparr>ld_pending := AList.delete s (ld_pending l)\<rparr>) r;
             r = upd_sink_metrics (metrics_flushed (pe_reason p) (pe_rows p) (pe_bytes p)) r;
             w = w\<lparr>w_budget := budget_sub (pe_bytes p) (w_budget w)\<rparr>;
             r = upd_sink_metrics (metrics_set_inflight (length (ld_pending (ru_ledger r)))) r;
             r = upd_ledger (\<lambda>l. l\<lparr>ld_report := (ld_report l)\<lparr>wr_flushed := wr_flushed (ld_report l) + 1\<rparr>\<rparr>) r
         in (r, w\<lparr>w_heap := ackset_deliver (pe_acks p) (w_heap w)\<rparr>))"

definition abandon :: "shard_worker \<Rightarrow> nat \<Rightarrow> string \<Rightarrow> shard_run \<times> 'q world \<Rightarrow> shard_run \<times> 'q world" where
  "abandon sw s reason = (\<lambda>(r, w).
     case map_of (ld_pending (ru_ledger r)) s of
       None \<Rightarrow> (r, w)
     | Some p \<Rightarrow>
         let r = upd_ledger (\<lambda>l. l\<lparr>ld_pending := AList.delete s (ld_pending l)\<rparr>) r;
             r = r\<lparr>ru_failures := failures_record (sw_sink sw) reason (ru_failures r)\<rparr>;
             w = w\<lparr>w_heap := ackset_drop (pe_acks p) (w_heap w)\<rparr>;
             r = upd_sink_metrics (metrics_abandoned 1) r;
             w = w\<lparr>w_budget := budget_sub (pe_bytes p) (w_budget w)\<rparr>;
             r = upd_sink_metrics (metrics_set_inflight (length (ld_pending (ru_ledger r)))) r;
             r = upd_ledger (\<lambda>l. l\<lparr>ld_report := (ld_report l)\<lparr>wr_abandoned := wr_abandoned (ld_report l) + 1\<rparr>\<rparr>) r
         in (r, w))"

text \<open>What \<open>join_next_with_id\<close> returns: the task's result, or that it panicked, with its id.\<close>

datatype joined = JoinOk nat write_done | JoinErr nat string

fun handle_join :: "shard_worker \<Rightarrow> joined \<Rightarrow> shard_run \<times> 'q world \<Rightarrow> shard_run \<times> 'q world" where
  "handle_join sw (JoinOk tid d) (r, w) =
     (let r = upd_ledger (\<lambda>l. l\<lparr>ld_ids := AList.delete tid (ld_ids l)\<rparr>) r in
      case wd_failure d of
        None \<Rightarrow> settle (wd_seq d) (r, w)
      | Some reason \<Rightarrow> abandon sw (wd_seq d) reason (r, w))"
| "handle_join sw (JoinErr tid join_err) (r, w) =
     (case map_of (ld_ids (ru_ledger r)) tid of
        Some s \<Rightarrow>
          abandon sw s (''the write task panicked: '' @ join_err)
            (upd_ledger (\<lambda>l. l\<lparr>ld_ids := AList.delete tid (ld_ids l)\<rparr>) r, w)
      | None \<Rightarrow> (r, w))"

text \<open>
  \<open>sweep\<close>. \<open>tasks.shutdown()\<close> aborts every task and discards every result; a task that blocks
  its thread may outlive the grace period (\<open>shut_down\<close> is false), and then keeps running
  without anyone to join it.
\<close>

fun abort_all :: "(nat \<times> write_task) list \<Rightarrow> breaker_set \<Rightarrow> breaker_set option" where
  "abort_all [] b = Some b"
| "abort_all ((tid, t) # ts) b =
     (if active t then case task_die t b of None \<Rightarrow> None | Some (_, b) \<Rightarrow> abort_all ts b
      else abort_all ts b)"

definition shutdown_tasks :: "shard_run \<Rightarrow> shard_run option" where
  "shutdown_tasks r =
     map_option (\<lambda>b. r\<lparr>ru_breakers := b, ru_tasks := [],
                       ru_permits := ru_permits r + length (filter (\<lambda>(_, t). active t) (ru_tasks r))\<rparr>)
       (abort_all (ru_tasks r) (ru_breakers r))"

definition sweep :: "shard_worker \<Rightarrow> bool \<Rightarrow> shard_run \<times> 'q world \<Rightarrow> (shard_run \<times> 'q world) option" where
  "sweep sw shut_down = (\<lambda>(r, w).
     case (if shut_down then shutdown_tasks r else Some r) of
       None \<Rightarrow> None
     | Some r \<Rightarrow>
         let r = r\<lparr>ru_waiting := []\<rparr>;
             stranded = akeys (ld_pending (ru_ledger r));
             (r, w) = fold (\<lambda>s. abandon sw s ''the drain deadline passed before the write finished'')
                        stranded (r, w)
         in Some (upd_ledger (\<lambda>l. l\<lparr>ld_ids := []\<rparr>) r, w))"

text \<open>\<open>Drop for Ledger\<close>, and with it the acknowledgments of what is still pending.\<close>

definition ledger_drop :: "ledger \<Rightarrow> 'q world \<Rightarrow> 'q world" where
  "ledger_drop l w =
     fold (\<lambda>(_, p) w. w\<lparr>w_heap := ackset_drop (pe_acks p) (w_heap w)\<rparr>) (ld_pending l)
       (fold (\<lambda>(_, p) w. w\<lparr>w_budget := budget_sub (pe_bytes p) (w_budget w)\<rparr>) (ld_pending l) w)"

section \<open>The loop\<close>

text \<open>
  Events of the two loops first, then those of the pool (the deadline it publishes, its being
  dropped), of the clock, and of the write tasks.
\<close>

datatype worker_event =
    Joined nat string
  | PermitFree
  | Received "chunk list"
  | QueueClosed
  | DeadlineSeen
  | WatchGone
  | LingerFired
  | TryReceived chunk
  | QueueEmpty
  | AllDone
  | PoolGone bool
  | DeadlineReached bool
  | Publish "instant option"
  | DropSender
  | Advance instant
  | TaskPick nat
  | TaskWake nat
  | TaskOutcome nat "sink_error option"
  | TaskDie nat

definition looping :: "shard_run \<Rightarrow> bool" where
  "looping r \<longleftrightarrow> ru_phase r = IntakeLoop \<or> ru_phase r = DrainLoop"

definition join_result :: "nat \<Rightarrow> string \<Rightarrow> write_task \<Rightarrow> joined option" where
  "join_result tid msg t =
     (case wt_phase t of
        Ended d \<Rightarrow> Some (JoinOk tid d)
      | Died \<Rightarrow> Some (JoinErr tid msg)
      | _ \<Rightarrow> None)"

definition run_join ::
  "shard_worker \<Rightarrow> nat \<Rightarrow> string \<Rightarrow> shard_run \<times> 'q world \<Rightarrow> (shard_run \<times> 'q world) option" where
  "run_join sw tid msg = (\<lambda>(r, w).
     if looping r then
       case Option.bind (map_of (ru_tasks r) tid) (join_result tid msg) of
         Some j \<Rightarrow> Some (handle_join sw j (r\<lparr>ru_tasks := AList.delete tid (ru_tasks r)\<rparr>, w))
       | None \<Rightarrow> None
     else None)"

definition run_permit :: "shard_worker \<Rightarrow> shard_run \<Rightarrow> shard_run option" where
  "run_permit sw r =
     (if looping r \<and> ru_waiting r \<noteq> [] then Option.bind (try_acquire r) (launch_waiting sw) else None)"

definition run_recv :: "shard_worker \<Rightarrow> instant \<Rightarrow> chunk list \<Rightarrow> shard_run \<Rightarrow> shard_run option" where
  "run_recv sw now cs r =
     (if ru_phase r = IntakeLoop \<and> ru_waiting r = [] \<and> cs \<noteq> [] \<and> length cs \<le> 64
      then Some (fold (take_chunk sw now) cs r)
      else None)"

definition run_closed :: "shard_run \<Rightarrow> shard_run option" where
  "run_closed r =
     (if ru_phase r = IntakeLoop \<and> ru_waiting r = [] then Some (r\<lparr>ru_phase := DrainQueue\<rparr>) else None)"

definition run_deadline_seen :: "shard_run \<Rightarrow> shard_run option" where
  "run_deadline_seen r =
     (if looping r \<and> ru_deadline_watch_live r \<and> ru_watch_news r then
        let r = r\<lparr>ru_watch_news := False\<rparr>
        in Some (if ru_phase r = IntakeLoop \<and> ru_watch r \<noteq> None then r\<lparr>ru_phase := DrainQueue\<rparr> else r)
      else None)"

definition run_watch_gone :: "shard_run \<Rightarrow> shard_run option" where
  "run_watch_gone r =
     (if looping r \<and> ru_deadline_watch_live r \<and> \<not> ru_watch_news r \<and> \<not> ru_watch_open r
      then Some (r\<lparr>ru_deadline_watch_live := False\<rparr>) else None)"

definition run_linger :: "shard_worker \<Rightarrow> instant \<Rightarrow> shard_run \<Rightarrow> shard_run option" where
  "run_linger sw now r =
     (case ac_first_at (ru_acc r) of
        Some t \<Rightarrow>
          if ru_phase r = IntakeLoop \<and> ru_waiting r = [] \<and> t + linger (sp_batch (sw_cfg sw)) \<le> now
          then Some (dispatch sw Linger now r) else None
      | None \<Rightarrow> None)"

definition run_try_recv :: "shard_worker \<Rightarrow> instant \<Rightarrow> chunk \<Rightarrow> shard_run \<Rightarrow> shard_run option" where
  "run_try_recv sw now c r = (if ru_phase r = DrainQueue then Some (take_chunk sw now c r) else None)"

definition run_force_seal :: "shard_worker \<Rightarrow> instant \<Rightarrow> shard_run \<Rightarrow> shard_run option" where
  "run_force_seal sw now r =
     (if ru_phase r = DrainQueue then Some ((dispatch sw Drain now r)\<lparr>ru_phase := DrainLoop\<rparr>) else None)"

definition run_all_done :: "shard_run \<Rightarrow> shard_run option" where
  "run_all_done r =
     (if ru_phase r = DrainLoop \<and> ru_tasks r = [] \<and> ru_waiting r = []
      then Some (r\<lparr>ru_phase := Returned\<rparr>) else None)"

definition run_sweep ::
  "shard_worker \<Rightarrow> bool \<Rightarrow> (shard_run \<Rightarrow> bool) \<Rightarrow> shard_run \<times> 'q world \<Rightarrow> (shard_run \<times> 'q world) option" where
  "run_sweep sw shut_down due = (\<lambda>(r, w).
     if ru_phase r = DrainLoop \<and> due r
     then map_option (\<lambda>(r, w). (r\<lparr>ru_phase := Returned\<rparr>, w)) (sweep sw shut_down (r, w))
     else None)"

text \<open>A step of the write task \<open>tid\<close>; a task that ends gives its permit back.\<close>

definition set_task :: "nat \<Rightarrow> write_task \<Rightarrow> breaker_set \<Rightarrow> shard_run \<Rightarrow> shard_run" where
  "set_task tid t b r =
     r\<lparr>ru_tasks := AList.update tid t (ru_tasks r), ru_breakers := b,
       ru_permits := ru_permits r + (if active t then 0 else 1)\<rparr>"

definition attempt_metrics :: "attempt \<Rightarrow> sink_shard_metrics \<Rightarrow> sink_shard_metrics" where
  "attempt_metrics a m =
     (case a of
        AttemptOk \<Rightarrow> m
      | AttemptError c retried \<Rightarrow> (if retried then metrics_retries 1 else id) (metrics_errors c 1 m))"

definition run_task_outcome ::
  "shard_worker \<Rightarrow> instant \<Rightarrow> nat \<Rightarrow> sink_error option \<Rightarrow> write_task \<Rightarrow> shard_run \<Rightarrow> shard_run option" where
  "run_task_outcome sw now tid outcome t r =
     map_option (\<lambda>(a, t', b).
         let r = upd_sink_metrics (attempt_metrics a) (set_task tid t' b r)
         in if a = AttemptOk then r\<lparr>ru_written := ru_written r @ [wt_batch t']\<rparr> else r)
       (task_outcome (sw_rnd sw) (sp_retry (sw_cfg sw)) now outcome t (ru_breakers r))"

definition with_task :: "nat \<Rightarrow> shard_run \<Rightarrow> (write_task \<Rightarrow> shard_run option) \<Rightarrow> shard_run option" where
  "with_task tid r f = Option.bind (map_of (ru_tasks r) tid) f"

definition local_step :: "shard_worker \<Rightarrow> instant \<Rightarrow> worker_event \<Rightarrow> shard_run \<Rightarrow> shard_run option" where
  "local_step sw now e r =
     (case e of
        PermitFree \<Rightarrow> run_permit sw r
      | Received cs \<Rightarrow> run_recv sw now cs r
      | QueueClosed \<Rightarrow> run_closed r
      | DeadlineSeen \<Rightarrow> run_deadline_seen r
      | WatchGone \<Rightarrow> run_watch_gone r
      | LingerFired \<Rightarrow> run_linger sw now r
      | TryReceived c \<Rightarrow> run_try_recv sw now c r
      | QueueEmpty \<Rightarrow> run_force_seal sw now r
      | AllDone \<Rightarrow> run_all_done r
      | Publish d \<Rightarrow> if ru_watch_open r then Some (r\<lparr>ru_watch := d, ru_watch_news := True\<rparr>) else None
      | DropSender \<Rightarrow> if ru_watch_open r then Some (r\<lparr>ru_watch_open := False\<rparr>) else None
      | TaskPick tid \<Rightarrow> with_task tid r (\<lambda>t.
          map_option (\<lambda>(t, b). set_task tid t b r)
            (task_pick (open_for (sp_breaker (sw_cfg sw))) now t (ru_breakers r)))
      | TaskWake tid \<Rightarrow> with_task tid r (\<lambda>t.
          map_option (\<lambda>t. set_task tid t (ru_breakers r) r) (task_wake now (ru_breakers r) t))
      | TaskOutcome tid outcome \<Rightarrow> with_task tid r (\<lambda>t. run_task_outcome sw now tid outcome t r)
      | TaskDie tid \<Rightarrow> with_task tid r (\<lambda>t.
          map_option (\<lambda>(t, b). set_task tid t b r) (task_die t (ru_breakers r)))
      | _ \<Rightarrow> None)"

definition worker_step ::
  "shard_worker \<Rightarrow> worker_event \<Rightarrow> shard_run \<times> 'q world \<Rightarrow> (shard_run \<times> 'q world) option" where
  "worker_step sw e = (\<lambda>(r, w).
     case e of
       Joined tid msg \<Rightarrow> run_join sw tid msg (r, w)
     | PoolGone shut_down \<Rightarrow>
         run_sweep sw shut_down (\<lambda>r. ru_watch r = None \<and> \<not> ru_deadline_watch_live r) (r, w)
     | DeadlineReached shut_down \<Rightarrow>
         run_sweep sw shut_down (\<lambda>r. case ru_watch r of Some t \<Rightarrow> t \<le> w_now w | None \<Rightarrow> False) (r, w)
     | Advance t \<Rightarrow> if w_now w \<le> t then Some (r, w\<lparr>w_now := t\<rparr>) else None
     | _ \<Rightarrow> map_option (\<lambda>r. (r, w)) (local_step sw (w_now w) e r))"

fun worker_run ::
  "shard_worker \<Rightarrow> worker_event list \<Rightarrow> shard_run \<times> 'q world \<Rightarrow> (shard_run \<times> 'q world) option" where
  "worker_run sw [] s = Some s"
| "worker_run sw (e # es) s = Option.bind (worker_step sw e s) (worker_run sw es)"

text \<open>The chunks a worker has taken from its queue, in order.\<close>

fun taken :: "worker_event \<Rightarrow> chunk list" where
  "taken (Received cs) = cs"
| "taken (TryReceived c) = [c]"
| "taken _ = []"

section \<open>Frames\<close>

lemma upd_ledger_frame [simp]:
  "ru_acc (upd_ledger f r) = ru_acc r" "ru_tasks (upd_ledger f r) = ru_tasks r"
  "ru_next_id (upd_ledger f r) = ru_next_id r" "ru_permits (upd_ledger f r) = ru_permits r"
  "ru_breakers (upd_ledger f r) = ru_breakers r" "ru_seq (upd_ledger f r) = ru_seq r"
  "ru_waiting (upd_ledger f r) = ru_waiting r" "ru_phase (upd_ledger f r) = ru_phase r"
  "ru_metrics (upd_ledger f r) = ru_metrics r" "ru_written (upd_ledger f r) = ru_written r"
  "ru_watch (upd_ledger f r) = ru_watch r" "ru_ledger (upd_ledger f r) = f (ru_ledger r)"
  by (simp_all add: upd_ledger_def)

lemma upd_sink_metrics_frame [simp]:
  "ru_acc (upd_sink_metrics f r) = ru_acc r" "ru_tasks (upd_sink_metrics f r) = ru_tasks r"
  "ru_next_id (upd_sink_metrics f r) = ru_next_id r" "ru_permits (upd_sink_metrics f r) = ru_permits r"
  "ru_breakers (upd_sink_metrics f r) = ru_breakers r" "ru_seq (upd_sink_metrics f r) = ru_seq r"
  "ru_waiting (upd_sink_metrics f r) = ru_waiting r" "ru_phase (upd_sink_metrics f r) = ru_phase r"
  "ru_ledger (upd_sink_metrics f r) = ru_ledger r" "ru_written (upd_sink_metrics f r) = ru_written r"
  "ru_watch (upd_sink_metrics f r) = ru_watch r" "ru_metrics (upd_sink_metrics f r) = f (ru_metrics r)"
  by (simp_all add: upd_sink_metrics_def)

lemma spawn_write_effect [simp]:
  "ru_acc (spawn_write w b s r) = ru_acc r" "ru_seq (spawn_write w b s r) = ru_seq r"
  "ru_waiting (spawn_write w b s r) = ru_waiting r" "ru_phase (spawn_write w b s r) = ru_phase r"
  "ru_permits (spawn_write w b s r) = ru_permits r" "ru_breakers (spawn_write w b s r) = ru_breakers r"
  "ru_metrics (spawn_write w b s r) = ru_metrics r" "ru_written (spawn_write w b s r) = ru_written r"
  "ru_next_id (spawn_write w b s r) = Suc (ru_next_id r)"
  "ld_pending (ru_ledger (spawn_write w b s r)) = ld_pending (ru_ledger r)"
  "ld_report (ru_ledger (spawn_write w b s r)) = ld_report (ru_ledger r)"
  "ld_ids (ru_ledger (spawn_write w b s r)) = AList.update (ru_next_id r) s (ld_ids (ru_ledger r))"
  "ru_tasks (spawn_write w b s r) = ru_tasks r @ [(ru_next_id r, task_new (sp_retry (sw_cfg w)) s b)]"
  by (simp_all add: spawn_write_def Let_def)

lemma task_new_simps [simp]:
  "wt_seq (task_new c s b) = s" "wt_batch (task_new c s b) = b" "wt_phase (task_new c s b) = Picking"
  "task_token (task_new c s b) = {#}" "active (task_new c s b)" "task_ok n (task_new c s b)"
  by (simp_all add: task_new_def task_token_def active_def task_ok_def task_backoff_inv)

section \<open>Batches are the chunk stream, cut up\<close>

text \<open>
  \<open>gs\<close> lists the chunks of every batch sealed so far, in sealing order, and \<open>cur\<close> those of the
  batch being accumulated. \<open>books\<close> says that everything the worker holds is about them.
\<close>

definition rows_of :: "chunk list \<Rightarrow> nat" where
  "rows_of cs = sum_list (map ck_rows cs)"

definition bytes_of :: "chunk list \<Rightarrow> nat" where
  "bytes_of cs = sum_list (map ck_raw_len cs)"

definition acks_of :: "chunk list \<Rightarrow> ack_set" where
  "acks_of cs = concat (map ck_acks cs)"

definition batch_of :: "shard_worker \<Rightarrow> nat \<Rightarrow> chunk list \<Rightarrow> sealed_batch" where
  "batch_of sw i cs =
     \<lparr>bt_frames = map ck_frame cs, bt_rows = rows_of cs, bt_bytes = bytes_of cs,
      bt_dedup_token = sw_token_prefix sw @ decimal i\<rparr>"

definition acc_matches :: "chunk list \<Rightarrow> accumulator \<Rightarrow> bool" where
  "acc_matches cs a \<longleftrightarrow>
     ac_frames a = map ck_frame cs \<and> ac_rows a = rows_of cs \<and> ac_bytes a = bytes_of cs
     \<and> ac_acks a = acks_of cs \<and> (ac_first_at a = None \<longleftrightarrow> cs = [])"

definition pending_matches :: "chunk list \<Rightarrow> pending_batch \<Rightarrow> bool" where
  "pending_matches cs p \<longleftrightarrow> pe_acks p = acks_of cs \<and> pe_rows p = rows_of cs \<and> pe_bytes p = bytes_of cs"

definition below :: "shard_worker \<Rightarrow> chunk list \<Rightarrow> bool" where
  "below sw cs \<longleftrightarrow> rows_of cs < max_rows (sp_batch (sw_cfg sw)) \<and> bytes_of cs < max_bytes (sp_batch (sw_cfg sw))"

text \<open>Without its last chunk, a sealed batch was under both thresholds.\<close>

definition fits :: "shard_worker \<Rightarrow> chunk list \<Rightarrow> bool" where
  "fits sw cs \<longleftrightarrow> cs \<noteq> [] \<and> (butlast cs = [] \<or> below sw (butlast cs))"

definition entry_books :: "chunk list list \<Rightarrow> nat \<times> pending_batch \<Rightarrow> bool" where
  "entry_books gs = (\<lambda>(i, p). i < length gs \<and> pending_matches (gs ! i) p)"

definition waiting_books :: "shard_worker \<Rightarrow> chunk list list \<Rightarrow> nat \<times> sealed_batch \<times> instant \<Rightarrow> bool" where
  "waiting_books sw gs = (\<lambda>(i, b, t). i < length gs \<and> b = batch_of sw i (gs ! i))"

definition task_books :: "shard_worker \<Rightarrow> chunk list list \<Rightarrow> nat \<times> write_task \<Rightarrow> bool" where
  "task_books sw gs = (\<lambda>(tid, t). wt_seq t < length gs \<and> wt_batch t = batch_of sw (wt_seq t) (gs ! wt_seq t))"

definition written_books :: "shard_worker \<Rightarrow> chunk list list \<Rightarrow> sealed_batch \<Rightarrow> bool" where
  "written_books sw gs b \<longleftrightarrow> (\<exists>i < length gs. b = batch_of sw i (gs ! i))"

definition sealed_books :: "shard_worker \<Rightarrow> chunk list list \<Rightarrow> shard_run \<Rightarrow> bool" where
  "sealed_books sw gs r \<longleftrightarrow>
     length gs = ru_seq r \<and> list_all (fits sw) gs
     \<and> list_all (entry_books gs) (ld_pending (ru_ledger r))
     \<and> list_all (waiting_books sw gs) (ru_waiting r)
     \<and> list_all (task_books sw gs) (ru_tasks r)
     \<and> list_all (written_books sw gs) (ru_written r)"

definition books :: "shard_worker \<Rightarrow> chunk list list \<Rightarrow> chunk list \<Rightarrow> shard_run \<Rightarrow> bool" where
  "books sw gs cur r \<longleftrightarrow>
     sealed_books sw gs r \<and> acc_matches cur (ru_acc r) \<and> (cur = [] \<or> below sw cur)
     \<and> (ru_phase r = DrainLoop \<or> ru_phase r = Returned \<longrightarrow> cur = [])"

lemma rows_bytes_acks [simp]:
  "rows_of [] = 0" "bytes_of [] = 0" "acks_of [] = []"
  "rows_of (xs @ ys) = rows_of xs + rows_of ys" "bytes_of (xs @ ys) = bytes_of xs + bytes_of ys"
  "acks_of (xs @ ys) = acks_of xs @ acks_of ys"
  "rows_of [c] = ck_rows c" "bytes_of [c] = ck_raw_len c" "acks_of [c] = ck_acks c"
  by (simp_all add: rows_of_def bytes_of_def acks_of_def)

lemma acc_matches_new [simp]: "acc_matches cs acc_new \<longleftrightarrow> cs = []"
  by (auto simp: acc_matches_def acc_new_def ackset_new_def)

lemma acc_matches_push: "acc_matches cs a \<Longrightarrow> acc_matches (cs @ [c]) (acc_push c now a)"
  by (simp add: acc_matches_def acc_push_def ackset_absorb_def)

lemma acc_matches_empty: "acc_matches cs a \<Longrightarrow> acc_is_empty a \<longleftrightarrow> cs = []"
  by (simp add: acc_matches_def acc_is_empty_def)

lemma below_butlast: "below sw cs \<Longrightarrow> below sw (butlast cs)"
  by (cases cs rule: rev_cases) (auto simp: below_def)

lemma seal_reason_below: "acc_matches cs a \<Longrightarrow> seal_reason sw a = None \<longleftrightarrow> below sw cs"
  by (auto simp: seal_reason_def acc_matches_def below_def)

text \<open>What \<open>dispatch\<close> does with a non-empty accumulator: the batch is sealed, then starts or waits.\<close>

definition sealed_pending :: "flush_reason \<Rightarrow> instant \<Rightarrow> accumulator \<Rightarrow> pending_batch" where
  "sealed_pending reason now full =
     \<lparr>pe_acks = ac_acks full, pe_rows = ac_rows full, pe_bytes = ac_bytes full, pe_reason = reason,
      pe_started = now, pe_oldest_ingest = (case ac_oldest_ingest full of Some t \<Rightarrow> t | None \<Rightarrow> now),
      pe_oldest_event_ms = ac_oldest_event_ms full\<rparr>"

definition sealed_run :: "flush_reason \<Rightarrow> instant \<Rightarrow> shard_run \<Rightarrow> shard_run" where
  "sealed_run reason now r =
     (let r = upd_ledger (\<lambda>l. l\<lparr>ld_pending :=
                AList.update (ru_seq r) (sealed_pending reason now (ru_acc r)) (ld_pending l)\<rparr>)
                (r\<lparr>ru_seq := ru_seq r + 1, ru_acc := acc_new\<rparr>)
      in upd_sink_metrics (metrics_set_inflight (length (ld_pending (ru_ledger r)))) r)"

lemma sealed_run_frame [simp]:
  "ru_acc (sealed_run reason now r) = acc_new" "ru_tasks (sealed_run reason now r) = ru_tasks r"
  "ru_next_id (sealed_run reason now r) = ru_next_id r" "ru_permits (sealed_run reason now r) = ru_permits r"
  "ru_breakers (sealed_run reason now r) = ru_breakers r" "ru_seq (sealed_run reason now r) = Suc (ru_seq r)"
  "ru_waiting (sealed_run reason now r) = ru_waiting r" "ru_phase (sealed_run reason now r) = ru_phase r"
  "ru_written (sealed_run reason now r) = ru_written r"
  "ld_ids (ru_ledger (sealed_run reason now r)) = ld_ids (ru_ledger r)"
  "ld_report (ru_ledger (sealed_run reason now r)) = ld_report (ru_ledger r)"
  "ld_pending (ru_ledger (sealed_run reason now r)) =
     AList.update (ru_seq r) (sealed_pending reason now (ru_acc r)) (ld_pending (ru_ledger r))"
  "sm_inflight (ru_metrics (sealed_run reason now r)) = length (ld_pending (ru_ledger (sealed_run reason now r)))"
  by (simp_all add: sealed_run_def Let_def metrics_set_inflight_def)

lemma dispatch_cases:
  assumes "acc_matches cur (ru_acc r)" and "cur \<noteq> []"
  obtains
    (start) "ru_waiting r = []" "0 < ru_permits r"
      "dispatch sw reason now r =
         spawn_write sw (batch_of sw (ru_seq r) cur) (ru_seq r)
           ((sealed_run reason now r)\<lparr>ru_permits := ru_permits r - 1\<rparr>)"
  | (wait) "ru_waiting r \<noteq> [] \<or> ru_permits r = 0"
      "dispatch sw reason now r =
         (sealed_run reason now r)\<lparr>ru_waiting := ru_waiting r @ [(ru_seq r, batch_of sw (ru_seq r) cur, now)]\<rparr>"
proof -
  have seal: "seal sw reason now r = ((ru_seq r, batch_of sw (ru_seq r) cur), sealed_run reason now r)"
    using assms(1) by (simp add: seal_def sealed_run_def Let_def acc_matches_def batch_of_def sealed_pending_def)
  have ne: "\<not> acc_is_empty (ru_acc r)" using assms acc_matches_empty by blast
  show thesis
  proof (cases "ru_waiting r = [] \<and> 0 < ru_permits r")
    case True
    with start ne seal show thesis by (simp add: dispatch_def try_acquire_def)
  next
    case False
    with wait ne seal show thesis by (auto simp: dispatch_def try_acquire_def)
  qed
qed

lemma books_mono:
  "entry_books gs x \<Longrightarrow> entry_books (gs @ ext) x"
  "waiting_books sw gs y \<Longrightarrow> waiting_books sw (gs @ ext) y"
  "task_books sw gs z \<Longrightarrow> task_books sw (gs @ ext) z"
  "written_books sw gs b \<Longrightarrow> written_books sw (gs @ ext) b"
  by (auto simp: entry_books_def waiting_books_def task_books_def written_books_def nth_append)

lemma sealed_books_seal:
  assumes "sealed_books sw gs r" and "acc_matches cur (ru_acc r)" and "fits sw cur"
  shows "sealed_books sw (gs @ [cur]) (sealed_run reason now r)"
proof -
  have new: "(gs @ [cur]) ! ru_seq r = cur" and seq: "length gs = ru_seq r"
    using assms(1) by (metis sealed_books_def nth_append_length, simp add: sealed_books_def)
  then have "entry_books (gs @ [cur]) (ru_seq r, sealed_pending reason now (ru_acc r))"
    using assms(2) by (simp add: entry_books_def pending_matches_def sealed_pending_def acc_matches_def)
  moreover have "list_all (entry_books (gs @ [cur])) (ld_pending (ru_ledger r))"
    "list_all (waiting_books sw (gs @ [cur])) (ru_waiting r)"
    "list_all (task_books sw (gs @ [cur])) (ru_tasks r)"
    "list_all (written_books sw (gs @ [cur])) (ru_written r)"
    using assms(1) by (auto simp: sealed_books_def intro: books_mono elim!: list.pred_mono_strong)
  ultimately show ?thesis
    using assms(1,3) seq by (simp add: sealed_books_def list_all_alist_update)
qed

lemma books_dispatch:
  assumes "sealed_books sw gs r" and "acc_matches cur (ru_acc r)" and "fits sw cur"
  shows "books sw (gs @ [cur]) [] (dispatch sw reason now r)"
proof -
  have ne: "cur \<noteq> []" using assms(3) by (simp add: fits_def)
  have new: "(gs @ [cur]) ! ru_seq r = cur" and seq: "length gs = ru_seq r"
    using assms(1) by (metis sealed_books_def nth_append_length, simp add: sealed_books_def)
  note sealed = sealed_books_seal [OF assms, of reason now]
  from assms(2) ne show ?thesis
  proof (cases rule: dispatch_cases [where sw = sw and reason = reason and now = now])
    case start
    then show ?thesis
      using sealed seq new by (simp add: books_def sealed_books_def task_books_def)
  next
    case wait
    then show ?thesis
      using sealed seq new by (simp add: books_def sealed_books_def waiting_books_def)
  qed
qed

text \<open>Resolving batch \<open>s\<close>, either way, as far as the worker's own state goes.\<close>

definition same_core :: "shard_run \<Rightarrow> shard_run \<Rightarrow> bool" where
  "same_core r r' \<longleftrightarrow>
     ru_acc r' = ru_acc r \<and> ru_tasks r' = ru_tasks r \<and> ru_next_id r' = ru_next_id r
     \<and> ru_permits r' = ru_permits r \<and> ru_breakers r' = ru_breakers r \<and> ru_seq r' = ru_seq r
     \<and> ru_waiting r' = ru_waiting r \<and> ru_phase r' = ru_phase r \<and> ru_written r' = ru_written r
     \<and> ld_ids (ru_ledger r') = ld_ids (ru_ledger r) \<and> ru_watch r' = ru_watch r"

definition resolved_count :: "shard_run \<Rightarrow> nat" where
  "resolved_count r = wr_flushed (ld_report (ru_ledger r)) + wr_abandoned (ld_report (ru_ledger r))"

definition resolves :: "nat \<Rightarrow> pending_batch \<Rightarrow> shard_run \<Rightarrow> shard_run \<Rightarrow> bool" where
  "resolves s p r r' \<longleftrightarrow>
     same_core r r' \<and> map_of (ld_pending (ru_ledger r)) s = Some p
     \<and> ld_pending (ru_ledger r') = AList.delete s (ld_pending (ru_ledger r))
     \<and> resolved_count r' = Suc (resolved_count r)
     \<and> sm_inflight (ru_metrics r') = length (ld_pending (ru_ledger r'))"

lemma settle_effect:
  assumes "settle s (r, w) = (r', w')"
  obtains (gone) "map_of (ld_pending (ru_ledger r)) s = None" "r' = r" "w' = w"
  | (hit) p where "resolves s p r r'"
      "w' = w\<lparr>w_budget := budget_sub (pe_bytes p) (w_budget w), w_heap := ackset_deliver (pe_acks p) (w_heap w)\<rparr>"
proof (cases "map_of (ld_pending (ru_ledger r)) s")
  case None
  show thesis by (rule gone) (use None assms in \<open>simp_all add: settle_def\<close>)
next
  case (Some p)
  have out: "r' = fst (settle s (r, w))" "w' = snd (settle s (r, w))" by (simp_all add: assms)
  show thesis
    by (rule hit [of p]) (simp_all add: out settle_def Some Let_def resolves_def same_core_def resolved_count_def
        metrics_set_inflight_def metrics_flushed_def)
qed

lemma abandon_effect:
  assumes "abandon sw s reason (r, w) = (r', w')"
  obtains (gone) "map_of (ld_pending (ru_ledger r)) s = None" "r' = r" "w' = w"
  | (hit) p where "resolves s p r r'"
      "w' = w\<lparr>w_heap := ackset_drop (pe_acks p) (w_heap w), w_budget := budget_sub (pe_bytes p) (w_budget w)\<rparr>"
proof (cases "map_of (ld_pending (ru_ledger r)) s")
  case None
  show thesis by (rule gone) (use None assms in \<open>simp_all add: abandon_def\<close>)
next
  case (Some p)
  have out: "r' = fst (abandon sw s reason (r, w))" "w' = snd (abandon sw s reason (r, w))" by (simp_all add: assms)
  show thesis
    by (rule hit [of p]) (simp_all add: out abandon_def Some Let_def resolves_def same_core_def resolved_count_def
        metrics_set_inflight_def metrics_abandoned_def)
qed

section \<open>One batch, one place\<close>

text \<open>
  The numbers of the batches waiting for a permit or being written. While the worker runs they
  are exactly the pending batches, each once; after it has returned nothing is pending.
\<close>

definition seqs :: "shard_run \<Rightarrow> nat list" where
  "seqs r = map fst (ru_waiting r) @ map (\<lambda>(_, t). wt_seq t) (ru_tasks r)"

definition task_ids :: "shard_run \<Rightarrow> (nat \<times> nat) list" where
  "task_ids r = map (\<lambda>(tid, t). (tid, wt_seq t)) (ru_tasks r)"

definition run_flow :: "shard_run \<Rightarrow> bool" where
  "run_flow r \<longleftrightarrow>
     distinct (akeys (ld_pending (ru_ledger r))) \<and> distinct (akeys (ru_tasks r)) \<and> distinct (seqs r)
     \<and> list_all (\<lambda>tid. tid < ru_next_id r) (akeys (ru_tasks r))
     \<and> list_all (\<lambda>s. s < ru_seq r) (seqs r) \<and> list_all (\<lambda>s. s < ru_seq r) (akeys (ld_pending (ru_ledger r)))
     \<and> (ru_phase r \<noteq> Returned \<longrightarrow> set (akeys (ld_pending (ru_ledger r))) = set (seqs r)
          \<and> map_of (ld_ids (ru_ledger r)) = map_of (task_ids r))
     \<and> (ru_phase r = Returned \<longrightarrow> ld_pending (ru_ledger r) = [] \<and> ru_waiting r = [])
     \<and> resolved_count r + length (ld_pending (ru_ledger r)) = ru_seq r
     \<and> sm_inflight (ru_metrics r) = length (ld_pending (ru_ledger r))"

lemma resolved_count_sealed [simp]: "resolved_count (sealed_run reason now r) = resolved_count r"
  by (simp add: resolved_count_def)

lemma run_flow_dispatch:
  assumes "run_flow r" and "ru_phase r \<noteq> Returned"
  shows "run_flow (dispatch sw reason now r) \<and> ru_phase (dispatch sw reason now r) = ru_phase r"
proof (cases "acc_is_empty (ru_acc r)")
  case True
  with assms show ?thesis by (simp add: dispatch_def)
next
  case False
  define batch where "batch = snd (fst (seal sw reason now r))"
  have seal: "seal sw reason now r = ((ru_seq r, batch), sealed_run reason now r)"
    by (simp add: seal_def sealed_run_def Let_def batch_def sealed_pending_def)
  have fresh: "ru_seq r \<notin> set (akeys (ld_pending (ru_ledger r)))" "ru_seq r \<notin> set (seqs r)"
    "ru_next_id r \<notin> set (akeys (ru_tasks r))"
    using assms(1) by (auto simp: run_flow_def list_all_iff)
  let ?p = "sealed_pending reason now (ru_acc r)"
  have pend: "AList.update (ru_seq r) ?p (ld_pending (ru_ledger r)) = ld_pending (ru_ledger r) @ [(ru_seq r, ?p)]"
    by (rule alist_update_fresh [OF fresh(1)])
  have lt: "list_all (\<lambda>s. s < Suc (ru_seq r)) (seqs r)"
    "list_all (\<lambda>s. s < Suc (ru_seq r)) (akeys (ld_pending (ru_ledger r)))"
    "list_all (\<lambda>tid. tid < Suc (ru_next_id r)) (akeys (ru_tasks r))"
    using assms(1) by (auto simp: run_flow_def elim!: list.pred_mono_strong)
  show ?thesis
  proof (cases "ru_waiting r = [] \<and> 0 < ru_permits r")
    case True
    then have d: "dispatch sw reason now r = spawn_write sw batch (ru_seq r)
        ((sealed_run reason now r)\<lparr>ru_permits := ru_permits r - 1\<rparr>)"
      using False by (simp add: dispatch_def seal try_acquire_def)
    have "map_of (AList.update (ru_next_id r) (ru_seq r) (ld_ids (ru_ledger r)))
      = map_of (task_ids r @ [(ru_next_id r, ru_seq r)])"
    proof -
      have "map_of (task_ids r) (ru_next_id r) = None"
        using fresh(3) by (force simp: task_ids_def map_of_eq_None_iff akeys_def)
      then show ?thesis
        using assms by (auto simp: run_flow_def map_of_append fun_eq_iff map_add_def split: option.splits)
    qed
    with assms fresh lt True show ?thesis
      unfolding d by (simp add: run_flow_def seqs_def task_ids_def pend resolved_count_def)
  next
    case f: False
    then have d: "dispatch sw reason now r = (sealed_run reason now r)
        \<lparr>ru_waiting := ru_waiting r @ [(ru_seq r, batch, now)]\<rparr>"
      using False by (auto simp: dispatch_def seal try_acquire_def)
    with assms fresh lt show ?thesis
      unfolding d by (simp add: run_flow_def seqs_def task_ids_def pend resolved_count_def)
  qed
qed

section \<open>Permits, probes and results\<close>

definition task_entry_ok :: "nat \<Rightarrow> sealed_batch list \<Rightarrow> nat \<times> write_task \<Rightarrow> bool" where
  "task_entry_ok n written = (\<lambda>(tid, t). task_ok n t \<and>
     (\<forall>d. wt_phase t = Ended d \<longrightarrow>
        wd_seq d = wt_seq t \<and> (wd_failure d = None \<longrightarrow> wt_batch t \<in> set written)))"

definition tokens_of :: "(nat \<times> write_task) list \<Rightarrow> tokens" where
  "tokens_of ts = sum_list (map (\<lambda>(_, t). task_token t) ts)"

definition active_count :: "(nat \<times> write_task) list \<Rightarrow> nat" where
  "active_count ts = sum_list (map (\<lambda>(_, t). if active t then 1 else 0) ts)"

definition crew :: "shard_worker \<Rightarrow> shard_run \<Rightarrow> bool" where
  "crew sw r \<longleftrightarrow>
     ru_permits r + active_count (ru_tasks r) = max_per_shard (sp_inflight (sw_cfg sw))
     \<and> list_all (task_entry_ok (sw_endpoints sw) (ru_written r)) (ru_tasks r)
     \<and> breakers_ok (sw_endpoints sw) (ru_breakers r) (tokens_of (ru_tasks r))"

lemma task_sums_append [simp]:
  "tokens_of [] = {#}" "tokens_of (ts @ [(tid, t)]) = tokens_of ts + task_token t"
  "active_count [] = 0" "active_count (ts @ [(tid, t)]) = active_count ts + (if active t then 1 else 0)"
  by (simp_all add: tokens_of_def active_count_def)

lemma task_entry_new [simp]: "task_entry_ok n written (tid, task_new c s b)"
  by (simp add: task_entry_ok_def)

lemma crew_spawn:
  assumes "crew sw r" and "0 < ru_permits r"
  shows "crew sw (spawn_write sw b s (r\<lparr>ru_permits := ru_permits r - 1\<rparr>))"
  using assms by (simp add: crew_def)

lemma crew_same:
  assumes "crew sw r" and "ru_permits r' = ru_permits r" and "ru_tasks r' = ru_tasks r"
    and "ru_written r' = ru_written r" and "ru_breakers r' = ru_breakers r"
  shows "crew sw r'"
  using assms by (simp add: crew_def)

lemma crew_dispatch: "crew sw r \<Longrightarrow> crew sw (dispatch sw reason now r)"
proof (cases "acc_is_empty (ru_acc r)")
  case True
  then show "crew sw r \<Longrightarrow> crew sw (dispatch sw reason now r)" by (simp add: dispatch_def)
next
  case False
  assume crew: "crew sw r"
  obtain b where seal: "seal sw reason now r = ((ru_seq r, b), sealed_run reason now r)"
    by (simp add: seal_def sealed_run_def Let_def sealed_pending_def)
  from crew have sealed: "crew sw (sealed_run reason now r)" by (rule crew_same) simp_all
  show "crew sw (dispatch sw reason now r)"
    using False seal crew_spawn [OF sealed] sealed
    by (auto simp: dispatch_def try_acquire_def intro: crew_same)
qed

lemma crew_take_chunk: "crew sw r \<Longrightarrow> crew sw (take_chunk sw now c r)"
proof -
  assume "crew sw r"
  then have "crew sw (r\<lparr>ru_acc := acc_push c now (ru_acc r)\<rparr>)" by (rule crew_same) simp_all
  then show ?thesis by (auto simp: take_chunk_def Let_def crew_dispatch split: option.splits)
qed

lemma run_flow_same:
  assumes "run_flow r" and "ru_ledger r' = ru_ledger r" and "ru_tasks r' = ru_tasks r" and "ru_waiting r' = ru_waiting r"
    and "ru_next_id r' = ru_next_id r" and "ru_seq r' = ru_seq r" and "ru_metrics r' = ru_metrics r"
    and "ru_phase r' = ru_phase r \<or> ru_phase r \<noteq> Returned \<and> ru_phase r' \<noteq> Returned"
  shows "run_flow r'"
  using assms by (auto simp: run_flow_def seqs_def task_ids_def resolved_count_def)

lemma run_flow_take_chunk:
  assumes "run_flow r" and "ru_phase r \<noteq> Returned"
  shows "run_flow (take_chunk sw now c r) \<and> ru_phase (take_chunk sw now c r) = ru_phase r"
proof -
  from assms(1) have "run_flow (r\<lparr>ru_acc := acc_push c now (ru_acc r)\<rparr>)" by (rule run_flow_same) simp_all
  with run_flow_dispatch [of "r\<lparr>ru_acc := acc_push c now (ru_acc r)\<rparr>"] assms(2) show ?thesis
    by (simp add: take_chunk_def Let_def split: option.splits)
qed

text \<open>The three together.\<close>

definition worker_inv :: "shard_worker \<Rightarrow> chunk list list \<Rightarrow> chunk list \<Rightarrow> shard_run \<Rightarrow> bool" where
  "worker_inv sw gs cur r \<longleftrightarrow> books sw gs cur r \<and> run_flow r \<and> crew sw r"

lemma worker_inv_start: "run_start sw register = Some r \<Longrightarrow> worker_inv sw [] [] r"
  by (auto simp: run_start_def worker_inv_def books_def sealed_books_def run_flow_def crew_def seqs_def task_ids_def
      resolved_count_def metrics_new_def breakers_ok_def breaker_inv_new tokens_ok_new)

section \<open>Every event keeps them\<close>

lemma worker_inv_launch:
  assumes inv: "worker_inv sw gs cur r" and "run_permit sw r = Some r'"
  shows "worker_inv sw gs cur r'"
proof -
  obtain s b q rest where wait: "ru_waiting r = (s, b, q) # rest" and permit: "0 < ru_permits r"
    and ph: "ru_phase r \<noteq> Returned"
    and r': "r' = spawn_write sw b s (r\<lparr>ru_permits := ru_permits r - 1, ru_waiting := rest\<rparr>)"
    using assms(2)
    by (auto simp: run_permit_def try_acquire_def launch_waiting_def looping_def split: if_splits list.splits)
  have "waiting_books sw gs (s, b, q)"
    using inv wait by (simp add: worker_inv_def books_def sealed_books_def)
  then have "task_books sw gs (ru_next_id r, task_new (sp_retry (sw_cfg sw)) s b)"
    by (simp add: waiting_books_def task_books_def)
  then have books: "books sw gs cur r'"
    using inv wait unfolding r' by (simp add: worker_inv_def books_def sealed_books_def)
  have fresh: "ru_next_id r \<notin> set (akeys (ru_tasks r))"
    using inv by (auto simp: worker_inv_def run_flow_def list_all_iff)
  then have none: "map_of (task_ids r) (ru_next_id r) = None"
    by (force simp: task_ids_def map_of_eq_None_iff akeys_def)
  have ids: "map_of (AList.update (ru_next_id r) s (ld_ids (ru_ledger r))) = map_of (task_ids r @ [(ru_next_id r, s)])"
    using inv ph none by (auto simp: worker_inv_def run_flow_def map_add_def fun_eq_iff split: option.splits)
  have lt: "list_all (\<lambda>tid. tid < Suc (ru_next_id r)) (akeys (ru_tasks r))"
    using inv by (auto simp: worker_inv_def run_flow_def elim!: list.pred_mono_strong)
  have "run_flow r'"
    using inv wait ph fresh ids lt unfolding r'
    by (simp add: worker_inv_def run_flow_def seqs_def task_ids_def resolved_count_def)
  moreover have "crew sw (spawn_write sw b s (r\<lparr>ru_permits := ru_permits r - 1\<rparr>))"
    using crew_spawn [OF _ permit] inv by (simp only: worker_inv_def)
  then have "crew sw r'" unfolding r' by (rule crew_same) simp_all
  ultimately show ?thesis using books by (simp add: worker_inv_def)
qed

text \<open>A task moves on: \<open>T\<close> are the probe slots of the others.\<close>

definition other_tokens :: "nat \<Rightarrow> shard_run \<Rightarrow> tokens" where
  "other_tokens tid r = tokens_of (AList.delete tid (ru_tasks r))"

lemma crew_task:
  assumes "crew sw r" and "run_flow r" and "map_of (ru_tasks r) tid = Some t"
  shows "task_ok (sw_endpoints sw) t"
    and "breakers_ok (sw_endpoints sw) (ru_breakers r) (task_token t + other_tokens tid r)"
proof -
  have "distinct (akeys (ru_tasks r))" using assms(2) by (simp add: run_flow_def)
  from sum_alist_delete [OF this assms(3), of "\<lambda>(_, t). task_token t"]
  have "other_tokens tid r + task_token t = tokens_of (ru_tasks r)"
    by (simp add: other_tokens_def tokens_of_def)
  with assms(1) show "breakers_ok (sw_endpoints sw) (ru_breakers r) (task_token t + other_tokens tid r)"
    by (simp add: crew_def add.commute)
  show "task_ok (sw_endpoints sw) t"
    using assms(1) list_all_map_of [OF _ assms(3)] by (fastforce simp: crew_def task_entry_ok_def)
qed

lemma worker_inv_set_task:
  assumes inv: "worker_inv sw gs cur r" and t: "map_of (ru_tasks r) tid = Some t" "active t"
    and step: "task_step_ok (sw_endpoints sw) (other_tokens tid r) (t, ru_breakers r) (t', b')"
    and r': "r' = (set_task tid t' b' r)\<lparr>ru_metrics := m, ru_written := ru_written r @ ws\<rparr>"
    and m: "sm_inflight m = sm_inflight (ru_metrics r)"
    and ws: "set ws \<subseteq> {wt_batch t}"
    and ended: "\<And>d. wt_phase t' = Ended d \<Longrightarrow>
      wd_seq d = wt_seq t \<and> (wd_failure d = None \<longrightarrow> wt_batch t \<in> set (ru_written r @ ws))"
  shows "worker_inv sw gs cur r'"
proof -
  let ?ts = "AList.update tid t' (ru_tasks r)"
  have same: "wt_seq t' = wt_seq t" "wt_batch t' = wt_batch t" and t': "task_ok (sw_endpoints sw) t'"
    and b': "breakers_ok (sw_endpoints sw) b' (task_token t' + other_tokens tid r)"
    using step by (simp_all add: task_step_ok_def)
  have tb: "task_books sw gs (tid, t)" and tbs: "list_all (task_books sw gs) (ru_tasks r)"
    using inv list_all_map_of [OF _ t(1)] by (auto simp: worker_inv_def books_def sealed_books_def)
  then have "task_books sw gs (tid, t')" "list_all (written_books sw gs) ws"
    using same ws by (auto simp: task_books_def written_books_def list_all_iff)
  then have books: "books sw gs cur r'"
    using inv unfolding r' set_task_def
    by (simp add: worker_inv_def books_def sealed_books_def list_all_alist_update)
  have keys: "akeys ?ts = akeys (ru_tasks r)"
    unfolding akeys_def by (rule map_alist_update_same [OF t(1)]) simp
  have seqs: "map (\<lambda>(_, t). wt_seq t) ?ts = map (\<lambda>(_, t). wt_seq t) (ru_tasks r)"
    "map (\<lambda>(tid, t). (tid, wt_seq t)) ?ts = map (\<lambda>(tid, t). (tid, wt_seq t)) (ru_tasks r)"
    by (rule map_alist_update_same [OF t(1)], simp add: same)+
  have run_flow: "run_flow r'"
    using inv m unfolding r' set_task_def
    by (simp add: worker_inv_def run_flow_def seqs_def task_ids_def resolved_count_def keys seqs)
  have dist: "distinct (akeys (ru_tasks r))" using inv by (simp add: worker_inv_def run_flow_def)
  have "tokens_of ?ts + task_token t = tokens_of (ru_tasks r) + task_token t'"
    using sum_alist_update [OF t(1), of "\<lambda>(_, t). task_token t" t'] by (simp add: tokens_of_def)
  moreover have "other_tokens tid r + task_token t = tokens_of (ru_tasks r)"
    using sum_alist_delete [OF dist t(1), of "\<lambda>(_, t). task_token t"]
    by (simp add: other_tokens_def tokens_of_def)
  ultimately have tok: "tokens_of ?ts = task_token t' + other_tokens tid r"
    by (metis add.commute add.assoc add_right_cancel)
  have act: "active_count ?ts + 1 = active_count (ru_tasks r) + (if active t' then 1 else 0)"
    using sum_alist_update [OF t(1), of "\<lambda>(_, t). if active t then 1 else (0::nat)" t'] t(2)
    by (simp add: active_count_def)
  have more: "list_all (task_entry_ok n (ru_written r @ ws)) (ru_tasks r)"
    if "list_all (task_entry_ok n (ru_written r)) (ru_tasks r)" for n
    using that by (rule list.pred_mono_strong) (auto simp: task_entry_ok_def)
  have new: "task_entry_ok (sw_endpoints sw) (ru_written r @ ws) (tid, t')"
    using t' ended same by (simp add: task_entry_ok_def)
  have "crew sw r'"
    using inv act b' more new unfolding r' set_task_def
    by (auto simp: worker_inv_def crew_def tok list_all_alist_update)
  with books run_flow show ?thesis by (simp add: worker_inv_def)
qed

lemma worker_inv_task_event:
  assumes inv: "worker_inv sw gs cur r" and rnd: "rounds (sw_rnd sw)" and e: "local_step sw now e r = Some r'"
    and task: "e = TaskPick tid \<or> e = TaskWake tid \<or> e = TaskOutcome tid out \<or> e = TaskDie tid"
  shows "worker_inv sw gs cur r'"
proof -
  from e task obtain t where t: "map_of (ru_tasks r) tid = Some t"
    by (auto simp: local_step_def with_task_def bind_eq_Some_conv)
  have crew: "crew sw r" and run_flow: "run_flow r" using inv by (simp_all add: worker_inv_def)
  note ok = crew_task [OF crew run_flow t]
  have keep: "worker_inv sw gs cur (set_task tid t' b' r)"
    if "task_step_ok (sw_endpoints sw) (other_tokens tid r) (t, ru_breakers r) (t', b')" "active t"
      "\<And>d. wt_phase t' \<noteq> Ended d" for t' b'
    by (rule worker_inv_set_task [OF inv t that(2,1), where m = "ru_metrics r" and ws = "[]"])
      (simp_all add: set_task_def that)
  consider "e = TaskPick tid" | "e = TaskWake tid" | "e = TaskDie tid" | "e = TaskOutcome tid out"
    using task by blast
  then show ?thesis
  proof cases
    case 1
    with e t obtain t' b' where p: "task_pick (open_for (sp_breaker (sw_cfg sw))) now t (ru_breakers r) = Some (t', b')"
      and r': "r' = set_task tid t' b' r" by (auto simp: local_step_def with_task_def)
    from p have "active t" "\<And>d. wt_phase t' \<noteq> Ended d"
      by (auto simp: task_pick_def active_def Let_def split: task_phase.splits option.splits prod.splits)
    with keep task_pick_ok [OF p ok] show ?thesis unfolding r' by blast
  next
    case 2
    with e t obtain t' where p: "task_wake now (ru_breakers r) t = Some t'"
      and r': "r' = set_task tid t' (ru_breakers r) r" by (auto simp: local_step_def with_task_def)
    from p have "active t" "\<And>d. wt_phase t' \<noteq> Ended d"
      by (auto simp: task_wake_def active_def split: task_phase.splits option.splits if_splits)
    with keep task_wake_ok [OF p ok] show ?thesis unfolding r' by blast
  next
    case 3
    with e t obtain t' b' where p: "task_die t (ru_breakers r) = Some (t', b')"
      and r': "r' = set_task tid t' b' r" by (auto simp: local_step_def with_task_def)
    with keep task_die_ok [OF p ok] show ?thesis unfolding r' by simp
  next
    case 4
    with e t obtain a t' b'
      where p: "task_outcome (sw_rnd sw) (sp_retry (sw_cfg sw)) now out t (ru_breakers r) = Some (a, t', b')"
      and r': "r' = (set_task tid t' b' r)\<lparr>ru_metrics := attempt_metrics a (ru_metrics r),
          ru_written := ru_written r @ (if a = AttemptOk then [wt_batch t'] else [])\<rparr>"
      by (auto simp: local_step_def with_task_def run_task_outcome_def Let_def upd_sink_metrics_def set_task_def)
    from p have act: "active t" by (auto simp: task_outcome_def active_def split: task_phase.splits)
    note out = task_outcome_ok [OF p rnd ok]
    have m: "sm_inflight (attempt_metrics a (ru_metrics r)) = sm_inflight (ru_metrics r)"
      by (simp add: attempt_metrics_def metrics_retries_def metrics_errors_def split: attempt.splits)
    have b: "wt_batch t' = wt_batch t" using out by (simp add: task_step_ok_def)
    show ?thesis
      by (rule worker_inv_set_task [OF inv t act conjunct1 [OF out] r' m]) (use out b in auto)
  qed
qed

text \<open>What resolving does to the rest of the process.\<close>

definition world_deliver :: "pending_batch \<Rightarrow> 'q world \<Rightarrow> 'q world" where
  "world_deliver p w =
     w\<lparr>w_budget := budget_sub (pe_bytes p) (w_budget w), w_heap := ackset_deliver (pe_acks p) (w_heap w)\<rparr>"

definition world_drop :: "pending_batch \<Rightarrow> 'q world \<Rightarrow> 'q world" where
  "world_drop p w =
     w\<lparr>w_heap := ackset_drop (pe_acks p) (w_heap w), w_budget := budget_sub (pe_bytes p) (w_budget w)\<rparr>"

definition joined_run :: "nat \<Rightarrow> shard_run \<Rightarrow> shard_run" where
  "joined_run tid r =
     upd_ledger (\<lambda>l. l\<lparr>ld_ids := AList.delete tid (ld_ids l)\<rparr>) (r\<lparr>ru_tasks := AList.delete tid (ru_tasks r)\<rparr>)"

lemma in_pending:
  assumes "run_flow r" and "ru_phase r \<noteq> Returned" and "map_of (ru_tasks r) tid = Some t"
  shows "\<exists>p. map_of (ld_pending (ru_ledger r)) (wt_seq t) = Some p"
proof -
  have "wt_seq t \<in> set (seqs r)" using map_of_SomeD [OF assms(3)] by (force simp: seqs_def)
  with assms(1,2) have "wt_seq t \<in> set (akeys (ld_pending (ru_ledger r)))" by (simp add: run_flow_def)
  then show ?thesis by (metis map_of_None_iff not_None_eq)
qed

lemma join_effect:
  assumes inv: "worker_inv sw gs cur r" and join: "run_join sw tid msg (r, w) = Some (r', w')"
  obtains (res) t p where "ru_phase r \<noteq> Returned" "map_of (ru_tasks r) tid = Some t" "\<not> active t"
    "resolves (wt_seq t) p (joined_run tid r) r'"
    "w' = world_deliver p w \<and> wt_batch t \<in> set (ru_written r) \<or> w' = world_drop p w"
proof -
  from join obtain t j where loop: "looping r" and t: "map_of (ru_tasks r) tid = Some t"
    and j: "join_result tid msg t = Some j"
    and h: "handle_join sw j (r\<lparr>ru_tasks := AList.delete tid (ru_tasks r)\<rparr>, w) = (r', w')"
    by (auto simp: run_join_def bind_eq_Some_conv split: if_splits option.splits)
  have ph: "ru_phase r \<noteq> Returned" using loop by (auto simp: looping_def)
  have run_flow: "run_flow r" using inv by (simp add: worker_inv_def)
  obtain p0 where p0: "map_of (ld_pending (ru_ledger (joined_run tid r))) (wt_seq t) = Some p0"
    using in_pending [OF run_flow ph t] by (auto simp: joined_run_def)
  have nact: "\<not> active t" using j by (auto simp: join_result_def active_def split: task_phase.splits)
  have settled: thesis if "settle (wt_seq t) (joined_run tid r, w) = (r', w')" "wt_batch t \<in> set (ru_written r)"
    using that(1)
  proof (cases rule: settle_effect)
    case (hit p)
    then show thesis using that(2) ph t nact by (intro res [of t p]) (simp_all add: world_deliver_def)
  qed (simp add: p0)
  have abandoned: thesis if "abandon sw (wt_seq t) reason (joined_run tid r, w) = (r', w')" for reason
    using that
  proof (cases rule: abandon_effect)
    case (hit p)
    then show thesis using ph t nact by (intro res [of t p]) (simp_all add: world_drop_def)
  qed (simp add: p0)
  show thesis
  proof (cases "wt_phase t")
    case (Ended d)
    with list_all_map_of [OF _ t] inv have d: "wd_seq d = wt_seq t" "wd_failure d = None \<longrightarrow> wt_batch t \<in> set (ru_written r)"
      by (fastforce simp: worker_inv_def crew_def task_entry_ok_def)+
    from Ended j have "j = JoinOk tid d" by (simp add: join_result_def)
    with h d(1) settled abandoned d(2) show thesis
      by (cases "wd_failure d") (simp_all add: joined_run_def [symmetric] Let_def)
  next
    case Died
    with j have "j = JoinErr tid msg" by (simp add: join_result_def)
    moreover have "map_of (ld_ids (ru_ledger r)) tid = Some (wt_seq t)"
      using run_flow ph t by (simp add: run_flow_def task_ids_def map_of_map)
    ultimately show thesis using h abandoned by (simp add: joined_run_def)
  qed (use j in \<open>auto simp: join_result_def\<close>)
qed

lemma resolves_keeps:
  assumes "resolves s p r r'"
  shows "ru_acc r' = ru_acc r" "ru_tasks r' = ru_tasks r" "ru_next_id r' = ru_next_id r"
    "ru_permits r' = ru_permits r" "ru_breakers r' = ru_breakers r" "ru_seq r' = ru_seq r"
    "ru_waiting r' = ru_waiting r" "ru_phase r' = ru_phase r" "ru_written r' = ru_written r"
    "ld_ids (ru_ledger r') = ld_ids (ru_ledger r)"
    "ld_pending (ru_ledger r') = AList.delete s (ld_pending (ru_ledger r))"
    "resolved_count r' = Suc (resolved_count r)"
    "sm_inflight (ru_metrics r') = length (ld_pending (ru_ledger r'))"
  using assms by (simp_all add: resolves_def same_core_def)

lemma joined_run_frame [simp]:
  "ru_acc (joined_run tid r) = ru_acc r" "ru_tasks (joined_run tid r) = AList.delete tid (ru_tasks r)"
  "ru_next_id (joined_run tid r) = ru_next_id r" "ru_permits (joined_run tid r) = ru_permits r"
  "ru_breakers (joined_run tid r) = ru_breakers r" "ru_seq (joined_run tid r) = ru_seq r"
  "ru_waiting (joined_run tid r) = ru_waiting r" "ru_phase (joined_run tid r) = ru_phase r"
  "ru_written (joined_run tid r) = ru_written r" "ru_metrics (joined_run tid r) = ru_metrics r"
  "ld_pending (ru_ledger (joined_run tid r)) = ld_pending (ru_ledger r)"
  "ld_ids (ru_ledger (joined_run tid r)) = AList.delete tid (ld_ids (ru_ledger r))"
  "resolved_count (joined_run tid r) = resolved_count r"
  by (simp_all add: joined_run_def resolved_count_def)

lemma worker_inv_joined:
  assumes inv: "worker_inv sw gs cur r" and ph: "ru_phase r \<noteq> Returned"
    and t: "map_of (ru_tasks r) tid = Some t" "\<not> active t"
    and res: "resolves (wt_seq t) p (joined_run tid r) r'"
  shows "worker_inv sw gs cur r'"
proof -
  note e = resolves_keeps [OF res] and p = res [unfolded resolves_def]
  have run_flow: "run_flow r" and pend: "map_of (ld_pending (ru_ledger r)) (wt_seq t) = Some p"
    using inv p by (simp_all add: worker_inv_def)
  have books: "books sw gs cur r'"
    using inv by (simp add: worker_inv_def books_def sealed_books_def e list_all_alist_delete)
  have dist: "distinct (akeys (ru_tasks r))" "distinct (akeys (ld_pending (ru_ledger r)))"
    using run_flow by (simp_all add: run_flow_def)
  let ?f = "\<lambda>(_, t). wt_seq t"
  have "image_mset ?f (add_mset (tid, t) (mset (AList.delete tid (ru_tasks r)))) = image_mset ?f (mset (ru_tasks r))"
    by (simp only: mset_alist_delete [OF dist(1) t(1)])
  then have seqs: "mset (seqs r) = add_mset (wt_seq t) (mset (seqs r'))"
    by (simp add: seqs_def e)
  have "distinct (wt_seq t # seqs r')"
    using run_flow seqs by (metis run_flow_def mset.simps(2) mset_eq_imp_distinct_iff)
  moreover have "set (seqs r) = insert (wt_seq t) (set (seqs r'))"
    using arg_cong [OF seqs, of set_mset] by simp
  ultimately have seqs': "distinct (seqs r')" "set (seqs r') = set (seqs r) - {wt_seq t}" by auto
  have ids: "map_of (ld_ids (ru_ledger r')) = map_of (task_ids r')"
    using run_flow ph by (simp add: run_flow_def task_ids_def e map_of_map fun_eq_iff)
  have len: "Suc (length (ld_pending (ru_ledger r'))) = length (ld_pending (ru_ledger r))"
    using length_alist_delete [OF dist(2) pend] by (simp add: e)
  have run_flow': "run_flow r'"
    using run_flow ph seqs' ids len e(12,13) by (auto simp: run_flow_def e list_all_iff)
  have tok: "task_token t = {#}"
    using t(2) by (auto simp: active_def task_token_def split: task_phase.splits)
  have "tokens_of (ru_tasks r') = tokens_of (ru_tasks r)"
    using sum_alist_delete [OF dist(1) t(1), of "\<lambda>(_, t). task_token t"] tok by (simp add: tokens_of_def e)
  moreover have "active_count (ru_tasks r') = active_count (ru_tasks r)"
    using sum_alist_delete [OF dist(1) t(1), of "\<lambda>(_, t). if active t then 1 else (0::nat)"] t(2)
    by (simp add: active_count_def e)
  ultimately have "crew sw r'"
    using inv by (simp add: worker_inv_def crew_def e list_all_alist_delete)
  with books run_flow' show ?thesis by (simp add: worker_inv_def)
qed

lemma abort_all_ok:
  "breakers_ok n b (tokens_of ts + T) \<Longrightarrow> list_all (task_entry_ok n written) ts \<Longrightarrow>
     \<exists>b'. abort_all ts b = Some b' \<and> breakers_ok n b' T"
proof (induction ts arbitrary: b)
  case (Cons x ts)
  obtain tid t where x: "x = (tid, t)" by fastforce
  have ok: "task_ok n t" and rest: "list_all (task_entry_ok n written) ts"
    and br: "breakers_ok n b (task_token t + (tokens_of ts + T))"
    using Cons.prems by (simp_all add: x task_entry_ok_def tokens_of_def add.assoc)
  show ?case
  proof (cases "active t")
    case True
    obtain t' b1 where die: "task_die t b = Some (t', b1)" using task_die_total [OF True ok br] by auto
    from task_die_ok [OF die ok br] have "breakers_ok n b1 (tokens_of ts + T)"
      by (auto simp: task_step_ok_def)
    from Cons.IH [OF this rest] show ?thesis by (simp add: x True die)
  next
    case False
    then have "task_token t = {#}" by (auto simp: active_def task_token_def split: task_phase.splits)
    with br Cons.IH [OF _ rest] False show ?thesis by (simp add: x)
  qed
qed simp

lemma filter_active_count: "length (filter (\<lambda>(_, t). active t) ts) = active_count ts"
  by (induction ts) (auto simp: active_count_def)

lemma fold_abandon_effect:
  "distinct (akeys (ld_pending (ru_ledger r))) \<Longrightarrow> akeys (ld_pending (ru_ledger r)) = ss \<Longrightarrow>
     fold (\<lambda>s. abandon sw s reason) ss (r, w) = (r', w') \<Longrightarrow>
     same_core r r' \<and> ld_pending (ru_ledger r') = []
     \<and> resolved_count r' = resolved_count r + length (ld_pending (ru_ledger r))
     \<and> (sm_inflight (ru_metrics r) = length (ld_pending (ru_ledger r)) \<longrightarrow> sm_inflight (ru_metrics r') = 0)
     \<and> w' = fold (\<lambda>(_, p). world_drop p) (ld_pending (ru_ledger r)) w"
proof (induction ss arbitrary: r w)
  case Nil
  then show ?case by (simp add: akeys_def same_core_def)
next
  case (Cons s ss)
  then obtain p rest where pend: "ld_pending (ru_ledger r) = (s, p) # rest"
    by (cases "ld_pending (ru_ledger r)") (auto simp: akeys_def)
  obtain r1 w1 where ab: "abandon sw s reason (r, w) = (r1, w1)" by fastforce
  from ab show ?case
  proof (cases rule: abandon_effect)
    case (hit q)
    have q: "q = p" using hit(1) pend by (simp add: resolves_def)
    have "s \<notin> fst ` set rest" using Cons.prems(1) by (simp add: pend akeys_def)
    then have "filter (\<lambda>(k', _). s \<noteq> k') rest = rest" by (force simp: filter_id_conv)
    then have rest: "ld_pending (ru_ledger r1) = rest"
      by (simp add: resolves_keeps [OF hit(1)] pend AList.delete_eq)
    have "fold (\<lambda>s. abandon sw s reason) ss (r1, w1) = (r', w')" using Cons.prems(3) ab by simp
    from Cons.IH [OF _ _ this] Cons.prems(1,2) rest pend hit
    show ?thesis
      by (auto simp: akeys_def resolves_def same_core_def q world_drop_def)
  qed (simp add: pend)
qed

lemma sweep_effect:
  assumes inv: "worker_inv sw gs cur r" and sweep: "sweep sw shut_down (r, w) = Some (r', w')"
  shows "ld_pending (ru_ledger r') = [] \<and> ru_waiting r' = [] \<and> ru_acc r' = ru_acc r \<and> ru_seq r' = ru_seq r
    \<and> ru_written r' = ru_written r \<and> ru_next_id r' = ru_next_id r
    \<and> ru_tasks r' = (if shut_down then [] else ru_tasks r)
    \<and> resolved_count r' = resolved_count r + length (ld_pending (ru_ledger r))
    \<and> sm_inflight (ru_metrics r') = 0 \<and> crew sw r'
    \<and> w' = fold (\<lambda>(_, p). world_drop p) (ld_pending (ru_ledger r)) w"
proof -
  from sweep obtain r0 where r0: "(if shut_down then shutdown_tasks r else Some r) = Some r0"
    by (cases "if shut_down then shutdown_tasks r else Some r") (simp_all add: sweep_def)
  obtain r1 w1 where fold: "fold (\<lambda>s. abandon sw s ''the drain deadline passed before the write finished'')
      (akeys (ld_pending (ru_ledger (r0\<lparr>ru_waiting := []\<rparr>)))) (r0\<lparr>ru_waiting := []\<rparr>, w) = (r1, w1)"
    by fastforce
  have out: "r' = upd_ledger (\<lambda>l. l\<lparr>ld_ids := []\<rparr>) r1" "w' = w1"
    using sweep r0 fold by (auto simp: sweep_def Let_def)
  have keep: "ru_ledger r0 = ru_ledger r" "ru_acc r0 = ru_acc r" "ru_seq r0 = ru_seq r" "ru_written r0 = ru_written r"
    "ru_metrics r0 = ru_metrics r" "ru_next_id r0 = ru_next_id r" "ru_tasks r0 = (if shut_down then [] else ru_tasks r)"
    using r0 by (auto simp: shutdown_tasks_def split: if_splits)
  have crew0: "crew sw r0"
  proof (cases shut_down)
    case True
    from inv obtain b' where b': "abort_all (ru_tasks r) (ru_breakers r) = Some b'" "breakers_ok (sw_endpoints sw) b' {#}"
      using abort_all_ok [of "sw_endpoints sw" "ru_breakers r" "ru_tasks r" "{#}" "ru_written r"]
      by (auto simp: worker_inv_def crew_def)
    with r0 True inv show ?thesis
      by (auto simp: shutdown_tasks_def worker_inv_def crew_def filter_active_count)
  next
    case False
    with r0 inv show ?thesis by (simp add: worker_inv_def)
  qed
  have run_flow: "run_flow r" using inv by (simp add: worker_inv_def)
  from fold_abandon_effect [OF _ refl fold] run_flow
  have e: "same_core (r0\<lparr>ru_waiting := []\<rparr>) r1" "ld_pending (ru_ledger r1) = []"
    "resolved_count r1 = resolved_count (r0\<lparr>ru_waiting := []\<rparr>) + length (ld_pending (ru_ledger r))"
    "sm_inflight (ru_metrics r1) = 0" "w1 = fold (\<lambda>(_, p). world_drop p) (ld_pending (ru_ledger r)) w"
    by (simp_all add: run_flow_def keep)
  have "crew sw r'"
    using crew0 by (rule crew_same) (use e(1) in \<open>simp_all add: out same_core_def\<close>)
  then show ?thesis
    using e keep by (simp add: out same_core_def resolved_count_def)
qed

lemma worker_inv_sweep:
  assumes inv: "worker_inv sw gs cur r" and "run_sweep sw shut_down due (r, w) = Some (r', w')"
  shows "worker_inv sw gs cur r' \<and> ru_phase r' = Returned \<and> cur = [] \<and> ru_written r' = ru_written r
    \<and> w' = fold (\<lambda>(_, p). world_drop p) (ld_pending (ru_ledger r)) w"
proof -
  from assms(2) obtain r1 where ph: "ru_phase r = DrainLoop" and sw: "sweep sw shut_down (r, w) = Some (r1, w')"
    and r': "r' = r1\<lparr>ru_phase := Returned\<rparr>"
    by (auto simp: run_sweep_def split: if_splits)
  note e = sweep_effect [OF inv sw]
  have cur: "cur = []" using inv ph by (simp add: worker_inv_def books_def)
  have "books sw gs cur r'"
    using inv e cur by (auto simp: worker_inv_def books_def sealed_books_def r')
  moreover have "run_flow r'"
    using inv e by (auto simp: worker_inv_def run_flow_def seqs_def task_ids_def resolved_count_def r')
  moreover have "crew sw r'" by (rule crew_same [of sw r1]) (use e in \<open>simp_all add: r'\<close>)
  ultimately show ?thesis using e cur by (simp add: worker_inv_def r')
qed

text \<open>
  The worker takes in \<open>cs\<close>: batches \<open>ext\<close> are sealed from what it had accumulated and them, become
  pending under the next numbers, and \<open>cur'\<close> is left over.
\<close>

definition takes_in ::
  "shard_worker \<Rightarrow> chunk list list \<Rightarrow> chunk list \<Rightarrow> shard_run \<Rightarrow> chunk list
     \<Rightarrow> chunk list list \<Rightarrow> chunk list \<Rightarrow> shard_run \<Rightarrow> bool" where
  "takes_in sw gs cur r cs ext cur' r' \<longleftrightarrow>
     worker_inv sw (gs @ ext) cur' r' \<and> concat ext @ cur' = cur @ cs
     \<and> akeys (ld_pending (ru_ledger r')) = akeys (ld_pending (ru_ledger r)) @ [length gs..<length gs + length ext]
     \<and> (\<exists>ws. ru_written r' = ru_written r @ ws)"

lemma takes_in_refl: "worker_inv sw gs cur r \<Longrightarrow> takes_in sw gs cur r [] [] cur r"
  by (simp add: takes_in_def)

lemma takes_in_trans:
  assumes "takes_in sw gs cur r cs ext cur' r'" and "takes_in sw (gs @ ext) cur' r' cs' ext' cur'' r''"
  shows "takes_in sw gs cur r (cs @ cs') (ext @ ext') cur'' r''"
proof -
  have "concat (ext @ ext') @ cur'' = concat ext @ cur' @ cs'" using assms(2) by (simp add: takes_in_def)
  also have "\<dots> = cur @ cs @ cs'" using assms(1) by (simp add: takes_in_def flip: append_assoc)
  finally have stream: "concat (ext @ ext') @ cur'' = cur @ cs @ cs'" .
  have keys: "[length gs..<length gs + length (ext @ ext')] =
      [length gs..<length gs + length ext] @ [length gs + length ext..<length gs + length ext + length ext']"
    using upt_add_eq_append [of "length gs" "length gs + length ext" "length ext'"] by (simp add: add.assoc)
  obtain ws ws' where "ru_written r' = ru_written r @ ws" "ru_written r'' = ru_written r' @ ws'"
    using assms by (auto simp: takes_in_def)
  then have "\<exists>ws. ru_written r'' = ru_written r @ ws" by simp
  with stream assms show ?thesis
    unfolding takes_in_def keys by (simp del: upt_Suc)
qed

lemma takes_in_same:
  "worker_inv sw gs cur r' \<Longrightarrow> ld_pending (ru_ledger r') = ld_pending (ru_ledger r) \<Longrightarrow>
     ru_written r' = ru_written r @ ws \<Longrightarrow> takes_in sw gs cur r [] [] cur r'"
  by (simp add: takes_in_def)

lemma pending_dispatch:
  assumes "acc_matches cur (ru_acc r)" and "cur \<noteq> []" and "run_flow r"
  shows "akeys (ld_pending (ru_ledger (dispatch sw reason now r))) = akeys (ld_pending (ru_ledger r)) @ [ru_seq r]"
    and "ru_written (dispatch sw reason now r) = ru_written r"
proof -
  have "ru_seq r \<notin> set (akeys (ld_pending (ru_ledger r)))"
    using assms(3) by (auto simp: run_flow_def list_all_iff)
  note up = alist_update_fresh [OF this]
  show "akeys (ld_pending (ru_ledger (dispatch sw reason now r))) = akeys (ld_pending (ru_ledger r)) @ [ru_seq r]"
    by (rule dispatch_cases [OF assms(1,2), of sw reason now]) (simp_all add: up)
  show "ru_written (dispatch sw reason now r) = ru_written r"
    by (rule dispatch_cases [OF assms(1,2), of sw reason now]) simp_all
qed

lemma takes_in_dispatch:
  assumes "sealed_books sw gs r" and "acc_matches cur (ru_acc r)" and "cur = [] \<or> fits sw cur"
    and "run_flow r" and "crew sw r" and "ru_phase r \<noteq> Returned"
  shows "\<exists>ext. takes_in sw gs cur r [] ext [] (dispatch sw reason now r)"
proof (cases "cur = []")
  case True
  then have "acc_is_empty (ru_acc r)" using acc_matches_empty [OF assms(2)] by simp
  with True assms show ?thesis
    by (intro exI [of _ "[]"]) (simp add: dispatch_def takes_in_def worker_inv_def books_def)
next
  case False
  have seq: "length gs = ru_seq r" using assms(1) by (simp add: sealed_books_def)
  have "takes_in sw gs cur r [] [cur] [] (dispatch sw reason now r)"
    using books_dispatch [OF assms(1,2), of reason now] run_flow_dispatch [OF assms(4,6), of sw reason now]
      crew_dispatch [OF assms(5), of reason now] pending_dispatch [OF assms(2) False assms(4), of sw reason now]
      assms(3) False seq
    by (simp add: takes_in_def worker_inv_def)
  then show ?thesis ..
qed

lemma takes_in_chunk:
  assumes "worker_inv sw gs cur r" and "ru_phase r = IntakeLoop \<or> ru_phase r = DrainQueue"
  shows "\<exists>ext cur'. takes_in sw gs cur r [c] ext cur' (take_chunk sw now c r)
    \<and> ru_phase (take_chunk sw now c r) = ru_phase r"
proof -
  let ?r = "r\<lparr>ru_acc := acc_push c now (ru_acc r)\<rparr>"
  have inv: "sealed_books sw gs ?r" "acc_matches (cur @ [c]) (ru_acc ?r)" "cur = [] \<or> below sw cur"
    "run_flow r" "crew sw r" using assms(1) by (auto simp: worker_inv_def books_def sealed_books_def acc_matches_push)
  have fc: "run_flow ?r" "crew sw ?r" by (rule run_flow_same [OF inv(4)], simp_all) (rule crew_same [OF inv(5)], simp_all)
  have ph: "ru_phase (take_chunk sw now c r) = ru_phase r"
    using run_flow_take_chunk [OF inv(4), of sw now c] assms(2) by auto
  show ?thesis
  proof (cases "seal_reason sw (ru_acc ?r)")
    case None
    then have "below sw (cur @ [c])" using seal_reason_below [OF inv(2)] by simp
    then have "takes_in sw gs cur r [c] [] (cur @ [c]) (take_chunk sw now c r)"
      using inv fc None assms(2) by (auto simp: takes_in_def worker_inv_def books_def take_chunk_def Let_def)
    with ph show ?thesis by blast
  next
    case (Some reason)
    have "fits sw (cur @ [c])" using inv(3) by (simp add: fits_def)
    with takes_in_dispatch [OF inv(1,2) _ fc, of reason now] assms(2) Some obtain ext
      where "takes_in sw gs (cur @ [c]) ?r [] ext [] (take_chunk sw now c r)"
      by (auto simp: take_chunk_def Let_def)
    then have "takes_in sw gs cur r [c] ext [] (take_chunk sw now c r)" by (simp add: takes_in_def)
    with ph show ?thesis by blast
  qed
qed

lemma takes_in_chunks:
  "worker_inv sw gs cur r \<Longrightarrow> ru_phase r = IntakeLoop \<or> ru_phase r = DrainQueue \<Longrightarrow>
     \<exists>ext cur'. takes_in sw gs cur r cs ext cur' (fold (take_chunk sw now) cs r)"
proof (induction cs arbitrary: gs cur r)
  case Nil
  then show ?case using takes_in_refl by fastforce
next
  case (Cons c cs)
  from takes_in_chunk [OF Cons.prems, of c now] obtain ext cur'
    where 1: "takes_in sw gs cur r [c] ext cur' (take_chunk sw now c r)"
      "ru_phase (take_chunk sw now c r) = ru_phase r" by blast
  then have "worker_inv sw (gs @ ext) cur' (take_chunk sw now c r)" by (simp add: takes_in_def)
  from Cons.IH [OF this] 1(2) Cons.prems(2) obtain ext2 cur2
    where "takes_in sw (gs @ ext) cur' (take_chunk sw now c r) cs ext2 cur2 (fold (take_chunk sw now) cs (take_chunk sw now c r))"
    by auto
  from takes_in_trans [OF 1(1) this] show ?case by auto
qed

lemma worker_inv_phase:
  assumes "worker_inv sw gs cur r" and "ru_phase r = IntakeLoop" and "ph = DrainQueue"
  shows "worker_inv sw gs cur (r\<lparr>ru_phase := ph\<rparr>)"
proof -
  have "run_flow (r\<lparr>ru_phase := ph\<rparr>)"
    by (rule run_flow_same [of r]) (use assms in \<open>simp_all add: worker_inv_def\<close>)
  moreover have "crew sw (r\<lparr>ru_phase := ph\<rparr>)"
    by (rule crew_same [of sw r]) (use assms in \<open>simp_all add: worker_inv_def\<close>)
  ultimately show ?thesis using assms by (simp add: worker_inv_def books_def sealed_books_def)
qed

lemma worker_inv_same:
  assumes "worker_inv sw gs cur r" and "ru_ledger r' = ru_ledger r" and "ru_tasks r' = ru_tasks r"
    and "ru_waiting r' = ru_waiting r" and "ru_next_id r' = ru_next_id r" and "ru_seq r' = ru_seq r"
    and "ru_metrics r' = ru_metrics r" and "ru_phase r' = ru_phase r" and "ru_permits r' = ru_permits r"
    and "ru_written r' = ru_written r" and "ru_breakers r' = ru_breakers r" and "ru_acc r' = ru_acc r"
  shows "worker_inv sw gs cur r'"
proof -
  have "run_flow r'" by (rule run_flow_same [of r]) (use assms in \<open>simp_all add: worker_inv_def\<close>)
  moreover have "crew sw r'" by (rule crew_same [of sw r]) (use assms in \<open>simp_all add: worker_inv_def\<close>)
  ultimately show ?thesis using assms by (simp add: worker_inv_def books_def sealed_books_def)
qed

lemma takes_in_force_seal:
  assumes inv: "worker_inv sw gs cur r" and "run_force_seal sw now r = Some r'"
  shows "\<exists>ext. takes_in sw gs cur r [] ext [] r'"
proof -
  from assms(2) have ph: "ru_phase r = DrainQueue" and r': "r' = (dispatch sw Drain now r)\<lparr>ru_phase := DrainLoop\<rparr>"
    by (auto simp: run_force_seal_def split: if_splits)
  have parts: "sealed_books sw gs r" "acc_matches cur (ru_acc r)" "cur = [] \<or> fits sw cur" "run_flow r" "crew sw r"
    using inv by (auto simp: worker_inv_def books_def fits_def below_butlast)
  from takes_in_dispatch [OF parts] ph obtain ext where d: "takes_in sw gs cur r [] ext [] (dispatch sw Drain now r)"
    by auto
  have dph: "ru_phase (dispatch sw Drain now r) = DrainQueue"
    using run_flow_dispatch [OF parts(4), of sw Drain now] ph by simp
  have "run_flow r'" unfolding r'
    by (rule run_flow_same [of "dispatch sw Drain now r"]) (use d dph in \<open>simp_all add: takes_in_def worker_inv_def\<close>)
  moreover have "crew sw r'" unfolding r'
    by (rule crew_same [of sw "dispatch sw Drain now r"]) (use d in \<open>simp_all add: takes_in_def worker_inv_def\<close>)
  ultimately have "takes_in sw gs cur r [] ext [] r'"
    using d by (simp add: takes_in_def worker_inv_def books_def sealed_books_def r')
  then show ?thesis ..
qed

lemma takes_in_linger:
  assumes inv: "worker_inv sw gs cur r" and "run_linger sw now r = Some r'"
  shows "\<exists>ext. takes_in sw gs cur r [] ext [] r'"
proof -
  from assms(2) have ph: "ru_phase r = IntakeLoop" and r': "r' = dispatch sw Linger now r"
    by (auto simp: run_linger_def split: option.splits if_splits)
  have "sealed_books sw gs r" "acc_matches cur (ru_acc r)" "cur = [] \<or> fits sw cur" "run_flow r" "crew sw r"
    using inv by (auto simp: worker_inv_def books_def fits_def below_butlast)
  from takes_in_dispatch [OF this] ph r' show ?thesis by auto
qed

lemma worker_inv_all_done:
  assumes inv: "worker_inv sw gs cur r" and "run_all_done r = Some r'"
  shows "worker_inv sw gs cur r' \<and> cur = [] \<and> ld_pending (ru_ledger r') = ld_pending (ru_ledger r)
    \<and> ru_written r' = ru_written r"
proof -
  from assms(2) have e: "ru_phase r = DrainLoop" "ru_tasks r = []" "ru_waiting r = []" "r' = r\<lparr>ru_phase := Returned\<rparr>"
    by (auto simp: run_all_done_def split: if_splits)
  have "set (akeys (ld_pending (ru_ledger r))) = {}"
    using inv e by (auto simp: worker_inv_def run_flow_def seqs_def)
  then have "ld_pending (ru_ledger r) = []" by (simp add: akeys_def)
  then have "run_flow r'" using inv e by (auto simp: worker_inv_def run_flow_def seqs_def task_ids_def resolved_count_def)
  moreover have "crew sw r'"
    by (rule crew_same [of sw r]) (use inv e in \<open>simp_all add: worker_inv_def\<close>)
  ultimately show ?thesis using inv e by (auto simp: worker_inv_def books_def sealed_books_def)
qed

lemma run_permit_frame:
  "run_permit sw r = Some r' \<Longrightarrow> ld_pending (ru_ledger r') = ld_pending (ru_ledger r) \<and> ru_written r' = ru_written r"
  by (auto simp: run_permit_def try_acquire_def launch_waiting_def split: if_splits list.splits)

lemma set_task_frame [simp]:
  "ru_ledger (set_task tid t b r) = ru_ledger r" "ru_written (set_task tid t b r) = ru_written r"
  by (simp_all add: set_task_def)

lemma task_event_frame:
  assumes step: "local_step sw now e r = Some r'"
    and "e = TaskPick tid \<or> e = TaskWake tid \<or> e = TaskOutcome tid out \<or> e = TaskDie tid"
  shows "ld_pending (ru_ledger r') = ld_pending (ru_ledger r) \<and> (\<exists>ws. ru_written r' = ru_written r @ ws)"
  using assms(2)
proof (elim disjE)
  assume "e = TaskPick tid"
  with step show ?thesis by (auto simp: local_step_def with_task_def bind_eq_Some_conv)
next
  assume "e = TaskWake tid"
  with step show ?thesis by (auto simp: local_step_def with_task_def bind_eq_Some_conv)
next
  assume "e = TaskDie tid"
  with step show ?thesis by (auto simp: local_step_def with_task_def bind_eq_Some_conv)
next
  assume "e = TaskOutcome tid out"
  with step obtain a t' b where "r' = (let r = upd_sink_metrics (attempt_metrics a) (set_task tid t' b r)
      in if a = AttemptOk then r\<lparr>ru_written := ru_written r @ [wt_batch t']\<rparr> else r)"
    by (auto simp: local_step_def with_task_def run_task_outcome_def bind_eq_Some_conv)
  then show ?thesis by (simp add: Let_def)
qed

lemma local_step_takes_in:
  assumes inv: "worker_inv sw gs cur r" and rnd: "rounds (sw_rnd sw)" and e: "local_step sw now e r = Some r'"
  shows "\<exists>ext cur'. takes_in sw gs cur r (taken e) ext cur' r'"
proof -
  have stay: ?thesis if "worker_inv sw gs cur r'" "ld_pending (ru_ledger r') = ld_pending (ru_ledger r)"
      "ru_written r' = ru_written r @ ws" "taken e = []" for ws
    using takes_in_same [OF that(1,2,3)] that(4) by auto
  show ?thesis
  proof (cases e)
    case PermitFree
    then have p: "run_permit sw r = Some r'" using e by (simp add: local_step_def)
    from stay [of "[]"] worker_inv_launch [OF inv p] run_permit_frame [OF p] PermitFree show ?thesis by simp
  next
    case (Received cs)
    with e have "ru_phase r = IntakeLoop" "r' = fold (take_chunk sw now) cs r"
      by (auto simp: local_step_def run_recv_def split: if_splits)
    with takes_in_chunks [OF inv, of cs now] Received show ?thesis by auto
  next
    case QueueClosed
    with e have r': "r' = r\<lparr>ru_phase := DrainQueue\<rparr>" "ru_phase r = IntakeLoop"
      by (auto simp: local_step_def run_closed_def split: if_splits)
    from worker_inv_phase [OF inv r'(2) refl] stay [of "[]"] QueueClosed show ?thesis by (simp add: r'(1))
  next
    case DeadlineSeen
    let ?r = "r\<lparr>ru_watch_news := False\<rparr>"
    have same: "worker_inv sw gs cur ?r" by (rule worker_inv_same [OF inv]) simp_all
    from DeadlineSeen e have "r' = ?r \<or> r' = ?r\<lparr>ru_phase := DrainQueue\<rparr> \<and> ru_phase ?r = IntakeLoop"
      by (auto simp: local_step_def run_deadline_seen_def Let_def split: if_splits)
    with same worker_inv_phase [OF same _ refl] stay [of "[]"] DeadlineSeen show ?thesis by auto
  next
    case WatchGone
    with e have r': "r' = r\<lparr>ru_deadline_watch_live := False\<rparr>"
      by (auto simp: local_step_def run_watch_gone_def split: if_splits)
    have "worker_inv sw gs cur r'" unfolding r' by (rule worker_inv_same [OF inv]) simp_all
    with stay [of "[]"] WatchGone show ?thesis by (simp add: r')
  next
    case LingerFired
    with e have "run_linger sw now r = Some r'" by (simp add: local_step_def)
    from takes_in_linger [OF inv this] LingerFired show ?thesis by auto
  next
    case (TryReceived c)
    with e have "ru_phase r = DrainQueue" "r' = take_chunk sw now c r"
      by (auto simp: local_step_def run_try_recv_def split: if_splits)
    with takes_in_chunk [OF inv, of c now] TryReceived show ?thesis by auto
  next
    case QueueEmpty
    with e have "run_force_seal sw now r = Some r'" by (simp add: local_step_def)
    from takes_in_force_seal [OF inv this] QueueEmpty show ?thesis by auto
  next
    case AllDone
    with e have "run_all_done r = Some r'" by (simp add: local_step_def)
    from worker_inv_all_done [OF inv this] stay [of "[]"] AllDone show ?thesis by auto
  next
    case (Publish d)
    with e have r': "r' = r\<lparr>ru_watch := d, ru_watch_news := True\<rparr>" by (auto simp: local_step_def split: if_splits)
    have "worker_inv sw gs cur r'" unfolding r' by (rule worker_inv_same [OF inv]) simp_all
    with stay [of "[]"] Publish show ?thesis by (simp add: r')
  next
    case DropSender
    with e have r': "r' = r\<lparr>ru_watch_open := False\<rparr>" by (auto simp: local_step_def split: if_splits)
    have "worker_inv sw gs cur r'" unfolding r' by (rule worker_inv_same [OF inv]) simp_all
    with stay [of "[]"] DropSender show ?thesis by (simp add: r')
  qed (use e worker_inv_task_event [OF inv rnd e] task_event_frame [OF e] stay in
      \<open>simp_all add: local_step_def, blast+\<close>)
qed

section \<open>Acknowledgments and budget\<close>

text \<open>
  The handles and bytes the worker is responsible for: those of the batch it accumulates and of
  the batches that are pending.
\<close>

definition held_acks :: "chunk list list \<Rightarrow> chunk list \<Rightarrow> shard_run \<Rightarrow> ack_ref multiset" where
  "held_acks gs cur r = mset (acks_of cur) + (\<Sum>i\<leftarrow>akeys (ld_pending (ru_ledger r)). mset (acks_of (gs ! i)))"

definition held_bytes :: "chunk list list \<Rightarrow> chunk list \<Rightarrow> shard_run \<Rightarrow> nat" where
  "held_bytes gs cur r = bytes_of cur + (\<Sum>i\<leftarrow>akeys (ld_pending (ru_ledger r)). bytes_of (gs ! i))"

text \<open>A batch that is no longer pending was written, or its acknowledgments failed.\<close>

definition settled :: "shard_worker \<Rightarrow> chunk list list \<Rightarrow> shard_run \<Rightarrow> ack_heap \<Rightarrow> bool" where
  "settled sw gs r h \<longleftrightarrow> (\<forall>i < length gs. i \<notin> set (akeys (ld_pending (ru_ledger r))) \<longrightarrow>
     batch_of sw i (gs ! i) \<in> set (ru_written r) \<or> (\<forall>a \<in> set (acks_of (gs ! i)). ack_failed h a))"

definition world_inv ::
  "shard_worker \<Rightarrow> chunk list list \<Rightarrow> chunk list \<Rightarrow> ack_ref multiset \<Rightarrow> nat \<Rightarrow> shard_run \<times> 'q world \<Rightarrow> bool" where
  "world_inv sw gs cur F B = (\<lambda>(r, w).
     heap_ok (w_heap w) (held_acks gs cur r + F) \<and> settled sw gs r (w_heap w)
     \<and> w_budget w = held_bytes gs cur r + B)"

lemma acks_of_concat: "mset (acks_of (concat gs)) = (\<Sum>g\<leftarrow>gs. mset (acks_of g))"
  by (induction gs) simp_all

lemma bytes_of_concat: "bytes_of (concat gs) = (\<Sum>g\<leftarrow>gs. bytes_of g)"
  by (induction gs) simp_all

lemma sum_nth_append:
  fixes f :: "'a \<Rightarrow> 'm::comm_monoid_add"
  assumes "\<forall>i \<in> set ks. i < length gs"
  shows "(\<Sum>i\<leftarrow>ks @ [length gs..<length gs + length ext]. f ((gs @ ext) ! i)) = (\<Sum>i\<leftarrow>ks. f (gs ! i)) + (\<Sum>g\<leftarrow>ext. f g)"
proof -
  have "map (\<lambda>i. f ((gs @ ext) ! i)) ks = map (\<lambda>i. f (gs ! i)) ks"
    using assms by (auto simp: nth_append)
  moreover have "map (\<lambda>i. f ((gs @ ext) ! i)) [length gs..<length gs + length ext] = map f ext"
    by (rule nth_equalityI) (simp_all add: nth_append)
  ultimately show ?thesis by (simp only: map_append sum_list_append)
qed

lemma takes_in_held:
  assumes "takes_in sw gs cur r cs ext cur' r'" and "worker_inv sw gs cur r"
  shows "held_acks (gs @ ext) cur' r' = held_acks gs cur r + mset (acks_of cs)"
    and "held_bytes (gs @ ext) cur' r' = held_bytes gs cur r + bytes_of cs"
proof -
  let ?ks = "akeys (ld_pending (ru_ledger r))"
  have lt: "\<forall>i \<in> set ?ks. i < length gs"
    using assms(2) by (auto simp: worker_inv_def books_def sealed_books_def run_flow_def list_all_iff)
  have keys: "akeys (ld_pending (ru_ledger r')) = ?ks @ [length gs..<length gs + length ext]"
    and stream: "concat ext @ cur' = cur @ cs" using assms(1) by (simp_all add: takes_in_def)
  have "held_acks (gs @ ext) cur' r' = (\<Sum>i\<leftarrow>?ks. mset (acks_of (gs ! i))) + mset (acks_of (concat ext @ cur'))"
    unfolding held_acks_def keys sum_nth_append [OF lt, of "\<lambda>g. mset (acks_of g)"]
    by (simp add: acks_of_concat ac_simps)
  then show "held_acks (gs @ ext) cur' r' = held_acks gs cur r + mset (acks_of cs)"
    unfolding stream by (simp add: held_acks_def ac_simps)
  have "held_bytes (gs @ ext) cur' r' = (\<Sum>i\<leftarrow>?ks. bytes_of (gs ! i)) + bytes_of (concat ext @ cur')"
    unfolding held_bytes_def keys sum_nth_append [OF lt, of bytes_of] by (simp add: bytes_of_concat)
  then show "held_bytes (gs @ ext) cur' r' = held_bytes gs cur r + bytes_of cs"
    unfolding stream by (simp add: held_bytes_def)
qed

lemma takes_in_settled:
  assumes "takes_in sw gs cur r cs ext cur' r'" and "settled sw gs r h"
  shows "settled sw (gs @ ext) r' h"
proof -
  have keys: "set (akeys (ld_pending (ru_ledger r'))) =
      set (akeys (ld_pending (ru_ledger r))) \<union> {length gs..<length gs + length ext}"
    using assms(1) by (simp add: takes_in_def)
  obtain ws where ws: "ru_written r' = ru_written r @ ws" using assms(1) by (auto simp: takes_in_def)
  show ?thesis
    unfolding settled_def
  proof (intro allI impI)
    fix i assume i: "i < length (gs @ ext)" "i \<notin> set (akeys (ld_pending (ru_ledger r')))"
    then have "i < length gs" "i \<notin> set (akeys (ld_pending (ru_ledger r)))" using keys by auto
    with assms(2) show "batch_of sw i ((gs @ ext) ! i) \<in> set (ru_written r')
        \<or> (\<forall>a \<in> set (acks_of ((gs @ ext) ! i)). ack_failed h a)"
      by (auto simp: settled_def nth_append ws)
  qed
qed

text \<open>Resolving a batch gives up its handles and its bytes.\<close>

lemma held_delete:
  assumes inv: "worker_inv sw gs cur r" and p: "map_of (ld_pending (ru_ledger r)) s = Some p"
    and r': "ld_pending (ru_ledger r') = AList.delete s (ld_pending (ru_ledger r))"
  shows "held_acks gs cur r = mset (pe_acks p) + held_acks gs cur r'"
    and "held_bytes gs cur r = held_bytes gs cur r' + pe_bytes p"
    and "pe_acks p = acks_of (gs ! s)"
proof -
  have "list_all (entry_books gs) (ld_pending (ru_ledger r))"
    using inv by (simp add: worker_inv_def books_def sealed_books_def)
  from list_all_map_of [OF this p] have "entry_books gs (s, p)" .
  then have m: "pe_acks p = acks_of (gs ! s)" "pe_bytes p = bytes_of (gs ! s)"
    by (simp_all add: entry_books_def pending_matches_def)
  show "pe_acks p = acks_of (gs ! s)" by (rule m(1))
  have dist: "distinct (akeys (ld_pending (ru_ledger r)))" using inv by (simp add: worker_inv_def run_flow_def)
  show "held_acks gs cur r = mset (pe_acks p) + held_acks gs cur r'"
    using sum_alist_delete [OF dist p, of "\<lambda>x. mset (acks_of (gs ! fst x))"]
    by (simp add: held_acks_def r' m akeys_def comp_def ac_simps)
  show "held_bytes gs cur r = held_bytes gs cur r' + pe_bytes p"
    using sum_alist_delete [OF dist p, of "\<lambda>x. bytes_of (gs ! fst x)"]
    by (simp add: held_bytes_def r' m akeys_def comp_def)
qed

lemma settled_mono:
  "settled sw gs r h \<Longrightarrow> heap_le h h' \<Longrightarrow> settled sw gs r h'"
  unfolding settled_def using heap_le_failed by blast

lemma ackset_drop_all_failed:
  assumes "heap_ok h (mset s + F)" and "a \<in> set s"
  shows "ack_failed (ackset_drop s h) a"
  using heap_ok_live [OF assms(1), of a] assms(2) by (simp add: ack_failed_ackset_drop)

lemma budget_sub_exact [simp]: "budget_sub n (m + n + k) = m + k"
  by (simp add: budget_sub_def sat_sub_def)

lemma world_inv_drop:
  assumes inv: "worker_inv sw gs cur r" and world: "world_inv sw gs cur F B (r, w)"
    and p: "map_of (ld_pending (ru_ledger r)) s = Some p"
    and r': "ld_pending (ru_ledger r') = AList.delete s (ld_pending (ru_ledger r))" "ru_written r' = ru_written r"
  shows "world_inv sw gs cur F B (r', world_drop p w) \<and> heap_moves (w_heap w) (w_heap (world_drop p w))"
proof -
  note h = held_delete [OF inv p r'(1)]
  have ok: "heap_ok (w_heap w) (mset (pe_acks p) + (held_acks gs cur r' + F))"
    using world h(1) by (simp add: world_inv_def add.assoc)
  have le: "heap_moves (w_heap w) (ackset_drop (pe_acks p) (w_heap w))" by (rule heap_moves_ackset_drop [OF ok])
  have old: "settled sw gs r (ackset_drop (pe_acks p) (w_heap w))"
    by (rule settled_mono [OF _ heap_moves_le [OF le]]) (use world in \<open>simp add: world_inv_def\<close>)
  have "settled sw gs r' (ackset_drop (pe_acks p) (w_heap w))"
    unfolding settled_def
  proof (intro allI impI)
    fix i assume i: "i < length gs" "i \<notin> set (akeys (ld_pending (ru_ledger r')))"
    show "batch_of sw i (gs ! i) \<in> set (ru_written r')
      \<or> (\<forall>a \<in> set (acks_of (gs ! i)). ack_failed (ackset_drop (pe_acks p) (w_heap w)) a)"
    proof (cases "i = s")
      case True
      with h(3) ackset_drop_all_failed [OF ok] show ?thesis by simp
    next
      case False
      with i old show ?thesis by (simp add: settled_def r')
    qed
  qed
  with le heap_ok_ackset_drop [OF ok] world h(2) show ?thesis
    by (simp add: world_inv_def world_drop_def)
qed

lemma world_inv_deliver:
  assumes inv: "worker_inv sw gs cur r" and world: "world_inv sw gs cur F B (r, w)"
    and p: "map_of (ld_pending (ru_ledger r)) s = Some p" and s: "batch_of sw s (gs ! s) \<in> set (ru_written r)"
    and r': "ld_pending (ru_ledger r') = AList.delete s (ld_pending (ru_ledger r))" "ru_written r' = ru_written r"
  shows "world_inv sw gs cur F B (r', world_deliver p w) \<and> heap_moves (w_heap w) (w_heap (world_deliver p w))"
proof -
  note h = held_delete [OF inv p r'(1)]
  have ok: "heap_ok (w_heap w) (mset (pe_acks p) + (held_acks gs cur r' + F))"
    using world h(1) by (simp add: world_inv_def add.assoc)
  have "settled sw gs r' (ackset_deliver (pe_acks p) (w_heap w))"
    using world s by (auto simp: world_inv_def settled_def r')
  with heap_moves_deliver [OF ok] heap_ok_deliver [OF ok] world h(2) show ?thesis
    by (simp add: world_inv_def world_deliver_def)
qed

lemma fold_world_drop:
  fixes w :: "'q world"
  defines "drop_all \<equiv> fold (\<lambda>(_ :: nat, p). world_drop p)"
  shows "heap_ok (w_heap w) ((\<Sum>(_, p)\<leftarrow>ps. mset (pe_acks p)) + F) \<Longrightarrow>
      w_budget w = (\<Sum>(_, p)\<leftarrow>ps. pe_bytes p) + B \<Longrightarrow>
     heap_ok (w_heap (drop_all ps w)) F \<and> heap_moves (w_heap w) (w_heap (drop_all ps w))
     \<and> w_budget (drop_all ps w) = B \<and> w_now (drop_all ps w) = w_now w
     \<and> (\<forall>(i, p) \<in> set ps. \<forall>a \<in> set (pe_acks p). ack_failed (w_heap (drop_all ps w)) a)"
proof (induction ps arbitrary: w)
  case Nil
  then show ?case by (simp add: drop_all_def)
next
  case (Cons x ps)
  obtain i p where x: "x = (i, p)" by fastforce
  let ?w = "world_drop p w"
  have ok: "heap_ok (w_heap w) (mset (pe_acks p) + ((\<Sum>(_, p)\<leftarrow>ps. mset (pe_acks p)) + F))"
    using Cons.prems(1) by (simp add: x add.assoc)
  have w1: "heap_ok (w_heap ?w) ((\<Sum>(_, p)\<leftarrow>ps. mset (pe_acks p)) + F)"
      "w_budget ?w = (\<Sum>(_, p)\<leftarrow>ps. pe_bytes p) + B" "heap_moves (w_heap w) (w_heap ?w)"
    using heap_ok_ackset_drop [OF ok] heap_moves_ackset_drop [OF ok] Cons.prems(2)
    by (simp_all add: world_drop_def x budget_sub_def sat_sub_def)
  have "\<forall>a \<in> set (pe_acks p). ack_failed (w_heap ?w) a"
    using ackset_drop_all_failed [OF ok] by (simp add: world_drop_def)
  moreover have "drop_all (x # ps) w = drop_all ps ?w" "w_now ?w = w_now w"
    by (simp_all add: drop_all_def x world_drop_def)
  ultimately show ?case
    using Cons.IH [OF w1(1,2)] w1(3) heap_le_failed [OF heap_moves_le] heap_moves_trans
    by (auto simp: x)
qed

lemma held_pending:
  assumes "worker_inv sw gs cur r"
  shows "(\<Sum>(_, p)\<leftarrow>ld_pending (ru_ledger r). mset (pe_acks p)) = held_acks gs [] r"
    and "(\<Sum>(_, p)\<leftarrow>ld_pending (ru_ledger r). pe_bytes p) = held_bytes gs [] r"
proof -
  have all: "list_all (entry_books gs) (ld_pending (ru_ledger r))"
    using assms by (simp add: worker_inv_def books_def sealed_books_def)
  have "map (\<lambda>(_, p). mset (pe_acks p)) (ld_pending (ru_ledger r)) = map (\<lambda>i. mset (acks_of (gs ! i))) (akeys (ld_pending (ru_ledger r)))"
    "map (\<lambda>(_, p). pe_bytes p) (ld_pending (ru_ledger r)) = map (\<lambda>i. bytes_of (gs ! i)) (akeys (ld_pending (ru_ledger r)))"
    using all by (auto simp: akeys_def list_all_iff entry_books_def pending_matches_def)
  then show "(\<Sum>(_, p)\<leftarrow>ld_pending (ru_ledger r). mset (pe_acks p)) = held_acks gs [] r"
    "(\<Sum>(_, p)\<leftarrow>ld_pending (ru_ledger r). pe_bytes p) = held_bytes gs [] r"
    by (simp_all add: held_acks_def held_bytes_def)
qed

lemma world_inv_sweep:
  assumes inv: "worker_inv sw gs cur r" and world: "world_inv sw gs cur F B (r, w)"
    and sweep: "run_sweep sw shut_down due (r, w) = Some (r', w')"
  shows "world_inv sw gs cur F B (r', w') \<and> heap_moves (w_heap w) (w_heap w')"
proof -
  note e = worker_inv_sweep [OF inv sweep]
  have cur: "cur = []" and w': "w' = fold (\<lambda>(_, p). world_drop p) (ld_pending (ru_ledger r)) w" using e by simp_all
  have pre: "heap_ok (w_heap w) ((\<Sum>(_, p)\<leftarrow>ld_pending (ru_ledger r). mset (pe_acks p)) + F)"
    "w_budget w = (\<Sum>(_, p)\<leftarrow>ld_pending (ru_ledger r). pe_bytes p) + B"
    using world by (simp_all add: world_inv_def held_pending [OF inv] cur)
  note d = fold_world_drop [OF pre, folded w']
  have none: "ld_pending (ru_ledger r') = []" using e by (simp add: worker_inv_def run_flow_def)
  have wr: "ru_written r' = ru_written r" using e by simp
  have old: "settled sw gs r (w_heap w')"
    by (rule settled_mono [of _ _ _ "w_heap w"]) (use world d in \<open>simp_all add: world_inv_def heap_moves_le\<close>)
  have "settled sw gs r' (w_heap w')"
    unfolding settled_def
  proof (intro allI impI)
    fix i assume i: "i < length gs"
    show "batch_of sw i (gs ! i) \<in> set (ru_written r') \<or> (\<forall>a \<in> set (acks_of (gs ! i)). ack_failed (w_heap w') a)"
    proof (cases "map_of (ld_pending (ru_ledger r)) i")
      case None
      then have "i \<notin> set (akeys (ld_pending (ru_ledger r)))" by (simp add: map_of_None_iff)
      with i old show ?thesis by (simp add: settled_def wr)
    next
      case (Some p)
      have "pe_acks p = acks_of (gs ! i)" by (rule held_delete(3) [OF inv Some, where r' = "upd_ledger
        (\<lambda>l. l\<lparr>ld_pending := AList.delete i (ld_pending l)\<rparr>) r"]) simp
      moreover have "\<forall>a \<in> set (pe_acks p). ack_failed (w_heap w') a"
        using d map_of_SomeD [OF Some] by fast
      ultimately show ?thesis by simp
    qed
  qed
  then show ?thesis
    using d none by (simp add: world_inv_def held_acks_def held_bytes_def cur)
qed

section \<open>Runs\<close>

lemma worker_step_local:
  "(\<exists>tid msg. e = Joined tid msg) \<or> (\<exists>b. e = PoolGone b) \<or> (\<exists>b. e = DeadlineReached b) \<or> (\<exists>t. e = Advance t)
   \<or> worker_step sw e (r, w) = map_option (\<lambda>r. (r, w)) (local_step sw (w_now w) e r)"
  by (cases e) (simp_all add: worker_step_def)

lemma worker_step_cases:
  assumes "worker_step sw e (r, w) = Some (r', w')"
  obtains (join) tid msg where "e = Joined tid msg" "run_join sw tid msg (r, w) = Some (r', w')"
  | (sweep) b due where "taken e = []" "run_sweep sw b due (r, w) = Some (r', w')"
  | (advance) t where "e = Advance t" "r' = r" "w' = w\<lparr>w_now := t\<rparr>" "w_now w \<le> t"
  | (loc) "local_step sw (w_now w) e r = Some r'" "w' = w"
proof -
  consider tid msg where "e = Joined tid msg" | b where "e = PoolGone b" | b where "e = DeadlineReached b"
    | t where "e = Advance t"
    | "worker_step sw e (r, w) = map_option (\<lambda>r. (r, w)) (local_step sw (w_now w) e r)"
    using worker_step_local [of e sw r w] by (elim disjE exE) simp_all
  then show thesis
  proof cases
  case (1 tid msg)
  show thesis by (rule join [OF 1]) (use assms 1 in \<open>simp add: worker_step_def\<close>)
next
  case (2 b)
  show thesis by (rule sweep) (use assms 2 in \<open>simp_all add: worker_step_def\<close>)
next
  case (3 b)
  show thesis by (rule sweep) (use assms 3 in \<open>simp_all add: worker_step_def\<close>)
next
  case (4 t)
  show thesis by (rule advance [OF 4]) (use assms 4 in \<open>auto simp: worker_step_def split: if_splits\<close>)
next
  case 5
  show thesis by (rule loc) (use assms 5 in auto)
qed
qed

lemma worker_step_ok:
  assumes inv: "worker_inv sw gs cur r" and rnd: "rounds (sw_rnd sw)"
    and world: "world_inv sw gs cur (mset (acks_of (taken e)) + F) (bytes_of (taken e) + B) (r, w)"
    and step: "worker_step sw e (r, w) = Some (r', w')"
  shows "\<exists>ext cur'. worker_inv sw (gs @ ext) cur' r' \<and> world_inv sw (gs @ ext) cur' F B (r', w')
    \<and> concat ext @ cur' = cur @ taken e \<and> heap_moves (w_heap w) (w_heap w')"
proof -
  have local: ?thesis if l: "local_step sw (w_now w) e r = Some r'" and w': "w' = w"
  proof -
    obtain ext cur' where t: "takes_in sw gs cur r (taken e) ext cur' r'"
      using local_step_takes_in [OF inv rnd l] by blast
    have "world_inv sw (gs @ ext) cur' F B (r', w')"
      using world takes_in_held [OF t inv] takes_in_settled [OF t] w'
      by (simp add: world_inv_def ac_simps)
    moreover have "worker_inv sw (gs @ ext) cur' r'" "concat ext @ cur' = cur @ taken e"
      using t by (simp_all add: takes_in_def)
    ultimately show ?thesis using w' by auto
  qed
  have stay: ?thesis if "worker_inv sw gs cur r'" "world_inv sw gs cur F B (r', w')"
      "heap_moves (w_heap w) (w_heap w')" "taken e = []"
    using that by (intro exI [of _ "[]"] exI [of _ cur]) simp
  have swept: ?thesis if "run_sweep sw b due (r, w) = Some (r', w')" "taken e = []" for b due
  proof -
    have "world_inv sw gs cur F B (r, w)" using world that(2) by simp
    from stay conjunct1 [OF worker_inv_sweep [OF inv that(1)]] world_inv_sweep [OF inv this that(1)] that(2)
    show ?thesis by blast
  qed
  from step show ?thesis
  proof (cases rule: worker_step_cases)
    case (join tid msg)
    have te: "taken e = []" using join(1) by simp
    from inv join(2) show ?thesis
    proof (cases rule: join_effect)
      case (res t p)
      note k = resolves_keeps [OF res(4)]
      have p: "map_of (ld_pending (ru_ledger r)) (wt_seq t) = Some p"
        using res(4) by (simp add: resolves_def)
      have r': "ld_pending (ru_ledger r') = AList.delete (wt_seq t) (ld_pending (ru_ledger r))"
        "ru_written r' = ru_written r" using k by simp_all
      have world0: "world_inv sw gs cur F B (r, w)" using world te by simp
      have "list_all (task_books sw gs) (ru_tasks r)"
        using inv by (simp add: worker_inv_def books_def sealed_books_def)
      from list_all_map_of [OF this res(2)] have tb: "wt_batch t = batch_of sw (wt_seq t) (gs ! wt_seq t)"
        by (simp add: task_books_def)
      have "world_inv sw gs cur F B (r', w') \<and> heap_moves (w_heap w) (w_heap w')"
        using res(5)
      proof (elim disjE conjE)
        assume w': "w' = world_deliver p w" and "wt_batch t \<in> set (ru_written r)"
        with world_inv_deliver [OF inv world0 p _ r'] tb show ?thesis by simp
      next
        assume "w' = world_drop p w"
        with world_inv_drop [OF inv world0 p r'] show ?thesis by simp
      qed
      with stay worker_inv_joined [OF inv res(1,2,3,4)] te show ?thesis by simp
    qed
  next
    case (sweep b due)
    then show ?thesis by (rule_tac swept)
  next
    case (advance t)
    with inv world stay show ?thesis by (simp add: world_inv_def)
  next
    case loc
    then show ?thesis by (rule local)
  qed
qed

definition received :: "worker_event list \<Rightarrow> chunk list" where
  "received es = concat (map taken es)"

lemma worker_run_ok:
  "worker_run sw es (r, w) = Some (r', w') \<Longrightarrow> rounds (sw_rnd sw) \<Longrightarrow> worker_inv sw gs cur r \<Longrightarrow>
     world_inv sw gs cur (mset (acks_of (received es)) + F) (bytes_of (received es) + B) (r, w) \<Longrightarrow>
     \<exists>ext cur'. worker_inv sw (gs @ ext) cur' r' \<and> world_inv sw (gs @ ext) cur' F B (r', w')
       \<and> concat ext @ cur' = cur @ received es \<and> heap_moves (w_heap w) (w_heap w')"
proof (induction es arbitrary: gs cur r w)
  case Nil
  then show ?case by (intro exI [of _ "[]"] exI [of _ cur]) (simp add: received_def)
next
  case (Cons e es)
  obtain r1 w1 where step: "worker_step sw e (r, w) = Some (r1, w1)" and run: "worker_run sw es (r1, w1) = Some (r', w')"
    using Cons.prems(1) by (auto simp: bind_eq_Some_conv)
  have rec: "received (e # es) = taken e @ received es" by (simp add: received_def)
  have "world_inv sw gs cur (mset (acks_of (taken e)) + (mset (acks_of (received es)) + F))
      (bytes_of (taken e) + (bytes_of (received es) + B)) (r, w)"
    using Cons.prems(4) by (simp add: rec add.assoc)
  from worker_step_ok [OF Cons.prems(3,2) this step] obtain ext cur1
    where 1: "worker_inv sw (gs @ ext) cur1 r1"
      "world_inv sw (gs @ ext) cur1 (mset (acks_of (received es)) + F) (bytes_of (received es) + B) (r1, w1)"
      "concat ext @ cur1 = cur @ taken e" "heap_moves (w_heap w) (w_heap w1)" by blast
  from Cons.IH [OF run Cons.prems(2) 1(1,2)] obtain ext2 cur2
    where 2: "worker_inv sw ((gs @ ext) @ ext2) cur2 r'" "world_inv sw ((gs @ ext) @ ext2) cur2 F B (r', w')"
      "concat ext2 @ cur2 = cur1 @ received es" "heap_moves (w_heap w1) (w_heap w')" by blast
  have "concat (ext @ ext2) @ cur2 = concat ext @ cur1 @ received es" using 2(3) by simp
  also have "\<dots> = cur @ received (e # es)" by (simp add: rec 1(3) flip: append_assoc)
  finally show ?case
    using 2 heap_moves_trans [OF 1(4) 2(4)] by (intro exI [of _ "ext @ ext2"] exI [of _ cur2]) simp
qed

lemma world_inv_start:
  assumes "run_start sw register = Some r"
  shows "world_inv sw [] [] F B (r, w) \<longleftrightarrow> heap_ok (w_heap w) F \<and> w_budget w = B"
  using assms by (auto simp: run_start_def world_inv_def held_acks_def held_bytes_def settled_def)

lemma worker_reachable:
  assumes "run_start sw register = Some r0" and "rounds (sw_rnd sw)"
    and "worker_run sw es (r0, w0) = Some (r, w)"
    and "heap_ok (w_heap w0) (mset (acks_of (received es)) + F)" and "w_budget w0 = bytes_of (received es) + B"
  obtains gs cur where "worker_inv sw gs cur r" "world_inv sw gs cur F B (r, w)" "concat gs @ cur = received es"
    "heap_moves (w_heap w0) (w_heap w)"
proof -
  have "world_inv sw [] [] (mset (acks_of (received es)) + F) (bytes_of (received es) + B) (r0, w0)"
    using assms(4,5) by (simp add: world_inv_start [OF assms(1)])
  from worker_run_ok [OF assms(3,2) worker_inv_start [OF assms(1)] this] that show thesis by auto
qed

section \<open>Properties\<close>

lemma received_frames:
  assumes "c \<in> set (gs ! i)" and "i < length gs"
  shows "ck_frame c \<in> set (bt_frames (batch_of sw i (gs ! i)))" "set (ck_acks c) \<subseteq> set (acks_of (gs ! i))"
  using assms by (auto simp: batch_of_def acks_of_def)

lemma live_refcount: "heap_ok h M \<Longrightarrow> a \<in># M \<Longrightarrow> 0 < refcount h a"
  by (simp add: heap_ok_def)

text \<open>
  C24. A shard worker never acknowledges what it has not written. In every execution (any
  interleaving of the worker, its write tasks, the deadline and the clock; writes that fail, are
  retried, panic or are aborted), each chunk the worker has taken from its queue is in a batch
  that the sink durably acknowledged, or all its acknowledgments have failed, or all its handles
  are still alive.
\<close>

theorem worker_acks_follow_writes:
  assumes "run_start sw register = Some r0" and "rounds (sw_rnd sw)"
    and "worker_run sw es (r0, w0) = Some (r, w)"
    and "heap_ok (w_heap w0) (mset (acks_of (received es)) + F)" and "w_budget w0 = bytes_of (received es) + B"
    and "c \<in> set (received es)"
  shows "(\<exists>b \<in> set (ru_written r). ck_frame c \<in> set (bt_frames b))
    \<or> (\<forall>a \<in> set (ck_acks c). ack_failed (w_heap w) a)
    \<or> (\<forall>a \<in> set (ck_acks c). 0 < refcount (w_heap w) a)"
proof -
  obtain gs cur where inv: "worker_inv sw gs cur r" and world: "world_inv sw gs cur F B (r, w)"
    and stream: "concat gs @ cur = received es" using worker_reachable [OF assms(1-5)] by metis
  have ok: "heap_ok (w_heap w) (held_acks gs cur r + F)" and st: "settled sw gs r (w_heap w)"
    using world by (simp_all add: world_inv_def)
  from assms(6) consider "c \<in> set cur" | i where "i < length gs" "c \<in> set (gs ! i)"
    unfolding stream [symmetric] using in_concat [of c gs] by auto
  then show ?thesis
  proof cases
    case 1
    then have "a \<in># held_acks gs cur r + F" if "a \<in> set (ck_acks c)" for a
      using that 1 by (auto simp: held_acks_def acks_of_def)
    with live_refcount [OF ok] show ?thesis by blast
  next
    case (2 i)
    note c = received_frames [OF 2(2,1)]
    show ?thesis
    proof (cases "i \<in> set (akeys (ld_pending (ru_ledger r)))")
      case True
      then have "a \<in># held_acks gs cur r + F" if "a \<in> set (ck_acks c)" for a
        using that c(2) True by (auto simp: held_acks_def in_sum_mset)
      with live_refcount [OF ok] show ?thesis by blast
    next
      case False
      with st 2(1) c show ?thesis unfolding settled_def by blast
    qed
  qed
qed

text \<open>
  C25. What the worker writes. The chunks taken from the queue, in order, are exactly the sealed
  batches in order followed by what is still accumulating: no chunk is lost, duplicated or
  reordered inside a shard, also across drain. Every batch the sink acknowledged is one of them, written with its own
  row and byte totals; no two batches share a deduplication token; and a batch overshoots
  \<open>max_rows\<close> and \<open>max_bytes\<close> by at most its last chunk.
\<close>

theorem worker_batches_partition_stream:
  assumes "run_start sw register = Some r0" and "rounds (sw_rnd sw)"
    and "worker_run sw es (r0, w0) = Some (r, w)"
    and "heap_ok (w_heap w0) (mset (acks_of (received es)) + F)" and "w_budget w0 = bytes_of (received es) + B"
  shows "\<exists>gs cur. concat gs @ cur = received es \<and> length gs = ru_seq r
    \<and> ac_frames (ru_acc r) = map ck_frame cur
    \<and> (\<forall>b \<in> set (ru_written r). \<exists>i < ru_seq r. b = batch_of sw i (gs ! i))
    \<and> distinct (map (\<lambda>i. bt_dedup_token (batch_of sw i (gs ! i))) [0..<ru_seq r])
    \<and> (\<forall>g \<in> set gs. g \<noteq> [] \<and> (butlast g = [] \<or>
         rows_of (butlast g) < max_rows (sp_batch (sw_cfg sw)) \<and> bytes_of (butlast g) < max_bytes (sp_batch (sw_cfg sw))))"
proof -
  obtain gs cur where inv: "worker_inv sw gs cur r" and stream: "concat gs @ cur = received es"
    using worker_reachable [OF assms] by metis
  from inv have "length gs = ru_seq r" "acc_matches cur (ru_acc r)" "list_all (fits sw) gs"
    "list_all (written_books sw gs) (ru_written r)"
    by (simp_all add: worker_inv_def books_def sealed_books_def)
  moreover have "distinct (map (\<lambda>i. bt_dedup_token (batch_of sw i (gs ! i))) [0..<ru_seq r])"
    by (auto simp: distinct_map inj_on_def batch_of_def decimal_inject)
  ultimately show ?thesis
    using stream
    by (intro exI [of _ gs] exI [of _ cur])
      (auto simp: acc_matches_def list_all_iff written_books_def fits_def below_def)
qed

text \<open>
  C26. When the worker returns, everything it took is resolved: each batch it sealed is counted
  once, as flushed or as abandoned; nothing is pending or accumulating; no acknowledgment handle
  is left with it and its whole share of the in-flight budget has been given back; and every
  chunk was written or has failed acknowledgments.
\<close>

theorem worker_returns_settled:
  assumes "run_start sw register = Some r0" and "rounds (sw_rnd sw)"
    and "worker_run sw es (r0, w0) = Some (r, w)"
    and "heap_ok (w_heap w0) (mset (acks_of (received es)) + F)" and "w_budget w0 = bytes_of (received es) + B"
    and "ru_phase r = Returned"
  shows "wr_flushed (ld_report (ru_ledger r)) + wr_abandoned (ld_report (ru_ledger r)) = ru_seq r
    \<and> ld_pending (ru_ledger r) = [] \<and> acc_is_empty (ru_acc r) \<and> sm_inflight (ru_metrics r) = 0
    \<and> heap_ok (w_heap w) F \<and> w_budget w = B
    \<and> (\<forall>c \<in> set (received es). (\<exists>b \<in> set (ru_written r). ck_frame c \<in> set (bt_frames b))
         \<or> (\<forall>a \<in> set (ck_acks c). ack_failed (w_heap w) a))"
proof -
  obtain gs cur where inv: "worker_inv sw gs cur r" and world: "world_inv sw gs cur F B (r, w)"
    and stream: "concat gs @ cur = received es" using worker_reachable [OF assms(1-5)] by metis
  from inv assms(6) have cur: "cur = []" and none: "ld_pending (ru_ledger r) = []"
    and sums: "resolved_count r = ru_seq r" "sm_inflight (ru_metrics r) = 0"
    and acc: "acc_matches cur (ru_acc r)"
    by (auto simp: worker_inv_def books_def run_flow_def)
  have "(\<exists>b \<in> set (ru_written r). ck_frame c \<in> set (bt_frames b)) \<or> (\<forall>a \<in> set (ck_acks c). ack_failed (w_heap w) a)"
    if "c \<in> set (received es)" for c
  proof -
    from that stream cur obtain i where i: "i < length gs" "c \<in> set (gs ! i)" using in_concat [of c gs] by auto
    from world none i(1) have "batch_of sw i (gs ! i) \<in> set (ru_written r)
        \<or> (\<forall>a \<in> set (acks_of (gs ! i)). ack_failed (w_heap w) a)"
      by (simp add: world_inv_def settled_def)
    with received_frames [OF i(2,1)] show ?thesis by blast
  qed
  then show ?thesis
    using world cur none sums acc_matches_empty [OF acc]
    by (simp add: world_inv_def held_acks_def held_bytes_def resolved_count_def)
qed

text \<open>
  C27. In-flight bookkeeping. At any time the write tasks still running and the free permits add up
  to \<open>inflight.max_per_shard\<close>, so at most that many batches are being written; the in-flight gauge
  and the report count every sealed batch once; and a half-open replica's probe counter is the
  number of live tasks writing a probe of its current episode to it. So a probe slot is never
  lost to a task that panicked or was aborted: with no such task alive the replica can be picked
  again.
\<close>

theorem worker_permits_and_probes:
  assumes "run_start sw register = Some r0" and "rounds (sw_rnd sw)"
    and "worker_run sw es (r0, w0) = Some (r, w)"
    and "heap_ok (w_heap w0) (mset (acks_of (received es)) + F)" and "w_budget w0 = bytes_of (received es) + B"
  shows "ru_permits r + length (filter (\<lambda>(_, t). active t) (ru_tasks r)) = max_per_shard (sp_inflight (sw_cfg sw))
    \<and> wr_flushed (ld_report (ru_ledger r)) + wr_abandoned (ld_report (ru_ledger r))
        + sm_inflight (ru_metrics r) = ru_seq r
    \<and> (\<forall>i < sw_endpoints sw. \<forall>p e. states (ru_breakers r) ! i = HalfOpen p e \<longrightarrow>
         p = count (tokens_of (ru_tasks r)) (i, e)
         \<and> (p = 0 \<longrightarrow> usable now (cfg (ru_breakers r)) (states (ru_breakers r) ! i)))"
proof -
  obtain gs cur where inv: "worker_inv sw gs cur r" using worker_reachable [OF assms] by metis
  have br: "breaker_inv (sw_endpoints sw) (ru_breakers r)" "tokens_ok (ru_breakers r) (tokens_of (ru_tasks r))"
    using inv by (simp_all add: worker_inv_def crew_def breakers_ok_def)
  then have "\<forall>i < sw_endpoints sw. \<forall>p e. states (ru_breakers r) ! i = HalfOpen p e \<longrightarrow>
         p = count (tokens_of (ru_tasks r)) (i, e)
         \<and> (p = 0 \<longrightarrow> usable now (cfg (ru_breakers r)) (states (ru_breakers r) ! i))"
    by (auto simp: breaker_inv_def tokens_ok_def)
  with inv show ?thesis
    by (simp add: worker_inv_def crew_def run_flow_def resolved_count_def filter_active_count)
qed

lemma sweep_total:
  assumes "worker_inv sw gs cur r"
  shows "sweep sw shut_down (r, w) \<noteq> None"
proof -
  have crew: "crew sw r" using assms by (simp add: worker_inv_def)
  obtain b where "abort_all (ru_tasks r) (ru_breakers r) = Some b"
    using abort_all_ok [of "sw_endpoints sw" "ru_breakers r" "ru_tasks r" "{#}" "ru_written r"] crew
    by (auto simp: crew_def)
  then obtain r1 where "(if shut_down then shutdown_tasks r else Some r) = Some r1"
    by (cases shut_down) (simp_all add: shutdown_tasks_def)
  then show ?thesis by (simp add: sweep_def Let_def split: prod.splits)
qed

text \<open>With no task in flight, the drain loop always has a step of its own to take.\<close>

lemma drain_step_enabled:
  assumes "worker_inv sw gs cur r" and "0 < max_per_shard (sp_inflight (sw_cfg sw))" and "ru_phase r = DrainLoop"
    and idle: "\<not> list_ex (\<lambda>(_, t). active t) (ru_tasks r)"
  shows "\<exists>e s'. (e = AllDone \<or> e = PermitFree \<or> (\<exists>tid. e = Joined tid msg)) \<and> worker_step sw e (r, w) = Some s'"
proof (cases "ru_tasks r")
  case (Cons x ts)
  obtain tid t where x: "x = (tid, t)" by fastforce
  have "\<not> active t" using idle Cons x by simp
  then obtain j where "join_result tid msg t = Some j"
    by (auto simp: active_def join_result_def split: task_phase.splits)
  then have "worker_step sw (Joined tid msg) (r, w) \<noteq> None"
    using Cons x assms(3) by (simp add: worker_step_def run_join_def looping_def)
  then show ?thesis by blast
next
  case Nil
  have permit: "0 < ru_permits r" using assms(1,2) by (simp add: worker_inv_def crew_def Nil)
  show ?thesis
  proof (cases "ru_waiting r")
    case w: Nil
    have "worker_step sw AllDone (r, w) \<noteq> None"
      by (simp add: worker_step_def local_step_def run_all_done_def assms(3) Nil w)
    then show ?thesis by blast
  next
    case (Cons q rest)
    have "worker_step sw PermitFree (r, w) \<noteq> None"
      using permit
      by (cases q) (simp add: worker_step_def local_step_def run_permit_def looping_def assms(3) Cons
          try_acquire_def launch_waiting_def)
    then show ?thesis by blast
  qed
qed

text \<open>
  C28. Shutdown cannot hang on the worker. In every reachable state of the drain loop, once the
  published deadline has passed the worker returns in one step, whether or not its write tasks
  stop in time, and that step cannot panic. Before that, unless a write is in progress, it can
  take a step: join a finished task, start a waiting batch, or return.
\<close>

theorem worker_drain_progress:
  assumes "run_start sw register = Some r0" and "rounds (sw_rnd sw)"
    and "worker_run sw es (r0, w0) = Some (r, w)"
    and "heap_ok (w_heap w0) (mset (acks_of (received es)) + F)" and "w_budget w0 = bytes_of (received es) + B"
    and "0 < max_per_shard (sp_inflight (sw_cfg sw))" and "ru_phase r = DrainLoop"
  shows "(\<forall>t. ru_watch r = Some t \<and> t \<le> w_now w \<longrightarrow>
        (\<exists>r' w'. worker_step sw (DeadlineReached shut_down) (r, w) = Some (r', w') \<and> ru_phase r' = Returned))
    \<and> (list_ex (\<lambda>(_, t). active t) (ru_tasks r)
        \<or> (\<exists>e s'. (e = AllDone \<or> e = PermitFree \<or> (\<exists>tid. e = Joined tid msg)) \<and> worker_step sw e (r, w) = Some s'))"
proof -
  obtain gs cur where inv: "worker_inv sw gs cur r" using worker_reachable [OF assms(1-5)] by metis
  have "\<exists>r' w'. worker_step sw (DeadlineReached shut_down) (r, w) = Some (r', w') \<and> ru_phase r' = Returned"
    if "ru_watch r = Some t" "t \<le> w_now w" for t
    using that assms(7) sweep_total [OF inv, of shut_down w] by (auto simp: worker_step_def run_sweep_def)
  with drain_step_enabled [OF inv assms(6,7)] show ?thesis by blast
qed

section \<open>A run\<close>

text \<open>Two chunks, one batch each; the first write succeeds at once, the second is refused for good.\<close>

definition demo_worker :: shard_worker where
  "demo_worker =
     \<lparr>sw_sink = ''out'', sw_token_prefix = ''p-1-0-'',
      sw_cfg = sink_pool_config_default\<lparr>sp_batch := \<lparr>max_rows = 1, max_bytes = 100, linger = 10\<rparr>\<rparr>,
      sw_endpoints = 1, sw_rnd = Fin\<rparr>"

definition demo_chunk :: "8 word \<Rightarrow> ack_ref \<Rightarrow> chunk" where
  "demo_chunk x a =
     \<lparr>ck_frame = [x], ck_raw_len = 1, ck_rows = 1, ck_acks = [a], ck_oldest_ingest = 0,
      ck_oldest_event_ms = 0, ck_row_acks = [a]\<rparr>"

definition demo_worker_world :: "unit world" where
  "demo_worker_world = \<lparr>w_heap = two_batches, w_budget = 2, w_queues = (), w_now = 0\<rparr>"

definition demo_worker_events :: "worker_event list" where
  "demo_worker_events =
     [Received [demo_chunk 7 0, demo_chunk 9 1], TaskPick 0, TaskOutcome 0 None, TaskPick 1,
      Joined 0 [], TaskOutcome 1 (Some (sink_fatal ''gone'')), Publish (Some 5), QueueClosed, QueueEmpty]"

lemmas demo_worker_simps =
  run_start_def demo_worker_def demo_worker_world_def demo_chunk_def sink_pool_config_default_def
  batch_config_default_def inflight_config_default_def retry_config_default_def breaker_config_default_def
  breaker_new_def acc_new_def acc_push_def ackset_new_def ackset_absorb_def worker_step_def local_step_def
  run_recv_def take_chunk_def seal_reason_def dispatch_def acc_is_empty_def seal_def try_acquire_def
  spawn_write_def upd_ledger_def upd_sink_metrics_def metrics_set_inflight_def metrics_new_def with_task_def
  task_new_def task_pick_def next_replica_def take_pick_def next_probe_at_def set_task_def active_def
  run_task_outcome_def task_outcome_def on_success_def on_failure_def publish_replica_health_def publish_wake_def
  refresh_shard_health_def failed_state_def attempt_metrics_def metrics_errors_def run_join_def looping_def
  join_result_def settle_def metrics_flushed_def sink_fatal_def sink_error_new_def run_closed_def
  run_force_seal_def run_all_done_def secs_def millis_def abandon_def
  metrics_abandoned_def

definition demo_worker_run :: shard_run where
  "demo_worker_run = the (run_start demo_worker [])"

lemma demo_worker_start: "run_start demo_worker [] = Some demo_worker_run"
  by (simp add: demo_worker_run_def run_start_def demo_worker_def breaker_new_def)

lemma demo_worker_drains:
  "\<exists>r w. worker_run demo_worker demo_worker_events (demo_worker_run, demo_worker_world) = Some (r, w)
     \<and> ru_phase r = DrainLoop \<and> ru_seq r = 2 \<and> ru_watch r = Some 5"
  by (simp add: demo_worker_run_def demo_worker_events_def demo_worker_simps Let_def)

lemma demo_worker_returns:
  "\<exists>r w. worker_run demo_worker (demo_worker_events @ [Joined 1 [], AllDone])
       (demo_worker_run, demo_worker_world) = Some (r, w)
     \<and> ru_phase r = Returned \<and> ru_seq r = 2"
  by (simp add: demo_worker_run_def demo_worker_events_def demo_worker_simps Let_def)

lemma demo_worker_given:
  "rounds (sw_rnd demo_worker)" "received demo_worker_events = [demo_chunk 7 0, demo_chunk 9 1]"
  "received (demo_worker_events @ [Joined 1 [], AllDone]) = [demo_chunk 7 0, demo_chunk 9 1]"
  "heap_ok (w_heap demo_worker_world) (mset (acks_of [demo_chunk 7 0, demo_chunk 9 1]) + {#})"
  "w_budget demo_worker_world = bytes_of [demo_chunk 7 0, demo_chunk 9 1] + 0"
  "0 < max_per_shard (sp_inflight (sw_cfg demo_worker))"
  by (auto simp: demo_worker_def rounds_exact received_def demo_worker_events_def demo_worker_world_def two_batches_def
      ackref_new_def heap_empty_def heap_ok_def refcount_def nth_append less_Suc_eq acks_of_def bytes_of_def
      demo_chunk_def sink_pool_config_default_def inflight_config_default_def)

theorem worker_acks_follow_writes_witness:
  "\<exists>r w. worker_run demo_worker demo_worker_events (demo_worker_run, demo_worker_world) = Some (r, w)
     \<and> ((\<exists>b \<in> set (ru_written r). [7] \<in> set (bt_frames b)) \<or> ack_failed (w_heap w) 0 \<or> 0 < refcount (w_heap w) 0)"
proof -
  obtain r w where run: "worker_run demo_worker demo_worker_events (demo_worker_run, demo_worker_world) = Some (r, w)"
    using demo_worker_drains by blast
  have "demo_chunk 7 0 \<in> set (received demo_worker_events)" by (simp add: demo_worker_given)
  from worker_acks_follow_writes [OF demo_worker_start demo_worker_given(1) run _ _ this, of "{#}" 0]
  show ?thesis using run demo_worker_given by (auto simp: demo_chunk_def)
qed

theorem worker_batches_partition_stream_witness:
  "\<exists>r w gs cur. worker_run demo_worker demo_worker_events (demo_worker_run, demo_worker_world) = Some (r, w)
     \<and> ru_seq r = 2 \<and> length gs = 2 \<and> concat gs @ cur = [demo_chunk 7 0, demo_chunk 9 1]"
proof -
  obtain r w where run: "worker_run demo_worker demo_worker_events (demo_worker_run, demo_worker_world) = Some (r, w)"
    and seq: "ru_seq r = 2" using demo_worker_drains by blast
  from worker_batches_partition_stream [OF demo_worker_start demo_worker_given(1) run, of "{#}" 0]
  obtain gs cur where "concat gs @ cur = received demo_worker_events" "length gs = ru_seq r"
    using demo_worker_given by auto
  with run seq show ?thesis by (auto simp: demo_worker_given)
qed

theorem worker_returns_settled_witness:
  "\<exists>r w. worker_run demo_worker (demo_worker_events @ [Joined 1 [], AllDone]) (demo_worker_run, demo_worker_world)
       = Some (r, w)
     \<and> wr_flushed (ld_report (ru_ledger r)) + wr_abandoned (ld_report (ru_ledger r)) = 2 \<and> w_budget w = 0"
proof -
  obtain r w where run: "worker_run demo_worker (demo_worker_events @ [Joined 1 [], AllDone])
      (demo_worker_run, demo_worker_world) = Some (r, w)" and ph: "ru_phase r = Returned" and seq: "ru_seq r = 2"
    using demo_worker_returns by blast
  from worker_returns_settled [OF demo_worker_start demo_worker_given(1) run _ _ ph, of "{#}" 0] run seq
  show ?thesis using demo_worker_given by auto
qed

theorem worker_permits_and_probes_witness:
  "\<exists>r w. worker_run demo_worker demo_worker_events (demo_worker_run, demo_worker_world) = Some (r, w)
     \<and> ru_permits r + length (filter (\<lambda>(_, t). active t) (ru_tasks r)) = 2"
proof -
  obtain r w where run: "worker_run demo_worker demo_worker_events (demo_worker_run, demo_worker_world) = Some (r, w)"
    using demo_worker_drains by blast
  have "max_per_shard (sp_inflight (sw_cfg demo_worker)) = 2"
    by (simp add: demo_worker_def sink_pool_config_default_def inflight_config_default_def)
  with worker_permits_and_probes [OF demo_worker_start demo_worker_given(1) run, of "{#}" 0] run
  show ?thesis using demo_worker_given by auto
qed

theorem worker_drain_progress_witness:
  "\<exists>r w. worker_run demo_worker demo_worker_events (demo_worker_run, demo_worker_world) = Some (r, w)
     \<and> ru_phase r = DrainLoop
     \<and> (list_ex (\<lambda>(_, t). active t) (ru_tasks r) \<or> (\<exists>e s'. worker_step demo_worker e (r, w) = Some s'))"
proof -
  obtain r w where run: "worker_run demo_worker demo_worker_events (demo_worker_run, demo_worker_world) = Some (r, w)"
    and ph: "ru_phase r = DrainLoop" using demo_worker_drains by blast
  have "list_ex (\<lambda>(_, t). active t) (ru_tasks r) \<or> (\<exists>e s'. worker_step demo_worker e (r, w) = Some s')"
    using worker_drain_progress [OF demo_worker_start demo_worker_given(1) run _ _ demo_worker_given(6) ph, of "{#}" 0]
      demo_worker_given(2,4,5) by fastforce
  with run ph show ?thesis by blast
qed

end
