(* ===== verification/Pipeline_System.thy ===== *)
theory Pipeline_System
  imports Chain Checkpoint_System Worker
begin

text \<open>
  The parts put together: driver threads with their chains (\<open>Chain\<close>), the shard queues, a worker
  per shard (\<open>Worker\<close>) and the checkpoint subsystem (\<open>Checkpoint_System\<close>), sharing one
  acknowledgment heap and taking turns in any order.

  The theories of the parts each say what their part does to the handles it owns, whatever
  the others hold. Here the ownership is added up over the whole process, and the result is
  the guarantee the program is about: an offset is committed only once the rows before it are
  durable.
\<close>

section \<open>A push as one operation on the stages\<close>

context stage
begin

lemma push_loop_keeps:
  "push_loop deserialize ops a rest pc c w = Some (out, rest', pc', c', w') \<Longrightarrow> a \<in># F \<Longrightarrow>
     keeps own sent sinv {#} F (tc_ops c) w (tc_ops c') w'"
proof (induction rest arbitrary: pc c w F)
  case (Cons raw rest)
  from Cons.prems(1) obtain st pc1 c1 w1 o1 pc2 c2
    where d: "deser_step deserialize ops raw a pc c w = Some (st, pc1, c1, w1)"
      and a: "after_step raw st pc1 c1 = (o1, pc2, c2)"
      and r: "(case o1 of Some x \<Rightarrow> Some (Some x, rest, pc2, c2, w1)
               | None \<Rightarrow> push_loop deserialize ops a rest pc2 c2 w1) = Some (out, rest', pc', c', w')"
    by (fastforce split: option.splits prod.splits)
  have k: "keeps own sent sinv {#} F (tc_ops c) w (tc_ops c2) w1"
    using deser_step_keeps [OF d Cons.prems(2)] after_step_ops [OF a] by simp
  show ?case
  proof (cases o1)
    case None
    with r have l: "push_loop deserialize ops a rest pc2 c2 w1 = Some (out, rest', pc', c', w')" by simp
    show ?thesis by (rule keeps_trans [OF k]) (use Cons.IH [OF l] Cons.prems(2) in simp)
  qed (use k r in simp)
qed (auto intro: keeps_same)

lemma push_replay_keeps:
  assumes "push_replay deserialize ops a pc c w = Some (out, pc', c', w')" and "a \<in># F"
  shows "keeps own sent sinv {#} F (tc_ops c) w (tc_ops c') w'"
proof (cases "tc_pending c")
  case None
  with assms show ?thesis by (auto simp: push_replay_def intro: keeps_same)
next
  case (Some p)
  with assms(1) obtain st pc1 c1
    where d: "deser_step deserialize ops (as_raw p) a pc (c\<lparr>tc_pending := None\<rparr>) w = Some (st, pc1, c1, w')"
      and a: "after_step (as_raw p) st pc1 c1 = (out, pc', c')"
    by (auto simp: push_replay_def split: option.splits prod.splits)
  from deser_step_keeps [OF d assms(2)] after_step_ops [OF a] show ?thesis by simp
qed

lemma fail_keeps:
  assumes "a \<in># F"
  shows "keeps own sent sinv {#} F s w s (w\<lparr>w_heap := ackref_fail a (w_heap w)\<rparr>)"
proof -
  {
    assume h: "heap_ok (w_heap w) (own s + F)" "outbox_ok (w_heap w)" "sinv (w_heap w) s (w_queues w)"
    have a: "a \<in># own s + F" using assms by simp
    note heap_ok_fail [OF h(1)] outbox_ok_fail [OF h(2,1) a] heap_le_fail [OF h(1) a]
      sinv_mono [OF h(3) heap_le_fail [OF h(1) a]]
  }
  then show ?thesis by (auto simp: keeps_def)
qed

lemma end_push_keeps:
  assumes "end_push ops o1 pc a c w = (out, c', w')" and "a \<in># F"
  shows "keeps own sent sinv {#} F (tc_ops c) w (tc_ops c') w'"
proof -
  let ?s = "st_on_batch_end ops (tc_ops c)"
  have s: "tc_ops c' = ?s" and w: "w' = w \<or> w' = w\<lparr>w_heap := ackref_fail a (w_heap w)\<rparr>"
    using assms(1) by (auto simp: end_push_def publish_deser_def Let_def split: option.splits push_outcome.splits)
  have k: "keeps own sent sinv {#} F (tc_ops c) w ?s w" using end_same [of "tc_ops c"] by (intro keeps_same) auto
  from w show ?thesis
  proof
    assume "w' = w"
    with k s show ?thesis by simp
  next
    assume "w' = w\<lparr>w_heap := ackref_fail a (w_heap w)\<rparr>"
    with keeps_trans [OF k fail_keeps] assms(2) s show ?thesis by simp
  qed
qed

lemma push_batch_keeps:
  assumes p: "push_batch deserialize ops batch from c w = Some (out, batch', c', w')" and a: "pb_ack batch \<in># F"
  shows "keeps own sent sinv {#} F (tc_ops c) w (tc_ops c') w'"
proof -
  let ?a = "pb_ack batch" and ?z = "\<lparr>pc_ok = 0, pc_errors = 0, pc_not_ready = 0, pc_fatal = 0\<rparr>"
  have ops0: "tc_ops (begin_push c) = tc_ops c" by (simp add: begin_push_def)
  obtain fl s w0 where rel: "st_relieve ops (tc_ops c) w = Some (fl, s, w0)"
    using p ops0 by (auto simp: push_batch_def Let_def split: option.splits)
  define c1 where "c1 = (begin_push c)\<lparr>tc_ops := s\<rparr>"
  have k0: "keeps own sent sinv {#} F (tc_ops c) w (tc_ops c1) w0"
    using relieve_keeps [OF rel] by (simp add: c1_def)
  have a0: "?a \<in># G + F" for G using a by simp
  consider (blocked) "c' = c1" "w' = w0"
    | (replayed) o1 pc c2 w1 where "push_replay deserialize ops ?a ?z c1 w0 = Some (Some o1, pc, c2, w1)"
        "end_push ops (Some o1) pc ?a c2 w1 = (out, c', w')"
    | (looped) pc c2 w1 o2 rest pc' c3 w2 where "push_replay deserialize ops ?a ?z c1 w0 = Some (None, pc, c2, w1)"
        "push_loop deserialize ops ?a (pb_rest batch) pc c2 w1 = Some (o2, rest, pc', c3, w2)"
        "end_push ops o2 pc' ?a c3 w2 = (out, c', w')"
    using p ops0 rel
    by (fastforce simp: push_batch_def Let_def c1_def split: option.splits prod.splits if_splits)
  then show ?thesis
  proof cases
    case blocked with k0 show ?thesis by simp
  next
    case (replayed o1 pc c2 w1)
    show ?thesis
      by (intro keeps_trans [OF keeps_trans [OF k0 push_replay_keeps [OF replayed(1) a0]]] end_push_keeps [OF replayed(2) a0])
  next
    case (looped pc c2 w1 o2 rest pc' c3 w2)
    show ?thesis
      by (intro keeps_trans [OF keeps_trans [OF keeps_trans [OF k0 push_replay_keeps [OF looped(1) a0]]
            push_loop_keeps [OF looped(2) a0]]] end_push_keeps [OF looped(3) a0])
  qed
qed

lemma chain_flush_keeps:
  assumes "chain_flush ops c w = Some (out, c', w')"
  shows "keeps own sent sinv {#} F (tc_ops c) w (tc_ops c') w'"
proof -
  obtain x s where x: "st_take_fatal ops (tc_ops c) = (x, s)" by fastforce
  have k: "keeps own sent sinv {#} F (tc_ops c) w s w" for F
    using fatal_same [OF x] by (intro keeps_same) simp_all
  show ?thesis
  proof (cases x)
    case (Some e)
    with assms x k show ?thesis by (auto simp: chain_flush_def)
  next
    case None
    with assms x obtain fl s1 w1 where t: "st_flush_terminal ops s w = Some (fl, s1, w1)"
      by (auto simp: chain_flush_def split: option.splits)
    obtain y s2 where y: "st_take_fatal ops s1 = (y, s2)" by fastforce
    have "keeps own sent sinv {#} F s1 w1 s2 w1" for F
      using fatal_same [OF y] by (intro keeps_same) simp_all
    from keeps_trans [OF keeps_trans [OF k flush_keeps [OF t]] this]
    show ?thesis using assms x None t y by (auto simp: chain_flush_def split: option.splits)
  qed
qed

end

section \<open>Shared queues\<close>

text \<open>
  Several chains feed the same queues. A chain's view of them only ever grows: whatever they
  had accepted when an operation began is still there, in order, when it ends. \<open>Q\<close> is that, and
  \<open>n\<close> the number of shards.
\<close>

definition queue_sinv :: "nat \<Rightarrow> (nat \<Rightarrow> chunk list) \<Rightarrow> ack_heap \<Rightarrow> ('e, 'k) sink_handoff \<Rightarrow> ('c, 'f) shard_queues \<Rightarrow> bool" where
  "queue_sinv n Q hp h q \<longleftrightarrow>
     handoff_sinv hp h q \<and> num_shards q = n \<and> (\<forall>i. prefix (Q i) (sent_on q i))"

lemma keeps_queue:
  assumes "keeps held handoff_sent handoff_sinv g F h w h' w'"
    and "heap_ok (w_heap w) (g + held h + F) \<Longrightarrow> outbox_ok (w_heap w) \<Longrightarrow> handoff_inv (w_heap w) h (sent_on (w_queues w))
      \<Longrightarrow> grown sent_on h w h' w' \<and> num_shards (w_queues w') = num_shards (w_queues w)"
  shows "keeps held handoff_sent (queue_sinv n Q) g F h w h' w'"
proof -
  {
    assume h: "heap_ok (w_heap w) (g + held h + F)" "outbox_ok (w_heap w)" "queue_sinv n Q (w_heap w) h (w_queues w)"
    then have inv: "handoff_sinv (w_heap w) h (w_queues w)" "\<forall>i. prefix (Q i) (sent_on (w_queues w) i)"
        "num_shards (w_queues w) = n"
      by (simp_all add: queue_sinv_def)
    obtain G where G: "handoff_sent (w_queues w') = handoff_sent (w_queues w) + G" "heap_ok (w_heap w') (held h' + G + F)"
      "outbox_ok (w_heap w')" "heap_le (w_heap w) (w_heap w')" "length (arena (w_heap w')) = length (arena (w_heap w))"
      "handoff_sinv (w_heap w') h' (w_queues w')"
      using keeps_D [OF assms(1) h(1,2) inv(1)] by blast
    have "\<forall>i. prefix (sent_on (w_queues w) i) (sent_on (w_queues w') i)" "num_shards (w_queues w') = n"
      using inv(3) assms(2) [OF h(1,2)] inv(1) by (simp_all add: handoff_sinv_def grown_def Let_def)
    then have "\<forall>i. prefix (Q i) (sent_on (w_queues w') i)" using inv(2) prefix_order.trans by blast
    with G \<open>num_shards (w_queues w') = n\<close> have "(\<exists>G. handoff_sent (w_queues w') = handoff_sent (w_queues w) + G \<and> heap_ok (w_heap w') (held h' + G + F)) \<and>
        outbox_ok (w_heap w') \<and> heap_le (w_heap w) (w_heap w') \<and>
        length (arena (w_heap w')) = length (arena (w_heap w)) \<and> queue_sinv n Q (w_heap w') h' (w_queues w')"
      by (auto simp: queue_sinv_def)
  }
  then show ?thesis by (simp add: keeps_def)
qed

lemma handoff_queue_stage:
  fixes env :: "('t, 'e, 'k, ('c, 'f) shard_queues) handoff_env"
  assumes t: "he_try_send env = try_send api" and r: "\<And>r n. 0 < n \<Longrightarrow> he_route_record env r n < n"
  shows "stage (handoff_stage env) held handoff_sent (queue_sinv n Q) handoff_latched handoff_books"
proof -
  note st = handoff_is_stage [OF t r]
  have weak: "handoff_sinv hp s q" if "queue_sinv n Q hp s q" for hp s q using that by (simp add: queue_sinv_def)
  have step: "keeps held handoff_sent (queue_sinv n Q) (given op) F h w h' w'"
    if "handoff_step env op h w = Some (h', w')" for op h w h' w' F
    by (rule keeps_queue [OF handoff_step_keeps [OF t that]])
      (use sq.step_ok [OF t that] sq.step_frame [OF t _ that] in \<open>auto simp: handoff_inv_def\<close>)
  show ?thesis
  proof (unfold_locales, goal_cases)
    case (1 hp s q hp') then show ?case using stage.sinv_mono [OF st] by (auto simp: queue_sinv_def)
  next
    case (2 w r s F) then show ?case using stage.push_total [OF st] weak by blast
  next
    case (3 r s w fl s' w' F) then show ?case using step [of "HoPush r" s w s' w' F] by (simp add: handoff_stage_def)
  next
    case (4 r s w fl s' w') then show ?case using stage.push_latched [OF st] by blast
  next
    case (5 r s w fl s' w') then show ?case using stage.push_books [OF st] by blast
  next
    case (6 hp s w) then show ?case using stage.relieve_total [OF st] weak by blast
  next
    case (7 s w fl s' w' F) then show ?case using step [of HoRelieve s w s' w' F] by (simp add: handoff_stage_def)
  next
    case (8 hp s w fl s' w') then show ?case using stage.relieve_same [OF st] weak by blast
  next
    case (9 hp s w) then show ?case using stage.flush_total [OF st] weak by blast
  next
    case (10 s w fl s' w' F) then show ?case using step [of HoFlush s w s' w' F] by (simp add: handoff_stage_def)
  next
    case (11 s w fl s' w') then show ?case using stage.flush_books [OF st] by blast
  next
    case (12 s x s') then show ?case using stage.fatal_same [OF st] by (auto simp: queue_sinv_def)
  next
    case (13 s) then show ?case using stage.end_same [OF st] by (auto simp: queue_sinv_def)
  qed
qed

text \<open>
  What the threads of a pipeline rely on: a chain's stages keep the contract of a stage whatever
  the other threads have put on the queues.
\<close>

locale chain_ops =
  fixes ops :: "('t, 's, ('c, 'f) shard_queues) stage_ops"
    and terminal :: "'s \<Rightarrow> ('e, 'k) sink_handoff"
    and latched :: "'s \<Rightarrow> bool" and books :: "'s \<Rightarrow> bool"
  assumes is_stage: "stage ops (\<lambda>s. held (terminal s)) handoff_sent (\<lambda>hp s. queue_sinv n Q hp (terminal s)) latched books"
begin

lemma keeps_effect:
  assumes "\<And>n Q. keeps (\<lambda>s. held (terminal s)) handoff_sent (\<lambda>hp s. queue_sinv n Q hp (terminal s)) {#} F s w s' w'"
    and "heap_ok (w_heap w) (held (terminal s) + F)" and "outbox_ok (w_heap w)"
    and "handoff_sinv (w_heap w) (terminal s) (w_queues w)"
  shows "(\<exists>G. handoff_sent (w_queues w') = handoff_sent (w_queues w) + G \<and>
        heap_ok (w_heap w') (held (terminal s') + G + F)) \<and>
      heap_moves (w_heap w) (w_heap w') \<and> handoff_sinv (w_heap w') (terminal s') (w_queues w') \<and>
      num_shards (w_queues w') = num_shards (w_queues w) \<and>
      (\<forall>i. prefix (sent_on (w_queues w) i) (sent_on (w_queues w') i))"
proof -
  have q: "queue_sinv (num_shards (w_queues w)) (sent_on (w_queues w)) (w_heap w) (terminal s) (w_queues w)"
    using assms(4) by (simp add: queue_sinv_def)
  have h: "heap_ok (w_heap w) ({#} + held (terminal s) + F)" using assms(2) by simp
  obtain G where "handoff_sent (w_queues w') = handoff_sent (w_queues w) + G"
      "heap_ok (w_heap w') (held (terminal s') + G + F)" "outbox_ok (w_heap w')" "heap_le (w_heap w) (w_heap w')"
      "length (arena (w_heap w')) = length (arena (w_heap w))"
      "queue_sinv (num_shards (w_queues w)) (sent_on (w_queues w)) (w_heap w') (terminal s') (w_queues w')"
    using keeps_D [OF assms(1) [of "num_shards (w_queues w)" "sent_on (w_queues w)"] h assms(3) q] by blast
  then show ?thesis by (auto simp: queue_sinv_def heap_moves_def)
qed

lemma push_batch_effect:
  assumes "push_batch deserialize ops batch from c w = Some (out, batch', c', w')" and "pb_ack batch \<in># F"
  shows "keeps (\<lambda>s. held (terminal s)) handoff_sent (\<lambda>hp s. queue_sinv n Q hp (terminal s)) {#} F (tc_ops c) w (tc_ops c') w'"
  using stage.push_batch_keeps [OF is_stage assms] .

lemma chain_flush_effect:
  assumes "chain_flush ops c w = Some (out, c', w')"
  shows "keeps (\<lambda>s. held (terminal s)) handoff_sent (\<lambda>hp s. queue_sinv n Q hp (terminal s)) {#} F (tc_ops c) w (tc_ops c') w'"
  using stage.chain_flush_keeps [OF is_stage assms] .

end

interpretation sink_stack: chain_ops "op_stack f p i g t (sink_env api encode buffered finish code)" stack_terminal
  stack_latched stack_books
proof (rule chain_ops.intro)
  fix n Q
  have ho: "stage (handoff_stage (sink_env api encode buffered finish code)) held handoff_sent (queue_sinv n Q)
      handoff_latched handoff_books"
    by (rule handoff_queue_stage [where api = api])
      (simp_all add: sink_env_def route_record_meta_def key_hash_route_def Let_def)
  note fm = stage.flat_map_is_stage [OF stage.try_map_is_stage [OF ho, of t], of g]
  note mp = stage.map_is_stage [OF stage.filter_is_stage [OF stage.inspect_is_stage [OF fm, of i], of p], of f]
  have l: "stack_latched = (\<lambda>s. False \<or> (False \<or> (False \<or> (False \<or> (tm_fatal (stack_try s) \<noteq> None \<or> handoff_latched (tm_next (stack_try s)))))))"
    by (simp add: stack_latched_def stack_terminal_def handoff_latched_def fun_eq_iff)
  have b: "stack_books = (\<lambda>s. balanced (mp_meter s) \<and> (balanced (fi_meter (mp_next s)) \<and> (True \<and> (True \<and>
      (balanced (tm_meter (stack_try s)) \<and> handoff_books (tm_next (stack_try s)))))))"
    by (simp add: stack_books_def stack_terminal_def handoff_books_def fun_eq_iff)
  from mp show "stage (op_stack f p i g t (sink_env api encode buffered finish code)) (\<lambda>s. held (stack_terminal s))
      handoff_sent (\<lambda>hp s. queue_sinv n Q hp (stack_terminal s)) stack_latched stack_books"
    unfolding op_stack_def l b stack_terminal_def .
qed

section \<open>A worker step leaves the queues alone and does not read the budget\<close>

definition same_but_budget :: "'q world \<Rightarrow> 'q world \<Rightarrow> bool" where
  "same_but_budget w v \<longleftrightarrow> w_heap w = w_heap v \<and> w_queues w = w_queues v \<and> w_now w = w_now v"

definition agree :: "shard_run \<times> 'q world \<Rightarrow> shard_run \<times> 'q world \<Rightarrow> bool" where
  "agree x y \<longleftrightarrow> fst x = fst y \<and> same_but_budget (snd x) (snd y) \<and> w_queues (snd x) = w_queues (snd y)"

lemma settle_agree:
  assumes "agree x y"
  shows "agree (settle s x) (settle s y)" and "w_queues (snd (settle s x)) = w_queues (snd x)"
  using assms by (cases x; cases y; auto simp: agree_def same_but_budget_def settle_def Let_def split: option.splits)+

lemma abandon_agree:
  assumes "agree x y"
  shows "agree (abandon sw s m x) (abandon sw s m y)" and "w_queues (snd (abandon sw s m x)) = w_queues (snd x)"
  using assms by (cases x; cases y; auto simp: agree_def same_but_budget_def abandon_def Let_def split: option.splits)+

lemma handle_join_agree:
  assumes "agree (r, w) (r, v)"
  shows "agree (handle_join sw j (r, w)) (handle_join sw j (r, v))"
    and "w_queues (snd (handle_join sw j (r, w))) = w_queues w"
proof -
  have up: "agree (r', w) (r', v)" for r' using assms by (simp add: agree_def)
  show "agree (handle_join sw j (r, w)) (handle_join sw j (r, v))"
    using settle_agree(1) [OF up] abandon_agree(1) [OF up] up
    by (cases j) (auto simp: Let_def split: option.splits)
  show "w_queues (snd (handle_join sw j (r, w))) = w_queues w"
    using settle_agree(2) [OF up] abandon_agree(2) [OF up]
    by (cases j) (auto simp: Let_def split: option.splits)
qed

lemma fold_abandon_agree:
  "agree x y \<Longrightarrow> agree (fold (\<lambda>s. abandon sw s m) ks x) (fold (\<lambda>s. abandon sw s m) ks y)
     \<and> w_queues (snd (fold (\<lambda>s. abandon sw s m) ks x)) = w_queues (snd x)"
proof (induction ks arbitrary: x y)
  case (Cons k ks)
  from Cons.IH [OF abandon_agree(1) [OF Cons.prems, of sw k m]] abandon_agree(2) [OF Cons.prems, of sw k m]
  show ?case by simp
qed simp

lemma sweep_agree:
  assumes "agree (r, w) (r, v)" and "sweep sw b (r, w) = Some (r', w')"
  shows "\<exists>v'. sweep sw b (r, v) = Some (r', v') \<and> agree (r', w') (r', v') \<and> w_queues w' = w_queues w"
proof -
  obtain r1 where r1: "(if b then shutdown_tasks r else Some r) = Some r1"
    using assms(2) by (auto simp: sweep_def split: option.splits)
  let ?f = "fold (\<lambda>s. abandon sw s ''the drain deadline passed before the write finished'')
      (akeys (ld_pending (ru_ledger r1)))"
  have "agree (r1\<lparr>ru_waiting := []\<rparr>, w) (r1\<lparr>ru_waiting := []\<rparr>, v)" using assms(1) by (simp add: agree_def)
  note f = fold_abandon_agree [OF this, of sw "''the drain deadline passed before the write finished''"
      "akeys (ld_pending (ru_ledger r1))"]
  obtain ra wa where a: "?f (r1\<lparr>ru_waiting := []\<rparr>, w) = (ra, wa)" by fastforce
  obtain rb vb where b: "?f (r1\<lparr>ru_waiting := []\<rparr>, v) = (rb, vb)" by fastforce
  have "rb = ra" "same_but_budget wa vb" "w_queues wa = w_queues w" "w_queues wa = w_queues vb"
    using f a b by (auto simp: agree_def)
  with assms(2) r1 a b show ?thesis
    by (auto simp: sweep_def Let_def agree_def)
qed

lemma worker_step_agree:
  assumes "worker_step sw e (r, w) = Some (r', w')" and "agree (r, w) (r, v)"
  shows "\<exists>v'. worker_step sw e (r, v) = Some (r', v') \<and> w_heap v' = w_heap w' \<and> w_queues w' = w_queues w"
proof -
  have now: "w_now v = w_now w" "w_heap v = w_heap w" "w_queues v = w_queues w"
    using assms(2) by (simp_all add: agree_def same_but_budget_def)
  have swept: "\<exists>v'. run_sweep sw b due (r, v) = Some (r', v') \<and> w_heap v' = w_heap w' \<and> w_queues w' = w_queues w"
    if s: "run_sweep sw b due (r, w) = Some (r', w')" for b due
  proof -
    obtain r1 where c: "ru_phase r = DrainLoop" "due r" "sweep sw b (r, w) = Some (r1, w')" "r' = r1\<lparr>ru_phase := Returned\<rparr>"
      using s by (auto simp: run_sweep_def split: if_splits)
    obtain v' where "sweep sw b (r, v) = Some (r1, v')" "agree (r1, w') (r1, v')" "w_queues w' = w_queues w"
      using sweep_agree [OF assms(2) c(3)] by blast
    with c show ?thesis by (auto simp: run_sweep_def agree_def same_but_budget_def)
  qed
  consider tid msg where "e = Joined tid msg" | b where "e = PoolGone b" | b where "e = DeadlineReached b"
    | t where "e = Advance t"
    | "worker_step sw e (r, w) = map_option (\<lambda>r. (r, w)) (local_step sw (w_now w) e r)"
      "worker_step sw e (r, v) = map_option (\<lambda>r. (r, v)) (local_step sw (w_now v) e r)"
    using worker_step_local [of e sw r w] worker_step_local [of e sw r v] by blast
  then show ?thesis
  proof cases
    case (1 tid msg)
    with assms(1) obtain j where j: "looping r" "Option.bind (map_of (ru_tasks r) tid) (join_result tid msg) = Some j"
      "handle_join sw j (r\<lparr>ru_tasks := AList.delete tid (ru_tasks r)\<rparr>, w) = (r', w')"
      by (auto simp: worker_step_def run_join_def split: if_splits option.splits)
    have "agree (r\<lparr>ru_tasks := AList.delete tid (ru_tasks r)\<rparr>, w) (r\<lparr>ru_tasks := AList.delete tid (ru_tasks r)\<rparr>, v)"
      using assms(2) by (simp add: agree_def)
    note a = handle_join_agree [OF this, of sw j]
    obtain r2 v2 where "handle_join sw j (r\<lparr>ru_tasks := AList.delete tid (ru_tasks r)\<rparr>, v) = (r2, v2)" by fastforce
    with a j 1 show ?thesis
      by (auto simp: worker_step_def run_join_def agree_def same_but_budget_def)
  next
    case (2 b)
    with assms(1) swept show ?thesis by (auto simp: worker_step_def)
  next
    case (3 b)
    let ?due = "\<lambda>r. case ru_watch r of Some t \<Rightarrow> t \<le> w_now w | None \<Rightarrow> False"
    have "worker_step sw e (r, v) = run_sweep sw b ?due (r, v)" using 3 by (simp add: worker_step_def) (simp only: now)
    with swept [of b ?due] assms(1) 3 show ?thesis by (simp add: worker_step_def)
  next
    case (4 t)
    with assms(1) now show ?thesis by (auto simp: worker_step_def split: if_splits)
  next
    case 5
    with assms(1) now show ?thesis by auto
  qed
qed

text \<open>So a worker's step does to the heap what the step lemma says, whatever the budget reads.\<close>

lemma worker_step_heap:
  fixes w :: "'q world"
  assumes "worker_step sw e (r, w) = Some (r', w')" and inv: "worker_inv sw gs cur r" and rnd: "rounds (sw_rnd sw)"
    and "heap_ok (w_heap w) (held_acks gs cur r + (mset (acks_of (taken e)) + F))" and "settled sw gs r (w_heap w)"
  shows "\<exists>ext cur'. worker_inv sw (gs @ ext) cur' r' \<and> settled sw (gs @ ext) r' (w_heap w')
    \<and> heap_ok (w_heap w') (held_acks (gs @ ext) cur' r' + F) \<and> concat ext @ cur' = cur @ taken e
    \<and> heap_moves (w_heap w) (w_heap w') \<and> w_queues w' = w_queues w"
proof -
  let ?v = "w\<lparr>w_budget := held_bytes gs cur r + (bytes_of (taken e) + 0)\<rparr>"
  have "agree (r, w) (r, ?v)" by (simp add: agree_def same_but_budget_def)
  from worker_step_agree [OF assms(1) this] obtain v'
    where s: "worker_step sw e (r, ?v) = Some (r', v')" "w_heap v' = w_heap w'" "w_queues w' = w_queues w" by blast
  have "world_inv sw gs cur (mset (acks_of (taken e)) + F) (bytes_of (taken e) + 0) (r, ?v)"
    using assms(4,5) by (simp add: world_inv_def)
  from worker_step_ok [OF inv rnd this s(1)] s(2,3) show ?thesis by (auto simp: world_inv_def)
qed

section \<open>The pipeline\<close>

text \<open>
  A driver thread has its chain until it drops it, and the batch handles it has in its hands:
  the one of the batch it was issued, and clones. A shard has its worker, the position it has
  read its queue to, and whether the worker and its end of the queue are gone.
\<close>

record ('d, 's) pipe_thread =
  th_chain :: "('d, 's) typed_chain option"
  th_hand :: "ack_ref multiset"

record pipe_shard =
  sh_worker :: shard_worker
  sh_run :: shard_run
  sh_read :: nat
  sh_gone :: bool

record ('d, 's, 'c, 'f) pipe =
  pp_sys :: sys
  pp_threads :: "('d, 's) pipe_thread list"
  pp_shards :: "pipe_shard list"
  pp_queues :: "('c, 'f) shard_queues"
  pp_budget :: budget
  pp_now :: instant

abbreviation pp_heap :: "('d, 's, 'c, 'f) pipe \<Rightarrow> ack_heap" where
  "pp_heap p \<equiv> s_heap (pp_sys p)"

definition pipe_world :: "('d, 's, 'c, 'f) pipe \<Rightarrow> ('c, 'f) shard_queues world" where
  "pipe_world p = \<lparr>w_heap = pp_heap p, w_budget = pp_budget p, w_queues = pp_queues p, w_now = pp_now p\<rparr>"

definition set_world :: "('c, 'f) shard_queues world \<Rightarrow> ('d, 's, 'c, 'f) pipe \<Rightarrow> ('d, 's, 'c, 'f) pipe" where
  "set_world w p = p\<lparr>pp_sys := (pp_sys p)\<lparr>s_heap := w_heap w\<rparr>, pp_queues := w_queues w, pp_budget := w_budget w, pp_now := w_now w\<rparr>"

definition set_thread :: "nat \<Rightarrow> ('d, 's) pipe_thread \<Rightarrow> ('d, 's, 'c, 'f) pipe \<Rightarrow> ('d, 's, 'c, 'f) pipe" where
  "set_thread t th p = p\<lparr>pp_threads := (pp_threads p)[t := th]\<rparr>"

definition set_run :: "nat \<Rightarrow> pipe_shard \<Rightarrow> ('d, 's, 'c, 'f) pipe \<Rightarrow> ('d, 's, 'c, 'f) pipe" where
  "set_run i sh p = p\<lparr>pp_shards := (pp_shards p)[i := sh]\<rparr>"

definition set_heap :: "ack_heap \<Rightarrow> ('d, 's, 'c, 'f) pipe \<Rightarrow> ('d, 's, 'c, 'f) pipe" where
  "set_heap h p = p\<lparr>pp_sys := (pp_sys p)\<lparr>s_heap := h\<rparr>\<rparr>"

definition unread :: "('d, 's, 'c, 'f) pipe \<Rightarrow> nat \<Rightarrow> chunk list" where
  "unread p i = drop (sh_read (pp_shards p ! i)) (sent_on (pp_queues p) i)"

text \<open>The handles a worker's accumulator and ledger own.\<close>

definition run_acks :: "shard_run \<Rightarrow> ack_set" where
  "run_acks r = ac_acks (ru_acc r) @ concat (map (\<lambda>(_, b). pe_acks b) (ld_pending (ru_ledger r)))"

text \<open>
  One step of one party. \<open>control\<close> is the checkpoint side as far as it leaves the handles alone:
  the first half of an issue, a drain's messages, the assignment, the commits. \<open>issue\<close> is the
  second half of an issue: the thread has the new batch's handle in its hands. \<open>channel\<close> lets
  the channels change on their own, as they do when a worker receives. A worker's end, by
  return, abort or panic, drops its accumulator, its ledger, which gives the bytes of the pending
  batches back to the budget, and what is left in its queue; a thread's end drops its chain.
\<close>

inductive pipe_step ::
  "('d, 't) deserializer \<Rightarrow> ('t, 's, ('c, 'f) shard_queues) stage_ops \<Rightarrow> ('s \<Rightarrow> ('e, 'k) sink_handoff)
     \<Rightarrow> ('d, 's, 'c, 'f) pipe \<Rightarrow> ('d, 's, 'c, 'f) pipe \<Rightarrow> bool"
  for deserialize ops terminal where
  control:
    "cp_step (pp_sys p) s \<Longrightarrow> s_heap s = pp_heap p \<Longrightarrow> pipe_step deserialize ops terminal p (p\<lparr>pp_sys := s\<rparr>)"
| issue:
    "t < length (pp_threads p) \<Longrightarrow> s_issuing (pp_sys p) t = Some (b, off) \<Longrightarrow>
     ackref_new b off (pp_heap p) = (a, h) \<Longrightarrow> th = pp_threads p ! t \<Longrightarrow>
     s = (pp_sys p)\<lparr>s_regs := s_regs (pp_sys p) @ [\<lparr>reg_id = b, reg_last_offset = off\<rparr>], s_heap := h,
                    s_issuing := (s_issuing (pp_sys p))(t := None)\<rparr> \<Longrightarrow>
     pipe_step deserialize ops terminal p
       (set_thread t (th\<lparr>th_hand := add_mset a (th_hand th)\<rparr>) (p\<lparr>pp_sys := s\<rparr>))"
| clone:
    "t < length (pp_threads p) \<Longrightarrow> th = pp_threads p ! t \<Longrightarrow> a \<in># th_hand th \<Longrightarrow>
     pipe_step deserialize ops terminal p
       (set_thread t (th\<lparr>th_hand := add_mset a (th_hand th)\<rparr>) (set_heap (ackref_clone a (pp_heap p)) p))"
| fail:
    "t < length (pp_threads p) \<Longrightarrow> a \<in># th_hand (pp_threads p ! t) \<Longrightarrow>
     pipe_step deserialize ops terminal p (set_heap (ackref_fail a (pp_heap p)) p)"
| release:
    "t < length (pp_threads p) \<Longrightarrow> th = pp_threads p ! t \<Longrightarrow> a \<in># th_hand th \<Longrightarrow>
     pipe_step deserialize ops terminal p
       (set_thread t (th\<lparr>th_hand := th_hand th - {#a#}\<rparr>) (set_heap (ackref_drop a (pp_heap p)) p))"
| push:
    "t < length (pp_threads p) \<Longrightarrow> th = pp_threads p ! t \<Longrightarrow> th_chain th = Some c \<Longrightarrow> pb_ack batch \<in># th_hand th \<Longrightarrow>
     push_batch deserialize ops batch from c (pipe_world p) = Some (out, batch', c', w) \<Longrightarrow>
     pipe_step deserialize ops terminal p (set_thread t (th\<lparr>th_chain := Some c'\<rparr>) (set_world w p))"
| flush:
    "t < length (pp_threads p) \<Longrightarrow> th = pp_threads p ! t \<Longrightarrow> th_chain th = Some c \<Longrightarrow>
     chain_flush ops c (pipe_world p) = Some (out, c', w) \<Longrightarrow>
     pipe_step deserialize ops terminal p (set_thread t (th\<lparr>th_chain := Some c'\<rparr>) (set_world w p))"
| abandon_batch:
    "t < length (pp_threads p) \<Longrightarrow> th = pp_threads p ! t \<Longrightarrow> th_chain th = Some c \<Longrightarrow>
     pipe_step deserialize ops terminal p (set_thread t (th\<lparr>th_chain := Some (abandon_batch c)\<rparr>) p)"
| drop_chain:
    "t < length (pp_threads p) \<Longrightarrow> th = pp_threads p ! t \<Longrightarrow> th_chain th = Some c \<Longrightarrow>
     pipe_step deserialize ops terminal p
       (set_thread t (th\<lparr>th_chain := None\<rparr>) (set_world (handoff_drop (terminal (tc_ops c)) (pipe_world p)) p))"
| worker:
    "i < length (pp_shards p) \<Longrightarrow> sh = pp_shards p ! i \<Longrightarrow> \<not> sh_gone sh \<Longrightarrow> prefix (taken e) (unread p i) \<Longrightarrow>
     worker_step (sh_worker sh) e (sh_run sh, pipe_world p) = Some (r, w) \<Longrightarrow>
     pipe_step deserialize ops terminal p
       (set_run i (sh\<lparr>sh_run := r, sh_read := sh_read sh + length (taken e)\<rparr>) (set_world w p))"
| worker_end:
    "i < length (pp_shards p) \<Longrightarrow> sh = pp_shards p ! i \<Longrightarrow> \<not> sh_gone sh \<Longrightarrow>
     pipe_step deserialize ops terminal p
       (set_run i (sh\<lparr>sh_read := length (sent_on (pp_queues p) i), sh_gone := True\<rparr>)
         (set_heap (ackset_drop (run_acks (sh_run sh) @ acks_of (unread p i)) (pp_heap p))
           (p\<lparr>pp_budget := w_budget (ledger_drop (ru_ledger (sh_run sh)) (pipe_world p))\<rparr>)))"
| channel:
    "sent_on q = sent_on (pp_queues p) \<Longrightarrow> num_shards q = num_shards (pp_queues p) \<Longrightarrow>
     pipe_step deserialize ops terminal p (p\<lparr>pp_queues := q\<rparr>)"

text \<open>
  Where a pipeline starts: no epoch, no batch, new queues, a worker per shard, and chains that
  hold nothing.
\<close>

definition pipe_start :: "('s \<Rightarrow> ('e, 'k) sink_handoff) \<Rightarrow> ('d, 's, 'c, 'f) pipe \<Rightarrow> bool" where
  "pipe_start terminal p \<longleftrightarrow>
     pp_sys p = sys_init \<and> sent_on (pp_queues p) = (\<lambda>_. []) \<and>
     list_all (\<lambda>th. th_hand th = {#} \<and>
       (case th_chain th of None \<Rightarrow> True
        | Some c \<Rightarrow> held (terminal (tc_ops c)) = {#} \<and> handoff_sinv heap_empty (terminal (tc_ops c)) (pp_queues p)))
       (pp_threads p) \<and>
     length (pp_shards p) = num_shards (pp_queues p) \<and>
     list_all (\<lambda>sh. (\<exists>register. run_start (sh_worker sh) register = Some (sh_run sh)) \<and> sh_read sh = 0 \<and>
       \<not> sh_gone sh \<and> rounds (sw_rnd (sh_worker sh))) (pp_shards p)"

inductive pipe_reachable ::
  "('d, 't) deserializer \<Rightarrow> ('t, 's, ('c, 'f) shard_queues) stage_ops \<Rightarrow> ('s \<Rightarrow> ('e, 'k) sink_handoff)
     \<Rightarrow> ('d, 's, 'c, 'f) pipe \<Rightarrow> bool"
  for deserialize ops terminal where
  start: "pipe_start terminal p \<Longrightarrow> pipe_reachable deserialize ops terminal p"
| step: "pipe_reachable deserialize ops terminal p \<Longrightarrow> pipe_step deserialize ops terminal p p' \<Longrightarrow>
     pipe_reachable deserialize ops terminal p'"

section \<open>Who owns which handle\<close>

definition thread_acks :: "('s \<Rightarrow> ('e, 'k) sink_handoff) \<Rightarrow> ('d, 's) pipe_thread \<Rightarrow> ack_ref multiset" where
  "thread_acks terminal th =
     th_hand th + (case th_chain th of None \<Rightarrow> {#} | Some c \<Rightarrow> held (terminal (tc_ops c)))"

definition shard_acks :: "pipe_shard \<Rightarrow> ack_ref multiset" where
  "shard_acks sh = (if sh_gone sh then {#} else mset (run_acks (sh_run sh)))"

definition unread_acks :: "('d, 's, 'c, 'f) pipe \<Rightarrow> ack_ref multiset" where
  "unread_acks p = acks_in (length (pp_shards p)) (unread p)"

definition all_acks :: "('s \<Rightarrow> ('e, 'k) sink_handoff) \<Rightarrow> ('d, 's, 'c, 'f) pipe \<Rightarrow> ack_ref multiset" where
  "all_acks terminal p =
     (\<Sum>th\<leftarrow>pp_threads p. thread_acks terminal th) + (\<Sum>sh\<leftarrow>pp_shards p. shard_acks sh) + unread_acks p"

text \<open>
  \<open>gs\<close> and \<open>cur\<close> cut what a worker has read into the batches it sealed and what it was still
  gathering. A worker that is gone has written each batch or failed all its handles.
\<close>

definition left_behind :: "pipe_shard \<Rightarrow> chunk list list \<Rightarrow> chunk list \<Rightarrow> ack_heap \<Rightarrow> bool" where
  "left_behind sh gs cur h \<longleftrightarrow>
     (\<forall>g < length gs. batch_of (sh_worker sh) g (gs ! g) \<in> set (ru_written (sh_run sh))
        \<or> (\<forall>a \<in> set (acks_of (gs ! g)). ack_failed h a))
     \<and> (\<forall>a \<in> set (acks_of cur). ack_failed h a)"

definition shard_inv :: "ack_heap \<Rightarrow> chunk list \<Rightarrow> pipe_shard \<Rightarrow> bool" where
  "shard_inv h sent sh \<longleftrightarrow>
     sh_read sh \<le> length sent \<and> rounds (sw_rnd (sh_worker sh)) \<and>
     (\<exists>gs cur. concat gs @ cur = take (sh_read sh) sent \<and>
        (if sh_gone sh then left_behind sh gs cur h
         else worker_inv (sh_worker sh) gs cur (sh_run sh) \<and> settled (sh_worker sh) gs (sh_run sh) h))"

definition thread_inv :: "('s \<Rightarrow> ('e, 'k) sink_handoff) \<Rightarrow> ack_heap \<Rightarrow> ('c, 'f) shard_queues \<Rightarrow> ('d, 's) pipe_thread \<Rightarrow> bool" where
  "thread_inv terminal h q th \<longleftrightarrow>
     (case th_chain th of None \<Rightarrow> True | Some c \<Rightarrow> handoff_sinv h (terminal (tc_ops c)) q)"

definition pipe_inv :: "('s \<Rightarrow> ('e, 'k) sink_handoff) \<Rightarrow> ('d, 's, 'c, 'f) pipe \<Rightarrow> bool" where
  "pipe_inv terminal p \<longleftrightarrow>
     cp_reachable (pp_sys p) \<and> heap_ok (pp_heap p) (all_acks terminal p) \<and>
     (\<forall>i. \<forall>c \<in> set (sent_on (pp_queues p) i). chunk_ok (pp_heap p) c) \<and>
     list_all (thread_inv terminal (pp_heap p) (pp_queues p)) (pp_threads p) \<and>
     length (pp_shards p) = num_shards (pp_queues p) \<and>
     (\<forall>i < length (pp_shards p). shard_inv (pp_heap p) (sent_on (pp_queues p) i) (pp_shards p ! i))"

section \<open>Bookkeeping of handles\<close>

lemma pipe_frames [simp]:
  "pp_sys (set_world w p) = (pp_sys p)\<lparr>s_heap := w_heap w\<rparr>" "pp_threads (set_world w p) = pp_threads p"
  "pp_shards (set_world w p) = pp_shards p" "pp_queues (set_world w p) = w_queues w"
  "pp_sys (set_thread t th p) = pp_sys p" "pp_threads (set_thread t th p) = (pp_threads p)[t := th]"
  "pp_shards (set_thread t th p) = pp_shards p" "pp_queues (set_thread t th p) = pp_queues p"
  "pp_sys (set_run i sh p) = pp_sys p" "pp_threads (set_run i sh p) = pp_threads p"
  "pp_shards (set_run i sh p) = (pp_shards p)[i := sh]" "pp_queues (set_run i sh p) = pp_queues p"
  by (simp_all add: set_world_def set_thread_def set_run_def)

lemma pipe_world_simps [simp]:
  "w_heap (pipe_world p) = pp_heap p" "w_queues (pipe_world p) = pp_queues p"
  by (simp_all add: pipe_world_def)

lemma set_heap_world: "set_heap h p = set_world ((pipe_world p)\<lparr>w_heap := h\<rparr>) p"
  by (simp add: set_heap_def set_world_def pipe_world_def)

lemma mset_acks_of: "mset (acks_of cs) = (\<Sum>c\<leftarrow>cs. mset (ck_acks c))"
  by (induction cs) (simp_all add: acks_of_def)

lemma all_acks_thread:
  assumes "t < length (pp_threads p)"
  shows "\<exists>R. (\<forall>th. all_acks terminal (set_thread t th p) = thread_acks terminal th + R)
    \<and> all_acks terminal p = thread_acks terminal (pp_threads p ! t) + R"
proof -
  let ?f = "thread_acks terminal" and ?xs = "pp_threads p"
  let ?rest = "(\<Sum>sh\<leftarrow>pp_shards p. shard_acks sh) + unread_acks p"
  obtain R where R: "sum_list (map ?f ?xs) = ?f (?xs ! t) + R"
    using sum_list_split_nth [OF assms] by blast
  have "sum_list (map ?f (?xs[t := th])) = ?f th + R" for th
    using sum_list_map_upd [OF assms, of ?f th] R by simp
  moreover have "unread_acks (set_thread t th p) = unread_acks p" for th
    by (simp add: unread_acks_def unread_def [abs_def])
  ultimately show ?thesis
    using R by (intro exI [of _ "R + ?rest"]) (simp add: all_acks_def ac_simps)
qed

lemma acks_in_split:
  "i < n \<Longrightarrow> acks_in n s = mset (acks_of (s i)) + (\<Sum>j \<in> {..<n} - {i}. mset (acks_of (s j)))"
  by (simp add: acks_in_def stream_sum_def mset_acks_of sum.remove)

lemma all_acks_shard:
  assumes "i < length (pp_shards p)"
  shows "\<exists>R. (\<forall>sh. all_acks terminal (set_run i sh p)
        = shard_acks sh + mset (acks_of (drop (sh_read sh) (sent_on (pp_queues p) i))) + R)
    \<and> all_acks terminal p = shard_acks (pp_shards p ! i) + mset (acks_of (unread p i)) + R"
proof -
  let ?f = shard_acks and ?xs = "pp_shards p" and ?n = "length (pp_shards p)"
  let ?th = "\<Sum>th\<leftarrow>pp_threads p. thread_acks terminal th"
  let ?U = "\<Sum>j \<in> {..<?n} - {i}. mset (acks_of (unread p j))"
  obtain R where R: "sum_list (map ?f ?xs) = ?f (?xs ! i) + R"
    using sum_list_split_nth [OF assms] by blast
  have "sum_list (map ?f (?xs[i := sh])) = ?f sh + R" for sh
    using sum_list_map_upd [OF assms, of ?f sh] R by simp
  moreover have "unread_acks p = mset (acks_of (unread p i)) + ?U"
    unfolding unread_acks_def by (rule acks_in_split [OF assms])
  moreover have "unread_acks (set_run i sh p) = mset (acks_of (drop (sh_read sh) (sent_on (pp_queues p) i))) + ?U" for sh
    unfolding unread_acks_def using assms acks_in_split [OF assms, of "unread (set_run i sh p)"]
    by (simp add: unread_def)
  ultimately show ?thesis
    using R by (intro exI [of _ "R + (?th + ?U)"]) (simp add: all_acks_def ac_simps)
qed

text \<open>What a thread's operation put on the queues is what the queues have more to read.\<close>

lemma all_acks_sent:
  assumes "length (pp_shards p) = num_shards (pp_queues p)" and "num_shards q = num_shards (pp_queues p)"
    and "\<And>i. prefix (sent_on (pp_queues p) i) (sent_on q i)"
    and "\<And>i. i < length (pp_shards p) \<Longrightarrow> sh_read (pp_shards p ! i) \<le> length (sent_on (pp_queues p) i)"
    and "handoff_sent q = handoff_sent (pp_queues p) + G" and "w_queues w = q"
  shows "all_acks terminal (set_world w p) = all_acks terminal p + G"
proof -
  let ?n = "length (pp_shards p)"
  have "\<exists>d. \<forall>i. sent_on q i = sent_on (pp_queues p) i @ d i"
    using assms(3) by (auto simp: prefix_def intro!: choice)
  then obtain d where d: "\<And>i. sent_on q i = sent_on (pp_queues p) i @ d i" by blast
  have "acks_in ?n (sent_on q) = acks_in ?n (sent_on (pp_queues p)) + acks_in ?n d"
    by (simp add: acks_in_def stream_sum_def d sum.distrib)
  with assms(1,2,5) have G: "acks_in ?n d = G" by (simp add: handoff_sent_def)
  have "unread (set_world w p) i = unread p i @ d i" if "i < ?n" for i
    using assms(4) [OF that] by (simp add: unread_def d assms(6))
  then have "unread_acks (set_world w p) = unread_acks p + acks_in ?n d"
    by (simp add: unread_acks_def acks_in_def stream_sum_def flip: sum.distrib)
  with G show ?thesis by (simp add: all_acks_def ac_simps)
qed

lemma run_acks_held:
  assumes "worker_inv sw gs cur r"
  shows "mset (run_acks r) = held_acks gs cur r"
proof -
  have "ac_acks (ru_acc r) = acks_of cur"
    using assms by (simp add: worker_inv_def books_def acc_matches_def)
  moreover have "mset (concat (map (\<lambda>(_, b). pe_acks b) ps)) = (\<Sum>(_, b)\<leftarrow>ps. mset (pe_acks b))"
    for ps :: "(nat \<times> pending_batch) list"
    by (induction ps) (auto split: prod.splits)
  ultimately show ?thesis
    using held_pending(1) [OF assms] by (simp add: run_acks_def held_acks_def)
qed

lemma fold_ackset_drop_moves:
  "heap_ok h ((\<Sum>s\<leftarrow>ss. mset s) + F) \<Longrightarrow> heap_moves h (fold ackset_drop ss h) \<and> heap_ok (fold ackset_drop ss h) F"
proof (induction ss arbitrary: h)
  case (Cons s ss)
  have ok: "heap_ok h (mset s + ((\<Sum>s\<leftarrow>ss. mset s) + F))" using Cons.prems by (simp add: ac_simps)
  from Cons.IH [OF heap_ok_ackset_drop [OF ok]] heap_moves_trans [OF heap_moves_ackset_drop [OF ok]] show ?case by simp
qed simp

section \<open>What every step leaves of the parts it does not touch\<close>

lemma cp_reachable_heap: "cp_reachable s \<Longrightarrow> heap_moves (s_heap s) h \<Longrightarrow> cp_reachable (s\<lparr>s_heap := h\<rparr>)"
  using cp_reachable_inv [of s]
  by (intro cp_reachable.step [OF _ cp_step.handles]) (auto simp: heap_env_def heap_moves_def sys_inv_def chan_inv_def)

lemma thread_inv_mono:
  assumes "thread_inv terminal h q th" and "heap_le h h'" and "num_shards q' = num_shards q"
    and "\<And>i c. c \<in> set (sent_on q' i) \<Longrightarrow> chunk_ok h' c"
  shows "thread_inv terminal h' q' th"
proof (cases "th_chain th")
  case (Some c)
  then have "handoff_inv h' (terminal (tc_ops c)) (sent_on q)"
    using assms(1) handoff_inv_mono [OF _ assms(2)] by (auto simp: thread_inv_def handoff_sinv_def)
  then have "handoff_inv h' (terminal (tc_ops c)) (sent_on q')"
    using assms(4) by (auto simp: handoff_inv_def chunk_stream_def)
  with assms(1,3) Some show ?thesis by (auto simp: thread_inv_def handoff_sinv_def)
qed (simp add: thread_inv_def)

lemma shard_inv_mono:
  assumes "shard_inv h sent sh" and "heap_le h h'" and "prefix sent sent'"
  shows "shard_inv h' sent' sh"
proof -
  obtain gs cur where g: "concat gs @ cur = take (sh_read sh) sent"
    "if sh_gone sh then left_behind sh gs cur h
     else worker_inv (sh_worker sh) gs cur (sh_run sh) \<and> settled (sh_worker sh) gs (sh_run sh) h"
    using assms(1) unfolding shard_inv_def by blast
  have "take (sh_read sh) sent' = take (sh_read sh) sent" "sh_read sh \<le> length sent'"
    using assms(1,3) by (auto simp: shard_inv_def prefix_def)
  moreover have "left_behind sh gs cur h \<Longrightarrow> left_behind sh gs cur h'"
    unfolding left_behind_def using heap_le_failed [OF assms(2)] by blast
  moreover note settled_mono [OF _ assms(2)]
  ultimately show ?thesis
    using assms(1) g by (auto simp: shard_inv_def split: if_splits intro!: exI [of _ gs] exI [of _ cur])
qed

lemma shard_inv_read: "shard_inv h sent sh \<Longrightarrow> sh_read sh \<le> length sent"
  by (simp add: shard_inv_def)

lemma pipe_inv_thread:
  assumes inv: "pipe_inv terminal p" and "heap_moves (pp_heap p) (w_heap w)"
    and "heap_ok (w_heap w) (all_acks terminal (set_thread t th (set_world w p)))"
    and "num_shards (w_queues w) = num_shards (pp_queues p)"
    and "\<And>i. prefix (sent_on (pp_queues p) i) (sent_on (w_queues w) i)"
    and chunks: "\<And>i c. c \<in> set (sent_on (w_queues w) i) \<Longrightarrow> chunk_ok (w_heap w) c"
    and "thread_inv terminal (w_heap w) (w_queues w) th"
  shows "pipe_inv terminal (set_thread t th (set_world w p))"
proof -
  note le = heap_moves_le [OF assms(2)]
  have "thread_inv terminal (w_heap w) (w_queues w) x" if "x \<in> set (pp_threads p)" "thread_inv terminal (pp_heap p) (pp_queues p) x" for x
    using that(2) thread_inv_mono [OF _ le assms(4)] chunks by blast
  then have "list_all (thread_inv terminal (w_heap w) (w_queues w)) (pp_threads p)"
    using inv by (simp add: pipe_inv_def list_all_iff)
  then have "list_all (thread_inv terminal (w_heap w) (w_queues w)) ((pp_threads p)[t := th])"
    using assms(7) set_update_subset_insert [of "pp_threads p" t th] by (auto simp: list_all_iff)
  moreover have "\<forall>i < length (pp_shards p). shard_inv (w_heap w) (sent_on (w_queues w) i) (pp_shards p ! i)"
    using inv shard_inv_mono [OF _ le assms(5)] by (simp add: pipe_inv_def)
  ultimately show ?thesis
    using assms cp_reachable_heap [OF _ assms(2)] by (simp add: pipe_inv_def)
qed

lemma pipe_inv_shard:
  assumes inv: "pipe_inv terminal p" and "heap_moves (pp_heap p) (w_heap w)" and i: "i < length (pp_shards p)"
    and "heap_ok (w_heap w) (all_acks terminal (set_run i sh (set_world w p)))"
    and q: "w_queues w = pp_queues p" and sh: "shard_inv (w_heap w) (sent_on (pp_queues p) i) sh"
  shows "pipe_inv terminal (set_run i sh (set_world w p))"
proof -
  note le = heap_moves_le [OF assms(2)]
  have chunks: "\<forall>i. \<forall>c \<in> set (sent_on (pp_queues p) i). chunk_ok (w_heap w) c"
    using inv chunk_ok_mono [OF _ le] by (simp add: pipe_inv_def)
  have "thread_inv terminal (w_heap w) (pp_queues p) x" if "x \<in> set (pp_threads p)" "thread_inv terminal (pp_heap p) (pp_queues p) x" for x
    using that(2) thread_inv_mono [OF _ le refl] chunks by blast
  then have "list_all (thread_inv terminal (w_heap w) (pp_queues p)) (pp_threads p)"
    using inv by (simp add: pipe_inv_def list_all_iff)
  moreover have "shard_inv (w_heap w) (sent_on (pp_queues p) j) ((pp_shards p)[i := sh] ! j)" if "j < length (pp_shards p)" for j
  proof (cases "i = j")
    case False
    have "shard_inv (pp_heap p) (sent_on (pp_queues p) j) (pp_shards p ! j)" using inv that by (simp add: pipe_inv_def)
    from shard_inv_mono [OF this le] False show ?thesis by simp
  qed (use sh that in simp)
  ultimately show ?thesis
    using assms chunks cp_reachable_heap [OF _ assms(2)] by (simp add: pipe_inv_def)
qed

section \<open>Every step keeps the invariant\<close>

lemma pipe_inv_outbox: "pipe_inv terminal p \<Longrightarrow> outbox_ok (pp_heap p)"
  using cp_reachable_inv by (auto simp: pipe_inv_def sys_inv_def chan_inv_def)

text \<open>A thread that changes what it has in its hands, or a handle's status, and nothing else.\<close>

lemma pipe_inv_hand:
  assumes inv: "pipe_inv terminal p" and t: "t < length (pp_threads p)" and moves: "heap_moves (pp_heap p) h"
    and th: "th_chain th = th_chain (pp_threads p ! t)"
    and ok: "\<And>R. heap_ok (pp_heap p) (th_hand (pp_threads p ! t) + R) \<Longrightarrow> heap_ok h (th_hand th + R)"
  shows "pipe_inv terminal (set_thread t th (set_heap h p))"
proof -
  let ?w = "(pipe_world p)\<lparr>w_heap := h\<rparr>"
  obtain R where R: "\<And>th. all_acks terminal (set_thread t th p) = thread_acks terminal th + R"
    "all_acks terminal p = thread_acks terminal (pp_threads p ! t) + R"
    using all_acks_thread [OF t, of terminal] by metis
  have acks: "all_acks terminal (set_thread t th (set_world ?w p)) = all_acks terminal (set_thread t th p)"
    by (simp add: all_acks_def unread_acks_def unread_def [abs_def])
  let ?held = "case th_chain th of None \<Rightarrow> {#} | Some c \<Rightarrow> held (terminal (tc_ops c))"
  have "heap_ok h (th_hand th + (?held + R))"
    by (rule ok) (use inv R(2) th in \<open>simp add: pipe_inv_def thread_acks_def add.assoc\<close>)
  then have h: "heap_ok h (all_acks terminal (set_thread t th (set_world ?w p)))"
    unfolding acks R(1) by (simp add: thread_acks_def add.assoc)
  have chunks: "chunk_ok h c" if "c \<in> set (sent_on (pp_queues p) i)" for i c
    using inv that chunk_ok_mono [OF _ heap_moves_le [OF moves]] by (simp add: pipe_inv_def)
  have "thread_inv terminal (pp_heap p) (pp_queues p) (pp_threads p ! t)"
    using inv t by (simp add: pipe_inv_def list_all_length)
  then have "thread_inv terminal (pp_heap p) (pp_queues p) th" by (simp add: thread_inv_def th)
  then have "thread_inv terminal h (pp_queues p) th"
    using thread_inv_mono [OF _ heap_moves_le [OF moves] refl] chunks by blast
  then show ?thesis
    unfolding set_heap_world using pipe_inv_thread [OF inv, of ?w t th] moves h chunks by simp
qed

lemma pipe_inv_chain:
  fixes p :: "('d, 's, 'c, 'f) pipe"
  assumes inv: "pipe_inv terminal p" and t: "t < length (pp_threads p)" and th: "th = pp_threads p ! t" "th_chain th = Some c"
    and eff: "\<And>F. th_hand th \<subseteq># F \<Longrightarrow> heap_ok (pp_heap p) (held (terminal (tc_ops c)) + F) \<Longrightarrow>
      (\<exists>G. handoff_sent (w_queues w) = handoff_sent (pp_queues p) + G \<and>
        heap_ok (w_heap w) (held (terminal (tc_ops c')) + G + F)) \<and>
      heap_moves (pp_heap p) (w_heap w) \<and> handoff_sinv (w_heap w) (terminal (tc_ops c')) (w_queues w) \<and>
      num_shards (w_queues w) = num_shards (pp_queues p) \<and>
      (\<forall>i. prefix (sent_on (pp_queues p) i) (sent_on (w_queues w) i))"
  shows "pipe_inv terminal (set_thread t (th\<lparr>th_chain := Some c'\<rparr>) (set_world w p))"
proof -
  let ?th = "th\<lparr>th_chain := Some c'\<rparr>"
  obtain R where R: "\<And>th. all_acks terminal (set_thread t th p) = thread_acks terminal th + R"
    "all_acks terminal p = thread_acks terminal (pp_threads p ! t) + R"
    using all_acks_thread [OF t, of terminal] by metis
  have "heap_ok (pp_heap p) (held (terminal (tc_ops c)) + (th_hand th + R))"
    using inv R(2) th by (simp add: pipe_inv_def thread_acks_def ac_simps)
  from eff [OF _ this] obtain G where G: "handoff_sent (w_queues w) = handoff_sent (pp_queues p) + G"
      "heap_ok (w_heap w) (held (terminal (tc_ops c')) + G + (th_hand th + R))"
    and e: "heap_moves (pp_heap p) (w_heap w)" "handoff_sinv (w_heap w) (terminal (tc_ops c')) (w_queues w)"
      "num_shards (w_queues w) = num_shards (pp_queues p)" "\<And>i. prefix (sent_on (pp_queues p) i) (sent_on (w_queues w) i)"
    by auto
  let ?p = "set_thread t ?th p"
  have "all_acks terminal (set_world w ?p) = all_acks terminal ?p + G"
  proof (rule all_acks_sent [where q = "w_queues w"])
    show "sh_read (pp_shards ?p ! i) \<le> length (sent_on (pp_queues ?p) i)" if "i < length (pp_shards ?p)" for i
      using inv that by (intro shard_inv_read [of "pp_heap p"]) (simp add: pipe_inv_def)
  qed (use inv e G(1) in \<open>simp_all add: pipe_inv_def\<close>)
  moreover have "set_world w ?p = set_thread t ?th (set_world w p)" by (simp add: set_world_def set_thread_def)
  ultimately have h: "heap_ok (w_heap w) (all_acks terminal (set_thread t ?th (set_world w p)))"
    using G(2) by (simp add: R(1) thread_acks_def ac_simps)
  have "chunk_ok (w_heap w) x" if "x \<in> set (sent_on (w_queues w) i)" for i x
    using e(2) that by (auto simp: handoff_sinv_def handoff_inv_def chunk_stream_def)
  then show ?thesis
    using pipe_inv_thread [OF inv e(1) h e(3,4)] e(2) by (simp add: thread_inv_def)
qed

lemma fold_drop_queues [simp]:
  "w_queues (fold drop_chunk cs w) = w_queues w" "w_queues (fold drop_buf bs w) = w_queues w"
proof -
  show "w_queues (fold drop_chunk cs w) = w_queues w" by (induction cs arbitrary: w) (simp_all add: drop_chunk_def)
  show "w_queues (fold drop_buf bs w) = w_queues w" by (induction bs arbitrary: w) (simp_all add: drop_buf_def)
qed

lemma handoff_drop_queues [simp]: "w_queues (handoff_drop h w) = w_queues w"
  by (simp add: handoff_drop_def)

lemma pipe_inv_drop_chain:
  assumes inv: "pipe_inv terminal p" and t: "t < length (pp_threads p)" and th: "th = pp_threads p ! t" "th_chain th = Some c"
  shows "pipe_inv terminal (set_thread t (th\<lparr>th_chain := None\<rparr>)
    (set_world (handoff_drop (terminal (tc_ops c)) (pipe_world p)) p))"
proof -
  let ?h = "terminal (tc_ops c)" and ?th = "th\<lparr>th_chain := None\<rparr>"
  let ?w = "handoff_drop ?h (pipe_world p)"
  define ss where "ss = map ck_acks (map snd (ho_parked ?h)) @ map sb_acks (ho_shards ?h)"
  obtain R where R: "\<And>th. all_acks terminal (set_thread t th p) = thread_acks terminal th + R"
    "all_acks terminal p = thread_acks terminal (pp_threads p ! t) + R"
    using all_acks_thread [OF t, of terminal] by metis
  have "thread_inv terminal (pp_heap p) (pp_queues p) th" using inv t th(1) by (simp add: pipe_inv_def list_all_length)
  then have "parked_inv (ho_shards ?h) (ho_parked ?h)"
    by (simp add: thread_inv_def th(2) handoff_sinv_def handoff_inv_def)
  from held_sum [OF this] have held: "held ?h = (\<Sum>s\<leftarrow>ss. mset s)" by (simp add: ss_def)
  have "heap_ok (pp_heap p) ((\<Sum>s\<leftarrow>ss. mset s) + (th_hand th + R))"
    unfolding held [symmetric] using inv R(2) th by (simp add: pipe_inv_def thread_acks_def ac_simps)
  from fold_ackset_drop_moves [OF this]
  have d: "heap_moves (pp_heap p) (w_heap ?w)" "heap_ok (w_heap ?w) (th_hand th + R)"
    by (simp_all add: handoff_drop_heap ss_def)
  have q: "w_queues ?w = pp_queues p" by simp
  have "all_acks terminal (set_thread t ?th (set_world ?w p)) = all_acks terminal (set_thread t ?th p)"
    by (simp add: all_acks_def unread_acks_def unread_def [abs_def] q)
  then have "heap_ok (w_heap ?w) (all_acks terminal (set_thread t ?th (set_world ?w p)))"
    using d(2) by (simp add: R(1) thread_acks_def)
  moreover have "chunk_ok (w_heap ?w) x" if "x \<in> set (sent_on (w_queues ?w) i)" for i x
    using inv that chunk_ok_mono [OF _ heap_moves_le [OF d(1)]] by (simp add: pipe_inv_def q)
  moreover have "thread_inv terminal (w_heap ?w) (w_queues ?w) ?th" by (simp add: thread_inv_def)
  ultimately show ?thesis
    by (intro pipe_inv_thread [OF inv d(1)]) (simp_all add: q)
qed

lemma pipe_inv_heap: "pipe_inv terminal p \<Longrightarrow> heap_ok (pp_heap p) (all_acks terminal p)"
  by (simp add: pipe_inv_def)

lemma pipe_inv_worker:
  assumes inv: "pipe_inv terminal p" and i: "i < length (pp_shards p)" and sh: "sh = pp_shards p ! i" "\<not> sh_gone sh"
    and pre: "prefix (taken e) (unread p i)"
    and step: "worker_step (sh_worker sh) e (sh_run sh, pipe_world p) = Some (r, w)"
  shows "pipe_inv terminal (set_run i (sh\<lparr>sh_run := r, sh_read := sh_read sh + length (taken e)\<rparr>) (set_world w p))"
proof -
  let ?sent = "sent_on (pp_queues p) i" and ?n = "sh_read sh + length (taken e)"
  let ?sh = "sh\<lparr>sh_run := r, sh_read := ?n\<rparr>"
  obtain R where R: "\<And>sh. all_acks terminal (set_run i sh p) = shard_acks sh + mset (acks_of (drop (sh_read sh) ?sent)) + R"
    "all_acks terminal p = shard_acks sh + mset (acks_of (unread p i)) + R"
    using all_acks_shard [OF i, of terminal] sh(1) by metis
  have "shard_inv (pp_heap p) ?sent sh" using inv i sh(1) by (simp add: pipe_inv_def)
  then obtain gs cur where g: "sh_read sh \<le> length ?sent" "rounds (sw_rnd (sh_worker sh))"
      "concat gs @ cur = take (sh_read sh) ?sent" "worker_inv (sh_worker sh) gs cur (sh_run sh)"
      "settled (sh_worker sh) gs (sh_run sh) (pp_heap p)"
    using sh(2) by (auto simp: shard_inv_def)
  obtain us where us: "drop (sh_read sh) ?sent = taken e @ us" using pre sh(1) by (auto simp: prefix_def unread_def)
  note rest = read_more [OF us g(1)]
  have "heap_ok (w_heap (pipe_world p))
      (held_acks gs cur (sh_run sh) + (mset (acks_of (taken e)) + (mset (acks_of us) + R)))"
    using pipe_inv_heap [OF inv] sh(2) us
    unfolding R(2) by (simp add: unread_def shard_acks_def run_acks_held [OF g(4)] ac_simps flip: sh(1))
  from worker_step_heap [OF step g(4,2) this] g(5) obtain ext cur'
    where s: "worker_inv (sh_worker sh) (gs @ ext) cur' r" "settled (sh_worker sh) (gs @ ext) r (w_heap w)"
      "heap_ok (w_heap w) (held_acks (gs @ ext) cur' r + (mset (acks_of us) + R))"
      "concat ext @ cur' = cur @ taken e" "heap_moves (pp_heap p) (w_heap w)" "w_queues w = pp_queues p"
    by auto
  have "concat (gs @ ext) @ cur' = take ?n ?sent" by (simp add: s(4) rest(2) flip: g(3))
  with s(1,2) rest(3) g(2) sh(2) have "shard_inv (w_heap w) ?sent ?sh"
    unfolding shard_inv_def by (intro conjI exI [of _ "gs @ ext"] exI [of _ cur']) simp_all
  moreover have "all_acks terminal (set_run i ?sh (set_world w p)) = all_acks terminal (set_run i ?sh p)"
    by (simp add: all_acks_def unread_acks_def unread_def [abs_def] s(6))
  then have "heap_ok (w_heap w) (all_acks terminal (set_run i ?sh (set_world w p)))"
    using s(3) sh(2) rest(1) by (simp add: R(1) shard_acks_def run_acks_held [OF s(1)] ac_simps)
  ultimately show ?thesis by (intro pipe_inv_shard [OF inv s(5) i _ s(6)])
qed

lemma pipe_inv_budget: "pipe_inv terminal (p\<lparr>pp_budget := x\<rparr>) \<longleftrightarrow> pipe_inv terminal p"
  by (simp add: pipe_inv_def all_acks_def unread_acks_def unread_def [abs_def])

lemma set_run_budget: "set_run i sh (set_heap h (p\<lparr>pp_budget := x\<rparr>)) = (set_run i sh (set_heap h p))\<lparr>pp_budget := x\<rparr>"
  by (simp add: set_run_def set_heap_def)

lemma pipe_inv_worker_end:
  assumes inv: "pipe_inv terminal p" and i: "i < length (pp_shards p)" and sh: "sh = pp_shards p ! i" "\<not> sh_gone sh"
  shows "pipe_inv terminal (set_run i (sh\<lparr>sh_read := length (sent_on (pp_queues p) i), sh_gone := True\<rparr>)
         (set_heap (ackset_drop (run_acks (sh_run sh) @ acks_of (unread p i)) (pp_heap p)) p))"
proof -
  let ?sent = "sent_on (pp_queues p) i"
  let ?sh = "sh\<lparr>sh_read := length ?sent, sh_gone := True\<rparr>"
  let ?s = "run_acks (sh_run sh) @ acks_of (unread p i)"
  let ?h = "ackset_drop ?s (pp_heap p)"
  obtain R where R: "\<And>sh. all_acks terminal (set_run i sh p) = shard_acks sh + mset (acks_of (drop (sh_read sh) ?sent)) + R"
    "all_acks terminal p = shard_acks sh + mset (acks_of (unread p i)) + R"
    using all_acks_shard [OF i, of terminal] sh(1) by metis
  have "shard_inv (pp_heap p) ?sent sh" using inv i sh(1) by (simp add: pipe_inv_def)
  then obtain gs cur where g: "sh_read sh \<le> length ?sent" "rounds (sw_rnd (sh_worker sh))"
      "concat gs @ cur = take (sh_read sh) ?sent" "worker_inv (sh_worker sh) gs cur (sh_run sh)"
      "settled (sh_worker sh) gs (sh_run sh) (pp_heap p)"
    using sh(2) by (auto simp: shard_inv_def)
  have ok: "heap_ok (pp_heap p) (mset ?s + R)" 
    using pipe_inv_heap [OF inv] sh(2) unfolding R(2) by (simp add: shard_acks_def)
  note moves = heap_moves_ackset_drop [OF ok] and failed = ackset_drop_all_failed [OF ok]
  have own: "a \<in> set (run_acks (sh_run sh)) \<longleftrightarrow> a \<in># held_acks gs cur (sh_run sh)" for a
    by (simp flip: run_acks_held [OF g(4)] set_mset_mset)
  have "left_behind ?sh gs (cur @ unread p i) ?h"
    unfolding left_behind_def
  proof (intro conjI allI impI)
    fix k assume k: "k < length gs"
    show "batch_of (sh_worker ?sh) k (gs ! k) \<in> set (ru_written (sh_run ?sh)) \<or> (\<forall>a \<in> set (acks_of (gs ! k)). ack_failed ?h a)"
    proof (cases "k \<in> set (akeys (ld_pending (ru_ledger (sh_run sh))))")
      case True
      then have "a \<in> set ?s" if "a \<in> set (acks_of (gs ! k))" for a
        using that own [of a] by (auto simp: held_acks_def in_sum_mset)
      with failed show ?thesis by blast
    next
      case False
      with settled_mono [OF g(5) heap_moves_le [OF moves]] k show ?thesis by (simp add: settled_def)
    qed
  next
    show "\<forall>a \<in> set (acks_of (cur @ unread p i)). ack_failed ?h a"
    proof
      fix a assume "a \<in> set (acks_of (cur @ unread p i))"
      then have "a \<in> set ?s" using own [of a] by (auto simp: held_acks_def)
      then show "ack_failed ?h a" by (rule failed)
    qed
  qed
  moreover have "concat gs @ (cur @ unread p i) = take (length ?sent) ?sent"
    using g(3) sh(1) by (simp add: unread_def flip: append_assoc)
  ultimately have "shard_inv ?h ?sent ?sh" using g(2) by (auto simp: shard_inv_def simp del: take_all_iff)
  moreover have "all_acks terminal (set_run i ?sh (set_heap ?h p)) = all_acks terminal (set_run i ?sh p)"
    by (simp add: set_heap_world all_acks_def unread_acks_def unread_def [abs_def])
  then have "heap_ok ?h (all_acks terminal (set_run i ?sh (set_heap ?h p)))"
    using heap_ok_ackset_drop [OF ok] by (simp add: R(1) shard_acks_def)
  ultimately show ?thesis
    unfolding set_heap_world by (intro pipe_inv_shard [OF inv _ i]) (simp_all add: moves)
qed

lemma pipe_inv_issue:
  assumes inv: "pipe_inv terminal p" and t: "t < length (pp_threads p)" and b: "s_issuing (pp_sys p) t = Some (b, off)"
    and new: "ackref_new b off (pp_heap p) = (a, h)" and th: "th = pp_threads p ! t"
    and s: "s = (pp_sys p)\<lparr>s_regs := s_regs (pp_sys p) @ [\<lparr>reg_id = b, reg_last_offset = off\<rparr>], s_heap := h,
                    s_issuing := (s_issuing (pp_sys p))(t := None)\<rparr>"
  shows "pipe_inv terminal (set_thread t (th\<lparr>th_hand := add_mset a (th_hand th)\<rparr>) (p\<lparr>pp_sys := s\<rparr>))"
proof -
  let ?th = "th\<lparr>th_hand := add_mset a (th_hand th)\<rparr>"
  let ?p = "set_thread t ?th (p\<lparr>pp_sys := s\<rparr>)"
  obtain R where R: "\<And>th. all_acks terminal (set_thread t th p) = thread_acks terminal th + R"
    "all_acks terminal p = thread_acks terminal th + R"
    using all_acks_thread [OF t, of terminal] th by metis
  have heap: "s_heap s = h" by (simp add: s)
  note le = heap_le_new [OF new]
  have "cp_reachable s"
    unfolding s by (rule cp_reachable.step [OF _ cp_step.issue_send [OF b new]]) (use inv in \<open>simp add: pipe_inv_def\<close>)
  moreover have "all_acks terminal ?p = add_mset a (all_acks terminal p)"
  proof -
    have "all_acks terminal ?p = all_acks terminal (set_thread t ?th p)"
      by (simp add: all_acks_def unread_acks_def unread_def [abs_def])
    also have "\<dots> = thread_acks terminal ?th + R" by (rule R(1))
    also have "\<dots> = add_mset a (all_acks terminal p)" by (simp add: R(2) thread_acks_def)
    finally show ?thesis .
  qed
  with heap_ok_new [OF pipe_inv_heap [OF inv] new] have "heap_ok h (all_acks terminal ?p)" by simp
  moreover have chunks: "\<forall>i. \<forall>c \<in> set (sent_on (pp_queues p) i). chunk_ok h c"
    using inv chunk_ok_mono [OF _ le] by (simp add: pipe_inv_def)
  moreover have "thread_inv terminal h (pp_queues p) x" if "x \<in> set ((pp_threads p)[t := ?th])" for x
  proof -
    have "thread_inv terminal (pp_heap p) (pp_queues p) y" if "y \<in> set (pp_threads p)" for y
      using inv that by (simp add: pipe_inv_def list_all_iff)
    then have old: "thread_inv terminal h (pp_queues p) y" if "y \<in> set (pp_threads p)" for y
      using thread_inv_mono [OF _ le refl] chunks that by blast
    have "thread_inv terminal h (pp_queues p) ?th"
      using old [of th] t th by (simp add: thread_inv_def)
    with old that show ?thesis using set_update_subset_insert [of "pp_threads p" t ?th] by blast
  qed
  moreover have "shard_inv h (sent_on (pp_queues p) i) (pp_shards p ! i)" if "i < length (pp_shards p)" for i
    using inv that by (intro shard_inv_mono [OF _ le prefix_order.refl]) (simp add: pipe_inv_def)
  ultimately show ?thesis using inv by (simp add: pipe_inv_def heap list_all_iff)
qed

context chain_ops
begin

lemma pipe_step_inv:
  assumes "pipe_step deserialize ops terminal p p'" and inv: "pipe_inv terminal p"
  shows "pipe_inv terminal p'"
  using assms(1)
proof cases
  case (control s)
  have "all_acks terminal (p\<lparr>pp_sys := s\<rparr>) = all_acks terminal p"
    by (simp add: all_acks_def unread_acks_def unread_def [abs_def])
  with control inv cp_reachable.step [of "pp_sys p" s] show ?thesis by (simp add: pipe_inv_def)
next
  case (issue t b off a h th s)
  from pipe_inv_issue [OF inv issue(2-6)] issue(1) show ?thesis by simp
next
  case (clone t th a)
  obtain R where R: "all_acks terminal p = thread_acks terminal th + R"
    using all_acks_thread [OF clone(2), of terminal] clone(3) by metis
  have a: "a \<in># all_acks terminal p" using clone(4) by (simp add: R thread_acks_def)
  note ok = pipe_inv_heap [OF inv]
  have "heap_moves (pp_heap p) (ackref_clone a (pp_heap p))"
    using heap_le_clone [OF ok a] outbox_ok_clone [OF _ ok a] by (simp add: heap_moves_def)
  from pipe_inv_hand [OF inv clone(2) this, of "th\<lparr>th_hand := add_mset a (th_hand th)\<rparr>"] clone heap_ok_clone
  show ?thesis by simp
next
  case (fail t a)
  obtain R where R: "all_acks terminal p = thread_acks terminal (pp_threads p ! t) + R"
    using all_acks_thread [OF fail(2), of terminal] by metis
  have a: "a \<in># all_acks terminal p" using fail(3) by (simp add: R thread_acks_def)
  note ok = pipe_inv_heap [OF inv]
  have "heap_moves (pp_heap p) (ackref_fail a (pp_heap p))"
    using heap_le_fail [OF ok a] outbox_ok_fail [OF _ ok a] by (simp add: heap_moves_def)
  from pipe_inv_hand [OF inv fail(2) this refl] heap_ok_fail
  have "pipe_inv terminal (set_thread t (pp_threads p ! t) (set_heap (ackref_fail a (pp_heap p)) p))" by blast
  moreover have "set_thread t (pp_threads p ! t) (set_heap (ackref_fail a (pp_heap p)) p) = p'"
    by (simp add: set_thread_def set_heap_def fail(1))
  ultimately show ?thesis by simp
next
  case (release t th a)
  obtain R where R: "all_acks terminal p = thread_acks terminal th + R"
    using all_acks_thread [OF release(2), of terminal] release(3) by metis
  have a: "a \<in># all_acks terminal p" using release(4) by (simp add: R thread_acks_def)
  note ok = pipe_inv_heap [OF inv]
  have "heap_moves (pp_heap p) (ackref_drop a (pp_heap p))"
    using heap_le_drop outbox_ok_drop [OF _ ok a] by (simp add: heap_moves_def)
  moreover have "heap_ok (ackref_drop a (pp_heap p)) (th_hand th - {#a#} + R)" if "heap_ok (pp_heap p) (th_hand th + R)" for R
    by (rule heap_ok_drop) (use that release(4) in \<open>simp flip: union_mset_add_mset_left\<close>)
  ultimately show ?thesis
    using pipe_inv_hand [OF inv release(2), of "ackref_drop a (pp_heap p)" "th\<lparr>th_hand := th_hand th - {#a#}\<rparr>"] release by simp
next
  case (push t th c batch "from" out batch' c' w)
  have sinv: "handoff_sinv (pp_heap p) (terminal (tc_ops c)) (pp_queues p)"
    using inv push(2-4) by (auto simp: pipe_inv_def list_all_length thread_inv_def)
  show ?thesis
    unfolding push(1)
  proof (rule pipe_inv_chain [OF inv push(2,3,4)])
    fix F assume "th_hand th \<subseteq># F" and h: "heap_ok (pp_heap p) (held (terminal (tc_ops c)) + F)"
    then have "pb_ack batch \<in># F" using push(5) by (meson mset_subset_eqD)
    from keeps_effect [OF push_batch_effect [OF push(6) this], unfolded pipe_world_simps, OF h pipe_inv_outbox [OF inv] sinv]
    show "(\<exists>G. handoff_sent (w_queues w) = handoff_sent (pp_queues p) + G \<and>
          heap_ok (w_heap w) (held (terminal (tc_ops c')) + G + F)) \<and>
        heap_moves (pp_heap p) (w_heap w) \<and> handoff_sinv (w_heap w) (terminal (tc_ops c')) (w_queues w) \<and>
        num_shards (w_queues w) = num_shards (pp_queues p) \<and>
        (\<forall>i. prefix (sent_on (pp_queues p) i) (sent_on (w_queues w) i))" .
  qed
next
  case (flush t th c out c' w)
  have sinv: "handoff_sinv (pp_heap p) (terminal (tc_ops c)) (pp_queues p)"
    using inv flush(2-4) by (auto simp: pipe_inv_def list_all_length thread_inv_def)
  show ?thesis
    unfolding flush(1)
  proof (rule pipe_inv_chain [OF inv flush(2,3,4)])
    fix F assume h: "heap_ok (pp_heap p) (held (terminal (tc_ops c)) + F)"
    from keeps_effect [OF chain_flush_effect [OF flush(5)], unfolded pipe_world_simps, OF h pipe_inv_outbox [OF inv] sinv]
    show "(\<exists>G. handoff_sent (w_queues w) = handoff_sent (pp_queues p) + G \<and>
          heap_ok (w_heap w) (held (terminal (tc_ops c')) + G + F)) \<and>
        heap_moves (pp_heap p) (w_heap w) \<and> handoff_sinv (w_heap w) (terminal (tc_ops c')) (w_queues w) \<and>
        num_shards (w_queues w) = num_shards (pp_queues p) \<and>
        (\<forall>i. prefix (sent_on (pp_queues p) i) (sent_on (w_queues w) i))" .
  qed
next
  case (abandon_batch t th c)
  have "tc_ops (abandon_batch c) = tc_ops c" by (simp add: abandon_batch_def)
  moreover have "handoff_sinv (pp_heap p) (terminal (tc_ops c)) (pp_queues p)"
    using inv abandon_batch(2-4) by (auto simp: pipe_inv_def list_all_length thread_inv_def)
  moreover have "set_world (pipe_world p) p = p" by (simp add: set_world_def pipe_world_def)
  ultimately show ?thesis
    using pipe_inv_chain [OF inv abandon_batch(2,3,4), of "pipe_world p" "abandon_batch c"] abandon_batch(1) by simp
next
  case (drop_chain t th c)
  with pipe_inv_drop_chain [OF inv drop_chain(2,3,4)] show ?thesis by simp
next
  case (worker i sh e r w)
  from pipe_inv_worker [OF inv worker(2-6)] worker(1) show ?thesis by simp
next
  case (worker_end i sh)
  from pipe_inv_worker_end [OF inv worker_end(2-4)] worker_end(1) show ?thesis
    by (simp add: set_run_budget pipe_inv_budget)
next
  case (channel q)
  have "all_acks terminal (p\<lparr>pp_queues := q\<rparr>) = all_acks terminal p"
    by (simp add: all_acks_def unread_acks_def unread_def [abs_def] channel)
  moreover have "list_all (thread_inv terminal (pp_heap p) q) (pp_threads p)
      = list_all (thread_inv terminal (pp_heap p) (pp_queues p)) (pp_threads p)"
    by (rule list.pred_cong) (simp_all add: thread_inv_def handoff_sinv_def channel split: option.splits)
  ultimately show ?thesis using inv channel by (simp add: pipe_inv_def)
qed

end

lemma sum_list_all_0: "(\<And>x. x \<in> set xs \<Longrightarrow> f x = (0::'m::comm_monoid_add)) \<Longrightarrow> (\<Sum>x\<leftarrow>xs. f x) = 0"
  by (induction xs) simp_all

lemma run_start_pending: "run_start sw reg = Some r \<Longrightarrow> ld_pending (ru_ledger r) = []"
  by (auto simp: run_start_def)

context chain_ops
begin

lemma pipe_start_inv:
  assumes "pipe_start terminal p"
  shows "pipe_inv terminal p"
proof -
  have heap: "s_heap sys_init = heap_empty" by (simp add: sys_init_def)
  have q: "sent_on (pp_queues p) = (\<lambda>_. [])" using assms by (simp add: pipe_start_def)
  have th: "thread_acks terminal th = {#}" "thread_inv terminal heap_empty (pp_queues p) th" if "th \<in> set (pp_threads p)" for th
    using assms that by (auto simp: pipe_start_def list_all_iff thread_acks_def thread_inv_def split: option.splits)
  have sh: "shard_acks sh = {#}" "shard_inv heap_empty [] sh" if m: "sh \<in> set (pp_shards p)" for sh
  proof -
    obtain reg where s: "run_start (sh_worker sh) reg = Some (sh_run sh)" "sh_read sh = 0" "\<not> sh_gone sh"
      "rounds (sw_rnd (sh_worker sh))"
      using assms m by (auto simp: pipe_start_def list_all_iff)
    note inv = worker_inv_start [OF s(1)]
    have pend: "ld_pending (ru_ledger (sh_run sh)) = []" by (rule run_start_pending [OF s(1)])
    have "mset (run_acks (sh_run sh)) = {#}" using run_acks_held [OF inv] by (simp add: held_acks_def pend)
    then show "shard_acks sh = {#}" by (simp add: shard_acks_def)
    have "settled (sh_worker sh) [] (sh_run sh) heap_empty" by (simp add: settled_def)
    with inv s show "shard_inv heap_empty [] sh"
      unfolding shard_inv_def by (intro conjI exI [of _ "[]"]) simp_all
  qed
  have "(\<Sum>th\<leftarrow>pp_threads p. thread_acks terminal th) = {#}" "(\<Sum>sh\<leftarrow>pp_shards p. shard_acks sh) = {#}"
    using sum_list_all_0 [of "pp_threads p" "thread_acks terminal"] sum_list_all_0 [of "pp_shards p" shard_acks]
      th(1) sh(1) by blast+
  moreover have "unread_acks p = {#}" by (simp add: unread_acks_def unread_def q acks_in_def stream_sum_def)
  ultimately have "all_acks terminal p = {#}" by (simp add: all_acks_def)
  with assms th(2) sh(2) show ?thesis
    by (auto simp: pipe_inv_def heap q pipe_start_def cp_reachable.init list_all_iff)
qed

lemma pipe_reachable_inv: "pipe_reachable deserialize ops terminal p \<Longrightarrow> pipe_inv terminal p"
  by (induction rule: pipe_reachable.induct) (auto intro: pipe_start_inv pipe_step_inv)

end

section \<open>Rows of resolved batches\<close>

text \<open>
  Every row of batch \<open>a\<close> among the chunks a shard's queue took is in a sealed batch of the worker
  that the sink acknowledged: \<open>gs ! g\<close> are the chunks of the worker's batch number \<open>g\<close>.
\<close>

definition rows_durable :: "pipe_shard \<Rightarrow> chunk list \<Rightarrow> ack_ref \<Rightarrow> bool" where
  "rows_durable sh sent a \<longleftrightarrow>
     (\<exists>gs cur. concat gs @ cur = take (sh_read sh) sent \<and>
        (\<forall>g < length gs. (\<exists>c \<in> set (gs ! g). a \<in> set (ck_row_acks c)) \<longrightarrow>
           batch_of (sh_worker sh) g (gs ! g) \<in> set (ru_written (sh_run sh))) \<and>
        (\<forall>c \<in> set (cur @ drop (sh_read sh) sent). a \<notin> set (ck_row_acks c)))"

text \<open>No row of batch \<open>a\<close> is left in a thread's shard buffers or parked chunks.\<close>

definition rows_passed_on :: "('s \<Rightarrow> ('e, 'k) sink_handoff) \<Rightarrow> ack_ref \<Rightarrow> ('d, 's) pipe_thread \<Rightarrow> bool" where
  "rows_passed_on terminal a th \<longleftrightarrow>
     (case th_chain th of None \<Rightarrow> True
      | Some c \<Rightarrow> (\<forall>b \<in> set (ho_shards (terminal (tc_ops c))). a \<notin> set (sb_row_acks b)) \<and>
          (\<forall>(i, k) \<in> set (ho_parked (terminal (tc_ops c))). a \<notin> set (ck_row_acks k)))"

lemma covered_self:
  assumes "cp_reachable s" and "covered (s_heap s) rows acks" and "a \<in> set rows"
  shows "a \<in> set acks"
proof -
  from cp_reachable_inv [OF assms(1)] have ids: "map state_id (arena (s_heap s)) = map reg_id (s_regs s)"
    and regs: "regs_ok (epoch (s_cp s)) (s_owner s) (s_regs s)"
    by (auto simp: sys_inv_def chan_inv_def issue_inv_def)
  from regs_ok_distinct [OF regs] ids have d: "distinct (map state_id (arena (s_heap s)))" by simp
  from assms(2,3) obtain b where "b \<in> set acks" "a < length (arena (s_heap s))" "b < length (arena (s_heap s))"
      "state_id (arena (s_heap s) ! b) = state_id (arena (s_heap s) ! a)"
    by (auto simp: covered_def ackref_batch_id_def)
  with d show ?thesis by (metis length_map nth_map nth_eq_iff_index_eq)
qed

lemma chunk_self: "cp_reachable s \<Longrightarrow> chunk_ok (s_heap s) c \<Longrightarrow> a \<in> set (ck_row_acks c) \<Longrightarrow> a \<in> set (ck_acks c)"
  using covered_self by (auto simp: chunk_ok_def)

lemma resolved_not_owned:
  assumes "pipe_inv terminal p" and "refcount (pp_heap p) a = 0"
  shows "a \<notin># all_acks terminal p"
  using live_refcount [OF pipe_inv_heap [OF assms(1)]] assms(2) by fastforce

lemma resolved_rows_durable:
  assumes inv: "pipe_inv terminal p" and a: "refcount (pp_heap p) a = 0" "\<not> ack_failed (pp_heap p) a"
    and i: "i < length (pp_shards p)"
  shows "rows_durable (pp_shards p ! i) (sent_on (pp_queues p) i) a"
proof -
  let ?sh = "pp_shards p ! i" and ?sent = "sent_on (pp_queues p) i"
  obtain R where R: "all_acks terminal p = shard_acks ?sh + mset (acks_of (unread p i)) + R"
    using all_acks_shard [OF i, of terminal] by metis
  have free: "a \<notin># shard_acks ?sh" "a \<notin> set (acks_of (unread p i))"
    using resolved_not_owned [OF inv a(1)] by (auto simp: R)
  have reach: "cp_reachable (pp_sys p)" using inv by (simp add: pipe_inv_def)
  have own: "a \<in> set (acks_of cs)" if "c \<in> set cs" "set cs \<subseteq> set ?sent" "a \<in> set (ck_row_acks c)" for c cs
  proof -
    have "chunk_ok (pp_heap p) c" using inv that by (auto simp: pipe_inv_def)
    from chunk_self [OF reach this that(3)] that(1) show ?thesis by (auto simp: acks_of_def)
  qed
  have "shard_inv (pp_heap p) ?sent ?sh" using inv i by (simp add: pipe_inv_def)
  then obtain gs cur where g: "concat gs @ cur = take (sh_read ?sh) ?sent"
    and w: "if sh_gone ?sh then left_behind ?sh gs cur (pp_heap p)
       else worker_inv (sh_worker ?sh) gs cur (sh_run ?sh) \<and> settled (sh_worker ?sh) gs (sh_run ?sh) (pp_heap p)"
    unfolding shard_inv_def by blast
  have all: "set (concat gs) \<subseteq> set ?sent" "set cur \<subseteq> set ?sent"
    using arg_cong [OF g, of set] set_take_subset [of "sh_read ?sh" ?sent] by auto
  have sub: "set (gs ! k) \<subseteq> set ?sent" if "k < length gs" for k
    using all(1) nth_mem [OF that] by auto
  have batches: "batch_of (sh_worker ?sh) k (gs ! k) \<in> set (ru_written (sh_run ?sh))"
    if "k < length gs" "c \<in> set (gs ! k)" "a \<in> set (ck_row_acks c)" for k c
  proof -
    have k: "a \<in> set (acks_of (gs ! k))" by (rule own [OF that(2) sub [OF that(1)] that(3)])
    show ?thesis
    proof (cases "sh_gone ?sh")
      case True with w that(1) k a(2) show ?thesis by (auto simp: left_behind_def)
    next
      case False
      with w have inv': "worker_inv (sh_worker ?sh) gs cur (sh_run ?sh)"
        and st: "settled (sh_worker ?sh) gs (sh_run ?sh) (pp_heap p)" by simp_all
      have "a \<notin># held_acks gs cur (sh_run ?sh)" using free(1) False run_acks_held [OF inv'] by (simp add: shard_acks_def)
      then have "k \<notin> set (akeys (ld_pending (ru_ledger (sh_run ?sh))))"
        using k by (auto simp: held_acks_def in_sum_mset)
      with st that(1) k a(2) show ?thesis by (auto simp: settled_def)
    qed
  qed
  have "a \<notin> set (acks_of cur)"
  proof (cases "sh_gone ?sh")
    case True with w a(2) show ?thesis by (auto simp: left_behind_def)
  next
    case False
    with w have "worker_inv (sh_worker ?sh) gs cur (sh_run ?sh)" by simp
    from run_acks_held [OF this] free(1) False show ?thesis by (auto simp: shard_acks_def held_acks_def)
  qed
  then have "a \<notin> set (ck_row_acks c)" if "c \<in> set (cur @ drop (sh_read ?sh) ?sent)" for c
    using that own [of c cur] own [of c "unread p i"] all(2) free(2) set_drop_subset [of "sh_read ?sh" ?sent]
    by (auto simp: unread_def)
  with g batches show ?thesis unfolding rows_durable_def by blast
qed

lemma resolved_rows_passed_on:
  assumes inv: "pipe_inv terminal p" and a: "refcount (pp_heap p) a = 0" and th: "th \<in> set (pp_threads p)"
  shows "rows_passed_on terminal a th"
proof (cases "th_chain th")
  case (Some c)
  let ?h = "terminal (tc_ops c)"
  obtain t where t: "t < length (pp_threads p)" "th = pp_threads p ! t" using th by (metis in_set_conv_nth)
  obtain R where R: "all_acks terminal p = thread_acks terminal th + R"
    using all_acks_thread [OF t(1), of terminal] t(2) by metis
  have free: "a \<notin># held ?h" using resolved_not_owned [OF inv a] by (auto simp: R thread_acks_def Some)
  have reach: "cp_reachable (pp_sys p)" using inv by (simp add: pipe_inv_def)
  have hi: "handoff_inv (pp_heap p) ?h (sent_on (pp_queues p))"
    using inv th Some by (auto simp: pipe_inv_def list_all_iff thread_inv_def handoff_sinv_def)
  then have "held ?h = (\<Sum>s\<leftarrow>map ck_acks (map snd (ho_parked ?h)) @ map sb_acks (ho_shards ?h). mset s)"
    by (intro held_sum) (simp add: handoff_inv_def)
  with free have own: "\<forall>b \<in> set (ho_shards ?h). a \<notin> set (sb_acks b)" "\<forall>(j, k) \<in> set (ho_parked ?h). a \<notin> set (ck_acks k)"
    by (auto simp: in_sum_mset)
  have "a \<notin> set (sb_row_acks b)" if "b \<in> set (ho_shards ?h)" for b
  proof -
    have "covered (pp_heap p) (sb_row_acks b) (sb_acks b)" using hi that by (simp add: handoff_inv_def buf_ok_def)
    from covered_self [OF reach this] own(1) that show ?thesis by blast
  qed
  moreover have "a \<notin> set (ck_row_acks k)" if "(j, k) \<in> set (ho_parked ?h)" for j k
  proof -
    have "k \<in> set (chunk_stream (sent_on (pp_queues p)) (ho_parked ?h) j)"
      using that by (force simp: chunk_stream_def parked_in_def)
    then have "chunk_ok (pp_heap p) k" using hi by (auto simp: handoff_inv_def)
    from chunk_self [OF reach this] own(2) that show ?thesis by blast
  qed
  ultimately show ?thesis by (auto simp: rows_passed_on_def Some)
qed (simp add: rows_passed_on_def)

section \<open>A run\<close>

text \<open>
  One thread, one shard. The thread is issued a batch of one payload, the chain duplicates the
  row, the terminal stage seals both rows into one chunk, the thread releases its handle, the
  worker writes the chunk, and the controller drains and takes the watermark.
\<close>

definition pipe_handoff :: "(unit, unit) sink_handoff" where
  "pipe_handoff = the (handoff_new () 1 None \<lparr>target_bytes = 2, encode_policy = Fail\<rparr> (op_meter_new None) ''sink'')"

definition pipe_chain :: "(unit, (unit, (unit, (unit, (unit, (unit, (unit, unit) sink_handoff) try_map_op) flat_map_op) inspect_op) filter_op) map_op) typed_chain" where
  "pipe_chain = typed_chain_new ()
     \<lparr>mp_f = (), mp_next = \<lparr>fi_p = (), fi_next = \<lparr>in_f = (), in_next = \<lparr>fm_g = (), fm_next =
        \<lparr>tm_f = (), tm_next = pipe_handoff, tm_policy = Fail, tm_component = ''try'', tm_meter = demo_meter, tm_fatal = None\<rparr>,
        fm_meter = demo_meter\<rparr>\<rparr>, fi_meter = demo_meter\<rparr>, mp_meter = demo_meter\<rparr> Fail None"

definition pipe_queues :: "(nat, unit) shard_queues" where
  "pipe_queues = the (shard_queues_new demo_api 1 1)"

definition pipe_demo :: "(unit, (unit, (unit, (unit, (unit, (unit, (unit, unit) sink_handoff) try_map_op) flat_map_op) inspect_op) filter_op) map_op, nat, unit) pipe" where
  "pipe_demo =
     \<lparr>pp_sys = sys_init, pp_threads = [\<lparr>th_chain = Some pipe_chain, th_hand = {#}\<rparr>],
      pp_shards = [\<lparr>sh_worker = demo_worker, sh_run = demo_worker_run, sh_read = 0, sh_gone = False\<rparr>],
      pp_queues = pipe_queues, pp_budget = 0, pp_now = 0\<rparr>"

definition pipe_chunk :: chunk where
  "pipe_chunk = \<lparr>ck_frame = [7, 7], ck_raw_len = 2, ck_rows = 2, ck_acks = [0], ck_oldest_ingest = 0,
     ck_oldest_event_ms = 6, ck_row_acks = [0, 0]\<rparr>"

definition pipe_sent :: "(nat, unit) shard_queues" where
  "pipe_sent = \<lparr>sq_senders = [\<lparr>sd_chan = 0, sd_sent = [pipe_chunk]\<rparr>], sq_capacity = 1, sq_metrics = None, sq_codec = None\<rparr>"

abbreviation "pipe_cell n \<equiv>
  \<lparr>arena = [\<lparr>state_id = Checkpoint_System.demo_batch, state_last_offset = 99, state_status = 0, state_refs = n\<rparr>], ack_tx = []\<rparr>"

lemmas pipe_push_eval = push_batch_def begin_push_def pipe_chain_def typed_chain_new_def op_stack_def map_stage_def
  filter_stage_def inspect_stage_def flat_map_stage_def try_map_stage_def handoff_stage_def handoff_relieve_def
  pipe_handoff_def handoff_new_def into_def push_replay_def deser_step_def demo_deser_def demo_raw_def ops_emit_run_def
  map_push_def filter_push_def record_map_def deser_result_def deser_finish_def try_map_take_fatal_def
  handoff_take_fatal_def after_step_def end_push_def publish_deser_def latch_flow_def
  emitter_run_def inspect_push_def flat_map_push_def try_map_push_def handoff_push_def push_live_def push_encoded_def sink_env_def
  route_record_meta_def key_hash_route_def raw_meta_def drop_rec_def clone_ack_def hold_batch_def add_row_def
  seal_and_send_def seal_finish_def seal_frame_def seal_send_def seal_chunk_def set_shard_def shard_buf_new_def
  try_send_def demo_api_def set_depth_def upd_metrics_def pipe_queues_def shard_queues_new_def budget_add_def
  ackset_new_def ackset_push_def ackref_batch_id_def ackref_clone_def ackref_drop_def upd_cell_def demo_meter_def

lemma pipe_pushed:
  "\<exists>b c. push_batch demo_deser demo_stack \<lparr>pb_ack = 0, pb_rest = [demo_raw [7]]\<rparr> 0 pipe_chain
      \<lparr>w_heap = pipe_cell 1, w_budget = 0, w_queues = pipe_queues, w_now = 0\<rparr>
    = Some (push_outcome.Done, b, c, \<lparr>w_heap = pipe_cell 2, w_budget = 2, w_queues = pipe_sent, w_now = 0\<rparr>)"
  by (simp add: pipe_push_eval Let_def sat_add_def usize_max_def i64_max_def pipe_sent_def pipe_chunk_def)

definition pipe_events :: "worker_event list" where
  "pipe_events = [Received [pipe_chunk], TaskPick 0, TaskOutcome 0 None, Joined 0 []]"

lemma pipe_worked:
  "\<exists>r. worker_run demo_worker pipe_events
        (demo_worker_run, \<lparr>w_heap = pipe_cell 1, w_budget = 2, w_queues = pipe_sent, w_now = 0\<rparr>)
      = Some (r, \<lparr>w_heap = s_heap demo_resolved, w_budget = 0, w_queues = pipe_sent, w_now = 0\<rparr>)
    \<and> ru_written r = [\<lparr>bt_frames = [[7, 7]], bt_rows = 2, bt_bytes = 2, bt_dedup_token = ''p-1-0-'' @ decimal 0\<rparr>]"
  by (simp add: demo_worker_run_def pipe_events_def pipe_chunk_def demo_worker_simps Let_def demo_eval
      ackset_deliver_def budget_sub_def sat_sub_def)

lemma pipe_start_demo: "pipe_start stack_terminal pipe_demo"
proof -
  have q: "shard_queues_new demo_api 1 1 = Some pipe_queues" by (simp add: pipe_queues_def shard_queues_new_def)
  have h: "handoff_new () 1 None \<lparr>target_bytes = 2, encode_policy = Fail\<rparr> (op_meter_new None) ''sink'' = Some pipe_handoff"
    by (simp add: pipe_handoff_def handoff_new_def)
  note facts = handoff_new_inv [OF h, of "sent_on pipe_queues"] shard_queues_new_sent [OF q]
  have "run_start demo_worker [] = Some demo_worker_run" by (rule demo_worker_start)
  with facts show ?thesis
    by (auto simp: pipe_start_def pipe_demo_def pipe_chain_def typed_chain_new_def stack_terminal_def handoff_sinv_def
        demo_worker_given(1))
qed

lemma pipe_control:
  "pipe_reachable d ops terminal p \<Longrightarrow> cp_step (pp_sys p) s \<Longrightarrow> s_heap s = pp_heap p \<Longrightarrow>
     pipe_reachable d ops terminal (p\<lparr>pp_sys := s\<rparr>)"
  by (rule pipe_reachable.step [OF _ pipe_step.control])

lemma pipe_world_set [simp]: "pipe_world (set_run i sh (set_world w p)) = w"
  by (simp add: pipe_world_def set_run_def set_world_def)

lemma pipe_worker_run:
  assumes "worker_run sw es (r, pipe_world p) = Some (r', w)" and "pipe_reachable d ops terminal p"
    and "i < length (pp_shards p)" and "pp_shards p ! i = sh" and "sh_worker sh = sw" and "sh_run sh = r"
    and "\<not> sh_gone sh" and "prefix (received es) (unread p i)"
  shows "pipe_reachable d ops terminal
     (set_run i (sh\<lparr>sh_run := r', sh_read := sh_read sh + length (received es)\<rparr>) (set_world w p))"
  using assms
proof (induction es arbitrary: r p sh)
  case Nil
  have "set_run i (sh\<lparr>sh_run := r', sh_read := sh_read sh\<rparr>) (set_world w p) = p"
    using Nil.prems by (auto simp: set_run_def set_world_def pipe_world_def received_def)
  with Nil.prems(2) show ?case by (simp add: received_def)
next
  case (Cons e es)
  obtain r1 w1 where s: "worker_step sw e (r, pipe_world p) = Some (r1, w1)" "worker_run sw es (r1, w1) = Some (r', w)"
    using Cons.prems(1) by (auto simp: bind_eq_Some_conv)
  have "agree (r, pipe_world p) (r, pipe_world p)" by (simp add: agree_def same_but_budget_def)
  from worker_step_agree [OF s(1) this] have q: "w_queues w1 = pp_queues p" by auto
  have rec: "received (e # es) = taken e @ received es" by (simp add: received_def)
  obtain us where us: "unread p i = taken e @ received es @ us" using Cons.prems(8) by (auto simp: rec prefix_def)
  define sh1 where "sh1 = sh\<lparr>sh_run := r1, sh_read := sh_read sh + length (taken e)\<rparr>"
  define p1 where "p1 = set_run i sh1 (set_world w1 p)"
  have p1: "pipe_reachable d ops terminal p1"
    unfolding p1_def sh1_def
    by (rule pipe_reachable.step [OF Cons.prems(2) pipe_step.worker]) (use Cons.prems s(1) us in auto)
  have "unread p1 i = drop (length (taken e)) (unread p i)"
    using Cons.prems(3,4) by (simp add: unread_def p1_def sh1_def q add.commute)
  then have "prefix (received es) (unread p1 i)" by (simp add: us)
  then have "pipe_reachable d ops terminal
      (set_run i (sh1\<lparr>sh_run := r', sh_read := sh_read sh1 + length (received es)\<rparr>) (set_world w p1))"
    using Cons.IH [of r1 p1 sh1] s(2) p1 Cons.prems(3-7) by (simp add: p1_def sh1_def)
  moreover have "set_run i x (set_world w p1) = set_run i x (set_world w p)" for x
    by (simp add: p1_def set_run_def set_world_def)
  ultimately show ?case by (simp add: sh1_def rec add.assoc)
qed

text \<open>The demonstration's state once the worker has written and the controller has drained.\<close>

definition pipe_done :: "shard_run \<Rightarrow> (unit, (unit, (unit, (unit, (unit, (unit, (unit, unit) sink_handoff) try_map_op) flat_map_op) inspect_op) filter_op) map_op) typed_chain
    \<Rightarrow> (unit, (unit, (unit, (unit, (unit, (unit, (unit, unit) sink_handoff) try_map_op) flat_map_op) inspect_op) filter_op) map_op, nat, unit) pipe" where
  "pipe_done r c =
     \<lparr>pp_sys = demo_drained, pp_threads = [\<lparr>th_chain = Some c, th_hand = {#}\<rparr>],
      pp_shards = [\<lparr>sh_worker = demo_worker, sh_run = r, sh_read = 1, sh_gone = False\<rparr>],
      pp_queues = pipe_sent, pp_budget = 0, pp_now = 0\<rparr>"

lemma pipe_issued:
  "pipe_reachable demo_deser demo_stack stack_terminal
     (pipe_demo\<lparr>pp_sys := demo_issued, pp_threads := [\<lparr>th_chain = Some pipe_chain, th_hand = {#0#}\<rparr>]\<rparr>)"
proof -
  let ?R = "pipe_reachable demo_deser demo_stack stack_terminal"
  let ?th = "\<lparr>th_chain = Some pipe_chain, th_hand = {#}\<rparr>"
  have sys: "pp_sys pipe_demo = sys_init" "s_heap sys_init = heap_empty" by (simp_all add: pipe_demo_def sys_init_def)
  have "?R (pipe_demo\<lparr>pp_sys := demo_assigned\<rparr>)"
    by (rule pipe_control [OF pipe_reachable.start [OF pipe_start_demo]])
      (simp_all only: sys demo_assign_step demo_issuing_simps)
  then have "?R ((pipe_demo\<lparr>pp_sys := demo_assigned\<rparr>)\<lparr>pp_sys := demo_issuing\<rparr>)"
    by (rule pipe_control) (simp_all add: demo_load_step demo_issuing_simps)
  then have r: "?R (pipe_demo\<lparr>pp_sys := demo_issuing\<rparr>)" by simp
  have "?R (set_thread 0 (?th\<lparr>th_hand := add_mset 0 (th_hand ?th)\<rparr>)
      ((pipe_demo\<lparr>pp_sys := demo_issuing\<rparr>)\<lparr>pp_sys := demo_issued\<rparr>))"
    by (rule pipe_reachable.step [OF r], rule pipe_step.issue [where b = Checkpoint_System.demo_batch and off = 99
          and h = "snd (ackref_new Checkpoint_System.demo_batch 99 heap_empty)"])
      (simp_all add: demo_issuing_simps demo_send_eq ackref_new_def heap_empty_def, simp_all add: pipe_demo_def)
  then show ?thesis by (simp add: set_thread_def) (simp add: pipe_demo_def)
qed

lemma pipe_written:
  "\<exists>r c. pipe_reachable demo_deser demo_stack stack_terminal ((pipe_done r c)\<lparr>pp_sys := demo_resolved\<rparr>)
     \<and> ru_written r = [\<lparr>bt_frames = [[7, 7]], bt_rows = 2, bt_bytes = 2, bt_dedup_token = ''p-1-0-'' @ decimal 0\<rparr>]"
proof -
  let ?R = "pipe_reachable demo_deser demo_stack stack_terminal"
  let ?p = "pipe_demo\<lparr>pp_sys := demo_issued, pp_threads := [\<lparr>th_chain = Some pipe_chain, th_hand = {#0#}\<rparr>]\<rparr>"
  let ?th = "\<lparr>th_chain = Some pipe_chain, th_hand = {#0#}\<rparr>"
  have heap: "s_heap demo_issued = pipe_cell 1" by (simp add: demo_defs ackref_new_def)
  obtain b c where push: "push_batch demo_deser demo_stack \<lparr>pb_ack = 0, pb_rest = [demo_raw [7]]\<rparr> 0 pipe_chain (pipe_world ?p)
      = Some (push_outcome.Done, b, c, \<lparr>w_heap = pipe_cell 2, w_budget = 2, w_queues = pipe_sent, w_now = 0\<rparr>)"
    using pipe_pushed by (auto simp: pipe_world_def heap pipe_demo_def)
  let ?p1 = "set_thread 0 (?th\<lparr>th_chain := Some c\<rparr>)
      (set_world \<lparr>w_heap = pipe_cell 2, w_budget = 2, w_queues = pipe_sent, w_now = 0\<rparr> ?p)"
  have 1: "?R ?p1"
    by (rule pipe_reachable.step [OF pipe_issued], rule pipe_step.push [OF _ _ _ _ push]) simp_all
  let ?th1 = "\<lparr>th_chain = Some c, th_hand = {#0#}\<rparr>"
  let ?p2 = "set_thread 0 (?th1\<lparr>th_hand := th_hand ?th1 - {#0#}\<rparr>) (set_heap (ackref_drop 0 (pp_heap ?p1)) ?p1)"
  have 2: "?R ?p2"
    by (rule pipe_reachable.step [OF 1], rule pipe_step.release [where t = 0]) simp_all
  have drop: "ackref_drop 0 (pipe_cell 2) = pipe_cell 1"
    by (simp add: ackref_drop_def upd_cell_def)
  have w2: "pipe_world ?p2 = \<lparr>w_heap = pipe_cell 1, w_budget = 2, w_queues = pipe_sent, w_now = 0\<rparr>"
    by (simp add: pipe_world_def set_thread_def set_heap_def set_world_def drop)
  obtain r where run: "worker_run demo_worker pipe_events (demo_worker_run, pipe_world ?p2)
      = Some (r, \<lparr>w_heap = s_heap demo_resolved, w_budget = 0, w_queues = pipe_sent, w_now = 0\<rparr>)"
    and written: "ru_written r = [\<lparr>bt_frames = [[7, 7]], bt_rows = 2, bt_bytes = 2, bt_dedup_token = ''p-1-0-'' @ decimal 0\<rparr>]"
    using pipe_worked unfolding w2 by blast
  have "?R (set_run 0 (\<lparr>sh_worker = demo_worker, sh_run = demo_worker_run, sh_read = 0, sh_gone = False\<rparr>
        \<lparr>sh_run := r, sh_read := 0 + length (received pipe_events)\<rparr>)
      (set_world \<lparr>w_heap = s_heap demo_resolved, w_budget = 0, w_queues = pipe_sent, w_now = 0\<rparr> ?p2))"
    using pipe_worker_run [OF run 2, of 0 "\<lparr>sh_worker = demo_worker, sh_run = demo_worker_run, sh_read = 0, sh_gone = False\<rparr>"]
    by (simp add: pipe_demo_def set_thread_def set_heap_def set_world_def unread_def pipe_events_def received_def
        pipe_sent_def sent_on_def)
  moreover have "set_run 0 (\<lparr>sh_worker = demo_worker, sh_run = demo_worker_run, sh_read = 0, sh_gone = False\<rparr>
        \<lparr>sh_run := r, sh_read := 0 + length (received pipe_events)\<rparr>)
      (set_world \<lparr>w_heap = s_heap demo_resolved, w_budget = 0, w_queues = pipe_sent, w_now = 0\<rparr> ?p2)
      = (pipe_done r c)\<lparr>pp_sys := demo_resolved\<rparr>"
    by (simp add: set_run_def set_world_def set_thread_def set_heap_def pipe_demo_def pipe_done_def pipe_events_def
        received_def demo_resolved_def)
  ultimately have "?R ((pipe_done r c)\<lparr>pp_sys := demo_resolved\<rparr>)" by (simp only:)
  with written show ?thesis by (intro exI [of _ r] exI [of _ c] conjI)
qed

lemma pipe_drained:
  assumes "pipe_reachable d ops terminal (p\<lparr>pp_sys := demo_resolved\<rparr>)"
  shows "pipe_reachable d ops terminal (p\<lparr>pp_sys := demo_drained\<rparr>)"
proof -
  let ?R = "\<lambda>s. pipe_reachable d ops terminal (p\<lparr>pp_sys := s\<rparr>)"
  have nx: "?R s \<Longrightarrow> cp_step s s' \<Longrightarrow> s_heap s' = s_heap s \<Longrightarrow> ?R s'" for s s'
    using pipe_control [of d ops terminal "p\<lparr>pp_sys := s\<rparr>" s'] by simp
  let ?g = "\<lparr>reg_id = Checkpoint_System.demo_batch, reg_last_offset = 99\<rparr>"
  let ?m = "\<lparr>msg_id = Checkpoint_System.demo_batch, msg_last_offset = 99, msg_status = Delivered\<rparr>"
  have g: "s_regs demo_resolved = [?g]" and m: "ack_tx (s_heap demo_resolved) = [?m]" by (simp_all add: demo_eval)
  have "\<exists>st2 cp2 st3 cp3. drain_registration ?g (drain_stats_default, s_cp demo_resolved) = Some (st2, cp2)
      \<and> apply_ack ?m True (st2, cp2) = ((st3, cp3), [])"
    by (simp add: demo_eval)
  then obtain st2 cp2 st3 cp3 where 2: "drain_registration ?g (drain_stats_default, s_cp demo_resolved) = Some (st2, cp2)"
    and 3: "apply_ack ?m True (st2, cp2) = ((st3, cp3), [])" by blast
  let ?s1 = "demo_resolved\<lparr>s_phase := Regs1, s_stats := drain_stats_default\<rparr>"
  let ?s2 = "?s1\<lparr>s_reg_read := s_reg_read ?s1 + 1, s_stats := st2, s_cp := cp2\<rparr>"
  let ?s3 = "?s2\<lparr>s_phase := AckLoop []\<rparr>"
  let ?s4 = "?s3\<lparr>s_ack_read := s_ack_read ?s3 + 1, s_stats := st3, s_cp := cp3, s_phase := AckLoop ([] @ [])\<rparr>"
  let ?s5 = "?s4\<lparr>s_phase := (if ([] :: ack_msg list) = [] then Idle else Regs2 [])\<rparr>"
  have "?R ?s1" by (rule nx [OF assms cp_step.drain_start]) (simp_all add: demo_idle)
  then have "?R ?s2" by (rule nx [OF _ cp_step.recv_registration]) (use 2 g demo_idle in simp_all)
  then have "?R ?s3" by (rule nx [OF _ cp_step.registrations_empty]) (use demo_idle in simp_all)
  then have "?R ?s4" by (rule nx [OF _ cp_step.recv_ack]) (use 3 m demo_idle in simp_all)
  then have "?R ?s5" by (rule nx [OF _ cp_step.acks_empty]) (use m demo_idle in simp_all)
  moreover have "drain (s_regs demo_resolved) (ack_tx (s_heap demo_resolved)) [] (s_cp demo_resolved) = Some (st3, cp3)"
    using 2 3 by (simp add: drain_def g m)
  then have "?s5 = demo_drained" by (simp add: demo_drained_def demo_idle)
  ultimately show ?thesis by (simp only:)
qed

section \<open>Properties\<close>

text \<open>
  C1. The end-to-end guarantee (INV-1). Take any run of a pipeline: driver threads pushing
  batches through their chains, failing, abandoning and dropping them; shard workers writing,
  retrying, panicking and being swept or aborted; the controller draining, committing and
  changing the assignment. Whenever the controller then takes watermarks and a partition's is
  \<open>wm\<close>, there is a last covered batch such that for it and every earlier batch of the partition
  in the epoch, each of its rows that reached a shard's queue is in a batch the sink durably
  acknowledged, and none is left in a chain's buffers, a queue or a worker; \<open>wm\<close> is one past the
  last covered batch's last offset.
\<close>

theorem committed_rows_durable:
  assumes "pipe_reachable deserialize (op_stack f pr ins g t (sink_env api encode buffered finish code)) stack_terminal p"
    and "take_watermarks clk (s_cp (pp_sys p)) = (out, cp')" and "(part, wm) \<in> set out"
  shows "\<exists>k. \<forall>i \<le> k. \<exists>a < length (arena (pp_heap p)).
      state_id (arena (pp_heap p) ! a) = \<lparr>bid_partition = part, bid_epoch = epoch (s_cp (pp_sys p)), bid_seq = i\<rparr>
      \<and> (i = k \<longrightarrow> wm = wrap_i64 (state_last_offset (arena (pp_heap p) ! a) + 1))
      \<and> (\<forall>j < length (pp_shards p). rows_durable (pp_shards p ! j) (sent_on (pp_queues p) j) a)
      \<and> (\<forall>th \<in> set (pp_threads p). rows_passed_on stack_terminal a th)"
proof -
  have inv: "pipe_inv stack_terminal p" by (rule sink_stack.pipe_reachable_inv [OF assms(1)])
  then have "cp_reachable (pp_sys p)" by (simp add: pipe_inv_def)
  from watermark_cells [OF this assms(2,3)] obtain k where k: "\<And>i. i \<le> k \<Longrightarrow> \<exists>a < length (arena (pp_heap p)).
      state_id (arena (pp_heap p) ! a) = \<lparr>bid_partition = part, bid_epoch = epoch (s_cp (pp_sys p)), bid_seq = i\<rparr>
      \<and> refcount (pp_heap p) a = 0 \<and> \<not> ack_failed (pp_heap p) a
      \<and> (i = k \<longrightarrow> wm = wrap_i64 (state_last_offset (arena (pp_heap p) ! a) + 1))" by metis
  show ?thesis
  proof (rule exI [of _ k], intro allI impI)
    fix i assume "i \<le> k"
    from k [OF this] obtain a where a: "a < length (arena (pp_heap p))"
        "state_id (arena (pp_heap p) ! a) = \<lparr>bid_partition = part, bid_epoch = epoch (s_cp (pp_sys p)), bid_seq = i\<rparr>"
        "refcount (pp_heap p) a = 0" "\<not> ack_failed (pp_heap p) a"
        "i = k \<longrightarrow> wm = wrap_i64 (state_last_offset (arena (pp_heap p) ! a) + 1)" by metis
    with resolved_rows_durable [OF inv a(3,4)] resolved_rows_passed_on [OF inv a(3)]
    show "\<exists>a < length (arena (pp_heap p)).
      state_id (arena (pp_heap p) ! a) = \<lparr>bid_partition = part, bid_epoch = epoch (s_cp (pp_sys p)), bid_seq = i\<rparr>
      \<and> (i = k \<longrightarrow> wm = wrap_i64 (state_last_offset (arena (pp_heap p) ! a) + 1))
      \<and> (\<forall>j < length (pp_shards p). rows_durable (pp_shards p ! j) (sent_on (pp_queues p) j) a)
      \<and> (\<forall>th \<in> set (pp_threads p). rows_passed_on stack_terminal a th)"
      by (intro exI [of _ a]) simp
  qed
qed

theorem committed_rows_durable_witness:
  "\<exists>r c. pipe_reachable demo_deser demo_stack stack_terminal (pipe_done r c)
     \<and> take_watermarks (\<lambda>_. 0) (s_cp (pp_sys (pipe_done r c)))
         = ([(PartitionId 0, 100)], snd (take_watermarks (\<lambda>_. 0) (s_cp demo_drained)))
     \<and> ru_written r = [\<lparr>bt_frames = [[7, 7]], bt_rows = 2, bt_bytes = 2, bt_dedup_token = ''p-1-0-'' @ decimal 0\<rparr>]
     \<and> (\<exists>a < length (arena (s_heap demo_drained)). state_id (arena (s_heap demo_drained) ! a) = Checkpoint_System.demo_batch
          \<and> rows_durable (pp_shards (pipe_done r c) ! 0) [pipe_chunk] a)"
proof -
  obtain r c where res: "pipe_reachable demo_deser demo_stack stack_terminal ((pipe_done r c)\<lparr>pp_sys := demo_resolved\<rparr>)"
    and wr: "ru_written r = [\<lparr>bt_frames = [[7, 7]], bt_rows = 2, bt_bytes = 2, bt_dedup_token = ''p-1-0-'' @ decimal 0\<rparr>]"
    using pipe_written by blast
  have "(pipe_done r c)\<lparr>pp_sys := demo_drained\<rparr> = pipe_done r c" by (simp add: pipe_done_def)
  with pipe_drained [OF res] have reach: "pipe_reachable demo_deser demo_stack stack_terminal (pipe_done r c)" by simp
  have sys: "pp_sys (pipe_done r c) = demo_drained" "pp_queues (pipe_done r c) = pipe_sent" "length (pp_shards (pipe_done r c)) = 1"
    by (simp_all add: pipe_done_def)
  have e: "epoch (s_cp demo_drained) = 1" by (simp add: demo_drained_facts demo_drain)
  have "\<exists>k. \<forall>i \<le> k. \<exists>a < length (arena (s_heap demo_drained)).
      state_id (arena (s_heap demo_drained) ! a) = \<lparr>bid_partition = PartitionId 0, bid_epoch = 1, bid_seq = i\<rparr>
      \<and> (i = k \<longrightarrow> 100 = wrap_i64 (state_last_offset (arena (s_heap demo_drained) ! a) + 1))
      \<and> (\<forall>j < length (pp_shards (pipe_done r c)). rows_durable (pp_shards (pipe_done r c) ! j) (sent_on pipe_sent j) a)
      \<and> (\<forall>th \<in> set (pp_threads (pipe_done r c)). rows_passed_on stack_terminal a th)"
    using committed_rows_durable [OF reach demo_watermarks [folded sys(1)], of "PartitionId 0" 100]
    unfolding sys e by simp
  then obtain k where "\<forall>i \<le> k. \<exists>a < length (arena (s_heap demo_drained)).
      state_id (arena (s_heap demo_drained) ! a) = \<lparr>bid_partition = PartitionId 0, bid_epoch = 1, bid_seq = i\<rparr>
      \<and> (i = k \<longrightarrow> 100 = wrap_i64 (state_last_offset (arena (s_heap demo_drained) ! a) + 1))
      \<and> (\<forall>j < length (pp_shards (pipe_done r c)). rows_durable (pp_shards (pipe_done r c) ! j) (sent_on pipe_sent j) a)
      \<and> (\<forall>th \<in> set (pp_threads (pipe_done r c)). rows_passed_on stack_terminal a th)" by blast
  from this [rule_format, of 0] obtain a where "a < length (arena (s_heap demo_drained))"
      "state_id (arena (s_heap demo_drained) ! a) = \<lparr>bid_partition = PartitionId 0, bid_epoch = 1, bid_seq = 0\<rparr>"
      "rows_durable (pp_shards (pipe_done r c) ! 0) (sent_on pipe_sent 0) a"
    by (auto simp: sys)
  moreover have "sent_on pipe_sent 0 = [pipe_chunk]" by (simp add: sent_on_def pipe_sent_def)
  ultimately have "\<exists>a < length (arena (s_heap demo_drained)). state_id (arena (s_heap demo_drained) ! a) = Checkpoint_System.demo_batch
      \<and> rows_durable (pp_shards (pipe_done r c) ! 0) [pipe_chunk] a"
    by (auto simp: Checkpoint_System.demo_batch_def)
  with reach wr demo_watermarks show ?thesis by (intro exI [of _ r] exI [of _ c] conjI) (simp_all add: sys)
qed

end
