(* ===== verification/Driver.thy ===== *)
theory Driver
  imports Chain Checkpointer
begin

text \<open>
  The loop of a driver thread, \<open>crates/spate-core/src/pipeline/driver.rs\<close>, with the messages of
  \<open>pipeline/mod.rs\<close> and the arrivals at the barriers of \<open>source/barrier.rs\<close>.

  A pass of the loop is one function of the driver's state and of what the pass observes: the
  messages that are there, the clocks, how full the queues are, the counters of the checkpointer,
  what the polled lane answers, and, in the loops that retry, the same for every round. The other
  threads act on the shared world between two rounds: each round starts with a function of theirs.
  A loop whose observations run out has not returned, which is \<^const>\<open>None\<close>; so is a panic outside
  the push of a batch, which the code does not catch. Sleeps, heartbeats, metrics, log lines and the
  debug assertion on the resume cursor are left out.

  A source lane is third-party code behind a trait. The driver knows its id and its partition, and
  observes whether it is finished and what a poll returns.
\<close>

section \<open>Messages and state\<close>

type_synonym lane_id = nat

type_synonym barrier = nat

record lane =
  ln_id :: lane_id
  ln_partition :: partition_id

datatype thread_control =
    AddLane lane "pending_gate option"
  | StopLanes "lane_id list" barrier instant
  | FlushNow
  | DropLanes "lane_id list"
  | Shutdown barrier instant

datatype driver_event = PauseLanes "lane_id list" | ResumeLanes "lane_id list" | DriverFatal nat fatal_error

record driver_params =
  dp_thread :: nat
  dp_poll_timeout :: duration
  dp_idle_flush :: duration
  dp_max_pending_batches :: nat

datatype driver_exit = Completed | DriverFailed

record gate_state =
  gs_epoch :: nat
  gs_advanced :: advance_counter
  gs_issued :: nat
  gs_gated :: bool

text \<open>\<open>dv_arrived\<close> lists the barriers arrived at and \<open>dv_events\<close> the events sent, oldest first.\<close>

record ('d, 's, 'q) driver =
  dv_chain :: "('d, 's) typed_chain"
  dv_world :: "'q world"
  dv_bp :: watermark_controller
  dv_lanes :: "lane list"
  dv_next_lane :: nat
  dv_last_data :: instant
  dv_flushed :: bool
  dv_empty_polls :: nat
  dv_parked :: "thread_control option"
  dv_gates :: "(partition_id \<times> gate_state) list"
  dv_skipped :: nat
  dv_events :: "driver_event list"
  dv_arrived :: "barrier list"

text \<open>The chain's deserializer, stages and drop, and the parameters.\<close>

record ('d, 't, 's, 'q) driver_env =
  de_deserialize :: "('d, 't) deserializer"
  de_ops :: "('t, 's, 'q) stage_ops"
  de_drop :: "('d, 's) typed_chain \<Rightarrow> 'q world \<Rightarrow> 'q world"
  de_params :: driver_params

definition run_driver_start :: "('d, 's) typed_chain \<Rightarrow> 'q world \<Rightarrow> watermark_controller \<Rightarrow> instant \<Rightarrow> ('d, 's, 'q) driver" where
  "run_driver_start chain w bp now =
     \<lparr>dv_chain = chain, dv_world = w, dv_bp = bp, dv_lanes = [], dv_next_lane = 0, dv_last_data = now,
      dv_flushed = False, dv_empty_polls = 0, dv_parked = None, dv_gates = [], dv_skipped = 0, dv_events = [],
      dv_arrived = []\<rparr>"

definition send_event :: "driver_event \<Rightarrow> ('d, 's, 'q) driver \<Rightarrow> ('d, 's, 'q) driver" where
  "send_event e d = d\<lparr>dv_events := dv_events d @ [e]\<rparr>"

definition arrive :: "nat \<Rightarrow> barrier \<Rightarrow> ('d, 's, 'q) driver \<Rightarrow> ('d, 's, 'q) driver" where
  "arrive n b d = d\<lparr>dv_arrived := dv_arrived d @ replicate n b\<rparr>"

definition apply_transition :: "transition \<Rightarrow> lane_id list \<Rightarrow> ('d, 's, 'q) driver \<Rightarrow> ('d, 's, 'q) driver" where
  "apply_transition t owned d = send_event (case t of Pause \<Rightarrow> PauseLanes owned | Resume \<Rightarrow> ResumeLanes owned) d"

definition bp_rejected :: "instant \<Rightarrow> ('d, 's, 'q) driver \<Rightarrow> ('d, 's, 'q) driver" where
  "bp_rejected now d = d\<lparr>dv_bp := on_send_rejected now (dv_bp d)\<rparr>"

text \<open>A tick of the controller on the budget as it stands, and the event it leads to.\<close>

definition bp_tick :: "instant \<Rightarrow> bool \<Rightarrow> lane_id list \<Rightarrow> ('d, 's, 'q) driver \<Rightarrow> ('d, 's, 'q) driver" where
  "bp_tick now queues_low owned d =
     (case tick now (w_budget (dv_world d)) queues_low (dv_bp d) of
        (None, bp) \<Rightarrow> d\<lparr>dv_bp := bp\<rparr>
      | (Some t, bp) \<Rightarrow> apply_transition t owned (d\<lparr>dv_bp := bp\<rparr>))"

section \<open>Pushing a batch\<close>

text \<open>
  What one round of the retry loop observes. \<open>rt_env\<close> is what the other threads did since the last
  round, \<open>rt_torn\<close> what a push that panics leaves behind.
\<close>

record ('d, 's, 'q) retry =
  rt_env :: "'q world \<Rightarrow> 'q world"
  rt_torn :: "('d, 's) typed_chain \<Rightarrow> 'q world \<Rightarrow> ('d, 's) typed_chain \<times> 'q world"
  rt_panic :: string
  rt_shutdown :: bool
  rt_rejected_at :: instant
  rt_tick_at :: instant
  rt_low :: bool

definition fail_ack :: "ack_ref \<Rightarrow> ('d, 's, 'q) driver \<Rightarrow> ('d, 's, 'q) driver" where
  "fail_ack a d = d\<lparr>dv_world := (dv_world d)\<lparr>w_heap := ackref_fail a (w_heap (dv_world d))\<rparr>\<rparr>"

definition driver_component :: "nat \<Rightarrow> string" where
  "driver_component thread = ''driver-'' @ decimal thread"

text \<open>A capacity block tells the controller and ticks it; a not-ready block only waits.\<close>

definition on_blocked :: "('d, 's, 'q) retry \<Rightarrow> block_reason \<Rightarrow> lane_id list \<Rightarrow> ('d, 's, 'q) driver \<Rightarrow> ('d, 's, 'q) driver" where
  "on_blocked t reason owned d =
     (if reason = Capacity then bp_tick (rt_tick_at t) (rt_low t) owned (bp_rejected (rt_rejected_at t) d) else d)"

primrec drive_loop ::
  "('d, 't, 's, 'q) driver_env \<Rightarrow> lane_id list \<Rightarrow> ('d, 's, 'q) retry list \<Rightarrow> nat \<Rightarrow> payload_batch \<Rightarrow> ('d, 's, 'q) driver
     \<Rightarrow> (fatal_error option \<times> payload_batch \<times> ('d, 's, 'q) driver) option" where
  "drive_loop env owned [] from batch d = None"
| "drive_loop env owned (t # ts) from batch d =
     (let w = rt_env t (dv_world d)
      in case push_batch (de_deserialize env) (de_ops env) batch from (dv_chain d) w of
           None \<Rightarrow>
             (case rt_torn t (dv_chain d) w of
                (c, w') \<Rightarrow>
                  Some (Some \<lparr>fe_component = driver_component (dp_thread (de_params env)),
                              fe_reason = ''operator chain panicked: '' @ rt_panic t\<rparr>,
                        batch, fail_ack (pb_ack batch) (d\<lparr>dv_chain := c, dv_world := w'\<rparr>)))
         | Some (out, batch', c, w') \<Rightarrow>
             let d1 = d\<lparr>dv_chain := c, dv_world := w'\<rparr>
             in (case out of
                   Done \<Rightarrow> Some (None, batch', d1)
                 | BlockedAt resume_at reason \<Rightarrow>
                     if rt_shutdown t then
                       let d2 = fail_ack (pb_ack batch) d1
                       in Some (None, batch', d2\<lparr>dv_chain := abandon_batch (dv_chain d2)\<rparr>)
                     else drive_loop env owned ts resume_at batch' (on_blocked t reason owned d1)
                 | FatalOutcome e \<Rightarrow> Some (Some e, batch', fail_ack (pb_ack batch) d1)))"

text \<open>A clone of the batch's handle is held for as long as the batch is driven.\<close>

definition drive_batch ::
  "('d, 't, 's, 'q) driver_env \<Rightarrow> lane_id list \<Rightarrow> ('d, 's, 'q) retry list \<Rightarrow> payload_batch \<Rightarrow> ('d, 's, 'q) driver
     \<Rightarrow> (fatal_error option \<times> payload_batch \<times> ('d, 's, 'q) driver) option" where
  "drive_batch env owned ts batch d =
     (case drive_loop env owned ts 0 batch (d\<lparr>dv_world := clone_ack (pb_ack batch) (dv_world d)\<rparr>) of
        None \<Rightarrow> None
      | Some (res, batch', d') \<Rightarrow>
          Some (res, batch',
                d'\<lparr>dv_world := (dv_world d')\<lparr>w_heap := ackref_drop (pb_ack batch) (w_heap (dv_world d'))\<rparr>\<rparr>))"

section \<open>Flushing\<close>

record 'q flushing =
  fl_env :: "'q world \<Rightarrow> 'q world"
  fl_rejected_at :: instant
  fl_stop_now :: instant

text \<open>One flush: its outcome and the driver after it.\<close>

definition flush_once ::
  "('d, 't, 's, 'q) driver_env \<Rightarrow> 'q flushing \<Rightarrow> ('d, 's, 'q) driver \<Rightarrow> (push_outcome \<times> ('d, 's, 'q) driver) option" where
  "flush_once env t d =
     (case chain_flush (de_ops env) (dv_chain d) (fl_env t (dv_world d)) of
        None \<Rightarrow> None
      | Some (out, c, w) \<Rightarrow>
          let d1 = d\<lparr>dv_chain := c, dv_world := w\<rparr>
          in Some (out,
               case out of
                 Done \<Rightarrow> d1
               | BlockedAt _ _ \<Rightarrow> bp_rejected (fl_rejected_at t) d1
               | FatalOutcome e \<Rightarrow> send_event (DriverFatal (dp_thread (de_params env)) e) d1))"

primrec flush_until ::
  "('d, 't, 's, 'q) driver_env \<Rightarrow> 'q flushing list \<Rightarrow> instant \<Rightarrow> ('d, 's, 'q) driver \<Rightarrow> ('d, 's, 'q) driver option" where
  "flush_until env [] deadline d = None"
| "flush_until env (t # ts) deadline d =
     (case flush_once env t d of
        None \<Rightarrow> None
      | Some (BlockedAt _ _, d1) \<Rightarrow> if fl_stop_now t \<ge> deadline then Some d1 else flush_until env ts deadline d1
      | Some (_, d1) \<Rightarrow> Some d1)"

text \<open>\<open>FlushNow\<close> and the flush of an idle pipeline: one try.\<close>

definition flush_now :: "('d, 't, 's, 'q) driver_env \<Rightarrow> 'q flushing \<Rightarrow> ('d, 's, 'q) driver \<Rightarrow> ('d, 's, 'q) driver option" where
  "flush_now env t d =
     (case flush_once env t d of
        None \<Rightarrow> None
      | Some (out, d1) \<Rightarrow> Some (if out = Done then d1\<lparr>dv_flushed := True\<rparr> else d1))"

definition idle_flush ::
  "('d, 't, 's, 'q) driver_env \<Rightarrow> 'q flushing \<Rightarrow> instant \<Rightarrow> ('d, 's, 'q) driver \<Rightarrow> ('d, 's, 'q) driver option" where
  "idle_flush env t now d =
     (if dv_flushed d \<or> now - dv_last_data d < dp_idle_flush (de_params env) then Some d else flush_now env t d)"

section \<open>Control messages\<close>

definition lanes_stopped :: "lane_id list \<Rightarrow> ('d, 's, 'q) driver \<Rightarrow> nat" where
  "lanes_stopped stop d = length (filter (\<lambda>l. ln_id l \<in> set stop) (dv_lanes d))"

definition retain_lanes :: "lane_id list \<Rightarrow> ('d, 's, 'q) driver \<Rightarrow> ('d, 's, 'q) driver" where
  "retain_lanes stop d = d\<lparr>dv_lanes := filter (\<lambda>l. ln_id l \<notin> set stop) (dv_lanes d)\<rparr>"

definition prune_gates :: "('d, 's, 'q) driver \<Rightarrow> ('d, 's, 'q) driver" where
  "prune_gates d = d\<lparr>dv_gates := filter (\<lambda>(p, g). \<exists>l \<in> set (dv_lanes d). ln_partition l = p) (dv_gates d)\<rparr>"

text \<open>A gate of a later epoch replaces the one there is.\<close>

definition add_gate :: "lane \<Rightarrow> pending_gate \<Rightarrow> (partition_id \<times> gate_state) list \<Rightarrow> (partition_id \<times> gate_state) list" where
  "add_gate lane gate gs =
     (case map_of gs (ln_partition lane) of
        Some g \<Rightarrow>
          if gs_epoch g \<ge> pg_epoch gate then gs
          else AList.update (ln_partition lane)
                 \<lparr>gs_epoch = pg_epoch gate, gs_advanced = pg_advanced gate, gs_issued = 0, gs_gated = False\<rparr> gs
      | None \<Rightarrow>
          AList.update (ln_partition lane)
            \<lparr>gs_epoch = pg_epoch gate, gs_advanced = pg_advanced gate, gs_issued = 0, gs_gated = False\<rparr> gs)"

fun on_control ::
  "('d, 't, 's, 'q) driver_env \<Rightarrow> thread_control \<Rightarrow> 'q flushing list \<Rightarrow> ('d, 's, 'q) driver
     \<Rightarrow> (driver_exit option \<times> ('d, 's, 'q) driver) option" where
  "on_control env (AddLane lane gate) ts d =
     Some (None, d\<lparr>dv_gates := (case gate of None \<Rightarrow> dv_gates d | Some g \<Rightarrow> add_gate lane g (dv_gates d)),
                    dv_lanes := dv_lanes d @ [lane]\<rparr>)"
| "on_control env (StopLanes stop b deadline) ts d =
     (let stopped = lanes_stopped stop d;
          d1 = (prune_gates (retain_lanes stop d))\<lparr>dv_skipped := 0\<rparr>
      in case (if stopped > 0 then flush_until env ts deadline d1 else Some d1) of
           None \<Rightarrow> None
         | Some d2 \<Rightarrow> Some (None, arrive stopped b d2))"
| "on_control env FlushNow ts d =
     (case ts of
        [] \<Rightarrow> None
      | t # _ \<Rightarrow> (case flush_now env t d of None \<Rightarrow> None | Some d1 \<Rightarrow> Some (None, d1)))"
| "on_control env (DropLanes gone) ts d = Some (None, (prune_gates (retain_lanes gone d))\<lparr>dv_skipped := 0\<rparr>)"
| "on_control env (Shutdown b deadline) ts d =
     (case flush_until env ts deadline d of
        None \<Rightarrow> None
      | Some d1 \<Rightarrow>
          Some (Some Completed,
                arrive 1 b (d1\<lparr>dv_lanes := [], dv_world := de_drop env (dv_chain d1) (dv_world d1)\<rparr>)))"

text \<open>The messages of one pass, each with what its flush observes; after \<open>Shutdown\<close> none is read.\<close>

fun drain_control ::
  "('d, 't, 's, 'q) driver_env \<Rightarrow> (thread_control \<times> 'q flushing list) list \<Rightarrow> ('d, 's, 'q) driver
     \<Rightarrow> (driver_exit option \<times> ('d, 's, 'q) driver) option" where
  "drain_control env [] d = Some (None, d)"
| "drain_control env ((m, ts) # ms) d =
     (case on_control env m ts d of
        None \<Rightarrow> None
      | Some (Some x, d1) \<Rightarrow> Some (Some x, d1)
      | Some (None, d1) \<Rightarrow> drain_control env ms d1)"

section \<open>A pass of the loop\<close>

text \<open>
  What a pass observes. \<open>ps_env\<close> is what the others did since the last pass, \<open>ps_poll_env\<close> what they and
  the polled lane did by the time the poll returned: a lane issues the batch it returns.
\<close>

record ('d, 's, 'q) pass_obs =
  ps_parked :: "'q flushing list"
  ps_msgs :: "(thread_control \<times> 'q flushing list) list"
  ps_env :: "'q world \<Rightarrow> 'q world"
  ps_tick_at :: instant
  ps_low :: bool
  ps_recv :: "thread_control option"
  ps_idle :: "'q flushing"
  ps_idle_at :: instant
  ps_finished :: "lane_id \<Rightarrow> bool"
  ps_advanced :: "advance_counter \<Rightarrow> nat"
  ps_poll :: "source_error + payload_batch option"
  ps_poll_env :: "'q world \<Rightarrow> 'q world"
  ps_drive :: "('d, 's, 'q) retry list"
  ps_data_at :: instant

definition park_on_control :: "thread_control option \<Rightarrow> ('d, 's, 'q) driver \<Rightarrow> ('d, 's, 'q) driver" where
  "park_on_control recv d = (case recv of None \<Rightarrow> d | Some m \<Rightarrow> d\<lparr>dv_parked := Some m\<rparr>)"

text \<open>The ceiling on batches registered and not advanced past; a gate remembers which side it is on.\<close>

definition at_ceiling :: "driver_params \<Rightarrow> (advance_counter \<Rightarrow> nat) \<Rightarrow> gate_state \<Rightarrow> bool" where
  "at_ceiling p adv g \<longleftrightarrow> gs_issued g - adv (gs_advanced g) \<ge> dp_max_pending_batches p"

definition check_gate ::
  "driver_params \<Rightarrow> (advance_counter \<Rightarrow> nat) \<Rightarrow> bool \<Rightarrow> partition_id \<Rightarrow> (partition_id \<times> gate_state) list
     \<Rightarrow> bool \<times> (partition_id \<times> gate_state) list" where
  "check_gate p adv finished part gs =
     (case map_of gs part of
        Some g \<Rightarrow>
          if finished then (False, gs)
          else (at_ceiling p adv g, AList.update part (g\<lparr>gs_gated := at_ceiling p adv g\<rparr>) gs)
      | None \<Rightarrow> (False, gs))"

definition note_issued :: "partition_id \<Rightarrow> batch_id \<Rightarrow> (partition_id \<times> gate_state) list \<Rightarrow> (partition_id \<times> gate_state) list" where
  "note_issued part bid gs =
     (case map_of gs part of
        Some g \<Rightarrow>
          if bid_epoch bid = gs_epoch g then AList.update part (g\<lparr>gs_issued := max (gs_issued g) (bid_seq bid + 1)\<rparr>) gs
          else gs
      | None \<Rightarrow> gs)"

datatype pass_end = Continues | Parks | Exits driver_exit

text \<open>A thread with nothing to poll waits for a message and may flush.\<close>

definition wait_idle ::
  "('d, 't, 's, 'q) driver_env \<Rightarrow> ('d, 's, 'q) pass_obs \<Rightarrow> ('d, 's, 'q) driver \<Rightarrow> ('d, 's, 'q) driver option" where
  "wait_idle env ps d = idle_flush env (ps_idle ps) (ps_idle_at ps) (park_on_control (ps_recv ps) d)"

text \<open>
  The pass up to the poll: it ends here, or it polls a lane with a timeout. The lane comes from the
  rotation; it blocks only after a whole rotation of empty polls.
\<close>

definition choose_lane ::
  "('d, 't, 's, 'q) driver_env \<Rightarrow> ('d, 's, 'q) pass_obs \<Rightarrow> ('d, 's, 'q) driver
     \<Rightarrow> ((pass_end \<times> ('d, 's, 'q) driver) + (lane \<times> duration \<times> ('d, 's, 'q) driver)) option" where
  "choose_lane env ps d =
     (let n = length (dv_lanes d); i = dv_next_lane d mod n; lane = dv_lanes d ! i;
          timeout = (if dv_empty_polls d \<ge> n then dp_poll_timeout (de_params env) else 0);
          finished = ps_finished ps (ln_id lane);
          (closed, gs) = check_gate (de_params env) (ps_advanced ps) finished (ln_partition lane) (dv_gates d);
          d1 = d\<lparr>dv_next_lane := i + 1, dv_gates := gs\<rparr>
      in if finished \<or> closed then
           if dv_skipped d1 + 1 \<ge> n then
             map_option (\<lambda>d2. Inl (Continues, d2)) (wait_idle env ps (d1\<lparr>dv_skipped := 0\<rparr>))
           else Some (Inl (Continues, d1\<lparr>dv_skipped := dv_skipped d1 + 1\<rparr>))
         else Some (Inr (lane, timeout, d1\<lparr>dv_skipped := 0, dv_world := ps_poll_env ps (dv_world d1)\<rparr>)))"

text \<open>The messages of a pass: the one a wait received comes first.\<close>

definition pass_msgs :: "('d, 's, 'q) pass_obs \<Rightarrow> ('d, 's, 'q) driver \<Rightarrow> (thread_control \<times> 'q flushing list) list" where
  "pass_msgs ps d = (case dv_parked d of None \<Rightarrow> [] | Some m \<Rightarrow> [(m, ps_parked ps)]) @ ps_msgs ps"

definition ticked :: "('d, 's, 'q) pass_obs \<Rightarrow> ('d, 's, 'q) driver \<Rightarrow> ('d, 's, 'q) driver" where
  "ticked ps d = bp_tick (ps_tick_at ps) (ps_low ps) (map ln_id (dv_lanes d)) (d\<lparr>dv_world := ps_env ps (dv_world d)\<rparr>)"

definition before_poll ::
  "('d, 't, 's, 'q) driver_env \<Rightarrow> ('d, 's, 'q) pass_obs \<Rightarrow> ('d, 's, 'q) driver
     \<Rightarrow> ((pass_end \<times> ('d, 's, 'q) driver) + (lane \<times> duration \<times> ('d, 's, 'q) driver)) option" where
  "before_poll env ps d =
     (case drain_control env (pass_msgs ps d) (d\<lparr>dv_parked := None\<rparr>) of
        None \<Rightarrow> None
      | Some (Some x, d1) \<Rightarrow> Some (Inl (Exits x, d1))
      | Some (None, d1) \<Rightarrow>
          let d2 = ticked ps d1
          in if is_paused (dv_bp d2) then Some (Inl (Continues, d2))
             else if dv_lanes d2 = [] then map_option (\<lambda>d3. Inl (Continues, d3)) (wait_idle env ps d2)
             else choose_lane env ps d2)"

text \<open>\<open>CountingBatch\<close>: the payloads the chain took out of the batch. The batch goes with its handle.\<close>

definition on_batch ::
  "('d, 't, 's, 'q) driver_env \<Rightarrow> ('d, 's, 'q) pass_obs \<Rightarrow> lane \<Rightarrow> payload_batch \<Rightarrow> ('d, 's, 'q) driver
     \<Rightarrow> (bool \<times> ('d, 's, 'q) driver) option" where
  "on_batch env ps lane batch d =
     (let bid = ackref_batch_id (w_heap (dv_world d)) (pb_ack batch);
          d1 = d\<lparr>dv_empty_polls := 0, dv_gates := note_issued (ln_partition lane) bid (dv_gates d)\<rparr>
      in case drive_batch env (map ln_id (dv_lanes d)) (ps_drive ps) batch d1 of
           None \<Rightarrow> None
         | Some (res, batch', d2) \<Rightarrow>
             let records = length (pb_rest batch) - length (pb_rest batch');
                 d3 = (if records > 0 then d2\<lparr>dv_last_data := ps_data_at ps, dv_flushed := False\<rparr> else d2);
                 d4 = d3\<lparr>dv_world := (dv_world d3)\<lparr>w_heap := ackref_drop (pb_ack batch) (w_heap (dv_world d3))\<rparr>\<rparr>
             in Some (case res of
                        None \<Rightarrow> (False, d4)
                      | Some e \<Rightarrow> (True, send_event (DriverFatal (dp_thread (de_params env)) e) d4)))"

text \<open>What the poll returned; \<open>True\<close> when a fatal error was reported.\<close>

definition on_polled ::
  "('d, 't, 's, 'q) driver_env \<Rightarrow> ('d, 's, 'q) pass_obs \<Rightarrow> lane \<Rightarrow> ('d, 's, 'q) driver \<Rightarrow> (bool \<times> ('d, 's, 'q) driver) option" where
  "on_polled env ps lane d =
     (case ps_poll ps of
        Inr (Some batch) \<Rightarrow> on_batch env ps lane batch d
      | Inr None \<Rightarrow>
          map_option (\<lambda>d1. (False, d1))
            (idle_flush env (ps_idle ps) (ps_idle_at ps) (d\<lparr>dv_empty_polls := sat_add (dv_empty_polls d) 1\<rparr>))
      | Inl e \<Rightarrow>
          if source_class e = Fatal then
            Some (True, send_event (DriverFatal (dp_thread (de_params env))
              \<lparr>fe_component = driver_component (dp_thread (de_params env)),
               fe_reason = ''source poll failed: '' @ source_display e\<rparr>) d)
          else Some (False, d\<lparr>dv_empty_polls := sat_add (dv_empty_polls d) 1\<rparr>))"

definition pass ::
  "('d, 't, 's, 'q) driver_env \<Rightarrow> ('d, 's, 'q) pass_obs \<Rightarrow> ('d, 's, 'q) driver \<Rightarrow> (pass_end \<times> ('d, 's, 'q) driver) option" where
  "pass env ps d =
     (case before_poll env ps d of
        None \<Rightarrow> None
      | Some (Inl r) \<Rightarrow> Some r
      | Some (Inr (lane, timeout, d1)) \<Rightarrow>
          (case on_polled env ps lane d1 of
             None \<Rightarrow> None
           | Some (False, d2) \<Rightarrow> Some (Continues, d2)
           | Some (True, d2) \<Rightarrow> Some (Parks, d2\<lparr>dv_world := de_drop env (dv_chain d2) (dv_world d2)\<rparr>)))"

section \<open>A failed thread waits for the shutdown\<close>

fun on_parked :: "thread_control \<Rightarrow> ('d, 's, 'q) driver \<Rightarrow> driver_exit option \<times> ('d, 's, 'q) driver" where
  "on_parked (AddLane lane gate) d = (None, d)"
| "on_parked (StopLanes stop b deadline) d = (None, arrive (lanes_stopped stop d) b (retain_lanes stop d))"
| "on_parked (DropLanes gone) d = (None, retain_lanes gone d)"
| "on_parked FlushNow d = (None, d)"
| "on_parked (Shutdown b deadline) d = (Some DriverFailed, arrive 1 b (d\<lparr>dv_lanes := []\<rparr>))"

text \<open>The whole thread: passes, then, after a fatal error, the messages received while parked.\<close>

datatype driver_mode = Running | Parked | Exited driver_exit

datatype ('d, 's, 'q) driver_input = Pass "('d, 's, 'q) pass_obs" | Message thread_control | Disconnected

fun driver_step ::
  "('d, 't, 's, 'q) driver_env \<Rightarrow> ('d, 's, 'q) driver_input \<Rightarrow> driver_mode \<times> ('d, 's, 'q) driver
     \<Rightarrow> (driver_mode \<times> ('d, 's, 'q) driver) option" where
  "driver_step env (Pass ps) (Running, d) =
     (case pass env ps d of
        None \<Rightarrow> None
      | Some (Continues, d1) \<Rightarrow> Some (Running, d1)
      | Some (Parks, d1) \<Rightarrow> Some (Parked, d1)
      | Some (Exits x, d1) \<Rightarrow> Some (Exited x, d1))"
| "driver_step env (Message m) (Parked, d) =
     (case on_parked m d of (None, d1) \<Rightarrow> Some (Parked, d1) | (Some x, d1) \<Rightarrow> Some (Exited x, d1))"
| "driver_step env Disconnected (Parked, d) = Some (Exited DriverFailed, d)"
| "driver_step env i s = Some s"

section \<open>A batch is pushed to its end or failed\<close>

lemma push_loop_mid:
  "push_loop deserialize ops a rest pc c w = Some (out, rest', pc', c', w') \<Longrightarrow> tc_mid_batch c' = tc_mid_batch c"
proof (induction rest arbitrary: pc c w)
  case (Cons raw rest)
  from Cons.prems obtain st pc1 c1 w1 where d: "deser_step deserialize ops raw a pc c w = Some (st, pc1, c1, w1)"
    by (auto split: option.splits)
  have "tc_mid_batch (snd (snd (after_step raw st pc1 c1))) = tc_mid_batch c"
    using deser_step_cursor [OF d] by (cases st) (simp_all add: after_step_def)
  with Cons d show ?case by (auto split: option.splits prod.splits)
qed simp

lemma push_replay_mid: "push_replay deserialize ops a pc c w = Some (out, pc', c', w') \<Longrightarrow> tc_mid_batch c' = tc_mid_batch c"
  by (auto simp: push_replay_def after_step_def dest!: deser_step_cursor split: option.splits chain_step.splits)

lemma push_batch_blocked_mid:
  assumes "push_batch deserialize ops batch from c w = Some (BlockedAt n r, batch', c', w')"
  shows "tc_mid_batch c'"
proof -
  have m: "tc_mid_batch (begin_push c)" by (simp add: begin_push_def)
  have e: "end_push ops o1 pc a c2 w2 = (BlockedAt n r, c', w') \<Longrightarrow> tc_mid_batch c' = tc_mid_batch c2" for o1 pc a c2 w2
    by (auto simp: end_push_def publish_deser_def Let_def split: option.splits push_outcome.splits)
  from assms m show ?thesis
    by (auto simp: push_batch_def Let_def dest!: e push_loop_mid push_replay_mid split: option.splits prod.splits if_splits)
qed

lemma push_batch_done_mid:
  assumes "push_batch deserialize ops batch from c w = Some (Done, batch', c', w')"
  shows "\<not> tc_mid_batch c'"
proof -
  have e: "end_push ops o1 pc a c2 w2 = (Done, c', w') \<Longrightarrow> o1 \<noteq> Some Done \<Longrightarrow> \<not> tc_mid_batch c'" for o1 pc a c2 w2
    using end_push_cursor(4) by fastforce
  have r: "push_replay deserialize ops a pc c2 w2 \<noteq> Some (Some Done, x)" for a pc c2 w2 x
    by (auto simp: push_replay_def after_step_def split: option.splits chain_step.splits)
  have l: "push_loop deserialize ops a rest pc c2 w2 \<noteq> Some (Some Done, x)" for a rest pc c2 w2 x
    by (induction rest arbitrary: pc c2 w2) (auto simp: after_step_def split: option.splits chain_step.splits)
  from assms show ?thesis
    by (auto simp: push_batch_def Let_def r l dest!: e split: option.splits prod.splits if_splits)
qed

text \<open>The part of the driver that pushing, flushing and waiting leave alone.\<close>

definition kept :: "('d, 's, 'q) driver \<Rightarrow> ('d, 's, 'q) driver \<Rightarrow> bool" where
  "kept d d' \<longleftrightarrow>
     dv_lanes d' = dv_lanes d \<and> dv_gates d' = dv_gates d \<and> dv_arrived d' = dv_arrived d \<and>
     dv_next_lane d' = dv_next_lane d \<and> dv_skipped d' = dv_skipped d \<and> dv_empty_polls d' = dv_empty_polls d"

lemma kept_refl [simp]: "kept d d"
  by (simp add: kept_def)

lemma kept_trans: "kept d d1 \<Longrightarrow> kept d1 d2 \<Longrightarrow> kept d d2"
  by (simp add: kept_def)

lemma kept_simps [simp]:
  "kept d (send_event e d') = kept d d'" "kept d (bp_rejected now d') = kept d d'" "kept d (bp_tick now low owned d') = kept d d'"
  "kept d (fail_ack a d') = kept d d'" "kept d (on_blocked t reason owned d') = kept d d'"
  "kept d (d'\<lparr>dv_chain := c\<rparr>) = kept d d'" "kept d (d'\<lparr>dv_world := w\<rparr>) = kept d d'" "kept d (d'\<lparr>dv_flushed := b\<rparr>) = kept d d'"
  "kept d (d'\<lparr>dv_last_data := x\<rparr>) = kept d d'"
  "kept d (d'\<lparr>dv_parked := m\<rparr>) = kept d d'"
  by (auto simp: kept_def send_event_def bp_rejected_def bp_tick_def apply_transition_def fail_ack_def on_blocked_def
      split: option.split prod.split)

lemma drive_loop_kept: "drive_loop env owned ts from batch d = Some (res, batch', d') \<Longrightarrow> kept d d'"
proof (induction ts arbitrary: "from" batch d)
  case (Cons t ts)
  from Cons.prems show ?case
    by (auto simp: Let_def dest!: Cons.IH split: option.splits prod.splits push_outcome.splits if_splits)
      (auto simp: kept_def on_blocked_def bp_tick_def bp_rejected_def apply_transition_def send_event_def
        split: if_splits option.splits prod.splits)
qed simp

lemma drive_loop_settles:
  assumes "drive_loop env owned ts from batch d = Some (res, batch', d')"
  shows "(res = None \<and> pb_rest batch' = [] \<and> tc_pending (dv_chain d') = None \<and> \<not> tc_mid_batch (dv_chain d') \<and>
      tc_cursor (dv_chain d') = tc_cursor (begin_push (dv_chain d)) + length (unprocessed (begin_push (dv_chain d)) (pb_rest batch)))
    \<or> ((\<exists>h. w_heap (dv_world d') = ackref_fail (pb_ack batch) h) \<and>
        (res = None \<longrightarrow> tc_pending (dv_chain d') = None \<and> \<not> tc_mid_batch (dv_chain d')))"
  using assms
proof (induction ts arbitrary: "from" batch d)
  case (Cons t ts)
  let ?c = "dv_chain d" and ?w = "rt_env t (dv_world d)"
  show ?case
  proof (cases "push_batch (de_deserialize env) (de_ops env) batch from ?c ?w")
    case None
    with Cons.prems show ?thesis by (auto simp: fail_ack_def split: prod.splits)
  next
    case (Some x)
    obtain out b c w where x: "x = (out, b, c, w)" by (cases x) auto
    note p = Some [unfolded x]
    note res = push_batch_resumes [OF p]
    show ?thesis
    proof (cases out)
      case Done
      with Cons.prems p res push_batch_done_mid [OF p [unfolded Done]] show ?thesis by (auto simp: resumes_def Let_def)
    next
      case (BlockedAt n reason)
      note mid = push_batch_blocked_mid [OF p [unfolded BlockedAt]]
      show ?thesis
      proof (cases "rt_shutdown t")
        case True
        with Cons.prems p BlockedAt show ?thesis by (auto simp: fail_ack_def abandon_batch_def Let_def)
      next
        case False
        let ?d = "on_blocked t reason owned (d\<lparr>dv_chain := c, dv_world := w\<rparr>)"
        have c: "begin_push (dv_chain ?d) = c"
          using mid by (simp add: begin_push_def on_blocked_def bp_tick_def bp_rejected_def apply_transition_def send_event_def
              split: option.split prod.split)
        have "drive_loop env owned ts n b ?d = Some (res, batch', d')"
          using Cons.prems p BlockedAt False by (simp add: Let_def)
        from Cons.IH [OF this] c res BlockedAt show ?thesis by (auto simp: resumes_def)
      qed
    next
      case (FatalOutcome e)
      with Cons.prems p show ?thesis by (auto simp: fail_ack_def Let_def)
    qed
  qed
qed simp

lemma drive_loop_returns: "\<exists>t \<in> set ts. rt_shutdown t \<Longrightarrow> drive_loop env owned ts from batch d \<noteq> None"
proof (induction ts arbitrary: "from" batch d)
  case (Cons t ts)
  have "drive_loop env owned ts n b e \<noteq> None" if "\<not> rt_shutdown t" for n b e
    using Cons.prems that by (intro Cons.IH) auto
  then show ?case by (simp add: Let_def del: not_None_eq split: option.split prod.split push_outcome.split)
qed simp

lemma drive_batch_returns:
  assumes "\<exists>t \<in> set ts. rt_shutdown t"
  shows "drive_batch env owned ts batch d \<noteq> None"
  using drive_loop_returns [OF assms, of env owned 0 batch "d\<lparr>dv_world := clone_ack (pb_ack batch) (dv_world d)\<rparr>"]
  by (auto simp: drive_batch_def)

lemma drive_batch_kept: "drive_batch env owned ts batch d = Some (res, batch', d') \<Longrightarrow> kept d d'"
  by (auto simp: drive_batch_def kept_def dest!: drive_loop_kept split: option.splits)

lemma flush_once_kept: "flush_once env t d = Some (out, d') \<Longrightarrow> kept d d'"
  by (auto simp: flush_once_def Let_def split: option.splits push_outcome.splits)

lemma flush_until_kept: "flush_until env ts deadline d = Some d' \<Longrightarrow> kept d d'"
proof (induction ts arbitrary: d)
  case (Cons t ts)
  from Cons.prems obtain out d1 where f: "flush_once env t d = Some (out, d1)" by (auto split: option.splits)
  from Cons.prems f have "d' = d1 \<or> flush_until env ts deadline d1 = Some d'"
    by (auto split: push_outcome.splits if_splits)
  with Cons.IH flush_once_kept [OF f] kept_trans show ?case by blast
qed simp

lemma idle_flush_kept: "idle_flush env t now d = Some d' \<Longrightarrow> kept d d'"
  by (auto simp: idle_flush_def flush_now_def dest!: flush_once_kept split: if_splits option.splits)

lemma wait_idle_kept: "wait_idle env ps d = Some d' \<Longrightarrow> kept d d'"
  by (auto simp: wait_idle_def park_on_control_def kept_def dest!: idle_flush_kept split: option.splits)

lemma on_batch_gates:
  "on_batch env ps lane batch d = Some (fatal, d') \<Longrightarrow>
     dv_gates d' = note_issued (ln_partition lane) (ackref_batch_id (w_heap (dv_world d)) (pb_ack batch)) (dv_gates d)"
  by (auto simp: on_batch_def Let_def kept_def send_event_def dest!: drive_batch_kept split: option.splits)

lemma on_batch_returns: "\<exists>t \<in> set (ps_drive ps). rt_shutdown t \<Longrightarrow> on_batch env ps lane batch d \<noteq> None"
  by (simp add: on_batch_def Let_def drive_batch_returns del: not_None_eq split: option.split)

section \<open>Messages are answered\<close>

text \<open>
  What a message does to the lanes a thread owns, and the arrivals it is owed: one per lane stopped,
  one for a shutdown. A thread parked after a failure turns new lanes away.
\<close>

fun answered :: "bool \<times> thread_control \<Rightarrow> lane list \<times> barrier list \<Rightarrow> lane list \<times> barrier list" where
  "answered (parked, AddLane lane gate) (ls, bs) = (if parked then ls else ls @ [lane], bs)"
| "answered (parked, StopLanes stop b deadline) (ls, bs) =
     (filter (\<lambda>l. ln_id l \<notin> set stop) ls, bs @ replicate (length (filter (\<lambda>l. ln_id l \<in> set stop) ls)) b)"
| "answered (parked, FlushNow) (ls, bs) = (ls, bs)"
| "answered (parked, DropLanes gone) (ls, bs) = (filter (\<lambda>l. ln_id l \<notin> set gone) ls, bs)"
| "answered (parked, Shutdown b deadline) (ls, bs) = ([], bs @ [b])"

abbreviation "books_of d \<equiv> (dv_lanes d, dv_arrived d)"

fun is_shutdown :: "thread_control \<Rightarrow> bool" where
  "is_shutdown (Shutdown b deadline) \<longleftrightarrow> True"
| "is_shutdown _ \<longleftrightarrow> False"

lemma on_control_answers:
  assumes "on_control env m ts d = Some (x, d')"
  shows "books_of d' = answered (False, m) (books_of d)" "x = (if is_shutdown m then Some Completed else None)"
proof -
  show "books_of d' = answered (False, m) (books_of d)"
    using assms
    by (cases m; auto simp: arrive_def retain_lanes_def prune_gates_def lanes_stopped_def kept_def flush_now_def Let_def
        dest!: flush_until_kept flush_once_kept split: option.splits if_splits list.splits)
  show "x = (if is_shutdown m then Some Completed else None)"
    using assms by (cases m; auto simp: flush_now_def Let_def split: option.splits if_splits list.splits)
qed

lemma on_parked_answers:
  "books_of (snd (on_parked m d)) = answered (True, m) (books_of d)" "fst (on_parked m d) = (if is_shutdown m then Some DriverFailed else None)"
  by (cases m; simp add: arrive_def retain_lanes_def lanes_stopped_def) (cases m; simp)

text \<open>The messages of a pass that are read: none after a shutdown.\<close>

fun up_to_shutdown :: "thread_control list \<Rightarrow> thread_control list" where
  "up_to_shutdown [] = []"
| "up_to_shutdown (m # ms) = (if is_shutdown m then [m] else m # up_to_shutdown ms)"

lemma drain_control_answers:
  assumes "drain_control env ms d = Some (x, d')"
  shows "books_of d' = fold answered (map (Pair False) (up_to_shutdown (map fst ms))) (books_of d)
    \<and> x = (if list_ex is_shutdown (map fst ms) then Some Completed else None)"
  using assms
proof (induction env ms d rule: drain_control.induct)
  case (2 env m ts ms d)
  from 2(2) obtain y d1 where o: "on_control env m ts d = Some (y, d1)" by (auto split: option.splits)
  show ?case
  proof (cases "is_shutdown m")
    case True
    with o 2(2) on_control_answers [OF o] show ?thesis by simp
  next
    case False
    with o on_control_answers(2) [OF o] have y: "y = None" by simp
    with o 2(2) have "drain_control env ms d1 = Some (x, d')" by simp
    from 2(1) [OF o _ y this] on_control_answers(1) [OF o] False show ?thesis by simp
  qed
qed simp

lemma bp_tick_fields [simp]:
  "dv_lanes (bp_tick now low owned d) = dv_lanes d" "dv_arrived (bp_tick now low owned d) = dv_arrived d"
  "dv_gates (bp_tick now low owned d) = dv_gates d" "dv_next_lane (bp_tick now low owned d) = dv_next_lane d"
  "dv_skipped (bp_tick now low owned d) = dv_skipped d" "dv_parked (bp_tick now low owned d) = dv_parked d"
  "dv_empty_polls (bp_tick now low owned d) = dv_empty_polls d"
  by (auto simp: bp_tick_def apply_transition_def send_event_def split: option.split prod.split)

lemma ticked_fields [simp]:
  "dv_lanes (ticked ps d) = dv_lanes d" "dv_arrived (ticked ps d) = dv_arrived d" "dv_gates (ticked ps d) = dv_gates d"
  "dv_next_lane (ticked ps d) = dv_next_lane d" "dv_skipped (ticked ps d) = dv_skipped d" "dv_parked (ticked ps d) = dv_parked d"
  "dv_empty_polls (ticked ps d) = dv_empty_polls d"
  by (simp_all add: ticked_def)

lemma before_poll_cases:
  assumes "before_poll env ps d = Some b"
  obtains (exits) x d1 where "drain_control env (pass_msgs ps d) (d\<lparr>dv_parked := None\<rparr>) = Some (Some x, d1)" "b = Inl (Exits x, d1)"
  | (paused) d1 where "drain_control env (pass_msgs ps d) (d\<lparr>dv_parked := None\<rparr>) = Some (None, d1)"
      "is_paused (dv_bp (ticked ps d1))" "b = Inl (Continues, ticked ps d1)"
  | (idle) d1 d2 where "drain_control env (pass_msgs ps d) (d\<lparr>dv_parked := None\<rparr>) = Some (None, d1)"
      "wait_idle env ps (ticked ps d1) = Some d2" "b = Inl (Continues, d2)" "dv_lanes d1 = []"
  | (lanes) d1 where "drain_control env (pass_msgs ps d) (d\<lparr>dv_parked := None\<rparr>) = Some (None, d1)"
      "\<not> is_paused (dv_bp (ticked ps d1))" "dv_lanes d1 \<noteq> []" "choose_lane env ps (ticked ps d1) = Some b"
  using assms by (auto simp: before_poll_def Let_def split: option.splits if_splits)

lemma choose_lane_books:
  "choose_lane env ps d = Some (Inl (r, d')) \<Longrightarrow> books_of d' = books_of d \<and> r = Continues"
  "choose_lane env ps d = Some (Inr (lane, timeout, d')) \<Longrightarrow> books_of d' = books_of d"
  by (auto simp: choose_lane_def Let_def kept_def dest!: wait_idle_kept split: prod.splits if_splits)

lemma on_polled_kept:
  assumes "on_polled env ps lane d = Some (fatal, d')"
  shows "books_of d' = books_of d" "dv_next_lane d' = dv_next_lane d" "dv_skipped d' = dv_skipped d"
  using assms
  by (auto simp: on_polled_def on_batch_def Let_def kept_def send_event_def dest!: drive_batch_kept idle_flush_kept
      split: sum.splits option.splits if_splits)

text \<open>The messages a step reads, with whether the thread is parked.\<close>

fun heard :: "('d, 's, 'q) driver_input \<Rightarrow> driver_mode \<times> ('d, 's, 'q) driver \<Rightarrow> (bool \<times> thread_control) list" where
  "heard (Pass ps) (Running, d) = map (Pair False) (up_to_shutdown (map fst (pass_msgs ps d)))"
| "heard (Message m) (Parked, d) = [(True, m)]"
| "heard _ _ = []"

lemma up_to_shutdown_ex: "(\<exists>m \<in> set (up_to_shutdown ms). is_shutdown m) \<longleftrightarrow> (\<exists>m \<in> set ms. is_shutdown m)"
  by (induction ms) auto

lemma pass_answers:
  assumes "pass env ps d = Some (r, d')"
  shows "books_of d' = fold answered (heard (Pass ps) (Running, d)) (books_of d)
    \<and> (\<forall>x. r = Exits x \<longleftrightarrow> x = Completed \<and> (\<exists>h \<in> set (heard (Pass ps) (Running, d)). is_shutdown (snd h)))"
proof -
  let ?H = "heard (Pass ps) (Running, d)"
  have ex: "(\<exists>h \<in> set ?H. is_shutdown (snd h)) \<longleftrightarrow> list_ex is_shutdown (map fst (pass_msgs ps d))"
    using up_to_shutdown_ex [of "map fst (pass_msgs ps d)"] by (simp add: list_ex_iff)
  have a: "books_of d1 = fold answered ?H (books_of d)" "x = (if \<exists>h \<in> set ?H. is_shutdown (snd h) then Some Completed else None)"
    if "drain_control env (pass_msgs ps d) (d\<lparr>dv_parked := None\<rparr>) = Some (x, d1)" for x d1
    using drain_control_answers [OF that] unfolding ex by simp_all
  from assms obtain b where b: "before_poll env ps d = Some b" by (auto simp: pass_def split: option.splits)
  from b show ?thesis
  proof (cases rule: before_poll_cases)
    case (exits x d1)
    with assms b have "r = Exits x" "d' = d1" by (simp_all add: pass_def)
    with a [OF exits(1)] show ?thesis by (auto split: if_splits)
  next
    case (paused d1)
    with assms b have "r = Continues" "d' = ticked ps d1" by (simp_all add: pass_def)
    with a [OF paused(1)] show ?thesis by (auto split: if_splits)
  next
    case (idle d1 d2)
    with assms b have "r = Continues" "books_of d' = books_of d1" using wait_idle_kept [OF idle(2)] by (simp_all add: pass_def kept_def)
    with a [OF idle(1)] show ?thesis by (auto split: if_splits)
  next
    case (lanes d1)
    have "books_of d' = books_of d1 \<and> (r = Continues \<or> r = Parks)"
    proof (cases b)
      case (Inl q)
      with assms b lanes(4) show ?thesis by (cases q) (auto simp: pass_def dest: choose_lane_books)
    next
      case (Inr q)
      with assms b lanes(4) show ?thesis
        by (cases q) (auto simp: pass_def dest!: on_polled_kept(1) choose_lane_books(2) split: option.splits bool.splits)
    qed
    with a [OF lanes(1)] show ?thesis by (auto split: if_splits)
  qed
qed

fun driver_run ::
  "('d, 't, 's, 'q) driver_env \<Rightarrow> ('d, 's, 'q) driver_input list \<Rightarrow> driver_mode \<times> ('d, 's, 'q) driver
     \<Rightarrow> (driver_mode \<times> ('d, 's, 'q) driver) option" where
  "driver_run env [] s = Some s"
| "driver_run env (i # is) s = (case driver_step env i s of None \<Rightarrow> None | Some s' \<Rightarrow> driver_run env is s')"

fun heard_run ::
  "('d, 't, 's, 'q) driver_env \<Rightarrow> ('d, 's, 'q) driver_input list \<Rightarrow> driver_mode \<times> ('d, 's, 'q) driver
     \<Rightarrow> (bool \<times> thread_control) list" where
  "heard_run env [] s = []"
| "heard_run env (i # is) s = heard i s @ (case driver_step env i s of None \<Rightarrow> [] | Some s' \<Rightarrow> heard_run env is s')"

lemma up_to_shutdown_last:
  "\<exists>m \<in> set (up_to_shutdown ms). is_shutdown m \<Longrightarrow> up_to_shutdown ms \<noteq> [] \<and> is_shutdown (last (up_to_shutdown ms))"
proof (induction ms)
  case (Cons m ms)
  then show ?case by (cases "is_shutdown m"; cases "up_to_shutdown ms = []") auto
qed simp

definition shut :: "(bool \<times> thread_control) list \<Rightarrow> bool" where
  "shut hs \<longleftrightarrow> hs \<noteq> [] \<and> is_shutdown (snd (last hs))"

lemma heard_shut: "\<exists>h \<in> set (heard i s). is_shutdown (snd h) \<Longrightarrow> shut (heard i s)"
  by (cases "(i, s)" rule: heard.cases) (auto simp: shut_def last_map dest!: up_to_shutdown_last)

lemma step_answers:
  assumes "driver_step env i (m, d) = Some (m', d')"
  shows "books_of d' = fold answered (heard i (m, d)) (books_of d)"
    "\<exists>h \<in> set (heard i (m, d)). is_shutdown (snd h) \<Longrightarrow> m' = Exited (if m = Running then Completed else DriverFailed)"
proof -
  have "books_of d' = fold answered (heard i (m, d)) (books_of d) \<and>
    ((\<exists>h \<in> set (heard i (m, d)). is_shutdown (snd h)) \<longrightarrow> m' = Exited (if m = Running then Completed else DriverFailed))"
  proof (cases "(env, i, m, d)" rule: driver_step.cases)
    case (1 env' ps d0)
    with assms obtain r where p: "pass env ps d = Some (r, d')"
      "m' = (case r of Continues \<Rightarrow> Running | Parks \<Rightarrow> Parked | Exits x \<Rightarrow> Exited x)"
      by (auto split: option.splits pass_end.splits)
    with 1 pass_answers [OF p(1)] show ?thesis by (auto split: pass_end.splits simp del: heard.simps)
  next
    case (2 env' msg d0)
    with assms on_parked_answers [of msg d] show ?thesis by (auto split: prod.splits option.splits if_splits)
  qed (use assms in auto)
  then show "books_of d' = fold answered (heard i (m, d)) (books_of d)"
    "\<exists>h \<in> set (heard i (m, d)). is_shutdown (snd h) \<Longrightarrow> m' = Exited (if m = Running then Completed else DriverFailed)"
    by blast+
qed

lemma exited_stays: "driver_run env is (Exited x, d) = Some (m, d') \<Longrightarrow> m = Exited x \<and> d' = d" "heard_run env is (Exited x, d) = []"
proof -
  have s: "driver_step env i (Exited x, d) = Some (Exited x, d)" "heard i (Exited x, d) = []" for i
    by (cases i; simp)+
  show "driver_run env is (Exited x, d) = Some (m, d') \<Longrightarrow> m = Exited x \<and> d' = d" by (induction "is") (auto simp: s)
  show "heard_run env is (Exited x, d) = []" by (induction "is") (auto simp: s)
qed

lemma run_answers:
  assumes "driver_run env is (m, d) = Some (m', d')"
  shows "books_of d' = fold answered (heard_run env is (m, d)) (books_of d)
    \<and> ((\<exists>h \<in> set (heard_run env is (m, d)). is_shutdown (snd h)) \<longrightarrow> shut (heard_run env is (m, d)) \<and> (\<exists>x. m' = Exited x))"
  using assms
proof (induction "is" arbitrary: m d)
  case (Cons i "is")
  from Cons.prems obtain m1 d1 where 1: "driver_step env i (m, d) = Some (m1, d1)"
    and 2: "driver_run env is (m1, d1) = Some (m', d')" by (auto split: option.splits)
  note a = step_answers [OF 1] and IH = Cons.IH [OF 2]
  show ?case
  proof (cases "\<exists>h \<in> set (heard i (m, d)). is_shutdown (snd h)")
    case True
    then obtain x where x: "m1 = Exited x" using a(2) by blast
    have hr: "heard_run env (i # is) (m, d) = heard i (m, d)" using 1 exited_stays(2) [of env "is" x d1] x by simp
    from True a(1) heard_shut exited_stays(1) [OF 2 [unfolded x]] show ?thesis unfolding hr by blast
  next
    case False
    with 1 IH a(1) show ?thesis by (auto simp: shut_def)
  qed
qed simp

text \<open>
  C15. A driver thread answers every message, and a failed one no less. Over any run, the lanes a thread
  owns and the barriers it arrived at are those the messages it read call for: a stop is answered
  with one arrival for each lane it names that the thread owns, and a shutdown with one, after which
  the thread has exited, owns no lane and reads nothing. A thread whose chain or source failed goes
  on answering, so that no drain waits for it.
\<close>

theorem driver_answers_messages:
  assumes "driver_run env is (Running, run_driver_start chain w bp now) = Some (m, d)"
  shows "books_of d = fold answered (heard_run env is (Running, run_driver_start chain w bp now)) ([], [])
    \<and> ((\<exists>h \<in> set (heard_run env is (Running, run_driver_start chain w bp now)). is_shutdown (snd h)) \<longrightarrow>
         (\<exists>x. m = Exited x) \<and> dv_lanes d = [] \<and>
         (\<exists>pre b t. snd (last (heard_run env is (Running, run_driver_start chain w bp now))) = Shutdown b t \<and>
            dv_arrived d = pre @ [b]))"
proof -
  define H where "H = heard_run env is (Running, run_driver_start chain w bp now)"
  have a: "books_of d = fold answered H ([], [])" "(\<exists>h \<in> set H. is_shutdown (snd h)) \<longrightarrow> shut H \<and> (\<exists>x. m = Exited x)"
    using run_answers [OF assms] unfolding H_def by (simp_all add: run_driver_start_def)
  have "dv_lanes d = [] \<and> (\<exists>pre b t. snd (last H) = Shutdown b t \<and> dv_arrived d = pre @ [b])" if shut: "shut H"
  proof -
    obtain H0 p c where H: "H = H0 @ [(p, c)]" using shut by (cases H rule: rev_cases) (auto simp: shut_def)
    obtain b t where c: "c = Shutdown b t" using shut H by (cases c) (auto simp: shut_def)
    obtain ls bs where f: "fold answered H0 ([], []) = (ls, bs)" by fastforce
    from a(1) H c f show ?thesis by simp
  qed
  with a show ?thesis unfolding H_def by blast
qed

section \<open>The pending ceiling\<close>

text \<open>No gate has more batches issued than the ceiling allows beyond those advanced past.\<close>

definition within :: "driver_params \<Rightarrow> (advance_counter \<Rightarrow> nat) \<Rightarrow> (partition_id \<times> gate_state) list \<Rightarrow> bool" where
  "within p adv gs \<longleftrightarrow>
     (\<forall>part g. map_of gs part = Some g \<longrightarrow> gs_issued g \<le> adv (gs_advanced g) + dp_max_pending_batches p)"

lemma within_mono: "within p adv gs \<Longrightarrow> (\<And>c. adv c \<le> adv' c) \<Longrightarrow> within p adv' gs"
  unfolding within_def by (meson add_le_mono1 le_trans)

lemma within_update:
  "within p adv gs \<Longrightarrow> gs_issued g \<le> adv (gs_advanced g) + dp_max_pending_batches p \<Longrightarrow> within p adv (AList.update part g gs)"
  by (auto simp: within_def update_conv')

lemma within_add_gate: "within p adv gs \<Longrightarrow> within p adv (add_gate lane gate gs)"
  by (auto simp: add_gate_def intro!: within_update split: option.split)

lemma map_of_keys: "map_of (filter (\<lambda>(k, v). P k) gs) k = (if P k then map_of gs k else None)"
  by (induction gs) auto

lemma within_prune: "within p adv (dv_gates d) \<Longrightarrow> within p adv (dv_gates (prune_gates d))"
  unfolding prune_gates_def by (auto simp: within_def map_of_keys split: if_splits)

lemma within_control:
  assumes "on_control env m ts d = Some (x, d')" "within p adv (dv_gates d)"
  shows "within p adv (dv_gates d')"
proof (cases m)
  case (AddLane lane gate)
  with assms show ?thesis by (auto intro: within_add_gate split: option.splits)
next
  case (StopLanes stop b deadline)
  let ?d = "(prune_gates (retain_lanes stop d))\<lparr>dv_skipped := 0\<rparr>"
  have "dv_gates d' = dv_gates ?d"
    using assms(1) StopLanes
    by (auto simp: arrive_def Let_def kept_def dest!: flush_until_kept split: option.splits if_splits)
  moreover have "within p adv (dv_gates ?d)" using within_prune [of p adv "retain_lanes stop d"] assms(2) by (simp add: retain_lanes_def)
  ultimately show ?thesis by simp
next
  case (DropLanes gone)
  with assms within_prune [of p adv "retain_lanes gone d"] show ?thesis by (auto simp: retain_lanes_def)
next
  case FlushNow
  with assms show ?thesis by (auto simp: flush_now_def kept_def dest!: flush_once_kept split: list.splits option.splits if_splits)
next
  case (Shutdown b deadline)
  with assms show ?thesis by (auto simp: arrive_def kept_def dest!: flush_until_kept split: option.splits)
qed

lemma within_drain: "drain_control env ms d = Some (x, d') \<Longrightarrow> within p adv (dv_gates d) \<Longrightarrow> within p adv (dv_gates d')"
proof (induction env ms d rule: drain_control.induct)
  case (2 env m ts ms d)
  then show ?case by (auto dest: within_control split: option.splits)
qed simp

lemma check_gate_ok:
  assumes "check_gate p adv finished part gs = (closed, gs')" "within p adv gs"
  shows "within p adv gs'" "\<not> closed \<Longrightarrow> \<not> finished \<Longrightarrow> map_of gs' part = Some g \<Longrightarrow> \<not> at_ceiling p adv g"
  using assms
  by (auto simp: check_gate_def at_ceiling_def update_conv' intro!: within_update split: option.splits if_splits)
    (auto simp: within_def)

lemma within_note:
  assumes "within p adv gs"
    and "\<And>g. map_of gs part = Some g \<Longrightarrow> \<not> at_ceiling p adv g \<and> (bid_epoch bid = gs_epoch g \<longrightarrow> bid_seq bid \<le> gs_issued g)"
  shows "within p adv (note_issued part bid gs)"
proof (cases "map_of gs part")
  case (Some g)
  have "max (gs_issued g) (bid_seq bid + 1) \<le> adv (gs_advanced g) + dp_max_pending_batches p" if "bid_epoch bid = gs_epoch g"
    using assms(2) [OF Some] that by (auto simp: at_ceiling_def)
  with Some assms(1) show ?thesis by (auto simp: note_issued_def intro!: within_update)
qed (use assms(1) in \<open>simp add: note_issued_def\<close>)

lemma choose_lane_within:
  assumes "choose_lane env ps d = Some b" "within (de_params env) (ps_advanced ps) (dv_gates d)"
  shows "case b of
      Inl (r, d') \<Rightarrow> within (de_params env) (ps_advanced ps) (dv_gates d')
    | Inr (lane, timeout, d') \<Rightarrow> within (de_params env) (ps_advanced ps) (dv_gates d') \<and>
        (\<forall>g. map_of (dv_gates d') (ln_partition lane) = Some g \<longrightarrow> \<not> at_ceiling (de_params env) (ps_advanced ps) g)"
proof -
  let ?lane = "dv_lanes d ! (dv_next_lane d mod length (dv_lanes d))"
  obtain closed gs where c: "check_gate (de_params env) (ps_advanced ps) (ps_finished ps (ln_id ?lane)) (ln_partition ?lane) (dv_gates d) = (closed, gs)"
    by fastforce
  note g = check_gate_ok [OF c assms(2)]
  show ?thesis
    using assms(1) c g by (auto simp: choose_lane_def Let_def kept_def dest!: wait_idle_kept split: if_splits)
qed

text \<open>
  The batches of a partition and epoch come from one issuer, in sequence: the one polled is the next
  that the gate does not count yet.
\<close>

definition fed :: "('d, 't, 's, 'q) driver_env \<Rightarrow> ('d, 's, 'q) pass_obs \<Rightarrow> ('d, 's, 'q) driver \<Rightarrow> bool" where
  "fed env ps d \<longleftrightarrow>
     (\<forall>lane timeout d1 batch g. before_poll env ps d = Some (Inr (lane, timeout, d1)) \<longrightarrow> ps_poll ps = Inr (Some batch) \<longrightarrow>
        map_of (dv_gates d1) (ln_partition lane) = Some g \<longrightarrow>
        bid_epoch (ackref_batch_id (w_heap (dv_world d1)) (pb_ack batch)) = gs_epoch g \<longrightarrow>
        bid_seq (ackref_batch_id (w_heap (dv_world d1)) (pb_ack batch)) \<le> gs_issued g)"

lemma pass_within:
  assumes p: "pass env ps d = Some (r, d')" and w: "within (de_params env) (ps_advanced ps) (dv_gates d)" and f: "fed env ps d"
  shows "within (de_params env) (ps_advanced ps) (dv_gates d')"
proof -
  let ?w = "\<lambda>d. within (de_params env) (ps_advanced ps) (dv_gates d)"
  from p obtain b where b: "before_poll env ps d = Some b" by (auto simp: pass_def split: option.splits)
  have bw: "case b of Inl (r, d1) \<Rightarrow> ?w d1
    | Inr (lane, timeout, d1) \<Rightarrow> ?w d1 \<and>
        (\<forall>g. map_of (dv_gates d1) (ln_partition lane) = Some g \<longrightarrow> \<not> at_ceiling (de_params env) (ps_advanced ps) g)"
    using b
  proof (cases rule: before_poll_cases)
    case (exits x d1)
    with w within_drain [OF exits(1)] show ?thesis by simp
  next
    case (paused d1)
    with w within_drain [OF paused(1)] show ?thesis by simp
  next
    case (idle d1 d2)
    with w within_drain [OF idle(1)] wait_idle_kept [OF idle(2)] show ?thesis by (simp add: kept_def)
  next
    case (lanes d1)
    with w within_drain [OF lanes(1)] show ?thesis by (intro choose_lane_within [OF lanes(4)]) simp
  qed
  show ?thesis
  proof (cases b)
    case (Inl q)
    with p b bw show ?thesis by (auto simp: pass_def)
  next
    case (Inr q)
    obtain lane timeout d1 where q: "q = (lane, timeout, d1)" by (cases q) auto
    with Inr p b obtain fatal d2 where o: "on_polled env ps lane d1 = Some (fatal, d2)" "dv_gates d' = dv_gates d2"
      by (auto simp: pass_def split: option.splits bool.splits)
    note bw = bw [unfolded Inr q, simplified]
    show ?thesis
    proof (cases "ps_poll ps")
      case (Inl e)
      with o bw show ?thesis by (auto simp: on_polled_def send_event_def split: if_splits)
    next
      case poll: (Inr pb)
      show ?thesis
      proof (cases pb)
        case None
        with poll o bw show ?thesis by (auto simp: on_polled_def kept_def dest!: idle_flush_kept)
      next
        case (Some batch)
        let ?id = "ackref_batch_id (w_heap (dv_world d1)) (pb_ack batch)"
        have "dv_gates d2 = note_issued (ln_partition lane) ?id (dv_gates d1)"
          using o(1) poll Some by (auto simp: on_polled_def dest: on_batch_gates)
        moreover have "within (de_params env) (ps_advanced ps) (note_issued (ln_partition lane) ?id (dv_gates d1))"
          using bw f b poll Some Inr q by (intro within_note) (auto simp: fed_def)
        ultimately show ?thesis using o(2) by simp
      qed
    qed
  qed
qed

text \<open>Readings of the counters never go back, and every polled batch is the next of its gate.\<close>

fun fed_run ::
  "('d, 't, 's, 'q) driver_env \<Rightarrow> (advance_counter \<Rightarrow> nat) \<Rightarrow> ('d, 's, 'q) driver_input list
     \<Rightarrow> driver_mode \<times> ('d, 's, 'q) driver \<Rightarrow> bool" where
  "fed_run env adv [] s \<longleftrightarrow> True"
| "fed_run env adv (i # is) s \<longleftrightarrow>
     (case (i, fst s) of
        (Pass ps, Running) \<Rightarrow>
          (\<forall>c. adv c \<le> ps_advanced ps c) \<and> fed env ps (snd s) \<and>
          (case driver_step env i s of None \<Rightarrow> True | Some s' \<Rightarrow> fed_run env (ps_advanced ps) is s')
      | _ \<Rightarrow> (case driver_step env i s of None \<Rightarrow> True | Some s' \<Rightarrow> fed_run env adv is s'))"

lemma parked_gates:
  "driver_step env i (m, d) = Some (m', d') \<Longrightarrow> m \<noteq> Running \<Longrightarrow> dv_gates d' = dv_gates d \<and> m' \<noteq> Running"
proof (cases "(env, i, m, d)" rule: driver_step.cases)
  case (2 env' msg d0)
  moreover assume "driver_step env i (m, d) = Some (m', d')"
  ultimately show ?thesis by (cases msg) (auto simp: arrive_def retain_lanes_def)
qed auto

lemma parked_run_gates:
  "driver_run env is (m, d) = Some (m', d') \<Longrightarrow> m \<noteq> Running \<Longrightarrow> dv_gates d' = dv_gates d"
proof (induction "is" arbitrary: m d)
  case (Cons i "is")
  from Cons.prems(1) obtain m1 d1 where 1: "driver_step env i (m, d) = Some (m1, d1)" "driver_run env is (m1, d1) = Some (m', d')"
    by (auto split: option.splits)
  with Cons.IH [OF 1(2)] parked_gates [OF 1(1)] Cons.prems(2) show ?case by simp
qed simp

lemma run_within:
  assumes "driver_run env is (m, d) = Some (m', d')" "fed_run env adv is (m, d)" "within (de_params env) adv (dv_gates d)"
    "\<And>c. adv c \<le> seen c" "\<And>ps c. Pass ps \<in> set is \<Longrightarrow> ps_advanced ps c \<le> seen c"
  shows "within (de_params env) seen (dv_gates d')"
  using assms
proof (induction "is" arbitrary: m d adv)
  case Nil
  then show ?case using within_mono by auto
next
  case (Cons i "is")
  from Cons.prems(1) obtain m1 d1 where 1: "driver_step env i (m, d) = Some (m1, d1)"
    and 2: "driver_run env is (m1, d1) = Some (m', d')" by (auto split: option.splits)
  consider (pass) ps where "i = Pass ps" "m = Running" | (parked) "m \<noteq> Running" | (other) "m = Running" "\<forall>ps. i \<noteq> Pass ps" by blast
  then show ?case
  proof cases
    case (pass ps)
    with 1 obtain r where p: "pass env ps d = Some (r, d1)" by (auto split: option.splits pass_end.splits)
    have f: "\<And>c. adv c \<le> ps_advanced ps c" "fed env ps d" "fed_run env (ps_advanced ps) is (m1, d1)"
      using Cons.prems(2) pass 1 by auto
    have "within (de_params env) (ps_advanced ps) (dv_gates d1)"
      by (rule pass_within [OF p within_mono [OF Cons.prems(3) f(1)] f(2)])
    from Cons.IH [OF 2 f(3) this] Cons.prems(5) pass(1) show ?thesis by simp
  next
    case parked
    then have "dv_gates d' = dv_gates d" using Cons.prems(1) parked_run_gates by blast
    with within_mono [OF Cons.prems(3,4)] show ?thesis by simp
  next
    case other
    then have s: "m1 = Running" "d1 = d" using 1 by (cases i; auto)+
    have "fed_run env adv is (m1, d1)" using Cons.prems(2) other 1 s by (cases i) auto
    from Cons.IH [OF 2 this] s(2) Cons.prems(3-5) show ?thesis by simp
  qed
qed

section \<open>The rotation\<close>

text \<open>A pass with no message that is not paused; the lane it polls, if any; and why it passes one over.\<close>

definition undisturbed :: "('d, 's, 'q) pass_obs \<Rightarrow> ('d, 's, 'q) driver \<Rightarrow> bool" where
  "undisturbed ps d \<longleftrightarrow>
     pass_msgs ps d = [] \<and> ps_recv ps = None \<and> \<not> is_paused (dv_bp (ticked ps (d\<lparr>dv_parked := None\<rparr>)))"

definition polls :: "('d, 't, 's, 'q) driver_env \<Rightarrow> ('d, 's, 'q) pass_obs \<Rightarrow> ('d, 's, 'q) driver \<Rightarrow> (lane \<times> duration) option" where
  "polls env ps d =
     (case before_poll env ps d of Some (Inr (lane, timeout, d1)) \<Rightarrow> Some (lane, timeout) | _ \<Rightarrow> None)"

definition passed_over :: "('d, 't, 's, 'q) driver_env \<Rightarrow> ('d, 's, 'q) pass_obs \<Rightarrow> ('d, 's, 'q) driver \<Rightarrow> lane \<Rightarrow> bool" where
  "passed_over env ps d l \<longleftrightarrow>
     ps_finished ps (ln_id l) \<or>
     (\<exists>g. map_of (dv_gates d) (ln_partition l) = Some g \<and> at_ceiling (de_params env) (ps_advanced ps) g)"

lemma choose_lane_next:
  assumes "choose_lane env ps d = Some b"
  shows "case b of
      Inl (r, d') \<Rightarrow> dv_lanes d' = dv_lanes d \<and> dv_next_lane d' = dv_next_lane d mod length (dv_lanes d) + 1
    | Inr (lane, timeout, d') \<Rightarrow> dv_lanes d' = dv_lanes d \<and> dv_next_lane d' = dv_next_lane d mod length (dv_lanes d) + 1"
  using assms by (auto simp: choose_lane_def Let_def kept_def dest!: wait_idle_kept split: prod.splits if_splits)

lemma undisturbed_pass:
  assumes "undisturbed ps d" "pass env ps d = Some (Continues, d')" "dv_lanes d \<noteq> []"
  shows "dv_lanes d' = dv_lanes d" "dv_next_lane d' = dv_next_lane d mod length (dv_lanes d) + 1"
    "passed_over env ps d (dv_lanes d ! (dv_next_lane d mod length (dv_lanes d))) \<or>
      polls env ps d = Some (dv_lanes d ! (dv_next_lane d mod length (dv_lanes d)),
        if dv_empty_polls d \<ge> length (dv_lanes d) then dp_poll_timeout (de_params env) else 0)"
proof -
  let ?d = "ticked ps (d\<lparr>dv_parked := None\<rparr>)"
  have bp: "before_poll env ps d = choose_lane env ps ?d"
    using assms(1,3) by (simp add: before_poll_def undisturbed_def)
  then obtain b where b: "choose_lane env ps ?d = Some b"
    using assms(2) by (auto simp: pass_def split: option.splits)
  note n = choose_lane_next [OF b]
  have "dv_lanes d' = dv_lanes d \<and> dv_next_lane d' = dv_next_lane d mod length (dv_lanes d) + 1"
  proof (cases b)
    case (Inl q)
    with n assms(2) bp b show ?thesis by (cases q) (auto simp: pass_def)
  next
    case (Inr q)
    obtain l t d1 where q: "q = (l, t, d1)" by (cases q) auto
    have o: "on_polled env ps l d1 = Some (False, d')"
      using assms(2) bp b Inr q by (auto simp: pass_def split: option.splits bool.splits)
    from on_polled_kept [OF o] n Inr q show ?thesis by simp
  qed
  then show "dv_lanes d' = dv_lanes d" "dv_next_lane d' = dv_next_lane d mod length (dv_lanes d) + 1" by simp_all
  show "passed_over env ps d (dv_lanes d ! (dv_next_lane d mod length (dv_lanes d))) \<or>
      polls env ps d = Some (dv_lanes d ! (dv_next_lane d mod length (dv_lanes d)),
        if dv_empty_polls d \<ge> length (dv_lanes d) then dp_poll_timeout (de_params env) else 0)"
    using b unfolding polls_def bp
    by (auto simp: choose_lane_def Let_def check_gate_def passed_over_def split: option.splits if_splits)
qed

text \<open>What polls came back with: whether each brought a batch, and how many in a row now brought none.\<close>

fun step_polled :: "('d, 't, 's, 'q) driver_env \<Rightarrow> ('d, 's, 'q) driver_input \<Rightarrow> driver_mode \<times> ('d, 's, 'q) driver \<Rightarrow> bool list" where
  "step_polled env (Pass ps) (Running, d) =
     (if polls env ps d = None then [] else [case ps_poll ps of Inr (Some batch) \<Rightarrow> True | _ \<Rightarrow> False])"
| "step_polled env _ _ = []"

fun run_polled ::
  "('d, 't, 's, 'q) driver_env \<Rightarrow> ('d, 's, 'q) driver_input list \<Rightarrow> driver_mode \<times> ('d, 's, 'q) driver \<Rightarrow> bool list" where
  "run_polled env [] s = []"
| "run_polled env (i # is) s = step_polled env i s @ (case driver_step env i s of None \<Rightarrow> [] | Some s' \<Rightarrow> run_polled env is s')"

definition empty_streak :: "nat \<Rightarrow> bool list \<Rightarrow> nat" where
  "empty_streak n bs = fold (\<lambda>batch n. if batch then 0 else Suc n) bs n"

lemma empty_streak_simps [simp]:
  "empty_streak n [] = n" "empty_streak n (b # bs) = empty_streak (if b then 0 else Suc n) bs"
  "empty_streak n (bs @ cs) = empty_streak (empty_streak n bs) cs"
  by (simp_all add: empty_streak_def)

lemma on_control_empty_polls: "on_control env m ts d = Some (x, d') \<Longrightarrow> dv_empty_polls d' = dv_empty_polls d"
  by (cases m; auto simp: arrive_def retain_lanes_def prune_gates_def kept_def flush_now_def Let_def
      dest!: flush_until_kept flush_once_kept split: option.splits if_splits list.splits)

lemma drain_control_empty_polls: "drain_control env ms d = Some (x, d') \<Longrightarrow> dv_empty_polls d' = dv_empty_polls d"
  by (induction env ms d rule: drain_control.induct) (auto dest!: on_control_empty_polls split: option.splits)

lemma choose_lane_empty_polls:
  "choose_lane env ps d = Some (Inl (r, d')) \<Longrightarrow> dv_empty_polls d' = dv_empty_polls d"
  "choose_lane env ps d = Some (Inr (lane, timeout, d')) \<Longrightarrow> dv_empty_polls d' = dv_empty_polls d"
  by (auto simp: choose_lane_def Let_def kept_def dest!: wait_idle_kept split: prod.splits if_splits)

lemma before_poll_empty_polls:
  "before_poll env ps d = Some (Inl (r, d')) \<Longrightarrow> dv_empty_polls d' = dv_empty_polls d"
  "before_poll env ps d = Some (Inr (lane, timeout, d')) \<Longrightarrow> dv_empty_polls d' = dv_empty_polls d"
  by (erule before_poll_cases;
      auto simp: kept_def dest!: drain_control_empty_polls wait_idle_kept choose_lane_empty_polls)+

lemma on_polled_empty_polls:
  assumes "on_polled env ps lane d = Some (False, d')"
  shows "dv_empty_polls d' = (case ps_poll ps of Inr (Some batch) \<Rightarrow> 0 | _ \<Rightarrow> sat_add (dv_empty_polls d) 1)"
  using assms
  by (auto simp: on_polled_def on_batch_def Let_def kept_def send_event_def dest!: drive_batch_kept idle_flush_kept
      split: sum.splits option.splits if_splits)

lemma sat_add_streak: "sat_add (min usize_max k) (Suc 0) = min usize_max (Suc k)"
  by (simp add: sat_add_def min_def)

lemma pass_empty_polls:
  assumes p: "pass env ps d = Some (Continues, d')" and k: "dv_empty_polls d = min usize_max k"
  shows "dv_empty_polls d' = min usize_max (empty_streak k (step_polled env (Pass ps) (Running, d)))"
proof -
  from p obtain b where b: "before_poll env ps d = Some b" by (auto simp: pass_def split: option.splits)
  show ?thesis
  proof (cases b)
    case (Inl q)
    with p b k show ?thesis by (cases q) (auto simp: pass_def polls_def dest: before_poll_empty_polls(1))
  next
    case (Inr q)
    obtain l t d1 where q: "q = (l, t, d1)" by (cases q) auto
    have "on_polled env ps l d1 = Some (False, d')"
      using p b Inr q by (auto simp: pass_def split: option.splits bool.splits)
    from on_polled_empty_polls [OF this] before_poll_empty_polls(2) [of env ps d l t d1] b Inr q k show ?thesis
      by (simp add: polls_def sat_add_streak split: sum.split option.split)
  qed
qed

lemma driver_step_running:
  assumes "driver_step env i (m, d) = Some (Running, d')"
  shows "m = Running \<and> (\<exists>ps. i = Pass ps \<and> pass env ps d = Some (Continues, d') \<or> d' = d \<and> step_polled env i (m, d) = [])"
  using assms
  by (cases "(env, i, m, d)" rule: driver_step.cases) (auto split: option.splits prod.splits pass_end.splits)

lemma driver_run_running: "driver_run env is (m, d) = Some (Running, d') \<Longrightarrow> m = Running"
proof (induction "is" arbitrary: m d)
  case (Cons i "is")
  then obtain m1 d1 where "driver_step env i (m, d) = Some (m1, d1)" "m1 = Running" by (auto split: option.splits)
  then show ?case using driver_step_running by blast
qed simp

text \<open>The thread's counter is the number of polls in a row without a batch, saturating.\<close>

lemma run_empty_polls:
  "driver_run env is (Running, d) = Some (Running, d') \<Longrightarrow> dv_empty_polls d = min usize_max k \<Longrightarrow>
     dv_empty_polls d' = min usize_max (empty_streak k (run_polled env is (Running, d)))"
proof (induction "is" arbitrary: d k)
  case (Cons i "is")
  from Cons.prems(1) obtain m1 d1 where 1: "driver_step env i (Running, d) = Some (m1, d1)"
    and 2: "driver_run env is (m1, d1) = Some (Running, d')" by (auto split: option.splits)
  have m1: "m1 = Running" by (rule driver_run_running [OF 2])
  have "dv_empty_polls d1 = min usize_max (empty_streak k (step_polled env i (Running, d)))"
    using driver_step_running [OF 1 [unfolded m1]] Cons.prems(2) pass_empty_polls
    by (metis empty_streak_simps(1))
  from Cons.IH [OF 2 [unfolded m1] this] 1 m1 show ?case by simp
qed simp

lemma driver_run_snoc:
  "driver_run env (is @ [i]) s = (case driver_run env is s of None \<Rightarrow> None | Some s' \<Rightarrow> driver_step env i s')"
  by (induction "is" arbitrary: s) (auto split: option.splits)

lemma undisturbed_turn:
  assumes "dv_lanes (ds 0) \<noteq> []" "n = length (dv_lanes (ds 0))"
    and "\<And>k. k < n \<Longrightarrow> undisturbed (pss k) (ds k) \<and> pass env (pss k) (ds k) = Some (Continues, ds (Suc k))"
    and "l \<in> set (dv_lanes (ds 0))"
  shows "\<exists>k < n. passed_over env (pss k) (ds k) l \<or>
    polls env (pss k) (ds k) = Some (l, if dv_empty_polls (ds k) \<ge> n then dp_poll_timeout (de_params env) else 0)"
proof -
  have inv: "dv_lanes (ds k) = dv_lanes (ds 0) \<and> dv_next_lane (ds k) mod n = (dv_next_lane (ds 0) + k) mod n" if "k \<le> n" for k
    using that
  proof (induction k)
    case (Suc k)
    then have IH: "dv_lanes (ds k) = dv_lanes (ds 0)" "dv_next_lane (ds k) mod n = (dv_next_lane (ds 0) + k) mod n" by simp_all
    have p: "undisturbed (pss k) (ds k)" "pass env (pss k) (ds k) = Some (Continues, ds (Suc k))" using assms(3) Suc.prems by simp_all
    have "dv_lanes (ds (Suc k)) = dv_lanes (ds 0)" "dv_next_lane (ds (Suc k)) = dv_next_lane (ds k) mod n + 1"
      using undisturbed_pass(1,2) [OF p] IH(1) assms(1,2) by simp_all
    with IH(2) show ?case by (simp add: mod_Suc_eq)
  qed simp
  obtain i where i: "i < n" "dv_lanes (ds 0) ! i = l" using assms(2,4) by (auto simp: in_set_conv_nth)
  define k where "k = (i + (n - dv_next_lane (ds 0) mod n)) mod n"
  have k: "k < n" using i by (simp add: k_def)
  have "dv_next_lane (ds 0) mod n \<le> n" using i(1) by simp
  then have "dv_next_lane (ds 0) mod n + (i + (n - dv_next_lane (ds 0) mod n)) = i + n" by linarith
  moreover have "(dv_next_lane (ds 0) + k) mod n = (dv_next_lane (ds 0) mod n + (i + (n - dv_next_lane (ds 0) mod n))) mod n"
    unfolding k_def by (simp only: mod_add_left_eq mod_add_right_eq)
  ultimately have turn: "(dv_next_lane (ds 0) + k) mod n = i" using i(1) by simp
  have p: "undisturbed (pss k) (ds k)" "pass env (pss k) (ds k) = Some (Continues, ds (Suc k))" using assms(3) [OF k] by simp_all
  have "dv_lanes (ds k) = dv_lanes (ds 0)" "dv_next_lane (ds k) mod n = i" using inv [of k] k turn by simp_all
  with undisturbed_pass(3) [OF p] assms(1,2) i(2) k show ?thesis by auto
qed

text \<open>
  C17. Every lane gets its turn. In as many undisturbed passes in a row as a thread owns lanes, from any
  point of its run, each lane is polled, unless it is passed over at its turn because it is finished
  or its partition is at the pending ceiling. The poll waits for data exactly if the last polls, as
  many as there are lanes, all came back without a batch, so a lane without data does not hold up
  the others and a batch from any of them ends the waiting.
\<close>

theorem lanes_polled_in_turn:
  assumes "driver_run env is (Running, run_driver_start chain w bp now) = Some (Running, ds 0)"
    and "dv_lanes (ds 0) \<noteq> []" "n = length (dv_lanes (ds 0))"
    and "\<And>k. k < n \<Longrightarrow> undisturbed (pss k) (ds k) \<and> pass env (pss k) (ds k) = Some (Continues, ds (Suc k))"
    and "l \<in> set (dv_lanes (ds 0))"
  shows "\<exists>k < n. passed_over env (pss k) (ds k) l \<or>
    polls env (pss k) (ds k) = Some (l,
      if n \<le> min usize_max (empty_streak 0
               (run_polled env (is @ map (\<lambda>j. Pass (pss j)) [0..<k]) (Running, run_driver_start chain w bp now)))
      then dp_poll_timeout (de_params env) else 0)"
proof -
  let ?s = "(Running, run_driver_start chain w bp now)"
  have run: "driver_run env (is @ map (\<lambda>j. Pass (pss j)) [0..<k]) ?s = Some (Running, ds k)" if "k \<le> n" for k
    using that
  proof (induction k)
    case (Suc k)
    with assms(4) [of k] show ?case by (simp add: driver_run_snoc flip: append_assoc)
  qed (use assms(1) in simp)
  obtain k where k: "k < n" "passed_over env (pss k) (ds k) l \<or>
      polls env (pss k) (ds k) = Some (l, if dv_empty_polls (ds k) \<ge> n then dp_poll_timeout (de_params env) else 0)"
    using undisturbed_turn [OF assms(2-5)] by blast
  have "dv_empty_polls (ds k) = min usize_max (empty_streak 0 (run_polled env (is @ map (\<lambda>j. Pass (pss j)) [0..<k]) ?s))"
    by (rule run_empty_polls [OF run]) (use k(1) in \<open>simp_all add: run_driver_start_def\<close>)
  with k show ?thesis by (intro exI [of _ k]) simp
qed

text \<open>
  C16. The pending ceiling holds. While the counters of the checkpointer do not go back and the batches of
  a partition come from one issuer in sequence, a driver never has more batches of a partition
  issued than \<open>max_pending_batches\<close> beyond those the checkpointer has advanced past.
\<close>

theorem pending_ceiling_holds:
  assumes "driver_run env is (Running, run_driver_start chain w bp now) = Some (m, d)"
    and "fed_run env (\<lambda>c. 0) is (Running, run_driver_start chain w bp now)"
    and "\<And>ps c. Pass ps \<in> set is \<Longrightarrow> ps_advanced ps c \<le> seen c"
    and "map_of (dv_gates d) part = Some g"
  shows "gs_issued g - seen (gs_advanced g) \<le> dp_max_pending_batches (de_params env)"
proof -
  have "within (de_params env) (\<lambda>c. 0) (dv_gates (run_driver_start chain w bp now))"
    by (simp add: within_def run_driver_start_def)
  from run_within [OF assms(1,2) this _ assms(3)] assms(4) show ?thesis
    by (auto simp: within_def le_diff_conv add.commute)
qed

text \<open>
  C14. A polled batch is settled. However often the push is blocked, and whatever the others do in between,
  driving a batch ends with every payload of it processed once, or with its acknowledgment failed,
  so that it is replayed: after a fatal error, a panic of the chain, or a shutdown, and then the
  chain keeps nothing of it. It does not outlast a shutdown: it returns at the latest with the
  round that sees the flag.
\<close>

theorem drive_batch_settles:
  assumes "\<not> tc_mid_batch (dv_chain d)"
  shows "((\<exists>t \<in> set ts. rt_shutdown t) \<longrightarrow> drive_batch env owned ts batch d \<noteq> None) \<and>
    (\<forall>res batch' d'. drive_batch env owned ts batch d = Some (res, batch', d') \<longrightarrow>
       (res = None \<and> pb_rest batch' = [] \<and> tc_cursor (dv_chain d') = length (pb_rest batch) \<or>
        (\<exists>h. w_heap (dv_world d') = ackref_drop (pb_ack batch) (ackref_fail (pb_ack batch) h))) \<and>
       (res = None \<longrightarrow> tc_pending (dv_chain d') = None \<and> \<not> tc_mid_batch (dv_chain d')))"
proof -
  let ?d = "d\<lparr>dv_world := clone_ack (pb_ack batch) (dv_world d)\<rparr>"
  have c: "tc_cursor (begin_push (dv_chain ?d)) = 0" "unprocessed (begin_push (dv_chain ?d)) (pb_rest batch) = pb_rest batch"
    using assms by (simp_all add: begin_push_def unprocessed_def)
  note drive_batch_returns [of ts env owned batch d]
  moreover have "(res = None \<and> pb_rest batch' = [] \<and> tc_cursor (dv_chain d') = length (pb_rest batch) \<or>
        (\<exists>h. w_heap (dv_world d') = ackref_drop (pb_ack batch) (ackref_fail (pb_ack batch) h))) \<and>
       (res = None \<longrightarrow> tc_pending (dv_chain d') = None \<and> \<not> tc_mid_batch (dv_chain d'))"
    if "drive_batch env owned ts batch d = Some (res, batch', d')" for res batch' d'
  proof -
    from that obtain d1 where l: "drive_loop env owned ts 0 batch ?d = Some (res, batch', d1)"
      and d': "d' = d1\<lparr>dv_world := (dv_world d1)\<lparr>w_heap := ackref_drop (pb_ack batch) (w_heap (dv_world d1))\<rparr>\<rparr>"
      by (auto simp: drive_batch_def split: option.splits)
    from drive_loop_settles [OF l] d' c show ?thesis by auto
  qed
  ultimately show ?thesis by blast
qed

section \<open>Examples\<close>

text \<open>The chain of the other examples, and a pass in which nobody else acts.\<close>

definition demo_driver_env ::
  "(unit, bytes, (unit, (unit, (unit, (unit, (unit, (unit, unit) sink_handoff) try_map_op) flat_map_op) inspect_op) filter_op) map_op,
     (nat, unit) shard_queues) driver_env" where
  "demo_driver_env =
     \<lparr>de_deserialize = demo_deser, de_ops = demo_stack, de_drop = (\<lambda>c w. handoff_drop (stack_terminal (tc_ops c)) w),
      de_params = \<lparr>dp_thread = 0, dp_poll_timeout = 9, dp_idle_flush = 100, dp_max_pending_batches = 1\<rparr>\<rparr>"

definition demo_driver where
  "demo_driver = run_driver_start demo_chain demo_world
     (with_clock \<lparr>high_bytes = 10, low_bytes = 5, min_pause = 3\<rparr>) 0"

definition demo_pass where
  "demo_pass msgs polled rounds =
     \<lparr>ps_parked = [], ps_msgs = msgs, ps_env = (\<lambda>w. w), ps_tick_at = 1, ps_low = True, ps_recv = None,
      ps_idle = \<lparr>fl_env = (\<lambda>w. w), fl_rejected_at = 1, fl_stop_now = 1\<rparr>, ps_idle_at = 1, ps_finished = (\<lambda>l. False),
      ps_advanced = (\<lambda>c. 0), ps_poll = polled, ps_poll_env = (\<lambda>w. w), ps_drive = rounds, ps_data_at = 1\<rparr>"

definition demo_round where
  "demo_round stop =
     \<lparr>rt_env = (\<lambda>w. w), rt_torn = Pair, rt_panic = ''boom'', rt_shutdown = stop, rt_rejected_at = 1, rt_tick_at = 1, rt_low = True\<rparr>"

definition demo_lane :: "nat \<Rightarrow> lane" where
  "demo_lane n = \<lparr>ln_id = n, ln_partition = PartitionId 0\<rparr>"

lemmas demo_driver_defs = demo_driver_env_def demo_driver_def run_driver_start_def demo_pass_def demo_lane_def ticked_def bp_tick_def tick_def
  with_clock_def is_paused_def demo_world_def usage_def pass_msgs_def

theorem drive_batch_settles_witness:
  "\<exists>res batch' d'. drive_batch demo_driver_env [0] [demo_round True] demo_batch demo_driver = Some (res, batch', d') \<and>
     (pb_rest batch' = [] \<or> (\<exists>h. w_heap (dv_world d') = ackref_drop 0 (ackref_fail 0 h)))"
proof -
  have "\<not> tc_mid_batch (dv_chain demo_driver)"
    by (simp add: demo_driver_def run_driver_start_def demo_chain_def typed_chain_new_def)
  from drive_batch_settles [OF this, of "[demo_round True]" demo_driver_env "[0]" demo_batch]
  show ?thesis by (auto simp: demo_round_def demo_batch_def)
qed

theorem driver_answers_messages_witness:
  "\<exists>d. driver_run demo_driver_env
        [Pass (demo_pass [(AddLane (demo_lane 3) None, [])] (Inl (SourceClient Fatal ''gone'')) []),
         Message (StopLanes [3] 7 20), Message (Shutdown 8 20)] (Running, demo_driver) = Some (Exited DriverFailed, d) \<and>
     dv_arrived d = [7, 8]"
proof -
  let ?is = "[Pass (demo_pass [(AddLane (demo_lane 3) None, [])] (Inl (SourceClient Fatal ''gone'')) []),
    Message (StopLanes [3] 7 20), Message (Shutdown 8 20)]"
  have "\<exists>d. driver_run demo_driver_env ?is (Running, demo_driver) = Some (Exited DriverFailed, d)"
    by (simp add: demo_driver_defs pass_def before_poll_def choose_lane_def check_gate_def on_polled_def)
  then obtain d where d: "driver_run demo_driver_env ?is (Running, demo_driver) = Some (Exited DriverFailed, d)" ..
  have h: "heard_run demo_driver_env ?is (Running, demo_driver)
      = [(False, AddLane (demo_lane 3) None), (True, StopLanes [3] 7 20), (True, Shutdown 8 20)]"
    by (simp add: demo_driver_defs pass_def before_poll_def choose_lane_def check_gate_def on_polled_def)
  have "dv_arrived d = [7, 8]"
    using driver_answers_messages [OF d [unfolded demo_driver_def], folded demo_driver_def, unfolded h] by (simp add: demo_lane_def)
  with d show ?thesis by blast
qed

theorem pending_ceiling_holds_witness:
  "\<exists>m d g. driver_run demo_driver_env
        [Pass (demo_pass [(AddLane (demo_lane 3) (Some \<lparr>pg_epoch = 1, pg_advanced = 0\<rparr>), [])]
           (Inr (Some demo_batch)) [demo_round True])] (Running, demo_driver) = Some (m, d) \<and>
     map_of (dv_gates d) (PartitionId 0) = Some g \<and> gs_issued g = 1 \<and> gs_issued g - 0 \<le> dp_max_pending_batches (de_params demo_driver_env)"
proof -
  let ?ps = "demo_pass [(AddLane (demo_lane 3) (Some \<lparr>pg_epoch = 1, pg_advanced = 0\<rparr>), [])] (Inr (Some demo_batch)) [demo_round True]"
  let ?g = "\<lparr>gs_epoch = 1, gs_advanced = 0, gs_issued = 0, gs_gated = False\<rparr>"
  let ?d = "demo_driver\<lparr>dv_lanes := [demo_lane 3], dv_next_lane := 1, dv_gates := [(PartitionId 0, ?g)]\<rparr>"
  have b: "before_poll demo_driver_env ?ps demo_driver = Some (Inr (demo_lane 3, 0, ?d))"
    by (simp add: demo_driver_defs before_poll_def choose_lane_def check_gate_def add_gate_def at_ceiling_def Let_def)
  have i: "ackref_batch_id (w_heap (dv_world ?d)) (pb_ack demo_batch) = \<lparr>bid_partition = PartitionId 0, bid_epoch = 1, bid_seq = 0\<rparr>"
    by (simp add: demo_driver_def run_driver_start_def demo_batch_def demo_world_def demo_heap_def ackref_batch_id_def ackref_clone_def
        ackref_new_def heap_empty_def upd_cell_def)
  have "on_batch demo_driver_env ?ps (demo_lane 3) demo_batch ?d \<noteq> None"
    by (rule on_batch_returns) (simp add: demo_pass_def demo_round_def)
  then obtain fatal d2 where o: "on_batch demo_driver_env ?ps (demo_lane 3) demo_batch ?d = Some (fatal, d2)" by auto
  then obtain m d where r: "driver_run demo_driver_env [Pass ?ps] (Running, demo_driver) = Some (m, d)" and d: "dv_gates d = dv_gates d2"
    using b by (cases fatal) (simp_all add: pass_def on_polled_def demo_pass_def)
  have g: "map_of (dv_gates d) (PartitionId 0) = Some (?g\<lparr>gs_issued := 1\<rparr>)"
    using on_batch_gates [OF o] d unfolding i by (simp add: note_issued_def demo_lane_def)
  have f: "fed_run demo_driver_env (\<lambda>c. 0) [Pass ?ps] (Running, demo_driver)"
    using b i by (simp add: fed_def demo_pass_def demo_lane_def split: option.split)
  have a: "ps_advanced ps c \<le> 0" if "Pass ps \<in> set [Pass ?ps]" for ps c
    using that by (simp add: demo_pass_def)
  have "gs_issued (?g\<lparr>gs_issued := 1\<rparr>) - 0 \<le> dp_max_pending_batches (de_params demo_driver_env)"
    using pending_ceiling_holds [OF r [unfolded demo_driver_def] f [unfolded demo_driver_def] a g] by simp
  then show ?thesis by (intro exI conjI) (rule r, rule g, simp_all)
qed

text \<open>Two lanes added in a first pass that polls the one, and two passes on which neither has data.\<close>

definition demo_turn where
  "demo_turn k = demo_driver\<lparr>dv_lanes := [demo_lane 3, demo_lane 4], dv_next_lane := if k = 1 then Suc (Suc 0) else 1, dv_empty_polls := Suc k\<rparr>"

theorem lanes_polled_in_turn_witness:
  "\<exists>k < 2. \<exists>timeout. polls demo_driver_env (demo_pass [] (Inl (SourceClient Retryable ''later'')) []) (demo_turn k) = Some (demo_lane 4, timeout)"
proof -
  let ?ps = "demo_pass [] (Inl (SourceClient Retryable ''later'')) []"
    and ?add = "demo_pass [(AddLane (demo_lane 3) None, []), (AddLane (demo_lane 4) None, [])] (Inl (SourceClient Retryable ''later'')) []"
  have run: "driver_run demo_driver_env [Pass ?add] (Running, demo_driver) = Some (Running, demo_turn 0)"
    by (simp add: demo_turn_def demo_driver_defs pass_def before_poll_def choose_lane_def check_gate_def on_polled_def
        sat_add_def usize_max_def)
  have pass: "undisturbed ?ps (demo_turn k) \<and> pass demo_driver_env ?ps (demo_turn k) = Some (Continues, demo_turn (Suc k))" if "k < 2" for k
    using less_2_cases [OF that]
    by (elim disjE) (simp_all add: demo_turn_def undisturbed_def demo_driver_defs pass_def before_poll_def choose_lane_def check_gate_def
        on_polled_def sat_add_def usize_max_def)
  have lanes: "dv_lanes (demo_turn 0) = [demo_lane 3, demo_lane 4]" by (simp add: demo_turn_def)
  have "\<not> passed_over demo_driver_env ?ps (demo_turn k) l" for k l
    by (simp add: passed_over_def demo_turn_def demo_driver_def run_driver_start_def demo_pass_def)
  with lanes_polled_in_turn [where ds = demo_turn and pss = "\<lambda>k. ?ps" and n = 2 and l = "demo_lane 4",
      OF run [unfolded demo_driver_def]] lanes pass show ?thesis by auto
qed

end
