(* ===== verification/Chain_Flow.thy ===== *)
theory Chain_Flow
  imports Chain
begin

text \<open>
  What a chain delivers: which records reach the terminal stage, told from the deserializer, the
  closures and the payloads alone.

  A stage \<open>gives\<close> some outputs for a record. Each combinator's \<open>gives\<close> is its documented meaning
  (map the payload, keep or not, emit several), with the closure's state passed along and no
  stage, meter or queue in it. The locale \<open>tracked_stage\<close> adds to the contract of a stage that a
  push which latched nothing hands on exactly what \<open>gives\<close> says, in that order; each combinator
  keeps it. For a whole push of a batch this gives the list of records the terminal stage was
  pushed, and the hand-off's rows for them.
\<close>

section \<open>What the closures make of a record\<close>

text \<open>The outputs of a closure that emits, whatever flow it is told.\<close>

inductive outs :: "('o, 'r) emits \<Rightarrow> 'o list \<Rightarrow> 'r \<Rightarrow> bool" where
  outs_return: "outs (Return x) [] x"
| outs_emit: "outs (k fl) ys x \<Longrightarrow> outs (Emit p k) (p # ys) x"

inductive_simps outs_Return [simp]: "outs (Return x) ys y"
inductive_simps outs_Emit: "outs (Emit p k) ys y"

type_synonym ('t, 'c, 'o) gives = "'t rec \<Rightarrow> 'c \<Rightarrow> 'o list \<Rightarrow> 'c \<Rightarrow> bool"

text \<open>A list of records one after the other, the state of the closures going through.\<close>

primrec gives_all :: "('t, 'c, 'o) gives \<Rightarrow> 't rec list \<Rightarrow> 'c \<Rightarrow> 'o list \<Rightarrow> 'c \<Rightarrow> bool" where
  "gives_all G [] c os c' \<longleftrightarrow> os = [] \<and> c' = c"
| "gives_all G (r # rs) c os c' \<longleftrightarrow> (\<exists>os1 c1 os2. G r c os1 c1 \<and> gives_all G rs c1 os2 c' \<and> os = os1 @ os2)"

definition map_gives :: "('a \<Rightarrow> 'g \<Rightarrow> 'b \<times> 'g) \<Rightarrow> ('b, 'c, 'o) gives \<Rightarrow> ('a, 'g \<times> 'c, 'o) gives" where
  "map_gives f G r c os c' \<longleftrightarrow>
     (case f (payload r) (fst c) of (y, g) \<Rightarrow> fst c' = g \<and> G (record_map (\<lambda>_. y) r) (snd c) os (snd c'))"

definition filter_gives :: "('a \<Rightarrow> 'g \<Rightarrow> bool \<times> 'g) \<Rightarrow> ('a, 'c, 'o) gives \<Rightarrow> ('a, 'g \<times> 'c, 'o) gives" where
  "filter_gives p G r c os c' \<longleftrightarrow>
     (case p (payload r) (fst c) of (keep, g) \<Rightarrow> fst c' = g \<and>
        (if keep then G r (snd c) os (snd c') else os = [] \<and> snd c' = snd c))"

definition inspect_gives :: "('a \<Rightarrow> 'g \<Rightarrow> 'g) \<Rightarrow> ('a, 'c, 'o) gives \<Rightarrow> ('a, 'g \<times> 'c, 'o) gives" where
  "inspect_gives f G r c os c' \<longleftrightarrow> fst c' = f (payload r) (fst c) \<and> G r (snd c) os (snd c')"

text \<open>A closure's error leaves nothing only where the policy is to skip.\<close>

definition try_map_gives ::
  "('a \<Rightarrow> 'g \<Rightarrow> (string + 'b) \<times> 'g) \<Rightarrow> ('b, 'c, 'o) gives \<Rightarrow> ('a, (error_policy \<times> 'g) \<times> 'c, 'o) gives" where
  "try_map_gives f G r c os c' \<longleftrightarrow>
     (case f (payload r) (snd (fst c)) of (res, g) \<Rightarrow> fst c' = (fst (fst c), g) \<and>
        (case res of
           Inr y \<Rightarrow> G (record_map (\<lambda>_. y) r) (snd c) os (snd c')
         | Inl e \<Rightarrow> fst (fst c) = Skip \<and> os = [] \<and> snd c' = snd c))"

definition flat_map_gives :: "('a \<Rightarrow> 'g \<Rightarrow> ('b, 'g) emits) \<Rightarrow> ('b, 'c, 'o) gives \<Rightarrow> ('a, 'g \<times> 'c, 'o) gives" where
  "flat_map_gives f G r c os c' \<longleftrightarrow>
     (\<exists>ys. outs (f (payload r) (fst c)) ys (fst c') \<and>
        gives_all G (map (\<lambda>y. record_map (\<lambda>_. y) r) ys) (snd c) os (snd c'))"

text \<open>The terminal stage is given the record itself.\<close>

definition sink_gives :: "('t, unit, 't rec) gives" where
  "sink_gives r c os c' \<longleftrightarrow> os = [r]"

section \<open>What the deserializer makes of the payloads\<close>

text \<open>The results after which a payload is done with: an error is skipped only where the policy is to skip.\<close>

definition passes :: "error_policy \<Rightarrow> deser_error option \<Rightarrow> bool" where
  "passes policy res \<longleftrightarrow>
     (case res of None \<Rightarrow> True | Some (NotReady _) \<Rightarrow> False | Some (DeserFatal _) \<Rightarrow> False | Some _ \<Rightarrow> policy = Skip)"

definition with_ack :: "ack_ref \<Rightarrow> 't \<times> record_meta \<Rightarrow> 't rec" where
  "with_ack a y = \<lparr>payload = fst y, meta = snd y, rec_ack = a\<rparr>"

primrec payloads_give ::
  "('d, 't) deserializer \<Rightarrow> error_policy \<Rightarrow> ack_ref \<Rightarrow> raw_payload list \<Rightarrow> 'd \<Rightarrow> 't rec list \<Rightarrow> 'd \<Rightarrow> bool" where
  "payloads_give D policy a [] d rs d' \<longleftrightarrow> rs = [] \<and> d' = d"
| "payloads_give D policy a (raw # raws) d rs d' \<longleftrightarrow>
     (\<exists>ys res d1 rs'. outs (D d raw) ys (res, d1) \<and> passes policy res \<and>
        payloads_give D policy a raws d1 rs' d' \<and> rs = map (with_ack a) ys @ rs')"

lemma gives_all_append:
  "gives_all G rs c os1 c1 \<Longrightarrow> gives_all G rs' c1 os2 c' \<Longrightarrow> gives_all G (rs @ rs') c (os1 @ os2) c'"
  by (induction rs arbitrary: c os1) (auto 4 3)

lemma payloads_give_append:
  "payloads_give D policy a raws d rs d1 \<Longrightarrow> payloads_give D policy a raws' d1 rs' d' \<Longrightarrow>
     payloads_give D policy a (raws @ raws') d (rs @ rs') d'"
  by (induction raws arbitrary: d rs) (auto 4 4)

section \<open>What a stage was pushed\<close>

text \<open>
  The stage's own steps between two states: the records pushed to it, in order, with its other
  operations, and steps of others that leave its queues alone, in between. No error was taken
  out of it.
\<close>

inductive pushed_to :: "('t, 's, 'q) stage_ops \<Rightarrow> 't rec list \<Rightarrow> 's \<Rightarrow> 'q world \<Rightarrow> 's \<Rightarrow> 'q world \<Rightarrow> bool" for ops where
  pushed_nil: "pushed_to ops [] s w s w"
| pushed_other: "w_queues w1 = w_queues w \<Longrightarrow> pushed_to ops rs s w1 s' w' \<Longrightarrow> pushed_to ops rs s w s' w'"
| pushed_push: "st_push ops r s w = Some (fl, s1, w1) \<Longrightarrow> pushed_to ops rs s1 w1 s' w' \<Longrightarrow> pushed_to ops (r # rs) s w s' w'"
| pushed_relieve: "st_relieve ops s w = Some (fl, s1, w1) \<Longrightarrow> pushed_to ops rs s1 w1 s' w' \<Longrightarrow> pushed_to ops rs s w s' w'"
| pushed_fatal: "st_take_fatal ops s = (None, s1) \<Longrightarrow> pushed_to ops rs s1 w s' w' \<Longrightarrow> pushed_to ops rs s w s' w'"
| pushed_end: "pushed_to ops rs (st_on_batch_end ops s) w s' w' \<Longrightarrow> pushed_to ops rs s w s' w'"

lemma pushed_trans: "pushed_to ops rs s w s1 w1 \<Longrightarrow> pushed_to ops rs' s1 w1 s' w' \<Longrightarrow> pushed_to ops (rs @ rs') s w s' w'"
  by (induction rule: pushed_to.induct) (auto intro: pushed_to.intros)

lemma pushed_same: "w_queues w' = w_queues w \<Longrightarrow> pushed_to ops [] s w s w'"
  by (rule pushed_other [OF _ pushed_nil])

section \<open>The contract of a stage that is tracked\<close>

text \<open>A stage is \<open>honest\<close> when it passes records over only while one of its errors is latched.\<close>

locale tracked_stage = stage ops own sent sinv latched books
  for ops :: "('t, 's, 'q) stage_ops" and own sent sinv latched books +
  fixes cl :: "'s \<Rightarrow> 'c"
    and honest :: "'s \<Rightarrow> bool"
    and gives :: "('t, 'c, 'o) gives"
    and reach :: "'o list \<Rightarrow> 's \<Rightarrow> 'q world \<Rightarrow> 's \<Rightarrow> 'q world \<Rightarrow> bool"
  assumes reach_same: "w_queues w' = w_queues w \<Longrightarrow> reach [] s w s w'"
    and reach_trans: "reach os1 s w s1 w1 \<Longrightarrow> reach os2 s1 w1 s2 w2 \<Longrightarrow> reach (os1 @ os2) s w s2 w2"
    and push_gives: "st_push ops r s w = Some (fl, s', w') \<Longrightarrow> honest s \<Longrightarrow> \<not> latched s' \<Longrightarrow>
          \<exists>os. gives r (cl s) os (cl s') \<and> reach os s w s' w'"
    and push_honest: "st_push ops r s w = Some (fl, s', w') \<Longrightarrow> honest s \<Longrightarrow> honest s'"
    and relieve_reach: "st_relieve ops s w = Some (fl, s', w') \<Longrightarrow>
          cl s' = cl s \<and> reach [] s w s' w' \<and> (honest s \<longrightarrow> honest s')"
    and fatal_reach: "st_take_fatal ops s = (None, s') \<Longrightarrow>
          cl s' = cl s \<and> reach [] s w s' w \<and> (honest s \<longrightarrow> honest s')"
    and end_reach: "cl (st_on_batch_end ops s) = cl s \<and> reach [] s w (st_on_batch_end ops s) w \<and>
          (honest s \<longrightarrow> honest (st_on_batch_end ops s))"
begin

lemma emit_run_gives:
  assumes "emit_run mk (st_push ops) a em n fl s w = Some (x, n', fl', s', w')" and "\<not> latched s'" and "honest s"
  shows "\<exists>ys os. outs em ys x \<and> gives_all gives (map (\<lambda>p. with_ack a (mk p)) ys) (cl s) os (cl s') \<and> reach os s w s' w'"
  using assms
proof (induction em arbitrary: n fl s w)
  case (Return x)
  then show ?case by (auto intro!: exI [of _ "[]"] reach_same)
next
  case (Emit p k)
  let ?r = "\<lparr>payload = fst (mk p), meta = snd (mk p), rec_ack = a\<rparr>"
  from Emit.prems(1) obtain fl1 s1 w1
    where p: "st_push ops ?r s (clone_ack a w) = Some (fl1, s1, w1)"
      and r: "emit_run mk (st_push ops) a (k fl1) (n + 1) (latch_flow fl fl1) s1 w1 = Some (x, n', fl', s', w')"
    by (auto split: option.splits)
  from Emit.IH [OF _ r Emit.prems(2) push_honest [OF p Emit.prems(3)]] obtain ys os2 where ys: "outs (k fl1) ys x"
      "gives_all gives (map (\<lambda>p. with_ack a (mk p)) ys) (cl s1) os2 (cl s')" "reach os2 s1 w1 s' w'" by auto
  have "\<not> latched s1"
    using emit_run_keeps [OF r, of "{#a#}"] Emit.prems(2) by (auto simp: accounts_def)
  from push_gives [OF p Emit.prems(3) this] obtain os1 where os1: "gives ?r (cl s) os1 (cl s1)" "reach os1 s (clone_ack a w) s1 w1" by blast
  have "reach ([] @ os1) s w s1 w1" by (rule reach_trans [OF reach_same os1(2)]) (simp add: clone_ack_def)
  from reach_trans [OF this ys(3)] have "reach (os1 @ os2) s w s' w'" by simp
  with ys(1,2) os1(1) show ?case
    by (intro exI [of _ "p # ys"] exI [of _ "os1 @ os2"]) (auto simp: with_ack_def intro: outs_emit)
qed

lemma emit_run_honest:
  "emit_run mk (st_push ops) a em n fl s w = Some (x, n', fl', s', w') \<Longrightarrow> honest s \<Longrightarrow> honest s'"
proof (induction em arbitrary: n fl s w)
  case (Emit p k)
  from Emit.prems(1) obtain fl1 s1 w1
    where p: "st_push ops \<lparr>payload = fst (mk p), meta = snd (mk p), rec_ack = a\<rparr> s (clone_ack a w) = Some (fl1, s1, w1)"
      and r: "emit_run mk (st_push ops) a (k fl1) (n + 1) (latch_flow fl fl1) s1 w1 = Some (x, n', fl', s', w')"
    by (auto split: option.splits)
  from Emit.IH [OF _ r push_honest [OF p Emit.prems(2)]] show ?case by simp
qed simp

text \<open>A combinator of a tracked stage, whose state has the next stage's in \<open>get s\<close>.\<close>

lemma wrap_tracked:
  fixes ops' :: "('u, 'v, 'q) stage_ops"
  assumes st: "stage ops' own' sent' sinv' latched' books'"
    and push': "\<And>r s w fl s' w'. st_push ops' r s w = Some (fl, s', w') \<Longrightarrow> honest (get s) \<Longrightarrow> \<not> latched' s' \<Longrightarrow>
      \<exists>os. gives' r (cl' s) os (cl' s') \<and> reach os (get s) w (get s') w'"
    and honest': "\<And>r s w fl s' w'. st_push ops' r s w = Some (fl, s', w') \<Longrightarrow> honest (get s) \<Longrightarrow> honest (get s')"
    and relieve': "\<And>s w fl s' w'. st_relieve ops' s w = Some (fl, s', w') \<Longrightarrow>
      st_relieve ops (get s) w = Some (fl, get s', w') \<and> (cl (get s') = cl (get s) \<longrightarrow> cl' s' = cl' s)"
    and fatal': "\<And>s s'. st_take_fatal ops' s = (None, s') \<Longrightarrow>
      st_take_fatal ops (get s) = (None, get s') \<and> (cl (get s') = cl (get s) \<longrightarrow> cl' s' = cl' s)"
    and end': "\<And>s. get (st_on_batch_end ops' s) = st_on_batch_end ops (get s) \<and>
      (cl (get (st_on_batch_end ops' s)) = cl (get s) \<longrightarrow> cl' (st_on_batch_end ops' s) = cl' s)"
  shows "tracked_stage ops' own' sent' sinv' latched' books' cl' (\<lambda>s. honest (get s)) gives'
    (\<lambda>os s w s' w'. reach os (get s) w (get s') w')"
proof (intro tracked_stage.intro [OF st] tracked_stage_axioms.intro, goal_cases)
  case (5 s w fl s' w')
  from relieve' [OF 5] relieve_reach [of "get s" w fl "get s'" w'] show ?case by blast
next
  case (6 s s' w)
  from fatal' [OF 6] fatal_reach [of "get s" "get s'" w] show ?case by blast
next
  case (7 s w)
  from end' [of s] end_reach [of "get s" w] show ?case by simp
qed (use push' honest' reach_same reach_trans in auto)

lemma map_is_tracked:
  "tracked_stage (map_stage f ops) (\<lambda>s. own (mp_next s)) sent (\<lambda>hp s. sinv hp (mp_next s)) (\<lambda>s. False \<or> latched (mp_next s))
     (\<lambda>s. balanced (mp_meter s) \<and> books (mp_next s)) (\<lambda>s. (mp_f s, cl (mp_next s))) (\<lambda>s. honest (mp_next s)) (map_gives f gives)
     (\<lambda>os s w s' w'. reach os (mp_next s) w (mp_next s') w')"
proof (rule wrap_tracked [OF map_is_stage], goal_cases)
  case (1 r s w fl s' w')
  obtain y g where f: "f (payload r) (mp_f s) = (y, g)" by fastforce
  with 1(1) have "st_push ops (record_map (\<lambda>_. y) r) (mp_next s) w = Some (fl, mp_next s', w')" "mp_f s' = g"
    by (auto simp: map_stage_def map_push_def into_Some)
  with push_gives [OF this(1)] 1(2,3) f show ?case by (simp add: map_gives_def)
next
  case (2 r s w fl s' w')
  then obtain g where "st_push ops (record_map g r) (mp_next s) w = Some (fl, mp_next s', w')"
    by (auto simp: map_stage_def map_push_def into_Some split: prod.splits)
  from push_honest [OF this 2(2)] show ?case .
qed (auto simp: map_stage_def into_Some split: prod.splits)

lemma filter_is_tracked:
  "tracked_stage (filter_stage p ops) (\<lambda>s. own (fi_next s)) sent (\<lambda>hp s. sinv hp (fi_next s)) (\<lambda>s. False \<or> latched (fi_next s))
     (\<lambda>s. balanced (fi_meter s) \<and> books (fi_next s)) (\<lambda>s. (fi_p s, cl (fi_next s))) (\<lambda>s. honest (fi_next s)) (filter_gives p gives)
     (\<lambda>os s w s' w'. reach os (fi_next s) w (fi_next s') w')"
proof (rule wrap_tracked [OF filter_is_stage], goal_cases)
  case (1 r s w fl s' w')
  obtain keep g where f: "p (payload r) (fi_p s) = (keep, g)" by fastforce
  show ?case
  proof (cases keep)
    case True
    with f 1(1) have "st_push ops r (fi_next s) w = Some (fl, fi_next s', w')" "fi_p s' = g"
      by (auto simp: filter_stage_def filter_push_def into_Some)
    with push_gives [OF this(1)] 1(2,3) f True show ?thesis by (simp add: filter_gives_def)
  next
    case False
    with f 1(1) show ?thesis
      by (auto simp: filter_stage_def filter_push_def filter_gives_def drop_rec_def intro!: reach_same)
  qed
next
  case (2 r s w fl s' w')
  then consider "st_push ops r (fi_next s) w = Some (fl, fi_next s', w')" | "fi_next s' = fi_next s"
    by (auto simp: filter_stage_def filter_push_def into_Some Let_def split: prod.splits if_splits)
  then show ?case using push_honest 2(2) by cases auto
qed (auto simp: filter_stage_def into_Some split: prod.splits)

lemma inspect_is_tracked:
  "tracked_stage (inspect_stage f ops) (\<lambda>s. own (in_next s)) sent (\<lambda>hp s. sinv hp (in_next s)) (\<lambda>s. False \<or> latched (in_next s))
     (\<lambda>s. True \<and> books (in_next s)) (\<lambda>s. (in_f s, cl (in_next s))) (\<lambda>s. honest (in_next s)) (inspect_gives f gives)
     (\<lambda>os s w s' w'. reach os (in_next s) w (in_next s') w')"
proof (rule wrap_tracked [OF inspect_is_stage], goal_cases)
  case (1 r s w fl s' w')
  then have "st_push ops r (in_next s) w = Some (fl, in_next s', w')" "in_f s' = f (payload r) (in_f s)"
    by (auto simp: inspect_stage_def inspect_push_def into_Some)
  with push_gives [OF this(1)] 1(2,3) show ?case by (simp add: inspect_gives_def)
next
  case (2 r s w fl s' w')
  then have "st_push ops r (in_next s) w = Some (fl, in_next s', w')"
    by (auto simp: inspect_stage_def inspect_push_def into_Some)
  from push_honest [OF this 2(2)] show ?case .
qed (auto simp: inspect_stage_def into_Some split: prod.splits)

lemma try_map_is_tracked:
  "tracked_stage (try_map_stage f ops) (\<lambda>s. own (tm_next s)) sent (\<lambda>hp s. sinv hp (tm_next s))
     (\<lambda>s. tm_fatal s \<noteq> None \<or> latched (tm_next s)) (\<lambda>s. balanced (tm_meter s) \<and> books (tm_next s))
     (\<lambda>s. ((tm_policy s, tm_f s), cl (tm_next s))) (\<lambda>s. honest (tm_next s)) (try_map_gives f gives)
     (\<lambda>os s w s' w'. reach os (tm_next s) w (tm_next s') w')"
proof (rule wrap_tracked [OF try_map_is_stage], goal_cases)
  case (1 r s w fl s' w')
  obtain res g where f: "f (payload r) (tm_f s) = (res, g)" by fastforce
  from 1 have n: "tm_fatal s = None" by (auto simp: try_map_stage_def try_map_push_def Let_def split: if_splits)
  show ?case
  proof (cases res)
    case (Inr y)
    with f n 1(1) have "st_push ops (record_map (\<lambda>_. y) r) (tm_next s) w = Some (fl, tm_next s', w')" "tm_f s' = g"
        "tm_policy s' = tm_policy s"
      by (auto simp: try_map_stage_def try_map_push_def into_Some)
    with push_gives [OF this(1)] 1(2,3) f Inr show ?thesis by (simp add: try_map_gives_def)
  next
    case (Inl e)
    with f n 1 show ?thesis
      by (auto simp: try_map_stage_def try_map_push_def try_map_failed_def try_map_gives_def drop_rec_def Let_def
          intro!: reach_same split: if_splits)
  qed
next
  case (2 r s w fl s' w')
  then have "try_map_push f ops r s w = Some (fl, s', w')" by (simp add: try_map_stage_def)
  then show ?case using push_honest 2(2) by (cases rule: try_map_push_cases) auto
qed (auto simp: try_map_stage_def try_map_take_fatal_def into_Some Let_def split: prod.splits option.splits)

lemma flat_map_is_tracked:
  "tracked_stage (flat_map_stage f ops) (\<lambda>s. own (fm_next s)) sent (\<lambda>hp s. sinv hp (fm_next s))
     (\<lambda>s. False \<or> latched (fm_next s)) (\<lambda>s. True \<and> books (fm_next s)) (\<lambda>s. (fm_g s, cl (fm_next s)))
     (\<lambda>s. honest (fm_next s)) (flat_map_gives f gives) (\<lambda>os s w s' w'. reach os (fm_next s) w (fm_next s') w')"
proof (rule wrap_tracked [OF flat_map_is_stage], goal_cases)
  case (1 r s w fl s' w')
  then obtain n w1 where e: "emit_run (\<lambda>p. (p, meta r)) (st_push ops) (rec_ack r) (f (payload r) (fm_g s)) 0 Continue (fm_next s) w
      = Some (fm_g s', n, fl, fm_next s', w1)" and w': "w' = drop_rec r w1"
    by (auto simp: flat_map_stage_def flat_map_push_def emitter_run_def split: option.splits)
  have m: "(\<lambda>p. with_ack (rec_ack r) (p, meta r)) = (\<lambda>y. record_map (\<lambda>_. y) r)"
    by (simp add: fun_eq_iff with_ack_def record_map_def)
  from emit_run_gives [OF e] 1(2,3) obtain ys os where o: "outs (f (payload r) (fm_g s)) ys (fm_g s')"
      "gives_all gives (map (\<lambda>y. record_map (\<lambda>_. y) r) ys) (cl (fm_next s)) os (cl (fm_next s'))"
      "reach os (fm_next s) w (fm_next s') w1" by (auto simp: m)
  have "reach (os @ []) (fm_next s) w (fm_next s') w'"
    by (rule reach_trans [OF o(3) reach_same]) (simp add: w' drop_rec_def)
  with o(1,2) show ?case by (auto simp: flat_map_gives_def)
next
  case (2 r s w fl s' w')
  then obtain n w1 where "emit_run (\<lambda>p. (p, meta r)) (st_push ops) (rec_ack r) (f (payload r) (fm_g s)) 0 Continue (fm_next s) w
      = Some (fm_g s', n, fl, fm_next s', w1)"
    by (auto simp: flat_map_stage_def flat_map_push_def emitter_run_def split: option.splits)
  from emit_run_honest [OF this 2(2)] show ?case .
qed (auto simp: flat_map_stage_def into_Some split: prod.splits)

end

section \<open>What a push of a batch delivers\<close>

text \<open>
  The payloads \<open>raws\<close> were deserialized, from one deserializer state to another, and what the
  stages make of the records reached the terminal stage.
\<close>

definition delivered ::
  "('d, 't) deserializer \<Rightarrow> error_policy \<Rightarrow> ack_ref \<Rightarrow> ('s \<Rightarrow> 'c) \<Rightarrow> ('t, 'c, 'o) gives
     \<Rightarrow> ('o list \<Rightarrow> 's \<Rightarrow> 'q world \<Rightarrow> 's \<Rightarrow> 'q world \<Rightarrow> bool)
     \<Rightarrow> raw_payload list \<Rightarrow> 'd \<Rightarrow> 's \<Rightarrow> 'q world \<Rightarrow> 'd \<Rightarrow> 's \<Rightarrow> 'q world \<Rightarrow> bool" where
  "delivered D policy a cl gives reach raws d s w d' s' w' \<longleftrightarrow>
     (\<exists>rs os. payloads_give D policy a raws d rs d' \<and> gives_all gives rs (cl s) os (cl s') \<and> reach os s w s' w')"

text \<open>A deserializer that stopped before a payload has seen it, when that payload was not ready.\<close>

definition stands_before :: "('d, 't) deserializer \<Rightarrow> 'd \<Rightarrow> raw_payload list \<Rightarrow> 'd \<Rightarrow> bool" where
  "stands_before D d us d' \<longleftrightarrow>
     d' = d \<or> (\<exists>raw us' m. us = raw # us' \<and> D d raw = Return (Some (NotReady m), d'))"

text \<open>Of the payloads \<open>us\<close> the first ones were delivered and \<open>us'\<close> are left.\<close>

definition progress ::
  "('d, 't) deserializer \<Rightarrow> ack_ref \<Rightarrow> ('s \<Rightarrow> 'c) \<Rightarrow> ('t, 'c, 'o) gives
     \<Rightarrow> ('o list \<Rightarrow> 's \<Rightarrow> 'q world \<Rightarrow> 's \<Rightarrow> 'q world \<Rightarrow> bool)
     \<Rightarrow> raw_payload list \<Rightarrow> ('d, 's) typed_chain \<Rightarrow> 'q world \<Rightarrow> raw_payload list \<Rightarrow> ('d, 's) typed_chain \<Rightarrow> 'q world \<Rightarrow> bool" where
  "progress D a cl gives reach us c w us' c' w' \<longleftrightarrow>
     (\<exists>raws d. us = raws @ us' \<and>
        delivered D (tc_policy c) a cl gives reach raws (tc_deser c) (tc_ops c) w d (tc_ops c') w' \<and>
        stands_before D d us' (tc_deser c'))"

lemma deser_step_policy:
  "deser_step D ops raw a pc c w = Some (st, pc', c', w') \<Longrightarrow> tc_policy c' = tc_policy c"
  by (auto simp: deser_step_def split: option.splits)

lemma after_step_deser:
  "after_step raw st pc c = (out, pc', c') \<Longrightarrow> tc_deser c' = tc_deser c \<and> tc_policy c' = tc_policy c"
  by (auto simp: after_step_def split: chain_step.splits)

context tracked_stage
begin

abbreviation "delivers D policy a \<equiv> delivered D policy a cl gives reach"

abbreviation "goes D a \<equiv> progress D a cl gives reach"

lemma delivered_none: "cl s' = cl s \<Longrightarrow> reach [] s w s' w' \<Longrightarrow> delivers D policy a [] d s w d s' w'"
  by (auto simp: delivered_def)

lemma delivered_trans:
  assumes "delivers D policy a raws d s w d1 s1 w1" and "delivers D policy a raws' d1 s1 w1 d' s' w'"
  shows "delivers D policy a (raws @ raws') d s w d' s' w'"
proof -
  from assms obtain rs os rs' os' where
    1: "payloads_give D policy a raws d rs d1" "gives_all gives rs (cl s) os (cl s1)" "reach os s w s1 w1" and
    2: "payloads_give D policy a raws' d1 rs' d'" "gives_all gives rs' (cl s1) os' (cl s')" "reach os' s1 w1 s' w'"
    unfolding delivered_def by blast
  from payloads_give_append [OF 1(1) 2(1)] gives_all_append [OF 1(2) 2(2)] reach_trans [OF 1(3) 2(3)]
  show ?thesis unfolding delivered_def by blast
qed

lemma progress_after:
  assumes "delivers D (tc_policy c) a raws (tc_deser c) (tc_ops c) w (tc_deser c1) (tc_ops c1) w1"
    and "tc_policy c1 = tc_policy c" and "goes D a us c1 w1 us' c' w'"
  shows "goes D a (raws @ us) c w us' c' w'"
proof -
  from assms(3) obtain raws' d where "us = raws' @ us'" "stands_before D d us' (tc_deser c')"
      "delivers D (tc_policy c) a raws' (tc_deser c1) (tc_ops c1) w1 d (tc_ops c') w'"
    using assms(2) by (auto simp: progress_def)
  with delivered_trans [OF assms(1)] show ?thesis
    unfolding progress_def by (intro exI [of _ "raws @ raws'"] exI [of _ d]) auto
qed

lemma progress_then:
  assumes "goes D a us c w us' c1 w1" and "tc_deser c' = tc_deser c1" and "cl (tc_ops c') = cl (tc_ops c1)"
    and "reach [] (tc_ops c1) w1 (tc_ops c') w'"
  shows "goes D a us c w us' c' w'"
proof -
  from assms(1) obtain raws d where "us = raws @ us'" "stands_before D d us' (tc_deser c1)"
      "delivers D (tc_policy c) a raws (tc_deser c) (tc_ops c) w d (tc_ops c1) w1"
    by (auto simp: progress_def)
  with delivered_trans [OF _ delivered_none [OF assms(3,4)]] assms(2) show ?thesis
    unfolding progress_def by (intro exI [of _ raws] exI [of _ d]) fastforce
qed

lemma progress_done:
  "delivers D (tc_policy c) a raws (tc_deser c) (tc_ops c) w (tc_deser c') (tc_ops c') w' \<Longrightarrow>
     goes D a (raws @ us) c w us c' w'"
  by (auto simp: progress_def stands_before_def)

lemma deser_finish_reach:
  assumes "deser_finish ops fl s w = Some (st, s', w')" and "\<not> (\<exists>f. st = StepFatal f)"
  shows "\<not> latched s \<and> cl s' = cl s \<and> reach [] s w s' w' \<and> (honest s \<longrightarrow> honest s')"
proof -
  obtain x s1 where x: "st_take_fatal ops s = (x, s1)" by fastforce
  with assms have n: "x = None" by (cases x) (auto simp: deser_finish_def)
  note f = fatal_reach [OF x [unfolded n], of w]
  have "cl s' = cl s1 \<and> reach [] s1 w s' w' \<and> (honest s1 \<longrightarrow> honest s')"
  proof (cases "fl = Blocked")
    case True
    with assms x n show ?thesis by (auto simp: deser_finish_def intro!: reach_same)
  next
    case False
    with assms x n obtain fl' where "st_relieve ops s1 w = Some (fl', s', w')"
      by (auto simp: deser_finish_def split: option.splits)
    from relieve_reach [OF this] show ?thesis .
  qed
  with f reach_trans [of "[]" s w s1 w "[]" s' w'] fatal_same [OF x] n show ?thesis by auto
qed

lemma deser_step_delivers:
  assumes "deser_step D ops raw a pc c w = Some (st, pc', c', w')" and "not_ready_first D"
    and "\<not> (\<exists>f. st = StepFatal f)" and h: "honest (tc_ops c)"
  shows "honest (tc_ops c') \<and> (if st = StepNotReady
    then (\<exists>m. D (tc_deser c) raw = Return (Some (NotReady m), tc_deser c')) \<and> tc_ops c' = tc_ops c \<and> w' = w
    else delivers D (tc_policy c) a [raw] (tc_deser c) (tc_ops c) w (tc_deser c') (tc_ops c') w')"
proof -
  from assms(1) obtain res n fl s1 w1 pc1
    where e: "ops_emit_run (st_push ops) a (D (tc_deser c) raw) (tc_ops c) w = Some ((res, tc_deser c'), n, fl, s1, w1)"
      and r: "deser_result ops (tc_policy c) res pc1 fl s1 w1 = Some (st, pc', tc_ops c', w')"
    by (auto simp: deser_step_def split: option.splits)
  consider (wait) m where "res = Some (NotReady m)" "st = StepNotReady" "tc_ops c' = s1" "w' = w1"
    | (ended) "passes (tc_policy c) res" "deser_finish ops fl s1 w1 = Some (st, tc_ops c', w')"
    using r assms(3)
    by (auto simp: deser_result_def passes_def fatal_or_def Let_def split: option.splits deser_error.splits if_splits prod.splits)
  then show ?thesis
  proof cases
    case (wait m)
    with not_ready_untouched [OF assms(2) e [unfolded wait(1)]] have "s1 = tc_ops c" "w1 = w" by simp_all
    moreover have "D (tc_deser c) raw = Return (Some (NotReady m), tc_deser c')"
    proof (cases "D (tc_deser c) raw")
      case (Return x) with e wait show ?thesis by (simp add: ops_emit_run_def)
    next
      case (Emit p k)
      then obtain fl1 s2 w2 where r1: "emit_run id (st_push ops) a (k fl1) 1 (latch_flow Continue fl1) s2 w2
          = Some ((res, tc_deser c'), n, fl, s1, w1)"
        using e by (auto simp: ops_emit_run_def split: option.splits)
      have "quiet (k fl1)" using assms(2) Emit unfolding not_ready_first_def by blast
      from quiet_emit_run [OF this r1, of m] wait(1) show ?thesis by simp
    qed
    ultimately show ?thesis using wait h by simp
  next
    case ended
    note f = deser_finish_reach [OF ended(2) assms(3)]
    from emit_run_gives [OF e [unfolded ops_emit_run_def] _ h] f obtain ys os
      where "outs (D (tc_deser c) raw) ys (res, tc_deser c')"
        "gives_all gives (map (with_ack a) ys) (cl (tc_ops c)) os (cl s1)" "reach os (tc_ops c) w s1 w1"
      by (auto simp: comp_def)
    with ended(1) have "delivers D (tc_policy c) a [raw] (tc_deser c) (tc_ops c) w (tc_deser c') s1 w1"
      unfolding delivered_def by (intro exI [of _ "map (with_ack a) ys"] exI [of _ os]) auto
    from delivered_trans [OF this delivered_none, of "tc_ops c'" w'] f
    have "delivers D (tc_policy c) a [raw] (tc_deser c) (tc_ops c) w (tc_deser c') (tc_ops c') w'" by simp
    moreover have "st \<noteq> StepNotReady" using ended(2) by (auto simp: deser_finish_def split: option.splits prod.splits if_splits)
    moreover have "honest (tc_ops c')" using emit_run_honest [OF e [unfolded ops_emit_run_def] h] f by simp
    ultimately show ?thesis by simp
  qed
qed

text \<open>One payload of a push, that pulled it or replays it.\<close>

lemma payload_progress:
  assumes d: "deser_step D ops raw a pc c w = Some (st, pc1, c1, w1)" and a: "after_step raw st pc1 c1 = (out, pc2, c2)"
    and q: "not_ready_first D" and p: "tc_pending c = None" and f: "\<not> (\<exists>f. out = Some (FatalOutcome f))"
    and h: "honest (tc_ops c)"
  shows "honest (tc_ops c2) \<and> (if out = None
    then delivers D (tc_policy c) a [raw] (tc_deser c) (tc_ops c) w (tc_deser c2) (tc_ops c2) w1 \<and> tc_pending c2 = None
    else goes D a (raw # rest) c w (unprocessed c2 rest) c2 w1)"
proof -
  note o = after_step_ops [OF a] and dd = after_step_deser [OF a] and cu = deser_step_cursor [OF d]
  have "\<not> (\<exists>f. st = StepFatal f)" using f o by blast
  note s = deser_step_delivers [OF d q this h]
  show ?thesis
  proof (cases "st = StepNotReady")
    case True
    with a have "out \<noteq> None" "unprocessed c2 rest = raw # rest" by (auto simp: after_step_def unprocessed_def)
    moreover have "goes D a (raw # rest) c w (raw # rest) c2 w1"
      unfolding progress_def stands_before_def
      by (intro exI [of _ "[]"] exI [of _ "tc_deser c"]) (use s True o dd in \<open>auto intro!: delivered_none reach_same\<close>)
    ultimately show ?thesis using s o by auto
  next
    case False
    with s o dd have e: "delivers D (tc_policy c) a [raw] (tc_deser c) (tc_ops c) w (tc_deser c2) (tc_ops c2) w1" by simp
    have n: "tc_pending c2 = None" using a False cu p by (auto simp: after_step_def split: chain_step.splits)
    from progress_done [OF e, of rest] e n s o show ?thesis by (simp add: unprocessed_def)
  qed
qed

lemma push_loop_progress:
  assumes "push_loop D ops a rest pc c w = Some (out, rest', pc', c', w')" and "not_ready_first D"
    and "tc_pending c = None" and "\<not> (\<exists>f. out = Some (FatalOutcome f))" and "honest (tc_ops c)"
  shows "goes D a rest c w (unprocessed c' rest') c' w'"
  using assms
proof (induction rest arbitrary: pc c w)
  case Nil
  then show ?case
    using progress_done [of D c a "[]" w c w "[]"] by (auto simp: unprocessed_def intro!: delivered_none reach_same)
next
  case (Cons raw rest)
  from Cons.prems(1) obtain st pc1 c1 w1 o1 pc2 c2
    where d: "deser_step D ops raw a pc c w = Some (st, pc1, c1, w1)"
      and a: "after_step raw st pc1 c1 = (o1, pc2, c2)"
      and r: "(case o1 of Some x \<Rightarrow> Some (Some x, rest, pc2, c2, w1)
               | None \<Rightarrow> push_loop D ops a rest pc2 c2 w1) = Some (out, rest', pc', c', w')"
    by (fastforce split: option.splits prod.splits)
  have "\<not> (\<exists>f. o1 = Some (FatalOutcome f))" using r Cons.prems(4) by auto
  note p = payload_progress [OF d a Cons.prems(2,3) this Cons.prems(5), of rest]
  show ?case
  proof (cases o1)
    case (Some x) with p r show ?thesis by simp
  next
    case None
    have "goes D a rest c2 w1 (unprocessed c' rest') c' w'"
      by (rule Cons.IH) (use None r p Cons.prems in simp_all)
    from progress_after [OF _ _ this, of c "[raw]"] None p deser_step_policy [OF d] after_step_deser [OF a]
    show ?thesis by simp
  qed
qed

lemma push_replay_progress:
  assumes r: "push_replay D ops a pc c w = Some (out, pc', c', w')" and q: "not_ready_first D"
    and f: "\<not> (\<exists>f. out = Some (FatalOutcome f))" and h: "honest (tc_ops c)"
  shows "tc_policy c' = tc_policy c \<and> honest (tc_ops c') \<and> (if out = None
    then delivers D (tc_policy c) a (map as_raw (opt_list (tc_pending c))) (tc_deser c) (tc_ops c) w (tc_deser c') (tc_ops c') w' \<and>
      tc_pending c' = None
    else goes D a (unprocessed c rest) c w (unprocessed c' rest) c' w')"
proof (cases "tc_pending c")
  case None
  with r h show ?thesis by (auto simp: push_replay_def intro!: delivered_none reach_same)
next
  case (Some p)
  let ?c = "c\<lparr>tc_pending := None\<rparr>"
  from Some r obtain st pc1 c1
    where d: "deser_step D ops (as_raw p) a pc ?c w = Some (st, pc1, c1, w')"
      and a: "after_step (as_raw p) st pc1 c1 = (out, pc', c')"
    by (auto simp: push_replay_def split: option.splits prod.splits)
  have c: "goes D a us ?c w us' c' w' = goes D a us c w us' c' w'" for us us' by (simp add: progress_def)
  from payload_progress [OF d a q _ f, of rest] h Some deser_step_policy [OF d] after_step_deser [OF a] c show ?thesis
    by (cases out) (simp_all add: unprocessed_def)
qed

lemma end_push_reach:
  assumes "end_push ops o1 pc a c w = (out, c', w')" and "\<not> (\<exists>f. out = FatalOutcome f)"
  shows "tc_deser c' = tc_deser c \<and> cl (tc_ops c') = cl (tc_ops c) \<and> reach [] (tc_ops c) w (tc_ops c') w' \<and>
    tc_pending c' = tc_pending c"
  using assms end_reach [of "tc_ops c" w]
  by (auto simp: end_push_def publish_deser_def Let_def split: option.splits push_outcome.splits)

lemma push_batch_progress:
  assumes p: "push_batch D ops batch from c w = Some (out, batch', c', w')" and q: "not_ready_first D"
    and f: "\<not> (\<exists>f. out = FatalOutcome f)" and h: "honest (tc_ops c)"
  shows "goes D (pb_ack batch) (unprocessed (begin_push c) (pb_rest batch)) c w (unprocessed c' (pb_rest batch')) c' w'"
proof -
  let ?a = "pb_ack batch" and ?z = "\<lparr>pc_ok = 0, pc_errors = 0, pc_not_ready = 0, pc_fatal = 0\<rparr>"
  have c0: "tc_ops (begin_push c) = tc_ops c" "tc_deser (begin_push c) = tc_deser c" "tc_policy (begin_push c) = tc_policy c"
    by (simp_all add: begin_push_def)
  obtain fl s w0 where rel: "st_relieve ops (tc_ops c) w = Some (fl, s, w0)"
    using p c0 by (auto simp: push_batch_def Let_def split: option.splits)
  define c1 where "c1 = (begin_push c)\<lparr>tc_ops := s\<rparr>"
  have c1: "tc_deser c1 = tc_deser c" "tc_policy c1 = tc_policy c"
      "unprocessed c1 us = unprocessed (begin_push c) us" "tc_pending c1 = tc_pending (begin_push c)" for us
    by (simp_all add: c1_def c0 unprocessed_def)
  have d1: "delivers D (tc_policy c) ?a [] (tc_deser c) (tc_ops c) w (tc_deser c1) (tc_ops c1) w0"
    using relieve_reach [OF rel] c1(1) by (auto simp: c1_def intro: delivered_none)
  have h1: "honest (tc_ops c1)" using relieve_reach [OF rel] h by (simp add: c1_def)
  consider (blocked) "c' = c1" "w' = w0" "batch' = batch"
    | (replayed) o1 pc c2 w1 where "push_replay D ops ?a ?z c1 w0 = Some (Some o1, pc, c2, w1)"
        "end_push ops (Some o1) pc ?a c2 w1 = (out, c', w')" "batch' = batch"
    | (looped) pc c2 w1 o2 rest pc' c3 w2 where "push_replay D ops ?a ?z c1 w0 = Some (None, pc, c2, w1)"
        "push_loop D ops ?a (pb_rest batch) pc c2 w1 = Some (o2, rest, pc', c3, w2)"
        "end_push ops o2 pc' ?a c3 w2 = (out, c', w')" "batch' = batch\<lparr>pb_rest := rest\<rparr>"
    using p c0 rel
    by (fastforce simp: push_batch_def Let_def c1_def split: option.splits prod.splits if_splits)
  then have "goes D ?a (unprocessed c1 (pb_rest batch)) c1 w0 (unprocessed c' (pb_rest batch')) c' w'"
  proof cases
    case blocked
    then show ?thesis using progress_done [of D c1 ?a "[]" w0 c1 w0] by (simp add: delivered_none reach_same)
  next
    case (replayed o1 pc c2 w1)
    note e = end_push_reach [OF replayed(2) f] end_push_cursor(3) [OF replayed(2)]
    from push_replay_progress [OF replayed(1) q _ h1, of "pb_rest batch"] e(2) f
    have "goes D ?a (unprocessed c1 (pb_rest batch)) c1 w0 (unprocessed c2 (pb_rest batch)) c2 w1" by simp
    from progress_then [OF this, of c' w'] e replayed(3) show ?thesis by (simp add: unprocessed_def)
  next
    case (looped pc c2 w1 o2 rest pc' c3 w2)
    note e = end_push_reach [OF looped(3) f] end_push_cursor(3) [OF looped(3)]
    note r = push_replay_progress [OF looped(1) q _ h1]
    have "\<not> (\<exists>f. o2 = Some (FatalOutcome f))" using e(2) f by (cases o2) auto
    with push_loop_progress [OF looped(2) q] r
    have "goes D ?a (pb_rest batch) c2 w1 (unprocessed c3 rest) c3 w2" by simp
    from progress_after [OF _ _ this, of c1] r
    have "goes D ?a (unprocessed c1 (pb_rest batch)) c1 w0 (unprocessed c3 rest) c3 w2" by (simp add: unprocessed_def)
    from progress_then [OF this, of c' w'] e looped(4) show ?thesis by (simp add: unprocessed_def)
  qed
  from progress_after [OF d1 c1(2) this] show ?thesis by (simp add: c1(3))
qed

end

section \<open>The rows of the records pushed to a hand-off\<close>

text \<open>
  Every record pushed is one more row of the shard it is routed to, in order. Flags that are
  false mark the records that could not be encoded: there are none unless the policy is to
  skip, and they are counted.
\<close>

definition counted :: "op_meter \<Rightarrow> bool list \<Rightarrow> op_meter \<Rightarrow> bool" where
  "counted m ok m' \<longleftrightarrow>
     (om_handle m \<noteq> None \<longrightarrow> om_handle m' \<noteq> None \<and> total_in m' = total_in m + length ok \<and>
        total_dropped m' = total_dropped m + length (filter Not ok))"

definition new_rows :: "('t, 'e, 'k, 'q) handoff_env \<Rightarrow> nat \<Rightarrow> ('t rec \<times> bool) list \<Rightarrow> nat \<Rightarrow> ack_ref list" where
  "new_rows env n rs i = map (\<lambda>x. rec_ack (fst x)) (filter (\<lambda>x. snd x \<and> he_route_record env (fst x) n = i) rs)"

definition stored ::
  "('t, 'e, 'k, ('c, 'f) shard_queues) handoff_env \<Rightarrow> 't rec list \<Rightarrow> ('e, 'k) sink_handoff \<Rightarrow> ('c, 'f) shard_queues world
     \<Rightarrow> ('e, 'k) sink_handoff \<Rightarrow> ('c, 'f) shard_queues world \<Rightarrow> bool" where
  "stored env rs h w h' w' \<longleftrightarrow>
     (\<exists>ok. length ok = length rs \<and> (encode_policy (ho_cfg h) \<noteq> Skip \<longrightarrow> list_all (\<lambda>b. b) ok) \<and>
        counted (ho_meter h) ok (ho_meter h') \<and>
        (\<forall>i. row_stream (sent_on (w_queues w')) h' i
          = row_stream (sent_on (w_queues w)) h i @ new_rows env (length (ho_shards h)) (zip rs ok) i))"

definition steady :: "('e, 'k) sink_handoff \<Rightarrow> ('e, 'k) sink_handoff \<Rightarrow> bool" where
  "steady h h' \<longleftrightarrow> parked_inv (ho_shards h') (ho_parked h') \<and> length (ho_shards h') = length (ho_shards h) \<and>
     ho_cfg h' = ho_cfg h"

lemma counted_nil: "counted m [] m"
  by (simp add: counted_def)

lemma counted_trans: "counted m ok m1 \<Longrightarrow> counted m1 ok' m' \<Longrightarrow> counted m (ok @ ok') m'"
  by (auto simp: counted_def)

lemma counted_flush: "counted m [] (meter_flush m)"
  by (auto simp: counted_def) (simp add: meter_flush_def)

lemma seal_meter_same:
  "seal_and_send env i h w = Some (h', w') \<Longrightarrow> ho_fatal h' = None \<Longrightarrow> ho_meter h' = ho_meter h"
  by (cases rule: seal_and_send_cases)
    (auto simp: trip_def fatal_latch_def seal_send_def Let_def split: option.splits prod.splits bool.splits if_splits)

lemma stored_trans:
  assumes "stored env rs h w h1 w1" and "stored env rs' h1 w1 h' w'" and "steady h h1"
  shows "stored env (rs @ rs') h w h' w'"
proof -
  from assms(1) obtain ok where 1: "length ok = length rs" "encode_policy (ho_cfg h) \<noteq> Skip \<longrightarrow> list_all (\<lambda>b. b) ok"
      "counted (ho_meter h) ok (ho_meter h1)" "\<And>i. row_stream (sent_on (w_queues w1)) h1 i
        = row_stream (sent_on (w_queues w)) h i @ new_rows env (length (ho_shards h)) (zip rs ok) i"
    by (auto simp: stored_def)
  from assms(2,3) obtain ok' where 2: "length ok' = length rs'" "encode_policy (ho_cfg h) \<noteq> Skip \<longrightarrow> list_all (\<lambda>b. b) ok'"
      "counted (ho_meter h1) ok' (ho_meter h')" "\<And>i. row_stream (sent_on (w_queues w')) h' i
        = row_stream (sent_on (w_queues w1)) h1 i @ new_rows env (length (ho_shards h)) (zip rs' ok') i"
    by (auto simp: stored_def steady_def)
  show ?thesis
    unfolding stored_def
    by (rule exI [of _ "ok @ ok'"]) (use 1 2 counted_trans [OF 1(3) 2(3)] in \<open>auto simp: new_rows_def\<close>)
qed

lemma handoff_push_stored:
  assumes t: "he_try_send env = try_send api" and inv: "parked_inv (ho_shards h) (ho_parked h)"
    and p: "handoff_push env r h w = Some (fl, h', w')" and n: "ho_fatal h' = None"
  shows "stored env [r] h w h' w' \<and> steady h h'"
proof -
  let ?h = "h\<lparr>ho_meter := meter_seen (ho_meter h)\<rparr>"
  from p n have f: "ho_fatal h = None" by (auto simp: handoff_push_def Let_def split: if_splits)
  with p obtain w2 where l: "push_live env r ?h w = Some (h', w2)"
    by (auto simp: handoff_push_def Let_def split: option.splits)
  have rows: "row_stream (sent_on (w_queues w')) h' i = row_stream (sent_on (w_queues w)) h i @ rows_added env (HoPush r) h i" for i
    by (rule sq.step_rows [OF t inv]) (use p in simp)
  let ?b = "ho_shards h ! he_route_record env r (length (ho_shards h))"
  let ?ok = "fst (he_encode env (sb_encoder ?b) r (sb_buf ?b)) = None"
  from l have "steady h h' \<and> counted (ho_meter h) [?ok] (ho_meter h') \<and> (encode_policy (ho_cfg h) \<noteq> Skip \<longrightarrow> ?ok)"
  proof (cases rule: push_live_cases)
    case (failed i x e buf)
    with n inv show ?thesis
      by (auto simp: push_failed_def trip_def fatal_latch_def steady_def counted_def total_in_def total_dropped_def meter_defs
          intro!: parked_inv_upd split: if_splits option.splits)
  next
    case (encoded i e buf b2 hp h1)
    have b2: "sb_parked b2 = sb_parked (ho_shards h ! i)"
      using hold_batch_cases [OF encoded(4)] by (auto simp: add_row_def)
    have s1: "steady h h1" using parked_inv_upd [OF inv _ b2] encoded(2,5) by (simp add: steady_def)
    then have inv1: "parked_inv (ho_shards h1) (ho_parked h1)" by (simp add: steady_def)
    have "steady h1 h' \<and> ho_meter h' = ho_meter h1"
      using encoded(6) inv1 sq.seal_ok(2,3) [OF t inv1] seal_meter_same n
      by (auto simp: steady_def others_kept_def)
    with s1 encoded(1,3,5) show ?thesis
      by (auto simp: steady_def counted_def total_in_def total_dropped_def meter_defs)
  qed
  then show ?thesis
    unfolding stored_def using rows f
    by (auto simp: new_rows_def rows_added_def Let_def intro!: exI [of _ "[?ok]"])
qed

lemma handoff_pushed_latched:
  "pushed_to (handoff_stage env) rs h w h' w' \<Longrightarrow> ho_fatal h \<noteq> None \<Longrightarrow> ho_fatal h' \<noteq> None"
proof (induction rule: pushed_to.induct)
  case (pushed_push r s w fl s1 w1 rs s' w')
  then show ?case using handoff_push_accounts [of env r s w fl s1 w1]
    by (simp add: handoff_stage_def accounts_def handoff_latched_def)
next
  case (pushed_relieve s w fl s1 w1 rs s' w')
  then show ?case
    by (auto simp: handoff_stage_def handoff_relieve_def drain_parked_def dest: drain_loop_meter split: if_splits)
qed (auto simp: handoff_stage_def handoff_take_fatal_def handoff_on_batch_end_def)

lemma stored_same:
  "w_queues w' = w_queues w \<Longrightarrow> ho_shards h' = ho_shards h \<Longrightarrow> ho_parked h' = ho_parked h \<Longrightarrow>
     counted (ho_meter h) [] (ho_meter h') \<Longrightarrow> stored env [] h w h' w'"
  by (simp add: stored_def new_rows_def row_stream_def)

lemma handoff_relieve_stored:
  assumes t: "he_try_send env = try_send api" and inv: "parked_inv (ho_shards h) (ho_parked h)"
    and r: "handoff_relieve env h w = Some (fl, h', w')"
  shows "stored env [] h w h' w' \<and> steady h h'"
proof -
  have rows: "row_stream (sent_on (w_queues w')) h' i = row_stream (sent_on (w_queues w)) h i" for i
    using sq.step_rows [OF t inv, of HoRelieve w h' w' i] r by (simp add: rows_added_def)
  have "h' = h \<or> (\<exists>ok. drain_loop env (ho_parked h) h w = Some (ok, h', w'))"
    using r by (auto simp: handoff_relieve_def drain_parked_def split: if_splits)
  then have "steady h h' \<and> ho_meter h' = ho_meter h"
    using inv sq.drain_loop_ok [OF t _ inv] by (auto simp: steady_def dest!: map_eq_imp_length_eq)
  with rows show ?thesis by (simp add: stored_def new_rows_def counted_nil)
qed

lemma handoff_pushed_stored:
  assumes "pushed_to (handoff_stage env) rs h w h' w'" and t: "he_try_send env = try_send api"
    and "parked_inv (ho_shards h) (ho_parked h)" and "ho_fatal h' = None"
  shows "stored env rs h w h' w'"
  using assms(1,3,4)
proof (induction rule: pushed_to.induct)
  case (pushed_nil s w)
  then show ?case by (simp add: stored_same counted_nil)
next
  case (pushed_other w1 w rs s s' w')
  then show ?case by (simp add: stored_def)
next
  case (pushed_push r s w fl s1 w1 rs s' w')
  from pushed_push(1) have p: "handoff_push env r s w = Some (fl, s1, w1)" by (simp add: handoff_stage_def)
  have n: "ho_fatal s1 = None" using handoff_pushed_latched [OF pushed_push(2)] pushed_push(5) by blast
  note q = handoff_push_stored [OF t pushed_push(4) p n]
  from stored_trans [of env "[r]" s w s1 w1 rs s' w'] q pushed_push(3,5) show ?case by (simp add: steady_def)
next
  case (pushed_relieve s w fl s1 w1 rs s' w')
  from pushed_relieve(1) have p: "handoff_relieve env s w = Some (fl, s1, w1)" by (simp add: handoff_stage_def)
  note q = handoff_relieve_stored [OF t pushed_relieve(4) p]
  from stored_trans [of env "[]" s w s1 w1 rs s' w'] q pushed_relieve(3,5) show ?case by (simp add: steady_def)
next
  case (pushed_fatal s s1 rs w s' w')
  then have s1: "s1 = s\<lparr>ho_fatal := None\<rparr>" by (auto simp: handoff_stage_def handoff_take_fatal_def)
  then have q: "stored env [] s w s1 w" "steady s s1"
    using pushed_fatal(4) by (simp_all add: steady_def stored_same counted_nil)
  from stored_trans [OF q(1) _ q(2)] pushed_fatal(3,5) q(2) show ?case by (simp add: steady_def)
next
  case (pushed_end rs s w s' w')
  let ?s = "st_on_batch_end (handoff_stage env) s"
  have q: "stored env [] s w ?s w" "steady s ?s" using pushed_end(3)
    by (auto simp: steady_def handoff_stage_def handoff_on_batch_end_def intro!: stored_same counted_flush)
  from stored_trans [OF q(1) _ q(2)] pushed_end(2,4) q(2) show ?case by (simp add: steady_def)
qed

lemma handoff_is_tracked:
  fixes env :: "('t, 'e, 'k, ('c, 'f) shard_queues) handoff_env"
  assumes "he_try_send env = try_send api" and "\<And>r n. 0 < n \<Longrightarrow> he_route_record env r n < n"
  shows "tracked_stage (handoff_stage env) held handoff_sent handoff_sinv handoff_latched handoff_books
    (\<lambda>h. ()) (\<lambda>h. True) sink_gives (pushed_to (handoff_stage env))"
proof (intro tracked_stage.intro tracked_stage_axioms.intro, goal_cases)
  case 1 show ?case by (rule handoff_is_stage [OF assms])
next
  case (2 w' w s) then show ?case by (rule pushed_same)
next
  case (3 os1 s w s1 w1 os2 s2 w2) then show ?case by (rule pushed_trans)
next
  case (4 r s w fl s' w')
  then show ?case by (auto simp: sink_gives_def intro: pushed_to.intros)
qed (auto intro: pushed_to.intros)

section \<open>A stack of every combinator\<close>

abbreviation "sink_stage api encode buffered finish code \<equiv> handoff_stage (sink_env api encode buffered finish code)"

interpretation fho: tracked_stage "sink_stage api encode buffered finish code" held handoff_sent handoff_sinv
  handoff_latched handoff_books "\<lambda>h. ()" "\<lambda>h. True" sink_gives "pushed_to (sink_stage api encode buffered finish code)"
  by (rule handoff_is_tracked [where api = api])
    (simp_all add: sink_env_def route_record_meta_def key_hash_route_def Let_def)

definition stack_gives ::
  "('a \<Rightarrow> 'g1 \<Rightarrow> 'b \<times> 'g1) \<Rightarrow> ('b \<Rightarrow> 'g2 \<Rightarrow> bool \<times> 'g2) \<Rightarrow> ('b \<Rightarrow> 'g3 \<Rightarrow> 'g3) \<Rightarrow> ('b \<Rightarrow> 'g4 \<Rightarrow> ('x, 'g4) emits)
     \<Rightarrow> ('x \<Rightarrow> 'g5 \<Rightarrow> (string + 't) \<times> 'g5)
     \<Rightarrow> ('a, 'g1 \<times> 'g2 \<times> 'g3 \<times> 'g4 \<times> (error_policy \<times> 'g5) \<times> unit, 't rec) gives" where
  "stack_gives f p i g t =
     map_gives f (filter_gives p (inspect_gives i (flat_map_gives g (try_map_gives t sink_gives))))"

definition stack_closures ::
  "('g1, ('g2, ('g3, ('g4, ('g5, 's) try_map_op) flat_map_op) inspect_op) filter_op) map_op
     \<Rightarrow> 'g1 \<times> 'g2 \<times> 'g3 \<times> 'g4 \<times> (error_policy \<times> 'g5) \<times> unit" where
  "stack_closures s =
     (mp_f s, fi_p (mp_next s), in_f (fi_next (mp_next s)), fm_g (in_next (fi_next (mp_next s))),
      (tm_policy (stack_try s), tm_f (stack_try s)), ())"

interpretation fstack: tracked_stage "op_stack f p i g t (sink_env api encode buffered finish code)"
  "\<lambda>s. held (stack_terminal s)" handoff_sent "\<lambda>hp s. handoff_sinv hp (stack_terminal s)" stack_latched stack_books
  stack_closures "\<lambda>s. True" "stack_gives f p i g t"
  "\<lambda>os s w s' w'. pushed_to (sink_stage api encode buffered finish code) os (stack_terminal s) w (stack_terminal s') w'"
proof -
  note tm = fho.try_map_is_tracked [of t api encode buffered finish code]
  note fm = tracked_stage.flat_map_is_tracked [OF tm, of g]
  note ins = tracked_stage.inspect_is_tracked [OF fm, of i]
  note fil = tracked_stage.filter_is_tracked [OF ins, of p]
  note mp = tracked_stage.map_is_tracked [OF fil, of f]
  have l: "stack_latched = (\<lambda>s. False \<or> (False \<or> (False \<or> (False \<or> (tm_fatal (stack_try s) \<noteq> None \<or> handoff_latched (tm_next (stack_try s)))))))"
    by (simp add: stack_latched_def stack_terminal_def handoff_latched_def fun_eq_iff)
  have b: "stack_books = (\<lambda>s. balanced (mp_meter s) \<and> (balanced (fi_meter (mp_next s)) \<and> (True \<and> (True \<and>
      (balanced (tm_meter (stack_try s)) \<and> handoff_books (tm_next (stack_try s)))))))"
    by (simp add: stack_books_def stack_terminal_def handoff_books_def fun_eq_iff)
  have c: "stack_closures = (\<lambda>s. (mp_f s, fi_p (mp_next s), in_f (fi_next (mp_next s)), fm_g (in_next (fi_next (mp_next s))),
      (tm_policy (stack_try s), tm_f (stack_try s)), ()))"
    by (simp add: stack_closures_def fun_eq_iff)
  from mp show "tracked_stage (op_stack f p i g t (sink_env api encode buffered finish code)) (\<lambda>s. held (stack_terminal s))
      handoff_sent (\<lambda>hp s. handoff_sinv hp (stack_terminal s)) stack_latched stack_books stack_closures (\<lambda>s. True) (stack_gives f p i g t)
      (\<lambda>os s w s' w'. pushed_to (sink_stage api encode buffered finish code) os (stack_terminal s) w (stack_terminal s') w')"
    unfolding op_stack_def stack_gives_def l b c stack_terminal_def .
qed

section \<open>Properties\<close>

text \<open>
  C13. Nothing is dropped in silence. Pushing a batch through every kind of stage returns, keeps
  the ownership discipline, and either reports a fatal error, and then the batch's
  acknowledgment has failed, or it delivers: of the batch's unprocessed payloads the first ones
  were deserialized, what the closures make of these records, no more and no less, was pushed to
  the sink in order, and each of them is a row of the shard it is routed to, unless its encoding
  failed and the policy is to skip, which is counted. The other payloads are still unprocessed,
  every stage's books are balanced and no error is pending. A payload or a record is left out
  after an error only where the policy is to skip.
\<close>

theorem chain_no_silent_drop:
  fixes c :: "('d, ('g1, ('g2, ('g3, ('g4, ('g5, ('e, 'k) sink_handoff) try_map_op) flat_map_op) inspect_op) filter_op) map_op) typed_chain"
    and w :: "('c, 'f) shard_queues world"
  defines "hd_of \<equiv> \<lambda>c :: ('d, ('g1, ('g2, ('g3, ('g4, ('g5, ('e, 'k) sink_handoff) try_map_op) flat_map_op) inspect_op) filter_op) map_op) typed_chain.
     stack_terminal (tc_ops c)"
  assumes "not_ready_first deserialize" and "handoff_sinv (w_heap w) (hd_of c) (w_queues w)"
    and "heap_ok (w_heap w) (held (hd_of c) + F)" and "outbox_ok (w_heap w)" and "pb_ack batch \<in># F"
    and "stack_books (tc_ops c)" and "\<not> stack_latched (tc_ops c)"
  shows "\<exists>out batch' c' w'.
    push_batch deserialize (op_stack f p i g t (sink_env api encode buffered finish code)) batch start c w
      = Some (out, batch', c', w') \<and>
    (\<exists>taken. handoff_sent (w_queues w') = handoff_sent (w_queues w) + taken \<and>
       heap_ok (w_heap w') (held (hd_of c') + (taken + F))) \<and>
    handoff_sinv (w_heap w') (hd_of c') (w_queues w') \<and>
    (case out of FatalOutcome e \<Rightarrow> ack_failed (w_heap w') (pb_ack batch)
     | _ \<Rightarrow> stack_books (tc_ops c') \<and> \<not> stack_latched (tc_ops c') \<and>
         (\<exists>raws d rs os.
            unprocessed (begin_push c) (pb_rest batch) = raws @ unprocessed c' (pb_rest batch') \<and>
            payloads_give deserialize (tc_policy c) (pb_ack batch) raws (tc_deser c) rs d \<and>
            gives_all (stack_gives f p i g t) rs (stack_closures (tc_ops c)) os (stack_closures (tc_ops c')) \<and>
            pushed_to (handoff_stage (sink_env api encode buffered finish code)) os (hd_of c) w (hd_of c') w' \<and>
            stored (sink_env api encode buffered finish code) os (hd_of c) w (hd_of c') w' \<and>
            stands_before deserialize d (unprocessed c' (pb_rest batch')) (tc_deser c')))"
proof -
  let ?own = "\<lambda>s. held (stack_terminal s)" and ?inv = "\<lambda>hp s. handoff_sinv hp (stack_terminal s)"
    and ?env = "sink_env api encode buffered finish code"
  have r: "ready ?own ?inv F (tc_ops c) w" using assms(3-5) by (simp add: ready_def hd_of_def)
  obtain out batch' c' w' where pb: "push_batch deserialize (op_stack f p i g t ?env) batch start c w = Some (out, batch', c', w')"
    using stack.push_batch_total [OF r assms(6), of deserialize f p i g t api encode buffered finish code start] by auto
  note ok = stack.push_batch_ok [OF pb assms(6,2) r assms(7,8)]
  have flow: "\<exists>raws d rs os.
      unprocessed (begin_push c) (pb_rest batch) = raws @ unprocessed c' (pb_rest batch') \<and>
      payloads_give deserialize (tc_policy c) (pb_ack batch) raws (tc_deser c) rs d \<and>
      gives_all (stack_gives f p i g t) rs (stack_closures (tc_ops c)) os (stack_closures (tc_ops c')) \<and>
      pushed_to (handoff_stage ?env) os (hd_of c) w (hd_of c') w' \<and> stored ?env os (hd_of c) w (hd_of c') w' \<and>
      stands_before deserialize d (unprocessed c' (pb_rest batch')) (tc_deser c')"
    if "\<not> (\<exists>e. out = FatalOutcome e)"
  proof -
    from ok that have "ho_fatal (hd_of c') = None" by (cases out) (auto simp: stack_latched_def hd_of_def)
    moreover have "parked_inv (ho_shards (hd_of c)) (ho_parked (hd_of c))"
      using assms(3) by (simp add: handoff_sinv_def handoff_inv_def)
    moreover have "he_try_send ?env = try_send api" by (simp add: sink_env_def)
    ultimately have "pushed_to (handoff_stage ?env) os (hd_of c) w (hd_of c') w' \<Longrightarrow> stored ?env os (hd_of c) w (hd_of c') w'" for os
      using handoff_pushed_stored by blast
    with fstack.push_batch_progress [OF pb assms(2) that TrueI] show ?thesis
      unfolding progress_def delivered_def hd_of_def by blast
  qed
  from ok flow pb show ?thesis
    unfolding ready_def hd_of_def by (cases out) (simp, blast)+
qed

section \<open>A batch that is delivered\<close>

text \<open>One payload, which the operators keep and double; the second row fills the chunk and seals it.\<close>

definition demo_kept :: payload_batch where
  "demo_kept = \<lparr>pb_ack = 0, pb_rest = [demo_raw [1]]\<rparr>"

lemma demo_route:
  "rm_key_hash (meta r) = None \<Longrightarrow> rm_partition (meta r) = PartitionId 0 \<Longrightarrow>
     route_record_meta key_hash_route r (Suc (Suc 0)) = Some 0"
  by (simp add: route_record_meta_def key_hash_route_def)

lemmas demo_run_defs = push_batch_def begin_push_def typed_chain_new_def push_replay_def deser_step_def
  ops_emit_run_def deser_result_def deser_finish_def after_step_def end_push_def publish_deser_def latch_flow_def
  op_stack_def map_stage_def filter_stage_def inspect_stage_def flat_map_stage_def try_map_stage_def handoff_stage_def
  map_push_def filter_push_def inspect_push_def flat_map_push_def emitter_run_def try_map_push_def record_map_def
  try_map_take_fatal_def into_def clone_ack_def drop_rec_def handoff_push_def handoff_relieve_def handoff_take_fatal_def
  push_live_def push_encoded_def hold_batch_def add_row_def shard_buf_new_def set_shard_def seal_and_send_def
  seal_finish_def seal_frame_def seal_send_def seal_chunk_def try_send_def set_depth_def upd_metrics_def ackset_push_def

lemma demo_kept_run:
  "\<exists>b' c' w'. push_batch demo_deser demo_stack demo_kept 0 demo_chain demo_world = Some (Done, b', c', w')"
  by (simp add: demo_run_defs Let_def demo_chain_def demo_handoff_eq demo_kept_def demo_deser_def demo_raw_def raw_meta_def
      demo_facts demo_world_eq demo_api_def demo_route sink_env_def)

theorem chain_no_silent_drop_witness:
  "\<exists>batch' c' w' r. push_batch demo_deser demo_stack demo_kept 0 demo_chain demo_world = Some (Done, batch', c', w') \<and>
     handoff_sinv (w_heap w') (stack_terminal (tc_ops c')) (w_queues w') \<and> payload r = [1] \<and>
     stored (sink_env demo_api (\<lambda>e r buf. (None, e, buf @ payload r)) (\<lambda>e. 0) (\<lambda>e buf. (None, e, buf)) (\<lambda>k buf. (Inr buf, k)))
       [r, r] demo_handoff demo_world (stack_terminal (tc_ops c')) w'"
proof -
  let ?env = "sink_env demo_api (\<lambda>e r buf. (None, e, buf @ payload r)) (\<lambda>e. 0) (\<lambda>e buf. (None, e, buf)) (\<lambda>k buf. (Inr buf, k))"
    and ?r = "with_ack 0 ([1], raw_meta (demo_raw [1]))"
  have inv: "handoff_sinv (w_heap demo_world) (stack_terminal (tc_ops demo_chain)) (w_queues demo_world)"
    using demo_facts(2,4) by (simp add: handoff_sinv_def demo_handoff_eq)
  have h: "heap_ok (w_heap demo_world) (held (stack_terminal (tc_ops demo_chain)) + {#0, 0#})"
    using demo_heap_ok(1) by (simp add: demo_facts)
  have "pb_ack demo_kept \<in># {#0, 0#}" by (simp add: demo_kept_def)
  note no_drop = chain_no_silent_drop [OF demo_not_ready_first inv h demo_heap_ok(2) this demo_chain_simps(2,3)]
  obtain b' c' w' where run: "push_batch demo_deser demo_stack demo_kept 0 demo_chain demo_world = Some (Done, b', c', w')"
    using demo_kept_run by blast
  from no_drop [where start = 0 and api = demo_api and f = "\<lambda>x g. (x, g)" and p = "\<lambda>x g. (hd x \<noteq> 0, g)"
      and i = "\<lambda>x g. g" and g = "\<lambda>x g. Emit x (\<lambda>fl. Emit x (\<lambda>fl. Return g))" and t = "\<lambda>x g. (Inr x :: string + bytes, g)"
      and encode = "\<lambda>e r buf. (None, e, buf @ payload r)" and buffered = "\<lambda>e. 0" and finish = "\<lambda>e buf. (None, e, buf)"
      and code = "\<lambda>k buf. (Inr buf, k)"]
  obtain raws d rs os where sinv: "handoff_sinv (w_heap w') (stack_terminal (tc_ops c')) (w_queues w')"
      and u: "unprocessed (begin_push demo_chain) (pb_rest demo_kept) = raws @ unprocessed c' (pb_rest b')"
      and p: "payloads_give demo_deser (tc_policy demo_chain) (pb_ack demo_kept) raws (tc_deser demo_chain) rs d"
      and g: "gives_all (stack_gives (\<lambda>x g. (x, g)) (\<lambda>x g. (hd x \<noteq> 0, g)) (\<lambda>x g. g)
          (\<lambda>x g. Emit x (\<lambda>fl. Emit x (\<lambda>fl. Return g))) (\<lambda>x g. (Inr x :: string + bytes, g)))
          rs (stack_closures (tc_ops demo_chain)) os (stack_closures (tc_ops c'))"
      and st: "stored ?env os demo_handoff demo_world (stack_terminal (tc_ops c')) w'"
    unfolding run option.inject prod.inject demo_chain_simps(1) by (elim exE conjE) (simp only: push_outcome.case, blast)
  have "unprocessed c' (pb_rest b') = []" using push_batch_resumes [OF run] by (simp add: resumes_def unprocessed_def)
  with u have "raws = [demo_raw [1]]"
    by (simp add: demo_kept_def unprocessed_def begin_push_def demo_chain_def typed_chain_new_def)
  with p have "rs = [?r]" by (auto simp: demo_deser_def outs_Emit demo_raw_def demo_kept_def)
  with g have "os = [?r, ?r]"
    by (auto simp: stack_gives_def map_gives_def filter_gives_def inspect_gives_def flat_map_gives_def try_map_gives_def
        sink_gives_def outs_Emit with_ack_def record_map_def)
  with sinv st run show ?thesis by (intro exI [of _ b'] exI [of _ c'] exI [of _ w'] exI [of _ ?r]) (simp add: with_ack_def)
qed

end
