(* ===== verification/Split_Terminal.thy ===== *)
theory Split_Terminal
  imports Chain_Flow
begin

text \<open>
  The split terminal, \<open>crates/spate-core/src/ops/split.rs\<close>: a closure sends each record to any of
  several branches, each a terminal stage of its own with its own queues.

  A branch is a trait object, a record of the operations of its stage; the closure names it by
  index. A handle carries the row type of its branch, which the code checks when it finds the
  branch: here the rows of all branches are one type and \<open>fam i\<close> says which of them branch \<open>i\<close> takes.
  A branch has its own queues; the in-flight budget, which the pipeline builder makes once and all
  its sinks charge, and the acknowledgment heap are everybody's. So the split's queues are the list
  of the branches' queues, and a branch works on the view of the world that has its own.

  The split is shown to keep the contract of a stage, and of a tracked stage. Everything \<open>Chain\<close> and
  \<open>Chain_Flow\<close> prove of a chain in these contracts then holds of a chain that ends in a split.
\<close>

section \<open>Branches and their view of the world\<close>

type_synonym 'q targets = "'q list"

definition branch_world :: "nat \<Rightarrow> 'q targets world \<Rightarrow> 'q world" where
  "branch_world i w =
     \<lparr>w_heap = w_heap w, w_budget = w_budget w, w_queues = w_queues w ! i, w_now = w_now w\<rparr>"

definition put_branch :: "nat \<Rightarrow> 'q world \<Rightarrow> 'q targets world \<Rightarrow> 'q targets world" where
  "put_branch i v w =
     w\<lparr>w_heap := w_heap v, w_budget := w_budget v, w_queues := (w_queues w)[i := w_queues v], w_now := w_now v\<rparr>"

section \<open>The emitter\<close>

record 'b split_emitter =
  se_branches :: "'b list"
  se_emitted :: nat
  se_flow :: flow
  se_latched :: bool

text \<open>
  \<open>SplitEmitter::emit\<close>. \<open>full\<close> reads a branch's fatal slot. A handle that names no branch, or one of
  another row type, panics even after a branch latched.
\<close>

definition split_emit ::
  "(nat \<Rightarrow> 'r \<Rightarrow> bool) \<Rightarrow> (nat \<Rightarrow> ('r, 'b, 'q) stage_ops) \<Rightarrow> ('b \<Rightarrow> bool) \<Rightarrow> record_meta \<Rightarrow> ack_ref \<Rightarrow> nat \<times> 'r
     \<Rightarrow> 'b split_emitter \<Rightarrow> 'q targets world \<Rightarrow> ('b split_emitter \<times> 'q targets world) option" where
  "split_emit fam bops full m a x em w =
     (case x of (idx, row) \<Rightarrow>
        if idx \<ge> length (se_branches em) \<or> \<not> fam idx row then None
        else if se_latched em then Some (em, w)
        else case st_push (bops idx) \<lparr>payload = row, meta = m, rec_ack = a\<rparr> (se_branches em ! idx)
                    (branch_world idx (clone_ack a w)) of
               None \<Rightarrow> None
             | Some (fl, b, v) \<Rightarrow>
                 Some (em\<lparr>se_branches := (se_branches em)[idx := b], se_latched := full b,
                          se_emitted := se_emitted em + 1, se_flow := latch_flow (se_flow em) fl\<rparr>,
                       put_branch idx v w))"

text \<open>
  The closure's calls of \<open>emit\<close>, which tells it nothing back: what it emits is a list.
\<close>

primrec split_emits ::
  "(nat \<Rightarrow> 'r \<Rightarrow> bool) \<Rightarrow> (nat \<Rightarrow> ('r, 'b, 'q) stage_ops) \<Rightarrow> ('b \<Rightarrow> bool) \<Rightarrow> record_meta \<Rightarrow> ack_ref
     \<Rightarrow> (nat \<times> 'r) list \<Rightarrow> 'b split_emitter \<Rightarrow> 'q targets world \<Rightarrow> ('b split_emitter \<times> 'q targets world) option" where
  "split_emits fam bops full m a [] em w = Some (em, w)"
| "split_emits fam bops full m a (x # xs) em w =
     (case split_emit fam bops full m a x em w of
        None \<Rightarrow> None
      | Some (em', w') \<Rightarrow> split_emits fam bops full m a xs em' w')"

section \<open>The terminal stage\<close>

record ('g, 'b) split_terminal =
  sp_route :: 'g
  sp_branches :: "'b list"
  sp_unmatched :: error_policy
  sp_meter :: op_meter
  sp_fatal :: fatal_slot
  sp_latched :: bool
  sp_component :: string

definition split_new :: "'g \<Rightarrow> 'b list \<Rightarrow> error_policy \<Rightarrow> op_meter \<Rightarrow> string \<Rightarrow> ('g, 'b) split_terminal" where
  "split_new route branches unmatched meter component =
     \<lparr>sp_route = route, sp_branches = branches, sp_unmatched = unmatched, sp_meter = meter, sp_fatal = None,
      sp_latched = False, sp_component = component\<rparr>"

text \<open>What a record that reached \<open>emitted\<close> branches does to the stage.\<close>

definition split_settle :: "nat \<Rightarrow> ('g, 'b) split_terminal \<Rightarrow> ('g, 'b) split_terminal" where
  "split_settle emitted s =
     (if emitted = 0 then
        (case sp_unmatched s of
           Skip \<Rightarrow> s\<lparr>sp_meter := meter_unrouted (sp_meter s)\<rparr>
         | _ \<Rightarrow> s\<lparr>sp_meter := meter_fatal_error (sp_meter s),
                  sp_fatal := Some \<lparr>fe_component = sp_component s, fe_reason = ''record matched no split branch''\<rparr>\<rparr>)
      else s\<lparr>sp_meter := meter_out_n emitted (sp_meter s)\<rparr>)"

definition split_push ::
  "(nat \<Rightarrow> 'r \<Rightarrow> bool) \<Rightarrow> (nat \<Rightarrow> ('r, 'b, 'q) stage_ops) \<Rightarrow> ('b \<Rightarrow> bool)
     \<Rightarrow> ('a \<Rightarrow> record_meta \<Rightarrow> 'g \<Rightarrow> (nat \<times> 'r) list \<times> 'g) \<Rightarrow> 'a rec \<Rightarrow> ('g, 'b) split_terminal \<Rightarrow> 'q targets world
     \<Rightarrow> (flow \<times> ('g, 'b) split_terminal \<times> 'q targets world) option" where
  "split_push fam bops full route r s w =
     (let s1 = s\<lparr>sp_meter := meter_seen (sp_meter s)\<rparr>
      in if sp_fatal s1 \<noteq> None \<or> sp_latched s1 then Some (Continue, s1, drop_rec r w)
         else
           let (rows, g) = route (payload r) (meta r) (sp_route s1);
               em = \<lparr>se_branches = sp_branches s1, se_emitted = 0, se_flow = Continue, se_latched = False\<rparr>
           in case split_emits fam bops full (meta r) (rec_ack r) rows em w of
                None \<Rightarrow> None
              | Some (em', w') \<Rightarrow>
                  Some (se_flow em',
                        split_settle (se_emitted em')
                          (s1\<lparr>sp_route := g, sp_branches := se_branches em', sp_latched := se_latched em'\<rparr>),
                        drop_rec r w'))"

definition split_on_batch_end :: "(nat \<Rightarrow> ('r, 'b, 'q) stage_ops) \<Rightarrow> ('g, 'b) split_terminal \<Rightarrow> ('g, 'b) split_terminal" where
  "split_on_batch_end bops s =
     s\<lparr>sp_meter := meter_flush (sp_meter s),
       sp_branches := map (\<lambda>(i, b). st_on_batch_end (bops i) b) (List.enumerate 0 (sp_branches s))\<rparr>"

text \<open>Every branch's slot is drained; the lowest index wins, and a branch outranks the stage's own slot.\<close>

primrec take_branches :: "(nat \<Rightarrow> ('r, 'b, 'q) stage_ops) \<Rightarrow> nat \<Rightarrow> 'b list \<Rightarrow> fatal_error option \<times> 'b list" where
  "take_branches bops i [] = (None, [])"
| "take_branches bops i (b # bs) =
     (let (fatal, b') = st_take_fatal (bops i) b; (rest, bs') = take_branches bops (Suc i) bs
      in (if fatal = None then rest else fatal, b' # bs'))"

definition split_take_fatal ::
  "(nat \<Rightarrow> ('r, 'b, 'q) stage_ops) \<Rightarrow> ('g, 'b) split_terminal \<Rightarrow> fatal_error option \<times> ('g, 'b) split_terminal" where
  "split_take_fatal bops s =
     (let (earliest, bs) = take_branches bops 0 (sp_branches s);
          s1 = s\<lparr>sp_latched := False, sp_branches := bs\<rparr>
      in if earliest = None then (sp_fatal s1, s1\<lparr>sp_fatal := None\<rparr>) else (earliest, s1))"

text \<open>The loop over the branches of \<open>relieve\<close> and \<open>flush_terminal\<close>: all of them, whatever one answers.\<close>

primrec each_branch ::
  "(nat \<Rightarrow> 'b \<Rightarrow> 'q world \<Rightarrow> (flow \<times> 'b \<times> 'q world) option) \<Rightarrow> nat list \<Rightarrow> flow \<Rightarrow> 'b list \<Rightarrow> 'q targets world
     \<Rightarrow> (flow \<times> 'b list \<times> 'q targets world) option" where
  "each_branch f [] fl bs w = Some (fl, bs, w)"
| "each_branch f (i # is) fl bs w =
     (case f i (bs ! i) (branch_world i w) of
        None \<Rightarrow> None
      | Some (fl', b, v) \<Rightarrow> each_branch f is (if fl' = Blocked then Blocked else fl) (bs[i := b]) (put_branch i v w))"

definition split_relieve ::
  "(nat \<Rightarrow> ('r, 'b, 'q) stage_ops) \<Rightarrow> ('g, 'b) split_terminal \<Rightarrow> 'q targets world
     \<Rightarrow> (flow \<times> ('g, 'b) split_terminal \<times> 'q targets world) option" where
  "split_relieve bops s w =
     into (\<lambda>bs. s\<lparr>sp_branches := bs\<rparr>)
       (each_branch (\<lambda>i. st_relieve (bops i)) [0..<length (sp_branches s)] Continue (sp_branches s) w)"

definition split_flush_terminal ::
  "(nat \<Rightarrow> ('r, 'b, 'q) stage_ops) \<Rightarrow> ('g, 'b) split_terminal \<Rightarrow> 'q targets world
     \<Rightarrow> (flow \<times> ('g, 'b) split_terminal \<times> 'q targets world) option" where
  "split_flush_terminal bops s w =
     into (\<lambda>bs. s\<lparr>sp_branches := bs\<rparr>)
       (each_branch (\<lambda>i. st_flush_terminal (bops i)) [0..<length (sp_branches s)] Continue (sp_branches s) w)"

definition split_stage ::
  "(nat \<Rightarrow> 'r \<Rightarrow> bool) \<Rightarrow> (nat \<Rightarrow> ('r, 'b, 'q) stage_ops) \<Rightarrow> ('b \<Rightarrow> bool)
     \<Rightarrow> ('a \<Rightarrow> record_meta \<Rightarrow> 'g \<Rightarrow> (nat \<times> 'r) list \<times> 'g) \<Rightarrow> ('a, ('g, 'b) split_terminal, 'q targets) stage_ops" where
  "split_stage fam bops full route =
     \<lparr>st_push = split_push fam bops full route, st_on_batch_end = split_on_batch_end bops,
      st_take_fatal = split_take_fatal bops, st_relieve = split_relieve bops,
      st_flush_terminal = split_flush_terminal bops\<rparr>"

text \<open>The closure uses the handles of this split: it names its \<open>n\<close> branches, with rows of their types.\<close>

definition routes_within ::
  "nat \<Rightarrow> (nat \<Rightarrow> 'r \<Rightarrow> bool) \<Rightarrow> ('a \<Rightarrow> record_meta \<Rightarrow> 'g \<Rightarrow> (nat \<times> 'r) list \<times> 'g) \<Rightarrow> bool" where
  "routes_within n fam route \<longleftrightarrow> (\<forall>p m g. \<forall>x \<in> set (fst (route p m g)). fst x < n \<and> fam (fst x) (snd x))"

section \<open>Sums over the branches\<close>

definition over :: "('x \<Rightarrow> 'm multiset) \<Rightarrow> 'x list \<Rightarrow> 'm multiset" where
  "over f xs = sum_list (map f xs)"

definition beside :: "('x \<Rightarrow> 'm multiset) \<Rightarrow> nat \<Rightarrow> 'x list \<Rightarrow> 'm multiset" where
  "beside f i xs = over f (take i xs) + over f (drop (Suc i) xs)"

lemma over_at: "i < length xs \<Longrightarrow> over f xs = f (xs ! i) + beside f i xs"
  by (subst id_take_nth_drop [of i xs]) (simp_all add: over_def beside_def ac_simps)

lemma over_upd: "i < length xs \<Longrightarrow> over f (xs[i := x]) = f x + beside f i xs"
  by (simp add: over_def beside_def upd_conv_take_nth_drop ac_simps)

lemma branch_world_simps [simp]:
  "w_heap (branch_world i w) = w_heap w" "w_queues (branch_world i w) = w_queues w ! i"
  "branch_world i (clone_ack a w) = clone_ack a (branch_world i w)"
  by (simp_all add: branch_world_def clone_ack_def)

lemma put_branch_simps [simp]:
  "w_heap (put_branch i v w) = w_heap v"
  "w_queues (put_branch i v w) = (w_queues w)[i := w_queues v]"
  by (simp_all add: put_branch_def)

section \<open>The contract\<close>

lemma keeps_with:
  "keeps own sent sinv g F s w s' w' \<Longrightarrow> (P s \<Longrightarrow> P s') \<Longrightarrow> keeps own sent (\<lambda>hp s q. P s \<and> sinv hp s q) g F s w s' w'"
  by (auto simp: keeps_def)

text \<open>Every record reached a branch or was counted as unrouted.\<close>

definition routed_all :: "op_meter \<Rightarrow> bool" where
  "routed_all m \<longleftrightarrow> total_in m \<le> total_out m + total_dropped m"

lemma routed_all_simps:
  "routed_all m \<Longrightarrow> routed_all (meter_unrouted (meter_seen m))"
  "routed_all m \<Longrightarrow> 0 < n \<Longrightarrow> routed_all (meter_out_n n (meter_seen m))"
  "routed_all m \<Longrightarrow> routed_all (meter_flush m)"
  by (cases "om_handle m";
      simp add: routed_all_def total_in_def total_out_def total_dropped_def meter_defs meter_flush_def meter_publish_def)+

text \<open>
  What the split relies on: every branch is a stage, \<open>full\<close> says that it latched, and a flush does not
  empty a fatal slot.
\<close>

locale split_branches =
  fixes bops :: "nat \<Rightarrow> ('r, 'b, 'q) stage_ops"
    and own :: "'b \<Rightarrow> ack_ref multiset"
    and sent :: "'q \<Rightarrow> ack_ref multiset"
    and sinv :: "ack_heap \<Rightarrow> 'b \<Rightarrow> 'q \<Rightarrow> bool"
    and full :: "'b \<Rightarrow> bool"
    and books :: "'b \<Rightarrow> bool"
  assumes branch: "stage (bops i) own sent sinv full books"
    and flush_full: "st_flush_terminal (bops i) b v = Some (fl, b', v') \<Longrightarrow> full b \<Longrightarrow> full b'"
begin

definition owns :: "'b list \<Rightarrow> ack_ref multiset" where
  "owns = over own"

definition sends :: "'q targets \<Rightarrow> ack_ref multiset" where
  "sends = over sent"

definition holds :: "ack_heap \<Rightarrow> 'b list \<Rightarrow> 'q targets \<Rightarrow> bool" where
  "holds hp = list_all2 (sinv hp)"

definition any_full :: "'b list \<Rightarrow> bool" where
  "any_full bs \<longleftrightarrow> (\<exists>b \<in> set bs. full b)"

definition all_books :: "'b list \<Rightarrow> bool" where
  "all_books bs \<longleftrightarrow> (\<forall>b \<in> set bs. books b)"

text \<open>What a branch does to its own part it does to the whole.\<close>

lemma branch_keeps:
  assumes i: "i < length bs" and k: "keeps own sent sinv g (beside own i bs + F) (bs ! i) (branch_world i w) b v"
  shows "keeps owns sends holds g F bs w (bs[i := b]) (put_branch i v w)"
proof -
  {
    assume h: "heap_ok (w_heap w) (g + owns bs + F)" "outbox_ok (w_heap w)" "holds (w_heap w) bs (w_queues w)"
    have len: "length (w_queues w) = length bs" and at: "\<And>j. j < length bs \<Longrightarrow> sinv (w_heap w) (bs ! j) (w_queues w ! j)"
      using h(3) by (simp_all add: holds_def list_all2_conv_all_nth)
    have "heap_ok (w_heap (branch_world i w)) (g + own (bs ! i) + (beside own i bs + F))"
      using h(1) i by (simp add: owns_def over_at [OF i] ac_simps)
    then obtain G where G: "sent (w_queues v) = sent (w_queues (branch_world i w)) + G"
        "heap_ok (w_heap v) (own b + G + (beside own i bs + F))" "outbox_ok (w_heap v)"
        "heap_le (w_heap (branch_world i w)) (w_heap v)"
        "length (arena (w_heap v)) = length (arena (w_heap (branch_world i w)))" "sinv (w_heap v) b (w_queues v)"
      using keeps_D [OF k] h(2) at [OF i] by (metis branch_world_simps(1,2))
    have "sends (w_queues (put_branch i v w)) = sends (w_queues w) + G"
      using G(1) i len by (simp add: sends_def over_at [of i "w_queues w"] over_upd ac_simps)
    moreover have "heap_ok (w_heap (put_branch i v w)) (owns (bs[i := b]) + G + F)"
      using G(2) i by (simp add: owns_def over_upd ac_simps)
    moreover have "holds (w_heap v) (bs[i := b]) (w_queues (put_branch i v w))"
    proof -
      have "sinv (w_heap v) (bs[i := b] ! j) ((w_queues w)[i := w_queues v] ! j)" if j: "j < length bs" for j
        using G(4,6) len stage.sinv_mono [OF branch at [OF j]] j by (cases "i = j") simp_all
      then show ?thesis using len by (simp add: holds_def list_all2_conv_all_nth)
    qed
    ultimately have "(\<exists>G. sends (w_queues (put_branch i v w)) = sends (w_queues w) + G \<and>
          heap_ok (w_heap (put_branch i v w)) (owns (bs[i := b]) + G + F)) \<and>
        outbox_ok (w_heap (put_branch i v w)) \<and> heap_le (w_heap w) (w_heap (put_branch i v w)) \<and>
        length (arena (w_heap (put_branch i v w))) = length (arena (w_heap w)) \<and>
        holds (w_heap (put_branch i v w)) (bs[i := b]) (w_queues (put_branch i v w))"
      using G(3-5) by auto
  }
  then show ?thesis unfolding keeps_def by blast
qed

lemma branch_accounts:
  assumes "i < length bs" "accounts full books (bs ! i) b"
  shows "accounts any_full all_books bs (bs[i := b])"
proof -
  have "any_full (bs[i := b])" if full: "any_full bs"
  proof -
    obtain j where j: "j < length bs" "full (bs ! j)" using full by (auto simp: any_full_def in_set_conv_nth)
    then have "full (bs[i := b] ! j)" using assms by (cases "i = j") (simp_all add: accounts_def)
    with j(1) show ?thesis unfolding any_full_def by (metis length_list_update nth_mem)
  qed
  moreover have "all_books (bs[i := b]) \<or> any_full (bs[i := b])" if "all_books bs"
  proof -
    have "books b \<or> full b" using that assms by (auto simp: accounts_def all_books_def)
    moreover have "b \<in> set (bs[i := b])" using assms(1) by (simp add: set_update_memI)
    ultimately show ?thesis
      using that set_update_subset_insert [of bs i b] by (auto simp: all_books_def any_full_def)
  qed
  ultimately show ?thesis by (simp add: accounts_def)
qed

lemma holds_mono: "holds hp bs q \<Longrightarrow> heap_le hp hp' \<Longrightarrow> holds hp' bs q"
  unfolding holds_def by (erule list_all2_mono) (erule (1) stage.sinv_mono [OF branch])

text \<open>One emission.\<close>

lemma emit_keeps:
  assumes e: "split_emit fam bops full m a x em w = Some (em', w')" and a: "a \<in># F"
  shows "keeps owns sends holds {#} F (se_branches em) w (se_branches em') w'"
    and "accounts any_full all_books (se_branches em) (se_branches em')"
    and "(se_latched em \<longrightarrow> any_full (se_branches em)) \<longrightarrow> se_latched em' \<longrightarrow> any_full (se_branches em')"
proof -
  obtain i row where x: "x = (i, row)" by (cases x)
  have "keeps owns sends holds {#} F (se_branches em) w (se_branches em') w' \<and>
      accounts any_full all_books (se_branches em) (se_branches em') \<and>
      ((se_latched em \<longrightarrow> any_full (se_branches em)) \<longrightarrow> se_latched em' \<longrightarrow> any_full (se_branches em'))"
  proof (cases "se_latched em")
    case True
    with e x show ?thesis by (auto simp: split_emit_def intro: keeps_same split: if_splits)
  next
    case False
    let ?bs = "se_branches em" and ?r = "\<lparr>payload = row, meta = m, rec_ack = a\<rparr>"
    from False e x obtain fl b v where i: "i < length ?bs"
      and p: "st_push (bops i) ?r (?bs ! i) (clone_ack (rec_ack ?r) (branch_world i w)) = Some (fl, b, v)"
      and em': "se_branches em' = ?bs[i := b]" "se_latched em' = full b" "w' = put_branch i v w"
      by (auto simp: split_emit_def not_le split: if_splits option.splits prod.splits)
    have "keeps owns sends holds {#} F ?bs w (?bs[i := b]) (put_branch i v w)"
    proof (rule branch_keeps [OF i])
      show "keeps own sent sinv {#} (beside own i ?bs + F) (?bs ! i) (branch_world i w) b v"
        by (rule stage.emit_one [OF branch p]) (use a in simp)
    qed
    moreover have "accounts any_full all_books ?bs (?bs[i := b])"
      by (rule branch_accounts [OF i stage.push_accounts [OF branch p]])
    moreover have "any_full (?bs[i := b])" if "full b"
      using that i by (auto simp: any_full_def intro!: bexI [of _ b] set_update_memI)
    ultimately show ?thesis using em' by simp
  qed
  then show "keeps owns sends holds {#} F (se_branches em) w (se_branches em') w'"
    and "accounts any_full all_books (se_branches em) (se_branches em')"
    and "(se_latched em \<longrightarrow> any_full (se_branches em)) \<longrightarrow> se_latched em' \<longrightarrow> any_full (se_branches em')"
    by blast+
qed

lemma emits_keep:
  assumes "split_emits fam bops full m a xs em w = Some (em', w')" "a \<in># F"
  shows "keeps owns sends holds {#} F (se_branches em) w (se_branches em') w' \<and>
    accounts any_full all_books (se_branches em) (se_branches em') \<and>
    ((se_latched em \<longrightarrow> any_full (se_branches em)) \<longrightarrow> se_latched em' \<longrightarrow> any_full (se_branches em'))"
  using assms
proof (induction xs arbitrary: em w F)
  case (Cons x xs)
  from Cons.prems(1) obtain em1 w1 where 1: "split_emit fam bops full m a x em w = Some (em1, w1)"
    and 2: "split_emits fam bops full m a xs em1 w1 = Some (em', w')" by (auto split: option.splits)
  note e = emit_keeps [OF 1 Cons.prems(2)]
  have r: "keeps owns sends holds {#} (G + F) (se_branches em1) w1 (se_branches em') w' \<and>
    accounts any_full all_books (se_branches em1) (se_branches em') \<and>
    ((se_latched em1 \<longrightarrow> any_full (se_branches em1)) \<longrightarrow> se_latched em' \<longrightarrow> any_full (se_branches em'))" for G
    by (rule Cons.IH [OF 2]) (use Cons.prems(2) in simp)
  show ?case
    using keeps_trans [OF e(1)] accounts_trans [OF e(2)] e(3) r by blast
qed (auto intro: keeps_same)

lemma emit_total:
  assumes "heap_ok (w_heap w) (owns (se_branches em) + F)" "outbox_ok (w_heap w)"
    "holds (w_heap w) (se_branches em) (w_queues w)" "a \<in># F" "i < length (se_branches em)" "fam i row"
  shows "split_emit fam bops full m a (i, row) em w \<noteq> None"
proof -
  let ?bs = "se_branches em" and ?v = "branch_world i w"
  have "heap_ok (w_heap ?v) (own (?bs ! i) + (beside own i ?bs + F))" "outbox_ok (w_heap ?v)"
      "sinv (w_heap ?v) (?bs ! i) (w_queues ?v)" "a \<in># beside own i ?bs + F"
    using assms by (simp_all add: owns_def over_at [OF assms(5)] holds_def list_all2_conv_all_nth ac_simps)
  note c = stage.clone_ready [OF branch this]
  have "st_push (bops i) \<lparr>payload = row, meta = m, rec_ack = a\<rparr> (?bs ! i) (clone_ack a ?v) \<noteq> None"
    by (rule stage.push_total [OF branch _ c(2,4), where F = "beside own i ?bs + F"]) (use c(1) in simp)
  with assms(5,6) show ?thesis by (auto simp: split_emit_def)
qed

lemma emit_length: "split_emit fam bops full m a x em w = Some (em', w') \<Longrightarrow> length (se_branches em') = length (se_branches em)"
  by (auto simp: split_emit_def split: prod.splits if_splits option.splits)

lemma emits_total:
  assumes "heap_ok (w_heap w) (owns (se_branches em) + F)" "outbox_ok (w_heap w)"
    "holds (w_heap w) (se_branches em) (w_queues w)" "a \<in># F"
    "\<forall>x \<in> set xs. fst x < length (se_branches em) \<and> fam (fst x) (snd x)"
  shows "split_emits fam bops full m a xs em w \<noteq> None"
  using assms
proof (induction xs arbitrary: em w F)
  case (Cons x xs)
  obtain i row where x: "x = (i, row)" by (cases x)
  obtain em1 w1 where 1: "split_emit fam bops full m a x em w = Some (em1, w1)"
    using emit_total [OF Cons.prems(1-4), of i fam row m] Cons.prems(5) x by auto
  from keeps_D [OF emit_keeps(1) [OF 1 Cons.prems(4)], OF _ Cons.prems(2,3)] Cons.prems(1)
  obtain G where "heap_ok (w_heap w1) (owns (se_branches em1) + (G + F))" "outbox_ok (w_heap w1)"
    "holds (w_heap w1) (se_branches em1) (w_queues w1)" by (auto simp: ac_simps)
  from Cons.IH [OF this] Cons.prems(4,5) 1 emit_length [OF 1] show ?case by simp
qed simp

text \<open>A loop over distinct branches.\<close>

lemma each_keeps:
  assumes f: "\<And>i b v fl b' v' F. f i b v = Some (fl, b', v') \<Longrightarrow> keeps own sent sinv {#} F b v b' v'"
  shows "each_branch f is fl bs w = Some (fl', bs', w') \<Longrightarrow> \<forall>i \<in> set is. i < length bs \<Longrightarrow>
    keeps owns sends holds {#} F bs w bs' w'"
proof (induction "is" arbitrary: fl bs w F)
  case (Cons i "is")
  from Cons.prems(1) obtain fl1 b v where 1: "f i (bs ! i) (branch_world i w) = Some (fl1, b, v)"
    and 2: "each_branch f is (if fl1 = Blocked then Blocked else fl) (bs[i := b]) (put_branch i v w) = Some (fl', bs', w')"
    by (auto split: option.splits)
  have "keeps owns sends holds {#} F bs w (bs[i := b]) (put_branch i v w)"
    by (rule branch_keeps [OF _ f [OF 1]]) (use Cons.prems(2) in simp)
  moreover have "keeps owns sends holds {#} (G + F) (bs[i := b]) (put_branch i v w) bs' w'" for G
    by (rule Cons.IH [OF 2]) (use Cons.prems(2) in simp)
  ultimately show ?case by (rule keeps_trans)
qed (auto intro: keeps_same)

lemma each_total:
  assumes f: "\<And>i b v. sinv hp b (w_queues v) \<Longrightarrow> f i b v \<noteq> None"
  shows "distinct is \<Longrightarrow> length (w_queues w) = length bs \<Longrightarrow>
    \<forall>i \<in> set is. i < length bs \<and> sinv hp (bs ! i) (w_queues w ! i) \<Longrightarrow> each_branch f is fl bs w \<noteq> None"
proof (induction "is" arbitrary: fl bs w)
  case (Cons i "is")
  obtain fl1 b v where 1: "f i (bs ! i) (branch_world i w) = Some (fl1, b, v)"
    using f [of "bs ! i" "branch_world i w" i] Cons.prems(3) by auto
  have "each_branch f is (if fl1 = Blocked then Blocked else fl) (bs[i := b]) (put_branch i v w) \<noteq> None"
    by (rule Cons.IH) (use Cons.prems in \<open>auto simp: nth_list_update\<close>)
  with 1 show ?case by simp
qed simp

lemma each_pointwise:
  assumes "each_branch f is fl bs w = Some (fl', bs', w')" "distinct is"
    "\<forall>i \<in> set is. i < length bs"
    and P: "\<And>i fl b v'. i \<in> set is \<Longrightarrow> \<exists>v. w_queues v = w_queues w ! i \<and> f i (bs ! i) v = Some (fl, b, v') \<Longrightarrow> P (bs ! i) b"
  shows "length bs' = length bs \<and> (\<forall>j < length bs. if j \<in> set is then P (bs ! j) (bs' ! j) else bs' ! j = bs ! j)"
  using assms
proof (induction "is" arbitrary: fl bs w)
  case (Cons i "is")
  from Cons.prems(1) obtain fl1 b v where 1: "f i (bs ! i) (branch_world i w) = Some (fl1, b, v)"
    and 2: "each_branch f is (if fl1 = Blocked then Blocked else fl) (bs[i := b]) (put_branch i v w) = Some (fl', bs', w')"
    by (auto split: option.splits)
  have Pi: "P (bs ! i) b" using 1 by (intro Cons.prems(4) [of i fl1 b v] exI [of _ "branch_world i w"]) simp_all
  have IH: "length bs' = length (bs[i := b]) \<and>
      (\<forall>j < length (bs[i := b]). if j \<in> set is then P (bs[i := b] ! j) (bs' ! j) else bs' ! j = bs[i := b] ! j)"
  proof (rule Cons.IH [OF 2])
    fix k fl b' v'
    assume k: "k \<in> set is"
      and ex: "\<exists>u. w_queues u = w_queues (put_branch i v w) ! k \<and> f k (bs[i := b] ! k) u = Some (fl, b', v')"
    have "i \<noteq> k" using k Cons.prems(2) by auto
    with ex k Cons.prems(4) [of k fl b' v'] show "P (bs[i := b] ! k) b'" by simp
  qed (use Cons.prems in simp_all)
  show ?case
  proof (intro conjI allI impI)
    show "length bs' = length bs" using IH by simp
    fix j assume "j < length bs"
    with IH Pi Cons.prems(2) show "if j \<in> set (i # is) then P (bs ! j) (bs' ! j) else bs' ! j = bs ! j"
      by (cases "i = j") (auto simp: nth_list_update)
  qed
qed simp

lemma take_branches_nth:
  "take_branches bops i bs = (x, bs') \<Longrightarrow> length bs' = length bs \<and>
     (\<forall>j < length bs. bs' ! j = snd (st_take_fatal (bops (i + j)) (bs ! j))) \<and>
     (x = None \<longleftrightarrow> (\<forall>j < length bs. fst (st_take_fatal (bops (i + j)) (bs ! j)) = None))"
proof (induction bs arbitrary: i x bs')
  case (Cons b bs)
  obtain y bs1 where t: "take_branches bops (Suc i) bs = (y, bs1)" by fastforce
  obtain z b1 where z: "st_take_fatal (bops i) b = (z, b1)" by fastforce
  have "x = (if z = None then y else z)" "bs' = b1 # bs1" using Cons.prems t z by (simp_all add: Let_def)
  with Cons.IH [OF t] z show ?case by (auto simp: All_less_Suc2)
qed simp

lemma batch_end_nth:
  assumes "bs' = map (\<lambda>(i, b). st_on_batch_end (bops i) b) (List.enumerate 0 bs)"
  shows "length bs' = length bs" "j < length bs \<Longrightarrow> bs' ! j = st_on_batch_end (bops j) (bs ! j)"
  using assms by (simp_all add: nth_enumerate_eq)

lemma pointwise_same:
  assumes "length bs' = length bs" "\<And>j. j < length bs \<Longrightarrow> own (bs' ! j) = own (bs ! j)"
    "\<And>j hp q. j < length bs \<Longrightarrow> sinv hp (bs ! j) q \<Longrightarrow> sinv hp (bs' ! j) q"
  shows "owns bs' = owns bs" "holds hp bs q \<Longrightarrow> holds hp bs' q"
proof -
  have "map own bs' = map own bs" using assms(1,2) by (intro nth_equalityI) simp_all
  then show "owns bs' = owns bs" by (simp add: owns_def over_def)
  show "holds hp bs' q" if "holds hp bs q" using that assms(1,3) by (simp add: holds_def list_all2_conv_all_nth)
qed

lemma any_full_nth: "any_full bs \<longleftrightarrow> (\<exists>j < length bs. full (bs ! j))"
  unfolding any_full_def by (metis in_set_conv_nth)

lemma all_books_nth: "all_books bs \<longleftrightarrow> (\<forall>j < length bs. books (bs ! j))"
  unfolding all_books_def by (metis in_set_conv_nth)

definition sp_full :: "('g, 'b) split_terminal \<Rightarrow> bool" where
  "sp_full s \<longleftrightarrow> sp_fatal s \<noteq> None \<or> any_full (sp_branches s)"

definition sp_books :: "('g, 'b) split_terminal \<Rightarrow> bool" where
  "sp_books s \<longleftrightarrow> routed_all (sp_meter s) \<and> all_books (sp_branches s) \<and> (sp_latched s \<longrightarrow> any_full (sp_branches s))"

lemma split_push_cases:
  assumes "split_push fam bops full route r s w = Some (fl, s', w')"
  obtains (latched) "sp_fatal s \<noteq> None \<or> sp_latched s" "s' = s\<lparr>sp_meter := meter_seen (sp_meter s)\<rparr>" "w' = drop_rec r w"
  | (routed) rows g em w1 where "sp_fatal s = None" "\<not> sp_latched s" "route (payload r) (meta r) (sp_route s) = (rows, g)"
      "split_emits fam bops full (meta r) (rec_ack r) rows
         \<lparr>se_branches = sp_branches s, se_emitted = 0, se_flow = Continue, se_latched = False\<rparr> w = Some (em, w1)"
      "s' = split_settle (se_emitted em) (s\<lparr>sp_meter := meter_seen (sp_meter s), sp_route := g, sp_branches := se_branches em,
         sp_latched := se_latched em\<rparr>)" "w' = drop_rec r w1"
  using assms by (auto simp: split_push_def Let_def split: if_splits prod.splits option.splits)

lemma split_settle_branches [simp]: "sp_branches (split_settle n s) = sp_branches s" "sp_latched (split_settle n s) = sp_latched s"
  by (simp_all add: split_settle_def split: error_policy.split)

lemma drop_keeps: "keeps owns sends holds {#rec_ack r#} F bs w bs (drop_rec r w)"
  by (rule keeps_drop_rec) (simp_all add: holds_mono)

lemma split_push_keeps:
  assumes "split_push fam bops full route r s w = Some (fl, s', w')"
  shows "keeps owns sends holds {#rec_ack r#} F (sp_branches s) w (sp_branches s') w'"
  using assms
proof (cases rule: split_push_cases)
  case latched
  then show ?thesis using drop_keeps by simp
next
  case (routed rows g em w1)
  let ?F = "{#rec_ack r#} + F"
  have 1: "keeps owns sends holds {#} ?F (sp_branches s) w (se_branches em) w1"
    using emits_keep [OF routed(4), of ?F] by simp
  from keeps_move [OF 1 drop_keeps] routed(5,6) show ?thesis by simp
qed

lemma split_push_accounts:
  assumes "split_push fam bops full route r s w = Some (fl, s', w')"
  shows "accounts sp_full sp_books s s'"
  using assms
proof (cases rule: split_push_cases)
  case latched
  then show ?thesis by (auto simp: accounts_def sp_full_def sp_books_def)
next
  case (routed rows g em w1)
  have e: "accounts any_full all_books (sp_branches s) (se_branches em)" "se_latched em \<longrightarrow> any_full (se_branches em)"
    using emits_keep [OF routed(4), of "{#rec_ack r#}"] by simp_all
  have "sp_books s \<longrightarrow> routed_all (sp_meter s') \<or> sp_fatal s' \<noteq> None"
    using routed(5) routed_all_simps(1,2) by (auto simp: split_settle_def sp_books_def split: error_policy.split)
  with e routed(1,2,5) show ?thesis
    by (auto simp: accounts_def sp_full_def sp_books_def split_settle_def split: error_policy.split)
qed

lemma emits_length: "split_emits fam bops full m a xs em w = Some (em', w') \<Longrightarrow> length (se_branches em') = length (se_branches em)"
  by (induction xs arbitrary: em w) (auto split: option.splits dest: emit_length)

lemma split_push_length:
  "split_push fam bops full route r s w = Some (fl, s', w') \<Longrightarrow> length (sp_branches s') = length (sp_branches s)"
  by (erule split_push_cases) (auto dest: emits_length)

text \<open>The loops of \<open>relieve\<close> and \<open>flush_terminal\<close> over all branches.\<close>

lemma each_all:
  assumes "each_branch f [0..<length bs] fl bs w = Some (fl', bs', w')"
    and "\<And>i fl b v v'. i < length bs \<Longrightarrow> w_queues v = w_queues w ! i \<Longrightarrow> f i (bs ! i) v = Some (fl, b, v') \<Longrightarrow> P (bs ! i) b"
  shows "length bs' = length bs \<and> (\<forall>j < length bs. P (bs ! j) (bs' ! j))"
proof -
  have "length bs' = length bs \<and> (\<forall>j < length bs. if j \<in> set [0..<length bs] then P (bs ! j) (bs' ! j) else bs' ! j = bs ! j)"
    by (rule each_pointwise [OF assms(1)]) (use assms(2) in auto)
  then show ?thesis by simp
qed

lemma split_relieve_keeps:
  assumes "split_relieve bops s w = Some (fl, s', w')"
  shows "keeps owns sends holds {#} F (sp_branches s) w (sp_branches s') w'"
proof -
  from assms obtain bs where "each_branch (\<lambda>i. st_relieve (bops i)) [0..<length (sp_branches s)] Continue (sp_branches s) w
      = Some (fl, bs, w')" "s' = s\<lparr>sp_branches := bs\<rparr>" by (auto simp: split_relieve_def into_Some)
  with each_keeps [OF stage.relieve_keeps [OF branch] this(1)] show ?thesis by simp
qed

lemma split_flush_keeps:
  assumes "split_flush_terminal bops s w = Some (fl, s', w')"
  shows "keeps owns sends holds {#} F (sp_branches s) w (sp_branches s') w'"
proof -
  from assms obtain bs where "each_branch (\<lambda>i. st_flush_terminal (bops i)) [0..<length (sp_branches s)] Continue (sp_branches s) w
      = Some (fl, bs, w')" "s' = s\<lparr>sp_branches := bs\<rparr>" by (auto simp: split_flush_terminal_def into_Some)
  with each_keeps [OF stage.flush_keeps [OF branch] this(1)] show ?thesis by simp
qed

lemma each_length: "each_branch f is fl bs w = Some (fl', bs', w') \<Longrightarrow> length bs' = length bs"
  by (induction "is" arbitrary: fl bs w) (auto split: option.splits)

lemma split_push_total:
  assumes route: "\<And>x. x \<in> set (fst (route (payload r) (meta r) (sp_route s))) \<Longrightarrow>
      fst x < length (sp_branches s) \<and> fam (fst x) (snd x)"
    and h: "heap_ok (w_heap w) ({#rec_ack r#} + owns (sp_branches s) + F)" "outbox_ok (w_heap w)"
      "holds (w_heap w) (sp_branches s) (w_queues w)"
  shows "split_push fam bops full route r s w \<noteq> None"
proof -
  obtain rows g where rg: "route (payload r) (meta r) (sp_route s) = (rows, g)" by fastforce
  have "split_emits fam bops full (meta r) (rec_ack r) rows
      \<lparr>se_branches = sp_branches s, se_emitted = 0, se_flow = Continue, se_latched = False\<rparr> w \<noteq> None"
    using h route rg by (intro emits_total [where F = "{#rec_ack r#} + F"]) (auto simp: ac_simps)
  with rg show ?thesis by (auto simp: split_push_def Let_def)
qed

lemma split_loops_total:
  assumes "holds hp (sp_branches s) (w_queues w)"
  shows "split_relieve bops s w \<noteq> None" "split_flush_terminal bops s w \<noteq> None"
proof -
  have at: "length (w_queues w) = length (sp_branches s)"
    "\<forall>i \<in> set [0..<length (sp_branches s)]. i < length (sp_branches s) \<and> sinv hp (sp_branches s ! i) (w_queues w ! i)"
    using assms by (simp_all add: holds_def list_all2_conv_all_nth)
  show "split_relieve bops s w \<noteq> None" "split_flush_terminal bops s w \<noteq> None"
    using each_total [OF stage.relieve_total [OF branch] distinct_upt at] each_total [OF stage.flush_total [OF branch] distinct_upt at]
    by (simp_all add: split_relieve_def split_flush_terminal_def)
qed

lemma split_relieve_same:
  assumes inv: "holds hp (sp_branches s) (w_queues w)" and p: "split_relieve bops s w = Some (fl, s', w')"
  shows "sp_full s' = sp_full s \<and> sp_books s' = sp_books s"
proof -
  let ?bs = "sp_branches s"
  from p obtain bs where e: "each_branch (\<lambda>i. st_relieve (bops i)) [0..<length ?bs] Continue ?bs w = Some (fl, bs, w')"
    "s' = s\<lparr>sp_branches := bs\<rparr>" by (auto simp: split_relieve_def into_Some)
  have "length bs = length ?bs \<and> (\<forall>j < length ?bs. full (bs ! j) = full (?bs ! j) \<and> books (bs ! j) = books (?bs ! j))"
  proof (rule each_all [OF e(1)])
    fix i fl b v v'
    assume "i < length ?bs" "w_queues v = w_queues w ! i" and r: "st_relieve (bops i) (?bs ! i) v = Some (fl, b, v')"
    then have "sinv hp (?bs ! i) (w_queues v)" using inv by (simp add: holds_def list_all2_conv_all_nth)
    from stage.relieve_same [OF branch this r] show "full b = full (?bs ! i) \<and> books b = books (?bs ! i)" .
  qed
  with e(2) show ?thesis by (auto simp: sp_full_def sp_books_def any_full_nth all_books_nth)
qed

lemma split_flush_books:
  assumes p: "split_flush_terminal bops s w = Some (fl, s', w')" and b: "sp_books s"
  shows "sp_books s'"
proof -
  let ?bs = "sp_branches s"
  from p obtain bs where e: "each_branch (\<lambda>i. st_flush_terminal (bops i)) [0..<length ?bs] Continue ?bs w = Some (fl, bs, w')"
    "s' = s\<lparr>sp_branches := bs\<rparr>" by (auto simp: split_flush_terminal_def into_Some)
  have "length bs = length ?bs \<and> (\<forall>j < length ?bs. (full (?bs ! j) \<longrightarrow> full (bs ! j)) \<and> (books (?bs ! j) \<longrightarrow> books (bs ! j)))"
    by (rule each_all [OF e(1)]) (use stage.flush_books [OF branch] flush_full in blast)
  with b e(2) show ?thesis by (auto simp: sp_books_def any_full_nth all_books_nth)
qed

text \<open>
  With a branch's error reported, the stage's own may stay behind; without one the slots are all empty.
\<close>

lemma split_fatal_same:
  assumes "split_take_fatal bops s = (x, s')"
  shows "owns (sp_branches s') = owns (sp_branches s)" "length (sp_branches s') = length (sp_branches s)"
    "holds hp (sp_branches s) q \<Longrightarrow> holds hp (sp_branches s') q" "x = None \<longleftrightarrow> \<not> sp_full s" "x = None \<Longrightarrow> \<not> sp_full s'"
    "sp_books s \<Longrightarrow> sp_books s'"
proof -
  let ?bs = "sp_branches s"
  obtain y bs where t: "take_branches bops 0 ?bs = (y, bs)" by fastforce
  have s': "sp_branches s' = bs" "sp_meter s' = sp_meter s" "\<not> sp_latched s'" "x = (if y = None then sp_fatal s else y)"
    "sp_fatal s' = (if y = None then None else sp_fatal s)"
    using assms t by (auto simp: split_take_fatal_def Let_def split: if_splits)
  note nth = take_branches_nth [OF t]
  have same: "own (bs ! j) = own (?bs ! j)" "sinv hp (?bs ! j) q \<Longrightarrow> sinv hp (bs ! j) q"
    "fst (st_take_fatal (bops j) (?bs ! j)) = None \<longleftrightarrow> \<not> full (?bs ! j)"
    "fst (st_take_fatal (bops j) (?bs ! j)) = None \<Longrightarrow> \<not> full (bs ! j)" "books (?bs ! j) \<Longrightarrow> books (bs ! j)"
    if "j < length ?bs" for j hp q
    using stage.fatal_same [OF branch, of j "?bs ! j" "fst (st_take_fatal (bops j) (?bs ! j))" "bs ! j"] nth that by auto
  have "y = None \<longleftrightarrow> \<not> any_full ?bs" using nth same(3) by (auto simp: any_full_nth)
  then show "x = None \<longleftrightarrow> \<not> sp_full s" using s'(4) by (auto simp: sp_full_def)
  show "\<not> sp_full s'" if "x = None" using that s' nth same(4) by (auto simp: sp_full_def any_full_nth split: if_splits)
  show "sp_books s'" if "sp_books s" using that s' nth same(5) by (simp add: sp_books_def all_books_nth)
  show "owns (sp_branches s') = owns ?bs" "length (sp_branches s') = length ?bs"
    "holds hp ?bs q \<Longrightarrow> holds hp (sp_branches s') q"
    using pointwise_same [of bs ?bs] nth same(1,2) s'(1) by auto
qed

lemma split_end_same:
  assumes "s' = split_on_batch_end bops s"
  shows "owns (sp_branches s') = owns (sp_branches s)" "length (sp_branches s') = length (sp_branches s)"
    "holds hp (sp_branches s) q \<Longrightarrow> holds hp (sp_branches s') q" "sp_full s' = sp_full s" "sp_books s \<Longrightarrow> sp_books s'"
proof -
  let ?bs = "sp_branches s"
  define bs where "bs = map (\<lambda>(i, b). st_on_batch_end (bops i) b) (List.enumerate 0 ?bs)"
  have s': "sp_branches s' = bs" "sp_meter s' = meter_flush (sp_meter s)" "sp_latched s' = sp_latched s" "sp_fatal s' = sp_fatal s"
    using assms by (simp_all add: split_on_batch_end_def bs_def)
  note nth = batch_end_nth [OF bs_def]
  have same: "own (bs ! j) = own (?bs ! j)" "sinv hp (?bs ! j) q \<Longrightarrow> sinv hp (bs ! j) q" "full (bs ! j) = full (?bs ! j)"
    "books (?bs ! j) \<Longrightarrow> books (bs ! j)" if "j < length ?bs" for j hp q
    using stage.end_same [OF branch, of j "?bs ! j"] nth that by simp_all
  have full: "any_full bs = any_full ?bs" unfolding any_full_nth using nth(1) same(3) by metis
  then show "sp_full s' = sp_full s" using s' by (simp add: sp_full_def)
  have "all_books ?bs \<Longrightarrow> all_books bs" using nth(1) same(4) by (simp add: all_books_nth)
  then show "sp_books s'" if "sp_books s" using that s' full routed_all_simps(3) by (simp add: sp_books_def)
  show "owns (sp_branches s') = owns ?bs" "length (sp_branches s') = length ?bs"
    "holds hp ?bs q \<Longrightarrow> holds hp (sp_branches s') q"
    using pointwise_same [of bs ?bs] nth(1) same(1,2) s'(1) by auto
qed

lemma split_is_stage:
  assumes route: "routes_within n fam route"
  shows "stage (split_stage fam bops full route) (\<lambda>s. owns (sp_branches s)) sends
    (\<lambda>hp s q. length (sp_branches s) = n \<and> holds hp (sp_branches s) q) sp_full sp_books"
proof -
  have lift: "keeps (\<lambda>s. owns (sp_branches s)) sends (\<lambda>hp s q. length (sp_branches s) = n \<and> holds hp (sp_branches s) q) g F s w s' w'"
    if "keeps owns sends holds g F (sp_branches s) w (sp_branches s') w'" "length (sp_branches s') = length (sp_branches s)"
    for g F w w' and s s' :: "('g, 'b) split_terminal"
    by (rule keeps_lift [where get = sp_branches, OF keeps_with [OF that(1)]]) (use that(2) in simp)
  show ?thesis
  proof (unfold_locales, goal_cases)
    case (1 hp s q hp') then show ?case using holds_mono by blast
  next
    case (2 w r s F) then show ?case using split_push_total [of route r s fam w F] route
      by (auto simp: split_stage_def routes_within_def)
  next
    case (3 r s w fl s' w' F)
    then show ?case using lift [OF split_push_keeps split_push_length] by (simp add: split_stage_def)
  next
    case (4 r s w fl s' w')
    then show ?case using split_push_accounts [of fam route r s w fl s' w'] by (simp add: split_stage_def accounts_def)
  next
    case (5 r s w fl s' w')
    then show ?case using split_push_accounts [of fam route r s w fl s' w'] by (simp add: split_stage_def accounts_def)
  next
    case (6 hp s w) then show ?case using split_loops_total(1) [of hp s w] by (simp add: split_stage_def del: not_None_eq)
  next
    case (7 s w fl s' w' F)
    then have p: "split_relieve bops s w = Some (fl, s', w')" by (simp add: split_stage_def)
    show ?case by (rule lift [OF split_relieve_keeps [OF p]]) (use p in \<open>auto simp: split_relieve_def into_Some dest: each_length\<close>)
  next
    case (8 hp s w fl s' w') then show ?case using split_relieve_same [of hp s w fl s' w'] by (simp add: split_stage_def)
  next
    case (9 hp s w) then show ?case using split_loops_total(2) [of hp s w] by (simp add: split_stage_def del: not_None_eq)
  next
    case (10 s w fl s' w' F)
    then have p: "split_flush_terminal bops s w = Some (fl, s', w')" by (simp add: split_stage_def)
    show ?case by (rule lift [OF split_flush_keeps [OF p]]) (use p in \<open>auto simp: split_flush_terminal_def into_Some dest: each_length\<close>)
  next
    case (11 s w fl s' w') then show ?case using split_flush_books [of s w fl s' w'] by (simp add: split_stage_def)
  next
    case (12 s x s')
    then have p: "split_take_fatal bops s = (x, s')" by (simp add: split_stage_def)
    show ?case using split_fatal_same [OF p] by auto
  next
    case (13 s) show ?case using split_end_same [where s = s, OF refl] by (auto simp: split_stage_def)
  qed
qed

end

section \<open>What the branches are given\<close>

text \<open>
  The rows the closure names for a record, each with its branch; none at all is an unmatched
  record, which passes only where the policy is to skip.
\<close>

definition split_gives ::
  "('a \<Rightarrow> record_meta \<Rightarrow> 'g \<Rightarrow> (nat \<times> 'r) list \<times> 'g) \<Rightarrow> ('a, 'g \<times> error_policy, nat \<times> 'r rec) gives" where
  "split_gives route r c os c' \<longleftrightarrow>
     (case route (payload r) (meta r) (fst c) of (rows, g) \<Rightarrow>
        c' = (g, snd c) \<and> (rows = [] \<longrightarrow> snd c = Skip) \<and>
        os = map (\<lambda>x. (fst x, with_ack (rec_ack r) (snd x, meta r))) rows)"

definition rows_for :: "nat \<Rightarrow> (nat \<times> 'r rec) list \<Rightarrow> 'r rec list" where
  "rows_for j os = map snd (filter (\<lambda>x. fst x = j) os)"

text \<open>Each branch was pushed its own rows.\<close>

definition branches_pushed ::
  "(nat \<Rightarrow> ('r, 'b, 'q) stage_ops) \<Rightarrow> (nat \<times> 'r rec) list \<Rightarrow> 'b list \<Rightarrow> 'q targets world \<Rightarrow> 'b list \<Rightarrow> 'q targets world \<Rightarrow> bool" where
  "branches_pushed bops os bs w bs' w' \<longleftrightarrow>
     (length (w_queues w) = length bs \<longrightarrow> length (w_queues w') = length bs \<and> length bs' = length bs \<and>
        (\<forall>j < length bs. pushed_to (bops j) (rows_for j os) (bs ! j) (branch_world j w) (bs' ! j) (branch_world j w')))"

lemma rows_for_simps [simp]:
  "rows_for j [] = []" "rows_for j ((i, r) # os) = (if i = j then r # rows_for j os else rows_for j os)"
  "rows_for j (os @ os') = rows_for j os @ rows_for j os'"
  by (simp_all add: rows_for_def)

lemma branches_pushed_trans:
  "branches_pushed bops os bs w bs1 w1 \<Longrightarrow> branches_pushed bops os' bs1 w1 bs' w' \<Longrightarrow> branches_pushed bops (os @ os') bs w bs' w'"
  by (auto simp: branches_pushed_def intro: pushed_trans)

lemma branches_pushed_each:
  assumes "w_queues w' = w_queues w" and "length bs' = length bs"
    and "\<And>j v. j < length bs \<Longrightarrow> pushed_to (bops j) [] (bs ! j) v (bs' ! j) v"
  shows "branches_pushed bops [] bs w bs' w'"
proof -
  have "pushed_to (bops j) [] (bs ! j) (branch_world j w) (bs' ! j) (branch_world j w')" if "j < length bs" for j
    using pushed_other [OF _ assms(3) [OF that], of "branch_world j w'" "branch_world j w"] assms(1) by simp
  then show ?thesis using assms(1,2) by (simp add: branches_pushed_def)
qed

lemma branches_pushed_same: "w_queues w' = w_queues w \<Longrightarrow> branches_pushed bops [] bs w bs w'"
  by (rule branches_pushed_each) (auto intro: pushed_nil)

lemma branches_pushed_one:
  assumes i: "i < length bs" and f: "pushed_to (bops i) rs (bs ! i) (branch_world i w) b v"
  shows "branches_pushed bops (map (Pair i) rs) bs w (bs[i := b]) (put_branch i v w)"
proof -
  have rs: "rows_for j (map (Pair i) rs) = (if j = i then rs else [])" for j by (induction rs) auto
  have "pushed_to (bops j) (rows_for j (map (Pair i) rs)) (bs ! j) (branch_world j w) (bs[i := b] ! j) (branch_world j (put_branch i v w))"
    if j: "j < length bs" and l: "length (w_queues w) = length bs" for j
  proof (cases "j = i")
    case True
    have "branch_world i (put_branch i v w) = v" using i l by (cases v) (simp add: branch_world_def put_branch_def)
    with f i True show ?thesis by (simp add: rs)
  next
    case False
    then have "pushed_to (bops j) [] (bs ! j) (branch_world j w) (bs ! j) (branch_world j (put_branch i v w))"
      by (intro pushed_same) simp
    with False show ?thesis by (simp add: rs)
  qed
  then show ?thesis by (simp add: branches_pushed_def)
qed

lemma each_fed:
  assumes f: "\<And>i b v fl b' v'. f i b v = Some (fl, b', v') \<Longrightarrow> pushed_to (bops i) [] b v b' v'"
  shows "each_branch f is fl bs w = Some (fl', bs', w') \<Longrightarrow> \<forall>i \<in> set is. i < length bs \<Longrightarrow> branches_pushed bops [] bs w bs' w'"
proof (induction "is" arbitrary: fl bs w)
  case Nil
  then show ?case by (simp add: branches_pushed_same)
next
  case (Cons i "is")
  from Cons.prems(1) obtain fl1 b v where 1: "f i (bs ! i) (branch_world i w) = Some (fl1, b, v)"
    and 2: "each_branch f is (if fl1 = Blocked then Blocked else fl) (bs[i := b]) (put_branch i v w) = Some (fl', bs', w')"
    by (auto split: option.splits)
  have "branches_pushed bops (map (Pair i) []) bs w (bs[i := b]) (put_branch i v w)"
    by (rule branches_pushed_one) (use Cons.prems(2) f [OF 1] in simp_all)
  moreover have "branches_pushed bops [] (bs[i := b]) (put_branch i v w) bs' w'"
    by (rule Cons.IH [OF 2]) (use Cons.prems(2) in simp)
  ultimately show ?case using branches_pushed_trans [of bops "[]" bs w _ _ "[]"] by simp
qed

locale tracked_branches = split_branches bops own sent sinv full books
  for bops :: "nat \<Rightarrow> ('r, 'b, 'q) stage_ops" and own sent sinv full books +
  assumes relieve_full: "st_relieve (bops i) b v = Some (fl, b', v') \<Longrightarrow> full b \<Longrightarrow> full b'"
begin

lemma emit_fed:
  assumes e: "split_emit fam bops full m a x em w = Some (em', w')" and n: "\<not> any_full (se_branches em')"
    and l: "se_latched em \<longrightarrow> any_full (se_branches em)"
  shows "branches_pushed bops [(fst x, with_ack a (snd x, m))] (se_branches em) w (se_branches em') w' \<and>
    se_emitted em' = se_emitted em + 1 \<and> (se_latched em' \<longrightarrow> any_full (se_branches em'))"
proof -
  obtain i row where x: "x = (i, row)" by (cases x)
  have ac: "accounts any_full all_books (se_branches em) (se_branches em')"
    and la: "se_latched em' \<longrightarrow> any_full (se_branches em')"
    using emit_keeps(2,3) [OF e, of "{#a#}"] l by auto
  have "\<not> se_latched em" using ac l n by (auto simp: accounts_def)
  then obtain fl b v where i: "i < length (se_branches em)"
    and p: "st_push (bops i) (with_ack a (row, m)) (se_branches em ! i) (branch_world i (clone_ack a w)) = Some (fl, b, v)"
    and em': "se_branches em' = (se_branches em)[i := b]" "w' = put_branch i v w" "se_emitted em' = se_emitted em + 1"
    using e x by (auto simp: split_emit_def with_ack_def not_le split: if_splits option.splits prod.splits)
  have "pushed_to (bops i) [with_ack a (row, m)] (se_branches em ! i) (branch_world i w) b v"
    by (rule pushed_other [OF _ pushed_push [OF p pushed_nil]]) (simp add: clone_ack_def)
  then have "branches_pushed bops (map (Pair i) [with_ack a (row, m)]) (se_branches em) w ((se_branches em)[i := b]) (put_branch i v w)"
    by (rule branches_pushed_one [OF i])
  with em' la x show ?thesis by simp
qed

lemma emits_fed:
  assumes "split_emits fam bops full m a xs em w = Some (em', w')" and "\<not> any_full (se_branches em')"
    and "se_latched em \<longrightarrow> any_full (se_branches em)"
  shows "branches_pushed bops (map (\<lambda>x. (fst x, with_ack a (snd x, m))) xs) (se_branches em) w (se_branches em') w' \<and>
    se_emitted em' = se_emitted em + length xs"
  using assms
proof (induction xs arbitrary: em w)
  case Nil
  then show ?case by (simp add: branches_pushed_same)
next
  case (Cons x xs)
  from Cons.prems(1) obtain em1 w1 where 1: "split_emit fam bops full m a x em w = Some (em1, w1)"
    and 2: "split_emits fam bops full m a xs em1 w1 = Some (em', w')" by (auto split: option.splits)
  have "\<not> any_full (se_branches em1)"
    using emits_keep [OF 2, of "{#a#}"] Cons.prems(2) by (auto simp: accounts_def)
  note e = emit_fed [OF 1 this Cons.prems(3)]
  with Cons.IH [OF 2 Cons.prems(2)] branches_pushed_trans [of bops _ "se_branches em" w "se_branches em1" w1] show ?case
    by fastforce
qed

lemma split_push_fed:
  assumes p: "split_push fam bops full route r s w = Some (fl, s', w')" and n: "\<not> sp_full s'"
    and l: "sp_latched s \<longrightarrow> any_full (sp_branches s)"
  shows "\<exists>os. split_gives route r (sp_route s, sp_unmatched s) os (sp_route s', sp_unmatched s') \<and>
    branches_pushed bops os (sp_branches s) w (sp_branches s') w'"
  using p
proof (cases rule: split_push_cases)
  case latched
  with n l show ?thesis by (auto simp: sp_full_def)
next
  case (routed rows g em w1)
  have "\<not> any_full (se_branches em)" using n routed(5) by (simp add: sp_full_def)
  note e = emits_fed [OF routed(4) this]
  let ?os = "map (\<lambda>x. (fst x, with_ack (rec_ack r) (snd x, meta r))) rows"
  have "branches_pushed bops (?os @ []) (sp_branches s) w (se_branches em) w'"
    by (rule branches_pushed_trans [OF _ branches_pushed_same]) (use e routed(6) in \<open>simp_all add: drop_rec_def\<close>)
  moreover have "split_gives route r (sp_route s, sp_unmatched s) ?os (sp_route s', sp_unmatched s')"
    using routed(3,5) e n by (auto simp: split_gives_def split_settle_def sp_full_def split: error_policy.splits if_splits)
  ultimately show ?thesis using routed(5) by auto
qed

lemma split_is_tracked:
  assumes "routes_within n fam route"
  shows "tracked_stage (split_stage fam bops full route) (\<lambda>s. owns (sp_branches s)) sends
    (\<lambda>hp s q. length (sp_branches s) = n \<and> holds hp (sp_branches s) q) sp_full sp_books
    (\<lambda>s. (sp_route s, sp_unmatched s)) (\<lambda>s. sp_latched s \<longrightarrow> any_full (sp_branches s)) (split_gives route)
    (\<lambda>os s w s' w'. branches_pushed bops os (sp_branches s) w (sp_branches s') w')"
proof (intro tracked_stage.intro tracked_stage_axioms.intro, goal_cases)
  case 1 show ?case by (rule split_is_stage [OF assms])
next
  case (2 w' w s) then show ?case by (rule branches_pushed_same)
next
  case (3 os1 s w s1 w1 os2 s2 w2) then show ?case by (rule branches_pushed_trans)
next
  case (4 r s w fl s' w') then show ?case using split_push_fed [of fam route r s w fl s' w'] by (simp add: split_stage_def)
next
  case (5 r s w fl s' w')
  then have "split_push fam bops full route r s w = Some (fl, s', w')" by (simp add: split_stage_def)
  then show ?case
  proof (cases rule: split_push_cases)
    case (routed rows g em w1)
    with emits_keep [OF routed(4), of "{#rec_ack r#}"] show ?thesis by simp
  qed (use 5 in simp)
next
  case (6 s w fl s' w')
  then obtain bs where e: "each_branch (\<lambda>i. st_relieve (bops i)) [0..<length (sp_branches s)] Continue (sp_branches s) w
      = Some (fl, bs, w')" and s': "s' = s\<lparr>sp_branches := bs\<rparr>" by (auto simp: split_stage_def split_relieve_def into_Some)
  have "branches_pushed bops [] (sp_branches s) w bs w'"
    by (rule each_fed [OF _ e]) (auto intro: pushed_relieve pushed_nil)
  moreover have "length bs = length (sp_branches s) \<and> (\<forall>j < length (sp_branches s). full (sp_branches s ! j) \<longrightarrow> full (bs ! j))"
    by (rule each_all [OF e]) (use relieve_full in blast)
  ultimately show ?case using s' by (auto simp: any_full_nth)
next
  case (7 s s' w)
  let ?bs = "sp_branches s"
  obtain y bs where t: "take_branches bops 0 ?bs = (y, bs)" by fastforce
  have s': "y = None" "sp_branches s' = bs" "\<not> sp_latched s'" "sp_route s' = sp_route s" "sp_unmatched s' = sp_unmatched s"
    using 7 t by (auto simp: split_stage_def split_take_fatal_def Let_def split: if_splits)
  note nth = take_branches_nth [OF t]
  have "pushed_to (bops j) [] (?bs ! j) v (bs ! j) v" if "j < length ?bs" for j v
    using nth s'(1) that by (intro pushed_fatal [OF _ pushed_nil]) (auto simp: prod_eq_iff)
  then have "branches_pushed bops [] ?bs w bs w" using nth by (intro branches_pushed_each) auto
  with s' show ?case by simp
next
  case (8 s w)
  define bs where "bs = map (\<lambda>(i, b). st_on_batch_end (bops i) b) (List.enumerate 0 (sp_branches s))"
  note nth = batch_end_nth [OF bs_def]
  have b: "sp_branches (split_on_batch_end bops s) = bs" by (simp add: split_on_batch_end_def bs_def)
  have "pushed_to (bops j) [] (sp_branches s ! j) v (bs ! j) v" if "j < length (sp_branches s)" for j v
    using pushed_end [OF pushed_nil, of "bops j" "sp_branches s ! j" v] nth(2) that by simp
  then have "branches_pushed bops [] (sp_branches s) w bs w" using nth(1) by (intro branches_pushed_each) auto
  moreover have "any_full bs = any_full (sp_branches s)"
    using nth stage.end_same [OF branch] by (auto simp: any_full_nth)
  ultimately show ?case using b by (simp add: split_stage_def) (simp add: split_on_batch_end_def)
qed

end

section \<open>Sinks as branches\<close>

text \<open>\<open>new_branch\<close>: each branch is a sink with an encoder of its own.\<close>

definition sink_branches ::
  "'c mpsc_api \<Rightarrow> (nat \<Rightarrow> 'e \<Rightarrow> 'r rec \<Rightarrow> bytes \<Rightarrow> sink_error option \<times> 'e \<times> bytes) \<Rightarrow> (nat \<Rightarrow> 'e \<Rightarrow> nat)
     \<Rightarrow> (nat \<Rightarrow> 'e \<Rightarrow> bytes \<Rightarrow> sink_error option \<times> 'e \<times> bytes) \<Rightarrow> (nat \<Rightarrow> 'k \<Rightarrow> bytes \<Rightarrow> (sink_error + bytes) \<times> 'k)
     \<Rightarrow> nat \<Rightarrow> ('r, ('e, 'k) sink_handoff, ('c, 'f) shard_queues) stage_ops" where
  "sink_branches api encode buffered finish code i =
     handoff_stage (sink_env api (encode i) (buffered i) (finish i) (code i))"

lemma seal_all_fatal: "seal_all env is h w = Some (h', w') \<Longrightarrow> ho_fatal h \<noteq> None \<Longrightarrow> ho_fatal h' \<noteq> None"
proof (induction "is" arbitrary: h w)
  case (Cons i "is")
  from Cons.prems(1) obtain h1 w1 where 1: "seal_and_send env i h w = Some (h1, w1)" "seal_all env is h1 w1 = Some (h', w')"
    by (auto split: option.splits)
  with Cons.IH [OF 1(2)] seal_meter(2) [OF 1(1)] Cons.prems(2) show ?case by blast
qed simp

lemma flush_fatal:
  assumes "handoff_flush_terminal env h w = Some (fl, h', w')" "handoff_latched h"
  shows "handoff_latched h'"
proof -
  obtain h1 w1 ok where "seal_all env [0..<length (ho_shards h)] h w = Some (h1, w1)"
      "drain_loop env (ho_parked h1) h1 w1 = Some (ok, h', w')"
    using assms(1) by (auto simp: handoff_flush_terminal_def drain_parked_def split: option.splits)
  with assms(2) seal_all_fatal drain_loop_meter show ?thesis unfolding handoff_latched_def by metis
qed

interpretation sinks: split_branches "sink_branches api encode buffered finish code" held handoff_sent handoff_sinv
  handoff_latched handoff_books
proof (rule split_branches.intro)
  show "stage (sink_branches api encode buffered finish code i) held handoff_sent handoff_sinv handoff_latched handoff_books" for i
    unfolding sink_branches_def by unfold_locales
  show "handoff_latched b'"
    if "st_flush_terminal (sink_branches api encode buffered finish code i) b v = Some (fl, b', v')" "handoff_latched b"
    for i b v fl b' v'
    using that flush_fatal by (auto simp: sink_branches_def handoff_stage_def)
qed

interpretation fsinks: tracked_branches "sink_branches api encode buffered finish code" held handoff_sent handoff_sinv
  handoff_latched handoff_books
  by unfold_locales
    (auto simp: sink_branches_def handoff_stage_def handoff_relieve_def drain_parked_def handoff_latched_def
      dest: drain_loop_meter split: if_splits)

definition split_held :: "('g, ('e, 'k) sink_handoff) split_terminal \<Rightarrow> ack_ref multiset" where
  "split_held s = over held (sp_branches s)"

definition split_sent :: "('c, 'f) shard_queues targets \<Rightarrow> ack_ref multiset" where
  "split_sent = over handoff_sent"

definition split_sinv ::
  "nat \<Rightarrow> ack_heap \<Rightarrow> ('g, ('e, 'k) sink_handoff) split_terminal \<Rightarrow> ('c, 'f) shard_queues targets \<Rightarrow> bool" where
  "split_sinv n hp s q \<longleftrightarrow> length (sp_branches s) = n \<and> list_all2 (handoff_sinv hp) (sp_branches s) q"

definition split_latched :: "('g, ('e, 'k) sink_handoff) split_terminal \<Rightarrow> bool" where
  "split_latched s \<longleftrightarrow> sp_fatal s \<noteq> None \<or> (\<exists>h \<in> set (sp_branches s). ho_fatal h \<noteq> None)"

definition split_books :: "('g, ('e, 'k) sink_handoff) split_terminal \<Rightarrow> bool" where
  "split_books s \<longleftrightarrow>
     routed_all (sp_meter s) \<and> (\<forall>h \<in> set (sp_branches s). balanced (ho_meter h)) \<and>
     (sp_latched s \<longrightarrow> (\<exists>h \<in> set (sp_branches s). ho_fatal h \<noteq> None))"

lemma split_as_sinks:
  "split_held = (\<lambda>s. sinks.owns (sp_branches s))" "split_sent = sinks.sends"
  "split_sinv n = (\<lambda>hp s q. length (sp_branches s) = n \<and> sinks.holds hp (sp_branches s) q)"
  "split_latched = sinks.sp_full" "split_books = sinks.sp_books"
  by (simp_all add: fun_eq_iff split_held_def sinks.owns_def split_sent_def sinks.sends_def split_sinv_def sinks.holds_def
      split_latched_def sinks.sp_full_def sinks.any_full_def split_books_def sinks.sp_books_def sinks.all_books_def
      handoff_latched_def handoff_books_def)

lemma split_stage_ok:
  assumes "routes_within n fam route"
  shows "stage (split_stage fam (sink_branches api encode buffered finish code) handoff_latched route)
    split_held split_sent (split_sinv n) split_latched split_books"
  unfolding split_as_sinks by (rule sinks.split_is_stage [OF assms])

lemma split_stage_tracked:
  assumes "routes_within n fam route"
  shows "tracked_stage (split_stage fam (sink_branches api encode buffered finish code) handoff_latched route)
    split_held split_sent (split_sinv n) split_latched split_books
    (\<lambda>s. (sp_route s, sp_unmatched s)) (\<lambda>s. sp_latched s \<longrightarrow> sinks.any_full (sp_branches s)) (split_gives route)
    (\<lambda>os s w s' w'. branches_pushed (sink_branches api encode buffered finish code) os (sp_branches s) w (sp_branches s') w')"
  unfolding split_as_sinks by (rule fsinks.split_is_tracked [OF assms])

text \<open>The rows of every branch, once they are known to have been pushed.\<close>

lemma branches_stored:
  assumes "branches_pushed (sink_branches api encode buffered finish code) os (sp_branches s) w (sp_branches s') w'"
    and "split_sinv n (w_heap w) s (w_queues w)" and "\<not> split_latched s'"
  shows "\<forall>j < n. pushed_to (sink_branches api encode buffered finish code j) (rows_for j os)
        (sp_branches s ! j) (branch_world j w) (sp_branches s' ! j) (branch_world j w') \<and>
      stored (sink_env api (encode j) (buffered j) (finish j) (code j)) (rows_for j os)
        (sp_branches s ! j) (branch_world j w) (sp_branches s' ! j) (branch_world j w')"
proof (intro allI impI)
  fix j assume j: "j < n"
  have l: "length (sp_branches s) = n" "list_all2 (handoff_sinv (w_heap w)) (sp_branches s) (w_queues w)"
    using assms(2) by (simp_all add: split_sinv_def)
  then have q: "length (w_queues w) = n" "handoff_sinv (w_heap w) (sp_branches s ! j) (w_queues w ! j)"
    using j by (auto simp: list_all2_conv_all_nth)
  have f: "length (sp_branches s') = n" "pushed_to (sink_branches api encode buffered finish code j) (rows_for j os)
        (sp_branches s ! j) (branch_world j w) (sp_branches s' ! j) (branch_world j w')"
    using assms(1) l(1) q(1) j by (simp_all add: branches_pushed_def)
  have "ho_fatal (sp_branches s' ! j) = None" using assms(3) j f(1) by (auto simp: split_latched_def)
  with handoff_pushed_stored [OF f(2) [unfolded sink_branches_def], where api = api] q(2) f(2)
  show "pushed_to (sink_branches api encode buffered finish code j) (rows_for j os)
        (sp_branches s ! j) (branch_world j w) (sp_branches s' ! j) (branch_world j w') \<and>
      stored (sink_env api (encode j) (buffered j) (finish j) (code j)) (rows_for j os)
        (sp_branches s ! j) (branch_world j w) (sp_branches s' ! j) (branch_world j w')"
    by (simp add: sink_env_def handoff_sinv_def handoff_inv_def)
qed

text \<open>
  C18. Nothing is dropped in silence by a chain that fans out. Where the route names branches of its
  split, pushing a batch returns, and every acknowledgment handle the branches cloned is held by a
  branch or went to a queue of one. A fatal error of any branch, or of a record that reached none
  under the policy \<open>Fail\<close>, fails the batch. Otherwise the first of the batch's unprocessed payloads
  were deserialized, each branch was pushed exactly the rows the route named for it, in order, and
  each of them is a row of the shard it goes to, unless its encoding failed and the policy is to
  skip, which is counted; the other payloads are still unprocessed. Each record reached a branch or
  is counted as unrouted, each branch's own books balance, and no slot is left full.
\<close>

theorem split_no_silent_drop:
  fixes c :: "('d, ('g, ('e, 'k) sink_handoff) split_terminal) typed_chain" and w :: "('c, 'f) shard_queues targets world"
  assumes "routes_within n fam route"
    and "not_ready_first deserialize" and "split_sinv n (w_heap w) (tc_ops c) (w_queues w)"
    and "heap_ok (w_heap w) (split_held (tc_ops c) + F)" and "outbox_ok (w_heap w)" and "pb_ack batch \<in># F"
    and "split_books (tc_ops c)" and "\<not> split_latched (tc_ops c)"
  shows "\<exists>out batch' c' w'.
    push_batch deserialize (split_stage fam (sink_branches api encode buffered finish code) handoff_latched route) batch start c w
      = Some (out, batch', c', w') \<and>
    (\<exists>taken. split_sent (w_queues w') = split_sent (w_queues w) + taken \<and>
       heap_ok (w_heap w') (split_held (tc_ops c') + (taken + F))) \<and>
    split_sinv n (w_heap w') (tc_ops c') (w_queues w') \<and>
    (case out of FatalOutcome e \<Rightarrow> ack_failed (w_heap w') (pb_ack batch)
     | _ \<Rightarrow> split_books (tc_ops c') \<and> \<not> split_latched (tc_ops c') \<and>
         (\<exists>raws d rs os.
            unprocessed (begin_push c) (pb_rest batch) = raws @ unprocessed c' (pb_rest batch') \<and>
            payloads_give deserialize (tc_policy c) (pb_ack batch) raws (tc_deser c) rs d \<and>
            gives_all (split_gives route) rs (sp_route (tc_ops c), sp_unmatched (tc_ops c)) os
              (sp_route (tc_ops c'), sp_unmatched (tc_ops c')) \<and>
            (\<forall>j < n. pushed_to (sink_branches api encode buffered finish code j) (rows_for j os)
                 (sp_branches (tc_ops c) ! j) (branch_world j w) (sp_branches (tc_ops c') ! j) (branch_world j w') \<and>
               stored (sink_env api (encode j) (buffered j) (finish j) (code j)) (rows_for j os)
                 (sp_branches (tc_ops c) ! j) (branch_world j w) (sp_branches (tc_ops c') ! j) (branch_world j w')) \<and>
            stands_before deserialize d (unprocessed c' (pb_rest batch')) (tc_deser c')))"
proof -
  let ?ops = "split_stage fam (sink_branches api encode buffered finish code) handoff_latched route"
  note st = split_stage_ok [OF assms(1), of api encode buffered finish code]
  have r: "ready split_held (split_sinv n) F (tc_ops c) w" using assms(3-5) by (simp add: ready_def)
  obtain out batch' c' w' where pb: "push_batch deserialize ?ops batch start c w = Some (out, batch', c', w')"
    using stage.push_batch_total [OF st r assms(6), of deserialize start] by auto
  note ok = stage.push_batch_ok [OF st pb assms(6,2) r assms(7,8)]
  have l: "sp_latched (tc_ops c) \<longrightarrow> sinks.any_full (sp_branches (tc_ops c))"
    using assms(7) unfolding split_as_sinks sinks.sp_books_def by blast
  have flow: "progress deserialize (pb_ack batch) (\<lambda>s. (sp_route s, sp_unmatched s)) (split_gives route)
      (\<lambda>os s w s' w'. branches_pushed (sink_branches api encode buffered finish code) os (sp_branches s) w (sp_branches s') w')
      (unprocessed (begin_push c) (pb_rest batch)) c w (unprocessed c' (pb_rest batch')) c' w'"
    if "\<not> (\<exists>e. out = FatalOutcome e)"
    by (rule tracked_stage.push_batch_progress [OF split_stage_tracked [OF assms(1)] pb assms(2) that l])
  show ?thesis
  proof (cases "\<exists>e. out = FatalOutcome e")
    case True
    with ok pb show ?thesis unfolding ready_def by fastforce
  next
    case False
    with ok have "split_books (tc_ops c')" "\<not> split_latched (tc_ops c')" by (auto split: push_outcome.splits)
    note fine = this
    from flow [OF False] obtain raws d rs os
      where "unprocessed (begin_push c) (pb_rest batch) = raws @ unprocessed c' (pb_rest batch')"
        "payloads_give deserialize (tc_policy c) (pb_ack batch) raws (tc_deser c) rs d"
        "gives_all (split_gives route) rs (sp_route (tc_ops c), sp_unmatched (tc_ops c)) os
           (sp_route (tc_ops c'), sp_unmatched (tc_ops c'))"
        and b: "branches_pushed (sink_branches api encode buffered finish code) os (sp_branches (tc_ops c)) w (sp_branches (tc_ops c')) w'"
        and "stands_before deserialize d (unprocessed c' (pb_rest batch')) (tc_deser c')"
      unfolding progress_def delivered_def by blast
    note this branches_stored [OF b assms(3) fine(2)]
    with fine ok pb False show ?thesis
      unfolding ready_def
      by (intro exI [of _ out] exI [of _ batch'] exI [of _ c'] exI [of _ w'] conjI) (auto split: push_outcome.split)
  qed
qed

text \<open>Two branches, for long and for short payloads.\<close>

definition split_demo :: "(unit, (unit, (unit, unit) sink_handoff) split_terminal) typed_chain" where
  "split_demo = typed_chain_new () (split_new () [demo_handoff, demo_handoff] Fail demo_meter ''split'') Fail None"

definition split_world :: "(nat, unit) shard_queues targets world" where
  "split_world = \<lparr>w_heap = w_heap demo_world, w_budget = 0, w_queues = [w_queues demo_world, w_queues demo_world], w_now = 5\<rparr>"

definition by_length :: "bytes \<Rightarrow> record_meta \<Rightarrow> unit \<Rightarrow> (nat \<times> bytes) list \<times> unit" where
  "by_length p m g = ([(if length p > 1 then 0 else 1, p)], g)"

abbreviation "demo_split \<equiv>
  split_stage (\<lambda>i r. True) (sink_branches demo_api (\<lambda>i e r buf. (None, e, buf @ payload r)) (\<lambda>i e. 0)
    (\<lambda>i e buf. (None, e, buf)) (\<lambda>i k buf. (Inr buf, k))) handoff_latched by_length"

lemma split_demo_ops: "tc_ops split_demo = split_new () [demo_handoff, demo_handoff] Fail demo_meter ''split''"
  by (simp add: split_demo_def typed_chain_new_def)

lemma split_demo_run:
  "\<exists>b' c' w'. push_batch demo_deser demo_split demo_kept 0 split_demo split_world = Some (Done, b', c', w')"
  by (simp add: demo_run_defs Let_def split_demo_def split_new_def split_world_def demo_handoff_eq demo_kept_def demo_deser_def
      demo_raw_def raw_meta_def demo_facts demo_world_eq demo_api_def demo_route sink_env_def split_stage_def split_push_def
      split_relieve_def split_take_fatal_def split_emit_def split_settle_def by_length_def sink_branches_def branch_world_def
      put_branch_def handoff_latched_def numeral_2_eq_2 upt_rec)

theorem split_no_silent_drop_witness:
  "\<exists>batch' c' w' r. push_batch demo_deser demo_split demo_kept 0 split_demo split_world = Some (Done, batch', c', w') \<and>
     split_sinv 2 (w_heap w') (tc_ops c') (w_queues w') \<and> payload r = [1] \<and>
     stored (sink_env demo_api (\<lambda>e r buf. (None, e, buf @ payload r)) (\<lambda>e. 0) (\<lambda>e buf. (None, e, buf)) (\<lambda>k buf. (Inr buf, k)))
       [r] demo_handoff (branch_world 1 split_world) (sp_branches (tc_ops c') ! 1) (branch_world 1 w')"
proof -
  let ?r = "with_ack 0 ([1], raw_meta (demo_raw [1]))"
  have route: "routes_within 2 (\<lambda>i r. True) by_length" by (simp add: routes_within_def by_length_def)
  note t = split_demo_ops
  have inv: "split_sinv 2 (w_heap split_world) (tc_ops split_demo) (w_queues split_world)"
    using demo_facts(2,4) by (simp add: split_sinv_def t split_new_def split_world_def handoff_sinv_def demo_handoff_eq)
  have h: "heap_ok (w_heap split_world) (split_held (tc_ops split_demo) + {#0, 0#})"
    using demo_heap_ok(1) by (simp add: split_held_def t split_new_def split_world_def over_def demo_facts)
  have o: "outbox_ok (w_heap split_world)" using demo_heap_ok(2) by (simp add: split_world_def)
  have b: "split_books (tc_ops split_demo)" "\<not> split_latched (tc_ops split_demo)"
    by (simp_all add: split_books_def split_latched_def t split_new_def demo_meter_def routed_all_def op_meter_new_def
        balanced_def total_in_def total_out_def total_dropped_def demo_handoff_def handoff_new_def)
  have "pb_ack demo_kept \<in># {#0, 0#}" by (simp add: demo_kept_def)
  note no_drop = split_no_silent_drop [OF route demo_not_ready_first inv h o this b]
  obtain b' c' w' where run: "push_batch demo_deser demo_split demo_kept 0 split_demo split_world = Some (Done, b', c', w')"
    using split_demo_run by blast
  from no_drop [where start = 0 and api = demo_api and encode = "\<lambda>i e r buf. (None, e, buf @ payload r)" and buffered = "\<lambda>i e. 0"
      and finish = "\<lambda>i e buf. (None, e, buf)" and code = "\<lambda>i k buf. (Inr buf, k)"]
  obtain raws d rs os where sinv: "split_sinv 2 (w_heap w') (tc_ops c') (w_queues w')"
      and u: "unprocessed (begin_push split_demo) (pb_rest demo_kept) = raws @ unprocessed c' (pb_rest b')"
      and p: "payloads_give demo_deser (tc_policy split_demo) (pb_ack demo_kept) raws (tc_deser split_demo) rs d"
      and g: "gives_all (split_gives by_length) rs (sp_route (tc_ops split_demo), sp_unmatched (tc_ops split_demo)) os
        (sp_route (tc_ops c'), sp_unmatched (tc_ops c'))"
      and st: "\<forall>j < 2. stored (sink_env demo_api (\<lambda>e r buf. (None, e, buf @ payload r)) (\<lambda>e. 0) (\<lambda>e buf. (None, e, buf)) (\<lambda>k buf. (Inr buf, k)))
        (rows_for j os) (sp_branches (tc_ops split_demo) ! j) (branch_world j split_world) (sp_branches (tc_ops c') ! j) (branch_world j w')"
    unfolding run option.inject prod.inject by (elim exE conjE) (simp only: push_outcome.case, blast)
  have "unprocessed c' (pb_rest b') = []" using push_batch_resumes [OF run] by (simp add: resumes_def unprocessed_def)
  with u have "raws = [demo_raw [1]]"
    by (simp add: demo_kept_def unprocessed_def begin_push_def split_demo_def typed_chain_new_def)
  with p have "rs = [?r]" by (auto simp: demo_deser_def outs_Emit demo_raw_def demo_kept_def)
  with g have "os = [(1, ?r)]" by (auto simp: split_gives_def by_length_def with_ack_def)
  then have "rows_for 1 os = [?r]" "sp_branches (tc_ops split_demo) ! 1 = demo_handoff" by (simp_all add: t split_new_def)
  with sinv st run show ?thesis
    by (intro exI [of _ b'] exI [of _ c'] exI [of _ w'] exI [of _ ?r]) (auto simp: with_ack_def dest: spec [of _ 1])
qed

end
