(* ===== verification/Slices.thy ===== *)
theory Slices
  imports Prelude
begin

text \<open>
  The slice operations of the standard library that the framing code uses, and what they say
  about delimited byte streams: \<open>iter().position(..)\<close>, \<open>split(|&b| ..)\<close>, sub-slices.
\<close>

section \<open>\<open>position\<close>\<close>

primrec position :: "('a \<Rightarrow> bool) \<Rightarrow> 'a list \<Rightarrow> nat option" where
  "position p [] = None"
| "position p (x # xs) = (if p x then Some 0 else map_option Suc (position p xs))"

lemma position_None: "position p xs = None \<longleftrightarrow> (\<forall>x\<in>set xs. \<not> p x)"
  by (induction xs) auto

lemma position_SomeD:
  "position p xs = Some i \<Longrightarrow> i < length xs \<and> p (xs ! i) \<and> (\<forall>j<i. \<not> p (xs ! j))"
proof (induction xs arbitrary: i)
  case (Cons x xs)
  show ?case
  proof (cases "p x")
    case False
    with Cons.prems obtain k where k: "position p xs = Some k" "i = Suc k" by auto
    from Cons.IH [OF k(1)] k(2) False show ?thesis by (auto simp: nth_Cons split: nat.splits)
  qed (use Cons.prems in auto)
qed simp

lemma position_split:
  assumes "position p xs = Some i"
  shows "xs = take i xs @ [xs ! i] @ drop (Suc i) xs" and "p (xs ! i)"
    and "\<forall>x\<in>set (take i xs). \<not> p x"
  using position_SomeD [OF assms] by (auto simp: id_take_nth_drop [symmetric] in_set_conv_nth)

lemma position_append:
  "position p (xs @ ys) =
     (case position p xs of Some i \<Rightarrow> Some i | None \<Rightarrow> map_option ((+) (length xs)) (position p ys))"
proof (induction xs)
  case Nil
  then show ?case by (simp add: option.map_ident_strong)
next
  case (Cons x xs)
  then show ?case
    by (cases "position p xs"; cases "position p ys") simp_all
qed

lemma position_found: "(\<forall>x\<in>set xs. \<not> p x) \<Longrightarrow> p y \<Longrightarrow> position p (xs @ y # ys) = Some (length xs)"
  by (simp add: position_append position_None [THEN iffD2])

section \<open>\<open>split\<close>\<close>

text \<open>
  \<open>slice::split\<close>: the maximal runs of elements that do not match, in order, the matching
  elements dropped. There is always at least one run.
\<close>

fun slice_split :: "('a \<Rightarrow> bool) \<Rightarrow> 'a list \<Rightarrow> 'a list list" where
  "slice_split p [] = [[]]"
| "slice_split p (x # xs) =
     (if p x then [] # slice_split p xs
      else (case slice_split p xs of [] \<Rightarrow> [[x]] | l # ls \<Rightarrow> (x # l) # ls))"

lemma slice_split_ne [simp]: "slice_split p xs \<noteq> []"
  by (induction xs) (auto split: list.splits)

lemma slice_split_free: "(\<forall>x\<in>set xs. \<not> p x) \<Longrightarrow> slice_split p xs = [xs]"
  by (induction xs) auto

lemma slice_split_at: "(\<forall>x\<in>set xs. \<not> p x) \<Longrightarrow> p d \<Longrightarrow> slice_split p (xs @ d # ys) = xs # slice_split p ys"
  by (induction xs) auto

lemma slice_split_delim: "p d \<Longrightarrow> slice_split p (xs @ d # ys) = slice_split p xs @ slice_split p ys"
  by (induction xs) (auto split: list.splits)

lemma slice_split_append:
  "slice_split p (xs @ ys) =
     butlast (slice_split p xs) @ (last (slice_split p xs) @ hd (slice_split p ys)) # tl (slice_split p ys)"
proof (induction xs)
  case (Cons x xs)
  obtain h t where "slice_split p xs = h # t"
    using slice_split_ne by (cases "slice_split p xs") blast+
  with Cons show ?case by auto
qed simp

lemma length_slice_split: "length (slice_split p xs) \<le> Suc (length xs)"
  by (induction xs) (auto split: list.splits)

lemma slice_split_elems: "l \<in> set (slice_split p xs) \<Longrightarrow> x \<in> set l \<Longrightarrow> x \<in> set xs \<and> \<not> p x"
proof (induction xs arbitrary: l)
  case (Cons y ys)
  obtain h t where ht: "slice_split p ys = h # t"
    using slice_split_ne by (cases "slice_split p ys") blast+
  with Cons.prems consider "p y" "l = []" | "l \<in> set (slice_split p ys)" | "\<not> p y" "l = y # h"
    by (auto split: if_splits)
  then show ?case
    by cases (use Cons.prems Cons.IH [of l] Cons.IH [of h] ht in auto)
qed simp

section \<open>Sub-slices\<close>

text \<open>\<open>xs[from..to]\<close>, for \<open>from \<le> to \<le> xs.len()\<close>.\<close>

definition subslice :: "nat \<Rightarrow> nat \<Rightarrow> 'a list \<Rightarrow> 'a list" where
  "subslice from to xs = take (to - from) (drop from xs)"

lemma subslice_full [simp]: "subslice 0 (length xs) xs = xs"
  by (simp add: subslice_def)

lemma subslice_empty [simp]: "b \<le> a \<Longrightarrow> subslice a b xs = []"
  by (simp add: subslice_def)

lemma length_subslice [simp]: "a \<le> b \<Longrightarrow> b \<le> length xs \<Longrightarrow> length (subslice a b xs) = b - a"
  by (simp add: subslice_def)

lemma subslice_append: "a \<le> b \<Longrightarrow> b \<le> c \<Longrightarrow> subslice a b xs @ subslice b c xs = subslice a c xs"
proof -
  assume "a \<le> b" "b \<le> c"
  then have "subslice a c xs = take (b - a) (drop a xs) @ take (c - b) (drop (b - a) (drop a xs))"
    unfolding subslice_def by (subst take_add [symmetric]) simp
  with \<open>a \<le> b\<close> show ?thesis by (simp add: subslice_def)
qed

lemma nth_subslice: "i < b - a \<Longrightarrow> b \<le> length xs \<Longrightarrow> subslice a b xs ! i = xs ! (a + i)"
  by (simp add: subslice_def)

lemma set_subslice: "b \<le> length xs \<Longrightarrow> x \<in> set (subslice a b xs) \<longleftrightarrow> (\<exists>i. a \<le> i \<and> i < b \<and> xs ! i = x)"
proof
  assume b: "b \<le> length xs" and x: "x \<in> set (subslice a b xs)"
  then obtain i where "i < b - a" "x = xs ! (a + i)"
    by (cases "a \<le> b") (auto simp: in_set_conv_nth nth_subslice)
  then show "\<exists>i. a \<le> i \<and> i < b \<and> xs ! i = x" by (intro exI [of _ "a + i"]) simp
next
  assume b: "b \<le> length xs" and "\<exists>i. a \<le> i \<and> i < b \<and> xs ! i = x"
  then obtain i where "a \<le> i" "i < b" "xs ! i = x" by blast
  with b show "x \<in> set (subslice a b xs)"
    by (auto simp: in_set_conv_nth nth_subslice intro!: exI [of _ "i - a"])
qed

lemma subslice_to_end: "subslice a (length xs) xs = drop a xs"
  by (simp add: subslice_def)

end
