(* ===== verification/S3_Range.thy ===== *)
theory S3_Range
  imports Slices
begin

text \<open>
  Byte ranges of one object, \<open>SplitRange\<close> and \<open>tile\<close> of \<open>crates/spate-s3/src/split.rs\<close>, and
  the trim that cuts a range's own records out of the bytes read, \<open>crates/spate-s3/src/trim.rs\<close>.

  A range owns the records whose first byte lies in it. The specification is one function:
  \<open>next_start d s b\<close> is the first record start at or after byte \<open>b\<close>, and a range \<open>[start, end)\<close>
  owns the bytes from \<open>next_start start\<close> up to \<open>next_start end\<close>. The trim yields exactly those,
  however the object is cut into windows, and the ranges of a tiling own the whole object between
  them. \<open>u64\<close> positions are \<^typ>\<open>nat\<close>, with the saturating and truncating operations written out.
\<close>

section \<open>Ranges and their tiling\<close>

record split_range =
  sr_start :: nat
  sr_end :: nat
  sr_delimiter :: "8 word"

definition split_range_new :: "nat \<Rightarrow> nat \<Rightarrow> 8 word \<Rightarrow> split_range" where
  "split_range_new start end' delimiter = \<lparr>sr_start = start, sr_end = end', sr_delimiter = delimiter\<rparr>"

definition div_ceil :: "nat \<Rightarrow> nat \<Rightarrow> nat" where
  "div_ceil a b = a div b + (if a mod b > 0 then 1 else 0)"

text \<open>The \<open>u128\<close> product and quotient, truncated to \<open>u64\<close>.\<close>

definition boundary :: "nat \<Rightarrow> nat \<Rightarrow> nat \<Rightarrow> nat" where
  "boundary sz n i = ((i * sz) mod 2 ^ 128 div n) mod 2 ^ 64"

text \<open>Division by a zero target panics.\<close>

definition tile :: "nat \<Rightarrow> nat \<Rightarrow> 8 word \<Rightarrow> split_range list option" where
  "tile sz target delimiter =
     (if target = 0 then None
      else let n = div_ceil sz target
           in Some (map (\<lambda>i. split_range_new (boundary sz n i) (boundary sz n (i + 1)) delimiter) [0..<n]))"

section \<open>The trim\<close>

datatype trim_phase = PhaseSeek | PhaseEmit | PhaseDone

record range_trim =
  rt_start :: nat
  rt_end :: nat
  rt_delimiter :: "8 word"
  rt_size :: nat
  rt_phase :: trim_phase

definition trim_new :: "split_range \<Rightarrow> nat \<Rightarrow> range_trim" where
  "trim_new r sz =
     \<lparr>rt_start = sr_start r, rt_end = sr_end r, rt_delimiter = sr_delimiter r, rt_size = sz,
      rt_phase = (if sr_start r = 0 then PhaseEmit else PhaseSeek)\<rparr>"

definition first_byte :: "range_trim \<Rightarrow> nat" where
  "first_byte t = sat_sub (rt_start t) 1"

definition next_window :: "range_trim \<Rightarrow> nat \<Rightarrow> nat \<Rightarrow> nat \<Rightarrow> nat option" where
  "next_window t pos range_bytes chunk_bytes =
     (if rt_phase t = PhaseDone \<or> pos \<ge> rt_size t then None
      else let range_bytes = max range_bytes 1; chunk_bytes = max chunk_bytes 1;
               end' = (if pos \<ge> rt_end t then sat_add pos chunk_bytes
                       else if sat_add pos range_bytes \<ge> rt_end t then sat_add (rt_end t) chunk_bytes
                       else pos + range_bytes)
           in Some (min end' (rt_size t)))"

text \<open>The part of \<open>feed\<close> that forwards: from byte \<open>from\<close> of the window.\<close>

definition feed_emit :: "range_trim \<Rightarrow> nat \<Rightarrow> bytes \<Rightarrow> nat \<Rightarrow> bytes \<times> range_trim" where
  "feed_emit t pos window from =
     (let tail_from = max (min (sat_sub (rt_end t - 1) pos) (length window)) from
      in case position (\<lambda>b. b = rt_delimiter t) (drop tail_from window) of
           Some at' \<Rightarrow> (subslice from (tail_from + at' + 1) window, t\<lparr>rt_phase := PhaseDone\<rparr>)
         | None \<Rightarrow> (drop from window, t))"

definition feed :: "range_trim \<Rightarrow> nat \<Rightarrow> bytes \<Rightarrow> bytes \<times> range_trim" where
  "feed t pos window =
     (let len = length window
      in case rt_phase t of
           PhaseSeek \<Rightarrow>
             (let seek_len = min (sat_sub (rt_end t - 1) pos) len
              in case position (\<lambda>b. b = rt_delimiter t) (take seek_len window) of
                   Some at' \<Rightarrow> feed_emit (t\<lparr>rt_phase := PhaseEmit\<rparr>) pos window (at' + 1)
                 | None \<Rightarrow> ([], if pos + len \<ge> rt_end t - 1 then t\<lparr>rt_phase := PhaseDone\<rparr> else t))
         | PhaseEmit \<Rightarrow> feed_emit t pos window 0
         | PhaseDone \<Rightarrow> ([], t))"

section \<open>What a range owns\<close>

definition next_start :: "8 word \<Rightarrow> bytes \<Rightarrow> nat \<Rightarrow> nat" where
  "next_start d s b =
     (if b = 0 then 0
      else case position (\<lambda>x. x = d) (drop (b - 1) s) of None \<Rightarrow> length s | Some k \<Rightarrow> b + k)"

definition owned :: "bytes \<Rightarrow> split_range \<Rightarrow> bytes" where
  "owned s r = subslice (next_start (sr_delimiter r) s (sr_start r)) (next_start (sr_delimiter r) s (sr_end r)) s"

lemma next_start_le: "next_start d s b \<le> length s"
proof (cases "position (\<lambda>x. x = d) (drop (b - 1) s)")
  case (Some k)
  with position_SomeD [OF Some] show ?thesis by (auto simp: next_start_def)
qed (simp_all add: next_start_def)

lemma next_start_0 [simp]: "next_start d s 0 = 0"
  by (simp add: next_start_def)

text \<open>No delimiter at the positions \<open>[a, b)\<close>.\<close>

definition free :: "8 word \<Rightarrow> bytes \<Rightarrow> nat \<Rightarrow> nat \<Rightarrow> bool" where
  "free d s a b \<longleftrightarrow> (\<forall>i. a \<le> i \<and> i < b \<longrightarrow> s ! i \<noteq> d)"

lemma free_set: "b \<le> length s \<Longrightarrow> free d s a b \<longleftrightarrow> (\<forall>x\<in>set (subslice a b s). x \<noteq> d)"
  unfolding free_def using set_subslice [of b s _ a] by blast

lemma free_join: "free d s a b \<Longrightarrow> free d s b c \<Longrightarrow> free d s a c"
  unfolding free_def by (metis not_less)

lemma free_sub: "free d s a b \<Longrightarrow> a \<le> a' \<Longrightarrow> b' \<le> b \<Longrightarrow> free d s a' b'"
  by (auto simp: free_def)

lemma free_empty [simp]: "b \<le> a \<Longrightarrow> free d s a b"
  by (auto simp: free_def)

lemma next_start_eqI:
  assumes "0 < b" "b - 1 \<le> j" "j < length s" "s ! j = d" "free d s (b - 1) j"
  shows "next_start d s b = j + 1"
proof -
  have "drop (b - 1) s = subslice (b - 1) j s @ d # drop (j + 1) s"
    using assms(2-4) subslice_append [of "b - 1" j "length s" s]
    by (simp add: subslice_to_end Cons_nth_drop_Suc [symmetric])
  moreover have "\<forall>x\<in>set (subslice (b - 1) j s). x \<noteq> d"
    using assms(3,5) by (simp add: free_set)
  ultimately have "position (\<lambda>x. x = d) (drop (b - 1) s) = Some (length (subslice (b - 1) j s))"
    by (simp add: position_found)
  with assms(1-3) show ?thesis by (simp add: next_start_def)
qed

lemma next_start_cases:
  assumes "0 < b"
  obtains (found) j where "b - 1 \<le> j" "j < length s" "s ! j = d" "free d s (b - 1) j" "next_start d s b = j + 1"
    | (none) "free d s (b - 1) (length s)" "next_start d s b = length s"
proof (cases "position (\<lambda>x. x = d) (drop (b - 1) s)")
  case None
  then have "free d s (b - 1) (length s)"
    by (simp add: free_set subslice_to_end position_None)
  with none None assms show ?thesis by (simp add: next_start_def)
next
  case (Some k)
  note p = position_SomeD [OF Some]
  have "s ! i \<noteq> d" if "b - 1 \<le> i" "i < b - 1 + k" for i
    using p that by (auto dest: spec [of _ "i - (b - 1)"])
  with p Some assms show ?thesis
    by (intro found [of "b - 1 + k"]) (auto simp: next_start_def free_def)
qed

text \<open>No delimiter up to \<open>k\<close> puts the next start past it.\<close>

lemma next_start_past:
  assumes "0 < b" "free d s (b - 1) k" "k \<le> length s"
  shows "k \<le> next_start d s b" and "k < length s \<Longrightarrow> k < next_start d s b"
proof -
  have "k \<le> next_start d s b \<and> (k < length s \<longrightarrow> k < next_start d s b)"
    using assms(1)
  proof (cases rule: next_start_cases [of b s d])
    case (found j)
    with assms(2) have "k \<le> j" by (auto simp: free_def not_less [symmetric])
    with found show ?thesis by simp
  qed (use assms(3) in simp)
  then show "k \<le> next_start d s b" and "k < length s \<Longrightarrow> k < next_start d s b" by simp_all
qed

lemma next_start_ge:
  assumes "b \<le> length s"
  shows "b \<le> next_start d s b"
proof (cases "b = 0")
  case False
  then have "0 < b" by simp
  then show ?thesis by (cases rule: next_start_cases [of b s d]) (use assms in auto)
qed simp

text \<open>Past a range that starts no record, the next start is that of its end.\<close>

lemma next_start_skip:
  assumes "0 < a" "a \<le> b" "free d s (a - 1) (b - 1)" "b \<le> length s"
  shows "next_start d s a = next_start d s b"
proof -
  have join: "free d s (a - 1) c" if "free d s (b - 1) c" "b - 1 \<le> c" for c
    using assms(3) that(1) by (rule free_join)
  from assms have "0 < b" by simp
  then show ?thesis
  proof (cases rule: next_start_cases [of b s d])
    case (found j)
    with assms join [of j] have "next_start d s a = j + 1" by (intro next_start_eqI) auto
    with found show ?thesis by simp
  next
    case none
    with assms join [of "length s"] have "length s \<le> next_start d s a" by (intro next_start_past(1)) auto
    with none next_start_le [of d s a] show ?thesis by simp
  qed
qed

lemma next_start_mono:
  assumes "a \<le> b" "b \<le> length s"
  shows "next_start d s a \<le> next_start d s b"
proof (cases "0 < a \<and> free d s (a - 1) (b - 1)")
  case True
  with assms next_start_skip [of a b] show ?thesis by simp
next
  case False
  show ?thesis
  proof (cases "a = 0")
    case a: False
    then have "0 < a" by simp
    then show ?thesis
    proof (cases rule: next_start_cases [of a s d])
      case (found j)
      with False a have "j < b - 1"
        by (meson free_sub le_refl not_le_imp_less a gr0I)
      with found next_start_ge [OF assms(2), of d] show ?thesis by simp
    next
      case none
      with False a assms show ?thesis by (meson free_sub le_refl diff_le_self gr0I le_trans)
    qed
  qed simp
qed

lemma next_start_length: "next_start d s (length s) = length s"
  using next_start_le [of d s "length s"] next_start_ge [of "length s" s d] by simp

section \<open>The trim yields what its range owns\<close>

definition range_ok :: "bytes \<Rightarrow> split_range \<Rightarrow> bool" where
  "range_ok s r \<longleftrightarrow> sr_start r < sr_end r \<and> sr_end r \<le> length s"

text \<open>After the object's bytes up to \<open>pos\<close> were fed and \<open>out\<close> was forwarded.\<close>

definition trim_inv :: "bytes \<Rightarrow> split_range \<Rightarrow> nat \<Rightarrow> range_trim \<Rightarrow> bytes \<Rightarrow> bool" where
  "trim_inv s r pos t out \<longleftrightarrow>
     rt_start t = sr_start r \<and> rt_end t = sr_end r \<and> rt_delimiter t = sr_delimiter r
     \<and> rt_size t = length s \<and> pos \<le> length s
     \<and> (case rt_phase t of
          PhaseSeek \<Rightarrow> 0 < sr_start r \<and> sr_start r - 1 \<le> pos \<and> pos < sr_end r - 1
                       \<and> free (sr_delimiter r) s (sr_start r - 1) pos \<and> out = []
        | PhaseEmit \<Rightarrow> next_start (sr_delimiter r) s (sr_start r) \<le> pos
                       \<and> free (sr_delimiter r) s (sr_end r - 1) pos
                       \<and> out = subslice (next_start (sr_delimiter r) s (sr_start r)) pos s
        | PhaseDone \<Rightarrow> out = owned s r)"

lemma trim_new_inv: "range_ok s r \<Longrightarrow> trim_inv s r (first_byte (trim_new r (length s))) (trim_new r (length s)) []"
  by (auto simp: trim_inv_def trim_new_def first_byte_def sat_sub_def range_ok_def)

lemma next_window_Some:
  assumes "next_window t pos rb cb = Some e" "rt_size t < 2 ^ 64"
  shows "pos < e" "e \<le> rt_size t"
  using assms by (auto simp: next_window_def sat_add_def usize_max_def Let_def min_def max_def split: if_splits)

lemma next_window_None: "next_window t pos rb cb = None \<longleftrightarrow> rt_phase t = PhaseDone \<or> rt_size t \<le> pos"
  by (simp add: next_window_def Let_def)

lemma trim_inv_end:
  assumes "trim_inv s r pos t out" "range_ok s r" "next_window t pos rb cb = None"
  shows "out = owned s r"
proof (cases "rt_phase t")
  case PhaseEmit
  with assms have pos: "pos = length s" by (auto simp: trim_inv_def next_window_None)
  with assms PhaseEmit have "length s \<le> next_start (sr_delimiter r) s (sr_end r)"
    by (intro next_start_past(1)) (auto simp: trim_inv_def range_ok_def)
  with next_start_le [of "sr_delimiter r" s "sr_end r"] assms PhaseEmit pos show ?thesis
    by (simp add: trim_inv_def owned_def)
qed (use assms in \<open>auto simp: trim_inv_def next_window_None range_ok_def\<close>)

lemma position_subslice:
  assumes "position (\<lambda>b. b = d) (subslice a c s) = Some k" "a \<le> c" "c \<le> length s"
  shows "a + k < c" "s ! (a + k) = d" "free d s a (a + k)"
proof -
  note p = position_SomeD [OF assms(1)]
  from p assms have "k < c - a" by simp
  then show k: "a + k < c" by linarith
  with p assms show "s ! (a + k) = d" by (simp add: nth_subslice)
  show "free d s a (a + k)"
    unfolding free_def
  proof (intro allI impI)
    fix i
    assume i: "a \<le> i \<and> i < a + k"
    then have "i - a < k" by linarith
    with p have "subslice a c s ! (i - a) \<noteq> d" by blast
    moreover from i k have "i - a < c - a" by linarith
    ultimately show "s ! i \<noteq> d" using i assms(3) by (simp add: nth_subslice)
  qed
qed

text \<open>The delimiter that ends the last owned record, if the window holds it.\<close>

lemma feed_emit_inv:
  assumes r: "range_ok s r" and e: "pos + len \<le> length s"
    and t: "rt_start t = sr_start r" "rt_end t = sr_end r" "rt_delimiter t = sr_delimiter r"
      "rt_size t = length s" "rt_phase t = PhaseEmit"
    and a: "next_start (sr_delimiter r) s (sr_start r) \<le> pos + from"
    and lo: "from \<le> min (sr_end r - 1 - pos) len"
    and fr: "free (sr_delimiter r) s (sr_end r - 1) pos"
    and out: "out = subslice (next_start (sr_delimiter r) s (sr_start r)) (pos + from) s"
    and f: "feed_emit t pos (subslice pos (pos + len) s) from = (o', t')"
  shows "trim_inv s r (pos + len) t' (out @ o')"
proof -
  let ?d = "sr_delimiter r" and ?w = "subslice pos (pos + len) s"
  define tl where "tl = min (sr_end r - 1 - pos) len"
  have tl: "from \<le> tl" "tl \<le> len" "tl < len \<Longrightarrow> sr_end r - 1 \<le> pos + tl"
    using lo by (auto simp: tl_def)
  have w: "length ?w = len" "drop k ?w = subslice (pos + k) (pos + len) s" for k
    using e by (simp_all add: subslice_def drop_take add.commute)
  have tail: "max (min (sat_sub (rt_end t - 1) pos) len) from = tl"
    using lo t(2) by (simp add: sat_sub_def tl_def)
  have fe: "feed_emit t pos ?w from =
      (case position (\<lambda>b. b = ?d) (subslice (pos + tl) (pos + len) s) of
         Some k \<Rightarrow> (subslice from (tl + k + 1) ?w, t\<lparr>rt_phase := PhaseDone\<rparr>)
       | None \<Rightarrow> (subslice (pos + from) (pos + len) s, t))"
    unfolding feed_emit_def Let_def w tail t(3) ..
  have fr': "free ?d s (sr_end r - 1) (pos + tl)"
    using fr by (cases "sr_end r - 1 \<le> pos") (simp_all add: tl_def)
  show ?thesis
  proof (cases "position (\<lambda>b. b = ?d) (subslice (pos + tl) (pos + len) s)")
    case None
    then have "free ?d s (pos + tl) (pos + len)" using e by (simp add: free_set position_None)
    with fr' have "free ?d s (sr_end r - 1) (pos + len)" by (rule free_join)
    moreover from f None have o': "o' = subslice (pos + from) (pos + len) s" "t' = t"
      by (simp_all add: fe)
    moreover have "out @ o' = subslice (next_start ?d s (sr_start r)) (pos + len) s"
      unfolding out o' using a tl by (intro subslice_append) auto
    ultimately show ?thesis using t a tl e by (simp add: trim_inv_def)
  next
    case (Some k)
    with tl e position_subslice [OF Some]
    have k: "tl + k < len" "s ! (pos + tl + k) = ?d" "free ?d s (pos + tl) (pos + tl + k)"
      by simp_all
    from fr' k(3) have "free ?d s (sr_end r - 1) (pos + tl + k)" by (rule free_join)
    then have b: "next_start ?d s (sr_end r) = pos + tl + k + 1"
      using r k e tl(3) by (intro next_start_eqI) (auto simp: range_ok_def)
    from f Some have o': "o' = subslice from (tl + k + 1) ?w" "t' = t\<lparr>rt_phase := PhaseDone\<rparr>"
      by (simp_all add: fe)
    have "o' = subslice (pos + from) (pos + tl + k + 1) s"
      unfolding o' using k tl by (simp add: subslice_def drop_take add.commute)
    with out a tl have "out @ o' = owned s r"
      unfolding owned_def b by (simp add: subslice_append)
    with o'(2) t e show ?thesis by (simp add: trim_inv_def)
  qed
qed

lemma feed_inv:
  assumes r: "range_ok s r" and i: "trim_inv s r pos t out" and e: "pos + len \<le> length s"
    and f: "feed t pos (subslice pos (pos + len) s) = (o', t')"
  shows "trim_inv s r (pos + len) t' (out @ o')"
proof (cases "rt_phase t")
  case PhaseSeek
  let ?d = "sr_delimiter r" and ?w = "subslice pos (pos + len) s"
  define sl where "sl = min (sr_end r - 1 - pos) len"
  from i PhaseSeek have t: "rt_start t = sr_start r" "rt_end t = sr_end r" "rt_delimiter t = ?d" "rt_size t = length s"
    and pos: "0 < sr_start r" "sr_start r - 1 \<le> pos" "pos < sr_end r - 1"
    and fr: "free ?d s (sr_start r - 1) pos" and out: "out = []"
    by (simp_all add: trim_inv_def)
  have w: "length ?w = len" "take sl ?w = subslice pos (pos + sl) s"
    using e by (simp, simp add: subslice_def sl_def)
  have seek: "min (sat_sub (sr_end r - 1) pos) len = sl"
    by (simp add: sl_def sat_sub_def)
  have fe: "feed t pos ?w =
      (case position (\<lambda>b. b = ?d) (subslice pos (pos + sl) s) of
         Some k \<Rightarrow> feed_emit (t\<lparr>rt_phase := PhaseEmit\<rparr>) pos ?w (k + 1)
       | None \<Rightarrow> ([], if pos + len \<ge> sr_end r - 1 then t\<lparr>rt_phase := PhaseDone\<rparr> else t))"
    unfolding feed_def Let_def PhaseSeek trim_phase.case w(1) t seek w(2) ..
  show ?thesis
  proof (cases "position (\<lambda>b. b = ?d) (subslice pos (pos + sl) s)")
    case None
    then have "free ?d s pos (pos + sl)" using e by (simp add: free_set position_None sl_def)
    with fr have fr': "free ?d s (sr_start r - 1) (pos + sl)" by (rule free_join)
    from f None have o': "o' = []" "t' = (if pos + len \<ge> sr_end r - 1 then t\<lparr>rt_phase := PhaseDone\<rparr> else t)"
      by (simp_all add: fe)
    show ?thesis
    proof (cases "pos + len \<ge> sr_end r - 1")
      case True
      then have "pos + sl = sr_end r - 1" using pos by (simp add: sl_def)
      with fr' pos r have "next_start ?d s (sr_start r) = next_start ?d s (sr_end r)"
        by (intro next_start_skip) (auto simp: range_ok_def)
      then show ?thesis using True o' t out e by (simp add: trim_inv_def owned_def)
    next
      case False
      then have "sl = len" by (simp add: sl_def)
      with False show ?thesis using o' t out e pos fr' PhaseSeek by (simp add: trim_inv_def)
    qed
  next
    case (Some k)
    have sl: "pos + sl \<le> length s" using e by (simp add: sl_def)
    from position_subslice [OF Some _ sl]
    have k: "k < sl" "s ! (pos + k) = ?d" "free ?d s pos (pos + k)" by simp_all
    from fr k(3) have "free ?d s (sr_start r - 1) (pos + k)" by (rule free_join)
    then have a: "next_start ?d s (sr_start r) = pos + (k + 1)"
      using pos k sl by (subst next_start_eqI [of _ "pos + k"]) auto
    have f': "feed_emit (t\<lparr>rt_phase := PhaseEmit\<rparr>) pos ?w (k + 1) = (o', t')"
      using f Some by (simp add: fe)
    from k(1) have lo: "k + 1 \<le> min (sr_end r - 1 - pos) len" by (simp add: sl_def)
    from feed_emit_inv [OF r e, of "t\<lparr>rt_phase := PhaseEmit\<rparr>" "k + 1", OF _ _ _ _ _ _ lo _ _ f', of out]
      a t out pos(3) show ?thesis by simp
  qed
next
  case PhaseEmit
  with i f e show ?thesis
    by (intro feed_emit_inv [OF r e, of t 0]) (auto simp: trim_inv_def feed_def)
next
  case PhaseDone
  with i f e show ?thesis by (simp add: trim_inv_def feed_def)
qed

section \<open>The ranges of a tiling\<close>

lemma div_ceil_bounds:
  assumes "0 < target"
  shows "sz \<le> div_ceil sz target * target" "div_ceil sz target \<le> sz"
    "0 < sz \<Longrightarrow> 0 < div_ceil sz target" "(div_ceil sz target - 1) * target < sz \<or> sz = 0"
proof -
  define q m where "q = sz div target" and "m = sz mod target"
  have sz: "sz = q * target + m" "m < target" "q \<le> q * target"
    using assms by (simp_all add: q_def m_def)
  have dc: "div_ceil sz target = (if 0 < m then q + 1 else q)"
    by (simp add: div_ceil_def q_def m_def)
  have "sz \<le> div_ceil sz target * target \<and> div_ceil sz target \<le> sz \<and> (0 < sz \<longrightarrow> 0 < div_ceil sz target)
    \<and> ((div_ceil sz target - 1) * target < sz \<or> sz = 0)"
  proof (cases "0 < m")
    case True
    have "(q + 1) * target = q * target + target" by simp
    with True sz have "sz \<le> (q + 1) * target" "q + 1 \<le> sz" "q * target < sz" by linarith+
    with True show ?thesis unfolding dc by simp
  next
    case False
    then show ?thesis unfolding dc using sz assms by (cases q) simp_all
  qed
  then show "sz \<le> div_ceil sz target * target" "div_ceil sz target \<le> sz"
    "0 < sz \<Longrightarrow> 0 < div_ceil sz target" "(div_ceil sz target - 1) * target < sz \<or> sz = 0"
    by simp_all
qed

lemma boundary_exact:
  assumes "sz < 2 ^ 64" "i \<le> n" "n \<le> sz" "0 < n"
  shows "boundary sz n i = i * sz div n"
proof -
  have "i * sz \<le> sz * sz" using assms by simp
  also have "\<dots> < 2 ^ 64 * 2 ^ 64" using assms(1) by (intro mult_strict_mono) auto
  finally have "i * sz < 2 ^ 128" by (simp add: power_add [symmetric])
  moreover have "i * sz div n \<le> n * sz div n" using assms by (intro div_le_mono) simp
  then have "i * sz div n < 2 ^ 64" using assms by simp
  ultimately show ?thesis by (simp add: boundary_def)
qed

lemma div_step:
  fixes a b n :: nat
  assumes "0 < n"
  shows "a div n + b div n \<le> (a + b) div n" "(a + b) div n \<le> a div n + div_ceil b n"
proof -
  have sum: "(a + b) div n = a div n + b div n + (a mod n + b mod n) div n"
    by (rule div_add1_eq)
  have mods: "a mod n < n" "b mod n < n" using assms by simp_all
  then have "(a mod n + b mod n) div n < 2" by (intro less_mult_imp_div_less) linarith
  then have "(a mod n + b mod n) div n \<le> (if 0 < b mod n then 1 else 0)" by simp
  with sum show "a div n + b div n \<le> (a + b) div n" "(a + b) div n \<le> a div n + div_ceil b n"
    by (simp_all add: div_ceil_def split: if_splits)
qed

lemma div_ceil_le: "0 < n \<Longrightarrow> sz \<le> n * target \<Longrightarrow> div_ceil sz n \<le> target"
proof -
  assume n: "0 < n" and le: "sz \<le> n * target"
  from le have le': "sz \<le> target * n" by (simp add: mult.commute)
  show ?thesis
  proof (rule ccontr)
    assume "\<not> div_ceil sz n \<le> target"
    then have "target \<le> div_ceil sz n - 1" by simp
    then have "target * n \<le> (div_ceil sz n - 1) * n" by (rule mult_le_mono1)
    with div_ceil_bounds(4) [OF n, of sz] le' have "sz = 0" by linarith
    with \<open>\<not> div_ceil sz n \<le> target\<close> show False by (simp add: div_ceil_def)
  qed
qed

text \<open>The length of one range of the tiling.\<close>

lemma boundary_step:
  assumes "sz < 2 ^ 64" "0 < target" "n = div_ceil sz target" "i < n"
  shows "boundary sz n i < boundary sz n (i + 1)"
    and "boundary sz n (i + 1) - boundary sz n i \<le> target"
    and "target < sz \<Longrightarrow> target div 2 \<le> boundary sz n (i + 1) - boundary sz n i"
proof -
  note dc = div_ceil_bounds [OF assms(2), of sz, folded assms(3)]
  from assms(4) have n: "0 < n" by simp
  have ex: "boundary sz n i = i * sz div n" "boundary sz n (i + 1) = (i * sz + sz) div n"
    using boundary_exact [OF assms(1), of _ n] assms(4) n dc(2) by (simp_all add: add.commute)
  note step = div_step [OF n, of "i * sz" sz]
  have "0 < sz div n" using dc(2) n by (simp add: div_greater_zero_iff)
  with step(1) show "boundary sz n i < boundary sz n (i + 1)" unfolding ex by linarith
  have "div_ceil sz n \<le> target" using n dc(1) by (rule div_ceil_le)
  with step(2) show "boundary sz n (i + 1) - boundary sz n i \<le> target" unfolding ex by linarith
  assume big: "target < sz"
  then have n2: "2 \<le> n" using dc(1) n by (cases "n = 1") auto
  have "target div 2 * n \<le> sz"
  proof -
    have "target div 2 * n \<le> target div 2 * (2 * (n - 1))" using n2 by (intro mult_le_mono2) simp
    also have "\<dots> = (target div 2 * 2) * (n - 1)" by simp
    also have "\<dots> \<le> target * (n - 1)" by (intro mult_le_mono1) simp
    finally show ?thesis using dc(4) big by (simp add: mult.commute)
  qed
  then have "target div 2 \<le> sz div n" using n by (simp add: less_eq_div_iff_mult_less_eq)
  with step(1) show "target div 2 \<le> boundary sz n (i + 1) - boundary sz n i" unfolding ex by linarith
qed

lemma boundary_ends:
  assumes "sz < 2 ^ 64" "0 < target" "n = div_ceil sz target" "0 < n"
  shows "boundary sz n 0 = 0" "boundary sz n n = sz"
  using boundary_exact [OF assms(1), of n n] div_ceil_bounds(2) [OF assms(2), of sz] assms(3,4)
  by (simp_all add: boundary_def)

lemma tile_Some:
  assumes "0 < target" "n = div_ceil sz target"
  shows "tile sz target d = Some (map (\<lambda>i. split_range_new (boundary sz n i) (boundary sz n (i + 1)) d) [0..<n])"
  using assms by (simp add: tile_def Let_def)

text \<open>Consecutive ranges of an object own consecutive stretches of it.\<close>

lemma owned_consecutive:
  assumes "\<And>i. i < n \<Longrightarrow> f i \<le> f (i + 1)" "f n \<le> length s" "f 0 = 0"
  shows "concat (map (\<lambda>i. owned s (split_range_new (f i) (f (i + 1)) d)) [0..<n])
    = subslice 0 (next_start d s (f n)) s"
  using assms(1,2)
proof (induction n)
  case 0
  then show ?case using assms(3) by simp
next
  case (Suc n)
  have "f n \<le> f (Suc n)" "f n \<le> length s" using Suc.prems(1) [of n] Suc.prems(2) by simp_all
  with Suc show ?case
    by (simp add: owned_def split_range_new_def subslice_append next_start_mono)
qed

lemma tile_owned:
  assumes "length s < 2 ^ 64" "0 < target"
  shows "\<exists>rs. tile (length s) target d = Some rs
    \<and> (\<forall>r\<in>set rs. range_ok s r \<and> sr_delimiter r = d) \<and> concat (map (owned s) rs) = s"
proof -
  let ?n = "div_ceil (length s) target"
  let ?b = "boundary (length s) ?n"
  let ?r = "\<lambda>i. split_range_new (?b i) (?b (i + 1)) d"
  note step = boundary_step [OF assms refl]
  show ?thesis
  proof (cases "?n = 0")
    case True
    with div_ceil_bounds(3) [OF assms(2), of "length s"] have "s = []" by auto
    with True show ?thesis by (simp add: tile_Some [OF assms(2) refl])
  next
    case False
    note ends = boundary_ends [OF assms refl] False
    have top: "?b j \<le> ?b ?n" if "j \<le> ?n" for j
      using that
    proof (induction rule: inc_induct)
      case (step k)
      with \<open>k < ?n\<close> boundary_step(1) [OF assms refl, of k] show ?case by simp
    qed simp
    have "range_ok s (?r i)" if "i < ?n" for i
      using step(1) [OF that] top [of "i + 1"] ends that by (simp add: range_ok_def split_range_new_def)
    moreover have "concat (map (\<lambda>i. owned s (?r i)) [0..<?n]) = s"
      using owned_consecutive [of ?n ?b s d] step(1) ends by (simp add: next_start_length less_imp_le)
    ultimately show ?thesis
      by (simp add: tile_Some [OF assms(2) refl] o_def split_range_new_def)
  qed
qed

text \<open>What a range owns ends at a delimiter, or nothing is left for the ranges after it.\<close>

lemma owned_ends:
  assumes "r = split_range_new a b d" "a < b" "b \<le> length s"
  shows "owned s r = [] \<or> last (owned s r) = d \<or> next_start d s b = length s"
proof -
  have b: "0 < b" using assms(2) by simp
  show ?thesis
    using b
  proof (cases rule: next_start_cases [of b s d])
    case (found j)
    let ?a = "next_start d s a"
    have o': "owned s r = subslice ?a (j + 1) s" using assms(1) found by (simp add: owned_def split_range_new_def)
    show ?thesis
    proof (cases "?a \<le> j")
      case True
      then have "owned s r = subslice ?a j s @ [s ! j]"
        using found(2) subslice_append [of ?a j "j + 1" s] by (simp add: o' subslice_def take_Suc_conv_app_nth)
      then show ?thesis using found by simp
    qed (simp add: o' subslice_def)
  qed simp
qed

lemma owned_past:
  assumes "next_start d s b = length s" "b \<le> a" "a \<le> length s" "r = split_range_new a c d"
  shows "owned s r = []"
  using assms next_start_mono [of b a s d] next_start_le [of d s a]
  by (simp add: owned_def split_range_new_def subslice_def)

lemma tile_pieces:
  assumes "length s < 2 ^ 64" "0 < target" "tile (length s) target d = Some rs" "i < length rs"
  shows "owned s (rs ! i) = [] \<or> last (owned s (rs ! i)) = d \<or> (\<forall>k. i < k \<longrightarrow> k < length rs \<longrightarrow> owned s (rs ! k) = [])"
proof -
  let ?n = "div_ceil (length s) target"
  let ?b = "boundary (length s) ?n"
  have rs: "rs = map (\<lambda>i. split_range_new (?b i) (?b (i + 1)) d) [0..<?n]"
    using assms(3) by (simp add: tile_Some [OF assms(2) refl])
  have step: "?b k < ?b (k + 1)" if "k < ?n" for k using boundary_step(1) [OF assms(1,2) refl that] .
  have mono: "?b j \<le> ?b k" if "j \<le> k" "k \<le> ?n" for j k
    using that
  proof (induction rule: dec_induct)
    case (step k)
    with \<open>k < _\<close> boundary_step(1) [OF assms(1,2) refl, of k] show ?case by simp
  qed simp
  have "0 < ?n" using assms(4) rs by simp
  with boundary_ends [OF assms(1,2) refl] have top: "?b ?n = length s" by simp
  have i: "i < ?n" "rs ! i = split_range_new (?b i) (?b (i + 1)) d" using assms(4) rs by simp_all
  have "?b (i + 1) \<le> length s" using mono [of "i + 1" ?n] i(1) top by simp
  from owned_ends [OF i(2) step [OF i(1)] this] show ?thesis
  proof (elim disjE)
    assume past: "next_start d s (?b (i + 1)) = length s"
    have "owned s (rs ! k) = []" if "i < k" "k < length rs" for k
      using that mono [of "i + 1" k] mono [of k ?n] top rs by (intro owned_past [OF past, of "?b k"]) simp_all
    then show ?thesis by blast
  qed simp_all
qed

text \<open>
  Tiling an object. For an object of a size below \<open>2\<^sup>6\<^sup>4\<close> and a non-zero target,
  \<open>tile\<close> returns \<open>ceil (size / target)\<close> ranges that follow each other without gap or
  overlap from byte 0 to the object's end, none empty, each at most the target long and, for an
  object above the target, at least half of it; neither the 128-bit product nor the
  truncation to 64 bits loses anything.
\<close>
lemma tile_partitions:
  assumes "sz < 2 ^ 64" "0 < target"
  shows "\<exists>rs. tile sz target d = Some rs \<and> length rs = div_ceil sz target
    \<and> (\<forall>i<length rs. sr_start (rs ! i) = (if i = 0 then 0 else sr_end (rs ! (i - 1)))
         \<and> sr_start (rs ! i) < sr_end (rs ! i)
         \<and> sr_end (rs ! i) - sr_start (rs ! i) \<le> target
         \<and> (target < sz \<longrightarrow> target div 2 \<le> sr_end (rs ! i) - sr_start (rs ! i))
         \<and> sr_delimiter (rs ! i) = d)
    \<and> (rs \<noteq> [] \<longrightarrow> sr_end (last rs) = sz)"
proof -
  let ?n = "div_ceil sz target"
  let ?b = "boundary sz ?n"
  let ?rs = "map (\<lambda>i. split_range_new (?b i) (?b (i + 1)) d) [0..<?n]"
  note step = boundary_step [OF assms refl] and ends = boundary_ends [OF assms refl]
  have nth: "?rs ! i = split_range_new (?b i) (?b (i + 1)) d" if "i < ?n" for i
    using that by simp
  have last: "last ?rs = split_range_new (?b (?n - 1)) (?b ?n) d" if "0 < ?n"
    using that by (simp add: last_conv_nth)
  show ?thesis
    by (rule exI [of _ ?rs])
      (use step ends last nth in \<open>auto simp: tile_Some [OF assms(2) refl] split_range_new_def\<close>)
qed

end
