(* ===== verification/S3_Error.thy ===== *)
theory S3_Error
  imports Errors
begin

text \<open>
  How the S3 source reads the failures of its object store: \<open>crates/spate-s3/src/error.rs\<close>,
  with the poison kinds of \<open>lane_ctx.rs\<close> and the unit origins of \<open>unit.rs\<close>.

  A store error is what the code inspects of it: its variant, its message, the messages of the
  errors its source chain links, and the TLS rejection the framework's chain walk (theory
  \<open>Errors\<close>) finds behind it. Messages are byte strings, and a character is a byte.
\<close>

section \<open>Text\<close>

definition starts_with :: "string \<Rightarrow> string \<Rightarrow> bool" where
  "starts_with s p \<longleftrightarrow> take (length p) s = p"

definition ends_with :: "string \<Rightarrow> string \<Rightarrow> bool" where
  "ends_with s suf \<longleftrightarrow> drop (length s - length suf) s = suf"

definition strip_prefix :: "string \<Rightarrow> string \<Rightarrow> string option" where
  "strip_prefix s p = (if starts_with s p then Some (drop (length p) s) else None)"

primrec find_text :: "string \<Rightarrow> string \<Rightarrow> nat option" where
  "find_text [] p = (if p = [] then Some 0 else None)"
| "find_text (c # s) p = (if starts_with (c # s) p then Some 0 else map_option Suc (find_text s p))"

definition contains :: "string \<Rightarrow> string \<Rightarrow> bool" where
  "contains s p \<longleftrightarrow> find_text s p \<noteq> None"

definition quote :: "string \<Rightarrow> string" where
  "quote s = CHR 0x22 # s @ [CHR 0x22]"

section \<open>Store errors\<close>

datatype store_error_kind =
    Generic | NotFound | Precondition | NotModified | AlreadyExists | InvalidPath | NotSupported
  | NotImplemented | PermissionDenied | Unauthenticated | UnknownConfigurationKey | OtherStoreError

record store_error =
  se_kind :: store_error_kind
  se_text :: string
  se_chain :: "string list"
  se_tls :: "string option"

datatype poison_kind = PoisonNotFound | PoisonEtagDrift | PoisonUndecodable | PoisonRetriesExhausted

fun reason_label :: "poison_kind \<Rightarrow> string" where
  "reason_label PoisonNotFound = ''not_found''"
| "reason_label PoisonEtagDrift = ''etag_drift''"
| "reason_label PoisonUndecodable = ''undecodable''"
| "reason_label PoisonRetriesExhausted = ''retries_exhausted''"

datatype origin = Lister | Notification "string option" nat

definition status_marker :: string where
  "status_marker = ''Server returned non-2xx status code: ''"

text \<open>The chain below the error: its source, the request, the status.\<close>

definition list_rejected :: "store_error \<Rightarrow> bool" where
  "list_rejected e \<longleftrightarrow>
     se_kind e = Generic
     \<and> (case se_chain e of
          source # request # status # _ \<Rightarrow>
            starts_with source ''Error performing list request: ''
            \<and> (case strip_prefix status ''Server returned non-2xx status code: '' of
                  None \<Rightarrow> False
                | Some code \<Rightarrow> starts_with code ''401 '' \<or> starts_with code ''403 '')
        | _ \<Rightarrow> False)"

definition delete_rejected :: "store_error \<Rightarrow> bool" where
  "delete_rejected e \<longleftrightarrow>
     se_kind e = Generic
     \<and> (case se_chain e of
          text # _ \<Rightarrow>
            starts_with text ''DeleteObjects request failed for key '' \<and> ends_with text ''(code: AccessDenied)''
        | [] \<Rightarrow> False)"

definition classify :: "store_error \<Rightarrow> error_class" where
  "classify e =
     (if list_rejected e \<or> delete_rejected e \<or> se_tls e \<noteq> None then Fatal
      else case se_kind e of
             Generic \<Rightarrow> Retryable
           | OtherStoreError \<Rightarrow> Retryable
           | _ \<Rightarrow> Fatal)"

definition is_pipeline_fatal :: "store_error \<Rightarrow> bool" where
  "is_pipeline_fatal e \<longleftrightarrow>
     se_tls e \<noteq> None
     \<or> se_kind e \<in> {InvalidPath, NotSupported, NotImplemented, PermissionDenied, Unauthenticated,
                     UnknownConfigurationKey}"

definition range_not_satisfiable :: "store_error \<Rightarrow> bool" where
  "range_not_satisfiable e \<longleftrightarrow>
     list_ex (\<lambda>link. contains link ''Server returned non-2xx status code: 416 '') (se_text e # se_chain e)"

definition is_overwrite :: "store_error \<Rightarrow> origin \<Rightarrow> bool" where
  "is_overwrite e origin \<longleftrightarrow>
     (se_kind e = Precondition \<or> range_not_satisfiable e)
     \<and> (case origin of Notification None _ \<Rightarrow> True | _ \<Rightarrow> False)"

definition poison_kind_of :: "store_error \<Rightarrow> poison_kind" where
  "poison_kind_of e =
     (case se_kind e of
        NotFound \<Rightarrow> PoisonNotFound
      | Precondition \<Rightarrow> PoisonEtagDrift
      | NotModified \<Rightarrow> PoisonEtagDrift
      | AlreadyExists \<Rightarrow> PoisonEtagDrift
      | _ \<Rightarrow> PoisonUndecodable)"

definition ERROR_TEXT_MAX_CHARS :: nat where "ERROR_TEXT_MAX_CHARS = 512"

text \<open>The ellipsis and the dash in their three bytes of UTF-8.\<close>

definition ellipsis :: string where
  "ellipsis = [CHR 0xE2, CHR 0x80, CHR 0xA6]"

definition em_dash :: string where
  "em_dash = [CHR 0xE2, CHR 0x80, CHR 0x94]"

definition bounded_reason :: "store_error \<Rightarrow> string" where
  "bounded_reason e =
     (let text = se_text e;
          body = (case find_text text status_marker of
                    None \<Rightarrow> 0
                  | Some at' \<Rightarrow>
                      let status = at' + length status_marker
                      in case find_text (drop status text) '': '' of
                           None \<Rightarrow> length text
                         | Some end' \<Rightarrow> status + end' + 2);
          text = (if ERROR_TEXT_MAX_CHARS < length (drop body text)
                  then take (body + ERROR_TEXT_MAX_CHARS) text @ ellipsis else text)
      in case se_tls e of Some tls \<Rightarrow> text @ '': '' @ tls | None \<Rightarrow> text)"

definition store_source_error :: "string \<Rightarrow> store_error \<Rightarrow> source_error" where
  "store_source_error doing e = SourceClient (classify e) (doing @ '': '' @ bounded_reason e)"

section \<open>The scope of a failure\<close>

text \<open>A failure that condemns the pipeline is never retried.\<close>

lemma pipeline_fatal_not_retryable: "is_pipeline_fatal e \<Longrightarrow> classify e = Fatal"
  by (auto simp: is_pipeline_fatal_def classify_def)

lemma classify_cases: "classify e = Retryable \<or> classify e = Fatal"
  by (auto simp: classify_def split: store_error_kind.splits)

end
