(* ===== verification/S3_Fetch.thy ===== *)
theory S3_Fetch
  imports S3_Range S3_Error Backoff "HOL-Library.Sublist"
begin

text \<open>
  The fetcher, \<open>crates/spate-s3/src/fetch.rs\<close>: one task per unit part that reads its member
  objects in order and sends their bytes to the lane in bounded chunks, retrying transient
  failures on a budget and reading one window ahead.

  The object store is third-party code: a record of functions, each with the number of the
  attempt as an argument, so that a retried request may answer differently. A path is the text
  the store's own parser makes of a key. The channel to the lane is the list of messages sent
  and, when the lane goes away, how many more it takes. A pause only delays a send, and a wait
  between attempts only delays the attempt: the delays are drawn from the schedule and dropped.
  The read ahead is the value its request returns, kept until the read that uses it.

  A loop that a store or a setting could keep from ending is a partial function into an option;
  the theorems show that it returns.
\<close>

section \<open>Messages and parameters\<close>

record object_entry =
  oe_key :: string
  oe_size :: nat
  oe_etag :: "string option"
  oe_last_modified_ms :: int

record overwrite =
  ow_key :: string
  ow_etag :: "string option"
  ow_size :: nat
  ow_last_modified_ms :: int

datatype split_failure = Poison poison_kind string | FatalFailure source_error | Overwritten overwrite

fun split_failure_display :: "split_failure \<Rightarrow> string" where
  "split_failure_display (Poison k reason) = ''split poisoned: '' @ reason"
| "split_failure_display (FatalFailure e) = source_display e"
| "split_failure_display (Overwritten w) = quote (ow_key w) @ '' was overwritten''"

datatype chunk_msg =
    ObjectStart nat string int
  | Chunk bytes
  | ObjectEnd
  | LaneFailed split_failure

record head_meta =
  hm_etag :: "string option"
  hm_size :: nat
  hm_last_modified_ms :: int

text \<open>
  \<open>st_get path etag version start end k\<close> is the \<open>k\<close>-th conditional ranged GET, drained;
  \<open>st_stream path version k\<close> the \<open>k\<close>-th plain GET, whose body is a stream of pieces.
\<close>

record store =
  st_parse :: "string \<Rightarrow> string + string"
  st_get :: "string \<Rightarrow> string \<Rightarrow> string option \<Rightarrow> nat \<Rightarrow> nat \<Rightarrow> nat \<Rightarrow> store_error + bytes"
  st_stream :: "string \<Rightarrow> string option \<Rightarrow> nat \<Rightarrow> store_error + (store_error + bytes) list"
  st_head :: "string \<Rightarrow> nat \<Rightarrow> store_error + head_meta"

record fetch_env =
  fe_split :: string
  fe_store :: store
  fe_range_bytes :: nat
  fe_chunk_bytes :: nat
  fe_retry_base :: duration
  fe_rnd :: rounding
  fe_origin :: origin

record lane_chan =
  lc_sent :: "chunk_msg list"
  lc_room :: "nat option"

definition chan_send :: "chunk_msg \<Rightarrow> lane_chan \<Rightarrow> bool \<times> lane_chan" where
  "chan_send msg ch =
     (case lc_room ch of
        Some 0 \<Rightarrow> (False, ch)
      | Some (Suc n) \<Rightarrow> (True, ch\<lparr>lc_sent := lc_sent ch @ [msg], lc_room := Some n\<rparr>)
      | None \<Rightarrow> (True, ch\<lparr>lc_sent := lc_sent ch @ [msg]\<rparr>))"

section \<open>Retries\<close>

definition MAX_ATTEMPTS :: nat where "MAX_ATTEMPTS = 8"

definition BACKOFF_CAP :: duration where "BACKOFF_CAP = 5 * 10 ^ 9"

definition retry_backoff :: "duration \<Rightarrow> backoff" where
  "retry_backoff base = backoff_new base BACKOFF_CAP"

record read_budget =
  rb_attempt :: nat
  rb_backoff :: backoff

definition read_budget_new :: "duration \<Rightarrow> read_budget" where
  "read_budget_new retry_base = \<lparr>rb_attempt = 0, rb_backoff = retry_backoff retry_base\<rparr>"

definition fatal_or_poison :: "store_error \<Rightarrow> string \<Rightarrow> poison_kind \<Rightarrow> string \<Rightarrow> split_failure" where
  "fatal_or_poison e fatal kind poison =
     (if is_pipeline_fatal e then FatalFailure (SourceClient Fatal fatal) else Poison kind poison)"

definition retry_or_fail ::
  "fetch_env \<Rightarrow> object_entry \<Rightarrow> store_error \<Rightarrow> nat \<Rightarrow> read_budget \<Rightarrow> split_failure + read_budget" where
  "retry_or_fail E entry e delivered budget =
     (if classify e \<noteq> Retryable then
        let reason = ''split '' @ fe_split E @ '': reading '' @ quote (oe_key entry) @ '' failed at byte ''
                     @ decimal delivered @ '': '' @ bounded_reason e
        in Inl (fatal_or_poison e reason (poison_kind_of e) reason)
      else
        let attempt = rb_attempt budget + 1
        in if attempt \<ge> MAX_ATTEMPTS then
             Inl (Poison PoisonRetriesExhausted
                    (''split '' @ fe_split E @ '': reading '' @ quote (oe_key entry) @ '' still failing at byte ''
                     @ decimal delivered @ '' after '' @ decimal MAX_ATTEMPTS @ '' attempts: '' @ bounded_reason e))
           else Inr \<lparr>rb_attempt = attempt, rb_backoff = snd (next_delay (fe_rnd E) (rb_backoff budget))\<rparr>)"

lemma retry_or_fail_attempt:
  "retry_or_fail E entry e delivered budget = Inr budget' \<Longrightarrow>
     rb_attempt budget' = rb_attempt budget + 1 \<and> rb_attempt budget' < MAX_ATTEMPTS \<and> classify e = Retryable"
  by (auto simp: retry_or_fail_def Let_def split: if_splits)

definition version_of :: "origin \<Rightarrow> string option" where
  "version_of origin = (case origin of Notification version _ \<Rightarrow> version | Lister \<Rightarrow> None)"

definition object_path :: "fetch_env \<Rightarrow> object_entry \<Rightarrow> split_failure + string" where
  "object_path E entry =
     (let bad = (\<lambda>why. Inl (Poison PoisonNotFound
            (''split '' @ fe_split E @ '': '' @ quote (oe_key entry) @ '' is not an object key: '' @ why)))
      in case st_parse (fe_store E) (oe_key entry) of
           Inr path \<Rightarrow>
             if path = oe_key entry then Inr path
             else bad (''the object store would read '' @ quote path @ '' in its place'')
         | Inl why \<Rightarrow> bad why)"

text \<open>\<open>quoted\<close>: an ETag in the form \<open>If-Match\<close> compares.\<close>

definition quoted :: "string \<Rightarrow> string" where
  "quoted etag = (if length etag \<ge> 2 \<and> hd etag = CHR 0x22 \<and> last etag = CHR 0x22 then etag else quote etag)"

definition headed :: "split_failure \<Rightarrow> split_failure" where
  "headed failure =
     (let note = '' (the HEAD after the store refused the pinned read)''
      in case failure of
           Poison kind reason \<Rightarrow> Poison kind (reason @ note)
         | FatalFailure (SourceClient c reason) \<Rightarrow> FatalFailure (SourceClient c (reason @ note))
         | Overwritten w \<Rightarrow> Overwritten w)"

function head_loop :: "fetch_env \<Rightarrow> object_entry \<Rightarrow> string \<Rightarrow> string \<Rightarrow> nat \<Rightarrow> read_budget \<Rightarrow> split_failure" where
  "head_loop E entry path pinned delivered budget =
     (case st_head (fe_store E) path (rb_attempt budget) of
        Inr m \<Rightarrow>
          let etag = map_option quoted (hm_etag m)
          in if etag = Some pinned then
               Poison PoisonEtagDrift
                 (''split '' @ fe_split E @ '': the store refused reading '' @ quote (oe_key entry) @ '' at byte ''
                  @ decimal delivered @ '' under its ETag pin, and the object still reports the ETag '' @ pinned)
             else Overwritten \<lparr>ow_key = oe_key entry, ow_etag = etag, ow_size = hm_size m,
                              ow_last_modified_ms = hm_last_modified_ms m\<rparr>
      | Inl e \<Rightarrow>
          (case retry_or_fail E entry e delivered budget of
             Inl failure \<Rightarrow> headed failure
           | Inr budget' \<Rightarrow> head_loop E entry path pinned delivered budget'))"
  by auto
termination
  by (relation "measure (\<lambda>(E, entry, path, pinned, delivered, budget). MAX_ATTEMPTS - rb_attempt budget)")
    (auto dest!: retry_or_fail_attempt)

definition head_after_overwrite :: "fetch_env \<Rightarrow> object_entry \<Rightarrow> string \<Rightarrow> string \<Rightarrow> nat \<Rightarrow> split_failure" where
  "head_after_overwrite E entry path pinned delivered =
     head_loop E entry path pinned delivered (read_budget_new (fe_retry_base E))"

section \<open>One window\<close>

record window_read =
  wr_path :: string
  wr_entry :: object_entry
  wr_etag :: string
  wr_start :: nat
  wr_end :: nat

function fetch_loop :: "fetch_env \<Rightarrow> window_read \<Rightarrow> read_budget \<Rightarrow> split_failure + bytes" where
  "fetch_loop E w budget =
     (case st_get (fe_store E) (wr_path w) (wr_etag w) (version_of (fe_origin E)) (wr_start w) (wr_end w)
             (rb_attempt budget) of
        Inr bs \<Rightarrow>
          if bs = [] then
            Inl (Poison PoisonUndecodable
                   (''split '' @ fe_split E @ '': ranged read of '' @ quote (oe_key (wr_entry w)) @ '' at byte ''
                    @ decimal (wr_start w) @ '' returned no bytes''))
          else Inr bs
      | Inl e \<Rightarrow>
          if is_overwrite e (fe_origin E) then
            Inl (head_after_overwrite E (wr_entry w) (wr_path w) (wr_etag w) (wr_start w))
          else (case retry_or_fail E (wr_entry w) e (wr_start w) budget of
                  Inl failure \<Rightarrow> Inl failure
                | Inr budget' \<Rightarrow> fetch_loop E w budget'))"
  by auto
termination
  by (relation "measure (\<lambda>(E, w, budget). MAX_ATTEMPTS - rb_attempt budget)") (auto dest!: retry_or_fail_attempt)

declare head_loop.simps [simp del] fetch_loop.simps [simp del]

definition window_fetch :: "fetch_env \<Rightarrow> window_read \<Rightarrow> split_failure + bytes" where
  "window_fetch E w = fetch_loop E w (read_budget_new (fe_retry_base E))"

section \<open>The read loops\<close>

text \<open>
  Handing bytes on in chunks of at most \<open>chunk_bytes\<close>: whether the lane took them all. A zero
  \<open>chunk_bytes\<close> would send empty chunks for as long as the lane takes them.
\<close>

partial_function (option) send_chunks :: "nat \<Rightarrow> bytes \<Rightarrow> lane_chan \<Rightarrow> (bool \<times> lane_chan) option" where
  "send_chunks chunk_bytes bs ch =
     (if bs = [] then Some (True, ch)
      else case chan_send (Chunk (take (min (length bs) chunk_bytes) bs)) ch of
             (taken, ch') \<Rightarrow>
               if taken then send_chunks chunk_bytes (drop (min (length bs) chunk_bytes) bs) ch'
               else Some (False, ch'))"

type_synonym window = "split_failure + bytes"

definition window_end :: "fetch_env \<Rightarrow> object_entry \<Rightarrow> range_trim option \<Rightarrow> nat \<Rightarrow> nat option" where
  "window_end E entry trim at' =
     (let window = max (fe_range_bytes E) 1
      in case trim of
           Some t \<Rightarrow> next_window t at' window (fe_chunk_bytes E)
         | None \<Rightarrow> if at' < oe_size entry then Some (min (sat_add at' window) (oe_size entry)) else None)"

definition trim_feed :: "range_trim option \<Rightarrow> nat \<Rightarrow> bytes \<Rightarrow> bytes \<times> range_trim option" where
  "trim_feed trim delivered buffered =
     (case trim of
        Some t \<Rightarrow> (case feed t delivered buffered of (bs, t') \<Rightarrow> (bs, Some t'))
      | None \<Rightarrow> (buffered, None))"

text \<open>
  The loop of \<open>stream_object_ranged\<close>, with the window in hand. Its result is \<open>Ok(complete)\<close> or the
  failure, the window left read ahead, and the channel.
\<close>

partial_function (option) ranged_loop ::
  "fetch_env \<Rightarrow> object_entry \<Rightarrow> (nat \<Rightarrow> nat \<Rightarrow> window_read) \<Rightarrow> window_read option \<Rightarrow> range_trim option \<Rightarrow> nat
     \<Rightarrow> bytes \<Rightarrow> lane_chan \<Rightarrow> ((split_failure + bool) \<times> window option \<times> lane_chan) option" where
  "ranged_loop E entry read_at next' trim delivered buffered ch =
     (let (bs, trim1) = trim_feed trim delivered buffered;
          following = delivered + length buffered;
          own_next = window_end E entry trim1 following;
          ahead = (case own_next of
                     Some end' \<Rightarrow> Some (window_fetch E (read_at following end'))
                   | None \<Rightarrow> map_option (window_fetch E) next')
      in case send_chunks (fe_chunk_bytes E) bs ch of
           None \<Rightarrow> None
         | Some (taken, ch1) \<Rightarrow>
             if \<not> taken then Some (Inr False, ahead, ch1)
             else (case own_next of
                None \<Rightarrow> Some (Inr True, ahead, ch1)
              | Some end' \<Rightarrow>
                  (case ahead of
                     None \<Rightarrow> None
                   | Some (Inl failure) \<Rightarrow> Some (Inl failure, None, ch1)
                   | Some (Inr window) \<Rightarrow> ranged_loop E entry read_at next' trim1 following window ch1)))"

definition stream_object_ranged ::
  "fetch_env \<Rightarrow> object_entry \<Rightarrow> string \<Rightarrow> range_trim option \<Rightarrow> window option \<Rightarrow> window_read option \<Rightarrow> lane_chan
     \<Rightarrow> ((split_failure + bool) \<times> window option \<times> lane_chan) option" where
  "stream_object_ranged E entry etag trim ahead next' ch =
     (case object_path E entry of
        Inl failure \<Rightarrow> Some (Inl failure, ahead, ch)
      | Inr path \<Rightarrow>
          let read_at = (\<lambda>s e. \<lparr>wr_path = path, wr_entry = entry, wr_etag = etag, wr_start = s, wr_end = e\<rparr>);
              delivered = (case trim of None \<Rightarrow> 0 | Some t \<Rightarrow> first_byte t)
          in case ahead of
               Some (Inl failure) \<Rightarrow> Some (Inl failure, None, ch)
             | Some (Inr buffered) \<Rightarrow> ranged_loop E entry read_at next' trim delivered buffered ch
             | None \<Rightarrow>
                 (case window_end E entry trim delivered of
                    None \<Rightarrow> Some (Inr True, None, ch)
                  | Some end' \<Rightarrow>
                      (case window_fetch E (read_at delivered end') of
                         Inl failure \<Rightarrow> Some (Inl failure, None, ch)
                       | Inr buffered \<Rightarrow> ranged_loop E entry read_at next' trim delivered buffered ch)))"

text \<open>
  The unpinned read. The body's pieces are handed on as they come; a failure after the first byte
  cannot be resumed, and one before it is retried on the budget.
\<close>

datatype stream_end = StreamDone | LaneGone | StreamBroke store_error nat

fun stream_body :: "nat \<Rightarrow> nat \<Rightarrow> (store_error + bytes) list \<Rightarrow> lane_chan \<Rightarrow> (stream_end \<times> lane_chan) option" where
  "stream_body chunk_bytes delivered [] ch = Some (StreamDone, ch)"
| "stream_body chunk_bytes delivered (Inl e # rest) ch = Some (StreamBroke e delivered, ch)"
| "stream_body chunk_bytes delivered (Inr bs # rest) ch =
     (case send_chunks chunk_bytes bs ch of
        None \<Rightarrow> None
      | Some (False, ch') \<Rightarrow> Some (LaneGone, ch')
      | Some (True, ch') \<Rightarrow> stream_body chunk_bytes (delivered + length bs) rest ch')"

function streaming_loop ::
  "fetch_env \<Rightarrow> object_entry \<Rightarrow> string \<Rightarrow> read_budget \<Rightarrow> lane_chan \<Rightarrow> ((split_failure + bool) \<times> lane_chan) option" where
  "streaming_loop E entry path budget ch =
     (case st_stream (fe_store E) path (version_of (fe_origin E)) (rb_attempt budget) of
        Inl e \<Rightarrow>
          (case retry_or_fail E entry e 0 budget of
             Inl failure \<Rightarrow> Some (Inl failure, ch)
           | Inr budget' \<Rightarrow> streaming_loop E entry path budget' ch)
      | Inr body \<Rightarrow>
          (case stream_body (fe_chunk_bytes E) 0 body ch of
             None \<Rightarrow> None
           | Some (StreamDone, ch1) \<Rightarrow> Some (Inr True, ch1)
           | Some (LaneGone, ch1) \<Rightarrow> Some (Inr False, ch1)
           | Some (StreamBroke e delivered, ch1) \<Rightarrow>
               if delivered > 0 then
                 Some (Inl (fatal_or_poison e
                        (''split '' @ fe_split E @ '': reading '' @ quote (oe_key entry) @ '' failed mid-object at byte ''
                         @ decimal delivered @ '': '' @ bounded_reason e)
                        PoisonUndecodable
                        (''split '' @ fe_split E @ '': read of '' @ quote (oe_key entry) @ '' failed mid-object at byte ''
                         @ decimal delivered @ '' and the store reports no ETag to pin a resumed read to: ''
                         @ bounded_reason e)), ch1)
               else (case retry_or_fail E entry e delivered budget of
                       Inl failure \<Rightarrow> Some (Inl failure, ch1)
                     | Inr budget' \<Rightarrow> streaming_loop E entry path budget' ch1)))"
  by auto
termination
  by (relation "measure (\<lambda>(E, entry, path, budget, ch). MAX_ATTEMPTS - rb_attempt budget)")
    (auto dest!: retry_or_fail_attempt)

declare streaming_loop.simps [simp del]

definition stream_object_streaming ::
  "fetch_env \<Rightarrow> object_entry \<Rightarrow> lane_chan \<Rightarrow> ((split_failure + bool) \<times> lane_chan) option" where
  "stream_object_streaming E entry ch =
     (case object_path E entry of
        Inl failure \<Rightarrow> Some (Inl failure, ch)
      | Inr path \<Rightarrow> streaming_loop E entry path (read_budget_new (fe_retry_base E)) ch)"

definition stream_object ::
  "fetch_env \<Rightarrow> object_entry \<Rightarrow> string option \<Rightarrow> split_range option \<Rightarrow> window option \<Rightarrow> window_read option \<Rightarrow> lane_chan
     \<Rightarrow> ((split_failure + bool) \<times> window option \<times> lane_chan) option" where
  "stream_object E entry pinned_etag r ahead next' ch =
     (if oe_size entry = 0 \<and> r = None then Some (Inr True, ahead, ch)
      else case pinned_etag of
             Some etag \<Rightarrow>
               stream_object_ranged E entry etag (map_option (\<lambda>r. trim_new r (oe_size entry)) r) ahead next' ch
           | None \<Rightarrow>
               if r \<noteq> None then
                 Some (Inl (FatalFailure (SourceClient Fatal
                        (''split '' @ fe_split E @ '': ranged read of '' @ quote (oe_key entry)
                         @ '' has no ETag pin '' @ em_dash @ '' internal wiring bug''))), ahead, ch)
               else map_option (\<lambda>(res, ch'). (res, ahead, ch')) (stream_object_streaming E entry ch))"

section \<open>The fetcher\<close>

text \<open>
  The first window of the next member that has bytes, read while the current one is handed on. One
  without an ETag, or whose key is no path, is not read ahead.
\<close>

definition next_read :: "fetch_env \<Rightarrow> split_range option \<Rightarrow> object_entry list \<Rightarrow> window_read option" where
  "next_read E r later =
     (if r \<noteq> None then None
      else case List.find (\<lambda>e. oe_size e > 0) later of
             None \<Rightarrow> None
           | Some e \<Rightarrow>
               (case oe_etag e of
                  None \<Rightarrow> None
                | Some etag \<Rightarrow>
                    (case object_path E e of
                       Inl failure \<Rightarrow> None
                     | Inr path \<Rightarrow>
                         Some \<lparr>wr_path = path, wr_entry = e, wr_etag = etag, wr_start = 0,
                               wr_end = min (max (fe_range_bytes E) 1) (oe_size e)\<rparr>)))"

fun fetch_members ::
  "fetch_env \<Rightarrow> nat \<Rightarrow> string option \<Rightarrow> split_range option \<Rightarrow> nat \<Rightarrow> object_entry list \<Rightarrow> window option \<Rightarrow> lane_chan
     \<Rightarrow> lane_chan option" where
  "fetch_members E start_ordinal resume_etag r ordinal [] ahead ch = Some ch"
| "fetch_members E start_ordinal resume_etag r ordinal (entry # later) ahead ch =
     (let pinned_etag = (if ordinal = start_ordinal \<and> resume_etag \<noteq> None then resume_etag else oe_etag entry)
      in case chan_send (ObjectStart ordinal (oe_key entry) (oe_last_modified_ms entry)) ch of
           (False, ch1) \<Rightarrow> Some ch1
         | (True, ch1) \<Rightarrow>
             (case stream_object E entry pinned_etag r ahead (next_read E r later) ch1 of
                None \<Rightarrow> None
              | Some (Inr False, ahead', ch2) \<Rightarrow> Some ch2
              | Some (Inl failure, ahead', ch2) \<Rightarrow> Some (snd (chan_send (LaneFailed failure) ch2))
              | Some (Inr True, ahead', ch2) \<Rightarrow>
                  (case chan_send ObjectEnd ch2 of
                     (False, ch3) \<Rightarrow> Some ch3
                   | (True, ch3) \<Rightarrow>
                       fetch_members E start_ordinal resume_etag r (ordinal + 1) later ahead' ch3)))"

definition run_fetcher ::
  "fetch_env \<Rightarrow> object_entry list \<Rightarrow> nat \<Rightarrow> string option \<Rightarrow> split_range option \<Rightarrow> lane_chan \<Rightarrow> lane_chan option" where
  "run_fetcher E members start_ordinal resume_etag r ch =
     fetch_members E start_ordinal resume_etag r start_ordinal (drop start_ordinal members) None ch"

section \<open>What a unit's bytes are\<close>

definition chunks_ok :: "nat \<Rightarrow> bytes list \<Rightarrow> bool" where
  "chunks_ok chunk_bytes cs \<longleftrightarrow> (\<forall>c\<in>set cs. c \<noteq> [] \<and> length c \<le> chunk_bytes)"

definition part_bytes :: "bytes \<Rightarrow> split_range option \<Rightarrow> bytes" where
  "part_bytes s r = (case r of None \<Rightarrow> s | Some r \<Rightarrow> owned s r)"

lemma chan_send_stays: "lc_room ch = None \<Longrightarrow> chan_send m ch = (True, ch\<lparr>lc_sent := lc_sent ch @ [m]\<rparr>)"
  by (simp add: chan_send_def)

text \<open>Handing on to a lane that stays sends everything.\<close>

lemma send_chunks_sends:
  assumes "0 < cb" "lc_room ch = None"
  shows "\<exists>cs. send_chunks cb bs ch = Some (True, ch\<lparr>lc_sent := lc_sent ch @ map Chunk cs\<rparr>)
    \<and> chunks_ok cb cs \<and> concat cs = bs"
  using assms(2)
proof (induction bs arbitrary: ch rule: length_induct)
  case (1 bs)
  show ?case
  proof (cases "bs = []")
    case True
    then show ?thesis by (subst send_chunks.simps) (simp add: chunks_ok_def exI [of _ "[]"])
  next
    case False
    let ?n = "min (length bs) cb" and ?ch = "ch\<lparr>lc_sent := lc_sent ch @ [Chunk (take (min (length bs) cb) bs)]\<rparr>"
    have "length (drop ?n bs) < length bs" using False assms(1) by simp
    moreover have "lc_room ?ch = None" using 1(2) by simp
    ultimately obtain cs where cs: "send_chunks cb (drop ?n bs) ?ch = Some (True, ?ch\<lparr>lc_sent := lc_sent ?ch @ map Chunk cs\<rparr>)"
      "chunks_ok cb cs" "concat cs = drop ?n bs" using 1(1) by blast
    show ?thesis
      by (rule exI [of _ "take ?n bs # cs"])
        (use cs False assms(1) 1(2) in \<open>subst send_chunks.simps, simp add: chan_send_stays chunks_ok_def\<close>)
  qed
qed

text \<open>After the object's bytes up to \<open>pos\<close>, with \<open>out\<close> of the part's bytes handed on.\<close>

definition stream_inv :: "bytes \<Rightarrow> split_range option \<Rightarrow> nat \<Rightarrow> range_trim option \<Rightarrow> bytes \<Rightarrow> bool" where
  "stream_inv s r pos trim out \<longleftrightarrow>
     (case (r, trim) of
        (None, None) \<Rightarrow> pos \<le> length s \<and> out = take pos s
      | (Some r, Some t) \<Rightarrow> range_ok s r \<and> trim_inv s r pos t out
      | _ \<Rightarrow> False)"

lemma stream_inv_feed:
  assumes "stream_inv s r pos trim out" "pos + len \<le> length s" "trim_feed trim pos (subslice pos (pos + len) s) = (o', trim')"
  shows "stream_inv s r (pos + len) trim' (out @ o')"
proof (cases r)
  case None
  with assms show ?thesis
    by (auto simp: stream_inv_def trim_feed_def subslice_def take_add split: option.splits)
next
  case (Some r')
  with assms obtain t t' where "trim = Some t" "trim' = Some t'" "range_ok s r'" "trim_inv s r' pos t out"
    "feed t pos (subslice pos (pos + len) s) = (o', t')"
    by (auto simp: stream_inv_def trim_feed_def split: option.splits prod.splits)
  with feed_inv [of s r' pos t out len o' t'] assms(2) Some show ?thesis by (simp add: stream_inv_def)
qed

lemma stream_inv_start:
  assumes "\<And>r'. r = Some r' \<Longrightarrow> range_ok s r'"
  shows "stream_inv s r (case map_option (\<lambda>r. trim_new r (length s)) r of None \<Rightarrow> 0 | Some t \<Rightarrow> first_byte t)
    (map_option (\<lambda>r. trim_new r (length s)) r) []"
  using assms trim_new_inv [of s] by (cases r) (simp_all add: stream_inv_def)

lemma trim_inv_prefix:
  assumes "trim_inv s r pos t out" "range_ok s r"
  shows "prefix out (owned s r)"
proof (cases "rt_phase t")
  case PhaseEmit
  let ?b = "next_start (sr_delimiter r) s (sr_end r)"
  from assms PhaseEmit have "pos \<le> ?b"
    by (intro next_start_past(1)) (auto simp: trim_inv_def range_ok_def)
  with assms PhaseEmit have "owned s r = out @ subslice pos ?b s"
    by (simp add: trim_inv_def owned_def subslice_append)
  then show ?thesis by simp
qed (use assms in \<open>auto simp: trim_inv_def\<close>)

lemma stream_inv_prefix: "stream_inv s r pos trim out \<Longrightarrow> prefix out (part_bytes s r)"
  using trim_inv_prefix
  by (cases r; cases trim) (auto simp: stream_inv_def part_bytes_def take_is_prefix)

lemma stream_inv_end:
  assumes "stream_inv s r pos trim out" "window_end E entry trim pos = None" "oe_size entry = length s"
  shows "out = part_bytes s r"
  using assms trim_inv_end
  by (cases r; cases trim) (auto simp: stream_inv_def part_bytes_def window_end_def split: if_splits)

lemma stream_inv_window:
  assumes "stream_inv s r pos trim out" "window_end E entry trim pos = Some e" "oe_size entry = length s"
    and "length s < 2 ^ 64"
  shows "pos < e" "e \<le> length s"
proof -
  have size: "rt_size t = length s" if "trim = Some t" for t
    using assms(1) that by (auto simp: stream_inv_def trim_inv_def split: option.splits)
  have "pos < e \<and> e \<le> length s"
  proof (cases trim)
    case None
    with assms show ?thesis
      by (auto simp: window_end_def sat_add_def usize_max_def Let_def split: if_splits)
  next
    case (Some t)
    with assms next_window_Some [of t pos "max (fe_range_bytes E) 1" "fe_chunk_bytes E" e] size show ?thesis
      by (simp add: window_end_def)
  qed
  then show "pos < e" "e \<le> length s" by simp_all
qed

section \<open>The fetcher delivers its unit\<close>

text \<open>
  What the store promises: a conditional ranged GET that succeeds returns bytes of the pinned
  content from the first byte asked for, and no more than asked for.
\<close>

definition pinned_store :: "store \<Rightarrow> (string \<Rightarrow> string \<Rightarrow> bytes) \<Rightarrow> bool" where
  "pinned_store st content \<longleftrightarrow>
     (\<forall>path etag v s e k bs. st_get st path etag v s e k = Inr bs \<longrightarrow> s < e \<longrightarrow> e \<le> length (content path etag) \<longrightarrow>
        (\<exists>n. s \<le> n \<and> n \<le> e \<and> bs = subslice s n (content path etag)))"

lemma fetch_loop_bytes:
  assumes "pinned_store (fe_store E) content" "fetch_loop E w budget = Inr bs"
    and "wr_start w < wr_end w" "wr_end w \<le> length (content (wr_path w) (wr_etag w))"
  shows "\<exists>len. 0 < len \<and> wr_start w + len \<le> wr_end w
    \<and> bs = subslice (wr_start w) (wr_start w + len) (content (wr_path w) (wr_etag w))"
  using assms
proof (induction E w budget rule: fetch_loop.induct)
  case (1 E w budget)
  note step = "1.prems"(2) [unfolded fetch_loop.simps [of E w budget]]
  show ?case
  proof (cases "st_get (fe_store E) (wr_path w) (wr_etag w) (version_of (fe_origin E)) (wr_start w) (wr_end w) (rb_attempt budget)")
    case (Inl e)
    with step obtain budget' where "\<not> is_overwrite e (fe_origin E)"
      "retry_or_fail E (wr_entry w) e (wr_start w) budget = Inr budget'" "fetch_loop E w budget' = Inr bs"
      by (auto split: if_splits sum.splits)
    with "1.IH" [OF Inl] "1.prems" show ?thesis by blast
  next
    case (Inr bs')
    with step have bs: "bs' = bs" "bs \<noteq> []" by (auto split: if_splits)
    with Inr "1.prems" obtain n where n: "wr_start w \<le> n" "n \<le> wr_end w" "bs = subslice (wr_start w) n (content (wr_path w) (wr_etag w))"
      unfolding pinned_store_def by blast
    with bs(2) have "wr_start w < n" by (cases "wr_start w = n") simp_all
    with n show ?thesis by (intro exI [of _ "n - wr_start w"]) simp
  qed
qed

lemma window_fetch_bytes:
  assumes "pinned_store (fe_store E) content" "window_fetch E w = Inr bs"
    and "wr_start w < wr_end w" "wr_end w \<le> length (content (wr_path w) (wr_etag w))"
  shows "\<exists>len. 0 < len \<and> wr_start w + len \<le> wr_end w
    \<and> bs = subslice (wr_start w) (wr_start w + len) (content (wr_path w) (wr_etag w))"
  using fetch_loop_bytes [OF assms(1) assms(2) [unfolded window_fetch_def] assms(3,4)] .

text \<open>
  The loop returns. It has handed on a prefix of the part's bytes, and all of them if it says so;
  a lane that stays is never reported gone.
\<close>

lemma ranged_loop_delivers:
  assumes E: "pinned_store (fe_store E) content" "0 < fe_chunk_bytes E"
    and s: "s = content path etag" "oe_size entry = length s" "length s < 2 ^ 64"
    and read_at: "read_at = (\<lambda>a b. \<lparr>wr_path = path, wr_entry = entry, wr_etag = etag, wr_start = a, wr_end = b\<rparr>)"
    and ch: "lc_room ch = None"
    and inv: "stream_inv s r pos trim out"
    and len: "0 < len" "pos + len \<le> length s"
  shows "\<exists>res ahead cs. ranged_loop E entry read_at nxt trim pos (subslice pos (pos + len) s) ch
      = Some (res, ahead, ch\<lparr>lc_sent := lc_sent ch @ map Chunk cs\<rparr>)
    \<and> chunks_ok (fe_chunk_bytes E) cs \<and> prefix (out @ concat cs) (part_bytes s r) \<and> res \<noteq> Inr False
    \<and> (res = Inr True \<longrightarrow> out @ concat cs = part_bytes s r \<and> ahead = map_option (window_fetch E) nxt)"
  using ch inv len
proof (induction "length s - pos" arbitrary: pos trim out len ch rule: less_induct)
  case less
  let ?w = "subslice pos (pos + len) s"
  obtain bs trim1 where feed: "trim_feed trim pos ?w = (bs, trim1)" by fastforce
  from send_chunks_sends [OF E(2) less.prems(1), of bs] obtain cs where
    cs: "send_chunks (fe_chunk_bytes E) bs ch = Some (True, ch\<lparr>lc_sent := lc_sent ch @ map Chunk cs\<rparr>)"
      "chunks_ok (fe_chunk_bytes E) cs" "concat cs = bs" by blast
  have inv1: "stream_inv s r (pos + len) trim1 (out @ concat cs)"
    using stream_inv_feed [OF less.prems(2,4) feed] cs(3) by simp
  note unf = ranged_loop.simps [of E entry read_at nxt trim pos ?w ch]
  have lw: "length ?w = len" using less.prems by simp
  show ?case
  proof (cases "window_end E entry trim1 (pos + len)")
    case None
    with stream_inv_end [OF inv1 None s(2)] cs feed show ?thesis
      unfolding unf by (simp add: lw Let_def exI [of _ cs])
  next
    case (Some e)
    note e = stream_inv_window [OF inv1 Some s(2,3)]
    show ?thesis
    proof (cases "window_fetch E (read_at (pos + len) e)")
      case (Inl f)
      with stream_inv_prefix [OF inv1] Some cs feed show ?thesis
        unfolding unf by (simp add: lw Let_def exI [of _ cs])
    next
      case (Inr bs')
      obtain l where l: "0 < l" "pos + len + l \<le> e" "bs' = subslice (pos + len) (pos + len + l) s"
        using window_fetch_bytes [OF E(1) Inr] e s(1) by (auto simp: read_at)
      let ?ch = "ch\<lparr>lc_sent := lc_sent ch @ map Chunk cs\<rparr>"
      have "length s - (pos + len) < length s - pos" using less.prems by simp
      from less.hyps [OF this, of ?ch trim1 "out @ concat cs" l] less.prems(1) inv1 l e
      obtain res ahead ds where ds: "ranged_loop E entry read_at nxt trim1 (pos + len) bs' ?ch
          = Some (res, ahead, ?ch\<lparr>lc_sent := lc_sent ?ch @ map Chunk ds\<rparr>)"
        "chunks_ok (fe_chunk_bytes E) ds" "prefix (out @ concat (cs @ ds)) (part_bytes s r)" "res \<noteq> Inr False"
        "res = Inr True \<longrightarrow> out @ concat (cs @ ds) = part_bytes s r \<and> ahead = map_option (window_fetch E) nxt"
        by auto
      show ?thesis
        by (rule exI [of _ res], rule exI [of _ ahead], rule exI [of _ "cs @ ds"], unfold unf)
          (use ds cs feed Some Inr in \<open>auto simp: lw Let_def chunks_ok_def\<close>)
    qed
  qed
qed

text \<open>The window a member's own read starts with, if it was read ahead.\<close>

definition own_ahead :: "fetch_env \<Rightarrow> object_entry \<Rightarrow> string \<Rightarrow> split_range option \<Rightarrow> window option \<Rightarrow> bool" where
  "own_ahead E entry etag r ahead \<longleftrightarrow>
     ahead = None
     \<or> r = None \<and> ahead = Some (window_fetch E \<lparr>wr_path = oe_key entry, wr_entry = entry, wr_etag = etag, wr_start = 0,
                                      wr_end = min (max (fe_range_bytes E) 1) (oe_size entry)\<rparr>)"

lemma object_path_key: "object_path E entry = Inr path \<Longrightarrow> path = oe_key entry"
  by (auto simp: object_path_def Let_def split: sum.splits if_splits)

lemma stream_ranged_delivers:
  assumes E: "pinned_store (fe_store E) content" "0 < fe_chunk_bytes E"
    and s: "s = content (oe_key entry) etag" "oe_size entry = length s" "length s < 2 ^ 64"
    and r: "\<And>r'. r = Some r' \<Longrightarrow> range_ok s r'" "r = None \<Longrightarrow> 0 < length s"
    and ch: "lc_room ch = None" and ahead: "own_ahead E entry etag r ahead"
    and trim: "trim = map_option (\<lambda>r. trim_new r (length s)) r"
  shows "\<exists>res ahead' cs. stream_object_ranged E entry etag trim ahead nxt ch
      = Some (res, ahead', ch\<lparr>lc_sent := lc_sent ch @ map Chunk cs\<rparr>)
    \<and> chunks_ok (fe_chunk_bytes E) cs \<and> prefix (concat cs) (part_bytes s r) \<and> res \<noteq> Inr False
    \<and> (res = Inr True \<longrightarrow> concat cs = part_bytes s r \<and> ahead' \<in> {None, map_option (window_fetch E) nxt})"
proof (cases "object_path E entry")
  case (Inl f)
  then show ?thesis
    by (simp add: stream_object_ranged_def exI [of _ "[]"] chunks_ok_def)
next
  case (Inr path)
  define pos where "pos = (case trim of None \<Rightarrow> 0 | Some t \<Rightarrow> first_byte t)"
  let ?read_at = "\<lambda>a b. \<lparr>wr_path = path, wr_entry = entry, wr_etag = etag, wr_start = a, wr_end = b\<rparr>"
  note path = object_path_key [OF Inr]
  note inv = stream_inv_start [of r s, OF r(1), folded trim, folded pos_def]
  have fetched: ?thesis
    if run: "stream_object_ranged E entry etag trim ahead nxt ch =
        (case window_fetch E (?read_at pos e) of
           Inl failure \<Rightarrow> Some (Inl failure, None, ch)
         | Inr buffered \<Rightarrow> ranged_loop E entry ?read_at nxt trim pos buffered ch)"
      and e: "pos < e" "e \<le> length s" for e
  proof (cases "window_fetch E (?read_at pos e)")
    case (Inl f)
    with run show ?thesis by (simp add: exI [of _ "[]"] chunks_ok_def)
  next
    case (Inr bs)
    obtain len where len: "0 < len" "pos + len \<le> e" "bs = subslice pos (pos + len) s"
      using window_fetch_bytes [OF E(1) Inr] e s(1) path by auto
    with run Inr have "stream_object_ranged E entry etag trim ahead nxt ch
        = ranged_loop E entry ?read_at nxt trim pos (subslice pos (pos + len) s) ch" by simp
    with ranged_loop_delivers [OF E, of s path etag entry ?read_at ch r pos trim "[]" len nxt] s path ch inv len e
    show ?thesis by auto
  qed
  show ?thesis
  proof (cases "window_end E entry trim pos")
    case None
    have "ahead = None"
      using ahead None r(2) s(2) by (auto simp: own_ahead_def window_end_def trim pos_def)
    with Inr None stream_inv_end [OF inv None s(2)] show ?thesis
      by (simp add: stream_object_ranged_def Let_def pos_def [symmetric] exI [of _ "[]"] chunks_ok_def)
  next
    case (Some e)
    note win = stream_inv_window [OF inv Some s(2,3)]
    show ?thesis
    proof (rule fetched [OF _ win])
      show "stream_object_ranged E entry etag trim ahead nxt ch =
        (case window_fetch E (?read_at pos e) of
           Inl failure \<Rightarrow> Some (Inl failure, None, ch)
         | Inr buffered \<Rightarrow> ranged_loop E entry ?read_at nxt trim pos buffered ch)"
      proof (cases "ahead = None")
        case True
        with Inr Some show ?thesis by (simp add: stream_object_ranged_def Let_def pos_def [symmetric])
      next
        case False
        with ahead have r': "r = None" and a: "ahead = Some (window_fetch E (?read_at 0 (min (max (fe_range_bytes E) 1) (length s))))"
          using path s(2) by (auto simp: own_ahead_def)
        have "e = min (max (fe_range_bytes E) 1) (length s)"
          using Some r' s by (auto simp: window_end_def sat_add_def usize_max_def Let_def trim pos_def split: if_splits)
        moreover have "pos = 0" using r' by (simp add: trim pos_def)
        ultimately show ?thesis
          using a Inr by (simp add: stream_object_ranged_def Let_def pos_def [symmetric] split: sum.splits)
      qed
    qed
  qed
qed

lemma stream_object_delivers:
  assumes E: "pinned_store (fe_store E) content" "0 < fe_chunk_bytes E"
    and s: "s = content (oe_key entry) etag" "oe_size entry = length s" "length s < 2 ^ 64"
    and r: "\<And>r'. r = Some r' \<Longrightarrow> range_ok s r'"
    and ch: "lc_room ch = None" and ahead: "oe_size entry = 0 \<and> r = None \<or> own_ahead E entry etag r ahead"
  shows "\<exists>res ahead' cs. stream_object E entry (Some etag) r ahead nxt ch
      = Some (res, ahead', ch\<lparr>lc_sent := lc_sent ch @ map Chunk cs\<rparr>)
    \<and> chunks_ok (fe_chunk_bytes E) cs \<and> prefix (concat cs) (part_bytes s r) \<and> res \<noteq> Inr False
    \<and> (res = Inr True \<longrightarrow> concat cs = part_bytes s r
         \<and> (if oe_size entry = 0 \<and> r = None then ahead' = ahead
             else ahead' \<in> {None, map_option (window_fetch E) nxt}))"
proof (cases "oe_size entry = 0 \<and> r = None")
  case True
  with s(2) show ?thesis by (simp add: stream_object_def part_bytes_def exI [of _ "[]"] chunks_ok_def)
next
  case False
  with s(2) r ahead have "r = None \<Longrightarrow> 0 < length s" "own_ahead E entry etag r ahead" by auto
  from stream_ranged_delivers [OF E s r this(1) ch this(2) refl, of nxt] False show ?thesis
    unfolding stream_object_def s(2) by auto
qed

section \<open>The unit's messages\<close>

text \<open>
  The messages of a unit from ordinal \<open>k\<close> on, \<open>B k e\<close> being the bytes of its member \<open>e\<close>: each
  member opened, its part's bytes in chunks, closed. The flag says whether the unit was read to
  its end; otherwise the last message is the failure, after a prefix of a member's bytes.
\<close>

inductive unit_stream ::
  "nat \<Rightarrow> (nat \<Rightarrow> object_entry \<Rightarrow> bytes) \<Rightarrow> split_range option \<Rightarrow> nat \<Rightarrow> object_entry list \<Rightarrow> chunk_msg list \<Rightarrow> bool \<Rightarrow> bool"
  for cb B r where
  us_end: "unit_stream cb B r k [] [] True"
| us_member: "chunks_ok cb cs \<Longrightarrow> concat cs = part_bytes (B k e) r \<Longrightarrow> unit_stream cb B r (k + 1) es ms done \<Longrightarrow>
    unit_stream cb B r k (e # es)
      (ObjectStart k (oe_key e) (oe_last_modified_ms e) # map Chunk cs @ ObjectEnd # ms) done"
| us_fail: "chunks_ok cb cs \<Longrightarrow> prefix (concat cs) (part_bytes (B k e) r) \<Longrightarrow>
    unit_stream cb B r k (e # es)
      (ObjectStart k (oe_key e) (oe_last_modified_ms e) # map Chunk cs @ [LaneFailed f]) False"

inductive_cases unit_stream_NilE: "unit_stream cb B r k [] ms done"
inductive_cases unit_stream_ConsE: "unit_stream cb B r k (e # es) ms done"

definition pinned_etag :: "nat \<Rightarrow> string option \<Rightarrow> nat \<Rightarrow> object_entry \<Rightarrow> string option" where
  "pinned_etag start resume_etag ordinal e = (if ordinal = start \<and> resume_etag \<noteq> None then resume_etag else oe_etag e)"

definition member_bytes :: "(string \<Rightarrow> string \<Rightarrow> bytes) \<Rightarrow> nat \<Rightarrow> string option \<Rightarrow> nat \<Rightarrow> object_entry \<Rightarrow> bytes" where
  "member_bytes content start resume_etag ordinal e = content (oe_key e) (the (pinned_etag start resume_etag ordinal e))"

definition member_ok :: "(string \<Rightarrow> string \<Rightarrow> bytes) \<Rightarrow> nat \<Rightarrow> string option \<Rightarrow> split_range option \<Rightarrow> nat \<Rightarrow> object_entry \<Rightarrow> bool" where
  "member_ok content start resume_etag r ordinal e \<longleftrightarrow>
     (let s = member_bytes content start resume_etag ordinal e
      in pinned_etag start resume_etag ordinal e \<noteq> None \<and> oe_size e = length s \<and> length s < 2 ^ 64
         \<and> (case r of None \<Rightarrow> True | Some r' \<Rightarrow> range_ok s r'))"

text \<open>A window read ahead is the first one of the next member that has bytes.\<close>

definition ahead_ok :: "fetch_env \<Rightarrow> split_range option \<Rightarrow> object_entry list \<Rightarrow> window option \<Rightarrow> bool" where
  "ahead_ok E r members ahead \<longleftrightarrow>
     ahead = None \<or> (\<exists>w. next_read E r members = Some w \<and> ahead = Some (window_fetch E w))"

lemma ahead_ok_own:
  assumes "ahead_ok E r (e # es) ahead" "oe_size e \<noteq> 0" "oe_etag e = Some etag"
  shows "own_ahead E e etag r ahead"
  using assms
  by (auto simp: ahead_ok_def own_ahead_def next_read_def split: option.splits sum.splits if_splits dest!: object_path_key)

lemma ahead_ok_skip:
  assumes "oe_size e = 0" "ahead_ok E r (e # es) ahead"
  shows "ahead_ok E r es ahead"
proof -
  have "next_read E r (e # es) = next_read E r es" using assms(1) by (simp add: next_read_def)
  with assms(2) show ?thesis by (simp add: ahead_ok_def)
qed

lemma ahead_ok_next: "ahead \<in> {None, map_option (window_fetch E) (next_read E r es)} \<Longrightarrow> ahead_ok E r es ahead"
  by (auto simp: ahead_ok_def)

lemma fetch_members_delivers:
  assumes E: "pinned_store (fe_store E) content" "0 < fe_chunk_bytes E"
    and "\<And>i. i < length es \<Longrightarrow> member_ok content start resume_etag r (k + i) (es ! i)"
    and "lc_room ch = None" "k = start \<Longrightarrow> ahead = None" "start \<le> k" "ahead_ok E r es ahead"
  shows "\<exists>ms done. fetch_members E start resume_etag r k es ahead ch = Some (ch\<lparr>lc_sent := lc_sent ch @ ms\<rparr>)
    \<and> unit_stream (fe_chunk_bytes E) (member_bytes content start resume_etag) r k es ms done"
  using assms(3-)
proof (induction es arbitrary: k ahead ch)
  case Nil
  then show ?case by (simp add: exI [of _ "[]"] us_end exI [of _ True])
next
  case (Cons e es)
  let ?B = "member_bytes content start resume_etag" and ?cb = "fe_chunk_bytes E"
  let ?start = "ObjectStart k (oe_key e) (oe_last_modified_ms e)"
  let ?ch = "ch\<lparr>lc_sent := lc_sent ch @ [?start]\<rparr>"
  from Cons.prems(1) [of 0] obtain etag where etag: "pinned_etag start resume_etag k e = Some etag"
    and s: "?B k e = content (oe_key e) etag" "oe_size e = length (?B k e)" "length (?B k e) < 2 ^ 64"
    and r: "\<And>r'. r = Some r' \<Longrightarrow> range_ok (?B k e) r'"
    by (auto simp: member_ok_def member_bytes_def Let_def split: option.splits)
  have own: "oe_size e = 0 \<and> r = None \<or> own_ahead E e etag r ahead"
  proof (cases "ahead = None")
    case False
    with Cons.prems(3) etag have "oe_etag e = Some etag" by (auto simp: pinned_etag_def split: if_splits)
    moreover from False Cons.prems(5) have "r = None" by (auto simp: ahead_ok_def next_read_def split: if_splits)
    ultimately show ?thesis using ahead_ok_own Cons.prems(5) by blast
  qed (simp add: own_ahead_def)
  obtain res ahead' cs where so: "stream_object E e (Some etag) r ahead (next_read E r es) ?ch
      = Some (res, ahead', ?ch\<lparr>lc_sent := lc_sent ?ch @ map Chunk cs\<rparr>)"
    and cs: "chunks_ok ?cb cs" "prefix (concat cs) (part_bytes (?B k e) r)" "res \<noteq> Inr False"
    and done': "res = Inr True \<longrightarrow> concat cs = part_bytes (?B k e) r
         \<and> (if oe_size e = 0 \<and> r = None then ahead' = ahead else ahead' \<in> {None, map_option (window_fetch E) (next_read E r es)})"
    using stream_object_delivers [OF E s r _ own, of ?ch "next_read E r es"] Cons.prems(2) by auto
  have run: "fetch_members E start resume_etag r k (e # es) ahead ch =
      (case res of
         Inl f \<Rightarrow> Some (ch\<lparr>lc_sent := lc_sent ch @ ?start # map Chunk cs @ [LaneFailed f]\<rparr>)
       | Inr _ \<Rightarrow> fetch_members E start resume_etag r (k + 1) es ahead'
                   (ch\<lparr>lc_sent := lc_sent ch @ ?start # map Chunk cs @ [ObjectEnd]\<rparr>))"
    using so cs(3) Cons.prems(2) etag
    by (auto simp: chan_send_stays pinned_etag_def Let_def split: sum.splits)
  show ?case
  proof (cases res)
    case (Inl f)
    show ?thesis
      unfolding run Inl using us_fail [of ?cb cs ?B k e r es f] cs(1,2) by auto
  next
    case (Inr b)
    with done' cs(3) have d: "concat cs = part_bytes (?B k e) r"
      "if oe_size e = 0 \<and> r = None then ahead' = ahead else ahead' \<in> {None, map_option (window_fetch E) (next_read E r es)}"
      by auto
    then have ok: "ahead_ok E r es ahead'"
      using ahead_ok_skip [of e E r es ahead] ahead_ok_next [of ahead' E r es] Cons.prems(5) by (auto split: if_splits)
    let ?ch2 = "ch\<lparr>lc_sent := lc_sent ch @ ?start # map Chunk cs @ [ObjectEnd]\<rparr>"
    have "member_ok content start resume_etag r (k + 1 + i) (es ! i)" if "i < length es" for i
      using Cons.prems(1) [of "Suc i"] that by simp
    from Cons.IH [of "k + 1" ?ch2 ahead', OF this] Cons.prems(2,4) ok
    obtain ms fin where ms: "fetch_members E start resume_etag r (k + 1) es ahead' ?ch2 = Some (?ch2\<lparr>lc_sent := lc_sent ?ch2 @ ms\<rparr>)"
      "unit_stream ?cb ?B r (k + 1) es ms fin" by auto
    show ?thesis
      unfolding run Inr using ms us_member [of ?cb cs ?B k e r es ms fin] cs(1) d(1) by auto
  qed
qed

end
