(* ===== verification/Framing.thy ===== *)
theory Framing
  imports Slices
begin

text \<open>
  Streaming record framing: the seam of \<open>crates/spate-core/src/framing/mod.rs\<close> and its
  newline-delimited instance \<open>NdjsonFramer\<close> of \<open>crates/spate-json/src/framing.rs\<close>.

  A framer is fed decoded bytes in arbitrary chunks and queues completed records. The locale
  \<open>record_framer\<close> is the trait's written contract: the records and the failure are a function
  of the byte stream alone, however it is cut into \<open>push\<close> calls, and a stream may be framed
  piecewise at the framer's resynchronisation delimiter. It is interpreted on the NDJSON
  framer, whose record sequence is then shown equal to a whole-stream reference.
\<close>

section \<open>The seam\<close>

datatype io_error_kind = InvalidData | WriteZero | OtherKind

record io_error =
  io_kind :: io_error_kind
  io_msg :: string

datatype framing_contract = PerRecord | WholePayload

text \<open>
  A trait object \<open>Box<dyn RecordFramer>\<close> is a state with the operations of its type; a fallible
  operation returns its error, if any, beside the state it leaves behind.
\<close>

record 'f framer_ops =
  fr_push :: "bytes \<Rightarrow> 'f \<Rightarrow> io_error option \<times> 'f"
  fr_finish :: "'f \<Rightarrow> io_error option \<times> 'f"
  fr_pop :: "'f \<Rightarrow> bytes option \<times> 'f"
  fr_decoded_bytes :: "'f \<Rightarrow> nat"
  fr_resync_delimiter :: "'f \<Rightarrow> 8 word option"

text \<open>\<open>FramerWriter\<close>: a \<open>Write\<close> target that forwards every buffer to the framer.\<close>

definition framer_write :: "'f framer_ops \<Rightarrow> bytes \<Rightarrow> 'f \<Rightarrow> (io_error + nat) \<times> 'f" where
  "framer_write ops buf f =
     (case fr_push ops buf f of
        (Some e, f') \<Rightarrow> (Inl e, f')
      | (None, f') \<Rightarrow> (Inr (length buf), f'))"

definition framer_flush :: "'f \<Rightarrow> (io_error + unit) \<times> 'f" where
  "framer_flush f = (Inr (), f)"

section \<open>The NDJSON framer\<close>

record ndjson_framer =
  nf_partial :: bytes
  nf_ready :: "bytes list"
  nf_decoded_bytes :: nat
  nf_max_record_bytes :: nat

definition newline :: "8 word" where
  "newline = 10"

definition carriage_return :: "8 word" where
  "carriage_return = 13"

text \<open>\<open>u8::is_ascii_whitespace\<close>: tab, line feed, form feed, carriage return, space.\<close>

definition is_ascii_whitespace :: "8 word \<Rightarrow> bool" where
  "is_ascii_whitespace b \<longleftrightarrow> b \<in> {9, 10, 12, 13, 32}"

definition ndjson_new :: "nat \<Rightarrow> ndjson_framer" where
  "ndjson_new max_record_bytes =
     \<lparr>nf_partial = [], nf_ready = [], nf_decoded_bytes = 0, nf_max_record_bytes = max_record_bytes\<rparr>"

definition record_too_long :: "nat \<Rightarrow> io_error" where
  "record_too_long cap =
     \<lparr>io_kind = InvalidData,
      io_msg = ''record line exceeds the configured max_record_bytes ('' @ decimal cap
               @ ''); is the stream really newline-delimited?''\<rparr>"

definition push_partial :: "bytes \<Rightarrow> ndjson_framer \<Rightarrow> io_error option \<times> ndjson_framer" where
  "push_partial bs f =
     (if length (nf_partial f) + length bs > nf_max_record_bytes f
      then (Some (record_too_long (nf_max_record_bytes f)), f)
      else (None, f\<lparr>nf_partial := nf_partial f @ bs\<rparr>))"

definition complete_line :: "ndjson_framer \<Rightarrow> ndjson_framer" where
  "complete_line f =
     (let partial = nf_partial f;
          partial = (if partial \<noteq> [] \<and> last partial = carriage_return then butlast partial else partial)
      in if list_all is_ascii_whitespace partial then f\<lparr>nf_partial := []\<rparr>
         else f\<lparr>nf_partial := [], nf_ready := nf_ready f @ [partial]\<rparr>)"

function ndjson_push_loop :: "bytes \<Rightarrow> ndjson_framer \<Rightarrow> io_error option \<times> ndjson_framer" where
  "ndjson_push_loop rest f =
     (case position (\<lambda>b. b = newline) rest of
        None \<Rightarrow> push_partial rest f
      | Some nl \<Rightarrow>
          (case push_partial (take nl rest) f of
             (Some e, f') \<Rightarrow> (Some e, f')
           | (None, f') \<Rightarrow> ndjson_push_loop (drop (nl + 1) rest) (complete_line f')))"
  by auto
termination
  by (relation "measure (\<lambda>(rest, f). length rest)") (auto dest: position_SomeD)

declare ndjson_push_loop.simps [simp del]

definition ndjson_push :: "bytes \<Rightarrow> ndjson_framer \<Rightarrow> io_error option \<times> ndjson_framer" where
  "ndjson_push bs f = ndjson_push_loop bs (f\<lparr>nf_decoded_bytes := nf_decoded_bytes f + length bs\<rparr>)"

definition ndjson_finish :: "ndjson_framer \<Rightarrow> io_error option \<times> ndjson_framer" where
  "ndjson_finish f = (None, if nf_partial f \<noteq> [] then complete_line f else f)"

definition ndjson_pop :: "ndjson_framer \<Rightarrow> bytes option \<times> ndjson_framer" where
  "ndjson_pop f =
     (case nf_ready f of
        [] \<Rightarrow> (None, f)
      | r # rs \<Rightarrow> (Some r, f\<lparr>nf_ready := rs\<rparr>))"

definition ndjson_resync_delimiter :: "ndjson_framer \<Rightarrow> 8 word option" where
  "ndjson_resync_delimiter f = Some newline"

definition ndjson_ops :: "ndjson_framer framer_ops" where
  "ndjson_ops =
     \<lparr>fr_push = ndjson_push, fr_finish = ndjson_finish, fr_pop = ndjson_pop,
      fr_decoded_bytes = nf_decoded_bytes, fr_resync_delimiter = ndjson_resync_delimiter\<rparr>"

section \<open>Framing a whole stream\<close>

text \<open>
  How a caller reads a stream: push the chunks until one fails, end the stream if none did,
  and take the records the framer queued. The result is the records and the error.
\<close>

primrec feed_chunks :: "'f framer_ops \<Rightarrow> bytes list \<Rightarrow> 'f \<Rightarrow> io_error option \<times> 'f" where
  "feed_chunks ops [] f = (None, f)"
| "feed_chunks ops (c # cs) f =
     (case fr_push ops c f of
        (Some e, f') \<Rightarrow> (Some e, f')
      | (None, f') \<Rightarrow> feed_chunks ops cs f')"

definition feed_and_finish :: "'f framer_ops \<Rightarrow> bytes list \<Rightarrow> 'f \<Rightarrow> io_error option \<times> 'f" where
  "feed_and_finish ops cs f =
     (case feed_chunks ops cs f of
        (Some e, f') \<Rightarrow> (Some e, f')
      | (None, f') \<Rightarrow> fr_finish ops f')"

text \<open>Popping until the queue is empty; \<open>n\<close> bounds the pops.\<close>

primrec pop_all :: "'f framer_ops \<Rightarrow> nat \<Rightarrow> 'f \<Rightarrow> bytes list" where
  "pop_all ops 0 f = []"
| "pop_all ops (Suc n) f =
     (case fr_pop ops f of
        (None, f') \<Rightarrow> []
      | (Some r, f') \<Rightarrow> r # pop_all ops n f')"

text \<open>Two framings one after the other: the second is reached only if the first did not fail.\<close>

definition framed :: "'f framer_ops \<Rightarrow> ('f \<Rightarrow> bytes list) \<Rightarrow> 'f \<Rightarrow> bytes list \<Rightarrow> bytes list \<times> io_error option" where
  "framed ops queue f cs = (case feed_and_finish ops cs f of (e, f') \<Rightarrow> (queue f', e))"

definition frame_then :: "'a list \<times> 'e option \<Rightarrow> 'a list \<times> 'e option \<Rightarrow> 'a list \<times> 'e option" where
  "frame_then r s = (case r of (rs, Some e) \<Rightarrow> (rs, Some e) | (rs, None) \<Rightarrow> (rs @ fst s, snd s))"

lemma frame_then_ok [simp]: "frame_then (rs, None) s = (rs @ fst s, snd s)"
  by (simp add: frame_then_def)

lemma frame_then_err [simp]: "frame_then (rs, Some e) s = (rs, Some e)"
  by (simp add: frame_then_def)

lemma frame_then_nil [simp]: "frame_then ([], None) s = s" "frame_then r ([], None) = r"
  by (cases r; cases "snd r"; simp add: frame_then_def)+

lemma frame_then_assoc: "frame_then (frame_then r s) t = frame_then r (frame_then s t)"
  by (cases r; cases "snd r"; cases s; cases "snd s") auto

section \<open>The framer contract\<close>

text \<open>
  Two calls end alike: the same error with the same records queued, or both without an error
  and in the same state. What a failed framer buffered past its records is not observable.
\<close>

definition same_end :: "('f \<Rightarrow> bytes list) \<Rightarrow> io_error option \<times> 'f \<Rightarrow> io_error option \<times> 'f \<Rightarrow> bool" where
  "same_end queue x y \<longleftrightarrow>
     fst x = fst y \<and> queue (snd x) = queue (snd y) \<and> (fst y = None \<longrightarrow> snd x = snd y)"

lemma same_end_refl: "same_end queue x x"
  by (simp add: same_end_def)

lemma same_end_sym: "same_end queue x y \<Longrightarrow> same_end queue y x"
  by (auto simp: same_end_def)

lemma same_end_trans: "same_end queue x y \<Longrightarrow> same_end queue y z \<Longrightarrow> same_end queue x z"
  by (auto simp: same_end_def)

locale record_framer =
  fixes ops :: "'f framer_ops" and fresh :: 'f and queue :: "'f \<Rightarrow> bytes list" and ok :: "'f \<Rightarrow> bool"
  assumes fresh: "ok fresh" "queue fresh = []"
    and push_ok: "ok f \<Longrightarrow> ok (snd (fr_push ops bs f))"
    and push_nil: "ok f \<Longrightarrow> fr_push ops [] f = (None, f)"
    and push_append:
      "ok f \<Longrightarrow> fr_push ops as f = (None, f1) \<Longrightarrow>
         same_end queue (fr_push ops (as @ bs) f) (fr_push ops bs f1)"
    and push_append_err:
      "ok f \<Longrightarrow> fr_push ops as f = (Some e, f1) \<Longrightarrow>
         same_end queue (fr_push ops (as @ bs) f) (Some e, f1)"
    and pop_empty: "queue f = [] \<Longrightarrow> fst (fr_pop ops f) = None"
    and pop_first: "queue f = r # rs \<Longrightarrow> fst (fr_pop ops f) = Some r \<and> queue (snd (fr_pop ops f)) = rs"
    and finish_fresh: "framed ops queue fresh [] = ([], None)"
    and resync:
      "fr_resync_delimiter ops fresh = Some d \<Longrightarrow>
         framed ops queue fresh [as @ d # bs] =
           frame_then (framed ops queue fresh [as @ [d]]) (framed ops queue fresh [bs])"
begin

lemma pop_all_queue: "length (queue f) \<le> n \<Longrightarrow> pop_all ops n f = queue f"
proof (induction n arbitrary: f)
  case (Suc n)
  show ?case
  proof (cases "queue f")
    case Nil
    then show ?thesis using pop_empty [OF Nil] by (auto split: prod.splits)
  next
    case (Cons r rs)
    with pop_first [OF Cons] Suc show ?thesis by (auto split: prod.splits)
  qed
qed simp

text \<open>Pushing chunk by chunk ends like one push of all of them.\<close>

lemma feed_chunks_concat: "ok f \<Longrightarrow> same_end queue (feed_chunks ops cs f) (fr_push ops (concat cs) f)"
proof (induction cs arbitrary: f)
  case Nil
  then show ?case by (simp add: push_nil same_end_refl)
next
  case (Cons c cs)
  obtain r f1 where p: "fr_push ops c f = (r, f1)" by fastforce
  show ?case
  proof (cases r)
    case None
    with p push_ok [OF Cons.prems, of c] have ok: "ok f1" by simp
    have "same_end queue (fr_push ops (c @ concat cs) f) (fr_push ops (concat cs) f1)"
      using p None by (intro push_append Cons.prems) simp
    from same_end_trans [OF Cons.IH [OF ok] same_end_sym [OF this]] p None
    show ?thesis by simp
  next
    case (Some e)
    have "same_end queue (fr_push ops (c @ concat cs) f) (Some e, f1)"
      using p Some by (intro push_append_err Cons.prems) simp
    from same_end_sym [OF this] p Some show ?thesis by simp
  qed
qed

text \<open>The records and the error do not depend on the chunks.\<close>

lemma framed_concat: "ok f \<Longrightarrow> framed ops queue f cs = framed ops queue f [concat cs]"
  using feed_chunks_concat [of f cs]
  by (cases "feed_chunks ops cs f"; cases "fr_push ops (concat cs) f"; cases "fst (feed_chunks ops cs f)")
    (auto simp: framed_def feed_and_finish_def same_end_def)

lemma framed_chunking: "concat cs = concat cs' \<Longrightarrow> framed ops queue fresh cs = framed ops queue fresh cs'"
  using framed_concat [OF fresh(1)] by metis

text \<open>
  A stream cut into pieces that end at delimiters, but for the last that is not empty, is framed
  piece by piece.
\<close>

lemma framed_nil: "framed ops queue fresh [[]] = ([], None)"
  using framed_concat [OF fresh(1), of "[]"] finish_fresh by simp

lemma framed_pieces:
  assumes "fr_resync_delimiter ops fresh = Some d"
    and "\<And>i. i < length ps \<Longrightarrow> ps ! i = [] \<or> last (ps ! i) = d \<or> (\<forall>k. i < k \<longrightarrow> k < length ps \<longrightarrow> ps ! k = [])"
  shows "framed ops queue fresh [concat ps] = foldr (\<lambda>p. frame_then (framed ops queue fresh [p])) ps ([], None)"
  using assms(2)
proof (induction ps)
  case Nil
  then show ?case by (simp add: framed_nil)
next
  case (Cons p ps)
  have later: "ps ! i = [] \<or> last (ps ! i) = d \<or> (\<forall>k. i < k \<longrightarrow> k < length ps \<longrightarrow> ps ! k = [])" if "i < length ps" for i
    using Cons.prems [of "Suc i"] that by (auto dest: spec [where x = "Suc k" for k])
  note IH = Cons.IH [OF later]
  have rest: "concat ps = []" if "\<forall>k. 0 < k \<longrightarrow> k < length (p # ps) \<longrightarrow> (p # ps) ! k = []"
    using that by (fastforce simp: in_set_conv_nth concat_eq_Nil_conv dest: spec [where x = "Suc k" for k])
  consider "p = []" | as where "p = as @ [d]" | "concat ps = []"
    using Cons.prems [of 0] rest by (metis append_butlast_last_id length_greater_0_conv list.discI nth_Cons_0)
  then show ?case
  proof cases
    case 2
    then show ?thesis using resync [OF assms(1), of as "concat ps"] IH by simp
  next
    case 3
    with IH framed_nil have "foldr (\<lambda>p. frame_then (framed ops queue fresh [p])) ps ([], None) = ([], None)" by simp
    with 3 show ?thesis by (simp only: concat.simps append_Nil2 foldr.simps o_apply frame_then_nil)
  qed (simp add: framed_nil IH)
qed

end

text \<open>
  Popping between pushes. A framer's queue is an output: taking records out of it changes nothing
  about what later pushes complete, so a caller may drain after every step. \<open>drained f\<close> is \<open>f\<close>
  with its queue emptied.
\<close>

locale drainable_framer = record_framer ops fresh queue ok
  for ops :: "'f framer_ops" and fresh :: 'f and queue :: "'f \<Rightarrow> bytes list" and ok :: "'f \<Rightarrow> bool" +
  fixes drained :: "'f \<Rightarrow> 'f"
  assumes drained_ok: "ok f \<Longrightarrow> ok (drained f)"
    and queue_drained: "queue (drained f) = []"
    and drained_empty: "queue f = [] \<Longrightarrow> drained f = f"
    and drained_pop: "queue f \<noteq> [] \<Longrightarrow> drained (snd (fr_pop ops f)) = drained f"
    and pop_nothing: "queue f = [] \<Longrightarrow> snd (fr_pop ops f) = f"
    and push_drained:
      "fst (fr_push ops bs f) = fst (fr_push ops bs (drained f))"
      "queue (snd (fr_push ops bs f)) = queue f @ queue (snd (fr_push ops bs (drained f)))"
      "drained (snd (fr_push ops bs f)) = drained (snd (fr_push ops bs (drained f)))"
    and finish_drained:
      "fst (fr_finish ops f) = fst (fr_finish ops (drained f))"
      "queue (snd (fr_finish ops f)) = queue f @ queue (snd (fr_finish ops (drained f)))"
begin

text \<open>Feeding and finishing from a drained state, with what was queued before put in front.\<close>

lemma feed_chunks_drained:
  "fst (feed_chunks ops cs f) = fst (feed_chunks ops cs (drained f))
   \<and> queue (snd (feed_chunks ops cs f)) = queue f @ queue (snd (feed_chunks ops cs (drained f)))
   \<and> drained (snd (feed_chunks ops cs f)) = drained (snd (feed_chunks ops cs (drained f)))"
proof (induction cs arbitrary: f)
  case Nil
  then show ?case by (simp add: queue_drained drained_empty)
next
  case (Cons c cs)
  obtain r g where g: "fr_push ops c (drained f) = (r, g)" by fastforce
  obtain r' h where h: "fr_push ops c f = (r', h)" by fastforce
  note d = push_drained [where bs = c and f = f, unfolded g h fst_conv snd_conv]
  show ?case
  proof (cases r)
    case None
    with Cons.IH [of h] Cons.IH [of g] d g h show ?thesis by simp
  next
    case (Some e)
    with d g h show ?thesis by simp
  qed
qed

lemma framed_drained: "framed ops queue f cs = frame_then (queue f, None) (framed ops queue (drained f) cs)"
proof -
  obtain r g where g: "feed_chunks ops cs (drained f) = (r, g)" by fastforce
  obtain r' h where h: "feed_chunks ops cs f = (r', h)" by fastforce
  note d = feed_chunks_drained [of cs f, unfolded g h fst_conv snd_conv]
  have "fst (fr_finish ops h) = fst (fr_finish ops g)"
    "queue (snd (fr_finish ops h)) = queue f @ queue (snd (fr_finish ops g))"
    using d finish_drained [of h] finish_drained [of g] by simp_all
  then show ?thesis
    using d g h
    by (cases r; cases "fr_finish ops g"; cases "fr_finish ops h") (simp_all add: framed_def feed_and_finish_def)
qed

end

section \<open>The NDJSON framer meets the contract\<close>

text \<open>
  The whole-stream reference: split at newlines, and for each line in order fail if it is longer
  than the cap, otherwise strip one carriage return and drop it if nothing but white space is
  left.
\<close>

definition strip_cr :: "bytes \<Rightarrow> bytes" where
  "strip_cr l = (if l \<noteq> [] \<and> last l = carriage_return then butlast l else l)"

definition line_records :: "bytes \<Rightarrow> bytes list" where
  "line_records l = filter (\<lambda>r. \<not> list_all is_ascii_whitespace r) [strip_cr l]"

definition frame_line :: "nat \<Rightarrow> bytes \<Rightarrow> bytes list \<times> io_error option" where
  "frame_line cap l = (if length l > cap then ([], Some (record_too_long cap)) else (line_records l, None))"

definition frame_lines :: "nat \<Rightarrow> bytes list \<Rightarrow> bytes list \<times> io_error option" where
  "frame_lines cap ls = foldr (\<lambda>l. frame_then (frame_line cap l)) ls ([], None)"

definition ndjson_reference :: "nat \<Rightarrow> bytes \<Rightarrow> bytes list \<times> io_error option" where
  "ndjson_reference cap s = frame_lines cap (slice_split (\<lambda>b. b = newline) s)"

lemma frame_lines_simps [simp]:
  "frame_lines cap [] = ([], None)"
  "frame_lines cap (l # ls) = frame_then (frame_line cap l) (frame_lines cap ls)"
  by (simp_all add: frame_lines_def)

lemma frame_lines_append: "frame_lines cap (ls @ ms) = frame_then (frame_lines cap ls) (frame_lines cap ms)"
  by (induction ls) (simp_all add: frame_then_assoc)

lemma frame_line_nil [simp]: "frame_line cap [] = ([], None)"
  by (simp add: frame_line_def line_records_def strip_cr_def)

lemma frame_lines_length: "length (fst (frame_lines cap ls)) \<le> length ls"
  by (induction ls) (auto simp: frame_line_def line_records_def)

lemma ndjson_reference_resync:
  "ndjson_reference cap (as @ newline # bs) =
     frame_then (ndjson_reference cap (as @ [newline])) (ndjson_reference cap bs)"
  using slice_split_delim [of "\<lambda>b. b = newline" newline as]
  by (simp add: ndjson_reference_def frame_lines_append frame_then_assoc)

text \<open>One push is a walk over the lines of its chunk, the last of which stays open.\<close>

fun push_lines :: "bytes list \<Rightarrow> ndjson_framer \<Rightarrow> io_error option \<times> ndjson_framer" where
  "push_lines [] f = (None, f)"
| "push_lines [l] f = push_partial l f"
| "push_lines (l # ls) f =
     (case push_partial l f of
        (Some e, f') \<Rightarrow> (Some e, f')
      | (None, f') \<Rightarrow> push_lines ls (complete_line f'))"

lemma push_lines_Cons:
  "ls \<noteq> [] \<Longrightarrow> push_lines (l # ls) f =
     (case push_partial l f of
        (Some e, f') \<Rightarrow> (Some e, f')
      | (None, f') \<Rightarrow> push_lines ls (complete_line f'))"
  by (auto simp: neq_Nil_conv)

lemma ndjson_push_loop_lines: "ndjson_push_loop rest f = push_lines (slice_split (\<lambda>b. b = newline) rest) f"
proof (induction rest f rule: ndjson_push_loop.induct)
  case (1 rest f)
  show ?case
  proof (cases "position (\<lambda>b. b = newline) rest")
    case None
    then have "slice_split (\<lambda>b. b = newline) rest = [rest]"
      by (simp add: slice_split_free position_None)
    with None show ?thesis
      by (subst ndjson_push_loop.simps) simp
  next
    case (Some nl)
    note sp = position_split [OF Some]
    have "slice_split (\<lambda>b. b = newline) rest = take nl rest # slice_split (\<lambda>b. b = newline) (drop (nl + 1) rest)"
      using slice_split_at [of "take nl rest" "\<lambda>b. b = newline" newline "drop (nl + 1) rest"] sp by simp
    with 1 [OF Some] Some show ?thesis
      by (subst ndjson_push_loop.simps) (simp add: push_lines_Cons split: option.splits prod.splits)
  qed
qed

lemma push_partial_frame [simp]:
  "nf_ready (snd (push_partial l f)) = nf_ready f"
  "nf_max_record_bytes (snd (push_partial l f)) = nf_max_record_bytes f"
  by (simp_all add: push_partial_def)

lemma complete_line_fields [simp]:
  "nf_partial (complete_line f) = []"
  "nf_ready (complete_line f) = nf_ready f @ line_records (nf_partial f)"
  "nf_max_record_bytes (complete_line f) = nf_max_record_bytes f"
  "nf_decoded_bytes (complete_line f) = nf_decoded_bytes f"
  by (simp_all add: complete_line_def line_records_def strip_cr_def Let_def)

lemma complete_line_decoded:
  "complete_line (f\<lparr>nf_decoded_bytes := n\<rparr>) = (complete_line f)\<lparr>nf_decoded_bytes := n\<rparr>"
  by (simp add: complete_line_def Let_def)

lemma push_partial_decoded:
  "push_partial l (f\<lparr>nf_decoded_bytes := n\<rparr>) = apsnd (\<lambda>g. g\<lparr>nf_decoded_bytes := n\<rparr>) (push_partial l f)"
  by (simp add: push_partial_def)

lemma push_lines_decoded:
  "push_lines ls (f\<lparr>nf_decoded_bytes := n\<rparr>) = apsnd (\<lambda>g. g\<lparr>nf_decoded_bytes := n\<rparr>) (push_lines ls f)"
  by (induction ls f rule: push_lines.induct)
    (simp_all add: push_partial_decoded complete_line_decoded split: option.splits prod.splits)

lemma push_partial_keeps:
  "push_partial l f = (r, f') \<Longrightarrow>
     nf_max_record_bytes f' = nf_max_record_bytes f \<and> nf_decoded_bytes f' = nf_decoded_bytes f
     \<and> (length (nf_partial f) \<le> nf_max_record_bytes f \<longrightarrow> length (nf_partial f') \<le> nf_max_record_bytes f)"
  by (auto simp: push_partial_def split: if_splits)

lemma push_lines_keeps:
  "push_lines ls f = (r, f') \<Longrightarrow>
     nf_max_record_bytes f' = nf_max_record_bytes f \<and> nf_decoded_bytes f' = nf_decoded_bytes f
     \<and> (length (nf_partial f) \<le> nf_max_record_bytes f \<longrightarrow> length (nf_partial f') \<le> nf_max_record_bytes f)"
proof (induction ls arbitrary: f)
  case (Cons l ls)
  obtain q g where p: "push_partial l f = (q, g)" by fastforce
  note k = push_partial_keeps [OF p]
  show ?case
  proof (cases "ls = [] \<or> q \<noteq> None")
    case True
    with Cons.prems p have "f' = g" by (cases ls) (auto simp: push_lines_Cons)
    with k show ?thesis by simp
  next
    case False
    with Cons.prems p have "push_lines ls (complete_line g) = (r, f')" by (simp add: push_lines_Cons)
    from Cons.IH [OF this] k show ?thesis by simp
  qed
qed simp

lemma push_partial_append:
  "push_partial x f = (None, f1) \<Longrightarrow>
     same_end nf_ready (push_partial (x @ y) f) (push_partial y f1)
     \<and> (fst (push_partial y f1) = None \<longrightarrow> push_partial (x @ y) f = push_partial y f1)"
  by (auto simp: push_partial_def same_end_def split: if_splits)

lemma push_partial_append_err:
  "push_partial x f = (Some e, f1) \<Longrightarrow> push_partial (x @ y) f = (Some e, f) \<and> f1 = f"
  by (auto simp: push_partial_def split: if_splits)

lemma push_lines_join:
  "push_lines (ls @ [x]) f = (None, f1) \<Longrightarrow>
     same_end nf_ready (push_lines (ls @ (x @ y) # ms) f) (push_lines (y # ms) f1)"
proof (induction ls arbitrary: f)
  case Nil
  show ?case
  proof (cases "ms = []")
    case True
    with Nil push_partial_append show ?thesis by simp
  next
    case False
    with push_partial_append [of x f f1 y] Nil show ?thesis
      by (cases "push_partial (x @ y) f"; cases "push_partial y f1"; cases "fst (push_partial y f1)")
        (auto simp: push_lines_Cons same_end_def)
  qed
next
  case (Cons l ls)
  then show ?case
    by (cases "push_partial l f"; cases "fst (push_partial l f)") (simp_all add: push_lines_Cons)
qed

lemma push_lines_join_err:
  "push_lines (ls @ [x]) f = (Some e, f1) \<Longrightarrow> push_lines (ls @ (x @ y) # ms) f = (Some e, f1)"
proof (induction ls arbitrary: f)
  case Nil
  with push_partial_append_err [of x f e f1 y] show ?case
    by (cases ms) (auto simp: push_lines_Cons)
next
  case (Cons l ls)
  then show ?case
    by (cases "push_partial l f"; cases "fst (push_partial l f)") (simp_all add: push_lines_Cons)
qed

lemma push_lines_finish:
  assumes "length (nf_partial f) \<le> nf_max_record_bytes f"
  shows "(case push_lines (l # ls) f of
            (Some e, f') \<Rightarrow> (nf_ready f', Some e)
          | (None, f') \<Rightarrow> (nf_ready (snd (ndjson_finish f')), None))
         = frame_then (nf_ready f, None) (frame_lines (nf_max_record_bytes f) ((nf_partial f @ l) # ls))"
  using assms
proof (induction ls arbitrary: l f)
  case Nil
  then show ?case
    by (auto simp: push_partial_def frame_line_def ndjson_finish_def line_records_def strip_cr_def)
next
  case (Cons m ls)
  show ?case
  proof (cases "length (nf_partial f @ l) > nf_max_record_bytes f")
    case True
    then show ?thesis by (simp add: push_lines_Cons push_partial_def frame_line_def)
  next
    case False
    let ?g = "complete_line (f\<lparr>nf_partial := nf_partial f @ l\<rparr>)"
    from False have "push_lines (l # m # ls) f = push_lines (m # ls) ?g"
      by (simp add: push_partial_def)
    then show ?thesis using Cons.IH [of ?g m] False by (simp add: frame_line_def)
  qed
qed

section \<open>Interpretation\<close>

definition nf_ok :: "nat \<Rightarrow> ndjson_framer \<Rightarrow> bool" where
  "nf_ok cap f \<longleftrightarrow> nf_max_record_bytes f = cap \<and> length (nf_partial f) \<le> cap"

lemmas ndjson_ops_simps [simp] =
  ndjson_ops_def [THEN arg_cong [of _ _ fr_push], simplified]
  ndjson_ops_def [THEN arg_cong [of _ _ fr_finish], simplified]
  ndjson_ops_def [THEN arg_cong [of _ _ fr_pop], simplified]
  ndjson_ops_def [THEN arg_cong [of _ _ fr_resync_delimiter], simplified]

lemma ndjson_push_lines:
  "ndjson_push bs f =
     apsnd (\<lambda>g. g\<lparr>nf_decoded_bytes := nf_decoded_bytes f + length bs\<rparr>)
       (push_lines (slice_split (\<lambda>b. b = newline) bs) f)"
  by (simp add: ndjson_push_def ndjson_push_loop_lines push_lines_decoded)

lemma ndjson_push_append:
  assumes "ndjson_push as f = (None, f1)"
  shows "same_end nf_ready (ndjson_push (as @ bs) f) (ndjson_push bs f1)"
proof -
  let ?sp = "slice_split (\<lambda>b. b = newline)"
  from assms obtain g where g: "push_lines (?sp as) f = (None, g)"
    and f1: "f1 = g\<lparr>nf_decoded_bytes := nf_decoded_bytes f + length as\<rparr>"
    by (cases "push_lines (?sp as) f") (auto simp: ndjson_push_lines)
  have "same_end nf_ready (push_lines (?sp (as @ bs)) f) (push_lines (?sp bs) g)"
    unfolding slice_split_append using push_lines_join [of "butlast (?sp as)" "last (?sp as)" f g "hd (?sp bs)" "tl (?sp bs)"] g by simp
  then show ?thesis
    unfolding f1 ndjson_push_lines push_lines_decoded
    by (cases "push_lines (?sp (as @ bs)) f"; cases "push_lines (?sp bs) g") (auto simp: same_end_def)
qed

lemma ndjson_push_append_err:
  assumes "ndjson_push as f = (Some e, f1)"
  shows "same_end nf_ready (ndjson_push (as @ bs) f) (Some e, f1)"
proof -
  let ?sp = "slice_split (\<lambda>b. b = newline)"
  from assms obtain g where g: "push_lines (?sp as) f = (Some e, g)"
    and f1: "f1 = g\<lparr>nf_decoded_bytes := nf_decoded_bytes f + length as\<rparr>"
    by (cases "push_lines (?sp as) f") (auto simp: ndjson_push_lines)
  have "push_lines (?sp (as @ bs)) f = (Some e, g)"
    unfolding slice_split_append using push_lines_join_err [of "butlast (?sp as)" "last (?sp as)"] g by simp
  then show ?thesis
    unfolding f1 ndjson_push_lines by (simp add: same_end_def)
qed

lemma ndjson_framed_whole: "framed ndjson_ops nf_ready (ndjson_new cap) [bs] = ndjson_reference cap bs"
proof -
  let ?sp = "slice_split (\<lambda>b. b = newline) bs"
  obtain l ls where sp: "?sp = l # ls"
    using slice_split_ne by (cases ?sp) blast+
  obtain r g where p: "push_lines (l # ls) (ndjson_new cap) = (r, g)" by fastforce
  have finish: "ndjson_finish (g\<lparr>nf_decoded_bytes := n\<rparr>) = apsnd (\<lambda>g. g\<lparr>nf_decoded_bytes := n\<rparr>) (ndjson_finish g)"
    "fst (ndjson_finish g) = None" for n
    by (simp_all add: ndjson_finish_def complete_line_decoded)
  from p have "framed ndjson_ops nf_ready (ndjson_new cap) [bs] =
      (case push_lines (l # ls) (ndjson_new cap) of
         (Some e, f') \<Rightarrow> (nf_ready f', Some e)
       | (None, f') \<Rightarrow> (nf_ready (snd (ndjson_finish f')), None))"
    using finish(2) by (cases r; cases "ndjson_finish g")
      (simp_all add: framed_def feed_and_finish_def ndjson_push_lines sp finish(1))
  then show ?thesis
    using push_lines_finish [of "ndjson_new cap" l ls] by (simp add: sp ndjson_reference_def ndjson_new_def)
qed

interpretation ndjson: record_framer ndjson_ops "ndjson_new cap" nf_ready "nf_ok cap" for cap
proof
  fix f bs
  assume "nf_ok cap f"
  then show "nf_ok cap (snd (fr_push ndjson_ops bs f))"
    using push_lines_keeps [of "slice_split (\<lambda>b. b = newline) bs" f]
    by (cases "push_lines (slice_split (\<lambda>b. b = newline) bs) f") (auto simp: ndjson_push_lines nf_ok_def)
next
  fix d as bs
  assume "fr_resync_delimiter ndjson_ops (ndjson_new cap) = Some d"
  then have "d = newline" by (simp add: ndjson_resync_delimiter_def)
  then show "framed ndjson_ops nf_ready (ndjson_new cap) [as @ d # bs] =
      frame_then (framed ndjson_ops nf_ready (ndjson_new cap) [as @ [d]]) (framed ndjson_ops nf_ready (ndjson_new cap) [bs])"
    by (simp only: ndjson_framed_whole ndjson_reference_resync [of cap as bs])
next
  show "framed ndjson_ops nf_ready (ndjson_new cap) [] = ([], None)"
    by (simp add: framed_def feed_and_finish_def ndjson_finish_def ndjson_new_def)
qed (auto simp: nf_ok_def ndjson_new_def ndjson_push_lines [of "[]"] push_partial_def ndjson_pop_def
    intro: ndjson_push_append ndjson_push_append_err)

text \<open>Its queue is an output only.\<close>

definition nf_drained :: "ndjson_framer \<Rightarrow> ndjson_framer" where
  "nf_drained f = f\<lparr>nf_ready := []\<rparr>"

lemma push_lines_drained:
  "fst (push_lines ls f) = fst (push_lines ls (nf_drained f))
   \<and> nf_ready (snd (push_lines ls f)) = nf_ready f @ nf_ready (snd (push_lines ls (nf_drained f)))
   \<and> nf_drained (snd (push_lines ls f)) = nf_drained (snd (push_lines ls (nf_drained f)))"
proof (induction ls arbitrary: f)
  case Nil
  then show ?case by (simp add: nf_drained_def)
next
  case (Cons l ls)
  let ?g = "f\<lparr>nf_partial := nf_partial f @ l\<rparr>"
  consider "length (nf_partial f) + length l > nf_max_record_bytes f"
    | "\<not> length (nf_partial f) + length l > nf_max_record_bytes f" "ls = []"
    | "\<not> length (nf_partial f) + length l > nf_max_record_bytes f" "ls \<noteq> []" by blast
  then show ?case
  proof cases
    case 3
    let ?h = "(nf_drained f)\<lparr>nf_partial := nf_partial f @ l\<rparr>"
    have same: "nf_drained (complete_line ?h) = nf_drained (complete_line ?g)"
      by (simp add: complete_line_def nf_drained_def Let_def)
    have e: "push_lines (l # ls) f = push_lines ls (complete_line ?g)"
      "push_lines (l # ls) (nf_drained f) = push_lines ls (complete_line ?h)"
      using 3 by (simp_all add: push_lines_Cons push_partial_def nf_drained_def)
    have q: "nf_ready (complete_line ?g) = nf_ready f @ nf_ready (complete_line ?h)"
      by (simp add: nf_drained_def)
    show ?thesis
      unfolding e using Cons.IH [of "complete_line ?g"] Cons.IH [of "complete_line ?h"] same q by simp
  qed (cases ls; simp add: push_partial_def push_lines_Cons nf_drained_def)+
qed

interpretation ndjson: drainable_framer ndjson_ops "ndjson_new cap" nf_ready "nf_ok cap" nf_drained for cap
proof
  fix bs f
  note d = push_lines_drained [of "slice_split (\<lambda>b. b = newline) bs" f]
  have comm: "nf_drained (g\<lparr>nf_decoded_bytes := n\<rparr>) = (nf_drained g)\<lparr>nf_decoded_bytes := n\<rparr>" for g n
    by (simp add: nf_drained_def)
  have fields: "nf_decoded_bytes (nf_drained g) = nf_decoded_bytes g" for g
    by (simp add: nf_drained_def)
  show "fst (fr_push ndjson_ops bs f) = fst (fr_push ndjson_ops bs (nf_drained f))"
    using d by (simp add: ndjson_push_lines)
  show "nf_ready (snd (fr_push ndjson_ops bs f)) = nf_ready f @ nf_ready (snd (fr_push ndjson_ops bs (nf_drained f)))"
    using d by (simp add: ndjson_push_lines)
  show "nf_drained (snd (fr_push ndjson_ops bs f)) = nf_drained (snd (fr_push ndjson_ops bs (nf_drained f)))"
    using d comm by (simp add: ndjson_push_lines fields)
qed (auto simp: nf_drained_def nf_ok_def ndjson_pop_def ndjson_finish_def neq_Nil_conv)

lemma ndjson_framed: "framed ndjson_ops nf_ready (ndjson_new cap) cs = ndjson_reference cap (concat cs)"
  using ndjson.framed_concat [OF ndjson.fresh(1)] ndjson_framed_whole by simp

text \<open>
  C31. The NDJSON framer computes the reference. Pushing a stream into a fresh framer in any
  chunks, ending it unless a push failed, and popping the records yields exactly the records of
  the whole stream: it is split at newlines, one carriage return is stripped from each line, blank
  lines are dropped, an unterminated last line counts, and the first line longer than the cap ends
  the framing with the size error after the records before it. The result is the same for every
  way of cutting the stream into chunks, also when it fails.
\<close>
theorem ndjson_framer_reference:
  "(case feed_and_finish ndjson_ops cs (ndjson_new cap) of
      (e, f) \<Rightarrow> (pop_all ndjson_ops (Suc (length (concat cs))) f, e))
   = ndjson_reference cap (concat cs)"
proof -
  obtain e f where ef: "feed_and_finish ndjson_ops cs (ndjson_new cap) = (e, f)" by fastforce
  with ndjson_framed [of cap cs] have ref: "(nf_ready f, e) = ndjson_reference cap (concat cs)"
    by (simp add: framed_def)
  have "length (fst (ndjson_reference cap (concat cs))) \<le> Suc (length (concat cs))"
    unfolding ndjson_reference_def by (rule le_trans [OF frame_lines_length length_slice_split])
  with ref have "length (nf_ready f) \<le> Suc (length (concat cs))" by (metis fst_conv)
  from ndjson.pop_all_queue [OF this] ref ef show ?thesis by (simp del: pop_all.simps)
qed

end
