(* ===== verification/S3_Framer.thy ===== *)
theory S3_Framer
  imports Framing S3_Error
begin

text \<open>
  Chunk-fed object decoding, \<open>crates/spate-s3/src/framer.rs\<close>: the codec of an object, the
  decompressor wrapped around the record framer, and \<open>ObjectFramer\<close>, which feeds one object's
  chunks through both a bounded step at a time and queues the records.

  The gzip and zstd decoders are third-party code: each is a parameter with the operations the
  source calls. The framer is the trait object of theory \<open>Framing\<close>. Popping the framer dry is a
  loop that ends only if the framer's queue does, so it is an option-valued partial
  function; a panic is \<^const>\<open>None\<close> too. In the framer contract's locale both are shown not to
  occur for an uncompressed object, and each operation is computed exactly.
\<close>

section \<open>Codecs\<close>

datatype compression = CompressionAuto | CompressionNone | CompressionGzip | CompressionZstd

datatype codec = Plain | Gzip | Zstd

fun codec_resolve :: "compression \<Rightarrow> string \<Rightarrow> codec" where
  "codec_resolve CompressionNone key = Plain"
| "codec_resolve CompressionGzip key = Gzip"
| "codec_resolve CompressionZstd key = Zstd"
| "codec_resolve CompressionAuto key =
     (if ends_with key ''.gz'' \<or> ends_with key ''.gzip'' then Gzip
      else if ends_with key ''.zst'' \<or> ends_with key ''.zstd'' then Zstd
      else Plain)"

section \<open>Sinks\<close>

text \<open>A decompressor that owns the framer and writes what it decodes into it.\<close>

record ('f, 'd) decoder_ops =
  dec_new :: "'f \<Rightarrow> io_error + 'd"
  dec_write :: "bytes \<Rightarrow> 'd \<Rightarrow> (io_error + nat) \<times> 'd"
  dec_framer :: "'d \<Rightarrow> 'f"
  dec_with_framer :: "'f \<Rightarrow> 'd \<Rightarrow> 'd"
  dec_finish :: "'d \<Rightarrow> io_error option \<times> 'd"

text \<open>\<open>cd_fresh\<close> is what the framer factory builds.\<close>

record ('f, 'g, 'z) codecs =
  cd_framer :: "'f framer_ops"
  cd_fresh :: 'f
  cd_gzip :: "('f, 'g) decoder_ops"
  cd_zstd :: "('f, 'z) decoder_ops"

datatype ('f, 'g, 'z) sink = SinkPlain 'f | SinkGzip 'g | SinkZstd 'z

definition sink_new :: "('f, 'g, 'z) codecs \<Rightarrow> codec \<Rightarrow> io_error + ('f, 'g, 'z) sink" where
  "sink_new C codec =
     (case codec of
        Plain \<Rightarrow> Inr (SinkPlain (cd_fresh C))
      | Gzip \<Rightarrow> map_sum id SinkGzip (dec_new (cd_gzip C) (cd_fresh C))
      | Zstd \<Rightarrow> map_sum id SinkZstd (dec_new (cd_zstd C) (cd_fresh C)))"

fun sink_write :: "('f, 'g, 'z) codecs \<Rightarrow> bytes \<Rightarrow> ('f, 'g, 'z) sink \<Rightarrow> (io_error + nat) \<times> ('f, 'g, 'z) sink" where
  "sink_write C buf (SinkPlain w) = apsnd SinkPlain (framer_write (cd_framer C) buf w)"
| "sink_write C buf (SinkGzip d) = apsnd SinkGzip (dec_write (cd_gzip C) buf d)"
| "sink_write C buf (SinkZstd w) = apsnd SinkZstd (dec_write (cd_zstd C) buf w)"

fun sink_framer :: "('f, 'g, 'z) codecs \<Rightarrow> ('f, 'g, 'z) sink \<Rightarrow> 'f" where
  "sink_framer C (SinkPlain w) = w"
| "sink_framer C (SinkGzip d) = dec_framer (cd_gzip C) d"
| "sink_framer C (SinkZstd w) = dec_framer (cd_zstd C) w"

text \<open>What remains of the sink after the framer reached through \<open>framer_mut\<close> became \<open>f\<close>.\<close>

fun sink_with_framer :: "('f, 'g, 'z) codecs \<Rightarrow> 'f \<Rightarrow> ('f, 'g, 'z) sink \<Rightarrow> ('f, 'g, 'z) sink" where
  "sink_with_framer C f (SinkPlain w) = SinkPlain f"
| "sink_with_framer C f (SinkGzip d) = SinkGzip (dec_with_framer (cd_gzip C) f d)"
| "sink_with_framer C f (SinkZstd w) = SinkZstd (dec_with_framer (cd_zstd C) f w)"

fun sink_try_finish :: "('f, 'g, 'z) codecs \<Rightarrow> ('f, 'g, 'z) sink \<Rightarrow> io_error option \<times> ('f, 'g, 'z) sink" where
  "sink_try_finish C (SinkPlain w) = (None, SinkPlain w)"
| "sink_try_finish C (SinkGzip d) = apsnd SinkGzip (dec_finish (cd_gzip C) d)"
| "sink_try_finish C (SinkZstd w) = apsnd SinkZstd (dec_finish (cd_zstd C) w)"

section \<open>\<open>ObjectFramer\<close>\<close>

definition PUMP_DECODED_BYTES :: nat where "PUMP_DECODED_BYTES = 256 * 1024"

definition PUMP_STEPS :: nat where "PUMP_STEPS = 256"

record ('f, 'g, 'z) object_framer =
  of_sink :: "('f, 'g, 'z) sink option"
  of_ready :: "bytes list"
  of_pending :: bytes
  of_finished_decoded_bytes :: nat

definition object_framer_new :: "('f, 'g, 'z) object_framer" where
  "object_framer_new = \<lparr>of_sink = None, of_ready = [], of_pending = [], of_finished_decoded_bytes = 0\<rparr>"

definition begin_object ::
  "('f, 'g, 'z) codecs \<Rightarrow> codec \<Rightarrow> ('f, 'g, 'z) object_framer \<Rightarrow> io_error option \<times> ('f, 'g, 'z) object_framer" where
  "begin_object C codec o' =
     (case sink_new C codec of
        Inl e \<Rightarrow> (Some e, o')
      | Inr s \<Rightarrow> (None, o'\<lparr>of_sink := Some s\<rparr>))"

text \<open>\<open>while let Some(record) = framer.pop()\<close>.\<close>

partial_function (option) drain_pops :: "'f framer_ops \<Rightarrow> 'f \<Rightarrow> bytes list \<Rightarrow> (bytes list \<times> 'f) option" where
  "drain_pops ops f ready =
     (case fr_pop ops f of
        (None, f') \<Rightarrow> Some (ready, f')
      | (Some r, f') \<Rightarrow> drain_pops ops f' (ready @ [r]))"

definition write_zero :: io_error where
  "write_zero = \<lparr>io_kind = WriteZero, io_msg = ''write zero''\<rparr>"

text \<open>
  One codec step on the pending bytes: what was written, the sink, and the pending bytes left.
  Advancing past their end would panic.
\<close>

definition pump_write ::
  "('f, 'g, 'z) codecs \<Rightarrow> bytes \<Rightarrow> ('f, 'g, 'z) sink \<Rightarrow> (io_error option \<times> bytes \<times> ('f, 'g, 'z) sink) option" where
  "pump_write C pending sink =
     (case sink_write C pending sink of
        (Inl e, sink') \<Rightarrow> Some (Some e, pending, sink')
      | (Inr n, sink') \<Rightarrow>
          if n = 0 then Some (Some write_zero, pending, sink')
          else if n \<le> length pending then Some (None, drop n pending, sink')
          else None)"

function pump_loop ::
  "('f, 'g, 'z) codecs \<Rightarrow> nat \<Rightarrow> nat \<Rightarrow> nat \<Rightarrow> ('f, 'g, 'z) sink \<Rightarrow> ('f, 'g, 'z) object_framer
     \<Rightarrow> (io_error option \<times> ('f, 'g, 'z) object_framer) option" where
  "pump_loop C queued start steps sink o' =
     (if of_pending o' = [] then Some (None, o'\<lparr>of_sink := Some sink\<rparr>)
      else case pump_write C (of_pending o') sink of
             None \<Rightarrow> None
           | Some (written, pending, sink1) \<Rightarrow>
               (case drain_pops (cd_framer C) (sink_framer C sink1) (of_ready o') of
                  None \<Rightarrow> None
                | Some (ready, f) \<Rightarrow>
                    let sink2 = sink_with_framer C f sink1;
                        o1 = o'\<lparr>of_sink := Some sink2, of_ready := ready, of_pending := pending\<rparr>
                    in if written \<noteq> None then Some (written, o1\<lparr>of_pending := []\<rparr>)
                       else if length ready > queued
                               \<or> fr_decoded_bytes (cd_framer C) (sink_framer C sink2) - start \<ge> PUMP_DECODED_BYTES
                               \<or> steps + 1 \<ge> PUMP_STEPS
                            then Some (None, o1)
                            else pump_loop C queued start (steps + 1) sink2 o1))"
  by auto
termination
  by (relation "measure (\<lambda>(C, queued, start, steps, sink, o'). PUMP_STEPS - steps)") auto

declare pump_loop.simps [simp del]

definition pump ::
  "('f, 'g, 'z) codecs \<Rightarrow> ('f, 'g, 'z) object_framer \<Rightarrow> (io_error option \<times> ('f, 'g, 'z) object_framer) option" where
  "pump C o' =
     (case of_sink o' of
        None \<Rightarrow> None
      | Some sink \<Rightarrow>
          pump_loop C (length (of_ready o')) (fr_decoded_bytes (cd_framer C) (sink_framer C sink)) 0 sink o')"

definition push_chunk ::
  "('f, 'g, 'z) codecs \<Rightarrow> bytes \<Rightarrow> ('f, 'g, 'z) object_framer \<Rightarrow> (io_error option \<times> ('f, 'g, 'z) object_framer) option" where
  "push_chunk C chunk o' = pump C (o'\<lparr>of_pending := chunk\<rparr>)"

definition has_pending_input :: "('f, 'g, 'z) object_framer \<Rightarrow> bool" where
  "has_pending_input o' \<longleftrightarrow> of_pending o' \<noteq> []"

definition finish_object ::
  "('f, 'g, 'z) codecs \<Rightarrow> ('f, 'g, 'z) object_framer \<Rightarrow> (io_error option \<times> ('f, 'g, 'z) object_framer) option" where
  "finish_object C o' =
     (case of_sink o' of
        None \<Rightarrow> None
      | Some sink \<Rightarrow>
          let (finished, f1) =
                (case sink_try_finish C sink of
                   (Some e, sink1) \<Rightarrow> (Some e, sink_framer C sink1)
                 | (None, sink1) \<Rightarrow> fr_finish (cd_framer C) (sink_framer C sink1))
          in case drain_pops (cd_framer C) f1 (of_ready o') of
               None \<Rightarrow> None
             | Some (ready, f2) \<Rightarrow>
                 Some (finished,
                       o'\<lparr>of_sink := None, of_ready := ready,
                          of_finished_decoded_bytes :=
                            of_finished_decoded_bytes o' + fr_decoded_bytes (cd_framer C) f2\<rparr>))"

definition pop_record :: "('f, 'g, 'z) object_framer \<Rightarrow> bytes option \<times> ('f, 'g, 'z) object_framer" where
  "pop_record o' =
     (case of_ready o' of
        [] \<Rightarrow> (None, o')
      | r # rs \<Rightarrow> (Some r, o'\<lparr>of_ready := rs\<rparr>))"

definition queued :: "('f, 'g, 'z) object_framer \<Rightarrow> nat" where
  "queued o' = length (of_ready o')"

definition object_decoded_bytes :: "('f, 'g, 'z) codecs \<Rightarrow> ('f, 'g, 'z) object_framer \<Rightarrow> nat" where
  "object_decoded_bytes C o' =
     of_finished_decoded_bytes o'
     + (case of_sink o' of None \<Rightarrow> 0 | Some s \<Rightarrow> fr_decoded_bytes (cd_framer C) (sink_framer C s))"

section \<open>Uncompressed objects\<close>

context drainable_framer
begin

lemma drain_pops_all: "drain_pops ops f ready = Some (ready @ queue f, drained f)"
proof (induction "queue f" arbitrary: f ready)
  case Nil
  then show ?case
    using pop_empty [of f] pop_nothing [of f] drained_empty [of f]
    by (subst drain_pops.simps) (cases "fr_pop ops f", simp)
next
  case (Cons r rs)
  obtain f' where p: "fr_pop ops f = (Some r, f')" "queue f' = rs"
    using pop_first [of f r rs] Cons.hyps(2) by (cases "fr_pop ops f") auto
  moreover have "drained f' = drained f"
    using drained_pop [of f] Cons.hyps(2) p by (simp add: list.discI [OF Cons.hyps(2) [symmetric]])
  ultimately show ?case
    using Cons.hyps(1) [of f' "ready @ [r]"] Cons.hyps(2)
    by (subst drain_pops.simps) simp
qed

text \<open>One chunk of an uncompressed object is one push, and every record it completes is queued.\<close>

lemma push_chunk_plain:
  assumes "cd_framer C = ops" "of_sink o' = Some (SinkPlain f)" "of_pending o' = []" "ok f" "queue f = []"
    and "fr_push ops c f = (r, g)"
  shows "push_chunk C c o' =
    Some (r, o'\<lparr>of_sink := Some (SinkPlain (drained g)), of_ready := of_ready o' @ queue g\<rparr>)"
proof (cases "c = []")
  case True
  with assms push_nil [of f] drained_empty [of f] show ?thesis
    by (simp add: push_chunk_def pump_def) (subst pump_loop.simps, simp)
next
  case False
  then show ?thesis
    using assms
    by (cases r; cases o') (simp_all add: push_chunk_def pump_def pump_loop.simps [of C _ _ 0] pump_write_def
        framer_write_def drain_pops_all Let_def pump_loop.simps [of C _ _ "Suc 0"])
qed

lemma finish_object_plain:
  assumes "cd_framer C = ops" "of_sink o' = Some (SinkPlain f)" "fr_finish ops f = (r, g)"
  shows "finish_object C o' =
    Some (r, o'\<lparr>of_sink := None, of_ready := of_ready o' @ queue g,
                of_finished_decoded_bytes := of_finished_decoded_bytes o' + fr_decoded_bytes ops (drained g)\<rparr>)"
  using assms by (simp add: finish_object_def drain_pops_all Let_def)

end

end
