(* ===== verification/S3_Offset.thy ===== *)
theory S3_Offset
  imports Prelude
begin

text \<open>
  Composite record offsets, \<open>crates/spate-s3/src/offset.rs\<close>: the pair of an object's ordinal
  within a lane and a record's index within the object, packed into the framework's \<open>i64\<close>
  offset space. Fields keep their width (\<open>u32\<close>, \<open>u64\<close>) and the packing is done on 64-bit
  words; an offset is the signed reading of the word, the \<^typ>\<open>int\<close> the checkpoint theories use.
\<close>

unbundle bit_operations_syntax

section \<open>Layout\<close>

definition RECORD_BITS :: nat where "RECORD_BITS = 40"

definition ORDINAL_BITS :: nat where "ORDINAL_BITS = 23"

definition RECORD_MASK :: "64 word" where "RECORD_MASK = push_bit RECORD_BITS 1 - 1"

definition MAX_ORDINAL :: "32 word" where "MAX_ORDINAL = push_bit ORDINAL_BITS 1 - 1"

definition MAX_RECORD_INDEX :: "64 word" where "MAX_RECORD_INDEX = RECORD_MASK - 1"

datatype position = Position (pos_ordinal: "32 word") (pos_record: "64 word")

record offset_overflow =
  ov_what :: string
  ov_at :: position

definition overflow_display :: "offset_overflow \<Rightarrow> string" where
  "overflow_display e =
     ''composite offset overflow: '' @ ov_what e @ '' exhausted at ordinal ''
     @ decimal (unat (pos_ordinal (ov_at e))) @ '' record '' @ decimal (unat (pos_record (ov_at e)))
     @ '' (limits: '' @ decimal (unat (ucast MAX_ORDINAL + 1 :: 64 word)) @ '' objects per lane, ''
     @ decimal (unat (MAX_RECORD_INDEX + 1)) @ '' records per object)''"

definition encode :: "position \<Rightarrow> offset_overflow + int" where
  "encode p =
     (if pos_ordinal p > MAX_ORDINAL then Inl \<lparr>ov_what = ''object ordinal space'', ov_at = p\<rparr>
      else if pos_record p > MAX_RECORD_INDEX + 1 then Inl \<lparr>ov_what = ''record index space'', ov_at = p\<rparr>
      else Inr (sint (push_bit RECORD_BITS (ucast (pos_ordinal p) :: 64 word) OR pos_record p)))"

text \<open>The inverse, which the source compiles for its tests and its \<open>testing\<close> feature only.\<close>

definition decode :: "int \<Rightarrow> position" where
  "decode offset =
     (let w = word_of_int offset :: 64 word
      in Position (ucast (signed_drop_bit RECORD_BITS w)) (w AND RECORD_MASK))"

text \<open>The derived \<open>Ord\<close>: lexicographic, in field order.\<close>

definition position_less :: "position \<Rightarrow> position \<Rightarrow> bool" where
  "position_less p q \<longleftrightarrow>
     pos_ordinal p < pos_ordinal q \<or> pos_ordinal p = pos_ordinal q \<and> pos_record p < pos_record q"

instantiation position :: linorder
begin

definition less_position :: "position \<Rightarrow> position \<Rightarrow> bool" where
  "less_position = position_less"

definition less_eq_position :: "position \<Rightarrow> position \<Rightarrow> bool" where
  "less_eq_position p q \<longleftrightarrow>
     pos_ordinal p < pos_ordinal q \<or> pos_ordinal p = pos_ordinal q \<and> pos_record p \<le> pos_record q"

instance
  by standard (auto simp: less_eq_position_def less_position_def position_less_def position.expand)

end

section \<open>The packing is arithmetic\<close>

lemmas layout_simps = RECORD_BITS_def ORDINAL_BITS_def RECORD_MASK_def MAX_ORDINAL_def MAX_RECORD_INDEX_def

lemma MAX_ORDINAL_less: "MAX_ORDINAL < o' \<longleftrightarrow> \<not> uint o' < 2 ^ 23"
  by (simp add: layout_simps word_less_def push_bit_eq_mult) linarith

lemma MAX_RECORD_less: "MAX_RECORD_INDEX + 1 < r \<longleftrightarrow> \<not> uint r < 2 ^ 40"
  by (simp add: layout_simps word_less_def push_bit_eq_mult) linarith

lemma pack_int:
  fixes a b :: int
  assumes "0 \<le> b" "b < 2 ^ 40"
  shows "push_bit 40 a OR b = a * 2 ^ 40 + b"
proof -
  have "b = take_bit 40 b" using assms by (simp add: take_bit_int_eq_self)
  then have "push_bit 40 a AND b = 0"
    by (metis (no_types) bit_eqI bit_and_iff bit_push_bit_iff bit_take_bit_iff bit_0_eq bot_apply leD bot_bool_def)
  then have "push_bit 40 a OR b = push_bit 40 a + b"
    by (simp add: disjunctive_add_eq_or)
  then show ?thesis by (simp add: push_bit_eq_mult)
qed

lemma encode_Inr:
  "encode p = Inr v \<longleftrightarrow>
     uint (pos_ordinal p) < 2 ^ 23 \<and> uint (pos_record p) < 2 ^ 40
     \<and> v = uint (pos_ordinal p) * 2 ^ 40 + uint (pos_record p)"
proof -
  have pack: "sint (push_bit 40 (ucast (pos_ordinal p) :: 64 word) OR pos_record p)
      = uint (pos_ordinal p) * 2 ^ 40 + uint (pos_record p)"
    if small: "uint (pos_ordinal p) < 2 ^ 23" "uint (pos_record p) < 2 ^ 40"
  proof -
    have "uint (ucast (pos_ordinal p) :: 64 word) = uint (pos_ordinal p)"
      by (simp add: uint_up_ucast is_up)
    then have "uint (push_bit 40 (ucast (pos_ordinal p) :: 64 word)) = push_bit 40 (uint (pos_ordinal p))"
      using small by (simp add: uint_word_ariths push_bit_eq_mult uint_mult_lem mult.commute)
    then have "uint (push_bit 40 (ucast (pos_ordinal p) :: 64 word) OR pos_record p)
        = uint (pos_ordinal p) * 2 ^ 40 + uint (pos_record p)"
      using pack_int [OF uint_ge_0 small(2)] by (simp add: uint_or)
    moreover have "uint (pos_ordinal p) * 2 ^ 40 + uint (pos_record p) < 2 ^ 63"
      using small by simp
    ultimately show ?thesis
      by (simp add: sint_uint signed_take_bit_int_eq_self add_nonneg_nonneg order_trans [of _ 0])
  qed
  show ?thesis
    using pack by (auto simp: encode_def RECORD_BITS_def MAX_ORDINAL_less MAX_RECORD_less split: if_splits)
qed

lemma decode_nonneg:
  assumes "0 \<le> v" "v \<le> i64_max"
  shows "uint (pos_ordinal (decode v)) = v div 2 ^ 40" "uint (pos_record (decode v)) = v mod 2 ^ 40"
proof -
  let ?w = "word_of_int v :: 64 word"
  have w: "uint ?w = v" using assms by (simp add: i64_max_def uint_word_of_int)
  have mask: "RECORD_MASK = mask 40"
    by (simp add: layout_simps mask_eq_exp_minus_1 push_bit_eq_mult)
  show "uint (pos_record (decode v)) = v mod 2 ^ 40"
    using w by (simp add: decode_def Let_def mask take_bit_eq_mask [symmetric] unsigned_take_bit_eq)
      (simp add: take_bit_eq_mod)
  have "sint ?w = v"
    using assms w by (simp add: sint_uint signed_take_bit_int_eq_self i64_max_def)
  then have "sint (signed_drop_bit 40 ?w) = v div 2 ^ 40"
    by (simp add: sint_signed_drop_bit_eq drop_bit_eq_div)
  moreover have "0 \<le> v div 2 ^ 40" "v div 2 ^ 40 < 2 ^ 23"
    using assms by (simp_all add: i64_max_def)
  ultimately have "uint (signed_drop_bit 40 ?w) = v div 2 ^ 40"
    by (simp add: uint_sint take_bit_int_eq_self)
  with \<open>0 \<le> v div 2 ^ 40\<close> \<open>v div 2 ^ 40 < 2 ^ 23\<close> show "uint (pos_ordinal (decode v)) = v div 2 ^ 40"
    by (simp add: decode_def Let_def RECORD_BITS_def unsigned_ucast_eq take_bit_int_eq_self)
qed

section \<open>Positions and offsets\<close>

lemma decode_pack:
  assumes "uint (pos_ordinal p) < 2 ^ 23" "uint (pos_record p) < 2 ^ 40"
  shows "decode (uint (pos_ordinal p) * 2 ^ 40 + uint (pos_record p)) = p"
proof -
  let ?v = "uint (pos_ordinal p) * 2 ^ 40 + uint (pos_record p)"
  have "0 \<le> ?v" "?v \<le> i64_max"
    using assms by (simp_all add: i64_max_def)
  from decode_nonneg [OF this] assms show ?thesis
    by (simp add: position.expand word_uint_eq_iff)
qed

lemma encode_decode:
  assumes "0 \<le> v" "v \<le> i64_max"
  shows "encode (decode v) = Inr v"
  using decode_nonneg [OF assms] assms by (simp add: encode_Inr i64_max_def)

lemma decode_encode: "encode p = Inr v \<Longrightarrow> decode v = p"
  using decode_pack by (simp add: encode_Inr)

lemma encode_range: "encode p = Inr v \<Longrightarrow> 0 \<le> v \<and> v \<le> i64_max"
  by (auto simp: encode_Inr i64_max_def)

lemma encode_fails: "isl (encode p) \<longleftrightarrow> 2 ^ 23 \<le> uint (pos_ordinal p) \<or> 2 ^ 40 \<le> uint (pos_record p)"
  by (auto simp: encode_def MAX_ORDINAL_less MAX_RECORD_less)

lemma encode_order:
  assumes "encode p = Inr v" "encode q = Inr w"
  shows "v < w \<longleftrightarrow> p < q"
proof -
  have lex: "a * 2 ^ 40 + r < b * 2 ^ 40 + s \<longleftrightarrow> a < b \<or> a = b \<and> r < s"
    if "0 \<le> r" "r < 2 ^ 40" "0 \<le> s" "s < 2 ^ 40" for a b r s :: int
    using that by (simp; linarith)
  show ?thesis
    using assms lex [of "uint (pos_record p)" "uint (pos_record q)"]
    by (simp add: encode_Inr less_position_def position_less_def word_less_def word_uint_eq_iff)
qed

lemma watermark_decodes:
  assumes "encode p = Inr v" "pos_record p \<le> MAX_RECORD_INDEX"
  shows "decode (wrap_i64 (v + 1)) = Position (pos_ordinal p) (pos_record p + 1)"
proof -
  from assms(2) have r: "uint (pos_record p) < 2 ^ 40 - 1"
    by (simp add: layout_simps word_le_def push_bit_eq_mult)
  then have succ: "uint (pos_record p + 1) = uint (pos_record p) + 1"
    by (simp add: uint_word_ariths)
  from assms(1) r have "v < i64_max" "0 \<le> v" by (simp_all add: encode_Inr i64_max_def)
  then have "wrap_i64 (v + 1) = v + 1" by (simp add: wrap_i64_succ)
  with decode_pack [of "Position (pos_ordinal p) (pos_record p + 1)"] assms(1) r succ
  show ?thesis by (simp add: encode_Inr add.assoc)
qed

text \<open>
  C32. Composite offsets round-trip and keep the order. A position that encodes decodes back from
  its offset, which is a non-negative \<open>i64\<close>, and every non-negative \<open>i64\<close> decodes to a position
  that encodes back to it; encoding fails exactly when a field outgrows its bits. Offsets compare
  as the positions do, lexicographically; and for a record that may be emitted, the watermark one
  past its offset decodes to the next record of the same object, so the increment never carries
  into the ordinal.
\<close>
theorem offset_roundtrip:
  assumes "encode p = Inr v"
  shows "decode v = p \<and> 0 \<le> v \<and> v \<le> i64_max
    \<and> (\<forall>w. 0 \<le> w \<and> w \<le> i64_max \<longrightarrow> encode (decode w) = Inr w)
    \<and> (\<forall>q. isl (encode q) \<longleftrightarrow> 2 ^ 23 \<le> uint (pos_ordinal q) \<or> 2 ^ 40 \<le> uint (pos_record q))
    \<and> (\<forall>q w. encode q = Inr w \<longrightarrow> (v < w \<longleftrightarrow> p < q))
    \<and> (pos_record p \<le> MAX_RECORD_INDEX
         \<longrightarrow> decode (wrap_i64 (v + 1)) = Position (pos_ordinal p) (pos_record p + 1))"
  using decode_encode [OF assms] encode_range [OF assms] encode_decode encode_fails
    encode_order [OF assms] watermark_decodes [OF assms] by blast

theorem offset_roundtrip_witness:
  "encode (Position 3 5) = Inr (3 * 2 ^ 40 + 5) \<and> decode (3 * 2 ^ 40 + 5) = Position 3 5
   \<and> encode (Position 4 0) = Inr (4 * 2 ^ 40) \<and> Position 3 5 < Position 4 0
   \<and> decode (wrap_i64 (3 * 2 ^ 40 + 5 + 1)) = Position 3 6"
proof -
  have e: "encode (Position 3 5) = Inr (3 * 2 ^ 40 + 5)" "encode (Position 4 0) = Inr (4 * 2 ^ 40)"
    by (simp_all add: encode_Inr)
  have "(5 :: 64 word) \<le> MAX_RECORD_INDEX" by (simp add: layout_simps push_bit_eq_mult)
  note t = offset_roundtrip [OF e(1)] and this
  moreover have "Position 3 5 < Position 4 0"
  proof -
    from t(1) e(2) have "3 * 2 ^ 40 + 5 < (4 * 2 ^ 40 :: int) \<longleftrightarrow> Position 3 5 < Position 4 0" by blast
    then show ?thesis by simp
  qed
  ultimately show ?thesis using e by simp
qed

end
