(* ===== verification/S3_Lane.thy ===== *)
theory S3_Lane
  imports S3_Fetch S3_Framer S3_Offset Records
begin

text \<open>
  The data plane of the S3 source, \<open>crates/spate-s3/src/lane.rs\<close> with the shared accounting of
  \<open>lane_ctx.rs\<close>: a lane takes its fetcher's messages, frames the bytes, gives each record its
  composite offset, and hands out batches; on a resume it replays and discards the records
  already committed.

  The channel is the list of messages the fetcher sends from now on, after which it is closed.
  What a poll observes of time is an input: one \<open>poll_tick\<close> per pass of its loop says whether the
  deadline has passed, whether the channel is found ready, and, if it was not, whether something
  arrives before the deadline. A poll whose ticks run out is still running. Waking the control
  plane is the flag the waker keeps, and a poison report is appended to the reports sent.
\<close>

section \<open>Shared accounting\<close>

text \<open>The framed count keeps the closed mark in its top bit.\<close>

record split_tracker =
  tk_terminal :: int
  tk_objects_done :: "32 word"

definition tk_UNKNOWN :: int where "tk_UNKNOWN = - (2 ^ 63)"

definition tk_CLOSED :: "32 word" where "tk_CLOSED = push_bit 31 1"

definition split_tracker_new :: split_tracker where
  "split_tracker_new = \<lparr>tk_terminal = tk_UNKNOWN, tk_objects_done = 0\<rparr>"

definition set_terminal :: "int \<Rightarrow> split_tracker \<Rightarrow> split_tracker" where
  "set_terminal watermark t = t\<lparr>tk_terminal := watermark\<rparr>"

definition terminal :: "split_tracker \<Rightarrow> int option" where
  "terminal t = (if tk_terminal t = tk_UNKNOWN then None else Some (tk_terminal t))"

definition object_done :: "split_tracker \<Rightarrow> bool \<times> split_tracker" where
  "object_done t = (and (tk_objects_done t) tk_CLOSED = 0, t\<lparr>tk_objects_done := tk_objects_done t + 1\<rparr>)"

definition tracker_close :: "split_tracker \<Rightarrow> 32 word \<times> split_tracker" where
  "tracker_close t =
     (and (tk_objects_done t) (not tk_CLOSED), t\<lparr>tk_objects_done := or (tk_objects_done t) tk_CLOSED\<rparr>)"

record poison_report =
  pr_partition :: partition_id
  pr_kind :: poison_kind
  pr_reason :: string
  pr_overwrite :: "overwrite option"

section \<open>The lane\<close>

record current_object =
  co_ordinal :: "32 word"
  co_key :: string
  co_next_record :: "64 word"
  co_event_time_ms :: int

record held_record =
  hr_offset :: int
  hr_event_time_ms :: int
  hr_bytes :: bytes

record s3_metrics =
  sm_objects_completed :: nat
  sm_objects_remaining :: int
  sm_bytes_read :: nat
  sm_bytes_decoded :: nat

record ('f, 'g, 'z) s3_lane =
  sl_partition :: partition_id
  sl_rx :: "chunk_msg list"
  sl_compression :: compression
  sl_framer :: "('f, 'g, 'z) object_framer"
  sl_resume :: "position option"
  sl_pending_discard :: "64 word"
  sl_current :: "current_object option"
  sl_pending_end :: bool
  sl_held :: "held_record list"
  sl_tracker :: split_tracker
  sl_reports :: "poison_report list"
  sl_woken :: bool
  sl_poisoned :: bool
  sl_truncated :: bool
  sl_watermark_candidate :: int
  sl_failed :: "(error_class \<times> string) option"
  sl_metrics :: "s3_metrics option"
  sl_decoded_reported :: nat

text \<open>A resume position that does not encode panics.\<close>

definition s3_lane_new ::
  "partition_id \<Rightarrow> chunk_msg list \<Rightarrow> compression \<Rightarrow> position option \<Rightarrow> split_tracker \<Rightarrow> s3_metrics option
     \<Rightarrow> ('f, 'g, 'z) s3_lane option" where
  "s3_lane_new part rx compression resume tracker metrics =
     (case (case resume of None \<Rightarrow> Inr 0 | Some p \<Rightarrow> encode p) of
        Inl e \<Rightarrow> None
      | Inr watermark \<Rightarrow>
          Some \<lparr>sl_partition = part, sl_rx = rx, sl_compression = compression, sl_framer = object_framer_new,
                sl_resume = resume, sl_pending_discard = 0, sl_current = None, sl_pending_end = False, sl_held = [],
                sl_tracker = tracker, sl_reports = [], sl_woken = False, sl_poisoned = False, sl_truncated = False,
                sl_watermark_candidate = watermark, sl_failed = None, sl_metrics = metrics, sl_decoded_reported = 0\<rparr>)"

definition lane_fail ::
  "error_class \<Rightarrow> string \<Rightarrow> ('f, 'g, 'z) s3_lane \<Rightarrow> source_error \<times> ('f, 'g, 'z) s3_lane" where
  "lane_fail c reason l = (SourceClient c reason, l\<lparr>sl_failed := Some (c, reason)\<rparr>)"

definition lane_wake :: "('f, 'g, 'z) s3_lane \<Rightarrow> ('f, 'g, 'z) s3_lane" where
  "lane_wake l = l\<lparr>sl_woken := True\<rparr>"

definition lane_poison :: "poison_kind \<Rightarrow> string \<Rightarrow> ('f, 'g, 'z) s3_lane \<Rightarrow> ('f, 'g, 'z) s3_lane" where
  "lane_poison kind reason l =
     lane_wake (l\<lparr>sl_held := [], sl_current := None, sl_pending_end := False, sl_pending_discard := 0,
                  sl_poisoned := True,
                  sl_reports := sl_reports l @ [\<lparr>pr_partition = sl_partition l, pr_kind = kind, pr_reason = reason,
                                                 pr_overwrite = None\<rparr>]\<rparr>)"

definition lane_overwritten :: "overwrite \<Rightarrow> ('f, 'g, 'z) s3_lane \<Rightarrow> ('f, 'g, 'z) s3_lane" where
  "lane_overwritten w l =
     lane_wake (l\<lparr>sl_truncated := True, sl_pending_end := False,
                  sl_reports := sl_reports l @ [\<lparr>pr_partition = sl_partition l, pr_kind = PoisonEtagDrift,
                    pr_reason = quote (ow_key w) @ '' was overwritten while it was read'', pr_overwrite = Some w\<rparr>]\<rparr>)"

text \<open>\<open>drain_framer\<close>. A framed record outside an object panics.\<close>

function drain_framer ::
  "nat \<Rightarrow> ('f, 'g, 'z) s3_lane \<Rightarrow> (source_error option \<times> ('f, 'g, 'z) s3_lane) option" where
  "drain_framer max_records l =
     (if \<not> length (sl_held l) < max_records then Some (None, l)
      else case pop_record (sl_framer l) of
             (None, f) \<Rightarrow> Some (None, l)
           | (Some bs, f) \<Rightarrow>
               if sl_pending_discard l > 0
               then drain_framer max_records (l\<lparr>sl_framer := f, sl_pending_discard := sl_pending_discard l - 1\<rparr>)
               else (case sl_current l of
                       None \<Rightarrow> None
                     | Some cur \<Rightarrow>
                         if co_next_record cur > MAX_RECORD_INDEX
                         then Some (None, lane_poison PoisonUndecodable
                                (''object '' @ quote (co_key cur) @ '' holds more than ''
                                 @ decimal (unat (MAX_RECORD_INDEX + 1))
                                 @ '' records, the composite-offset limit per object'')
                                (l\<lparr>sl_framer := f\<rparr>))
                         else case encode (Position (co_ordinal cur) (co_next_record cur)) of
                                Inl e \<Rightarrow> Some (apfst Some (lane_fail Fatal (overflow_display e) (l\<lparr>sl_framer := f\<rparr>)))
                              | Inr offset \<Rightarrow>
                                  drain_framer max_records
                                    (l\<lparr>sl_framer := f,
                                       sl_current := Some (cur\<lparr>co_next_record := co_next_record cur + 1\<rparr>),
                                       sl_watermark_candidate := wrap_i64 (offset + 1),
                                       sl_held := sl_held l @ [\<lparr>hr_offset = offset, hr_event_time_ms = co_event_time_ms cur,
                                                               hr_bytes = bs\<rparr>]\<rparr>)))"
  by auto
termination
  by (relation "measure (\<lambda>(max_records, l). length (of_ready (sl_framer l)))")
    (auto simp: pop_record_def split: list.splits)

declare drain_framer.simps [simp del]

definition report_decoded ::
  "('f, 'g, 'z) codecs \<Rightarrow> ('f, 'g, 'z) s3_lane \<Rightarrow> ('f, 'g, 'z) s3_lane" where
  "report_decoded C l =
     (case sl_metrics l of
        None \<Rightarrow> l
      | Some m \<Rightarrow>
          let total = object_decoded_bytes C (sl_framer l)
          in l\<lparr>sl_metrics := Some (m\<lparr>sm_bytes_decoded := sm_bytes_decoded m + sat_sub total (sl_decoded_reported l)\<rparr>),
               sl_decoded_reported := total\<rparr>)"

definition finalize_object ::
  "('f, 'g, 'z) codecs \<Rightarrow> ('f, 'g, 'z) s3_lane \<Rightarrow> ('f, 'g, 'z) s3_lane option" where
  "finalize_object C l =
     (case sl_current l of
        None \<Rightarrow> None
      | Some cur \<Rightarrow>
          let l1 = l\<lparr>sl_current := None, sl_pending_end := False\<rparr>
          in if sl_pending_discard l1 > 0
             then Some (lane_poison PoisonEtagDrift
                    (''object '' @ quote (co_key cur) @ '' ended '' @ decimal (unat (sl_pending_discard l1))
                     @ '' records short of its committed position '' @ em_dash @ '' its content changed under the checkpoint (the key ''
                     @ ''set and object contents must stay frozen for the backfill's lifetime)'') l1)
             else (case object_done (sl_tracker l1) of
                     (counted, t) \<Rightarrow>
                       Some (report_decoded C
                         (l1\<lparr>sl_tracker := t,
                             sl_metrics := map_option (\<lambda>m. m\<lparr>sm_objects_completed := sm_objects_completed m + 1,
                               sm_objects_remaining := sm_objects_remaining m - (if counted then 1 else 0)\<rparr>)
                               (sl_metrics l1)\<rparr>))))"

definition current_key :: "('f, 'g, 'z) s3_lane \<Rightarrow> string" where
  "current_key l = (case sl_current l of None \<Rightarrow> [] | Some c \<Rightarrow> co_key c)"

definition poison_decode :: "io_error \<Rightarrow> ('f, 'g, 'z) s3_lane \<Rightarrow> ('f, 'g, 'z) s3_lane" where
  "poison_decode e l =
     lane_poison PoisonUndecodable
       (''decoding '' @ quote (current_key l) @ '': '' @ io_msg e @ '' (corrupt or truncated object?)'') l"

text \<open>The records of the resume object to discard, or the wiring bug a wrong start is.\<close>

definition on_object_start ::
  "('f, 'g, 'z) codecs \<Rightarrow> 32 word \<Rightarrow> string \<Rightarrow> int \<Rightarrow> ('f, 'g, 'z) s3_lane
     \<Rightarrow> source_error option \<times> ('f, 'g, 'z) s3_lane" where
  "on_object_start C ordinal key last_modified_ms l =
     (case begin_object C (codec_resolve (sl_compression l) key) (sl_framer l) of
        (Some e, f) \<Rightarrow>
          (None, lane_poison PoisonUndecodable (''starting decode of '' @ quote key @ '': '' @ io_msg e)
                   (l\<lparr>sl_framer := f\<rparr>))
      | (None, f) \<Rightarrow>
          let l1 = l\<lparr>sl_framer := f, sl_resume := None\<rparr>;
              start = (\<lambda>discard. (None, l1\<lparr>sl_pending_discard := discard,
                 sl_current := Some \<lparr>co_ordinal = ordinal, co_key = key, co_next_record = discard,
                                     co_event_time_ms = last_modified_ms\<rparr>\<rparr>))
          in case sl_resume l of
               None \<Rightarrow> start 0
             | Some pos \<Rightarrow>
                 if pos_ordinal pos = ordinal then start (pos_record pos)
                 else apfst Some (lane_fail Fatal
                        (''fetcher started at ordinal '' @ decimal (unat ordinal)
                         @ '' but the committed resume position is ordinal '' @ decimal (unat (pos_ordinal pos))
                         @ '' '' @ em_dash @ '' internal wiring bug'') l1))"

fun on_msg ::
  "('f, 'g, 'z) codecs \<Rightarrow> chunk_msg \<Rightarrow> ('f, 'g, 'z) s3_lane
     \<Rightarrow> (source_error option \<times> ('f, 'g, 'z) s3_lane) option" where
  "on_msg C (ObjectStart ordinal key last_modified_ms) l =
     Some (on_object_start C (of_nat ordinal) key last_modified_ms l)"
| "on_msg C (Chunk bs) l =
     (let l1 = l\<lparr>sl_metrics := map_option (\<lambda>m. m\<lparr>sm_bytes_read := sm_bytes_read m + length bs\<rparr>) (sl_metrics l)\<rparr>
      in case push_chunk C bs (sl_framer l1) of
           None \<Rightarrow> None
         | Some (None, f) \<Rightarrow> Some (None, l1\<lparr>sl_framer := f\<rparr>)
         | Some (Some e, f) \<Rightarrow> Some (None, poison_decode e (l1\<lparr>sl_framer := f\<rparr>)))"
| "on_msg C ObjectEnd l =
     (case finish_object C (sl_framer l) of
        None \<Rightarrow> None
      | Some (Some e, f) \<Rightarrow>
          Some (None, lane_poison PoisonUndecodable
                  (''finishing decode of '' @ quote (current_key l) @ '': '' @ io_msg e @ '' (truncated object?)'')
                  (l\<lparr>sl_framer := f\<rparr>))
      | Some (None, f) \<Rightarrow> Some (None, l\<lparr>sl_framer := f, sl_pending_end := True\<rparr>))"
| "on_msg C (LaneFailed (Poison kind reason)) l = Some (None, lane_poison kind reason l)"
| "on_msg C (LaneFailed (Overwritten w)) l = Some (None, lane_overwritten w l)"
| "on_msg C (LaneFailed (FatalFailure e)) l = Some (apfst Some (lane_fail (source_class e) (source_reason e) l))"

section \<open>Polling\<close>

record poll_tick =
  pt_deadline :: bool
  pt_ready :: bool
  pt_arrives :: bool

datatype poll_result =
    PollErr source_error
  | PollNone
  | PollBatch "held_record list" int
  | PollRunning

text \<open>Handing out the held records; \<open>last_offset\<close> is what the batch's acknowledgment is issued for.\<close>

definition emit_batch ::
  "('f, 'g, 'z) codecs \<Rightarrow> ('f, 'g, 'z) s3_lane \<Rightarrow> (poll_result \<times> ('f, 'g, 'z) s3_lane) option" where
  "emit_batch C l =
     (let l1 = report_decoded C l
      in if sl_held l1 = [] then None else Some (PollBatch (sl_held l1) (hr_offset (last (sl_held l1))), l1))"

text \<open>The top of a pass: drain, then close an object whose records are out.\<close>

definition poll_drain ::
  "('f, 'g, 'z) codecs \<Rightarrow> nat \<Rightarrow> ('f, 'g, 'z) s3_lane \<Rightarrow> (source_error option \<times> ('f, 'g, 'z) s3_lane) option" where
  "poll_drain C max_records l =
     (case drain_framer max_records l of
        None \<Rightarrow> None
      | Some (Some e, l1) \<Rightarrow> Some (Some e, l1)
      | Some (None, l1) \<Rightarrow>
          (case (if sl_pending_end l1 \<and> \<not> sl_poisoned l1 \<and> queued (sl_framer l1) = 0
                 then finalize_object C l1 else Some l1) of
             None \<Rightarrow> None
           | Some l2 \<Rightarrow>
               Some (None, if sl_truncated l2 \<and> queued (sl_framer l2) = 0
                           then l2\<lparr>sl_truncated := False, sl_current := None\<rparr> else l2)))"

text \<open>The channel closed with nothing received.\<close>

definition on_closed :: "('f, 'g, 'z) s3_lane \<Rightarrow> ('f, 'g, 'z) s3_lane" where
  "on_closed l = lane_wake (l\<lparr>sl_tracker := set_terminal (sl_watermark_candidate l) (sl_tracker l)\<rparr>)"

fun poll_loop ::
  "('f, 'g, 'z) codecs \<Rightarrow> nat \<Rightarrow> poll_tick list \<Rightarrow> bool \<Rightarrow> ('f, 'g, 'z) s3_lane
     \<Rightarrow> (poll_result \<times> ('f, 'g, 'z) s3_lane) option" where
  "poll_loop C max_records [] recv_attempted l = Some (PollRunning, l)"
| "poll_loop C max_records (tick # ticks) recv_attempted l =
     (case poll_drain C max_records l of
        None \<Rightarrow> None
      | Some (Some e, l1) \<Rightarrow> Some (PollErr e, l1)
      | Some (None, l1) \<Rightarrow>
          if sl_poisoned l1 then Some (PollNone, l1)
          else if length (sl_held l1) \<ge> max_records then emit_batch C l1
          else if recv_attempted \<and> pt_deadline tick then
            (if sl_held l1 = [] then Some (PollNone, l1) else emit_batch C l1)
          else if has_pending_input (sl_framer l1) then
            (case pump C (sl_framer l1) of
               None \<Rightarrow> None
             | Some (Some e, f) \<Rightarrow> Some (PollNone, poison_decode e (l1\<lparr>sl_framer := f\<rparr>))
             | Some (None, f) \<Rightarrow> poll_loop C max_records ticks True (l1\<lparr>sl_framer := f\<rparr>))
          else if \<not> pt_ready tick \<and> sl_held l1 \<noteq> [] then emit_batch C l1
          else if \<not> pt_ready tick \<and> \<not> pt_arrives tick then Some (PollNone, l1)
          else (case sl_rx l1 of
                  m # ms \<Rightarrow>
                    (case on_msg C m (l1\<lparr>sl_rx := ms\<rparr>) of
                       None \<Rightarrow> None
                     | Some (Some e, l2) \<Rightarrow> Some (PollErr e, l2)
                     | Some (None, l2) \<Rightarrow>
                         if sl_poisoned l2 then Some (PollNone, l2)
                         else poll_loop C max_records ticks True l2)
                | [] \<Rightarrow>
                    if sl_current l1 \<noteq> None then
                      (case lane_fail Fatal ''object stream ended mid-object: the fetcher terminated unexpectedly'' l1 of
                         (e, l2) \<Rightarrow> Some (PollErr e, l2))
                    else if queued (sl_framer l1) > 0 then poll_loop C max_records ticks True l1
                    else if sl_held l1 \<noteq> [] then emit_batch C l1
                    else Some (PollNone, on_closed l1)))"

definition poll ::
  "('f, 'g, 'z) codecs \<Rightarrow> nat \<Rightarrow> poll_tick list \<Rightarrow> ('f, 'g, 'z) s3_lane
     \<Rightarrow> (poll_result \<times> ('f, 'g, 'z) s3_lane) option" where
  "poll C max_records ticks l =
     (case sl_failed l of
        Some (c, reason) \<Rightarrow> Some (PollErr (SourceClient c reason), l)
      | None \<Rightarrow>
          if sl_poisoned l then Some (PollNone, l)
          else poll_loop C max_records ticks False (l\<lparr>sl_held := []\<rparr>))"

definition finished :: "('f, 'g, 'z) s3_lane \<Rightarrow> bool" where
  "finished l \<longleftrightarrow> terminal (sl_tracker l) \<noteq> None"

text \<open>A poll's records as the payloads the chain takes.\<close>

record s3_batch =
  b3_records :: "held_record list"
  b3_idx :: nat
  b3_partition :: partition_id

definition s3_next_payload :: "s3_batch \<Rightarrow> raw_payload option \<times> s3_batch" where
  "s3_next_payload b =
     (if b3_idx b < length (b3_records b)
      then let r = b3_records b ! b3_idx b
           in (Some \<lparr>rp_bytes = hr_bytes r, rp_key = None, rp_partition = b3_partition b, rp_offset = hr_offset r,
                     rp_timestamp_ms = hr_event_time_ms r\<rparr>, b\<lparr>b3_idx := b3_idx b + 1\<rparr>)
      else (None, b))"

section \<open>Polling a lane to its end\<close>

text \<open>
  A tick at which a poll does not give up: the deadline has not passed and something is there or
  comes.
\<close>

definition tick_prompt :: "poll_tick \<Rightarrow> bool" where
  "tick_prompt t \<longleftrightarrow> \<not> pt_deadline t \<and> (pt_ready t \<or> pt_arrives t)"

text \<open>The records of the batches handed out over a sequence of polls, each of which returns without an error.\<close>

fun lane_polls ::
  "('f, 'g, 'z) codecs \<Rightarrow> nat \<Rightarrow> poll_tick list list \<Rightarrow> ('f, 'g, 'z) s3_lane
     \<Rightarrow> (held_record list \<times> ('f, 'g, 'z) s3_lane) option" where
  "lane_polls C max_records [] l = Some ([], l)"
| "lane_polls C max_records (ticks # rest) l =
     (case poll C max_records ticks l of
        Some (PollBatch hs off, l') \<Rightarrow> map_option (apfst ((@) hs)) (lane_polls C max_records rest l')
      | Some (PollNone, l') \<Rightarrow> lane_polls C max_records rest l'
      | _ \<Rightarrow> None)"

section \<open>What a unit's records are\<close>

text \<open>
  Records \<open>j\<close>, \<open>j + 1\<close>, \ldots{} of the object with ordinal \<open>k\<close>, at their composite offsets.
\<close>

primrec number :: "nat \<Rightarrow> nat \<Rightarrow> int \<Rightarrow> bytes list \<Rightarrow> held_record list" where
  "number k j t [] = []"
| "number k j t (b # bs) =
     \<lparr>hr_offset = int k * 2 ^ 40 + int j, hr_event_time_ms = t, hr_bytes = b\<rparr> # number k (Suc j) t bs"

text \<open>
  The records of a unit's members from ordinal \<open>k\<close> on, \<open>F\<close> framing a member's bytes, the first
  \<open>n\<close> records of the first member left out.
\<close>

fun unit_records ::
  "(bytes \<Rightarrow> bytes list) \<Rightarrow> (nat \<Rightarrow> object_entry \<Rightarrow> bytes) \<Rightarrow> split_range option \<Rightarrow> nat \<Rightarrow> nat \<Rightarrow> object_entry list
     \<Rightarrow> held_record list" where
  "unit_records F B r n k [] = []"
| "unit_records F B r n k (e # es) =
     number k n (oe_last_modified_ms e) (drop n (F (part_bytes (B k e) r))) @ unit_records F B r 0 (k + 1) es"

text \<open>A unit the lane can read: uncompressed, framed without an error, within the offset layout.\<close>

definition good_unit ::
  "(bytes \<Rightarrow> bytes list \<times> io_error option) \<Rightarrow> compression \<Rightarrow> (nat \<Rightarrow> object_entry \<Rightarrow> bytes) \<Rightarrow> split_range option
     \<Rightarrow> nat \<Rightarrow> object_entry list \<Rightarrow> bool" where
  "good_unit F cmpr B r k es \<longleftrightarrow>
     k + length es \<le> 2 ^ 23
     \<and> (\<forall>i<length es. codec_resolve cmpr (oe_key (es ! i)) = Plain
          \<and> snd (F (part_bytes (B (k + i) (es ! i)) r)) = None
          \<and> length (fst (F (part_bytes (B (k + i) (es ! i)) r))) < 2 ^ 40)"

lemma good_unit_Cons:
  assumes "good_unit F cmpr B r k (e # es)"
  shows "good_unit F cmpr B r (k + 1) es" "k < 2 ^ 23" "codec_resolve cmpr (oe_key e) = Plain"
    "snd (F (part_bytes (B k e) r)) = None" "length (fst (F (part_bytes (B k e) r))) < 2 ^ 40"
proof -
  have "\<forall>i<Suc (length es). codec_resolve cmpr (oe_key ((e # es) ! i)) = Plain
          \<and> snd (F (part_bytes (B (k + i) ((e # es) ! i)) r)) = None
          \<and> length (fst (F (part_bytes (B (k + i) ((e # es) ! i)) r))) < 2 ^ 40"
    using assms by (simp add: good_unit_def)
  then show "good_unit F cmpr B r (k + 1) es" "codec_resolve cmpr (oe_key e) = Plain"
    "snd (F (part_bytes (B k e) r)) = None" "length (fst (F (part_bytes (B k e) r))) < 2 ^ 40"
    using assms by (simp_all add: good_unit_def All_less_Suc2)
  show "k < 2 ^ 23" using assms by (simp add: good_unit_def)
qed

section \<open>The lane's invariant\<close>

text \<open>The watermark after the records \<open>past\<close>, from \<open>w0\<close>.\<close>

definition watermark_after :: "int \<Rightarrow> held_record list \<Rightarrow> int" where
  "watermark_after w0 past = (if past = [] then w0 else hr_offset (last past) + 1)"

lemma watermark_after_Nil [simp]: "watermark_after w [] = w"
  by (simp add: watermark_after_def)

lemma watermark_after_append [simp]: "watermark_after (watermark_after w xs) ys = watermark_after w (xs @ ys)"
  by (simp add: watermark_after_def)

definition lane_base :: "('f, 'g, 'z) s3_lane \<Rightarrow> bool" where
  "lane_base l \<longleftrightarrow>
     \<not> sl_poisoned l \<and> sl_failed l = None \<and> \<not> sl_truncated l \<and> of_pending (sl_framer l) = []
     \<and> 0 \<le> sl_watermark_candidate l"

definition resume_at :: "nat \<Rightarrow> nat \<Rightarrow> position option \<Rightarrow> bool" where
  "resume_at n k resume \<longleftrightarrow>
     (case resume of None \<Rightarrow> n = 0 | Some p \<Rightarrow> p = Position (of_nat k) (of_nat n) \<and> k < 2 ^ 23 \<and> n < 2 ^ 40)"

lemma number_append: "number k j t (xs @ ys) = number k j t xs @ number k (j + length xs) t ys"
  by (induction xs arbitrary: j) simp_all

text \<open>The next record of an open object is encoded at its composite offset.\<close>

lemma encode_next:
  assumes "k < 2 ^ 23" "unat n < 2 ^ 40 - 1"
  shows "encode (Position (of_nat k) n) = Inr (int k * 2 ^ 40 + int (unat n))"
    and "\<not> n > MAX_RECORD_INDEX" and "unat (n + 1) = Suc (unat n)"
    and "wrap_i64 (int k * 2 ^ 40 + int (unat n) + 1) = int k * 2 ^ 40 + int (unat n) + 1"
proof -
  have k: "uint (of_nat k :: 32 word) = int k"
    using assms(1) by (simp add: uint_nat [of "of_nat k"] unat_of_nat)
  have n: "uint n = int (unat n)" by (rule uint_nat)
  have "unat n < 2 ^ 40" using assms(2) by simp
  then have "int (unat n) < int (2 ^ 40)" by (simp only: of_nat_less_iff)
  then have "uint n < 2 ^ 40" by (simp only: n of_nat_power of_nat_numeral)
  then show "encode (Position (of_nat k) n) = Inr (int k * 2 ^ 40 + int (unat n))"
    unfolding encode_Inr position.sel k n [symmetric] using assms(1) by simp
  show "\<not> n > MAX_RECORD_INDEX"
    using assms(2) by (simp add: layout_simps word_less_nat_alt push_bit_eq_mult)
  show "unat (n + 1) = Suc (unat n)"
    using assms(2) by (simp add: unat_word_ariths)
  show "wrap_i64 (int k * 2 ^ 40 + int (unat n) + 1) = int k * 2 ^ 40 + int (unat n) + 1"
    using assms by (intro wrap_i64_succ) (simp_all add: i64_max_def del: of_nat_unat)
qed

definition resume_watermark :: "nat \<Rightarrow> nat \<Rightarrow> position option \<Rightarrow> int" where
  "resume_watermark n k resume = (case resume of None \<Rightarrow> 0 | Some p \<Rightarrow> int k * 2 ^ 40 + int n)"

text \<open>Once the terminal watermark is set, nothing is left to hand out.\<close>

definition lane_settled :: "('f, 'g, 'z) s3_lane \<Rightarrow> held_record list \<Rightarrow> bool" where
  "lane_settled l fut \<longleftrightarrow> (finished l \<longrightarrow> fut = [] \<and> terminal (sl_tracker l) = Some (sl_watermark_candidate l))"

text \<open>
  How a poll ends: still running; with nothing to hand out, because it was not prompt or because
  the channel closed and all of the unit is handed out; or with the held records as a batch. It
  never fails or panics.
\<close>

definition poll_ends ::
  "('f, 'g, 'z) codecs \<Rightarrow> poll_tick list \<Rightarrow> poll_result \<Rightarrow> ('f, 'g, 'z) s3_lane \<Rightarrow> held_record list
     \<Rightarrow> ('f, 'g, 'z) s3_lane \<Rightarrow> bool" where
  "poll_ends C ticks res l fut l' =
     (case res of
        PollErr e \<Rightarrow> False
      | PollNone \<Rightarrow> sl_held l = [] \<and> (l' = l \<and> \<not> list_all tick_prompt ticks \<or> fut = [] \<and> l' = on_closed l)
      | PollBatch hs off \<Rightarrow> hs = sl_held l \<and> hs \<noteq> [] \<and> off = hr_offset (last hs) \<and> l' = report_decoded C l
      | PollRunning \<Rightarrow> l' = l)"

lemma report_decoded_held [simp]: "sl_held (report_decoded C l) = sl_held l"
  by (simp add: report_decoded_def Let_def split: option.splits)

context drainable_framer
begin

text \<open>
  Where the open object ends: its remaining chunks and its end are still to come and will complete
  the records \<open>rs\<close>, or its end was taken.
\<close>

definition lane_tail :: "('f, 'g, 'z) s3_lane \<Rightarrow> chunk_msg list \<Rightarrow> bytes list \<Rightarrow> bool" where
  "lane_tail l ms rs \<longleftrightarrow>
     (\<not> sl_pending_end l
        \<and> (\<exists>f cs. of_sink (sl_framer l) = Some (SinkPlain f) \<and> ok f \<and> queue f = []
             \<and> sl_rx l = map Chunk cs @ ObjectEnd # ms \<and> framed ops queue f cs = (rs, None)))
     \<or> sl_pending_end l \<and> of_sink (sl_framer l) = None \<and> sl_rx l = ms \<and> rs = []"

definition member_framed :: "bytes \<Rightarrow> bytes list" where
  "member_framed s = fst (framed ops queue fresh [s])"

text \<open>\<open>lane_inv l fut\<close>: everything the lane will still hand out, beyond what it holds, is \<open>fut\<close>.\<close>

inductive lane_inv ::
  "nat \<Rightarrow> (nat \<Rightarrow> object_entry \<Rightarrow> bytes) \<Rightarrow> split_range option
     \<Rightarrow> ('f, 'g, 'z) s3_lane \<Rightarrow> held_record list \<Rightarrow> bool"
  for cb B r where
  li_between:
    "lane_base l \<Longrightarrow> sl_current l = None \<Longrightarrow> \<not> sl_pending_end l \<Longrightarrow> of_sink (sl_framer l) = None \<Longrightarrow>
     of_ready (sl_framer l) = [] \<Longrightarrow> sl_pending_discard l = 0 \<Longrightarrow>
     unit_stream cb B r k es (sl_rx l) True \<Longrightarrow>
     good_unit (\<lambda>s. framed ops queue fresh [s]) (sl_compression l) B r k es \<Longrightarrow>
     resume_at n k (sl_resume l) \<Longrightarrow>
     (\<And>e es'. es = e # es' \<Longrightarrow> n \<le> length (member_framed (part_bytes (B k e) r))) \<Longrightarrow>
     lane_inv cb B r l (unit_records member_framed B r n k es)"
| li_object:
    "lane_base l \<Longrightarrow> sl_current l = Some cur \<Longrightarrow> co_ordinal cur = of_nat k \<Longrightarrow> k < 2 ^ 23 \<Longrightarrow> sl_resume l = None \<Longrightarrow>
     lane_tail l ms rs \<Longrightarrow>
     unit_stream cb B r (k + 1) es ms True \<Longrightarrow>
     good_unit (\<lambda>s. framed ops queue fresh [s]) (sl_compression l) B r (k + 1) es \<Longrightarrow>
     unat (sl_pending_discard l) \<le> length (of_ready (sl_framer l) @ rs) \<Longrightarrow>
     unat (co_next_record cur) + length (of_ready (sl_framer l) @ rs) < 2 ^ 40 + unat (sl_pending_discard l) \<Longrightarrow>
     lane_inv cb B r l
       (number k (unat (co_next_record cur)) (co_event_time_ms cur)
          (drop (unat (sl_pending_discard l)) (of_ready (sl_framer l) @ rs))
        @ unit_records member_framed B r 0 (k + 1) es)"

text \<open>
  A step of the lane: the records it adds to those held come out of the future in order, and the
  watermark follows them.
\<close>

definition lane_progress ::
  "nat \<Rightarrow> (nat \<Rightarrow> object_entry \<Rightarrow> bytes) \<Rightarrow> split_range option \<Rightarrow> ('f, 'g, 'z) s3_lane \<Rightarrow> held_record list
     \<Rightarrow> ('f, 'g, 'z) s3_lane \<Rightarrow> held_record list \<Rightarrow> held_record list \<Rightarrow> bool" where
  "lane_progress cb B r l fut l' new fut' \<longleftrightarrow>
     lane_inv cb B r l' fut' \<and> fut = new @ fut' \<and> sl_held l' = sl_held l @ new
     \<and> sl_watermark_candidate l' = watermark_after (sl_watermark_candidate l) new
     \<and> terminal (sl_tracker l') = terminal (sl_tracker l) \<and> length (sl_rx l') \<le> length (sl_rx l)"

lemma lane_progress_refl: "lane_inv cb B r l fut \<Longrightarrow> lane_progress cb B r l fut l [] fut"
  by (simp add: lane_progress_def)

lemma lane_progress_trans:
  "lane_progress cb B r l fut l1 new fut1 \<Longrightarrow> lane_progress cb B r l1 fut1 l2 new' fut2 \<Longrightarrow>
   lane_progress cb B r l fut l2 (new @ new') fut2"
  by (simp add: lane_progress_def)

lemma lane_inv_base: "lane_inv cb B r l fut \<Longrightarrow> lane_base l"
  by (auto elim: lane_inv.cases)

text \<open>One record out of the framer's queue: discarded while a resume replays, held otherwise.\<close>

lemma lane_inv_discard:
  assumes "lane_inv cb B r l fut" "of_ready (sl_framer l) = b # q" "sl_pending_discard l > 0"
  shows "lane_progress cb B r l fut
    (l\<lparr>sl_framer := (sl_framer l)\<lparr>of_ready := q\<rparr>, sl_pending_discard := sl_pending_discard l - 1\<rparr>) [] fut"
  using assms(1)
proof cases
  case (li_object cur k ms rs es)
  let ?l = "l\<lparr>sl_framer := (sl_framer l)\<lparr>of_ready := q\<rparr>, sl_pending_discard := sl_pending_discard l - 1\<rparr>"
  have d: "unat (sl_pending_discard l) = Suc (unat (sl_pending_discard l - 1))"
    using assms(3) by (simp add: unat_minus_one unat_gt_0 word_neq_0_conv)
  have "lane_inv cb B r ?l
    (number k (unat (co_next_record cur)) (co_event_time_ms cur)
          (drop (unat (sl_pending_discard ?l)) (of_ready (sl_framer ?l) @ rs))
        @ unit_records member_framed B r 0 (k + 1) es)"
    using li_object assms(2) d by (intro lane_inv.li_object [where ms = ms]) (simp_all add: lane_base_def lane_tail_def)
  with li_object(1) assms(2) d show ?thesis by (simp add: lane_progress_def)
qed (use assms in simp)

lemma lane_inv_hold:
  assumes "lane_inv cb B r l fut" "of_ready (sl_framer l) = b # q" "sl_pending_discard l = 0"
  obtains cur off h where "sl_current l = Some cur" "\<not> co_next_record cur > MAX_RECORD_INDEX"
    "encode (Position (co_ordinal cur) (co_next_record cur)) = Inr off"
    "h = \<lparr>hr_offset = off, hr_event_time_ms = co_event_time_ms cur, hr_bytes = b\<rparr>"
    "lane_progress cb B r l fut
          (l\<lparr>sl_framer := (sl_framer l)\<lparr>of_ready := q\<rparr>,
             sl_current := Some (cur\<lparr>co_next_record := co_next_record cur + 1\<rparr>),
             sl_watermark_candidate := wrap_i64 (off + 1), sl_held := sl_held l @ [h]\<rparr>) [h] (tl fut)"
  using assms(1)
proof cases
  case (li_object cur k ms rs es)
  let ?n = "co_next_record cur"
  let ?off = "int k * 2 ^ 40 + int (unat ?n)"
  let ?h = "\<lparr>hr_offset = ?off, hr_event_time_ms = co_event_time_ms cur, hr_bytes = b\<rparr>"
  let ?cur = "cur\<lparr>co_next_record := ?n + 1\<rparr>"
  let ?l = "l\<lparr>sl_framer := (sl_framer l)\<lparr>of_ready := q\<rparr>, sl_current := Some ?cur,
             sl_watermark_candidate := ?off + 1, sl_held := sl_held l @ [?h]\<rparr>"
  have "unat ?n < 2 ^ 40 - 1" using li_object(11) assms(2,3) by simp
  note enc = encode_next [OF li_object(5) this]
  have "lane_inv cb B r ?l
    (number k (unat (co_next_record ?cur)) (co_event_time_ms ?cur)
          (drop (unat (sl_pending_discard ?l)) (of_ready (sl_framer ?l) @ rs))
        @ unit_records member_framed B r 0 (k + 1) es)"
    using li_object assms(2,3) enc(3) by (intro lane_inv.li_object [where ms = ms]) (simp_all add: lane_base_def lane_tail_def)
  then have "lane_progress cb B r l fut ?l [?h] (tl fut)"
    using li_object(1) assms(2,3) enc(3) by (simp add: lane_progress_def watermark_after_def)
  with that [of cur ?off ?h] li_object enc show ?thesis by simp
qed (use assms in simp)

lemma drain_framer_inv:
  assumes "lane_inv cb B r l fut"
  shows "\<exists>l' new fut'. drain_framer m l = Some (None, l') \<and> lane_progress cb B r l fut l' new fut'
    \<and> (of_ready (sl_framer l') = [] \<or> m \<le> length (sl_held l'))"
  using assms
proof (induction "of_ready (sl_framer l)" arbitrary: l fut)
  case Nil
  then have "drain_framer m l = Some (None, l)"
    by (simp add: drain_framer.simps [of m l] pop_record_def)
  with Nil.hyps lane_progress_refl [OF Nil.prems] show ?case by metis
next
  case (Cons b q)
  note unf = drain_framer.simps [of m l]
  show ?case
  proof (cases "m \<le> length (sl_held l)")
    case True
    then have "drain_framer m l = Some (None, l)" by (simp add: unf)
    with True lane_progress_refl [OF Cons.prems] show ?thesis by blast
  next
    case False
    note q = Cons.hyps(2) [symmetric]
    let ?f = "(sl_framer l)\<lparr>of_ready := q\<rparr>"
    have pop: "pop_record (sl_framer l) = (Some b, ?f)" using q by (simp add: pop_record_def)
    have "\<exists>l1 new fut1. drain_framer m l = drain_framer m l1 \<and> of_ready (sl_framer l1) = q
      \<and> lane_progress cb B r l fut l1 new fut1"
    proof (cases "sl_pending_discard l > 0")
      case True
      show ?thesis
        using lane_inv_discard [OF Cons.prems q True] False True pop
        by (intro exI conjI) (assumption | simp add: unf)+
    next
      case no: False
      then have "sl_pending_discard l = 0" by (simp add: word_neq_0_conv [symmetric])
      from lane_inv_hold [OF Cons.prems q this] obtain cur off h where hold: "sl_current l = Some cur" "\<not> co_next_record cur > MAX_RECORD_INDEX"
        "encode (Position (co_ordinal cur) (co_next_record cur)) = Inr off"
        "h = \<lparr>hr_offset = off, hr_event_time_ms = co_event_time_ms cur, hr_bytes = b\<rparr>"
        "lane_progress cb B r l fut
          (l\<lparr>sl_framer := ?f, sl_current := Some (cur\<lparr>co_next_record := co_next_record cur + 1\<rparr>),
             sl_watermark_candidate := wrap_i64 (off + 1), sl_held := sl_held l @ [h]\<rparr>) [h] (tl fut)"
        by blast
      show ?thesis
        using hold(5) False no pop hold(1-4) by (intro exI conjI) (assumption | simp add: unf)+
    qed
    then obtain l1 new fut1 where l1: "drain_framer m l = drain_framer m l1" "of_ready (sl_framer l1) = q"
      "lane_progress cb B r l fut l1 new fut1" by blast
    then have "lane_inv cb B r l1 fut1" by (simp add: lane_progress_def)
    from Cons.hyps(1) [OF l1(2) [symmetric] this] obtain l2 new' fut2 where
      "drain_framer m l1 = Some (None, l2)" "lane_progress cb B r l1 fut1 l2 new' fut2"
      "of_ready (sl_framer l2) = [] \<or> m \<le> length (sl_held l2)" by blast
    with lane_progress_trans [OF l1(3)] l1(1) show ?thesis by fastforce
  qed
qed

text \<open>The top of a pass: an object whose end was taken is closed once its records are out.\<close>

lemma finalize_object_inv:
  assumes "lane_inv cb B r l fut" "sl_pending_end l" "of_ready (sl_framer l) = []"
  shows "\<exists>l'. finalize_object C l = Some l' \<and> lane_progress cb B r l fut l' [] fut
    \<and> \<not> sl_pending_end l' \<and> sl_held l' = sl_held l \<and> of_ready (sl_framer l') = []"
  using assms(1)
proof cases
  case (li_object cur k ms rs es)
  have rs: "rs = []" "of_sink (sl_framer l) = None" "sl_rx l = ms"
    using li_object(7) assms(2) by (simp_all add: lane_tail_def)
  with li_object(10) assms(3) have d: "sl_pending_discard l = 0" by (simp add: unat_eq_0)
  obtain l' where l': "finalize_object C l = Some l'"
    "sl_framer l' = sl_framer l" "sl_rx l' = sl_rx l" "sl_current l' = None" "\<not> sl_pending_end l'"
    "sl_held l' = sl_held l" "sl_watermark_candidate l' = sl_watermark_candidate l" "sl_resume l' = sl_resume l"
    "sl_pending_discard l' = 0" "sl_compression l' = sl_compression l" "terminal (sl_tracker l') = terminal (sl_tracker l)"
    "sl_poisoned l' = sl_poisoned l" "sl_failed l' = sl_failed l" "sl_truncated l' = sl_truncated l"
    using li_object(3) d
    by (simp add: finalize_object_def Let_def object_done_def report_decoded_def terminal_def split: option.splits)
  have "lane_inv cb B r l' (unit_records member_framed B r 0 (k + 1) es)"
    using li_object l' rs assms(3) d by (intro li_between) (simp_all add: lane_base_def resume_at_def)
  with l' li_object(1) rs d assms(3) show ?thesis by (simp add: lane_progress_def)
qed (use assms in simp)

lemma poll_drain_inv:
  assumes "lane_inv cb B r l fut"
  shows "\<exists>l' new fut'. poll_drain C m l = Some (None, l') \<and> lane_progress cb B r l fut l' new fut'
    \<and> (of_ready (sl_framer l') = [] \<and> \<not> sl_pending_end l' \<or> m \<le> length (sl_held l'))"
proof -
  obtain l1 new fut1 where d: "drain_framer m l = Some (None, l1)" "lane_progress cb B r l fut l1 new fut1"
    "of_ready (sl_framer l1) = [] \<or> m \<le> length (sl_held l1)"
    using drain_framer_inv [OF assms] by blast
  then have inv: "lane_inv cb B r l1 fut1" by (simp add: lane_progress_def)
  from lane_inv_base [OF inv] have base: "\<not> sl_poisoned l1" "\<not> sl_truncated l1" by (simp_all add: lane_base_def)
  show ?thesis
  proof (cases "sl_pending_end l1 \<and> of_ready (sl_framer l1) = []")
    case True
    from finalize_object_inv [OF inv, of C] True obtain l2 where l2: "finalize_object C l1 = Some l2"
      "lane_progress cb B r l1 fut1 l2 [] fut1" "\<not> sl_pending_end l2" "of_ready (sl_framer l2) = []" by blast
    then have "lane_inv cb B r l2 fut1" by (simp add: lane_progress_def)
    from lane_inv_base [OF this] l2 d(1) True base have "poll_drain C m l = Some (None, l2)"
      by (simp add: poll_drain_def queued_def lane_base_def)
    with lane_progress_trans [OF d(2) l2(2)] l2 show ?thesis by blast
  next
    case False
    with d(1) base have "poll_drain C m l = Some (None, l1)" by (auto simp: poll_drain_def queued_def)
    with d False show ?thesis by blast
  qed
qed

text \<open>A message taken with the framer's queue empty.\<close>

lemma on_object_start_inv:
  assumes "lane_inv cb B r l fut" "cd_fresh C = fresh" "sl_rx l = ObjectStart n key t # ms" "of_ready (sl_framer l) = []"
    and "\<not> sl_pending_end l"
  shows "\<exists>l'. on_msg C (ObjectStart n key t) (l\<lparr>sl_rx := ms\<rparr>) = Some (None, l') \<and> lane_progress cb B r l fut l' [] fut
    \<and> sl_rx l' = ms"
  using assms(1)
proof cases
  case (li_between k es n')
  from li_between(8) assms(3) obtain e es' cs ms' where es: "es = e # es'" "n = k" "key = oe_key e" "t = oe_last_modified_ms e"
    "ms = map Chunk cs @ ObjectEnd # ms'" "concat cs = part_bytes (B k e) r" "unit_stream cb B r (k + 1) es' ms' True"
    by (cases rule: unit_stream.cases) auto
  note good = good_unit_Cons [OF li_between(9) [unfolded es(1)]]
  let ?rs = "member_framed (part_bytes (B k e) r)"
  let ?cur = "\<lparr>co_ordinal = of_nat k, co_key = oe_key e, co_next_record = of_nat n', co_event_time_ms = oe_last_modified_ms e\<rparr>"
  let ?l = "l\<lparr>sl_rx := ms, sl_framer := (sl_framer l)\<lparr>of_sink := Some (SinkPlain fresh)\<rparr>, sl_resume := None,
               sl_pending_discard := of_nat n', sl_current := Some ?cur\<rparr>"
  have n': "n' \<le> length ?rs" by (rule li_between(11) [OF es(1)])
  have rs: "framed ops queue fresh [part_bytes (B k e) r] = (?rs, None)" "length ?rs < 2 ^ 40"
    using good(4,5) by (simp_all add: member_framed_def prod_eq_iff)
  have step: "on_msg C (ObjectStart n key t) (l\<lparr>sl_rx := ms\<rparr>) = Some (None, ?l)"
    using es(2-4) good(3) assms(2) li_between(10)
    by (auto simp: on_object_start_def begin_object_def sink_new_def resume_at_def split: option.splits)
  have un: "unat (of_nat n' :: 64 word) = n'"
    using n' rs(2) by (simp add: unat_of_nat)
  have "framed ops queue fresh cs = (?rs, None)"
    using rs(1) framed_concat [OF fresh(1), of cs] es(6) by simp
  then have "lane_tail ?l ms' ?rs"
    using li_between(4) fresh es(5) by (auto simp: lane_tail_def)
  then have "lane_inv cb B r ?l (number k (unat (co_next_record ?cur)) (co_event_time_ms ?cur)
          (drop (unat (sl_pending_discard ?l)) (of_ready (sl_framer ?l) @ ?rs))
        @ unit_records member_framed B r 0 (k + 1) es')"
    using li_between es good n' rs(2) by (intro li_object [where ms = ms']) (simp_all add: lane_base_def un)
  then show ?thesis
    using step li_between(1) es(1) un li_between(6) assms(3) by (simp add: lane_progress_def)
next
  case (li_object cur k ms' rs es)
  then show ?thesis using assms(3,5) by (auto simp: lane_tail_def Cons_eq_append_conv)
qed

lemma framed_cons_push:
  assumes "fr_push ops c f = (x, g)" "framed ops queue f (c # cs) = (rs, None)"
  shows "x = None" "rs = queue g @ fst (framed ops queue (drained g) cs)" "snd (framed ops queue (drained g) cs) = None"
proof -
  have "framed ops queue f (c # cs) = framed ops queue g cs" if "x = None"
    using assms(1) that by (simp add: framed_def feed_and_finish_def)
  moreover have "x = None"
    using assms by (cases x) (auto simp: framed_def feed_and_finish_def)
  ultimately show "x = None" "rs = queue g @ fst (framed ops queue (drained g) cs)"
    "snd (framed ops queue (drained g) cs) = None"
    using assms(2) framed_drained [of g cs] by auto
qed

lemma on_chunk_inv:
  assumes "lane_inv cb B r l fut" "cd_framer C = ops" "sl_rx l = Chunk c # ms" "of_ready (sl_framer l) = []"
    and "\<not> sl_pending_end l"
  shows "\<exists>l'. on_msg C (Chunk c) (l\<lparr>sl_rx := ms\<rparr>) = Some (None, l') \<and> lane_progress cb B r l fut l' [] fut \<and> sl_rx l' = ms"
  using assms(1)
proof cases
  case (li_between k es n')
  from li_between(8) assms(3) show ?thesis by (cases rule: unit_stream.cases) auto
next
  case (li_object cur k ms' rs es)
  from li_object(7) assms(3,5) obtain f cs where f: "of_sink (sl_framer l) = Some (SinkPlain f)" "ok f" "queue f = []"
    "ms = map Chunk cs @ ObjectEnd # ms'" "framed ops queue f (c # cs) = (rs, None)"
    by (auto simp: lane_tail_def Cons_eq_append_conv Cons_eq_map_conv)
  obtain x g where g: "fr_push ops c f = (x, g)" by fastforce
  note fr = framed_cons_push [OF g f(5)]
  define o' where "o' = (sl_framer l)\<lparr>of_sink := Some (SinkPlain (drained g)), of_ready := queue g\<rparr>"
  let ?m = "map_option (\<lambda>m. m\<lparr>sm_bytes_read := sm_bytes_read m + length c\<rparr>) (sl_metrics l)"
  let ?l = "l\<lparr>sl_rx := ms, sl_metrics := ?m, sl_framer := o'\<rparr>"
  have step: "on_msg C (Chunk c) (l\<lparr>sl_rx := ms\<rparr>) = Some (None, ?l)"
    using push_chunk_plain [OF assms(2) f(1) _ f(2,3) g] li_object(2) fr(1) assms(4)
    by (simp add: Let_def lane_base_def o'_def)
  let ?rs = "fst (framed ops queue (drained g) cs)"
  have "ok (drained g)" using push_ok [OF f(2), of c] g drained_ok by simp
  then have "lane_tail ?l ms' ?rs"
    using f(4) fr(3) assms(5) queue_drained by (auto simp: lane_tail_def o'_def prod_eq_iff)
  then have "lane_inv cb B r ?l (number k (unat (co_next_record cur)) (co_event_time_ms cur)
          (drop (unat (sl_pending_discard ?l)) (of_ready (sl_framer ?l) @ ?rs))
        @ unit_records member_framed B r 0 (k + 1) es)"
    using li_object fr(2) assms(4) by (intro lane_inv.li_object [where ms = ms']) (simp_all add: o'_def lane_base_def)
  then show ?thesis
    using step li_object(1) fr(2) assms(3,4) by (simp add: lane_progress_def o'_def)
qed

lemma on_object_end_inv:
  assumes "lane_inv cb B r l fut" "cd_framer C = ops" "sl_rx l = ObjectEnd # ms" "of_ready (sl_framer l) = []"
    and "\<not> sl_pending_end l"
  shows "\<exists>l'. on_msg C ObjectEnd (l\<lparr>sl_rx := ms\<rparr>) = Some (None, l') \<and> lane_progress cb B r l fut l' [] fut \<and> sl_rx l' = ms"
  using assms(1)
proof cases
  case (li_between k es n')
  from li_between(8) assms(3) show ?thesis by (cases rule: unit_stream.cases) auto
next
  case (li_object cur k ms' rs es)
  from li_object(7) assms(3,5) obtain f where f: "of_sink (sl_framer l) = Some (SinkPlain f)" "ok f" "queue f = []"
    "ms' = ms" "framed ops queue f [] = (rs, None)"
    by (auto simp: lane_tail_def Cons_eq_append_conv Cons_eq_map_conv)
  from f(5) obtain g where g: "fr_finish ops f = (None, g)" "queue g = rs"
    by (cases "fr_finish ops f") (auto simp: framed_def feed_and_finish_def)
  define o' where "o' = (sl_framer l)\<lparr>of_sink := None, of_ready := rs,
     of_finished_decoded_bytes := of_finished_decoded_bytes (sl_framer l) + fr_decoded_bytes ops (drained g)\<rparr>"
  let ?l = "l\<lparr>sl_rx := ms, sl_framer := o', sl_pending_end := True\<rparr>"
  have step: "on_msg C ObjectEnd (l\<lparr>sl_rx := ms\<rparr>) = Some (None, ?l)"
    using finish_object_plain [OF assms(2) f(1) g(1)] g(2) assms(4) by (simp add: o'_def)
  have "lane_tail ?l ms []" by (simp add: lane_tail_def o'_def)
  then have "lane_inv cb B r ?l (number k (unat (co_next_record cur)) (co_event_time_ms cur)
          (drop (unat (sl_pending_discard ?l)) (of_ready (sl_framer ?l) @ []))
        @ unit_records member_framed B r 0 (k + 1) es)"
    using li_object f(4) assms(4) by (intro lane_inv.li_object [where ms = ms]) (simp_all add: o'_def lane_base_def)
  then show ?thesis
    using step li_object(1) assms(3,4) by (simp add: lane_progress_def o'_def)
qed

text \<open>No other message comes, and the channel closes only between objects with nothing left.\<close>

lemma lane_message:
  assumes "lane_inv cb B r l fut" "cd_framer C = ops" "cd_fresh C = fresh" "of_ready (sl_framer l) = []" "\<not> sl_pending_end l"
  shows "sl_rx l = m # ms \<Longrightarrow>
      \<exists>l'. on_msg C m (l\<lparr>sl_rx := ms\<rparr>) = Some (None, l') \<and> lane_progress cb B r l fut l' [] fut \<and> sl_rx l' = ms"
    and "sl_rx l = [] \<Longrightarrow> sl_current l = None \<and> fut = []"
proof -
  assume rx: "sl_rx l = m # ms"
  have "\<not> (\<exists>f. m = LaneFailed f)"
    using assms(1)
  proof cases
    case (li_between k es n')
    from li_between(8) rx show ?thesis by (cases rule: unit_stream.cases) auto
  next
    case (li_object cur k ms' rs es)
    then show ?thesis using rx assms(5) by (auto simp: lane_tail_def Cons_eq_append_conv)
  qed
  then show "\<exists>l'. on_msg C m (l\<lparr>sl_rx := ms\<rparr>) = Some (None, l') \<and> lane_progress cb B r l fut l' [] fut \<and> sl_rx l' = ms"
    using rx on_object_start_inv [OF assms(1,3) _ assms(4,5)] on_chunk_inv [OF assms(1,2) _ assms(4,5)]
      on_object_end_inv [OF assms(1,2) _ assms(4,5)]
    by (cases m) blast+
next
  assume rx: "sl_rx l = []"
  from assms(1) show "sl_current l = None \<and> fut = []"
  proof cases
    case (li_between k es n')
    from li_between(8) rx have "es = []" by (cases rule: unit_stream.cases) auto
    with li_between show ?thesis by simp
  next
    case (li_object cur k ms' rs es)
    then show ?thesis using rx assms(5) by (auto simp: lane_tail_def)
  qed
qed

lemma emit_batch_ends:
  assumes "sl_held l \<noteq> []"
  shows "emit_batch C l = Some (PollBatch (sl_held l) (hr_offset (last (sl_held l))), report_decoded C l)"
    "poll_ends C ticks (PollBatch (sl_held l) (hr_offset (last (sl_held l)))) l fut (report_decoded C l)"
  using assms by (simp_all add: emit_batch_def Let_def poll_ends_def)

text \<open>One pass over a lane whose framer has no input pending.\<close>

lemma poll_pass:
  assumes "poll_drain C m l = Some (None, l1)" "lane_base l1"
  shows "poll_loop C m (tick # ticks) att l =
     (if length (sl_held l1) \<ge> m then emit_batch C l1
      else if att \<and> pt_deadline tick then (if sl_held l1 = [] then Some (PollNone, l1) else emit_batch C l1)
      else if \<not> pt_ready tick \<and> sl_held l1 \<noteq> [] then emit_batch C l1
      else if \<not> pt_ready tick \<and> \<not> pt_arrives tick then Some (PollNone, l1)
      else (case sl_rx l1 of
              m' # ms \<Rightarrow>
                (case on_msg C m' (l1\<lparr>sl_rx := ms\<rparr>) of
                   None \<Rightarrow> None
                 | Some (Some e, l2) \<Rightarrow> Some (PollErr e, l2)
                 | Some (None, l2) \<Rightarrow>
                     if sl_poisoned l2 then Some (PollNone, l2) else poll_loop C m ticks True l2)
            | [] \<Rightarrow>
                if sl_current l1 \<noteq> None then
                  (case lane_fail Fatal ''object stream ended mid-object: the fetcher terminated unexpectedly'' l1 of
                     (e, l2) \<Rightarrow> Some (PollErr e, l2))
                else if queued (sl_framer l1) > 0 then poll_loop C m ticks True l1
                else if sl_held l1 \<noteq> [] then emit_batch C l1
                else Some (PollNone, on_closed l1)))"
  using assms by (simp add: has_pending_input_def lane_base_def)

lemma poll_loop_inv:
  assumes "lane_inv cb B r l fut" "cd_framer C = ops" "cd_fresh C = fresh" "0 < m"
  shows "\<exists>res l0 l' new fut'. poll_loop C m ticks att l = Some (res, l') \<and> lane_progress cb B r l fut l0 new fut'
    \<and> poll_ends C ticks res l0 fut' l' \<and> (length (sl_rx l) < length ticks \<longrightarrow> res \<noteq> PollRunning)"
  using assms(1)
proof (induction ticks arbitrary: att l fut)
  case Nil
  have "poll_ends C [] PollRunning l fut l" by (simp add: poll_ends_def)
  with lane_progress_refl [OF Nil] show ?case by fastforce
next
  case (Cons tick ticks)
  obtain l1 new1 fut1 where d: "poll_drain C m l = Some (None, l1)" "lane_progress cb B r l fut l1 new1 fut1"
    "of_ready (sl_framer l1) = [] \<and> \<not> sl_pending_end l1 \<or> m \<le> length (sl_held l1)"
    using poll_drain_inv [OF Cons.prems] by blast
  then have inv: "lane_inv cb B r l1 fut1" and rx: "length (sl_rx l1) \<le> length (sl_rx l)" by (simp_all add: lane_progress_def)
  note pass = poll_pass [OF d(1) lane_inv_base [OF inv], of tick ticks att]
  have emit: ?case if "poll_loop C m (tick # ticks) att l = emit_batch C l1" "sl_held l1 \<noteq> []"
    using that(1) emit_batch_ends [OF that(2), where C = C] d(2) by fastforce
  have none: ?case if "poll_loop C m (tick # ticks) att l = Some (PollNone, l')" "poll_ends C (tick # ticks) PollNone l1 fut1 l'" for l'
    using that d(2) by fastforce
  let ?stop = "length (sl_held l1) \<ge> m \<or> (att \<and> pt_deadline tick) \<or> (\<not> pt_ready tick \<and> (sl_held l1 \<noteq> [] \<or> \<not> pt_arrives tick))"
  have stop: "of_ready (sl_framer l1) = []" "\<not> sl_pending_end l1" if "\<not> ?stop"
    using that d(3) by simp_all
  note take = lane_message [OF inv assms(2,3) stop]
  consider (stop) ?stop | (closed) "\<not> ?stop" "sl_rx l1 = []" | (msg) m' ms where "\<not> ?stop" "sl_rx l1 = m' # ms"
    by (cases "sl_rx l1") blast+
  then show ?case
  proof cases
    case stop
    show ?thesis
    proof (cases "sl_held l1 = []")
      case True
      with stop assms(4) show ?thesis by (intro none [of l1]) (unfold pass, auto simp: poll_ends_def tick_prompt_def)
    next
      case False
      with stop show ?thesis by (intro emit) (unfold pass, auto)
    qed
  next
    case closed
    note c = take(2) [OF closed(1,1,2)]
    show ?thesis
    proof (cases "sl_held l1 = []")
      case True
      with closed c stop show ?thesis
        by (intro none [of "on_closed l1"]) (unfold pass, auto simp: poll_ends_def queued_def)
    next
      case False
      with closed c stop show ?thesis by (intro emit) (unfold pass, auto simp: queued_def)
    qed
  next
    case (msg m' ms)
    obtain l2 where l2: "on_msg C m' (l1\<lparr>sl_rx := ms\<rparr>) = Some (None, l2)"
      "lane_progress cb B r l1 fut1 l2 [] fut1" "sl_rx l2 = ms" using take(1) [OF msg(1,1,2)] by blast
    then have inv2: "lane_inv cb B r l2 fut1" by (simp add: lane_progress_def)
    from lane_inv_base [OF this] have "\<not> sl_poisoned l2" by (simp add: lane_base_def)
    with msg l2(1) have run: "poll_loop C m (tick # ticks) att l = poll_loop C m ticks True l2"
      by (unfold pass) auto
    from Cons.IH [OF inv2, of True] obtain res l0 l' new fut' where
      "poll_loop C m ticks True l2 = Some (res, l')" "lane_progress cb B r l2 fut1 l0 new fut'"
      "poll_ends C ticks res l0 fut' l'" "length (sl_rx l2) < length ticks \<longrightarrow> res \<noteq> PollRunning" by blast
    moreover from this(3) have "poll_ends C (tick # ticks) res l0 fut' l'"
      by (auto simp: poll_ends_def split: poll_result.splits)
    ultimately show ?thesis
      using run lane_progress_trans [OF lane_progress_trans [OF d(2) l2(2)]] l2(3) rx msg(2) by fastforce
  qed
qed

text \<open>A whole poll.\<close>

lemma lane_inv_cong:
  assumes "lane_inv cb B r l fut" "sl_framer l' = sl_framer l" "sl_rx l' = sl_rx l" "sl_current l' = sl_current l"
    "sl_pending_end l' = sl_pending_end l" "sl_watermark_candidate l' = sl_watermark_candidate l" "sl_resume l' = sl_resume l"
    "sl_pending_discard l' = sl_pending_discard l" "sl_compression l' = sl_compression l"
    "sl_poisoned l' = sl_poisoned l" "sl_failed l' = sl_failed l" "sl_truncated l' = sl_truncated l"
  shows "lane_inv cb B r l' fut"
  using assms(1)
proof cases
  case (li_between k es n)
  then show ?thesis using assms(2-) lane_inv.li_between [of l' cb B r k es n] by (simp add: lane_base_def)
next
  case (li_object cur k ms rs es)
  then show ?thesis using assms(2-) lane_inv.li_object [of l' cur k ms rs cb B r es] by (simp add: lane_base_def lane_tail_def)
qed

lemma poll_inv:
  assumes "lane_inv cb B r l fut" "lane_settled l fut" "cd_framer C = ops" "cd_fresh C = fresh" "0 < m"
    and "length (sl_rx l) < length ticks"
  obtains (batch) hs off l' fut' where "poll C m ticks l = Some (PollBatch hs off, l')" "hs \<noteq> []" "fut = hs @ fut'"
    "lane_inv cb B r l' fut'" "lane_settled l' fut'" "length (sl_rx l') \<le> length (sl_rx l)"
    "sl_watermark_candidate l' = watermark_after (sl_watermark_candidate l) hs"
  | (none) l' where "poll C m ticks l = Some (PollNone, l')" "lane_inv cb B r l' fut" "lane_settled l' fut"
    "length (sl_rx l') \<le> length (sl_rx l)" "sl_watermark_candidate l' = sl_watermark_candidate l"
    "list_all tick_prompt ticks \<longrightarrow> finished l'"
proof -
  let ?l = "l\<lparr>sl_held := []\<rparr>"
  have inv: "lane_inv cb B r ?l fut" by (rule lane_inv_cong [OF assms(1)]) simp_all
  from poll_loop_inv [OF this assms(3-5), of ticks False] assms(6) obtain res l0 l' new fut' where
    run: "poll_loop C m ticks False ?l = Some (res, l')" and prog: "lane_progress cb B r ?l fut l0 new fut'"
    and ends: "poll_ends C ticks res l0 fut' l'" and res: "res \<noteq> PollRunning" by auto
  have poll: "poll C m ticks l = Some (res, l')"
    using lane_inv_base [OF assms(1)] run by (simp add: poll_def lane_base_def)
  have l0: "lane_inv cb B r l0 fut'" "fut = new @ fut'" "sl_held l0 = new" "length (sl_rx l0) \<le> length (sl_rx l)"
    "sl_watermark_candidate l0 = watermark_after (sl_watermark_candidate l) new"
    "terminal (sl_tracker l0) = terminal (sl_tracker l)"
    using prog by (simp_all add: lane_progress_def)
  have settled: "lane_settled l0 fut'"
    using assms(2) l0 by (auto simp: lane_settled_def finished_def)
  show ?thesis
  proof (cases res)
    case (PollBatch hs off)
    with ends have e: "hs = new" "hs \<noteq> []" "l' = report_decoded C l0" using l0(3) by (auto simp: poll_ends_def)
    have fr: "sl_framer l' = sl_framer l0" "sl_rx l' = sl_rx l0" "sl_tracker l' = sl_tracker l0"
      "sl_watermark_candidate l' = sl_watermark_candidate l0"
      using e(3) by (simp_all add: report_decoded_def Let_def split: option.splits)
    have "lane_inv cb B r l' fut'"
      using e(3) by (intro lane_inv_cong [OF l0(1)]) (simp_all add: report_decoded_def Let_def split: option.splits)
    moreover have "lane_settled l' fut'" using settled fr by (simp add: lane_settled_def finished_def)
    ultimately show ?thesis
      using poll PollBatch e l0 fr by (intro batch [of new off l' fut']) simp_all
  next
    case PollNone
    with ends l0(3) have e: "new = []" "l' = l0 \<and> \<not> list_all tick_prompt ticks \<or> fut' = [] \<and> l' = on_closed l0"
      by (simp_all add: poll_ends_def)
    then consider "l' = l0" "\<not> list_all tick_prompt ticks" | "fut' = []" "l' = on_closed l0" by blast
    then show ?thesis
    proof cases
      case 1
      with poll PollNone l0 e(1) settled show ?thesis by (intro none [of l']) simp_all
    next
      case 2
      have "0 \<le> sl_watermark_candidate l0" using lane_inv_base [OF l0(1)] by (simp add: lane_base_def)
      then have "terminal (sl_tracker l') = Some (sl_watermark_candidate l0)"
        using 2 by (simp add: on_closed_def lane_wake_def terminal_def set_terminal_def tk_UNKNOWN_def)
      moreover have "lane_inv cb B r l' fut'"
        using 2 by (intro lane_inv_cong [OF l0(1)]) (simp_all add: on_closed_def lane_wake_def)
      ultimately show ?thesis
        using poll PollNone l0 e(1) 2
        by (intro none [of l']) (simp_all add: lane_settled_def finished_def on_closed_def lane_wake_def)
    qed
  qed (use ends res in \<open>simp_all add: poll_ends_def\<close>)
qed

lemma lane_polls_inv:
  assumes "cd_framer C = ops" "cd_fresh C = fresh" "0 < m"
    and "lane_inv cb B r l fut" "lane_settled l fut" "\<forall>ticks\<in>set tss. length (sl_rx l) < length ticks"
  shows "\<exists>hs l' fut'. lane_polls C m tss l = Some (hs, l') \<and> fut = hs @ fut' \<and> lane_settled l' fut'
    \<and> sl_watermark_candidate l' = watermark_after (sl_watermark_candidate l) hs
    \<and> (length fut < length tss \<longrightarrow> (\<forall>ticks\<in>set tss. list_all tick_prompt ticks) \<longrightarrow> finished l')"
  using assms(4-)
proof (induction tss arbitrary: l fut)
  case Nil
  then show ?case by simp
next
  case (Cons ticks tss)
  have "length (sl_rx l) < length ticks" using Cons.prems(3) by simp
  from Cons.prems(1,2) assms(1-3) this show ?case
  proof (cases rule: poll_inv)
    case (batch hs off l' fut')
    have "\<forall>ticks\<in>set tss. length (sl_rx l') < length ticks" using batch(6) Cons.prems(3) by fastforce
    from Cons.IH [OF batch(4,5) this] obtain hs' l2 fut2 where l2: "lane_polls C m tss l' = Some (hs', l2)"
      "fut' = hs' @ fut2" "lane_settled l2 fut2" "sl_watermark_candidate l2 = watermark_after (sl_watermark_candidate l') hs'"
      "length fut' < length tss \<Longrightarrow> \<forall>ticks\<in>set tss. list_all tick_prompt ticks \<Longrightarrow> finished l2" by blast
    have "length fut' < length tss" if "length fut < length (ticks # tss)"
      using that batch(2,3) by (cases hs) simp_all
    with l2 batch show ?thesis by (intro exI [of _ "hs @ hs'"] exI [of _ l2] exI [of _ fut2]) simp
  next
    case (none l')
    have "\<forall>ticks\<in>set tss. length (sl_rx l') < length ticks" using none(4) Cons.prems(3) by fastforce
    from Cons.IH [OF none(2,3) this] obtain hs' l2 fut2 where l2: "lane_polls C m tss l' = Some (hs', l2)"
      "fut = hs' @ fut2" "lane_settled l2 fut2" "sl_watermark_candidate l2 = watermark_after (sl_watermark_candidate l') hs'"
      "length fut < length tss \<Longrightarrow> \<forall>ticks\<in>set tss. list_all tick_prompt ticks \<Longrightarrow> finished l2" by blast
    have "finished l2" if "\<forall>ticks\<in>set (ticks # tss). list_all tick_prompt ticks"
    proof (cases "tss = []")
      case True
      with l2(1) none(6) that show ?thesis by simp
    next
      case False
      have "fut = []" using none(3,6) that by (simp add: lane_settled_def)
      with l2(5) False that show ?thesis by simp
    qed
    with l2 none show ?thesis by (intro exI [of _ hs'] exI [of _ l2] exI [of _ fut2]) simp
  qed
qed

text \<open>A new lane, on the messages of a fetcher that finished its unit.\<close>

lemma lane_new_inv:
  assumes "unit_stream cb B r k es rx True" "good_unit (\<lambda>s. framed ops queue fresh [s]) cmpr B r k es"
    and "resume_at n k resume" "\<And>e es'. es = e # es' \<Longrightarrow> n \<le> length (member_framed (part_bytes (B k e) r))"
  shows "\<exists>l. s3_lane_new part rx cmpr resume split_tracker_new metrics = Some l
    \<and> lane_inv cb B r l (unit_records member_framed B r n k es) \<and> \<not> finished l
    \<and> sl_rx l = rx \<and> sl_watermark_candidate l = resume_watermark n k resume"
proof -
  have enc: "(case resume of None \<Rightarrow> Inr 0 | Some p \<Rightarrow> encode p) = Inr (resume_watermark n k resume)"
  proof (cases resume)
    case (Some p)
    have "unat (of_nat n :: 64 word) = n" "unat (of_nat k :: 32 word) = k"
      using assms(3) Some by (simp_all add: resume_at_def unat_of_nat)
    then have "uint (of_nat n :: 64 word) = int n" "uint (of_nat k :: 32 word) = int k"
      by (simp_all add: uint_nat [of "of_nat n"] uint_nat [of "of_nat k"])
    then show ?thesis using assms(3) Some by (simp add: encode_Inr resume_at_def resume_watermark_def)
  qed (simp add: resume_watermark_def)
  have "0 \<le> resume_watermark n k resume" by (simp add: resume_watermark_def split: option.splits)
  then show ?thesis
    using assms enc
    by (simp add: s3_lane_new_def object_framer_new_def lane_base_def finished_def terminal_def split_tracker_new_def
        li_between)
qed

end

lemma ndjson_framed_one: "(\<lambda>s. framed ndjson_ops nf_ready (ndjson_new cap) [s]) = ndjson_reference cap"
  by (simp add: ndjson_framed_whole fun_eq_iff)

lemma ndjson_member_framed: "ndjson.member_framed cap = (\<lambda>s. fst (ndjson_reference cap s))"
  by (simp add: ndjson.member_framed_def ndjson_framed_whole fun_eq_iff)

text \<open>A fetcher run that reported no failure sent its whole unit.\<close>

lemma unit_stream_completes:
  assumes "unit_stream cb B r k es ms fin" "\<And>f. LaneFailed f \<notin> set ms"
  shows "unit_stream cb B r k es ms True"
proof -
  from assms have "fin" by (induction rule: unit_stream.induct) auto
  with assms(1) show ?thesis by simp
qed

lemma run_fetcher_stream:
  assumes "pinned_store (fe_store E) content" "0 < fe_chunk_bytes E"
    and "\<And>i. i < length (drop k members) \<Longrightarrow> member_ok content k resume_etag r (k + i) (drop k members ! i)"
    and "run_fetcher E members k resume_etag r \<lparr>lc_sent = [], lc_room = None\<rparr> = Some ch" "\<And>f. LaneFailed f \<notin> set (lc_sent ch)"
  shows "unit_stream (fe_chunk_bytes E) (member_bytes content k resume_etag) r k (drop k members) (lc_sent ch) True"
proof -
  obtain ms fin where "lc_sent ch = ms"
    "unit_stream (fe_chunk_bytes E) (member_bytes content k resume_etag) r k (drop k members) ms fin"
    using fetch_members_delivers [OF assms(1,2), of "drop k members" k resume_etag r k "\<lparr>lc_sent = [], lc_room = None\<rparr>" None]
      assms(3,4) by (auto simp: run_fetcher_def ahead_ok_def)
  with unit_stream_completes assms(5) show ?thesis by blast
qed

text \<open>
  C33. A unit read to its end. Let a fetcher run over a unit's members from ordinal \<open>k\<close>, against a
  store whose pinned reads return the pinned content, without reporting a failure, and let a lane,
  resumed at record \<open>n\<close> of member \<open>k\<close> or fresh, take its messages, its objects uncompressed NDJSON
  within the offset layout. Then over any sequence of polls, whatever they observe of time, no poll
  fails or panics, and the records handed out are an initial part of the unit's records from the
  resume position on, in order, each once, at its composite offset, framed as the reference frames
  the member's bytes. The terminal watermark is set only when all of them are out, to one past the
  last, and it is set after one more prompt poll than there are records.
\<close>
theorem s3_unit_read_once:
  fixes C :: "(ndjson_framer, 'g, 'z) codecs"
  assumes store: "pinned_store (fe_store E) content" "0 < fe_chunk_bytes E"
      "\<And>i. i < length (drop k members) \<Longrightarrow> member_ok content k resume_etag r (k + i) (drop k members ! i)"
    and fetch: "run_fetcher E members k resume_etag r \<lparr>lc_sent = [], lc_room = None\<rparr> = Some ch"
      "\<And>f. LaneFailed f \<notin> set (lc_sent ch)"
    and good: "good_unit (ndjson_reference cap) cmpr (member_bytes content k resume_etag) r k (drop k members)"
      "cd_framer C = ndjson_ops" "cd_fresh C = ndjson_new cap"
    and resume: "resume_at n k resume"
      "k < length members \<Longrightarrow>
         n \<le> length (fst (ndjson_reference cap (part_bytes (member_bytes content k resume_etag k (members ! k)) r)))"
    and polls: "0 < m" "\<And>ticks. ticks \<in> set tss \<Longrightarrow> length (lc_sent ch) < length ticks"
  shows "\<exists>l hs l' U. s3_lane_new part (lc_sent ch) cmpr resume split_tracker_new metrics = Some l
    \<and> lane_polls C m tss l = Some (hs, l')
    \<and> U = unit_records (\<lambda>s. fst (ndjson_reference cap s)) (member_bytes content k resume_etag) r n k (drop k members)
    \<and> prefix hs U
    \<and> (finished l' \<longrightarrow> hs = U \<and> terminal (sl_tracker l') = Some (watermark_after (resume_watermark n k resume) U))
    \<and> (length U < length tss \<longrightarrow> (\<forall>ticks\<in>set tss. list_all tick_prompt ticks) \<longrightarrow> finished l')"
proof -
  let ?B = "member_bytes content k resume_etag" and ?es = "drop k members"
  let ?U = "unit_records (\<lambda>s. fst (ndjson_reference cap s)) ?B r n k ?es"
  note us = run_fetcher_stream [OF store fetch]
  have "\<exists>l :: (ndjson_framer, 'g, 'z) s3_lane. s3_lane_new part (lc_sent ch) cmpr resume split_tracker_new metrics = Some l
    \<and> ndjson.lane_inv cap (fe_chunk_bytes E) ?B r l (unit_records (ndjson.member_framed cap) ?B r n k ?es) \<and> \<not> finished l
    \<and> sl_rx l = lc_sent ch \<and> sl_watermark_candidate l = resume_watermark n k resume"
  proof (rule ndjson.lane_new_inv [OF us good(1) [folded ndjson_framed_one] resume(1)])
    show "n \<le> length (ndjson.member_framed cap (part_bytes (?B k e) r))" if "?es = e # es'" for e es'
    proof -
      from that have "k < length members" by (metis drop_all leI list.discI)
      with that hd_drop_conv_nth [OF this] resume(2) show ?thesis by (simp add: ndjson_member_framed)
    qed
  qed
  then obtain l :: "(ndjson_framer, 'g, 'z) s3_lane" where l: "s3_lane_new part (lc_sent ch) cmpr resume split_tracker_new metrics = Some l"
    "ndjson.lane_inv cap (fe_chunk_bytes E) ?B r l ?U" "\<not> finished l" "sl_rx l = lc_sent ch"
    "sl_watermark_candidate l = resume_watermark n k resume"
    unfolding ndjson_member_framed by blast
  have "lane_settled l ?U" using l(3) by (simp add: lane_settled_def)
  from ndjson.lane_polls_inv [OF good(2,3) polls(1) l(2) this, of tss] polls(2) l(4)
  obtain hs l' fut' where run: "lane_polls C m tss l = Some (hs, l')" "?U = hs @ fut'" "lane_settled l' fut'"
    "sl_watermark_candidate l' = watermark_after (sl_watermark_candidate l) hs"
    "length ?U < length tss \<longrightarrow> (\<forall>ticks\<in>set tss. list_all tick_prompt ticks) \<longrightarrow> finished l'"
    by auto
  from run(2-4) have "prefix hs ?U"
    "finished l' \<longrightarrow> hs = ?U \<and> terminal (sl_tracker l') = Some (watermark_after (resume_watermark n k resume) ?U)"
    by (auto simp: lane_settled_def l(5))
  with l(1) run(1,5) show ?thesis by blast
qed

text \<open>A two-line object read in two chunks, resumed after its first record.\<close>

definition s3_demo_content :: "string \<Rightarrow> string \<Rightarrow> bytes" where
  "s3_demo_content path etag = [97, 10, 98, 10]"

definition s3_demo_env :: fetch_env where
  "s3_demo_env =
     \<lparr>fe_split = ''s'',
      fe_store = \<lparr>st_parse = Inr, st_get = (\<lambda>path etag v s e k. Inr (subslice s e (s3_demo_content path etag))),
                  st_stream = (\<lambda>path v k. Inr []),
                  st_head = (\<lambda>path k. Inr \<lparr>hm_etag = None, hm_size = 4, hm_last_modified_ms = 7\<rparr>)\<rparr>,
      fe_range_bytes = 8, fe_chunk_bytes = 3, fe_retry_base = 1, fe_rnd = Fin, fe_origin = Lister\<rparr>"

definition s3_demo_members :: "object_entry list" where
  "s3_demo_members = [\<lparr>oe_key = ''a'', oe_size = 4, oe_etag = Some ''e'', oe_last_modified_ms = 7\<rparr>]"

definition s3_demo_sent :: "chunk_msg list" where
  "s3_demo_sent = [ObjectStart 0 ''a'' 7, Chunk [97, 10, 98], Chunk [10], ObjectEnd]"

definition s3_demo_codecs :: "(ndjson_framer, unit, unit) codecs" where
  "s3_demo_codecs =
     (let none = \<lparr>dec_new = (\<lambda>f. Inr ()), dec_write = (\<lambda>bs d. (Inr (length bs), ())), dec_framer = (\<lambda>d. ndjson_new 16),
                  dec_with_framer = (\<lambda>f d. ()), dec_finish = (\<lambda>d. (None, ()))\<rparr>
      in \<lparr>cd_framer = ndjson_ops, cd_fresh = ndjson_new 16, cd_gzip = none, cd_zstd = none\<rparr>)"

definition s3_demo_ticks :: "poll_tick list" where
  "s3_demo_ticks = replicate 5 \<lparr>pt_deadline = False, pt_ready = True, pt_arrives = True\<rparr>"

lemma s3_demo_store: "pinned_store (fe_store s3_demo_env) s3_demo_content"
  by (auto simp: pinned_store_def s3_demo_env_def intro: order.strict_implies_order)

lemma s3_demo_fetch:
  "run_fetcher s3_demo_env s3_demo_members 0 None None \<lparr>lc_sent = [], lc_room = None\<rparr> = Some \<lparr>lc_sent = s3_demo_sent, lc_room = None\<rparr>"
  by (simp add: run_fetcher_def s3_demo_members_def s3_demo_sent_def chan_send_def stream_object_def stream_object_ranged_def
      object_path_def s3_demo_env_def Let_def window_end_def sat_add_def usize_max_def window_fetch_def fetch_loop.simps
      s3_demo_content_def subslice_def next_read_def ranged_loop.simps trim_feed_def send_chunks.simps)

lemma s3_demo_framed: "ndjson_reference 16 [97, 10, 98, 10] = ([[97], [98]], None)"
  by (simp add: ndjson_reference_def newline_def frame_line_def line_records_def strip_cr_def carriage_return_def
      is_ascii_whitespace_def)

theorem s3_unit_read_once_witness:
  "\<exists>l l'. s3_lane_new (PartitionId 0) s3_demo_sent CompressionAuto (Some (Position 0 1)) split_tracker_new None = Some l
    \<and> lane_polls s3_demo_codecs 1 [s3_demo_ticks, s3_demo_ticks] l
        = Some ([\<lparr>hr_offset = 1, hr_event_time_ms = 7, hr_bytes = [98]\<rparr>], l')
    \<and> terminal (sl_tracker l') = Some 2"
proof -
  let ?ch = "\<lparr>lc_sent = s3_demo_sent, lc_room = None\<rparr>" and ?tss = "[s3_demo_ticks, s3_demo_ticks]"
  let ?U = "unit_records (\<lambda>s. fst (ndjson_reference 16 s)) (member_bytes s3_demo_content 0 None) None 1 0 (drop 0 s3_demo_members)"
  have "\<exists>l hs l' U. s3_lane_new (PartitionId 0) (lc_sent ?ch) CompressionAuto (Some (Position 0 1)) split_tracker_new None = Some l
    \<and> lane_polls s3_demo_codecs 1 ?tss l = Some (hs, l') \<and> U = ?U \<and> prefix hs U
    \<and> (finished l' \<longrightarrow> hs = U \<and> terminal (sl_tracker l') = Some (watermark_after (resume_watermark 1 0 (Some (Position 0 1))) U))
    \<and> (length U < length ?tss \<longrightarrow> (\<forall>ticks\<in>set ?tss. list_all tick_prompt ticks) \<longrightarrow> finished l')"
  proof (rule s3_unit_read_once [OF s3_demo_store _ _ s3_demo_fetch])
    show "member_ok s3_demo_content 0 None None (0 + i) (drop 0 s3_demo_members ! i)" if "i < length (drop 0 s3_demo_members)" for i
      using that by (simp add: s3_demo_members_def member_ok_def Let_def pinned_etag_def member_bytes_def s3_demo_content_def)
    show "good_unit (ndjson_reference 16) CompressionAuto (member_bytes s3_demo_content 0 None) None 0 (drop 0 s3_demo_members)"
      by (simp add: good_unit_def s3_demo_members_def member_bytes_def s3_demo_content_def part_bytes_def s3_demo_framed ends_with_def)
  qed (simp_all add: s3_demo_env_def s3_demo_sent_def s3_demo_codecs_def Let_def resume_at_def s3_demo_ticks_def
      member_bytes_def s3_demo_content_def part_bytes_def s3_demo_framed)
  moreover have "?U = [\<lparr>hr_offset = 1, hr_event_time_ms = 7, hr_bytes = [98]\<rparr>]"
    by (simp add: s3_demo_members_def member_bytes_def s3_demo_content_def part_bytes_def s3_demo_framed)
  moreover have "list_all tick_prompt s3_demo_ticks" by (simp add: s3_demo_ticks_def tick_prompt_def list_all_length)
  ultimately show ?thesis by (simp add: watermark_after_def) blast
qed

text \<open>
  C36. Reading an object in byte ranges. Tiling an object at the NDJSON framer's resynchronisation
  delimiter and framing what each range owns on its own, one after the other, gives the records
  of the whole object, in order and each once, and the same failure, whatever the target size.
\<close>
theorem range_units_frame_object:
  assumes "length s < 2 ^ 64" "0 < target" "ndjson_resync_delimiter (ndjson_new cap) = Some d"
  shows "\<exists>rs. tile (length s) target d = Some rs
    \<and> foldr (\<lambda>r. frame_then (framed ndjson_ops nf_ready (ndjson_new cap) [owned s r])) rs ([], None) = ndjson_reference cap s"
proof -
  obtain rs where rs: "tile (length s) target d = Some rs" "concat (map (owned s) rs) = s"
    using tile_owned [OF assms(1,2)] by blast
  have "framed ndjson_ops nf_ready (ndjson_new cap) [concat (map (owned s) rs)]
    = foldr (\<lambda>p. frame_then (framed ndjson_ops nf_ready (ndjson_new cap) [p])) (map (owned s) rs) ([], None)"
    by (rule ndjson.framed_pieces) (use assms(3) tile_pieces [OF assms(1,2) rs(1)] in \<open>simp_all\<close>)
  then show ?thesis using rs by (simp add: foldr_map o_def ndjson_framed_whole)
qed

theorem range_units_frame_object_witness:
  "\<exists>rs. tile (length [97, 98, 99, 100, 10, 98 :: 8 word]) 4 10 = Some rs
    \<and> foldr (\<lambda>r. frame_then (framed ndjson_ops nf_ready (ndjson_new 16) [owned [97, 98, 99, 100, 10, 98] r])) rs ([], None)
      = ([[97, 98, 99, 100], [98]], None)"
  using range_units_frame_object [of "[97, 98, 99, 100, 10, 98]" 4 16 10]
  by (simp add: ndjson_resync_delimiter_def newline_def ndjson_reference_def frame_line_def line_records_def strip_cr_def
      carriage_return_def is_ascii_whitespace_def)


end
