(* ===== verification/S3_Split.thy ===== *)
theory S3_Split
  imports S3_Lane "HOL-Library.List_Lexorder" "HOL-Library.Multiset"
begin

text \<open>
  Unit descriptors and unit identity, \<open>crates/spate-s3/src/split.rs\<close>.

  A descriptor crosses processes as versioned JSON; the JSON reader and writer are third-party
  code and an argument of the operations that call them. An id is a truncated digest of a
  length-prefixed preimage; the digest and its text encoding are arguments as well, and
  \<open>sort_unstable_by_key\<close>, whose order of members with one key is not determined, is one too.
  Keys and ETags are byte strings.
\<close>

section \<open>Constants and types\<close>

definition DESCRIPTOR_VERSION :: "32 word" where "DESCRIPTOR_VERSION = 2"

definition MAX_UNIT_MEMBERS :: nat where "MAX_UNIT_MEMBERS = 4096"

definition PACK_MEMBERS :: nat where "PACK_MEMBERS = 16"

definition PACK_KEY_MAX_BYTES :: nat where "PACK_KEY_MAX_BYTES = 1024"

definition PACK_ETAG_MAX_BYTES :: nat where "PACK_ETAG_MAX_BYTES = 256"

definition PACKED_BODY_MAX_BYTES :: nat where "PACKED_BODY_MAX_BYTES = 48 * 1024"

definition PACKING_VERSION :: "32 word" where "PACKING_VERSION = 2"

definition MAX_SUBDIVIDABLE_BYTES :: nat where "MAX_SUBDIVIDABLE_BYTES = 50000 * 2 ^ 30"

record split_error =
  se_reason :: string

record descriptor_object =
  do_key :: string
  do_size :: nat
  do_etag :: "string option"
  do_last_modified_ms :: int

record split_descriptor =
  sd_v :: "32 word"
  sd_objects :: "descriptor_object list"
  sd_range :: "split_range option"

text \<open>What the code calls of the JSON library: \<open>to_vec\<close>, and \<open>from_slice\<close> at both target types.\<close>

record descriptor_json =
  dj_write :: "split_descriptor \<Rightarrow> bytes"
  dj_probe :: "bytes \<Rightarrow> string + 32 word"
  dj_read :: "bytes \<Rightarrow> string + split_descriptor"

section \<open>Descriptors\<close>

definition descriptor_new :: "descriptor_object list \<Rightarrow> split_descriptor" where
  "descriptor_new objects = \<lparr>sd_v = DESCRIPTOR_VERSION, sd_objects = objects, sd_range = None\<rparr>"

definition with_range :: "descriptor_object \<Rightarrow> split_range \<Rightarrow> split_descriptor" where
  "with_range object r = \<lparr>sd_v = DESCRIPTOR_VERSION, sd_objects = [object], sd_range = Some r\<rparr>"

definition to_entry :: "descriptor_object \<Rightarrow> object_entry" where
  "to_entry o' = \<lparr>oe_key = do_key o', oe_size = do_size o', oe_etag = do_etag o',
                  oe_last_modified_ms = do_last_modified_ms o'\<rparr>"

definition to_entries :: "split_descriptor \<Rightarrow> object_entry list" where
  "to_entries d = map to_entry (sd_objects d)"

text \<open>The member a listed object becomes, as the planner writes it out.\<close>

definition from_entry :: "object_entry \<Rightarrow> descriptor_object" where
  "from_entry e = \<lparr>do_key = oe_key e, do_size = oe_size e, do_etag = oe_etag e,
                   do_last_modified_ms = oe_last_modified_ms e\<rparr>"

definition validate_range :: "split_descriptor \<Rightarrow> split_error option" where
  "validate_range d =
     (case sd_range d of
        None \<Rightarrow> None
      | Some r \<Rightarrow>
          (case sd_objects d of
             [object] \<Rightarrow>
               if do_etag object = None then
                 Some \<lparr>se_reason = ''ranged unit descriptor over '' @ quote (do_key object)
                        @ '' has no ETag to pin its reads to''\<rparr>
               else if sr_start r \<ge> sr_end r \<or> sr_end r > do_size object then
                 Some \<lparr>se_reason = ''ranged unit descriptor over '' @ quote (do_key object) @ '' has range [''
                        @ decimal (sr_start r) @ '', '' @ decimal (sr_end r)
                        @ ''), which is empty or extends past the object's '' @ decimal (do_size object) @ '' bytes''\<rparr>
               else None
           | objects \<Rightarrow>
               Some \<lparr>se_reason = ''a ranged unit descriptor has exactly one member, this one has ''
                      @ decimal (length objects)\<rparr>))"

definition descriptor_encode :: "descriptor_json \<Rightarrow> split_descriptor \<Rightarrow> split_error + bytes" where
  "descriptor_encode J d =
     (if sd_v d \<noteq> DESCRIPTOR_VERSION then
        Inl \<lparr>se_reason = ''descriptor version '' @ decimal (unat (sd_v d)) @ '' is not the supported ''
               @ decimal (unat DESCRIPTOR_VERSION) @ ''; construct via SplitDescriptor::new''\<rparr>
      else case validate_range d of
             Some e \<Rightarrow> Inl e
           | None \<Rightarrow> Inr (dj_write J d))"

definition descriptor_decode :: "descriptor_json \<Rightarrow> bytes \<Rightarrow> split_error + split_descriptor" where
  "descriptor_decode J bs =
     (case dj_probe J bs of
        Inl e \<Rightarrow> Inl \<lparr>se_reason = ''unit descriptor is not valid JSON: '' @ e\<rparr>
      | Inr v \<Rightarrow>
          if v \<noteq> DESCRIPTOR_VERSION then
            Inl \<lparr>se_reason = ''unit descriptor version '' @ decimal (unat v) @ '' is not this release's version ''
                   @ decimal (unat DESCRIPTOR_VERSION) @ ''; the unit was written by an incompatible release''\<rparr>
          else case dj_read J bs of
                 Inl e \<Rightarrow> Inl \<lparr>se_reason = ''unit descriptor failed to decode: '' @ e\<rparr>
               | Inr d \<Rightarrow> (case validate_range d of Some e \<Rightarrow> Inl e | None \<Rightarrow> Inr d))"

section \<open>Identity\<close>

definition as_bytes :: "string \<Rightarrow> bytes" where
  "as_bytes s = map of_char s"

text \<open>\<open>to_le_bytes\<close>, and \<open>u32::try_from(len).unwrap_or(u32::MAX)\<close> before it for a length.\<close>

fun le_bytes :: "nat \<Rightarrow> nat \<Rightarrow> bytes" where
  "le_bytes 0 v = []"
| "le_bytes (Suc n) v = of_nat v # le_bytes n (v div 256)"

definition len_u32 :: "nat \<Rightarrow> nat" where
  "len_u32 n = (if n < 2 ^ 32 then n else 2 ^ 32 - 1)"

text \<open>What \<open>digest_member\<close> feeds to the hasher.\<close>

definition digest_member :: "string \<Rightarrow> string option \<Rightarrow> bytes" where
  "digest_member key etag =
     le_bytes 4 (len_u32 (length key)) @ as_bytes key
     @ (case etag of
          Some etag \<Rightarrow> 1 # le_bytes 4 (len_u32 (length etag)) @ as_bytes etag
        | None \<Rightarrow> [0])"

text \<open>The digest of a preimage and the base64url form of its first bytes.\<close>

record id_codec =
  ic_digest :: "bytes \<Rightarrow> bytes"
  ic_base64 :: "bytes \<Rightarrow> string"

definition id_from_digest :: "id_codec \<Rightarrow> bytes \<Rightarrow> string" where
  "id_from_digest I preimage = ''s3-'' @ ic_base64 I (take 16 (ic_digest I preimage))"

type_synonym unit_members = "(string \<times> string option) list"

definition split_preimage :: "32 word \<Rightarrow> unit_members \<Rightarrow> bytes" where
  "split_preimage version sorted_members =
     as_bytes (''spate-s3-split'' @ [CHR 0x0A]) @ le_bytes 4 (unat version)
     @ concat (map (\<lambda>(key, etag). digest_member key etag) sorted_members)"

definition split_id_with_version ::
  "id_codec \<Rightarrow> (unit_members \<Rightarrow> unit_members) \<Rightarrow> unit_members \<Rightarrow> 32 word \<Rightarrow> split_error + string" where
  "split_id_with_version I srt members version =
     (if members = [] then Inl \<lparr>se_reason = ''cannot mint a unit id for an empty member set''\<rparr>
      else Inr (id_from_digest I (split_preimage version (srt members))))"

definition split_id_for ::
  "id_codec \<Rightarrow> (unit_members \<Rightarrow> unit_members) \<Rightarrow> unit_members \<Rightarrow> split_error + string" where
  "split_id_for I srt members = split_id_with_version I srt members PACKING_VERSION"

definition range_preimage :: "string \<Rightarrow> string \<Rightarrow> split_range \<Rightarrow> bytes" where
  "range_preimage key etag r =
     as_bytes (''spate-s3-range'' @ [CHR 0x0A]) @ le_bytes 4 (unat PACKING_VERSION) @ digest_member key (Some etag)
     @ le_bytes 8 (sr_start r) @ le_bytes 8 (sr_end r) @ [sr_delimiter r]"

definition split_id_for_range :: "id_codec \<Rightarrow> string \<Rightarrow> string \<Rightarrow> split_range \<Rightarrow> split_error + string" where
  "split_id_for_range I key etag r =
     (if sr_start r \<ge> sr_end r then
        Inl \<lparr>se_reason = ''cannot mint a unit id for the empty range ['' @ decimal (sr_start r) @ '', ''
               @ decimal (sr_end r) @ '')''\<rparr>
      else Inr (id_from_digest I (range_preimage key etag r)))"

section \<open>Cutting\<close>

record packing =
  pk_target_bytes :: nat
  pk_compression :: compression
  pk_delimiter :: "8 word option"

definition delimiter_for :: "packing \<Rightarrow> object_entry \<Rightarrow> 8 word option" where
  "delimiter_for p entry =
     (case pk_delimiter p of
        None \<Rightarrow> None
      | Some delimiter \<Rightarrow>
          if oe_size entry > pk_target_bytes p \<and> oe_size entry \<le> MAX_SUBDIVIDABLE_BYTES \<and> oe_etag entry \<noteq> None
             \<and> codec_resolve (pk_compression p) (oe_key entry) = Plain
          then Some delimiter else None)"

text \<open>The compile-time assertions: a packed unit may be read, and its body fits both feeds.\<close>

lemma packed_unit_fits:
  "PACK_MEMBERS \<le> MAX_UNIT_MEMBERS \<and> PACKED_BODY_MAX_BYTES + 1024 + 25 \<le> 1000000 - 36
   \<and> PACKED_BODY_MAX_BYTES + 1024 + 25 \<le> 1048576 - length ''spate.unit'' - length ''String''"
  by (simp add: PACK_MEMBERS_def MAX_UNIT_MEMBERS_def PACKED_BODY_MAX_BYTES_def)

section \<open>A descriptor is well formed\<close>

definition descriptor_ok :: "split_descriptor \<Rightarrow> bool" where
  "descriptor_ok d \<longleftrightarrow>
     sd_v d = DESCRIPTOR_VERSION
     \<and> (\<forall>r. sd_range d = Some r \<longrightarrow>
          (\<exists>o'. sd_objects d = [o'] \<and> do_etag o' \<noteq> None \<and> sr_start r < sr_end r \<and> sr_end r \<le> do_size o'))"

lemma descriptor_ok_alt: "descriptor_ok d \<longleftrightarrow> sd_v d = DESCRIPTOR_VERSION \<and> validate_range d = None"
  by (auto simp: descriptor_ok_def validate_range_def not_le not_less split: option.splits list.splits)

text \<open>
  The JSON library: what it wrote for \<open>d\<close> it reads back, as a descriptor and as a version; and
  where both reads of some bytes succeed, they see one version field.
\<close>

definition json_reads_back :: "descriptor_json \<Rightarrow> split_descriptor \<Rightarrow> bool" where
  "json_reads_back J d \<longleftrightarrow> dj_read J (dj_write J d) = Inr d \<and> dj_probe J (dj_write J d) = Inr (sd_v d)"

definition json_agree :: "descriptor_json \<Rightarrow> bool" where
  "json_agree J \<longleftrightarrow> (\<forall>bs v d. dj_probe J bs = Inr v \<longrightarrow> dj_read J bs = Inr d \<longrightarrow> sd_v d = v)"

lemma descriptor_encode_Inr: "descriptor_encode J d = Inr bs \<longleftrightarrow> descriptor_ok d \<and> bs = dj_write J d"
  by (auto simp: descriptor_encode_def descriptor_ok_alt split: option.splits)

lemma descriptor_decode_ok: "json_agree J \<Longrightarrow> descriptor_decode J bs = Inr d \<Longrightarrow> descriptor_ok d"
  by (auto simp: descriptor_decode_def descriptor_ok_alt json_agree_def split: option.splits sum.splits if_splits)

lemma descriptor_decode_written:
  "json_reads_back J d \<Longrightarrow> descriptor_ok d \<Longrightarrow> descriptor_decode J (dj_write J d) = Inr d"
  by (simp add: descriptor_decode_def descriptor_ok_alt json_reads_back_def)

lemma tile_in_object:
  assumes "sz < 2 ^ 64" "0 < target" "tile sz target dl = Some rs" "r \<in> set rs"
  shows "sr_start r < sr_end r \<and> sr_end r \<le> sz"
  using tile_owned [of "replicate sz 0" target dl] assms by (auto simp: range_ok_def)

text \<open>
  C34. From the planner to a worker. An object the planner may cut is tiled into ranges that follow
  each other from its first byte to its last, none empty or longer than the target; every one of
  them encodes as a unit, and a worker that decodes those bytes reads the same range of the same
  object, pinned to the ETag that was listed. Nothing else gets through: \<open>encode\<close> accepts
  exactly the descriptors of this release's version whose range, if any, is a non-empty range
  inside their one member, which has an ETag, and \<open>decode\<close> returns only such descriptors. The
  JSON library reads back what it wrote, and its two reads agree on the version where both succeed.
\<close>
theorem cut_ranges_reach_workers:
  assumes "json_agree J" and "delimiter_for p e = Some dl" and "0 < pk_target_bytes p"
    and "\<forall>r. sr_start r < sr_end r \<and> sr_end r \<le> oe_size e \<longrightarrow> json_reads_back J (with_range (from_entry e) r)"
  shows "(\<exists>rs. tile (oe_size e) (pk_target_bytes p) dl = Some rs \<and> rs \<noteq> [] \<and> sr_end (last rs) = oe_size e
      \<and> (\<forall>i<length rs. sr_start (rs ! i) = (if i = 0 then 0 else sr_end (rs ! (i - 1)))
           \<and> sr_start (rs ! i) < sr_end (rs ! i) \<and> sr_end (rs ! i) - sr_start (rs ! i) \<le> pk_target_bytes p
           \<and> sr_delimiter (rs ! i) = dl)
      \<and> (\<forall>r\<in>set rs. \<exists>bs d. descriptor_encode J (with_range (from_entry e) r) = Inr bs
           \<and> descriptor_decode J bs = Inr d \<and> to_entries d = [e] \<and> sd_range d = Some r))
    \<and> ((\<exists>bs. descriptor_encode J d' = Inr bs) \<longleftrightarrow> descriptor_ok d')
    \<and> (descriptor_decode J bs' = Inr d' \<longrightarrow> descriptor_ok d')"
proof (intro conjI)
  show "(\<exists>bs. descriptor_encode J d' = Inr bs) \<longleftrightarrow> descriptor_ok d'" by (simp add: descriptor_encode_Inr)
  show "descriptor_decode J bs' = Inr d' \<longrightarrow> descriptor_ok d'" using descriptor_decode_ok [OF assms(1)] by blast
  have e: "oe_size e < 2 ^ 64" "oe_etag e \<noteq> None" "0 < oe_size e"
    using assms(2) by (auto simp: delimiter_for_def MAX_SUBDIVIDABLE_BYTES_def split: option.splits if_splits)
  from tile_partitions [OF e(1) assms(3), of dl] obtain rs where
    rs: "tile (oe_size e) (pk_target_bytes p) dl = Some rs" "length rs = div_ceil (oe_size e) (pk_target_bytes p)"
      "\<forall>i<length rs. sr_start (rs ! i) = (if i = 0 then 0 else sr_end (rs ! (i - 1)))
           \<and> sr_start (rs ! i) < sr_end (rs ! i) \<and> sr_end (rs ! i) - sr_start (rs ! i) \<le> pk_target_bytes p
           \<and> sr_delimiter (rs ! i) = dl"
      "rs \<noteq> [] \<longrightarrow> sr_end (last rs) = oe_size e"
    by blast
  have "rs \<noteq> []" using tile_owned [of "replicate (oe_size e) 0", OF _ assms(3), of dl] e(1,3) rs(1) by auto
  moreover have "\<exists>bs d. descriptor_encode J (with_range (from_entry e) r) = Inr bs
      \<and> descriptor_decode J bs = Inr d \<and> to_entries d = [e] \<and> sd_range d = Some r" if "r \<in> set rs" for r
  proof -
    let ?d = "with_range (from_entry e) r"
    have r: "sr_start r < sr_end r \<and> sr_end r \<le> oe_size e" by (rule tile_in_object [OF e(1) assms(3) rs(1) that])
    then have ok: "descriptor_ok ?d" using e(2) by (simp add: descriptor_ok_def with_range_def from_entry_def)
    from assms(4) r have "json_reads_back J ?d" by blast
    from descriptor_decode_written [OF this ok] ok show ?thesis
      by (intro exI [of _ "dj_write J ?d"] exI [of _ ?d])
        (simp add: descriptor_encode_Inr, simp add: with_range_def from_entry_def to_entries_def to_entry_def)
  qed
  ultimately show "\<exists>rs. tile (oe_size e) (pk_target_bytes p) dl = Some rs \<and> rs \<noteq> [] \<and> sr_end (last rs) = oe_size e
      \<and> (\<forall>i<length rs. sr_start (rs ! i) = (if i = 0 then 0 else sr_end (rs ! (i - 1)))
           \<and> sr_start (rs ! i) < sr_end (rs ! i) \<and> sr_end (rs ! i) - sr_start (rs ! i) \<le> pk_target_bytes p
           \<and> sr_delimiter (rs ! i) = dl)
      \<and> (\<forall>r\<in>set rs. \<exists>bs d. descriptor_encode J (with_range (from_entry e) r) = Inr bs
           \<and> descriptor_decode J bs = Inr d \<and> to_entries d = [e] \<and> sd_range d = Some r)"
    using rs by blast
qed

text \<open>An object of ten bytes, and a reader and writer of the ranges of that object.\<close>

definition split_demo_entry :: object_entry where
  "split_demo_entry = \<lparr>oe_key = ''a'', oe_size = 10, oe_etag = Some ''e'', oe_last_modified_ms = 7\<rparr>"

definition split_demo_json :: descriptor_json where
  "split_demo_json =
     \<lparr>dj_write = (\<lambda>d. case sd_range d of
                        None \<Rightarrow> []
                      | Some r \<Rightarrow> [of_nat (sr_start r), of_nat (sr_end r), sr_delimiter r]),
      dj_probe = (\<lambda>bs. if length bs = 3 then Inr DESCRIPTOR_VERSION else Inl ''EOF''),
      dj_read = (\<lambda>bs. case bs of
                        [a, b, c] \<Rightarrow> Inr (with_range (from_entry split_demo_entry) (split_range_new (unat a) (unat b) c))
                      | _ \<Rightarrow> Inl ''EOF'')\<rparr>"

theorem cut_ranges_reach_workers_witness:
  "\<exists>rs. tile 10 4 10 = Some rs \<and> rs \<noteq> []
     \<and> (\<forall>r\<in>set rs. \<exists>bs d. descriptor_encode split_demo_json (with_range (from_entry split_demo_entry) r) = Inr bs
          \<and> descriptor_decode split_demo_json bs = Inr d \<and> to_entries d = [split_demo_entry] \<and> sd_range d = Some r)"
proof -
  let ?p = "\<lparr>pk_target_bytes = 4, pk_compression = CompressionAuto, pk_delimiter = Some 10\<rparr>"
  have agree: "json_agree split_demo_json"
    by (auto simp: json_agree_def split_demo_json_def with_range_def split: list.splits if_splits)
  have cut: "delimiter_for ?p split_demo_entry = Some 10"
    by (simp add: delimiter_for_def split_demo_entry_def MAX_SUBDIVIDABLE_BYTES_def ends_with_def)
  have reads: "json_reads_back split_demo_json (with_range (from_entry split_demo_entry) r)"
    if "sr_start r < sr_end r \<and> sr_end r \<le> oe_size split_demo_entry" for r
    using that by (cases r) (simp add: json_reads_back_def split_demo_json_def with_range_def split_range_new_def
        split_demo_entry_def unat_of_nat)
  have "0 < pk_target_bytes ?p" by simp
  from cut_ranges_reach_workers [OF agree cut this] reads show ?thesis by (fastforce simp: split_demo_entry_def)
qed

section \<open>An id identifies its members\<close>

lemma length_le_bytes [simp]: "length (le_bytes n v) = n"
  by (induction n arbitrary: v) simp_all

lemma byte_of_nat_eq: "(of_nat v :: 8 word) = of_nat w \<longleftrightarrow> v mod 256 = w mod 256"
  by (simp add: word_unat_eq_iff unat_of_nat)

lemma le_bytes_inject:
  assumes "v < 256 ^ n" "w < 256 ^ n" "le_bytes n v = le_bytes n w"
  shows "v = w"
  using assms
proof (induction n arbitrary: v w)
  case (Suc n)
  then have "v mod 256 = w mod 256" "v div 256 = w div 256"
    by (simp_all add: byte_of_nat_eq div_less_iff_less_mult mult.commute)
  then show ?case by (metis div_mult_mod_eq)
qed simp

lemma byte_of_char_inject: "(of_char c :: 8 word) = of_char c' \<longleftrightarrow> c = c'"
proof -
  have "(of_char c :: 8 word) = of_char c' \<longleftrightarrow> (of_char c :: nat) mod 256 = of_char c' mod 256"
    unfolding of_nat_of_char [symmetric, where ?'a = "8 word"] byte_of_nat_eq ..
  then show ?thesis by simp
qed

lemma length_as_bytes [simp]: "length (as_bytes s) = length s"
  by (simp add: as_bytes_def)

lemma as_bytes_inject [simp]: "as_bytes s = as_bytes t \<longleftrightarrow> s = t"
  by (auto simp: as_bytes_def byte_of_char_inject inj_def intro: map_injective)

text \<open>A length-prefixed string is read back off the front of a preimage.\<close>

lemma prefixed_inject:
  assumes "length s < 2 ^ 32" "length t < 2 ^ 32"
    and "le_bytes 4 (len_u32 (length s)) @ as_bytes s @ xs = le_bytes 4 (len_u32 (length t)) @ as_bytes t @ ys"
  shows "s = t \<and> xs = ys"
proof -
  from assms(3) have "le_bytes 4 (len_u32 (length s)) = le_bytes 4 (len_u32 (length t))" and rest: "as_bytes s @ xs = as_bytes t @ ys"
    by simp_all
  with assms(1,2) have "length s = length t"
    by (intro le_bytes_inject [of _ 4]) (simp_all add: len_u32_def)
  with rest show ?thesis by simp
qed

definition short_member :: "string \<times> string option \<Rightarrow> bool" where
  "short_member m \<longleftrightarrow> length (fst m) < 2 ^ 32 \<and> (\<forall>etag. snd m = Some etag \<longrightarrow> length etag < 2 ^ 32)"

lemma digest_member_inject:
  assumes "short_member (k, e)" "short_member (k', e')" "digest_member k e @ xs = digest_member k' e' @ ys"
  shows "k = k' \<and> e = e' \<and> xs = ys"
proof -
  let ?t = "\<lambda>e. case e of Some e \<Rightarrow> 1 # le_bytes 4 (len_u32 (length e)) @ as_bytes e | None \<Rightarrow> [0 :: 8 word]"
  have k: "k = k'" "?t e @ xs = ?t e' @ ys"
    using prefixed_inject [of k k' "?t e @ xs" "?t e' @ ys"] assms by (simp_all add: digest_member_def short_member_def)
  show ?thesis
  proof (cases e; cases e')
    fix a b
    assume "e = Some a" "e' = Some b"
    with k prefixed_inject [of a b xs ys] assms(1,2) show ?thesis by (simp add: short_member_def)
  qed (use k in simp_all)
qed

lemma digest_members_inject:
  assumes "list_all short_member ms" "list_all short_member ms'"
    and "concat (map (\<lambda>(k, e). digest_member k e) ms) = concat (map (\<lambda>(k, e). digest_member k e) ms')"
  shows "ms = ms'"
  using assms
proof (induction ms arbitrary: ms')
  case Nil
  have "digest_member k e \<noteq> []" for k e by (simp add: digest_member_def split: option.splits)
  with Nil show ?case by (cases ms') auto
next
  case (Cons m ms)
  obtain k e where m: "m = (k, e)" by fastforce
  have ne: "digest_member k e \<noteq> []" by (simp add: digest_member_def split: option.splits)
  with Cons.prems(3) m obtain k' e' ns where ms': "ms' = (k', e') # ns" by (cases ms') auto
  with Cons.prems m digest_member_inject [of k e k' e'] Cons.IH [of ns] show ?case by auto
qed

text \<open>\<open>sort_unstable_by_key\<close>: an ordering of the members by key; where keys differ there is only one.\<close>

definition sorts_by_key :: "(unit_members \<Rightarrow> unit_members) \<Rightarrow> bool" where
  "sorts_by_key srt \<longleftrightarrow> (\<forall>ms. mset (srt ms) = mset ms \<and> sorted (map (\<lambda>m. as_bytes (fst m)) (srt ms)))"

lemma sorts_by_key_unique:
  assumes "sorts_by_key srt" "mset ms = mset ms'" "distinct (map fst ms)"
  shows "srt ms = srt ms'"
proof -
  have m: "mset (srt ms) = mset ms" "mset (srt ms') = mset ms"
    "sorted (map (\<lambda>m. as_bytes (fst m)) (srt ms))" "sorted (map (\<lambda>m. as_bytes (fst m)) (srt ms'))"
    using assms(1,2) by (simp_all add: sorts_by_key_def)
  have "distinct (map (\<lambda>m. as_bytes (fst m)) ms)"
    using assms(3) by (auto simp: distinct_map inj_on_def)
  moreover have "inj_on (\<lambda>m. as_bytes (fst m)) (set ms)"
    using assms(3) by (auto simp: distinct_map inj_on_def)
  moreover have d: "distinct (map (\<lambda>m. as_bytes (fst m)) ns)" if "mset ns = mset ms" for ns
    using calculation(1) that by (metis mset_eq_imp_distinct_iff mset_map)
  moreover have "set (srt ms) = set ms" "set (srt ms') = set ms" using m(1,2) by (metis mset_eq_setD)+
  ultimately show ?thesis
    using map_sorted_distinct_set_unique [of "\<lambda>m. as_bytes (fst m)" "srt ms" "srt ms'"] m by simp
qed

lemma split_preimage_inject:
  assumes "list_all short_member ms" "list_all short_member ms'" "split_preimage v ms = split_preimage v ms'"
  shows "ms = ms'"
  using digest_members_inject [OF assms(1,2)] assms(3) by (simp add: split_preimage_def)

lemma range_preimage_inject:
  assumes "short_member (k, Some e)" "short_member (k', Some e')" "sr_end r < 2 ^ 64" "sr_end r' < 2 ^ 64"
    and "sr_start r < sr_end r" "sr_start r' < sr_end r'" "range_preimage k e r = range_preimage k' e' r'"
  shows "k = k' \<and> e = e' \<and> r = r'"
proof -
  let ?t = "\<lambda>r. le_bytes 8 (sr_start r) @ le_bytes 8 (sr_end r) @ [sr_delimiter r]"
  from assms(7) have "digest_member k (Some e) @ ?t r = digest_member k' (Some e') @ ?t r'"
    by (simp add: range_preimage_def)
  from digest_member_inject [OF assms(1,2) this] have k: "k = k'" "e = e'" and t: "?t r = ?t r'" by blast+
  from t have "le_bytes 8 (sr_start r) = le_bytes 8 (sr_start r')" "le_bytes 8 (sr_end r) = le_bytes 8 (sr_end r')"
    "sr_delimiter r = sr_delimiter r'"
    by (simp_all only: append_eq_append_conv length_le_bytes simp_thms list.inject)
  with assms(3-6) le_bytes_inject [of "sr_start r" 8 "sr_start r'"] le_bytes_inject [of "sr_end r" 8 "sr_end r'"] k
  show ?thesis by simp
qed

lemma preimages_apart: "split_preimage v ms \<noteq> range_preimage k e r"
proof
  assume "split_preimage v ms = range_preimage k e r"
  then have "take 15 (split_preimage v ms) = take 15 (range_preimage k e r)" by simp
  then show False by (simp add: split_preimage_def range_preimage_def as_bytes_def byte_of_char_inject)
qed

text \<open>
  C35. An id stands for its members. Where the truncated digest does not collide on the preimages at
  hand, two member sets with no key twice get one id exactly when they are the same set of
  (key, ETag) pairs, whatever their order; two ranges get one id exactly when key, ETag, bounds
  and delimiter agree; and no range has the id of a member set. Keys and ETags are shorter than
  \<open>2\<^sup>3\<^sup>2\<close> bytes.
\<close>
theorem split_ids_identify:
  assumes "sorts_by_key srt"
    and "inj_on (id_from_digest I) {split_preimage PACKING_VERSION (srt ms), split_preimage PACKING_VERSION (srt ms'),
           range_preimage k e r, range_preimage k' e' r'}"
    and "ms \<noteq> []" "ms' \<noteq> []" "distinct (map fst ms)" "list_all short_member ms" "list_all short_member ms'"
    and "short_member (k, Some e)" "short_member (k', Some e')"
    and "sr_start r < sr_end r" "sr_end r < 2 ^ 64" "sr_start r' < sr_end r'" "sr_end r' < 2 ^ 64"
  shows "(split_id_for I srt ms = split_id_for I srt ms' \<longleftrightarrow> mset ms = mset ms')
    \<and> (split_id_for_range I k e r = split_id_for_range I k' e' r' \<longleftrightarrow> (k, e, r) = (k', e', r'))
    \<and> split_id_for I srt ms \<noteq> split_id_for_range I k e r"
proof (intro conjI)
  have srt: "mset (srt ns) = mset ns" for ns using assms(1) by (simp add: sorts_by_key_def)
  have short: "list_all short_member (srt ns)" if "list_all short_member ns" for ns
    using that srt [of ns] by (metis list_all_iff mset_eq_setD)
  note inj = inj_on_eq_iff [OF assms(2)]
  have "split_id_for I srt ms = split_id_for I srt ms'
      \<longleftrightarrow> split_preimage PACKING_VERSION (srt ms) = split_preimage PACKING_VERSION (srt ms')"
    using assms(3,4) by (simp add: split_id_for_def split_id_with_version_def inj)
  also have "\<dots> \<longleftrightarrow> srt ms = srt ms'"
    using split_preimage_inject [OF short [OF assms(6)] short [OF assms(7)], of PACKING_VERSION] by auto
  also have "\<dots> \<longleftrightarrow> mset ms = mset ms'"
    using sorts_by_key_unique [OF assms(1) _ assms(5)] srt by metis
  finally show "split_id_for I srt ms = split_id_for I srt ms' \<longleftrightarrow> mset ms = mset ms'" .
  have "split_id_for_range I k e r = split_id_for_range I k' e' r' \<longleftrightarrow> range_preimage k e r = range_preimage k' e' r'"
    using assms(10,12) by (simp add: split_id_for_range_def inj)
  also have "\<dots> \<longleftrightarrow> (k, e, r) = (k', e', r')"
    using range_preimage_inject [OF assms(8,9,11,13,10,12)] by auto
  finally show "split_id_for_range I k e r = split_id_for_range I k' e' r' \<longleftrightarrow> (k, e, r) = (k', e', r')" .
  show "split_id_for I srt ms \<noteq> split_id_for_range I k e r"
    using assms(3,10) by (simp add: split_id_for_def split_id_with_version_def split_id_for_range_def inj preimages_apart)
qed

text \<open>
  Without distinct keys the order of the members may show: a sort by key that keeps the order of
  members with one key, which \<open>sort_unstable_by_key\<close> may do, digests these two orders of one
  member set differently.
\<close>

lemma duplicate_key_order_matters:
  fixes ms ms' :: unit_members
  defines "ms \<equiv> [(''a'', None), (''a'', Some ''e'')]" and "ms' \<equiv> [(''a'', Some ''e''), (''a'', None)]"
  shows "mset ms = mset ms'
    \<and> split_preimage v (sort_key (\<lambda>m. as_bytes (fst m)) ms) \<noteq> split_preimage v (sort_key (\<lambda>m. as_bytes (fst m)) ms')"
proof -
  have "list_all short_member ms" "list_all short_member ms'" "ms \<noteq> ms'"
    by (simp_all add: ms_def ms'_def short_member_def)
  with split_preimage_inject [of ms ms' v] show ?thesis by (auto simp: ms_def ms'_def)
qed

text \<open>A set of two objects, two ranges of the first, and a digest that tells the three preimages apart.\<close>

definition split_demo_members :: unit_members where
  "split_demo_members = [(''a'', Some ''e''), (''b'', None)]"

definition split_demo_codec :: id_codec where
  "split_demo_codec =
     \<lparr>ic_digest = (\<lambda>p. if p = split_preimage PACKING_VERSION split_demo_members then [0]
                       else if p = range_preimage ''a'' ''e'' (split_range_new 0 3 10) then [1] else [2]),
      ic_base64 = map (\<lambda>b. char_of (unat b))\<rparr>"

definition split_demo_sort :: "unit_members \<Rightarrow> unit_members" where
  "split_demo_sort = sort_key (\<lambda>m. as_bytes (fst m))"

lemma split_demo_sorts: "sorts_by_key split_demo_sort"
  by (simp add: sorts_by_key_def split_demo_sort_def)

lemma split_demo_sorted: "split_demo_sort split_demo_members = split_demo_members"
  "split_demo_sort (rev split_demo_members) = split_demo_members"
  by (simp_all add: split_demo_sort_def split_demo_members_def as_bytes_def)

theorem split_ids_identify_witness:
  "split_id_for split_demo_codec split_demo_sort split_demo_members
     = split_id_for split_demo_codec split_demo_sort (rev split_demo_members)
   \<and> split_id_for_range split_demo_codec ''a'' ''e'' (split_range_new 0 3 10)
     \<noteq> split_id_for_range split_demo_codec ''a'' ''e'' (split_range_new 3 6 10)
   \<and> split_id_for split_demo_codec split_demo_sort split_demo_members
     \<noteq> split_id_for_range split_demo_codec ''a'' ''e'' (split_range_new 0 3 10)"
proof -
  let ?r = "split_range_new 0 3 10" and ?r' = "split_range_new 3 6 10"
  have "range_preimage ''a'' ''e'' ?r \<noteq> range_preimage ''a'' ''e'' ?r'"
    using range_preimage_inject [of "''a''" "''e''" "''a''" "''e''" ?r ?r'] by (auto simp: short_member_def split_range_new_def)
  then have "inj_on (id_from_digest split_demo_codec) {split_preimage PACKING_VERSION (split_demo_sort split_demo_members),
      split_preimage PACKING_VERSION (split_demo_sort (rev split_demo_members)), range_preimage ''a'' ''e'' ?r,
      range_preimage ''a'' ''e'' ?r'}"
    by (simp add: split_demo_sorted id_from_digest_def split_demo_codec_def preimages_apart preimages_apart [symmetric])
  from split_ids_identify [OF split_demo_sorts this] show ?thesis
    by (simp add: short_member_def split_range_new_def split_demo_members_def) metis
qed

end
