(* ===== verification/Feed.thy ===== *)
theory Feed
  imports Errors
begin

text \<open>
  The work feed: the contract of \<open>crates/spate-core/src/feed/mod.rs\<close> and the in-process feed of
  \<open>feed/memory.rs\<close>.

  A feed carries units from publication to acknowledgment. What the contract says of the five
  operations that move units is the locale \<open>feed_contract\<close>; in it, whatever a reader and its
  publishers do, no unit is lost and no receipt is used twice. It is interpreted on
  \<open>MemoryFeed\<close>, whose clones share one state: an operation is a function of that state, run
  under its lock. Log lines and metrics are left out.
\<close>

section \<open>Units, receipts and errors\<close>

record feed_unit =
  fu_id :: string
  fu_body :: bytes

datatype receipt = Receipt (receipt_val: nat)

definition receipt_display :: "receipt \<Rightarrow> string" where
  "receipt_display r = ''receipt '' @ decimal (receipt_val r)"

record delivery =
  dl_unit :: feed_unit
  dl_receipt :: receipt
  dl_deliveries :: nat

datatype feed_error_kind = Gone | Refused | RetryableKind | FatalKind

record feed_error =
  fe_kind :: feed_error_kind
  fe_reason :: string

fun kind_debug :: "feed_error_kind \<Rightarrow> string" where
  "kind_debug Gone = ''Gone''"
| "kind_debug Refused = ''Refused''"
| "kind_debug RetryableKind = ''Retryable''"
| "kind_debug FatalKind = ''Fatal''"

definition feed_error_display :: "feed_error \<Rightarrow> string" where
  "feed_error_display e = ''feed error ('' @ kind_debug (fe_kind e) @ ''): '' @ fe_reason e"

definition feed_error_class :: "feed_error \<Rightarrow> error_class" where
  "feed_error_class e = (case fe_kind e of RetryableKind \<Rightarrow> Retryable | _ \<Rightarrow> Fatal)"

datatype depth_of = FeedDepth | DeadLetterDepth

record depth =
  dp_what :: string
  dp_visible :: nat
  dp_delayed :: nat
  dp_in_flight :: nat
  dp_unsent :: nat
  dp_approximate :: bool

definition depth_new :: "string \<Rightarrow> bool \<Rightarrow> depth" where
  "depth_new what approximate =
     \<lparr>dp_what = what, dp_visible = 0, dp_delayed = 0, dp_in_flight = 0, dp_unsent = 0, dp_approximate = approximate\<rparr>"

definition depth_is_empty :: "depth \<Rightarrow> bool" where
  "depth_is_empty d \<longleftrightarrow> dp_visible d = 0 \<and> dp_delayed d = 0 \<and> dp_in_flight d = 0 \<and> dp_unsent d = 0"

definition depth_display :: "depth \<Rightarrow> string" where
  "depth_display d =
     dp_what d @ '': '' @ decimal (dp_visible d) @ '' visible, '' @ decimal (dp_delayed d) @ '' delayed, ''
     @ decimal (dp_in_flight d) @ '' in flight, '' @ decimal (dp_unsent d) @ '' unsent''
     @ (if dp_approximate d then '' (approximate)'' else [])"

section \<open>Settling and waking\<close>

text \<open>
  A oneshot channel as its receiver finds it. A \<open>DepthReading\<close> and a \<open>Confirmation\<close> keep the
  outcome they settled with.
\<close>

datatype 'a oneshot = ChannelEmpty | ChannelSent 'a | ChannelClosed

record depth_reading =
  dr_rx :: "(feed_error + depth) oneshot"
  dr_outcome :: "(feed_error + depth) option"

definition reading_try_outcome :: "depth_reading \<Rightarrow> (feed_error + depth) option \<times> depth_reading" where
  "reading_try_outcome s =
     (let s' = (if dr_outcome s = None
                then s\<lparr>dr_outcome := (case dr_rx s of
                         ChannelSent x \<Rightarrow> Some x
                       | ChannelEmpty \<Rightarrow> None
                       | ChannelClosed \<Rightarrow> Some (Inl \<lparr>fe_kind = RetryableKind,
                           fe_reason = ''the feed dropped a depth read before settling it''\<rparr>))\<rparr>
                else s)
      in (dr_outcome s', s'))"

definition unsettled :: feed_error where
  "unsettled = \<lparr>fe_kind = RetryableKind,
     fe_reason = ''the feed dropped the confirmation before settling it; the publish or close may or may not have finished''\<rparr>"

text \<open>A confirmation's callback is what it does to the state \<open>'m\<close> its closure writes.\<close>

record 'm confirmation =
  cf_rx :: "(feed_error + unit) oneshot"
  cf_outcome :: "(feed_error + unit) option"
  cf_on_settle :: "(feed_error + unit \<Rightarrow> 'm \<Rightarrow> 'm) option"

definition on_settle :: "(feed_error + unit \<Rightarrow> 'm \<Rightarrow> 'm) \<Rightarrow> 'm confirmation \<Rightarrow> 'm confirmation" where
  "on_settle f c = c\<lparr>cf_on_settle := Some f\<rparr>"

definition confirmation_settle :: "feed_error + unit \<Rightarrow> 'm confirmation \<times> 'm \<Rightarrow> 'm confirmation \<times> 'm" where
  "confirmation_settle out' = (\<lambda>(c, m).
     (c\<lparr>cf_on_settle := None, cf_outcome := Some out'\<rparr>,
      case cf_on_settle c of None \<Rightarrow> m | Some f \<Rightarrow> f out' m))"

definition confirmation_try_outcome ::
  "'m confirmation \<times> 'm \<Rightarrow> (feed_error + unit) option \<times> 'm confirmation \<times> 'm" where
  "confirmation_try_outcome = (\<lambda>(c, m).
     if cf_outcome c = None then
       (case cf_rx c of
          ChannelEmpty \<Rightarrow> (None, c, m)
        | ChannelSent out' \<Rightarrow>
            let s = confirmation_settle out' (c, m) in (cf_outcome (fst s), s)
        | ChannelClosed \<Rightarrow>
            let s = confirmation_settle (Inl unsettled) (c, m) in (cf_outcome (fst s), s))
     else (cf_outcome c, c, m))"

text \<open>Once settled, a check repeats the outcome, and the callback has run once.\<close>

lemma confirmation_settles_once:
  assumes "confirmation_try_outcome (c, m) = (Some out', c1, m1)" and "cf_outcome c = None"
  shows "m1 = (case cf_on_settle c of None \<Rightarrow> m | Some f \<Rightarrow> f out' m)
    \<and> confirmation_try_outcome (c1, m2) = (Some out', c1, m2)"
  using assms by (auto simp: confirmation_try_outcome_def confirmation_settle_def Let_def split: oneshot.splits)

text \<open>The waker's channel holds one slot: whether a signal is pending.\<close>

definition feed_wake :: "bool \<Rightarrow> bool" where
  "feed_wake slot = True"

text \<open>A park that is not ended by a later signal: whether one was pending, and the emptied slot.\<close>

definition feed_park :: "bool \<Rightarrow> bool \<times> bool" where
  "feed_park slot = (slot, False)"

section \<open>The in-process feed\<close>

definition ATTEMPT_CAP :: nat where "ATTEMPT_CAP = 10"

definition BACKEND :: string where "BACKEND = ''memory''"

record memory_feed =
  mf_visible :: "(feed_unit \<times> nat) list"
  mf_held :: "(receipt \<times> feed_unit \<times> nat) list"
  mf_dead :: "feed_unit list"
  mf_acknowledged :: nat
  mf_next_receipt :: nat
  mf_waker :: "bool option"
  mf_attempt_cap :: nat

record feed_counts =
  fc_visible :: nat
  fc_held :: nat
  fc_dead_lettered :: nat
  fc_acknowledged :: nat

definition memory_wake :: "memory_feed \<Rightarrow> memory_feed" where
  "memory_wake f = f\<lparr>mf_waker := map_option feed_wake (mf_waker f)\<rparr>"

definition with_attempt_cap :: "nat \<Rightarrow> memory_feed" where
  "with_attempt_cap cap =
     \<lparr>mf_visible = [], mf_held = [], mf_dead = [], mf_acknowledged = 0, mf_next_receipt = 0, mf_waker = None,
      mf_attempt_cap = cap\<rparr>"

definition memory_default :: memory_feed where
  "memory_default = with_attempt_cap ATTEMPT_CAP"

text \<open>
  A \<open>feed:\<close> section: its backend's key and body, whose reading is serde's, and the keys the
  in-process feed looks at.
\<close>

record feed_section =
  fs_type_tag :: string
  fs_body :: "string option"
  fs_attempt_cap :: "nat option"
  fs_location :: "string option"
  fs_settling_window :: "duration option"

datatype config_error = ConfigComponent string string | ConfigBody string

definition memory_from_section :: "feed_section \<Rightarrow> config_error + memory_feed" where
  "memory_from_section s =
     (if fs_type_tag s \<noteq> BACKEND then
        Inl (ConfigComponent ''feed''
          (''the in-process feed is built from `feed: { '' @ BACKEND @ '': {} }`, but the section names `'' @ fs_type_tag s @ ''`''))
      else case fs_body s of
             Some e \<Rightarrow> Inl (ConfigBody e)
           | None \<Rightarrow>
               if fs_location s \<noteq> None then
                 Inl (ConfigComponent ''feed''
                   ''the in-process feed keeps no state outside the process, so it takes no `location`'')
               else if fs_settling_window s \<noteq> None then
                 Inl (ConfigComponent ''feed''
                   ''the in-process feed counts its units exactly, so it takes no `settling_window`'')
               else Inr (with_attempt_cap (case fs_attempt_cap s of None \<Rightarrow> ATTEMPT_CAP | Some cap \<Rightarrow> cap)))"

definition memory_counts :: "memory_feed \<Rightarrow> feed_counts" where
  "memory_counts f =
     \<lparr>fc_visible = length (mf_visible f), fc_held = length (mf_held f), fc_dead_lettered = length (mf_dead f),
      fc_acknowledged = mf_acknowledged f\<rparr>"

definition dead_letters :: "memory_feed \<Rightarrow> feed_unit list" where
  "dead_letters f = mf_dead f"

definition gone :: "receipt \<Rightarrow> feed_error" where
  "gone r = \<lparr>fe_kind = Gone, fe_reason = receipt_display r @ '' is not held by the in-process feed''\<rparr>"

text \<open>\<open>slot\<close> is the given waker's channel.\<close>

definition memory_set_waker :: "bool \<Rightarrow> memory_feed \<Rightarrow> memory_feed" where
  "memory_set_waker slot f = f\<lparr>mf_waker := Some (if mf_visible f \<noteq> [] then feed_wake slot else slot)\<rparr>"

primrec receive_loop :: "nat \<Rightarrow> memory_feed \<Rightarrow> delivery list \<Rightarrow> delivery list \<times> memory_feed" where
  "receive_loop 0 f out' = (out', f)"
| "receive_loop (Suc n) f out' =
     (case mf_visible f of
        [] \<Rightarrow> (out', f)
      | (u, deliveries) # rest \<Rightarrow>
          let receipt = Receipt (mf_next_receipt f + 1)
          in receive_loop n
               (f\<lparr>mf_visible := rest, mf_next_receipt := mf_next_receipt f + 1,
                  mf_held := AList.update receipt (u, deliveries + 1) (mf_held f)\<rparr>)
               (out' @ [\<lparr>dl_unit = u, dl_receipt = receipt, dl_deliveries = deliveries + 1\<rparr>]))"

definition memory_receive :: "nat \<Rightarrow> memory_feed \<Rightarrow> delivery list \<times> memory_feed" where
  "memory_receive max' f =
     (let taken = min max' (length (mf_visible f))
      in case receive_loop taken f [] of
           (out', f') \<Rightarrow> (out', if taken > 0 \<and> mf_visible f' \<noteq> [] then memory_wake f' else f'))"

definition memory_renew :: "receipt \<Rightarrow> memory_feed \<Rightarrow> feed_error option \<times> memory_feed" where
  "memory_renew r f = (if r \<in> set (akeys (mf_held f)) then None else Some (gone r), f)"

definition memory_acknowledge :: "receipt \<Rightarrow> memory_feed \<Rightarrow> feed_error option \<times> memory_feed" where
  "memory_acknowledge r f =
     (case map_of (mf_held f) r of
        None \<Rightarrow> (Some (gone r), f)
      | Some _ \<Rightarrow> (None, f\<lparr>mf_held := AList.delete r (mf_held f), mf_acknowledged := mf_acknowledged f + 1\<rparr>))"

definition memory_fail :: "receipt \<Rightarrow> string \<Rightarrow> memory_feed \<Rightarrow> feed_error option \<times> memory_feed" where
  "memory_fail r reason f =
     (case map_of (mf_held f) r of
        None \<Rightarrow> (Some (gone r), f)
      | Some (u, deliveries) \<Rightarrow>
          let f1 = f\<lparr>mf_held := AList.delete r (mf_held f)\<rparr>
          in (None, if deliveries \<ge> mf_attempt_cap f1 then f1\<lparr>mf_dead := mf_dead f1 @ [u]\<rparr>
                    else memory_wake (f1\<lparr>mf_visible := mf_visible f1 @ [(u, deliveries)]\<rparr>)))"

text \<open>The confirmation is settled before it is returned.\<close>

definition memory_publish :: "feed_unit \<Rightarrow> memory_feed \<Rightarrow> 'm confirmation \<times> memory_feed" where
  "memory_publish u f =
     (\<lparr>cf_rx = ChannelSent (Inr ()), cf_outcome = None, cf_on_settle = None\<rparr>, memory_wake (f\<lparr>mf_visible := mf_visible f @ [(u, 0)]\<rparr>))"

definition memory_read_depth :: "depth_of \<Rightarrow> memory_feed \<Rightarrow> depth_reading" where
  "memory_read_depth of' f =
     (let d = (case of' of
                 DeadLetterDepth \<Rightarrow> (depth_new ''the in-process dead-letter list'' False)\<lparr>dp_visible := length (mf_dead f)\<rparr>
               | FeedDepth \<Rightarrow> (depth_new ''the in-process feed'' False)
                                \<lparr>dp_visible := length (mf_visible f), dp_in_flight := length (mf_held f)\<rparr>)
      in \<lparr>dr_rx = ChannelSent (Inr d), dr_outcome = None\<rparr>)"

section \<open>The contract\<close>

text \<open>A \<open>dyn Feed\<close>, as far as it moves units.\<close>

record 'f feed_ops =
  fo_receive :: "nat \<Rightarrow> 'f \<Rightarrow> delivery list \<times> 'f"
  fo_renew :: "receipt \<Rightarrow> 'f \<Rightarrow> feed_error option \<times> 'f"
  fo_acknowledge :: "receipt \<Rightarrow> 'f \<Rightarrow> feed_error option \<times> 'f"
  fo_fail :: "receipt \<Rightarrow> string \<Rightarrow> 'f \<Rightarrow> feed_error option \<times> 'f"
  fo_publish :: "feed_unit \<Rightarrow> 'f \<Rightarrow> 'f"

datatype feed_op = Receive nat | Renew receipt | Acknowledge receipt | FailUnit receipt string | Publish feed_unit

datatype feed_out = Delivered "delivery list" | Answered "feed_error option" | Confirmed

fun feed_step :: "'f feed_ops \<Rightarrow> feed_op \<Rightarrow> 'f \<Rightarrow> (feed_out \<times> 'f) option" where
  "feed_step ops (Receive n) f = Some (apfst Delivered (fo_receive ops n f))"
| "feed_step ops (Renew r) f = Some (apfst Answered (fo_renew ops r f))"
| "feed_step ops (Acknowledge r) f = Some (apfst Answered (fo_acknowledge ops r f))"
| "feed_step ops (FailUnit r why) f = Some (apfst Answered (fo_fail ops r why f))"
| "feed_step ops (Publish u) f = Some (Confirmed, fo_publish ops u f)"

text \<open>What a sequence of calls and answers published, delivered and acknowledged.\<close>

type_synonym feed_log = "(feed_op \<times> feed_out) list"

fun op_published :: "feed_op \<times> feed_out \<Rightarrow> feed_unit list" where
  "op_published (Publish u, x) = [u]"
| "op_published x = []"

fun op_delivered :: "feed_op \<times> feed_out \<Rightarrow> delivery list" where
  "op_delivered (op', Delivered ds) = ds"
| "op_delivered x = []"

fun op_acked :: "feed_op \<times> feed_out \<Rightarrow> receipt list" where
  "op_acked (Acknowledge r, Answered None) = [r]"
| "op_acked x = []"

fun op_failed :: "feed_op \<times> feed_out \<Rightarrow> receipt list" where
  "op_failed (FailUnit r why, Answered None) = [r]"
| "op_failed x = []"

definition log_published :: "feed_log \<Rightarrow> feed_unit list" where
  "log_published l = concat (map op_published l)"

definition log_delivered :: "feed_log \<Rightarrow> delivery list" where
  "log_delivered l = concat (map op_delivered l)"

definition log_acked :: "feed_log \<Rightarrow> receipt list" where
  "log_acked l = concat (map op_acked l)"

definition log_failed :: "feed_log \<Rightarrow> receipt list" where
  "log_failed l = concat (map op_failed l)"

text \<open>The delivery a receipt names, and its unit.\<close>

definition delivery_of :: "delivery list \<Rightarrow> receipt \<Rightarrow> delivery" where
  "delivery_of ds r = hd (filter (\<lambda>d. dl_receipt d = r) ds)"

definition unit_of :: "delivery list \<Rightarrow> receipt \<Rightarrow> feed_unit" where
  "unit_of ds r = dl_unit (delivery_of ds r)"

lemma log_snoc [simp]:
  "log_published (l @ [x]) = log_published l @ op_published x"
  "log_delivered (l @ [x]) = log_delivered l @ op_delivered x"
  "log_acked (l @ [x]) = log_acked l @ op_acked x"
  "log_failed (l @ [x]) = log_failed l @ op_failed x"
  by (simp_all add: log_published_def log_delivered_def log_acked_def log_failed_def)

lemma delivery_of_append: "r \<in> dl_receipt ` set ds \<Longrightarrow> delivery_of (ds @ es) r = delivery_of ds r"
  by (force simp: delivery_of_def filter_empty_conv hd_append)

lemma delivery_of_member: "distinct (map dl_receipt ds) \<Longrightarrow> d \<in> set ds \<Longrightarrow> delivery_of ds (dl_receipt d) = d"
  by (induction ds) (auto simp: delivery_of_def)

lemma unit_of_append: "r \<in> dl_receipt ` set ds \<Longrightarrow> unit_of (ds @ es) r = unit_of ds r"
  by (simp add: unit_of_def delivery_of_append)

lemma unit_of_member: "distinct (map dl_receipt ds) \<Longrightarrow> d \<in> set ds \<Longrightarrow> unit_of ds (dl_receipt d) = dl_unit d"
  by (simp add: unit_of_def delivery_of_member)

text \<open>
  \<open>waiting\<close> and \<open>dead\<close> are the units ready to be received and the ones dead-lettered, \<open>holds\<close> the
  units held by receipt, \<open>minted\<close> the receipts a delivery has named.
\<close>

locale feed_contract =
  fixes ops :: "'f feed_ops" and fresh :: 'f and ok :: "'f \<Rightarrow> bool" and waiting dead :: "'f \<Rightarrow> feed_unit multiset"
    and holds :: "'f \<Rightarrow> (receipt \<times> feed_unit) multiset" and minted :: "'f \<Rightarrow> receipt set"
  assumes fresh_law: "ok fresh \<and> waiting fresh = {#} \<and> dead fresh = {#} \<and> holds fresh = {#} \<and> minted fresh = {}"
    and held_once: "ok f \<Longrightarrow> holds f = add_mset (r, u) H \<Longrightarrow> r \<in> minted f \<and> r \<notin> fst ` set_mset H"
    and receive_law: "ok f \<Longrightarrow> fo_receive ops n f = (ds, f') \<Longrightarrow>
      ok f' \<and> length ds \<le> n \<and> waiting f = mset (map dl_unit ds) + waiting f' \<and> dead f' = dead f
      \<and> holds f' = mset (map (\<lambda>d. (dl_receipt d, dl_unit d)) ds) + holds f
      \<and> distinct (map dl_receipt ds) \<and> dl_receipt ` set ds \<inter> minted f = {}
      \<and> minted f' = dl_receipt ` set ds \<union> minted f"
    and renew_law: "ok f \<Longrightarrow> \<exists>e. fo_renew ops r f = (e, f)
      \<and> (if r \<in> fst ` set_mset (holds f) then e = None else \<exists>x. e = Some x \<and> fe_kind x = Gone)"
    and gone_law: "ok f \<Longrightarrow> r \<notin> fst ` set_mset (holds f) \<Longrightarrow>
      (\<exists>x. fo_acknowledge ops r f = (Some x, f) \<and> fe_kind x = Gone) \<and> (\<exists>x. fo_fail ops r why f = (Some x, f) \<and> fe_kind x = Gone)"
    and acknowledge_law: "ok f \<Longrightarrow> (r, u) \<in># holds f \<Longrightarrow> \<exists>f'. fo_acknowledge ops r f = (None, f')
      \<and> ok f' \<and> holds f = add_mset (r, u) (holds f') \<and> waiting f' = waiting f \<and> dead f' = dead f \<and> minted f' = minted f"
    and fail_law: "ok f \<Longrightarrow> (r, u) \<in># holds f \<Longrightarrow> \<exists>f'. fo_fail ops r why f = (None, f')
      \<and> ok f' \<and> holds f = add_mset (r, u) (holds f') \<and> minted f' = minted f
      \<and> (waiting f' = add_mset u (waiting f) \<and> dead f' = dead f \<or> waiting f' = waiting f \<and> dead f' = add_mset u (dead f))"
    and publish_law: "ok f \<Longrightarrow>
      ok (fo_publish ops u f) \<and> waiting (fo_publish ops u f) = add_mset u (waiting f) \<and> dead (fo_publish ops u f) = dead f
      \<and> holds (fo_publish ops u f) = holds f \<and> minted (fo_publish ops u f) = minted f"
begin

text \<open>After the calls of a log: every unit published is in exactly one place.\<close>

definition accounted :: "feed_log \<Rightarrow> 'f \<Rightarrow> bool" where
  "accounted l f \<longleftrightarrow>
     ok f \<and> distinct (map dl_receipt (log_delivered l)) \<and> minted f = dl_receipt ` set (log_delivered l)
     \<and> (\<forall>r u. (r, u) \<in># holds f \<longrightarrow> r \<in> minted f \<and> unit_of (log_delivered l) r = u \<and> r \<notin> set (log_acked l))
     \<and> distinct (log_acked l) \<and> set (log_acked l) \<subseteq> minted f
     \<and> mset (log_published l)
        = waiting f + image_mset snd (holds f) + dead f + mset (map (unit_of (log_delivered l)) (log_acked l))"

lemma accountedD:
  assumes "accounted l f"
  shows "ok f" "distinct (map dl_receipt (log_delivered l))" "minted f = dl_receipt ` set (log_delivered l)"
    "(r, u) \<in># holds f \<Longrightarrow> r \<in> minted f \<and> unit_of (log_delivered l) r = u \<and> r \<notin> set (log_acked l)"
    "distinct (log_acked l)" "set (log_acked l) \<subseteq> minted f"
    "mset (log_published l)
        = waiting f + image_mset snd (holds f) + dead f + mset (map (unit_of (log_delivered l)) (log_acked l))"
  using assms unfolding accounted_def by blast+

lemma accounted_same:
  assumes "accounted l f" "op_published (op', x) = []" "op_delivered (op', x) = []" "op_acked (op', x) = []"
  shows "accounted (l @ [(op', x)]) f"
  using assms(1) unfolding accounted_def log_snoc assms(2-4) append_Nil2 .

lemma accounted_receive:
  assumes acc: "accounted l f" and r: "fo_receive ops n f = (ds, f')"
  shows "accounted (l @ [(Receive n, Delivered ds)]) f'"
proof -
  note A = accountedD [OF acc] and law = receive_law [OF accountedD(1) [OF acc] r]
  let ?l = "log_delivered l"
  have dist: "distinct (map dl_receipt (?l @ ds))" using A(2,3) law by auto
  have old: "unit_of (?l @ ds) r = unit_of ?l r" if "r \<in> minted f" for r
    using that unfolding A(3) by (rule unit_of_append)
  have new: "unit_of (?l @ ds) (dl_receipt d) = dl_unit d" if "d \<in> set ds" for d
    using unit_of_member [OF dist] that by simp
  have acked: "map (unit_of (?l @ ds)) (log_acked l) = map (unit_of ?l) (log_acked l)"
    using A(6) old by (intro map_cong) auto
  have held: "r \<in> minted f' \<and> unit_of (?l @ ds) r = u \<and> r \<notin> set (log_acked l)" if "(r, u) \<in># holds f'" for r u
  proof -
    from that law consider d where "d \<in> set ds" "r = dl_receipt d" "u = dl_unit d" | "(r, u) \<in># holds f" by auto
    then show ?thesis
    proof cases
      case 1
      with A(6) law have "r \<notin> set (log_acked l)" "r \<in> minted f'" by blast+
      with 1 new show ?thesis by simp
    next
      case 2
      with A(4) [OF 2] old [of r] law show ?thesis by blast
    qed
  qed
  have cons: "mset (log_published l) = waiting f' + image_mset snd (holds f') + dead f'
      + mset (map (unit_of (?l @ ds)) (log_acked l))"
    unfolding acked A(7) using law by (simp add: image_mset.compositionality o_def)
  show ?thesis
    unfolding accounted_def log_snoc op_published.simps op_delivered.simps op_acked.simps append_Nil2
    using law dist held A(3,5,6) cons by (intro conjI allI impI) auto
qed

text \<open>A held unit leaves \<open>holds\<close>: acknowledged, or failed back to the feed.\<close>

lemma accounted_release:
  assumes acc: "accounted l f" and g: "ok g" "holds f = add_mset (r, u) (holds g)" "minted g = minted f"
    and x: "op_published (op', x) = []" "op_delivered (op', x) = []"
    and moved: "op_acked (op', x) = [r] \<and> waiting g + dead g = waiting f + dead f
      \<or> op_acked (op', x) = [] \<and> waiting g + dead g = add_mset u (waiting f + dead f)"
  shows "accounted (l @ [(op', x)]) g"
proof -
  note A = accountedD [OF acc]
  have r: "r \<notin> fst ` set_mset (holds g)" "r \<in> minted f" using held_once [OF A(1) g(2)] by simp_all
  have u: "unit_of (log_delivered l) r = u" "r \<notin> set (log_acked l)" using A(4) [of r u] g(2) by simp_all
  have held: "r' \<in> minted g \<and> unit_of (log_delivered l) r' = u' \<and> r' \<notin> set (log_acked l @ op_acked (op', x))"
    if "(r', u') \<in># holds g" for r' u'
    using A(4) [of r' u'] that g(2,3) r(1) moved by force
  have "waiting f + image_mset snd (holds f) + dead f = (waiting f + dead f) + add_mset u (image_mset snd (holds g))"
    unfolding g(2) by simp
  with A(7) have cons: "mset (log_published l) = waiting g + image_mset snd (holds g) + dead g
      + mset (map (unit_of (log_delivered l)) (log_acked l @ op_acked (op', x)))"
    using moved u(1) by (auto simp: add.assoc add.commute add.left_commute)
  show ?thesis
    unfolding accounted_def log_snoc x append_Nil2
    using A(2,3,5,6) g(1,3) held cons moved u(2) r(2) by (intro conjI allI impI) auto
qed

lemma accounted_step:
  assumes acc: "accounted l f" and step: "feed_step ops op' f = Some (x, f')"
  shows "accounted (l @ [(op', x)]) f'"
proof (cases op')
  case (Receive n)
  with step accounted_receive [OF acc] show ?thesis by (cases "fo_receive ops n f") auto
next
  case (Publish u)
  with step have x: "x = Confirmed" "f' = fo_publish ops u f" by simp_all
  note A = accountedD [OF acc] and law = publish_law [OF accountedD(1) [OF acc], of u]
  show ?thesis
    unfolding accounted_def Publish x log_snoc op_published.simps op_delivered.simps op_acked.simps append_Nil2
    using A(2-6) A(7) law by (intro conjI allI impI) auto
next
  case (Renew r)
  with step renew_law [OF accountedD(1) [OF acc], of r] have "f' = f" "\<exists>e. x = Answered e" by auto
  with accounted_same [OF acc] Renew show ?thesis by fastforce
next
  case (Acknowledge r)
  show ?thesis
  proof (cases "\<exists>u. (r, u) \<in># holds f")
    case True
    then obtain u g where "fo_acknowledge ops r f = (None, g)" "ok g" "holds f = add_mset (r, u) (holds g)"
      "waiting g = waiting f" "dead g = dead f" "minted g = minted f"
      using acknowledge_law [OF accountedD(1) [OF acc]] by blast
    with step Acknowledge accounted_release [OF acc] show ?thesis by fastforce
  next
    case False
    then have "r \<notin> fst ` set_mset (holds f)" by auto
    with gone_law [OF accountedD(1) [OF acc] this] step Acknowledge accounted_same [OF acc] show ?thesis by fastforce
  qed
next
  case (FailUnit r why)
  show ?thesis
  proof (cases "\<exists>u. (r, u) \<in># holds f")
    case True
    then obtain u g where "fo_fail ops r why f = (None, g)" "ok g" "holds f = add_mset (r, u) (holds g)" "minted g = minted f"
      "waiting g + dead g = add_mset u (waiting f + dead f)"
      using fail_law [OF accountedD(1) [OF acc], of r _ why] by fastforce
    with step FailUnit accounted_release [OF acc, of g r u op' x] show ?thesis by auto
  next
    case False
    then have "r \<notin> fst ` set_mset (holds f)" by auto
    with gone_law [OF accountedD(1) [OF acc] this, of why] step FailUnit accounted_same [OF acc] show ?thesis by fastforce
  qed
qed

lemma accounted_run:
  assumes "run_ops (feed_step ops) os fresh = Some (outs, f)"
  shows "accounted (zip os outs) f"
  using assms
proof (induction os arbitrary: outs f rule: rev_induct)
  case Nil
  then show ?case using fresh_law by (simp add: accounted_def log_published_def log_delivered_def log_acked_def)
next
  case (snoc op' os)
  then obtain outs1 f1 x where r: "run_ops (feed_step ops) os fresh = Some (outs1, f1)" "feed_step ops op' f1 = Some (x, f)"
    "outs = outs1 @ [x]" by (auto simp: run_ops_snoc split: option.splits prod.splits)
  from run_ops_length [OF r(1)] have "zip (os @ [op']) outs = zip os outs1 @ [(op', x)]" by (simp add: r(3))
  with accounted_step [OF snoc.IH [OF r(1)] r(2)] show ?case by simp
qed

lemma feed_run_total: "\<exists>outs f'. run_ops (feed_step ops) os f = Some (outs, f')"
proof (induction os arbitrary: f)
  case (Cons op' os)
  have "feed_step ops op' f \<noteq> None" by (cases op') simp_all
  then obtain x f1 where "feed_step ops op' f = Some (x, f1)" by auto
  with Cons [of f1] show ?case by auto
qed simp

end

section \<open>The in-process feed meets the contract\<close>

definition memory_ops :: "memory_feed feed_ops" where
  "memory_ops =
     \<lparr>fo_receive = memory_receive, fo_renew = memory_renew, fo_acknowledge = memory_acknowledge, fo_fail = memory_fail,
      fo_publish = (\<lambda>u f. snd (memory_publish u f :: unit confirmation \<times> memory_feed))\<rparr>"

text \<open>
  Held receipts are distinct and were minted; a unit waiting has had fewer deliveries than the
  cap, and a held one at most that many.
\<close>

definition memory_ok :: "nat \<Rightarrow> memory_feed \<Rightarrow> bool" where
  "memory_ok cap f \<longleftrightarrow>
     mf_attempt_cap f = cap \<and> distinct (akeys (mf_held f)) \<and> set (akeys (mf_held f)) \<subseteq> Receipt ` {1..mf_next_receipt f}
     \<and> list_all (\<lambda>(u, k). k < cap) (mf_visible f) \<and> list_all (\<lambda>(r, u, k). 0 < k \<and> k \<le> cap) (mf_held f)"

definition memory_waiting :: "memory_feed \<Rightarrow> feed_unit multiset" where
  "memory_waiting f = mset (map fst (mf_visible f))"

definition memory_holds :: "memory_feed \<Rightarrow> (receipt \<times> feed_unit) multiset" where
  "memory_holds f = mset (map (\<lambda>(r, u, k). (r, u)) (mf_held f))"

definition memory_minted :: "memory_feed \<Rightarrow> receipt set" where
  "memory_minted f = Receipt ` {1..mf_next_receipt f}"

lemma memory_wake_frame [simp]:
  "mf_visible (memory_wake f) = mf_visible f" "mf_held (memory_wake f) = mf_held f" "mf_dead (memory_wake f) = mf_dead f"
  "mf_next_receipt (memory_wake f) = mf_next_receipt f" "mf_attempt_cap (memory_wake f) = mf_attempt_cap f"
  "memory_ok cap (memory_wake f) = memory_ok cap f" "memory_waiting (memory_wake f) = memory_waiting f"
  "memory_holds (memory_wake f) = memory_holds f" "memory_minted (memory_wake f) = memory_minted f"
  by (simp_all add: memory_wake_def memory_ok_def memory_waiting_def memory_holds_def memory_minted_def)

lemma receive_loop_spec:
  assumes "memory_ok cap f" "receive_loop n f out' = (ds, f')"
  shows "\<exists>es. ds = out' @ es \<and> length es = min n (length (mf_visible f)) \<and> memory_ok cap f'
    \<and> mf_visible f = map (\<lambda>d. (dl_unit d, dl_deliveries d - 1)) es @ mf_visible f'
    \<and> map dl_receipt es = map Receipt [mf_next_receipt f + 1..<mf_next_receipt f' + 1] \<and> mf_next_receipt f \<le> mf_next_receipt f'
    \<and> list_all (\<lambda>d. 0 < dl_deliveries d \<and> dl_deliveries d \<le> cap) es
    \<and> memory_holds f' = mset (map (\<lambda>d. (dl_receipt d, dl_unit d)) es) + memory_holds f \<and> mf_dead f' = mf_dead f
    \<and> mf_waker f' = mf_waker f \<and> mf_acknowledged f' = mf_acknowledged f"
  using assms
proof (induction n arbitrary: f out')
  case (Suc n)
  show ?case
  proof (cases "mf_visible f")
    case Nil
    with Suc.prems show ?thesis by (auto intro: exI [of _ "[]"])
  next
    case (Cons v rest)
    obtain u k where v: "v = (u, k)" by fastforce
    let ?r = "Receipt (mf_next_receipt f + 1)"
    let ?d = "\<lparr>dl_unit = u, dl_receipt = ?r, dl_deliveries = k + 1\<rparr>"
    let ?f = "f\<lparr>mf_visible := rest, mf_next_receipt := mf_next_receipt f + 1, mf_held := AList.update ?r (u, k + 1) (mf_held f)\<rparr>"
    have fresh: "?r \<notin> set (akeys (mf_held f))" using Suc.prems(1) by (auto simp: memory_ok_def)
    have ok: "memory_ok cap ?f"
      using Suc.prems(1) Cons v fresh by (auto simp: memory_ok_def alist_update_fresh)
    have holds: "memory_holds ?f = add_mset (?r, u) (memory_holds f)"
      using fresh by (simp add: memory_holds_def alist_update_fresh)
    have run: "receive_loop n ?f (out' @ [?d]) = (ds, f')" using Suc.prems(2) Cons v by (simp add: Let_def)
    from Suc.IH [OF ok run] obtain es where es: "ds = (out' @ [?d]) @ es" "length es = min n (length (mf_visible ?f))" "memory_ok cap f'"
      "mf_visible ?f = map (\<lambda>d. (dl_unit d, dl_deliveries d - 1)) es @ mf_visible f'"
      "map dl_receipt es = map Receipt [mf_next_receipt ?f + 1..<mf_next_receipt f' + 1]" "mf_next_receipt ?f \<le> mf_next_receipt f'"
      "list_all (\<lambda>d. 0 < dl_deliveries d \<and> dl_deliveries d \<le> cap) es"
      "memory_holds f' = mset (map (\<lambda>d. (dl_receipt d, dl_unit d)) es) + memory_holds ?f" "mf_dead f' = mf_dead ?f"
      "mf_waker f' = mf_waker ?f" "mf_acknowledged f' = mf_acknowledged ?f" by blast
    have "k < cap" using Suc.prems(1) Cons v by (simp add: memory_ok_def)
    moreover have "map dl_receipt (?d # es) = map Receipt [mf_next_receipt f + 1..<mf_next_receipt f' + 1]"
      using es(5,6) by (simp add: upt_conv_Cons del: upt_Suc)
    ultimately show ?thesis
      using es Cons v holds by (intro exI [of _ "?d # es"]) simp
  qed
qed simp

lemma memory_holds_iff:
  assumes "memory_ok cap f"
  shows "(r, u) \<in># memory_holds f \<longleftrightarrow> (\<exists>k. map_of (mf_held f) r = Some (u, k))"
    and "fst ` set_mset (memory_holds f) = set (akeys (mf_held f))"
proof -
  have "distinct (map fst (mf_held f))" using assms by (simp add: memory_ok_def akeys_def)
  then show "(r, u) \<in># memory_holds f \<longleftrightarrow> (\<exists>k. map_of (mf_held f) r = Some (u, k))"
    by (force simp: memory_holds_def map_of_eq_Some_iff)
  show "fst ` set_mset (memory_holds f) = set (akeys (mf_held f))"
    by (force simp: memory_holds_def akeys_def)
qed

lemma memory_holds_delete:
  assumes "memory_ok cap f" "map_of (mf_held f) r = Some (u, k)"
  shows "memory_holds f = add_mset (r, u) (memory_holds (f\<lparr>mf_held := AList.delete r (mf_held f)\<rparr>))"
    and "memory_ok cap (f\<lparr>mf_held := AList.delete r (mf_held f)\<rparr>)" "0 < k" "k \<le> cap"
proof -
  have d: "distinct (akeys (mf_held f))" using assms(1) by (simp add: memory_ok_def)
  show "memory_holds f = add_mset (r, u) (memory_holds (f\<lparr>mf_held := AList.delete r (mf_held f)\<rparr>))"
    unfolding memory_holds_def mset_map mset_alist_delete [OF d assms(2), symmetric] by simp
  show "memory_ok cap (f\<lparr>mf_held := AList.delete r (mf_held f)\<rparr>)"
    using assms(1) by (auto simp: memory_ok_def intro: list_all_alist_delete)
  show "0 < k" "k \<le> cap"
    using assms list_all_map_of [of "\<lambda>(r, u, k). 0 < k \<and> k \<le> cap"] by (fastforce simp: memory_ok_def)+
qed

lemma memory_receive_law:
  assumes "memory_ok cap f" "memory_receive n f = (ds, f')"
  shows "memory_ok cap f' \<and> length ds \<le> n \<and> memory_waiting f = mset (map dl_unit ds) + memory_waiting f'
    \<and> mset (mf_dead f') = mset (mf_dead f)
    \<and> memory_holds f' = mset (map (\<lambda>d. (dl_receipt d, dl_unit d)) ds) + memory_holds f
    \<and> distinct (map dl_receipt ds) \<and> dl_receipt ` set ds \<inter> memory_minted f = {}
    \<and> memory_minted f' = dl_receipt ` set ds \<union> memory_minted f"
proof -
  let ?n = "min n (length (mf_visible f))"
  obtain f1 where f1: "receive_loop ?n f [] = (ds, f1)" "f' = f1 \<or> f' = memory_wake f1"
    using assms(2) by (auto simp: memory_receive_def Let_def split: prod.splits if_splits)
  from receive_loop_spec [OF assms(1) f1(1)] have es: "length ds = min ?n (length (mf_visible f))" "memory_ok cap f1"
    "mf_visible f = map (\<lambda>d. (dl_unit d, dl_deliveries d - 1)) ds @ mf_visible f1"
    "map dl_receipt ds = map Receipt [mf_next_receipt f + 1..<mf_next_receipt f1 + 1]" "mf_next_receipt f \<le> mf_next_receipt f1"
    "memory_holds f1 = mset (map (\<lambda>d. (dl_receipt d, dl_unit d)) ds) + memory_holds f" "mf_dead f1 = mf_dead f"
    unfolding append_Nil by blast+
  have set: "dl_receipt ` set ds = Receipt ` {mf_next_receipt f + 1..mf_next_receipt f1}"
    using arg_cong [OF es(4), of set] by (auto simp: atLeastLessThanSuc_atLeastAtMost)
  have "distinct (map dl_receipt ds)" unfolding es(4) by (simp add: distinct_map inj_on_def)
  moreover have "memory_waiting f = mset (map dl_unit ds) + memory_waiting f1"
    unfolding memory_waiting_def es(3) by (simp add: o_def)
  moreover have "dl_receipt ` set ds \<inter> memory_minted f = {}" unfolding set by (auto simp: memory_minted_def)
  moreover have "memory_minted f1 = dl_receipt ` set ds \<union> memory_minted f"
    unfolding set memory_minted_def image_Un [symmetric] using es(5) by (intro arg_cong [of _ _ "image Receipt"]) auto
  moreover have "length ds \<le> n" using es(1) by simp
  ultimately show ?thesis using es(2,6,7) f1(2) by (elim disjE) simp_all
qed

interpretation memory: feed_contract memory_ops "with_attempt_cap (Suc c)" "memory_ok (Suc c)" memory_waiting
  "\<lambda>f. mset (mf_dead f)" memory_holds memory_minted for c
proof
  fix f r u H n ds f' why
  let ?ok = "memory_ok (Suc c)"
  show "?ok (with_attempt_cap (Suc c)) \<and> memory_waiting (with_attempt_cap (Suc c)) = {#} \<and> mset (mf_dead (with_attempt_cap (Suc c))) = {#}
      \<and> memory_holds (with_attempt_cap (Suc c)) = {#} \<and> memory_minted (with_attempt_cap (Suc c)) = {}"
    by (simp add: with_attempt_cap_def memory_ok_def memory_waiting_def memory_holds_def memory_minted_def)
  assume ok: "?ok f"
  show "r \<in> memory_minted f \<and> r \<notin> fst ` set_mset H" if "memory_holds f = add_mset (r, u) H"
  proof -
    have "mset (akeys (mf_held f)) = image_mset fst (memory_holds f)"
      by (simp add: memory_holds_def akeys_def flip: mset_map) (simp add: comp_def split_def)
    with that have m: "mset (akeys (mf_held f)) = add_mset r (image_mset fst H)" by simp
    then have r: "r \<in> set (akeys (mf_held f))" by (metis insertI1 set_mset_add_mset_insert set_mset_mset)
    have "distinct (akeys (mf_held f))" "r \<in> memory_minted f" using ok r by (auto simp: memory_ok_def memory_minted_def)
    moreover from this(1) r have "count (mset (akeys (mf_held f))) r = 1" by (simp add: distinct_count_atmost_1)
    ultimately have "count (image_mset fst H) r = 0" "r \<in> memory_minted f" using m by simp_all
    then show ?thesis by (metis count_eq_zero_iff set_image_mset)
  qed
  show "?ok f' \<and> length ds \<le> n \<and> memory_waiting f = mset (map dl_unit ds) + memory_waiting f' \<and> mset (mf_dead f') = mset (mf_dead f)
      \<and> memory_holds f' = mset (map (\<lambda>d. (dl_receipt d, dl_unit d)) ds) + memory_holds f
      \<and> distinct (map dl_receipt ds) \<and> dl_receipt ` set ds \<inter> memory_minted f = {}
      \<and> memory_minted f' = dl_receipt ` set ds \<union> memory_minted f" if "fo_receive memory_ops n f = (ds, f')"
    using memory_receive_law [OF ok] that by (simp add: memory_ops_def)
  note held = memory_holds_iff [OF ok]
  show "\<exists>e. fo_renew memory_ops r f = (e, f)
      \<and> (if r \<in> fst ` set_mset (memory_holds f) then e = None else \<exists>x. e = Some x \<and> fe_kind x = Gone)"
    by (simp add: memory_ops_def memory_renew_def held(2) gone_def)
  show "(\<exists>x. fo_acknowledge memory_ops r f = (Some x, f) \<and> fe_kind x = Gone) \<and> (\<exists>x. fo_fail memory_ops r why f = (Some x, f) \<and> fe_kind x = Gone)"
    if "r \<notin> fst ` set_mset (memory_holds f)"
  proof -
    have "map_of (mf_held f) r = None" using that by (simp add: held(2) map_of_None_iff)
    then show ?thesis by (simp add: memory_ops_def memory_acknowledge_def memory_fail_def gone_def)
  qed
  show "\<exists>f'. fo_acknowledge memory_ops r f = (None, f') \<and> ?ok f' \<and> memory_holds f = add_mset (r, u) (memory_holds f')
      \<and> memory_waiting f' = memory_waiting f \<and> mset (mf_dead f') = mset (mf_dead f) \<and> memory_minted f' = memory_minted f"
    if u: "(r, u) \<in># memory_holds f"
  proof -
    obtain k where k: "map_of (mf_held f) r = Some (u, k)" using u held(1) by blast
    from memory_holds_delete [OF ok k] k show ?thesis
      by (simp add: memory_ops_def memory_acknowledge_def) (simp add: memory_ok_def memory_holds_def memory_waiting_def memory_minted_def)
  qed
  show "\<exists>f'. fo_fail memory_ops r why f = (None, f') \<and> ?ok f' \<and> memory_holds f = add_mset (r, u) (memory_holds f')
      \<and> memory_minted f' = memory_minted f
      \<and> (memory_waiting f' = add_mset u (memory_waiting f) \<and> mset (mf_dead f') = mset (mf_dead f)
         \<or> memory_waiting f' = memory_waiting f \<and> mset (mf_dead f') = add_mset u (mset (mf_dead f)))"
    if u: "(r, u) \<in># memory_holds f"
  proof -
    obtain k where k: "map_of (mf_held f) r = Some (u, k)" using u held(1) by blast
    note del = memory_holds_delete [OF ok k]
    from del(2) have "mf_attempt_cap f = Suc c" by (simp add: memory_ok_def)
    with del k show ?thesis
      by (cases "k \<ge> Suc c")
        (simp_all add: memory_ops_def memory_fail_def Let_def memory_ok_def memory_holds_def memory_waiting_def memory_minted_def)
  qed
  show "?ok (fo_publish memory_ops u f) \<and> memory_waiting (fo_publish memory_ops u f) = add_mset u (memory_waiting f)
      \<and> mset (mf_dead (fo_publish memory_ops u f)) = mset (mf_dead f) \<and> memory_holds (fo_publish memory_ops u f) = memory_holds f
      \<and> memory_minted (fo_publish memory_ops u f) = memory_minted f"
    using ok by (simp add: memory_ops_def memory_publish_def) (simp add: memory_ok_def memory_waiting_def memory_holds_def memory_minted_def)
qed

section \<open>Attempts\<close>

text \<open>
  Beside the contract: the count of a held delivery is the one it was delivered with, and the
  dead letters are the units whose \<open>cap\<close>-th delivery was failed, in the order they failed.
\<close>

definition memory_attempts :: "nat \<Rightarrow> feed_log \<Rightarrow> memory_feed \<Rightarrow> bool" where
  "memory_attempts cap l f \<longleftrightarrow>
     (\<forall>r u k. map_of (mf_held f) r = Some (u, k) \<longrightarrow>
        r \<in> dl_receipt ` set (log_delivered l) \<and> delivery_of (log_delivered l) r = \<lparr>dl_unit = u, dl_receipt = r, dl_deliveries = k\<rparr>)
     \<and> set (log_failed l) \<subseteq> dl_receipt ` set (log_delivered l)
     \<and> list_all (\<lambda>d. 0 < dl_deliveries d \<and> dl_deliveries d \<le> cap) (log_delivered l)
     \<and> mf_dead f = map (unit_of (log_delivered l))
         (filter (\<lambda>r. dl_deliveries (delivery_of (log_delivered l) r) = cap) (log_failed l))
     \<and> mf_acknowledged f = length (log_acked l)"

lemma receive_loop_held:
  assumes "memory_ok cap f" "receive_loop n f out' = (ds, f')" "map_of (mf_held f') r = Some (u, k)"
    "\<lparr>dl_unit = u, dl_receipt = r, dl_deliveries = k\<rparr> \<notin> set ds"
  shows "map_of (mf_held f) r = Some (u, k)"
  using assms
proof (induction n arbitrary: f out')
  case (Suc n)
  show ?case
  proof (cases "mf_visible f")
    case (Cons v rest)
    obtain w j where v: "v = (w, j)" by fastforce
    let ?r = "Receipt (mf_next_receipt f + 1)"
    let ?d = "\<lparr>dl_unit = w, dl_receipt = ?r, dl_deliveries = j + 1\<rparr>"
    let ?f = "f\<lparr>mf_visible := rest, mf_next_receipt := mf_next_receipt f + 1, mf_held := AList.update ?r (w, j + 1) (mf_held f)\<rparr>"
    have fresh: "?r \<notin> set (akeys (mf_held f))" using Suc.prems(1) by (auto simp: memory_ok_def)
    have ok: "memory_ok cap ?f"
      using Suc.prems(1) Cons v fresh by (auto simp: memory_ok_def alist_update_fresh)
    have run: "receive_loop n ?f (out' @ [?d]) = (ds, f')" using Suc.prems(2) Cons v by (simp add: Let_def)
    obtain es where "ds = (out' @ [?d]) @ es" using receive_loop_spec [OF ok run] by blast
    with Suc.IH [OF ok run Suc.prems(3,4)] Suc.prems(4) show ?thesis by (auto split: if_splits)
  qed (use Suc.prems in simp)
qed simp

lemma memory_receive_attempts:
  assumes acc: "memory.accounted c l f" and att: "memory_attempts (Suc c) l f" and r: "memory_receive n f = (ds, f')"
  shows "memory_attempts (Suc c) (l @ [(Receive n, Delivered ds)]) f'"
proof -
  note A = memory.accountedD [OF acc] and law = memory_receive_law [OF memory.accountedD(1) [OF acc] r]
  let ?l = "log_delivered l" and ?n = "min n (length (mf_visible f))"
  obtain f1 where f1: "receive_loop ?n f [] = (ds, f1)" "f' = f1 \<or> f' = memory_wake f1"
    using r by (auto simp: memory_receive_def Let_def split: prod.splits if_splits)
  have spec: "list_all (\<lambda>d. 0 < dl_deliveries d \<and> dl_deliveries d \<le> Suc c) ds" "mf_dead f1 = mf_dead f"
    "mf_acknowledged f1 = mf_acknowledged f"
    using receive_loop_spec [OF A(1) f1(1)] unfolding append_Nil by blast+
  have keep: "mf_held f' = mf_held f1" "mf_dead f' = mf_dead f" "mf_acknowledged f' = mf_acknowledged f"
    using f1(2) spec by (auto simp: memory_wake_def)
  have dist: "distinct (map dl_receipt (?l @ ds))" using A(2,3) law by auto
  have old: "delivery_of (?l @ ds) r = delivery_of ?l r" if "r \<in> dl_receipt ` set ?l" for r
    using that by (rule delivery_of_append)
  note T = att [unfolded memory_attempts_def]
  have held: "r \<in> dl_receipt ` set (?l @ ds) \<and> delivery_of (?l @ ds) r = \<lparr>dl_unit = u, dl_receipt = r, dl_deliveries = k\<rparr>"
    if "map_of (mf_held f') r = Some (u, k)" for r u k
  proof (cases "\<lparr>dl_unit = u, dl_receipt = r, dl_deliveries = k\<rparr> \<in> set ds")
    case True
    with delivery_of_member [OF dist, of "\<lparr>dl_unit = u, dl_receipt = r, dl_deliveries = k\<rparr>"] show ?thesis by force
  next
    case False
    from receive_loop_held [OF A(1) f1(1) _ False] that keep(1) have "map_of (mf_held f) r = Some (u, k)" by simp
    with T have "r \<in> dl_receipt ` set ?l" "delivery_of ?l r = \<lparr>dl_unit = u, dl_receipt = r, dl_deliveries = k\<rparr>" by blast+
    with old show ?thesis by auto
  qed
  have dead: "map (unit_of (?l @ ds)) (filter (\<lambda>r. dl_deliveries (delivery_of (?l @ ds) r) = Suc c) (log_failed l))
      = map (unit_of ?l) (filter (\<lambda>r. dl_deliveries (delivery_of ?l r) = Suc c) (log_failed l))"
  proof -
    have "unit_of (?l @ ds) r = unit_of ?l r" "delivery_of (?l @ ds) r = delivery_of ?l r" if "r \<in> set (log_failed l)" for r
      using T old [of r] that by (auto simp: unit_of_def)
    then show ?thesis by (intro map_cong filter_cong) auto
  qed
  show ?thesis
    unfolding memory_attempts_def log_snoc op_delivered.simps op_failed.simps op_acked.simps append_Nil2 dead
    using T held spec(1) keep by (intro conjI allI impI) auto
qed

lemma memory_attempts_same:
  assumes "memory_attempts cap l f" "op_delivered (op', x) = []" "op_acked (op', x) = []" "op_failed (op', x) = []"
    and "mf_held f' = mf_held f" "mf_dead f' = mf_dead f" "mf_acknowledged f' = mf_acknowledged f"
  shows "memory_attempts cap (l @ [(op', x)]) f'"
  using assms(1) unfolding memory_attempts_def log_snoc assms(2-) append_Nil2 .

lemma memory_attempts_step:
  assumes acc: "memory.accounted c l f" and att: "memory_attempts (Suc c) l f" and step: "feed_step memory_ops op' f = Some (x, f')"
  shows "memory_attempts (Suc c) (l @ [(op', x)]) f'"
proof -
  note T = att [unfolded memory_attempts_def]
  let ?l = "log_delivered l"
  show ?thesis
  proof (cases op')
    case (Receive n)
    with step memory_receive_attempts [OF acc att] show ?thesis
      by (cases "memory_receive n f") (auto simp: memory_ops_def)
  next
    case (Publish u)
    with step show ?thesis
      by (intro memory_attempts_same [OF att]) (auto simp: memory_ops_def memory_publish_def memory_wake_def)
  next
    case (Renew r)
    with step show ?thesis
      by (intro memory_attempts_same [OF att]) (auto simp: memory_ops_def memory_renew_def)
  next
    case (Acknowledge r)
    show ?thesis
    proof (cases "map_of (mf_held f) r")
      case None
      with step Acknowledge show ?thesis
        by (intro memory_attempts_same [OF att]) (auto simp: memory_ops_def memory_acknowledge_def)
    next
      case (Some v)
      with step Acknowledge have x: "x = Answered None"
        "f' = f\<lparr>mf_held := AList.delete r (mf_held f), mf_acknowledged := mf_acknowledged f + 1\<rparr>"
        by (simp_all add: memory_ops_def memory_acknowledge_def)
      show ?thesis
        unfolding memory_attempts_def Acknowledge x log_snoc op_delivered.simps op_failed.simps op_acked.simps append_Nil2
        using T by (intro conjI allI impI) (auto split: if_splits)
    qed
  next
    case (FailUnit r why)
    show ?thesis
    proof (cases "map_of (mf_held f) r")
      case None
      with step FailUnit show ?thesis
        by (intro memory_attempts_same [OF att]) (auto simp: memory_ops_def memory_fail_def)
    next
      case (Some v)
      obtain u k where v: "v = (u, k)" by fastforce
      have k: "k \<le> Suc c" "mf_attempt_cap f = Suc c"
        using memory_holds_delete(4) [OF memory.accountedD(1) [OF acc] Some [unfolded v]] memory.accountedD(1) [OF acc]
        by (simp_all add: memory_ok_def)
      have d: "r \<in> dl_receipt ` set ?l" "delivery_of ?l r = \<lparr>dl_unit = u, dl_receipt = r, dl_deliveries = k\<rparr>"
        using T Some v by blast+
      have x: "x = Answered None" "mf_held f' = AList.delete r (mf_held f)" "mf_acknowledged f' = mf_acknowledged f"
        "mf_dead f' = mf_dead f @ (if k = Suc c then [u] else [])"
        using step FailUnit Some v k by (auto simp: memory_ops_def memory_fail_def Let_def memory_wake_def)
      show ?thesis
        unfolding memory_attempts_def FailUnit x log_snoc op_delivered.simps op_failed.simps op_acked.simps append_Nil2
        using T d by (intro conjI allI impI) (auto simp: unit_of_def split: if_splits)
    qed
  qed
qed

lemma memory_attempts_run:
  assumes "run_ops (feed_step memory_ops) os (with_attempt_cap (Suc c)) = Some (outs, f)"
  shows "memory_attempts (Suc c) (zip os outs) f"
  using assms
proof (induction os arbitrary: outs f rule: rev_induct)
  case Nil
  then show ?case
    by (auto simp: memory_attempts_def with_attempt_cap_def log_published_def log_delivered_def log_acked_def log_failed_def)
next
  case (snoc op' os)
  then obtain outs1 f1 x where r: "run_ops (feed_step memory_ops) os (with_attempt_cap (Suc c)) = Some (outs1, f1)"
    "feed_step memory_ops op' f1 = Some (x, f)" "outs = outs1 @ [x]" by (auto simp: run_ops_snoc)
  from run_ops_length [OF r(1)] have "zip (os @ [op']) outs = zip os outs1 @ [(op', x)]" by (simp add: r(3))
  with memory_attempts_step [OF memory.accounted_run [OF r(1)] snoc.IH [OF r(1)] r(2)] show ?case by simp
qed

text \<open>
  C37. The in-process feed loses no unit. Whatever sequence of publishes, receives, renewals,
  acknowledgments and failures is called on a new feed, each call returns; every unit published is
  waiting, held, dead-lettered or acknowledged, exactly once for each time it was published; no
  receipt names two deliveries and none is acknowledged twice. A delivery is at most the
  \<open>attempt_cap\<close>-th of its unit, and the dead letters are exactly the units whose
  \<open>attempt_cap\<close>-th delivery was failed, in that order.
\<close>
theorem memory_feed_loses_nothing:
  assumes "0 < cap"
  shows "\<exists>outs f l. run_ops (feed_step memory_ops) os (with_attempt_cap cap) = Some (outs, f) \<and> l = zip os outs
    \<and> mset (log_published l) = mset (map fst (mf_visible f)) + mset (map (\<lambda>(r, u, k). u) (mf_held f)) + mset (mf_dead f)
        + mset (map (unit_of (log_delivered l)) (log_acked l))
    \<and> distinct (map dl_receipt (log_delivered l)) \<and> distinct (log_acked l) \<and> mf_acknowledged f = length (log_acked l)
    \<and> list_all (\<lambda>d. 0 < dl_deliveries d \<and> dl_deliveries d \<le> cap) (log_delivered l)
    \<and> mf_dead f = map (unit_of (log_delivered l))
        (filter (\<lambda>r. dl_deliveries (delivery_of (log_delivered l) r) = cap) (log_failed l))"
proof -
  obtain c where cap: "cap = Suc c" using assms by (cases cap) simp_all
  obtain outs f where run: "run_ops (feed_step memory_ops) os (with_attempt_cap (Suc c)) = Some (outs, f)"
    using memory.feed_run_total [of os "with_attempt_cap (Suc c)"] by blast
  note A = memory.accountedD [OF memory.accounted_run [OF run]]
  have "image_mset snd (memory_holds f) = mset (map (\<lambda>(r, u, k). u) (mf_held f))"
    by (simp add: memory_holds_def image_mset.compositionality comp_def split_def)
  with A(7) run A(2,5) memory_attempts_run [OF run] show ?thesis
    unfolding cap by (intro exI conjI) (auto simp: memory_attempts_def memory_waiting_def)
qed

theorem memory_feed_loses_nothing_witness:
  "\<exists>outs f. run_ops (feed_step memory_ops)
        [Publish \<lparr>fu_id = ''u'', fu_body = [1]\<rparr>, Receive 2, Acknowledge (Receipt 2), FailUnit (Receipt 1) ''bad''] (with_attempt_cap 1)
      = Some (outs, f) \<and> mf_dead f = [\<lparr>fu_id = ''u'', fu_body = [1]\<rparr>] \<and> mf_acknowledged f = 0
    \<and> mset (map fst (mf_visible f)) + mset (map (\<lambda>(r, u, k). u) (mf_held f)) + mset (mf_dead f) = {#\<lparr>fu_id = ''u'', fu_body = [1]\<rparr>#}"
proof -
  let ?u = "\<lparr>fu_id = ''u'', fu_body = [1 :: 8 word]\<rparr>"
  let ?os = "[Publish ?u, Receive 2, Acknowledge (Receipt 2), FailUnit (Receipt 1) ''bad'']"
  let ?outs = "[Confirmed, Delivered [\<lparr>dl_unit = ?u, dl_receipt = Receipt 1, dl_deliveries = 1\<rparr>], Answered (Some (gone (Receipt 2))),
    Answered None]"
  let ?f = "(with_attempt_cap 1)\<lparr>mf_dead := [?u], mf_next_receipt := 1\<rparr>"
  have run: "run_ops (feed_step memory_ops) ?os (with_attempt_cap 1) = Some (?outs, ?f)"
    by (simp add: memory_ops_def memory_publish_def memory_receive_def memory_acknowledge_def memory_fail_def with_attempt_cap_def
        memory_wake_def Let_def)
  from memory_feed_loses_nothing [of 1 ?os, OF zero_less_one]
  have "mset (log_published (zip ?os ?outs)) = mset (map fst (mf_visible ?f)) + mset (map (\<lambda>(r, u, k). u) (mf_held ?f)) + mset (mf_dead ?f)
        + mset (map (unit_of (log_delivered (zip ?os ?outs))) (log_acked (zip ?os ?outs)))"
    unfolding run option.inject prod.inject by blast
  then have "mset (map fst (mf_visible ?f)) + mset (map (\<lambda>(r, u, k). u) (mf_held ?f)) + mset (mf_dead ?f) = {#?u#}"
    by (simp add: log_published_def log_acked_def)
  with run show ?thesis by (intro exI [of _ ?outs] exI [of _ ?f] conjI) (assumption | simp add: with_attempt_cap_def)+
qed

section \<open>Waking the reader\<close>

text \<open>
  A reader parks on its waker and receives after every park; anyone may call the feed in between.
  \<open>owes\<close> is whether the reader parked and has not received since.
\<close>

datatype reader_event = Call feed_op | Park

fun reader_step :: "reader_event \<Rightarrow> memory_feed \<times> bool \<Rightarrow> memory_feed \<times> bool" where
  "reader_step (Call op') (f, owes) =
     ((case feed_step memory_ops op' f of None \<Rightarrow> f | Some (x, f') \<Rightarrow> f'),
      (case op' of Receive n \<Rightarrow> owes \<and> n = 0 | _ \<Rightarrow> owes))"
| "reader_step Park (f, owes) = (f\<lparr>mf_waker := map_option (\<lambda>slot. snd (feed_park slot)) (mf_waker f)\<rparr>, True)"

definition signalled :: "memory_feed \<times> bool \<Rightarrow> bool" where
  "signalled s \<longleftrightarrow> mf_waker (fst s) \<noteq> None \<and> (mf_visible (fst s) \<noteq> [] \<longrightarrow> snd s \<or> mf_waker (fst s) = Some True)"

lemma receive_loop_waker: "mf_waker (snd (receive_loop n f out')) = mf_waker f"
  by (induction n arbitrary: f out') (auto simp: Let_def split: list.splits)

lemma signalled_step: "signalled s \<Longrightarrow> signalled (reader_step e s)"
proof (cases s; cases e)
  fix f owes op'
  assume sig: "signalled s" and s: "s = (f, owes)" and e: "e = Call op'"
  show ?thesis
  proof (cases op')
    case (Receive n)
    obtain ds f1 where r: "receive_loop (min n (length (mf_visible f))) f [] = (ds, f1)" by fastforce
    have w: "mf_waker f1 = mf_waker f" using receive_loop_waker [of "min n (length (mf_visible f))" f "[]"] r by simp
    show ?thesis
    proof (cases "n = 0 \<or> mf_visible f = []")
      case True
      with r have "f1 = f" by (cases "n = 0") auto
      with True sig s e Receive r show ?thesis by (auto simp: signalled_def memory_ops_def memory_receive_def Let_def)
    next
      case False
      with sig s e Receive r w show ?thesis
        by (auto simp: signalled_def memory_ops_def memory_receive_def Let_def memory_wake_def feed_wake_def)
    qed
  qed (use sig s e in \<open>auto simp: signalled_def memory_ops_def memory_renew_def memory_acknowledge_def memory_fail_def memory_publish_def
      memory_wake_def feed_wake_def Let_def split: option.splits\<close>)
qed (auto simp: signalled_def)

text \<open>
  C38. No wakeup is lost. Once the reader's waker is set, on a feed in any state, and whatever the
  reader and any publisher do, a reader that has received since it last parked finds a signal
  pending whenever units wait, so its next park returns at once.
\<close>
theorem feed_wakeup_not_lost:
  "case fold reader_step es (memory_set_waker slot f, False) of
     (f', owes) \<Rightarrow> mf_visible f' \<noteq> [] \<longrightarrow> \<not> owes \<longrightarrow> map_option (\<lambda>s. fst (feed_park s)) (mf_waker f') = Some True"
proof -
  have "signalled (memory_set_waker slot f, False)"
    by (simp add: signalled_def memory_set_waker_def feed_wake_def)
  then have "signalled (fold reader_step es (memory_set_waker slot f, False))"
    by (induction es arbitrary: f rule: rev_induct) (simp_all add: signalled_step)
  then show ?thesis by (auto simp: signalled_def feed_park_def split: prod.splits)
qed

theorem feed_wakeup_not_lost_witness:
  "case fold reader_step [Park, Call (Publish \<lparr>fu_id = ''u'', fu_body = []\<rparr>), Call (Publish \<lparr>fu_id = ''v'', fu_body = []\<rparr>), Call (Receive 1)]
      (memory_set_waker False memory_default, False) of
     (f', owes) \<Rightarrow> mf_visible f' \<noteq> [] \<and> \<not> owes \<and> map_option (\<lambda>s. fst (feed_park s)) (mf_waker f') = Some True"
  using feed_wakeup_not_lost [of "[Park, Call (Publish \<lparr>fu_id = ''u'', fu_body = []\<rparr>), Call (Publish \<lparr>fu_id = ''v'', fu_body = []\<rparr>),
      Call (Receive 1)]" False memory_default]
  by (simp add: memory_default_def with_attempt_cap_def memory_set_waker_def memory_ops_def memory_publish_def memory_receive_def
      memory_wake_def Let_def)

end
