(* ===== verification/End_Check.thy ===== *)
theory End_Check
  imports Feed
begin

text \<open>
  The end check of a bounded job, \<open>crates/spate-core/src/feed/end_check.rs\<close>: from the reads a
  source reports, when has the job read all of its work? The check holds no clock; every call
  takes the instant the source reads. Log lines are left out.

  What the check answers for is stated over the log of the reads it asked for and their answers:
  it ends a job as completed or stalled only after the feed stayed empty over the window.
\<close>

section \<open>The check\<close>

definition END_CHECK_INTERVAL :: duration where "END_CHECK_INTERVAL = 20 * 10 ^ 9"

definition READ_EVERY :: duration where "READ_EVERY = 15 * 10 ^ 9"

datatype marker_read = MarkerPresent string | MarkerAbsent | MarkerFailed

datatype end_outcome = EndCompleted | EndStalled depth | EndFailed feed_error

datatype end_action = EndWait "instant option" | ReadMarker | ReadDepth depth_of | EndReceive | HasEnded end_outcome

datatype end_read = RdMarker | RdDepth depth_of | RdReceive

datatype end_phase =
    Opening instant
  | Window string "instant option" instant instant
  | Closing string
  | Receiving
  | DeadLetters instant
  | Ended end_outcome

record end_check =
  ec_window :: "duration option"
  ec_phase :: end_phase
  ec_pending :: "(end_read \<times> instant) option"
  ec_last_request :: "instant option"
  ec_announced :: "string option"

definition windowed :: "duration \<Rightarrow> instant \<Rightarrow> end_check" where
  "windowed window now =
     \<lparr>ec_window = Some window, ec_phase = Opening now, ec_pending = None, ec_last_request = None, ec_announced = None\<rparr>"

definition exact :: "instant \<Rightarrow> end_check" where
  "exact now = \<lparr>ec_window = None, ec_phase = Opening now, ec_pending = None, ec_last_request = None, ec_announced = None\<rparr>"

definition reopen :: "instant \<Rightarrow> end_check \<Rightarrow> end_check" where
  "reopen due c = c\<lparr>ec_phase := Opening due\<rparr>"

text \<open>The read a phase asks for at \<open>now\<close>: the answer to give instead, or the read.\<close>

definition phase_read :: "duration option \<Rightarrow> end_phase \<Rightarrow> instant \<Rightarrow> end_action + end_read" where
  "phase_read window phase now =
     (case phase of
        Ended outcome \<Rightarrow> Inl (HasEnded outcome)
      | Opening due \<Rightarrow>
          if now < due then Inl (EndWait (Some due))
          else if window = None then Inr (RdDepth FeedDepth) else Inr RdMarker
      | Window run start last' due \<Rightarrow> if now < due then Inl (EndWait (Some due)) else Inr (RdDepth FeedDepth)
      | DeadLetters due \<Rightarrow> if now < due then Inl (EndWait (Some due)) else Inr (RdDepth DeadLetterDepth)
      | Closing run \<Rightarrow> Inr RdMarker
      | Receiving \<Rightarrow> Inr RdReceive)"

definition end_next :: "instant \<Rightarrow> end_check \<Rightarrow> end_action \<times> end_check" where
  "end_next now c =
     (if ec_pending c \<noteq> None then (EndWait None, c)
      else
        let c1 = (case ec_phase c of
                    Window run start last' due \<Rightarrow> if now > last' + END_CHECK_INTERVAL then reopen now c else c
                  | _ \<Rightarrow> c)
        in case phase_read (ec_window c1) (ec_phase c1) now of
             Inl action \<Rightarrow> (action, c1)
           | Inr read \<Rightarrow>
               let c2 = c1\<lparr>ec_pending := Some (read, now)\<rparr>;
                   c3 = (if read \<in> {RdMarker, RdDepth FeedDepth} then c2\<lparr>ec_last_request := Some now\<rparr> else c2)
               in (case read of
                     RdMarker \<Rightarrow> ReadMarker
                   | RdDepth of' \<Rightarrow> ReadDepth of'
                   | RdReceive \<Rightarrow> EndReceive, c3))"

definition take_pending :: "end_read \<Rightarrow> end_check \<Rightarrow> instant option \<times> end_check" where
  "take_pending read c =
     (case ec_pending c of
        Some (pending, requested) \<Rightarrow>
          if pending = read then (Some requested, c\<lparr>ec_pending := None\<rparr>) else (None, c)
      | None \<Rightarrow> (None, c))"

definition end_marker_read :: "instant \<Rightarrow> marker_read \<Rightarrow> end_check \<Rightarrow> end_check" where
  "end_marker_read now read c =
     (case take_pending RdMarker c of
        (None, c1) \<Rightarrow> c1
      | (Some requested, c1) \<Rightarrow>
          if now > requested + END_CHECK_INTERVAL then reopen now c1
          else
            let closing = (case ec_phase c1 of Closing run \<Rightarrow> Some run | _ \<Rightarrow> None)
            in case read of
                 MarkerPresent seen \<Rightarrow>
                   if closing = Some seen then c1\<lparr>ec_phase := Receiving\<rparr>
                   else c1\<lparr>ec_announced := Some seen, ec_phase := Window seen None requested now\<rparr>
               | MarkerAbsent \<Rightarrow> c1\<lparr>ec_announced := None, ec_phase := Opening (requested + READ_EVERY)\<rparr>
               | MarkerFailed \<Rightarrow> c1\<lparr>ec_phase := Opening (requested + READ_EVERY)\<rparr>)"

text \<open>
  An empty, timely read of the feed. A window too long to add to an instant never closes: its end is
  a checked sum.
\<close>

definition advance :: "instant \<Rightarrow> end_check \<Rightarrow> end_check" where
  "advance requested c =
     (case (ec_phase c, ec_window c) of
        (Opening due, None) \<Rightarrow> c\<lparr>ec_phase := Receiving\<rparr>
      | (Window run start last' due, Some window) \<Rightarrow>
          let start' = (case start of None \<Rightarrow> requested | Some s \<Rightarrow> s);
              closes = (case checked_add start' window of None \<Rightarrow> False | Some stop \<Rightarrow> requested \<ge> stop)
          in c\<lparr>ec_phase := (if closes then Closing run
                            else Window run (Some start') requested (requested + READ_EVERY))\<rparr>
      | _ \<Rightarrow> c)"

definition end_depth_read :: "instant \<Rightarrow> feed_error + depth \<Rightarrow> end_check \<Rightarrow> end_check" where
  "end_depth_read now read c =
     (case ec_pending c of
        Some (RdDepth of', requested) \<Rightarrow>
          let c1 = c\<lparr>ec_pending := None\<rparr>; due = requested + READ_EVERY
          in (case read of
                Inl e \<Rightarrow>
                  if feed_error_class e = Fatal then c1\<lparr>ec_phase := Ended (EndFailed e)\<rparr>
                  else if of' = DeadLetterDepth then c1\<lparr>ec_phase := DeadLetters due\<rparr>
                  else reopen due c1
              | Inr depth \<Rightarrow>
                  if of' = DeadLetterDepth then
                    c1\<lparr>ec_phase := Ended (if depth_is_empty depth then EndCompleted else EndStalled depth)\<rparr>
                  else if \<not> depth_is_empty depth then reopen due c1
                  else if ec_window c1 \<noteq> None \<and> now > requested + END_CHECK_INTERVAL then reopen now c1
                  else advance requested c1)
      | _ \<Rightarrow> c)"

definition end_restart :: "instant \<Rightarrow> end_check \<Rightarrow> end_check" where
  "end_restart now c =
     (case ec_phase c of
        Ended outcome \<Rightarrow> c
      | _ \<Rightarrow>
          let due = (case (ec_window c, ec_last_request c) of
                       (Some w, Some last') \<Rightarrow> max (last' + READ_EVERY) now
                     | _ \<Rightarrow> now)
          in c\<lparr>ec_pending := None, ec_phase := Opening due\<rparr>)"

definition end_received :: "instant \<Rightarrow> bool \<Rightarrow> end_check \<Rightarrow> end_check" where
  "end_received now took c =
     (case take_pending RdReceive c of
        (None, c1) \<Rightarrow> c1
      | (Some requested, c1) \<Rightarrow>
          if took then end_restart now c1 else c1\<lparr>ec_phase := DeadLetters now\<rparr>)"

definition end_outcome_of :: "end_check \<Rightarrow> end_outcome option" where
  "end_outcome_of c = (case ec_phase c of Ended outcome \<Rightarrow> Some outcome | _ \<Rightarrow> None)"

section \<open>The reads a check asked for\<close>

text \<open>
  What a source does with its check, and the log of answered reads: when each was requested and
  when it was answered. A restart is logged too.
\<close>

datatype end_event =
    EvNext instant
  | EvMarker instant marker_read
  | EvDepth instant "feed_error + depth"
  | EvReceived instant bool
  | EvRestart instant

datatype end_answer =
    AnsMarker instant instant marker_read
  | AnsDepth depth_of instant instant "feed_error + depth"
  | AnsReceive instant instant bool
  | AnsRestart

fun end_answers :: "end_event \<Rightarrow> end_check \<Rightarrow> end_answer list" where
  "end_answers (EvNext now) c = []"
| "end_answers (EvMarker now m) c =
     (case ec_pending c of Some (RdMarker, q) \<Rightarrow> [AnsMarker q now m] | _ \<Rightarrow> [])"
| "end_answers (EvDepth now d) c =
     (case ec_pending c of Some (RdDepth of', q) \<Rightarrow> [AnsDepth of' q now d] | _ \<Rightarrow> [])"
| "end_answers (EvReceived now b) c =
     (case ec_pending c of Some (RdReceive, q) \<Rightarrow> [AnsReceive q now b] | _ \<Rightarrow> [])"
| "end_answers (EvRestart now) c = (if end_outcome_of c = None then [AnsRestart] else [])"

fun end_event_step :: "end_event \<Rightarrow> end_check \<Rightarrow> end_check" where
  "end_event_step (EvNext now) c = snd (end_next now c)"
| "end_event_step (EvMarker now m) c = end_marker_read now m c"
| "end_event_step (EvDepth now d) c = end_depth_read now d c"
| "end_event_step (EvReceived now b) c = end_received now b c"
| "end_event_step (EvRestart now) c = end_restart now c"

definition end_step :: "end_event \<Rightarrow> end_check \<times> end_answer list \<Rightarrow> end_check \<times> end_answer list" where
  "end_step e s = (end_event_step e (fst s), snd s @ end_answers e (fst s))"

section \<open>What an end rests on\<close>

text \<open>
  Empty reads of the feed, each requested within the interval of the read before it, the first of
  the one at \<open>p\<close>, and answered within it.
\<close>

fun reads_empty :: "instant \<Rightarrow> (instant \<times> instant \<times> depth) list \<Rightarrow> bool" where
  "reads_empty p [] \<longleftrightarrow> True"
| "reads_empty p ((q, a, d) # rs) \<longleftrightarrow>
     q \<le> p + END_CHECK_INTERVAL \<and> a \<le> q + END_CHECK_INTERVAL \<and> depth_is_empty d \<and> reads_empty q rs"

definition feed_reads :: "(instant \<times> instant \<times> depth) list \<Rightarrow> end_answer list" where
  "feed_reads rs = map (\<lambda>(q, a, d). AnsDepth FeedDepth q a (Inr d)) rs"

text \<open>The log ends with \<open>run\<close>'s marker and only empty reads of the feed since.\<close>

definition window_log :: "string \<Rightarrow> instant \<Rightarrow> (instant \<times> instant \<times> depth) list \<Rightarrow> end_answer list \<Rightarrow> bool" where
  "window_log run q rs l \<longleftrightarrow>
     (\<exists>pre a. l = pre @ AnsMarker q a (MarkerPresent run) # feed_reads rs \<and> a \<le> q + END_CHECK_INTERVAL) \<and> reads_empty q rs"

text \<open>
  The feed stayed empty: one empty read for an exact check; for a windowed one empty reads that span
  the window, between two reads of one run's marker.
\<close>

definition stayed_empty :: "duration option \<Rightarrow> end_answer list \<Rightarrow> bool" where
  "stayed_empty window l =
     (case window of
        None \<Rightarrow> (\<exists>pre q a d. l = pre @ [AnsDepth FeedDepth q a (Inr d)] \<and> depth_is_empty d)
      | Some w \<Rightarrow>
          (\<exists>run q rs l' q' a'. window_log run q rs l' \<and> rs \<noteq> [] \<and> fst (hd rs) + w \<le> fst (last rs)
             \<and> fst (hd rs) + w \<le> instant_max \<and> l = l' @ [AnsMarker q' a' (MarkerPresent run)] \<and> a' \<le> q' + END_CHECK_INTERVAL))"

text \<open>Then a receive took nothing, with no more than failed reads of the dead letters since.\<close>

definition took_nothing :: "duration option \<Rightarrow> end_answer list \<Rightarrow> bool" where
  "took_nothing window l \<longleftrightarrow>
     (\<exists>l' q a es. stayed_empty window l' \<and> list_all (\<lambda>(q, a, e). feed_error_class e \<noteq> Fatal) es
        \<and> l = l' @ AnsReceive q a False # map (\<lambda>(q, a, e). AnsDepth DeadLetterDepth q a (Inl e)) es)"

fun ended_on :: "duration option \<Rightarrow> end_answer list \<Rightarrow> end_outcome \<Rightarrow> bool" where
  "ended_on window l (EndFailed e) \<longleftrightarrow>
     feed_error_class e = Fatal \<and> (\<exists>l' of' q a. l = l' @ [AnsDepth of' q a (Inl e)])"
| "ended_on window l EndCompleted \<longleftrightarrow>
     (\<exists>l' q a d. took_nothing window l' \<and> depth_is_empty d \<and> l = l' @ [AnsDepth DeadLetterDepth q a (Inr d)])"
| "ended_on window l (EndStalled d) \<longleftrightarrow>
     (\<exists>l' q a. took_nothing window l' \<and> \<not> depth_is_empty d \<and> l = l' @ [AnsDepth DeadLetterDepth q a (Inr d)])"

section \<open>The phases follow the log\<close>

text \<open>The read outstanding is the one the phase asks for; inside a window it is in time.\<close>

fun pending_ok :: "duration option \<Rightarrow> end_phase \<Rightarrow> end_read \<times> instant \<Rightarrow> bool" where
  "pending_ok window (Opening due) (rd, q) \<longleftrightarrow> rd = (if window = None then RdDepth FeedDepth else RdMarker)"
| "pending_ok window (Window run start last' due) (rd, q) \<longleftrightarrow> rd = RdDepth FeedDepth \<and> q \<le> last' + END_CHECK_INTERVAL"
| "pending_ok window (Closing run) (rd, q) \<longleftrightarrow> rd = RdMarker"
| "pending_ok window Receiving (rd, q) \<longleftrightarrow> rd = RdReceive"
| "pending_ok window (DeadLetters due) (rd, q) \<longleftrightarrow> rd = RdDepth DeadLetterDepth"
| "pending_ok window (Ended out') (rd, q) \<longleftrightarrow> False"

fun phase_ok :: "duration option \<Rightarrow> end_phase \<Rightarrow> end_answer list \<Rightarrow> bool" where
  "phase_ok window (Opening due) l \<longleftrightarrow> True"
| "phase_ok window (Window run start last' due) l \<longleftrightarrow>
     window \<noteq> None \<and> (\<exists>q rs. window_log run q rs l
        \<and> start = (if rs = [] then None else Some (fst (hd rs))) \<and> last' = (if rs = [] then q else fst (last rs)))"
| "phase_ok window (Closing run) l \<longleftrightarrow>
     (\<exists>w q rs. window = Some w \<and> window_log run q rs l \<and> rs \<noteq> [] \<and> fst (hd rs) + w \<le> fst (last rs)
        \<and> fst (hd rs) + w \<le> instant_max)"
| "phase_ok window Receiving l \<longleftrightarrow> stayed_empty window l"
| "phase_ok window (DeadLetters due) l \<longleftrightarrow> took_nothing window l"
| "phase_ok window (Ended out') l \<longleftrightarrow> ended_on window l out'"

definition end_inv :: "end_check \<times> end_answer list \<Rightarrow> bool" where
  "end_inv s \<longleftrightarrow>
     phase_ok (ec_window (fst s)) (ec_phase (fst s)) (snd s)
     \<and> (case ec_pending (fst s) of None \<Rightarrow> True | Some p \<Rightarrow> pending_ok (ec_window (fst s)) (ec_phase (fst s)) p)"

lemma reads_empty_snoc:
  "reads_empty p (rs @ [(q, a, d)]) \<longleftrightarrow>
     reads_empty p rs \<and> q \<le> (if rs = [] then p else fst (last rs)) + END_CHECK_INTERVAL \<and> a \<le> q + END_CHECK_INTERVAL
     \<and> depth_is_empty d"
  by (induction p rs rule: reads_empty.induct) auto

lemma window_log_snoc:
  assumes "window_log run p rs l" "q \<le> (if rs = [] then p else fst (last rs)) + END_CHECK_INTERVAL" "a \<le> q + END_CHECK_INTERVAL"
    "depth_is_empty d"
  shows "window_log run p (rs @ [(q, a, d)]) (l @ [AnsDepth FeedDepth q a (Inr d)])"
  using assms by (auto simp: window_log_def reads_empty_snoc feed_reads_def)

lemma end_inv_next: "end_inv (c, l) \<Longrightarrow> end_inv (snd (end_next now c), l)"
  by (cases "ec_phase c")
    (auto simp: end_inv_def end_next_def Let_def phase_read_def reopen_def split: if_splits option.splits)

lemma end_inv_marker:
  assumes "end_inv (c, l)"
  shows "end_inv (end_event_step (EvMarker now m) c, l @ end_answers (EvMarker now m) c)"
proof (cases "\<exists>q. ec_pending c = Some (RdMarker, q)")
  case True
  then obtain q where q: "ec_pending c = Some (RdMarker, q)" by blast
  have opens: "window_log run q [] (l @ [AnsMarker q now (MarkerPresent run)])" if "now \<le> q + END_CHECK_INTERVAL" for run
    using that by (auto simp: window_log_def feed_reads_def)
  have phase: "(\<exists>due. ec_phase c = Opening due \<and> ec_window c \<noteq> None) \<or> (\<exists>run. ec_phase c = Closing run)"
    using assms q by (cases "ec_phase c") (auto simp: end_inv_def split: if_splits)
  show ?thesis
  proof (cases "now \<le> q + END_CHECK_INTERVAL \<and> (\<exists>run. m = MarkerPresent run)")
    case True
    then obtain run where run: "m = MarkerPresent run" "now \<le> q + END_CHECK_INTERVAL" by blast
    show ?thesis
    proof (cases "ec_phase c = Closing run")
      case True
      then obtain w p rs where "ec_window c = Some w" "window_log run p rs l" "rs \<noteq> []" "fst (hd rs) + w \<le> fst (last rs)"
          "fst (hd rs) + w \<le> instant_max"
        using assms by (auto simp: end_inv_def)
      then have "stayed_empty (ec_window c) (l @ [AnsMarker q now (MarkerPresent run)])"
        using run by (auto simp: stayed_empty_def)
      with True q run show ?thesis by (simp add: end_inv_def end_marker_read_def take_pending_def)
    next
      case False
      moreover have "ec_window c \<noteq> None"
        using phase assms by (auto simp: end_inv_def)
      ultimately show ?thesis
        using q run opens [of run] phase
        by (auto simp: end_inv_def end_marker_read_def take_pending_def Let_def intro!: exI [of _ q] exI [of _ "[]"])
    qed
  next
    case False
    with q show ?thesis
      by (cases m) (auto simp: end_inv_def end_marker_read_def take_pending_def reopen_def Let_def)
  qed
next
  case False
  then have "end_answers (EvMarker now m) c = []" "end_marker_read now m c = c"
    by (auto simp: end_marker_read_def take_pending_def split: option.splits end_read.splits)
  with assms show ?thesis by simp
qed

lemma end_inv_received:
  assumes "end_inv (c, l)"
  shows "end_inv (end_event_step (EvReceived now b) c, l @ end_answers (EvReceived now b) c)"
proof (cases "\<exists>q. ec_pending c = Some (RdReceive, q)")
  case True
  then obtain q where q: "ec_pending c = Some (RdReceive, q)" by blast
  then have phase: "ec_phase c = Receiving" "stayed_empty (ec_window c) l"
    using assms by (cases "ec_phase c"; auto simp: end_inv_def split: if_splits)+
  then have "took_nothing (ec_window c) (l @ [AnsReceive q now False])"
    unfolding took_nothing_def by (intro exI [of _ l] exI [of _ q] exI [of _ now] exI [of _ "[]"]) simp
  with q phase show ?thesis
    by (simp add: end_inv_def end_received_def take_pending_def end_restart_def Let_def)
next
  case False
  then have "end_answers (EvReceived now b) c = []" "end_received now b c = c"
    by (auto simp: end_received_def take_pending_def split: option.splits end_read.splits)
  with assms show ?thesis by simp
qed

lemma end_inv_restart:
  assumes "end_inv (c, l)"
  shows "end_inv (end_event_step (EvRestart now) c, l @ end_answers (EvRestart now) c)"
  using assms by (cases "ec_phase c") (auto simp: end_inv_def end_restart_def end_outcome_of_def Let_def)

lemma took_nothing_failed:
  assumes "took_nothing window l" "feed_error_class e \<noteq> Fatal"
  shows "took_nothing window (l @ [AnsDepth DeadLetterDepth q a (Inl e)])"
proof -
  obtain l' q' a' es where es: "stayed_empty window l'" "list_all (\<lambda>(q, a, e). feed_error_class e \<noteq> Fatal) es"
    "l = l' @ AnsReceive q' a' False # map (\<lambda>(q, a, e). AnsDepth DeadLetterDepth q a (Inl e)) es"
    using assms(1) unfolding took_nothing_def by blast
  show ?thesis
    unfolding took_nothing_def using es assms(2)
    by (intro exI [of _ l'] exI [of _ q'] exI [of _ a'] exI [of _ "es @ [(q, a, e)]"]) simp
qed

text \<open>An empty read of the feed, in time.\<close>

lemma end_inv_advance:
  assumes inv: "end_inv (c, l)" and q: "ec_pending c = Some (RdDepth FeedDepth, q)"
    and d: "depth_is_empty d" "ec_window c \<noteq> None \<Longrightarrow> now \<le> q + END_CHECK_INTERVAL"
  shows "end_inv (advance q (c\<lparr>ec_pending := None\<rparr>), l @ [AnsDepth FeedDepth q now (Inr d)])"
proof (cases "ec_phase c")
  case (Opening due)
  with inv q have "ec_window c = None" by (auto simp: end_inv_def split: if_splits)
  with Opening d show ?thesis by (auto simp: end_inv_def advance_def stayed_empty_def)
next
  case (Window run start last' due)
  obtain p rs where rs: "window_log run p rs l" "start = (if rs = [] then None else Some (fst (hd rs)))"
    "last' = (if rs = [] then p else fst (last rs))" and w: "ec_window c \<noteq> None"
    using inv Window by (auto simp: end_inv_def)
  have "q \<le> last' + END_CHECK_INTERVAL" using inv Window q by (simp add: end_inv_def)
  then have snoc: "window_log run p (rs @ [(q, now, d)]) (l @ [AnsDepth FeedDepth q now (Inr d)])"
    using rs d w by (intro window_log_snoc) auto
  have hd': "fst (hd (rs @ [(q, now, d)])) = (case start of None \<Rightarrow> q | Some s \<Rightarrow> s)"
    using rs(2) by (cases rs) auto
  obtain w where w: "ec_window c = Some w" using w by blast
  show ?thesis
    using Window w snoc hd'
    by (auto simp: end_inv_def advance_def checked_add_def Let_def intro!: exI [of _ p] exI [of _ "rs @ [(q, now, d)]"])
qed (use inv q in \<open>auto simp: end_inv_def\<close>)

lemma end_inv_depth:
  assumes inv: "end_inv (c, l)"
  shows "end_inv (end_event_step (EvDepth now r) c, l @ end_answers (EvDepth now r) c)"
proof (cases "\<exists>of' q. ec_pending c = Some (RdDepth of', q)")
  case True
  then obtain of' q where q: "ec_pending c = Some (RdDepth of', q)" by blast
  have dead: "took_nothing (ec_window c) l" if "of' = DeadLetterDepth"
    using inv q that by (cases "ec_phase c") (auto simp: end_inv_def split: if_splits)
  show ?thesis
  proof (cases r)
    case (Inl e)
    with q dead show ?thesis
      by (auto simp: end_inv_def end_depth_read_def Let_def reopen_def took_nothing_failed)
  next
    case (Inr d)
    show ?thesis
    proof (cases of')
      case FeedDepth
      with q Inr end_inv_advance [of c l q d now] inv show ?thesis
        by (auto simp: end_depth_read_def Let_def reopen_def end_inv_def not_less)
    next
      case DeadLetterDepth
      with q Inr dead show ?thesis
        by (auto simp: end_inv_def end_depth_read_def Let_def)
    qed
  qed
next
  case False
  then have "end_answers (EvDepth now r) c = []" "end_depth_read now r c = c"
    by (auto simp: end_depth_read_def split: option.splits end_read.splits)
  with inv show ?thesis by simp
qed

lemma end_inv_step: "end_inv s \<Longrightarrow> end_inv (end_step e s)"
  using end_inv_next end_inv_marker end_inv_depth end_inv_received end_inv_restart
  by (cases s; cases e) (simp_all add: end_step_def)

lemma end_inv_run: "end_inv s \<Longrightarrow> end_inv (fold end_step es s)"
  by (induction es arbitrary: s) (simp_all add: end_inv_step)

lemma reopen_window [simp]: "ec_window (reopen due c) = ec_window c"
  by (simp add: reopen_def)

lemma next_window [simp]: "ec_window (snd (end_next now c)) = ec_window c"
  by (cases "ec_phase c") (simp_all add: end_next_def Let_def split: sum.split)

lemma take_pending_window: "ec_window (snd (take_pending read c)) = ec_window c"
  by (auto simp: take_pending_def split: option.split)

lemma marker_read_window [simp]: "ec_window (end_marker_read now m c) = ec_window c"
  using take_pending_window [of RdMarker c]
  by (auto simp: end_marker_read_def Let_def split: prod.split option.split marker_read.split)

lemma restart_window [simp]: "ec_window (end_restart now c) = ec_window c"
  by (cases "ec_phase c") (simp_all add: end_restart_def Let_def)

lemma received_window [simp]: "ec_window (end_received now b c) = ec_window c"
  using take_pending_window [of RdReceive c]
  by (auto simp: end_received_def split: prod.split option.split)

lemma advance_window [simp]: "ec_window (advance q c) = ec_window c"
  by (cases "ec_phase c"; cases "ec_window c") (simp_all add: advance_def Let_def)

lemma depth_read_window [simp]: "ec_window (end_depth_read now r c) = ec_window c"
  by (auto simp: end_depth_read_def Let_def split: option.split end_read.split sum.split)

lemma window_keeps [simp]: "ec_window (end_event_step e c) = ec_window c"
  by (cases e) simp_all

lemma window_keeps_run: "ec_window (fst (fold end_step es s)) = ec_window (fst s)"
  by (induction es arbitrary: s) (simp_all add: end_step_def)

section \<open>When a job ends\<close>

lemma ended_run:
  assumes "end_inv (c, [])" "end_outcome_of (fst (fold end_step es (c, []))) = Some out'"
  shows "ended_on (ec_window c) (snd (fold end_step es (c, []))) out'"
  using end_inv_run [OF assms(1), of es] assms(2) window_keeps_run [of es "(c, [])"]
  by (cases "ec_phase (fst (fold end_step es (c, [])))") (auto simp: end_inv_def end_outcome_of_def)

text \<open>C39. The end check is sound, for every sequence of calls and every instant they carry, whatever order
  the answers come in. A windowed check ends as completed or stalled only on a log that closes with:
  an announced run's marker; reads of the feed that were all empty, none requested or answered later
  than the interval and spanning at least the window from the first to the last; the same run's marker
  again; a receive that took nothing; and the read of the dead letters that tells completed from
  stalled. An exact check needs one empty read in place of the window. A check fails only on
  a fatal error of the read it answers for. Nothing else, a restart included, stands in between.\<close>

theorem end_check_sound:
  "(\<forall>out'. end_outcome_of (fst (fold end_step es (windowed w now, []))) = Some out' \<longrightarrow>
      ended_on (Some w) (snd (fold end_step es (windowed w now, []))) out')
   \<and> (\<forall>out'. end_outcome_of (fst (fold end_step es (exact now, []))) = Some out' \<longrightarrow>
      ended_on None (snd (fold end_step es (exact now, []))) out')"
  using ended_run [of "windowed w now" es] ended_run [of "exact now" es]
  by (simp add: end_inv_def windowed_def exact_def)

text \<open>A window of 30 s read every 15 s.\<close>

definition end_demo_depth :: depth where "end_demo_depth = depth_new ''queue'' True"

definition end_demo :: "end_event list" where
  "end_demo =
     [EvNext 0, EvMarker 1 (MarkerPresent ''r1''), EvNext 1, EvDepth 2 (Inr end_demo_depth),
      EvNext (1 + READ_EVERY), EvDepth (2 + READ_EVERY) (Inr end_demo_depth),
      EvNext (1 + 2 * READ_EVERY), EvDepth (2 + 2 * READ_EVERY) (Inr end_demo_depth),
      EvNext (3 + 2 * READ_EVERY), EvMarker (4 + 2 * READ_EVERY) (MarkerPresent ''r1''),
      EvNext (5 + 2 * READ_EVERY), EvReceived (6 + 2 * READ_EVERY) False,
      EvNext (7 + 2 * READ_EVERY), EvDepth (8 + 2 * READ_EVERY) (Inr end_demo_depth)]"

theorem end_check_sound_witness:
  "end_outcome_of (fst (fold end_step end_demo (windowed (2 * READ_EVERY) 0, []))) = Some EndCompleted
   \<and> ended_on (Some (2 * READ_EVERY)) (snd (fold end_step end_demo (windowed (2 * READ_EVERY) 0, []))) EndCompleted"
proof -
  have "end_outcome_of (fst (fold end_step end_demo (windowed (2 * READ_EVERY) 0, []))) = Some EndCompleted"
    by (simp add: end_demo_def end_step_def windowed_def end_next_def phase_read_def end_marker_read_def take_pending_def
        end_depth_read_def advance_def end_received_def end_outcome_of_def end_demo_depth_def depth_new_def
        checked_add_def instant_max_def
        depth_is_empty_def READ_EVERY_def END_CHECK_INTERVAL_def)
  with end_check_sound [where es = end_demo and w = "2 * READ_EVERY" and now = 0] show ?thesis by blast
qed

text \<open>
  A source that polls on time: it answers each read at once, the feed every \<open>READ_EVERY\<close> from \<open>t\<close> on.
\<close>

definition empty_reads :: "instant \<Rightarrow> nat \<Rightarrow> depth \<Rightarrow> end_event list" where
  "empty_reads t n d = concat (map (\<lambda>i. [EvNext (t + i * READ_EVERY), EvDepth (t + i * READ_EVERY) (Inr d)]) [0..<n])"

definition finish_reads :: "string \<Rightarrow> instant \<Rightarrow> depth \<Rightarrow> end_event list" where
  "finish_reads run u dead =
     [EvNext u, EvMarker u (MarkerPresent run), EvNext u, EvReceived u False, EvNext u, EvDepth u (Inr dead)]"

lemma empty_reads_Suc:
  "empty_reads t (Suc n) d = empty_reads t n d @ [EvNext (t + n * READ_EVERY), EvDepth (t + n * READ_EVERY) (Inr d)]"
  by (simp add: empty_reads_def)

lemma READ_EVERY_bounds: "READ_EVERY \<le> END_CHECK_INTERVAL" "0 < READ_EVERY"
  by (simp_all add: READ_EVERY_def END_CHECK_INTERVAL_def)

text \<open>One read on time, inside the window.\<close>

lemma empty_read_step:
  assumes "ec_phase (fst s) = Window run start last' due" "ec_window (fst s) = Some w" "ec_pending (fst s) = None"
    "due \<le> q" "q \<le> last' + END_CHECK_INTERVAL" "depth_is_empty d"
  shows "ec_phase (fst (fold end_step [EvNext q, EvDepth q (Inr d)] s)) =
      (let start' = (case start of None \<Rightarrow> q | Some s \<Rightarrow> s)
       in if q \<ge> start' + w \<and> start' + w \<le> instant_max then Closing run else Window run (Some start') q (q + READ_EVERY))
    \<and> ec_pending (fst (fold end_step [EvNext q, EvDepth q (Inr d)] s)) = None"
  using assms by (simp add: end_step_def end_next_def phase_read_def end_depth_read_def advance_def checked_add_def Let_def)

lemma empty_reads_window:
  assumes s: "ec_phase (fst s) = Window run None t t" "ec_window (fst s) = Some w" "ec_pending (fst s) = None"
    and d: "depth_is_empty d" and n: "n * READ_EVERY < w"
  shows "ec_phase (fst (fold end_step (empty_reads t (Suc n) d) s)) =
      Window run (Some t) (t + n * READ_EVERY) (t + Suc n * READ_EVERY)
    \<and> ec_pending (fst (fold end_step (empty_reads t (Suc n) d) s)) = None"
  using n
proof (induction n)
  case 0
  have e: "empty_reads t (Suc 0) d = [EvNext t, EvDepth t (Inr d)]" by (simp add: empty_reads_def)
  show ?case unfolding e
    using empty_read_step [OF s order.refl _ d] 0 by simp
next
  case (Suc n)
  let ?s = "fold end_step (empty_reads t (Suc n) d) s"
  have IH: "ec_phase (fst ?s) = Window run (Some t) (t + n * READ_EVERY) (t + Suc n * READ_EVERY)"
    "ec_pending (fst ?s) = None"
    using Suc by simp_all
  have w: "ec_window (fst ?s) = Some w" using s(2) by (simp add: window_keeps_run)
  show ?case
    unfolding empty_reads_Suc [of t "Suc n"] fold_append comp_apply
    using empty_read_step [OF IH(1) w IH(2) order.refl _ d] READ_EVERY_bounds(1) Suc.prems by simp
qed

lemma empty_reads_close:
  assumes s: "ec_phase (fst s) = Window run None t t" "ec_window (fst s) = Some w" "ec_pending (fst s) = None"
    and d: "depth_is_empty d" and n: "w \<le> n * READ_EVERY" "n = 0 \<or> (n - 1) * READ_EVERY < w"
    and tw: "t + w \<le> instant_max"
  shows "ec_phase (fst (fold end_step (empty_reads t (Suc n) d) s)) = Closing run
    \<and> ec_pending (fst (fold end_step (empty_reads t (Suc n) d) s)) = None"
proof (cases n)
  case 0
  have e: "empty_reads t (Suc 0) d = [EvNext t, EvDepth t (Inr d)]" by (simp add: empty_reads_def)
  show ?thesis unfolding 0 e
    using empty_read_step [OF s order.refl _ d] n(1) tw 0 by simp
next
  case (Suc m)
  let ?s = "fold end_step (empty_reads t (Suc m) d) s"
  have IH: "ec_phase (fst ?s) = Window run (Some t) (t + m * READ_EVERY) (t + Suc m * READ_EVERY)" "ec_pending (fst ?s) = None"
    using empty_reads_window [OF s d] Suc n(2) by simp_all
  have w: "ec_window (fst ?s) = Some w" using s(2) by (simp add: window_keeps_run)
  show ?thesis
    unfolding Suc empty_reads_Suc [of t "Suc m"] fold_append comp_apply
    using empty_read_step [OF IH(1) w IH(2) order.refl _ d] READ_EVERY_bounds(1) n(1) tw Suc by simp
qed

lemma finish_reads_end:
  assumes "ec_phase (fst s) = Closing run" "ec_pending (fst s) = None"
  shows "end_outcome_of (fst (fold end_step (finish_reads run u dead) s)) =
    Some (if depth_is_empty dead then EndCompleted else EndStalled dead)"
  using assms
  by (simp add: finish_reads_def end_step_def end_next_def phase_read_def end_marker_read_def take_pending_def
      end_received_def end_depth_read_def end_outcome_of_def Let_def)

lemma ceiling_reads:
  fixes w r :: nat
  assumes "0 < r" and n: "n = (w + r - 1) div r"
  shows "w \<le> n * r" "n = 0 \<or> (n - 1) * r < w"
proof -
  have m: "n * r + (w + r - 1) mod r = w + r - 1" "(w + r - 1) mod r < r"
    using assms by (simp_all add: div_mult_mod_eq)
  then show "w \<le> n * r" using assms(1) by linarith
  have "(n - 1) * r = n * r - r" by (simp add: diff_mult_distrib)
  moreover have "n = 0 \<or> r \<le> n * r" by (cases n) simp_all
  ultimately show "n = 0 \<or> (n - 1) * r < w" using m assms(1) by linarith
qed

text \<open>Every read a source asks for from \<open>t\<close> on is logged as requested at \<open>t\<close> or later.\<close>

fun asked_from :: "instant \<Rightarrow> end_event \<Rightarrow> bool" where
  "asked_from t (EvNext now) \<longleftrightarrow> t \<le> now"
| "asked_from t _ \<longleftrightarrow> True"

definition logged_from :: "instant \<Rightarrow> end_check \<times> end_answer list \<Rightarrow> bool" where
  "logged_from t s \<longleftrightarrow> (\<forall>rd q. ec_pending (fst s) = Some (rd, q) \<longrightarrow> t \<le> q)
     \<and> (\<forall>of' q a r. AnsDepth of' q a r \<in> set (snd s) \<longrightarrow> t \<le> q)"

lemma next_pending: "ec_pending (snd (end_next now c)) = Some (rd, q) \<Longrightarrow> ec_pending c = Some (rd, q) \<or> q = now"
  by (cases "ec_phase c") (auto simp: end_next_def Let_def reopen_def phase_read_def split: if_splits option.splits)

lemma restart_pending: "ec_pending (end_restart now c) = Some p \<Longrightarrow> ec_pending c = Some p"
  by (cases "ec_phase c") (auto simp: end_restart_def Let_def)

lemma advance_pending [simp]: "ec_pending (advance q c) = ec_pending c"
  by (cases "ec_phase c"; cases "ec_window c") (simp_all add: advance_def Let_def)

lemma answer_pending:
  "ec_pending (end_marker_read now m c) = Some p \<Longrightarrow> ec_pending c = Some p"
  "ec_pending (end_depth_read now r c) = Some p \<Longrightarrow> ec_pending c = Some p"
  "ec_pending (end_received now b c) = Some p \<Longrightarrow> ec_pending c = Some p"
  by (auto simp: end_marker_read_def end_depth_read_def end_received_def take_pending_def reopen_def Let_def
      dest!: restart_pending split: option.splits if_splits marker_read.splits end_read.splits sum.splits)

lemma logged_from_step: "logged_from t s \<Longrightarrow> asked_from t e \<Longrightarrow> logged_from t (end_step e s)"
  by (cases e) (auto simp: logged_from_def end_step_def dest!: next_pending answer_pending restart_pending
      split: option.splits end_read.splits if_splits, metis+)

lemma logged_from_run: "logged_from t s \<Longrightarrow> list_all (asked_from t) es \<Longrightarrow> logged_from t (fold end_step es s)"
  by (induction es arbitrary: s) (simp_all add: logged_from_step)

lemma ended_on_window:
  assumes "ended_on (Some w) l out'" and "logged_from t (c, l)" and "instant_max < t + w"
  shows "\<exists>e. out' = EndFailed e"
proof (rule ccontr)
  assume "\<nexists>e. out' = EndFailed e"
  with assms(1) obtain l1 where "took_nothing (Some w) l1" "set l1 \<subseteq> set l"
    by (cases out') (auto, blast+)
  then obtain run q rs l' where rs: "window_log run q rs l'" "rs \<noteq> []" "fst (hd rs) + w \<le> instant_max" "set l' \<subseteq> set l"
    by (fastforce simp: took_nothing_def stayed_empty_def)
  obtain q1 a d where hd: "hd rs = (q1, a, d)" by (cases "hd rs")
  have "AnsDepth FeedDepth q1 a (Inr d) \<in> set l"
    using rs(1,2,4) hd hd_in_set [OF rs(2)] by (force simp: window_log_def feed_reads_def)
  with assms(2,3) rs(3) hd show False by (fastforce simp: logged_from_def)
qed

text \<open>C40. A job whose feed stays empty ends. Once a run's marker is there, reads of the feed that are answered
  at once, every \<open>READ_EVERY\<close>, and all empty, close a window after its length divided by \<open>READ_EVERY\<close>,
  rounded up, and one more; the marker, the receive and the dead letters read after it end the job,
  completed when no dead letter is left and stalled on the ones there are. The reads and their
  deadlines have to be instants the clock can show. A window that no such instant ends never closes:
  whatever is read from \<open>t\<close> on, the job ends on a fatal error or not at all.\<close>

theorem end_check_ends:
  assumes "depth_is_empty d"
    and "n = (w + READ_EVERY - 1) div READ_EVERY"
  shows "(t + n * READ_EVERY + END_CHECK_INTERVAL \<le> instant_max \<longrightarrow>
      end_outcome_of (fst (fold end_step
        ([EvNext t, EvMarker t (MarkerPresent run)] @ empty_reads t (Suc n) d @ finish_reads run (t + n * READ_EVERY) dead)
        (windowed w t, []))) = Some (if depth_is_empty dead then EndCompleted else EndStalled dead))
    \<and> (instant_max < t + w \<longrightarrow> list_all (asked_from t) es \<longrightarrow>
        (case end_outcome_of (fst (fold end_step es (windowed w now, []))) of
           None \<Rightarrow> True | Some out' \<Rightarrow> \<exists>e. out' = EndFailed e))"
proof (intro conjI impI)
  let ?s = "fold end_step [EvNext t, EvMarker t (MarkerPresent run)] (windowed w t, [])"
  have s: "ec_phase (fst ?s) = Window run None t t" "ec_window (fst ?s) = Some w" "ec_pending (fst ?s) = None"
    by (simp_all add: end_step_def windowed_def end_next_def phase_read_def end_marker_read_def take_pending_def)
  note n = ceiling_reads [OF READ_EVERY_bounds(2) assms(2)]
  assume "t + n * READ_EVERY + END_CHECK_INTERVAL \<le> instant_max"
  with n(1) have "t + w \<le> instant_max" by linarith
  note closed = empty_reads_close [OF s assms(1) n this]
  show "end_outcome_of (fst (fold end_step
      ([EvNext t, EvMarker t (MarkerPresent run)] @ empty_reads t (Suc n) d @ finish_reads run (t + n * READ_EVERY) dead)
      (windowed w t, []))) = Some (if depth_is_empty dead then EndCompleted else EndStalled dead)"
    unfolding fold_append comp_apply by (rule finish_reads_end [OF conjunct1 [OF closed] conjunct2 [OF closed]])
next
  let ?s = "fold end_step es (windowed w now, [])"
  assume late: "instant_max < t + w" and es: "list_all (asked_from t) es"
  have "logged_from t ?s"
    by (rule logged_from_run [OF _ es]) (simp add: logged_from_def windowed_def)
  with ended_on_window [of w "snd ?s" _ t "fst ?s"] ended_run [of "windowed w now" es] late
  show "case end_outcome_of (fst ?s) of None \<Rightarrow> True | Some out' \<Rightarrow> \<exists>e. out' = EndFailed e"
    by (auto simp: end_inv_def windowed_def split: option.split)
qed

theorem end_check_ends_witness:
  "depth_is_empty (depth_new ''queue'' True)
   \<and> end_outcome_of (fst (fold end_step
        ([EvNext 7, EvMarker 7 (MarkerPresent ''r1'')] @ empty_reads 7 (Suc 4) (depth_new ''queue'' True)
          @ finish_reads ''r1'' (7 + 4 * READ_EVERY) (depth_new ''queue'' True))
        (windowed (60 * 10 ^ 9) 7, []))) = Some EndCompleted"
proof -
  have "depth_is_empty (depth_new ''queue'' True)" "4 = (60 * 10 ^ 9 + READ_EVERY - 1) div READ_EVERY"
    by (simp_all add: depth_is_empty_def depth_new_def READ_EVERY_def)
  moreover have "7 + 4 * READ_EVERY + END_CHECK_INTERVAL \<le> instant_max"
    by (simp add: READ_EVERY_def END_CHECK_INTERVAL_def instant_max_def)
  ultimately show ?thesis
    using end_check_ends [of "depth_new ''queue'' True" 4 "60 * 10 ^ 9" 7 "''r1''" "depth_new ''queue'' True"]
    by presburger
qed

end
