(* ===== verification/Spec2Isabelle.thy ===== *)
theory Spec2Isabelle
  imports Pipeline_System Driver Split_Terminal S3_Split End_Check
begin

text \<open>
  \<^bold>\<open>Spate: an at-least-once data pipeline.\<close>
  Paths are below \<open>src/crates/\<close>; \<open>core\<close> is \<open>spate-core/src\<close> and \<open>s3\<close> is \<open>spate-s3/src\<close>.

  \<^bold>\<open>The program.\<close> A pipeline reads payloads from a source, pushes them through an operator chain
  and writes the encoded rows to the shards of a sink. Driver threads poll source lanes. For each
  poll batch a driver has the checkpointer's issuer make an acknowledgment handle, and pushes the
  payloads through its chain: a deserialiser, the operators, and a terminal stage, which encodes
  records into one buffer per shard, seals chunks and offers them to the shard's bounded queue. A
  worker per shard gathers chunks into batches and writes each through a task that retries over the
  shard's replicas, which circuit breakers guard. Every chunk carries handles of the batches its rows
  came from. When the last handle of a batch goes, delivered or failed, one message tells the
  checkpointer, which keeps a tracker per partition and commits the offset up to which everything is
  delivered. The S3 source gets its units of work from a feed: a fetcher reads a unit's objects or its
  byte range, a lane decodes and frames them into records, and an end check decides when a bounded
  job has read everything.

  \<^bold>\<open>Theories and code.\<close>
  \<^item> \<open>Prelude\<close>: identifiers, machine arithmetic, hash maps as association lists, runs of operations.
  \<^item> \<open>Acks\<close>: \<open>core/checkpoint/ack.rs\<close>. \<open>AckRef\<close>, \<open>AckState\<close> and \<open>AckSet\<close> over a heap of strong counts;
    \<open>heap_ok\<close> is Rust's ownership as a multiset of live handles. A batch sends exactly one message, and
    \<open>Failed\<close> iff some handle was failed.
  \<^item> \<open>Tracker\<close>: \<open>core/checkpoint/tracker.rs\<close>. The ring buffer refines a ledger of all batches (locale
    \<open>watermark_ledger\<close>); watermarks cover delivered prefixes only and a stall is permanent.
  \<^item> \<open>Checkpointer\<close>: \<open>core/checkpoint/checkpointer.rs\<close> and \<open>gate.rs\<close>; the operations and their effect on the
    trackers. \<open>Checkpoint_System\<close> interleaves them as an inductive step relation: threads issue and
    drop, the controller drains one message at a time, reassigns and takes watermarks. Watermarks are
    sound and complete, the assertions never fire, and draining ends.
  \<^item> \<open>Backpressure\<close>: \<open>core/backpressure.rs\<close>. Saturating budget, thresholds, pause and resume.
  \<^item> \<open>Breaker\<close>: \<open>core/sink/breaker.rs\<close>. Probe slots are accounted, closed replicas are not starved,
    deadlines are exact, and no replica becomes pickable behind the back of a parked task.
  \<^item> \<open>Errors\<close>, \<open>Records\<close>: \<open>core/error.rs\<close>, \<open>core/record.rs\<close> and the router of \<open>core/sink/mod.rs\<close>.
  \<^item> \<open>Sink_Queue\<close>, \<open>Handoff\<close>: \<open>core/sink/queue.rs\<close>, \<open>core/ops/handoff.rs\<close>. Chunks reach a shard in seal order,
    with the rows pushed, hold the batches of their rows, contain the encodings of the records routed there, and are charged
    to the budget; encode errors leave no trace. Locale \<open>chunk_queue\<close>.
  \<^item> \<open>Chain\<close>: \<open>core/ops/chain.rs\<close>, \<open>core/ops/mod.rs\<close>, \<open>core/deser.rs\<close>. Every combinator and the typed chain. Locale
    \<open>stage\<close>: a push accounts for every record at every stage, and a blocked push resumes exactly.
  \<^item> \<open>Chain_Flow\<close>: what the combinators of \<open>core/ops/chain.rs\<close> mean, record by record, as relations over the
    closures alone (\<open>map_gives\<close> and the like), and that a push which does not fail delivers exactly that to
    the sink and its shards. Locale \<open>tracked_stage\<close>, which extends \<open>stage\<close>; every combinator keeps it.
  \<^item> \<open>Split_Terminal\<close>: \<open>core/ops/split.rs\<close>. The fan-out terminal keeps the contracts \<open>stage\<close> and \<open>tracked_stage\<close>
    when its branches do (locales \<open>split_branches\<close>, \<open>tracked_branches\<close>), so chains that end in it lose no
    record either. The branches have their own queues and charge one budget.
  \<^item> \<open>Driver\<close>: \<open>core/pipeline/driver.rs\<close> with the messages of \<open>core/pipeline/mod.rs\<close>. A pass of the loop as one
    function of the driver and of what it observes. A polled batch is processed to its end or failed,
    messages are answered also after a failure, the pending ceiling holds and lanes take turns, with
    a wait for data only after a round without any.
  \<^item> \<open>Backoff\<close>, \<open>Sink_Config\<close>: \<open>core/backoff.rs\<close>, \<open>core/sink/config.rs\<close>, \<open>core/sink/failures.rs\<close>. Delay bounds for any
    rounding of \<open>f64\<close>; validation.
  \<^item> \<open>Write_Task\<close>, \<open>Worker\<close>: \<open>core/sink/worker.rs\<close>, as the pieces between its awaits. Acknowledgments follow
    durable writes, batches partition the stream, permits and probes are accounted, a return leaves
    nothing unsettled and a drain progresses.
  \<^item> \<open>Pipeline_System\<close>: drivers, queues, workers and checkpointer over one heap, in any interleaving. A
    committed offset covers only rows that are durable.
  \<^item> \<open>Slices\<close>, \<open>Framing\<close>: \<open>core/framing/mod.rs\<close> (locale \<open>record_framer\<close>) and \<open>spate-json/src/framing.rs\<close>. The NDJSON
    framer equals a whole-stream reference however its input is cut.
  \<^item> \<open>S3_Offset\<close>, \<open>S3_Range\<close>, \<open>S3_Error\<close>, \<open>S3_Framer\<close>, \<open>S3_Fetch\<close>, \<open>S3_Lane\<close>, \<open>S3_Split\<close>: \<open>s3/offset.rs\<close>, \<open>trim.rs\<close>,
    \<open>error.rs\<close>, \<open>framer.rs\<close>, \<open>fetch.rs\<close>, \<open>lane.rs\<close> with \<open>lane_ctx.rs\<close>, and \<open>split.rs\<close>. From the bytes in the store
    to the records a lane hands out: each once, in order, at its offset; byte ranges read together give
    the records of the object; the ranges an object is cut into reach the workers; unit ids.
  \<^item> \<open>Feed\<close>, \<open>End_Check\<close>: \<open>core/feed/mod.rs\<close>, \<open>feed/memory.rs\<close>, \<open>feed/end_check.rs\<close>. No unit and no wakeup is lost
    (locale \<open>feed_contract\<close>), a confirmation settles once, and a job ends only, and does end, when its
    feed stays empty over a window the clock can represent.

  \<^bold>\<open>How the code appears.\<close> A struct is a record, an enum a datatype, an operation a function with its
  Rust name, or that name with the type's in front, from the state to the result and the new state. A panic is \<^const>\<open>None\<close>, a
  \<open>Result\<close> a sum. Traits are records of functions, and what their users rely on is a locale, interpreted
  on the code's own instance. Third-party code (channels, codecs, the object store, JSON, digests,
  sorting) is an argument. Time is an argument. Concurrency is a sequence of atomic steps:
  a critical section, the code between two awaits, or one channel operation.

  \<^bold>\<open>Bounds and fuel.\<close> Loops are structural, or have a termination proof, or are partial functions into
  an option; the theorems that need a result prove that there is one. No fuel is used. A lane's poll
  takes the list of what it observes; a list that ends early is a poll still running, and
  prompt observations reach the end of the unit. Widths are kept where they matter: offsets wrap as
  \<open>i64\<close>, the budget saturates at \<open>usize\<close>, composite offsets and hashes are words, attempts and the wake
  counter wrap, and the sums of instants the code checks are checked; the other sums of instants and the
  counters that grow by one per row, chunk or batch are unbounded.

  \<^bold>\<open>Not modelled.\<close> The pipeline builder, runtime and controller loop (\<open>core/pipeline\<close>), the sink pool
  and the task and clock wrappers: spawning and timing by the tokio runtime and the operating
  system; the order of their calls is left free in the system theories. The chain builder (typestate),
  the source traits, the metrics registry, the admin server and telemetry. Configuration by serde.
  The Kafka, SQS and ClickHouse connectors, Avro and JSON deserialisation, and the S3 lister, unit reader and
  location parser: protocols of libraries whose behaviour is not in the repository, apart from the
  pieces above. Log lines and histograms. Generators, test kits, examples, benchmarks and tools.
\<close>

end
